(* ===== verification/Prelude.thy ===== *)
theory Prelude
  imports Main "HOL-Library.Sublist" "HOL-Library.Monad_Syntax"
begin

text \<open>
  Shared vocabulary of the development: searches over indices and lists that the
  program writes as iterator chains (\<open>position\<close>, \<open>rposition\<close>, \<open>filter_map\<close>, a
  decrementing \<open>while\<close>), their characteristic lemmas, and the collections the
  component theories extend.
\<close>

named_theorems text_consts \<open>definitions of the non-ASCII text constants\<close>
named_theorems panic_free \<open>operations that return a value on a well-formed state\<close>

subsection \<open>Decrementing loops\<close>

text \<open>
  \<open>while n > 0 && !P(n) { n -= 1 }\<close>: the largest \<open>k \<le> n\<close> with \<open>P k\<close>, or 0.
\<close>

fun back_off :: "(nat \<Rightarrow> bool) \<Rightarrow> nat \<Rightarrow> nat" where
  "back_off P 0 = 0"
| "back_off P (Suc n) = (if P (Suc n) then Suc n else back_off P n)"

lemma back_off_le [simp]: "back_off P n \<le> n"
  by (induction n) auto

lemma back_off_holds: "P 0 \<Longrightarrow> P (back_off P n)"
  by (induction n) auto

lemma back_off_holds_pos: "0 < back_off P n \<Longrightarrow> P (back_off P n)"
  by (induction n) auto

lemma back_off_greatest: "P k \<Longrightarrow> k \<le> n \<Longrightarrow> k \<le> back_off P n"
  by (induction n) (auto simp: le_Suc_eq)

lemma back_off_fixed: "P n \<Longrightarrow> back_off P n = n"
  by (cases n) auto

text \<open>\<open>while n < hi && !P(n) { n += 1 }\<close>: the least \<open>k\<close> with \<open>P k\<close>, or \<open>hi\<close>.\<close>

function step_up :: "(nat \<Rightarrow> bool) \<Rightarrow> nat \<Rightarrow> nat \<Rightarrow> nat" where
  "step_up P n hi = (if n < hi \<and> \<not> P n then step_up P (Suc n) hi else n)"
  by pat_completeness auto
termination
  by (relation "measure (\<lambda>(P, n, hi). hi - n)") auto

declare step_up.simps [simp del]

lemma step_up_bounds: "n \<le> hi \<Longrightarrow> n \<le> step_up P n hi \<and> step_up P n hi \<le> hi"
proof (induction P n hi rule: step_up.induct)
  case (1 P n hi)
  then show ?case
    by (cases "n < hi \<and> \<not> P n") (auto simp: step_up.simps [of P n hi])
qed

lemma step_up_holds: "n \<le> hi \<Longrightarrow> P hi \<Longrightarrow> P (step_up P n hi)"
proof (induction P n hi rule: step_up.induct)
  case (1 P n hi)
  then show ?case
    by (cases "n < hi \<and> \<not> P n") (auto simp: step_up.simps [of P n hi])
qed

subsection \<open>Positions in lists\<close>

fun position :: "('a \<Rightarrow> bool) \<Rightarrow> 'a list \<Rightarrow> nat option" where
  "position P [] = None"
| "position P (x # xs) = (if P x then Some 0 else map_option Suc (position P xs))"

fun rposition :: "('a \<Rightarrow> bool) \<Rightarrow> 'a list \<Rightarrow> nat option" where
  "rposition P [] = None"
| "rposition P (x # xs) =
     (case rposition P xs of Some i \<Rightarrow> Some (Suc i) | None \<Rightarrow> if P x then Some 0 else None)"

lemma position_None [simp]: "position P xs = None \<longleftrightarrow> (\<forall>x \<in> set xs. \<not> P x)"
  by (induction xs) auto

lemma position_Some:
  "position P xs = Some i \<Longrightarrow> i < length xs \<and> P (xs ! i) \<and> (\<forall>j < i. \<not> P (xs ! j))"
proof (induction xs arbitrary: i)
  case Nil
  then show ?case by simp
next
  case (Cons x xs)
  show ?case
  proof (cases "P x")
    case True
    with Cons.prems show ?thesis by simp
  next
    case False
    with Cons.prems obtain j where j: "position P xs = Some j" "i = Suc j"
      by auto
    from Cons.IH [OF j(1)] False j(2) show ?thesis
      by (auto simp: nth_Cons split: nat.splits)
  qed
qed

lemma rposition_None [simp]: "rposition P xs = None \<longleftrightarrow> (\<forall>x \<in> set xs. \<not> P x)"
  by (induction xs) (auto split: option.splits)

lemma rposition_Some:
  "rposition P xs = Some i \<Longrightarrow>
     i < length xs \<and> P (xs ! i) \<and> (\<forall>j. i < j \<and> j < length xs \<longrightarrow> \<not> P (xs ! j))"
proof (induction xs arbitrary: i)
  case Nil
  then show ?case by simp
next
  case (Cons x xs)
  show ?case
  proof (cases "rposition P xs")
    case None
    with Cons.prems have "i = 0" "P x" by (auto split: if_splits)
    moreover have "\<not> P (xs ! j)" if "j < length xs" for j
      using None that by auto
    ultimately show ?thesis
      by (auto simp: nth_Cons split: nat.splits)
  next
    case (Some j)
    with Cons.prems have "i = Suc j" by simp
    with Cons.IH [OF Some] show ?thesis
      by (auto simp: nth_Cons split: nat.splits)
  qed
qed

lemma position_lt: "position P xs = Some i \<Longrightarrow> i < length xs"
  using position_Some [of P xs i] by simp

lemma rposition_lt: "rposition P xs = Some i \<Longrightarrow> i < length xs"
  using rposition_Some [of P xs i] by simp

subsection \<open>Lists and options\<close>

text \<open>\<open>Iterator::filter_map\<close> is the library's \<open>List.map_filter\<close>, used under this name.\<close>

abbreviation filter_map :: "('a \<Rightarrow> 'b option) \<Rightarrow> 'a list \<Rightarrow> 'b list" where
  "filter_map f xs \<equiv> List.map_filter f xs"

abbreviation unwrap_or :: "'a option \<Rightarrow> 'a \<Rightarrow> 'a" where
  "unwrap_or x d \<equiv> (case x of Some y \<Rightarrow> y | None \<Rightarrow> d)"

definition or_else :: "'a option \<Rightarrow> 'a option \<Rightarrow> 'a option" where
  "or_else x y = (case x of Some a \<Rightarrow> Some a | None \<Rightarrow> y)"

lemma or_else_simps [simp]:
  "or_else None y = y" "or_else (Some a) y = Some a"
  by (simp_all add: or_else_def)

definition opt_filter :: "('a \<Rightarrow> bool) \<Rightarrow> 'a option \<Rightarrow> 'a option" where
  "opt_filter P x = (case x of Some a \<Rightarrow> if P a then Some a else None | None \<Rightarrow> None)"

lemma opt_filter_simps [simp]:
  "opt_filter P None = None" "opt_filter P (Some a) = (if P a then Some a else None)"
  by (simp_all add: opt_filter_def)

lemma set_filter_map: "y \<in> set (filter_map f xs) \<longleftrightarrow> (\<exists>x \<in> set xs. f x = Some y)"
  by (induction xs) (auto simp: List.map_filter_def)

lemma filter_map_simps [simp]:
  "filter_map f [] = []"
  "filter_map f (x # xs) = (case f x of Some y \<Rightarrow> y # filter_map f xs | None \<Rightarrow> filter_map f xs)"
  by (simp_all add: List.map_filter_def split: option.split)

text \<open>\<open>slice::join\<close>.\<close>

fun join :: "'a list \<Rightarrow> 'a list list \<Rightarrow> 'a list" where
  "join sep [] = []"
| "join sep [x] = x"
| "join sep (x # y # ys) = x @ sep @ join sep (y # ys)"

text \<open>Replacing the element at an index of a vector; an index out of range panics.\<close>

definition get_at :: "'a list \<Rightarrow> nat \<Rightarrow> 'a option" where
  "get_at xs i = (if i < length xs then Some (xs ! i) else None)"

definition modify_at :: "nat \<Rightarrow> ('a \<Rightarrow> 'a) \<Rightarrow> 'a list \<Rightarrow> 'a list option" where
  "modify_at i f xs = (if i < length xs then Some (xs[i := f (xs ! i)]) else None)"

lemma get_at_in [simp]: "i < length xs \<Longrightarrow> get_at xs i = Some (xs ! i)"
  by (simp add: get_at_def)

lemma modify_at_in [simp]: "i < length xs \<Longrightarrow> modify_at i f xs = Some (xs[i := f (xs ! i)])"
  by (simp add: modify_at_def)

lemma get_at_Some: "get_at xs i = Some x \<longleftrightarrow> i < length xs \<and> x = xs ! i"
  by (auto simp: get_at_def)

text \<open>A decision between two branches, for proofs over long \<open>match\<close> arms.\<close>

lemma if_cases: "(b \<Longrightarrow> P x) \<Longrightarrow> (\<not> b \<Longrightarrow> P y) \<Longrightarrow> P (if b then x else y)"
  by simp

lemma takeWhile_eq_prefix:
  "length (takeWhile (\<lambda>(l, r). l = r) (zip xs ys)) = k \<Longrightarrow> take k xs = take k ys"
proof (induction xs ys arbitrary: k rule: list_induct2')
  case (4 x xs y ys)
  then show ?case by (cases k) (auto split: if_splits)
qed auto

lemma takeWhile_zip_greatest:
  "take k xs = take k ys \<Longrightarrow> k \<le> length xs \<Longrightarrow> k \<le> length ys \<Longrightarrow>
     k \<le> length (takeWhile (\<lambda>(l, r). l = r) (zip xs ys))"
proof (induction xs ys arbitrary: k rule: list_induct2')
  case (4 x xs y ys)
  then show ?case by (cases k) auto
qed auto

lemma takeWhile_zip_le:
  "length (takeWhile P (zip xs ys)) \<le> min (length xs) (length ys)"
  using length_takeWhile_le [of P "zip xs ys"] by simp

end
