(* ===== verification/RustStr.thy ===== *)
theory RustStr
  imports Prelude
begin

text \<open>
  Rust's \<open>str\<close>: a sequence of bytes that is well-formed UTF-8. A HOL \<open>char\<close> is 8
  bits, so a \<open>string\<close> is a byte sequence, \<open>length\<close> is \<open>str::len\<close>, and a byte offset
  of the program is a \<open>nat\<close>. A Rust \<open>char\<close> is the group of bytes that encodes it
  (a \<open>string\<close> of one to four bytes). The functions below are the standard library's
  methods the program calls.
\<close>

subsection \<open>Character boundaries\<close>

text \<open>A continuation byte has the form 10xxxxxx.\<close>

fun is_cont :: "char \<Rightarrow> bool" where
  "is_cont (Char b0 b1 b2 b3 b4 b5 b6 b7) = (b7 \<and> \<not> b6)"

text \<open>\<open>str::is_char_boundary\<close>.\<close>

definition char_boundary :: "string \<Rightarrow> nat \<Rightarrow> bool" where
  "char_boundary s i =
     (i = 0 \<or> (if i \<ge> length s then i = length s else \<not> is_cont (s ! i)))"

lemma char_boundary_0 [simp]: "char_boundary s 0"
  by (simp add: char_boundary_def)

lemma char_boundary_len [simp]: "char_boundary s (length s)"
  by (simp add: char_boundary_def)

lemma char_boundary_le: "char_boundary s i \<Longrightarrow> i \<le> length s"
  by (auto simp: char_boundary_def split: if_splits)

text \<open>\<open>&s[a..b]\<close>: panics (\<open>None\<close>) unless both ends are boundaries and in order.\<close>

definition str_slice :: "string \<Rightarrow> nat \<Rightarrow> nat \<Rightarrow> string option" where
  "str_slice s a b =
     (if a \<le> b \<and> b \<le> length s \<and> char_boundary s a \<and> char_boundary s b
      then Some (take (b - a) (drop a s)) else None)"

text \<open>\<open>str::chars\<close>: the byte groups of the string's scalar values.\<close>

function chars :: "string \<Rightarrow> string list" where
  "chars [] = []"
| "chars (b # bs) = (b # takeWhile is_cont bs) # chars (dropWhile is_cont bs)"
  by pat_completeness auto
termination
  by (relation "measure length") (auto simp: le_imp_less_Suc length_dropWhile_le)

text \<open>One well-formed encoded scalar value (Table 3-7 of the Unicode standard).\<close>

definition in_bytes :: "nat \<Rightarrow> nat \<Rightarrow> char \<Rightarrow> bool" where
  "in_bytes lo hi c = (lo \<le> (of_char c :: nat) \<and> (of_char c :: nat) \<le> hi)"

fun utf8_char :: "string \<Rightarrow> bool" where
  "utf8_char [a] = in_bytes 0 0x7F a"
| "utf8_char [a, b] = (in_bytes 0xC2 0xDF a \<and> is_cont b)"
| "utf8_char [a, b, c] =
     (is_cont c \<and>
      (if in_bytes 0xE0 0xE0 a then in_bytes 0xA0 0xBF b
       else if in_bytes 0xED 0xED a then in_bytes 0x80 0x9F b
       else in_bytes 0xE1 0xEF a \<and> is_cont b))"
| "utf8_char [a, b, c, d] =
     (is_cont c \<and> is_cont d \<and>
      (if in_bytes 0xF0 0xF0 a then in_bytes 0x90 0xBF b
       else if in_bytes 0xF4 0xF4 a then in_bytes 0x80 0x8F b
       else in_bytes 0xF1 0xF3 a \<and> is_cont b))"
| "utf8_char _ = False"

definition utf8 :: "string \<Rightarrow> bool" where
  "utf8 s = list_all utf8_char (chars s)"

lemma concat_chars [simp]: "concat (chars s) = s"
  by (induction s rule: chars.induct) auto

lemma chars_Nil_iff [simp]: "chars s = [] \<longleftrightarrow> s = []"
  by (cases s) auto

lemma chars_nonempty: "g \<in> set (chars s) \<Longrightarrow> g \<noteq> []"
  by (induction s rule: chars.induct) auto

lemma utf8_Nil [simp]: "utf8 []"
  by (simp add: utf8_def)

text \<open>A cut between two parts is a boundary unless the second starts with a continuation.\<close>

definition clean_start :: "string \<Rightarrow> bool" where
  "clean_start s = (case s of [] \<Rightarrow> True | b # _ \<Rightarrow> \<not> is_cont b)"

lemma clean_start_simps [simp]:
  "clean_start []" "clean_start (b # bs) = (\<not> is_cont b)"
  by (simp_all add: clean_start_def)

lemma clean_start_dropWhile [simp]: "clean_start (dropWhile is_cont s)"
  by (induction s) auto

lemma chars_append: "clean_start b \<Longrightarrow> chars (a @ b) = chars a @ chars b"
proof (induction a rule: chars.induct)
  case 1
  then show ?case by simp
next
  case (2 x xs)
  have tw: "takeWhile is_cont (xs @ b) = takeWhile is_cont xs"
    using 2(2) by (cases b) (auto simp: takeWhile_append takeWhile_eq_all_conv [THEN iffD2])
  show ?case
  proof (cases "\<forall>y \<in> set xs. is_cont y")
    case True
    then have "dropWhile is_cont (xs @ b) = b"
      using 2(2) by (cases b) auto
    then show ?thesis using tw True by simp
  next
    case False
    then have "dropWhile is_cont (xs @ b) = dropWhile is_cont xs @ b"
      by (auto simp: dropWhile_append)
    then show ?thesis using 2 tw by simp
  qed
qed

lemma in_bytes_lead:
  "in_bytes lo hi c \<Longrightarrow> hi < 128 \<or> 192 \<le> lo \<Longrightarrow> \<not> is_cont c"
proof (cases c)
  case (Char b0 b1 b2 b3 b4 b5 b6 b7)
  assume "in_bytes lo hi c" "hi < 128 \<or> 192 \<le> lo"
  then show ?thesis
    by (cases b7; cases b6)
       (auto simp: Char in_bytes_def of_char_def horner_sum_simps of_bool_def split: if_splits)
qed

lemma in_bytes_cont:
  "in_bytes lo hi c \<Longrightarrow> 128 \<le> lo \<Longrightarrow> hi \<le> 191 \<Longrightarrow> is_cont c"
proof (cases c)
  case (Char b0 b1 b2 b3 b4 b5 b6 b7)
  assume "in_bytes lo hi c" "128 \<le> lo" "hi \<le> 191"
  then show ?thesis
    by (cases b7; cases b6)
       (auto simp: Char in_bytes_def of_char_def horner_sum_simps of_bool_def split: if_splits)
qed

lemma utf8_char_shape:
  "utf8_char g \<Longrightarrow> \<exists>b bs. g = b # bs \<and> \<not> is_cont b \<and> (\<forall>c \<in> set bs. is_cont c)"
  by (cases g rule: utf8_char.cases)
     (auto split: if_splits dest: in_bytes_lead in_bytes_cont)

lemma chars_utf8_char [simp]: "utf8_char g \<Longrightarrow> chars g = [g]"
  using utf8_char_shape [of g] by (auto simp: takeWhile_eq_all_conv [THEN iffD2])

lemma utf8_clean_start: "utf8 s \<Longrightarrow> clean_start s"
proof (cases s)
  case (Cons b bs)
  assume "utf8 s"
  with Cons have "utf8_char (b # takeWhile is_cont bs)"
    by (simp add: utf8_def)
  from utf8_char_shape [OF this] Cons show ?thesis by auto
qed simp

lemma utf8_append: "utf8 a \<Longrightarrow> utf8 b \<Longrightarrow> utf8 (a @ b)"
  using chars_append [OF utf8_clean_start] by (simp add: utf8_def)

lemma utf8_append_split: "clean_start b \<Longrightarrow> utf8 (a @ b) \<longleftrightarrow> utf8 a \<and> utf8 b"
  by (simp add: utf8_def chars_append)

lemma utf8_concat: "(\<And>g. g \<in> set gs \<Longrightarrow> utf8 g) \<Longrightarrow> utf8 (concat gs)"
  by (induction gs) (auto intro: utf8_append)

lemma utf8_single: "utf8_char g \<Longrightarrow> utf8 g"
  by (simp add: utf8_def)

lemma clean_start_drop: "char_boundary s i \<Longrightarrow> 0 < i \<Longrightarrow> clean_start (drop i s)"
  by (cases "i < length s") (auto simp: char_boundary_def Cons_nth_drop_Suc [symmetric])

lemma clean_start_drop_utf8: "utf8 s \<Longrightarrow> char_boundary s i \<Longrightarrow> clean_start (drop i s)"
  by (cases i) (auto intro: utf8_clean_start clean_start_drop)

lemma char_boundary_append:
  "char_boundary (a @ b) (length a) \<longleftrightarrow> a = [] \<or> clean_start b"
  by (cases b) (auto simp: char_boundary_def)

lemma utf8_take_drop:
  assumes "utf8 s" "char_boundary s i"
  shows "utf8 (take i s)" "utf8 (drop i s)"
  using utf8_append_split [OF clean_start_drop_utf8 [OF assms], of "take i s"] assms(1)
  by simp_all

lemma char_boundary_drop:
  "char_boundary s a \<Longrightarrow> char_boundary s b \<Longrightarrow> a \<le> b \<Longrightarrow> char_boundary (drop a s) (b - a)"
  by (auto simp: char_boundary_def split: if_splits)

lemma str_slice_utf8: "utf8 s \<Longrightarrow> str_slice s a b = Some t \<Longrightarrow> utf8 t"
  unfolding str_slice_def
  by (auto split: if_splits intro!: utf8_take_drop char_boundary_drop)

lemma str_slice_Some:
  "str_slice s a b = Some t \<longleftrightarrow>
     a \<le> b \<and> char_boundary s a \<and> char_boundary s b \<and> t = take (b - a) (drop a s)"
  by (auto simp: str_slice_def dest: char_boundary_le)

lemma str_slice_len: "str_slice s a b = Some t \<Longrightarrow> length t = b - a"
  by (auto simp: str_slice_def split: if_splits)

text \<open>Every byte below 128 is a character of its own, so ASCII text is well-formed.\<close>

definition ascii :: "string \<Rightarrow> bool" where
  "ascii s = list_all (in_bytes 0 0x7F) s"

lemma ascii_utf8: "ascii s \<Longrightarrow> utf8 s"
proof (induction s)
  case (Cons b s)
  then have "utf8 [b]" "utf8 s"
    using in_bytes_lead [of 0 127 b] by (simp_all add: ascii_def utf8_def)
  then show ?case using utf8_append [of "[b]" s] by simp
qed simp

subsection \<open>Searching and cutting\<close>

definition starts_with :: "string \<Rightarrow> string \<Rightarrow> bool" where
  "starts_with s p = prefix p s"

definition ends_with :: "string \<Rightarrow> string \<Rightarrow> bool" where
  "ends_with s p = suffix p s"

text \<open>\<open>str::strip_prefix\<close>.\<close>

fun strip_prefix :: "string \<Rightarrow> string \<Rightarrow> string option" where
  "strip_prefix s [] = Some s"
| "strip_prefix [] (p # ps) = None"
| "strip_prefix (c # cs) (p # ps) = (if c = p then strip_prefix cs ps else None)"

lemma strip_prefix_Some: "strip_prefix s p = Some r \<longleftrightarrow> s = p @ r"
  by (induction s p rule: strip_prefix.induct) auto

text \<open>
  \<open>str::find\<close> and \<open>str::rfind\<close> with a string pattern: the least and the greatest byte
  offset where the pattern occurs.
\<close>

fun str_find :: "string \<Rightarrow> string \<Rightarrow> nat option" where
  "str_find [] p = (if p = [] then Some 0 else None)"
| "str_find (c # cs) p = (if prefix p (c # cs) then Some 0 else map_option Suc (str_find cs p))"

fun str_rfind :: "string \<Rightarrow> string \<Rightarrow> nat option" where
  "str_rfind [] p = (if p = [] then Some 0 else None)"
| "str_rfind (c # cs) p =
     (case str_rfind cs p of
        Some i \<Rightarrow> Some (Suc i)
      | None \<Rightarrow> if prefix p (c # cs) then Some 0 else None)"

definition contains :: "string \<Rightarrow> string \<Rightarrow> bool" where
  "contains s p = (str_find s p \<noteq> None)"

text \<open>The pattern occurs at an offset.\<close>

definition match_at :: "string \<Rightarrow> string \<Rightarrow> nat \<Rightarrow> bool" where
  "match_at s p i = (i \<le> length s \<and> prefix p (drop i s))"

lemma match_at_0: "match_at s p 0 \<longleftrightarrow> prefix p s"
  by (simp add: match_at_def)

lemma match_at_Suc: "match_at (c # cs) p (Suc i) \<longleftrightarrow> match_at cs p i"
  by (simp add: match_at_def)

lemma match_at_Nil: "match_at [] p i \<longleftrightarrow> i = 0 \<and> p = []"
  by (auto simp: match_at_def)

lemma str_find_Some:
  "str_find s p = Some i \<Longrightarrow> match_at s p i \<and> (\<forall>j < i. \<not> match_at s p j)"
proof (induction s arbitrary: i)
  case Nil
  then show ?case by (auto simp: match_at_Nil split: if_splits)
next
  case (Cons c cs)
  show ?case
  proof (cases "prefix p (c # cs)")
    case True
    with Cons.prems show ?thesis by (simp add: match_at_0)
  next
    case False
    with Cons.prems obtain k where k: "str_find cs p = Some k" "i = Suc k" by auto
    have "\<not> match_at (c # cs) p j" if "j < i" for j
      using that False Cons.IH [OF k(1)] k(2) by (cases j) (auto simp: match_at_0 match_at_Suc)
    then show ?thesis using Cons.IH [OF k(1)] k(2) by (auto simp: match_at_Suc)
  qed
qed

lemma str_find_None: "str_find s p = None \<longleftrightarrow> (\<forall>i. \<not> match_at s p i)"
proof (induction s)
  case Nil
  then show ?case by (auto simp: match_at_Nil)
next
  case (Cons c cs)
  have "(\<forall>i. \<not> match_at (c # cs) p i) \<longleftrightarrow>
      \<not> prefix p (c # cs) \<and> (\<forall>i. \<not> match_at cs p i)"
    by (metis match_at_0 match_at_Suc not0_implies_Suc)
  with Cons show ?case by simp
qed

lemma str_rfind_None: "str_rfind s p = None \<longleftrightarrow> (\<forall>i. \<not> match_at s p i)"
proof (induction s)
  case Nil
  then show ?case by (auto simp: match_at_Nil)
next
  case (Cons c cs)
  have "(\<forall>i. \<not> match_at (c # cs) p i) \<longleftrightarrow>
      \<not> prefix p (c # cs) \<and> (\<forall>i. \<not> match_at cs p i)"
    by (metis match_at_0 match_at_Suc not0_implies_Suc)
  with Cons show ?case by (auto split: option.splits)
qed

lemma str_rfind_Some:
  "str_rfind s p = Some i \<Longrightarrow> match_at s p i \<and> (\<forall>j > i. \<not> match_at s p j)"
proof (induction s arbitrary: i)
  case Nil
  then show ?case by (auto simp: match_at_Nil split: if_splits)
next
  case (Cons c cs)
  show ?case
  proof (cases "str_rfind cs p")
    case None
    with Cons.prems have "i = 0" "prefix p (c # cs)" by (auto split: if_splits)
    moreover have "\<not> match_at (c # cs) p (Suc j)" for j
      using None by (simp add: str_rfind_None match_at_Suc)
    ultimately show ?thesis
      by (metis gr0_implies_Suc match_at_0)
  next
    case (Some k)
    with Cons.prems have "i = Suc k" by simp
    moreover have "\<not> match_at (c # cs) p j" if "j > i" for j
      using that Cons.IH [OF Some] \<open>i = Suc k\<close> by (cases j) (auto simp: match_at_Suc)
    ultimately show ?thesis using Cons.IH [OF Some] by (auto simp: match_at_Suc)
  qed
qed

lemma contains_iff: "contains s p \<longleftrightarrow> (\<exists>i. match_at s p i)"
  by (simp add: contains_def str_find_None)

lemma match_at_length: "match_at s p i \<Longrightarrow> i + length p \<le> length s"
  unfolding match_at_def by (metis add.commute le_diff_conv2 length_drop prefix_length_le)

end
