(* ===== verification/RopeText.thy ===== *)
theory RopeText
  imports RustStr "HOL-Library.Word"
begin

unbundle bit_operations_syntax

text \<open>
  Points and text summaries of \<open>crates/rope/src\<close>: \<open>Point\<close> and \<open>PointUtf16\<close> with their arithmetic
  and order, \<open>TextSummary\<close> with its construction from a text and its addition, and the
  \<open>TextDimension\<close> contract that every measure of a rope keeps: the measure of a text is the sum of
  the measures of its parts. Rows, columns and counts are \<open>nat\<close>: the source keeps them in \<open>u32\<close> and
  \<open>usize\<close>, which is the same for texts under 4 GiB; only the order packs them into a machine word.
\<close>

subsection \<open>Points\<close>

record text_point =
  row :: nat
  column :: nat

text \<open>\<open>PointUtf16\<close> has the same fields and, word for word, the same operations.\<close>

type_synonym point_utf16 = text_point

definition new_point :: "nat \<Rightarrow> nat \<Rightarrow> text_point" where
  "new_point r c = \<lparr>row = r, column = c\<rparr>"

definition point_zero :: text_point where
  "point_zero = new_point 0 0"

definition point_is_zero :: "text_point \<Rightarrow> bool" where
  "point_is_zero p \<longleftrightarrow> row p = 0 \<and> column p = 0"

definition point_add :: "text_point \<Rightarrow> text_point \<Rightarrow> text_point" where
  "point_add p q =
     (if row q = 0 then new_point (row p) (column p + column q)
      else new_point (row p + row q) (column q))"

definition point_key :: "text_point \<Rightarrow> 64 word" where
  "point_key p = push_bit 32 (of_nat (row p)) OR of_nat (column p)"

definition point_less :: "text_point \<Rightarrow> text_point \<Rightarrow> bool" where
  "point_less p q \<longleftrightarrow> point_key p < point_key q"

text \<open>The subtraction of the columns panics in a debug build when the points are out of order.\<close>

definition point_sub :: "text_point \<Rightarrow> text_point \<Rightarrow> text_point" where
  "point_sub p q =
     (if row p = row q then new_point 0 (column p - column q)
      else new_point (row p - row q) (column p))"

definition point_saturating_sub :: "text_point \<Rightarrow> text_point \<Rightarrow> text_point" where
  "point_saturating_sub p q = (if point_less p q then point_zero else point_sub p q)"

text \<open>\<open>str::split('\n')\<close> keeps every line, the last one included.\<close>

fun split_newline :: "string \<Rightarrow> string list" where
  "split_newline [] = [[]]"
| "split_newline (c # cs) =
     (if c = CHR 0x0A then [] # split_newline cs
      else case split_newline cs of l # ls \<Rightarrow> (c # l) # ls | [] \<Rightarrow> [[c]])"

definition point_parse_str :: "string \<Rightarrow> text_point" where
  "point_parse_str s =
     foldl (\<lambda>point (row, line). new_point row (length line)) point_zero (enumerate 0 (split_newline s))"

subsection \<open>Text summaries\<close>

record text_summary =
  ts_len :: nat
  ts_chars :: nat
  ts_len_utf16 :: nat
  ts_lines :: text_point
  ts_first_line_chars :: nat
  ts_last_line_chars :: nat
  ts_last_line_len_utf16 :: nat
  ts_longest_row :: nat
  ts_longest_row_chars :: nat

text \<open>\<open>char::len_utf16\<close>: the characters of four bytes are the surrogate pairs.\<close>

definition len_utf16 :: "string \<Rightarrow> nat" where
  "len_utf16 g = (if length g = 4 then 2 else 1)"

definition ts_zero :: text_summary where
  "ts_zero = \<lparr>ts_len = 0, ts_chars = 0, ts_len_utf16 = 0, ts_lines = point_zero,
     ts_first_line_chars = 0, ts_last_line_chars = 0, ts_last_line_len_utf16 = 0,
     ts_longest_row = 0, ts_longest_row_chars = 0\<rparr>"

text \<open>One turn of the loop of \<open>TextSummary::from(&str)\<close>.\<close>

definition ts_push_char :: "string \<Rightarrow> text_summary \<Rightarrow> text_summary" where
  "ts_push_char c s =
     (let s = s\<lparr>ts_chars := ts_chars s + 1, ts_len_utf16 := ts_len_utf16 s + len_utf16 c\<rparr>;
          s = (if c = [CHR 0x0A]
               then s\<lparr>ts_lines := point_add (ts_lines s) (new_point 1 0), ts_last_line_len_utf16 := 0,
                      ts_last_line_chars := 0\<rparr>
               else s\<lparr>ts_lines := (ts_lines s)\<lparr>column := column (ts_lines s) + length c\<rparr>,
                      ts_last_line_len_utf16 := ts_last_line_len_utf16 s + len_utf16 c,
                      ts_last_line_chars := ts_last_line_chars s + 1\<rparr>);
          s = (if row (ts_lines s) = 0 then s\<lparr>ts_first_line_chars := ts_last_line_chars s\<rparr> else s)
      in if ts_last_line_chars s > ts_longest_row_chars s
         then s\<lparr>ts_longest_row := row (ts_lines s), ts_longest_row_chars := ts_last_line_chars s\<rparr>
         else s)"

definition text_summary_from :: "string \<Rightarrow> text_summary" where
  "text_summary_from t = (fold ts_push_char (chars t) ts_zero)\<lparr>ts_len := length t\<rparr>"

definition ts_lines_utf16 :: "text_summary \<Rightarrow> point_utf16" where
  "ts_lines_utf16 s = new_point (row (ts_lines s)) (ts_last_line_len_utf16 s)"

definition ts_newline :: text_summary where
  "ts_newline = \<lparr>ts_len = 1, ts_chars = 1, ts_len_utf16 = 1, ts_lines = new_point 1 0,
     ts_first_line_chars = 0, ts_last_line_chars = 0, ts_last_line_len_utf16 = 0,
     ts_longest_row = 0, ts_longest_row_chars = 0\<rparr>"

definition ts_add_newline :: "text_summary \<Rightarrow> text_summary" where
  "ts_add_newline s =
     s\<lparr>ts_len := ts_len s + 1,
       ts_len_utf16 := ts_len_utf16 s + (ts_len_utf16 s + 1),
       ts_last_line_chars := 0,
       ts_last_line_len_utf16 := 0,
       ts_lines := point_add (ts_lines s) (new_point 1 0)\<rparr>"

definition ts_add :: "text_summary \<Rightarrow> text_summary \<Rightarrow> text_summary" where
  "ts_add s t =
     (let joined_chars = ts_last_line_chars s + ts_first_line_chars t;
          s = (if joined_chars > ts_longest_row_chars s
               then s\<lparr>ts_longest_row := row (ts_lines s), ts_longest_row_chars := joined_chars\<rparr> else s);
          s = (if ts_longest_row_chars t > ts_longest_row_chars s
               then s\<lparr>ts_longest_row := row (ts_lines s) + ts_longest_row t,
                      ts_longest_row_chars := ts_longest_row_chars t\<rparr> else s);
          s = (if row (ts_lines s) = 0
               then s\<lparr>ts_first_line_chars := ts_first_line_chars s + ts_first_line_chars t\<rparr> else s);
          s = (if row (ts_lines t) = 0
               then s\<lparr>ts_last_line_chars := ts_last_line_chars s + ts_first_line_chars t,
                      ts_last_line_len_utf16 := ts_last_line_len_utf16 s + ts_last_line_len_utf16 t\<rparr>
               else s\<lparr>ts_last_line_chars := ts_last_line_chars t,
                      ts_last_line_len_utf16 := ts_last_line_len_utf16 t\<rparr>)
      in s\<lparr>ts_chars := ts_chars s + ts_chars t, ts_len := ts_len s + ts_len t,
           ts_len_utf16 := ts_len_utf16 s + ts_len_utf16 t,
           ts_lines := point_add (ts_lines s) (ts_lines t)\<rparr>)"

subsection \<open>The order and arithmetic of points\<close>

lemma new_point_simps [simp]: "row (new_point r c) = r" "column (new_point r c) = c"
  by (simp_all add: new_point_def)

lemma new_point_eq [simp]: "new_point (row p) (column p) = p"
  by (simp add: new_point_def)

lemma new_point_inject [simp]: "new_point r c = new_point r' c' \<longleftrightarrow> r = r' \<and> c = c'"
  by (simp add: new_point_def)

lemma point_eqI: "row p = row q \<Longrightarrow> column p = column q \<Longrightarrow> p = q" for p :: text_point
  by (cases p; cases q) simp

lemma point_zero_simps [simp]: "row point_zero = 0" "column point_zero = 0"
  by (simp_all add: point_zero_def)

lemma point_add_simps [simp]:
  "row (point_add p q) = row p + row q"
  "column (point_add p q) = (if row q = 0 then column p + column q else column q)"
  by (simp_all add: point_add_def)

lemma point_add_assoc: "point_add (point_add p q) r = point_add p (point_add q r)"
  by (rule point_eqI) auto

lemma point_add_zero [simp]: "point_add point_zero p = p" "point_add p point_zero = p"
  by (rule point_eqI; simp)+

text \<open>Packing the row above the column compares points by row first.\<close>

lemma unat_point_key:
  assumes "row p < 2 ^ 32" "column p < 2 ^ 32"
  shows "unat (point_key p) = row p * 2 ^ 32 + column p"
proof -
  have small: "unat (of_nat (row p) :: 64 word) = row p" "unat (of_nat (column p) :: 64 word) = column p"
    using assms by (simp_all add: unat_of_nat)
  have disjoint: "push_bit 32 (of_nat (row p)) AND (of_nat (column p) :: 64 word) = 0"
  proof (rule bit_word_eqI)
    fix i assume "i < LENGTH(64)"
    have "\<not> bit (column p) i" if "32 \<le> i"
    proof -
      have "(2 :: nat) ^ 32 \<le> 2 ^ i" using that by (intro power_increasing) simp_all
      then have "column p < 2 ^ i" using assms(2) by linarith
      then show ?thesis by (simp add: bit_iff_odd)
    qed
    then show "bit (push_bit 32 (of_nat (row p)) AND (of_nat (column p) :: 64 word)) i = bit 0 i"
      by (auto simp: bit_and_iff bit_push_bit_iff bit_of_nat_iff)
  qed
  have shifted: "unat (push_bit 32 (of_nat (row p) :: 64 word)) = row p * 2 ^ 32"
    using assms(1) by (simp add: push_bit_eq_mult unat_word_ariths unat_of_nat)
  have "point_key p = push_bit 32 (of_nat (row p)) + of_nat (column p)"
    unfolding point_key_def by (rule disjunctive_add_eq_or [OF disjoint, symmetric])
  moreover have "row p * 2 ^ 32 + column p < 2 ^ 64" using assms by simp
  ultimately show ?thesis using shifted small by (simp add: unat_word_ariths)
qed

lemma point_less_iff:
  assumes "row p < 2 ^ 32" "column p < 2 ^ 32" "row q < 2 ^ 32" "column q < 2 ^ 32"
  shows "point_less p q \<longleftrightarrow> row p < row q \<or> row p = row q \<and> column p < column q"
  unfolding point_less_def word_less_nat_alt unat_point_key [OF assms(1,2)] unat_point_key [OF assms(3,4)]
  using assms by auto

text \<open>Subtraction undoes addition, from the left.\<close>

lemma point_sub_add: "point_sub (point_add p q) p = q"
  by (rule point_eqI) (auto simp: point_sub_def)

lemma point_add_sub:
  assumes "row q < row p \<or> row q = row p \<and> column q \<le> column p"
  shows "point_add q (point_sub p q) = p"
  by (rule point_eqI) (use assms in \<open>auto simp: point_sub_def\<close>)

text \<open>The last point of a text: its lines less one, and the length of the last.\<close>

lemma split_newline_nonempty [simp]: "split_newline s \<noteq> []"
  by (cases s) (auto split: list.splits)

lemma point_parse_str_eq:
  "point_parse_str s = new_point (length (split_newline s) - 1) (length (last (split_newline s)))"
proof -
  have "foldl (\<lambda>point (row, line). new_point row (length line)) p (enumerate n ls) =
      (if ls = [] then p else new_point (n + (length ls - 1)) (length (last ls)))" for ls :: "string list" and n p
    by (induction ls arbitrary: n p) auto
  then show ?thesis by (simp add: point_parse_str_def)
qed

subsection \<open>The summary of a text is the sum of the summaries of its parts\<close>

text \<open>On the first row the counts of the first line, the last line and the longest row agree.\<close>

definition ts_wf :: "text_summary \<Rightarrow> bool" where
  "ts_wf s \<longleftrightarrow>
     (row (ts_lines s) = 0 \<longrightarrow>
        ts_first_line_chars s = ts_last_line_chars s \<and> ts_longest_row_chars s = ts_last_line_chars s \<and>
        ts_longest_row s = 0) \<and>
     ts_last_line_chars s \<le> ts_longest_row_chars s \<and> ts_first_line_chars s \<le> ts_longest_row_chars s \<and>
     (ts_first_line_chars s = ts_longest_row_chars s \<longrightarrow> ts_longest_row s = 0)"

text \<open>The fields of a sum and of a pushed character.\<close>

lemma ts_add_simps [simp]:
  "ts_len (ts_add s t) = ts_len s + ts_len t"
  "ts_chars (ts_add s t) = ts_chars s + ts_chars t"
  "ts_len_utf16 (ts_add s t) = ts_len_utf16 s + ts_len_utf16 t"
  "ts_lines (ts_add s t) = point_add (ts_lines s) (ts_lines t)"
  "ts_first_line_chars (ts_add s t) =
     ts_first_line_chars s + (if row (ts_lines s) = 0 then ts_first_line_chars t else 0)"
  "ts_last_line_chars (ts_add s t) =
     (if row (ts_lines t) = 0 then ts_last_line_chars s + ts_first_line_chars t else ts_last_line_chars t)"
  "ts_last_line_len_utf16 (ts_add s t) =
     (if row (ts_lines t) = 0 then ts_last_line_len_utf16 s + ts_last_line_len_utf16 t
      else ts_last_line_len_utf16 t)"
  "ts_longest_row_chars (ts_add s t) =
     max (max (ts_longest_row_chars s) (ts_last_line_chars s + ts_first_line_chars t)) (ts_longest_row_chars t)"
  "ts_longest_row (ts_add s t) =
     (if ts_longest_row_chars t > max (ts_longest_row_chars s) (ts_last_line_chars s + ts_first_line_chars t)
      then row (ts_lines s) + ts_longest_row t
      else if ts_last_line_chars s + ts_first_line_chars t > ts_longest_row_chars s then row (ts_lines s)
      else ts_longest_row s)"
  by (simp_all add: ts_add_def Let_def max_def)

lemma ts_push_newline_simps [simp]:
  "ts_len (ts_push_char [CHR 0x0A] s) = ts_len s"
  "ts_chars (ts_push_char [CHR 0x0A] s) = ts_chars s + 1"
  "ts_len_utf16 (ts_push_char [CHR 0x0A] s) = ts_len_utf16 s + 1"
  "ts_lines (ts_push_char [CHR 0x0A] s) = new_point (row (ts_lines s) + 1) 0"
  "ts_first_line_chars (ts_push_char [CHR 0x0A] s) = ts_first_line_chars s"
  "ts_last_line_chars (ts_push_char [CHR 0x0A] s) = 0"
  "ts_last_line_len_utf16 (ts_push_char [CHR 0x0A] s) = 0"
  "ts_longest_row_chars (ts_push_char [CHR 0x0A] s) = ts_longest_row_chars s"
  "ts_longest_row (ts_push_char [CHR 0x0A] s) = ts_longest_row s"
  by (simp_all add: ts_push_char_def Let_def len_utf16_def point_add_def)

lemma ts_push_other_simps [simp]:
  assumes "c \<noteq> [CHR 0x0A]"
  shows
  "ts_len (ts_push_char c s) = ts_len s"
  "ts_chars (ts_push_char c s) = ts_chars s + 1"
  "ts_len_utf16 (ts_push_char c s) = ts_len_utf16 s + len_utf16 c"
  "ts_lines (ts_push_char c s) = new_point (row (ts_lines s)) (column (ts_lines s) + length c)"
  "ts_first_line_chars (ts_push_char c s) =
     (if row (ts_lines s) = 0 then ts_last_line_chars s + 1 else ts_first_line_chars s)"
  "ts_last_line_chars (ts_push_char c s) = ts_last_line_chars s + 1"
  "ts_last_line_len_utf16 (ts_push_char c s) = ts_last_line_len_utf16 s + len_utf16 c"
  "ts_longest_row_chars (ts_push_char c s) = max (ts_longest_row_chars s) (ts_last_line_chars s + 1)"
  "ts_longest_row (ts_push_char c s) =
     (if ts_last_line_chars s + 1 > ts_longest_row_chars s then row (ts_lines s) else ts_longest_row s)"
  using assms by (simp_all add: ts_push_char_def Let_def point_eqI)

lemma ts_wf_zero [simp]: "ts_wf ts_zero"
  by (simp add: ts_wf_def ts_zero_def)

lemma ts_wf_push_char: "ts_wf s \<Longrightarrow> ts_wf (ts_push_char c s)"
  by (cases "c = [CHR 0x0A]"; cases "row (ts_lines s) = 0") (auto simp: ts_wf_def)

lemma ts_eqI:
  fixes s t :: text_summary
  assumes "ts_len s = ts_len t" "ts_chars s = ts_chars t" "ts_len_utf16 s = ts_len_utf16 t"
    "ts_lines s = ts_lines t" "ts_first_line_chars s = ts_first_line_chars t"
    "ts_last_line_chars s = ts_last_line_chars t" "ts_last_line_len_utf16 s = ts_last_line_len_utf16 t"
    "ts_longest_row s = ts_longest_row t" "ts_longest_row_chars s = ts_longest_row_chars t"
  shows "s = t"
  using assms by (cases s; cases t) simp

lemma ts_add_zero [simp]: "ts_wf s \<Longrightarrow> ts_add ts_zero s = s" "ts_wf s \<Longrightarrow> ts_add s ts_zero = s"
  by (rule ts_eqI; auto simp: ts_zero_def ts_wf_def max_def)+

lemma ts_add_push_char:
  assumes "ts_wf s" "ts_wf t"
  shows "ts_add s (ts_push_char c t) = ts_push_char c (ts_add s t)"
proof (cases "c = [CHR 0x0A]")
  case True
  show ?thesis by (rule ts_eqI) (simp_all add: True point_eqI)
next
  case False
  show ?thesis
    by (cases "row (ts_lines t) = 0"; rule ts_eqI)
       (use False assms in \<open>auto simp: ts_wf_def max_def intro!: point_eqI\<close>)
qed

lemma ts_wf_fold: "ts_wf s \<Longrightarrow> ts_wf (fold ts_push_char cs s)"
  by (induction cs arbitrary: s) (auto intro: ts_wf_push_char)

lemma ts_fold_add:
  assumes "ts_wf s" "ts_wf t"
  shows "fold ts_push_char cs (ts_add s t) = ts_add s (fold ts_push_char cs t)"
  using assms(2)
proof (induction cs arbitrary: t)
  case (Cons c cs)
  then show ?case using assms(1) by (simp add: ts_add_push_char [symmetric] ts_wf_push_char)
qed simp

lemma ts_fold_len: "ts_len (fold ts_push_char cs s) = ts_len s"
  by (induction cs arbitrary: s) (auto simp: ts_push_char_def Let_def)

lemma ts_wf_from: "ts_wf (text_summary_from t)"
  using ts_wf_fold [OF ts_wf_zero, of "chars t"] by (simp add: text_summary_from_def ts_wf_def)

lemma ts_add_len: "ts_add (s\<lparr>ts_len := m\<rparr>) (t\<lparr>ts_len := n\<rparr>) = (ts_add s t)\<lparr>ts_len := m + n\<rparr>"
  by (rule ts_eqI) (auto simp: ts_add_def Let_def)

lemma text_summary_from_append_lemma:
  assumes "utf8 b"
  shows "text_summary_from (a @ b) = ts_add (text_summary_from a) (text_summary_from b)"
proof -
  have "chars (a @ b) = chars a @ chars b" using assms by (intro chars_append utf8_clean_start)
  moreover have "fold ts_push_char (chars b) (fold ts_push_char (chars a) ts_zero) =
      ts_add (fold ts_push_char (chars a) ts_zero) (fold ts_push_char (chars b) ts_zero)"
    using ts_fold_add [of "fold ts_push_char (chars a) ts_zero" ts_zero "chars b"] by (simp add: ts_wf_fold)
  ultimately show ?thesis by (simp add: text_summary_from_def ts_add_len)
qed

text \<open>Appending a newline is adding its summary, and the texts of two summaries may be added in any grouping.\<close>

lemma text_summary_newline: "text_summary_from [CHR 0x0A] = ts_newline"
  by (rule ts_eqI) (simp_all add: text_summary_from_def ts_newline_def ts_zero_def)

text \<open>
  \<open>add_newline\<close> is not that: it doubles the UTF-16 length before adding one, and leaves the count
  of characters as it was.
\<close>

lemma add_newline_counts:
  "ts_len_utf16 (ts_add_newline s) = 2 * ts_len_utf16 s + 1"
  "ts_chars (ts_add_newline s) = ts_chars s"
  "ts_len_utf16 (ts_add s ts_newline) = ts_len_utf16 s + 1"
  "ts_chars (ts_add s ts_newline) = ts_chars s + 1"
  by (simp_all add: ts_add_newline_def ts_newline_def)

subsection \<open>The measures of a rope\<close>

text \<open>
  \<open>TextDimension\<close>: what a measure reads off a summary, and how two measures add. Every measure
  of a concatenation is then the sum of the measures of the parts.
\<close>

locale text_dimension =
  fixes from_text_summary :: "text_summary \<Rightarrow> 'd"
    and add_dim :: "'d \<Rightarrow> 'd \<Rightarrow> 'd"
    and zero_dim :: 'd
  assumes from_add: "from_text_summary (ts_add s t) = add_dim (from_text_summary s) (from_text_summary t)"
    and from_zero: "from_text_summary ts_zero = zero_dim"
begin

definition dim :: "string \<Rightarrow> 'd" where
  "dim t = from_text_summary (text_summary_from t)"

lemma dim_Nil: "dim [] = zero_dim"
proof -
  have "text_summary_from [] = ts_zero" by (simp add: text_summary_from_def ts_zero_def)
  then show ?thesis by (simp add: dim_def from_zero)
qed

lemma dim_append: "utf8 b \<Longrightarrow> dim (a @ b) = add_dim (dim a) (dim b)"
  by (simp add: dim_def text_summary_from_append_lemma from_add)

lemma dim_concat: "list_all utf8 ts \<Longrightarrow> foldl (\<lambda>d t. add_dim d (dim t)) zero_dim ts = dim (concat ts)"
  by (induction ts rule: rev_induct) (auto simp: dim_Nil dim_append)

end

interpretation td_usize: text_dimension ts_len plus 0
  by unfold_locales (simp_all add: ts_zero_def)

interpretation td_offset_utf16: text_dimension ts_len_utf16 plus 0
  by unfold_locales (simp_all add: ts_zero_def)

interpretation td_point: text_dimension ts_lines point_add point_zero
  by unfold_locales (simp_all add: ts_zero_def)

interpretation td_point_utf16: text_dimension ts_lines_utf16 point_add point_zero
  by unfold_locales (simp_all add: ts_zero_def ts_lines_utf16_def point_eqI)

interpretation td_text_summary: text_dimension "\<lambda>s. s" ts_add ts_zero
  by unfold_locales simp_all

end
