(* ===== verification/BitSelect.thy ===== *)
theory BitSelect
  imports "HOL-Library.Word" Prelude
begin

unbundle bit_operations_syntax

text \<open>
  Bit counting on machine words, and the branch-free search for the n-th set bit of
  \<open>crates/rope/src/chunk.rs\<close>: the parallel counts of the fields of a word, and the descent over
  them. The reference definition is the bit itself with the number of set bits below it.
\<close>

subsection \<open>Counting bits\<close>

definition count_ones :: "'a::len word \<Rightarrow> nat" where
  "count_ones w = length (filter (bit w) [0 ..< LENGTH('a)])"

definition leading_zeros :: "'a::len word \<Rightarrow> nat" where
  "leading_zeros w = length (takeWhile (\<lambda>i. \<not> bit w i) (rev [0 ..< LENGTH('a)]))"

definition trailing_zeros :: "'a::len word \<Rightarrow> nat" where
  "trailing_zeros w = length (takeWhile (\<lambda>i. \<not> bit w i) [0 ..< LENGTH('a)])"

text \<open>\<open>unbounded_shl\<close> and \<open>unbounded_shr\<close> are \<open>push_bit\<close> and \<open>drop_bit\<close>, which shift everything out.\<close>

definition reverse_bits :: "'a::len word \<Rightarrow> 'a word" where
  "reverse_bits w = horner_sum of_bool 2 (rev (map (bit w) [0 ..< LENGTH('a)]))"

subsection \<open>The search\<close>

text \<open>One halving: the field counts \<open>t\<close>, and the position moves down by \<open>256 >> k\<close> when that is less than \<open>n\<close>.\<close>

definition select_halve :: "64 word \<Rightarrow> nat \<Rightarrow> 64 word \<times> 64 word \<Rightarrow> 64 word \<times> 64 word" where
  "select_halve t k sn = (case sn of (s, n) \<Rightarrow>
     (s - drop_bit k ((t - n) AND 256), n - (t AND drop_bit 8 (t - n))))"

definition pair_counts :: "64 word \<Rightarrow> 64 word" where
  "pair_counts v = v - (drop_bit 1 v AND 0x5555555555555555)"

definition nibble_counts :: "64 word \<Rightarrow> 64 word" where
  "nibble_counts a = (a AND 0x3333333333333333) + (drop_bit 2 a AND 0x3333333333333333)"

definition byte_counts :: "64 word \<Rightarrow> 64 word" where
  "byte_counts b = (b + drop_bit 4 b) AND 0x0F0F0F0F0F0F0F0F"

definition short_counts :: "64 word \<Rightarrow> 64 word" where
  "short_counts c = (c + drop_bit 8 c) AND 0x00FF00FF00FF00FF"

definition nth_set_bit_u64 :: "64 word \<Rightarrow> 64 word \<Rightarrow> 64 word" where
  "nth_set_bit_u64 v n =
     (let v = reverse_bits v;
          a = pair_counts v; b = nibble_counts a; c = byte_counts b; d = short_counts c;
          (s, n) = select_halve (drop_bit 32 d + drop_bit 48 d) 3 (64, n);
          (s, n) = select_halve (drop_bit (unat (s - 16)) d AND 0xFF) 4 (s, n);
          (s, n) = select_halve (drop_bit (unat (s - 8)) c AND 0xF) 5 (s, n);
          (s, n) = select_halve (drop_bit (unat (s - 4)) b AND 0x7) 6 (s, n);
          (s, n) = select_halve (drop_bit (unat (s - 2)) a AND 0x3) 7 (s, n);
          t = drop_bit (unat (s - 1)) v AND 0x1;
          s = s - drop_bit 8 ((t - n) AND 256)
      in 65 - s - 1)"

definition nth_set_bit :: "128 word \<Rightarrow> nat \<Rightarrow> nat" where
  "nth_set_bit v n =
     (let low = (ucast v :: 64 word); high = (ucast (drop_bit 64 v) :: 64 word); low_count = count_ones low
      in if n > low_count then 64 + unat (nth_set_bit_u64 high (of_nat (n - low_count)))
         else unat (nth_set_bit_u64 low (of_nat n)))"

subsection \<open>Numbers by their digits\<close>

primrec digs :: "nat \<Rightarrow> nat \<Rightarrow> (nat \<Rightarrow> nat) \<Rightarrow> nat" where
  "digs B 0 f = 0"
| "digs B (Suc K) f = f 0 + B * digs B K (\<lambda>k. f (Suc k))"

lemma digs_numeral: "digs B (numeral K) f = f 0 + B * digs B (pred_numeral K) (\<lambda>k. f (Suc k))"
  by (simp add: numeral_eq_Suc)

lemma digs_cong: "(\<And>k. k < K \<Longrightarrow> f k = g k) \<Longrightarrow> digs B K f = digs B K g"
proof (induction K arbitrary: f g)
  case (Suc K)
  have "digs B K (\<lambda>k. f (Suc k)) = digs B K (\<lambda>k. g (Suc k))" by (rule Suc.IH) (simp add: Suc.prems)
  then show ?case by (simp add: Suc.prems)
qed simp

lemma digs_less: "(\<And>k. k < K \<Longrightarrow> f k < B) \<Longrightarrow> digs B K f < B ^ K"
proof (induction K arbitrary: f)
  case (Suc K)
  have "digs B K (\<lambda>k. f (Suc k)) < B ^ K" by (rule Suc.IH) (simp add: Suc.prems)
  then have "Suc (digs B K (\<lambda>k. f (Suc k))) \<le> B ^ K" by simp
  then have "B * Suc (digs B K (\<lambda>k. f (Suc k))) \<le> B * B ^ K" by (rule mult_le_mono2)
  moreover have "f 0 < B" by (rule Suc.prems) simp
  ultimately show ?case by simp
qed simp

lemma digs_div:
  "(\<And>k. k < K \<Longrightarrow> f k < B) \<Longrightarrow> j \<le> K \<Longrightarrow> digs B K f div B ^ j = digs B (K - j) (\<lambda>k. f (j + k))"
proof (induction j arbitrary: K f)
  case (Suc j)
  then obtain K' where K: "K = Suc K'" by (cases K) auto
  have "digs B K f div B ^ Suc j = (f 0 + B * digs B K' (\<lambda>k. f (Suc k))) div B div B ^ j"
    by (simp add: K div_mult2_eq)
  also have "(f 0 + B * digs B K' (\<lambda>k. f (Suc k))) div B = digs B K' (\<lambda>k. f (Suc k))"
  proof -
    have "f 0 < B" by (rule Suc.prems(1)) (simp add: K)
    then show ?thesis by simp
  qed
  also have "\<dots> div B ^ j = digs B (K' - j) (\<lambda>k. f (Suc (j + k)))"
    by (subst Suc.IH) (use Suc.prems K in auto)
  finally show ?case by (simp add: K)
qed simp

lemma digs_mod: "M dvd B \<Longrightarrow> f 0 < M \<Longrightarrow> 0 < K \<Longrightarrow> digs B K f mod M = f 0"
  by (cases K) (auto elim!: dvdE simp: mult.assoc)

lemma digs_digit:
  "(\<And>k. k < K \<Longrightarrow> f k < B) \<Longrightarrow> j < K \<Longrightarrow> M dvd B \<Longrightarrow> f j < M \<Longrightarrow> digs B K f div B ^ j mod M = f j"
  by (simp add: digs_div digs_mod)

lemma digs_add: "digs B K f + digs B K g = digs B K (\<lambda>k. f k + g k)"
proof (induction K arbitrary: f g)
  case (Suc K)
  show ?case by (simp add: Suc.IH [symmetric] algebra_simps)
qed simp

lemma digs_pairs: "digs B (2 * K) f = digs (B * B) K (\<lambda>k. f (2 * k) + B * f (Suc (2 * k)))"
  by (induction K arbitrary: f) (auto simp: algebra_simps)

lemma digs_extend: "digs B (Suc K) f = digs B K f + B ^ K * f K"
proof (induction K arbitrary: f)
  case (Suc K)
  have "digs B (Suc (Suc K)) f = f 0 + B * digs B (Suc K) (\<lambda>k. f (Suc k))" by simp
  also have "\<dots> = (f 0 + B * digs B K (\<lambda>k. f (Suc k))) + B ^ Suc K * f (Suc K)"
    by (simp only: Suc.IH) (simp add: algebra_simps)
  finally show ?case by simp
qed simp

text \<open>The digits of a word in base 2 are its bits.\<close>

lemma digs_horner: "digs 2 K f = horner_sum id 2 (map f [0 ..< K])"
proof (induction K arbitrary: f)
  case (Suc K)
  have "[0 ..< Suc K] = 0 # map Suc [0 ..< K]" by (simp add: upt_conv_Cons map_Suc_upt)
  then show ?case using Suc by (simp add: comp_def)
qed simp

lemma unat_digs: "unat (w :: 'a::len word) = digs 2 LENGTH('a) (\<lambda>k. of_bool (bit w k))"
proof -
  have "digs 2 LENGTH('a) (\<lambda>k. of_bool (bit w k)) = horner_sum of_bool 2 (map (bit (unat w)) [0 ..< LENGTH('a)])"
    unfolding digs_horner by (simp add: horner_sum_eq_sum bit_unsigned_iff)
  then show ?thesis by (simp add: horner_sum_bit_eq_take_bit take_bit_nat_eq_self)
qed

lemma and_split:
  fixes a b c d :: nat
  assumes "a < 2 ^ n" "c < 2 ^ n"
  shows "(a + 2 ^ n * b) AND (c + 2 ^ n * d) = (a AND c) + 2 ^ n * (b AND d)"
proof -
  let ?x = "a + 2 ^ n * b" and ?y = "c + 2 ^ n * d"
  have "take_bit n ?x = a" "take_bit n ?y = c" "drop_bit n ?x = b" "drop_bit n ?y = d"
    using assms by (simp_all add: take_bit_eq_mod drop_bit_eq_div)
  then have "take_bit n (?x AND ?y) = a AND c" "drop_bit n (?x AND ?y) = b AND d"
    by (simp_all only: take_bit_and drop_bit_and)
  then show ?thesis using bits_ident [of n "?x AND ?y"] by (simp add: push_bit_eq_mult mult.commute)
qed

lemma and_low: "(a :: nat) < 2 ^ w \<Longrightarrow> (a + 2 ^ w * b) AND (2 ^ w - 1) = a"
proof -
  assume a: "a < 2 ^ w"
  have "a AND mask w = a"
    using a by (simp add: take_bit_nat_eq_self flip: take_bit_eq_mask)
  then have "a AND (2 ^ w - 1) = a" by (simp add: mask_eq_exp_minus_1)
  then show ?thesis using and_split [of a w "2 ^ w - 1" b 0] a by simp
qed

lemma digs_and_even:
  "(\<And>k. g k < 2 ^ w) \<Longrightarrow>
   digs (2 ^ w) (2 * K) g AND digs (2 ^ w * 2 ^ w) K (\<lambda>_. 2 ^ w - 1) = digs (2 ^ w * 2 ^ w) K (\<lambda>k. g (2 * k))"
proof (induction K arbitrary: g)
  case (Suc K)
  let ?B = "2 ^ w :: nat"
  have low: "g 0 + ?B * g 1 < 2 ^ (w + w)" "?B - 1 < 2 ^ (w + w)"
  proof -
    have "g 0 + ?B * g 1 < ?B + ?B * g 1" using Suc.prems [of 0] by simp
    also have "\<dots> = ?B * Suc (g 1)" by simp
    also have "\<dots> \<le> ?B * ?B" using Suc.prems [of 1] by (intro mult_le_mono2) simp
    finally show "g 0 + ?B * g 1 < 2 ^ (w + w)" by (simp add: power_add)
    have "?B - 1 < ?B" by simp
    also have "\<dots> \<le> ?B * ?B" by simp
    finally show "?B - 1 < 2 ^ (w + w)" by (simp add: power_add)
  qed
  have left: "digs ?B (2 * Suc K) g = (g 0 + ?B * g 1) + 2 ^ (w + w) * digs ?B (2 * K) (\<lambda>k. g (Suc (Suc k)))"
    by (simp add: algebra_simps power_add)
  have right: "digs (?B * ?B) (Suc K) (\<lambda>_. ?B - 1) = (?B - 1) + 2 ^ (w + w) * digs (?B * ?B) K (\<lambda>_. ?B - 1)"
    by (simp add: power_add)
  have "digs ?B (2 * Suc K) g AND digs (?B * ?B) (Suc K) (\<lambda>_. ?B - 1) =
      ((g 0 + ?B * g 1) AND (?B - 1)) +
      2 ^ (w + w) * (digs ?B (2 * K) (\<lambda>k. g (Suc (Suc k))) AND digs (?B * ?B) K (\<lambda>_. ?B - 1))"
    unfolding left right by (rule and_split [OF low])
  also have "\<dots> = g 0 + ?B * ?B * digs (?B * ?B) K (\<lambda>k. g (Suc (Suc (2 * k))))"
    using and_low [OF Suc.prems [of 0], of "g 1"] by (subst Suc.IH) (simp_all add: Suc.prems power_add)
  finally show ?case by simp
qed simp

lemma digs_shift:
  assumes "\<And>k. f k < B" "\<And>k. K \<le> k \<Longrightarrow> f k = 0"
  shows "digs B K f div B ^ j = digs B K (\<lambda>k. f (j + k))"
proof -
  have pad: "digs B (K + m) f = digs B K f" for m
    by (induction m) (simp_all add: digs_extend assms(2) del: digs.simps(2))
  have "digs B K f div B ^ j = digs B (K + j) f div B ^ j" by (simp add: pad)
  also have "\<dots> = digs B K (\<lambda>k. f (j + k))" by (subst digs_div) (simp_all add: assms(1))
  finally show ?thesis .
qed

subsection \<open>The counts of the fields\<close>

definition bits_between :: "'a::len word \<Rightarrow> nat \<Rightarrow> nat \<Rightarrow> nat" where
  "bits_between v lo hi = length (filter (bit v) [lo ..< hi])"

lemma bits_between_split: "lo \<le> mid \<Longrightarrow> mid \<le> hi \<Longrightarrow> bits_between v lo hi = bits_between v lo mid + bits_between v mid hi"
  using upt_add_eq_append [of lo mid "hi - mid"] by (simp add: bits_between_def)

lemma bits_between_le: "bits_between v lo hi \<le> hi - lo"
  unfolding bits_between_def by (rule order_trans [OF length_filter_le]) simp

definition field :: "64 word \<Rightarrow> nat \<Rightarrow> nat \<Rightarrow> nat" where
  "field v W k = bits_between v (W * k) (W * k + W)"

lemma field_le: "field v W k \<le> W"
  using bits_between_le [of v "W * k" "W * k + W"] by (simp add: field_def)

lemma field_pair: "field v (2 * W) k = field v W (2 * k) + field v W (Suc (2 * k))"
  using bits_between_split [of "2 * W * k" "2 * W * k + W" "2 * W * k + 2 * W" v]
  by (simp add: field_def algebra_simps)

lemma field_pair_fun: "field v (2 * W) = (\<lambda>k. field v W (2 * k) + field v W (Suc (2 * k)))"
  by (rule ext) (rule field_pair)

lemma field_end: "64 \<le> W * k \<Longrightarrow> field v W k = 0"
proof -
  assume "64 \<le> W * k"
  then have "\<not> bit v i" if "W * k \<le> i" for i
    using bit_imp_le_length [of v i] that by auto
  then show ?thesis by (auto simp: field_def bits_between_def filter_empty_conv)
qed

lemma field_one: "field v 1 k = of_bool (bit v k)"
  by (simp add: field_def bits_between_def)

lemma unat_fields: "unat (v :: 64 word) = digs 2 64 (field v 1)"
proof -
  have "field v 1 = (\<lambda>k. of_bool (bit v k))" by (rule ext) (rule field_one)
  then show ?thesis by (simp only: unat_digs) simp
qed

lemma field_step:
  assumes "2 * W < 2 ^ w"
  shows "digs (2 ^ w) (2 * K) (\<lambda>k. field v W k + field v W (Suc k)) AND digs (2 ^ w * 2 ^ w) K (\<lambda>_. 2 ^ w - 1) =
    digs (2 ^ w * 2 ^ w) K (field v (2 * W))"
proof -
  have "field v W k + field v W (Suc k) < 2 ^ w" for k
    using field_le [of v W k] field_le [of v W "Suc k"] assms by linarith
  from digs_and_even [of "\<lambda>k. field v W k + field v W (Suc k)" w K, OF this] show ?thesis
    by (simp only: field_pair_fun)
qed

text \<open>The four parallel steps.\<close>

lemma masks:
  "unat (0x5555555555555555 :: 64 word) = digs (2 ^ 1 * 2 ^ 1) 32 (\<lambda>_. 2 ^ 1 - 1)"
  "unat (0x3333333333333333 :: 64 word) = digs (2 ^ 2 * 2 ^ 2) 16 (\<lambda>_. 2 ^ 2 - 1)"
  "unat (0x0F0F0F0F0F0F0F0F :: 64 word) = digs (2 ^ 4 * 2 ^ 4) 8 (\<lambda>_. 2 ^ 4 - 1)"
  "unat (0x00FF00FF00FF00FF :: 64 word) = digs (2 ^ 8 * 2 ^ 8) 4 (\<lambda>_. 2 ^ 8 - 1)"
  by (simp_all add: digs_numeral)

lemma unat_drop: "unat (drop_bit j (w :: 'a::len word)) = unat w div 2 ^ j"
  by (subst unat_drop_bit_eq) (rule drop_bit_eq_div)

lemma pair_counts_fields: "unat (pair_counts v) = digs 4 32 (field v 2)"
proof -
  have bit: "field v 1 k < 2 ^ 1" for k using field_le [of v 1 k] by simp
  have "unat (drop_bit 1 v) = digs (2 ^ 1) 64 (field v 1) div (2 ^ 1) ^ 1"
    by (simp only: unat_drop unat_fields [of v] power_one_right)
  also have "\<dots> = digs (2 ^ 1) 64 (\<lambda>k. field v 1 (1 + k))"
    by (rule digs_shift) (rule bit, rule field_end, simp)
  also have "\<dots> = digs (2 ^ 1) (2 * 32) (\<lambda>k. field v 1 (Suc k))" by simp
  finally have shifted: "unat (drop_bit 1 v) = digs (2 ^ 1) (2 * 32) (\<lambda>k. field v 1 (Suc k))" .
  have "unat (drop_bit 1 v AND 0x5555555555555555) = digs (2 ^ 1 * 2 ^ 1) 32 (\<lambda>k. field v 1 (Suc (2 * k)))"
    unfolding unsigned_and_eq shifted masks by (rule digs_and_even) (rule bit)
  then have odd: "unat (drop_bit 1 v AND 0x5555555555555555) = digs 4 32 (\<lambda>k. field v 1 (Suc (2 * k)))"
    by simp
  have "unat v = digs 2 (2 * 32) (field v 1)" by (simp only: unat_fields) simp
  then have all: "unat v = digs 4 32 (\<lambda>k. field v 1 (2 * k) + 2 * field v 1 (Suc (2 * k)))"
    by (simp only: digs_pairs) simp
  have pair: "field v 2 k = field v 1 (2 * k) + field v 1 (Suc (2 * k))" for k
    using field_pair [of v 1 k] by simp
  have sum: "unat v = digs 4 32 (field v 2) + unat (drop_bit 1 v AND 0x5555555555555555)"
    unfolding all odd digs_add by (rule digs_cong) (simp add: pair)
  then have "(drop_bit 1 v AND 0x5555555555555555) \<le> v" by (simp add: word_le_nat_alt)
  then show ?thesis using sum by (simp add: pair_counts_def unat_sub)
qed

text \<open>The later steps add neighbouring fields and keep every other sum.\<close>

lemma shifted_fields:
  fixes x :: "64 word"
  assumes "unat x = digs (2 ^ w) K (field v W)" "W < 2 ^ w" "64 \<le> W * K"
  shows "unat (drop_bit w x) = digs (2 ^ w) K (\<lambda>k. field v W (Suc k))"
proof -
  have "field v W k < 2 ^ w" for k using field_le [of v W k] assms(2) by linarith
  moreover have "field v W k = 0" if "K \<le> k" for k
    using that assms(3) by (intro field_end) (meson le_trans mult_le_mono2)
  ultimately have "digs (2 ^ w) K (field v W) div (2 ^ w) ^ 1 = digs (2 ^ w) K (\<lambda>k. field v W (1 + k))"
    by (rule digs_shift)
  then show ?thesis by (simp only: unat_drop assms(1) power_one_right plus_1_eq_Suc)
qed

lemma add_fields:
  fixes x :: "64 word"
  assumes "unat x = digs (2 ^ w) K (field v W)" "2 * W < 2 ^ w" "64 \<le> W * K" "(2 ^ w) ^ K \<le> (2 ^ 64 :: nat)"
  shows "unat (x + drop_bit w x) = digs (2 ^ w) K (\<lambda>k. field v W k + field v W (Suc k))"
proof -
  have "W < 2 ^ w" using assms(2) by linarith
  note shifted = shifted_fields [OF assms(1) this assms(3)]
  have "field v W k + field v W (Suc k) < 2 ^ w" for k
    using field_le [of v W k] field_le [of v W "Suc k"] assms(2) by linarith
  then have "digs (2 ^ w) K (\<lambda>k. field v W k + field v W (Suc k)) < 2 ^ 64"
    using digs_less [of K "\<lambda>k. field v W k + field v W (Suc k)" "2 ^ w"] assms(4) by (meson less_le_trans)
  then have "unat x + unat (drop_bit w x) < 2 ^ LENGTH(64)"
    unfolding assms(1) shifted digs_add by simp
  then have "unat (x + drop_bit w x) = unat x + unat (drop_bit w x)"
    by (rule unat_add_lem [THEN iffD1])
  then show ?thesis unfolding assms(1) shifted digs_add .
qed

lemma nibble_counts_fields: "unat (nibble_counts (pair_counts v)) = digs 16 16 (field v 4)"
proof -
  let ?a = "pair_counts v"
  have a: "unat ?a = digs (2 ^ 2) (2 * 16) (field v 2)" by (simp add: pair_counts_fields)
  have less: "field v 2 k < 2 ^ 2" for k using field_le [of v 2 k] by simp
  have shifted: "unat (drop_bit 2 ?a) = digs (2 ^ 2) (2 * 16) (\<lambda>k. field v 2 (Suc k))"
    by (rule shifted_fields [OF a]) simp_all
  have even: "unat (?a AND 0x3333333333333333) = digs (2 ^ 2 * 2 ^ 2) 16 (\<lambda>k. field v 2 (2 * k))"
    unfolding unsigned_and_eq a masks by (rule digs_and_even) (rule less)
  have odd: "unat (drop_bit 2 ?a AND 0x3333333333333333) = digs (2 ^ 2 * 2 ^ 2) 16 (\<lambda>k. field v 2 (Suc (2 * k)))"
    unfolding unsigned_and_eq shifted masks by (rule digs_and_even) (rule less)
  have sum: "unat (?a AND 0x3333333333333333) + unat (drop_bit 2 ?a AND 0x3333333333333333) = digs 16 16 (field v 4)"
    unfolding even odd digs_add using field_pair_fun [of v 2] by simp
  have "field v 4 k < 16" for k using field_le [of v 4 k] by simp
  then have "digs 16 16 (field v 4) < 16 ^ 16" by (rule digs_less)
  then have "unat (?a AND 0x3333333333333333) + unat (drop_bit 2 ?a AND 0x3333333333333333) < 2 ^ LENGTH(64)"
    unfolding sum by simp
  then show ?thesis
    unfolding nibble_counts_def using sum by (simp only: unat_add_lem [THEN iffD1])
qed

lemma byte_counts_fields: "unat (byte_counts (nibble_counts (pair_counts v))) = digs 256 8 (field v 8)"
proof -
  let ?b = "nibble_counts (pair_counts v)"
  have b: "unat ?b = digs (2 ^ 4) (2 * 8) (field v 4)" by (simp add: nibble_counts_fields)
  have "unat (?b + drop_bit 4 ?b) = digs (2 ^ 4) (2 * 8) (\<lambda>k. field v 4 k + field v 4 (Suc k))"
    by (rule add_fields [OF b]) simp_all
  then have "unat (byte_counts ?b) = digs (2 ^ 4 * 2 ^ 4) 8 (field v (2 * 4))"
    unfolding byte_counts_def unsigned_and_eq masks by (simp only:) (rule field_step, simp)
  then show ?thesis by simp
qed

lemma short_counts_fields: "unat (short_counts (byte_counts (nibble_counts (pair_counts v)))) = digs 65536 4 (field v 16)"
proof -
  let ?c = "byte_counts (nibble_counts (pair_counts v))"
  have c: "unat ?c = digs (2 ^ 8) (2 * 4) (field v 8)" by (simp add: byte_counts_fields)
  have "unat (?c + drop_bit 8 ?c) = digs (2 ^ 8) (2 * 4) (\<lambda>k. field v 8 k + field v 8 (Suc k))"
    by (rule add_fields [OF c]) simp_all
  then have "unat (short_counts ?c) = digs (2 ^ 8 * 2 ^ 8) 4 (field v (2 * 8))"
    unfolding short_counts_def unsigned_and_eq masks by (simp only:) (rule field_step, simp)
  then show ?thesis by simp
qed

subsection \<open>The descent\<close>

lemma and_exp: "(x :: nat) AND 2 ^ k = (if odd (x div 2 ^ k) then 2 ^ k else 0)"
  by (rule bit_eqI) (auto simp: bit_and_iff bit_exp_iff simp flip: bit_iff_odd)

lemma halve_less:
  fixes T G H y :: nat
  assumes "T < 256" "G < 256" "G = 0 \<or> H < 256"
  shows "(65536 * H + 65280 + y) AND 256 = (if odd ((65536 * H + 65280 + y) div 256) then 256 else 0)"
    and "y < 256 \<Longrightarrow> (T + 65536 * G) AND ((65536 * H + 65280 + y) div 256) = T"
proof -
  show "(65536 * H + 65280 + y) AND 256 = (if odd ((65536 * H + 65280 + y) div 256) then 256 else 0)"
    using and_exp [of _ 8] by simp
  assume "y < 256"
  then have quotient: "(65536 * H + 65280 + y) div 256 = 255 + 2 ^ 8 * H" by simp
  have "(0 + 2 ^ 8 * G) AND (H + 2 ^ 8 * 0) = 0" if "H < 256"
    using that by (subst and_split) simp_all
  then have "(2 ^ 8 * G) AND H = 0" using assms(3) by auto
  moreover have "T AND 255 = T" using and_low [of T 8 0] assms(1) by simp
  moreover have "(T + 2 ^ 8 * (2 ^ 8 * G)) AND (255 + 2 ^ 8 * H) = (T AND 255) + 2 ^ 8 * ((2 ^ 8 * G) AND H)"
    using assms(1) by (intro and_split) simp_all
  ultimately show "(T + 65536 * G) AND ((65536 * H + 65280 + y) div 256) = T"
    unfolding quotient by simp
qed

lemma halve_not_less:
  fixes T G x :: nat
  assumes "T < 256" "G < 256" "x < 256"
  shows "(x + 65536 * G) AND 256 = 0" "(T + 65536 * G) AND ((x + 65536 * G) div 256) = 0"
proof -
  have quotient: "(x + 65536 * G) div 256 = 0 + 2 ^ 8 * G" using assms(3) by simp
  show "(x + 65536 * G) AND 256 = 0" using and_exp [of "x + 65536 * G" 8] quotient by simp
  have "(0 + 2 ^ 8 * G) AND (G + 2 ^ 8 * 0) = 0" using assms(2) by (subst and_split) simp_all
  moreover have "(T + 2 ^ 8 * (2 ^ 8 * G)) AND (0 + 2 ^ 8 * G) = (T AND 0) + 2 ^ 8 * ((2 ^ 8 * G) AND G)"
    using assms(1) by (intro and_split) simp_all
  ultimately show "(T + 65536 * G) AND ((x + 65536 * G) div 256) = 0" unfolding quotient by simp
qed

lemma select_halve_eq:
  fixes t n s :: "64 word"
  assumes t: "unat t = T + 65536 * G" "T < 256" "G < 256" and n: "unat n \<le> 256"
  shows "select_halve t k (s, n) = (if T < unat n then (s - drop_bit k 256, n - of_nat T) else (s, n))"
proof -
  let ?d = "t - n"
  have and_word: "unat (?d AND 256) = unat ?d AND 256"
    "unat (t AND drop_bit 8 ?d) = unat t AND (unat ?d div 256)"
    by (simp_all only: unsigned_and_eq unat_drop) simp_all
  show ?thesis
  proof (cases "T < unat n")
    case True
    define x where "x = unat n - T"
    have x: "1 \<le> x" "x \<le> 256" using True n by (simp_all add: x_def)
    obtain H where H: "unat ?d = 65536 * H + 65280 + (256 - x)" "G = 0 \<or> H < 256"
    proof (cases "G = 0")
      case True
      then have "t < n" using \<open>T < unat n\<close> t(1) by (simp add: word_less_nat_alt)
      then have "unat ?d = 2 ^ 64 - x"
        using unat_sub_if' [of t n] t(1) True by (simp add: x_def word_le_nat_alt word_less_nat_alt)
      then have "unat ?d = 65536 * (2 ^ 48 - 1) + 65280 + (256 - x)" using x by simp
      then show thesis using that True by blast
    next
      case False
      then have "n \<le> t" using t(1) n by (simp add: word_le_nat_alt)
      then have "unat ?d = 65536 * G - x" using t(1) True by (simp add: unat_sub x_def)
      then have "unat ?d = 65536 * (G - 1) + 65280 + (256 - x)" using x False by (cases G) simp_all
      then show thesis using that [of "G - 1"] t(3) False by simp
    qed
    define y where "y = 256 - x"
    have y: "y < 256" using x by (simp add: y_def)
    then have "(65536 * H + 65280 + y) div 256 = 255 + 256 * H" by simp
    then have "odd ((65536 * H + 65280 + y) div 256)" by simp
    then have "unat (?d AND 256) = 256" and "unat (t AND drop_bit 8 ?d) = T"
      using halve_less [OF t(2,3) H(2), of y] y unfolding and_word H(1) y_def [symmetric] t(1) by simp_all
    then have "?d AND 256 = 256" "t AND drop_bit 8 ?d = of_nat T"
      using t(2) by (simp_all add: word_unat_eq_iff unat_of_nat)
    then show ?thesis using True by (simp add: select_halve_def del: drop_bit_and)
  next
    case False
    then have "n \<le> t" using t(1) by (simp add: word_le_nat_alt)
    then have d: "unat ?d = (T - unat n) + 65536 * G" using t(1) False by (simp add: unat_sub)
    have "unat (?d AND 256) = 0" "unat (t AND drop_bit 8 ?d) = 0"
      using halve_not_less [OF t(2,3), of "T - unat n"] t(2) unfolding and_word d t(1) by simp_all
    then show ?thesis using False by (simp add: select_halve_def unat_eq_0 del: drop_bit_and)
  qed
qed

text \<open>
  The invariant of the descent: the bit that is searched lies in the block of the given width
  below the position, and it is the n-th set bit of that block from above.
\<close>

definition select_inv :: "64 word \<Rightarrow> nat \<Rightarrow> nat \<Rightarrow> 64 word \<times> 64 word \<Rightarrow> bool" where
  "select_inv v n0 W sn \<longleftrightarrow> (case sn of (s, n) \<Rightarrow>
     unat s \<le> 64 \<and> W dvd unat s \<and> W \<le> unat s \<and> 1 \<le> unat n \<and>
     unat n \<le> bits_between v (unat s - W) (unat s) \<and> bits_between v (unat s) 64 + unat n = n0)"

lemma select_inv_halve:
  assumes inv: "select_inv v n0 (2 * W) (s, n)"
    and t: "unat t = bits_between v (unat s - W) (unat s) + 65536 * G" "G < 256"
    and W: "drop_bit k 256 = (of_nat W :: 64 word)" "0 < W" "W \<le> 32"
  shows "select_inv v n0 W (select_halve t k (s, n))"
proof -
  let ?s = "unat s" and ?n = "unat n"
  let ?T = "bits_between v (?s - W) ?s"
  have s: "?s \<le> 64" "2 * W dvd ?s" "2 * W \<le> ?s" "1 \<le> ?n" "?n \<le> bits_between v (?s - 2 * W) ?s"
    "bits_between v ?s 64 + ?n = n0" using inv by (simp_all add: select_inv_def)
  have T: "?T \<le> W" using bits_between_le [of v "?s - W" ?s] s(3) by simp
  have "?n \<le> 64" using s(5) bits_between_le [of v "?s - 2 * W" ?s] s(1) by linarith
  then have halve: "select_halve t k (s, n) = (if ?T < ?n then (s - of_nat W, n - of_nat ?T) else (s, n))"
    using select_halve_eq [OF t(1) _ t(2), of n k s] T W by simp
  have split: "bits_between v (?s - 2 * W) ?s = bits_between v (?s - 2 * W) (?s - W) + ?T"
    using s(3) by (intro bits_between_split) simp_all
  have dvd: "W dvd ?s" using s(2) by (rule dvd_mult_right [of 2])
  show ?thesis
  proof (cases "?T < ?n")
    case False
    then show ?thesis using halve s dvd W by (simp add: select_inv_def)
  next
    case True
    have small: "unat (of_nat W :: 64 word) = W" "unat (of_nat ?T :: 64 word) = ?T"
      using W(3) T by (simp_all add: unat_of_nat)
    have sub: "unat (s - of_nat W) = ?s - W" "unat (n - of_nat ?T) = ?n - ?T"
      using s(3) True by (simp_all add: unat_sub word_le_nat_alt small)
    have "bits_between v (?s - W) 64 = ?T + bits_between v ?s 64"
      using s(1) by (intro bits_between_split) simp_all
    then have rest: "bits_between v (?s - W) 64 + (?n - ?T) = n0" using s(6) True by linarith
    have "?s - W - W = ?s - 2 * W" by simp
    then have block: "?n - ?T \<le> bits_between v (?s - W - W) (?s - W)" using s(5) unfolding split by simp
    have "?s - W \<le> 64" "W \<le> ?s - W" "1 \<le> ?n - ?T" using s(1,3) True by linarith+
    moreover have "W dvd ?s - W" using dvd by simp
    ultimately show ?thesis
      using True block rest unfolding halve by (simp only: select_inv_def sub if_True split_conv)
  qed
qed

lemma digit_and:
  fixes x :: "64 word"
  assumes "unat x = digs (2 ^ w) K (field v W)" "W < 2 ^ m" "m \<le> w" "j < K"
  shows "unat (drop_bit (w * j) x AND (2 ^ m - 1)) = field v W j"
proof -
  have f: "field v W k < 2 ^ m" for k using field_le [of v W k] assms(2) by linarith
  have "(2 :: nat) ^ m \<le> 2 ^ w" using assms(3) by simp
  then have less: "field v W k < 2 ^ w" for k using f [of k] by (rule order_less_le_trans [rotated])
  have "drop_bit (w * j) x AND (2 ^ m - 1) = take_bit m (drop_bit (w * j) x)"
    by (simp add: take_bit_eq_mask mask_eq_exp_minus_1)
  then have "unat (drop_bit (w * j) x AND (2 ^ m - 1)) = (unat x div (2 ^ w) ^ j) mod 2 ^ m"
    by (simp only: unsigned_take_bit_eq unat_drop power_mult) (simp add: take_bit_eq_mod)
  also have "\<dots> = field v W j"
    unfolding assms(1) using assms(3,4) f by (intro digs_digit less) (simp_all add: le_imp_power_dvd)
  finally show ?thesis .
qed

text \<open>The count of the block of width \<open>W\<close> below the position, read from its field.\<close>

lemma select_step:
  fixes x :: "64 word"
  assumes inv: "select_inv v n0 (2 * W) (s, n)"
    and x: "unat x = digs (2 ^ W) K (field v W)" "W * K = 64"
    and m: "W < 2 ^ m" "m \<le> W"
    and W: "drop_bit k 256 = (of_nat W :: 64 word)" "0 < W" "W \<le> 16"
  shows "select_inv v n0 W (select_halve (drop_bit (unat (s - of_nat W)) x AND (2 ^ m - 1)) k (s, n))"
proof (rule select_inv_halve [OF inv, where G = 0])
  let ?s = "unat s"
  have s: "?s \<le> 64" "2 * W dvd ?s" "2 * W \<le> ?s" using inv by (simp_all add: select_inv_def)
  have "W dvd ?s" using s(2) by (rule dvd_mult_right [of 2])
  then obtain c where c: "?s = W * c" by (rule dvdE)
  then have "2 \<le> c" using s(3) W(2) by (simp add: mult.commute)
  then obtain j where j: "c = Suc j" by (cases c) auto
  have "W * Suc j \<le> W * K" using s(1) c j x(2) by simp
  then have less: "j < K" using W(2) by (simp only: mult_le_cancel1 Suc_le_eq)
  have "unat (of_nat W :: 64 word) = W" using W(3) by (simp add: unat_of_nat)
  then have "unat (s - of_nat W) = ?s - W" using s(3) by (simp add: unat_sub word_le_nat_alt)
  then have pos: "unat (s - of_nat W) = W * j" "?s - W = W * j" "?s = W * j + W" using c j by simp_all
  then show "unat (drop_bit (unat (s - of_nat W)) x AND (2 ^ m - 1)) = bits_between v (?s - W) ?s + 65536 * 0"
    using digit_and [OF x(1) m(1) m(2) less] by (simp add: field_def)
qed (use W in simp_all)

subsection \<open>The search finds the bit\<close>

lemma bit_reverse_bits: "bit (reverse_bits v) i \<longleftrightarrow> i < LENGTH('a) \<and> bit v (LENGTH('a) - Suc i)"
  for v :: "'a::len word"
  by (auto simp: reverse_bits_def bit_horner_sum_bit_word_iff rev_nth)

lemma count_ones_between: "count_ones (v :: 64 word) = bits_between v 0 64"
  by (simp add: count_ones_def bits_between_def)

text \<open>Reversing the word reverses the blocks.\<close>

lemma bits_between_reverse:
  fixes v :: "64 word"
  assumes "hi \<le> 64"
  shows "bits_between (reverse_bits v) lo hi = bits_between v (64 - hi) (64 - lo)"
proof -
  have "bits_between (reverse_bits v) lo hi = card {i. lo \<le> i \<and> i < hi \<and> bit v (63 - i)}"
    using assms by (auto simp: bits_between_def bit_reverse_bits distinct_length_filter intro!: arg_cong [where f = card])
  also have "\<dots> = card ((\<lambda>i. 63 - i) ` {i. lo \<le> i \<and> i < hi \<and> bit v (63 - i)})"
    using assms by (intro card_image [symmetric] inj_onI) auto
  also have "(\<lambda>i. 63 - i) ` {i. lo \<le> i \<and> i < hi \<and> bit v (63 - i)} = {i. 64 - hi \<le> i \<and> i < 64 - lo \<and> bit v i}"
  proof (intro equalityI subsetI)
    fix i assume "i \<in> {i. 64 - hi \<le> i \<and> i < 64 - lo \<and> bit v i}"
    then show "i \<in> (\<lambda>i. 63 - i) ` {i. lo \<le> i \<and> i < hi \<and> bit v (63 - i)}"
      using assms by (intro image_eqI [of _ _ "63 - i"]) auto
  qed (use assms in auto)
  also have "card \<dots> = bits_between v (64 - hi) (64 - lo)"
    by (auto simp: bits_between_def distinct_length_filter intro!: arg_cong [where f = card])
  finally show ?thesis .
qed

lemma reverse_reverse: "reverse_bits (reverse_bits v) = v"
  by (rule bit_word_eqI) (simp add: bit_reverse_bits)

lemma select_first:
  assumes "1 \<le> unat n" "unat n \<le> bits_between v 0 64" "unat d = digs 65536 4 (field v 16)"
  shows "select_inv v (unat n) 32 (select_halve (drop_bit 32 d + drop_bit 48 d) 3 (64, n))"
proof (rule select_inv_halve [where G = "field v 16 3"])
  show "select_inv v (unat n) (2 * 32) (64, n)"
    using assms(1,2) by (simp add: select_inv_def bits_between_def)
  have less: "field v 16 k < 65536" for k using field_le [of v 16 k] by simp
  have "unat (drop_bit 32 d) = digs 65536 4 (field v 16) div 65536 ^ 2" by (simp add: unat_drop assms(3))
  also have "\<dots> = digs 65536 2 (\<lambda>k. field v 16 (2 + k))" by (subst digs_div) (simp_all add: less)
  finally have low: "unat (drop_bit 32 d) = field v 16 2 + 65536 * field v 16 3"
    by (simp add: digs_numeral eval_nat_numeral(3) [symmetric] numeral_2_eq_2 numeral_3_eq_3)
  have "unat (drop_bit 48 d) = digs 65536 4 (field v 16) div 65536 ^ 3" by (simp add: unat_drop assms(3))
  also have "\<dots> = digs 65536 1 (\<lambda>k. field v 16 (3 + k))" by (subst digs_div) (simp_all add: less)
  finally have high: "unat (drop_bit 48 d) = field v 16 3" by simp
  have "unat (drop_bit 32 d) + unat (drop_bit 48 d) < 2 ^ LENGTH(64)"
    using field_le [of v 16 2] field_le [of v 16 3] unfolding low high by simp
  then have "unat (drop_bit 32 d + drop_bit 48 d) = unat (drop_bit 32 d) + unat (drop_bit 48 d)"
    by (rule unat_add_lem [THEN iffD1])
  moreover have "bits_between v 32 64 = field v 16 2 + field v 16 3"
    using bits_between_split [of 32 48 64 v] by (simp add: field_def)
  ultimately show "unat (drop_bit 32 d + drop_bit 48 d) = bits_between v (unat (64 :: 64 word) - 32) (unat (64 :: 64 word)) + 65536 * field v 16 3"
    unfolding low high by simp
  show "field v 16 3 < 256" using field_le [of v 16 3] by simp
qed simp_all

text \<open>
  The search returns the set bit that has \<open>n - 1\<close> set bits below it.
\<close>

lemma nth_set_bit_u64_selects:
  fixes v :: "64 word"
  assumes n: "1 \<le> unat n" "unat n \<le> count_ones v"
  shows "bit v (unat (nth_set_bit_u64 v n)) \<and> bits_between v 0 (unat (nth_set_bit_u64 v n)) + 1 = unat n"
proof -
  define r where "r = reverse_bits v"
  define a b c d where abcd: "a = pair_counts r" "b = nibble_counts a" "c = byte_counts b" "d = short_counts c"
  have a: "unat a = digs (2 ^ 2) 32 (field r 2)" by (simp add: abcd pair_counts_fields)
  have b: "unat b = digs (2 ^ 4) 16 (field r 4)" by (simp add: abcd nibble_counts_fields)
  have c: "unat c = digs (2 ^ 8) 8 (field r 8)" by (simp add: abcd byte_counts_fields)
  have d: "unat d = digs (2 ^ 16) 4 (field r 16)" by (simp add: abcd short_counts_fields)
  have v1: "unat r = digs (2 ^ 1) 64 (field r 1)" by (simp only: unat_fields power_one_right)
  have all: "unat n \<le> bits_between r 0 64" using n(2) by (simp add: count_ones_between r_def bits_between_reverse)
  obtain s1 n1 where e1: "select_halve (drop_bit 32 d + drop_bit 48 d) 3 (64, n) = (s1, n1)" by fastforce
  obtain s2 n2 where e2: "select_halve (drop_bit (unat (s1 - 16)) d AND 0xFF) 4 (s1, n1) = (s2, n2)" by fastforce
  obtain s3 n3 where e3: "select_halve (drop_bit (unat (s2 - 8)) c AND 0xF) 5 (s2, n2) = (s3, n3)" by fastforce
  obtain s4 n4 where e4: "select_halve (drop_bit (unat (s3 - 4)) b AND 0x7) 6 (s3, n3) = (s4, n4)" by fastforce
  obtain s5 n5 where e5: "select_halve (drop_bit (unat (s4 - 2)) a AND 0x3) 7 (s4, n4) = (s5, n5)" by fastforce
  obtain s6 n6 where e6: "select_halve (drop_bit (unat (s5 - 1)) r AND 0x1) 8 (s5, n5) = (s6, n6)" by fastforce
  have i1: "select_inv r (unat n) 32 (s1, n1)"
    using select_first [OF n(1) all, of d] d by (simp add: e1)
  have i2: "select_inv r (unat n) 16 (s2, n2)"
    using select_step [where W = 16 and m = 8 and k = 4, OF _ d, of "unat n" s1 n1] i1 by (simp add: e2)
  have i3: "select_inv r (unat n) 8 (s3, n3)"
    using select_step [where W = 8 and m = 4 and k = 5, OF _ c, of "unat n" s2 n2] i2 by (simp add: e3)
  have i4: "select_inv r (unat n) 4 (s4, n4)"
    using select_step [where W = 4 and m = 3 and k = 6, OF _ b, of "unat n" s3 n3] i3 by (simp add: e4)
  have i5: "select_inv r (unat n) 2 (s5, n5)"
    using select_step [where W = 2 and m = 2 and k = 7, OF _ a, of "unat n" s4 n4] i4 by (simp add: e5)
  have i6: "select_inv r (unat n) 1 (s6, n6)"
    using select_step [where W = 1 and m = 1 and k = 8, OF _ v1, of "unat n" s5 n5] i5 by (simp add: e6)
  have "s6 = s5 - drop_bit 8 (((drop_bit (unat (s5 - 1)) r AND 0x1) - n5) AND 256)"
    using e6 by (simp add: select_halve_def del: drop_bit_and)
  then have result: "nth_set_bit_u64 v n = 65 - s6 - 1"
    unfolding nth_set_bit_u64_def by (simp only: Let_def r_def [symmetric] abcd [symmetric] e1 e2 e3 e4 e5 split_conv)
  have s6: "1 \<le> unat s6" "unat s6 \<le> 64" using i6 by (simp_all add: select_inv_def)
  have "65 - s6 - 1 = 64 - s6" by simp
  then have pos: "unat (nth_set_bit_u64 v n) = 64 - unat s6"
    using s6(2) by (simp add: result unat_sub word_le_nat_alt)
  have "1 \<le> unat n6" "unat n6 \<le> bits_between r (unat s6 - 1) (unat s6)" "bits_between r (unat s6) 64 + unat n6 = unat n"
    using i6 by (simp_all add: select_inv_def)
  moreover have "bits_between r (unat s6 - 1) (unat s6) = of_bool (bit r (unat s6 - 1))"
    using s6(1) by (cases "unat s6") (simp_all add: bits_between_def)
  ultimately have "bit r (unat s6 - 1)" "bits_between r (unat s6) 64 + 1 = unat n"
    by (cases "bit r (unat s6 - 1)"; simp)+
  then show ?thesis
    using s6 unfolding pos r_def by (simp add: bit_reverse_bits bits_between_reverse)
qed

text \<open>On 128 bits, the count of the low half decides the half.\<close>

lemma bits_between_low:
  fixes v :: "128 word"
  assumes "i \<le> 64"
  shows "bits_between (ucast v :: 64 word) 0 i = bits_between v 0 i"
  unfolding bits_between_def using assms
  by (intro arg_cong [where f = length] filter_cong) (auto simp: bit_ucast_iff)

lemma bits_between_high:
  fixes v :: "128 word"
  assumes "i \<le> 64"
  shows "bits_between (ucast (drop_bit 64 v) :: 64 word) 0 i = bits_between v 64 (64 + i)"
proof -
  have "[64 ..< 64 + i] = map (\<lambda>k. 64 + k) [0 ..< i]" by (simp add: map_add_upt add.commute)
  then have "bits_between v 64 (64 + i) = length (filter (\<lambda>k. bit v (64 + k)) [0 ..< i])"
    by (simp add: bits_between_def filter_map comp_def)
  also have "\<dots> = bits_between (ucast (drop_bit 64 v) :: 64 word) 0 i"
    unfolding bits_between_def using assms
    by (intro arg_cong [where f = length] filter_cong) (auto simp: bit_ucast_iff bit_drop_bit_eq)
  finally show ?thesis by simp
qed

lemma nth_set_bit_selects:
  fixes v :: "128 word"
  assumes n: "1 \<le> n" "n \<le> count_ones v"
  shows "bit v (nth_set_bit v n) \<and> bits_between v 0 (nth_set_bit v n) + 1 = n"
proof -
  define low where "low = (ucast v :: 64 word)"
  define high where "high = (ucast (drop_bit 64 v) :: 64 word)"
  have cl: "count_ones low = bits_between v 0 64"
    by (simp add: count_ones_between low_def bits_between_low)
  have ch: "count_ones high = bits_between v 64 128"
    using bits_between_high [of 64 v] by (simp add: count_ones_between high_def)
  have all: "count_ones v = bits_between v 0 64 + bits_between v 64 128"
    using bits_between_split [of 0 64 128 v] by (simp add: count_ones_def bits_between_def)
  have bound: "count_ones low \<le> 64" "count_ones high \<le> 64"
    using bits_between_le [of v 0 64] bits_between_le [of v 64 128] by (simp_all add: cl ch)
  have within: "i < 64" if "bit (w :: 64 word) i" for w i using bit_imp_le_length [OF that] by simp
  show ?thesis
  proof (cases "count_ones low < n")
    case True
    define m where "m = n - count_ones low"
    have m: "1 \<le> m" "m \<le> count_ones high" using True n(2) by (simp_all add: m_def all cl ch)
    then have um: "unat (of_nat m :: 64 word) = m" using bound(2) by (simp add: unat_of_nat)
    define i where "i = unat (nth_set_bit_u64 high (of_nat m))"
    have i: "bit high i" "bits_between high 0 i + 1 = m"
      using nth_set_bit_u64_selects [of "of_nat m" high] m um by (simp_all add: i_def)
    have pos: "nth_set_bit v n = 64 + i"
      using True by (simp add: nth_set_bit_def Let_def low_def high_def m_def i_def)
    have "i < 64" using within [OF i(1)] .
    then have "bits_between v 0 (64 + i) = count_ones low + bits_between high 0 i"
      using bits_between_split [of 0 64 "64 + i" v] bits_between_high [of i v] by (simp add: cl high_def)
    moreover have "bit v (64 + i)" using i(1) by (simp add: high_def bit_ucast_iff bit_drop_bit_eq)
    ultimately show ?thesis using i(2) True by (simp add: pos m_def)
  next
    case False
    have "unat (of_nat n :: 64 word) = n" using False bound(1) by (simp add: unat_of_nat)
    then have i: "bit low (nth_set_bit v n)" "bits_between low 0 (nth_set_bit v n) + 1 = n"
      using nth_set_bit_u64_selects [of "of_nat n" low] n(1) False
      by (simp_all add: nth_set_bit_def Let_def low_def)
    then have "nth_set_bit v n < 64" using within by blast
    then show ?thesis using i by (simp add: low_def bits_between_low bit_ucast_iff)
  qed
qed

text \<open>
  C6. Selecting a bit by halving: for every 128-bit word and every n from 1 to the number of its set
  bits, \<open>nth_set_bit\<close>, which compares the sums of bits in ever smaller parts of the word without a
  loop or a branch, gives the position of a set bit with exactly n - 1 set bits below it.
\<close>

theorem nth_set_bit_finds_bit:
  fixes v :: "128 word"
  assumes "1 \<le> n" "n \<le> count_ones v"
  shows "nth_set_bit v n < 128 \<and> bit v (nth_set_bit v n) \<and> length (filter (bit v) [0 ..< nth_set_bit v n]) = n - 1"
  using nth_set_bit_selects [OF assms] bit_imp_le_length [of v "nth_set_bit v n"]
  by (auto simp: bits_between_def)

lemma nth_set_bit_finds_bit_witness:
  "nth_set_bit (5 :: 128 word) 2 < 128 \<and> bit (5 :: 128 word) (nth_set_bit 5 2) \<and>
   length (filter (bit (5 :: 128 word)) [0 ..< nth_set_bit 5 2]) = 2 - 1"
  by (rule nth_set_bit_finds_bit) (simp_all add: count_ones_def upt_conv_Cons bit_simps)

end
