(* ===== verification/RopeBits.thy ===== *)
theory RopeBits
  imports BitSelect
begin

unbundle bit_operations_syntax

text \<open>
  Bitmaps: the words of 128 bits that a rope chunk keeps beside its text, as the lists of flags
  they stand for. Shifting, masking and counting words are \<open>drop\<close>, \<open>take\<close>, \<open>append\<close> and
  \<open>filter\<close> on the flags.
\<close>

type_synonym bitmap = "128 word"

text \<open>The bitmap of a list of flags, the first at bit 0.\<close>

definition bm :: "bool list \<Rightarrow> bitmap" where
  "bm bs = horner_sum of_bool 2 bs"

lemma bit_bm: "bit (bm bs) i \<longleftrightarrow> i < 128 \<and> i < length bs \<and> bs ! i"
  by (auto simp: bm_def bit_horner_sum_bit_word_iff)

lemma bm_Nil [simp]: "bm [] = 0"
  by (simp add: bm_def)

lemma bit_bitmap_less: "bit (w :: bitmap) i \<Longrightarrow> i < 128"
  using bit_imp_le_length [of w i] by simp

subsection \<open>Masks and shifts\<close>

definition saturating_shl_mask :: "nat \<Rightarrow> bitmap" where
  "saturating_shl_mask offset = push_bit offset 1 - 1"

definition saturating_shr_mask :: "nat \<Rightarrow> bitmap" where
  "saturating_shr_mask offset = NOT (drop_bit offset (- 1))"

lemma shl_mask: "saturating_shl_mask k = mask k"
  by (simp add: saturating_shl_mask_def mask_eq_exp_minus_1 push_bit_eq_mult)

lemma bm_and_mask: "bm bs AND saturating_shl_mask k = bm (take k bs)"
  by (rule bit_word_eqI) (auto simp: shl_mask bit_and_iff bit_mask_iff bit_bm)

lemma bm_drop: "drop_bit k (bm bs) = bm (drop k bs)" if "length bs \<le> 128"
  by (rule bit_word_eqI) (use that in \<open>auto simp: bit_drop_bit_eq bit_bm\<close>)

lemma bm_append:
  "length cs = k \<Longrightarrow> bm cs OR push_bit k (bm bs) = bm (cs @ bs)"
  by (rule bit_word_eqI) (auto simp: bit_or_iff bit_push_bit_iff bit_bm nth_append)

lemma bm_zip_or: "length cs = length bs \<Longrightarrow> bm bs OR bm cs = bm (map2 (\<or>) bs cs)"
  by (rule bit_word_eqI) (auto simp: bit_or_iff bit_bm)

lemma bit_shr_mask: "bit (saturating_shr_mask k) i \<longleftrightarrow> i < 128 \<and> 128 \<le> i + k"
  by (auto simp: saturating_shr_mask_def bit_not_iff bit_drop_bit_eq bit_minus_1_iff bit_mask_iff)

subsection \<open>Counting\<close>

definition ones :: "bool list \<Rightarrow> nat" where
  "ones bs = length (filter id bs)"

lemma ones_simps [simp]: "ones [] = 0" "ones (b # bs) = of_bool b + ones bs" "ones (as @ bs) = ones as + ones bs"
  by (simp_all add: ones_def)

lemma ones_le: "ones bs \<le> length bs"
  by (simp add: ones_def)

lemma filter_bits: "length (filter (\<lambda>i. i < length bs \<and> bs ! i) [0 ..< n]) = ones (take n bs)"
proof (induction n)
  case (Suc n)
  show ?case using Suc by (cases "n < length bs") (simp_all add: take_Suc_conv_app_nth)
qed simp

lemma bits_between_bm: "n \<le> 128 \<Longrightarrow> bits_between (bm bs) 0 n = ones (take n bs)"
proof -
  assume "n \<le> 128"
  then have "filter (bit (bm bs)) [0 ..< n] = filter (\<lambda>i. i < length bs \<and> bs ! i) [0 ..< n]"
    by (intro filter_cong) (auto simp: bit_bm)
  then show ?thesis by (simp add: bits_between_def filter_bits)
qed

lemma count_ones_bm: "length bs \<le> 128 \<Longrightarrow> count_ones (bm bs) = ones bs"
  using bits_between_bm [of 128 bs] by (simp add: count_ones_def bits_between_def)

text \<open>The first and the last set flag.\<close>

definition until_first :: "bool list \<Rightarrow> nat" where
  "until_first bs = length (takeWhile Not bs)"

definition through_last :: "bool list \<Rightarrow> nat" where
  "through_last bs = length (dropWhile Not (rev bs))"

lemma until_first_le: "until_first bs \<le> length bs"
  by (simp add: until_first_def length_takeWhile_le)

lemma through_last_le: "through_last bs \<le> length bs"
  unfolding through_last_def using length_dropWhile_le [of Not "rev bs"] by simp

lemma takeWhile_bits:
  "length (takeWhile (\<lambda>i. \<not> (i < length bs \<and> bs ! i)) [k ..< n]) =
   (if until_first (drop k bs) < length (drop k bs) \<and> k + until_first (drop k bs) < n
    then until_first (drop k bs) else n - k)"
proof (induction "n - k" arbitrary: k)
  case (Suc m)
  then have k: "k < n" "m = n - Suc k" by simp_all
  have upt: "[k ..< n] = k # [Suc k ..< n]" using k(1) by (rule upt_conv_Cons)
  show ?case
  proof (cases "k < length bs")
    case False
    then show ?thesis using Suc.hyps(1) [OF k(2)] k(1) by (simp add: upt until_first_def)
  next
    case True
    then have "drop k bs = bs ! k # drop (Suc k) bs" by (rule Cons_nth_drop_Suc [symmetric])
    then show ?thesis using Suc.hyps(1) [OF k(2)] k(1) True by (auto simp: upt until_first_def)
  qed
qed simp

lemma trailing_zeros_bm:
  "length bs \<le> 128 \<Longrightarrow> trailing_zeros (bm bs) = (if until_first bs < length bs then until_first bs else 128)"
proof -
  assume bs: "length bs \<le> 128"
  have "takeWhile (\<lambda>i. \<not> bit (bm bs) i) [0 ..< 128] = takeWhile (\<lambda>i. \<not> (i < length bs \<and> bs ! i)) [0 ..< 128]"
    by (intro takeWhile_cong) (auto simp: bit_bm)
  then show ?thesis
    using takeWhile_bits [of bs 0 128] bs by (auto simp: trailing_zeros_def)
qed

lemma until_first_rev: "until_first (rev bs) = length bs - through_last bs"
proof -
  have "length (takeWhile Not (rev bs)) + length (dropWhile Not (rev bs)) = length bs"
    by (simp flip: length_append)
  then show ?thesis by (simp add: until_first_def through_last_def)
qed

lemma leading_zeros_bm: "length bs \<le> 128 \<Longrightarrow> leading_zeros (bm bs) = 128 - through_last bs"
proof -
  assume bs: "length bs \<le> 128"
  let ?cs = "bs @ replicate (128 - length bs) False"
  have len: "length ?cs = 128" using bs by simp
  have "rev [0 ..< 128] = map (\<lambda>i. 127 - i) [0 ..< 128]"
    by (rule nth_equalityI) (simp_all add: rev_nth)
  then have "takeWhile (\<lambda>i. \<not> bit (bm bs) i) (rev [0 ..< 128]) =
      map (\<lambda>i. 127 - i) (takeWhile (\<lambda>i. \<not> bit (bm bs) (127 - i)) [0 ..< 128])"
    by (simp add: takeWhile_map comp_def)
  also have "takeWhile (\<lambda>i. \<not> bit (bm bs) (127 - i)) [0 ..< 128] =
      takeWhile (\<lambda>i. \<not> (i < length (rev ?cs) \<and> rev ?cs ! i)) [0 ..< 128]"
    using len by (intro takeWhile_cong) (auto simp: bit_bm rev_nth nth_append)
  finally have "leading_zeros (bm bs) = (if until_first (rev ?cs) < 128 then until_first (rev ?cs) else 128)"
    using takeWhile_bits [of "rev ?cs" 0 128] len by (simp add: leading_zeros_def)
  also have "\<dots> = until_first (rev ?cs)" using until_first_le [of "rev ?cs"] len by simp
  also have "\<dots> = 128 - through_last bs"
    proof -
    have "dropWhile Not (replicate m False @ cs) = dropWhile Not cs" for m cs by (induction m) simp_all
    then show ?thesis unfolding until_first_rev len by (simp add: through_last_def)
  qed
  finally show ?thesis .
qed

text \<open>The mask made from the leading zeros keeps the flags after the last newline.\<close>

lemma bm_and_shr_mask:
  "k \<le> 128 \<Longrightarrow> bm bs AND saturating_shr_mask (128 - k) = push_bit k (bm (drop k bs))"
  by (rule bit_word_eqI) (auto simp: bit_and_iff bit_shr_mask bit_push_bit_iff bit_bm)

lemma count_ones_push_bm: "k + length bs \<le> 128 \<Longrightarrow> count_ones (push_bit k (bm bs)) = ones bs"
proof -
  assume "k + length bs \<le> 128"
  moreover have "push_bit k (bm bs) = bm (replicate k False @ bs)"
    by (rule bit_word_eqI) (auto simp: bit_push_bit_iff bit_bm nth_append)
  moreover have "ones (replicate k False) = 0" by (simp add: ones_def)
  ultimately show ?thesis by (simp add: count_ones_bm)
qed

text \<open>The n-th set flag: the only one with \<open>n - 1\<close> set flags before it.\<close>

lemma ones_take_less: "i < j \<Longrightarrow> i < length bs \<Longrightarrow> bs ! i \<Longrightarrow> ones (take i bs) < ones (take j bs)"
proof -
  assume a: "i < j" "i < length bs" "bs ! i"
  then have "take j bs = take i bs @ True # take (j - Suc i) (drop (Suc i) bs)"
    using id_take_nth_drop [of i "take j bs"] by (simp add: min_def drop_take)
  then show ?thesis by simp
qed

lemma nth_set_bit_bm:
  assumes "length bs \<le> 128" "1 \<le> n" "n \<le> ones bs"
  shows "nth_set_bit (bm bs) n < length bs" "bs ! nth_set_bit (bm bs) n"
    "ones (take (nth_set_bit (bm bs) n) bs) + 1 = n"
proof -
  have "n \<le> count_ones (bm bs)" using assms by (simp add: count_ones_bm)
  note found = nth_set_bit_selects [OF assms(2) this]
  then show "nth_set_bit (bm bs) n < length bs" "bs ! nth_set_bit (bm bs) n" by (simp_all add: bit_bm)
  then have "nth_set_bit (bm bs) n \<le> 128" using assms(1) by simp
  then show "ones (take (nth_set_bit (bm bs) n) bs) + 1 = n" using found by (simp add: bits_between_bm)
qed

lemma nth_set_bit_bm_eq:
  assumes "length bs \<le> 128" "i < length bs" "bs ! i" "ones (take i bs) + 1 = n"
  shows "nth_set_bit (bm bs) n = i"
proof -
  have "ones (take i bs) < ones (take (length bs) bs)" using assms(2,3) by (intro ones_take_less)
  then have n: "1 \<le> n" "n \<le> ones bs" using assms(4) by simp_all
  let ?j = "nth_set_bit (bm bs) n"
  note j = nth_set_bit_bm [OF assms(1) n]
  show ?thesis
  proof (rule ccontr)
    assume "?j \<noteq> i"
    then consider "?j < i" | "i < ?j" by linarith
    then show False
      using ones_take_less [of ?j i bs] ones_take_less [of i ?j bs] j assms(2-4) by cases auto
  qed
qed

text \<open>A position that ends at a set flag, or at the end, is found again from the number of flags before it.\<close>

definition after_ones :: "bool list \<Rightarrow> nat \<Rightarrow> nat" where
  "after_ones bs n = (let ix = nth_set_bit (bm bs) n + 1 in ix + until_first (drop ix bs))"

lemma until_first_drop:
  assumes "i \<le> j" "j \<le> length bs" "\<forall>k. i \<le> k \<and> k < j \<longrightarrow> \<not> bs ! k" "j < length bs \<longrightarrow> bs ! j"
  shows "until_first (drop i bs) = j - i"
proof -
  have "drop i bs = take (j - i) (drop i bs) @ drop j bs"
    using assms(1) by (metis append_take_drop_id drop_drop le_add_diff_inverse2)
  moreover have "takeWhile Not (take (j - i) (drop i bs) @ drop j bs) = take (j - i) (drop i bs) @ takeWhile Not (drop j bs)"
    using assms by (intro takeWhile_append2) (auto simp: in_set_conv_nth)
  moreover have "takeWhile Not (drop j bs) = []"
  proof (cases "j < length bs")
    case True
    then have "drop j bs = bs ! j # drop (Suc j) bs" by (rule Cons_nth_drop_Suc [symmetric])
    then show ?thesis using assms(4) True by simp
  qed simp
  ultimately show ?thesis using assms(1,2) by (simp add: until_first_def)
qed

lemma after_ones_eq:
  assumes "length bs \<le> 128" "j \<le> length bs" "j < length bs \<longrightarrow> bs ! j" "1 \<le> ones (take j bs)"
  shows "after_ones bs (ones (take j bs)) = j"
proof -
  let ?n = "ones (take j bs)" and ?i = "nth_set_bit (bm bs) (ones (take j bs))"
  have "?n + ones (drop j bs) = ones bs" by (simp flip: ones_simps(3))
  then have n: "?n \<le> ones bs" by linarith
  note i = nth_set_bit_bm [OF assms(1) assms(4) n]
  have less: "?i < j"
  proof (rule ccontr)
    assume "\<not> ?i < j"
    then have "take ?i bs = take j bs @ take (?i - j) (drop j bs)" by (metis le_add_diff_inverse not_less take_add)
    then have "?n \<le> ones (take ?i bs)" by simp
    then show False using i(3) by simp
  qed
  have "\<not> bs ! k" if k: "?i + 1 \<le> k" "k < j" for k
  proof
    assume "bs ! k"
    then have "ones (take k bs) < ?n" using k assms(2) by (intro ones_take_less) auto
    moreover have "ones (take ?i bs) < ones (take k bs)" using k i(1,2) by (intro ones_take_less) auto
    ultimately show False using i(3) by linarith
  qed
  then have "until_first (drop (?i + 1) bs) = j - (?i + 1)"
    using assms(2,3) less by (intro until_first_drop) auto
  then show ?thesis using less by (simp add: after_ones_def Let_def)
qed

end
