(* ===== verification/RopeChunk.thy ===== *)
theory RopeChunk
  imports RopeText RopeBits
begin

unbundle bit_operations_syntax

text \<open>
  \<open>Chunk\<close> and \<open>ChunkSlice\<close> of \<open>crates/rope/src/chunk.rs\<close>: a text of at most 128 bytes with four
  bitmaps over its bytes (the starts of the characters, the UTF-16 code units, the newlines and the
  tabs), and the conversions between byte offsets, points and UTF-16 positions that read them.
  The build is a release build: a panic is \<open>None\<close>, \<open>debug_panic!\<close> and \<open>assert_char_boundary::<false>\<close>
  only log, and an amount of a shift that is not smaller than the width is taken modulo the width.
\<close>

subsection \<open>Chunks\<close>

definition MAX_BASE :: nat where
  "MAX_BASE = 128"

text \<open>A slice has the same fields as the chunk it is cut from.\<close>

record chunk =
  c_chars :: bitmap
  c_chars_utf16 :: bitmap
  c_newlines :: bitmap
  c_tabs :: bitmap
  c_text :: string

definition empty_slice :: chunk where
  "empty_slice = \<lparr>c_chars = 0, c_chars_utf16 = 0, c_newlines = 0, c_tabs = 0, c_text = []\<rparr>"

text \<open>\<open>util::is_utf8_char_boundary\<close>: the byte as a signed number is at least \<open>-0x40\<close>.\<close>

definition is_utf8_char_boundary :: "char \<Rightarrow> bool" where
  "is_utf8_char_boundary b \<longleftrightarrow> - 64 \<le> sint (of_char b :: 8 word)"

text \<open>One byte of up to eight: the four masks get the bit \<open>ix\<close>.\<close>

type_synonym byte_masks = "8 word \<times> 8 word \<times> 8 word \<times> 8 word"

definition new_byte :: "byte_masks \<Rightarrow> nat \<times> char \<Rightarrow> byte_masks" where
  "new_byte m ib = (case (m, ib) of ((chs, newlines, tabs, chs_utf16), ix, b) \<Rightarrow>
     (chs OR push_bit ix (of_bool (is_utf8_char_boundary b)),
      newlines OR push_bit ix (of_bool (b = CHR 0x0A)),
      tabs OR push_bit ix (of_bool (b = CHR 0x09)),
      chs_utf16 OR push_bit ix (of_bool ((240 :: nat) \<le> of_char b))))"

definition new_masks :: "string \<Rightarrow> byte_masks" where
  "new_masks bytes = foldl new_byte (0, 0, 0, 0) (enumerate 0 bytes)"

function new_loop :: "string \<Rightarrow> byte_masks list" where
  "new_loop bytes =
     (if bytes = [] then []
      else new_masks (take (min (length bytes) 8) bytes) # new_loop (drop (min (length bytes) 8) bytes))"
  by pat_completeness auto
termination
  by (relation "measure length") auto

declare new_loop.simps [simp del]

text \<open>\<open>Bitmap::from_le_bytes\<close> of an array of 16 bytes that starts with the given ones and is zero behind.\<close>

primrec from_le_bytes :: "8 word list \<Rightarrow> bitmap" where
  "from_le_bytes [] = 0"
| "from_le_bytes (b # bs) = ucast b OR push_bit 8 (from_le_bytes bs)"

definition new_chunk :: "string \<Rightarrow> chunk option" where
  "new_chunk t =
     (if length t > MAX_BASE then None
      else let masks = new_loop t;
               chs = from_le_bytes (map fst masks)
           in Some \<lparr>c_chars = chs,
                    c_chars_utf16 = push_bit 1 (from_le_bytes (map (snd \<circ> snd \<circ> snd) masks)) OR chs,
                    c_newlines = from_le_bytes (map (fst \<circ> snd) masks),
                    c_tabs = from_le_bytes (map (fst \<circ> snd \<circ> snd) masks),
                    c_text = t\<rparr>)"

definition chunk_append :: "chunk \<Rightarrow> chunk \<Rightarrow> chunk option" where
  "chunk_append c s =
     (if c_text s = [] then Some c
      else let base_ix = length (c_text c)
           in if base_ix \<ge> MAX_BASE \<or> length (c_text c) + length (c_text s) > MAX_BASE then None
              else Some \<lparr>c_chars = c_chars c OR push_bit base_ix (c_chars s),
                         c_chars_utf16 = c_chars_utf16 c OR push_bit base_ix (c_chars_utf16 s),
                         c_newlines = c_newlines c OR push_bit base_ix (c_newlines s),
                         c_tabs = c_tabs c OR push_bit base_ix (c_tabs s),
                         c_text = c_text c @ c_text s\<rparr>)"

definition chunk_prepend :: "chunk \<Rightarrow> chunk \<Rightarrow> chunk option" where
  "chunk_prepend c s =
     (if c_text s = [] then Some c
      else if c_text c = [] then new_chunk (c_text s)
      else let shift = length (c_text s)
           in if shift \<ge> MAX_BASE \<or> length (c_text s) + length (c_text c) > MAX_BASE then None
              else Some \<lparr>c_chars = c_chars s OR push_bit shift (c_chars c),
                         c_chars_utf16 = c_chars_utf16 s OR push_bit shift (c_chars_utf16 c),
                         c_newlines = c_newlines s OR push_bit shift (c_newlines c),
                         c_tabs = c_tabs s OR push_bit shift (c_tabs c),
                         c_text = c_text s @ c_text c\<rparr>)"

definition chunk_push_str :: "chunk \<Rightarrow> string \<Rightarrow> chunk option" where
  "chunk_push_str c t = Option.bind (new_chunk t) (chunk_append c)"

definition chunk_prepend_str :: "chunk \<Rightarrow> string \<Rightarrow> chunk option" where
  "chunk_prepend_str c t = Option.bind (new_chunk t) (chunk_prepend c)"

definition chunk_is_char_boundary :: "chunk \<Rightarrow> nat \<Rightarrow> bool" where
  "chunk_is_char_boundary c offset \<longleftrightarrow>
     push_bit offset 1 AND c_chars c \<noteq> 0 \<or> offset = length (c_text c)"

text \<open>The byte loop of \<open>Chunk::floor_char_boundary\<close>.\<close>

definition chunk_floor_char_boundary :: "chunk \<Rightarrow> nat \<Rightarrow> nat" where
  "chunk_floor_char_boundary c index =
     (if index \<ge> length (c_text c) then length (c_text c)
      else back_off (\<lambda>i. is_utf8_char_boundary (c_text c ! i)) index)"

subsection \<open>Slices\<close>

definition split_at :: "chunk \<Rightarrow> nat \<Rightarrow> (chunk \<times> chunk) option" where
  "split_at c mid =
     (if mid = MAX_BASE then Some (c, empty_slice)
      else if mid > MAX_BASE \<or> \<not> char_boundary (c_text c) mid then None
      else let m = push_bit mid 1 - 1 in
        Some (\<lparr>c_chars = c_chars c AND m, c_chars_utf16 = c_chars_utf16 c AND m,
               c_newlines = c_newlines c AND m, c_tabs = c_tabs c AND m, c_text = take mid (c_text c)\<rparr>,
              \<lparr>c_chars = drop_bit mid (c_chars c), c_chars_utf16 = drop_bit mid (c_chars_utf16 c),
               c_newlines = drop_bit mid (c_newlines c), c_tabs = drop_bit mid (c_tabs c),
               c_text = drop mid (c_text c)\<rparr>))"

text \<open>\<open>str::floor_char_boundary\<close> and \<open>str::ceil_char_boundary\<close>.\<close>

definition str_floor_char_boundary :: "string \<Rightarrow> nat \<Rightarrow> nat" where
  "str_floor_char_boundary t i = (if i \<ge> length t then length t else back_off (char_boundary t) i)"

definition str_ceil_char_boundary :: "string \<Rightarrow> nat \<Rightarrow> nat" where
  "str_ceil_char_boundary t i = (if i \<ge> length t then length t else step_up (char_boundary t) i (length t))"

text \<open>
  The ends of the range move to boundaries when they are none. The move can bring the start to 128,
  and the shift by 128 is then a shift by 0.
\<close>

definition chunk_slice :: "chunk \<Rightarrow> nat \<Rightarrow> nat \<Rightarrow> chunk option" where
  "chunk_slice c range_start range_end =
     (if range_start = MAX_BASE then Some empty_slice
      else let start = (if chunk_is_char_boundary c range_start then range_start
                        else str_ceil_char_boundary (c_text c) range_start);
               stop = (if chunk_is_char_boundary c range_end then range_end
                       else if range_end < start then start
                       else str_floor_char_boundary (c_text c) range_end);
               m = saturating_shl_mask stop;
               shift = start mod 128
           in map_option
                (\<lambda>t. \<lparr>c_chars = drop_bit shift (c_chars c AND m),
                      c_chars_utf16 = drop_bit shift (c_chars_utf16 c AND m),
                      c_newlines = drop_bit shift (c_newlines c AND m),
                      c_tabs = drop_bit shift (c_tabs c AND m), c_text = t\<rparr>)
                (str_slice (c_text c) start stop))"

subsection \<open>Measures\<close>

definition chunk_len :: "chunk \<Rightarrow> nat" where
  "chunk_len c = length (c_text c)"

definition chunk_len_utf16 :: "chunk \<Rightarrow> nat" where
  "chunk_len_utf16 c = count_ones (c_chars_utf16 c)"

text \<open>
  The subtraction \<open>leading_zeros() - (128 - len)\<close> is one of \<open>u32\<close>, which wraps in a release build.
  It does not for the chunk of a text, where no newline lies at or behind the end
  (\<open>chunk_lines_of\<close>); it does for bitmaps that are left without their text (\<open>slice_at_end_corrupt\<close>).
\<close>

definition chunk_lines :: "chunk \<Rightarrow> text_point" where
  "chunk_lines c =
     new_point (count_ones (c_newlines c))
       ((2 ^ 32 + leading_zeros (c_newlines c) - (128 - length (c_text c))) mod 2 ^ 32)"

definition first_line_chars :: "chunk \<Rightarrow> nat" where
  "first_line_chars c = count_ones (c_chars c AND saturating_shl_mask (trailing_zeros (c_newlines c)))"

definition last_line_chars :: "chunk \<Rightarrow> nat" where
  "last_line_chars c = count_ones (c_chars c AND saturating_shr_mask (leading_zeros (c_newlines c)))"

definition last_line_len_utf16 :: "chunk \<Rightarrow> nat" where
  "last_line_len_utf16 c = count_ones (c_chars_utf16 c AND saturating_shr_mask (leading_zeros (c_newlines c)))"

text \<open>
  The loop of \<open>longest_row\<close>: its state is the rest of the two bitmaps, the total, the row and the
  best row with its characters.
\<close>

lemma shift_out_less:
  fixes w :: bitmap
  assumes "w \<noteq> 0"
  shows "unat (drop_bit 1 (drop_bit k w)) < unat w"
proof -
  have "unat (drop_bit 1 (drop_bit k w)) = unat w div 2 ^ Suc k"
    by (simp only: unat_drop div_mult2_eq [symmetric] power_one_right power_Suc2)
  also have "\<dots> < unat w"
  proof (rule div_less_dividend)
    show "1 < (2 :: nat) ^ Suc k" by (rule one_less_power) simp_all
    show "0 < unat w" using assms by (simp add: unat_gt_0)
  qed
  finally show ?thesis .
qed

function longest_row_loop :: "bitmap \<Rightarrow> bitmap \<Rightarrow> nat \<Rightarrow> nat \<Rightarrow> nat \<Rightarrow> nat \<Rightarrow> nat \<times> nat \<times> nat" where
  "longest_row_loop chs newlines total_chars r longest_row longest_row_chars =
     (if newlines = 0
      then let row_chars = count_ones chs
           in if row_chars > longest_row_chars then (total_chars + row_chars, r, row_chars)
              else (total_chars + row_chars, longest_row, longest_row_chars)
      else let newline_ix = trailing_zeros newlines;
               row_chars = count_ones (chs AND (push_bit newline_ix 1 - 1));
               better = row_chars > longest_row_chars
           in longest_row_loop (drop_bit 1 (drop_bit newline_ix chs)) (drop_bit 1 (drop_bit newline_ix newlines))
                (total_chars + row_chars + 1) (r + 1)
                (if better then r else longest_row) (if better then row_chars else longest_row_chars))"
  by pat_completeness auto
termination
  by (relation "measure (\<lambda>(chs, newlines, total, r, lr, lrc). unat newlines)") (auto simp: shift_out_less [unfolded One_nat_def] simp del: drop_bit_drop_bit)

declare longest_row_loop.simps [simp del]

text \<open>The total, the longest row and its characters.\<close>

definition longest_row :: "chunk \<Rightarrow> nat \<times> nat \<times> nat" where
  "longest_row c = longest_row_loop (c_chars c) (c_newlines c) 0 0 0 0"

definition chunk_text_summary :: "chunk \<Rightarrow> text_summary" where
  "chunk_text_summary c =
     (case longest_row c of (total_chars, lr, lr_chars) \<Rightarrow>
        \<lparr>ts_len = chunk_len c, ts_chars = total_chars, ts_len_utf16 = chunk_len_utf16 c,
         ts_lines = chunk_lines c, ts_first_line_chars = first_line_chars c,
         ts_last_line_chars = last_line_chars c, ts_last_line_len_utf16 = last_line_len_utf16 c,
         ts_longest_row = lr, ts_longest_row_chars = lr_chars\<rparr>)"

subsection \<open>Conversions\<close>

definition chunk_offset_to_point :: "chunk \<Rightarrow> nat \<Rightarrow> text_point" where
  "chunk_offset_to_point c offset =
     (let m = saturating_shl_mask offset;
          newline_ix = 128 - leading_zeros (c_newlines c AND m)
      in new_point (count_ones (c_newlines c AND m)) (offset - newline_ix))"

text \<open>The start and the end of a row.\<close>

definition offset_range_for_row :: "chunk \<Rightarrow> nat \<Rightarrow> nat \<times> nat" where
  "offset_range_for_row c r =
     (let row_start = (if r > 0 then nth_set_bit (c_newlines c) r + 1 else 0);
          row_len = (if row_start = MAX_BASE then 0
                     else min (trailing_zeros (drop_bit row_start (c_newlines c))) (length (c_text c) - row_start))
      in (row_start, row_start + row_len))"

definition chunk_point_to_offset :: "chunk \<Rightarrow> text_point \<Rightarrow> nat" where
  "chunk_point_to_offset c p =
     (if row p > row (chunk_lines c) then chunk_len c
      else case offset_range_for_row c (row p) of (start, stop) \<Rightarrow>
        if column p > stop - start then stop else start + column p)"

definition chunk_offset_to_offset_utf16 :: "chunk \<Rightarrow> nat \<Rightarrow> nat" where
  "chunk_offset_to_offset_utf16 c offset = count_ones (c_chars_utf16 c AND saturating_shl_mask offset)"

definition chunk_offset_utf16_to_offset :: "chunk \<Rightarrow> nat \<Rightarrow> nat" where
  "chunk_offset_utf16_to_offset c target =
     (if target = 0 then 0
      else let ix = nth_set_bit (c_chars_utf16 c) target + 1
           in if ix = MAX_BASE then MAX_BASE
              else ix + min (trailing_zeros (drop_bit ix (c_chars_utf16 c))) (length (c_text c) - ix))"

definition chunk_point_to_offset_utf16 :: "chunk \<Rightarrow> text_point \<Rightarrow> nat" where
  "chunk_point_to_offset_utf16 c p =
     (if row p > row (chunk_lines c) then chunk_len_utf16 c
      else chunk_offset_to_offset_utf16 c (chunk_point_to_offset c p))"

definition chunk_offset_to_point_utf16 :: "chunk \<Rightarrow> nat \<Rightarrow> point_utf16" where
  "chunk_offset_to_point_utf16 c offset =
     (let m = saturating_shl_mask offset;
          newline_ix = 128 - leading_zeros (c_newlines c AND m)
      in new_point (count_ones (c_newlines c AND m))
           (if newline_ix = MAX_BASE then 0 else count_ones (drop_bit newline_ix (c_chars_utf16 c AND m))))"

definition chunk_point_to_point_utf16 :: "chunk \<Rightarrow> text_point \<Rightarrow> point_utf16" where
  "chunk_point_to_point_utf16 c p = chunk_offset_to_point_utf16 c (chunk_point_to_offset c p)"

text \<open>The line is cut out at a row's ends, which can panic only inside \<open>chunk_slice\<close>.\<close>

definition line_of_row :: "chunk \<Rightarrow> nat \<Rightarrow> chunk option" where
  "line_of_row c r = (case offset_range_for_row c r of (start, stop) \<Rightarrow> chunk_slice c start stop)"

definition chunk_point_utf16_to_offset :: "chunk \<Rightarrow> point_utf16 \<Rightarrow> nat option" where
  "chunk_point_utf16_to_offset c p =
     (if row p > row (chunk_lines c) then Some (chunk_len c)
      else case offset_range_for_row c (row p) of (start, stop) \<Rightarrow>
        map_option (\<lambda>line.
          if column p > last_line_len_utf16 line then stop
          else if column p > 0
               then back_off (char_boundary (c_text c)) (start + chunk_offset_utf16_to_offset line (column p))
               else start)
        (line_of_row c (row p)))"

definition chunk_unclipped_point_utf16_to_point :: "chunk \<Rightarrow> point_utf16 \<Rightarrow> text_point option" where
  "chunk_unclipped_point_utf16_to_point c p =
     (if row p > row (chunk_lines c) then Some (chunk_lines c)
      else map_option (\<lambda>line.
          if column p = 0 then new_point (row p) 0
          else if column p \<ge> chunk_len_utf16 line then new_point (row p) (chunk_len line)
          else new_point (row p) (back_off (char_boundary (c_text line)) (chunk_offset_utf16_to_offset line (column p))))
        (line_of_row c (row p)))"

datatype bias = Left | Right

text \<open>\<open>grapheme t i\<close>: the segmentation library says that \<open>i\<close> is a boundary between graphemes of \<open>t\<close>.\<close>

definition seek_boundary :: "(nat \<Rightarrow> bool) \<Rightarrow> bias \<Rightarrow> nat \<Rightarrow> nat \<Rightarrow> nat" where
  "seek_boundary P b i len = (case b of Left \<Rightarrow> back_off P i | Right \<Rightarrow> step_up P i len)"

definition chunk_clip_point :: "(string \<Rightarrow> nat \<Rightarrow> bool) \<Rightarrow> chunk \<Rightarrow> text_point \<Rightarrow> bias \<Rightarrow> text_point option" where
  "chunk_clip_point grapheme c p b =
     (if row p > row (chunk_lines c) then Some (chunk_lines c)
      else map_option (\<lambda>line.
          if column p = 0 then p
          else if column p \<ge> chunk_len line then new_point (row p) (chunk_len line)
          else let t = c_text line; i = column p
               in if (of_char (t ! (i - 1)) :: nat) < 128 \<and> (of_char (t ! i) :: nat) < 128 then new_point (row p) i
                  else new_point (row p)
                         (seek_boundary (\<lambda>i. chunk_is_char_boundary line i \<and> grapheme t i) b i (length t)))
        (line_of_row c (row p)))"

definition chunk_clip_offset_utf16 :: "chunk \<Rightarrow> nat \<Rightarrow> bias \<Rightarrow> nat" where
  "chunk_clip_offset_utf16 c target b =
     (if target = 0 then 0
      else if target \<ge> chunk_len_utf16 c then chunk_len_utf16 c
      else chunk_offset_to_offset_utf16 c
             (seek_boundary (char_boundary (c_text c)) b (chunk_offset_utf16_to_offset c target) (length (c_text c))))"

definition chunk_clip_point_utf16 :: "chunk \<Rightarrow> point_utf16 \<Rightarrow> bias \<Rightarrow> point_utf16 option" where
  "chunk_clip_point_utf16 c p b =
     (if row p > row (chunk_lines c) then Some (new_point (row (chunk_lines c)) (last_line_len_utf16 c))
      else map_option (\<lambda>line. new_point (row p) (chunk_clip_offset_utf16 line (column p) b)) (line_of_row c (row p)))"

subsection \<open>The iterator over the tabs\<close>

text \<open>One step: the byte offset and the character offset of the first tab, and the rest.\<close>

definition tabs_next :: "bitmap \<times> bitmap \<Rightarrow> ((nat \<times> nat) \<times> bitmap \<times> bitmap) option" where
  "tabs_next it = (case it of (tabs, chs) \<Rightarrow>
     if tabs = 0 then None
     else let tab_offset = trailing_zeros tabs;
              char_offset = count_ones (chs AND (push_bit tab_offset 1 - 1))
          in Some ((tab_offset, char_offset), tabs XOR push_bit tab_offset 1, chs))"

end
