(* ===== verification/RopeMarks.thy ===== *)
theory RopeMarks
  imports RopeChunk
begin

unbundle bit_operations_syntax

text \<open>
  The bitmaps of a chunk describe its text: every operation on chunks that are built from
  well-formed texts builds the chunk of the text the operation is named for.
\<close>

subsection \<open>The flags of a text\<close>

text \<open>A byte starts a character unless it is a continuation byte.\<close>

lemma byte_less: "(of_char b :: nat) < 256"
  using of_char_mod_256 [of b] by (metis mod_less_divisor zero_less_numeral)

lemma uint_byte: "uint (of_char b :: 8 word) = int (of_char b)"
proof -
  have "(of_char b :: 8 word) = of_nat (of_char b)" by (rule of_nat_of_char [symmetric])
  then show ?thesis using byte_less [of b] by (simp only: uint_nat unat_of_nat) simp
qed

lemma is_cont_iff: "is_cont b \<longleftrightarrow> 128 \<le> (of_char b :: nat) \<and> (of_char b :: nat) < 192"
proof (cases b)
  case (Char b0 b1 b2 b3 b4 b5 b6 b7)
  show ?thesis
    by (cases b7; cases b6) (auto simp: Char of_bool_def split: if_splits)
qed

lemma lead_iff: "is_utf8_char_boundary b \<longleftrightarrow> \<not> is_cont b"
proof -
  define v where "v = int (of_char b)"
  have v: "0 \<le> v" "v < 256" using byte_less [of b] by (simp_all add: v_def)
  have "sint (of_char b :: 8 word) = (v + 128) mod 256 - 128"
    by (simp add: sint_uint signed_take_bit_eq_take_bit_shift uint_byte take_bit_eq_mod v_def)
  moreover have "(v + 128) mod 256 = (if v < 128 then v + 128 else v - 128)"
  proof (cases "v < 128")
    case False
    then have "(v - 128 + 256) mod 256 = v - 128" using v by (subst mod_add_self2) simp
    then show ?thesis using False by (simp add: algebra_simps)
  qed (use v in simp)
  ultimately have signed: "sint (of_char b :: 8 word) = (if v < 128 then v else v - 256)" by simp
  have cont: "is_cont b \<longleftrightarrow> 128 \<le> v \<and> v < 192" by (auto simp: is_cont_iff v_def)
  show ?thesis unfolding is_utf8_char_boundary_def signed cont using v by auto
qed

text \<open>A byte of 240 or more starts a character of four bytes.\<close>

definition four :: "char \<Rightarrow> bool" where
  "four b \<longleftrightarrow> (240 :: nat) \<le> of_char b"

definition leads :: "string \<Rightarrow> bool list" where
  "leads t = map is_utf8_char_boundary t"

definition newline_flags :: "string \<Rightarrow> bool list" where
  "newline_flags t = map (\<lambda>b. b = CHR 0x0A) t"

definition tab_flags :: "string \<Rightarrow> bool list" where
  "tab_flags t = map (\<lambda>b. b = CHR 0x09) t"

primrec utf16_from :: "bool \<Rightarrow> string \<Rightarrow> bool list" where
  "utf16_from p [] = []"
| "utf16_from p (b # bs) = (p \<or> is_utf8_char_boundary b) # utf16_from (four b) bs"

definition utf16_flags :: "string \<Rightarrow> bool list" where
  "utf16_flags t = utf16_from False t"

lemma flags_length [simp]:
  "length (leads t) = length t" "length (newline_flags t) = length t" "length (tab_flags t) = length t"
  "length (utf16_from p t) = length t" "length (utf16_flags t) = length t"
proof -
  show len: "length (utf16_from p t) = length t" for p by (induction t arbitrary: p) auto
  then show "length (utf16_flags t) = length t" by (simp add: utf16_flags_def)
qed (simp_all add: leads_def newline_flags_def tab_flags_def)

lemma flags_append:
  "leads (a @ b) = leads a @ leads b" "newline_flags (a @ b) = newline_flags a @ newline_flags b"
  "tab_flags (a @ b) = tab_flags a @ tab_flags b"
  by (simp_all add: leads_def newline_flags_def tab_flags_def)

lemma flags_take_drop:
  "take n (leads t) = leads (take n t)" "drop n (leads t) = leads (drop n t)"
  "take n (newline_flags t) = newline_flags (take n t)" "drop n (newline_flags t) = newline_flags (drop n t)"
  "take n (tab_flags t) = tab_flags (take n t)" "drop n (tab_flags t) = tab_flags (drop n t)"
  by (simp_all add: leads_def newline_flags_def tab_flags_def take_map drop_map)

lemma utf16_from_append:
  "utf16_from p (a @ b) = utf16_from p a @ utf16_from (if a = [] then p else four (last a)) b"
  by (induction a arbitrary: p) auto

lemma utf16_from_nth:
  "i < length t \<Longrightarrow> utf16_from p t ! i \<longleftrightarrow> (if i = 0 then p else four (t ! (i - 1))) \<or> is_utf8_char_boundary (t ! i)"
proof (induction t arbitrary: p i)
  case (Cons b t)
  then show ?case by (cases i) (auto simp: nth_Cons')
qed simp

lemma not_four: "\<not> is_cont b \<Longrightarrow> (of_char b :: nat) < 240 \<Longrightarrow> \<not> four b" "is_cont b \<Longrightarrow> \<not> four b"
  by (auto simp: four_def is_cont_iff)

lemma utf8_char_last: "utf8_char g \<Longrightarrow> \<not> four (last g)"
proof (cases g rule: utf8_char.cases)
  case (1 a)
  assume "utf8_char g"
  then show ?thesis by (simp add: 1 in_bytes_def four_def)
qed (auto simp: not_four(2) split: if_splits)

lemma utf8_last: "utf8 t \<Longrightarrow> t \<noteq> [] \<Longrightarrow> \<not> four (last t)"
proof -
  assume t: "utf8 t" "t \<noteq> []"
  then have "last (chars t) \<in> set (chars t)" by simp
  then have g: "utf8_char (last (chars t))" "last (chars t) \<noteq> []"
    using t(1) chars_nonempty by (auto simp: utf8_def list_all_iff)
  have "t = concat (butlast (chars t)) @ last (chars t)"
    using t(2) concat_chars [of t] by (metis append_butlast_last_id chars_Nil_iff concat_append concat.simps append_Nil2)
  then have "last t = last (last (chars t))" using g(2) by (metis last_append)
  then show ?thesis using utf8_char_last [OF g(1)] by simp
qed

lemma utf16_flags_append: "utf8 a \<Longrightarrow> utf16_flags (a @ b) = utf16_flags a @ utf16_flags b"
  using utf8_last [of a] by (auto simp: utf16_flags_def utf16_from_append)

lemma utf16_flags_take: "take n (utf16_flags t) = utf16_flags (take n t)"
proof (cases "n \<le> length t")
  case True
  then have "length (utf16_from False (take n t)) = n" by simp
  then show ?thesis
    using utf16_from_append [of False "take n t" "drop n t"] by (simp add: utf16_flags_def)
qed (simp add: utf16_flags_def)

lemma utf16_flags_drop:
  assumes "utf8 t" "char_boundary t n"
  shows "drop n (utf16_flags t) = utf16_flags (drop n t)"
proof -
  have "length (utf16_flags (take n t)) = n" using char_boundary_le [OF assms(2)] by simp
  then show ?thesis
    using utf16_flags_append [OF utf8_take_drop(1) [OF assms], of "drop n t"] by simp
qed

subsection \<open>The chunk of a text\<close>

definition chunk_of :: "string \<Rightarrow> chunk" where
  "chunk_of t = \<lparr>c_chars = bm (leads t), c_chars_utf16 = bm (utf16_flags t),
     c_newlines = bm (newline_flags t), c_tabs = bm (tab_flags t), c_text = t\<rparr>"

text \<open>A well-formed chunk is the chunk of its text, which is UTF-8 of at most 128 bytes.\<close>

definition chunk_ok :: "chunk \<Rightarrow> bool" where
  "chunk_ok c \<longleftrightarrow> utf8 (c_text c) \<and> length (c_text c) \<le> MAX_BASE \<and> c = chunk_of (c_text c)"

lemma chunk_of_simps [simp]:
  "c_chars (chunk_of t) = bm (leads t)" "c_chars_utf16 (chunk_of t) = bm (utf16_flags t)"
  "c_newlines (chunk_of t) = bm (newline_flags t)" "c_tabs (chunk_of t) = bm (tab_flags t)"
  "c_text (chunk_of t) = t"
  by (simp_all add: chunk_of_def)

lemma chunk_of_ok: "utf8 t \<Longrightarrow> length t \<le> MAX_BASE \<Longrightarrow> chunk_ok (chunk_of t)"
  by (simp add: chunk_ok_def)

lemma chunk_okE:
  assumes "chunk_ok c"
  obtains t where "c = chunk_of t" "utf8 t" "length t \<le> MAX_BASE"
  using assms by (auto simp: chunk_ok_def)

lemma empty_slice_of: "empty_slice = chunk_of []"
  by (simp add: empty_slice_def chunk_of_def leads_def newline_flags_def tab_flags_def utf16_flags_def)

subsection \<open>Building a chunk reads the flags off the bytes\<close>

primrec flag_bits :: "(char \<Rightarrow> bool) \<Rightarrow> 8 word \<Rightarrow> nat \<Rightarrow> string \<Rightarrow> 8 word" where
  "flag_bits P m n [] = m"
| "flag_bits P m n (b # bs) = flag_bits P (m OR push_bit n (of_bool (P b))) (Suc n) bs"

lemma new_byte_fold:
  "foldl new_byte (m1, m2, m3, m4) (enumerate n bs) =
     (flag_bits is_utf8_char_boundary m1 n bs, flag_bits (\<lambda>b. b = CHR 0x0A) m2 n bs,
      flag_bits (\<lambda>b. b = CHR 0x09) m3 n bs, flag_bits four m4 n bs)"
  by (induction bs arbitrary: m1 m2 m3 m4 n) (simp_all add: new_byte_def four_def)

lemma bit_flag_bits:
  "bit (flag_bits P m n bs) i \<longleftrightarrow> bit m i \<or> (i < 8 \<and> n \<le> i \<and> i < n + length bs \<and> P (bs ! (i - n)))"
proof (induction bs arbitrary: m n)
  case (Cons b bs)
  have "bit (push_bit n (of_bool (P b)) :: 8 word) i \<longleftrightarrow> i < 8 \<and> i = n \<and> P b"
    by (cases "P b") (auto simp: bit_exp_iff)
  then have first: "bit (m OR push_bit n (of_bool (P b))) i \<longleftrightarrow> bit m i \<or> (i < 8 \<and> i = n \<and> P b)"
    by (simp only: bit_or_iff)
  have later: "P ((b # bs) ! (i - n)) \<longleftrightarrow> P (bs ! (i - Suc n))" if "Suc n \<le> i"
    using that by (simp add: nth_Cons')
  show ?case
    unfolding flag_bits.simps Cons.IH first using later by (cases "i = n") (auto simp: Suc_le_eq)
qed auto

lemma flag_bits_bm: "length bs \<le> 8 \<Longrightarrow> ucast (flag_bits P 0 0 bs) = bm (map P bs)"
  by (rule bit_word_eqI) (auto simp: bit_ucast_iff bit_flag_bits bit_bm)

lemma from_le_bytes_loop:
  assumes "\<And>bs. f (new_masks bs) = flag_bits P 0 0 bs"
  shows "from_le_bytes (map f (new_loop t)) = bm (map P t)"
proof (induction t rule: new_loop.induct)
  case (1 t)
  show ?case
  proof (cases "t = []")
    case True
    then show ?thesis by (simp add: new_loop.simps)
  next
    case False
    let ?k = "min (length t) 8"
    have "from_le_bytes (map f (new_loop t)) = bm (map P (take ?k t)) OR push_bit 8 (bm (map P (drop ?k t)))"
      using 1 [OF False] False by (subst new_loop.simps) (simp add: assms flag_bits_bm)
    also have "\<dots> = bm (map P t)"
    proof (cases "length t \<le> 8")
      case False
      then have "bm (map P (take ?k t)) OR push_bit 8 (bm (map P (drop ?k t))) =
          bm (map P (take ?k t) @ map P (drop ?k t))"
        by (intro bm_append) simp
      then show ?thesis by (simp flip: map_append)
    qed simp
    finally show ?thesis .
  qed
qed

lemma new_chunk_of: "utf8 t \<Longrightarrow> new_chunk t = (if length t \<le> MAX_BASE then Some (chunk_of t) else None)"
proof -
  assume t: "utf8 t"
  have masks: "new_masks bs = (flag_bits is_utf8_char_boundary 0 0 bs, flag_bits (\<lambda>b. b = CHR 0x0A) 0 0 bs,
      flag_bits (\<lambda>b. b = CHR 0x09) 0 0 bs, flag_bits four 0 0 bs)" for bs
    by (simp add: new_masks_def new_byte_fold)
  have "push_bit 1 (bm (map four t)) OR bm (leads t) = bm (utf16_flags t)"
  proof (rule bit_word_eqI)
    fix i assume "i < LENGTH(128)"
    have "\<not> four (t ! (i - 1))" if "i = length t" "0 < i"
      using utf8_last [OF t] that by (auto simp: last_conv_nth)
    moreover have pushed: "bit (push_bit 1 (bm bs)) i \<longleftrightarrow> 1 \<le> i \<and> i < 128 \<and> bit (bm bs) (i - 1)" for bs
      by (auto simp only: bit_push_bit_iff possible_bit_word) simp_all
    ultimately show "bit (push_bit 1 (bm (map four t)) OR bm (leads t)) i = bit (bm (utf16_flags t)) i"
      unfolding bit_or_iff pushed
      by (cases "i < length t"; cases "i = 0"; cases "i = length t")
         (auto simp: bit_bm utf16_flags_def utf16_from_nth leads_def)
  qed
  then show ?thesis
    using from_le_bytes_loop [of fst is_utf8_char_boundary t] from_le_bytes_loop [of "snd \<circ> snd \<circ> snd" four t]
      from_le_bytes_loop [of "fst \<circ> snd" "\<lambda>b. b = CHR 0x0A" t]
      from_le_bytes_loop [of "fst \<circ> snd \<circ> snd" "\<lambda>b. b = CHR 0x09" t]
    by (simp add: new_chunk_def masks Let_def chunk_of_def leads_def newline_flags_def tab_flags_def)
qed

subsection \<open>Appending, prepending and cutting\<close>

lemma chunk_of_append:
  assumes "utf8 a"
  shows "\<lparr>c_chars = bm (leads a) OR push_bit (length a) (bm (leads b)),
    c_chars_utf16 = bm (utf16_flags a) OR push_bit (length a) (bm (utf16_flags b)),
    c_newlines = bm (newline_flags a) OR push_bit (length a) (bm (newline_flags b)),
    c_tabs = bm (tab_flags a) OR push_bit (length a) (bm (tab_flags b)), c_text = a @ b\<rparr> = chunk_of (a @ b)"
  unfolding chunk_of_def flags_append utf16_flags_append [OF assms] by (simp only: bm_append flags_length)

lemma chunk_append_of:
  assumes "utf8 a" "utf8 b" "length a \<le> MAX_BASE"
  shows "chunk_append (chunk_of a) (chunk_of b) =
    (if length a + length b \<le> MAX_BASE then Some (chunk_of (a @ b)) else None)"
proof (cases "b = []")
  case True
  then show ?thesis using assms(3) by (simp add: chunk_append_def)
next
  case False
  then have "length a < length a + length b" by simp
  then have "length a + length b \<le> MAX_BASE \<Longrightarrow> \<not> MAX_BASE \<le> length a" by linarith
  then show ?thesis
    using False unfolding chunk_append_def chunk_of_simps Let_def chunk_of_append [OF assms(1)] by auto
qed

lemma chunk_prepend_of:
  assumes "utf8 a" "utf8 b" "length a \<le> MAX_BASE" "length b \<le> MAX_BASE"
  shows "chunk_prepend (chunk_of a) (chunk_of b) =
    (if length b + length a \<le> MAX_BASE then Some (chunk_of (b @ a)) else None)"
proof (cases "b = [] \<or> a = []")
  case True
  then show ?thesis using assms by (auto simp: chunk_prepend_def new_chunk_of)
next
  case False
  then have "length b < length b + length a" by simp
  then have "length b + length a \<le> MAX_BASE \<Longrightarrow> \<not> MAX_BASE \<le> length b" by linarith
  then show ?thesis
    using False unfolding chunk_prepend_def chunk_of_simps Let_def chunk_of_append [OF assms(2)] by auto
qed

text \<open>Pushing a text, at either end.\<close>

lemma chunk_push_str_of:
  assumes "utf8 a" "utf8 b" "length a \<le> MAX_BASE"
  shows "chunk_push_str (chunk_of a) b = (if length a + length b \<le> MAX_BASE then Some (chunk_of (a @ b)) else None)"
  using assms by (simp add: chunk_push_str_def new_chunk_of chunk_append_of)

lemma chunk_prepend_str_of:
  assumes "utf8 a" "utf8 b" "length a \<le> MAX_BASE"
  shows "chunk_prepend_str (chunk_of a) b = (if length b + length a \<le> MAX_BASE then Some (chunk_of (b @ a)) else None)"
  using assms by (simp add: chunk_prepend_str_def new_chunk_of chunk_prepend_of)

text \<open>The boundaries a chunk knows are the boundaries of its text.\<close>

lemma bit_one_and: "push_bit i 1 AND w \<noteq> 0 \<longleftrightarrow> bit w i" for w :: bitmap
proof -
  have "bit (push_bit i 1 AND w) j \<longleftrightarrow> j = i \<and> bit w i" for j
    using bit_bitmap_less [of w i] by (auto simp: bit_and_iff bit_exp_iff)
  then show ?thesis using bit_bitmap_less [of w i] by (metis bit_0_eq bit_word_eqI bot_apply bot_bool_def)
qed

lemma char_boundary_leads: "utf8 t \<Longrightarrow> char_boundary t i \<longleftrightarrow> (i < length t \<and> leads t ! i) \<or> i = length t"
  using utf8_clean_start [of t] by (cases t; cases i) (auto simp: char_boundary_def leads_def lead_iff split: if_splits)

lemma chunk_is_char_boundary_of:
  "utf8 t \<Longrightarrow> length t \<le> MAX_BASE \<Longrightarrow> chunk_is_char_boundary (chunk_of t) i \<longleftrightarrow> char_boundary t i"
  unfolding chunk_is_char_boundary_def bit_one_and by (auto simp: bit_bm char_boundary_leads MAX_BASE_def)

lemma back_off_cong: "(\<And>k. k \<le> n \<Longrightarrow> P k = Q k) \<Longrightarrow> back_off P n = back_off Q n"
proof (induction n)
  case (Suc n)
  have "back_off P n = back_off Q n" by (rule Suc.IH) (simp add: Suc.prems)
  then show ?case using Suc.prems [of "Suc n"] by simp
qed simp

lemma chunk_floor_of:
  assumes "utf8 t"
  shows "chunk_floor_char_boundary (chunk_of t) i = str_floor_char_boundary t i"
proof (cases "i < length t")
  case True
  have same: "is_utf8_char_boundary (t ! k) \<longleftrightarrow> char_boundary t k" if "k \<le> i" for k
    using that True assms by (auto simp: char_boundary_leads leads_def)
  have "back_off (\<lambda>k. is_utf8_char_boundary (t ! k)) i = back_off (char_boundary t) i"
    using same by (rule back_off_cong)
  then show ?thesis using True by (simp add: chunk_floor_char_boundary_def str_floor_char_boundary_def)
qed (simp add: chunk_floor_char_boundary_def str_floor_char_boundary_def)

text \<open>Cutting a text in two, and out of the middle.\<close>

lemma split_at_of:
  assumes "utf8 t" "length t \<le> MAX_BASE"
  shows "split_at (chunk_of t) mid =
    (if char_boundary t mid then Some (chunk_of (take mid t), chunk_of (drop mid t))
     else if mid = MAX_BASE then Some (chunk_of t, chunk_of []) else None)"
proof -
  have less: "mid \<le> length t" if "char_boundary t mid" using that by (rule char_boundary_le)
  have m: "push_bit mid 1 - 1 = saturating_shl_mask mid" by (simp add: saturating_shl_mask_def)
  have bits: "drop_bit mid (bm fs) = bm (drop mid fs)" if "length fs = length t" for fs
    using that assms(2) by (intro bm_drop) (simp add: MAX_BASE_def)
  have "\<lparr>c_chars = bm (leads t) AND saturating_shl_mask mid, c_chars_utf16 = bm (utf16_flags t) AND saturating_shl_mask mid,
      c_newlines = bm (newline_flags t) AND saturating_shl_mask mid, c_tabs = bm (tab_flags t) AND saturating_shl_mask mid,
      c_text = take mid t\<rparr> = chunk_of (take mid t)"
    unfolding bm_and_mask chunk_of_def by (simp add: flags_take_drop utf16_flags_take)
  moreover have "\<lparr>c_chars = drop_bit mid (bm (leads t)), c_chars_utf16 = drop_bit mid (bm (utf16_flags t)),
      c_newlines = drop_bit mid (bm (newline_flags t)), c_tabs = drop_bit mid (bm (tab_flags t)),
      c_text = drop mid t\<rparr> = chunk_of (drop mid t)" if "char_boundary t mid"
    using that assms(1) by (simp add: chunk_of_def bits flags_take_drop utf16_flags_drop)
  ultimately show ?thesis
    using less assms(2) unfolding split_at_def chunk_of_simps Let_def m by (auto simp: empty_slice_of)
qed

lemma slice_between:
  assumes "utf8 t" "length t \<le> MAX_BASE" "char_boundary t a"
  shows "\<lparr>c_chars = drop_bit a (bm (leads t) AND saturating_shl_mask b),
    c_chars_utf16 = drop_bit a (bm (utf16_flags t) AND saturating_shl_mask b),
    c_newlines = drop_bit a (bm (newline_flags t) AND saturating_shl_mask b),
    c_tabs = drop_bit a (bm (tab_flags t) AND saturating_shl_mask b), c_text = take (b - a) (drop a t)\<rparr> =
    chunk_of (take (b - a) (drop a t))"
proof -
  have bits: "drop_bit a (bm (take b fs)) = bm (take (b - a) (drop a fs))" if "length fs = length t" for fs
    using that assms(2) by (subst bm_drop) (simp_all add: MAX_BASE_def drop_take)
  show ?thesis
    unfolding bm_and_mask bits [OF flags_length(1)] bits [OF flags_length(2)] bits [OF flags_length(3)]
      bits [OF flags_length(5)]
    using assms(1,3) by (simp add: chunk_of_def flags_take_drop utf16_flags_drop utf16_flags_take)
qed

lemma slice_of:
  assumes "utf8 t" "length t \<le> MAX_BASE" "a \<le> b" "char_boundary t a" "char_boundary t b"
  shows "chunk_slice (chunk_of t) a b = Some (chunk_of (take (b - a) (drop a t)))"
proof (cases "a = MAX_BASE")
  case True
  then have "drop a t = []" using assms(2) by simp
  then show ?thesis using True by (simp add: chunk_slice_def empty_slice_of)
next
  case False
  then have "a < MAX_BASE" using char_boundary_le [OF assms(4)] assms(2) by linarith
  moreover have "str_slice t a b = Some (take (b - a) (drop a t))"
    using assms by (simp add: str_slice_Some)
  moreover have "a mod 128 = a" using \<open>a < MAX_BASE\<close> by (simp add: MAX_BASE_def)
  moreover have "chunk_is_char_boundary (chunk_of t) a" "chunk_is_char_boundary (chunk_of t) b"
    using assms by (simp_all add: chunk_is_char_boundary_of)
  ultimately show ?thesis
    using slice_between [OF assms(1,2,4)] by (simp add: chunk_slice_def)
qed

text \<open>The moves of the ends are to the nearest boundaries inside.\<close>

lemma str_ceil_boundary:
  "a \<le> length t \<Longrightarrow> char_boundary t (str_ceil_char_boundary t a) \<and> a \<le> str_ceil_char_boundary t a"
  unfolding str_ceil_char_boundary_def using step_up_bounds step_up_holds [of a "length t" "char_boundary t"]
  by (cases "a = length t") simp_all

lemma str_floor_boundary:
  "char_boundary t (str_floor_char_boundary t a)" "a \<le> length t \<Longrightarrow> str_floor_char_boundary t a \<le> a"
  by (simp_all add: str_floor_char_boundary_def back_off_holds [of "char_boundary t"])

lemma str_floor_greatest: "char_boundary t i \<Longrightarrow> i \<le> a \<Longrightarrow> i \<le> str_floor_char_boundary t a"
  using char_boundary_le [of t i] back_off_greatest [of "char_boundary t" i a]
  by (simp add: str_floor_char_boundary_def)

text \<open>
  A start inside the last character of a full chunk moves to 128, and the shift by 128 is a shift by 0:
  the slice has an empty text and the bitmaps of the whole chunk.
\<close>

lemma slice_at_end_lemma:
  assumes "utf8 t" "length t = MAX_BASE" "\<not> char_boundary t a" "str_ceil_char_boundary t a = MAX_BASE"
  shows "chunk_slice (chunk_of t) a MAX_BASE = Some ((chunk_of t)\<lparr>c_text := []\<rparr>)"
proof -
  have a: "a \<noteq> MAX_BASE" using assms(2,3) by (metis char_boundary_len)
  have stop: "chunk_is_char_boundary (chunk_of t) MAX_BASE" "str_slice t MAX_BASE MAX_BASE = Some []"
    using assms(1,2) by (simp_all add: chunk_is_char_boundary_of str_slice_Some flip: assms(2))
  have "bm fs AND saturating_shl_mask MAX_BASE = bm fs" if "length fs = length t" for fs
    using that assms(2) by (simp add: bm_and_mask)
  note whole = this [OF flags_length(1)] this [OF flags_length(2)] this [OF flags_length(3)] this [OF flags_length(5)]
  show ?thesis
    using a assms stop whole
    by (simp add: chunk_slice_def chunk_is_char_boundary_of Let_def) (simp add: MAX_BASE_def chunk_of_def)
qed

end
