(* ===== verification/RopeMeasure.thy ===== *)
theory RopeMeasure
  imports RopeMarks
begin

unbundle bit_operations_syntax

text \<open>
  The measures of a chunk, read off its bitmaps, are the measures of its text: \<open>text_summary\<close> of the
  chunk of a text is \<open>TextSummary::from\<close> of the text.
\<close>

subsection \<open>First and last flags of a concatenation\<close>

lemma while_Not_append:
  "dropWhile Not (xs @ ys) = (if True \<in> set xs then dropWhile Not xs @ ys else dropWhile Not ys)"
  "takeWhile Not (xs @ ys) = (if True \<in> set xs then takeWhile Not xs else xs @ takeWhile Not ys)"
  by (induction xs) auto

lemma through_last_append:
  "through_last (as @ bs) = (if True \<in> set bs then length as + through_last bs else through_last as)"
  by (simp add: through_last_def while_Not_append)

lemma through_last_none: "True \<notin> set bs \<Longrightarrow> through_last bs = 0"
  using through_last_append [of "[]" bs] by (simp add: through_last_def)

lemma until_first_append:
  "until_first (as @ bs) = (if True \<in> set as then until_first as else length as + until_first bs)"
  by (simp add: until_first_def while_Not_append)

lemma until_first_none: "True \<notin> set bs \<Longrightarrow> until_first bs = length bs"
  using until_first_append [of bs "[]"] by (simp add: until_first_def)

lemma until_first_less: "until_first bs < length bs \<longleftrightarrow> True \<in> set bs"
proof
  assume "True \<in> set bs"
  then have "takeWhile Not bs \<noteq> bs" by (auto simp: takeWhile_eq_all_conv)
  then show "until_first bs < length bs"
    unfolding until_first_def by (metis length_takeWhile_le le_neq_implies_less takeWhile_eq_take take_all order_refl)
next
  assume "until_first bs < length bs"
  then show "True \<in> set bs" using until_first_none [of bs] by force
qed

lemma ones_zero: "ones bs = 0 \<longleftrightarrow> True \<notin> set bs"
  by (auto simp: ones_def filter_empty_conv)

subsection \<open>The flags of one character\<close>

lemma utf8_charE:
  assumes "utf8_char g"
  obtains b bs where "g = b # bs" "\<not> is_cont b" "list_all is_cont bs"
  using utf8_char_shape [OF assms] by (auto simp: list_all_iff)

lemma newline_not_cont: "is_cont c \<Longrightarrow> c \<noteq> CHR 0x0A"
  by auto

lemma newline_flags_char:
  assumes "utf8_char g" "g \<noteq> [CHR 0x0A]"
  shows "True \<notin> set (newline_flags g)"
proof (cases g rule: utf8_char.cases)
  case (1 a)
  then show ?thesis using assms(2) by (simp add: newline_flags_def)
qed (use assms(1) in \<open>auto simp: newline_flags_def in_bytes_def split: if_splits\<close>)

lemma leads_char: "utf8_char g \<Longrightarrow> ones (leads g) = 1"
proof (erule utf8_charE)
  fix b bs assume g: "g = b # bs" "\<not> is_cont b" "list_all is_cont bs"
  then have "True \<notin> set (leads bs)" by (auto simp: leads_def lead_iff list_all_iff)
  then have "ones (leads bs) = 0" by (simp only: ones_zero not_False_eq_True)
  then show ?thesis using g by (simp add: leads_def lead_iff)
qed

lemma utf16_flags_char: "utf8_char g \<Longrightarrow> ones (utf16_flags g) = len_utf16 g"
proof (cases g rule: utf8_char.cases)
  case (1 a)
  assume "utf8_char g"
  then have "\<not> is_cont a" using 1 by (auto dest: in_bytes_lead)
  then show ?thesis by (simp add: 1 utf16_flags_def len_utf16_def lead_iff)
next
  case (2 a b)
  assume "utf8_char g"
  then have "\<not> is_cont a" "is_cont b" "\<not> four a" using 2 by (auto simp: four_def in_bytes_def is_cont_iff)
  then show ?thesis by (simp add: 2 utf16_flags_def len_utf16_def lead_iff)
next
  case (3 a b c)
  assume g: "utf8_char g"
  then have "is_cont c" "is_cont b" using 3 by (auto dest: in_bytes_cont split: if_splits)
  moreover have "\<not> is_cont a" "\<not> four a"
    using g 3 by (auto dest: in_bytes_lead simp: four_def in_bytes_def is_cont_iff split: if_splits)
  ultimately show ?thesis by (simp add: 3 utf16_flags_def len_utf16_def lead_iff not_four)
next
  case (4 a b c d)
  assume g: "utf8_char g"
  then have "is_cont b" "is_cont c" "is_cont d" using 4 by (auto dest: in_bytes_cont split: if_splits)
  moreover have "\<not> is_cont a" "four a"
    using g 4 by (auto simp: four_def in_bytes_def is_cont_iff split: if_splits)
  ultimately show ?thesis by (simp add: 4 utf16_flags_def len_utf16_def lead_iff not_four)
qed auto

subsection \<open>The summary by flags\<close>

text \<open>The end of a text: the number of newlines, and the bytes after the last.\<close>

definition text_end :: "string \<Rightarrow> text_point" where
  "text_end t = new_point (ones (newline_flags t)) (length t - through_last (newline_flags t))"

lemma text_end_append:
  "text_end (a @ b) = point_add (text_end a) (text_end b)"
proof (cases "True \<in> set (newline_flags b)")
  case True
  then have "ones (newline_flags b) \<noteq> 0" by (simp add: ones_zero)
  then show ?thesis using True by (simp add: text_end_def flags_append through_last_append point_add_def)
next
  case False
  then have "ones (newline_flags b) = 0" "through_last (newline_flags b) = 0"
    by (simp_all add: ones_zero through_last_none)
  then show ?thesis
    using False through_last_le [of "newline_flags a"]
    by (simp add: text_end_def flags_append through_last_append point_add_def)
qed

definition last_flags :: "string \<Rightarrow> bool list \<Rightarrow> nat" where
  "last_flags t fs = ones (drop (through_last (newline_flags t)) fs)"

definition first_flags :: "string \<Rightarrow> bool list \<Rightarrow> nat" where
  "first_flags t fs = ones (take (until_first (newline_flags t)) fs)"

lemma last_flags_newline: "length fs = length t \<Longrightarrow> length gs = 1 \<Longrightarrow> last_flags (t @ [CHR 0x0A]) (fs @ gs) = 0"
  by (simp add: last_flags_def flags_append newline_flags_def through_last_append) (simp add: through_last_def)

lemma last_flags_other:
  "True \<notin> set (newline_flags g) \<Longrightarrow> length fs = length t \<Longrightarrow> last_flags (t @ g) (fs @ gs) = last_flags t fs + ones gs"
  using through_last_le [of "newline_flags t"] by (simp add: last_flags_def flags_append through_last_append)

lemma first_flags_append:
  "length fs = length t \<Longrightarrow>
   first_flags (t @ g) (fs @ gs) =
     (if True \<in> set (newline_flags t) then first_flags t fs else ones fs + first_flags g gs)"
  using until_first_le [of "newline_flags t"] by (simp add: first_flags_def flags_append until_first_append)

lemma last_flags_none: "True \<notin> set (newline_flags t) \<Longrightarrow> last_flags t fs = ones fs"
  by (simp add: last_flags_def through_last_none)

lemma text_summary_char: "utf8_char g \<Longrightarrow> text_summary_from g = (ts_push_char g ts_zero)\<lparr>ts_len := length g\<rparr>"
  by (simp add: text_summary_from_def)

lemma text_summary_push: "utf8_char g \<Longrightarrow> text_summary_from (t @ g) = ts_add (text_summary_from t) (text_summary_from g)"
  by (intro text_summary_from_append_lemma utf8_single)

lemma utf8_rev_induct [consumes 1, case_names Nil snoc]:
  assumes "utf8 t" "P []" "\<And>t g. utf8 t \<Longrightarrow> utf8_char g \<Longrightarrow> P t \<Longrightarrow> P (t @ g)"
  shows "P t"
proof -
  have "P (concat gs)" if "list_all utf8_char gs" for gs
    using that
  proof (induction gs rule: rev_induct)
    case (snoc g gs)
    then have "utf8 (concat gs)" by (intro utf8_concat) (auto simp: list_all_iff utf8_single)
    then show ?case using snoc assms(3) by simp
  qed (simp add: assms(2))
  from this [of "chars t"] show ?thesis using assms(1) by (simp add: utf8_def)
qed

lemma summary_char_fields:
  assumes "utf8_char g" "g \<noteq> [CHR 0x0A]"
  shows "ts_chars (text_summary_from g) = 1" "ts_len_utf16 (text_summary_from g) = len_utf16 g"
    "ts_lines (text_summary_from g) = new_point 0 (length g)" "ts_first_line_chars (text_summary_from g) = 1"
    "ts_last_line_chars (text_summary_from g) = 1" "ts_last_line_len_utf16 (text_summary_from g) = len_utf16 g"
  using assms(2) by (simp_all add: text_summary_char [OF assms(1)] ts_zero_def)

definition summary_flags :: "string \<Rightarrow> text_summary \<Rightarrow> bool" where
  "summary_flags t s \<longleftrightarrow>
     ts_chars s = ones (leads t) \<and> ts_len_utf16 s = ones (utf16_flags t) \<and> ts_lines s = text_end t \<and>
     ts_first_line_chars s = first_flags t (leads t) \<and> ts_last_line_chars s = last_flags t (leads t) \<and>
     ts_last_line_len_utf16 s = last_flags t (utf16_flags t)"

lemma text_end_row: "row (text_end t) = 0 \<longleftrightarrow> True \<notin> set (newline_flags t)"
  by (simp add: text_end_def ones_zero)

lemma summary_flags_from:
  assumes "utf8 t"
  shows "summary_flags t (text_summary_from t)"
  using assms
proof (induction t rule: utf8_rev_induct)
  case Nil
  show ?case
    by (simp add: summary_flags_def text_summary_from_def ts_zero_def leads_def utf16_flags_def text_end_def
        newline_flags_def first_flags_def last_flags_def point_zero_def through_last_def)
next
  case (snoc t g)
  have utf16: "utf16_flags (t @ g) = utf16_flags t @ utf16_flags g" by (rule utf16_flags_append [OF snoc(1)])
  have IH: "ts_chars (text_summary_from t) = ones (leads t)" "ts_len_utf16 (text_summary_from t) = ones (utf16_flags t)"
    "ts_lines (text_summary_from t) = text_end t" "ts_first_line_chars (text_summary_from t) = first_flags t (leads t)"
    "ts_last_line_chars (text_summary_from t) = last_flags t (leads t)"
    "ts_last_line_len_utf16 (text_summary_from t) = last_flags t (utf16_flags t)"
    using snoc(3) by (simp_all add: summary_flags_def)
  have first: "first_flags t (leads t) = ones (leads t)" if "True \<notin> set (newline_flags t)"
    using that by (simp add: first_flags_def until_first_none)
  show ?case
  proof (cases "g = [CHR 0x0A]")
    case True
    have g: "leads g = [True]" "utf16_flags g = [True]" "newline_flags g = [True]" "text_end g = new_point 1 0"
      using True by (simp_all add: leads_def utf16_flags_def newline_flags_def text_end_def lead_iff through_last_def)
    have "first_flags g (leads g) = 0" by (simp add: first_flags_def g until_first_def)
    then show ?thesis
      using text_summary_push [OF snoc(2), of t] last_flags_newline [of "leads t" t "[True]"]
        last_flags_newline [of "utf16_flags t" t "[True]"] text_end_row [of t]
      by (simp add: True text_summary_newline summary_flags_def IH ts_newline_def flags_append(1)
          utf16 [unfolded True] first first_flags_append text_end_append g [unfolded True])
  next
    case False
    note none = newline_flags_char [OF snoc(2) False]
    then have g: "text_end g = new_point 0 (length g)" "first_flags g (leads g) = ones (leads g)"
      by (simp_all add: text_end_def through_last_none ones_zero first_flags_def until_first_none)
    show ?thesis
      using text_summary_push [OF snoc(2), of t] summary_char_fields [OF snoc(2) False] text_end_row [of t]
      by (simp add: summary_flags_def IH flags_append(1) utf16 first first_flags_append text_end_append g
          last_flags_other [OF none] leads_char [OF snoc(2)] utf16_flags_char [OF snoc(2)])
  qed
qed

subsection \<open>The measures of a chunk\<close>

lemma last_flags_bm:
  assumes "length t \<le> 128" "length fs = length t"
  shows "count_ones (bm fs AND saturating_shr_mask (leading_zeros (bm (newline_flags t)))) = last_flags t fs"
proof -
  let ?k = "through_last (newline_flags t)"
  have k: "?k \<le> length t" using through_last_le [of "newline_flags t"] by simp
  have "leading_zeros (bm (newline_flags t)) = 128 - ?k" using assms(1) by (simp add: leading_zeros_bm)
  then have "count_ones (bm fs AND saturating_shr_mask (leading_zeros (bm (newline_flags t)))) =
      count_ones (push_bit ?k (bm (drop ?k fs)))"
    using bm_and_shr_mask [of ?k fs] k assms(1) by simp
  also have "\<dots> = last_flags t fs"
    unfolding last_flags_def using k assms by (intro count_ones_push_bm) simp
  finally show ?thesis .
qed

lemma first_flags_bm:
  assumes "length t \<le> 128" "length fs = length t"
  shows "count_ones (bm fs AND saturating_shl_mask (trailing_zeros (bm (newline_flags t)))) = first_flags t fs"
proof -
  have "trailing_zeros (bm (newline_flags t)) =
      (if until_first (newline_flags t) < length t then until_first (newline_flags t) else 128)"
    using assms(1) by (simp add: trailing_zeros_bm)
  moreover have "take 128 fs = fs" "until_first (newline_flags t) \<ge> length t \<Longrightarrow> take (until_first (newline_flags t)) fs = fs"
    using assms by simp_all
  ultimately show ?thesis
    using assms count_ones_bm [of "take (until_first (newline_flags t)) fs"] count_ones_bm [of fs]
    by (auto simp: bm_and_mask first_flags_def)
qed

lemma no_underflow: "b \<le> a \<Longrightarrow> a < 2 ^ 32 \<Longrightarrow> (2 ^ 32 + a - b) mod 2 ^ 32 = a - (b :: nat)"
  by (metis Nat.add_diff_assoc less_imp_diff_less mod_add_self1 mod_less)

lemma chunk_lines_of: "length t \<le> MAX_BASE \<Longrightarrow> chunk_lines (chunk_of t) = text_end t"
  using through_last_le [of "newline_flags t"] no_underflow [of "through_last (newline_flags t)" "length t"]
  by (simp add: chunk_lines_def text_end_def MAX_BASE_def count_ones_bm leading_zeros_bm)

lemma utf8_after_newline: "utf8 (CHR 0x0A # r) \<Longrightarrow> utf8 r"
proof -
  assume u: "utf8 (CHR 0x0A # r)"
  then have "utf8_char (CHR 0x0A # takeWhile is_cont r)" by (simp add: utf8_def)
  then have "takeWhile is_cont r = []"
    by (cases "CHR 0x0A # takeWhile is_cont r" rule: utf8_char.cases) (auto simp: in_bytes_def split: if_splits)
  then have "clean_start r" by (cases r) auto
  then show ?thesis using u utf8_append_split [of r "[CHR 0x0A]"] by simp
qed

text \<open>The text before, at and behind the first newline.\<close>

lemma first_line_cases [consumes 1, case_names none some]:
  assumes "utf8 t"
  obtains (none) "True \<notin> set (newline_flags t)"
  | (some) line r where "t = line @ CHR 0x0A # r" "utf8 line" "utf8 r" "True \<notin> set (newline_flags line)"
proof (cases "CHR 0x0A \<in> set t")
  case False
  then show thesis by (intro none) (auto simp: newline_flags_def)
next
  case True
  then obtain line r where t: "t = line @ CHR 0x0A # r" "CHR 0x0A \<notin> set line"
    by (meson split_list_first)
  then have "utf8 line" "utf8 (CHR 0x0A # r)"
    using assms utf8_append_split [of "CHR 0x0A # r" line] by simp_all
  then show thesis using t by (intro some [of line r]) (auto simp: newline_flags_def utf8_after_newline)
qed

lemma bm_zero: "length bs \<le> 128 \<Longrightarrow> bm bs = 0 \<longleftrightarrow> True \<notin> set bs"
proof -
  assume bs: "length bs \<le> 128"
  have "bm bs = 0 \<longleftrightarrow> (\<forall>i. \<not> bit (bm bs) i)" using bit_bitmap_less [of "bm bs"] by (auto simp: bit_eq_iff)
  also have "\<dots> \<longleftrightarrow> True \<notin> set bs" using bs by (auto simp: bit_bm in_set_conv_nth)
  finally show ?thesis .
qed

subsection \<open>The longest row\<close>

lemma longest_first_row:
  assumes "utf8 t" "True \<notin> set (newline_flags t)"
  shows "ts_longest_row_chars (text_summary_from t) = ones (leads t)" "ts_longest_row (text_summary_from t) = 0"
    "ts_last_line_chars (text_summary_from t) = ones (leads t)" "row (ts_lines (text_summary_from t)) = 0"
proof -
  have flags: "ts_lines (text_summary_from t) = text_end t" "ts_last_line_chars (text_summary_from t) = last_flags t (leads t)"
    using summary_flags_from [OF assms(1)] by (simp_all add: summary_flags_def)
  then show row: "row (ts_lines (text_summary_from t)) = 0" using assms(2) by (simp add: text_end_row)
  show last: "ts_last_line_chars (text_summary_from t) = ones (leads t)" using flags assms(2) by (simp add: last_flags_none)
  show "ts_longest_row_chars (text_summary_from t) = ones (leads t)" "ts_longest_row (text_summary_from t) = 0"
    using ts_wf_from [of t] row last by (simp_all add: ts_wf_def)
qed

lemma summary_of_lines:
  assumes "utf8 line" "utf8 r" "True \<notin> set (newline_flags line)"
  shows "ts_longest_row_chars (text_summary_from (line @ CHR 0x0A # r)) =
      max (ones (leads line)) (ts_longest_row_chars (text_summary_from r))"
    "ts_longest_row (text_summary_from (line @ CHR 0x0A # r)) =
      (if ts_longest_row_chars (text_summary_from r) > ones (leads line)
       then ts_longest_row (text_summary_from r) + 1 else 0)"
proof -
  have nl: "utf8 [CHR 0x0A]" by (rule utf8_single) (simp add: in_bytes_def)
  have "line @ CHR 0x0A # r = (line @ [CHR 0x0A]) @ r" by simp
  then have sum: "text_summary_from (line @ CHR 0x0A # r) =
      ts_add (ts_add (text_summary_from line) ts_newline) (text_summary_from r)"
    using text_summary_from_append_lemma [OF assms(2), of "line @ [CHR 0x0A]"]
      text_summary_from_append_lemma [OF nl, of line] by (simp add: text_summary_newline)
  have "ts_first_line_chars (text_summary_from r) \<le> ts_longest_row_chars (text_summary_from r)"
    "ts_first_line_chars (text_summary_from r) = ts_longest_row_chars (text_summary_from r) \<Longrightarrow>
     ts_longest_row (text_summary_from r) = 0"
    using ts_wf_from [of r] by (simp_all add: ts_wf_def)
  then show "ts_longest_row_chars (text_summary_from (line @ CHR 0x0A # r)) =
      max (ones (leads line)) (ts_longest_row_chars (text_summary_from r))"
    "ts_longest_row (text_summary_from (line @ CHR 0x0A # r)) =
      (if ts_longest_row_chars (text_summary_from r) > ones (leads line)
       then ts_longest_row (text_summary_from r) + 1 else 0)"
    using longest_first_row [OF assms(1,3)] by (auto simp: sum ts_newline_def max_def)
qed

lemma longest_row_loop_of:
  assumes "utf8 t" "length t \<le> 128"
  shows "longest_row_loop (bm (leads t)) (bm (newline_flags t)) tot r lr lrc =
    (let s = text_summary_from t
     in (tot + ones (leads t), if ts_longest_row_chars s > lrc then r + ts_longest_row s else lr,
         max lrc (ts_longest_row_chars s)))"
  using assms
proof (induction "length t" arbitrary: t tot r lr lrc rule: less_induct)
  case less
  show ?case
    using less.prems(1)
  proof (cases rule: first_line_cases)
    case none
    then show ?thesis
      using less.prems longest_first_row [OF less.prems(1) none]
      by (subst longest_row_loop.simps) (simp add: bm_zero count_ones_bm Let_def max_def)
  next
    case (some line rest)
    let ?k = "length line"
    have flags: "newline_flags t = newline_flags line @ True # newline_flags rest" "leads t = leads line @ True # leads rest"
      by (simp_all add: some newline_flags_def leads_def lead_iff)
    have len: "length rest < length t" "length rest \<le> 128" "length t = ?k + Suc (length rest)"
      using less.prems(2) by (simp_all add: some)
    have "until_first (newline_flags t) = ?k"
      using some(4) by (simp add: flags until_first_append) (simp add: until_first_def)
    then have tz: "trailing_zeros (bm (newline_flags t)) = ?k"
      using less.prems(2) len by (simp add: trailing_zeros_bm)
    have "True \<in> set (newline_flags t)" by (simp add: flags)
    then have nz: "bm (newline_flags t) \<noteq> 0" using less.prems(2) bm_zero [of "newline_flags t"] by simp
    have m: "push_bit ?k 1 - 1 = saturating_shl_mask ?k" by (simp add: saturating_shl_mask_def)
    have rowc: "count_ones (bm (leads t) AND (push_bit ?k 1 - 1)) = ones (leads line)"
      using less.prems(2) len unfolding m bm_and_mask by (subst count_ones_bm) (simp_all add: flags)
    have shifted: "drop_bit 1 (drop_bit ?k (bm (leads t))) = bm (leads rest)"
      "drop_bit 1 (drop_bit ?k (bm (newline_flags t))) = bm (newline_flags rest)"
      using less.prems(2) len by (subst bm_drop, simp, subst bm_drop, simp, simp add: flags)+
    have IH: "longest_row_loop (bm (leads rest)) (bm (newline_flags rest)) tot' r' lr' lrc' =
      (let s = text_summary_from rest
       in (tot' + ones (leads rest), if ts_longest_row_chars s > lrc' then r' + ts_longest_row s else lr',
           max lrc' (ts_longest_row_chars s)))" for tot' r' lr' lrc'
      by (rule less.hyps [OF len(1) some(3) len(2)])
    have unfolded: "longest_row_loop (bm (leads t)) (bm (newline_flags t)) tot r lr lrc =
        longest_row_loop (bm (leads rest)) (bm (newline_flags rest)) (tot + ones (leads line) + 1) (r + 1)
          (if ones (leads line) > lrc then r else lr) (if ones (leads line) > lrc then ones (leads line) else lrc)"
      by (subst longest_row_loop.simps) (simp only: nz if_False Let_def tz rowc shifted)
    show ?thesis
      unfolding unfolded IH
      using summary_of_lines [OF some(2,3,4)] by (auto simp: some(1) [symmetric] Let_def flags max_def)
  qed
qed

text \<open>The summary of a chunk is the summary of its text.\<close>

lemma chunk_text_summary_of:
  assumes "utf8 t" "length t \<le> MAX_BASE"
  shows "chunk_text_summary (chunk_of t) = text_summary_from t"
proof -
  have len: "length t \<le> 128" using assms(2) by (simp add: MAX_BASE_def)
  have "ts_len (text_summary_from t) = length t" by (simp add: text_summary_from_def)
  moreover have "longest_row (chunk_of t) = (ones (leads t), ts_longest_row (text_summary_from t),
      ts_longest_row_chars (text_summary_from t))"
    using longest_row_loop_of [OF assms(1) len, of 0 0 0 0] ts_wf_from [of t]
    by (auto simp: longest_row_def Let_def ts_wf_def)
  ultimately show ?thesis
    using summary_flags_from [OF assms(1)] len assms(2)
    by (intro ts_eqI)
       (simp_all add: chunk_text_summary_def summary_flags_def chunk_len_def chunk_len_utf16_def count_ones_bm
         chunk_lines_of first_line_chars_def last_line_chars_def last_line_len_utf16_def last_flags_bm first_flags_bm)
qed

text \<open>
  C3. The summary of a chunk is the summary of its text: what \<open>ChunkSlice::text_summary\<close> reads off the
  bitmaps by counting bits and searching set bits (length, characters, UTF-16 units, lines, the first, the
  last and the longest row) is what \<open>TextSummary::from\<close> computes character by character, for every chunk
  that a text of at most 128 bytes makes.
\<close>

theorem chunk_summary_is_text_summary:
  assumes "utf8 t" "length t \<le> MAX_BASE"
  shows "map_option chunk_text_summary (new_chunk t) = Some (text_summary_from t)"
  using assms by (simp add: new_chunk_of chunk_text_summary_of)

lemma chunk_summary_is_text_summary_witness:
  "map_option chunk_text_summary (new_chunk [CHR ''a'', CHR 0x0A]) = Some (text_summary_from [CHR ''a'', CHR 0x0A])"
  by (rule chunk_summary_is_text_summary) (simp_all add: ascii_utf8 MAX_BASE_def ascii_def in_bytes_def)

text \<open>
  C7. A slice cut behind the last boundary of a full chunk is corrupt: when the chunk has 128 bytes and the
  range starts inside its last character and ends with the chunk, the slice has an empty text and
  the bitmaps of the whole chunk, so its summary reports the characters, the UTF-16 units and the rows of
  the whole chunk at a length of 0. (A build with debug assertions panics instead.)
\<close>

theorem slice_at_end_corrupt:
  assumes "utf8 t" "length t = MAX_BASE" "\<not> char_boundary t a" "str_ceil_char_boundary t a = MAX_BASE"
  shows "\<exists>s. Option.bind (new_chunk t) (\<lambda>c. chunk_slice c a MAX_BASE) = Some s \<and> c_text s = [] \<and>
    ts_len (chunk_text_summary s) = 0 \<and>
    ts_chars (chunk_text_summary s) = ts_chars (text_summary_from t) \<and>
    ts_len_utf16 (chunk_text_summary s) = ts_len_utf16 (text_summary_from t) \<and>
    row (ts_lines (chunk_text_summary s)) = row (ts_lines (text_summary_from t))"
proof -
  have full: "chunk_text_summary (chunk_of t) = text_summary_from t"
    using assms by (intro chunk_text_summary_of) simp_all
  show ?thesis
    using slice_at_end_lemma [OF assms] assms(1,2) unfolding full [symmetric]
    by (auto simp: new_chunk_of chunk_text_summary_def chunk_len_def chunk_len_utf16_def chunk_lines_def
        longest_row_def split: prod.split)
qed

lemma slice_at_end_corrupt_witness:
  "\<exists>t s. length t = MAX_BASE \<and> Option.bind (new_chunk t) (\<lambda>c. chunk_slice c 127 MAX_BASE) = Some s \<and> c_text s = [] \<and>
     ts_len (chunk_text_summary s) = 0 \<and> ts_chars (chunk_text_summary s) = ts_chars (text_summary_from t)"
proof -
  define t where "t = replicate 126 (CHR ''a'') @ [CHR 0xC3, CHR 0xA9]"
  have utf8: "utf8 t"
    unfolding t_def
    by (rule utf8_append) (simp add: ascii_utf8 ascii_def in_bytes_def list_all_iff, simp add: utf8_def in_bytes_def)
  have inside: "\<not> char_boundary t 127" "char_boundary t 128"
    by (simp_all add: t_def char_boundary_def nth_append)
  then have ceil: "str_ceil_char_boundary t 127 = MAX_BASE"
    by (simp add: str_ceil_char_boundary_def t_def MAX_BASE_def step_up.simps)
  have len: "length t = MAX_BASE" by (simp add: t_def MAX_BASE_def)
  show ?thesis using slice_at_end_corrupt [OF utf8 len inside(1) ceil] len by blast
qed

end
