(* ===== verification/RopeConvert.thy ===== *)
theory RopeConvert
  imports RopeMeasure
begin

unbundle bit_operations_syntax

text \<open>
  The conversions of a chunk between byte offsets, points and UTF-16 positions: what they compute on
  the text, that they undo each other on character boundaries, and where clipping puts a position.
\<close>

subsection \<open>Offsets to points\<close>

lemma chunk_offset_to_point_of:
  assumes "length t \<le> MAX_BASE" "off \<le> length t"
  shows "chunk_offset_to_point (chunk_of t) off = text_end (take off t)"
proof -
  have "through_last (newline_flags (take off t)) \<le> off"
    using through_last_le [of "newline_flags (take off t)"] by simp
  then show ?thesis
    using assms by (simp add: chunk_offset_to_point_def text_end_def bm_and_mask flags_take_drop MAX_BASE_def
        count_ones_bm leading_zeros_bm)
qed

text \<open>The end of a text is the point the parser of points gives.\<close>

lemma text_end_single: "text_end [b] = (if b = CHR 0x0A then new_point 1 0 else new_point 0 1)"
  by (simp add: text_end_def newline_flags_def through_last_def)

lemma text_end_Nil [simp]: "text_end [] = point_zero"
  by (simp add: text_end_def newline_flags_def through_last_def point_zero_def)

lemma text_end_parse: "text_end t = point_parse_str t"
proof (induction t)
  case Nil
  show ?case by (simp add: point_parse_str_eq point_zero_def)
next
  case (Cons b t)
  have "text_end (b # t) = point_add (text_end [b]) (text_end t)"
    using text_end_append [of "[b]" t] by simp
  moreover obtain l ls where ls: "split_newline t = l # ls" by (cases "split_newline t") simp_all
  ultimately show ?case
    by (cases "b = CHR 0x0A"; cases ls) (simp_all add: Cons point_parse_str_eq text_end_single point_add_def ls)
qed

lemma text_end_summary: "utf8 t \<Longrightarrow> text_end t = ts_lines (text_summary_from t)"
  using summary_flags_from [of t] by (simp add: summary_flags_def)

subsection \<open>Rows\<close>

text \<open>\<open>line\<close> is row \<open>r\<close> of the text, between \<open>pre\<close> and \<open>post\<close>.\<close>

definition row_at :: "string \<Rightarrow> nat \<Rightarrow> string \<Rightarrow> string \<Rightarrow> string \<Rightarrow> bool" where
  "row_at t r pre line post \<longleftrightarrow>
     t = pre @ line @ post \<and> ones (newline_flags pre) = r \<and> (pre = [] \<or> last pre = CHR 0x0A) \<and>
     CHR 0x0A \<notin> set line \<and> (post = [] \<or> hd post = CHR 0x0A)"

lemma newline_free: "True \<in> set (newline_flags t) \<longleftrightarrow> CHR 0x0A \<in> set t"
  by (auto simp: newline_flags_def)

lemma newline_flags_simps [simp]:
  "newline_flags [] = []" "newline_flags (b # t) = (b = CHR 0x0A) # newline_flags t"
  by (simp_all add: newline_flags_def)

lemma row_at_exists: "r \<le> ones (newline_flags t) \<Longrightarrow> \<exists>pre line post. row_at t r pre line post"
proof (induction t arbitrary: r)
  case Nil
  then have "row_at [] r [] [] []" by (simp add: row_at_def)
  then show ?case by blast
next
  case (Cons b t)
  show ?case
  proof (cases r)
    case 0
    obtain pre line post where IH: "row_at t 0 pre line post" using Cons.IH [of 0] by auto
    then have "pre = []"
      using ones_zero [of "newline_flags pre"] last_in_set [of pre]
      by (cases "pre = []") (simp_all add: row_at_def newline_free)
    then have "row_at t 0 [] line post" using IH by simp
    then have "row_at (b # t) 0 [] (if b = CHR 0x0A then [] else b # line) (if b = CHR 0x0A then b # t else post)"
      by (auto simp: row_at_def)
    then show ?thesis using 0 by blast
  next
    case (Suc q)
    then have "(if b = CHR 0x0A then q else r) \<le> ones (newline_flags t)"
      using Cons.prems by (cases "b = CHR 0x0A") simp_all
    then obtain pre line post where IH: "row_at t (if b = CHR 0x0A then q else r) pre line post"
      using Cons.IH by blast
    then have "row_at (b # t) r (b # pre) line post"
      using Suc by (auto simp: row_at_def split: if_splits)
    then show ?thesis by blast
  qed
qed

lemma row_at_end:
  assumes "row_at t r pre line post" "k \<le> length line"
  shows "text_end (take (length pre + k) t) = new_point r k"
proof -
  have t: "take (length pre + k) t = pre @ take k line" using assms by (simp add: row_at_def)
  have "CHR 0x0A \<notin> set (take k line)" using assms(1) by (auto simp: row_at_def dest: in_set_takeD)
  then have "text_end (take k line) = new_point 0 k"
    using assms(2) newline_free [of "take k line"] by (simp add: text_end_def ones_zero through_last_none)
  moreover have "text_end pre = new_point r 0"
  proof (cases "pre = []")
    case False
    then have "pre = butlast pre @ [CHR 0x0A]"
      using assms(1) append_butlast_last_id [of pre] by (simp add: row_at_def)
    then have "text_end pre = point_add (text_end (butlast pre)) (new_point 1 0)"
      using text_end_append [of "butlast pre" "[CHR 0x0A]"] by (simp add: text_end_single)
    moreover have "row (text_end pre) = r" using assms(1) by (simp add: row_at_def text_end_def)
    ultimately show ?thesis by (intro point_eqI) simp_all
  qed (use assms(1) in \<open>auto simp: row_at_def point_zero_def\<close>)
  ultimately show ?thesis by (simp add: t text_end_append point_add_def)
qed

text \<open>Every offset lies in its row.\<close>

lemma row_at_offset:
  assumes "off \<le> length t"
  obtains pre line post k where "row_at t (row (text_end (take off t))) pre line post" "k \<le> length line"
    "off = length pre + k" "column (text_end (take off t)) = k"
proof -
  let ?r = "row (text_end (take off t))"
  have r: "?r = ones (take off (newline_flags t))" by (simp add: text_end_def flags_take_drop)
  have "ones (newline_flags t) = ?r + ones (drop off (newline_flags t))"
    unfolding r by (simp flip: ones_simps(3))
  then obtain pre line post where row: "row_at t ?r pre line post" using row_at_exists [of ?r t] by auto
  then have t: "t = pre @ line @ post" "ones (newline_flags pre) = ?r" by (simp_all add: row_at_def)
  then have pre: "take (length pre) (newline_flags t) = newline_flags pre" by (simp add: flags_take_drop)
  have low: "length pre \<le> off"
  proof (rule ccontr)
    assume less: "\<not> length pre \<le> off"
    then have "pre \<noteq> []" by auto
    then have "pre ! (length pre - 1) = CHR 0x0A" using row by (auto simp: row_at_def last_conv_nth)
    then have "newline_flags t ! (length pre - 1)" using \<open>pre \<noteq> []\<close> by (simp add: newline_flags_def t nth_append)
    then have "ones (take (length pre - 1) (newline_flags t)) < ones (take (length pre) (newline_flags t))"
      using length_greater_0_conv [of pre] \<open>pre \<noteq> []\<close> by (intro ones_take_less) (simp_all add: t trans_less_add1)
    moreover have "take off (newline_flags t) = take off (take (length pre - 1) (newline_flags t))"
      using less by (simp add: min_def)
    then have "ones (take off (newline_flags t)) \<le> ones (take (length pre - 1) (newline_flags t))"
      by (metis append_take_drop_id le_add1 ones_simps(3))
    ultimately show False using t(2) pre r by simp
  qed
  have high: "off \<le> length pre + length line"
  proof (rule ccontr)
    assume less: "\<not> off \<le> length pre + length line"
    then have "post \<noteq> []" using assms t by auto
    then have "newline_flags t ! (length pre + length line)"
      using row by (auto simp: row_at_def newline_flags_def nth_append hd_conv_nth)
    then have "ones (take (length pre + length line) (newline_flags t)) < ones (take off (newline_flags t))"
      using less assms by (intro ones_take_less) auto
    moreover have "ones (newline_flags pre) \<le> ones (take (length pre + length line) (newline_flags t))"
      by (simp add: t flags_append)
    ultimately show False using t(2) r by simp
  qed
  obtain k where k: "off = length pre + k" using low le_Suc_ex by blast
  then have "k \<le> length line" using high by simp
  moreover have "column (text_end (take off t)) = k" using row_at_end [OF row \<open>k \<le> length line\<close>] unfolding k
    by (metis new_point_simps(2))
  ultimately show thesis by (intro that [OF row _ k])
qed

lemma offset_range_of:
  assumes "length t \<le> MAX_BASE" "row_at t r pre line post"
  shows "offset_range_for_row (chunk_of t) r = (length pre, length pre + length line)"
proof -
  have len: "length t \<le> 128" using assms(1) by (simp add: MAX_BASE_def)
  have t: "t = pre @ line @ post" using assms(2) by (simp add: row_at_def)
  have start: "(if r > 0 then nth_set_bit (bm (newline_flags t)) r + 1 else 0) = length pre"
  proof (cases "pre = []")
    case False
    then have pre: "pre = butlast pre @ [CHR 0x0A]"
      using assms(2) append_butlast_last_id [of pre] by (simp add: row_at_def)
    then have "ones (newline_flags pre) = ones (newline_flags (butlast pre)) + 1"
      using flags_append(2) [of "butlast pre" "[CHR 0x0A]"] by simp
    then have r: "ones (newline_flags (butlast pre)) + 1 = r" using assms(2) by (simp add: row_at_def)
    have split: "newline_flags t = newline_flags (butlast pre) @ True # newline_flags (line @ post)"
    proof -
      have "t = butlast pre @ CHR 0x0A # line @ post" using pre t by (metis append.assoc append_Cons append_Nil)
      then show ?thesis by (simp add: flags_append)
    qed
    have "nth_set_bit (bm (newline_flags t)) r = length (butlast pre)"
    proof (rule nth_set_bit_bm_eq)
      show "length (newline_flags t) \<le> 128" using len by simp
      show "length (butlast pre) < length (newline_flags t)" unfolding split by simp
      show "newline_flags t ! length (butlast pre)"
        unfolding split using nth_append_length [of "newline_flags (butlast pre)" True] by simp
      show "ones (take (length (butlast pre)) (newline_flags t)) + 1 = r" unfolding split using r by simp
    qed
    then show ?thesis using False r by simp
  qed (use assms(2) in \<open>simp add: row_at_def\<close>)
  have shifted: "drop_bit (length pre) (bm (newline_flags t)) = bm (newline_flags (line @ post))"
    using len by (subst bm_drop) (simp_all add: t flags_append)
  have first: "until_first [] = 0" "until_first (True # fs) = 0" for fs by (simp_all add: until_first_def)
  have "until_first (newline_flags (line @ post)) = length line"
    using assms(2) newline_free [of line] by (cases post) (auto simp: row_at_def flags_append until_first_append until_first_none first)
  moreover have "length (newline_flags (line @ post)) \<le> 128" using len by (simp add: t)
  ultimately have "min (trailing_zeros (bm (newline_flags (line @ post)))) (length t - length pre) = length line"
    by (auto simp: trailing_zeros_bm t)
  moreover have "length line = 0" if "length pre = MAX_BASE" using that assms(1) by (simp add: t)
  ultimately show ?thesis
    unfolding offset_range_for_row_def chunk_of_simps start Let_def shifted by simp
qed

subsection \<open>Points to offsets\<close>

lemma chunk_point_to_offset_of:
  assumes "length t \<le> MAX_BASE" "row_at t (row p) pre line post"
  shows "chunk_point_to_offset (chunk_of t) p = length pre + min (column p) (length line)"
proof -
  have "ones (newline_flags t) \<ge> row p" using assms(2) by (auto simp: row_at_def flags_append)
  then have "\<not> row p > row (chunk_lines (chunk_of t))" using assms(1) by (simp add: chunk_lines_of text_end_def)
  then show ?thesis by (simp add: chunk_point_to_offset_def offset_range_of [OF assms])
qed

lemma chunk_point_to_offset_beyond:
  "length t \<le> MAX_BASE \<Longrightarrow> row p > row (text_end t) \<Longrightarrow> chunk_point_to_offset (chunk_of t) p = length t"
  by (simp add: chunk_point_to_offset_def chunk_lines_of chunk_len_def)

lemma point_offset_roundtrip_lemma:
  assumes "length t \<le> MAX_BASE" "off \<le> length t"
  shows "chunk_point_to_offset (chunk_of t) (chunk_offset_to_point (chunk_of t) off) = off"
proof -
  obtain pre line post k where row: "row_at t (row (text_end (take off t))) pre line post" "k \<le> length line"
    "off = length pre + k" "column (text_end (take off t)) = k"
    by (rule row_at_offset [OF assms(2)])
  have "chunk_point_to_offset (chunk_of t) (text_end (take off t)) = length pre + min k (length line)"
    using chunk_point_to_offset_of [OF assms(1) row(1)] row(4) by simp
  also have "\<dots> = off" using row(2,3) by simp
  finally show ?thesis using assms by (simp add: chunk_offset_to_point_of)
qed

text \<open>A point is in the text when its row has the column.\<close>

lemma offset_point_roundtrip:
  assumes "length t \<le> MAX_BASE" "row_at t (row p) pre line post" "column p \<le> length line"
  shows "chunk_offset_to_point (chunk_of t) (chunk_point_to_offset (chunk_of t) p) = p"
proof -
  have t: "t = pre @ line @ post" using assms(2) by (simp add: row_at_def)
  have "chunk_point_to_offset (chunk_of t) p = length pre + column p"
    using chunk_point_to_offset_of [OF assms(1,2)] assms(3) by simp
  moreover have "text_end (take (length pre + column p) t) = p" using row_at_end [OF assms(2,3)] by simp
  ultimately show ?thesis using assms(1,3) by (simp add: chunk_offset_to_point_of t)
qed

subsection \<open>UTF-16 offsets\<close>

lemma chunk_offset_to_offset_utf16_of:
  "length t \<le> MAX_BASE \<Longrightarrow> chunk_offset_to_offset_utf16 (chunk_of t) off = ones (take off (utf16_flags t))"
  by (simp add: chunk_offset_to_offset_utf16_def bm_and_mask count_ones_bm MAX_BASE_def)

lemma utf16_summary:
  "utf8 t \<Longrightarrow> char_boundary t off \<Longrightarrow> ones (take off (utf16_flags t)) = ts_len_utf16 (text_summary_from (take off t))"
  using summary_flags_from [of "take off t"] by (simp add: utf8_take_drop(1) summary_flags_def utf16_flags_take)

lemma utf16_flag_boundary: "utf8 t \<Longrightarrow> char_boundary t i \<Longrightarrow> i < length t \<Longrightarrow> utf16_flags t ! i"
  by (simp add: char_boundary_leads utf16_flags_def utf16_from_nth leads_def)

lemma chunk_offset_utf16_to_offset_of:
  assumes "length t \<le> MAX_BASE" "1 \<le> n" "n \<le> ones (utf16_flags t)"
  shows "chunk_offset_utf16_to_offset (chunk_of t) n = after_ones (utf16_flags t) n"
proof -
  have len: "length (utf16_flags t) \<le> 128" using assms(1) by (simp add: MAX_BASE_def)
  define ix where "ix = nth_set_bit (bm (utf16_flags t)) n + 1"
  have "ix \<le> length t" using nth_set_bit_bm(1) [OF len assms(2,3)] by (simp add: ix_def)
  then have "min (trailing_zeros (bm (drop ix (utf16_flags t)))) (length t - ix) = until_first (drop ix (utf16_flags t))"
    using len until_first_le [of "drop ix (utf16_flags t)"] by (auto simp: trailing_zeros_bm)
  moreover have "until_first (drop ix (utf16_flags t)) = 0" if "ix = MAX_BASE"
    using that assms(1) by (simp add: until_first_def)
  moreover have "drop_bit ix (bm (utf16_flags t)) = bm (drop ix (utf16_flags t))" using len by (rule bm_drop)
  ultimately show ?thesis
    using assms(2) by (simp add: chunk_offset_utf16_to_offset_def after_ones_def Let_def flip: ix_def del: One_nat_def)
qed

text \<open>The UTF-16 offset of a boundary leads back to it.\<close>

lemma utf16_roundtrip_flags:
  assumes "utf8 t" "length t \<le> MAX_BASE" "char_boundary t off"
  shows "chunk_offset_utf16_to_offset (chunk_of t) (ones (take off (utf16_flags t))) = off"
proof (cases "off = 0")
  case False
  have len: "length (utf16_flags t) \<le> 128" using assms(2) by (simp add: MAX_BASE_def)
  have off: "off \<le> length t" using assms(3) by (rule char_boundary_le)
  have "t \<noteq> []" using False off by auto
  then have "utf16_flags t ! 0" using assms(1) by (intro utf16_flag_boundary) simp_all
  then have "ones (take 0 (utf16_flags t)) < ones (take off (utf16_flags t))"
    using False \<open>t \<noteq> []\<close> by (intro ones_take_less) simp_all
  then have n: "1 \<le> ones (take off (utf16_flags t))" by simp
  have "ones (take off (utf16_flags t)) + ones (drop off (utf16_flags t)) = ones (utf16_flags t)"
    by (simp flip: ones_simps(3))
  then have "ones (take off (utf16_flags t)) \<le> ones (utf16_flags t)" by linarith
  then have "chunk_offset_utf16_to_offset (chunk_of t) (ones (take off (utf16_flags t))) =
      after_ones (utf16_flags t) (ones (take off (utf16_flags t)))"
    by (rule chunk_offset_utf16_to_offset_of [OF assms(2) n])
  also have "\<dots> = off"
    using off n utf16_flag_boundary [OF assms(1,3)] by (intro after_ones_eq [OF len]) simp_all
  finally show ?thesis .
qed (simp add: chunk_offset_utf16_to_offset_def)

lemma utf16_roundtrip_lemma:
  assumes "utf8 t" "length t \<le> MAX_BASE" "char_boundary t off"
  shows "chunk_offset_utf16_to_offset (chunk_of t) (chunk_offset_to_offset_utf16 (chunk_of t) off) = off"
  using utf16_roundtrip_flags [OF assms] assms(2) by (simp add: chunk_offset_to_offset_utf16_of)

subsection \<open>The lines of a well-formed text\<close>

lemma clean_newline: "clean_start (CHR 0x0A # r)"
  by simp

lemma row_at_utf8:
  assumes "utf8 t" "row_at t r pre line post"
  shows "utf8 pre" "utf8 line" "utf8 post" "char_boundary t (length pre)" "char_boundary t (length pre + length line)"
proof -
  have t: "t = pre @ line @ post" using assms(2) by (simp add: row_at_def)
  have rest: "utf8 (line @ post)"
  proof (cases "pre = []")
    case False
    then have pre: "pre = butlast pre @ [CHR 0x0A]"
      using assms(2) append_butlast_last_id [of pre] by (simp add: row_at_def)
    have "t = butlast pre @ CHR 0x0A # (line @ post)" using t pre by (metis append.assoc append_Cons append_Nil)
    then have "utf8 (CHR 0x0A # (line @ post))"
      using assms(1) utf8_append_split [OF clean_newline, of "butlast pre" "line @ post"] by simp
    then show ?thesis by (rule utf8_after_newline)
  qed (use assms(1) t in simp)
  have post: "clean_start post" using assms(2) by (cases post) (auto simp: row_at_def)
  then show "utf8 line" "utf8 post" using rest utf8_append_split [of post line] by simp_all
  show "char_boundary t (length pre)"
    using utf8_clean_start [OF rest] char_boundary_append [of pre "line @ post"] by (simp add: t)
  show "char_boundary t (length pre + length line)"
    using post char_boundary_append [of "pre @ line" post] by (simp add: t)
  show "utf8 pre" using assms(1) utf8_append_split [OF utf8_clean_start [OF rest], of pre] by (simp add: t)
qed

lemma char_boundary_in_line:
  assumes "utf8 t" "row_at t r pre line post" "k \<le> length line"
  shows "char_boundary t (length pre + k) \<longleftrightarrow> char_boundary line k"
proof (cases "k < length line")
  case True
  then show ?thesis
    using assms row_at_utf8(2) [OF assms(1,2)]
    by (auto simp: char_boundary_leads row_at_def flags_append nth_append)
next
  case False
  then have "k = length line" using assms(3) by simp
  then show ?thesis using row_at_utf8(5) [OF assms(1,2)] by simp
qed

lemma line_of_row_of:
  assumes "utf8 t" "length t \<le> MAX_BASE" "row_at t r pre line post"
  shows "line_of_row (chunk_of t) r = Some (chunk_of line)"
proof -
  have "take (length pre + length line - length pre) (drop (length pre) t) = line"
    using assms(3) by (simp add: row_at_def)
  then show ?thesis
    using slice_of [OF assms(1,2), of "length pre" "length pre + length line"] row_at_utf8(4,5) [OF assms(1,3)]
    by (simp add: line_of_row_def offset_range_of [OF assms(2,3)])
qed

lemma row_at_utf16:
  assumes "utf8 t" "row_at t r pre line post" "k \<le> length line"
  shows "last_flags (take (length pre + k) t) (utf16_flags (take (length pre + k) t)) = ones (take k (utf16_flags line))"
proof -
  have take: "take (length pre + k) t = pre @ take k line" using assms(2,3) by (simp add: row_at_def)
  have free: "True \<notin> set (newline_flags (take k line))"
    using assms(2) by (auto simp: row_at_def newline_free dest: in_set_takeD)
  have "last_flags pre (utf16_flags pre) = 0"
  proof (cases "pre = []")
    case False
    then have pre: "pre = butlast pre @ [CHR 0x0A]"
      using assms(2) append_butlast_last_id [of pre] by (simp add: row_at_def)
    then have flags: "newline_flags pre = newline_flags (butlast pre) @ [True]"
      using flags_append(2) [of "butlast pre" "[CHR 0x0A]"] by simp
    have "through_last (newline_flags (butlast pre) @ [True]) = length (butlast pre) + 1"
      unfolding through_last_append by (simp add: through_last_def)
    then have "through_last (newline_flags pre) = length pre" using False unfolding flags by simp
    then show ?thesis by (simp add: last_flags_def)
  qed (simp add: last_flags_def utf16_flags_def)
  then show ?thesis
    using last_flags_other [OF free, of "utf16_flags pre" pre "utf16_flags (take k line)"]
    by (simp add: take utf16_flags_append [OF row_at_utf8(1) [OF assms(1,2)]] utf16_flags_take)
qed

subsection \<open>UTF-16 points\<close>

lemma chunk_offset_to_point_utf16_of:
  assumes "length t \<le> MAX_BASE" "off \<le> length t"
  shows "chunk_offset_to_point_utf16 (chunk_of t) off =
    new_point (row (text_end (take off t))) (last_flags (take off t) (utf16_flags (take off t)))"
proof -
  let ?a = "take off t"
  have len: "length ?a \<le> 128" using assms by (simp add: MAX_BASE_def)
  let ?k = "through_last (newline_flags ?a)"
  have k: "?k \<le> length ?a" using through_last_le [of "newline_flags ?a"] by simp
  have bits: "bm (newline_flags t) AND saturating_shl_mask off = bm (newline_flags ?a)"
    "bm (utf16_flags t) AND saturating_shl_mask off = bm (utf16_flags ?a)"
    unfolding bm_and_mask by (simp_all add: flags_take_drop utf16_flags_take)
  have ix: "128 - leading_zeros (bm (newline_flags ?a)) = ?k"
  proof -
    have "?k \<le> 128" using len k by linarith
    moreover have "leading_zeros (bm (newline_flags ?a)) = 128 - ?k" using len by (intro leading_zeros_bm) simp
    ultimately show ?thesis by linarith
  qed
  have "count_ones (drop_bit ?k (bm (utf16_flags ?a))) = last_flags ?a (utf16_flags ?a)"
    using len by (simp add: bm_drop count_ones_bm last_flags_def)
  moreover have "last_flags ?a (utf16_flags ?a) = 0" if "?k = MAX_BASE"
    using that len k by (simp add: last_flags_def MAX_BASE_def)
  ultimately show ?thesis
    unfolding chunk_offset_to_point_utf16_def chunk_of_simps Let_def bits ix
    using len by (simp add: text_end_def count_ones_bm)
qed

lemma chunk_point_utf16_to_offset_of:
  assumes "utf8 t" "length t \<le> MAX_BASE" "row_at t (row p) pre line post"
  shows "chunk_point_utf16_to_offset (chunk_of t) p =
    Some (if column p > ones (utf16_flags line) then length pre + length line
          else if column p > 0
               then back_off (char_boundary t) (length pre + chunk_offset_utf16_to_offset (chunk_of line) (column p))
               else length pre)"
proof -
  have "ones (newline_flags t) \<ge> row p" using assms(3) by (auto simp: row_at_def flags_append)
  then have "\<not> row p > row (chunk_lines (chunk_of t))" using assms(2) by (simp add: chunk_lines_of text_end_def)
  moreover have "length line \<le> 128" using assms(2,3) by (simp add: row_at_def MAX_BASE_def)
  moreover have "True \<notin> set (newline_flags line)" using assms(3) by (simp add: row_at_def newline_free)
  ultimately have "last_line_len_utf16 (chunk_of line) = ones (utf16_flags line)"
    by (simp add: last_line_len_utf16_def last_flags_bm last_flags_none)
  then show ?thesis
    using \<open>\<not> row p > row (chunk_lines (chunk_of t))\<close>
    by (simp add: chunk_point_utf16_to_offset_def line_of_row_of [OF assms] offset_range_of [OF assms(2,3)])
qed

lemma point_utf16_roundtrip_lemma:
  assumes "utf8 t" "length t \<le> MAX_BASE" "char_boundary t off"
  shows "chunk_point_utf16_to_offset (chunk_of t) (chunk_offset_to_point_utf16 (chunk_of t) off) = Some off"
proof -
  have off: "off \<le> length t" using assms(3) by (rule char_boundary_le)
  define q where "q = chunk_offset_to_point_utf16 (chunk_of t) off"
  obtain pre line post k where row: "row_at t (row (text_end (take off t))) pre line post" "k \<le> length line"
    "off = length pre + k" by (rule row_at_offset [OF off])
  have q: "row q = row (text_end (take off t))" "column q = ones (take k (utf16_flags line))"
    using chunk_offset_to_point_utf16_of [OF assms(2) off] row_at_utf16 [OF assms(1) row(1,2)]
    by (simp_all add: q_def row(3))
  have line: "utf8 line" "length line \<le> MAX_BASE" "char_boundary line k"
    using row_at_utf8(2) [OF assms(1) row(1)] char_boundary_in_line [OF assms(1) row(1,2)] assms(2,3) row
    by (simp_all add: row_at_def)
  have "ones (take k (utf16_flags line)) + ones (drop k (utf16_flags line)) = ones (utf16_flags line)"
    by (simp flip: ones_simps(3))
  then have le: "\<not> column q > ones (utf16_flags line)" unfolding q by linarith
  have again: "chunk_offset_utf16_to_offset (chunk_of line) (column q) = k"
    using utf16_roundtrip_flags [OF line] by (simp add: q)
  have "k = 0" if "column q = 0" using again that by (simp add: chunk_offset_utf16_to_offset_def)
  moreover have "back_off (char_boundary t) (length pre + k) = length pre + k"
    using assms(3) row(3) by (intro back_off_fixed) simp
  ultimately show ?thesis
    unfolding q_def [symmetric]
    using chunk_point_utf16_to_offset_of [OF assms(1,2), of q pre line post] row le again q(1) by auto
qed

subsection \<open>Clipping\<close>

lemma step_up_least: "n \<le> k \<Longrightarrow> P k \<Longrightarrow> step_up P n hi \<le> k"
proof (induction P n hi rule: step_up.induct)
  case (1 P n hi)
  show ?case
  proof (cases "n < hi \<and> \<not> P n")
    case True
    then have "n \<noteq> k" using "1.prems"(2) by auto
    then have "step_up P (Suc n) hi \<le> k" using 1 True by simp
    then show ?thesis using True by (simp add: step_up.simps [of P n hi])
  next
    case False
    then show ?thesis using "1.prems"(1) by (simp only: step_up.simps [of P n hi] if_False)
  qed
qed

lemma after_ones_at:
  assumes "length bs \<le> 128" "1 \<le> n" "n \<le> ones bs"
  shows "after_ones bs n \<le> length bs" "ones (take (after_ones bs n) bs) = n"
    "after_ones bs n < length bs \<Longrightarrow> bs ! after_ones bs n"
proof -
  define i where "i = nth_set_bit (bm bs) n"
  note i = nth_set_bit_bm [OF assms, folded i_def]
  let ?rest = "drop (i + 1) bs"
  have w: "after_ones bs n = i + 1 + until_first ?rest" by (simp add: after_ones_def Let_def i_def)
  show "after_ones bs n \<le> length bs" using until_first_le [of ?rest] i(1) by (simp add: w)
  have "take (after_ones bs n) bs = take (i + 1) bs @ take (until_first ?rest) ?rest"
    unfolding w by (rule take_add)
  also have "take (until_first ?rest) ?rest = takeWhile Not ?rest"
    unfolding until_first_def by (rule takeWhile_eq_take [symmetric])
  also have "take (i + 1) bs = take i bs @ [True]" using i(1,2) by (simp add: take_Suc_conv_app_nth)
  finally show "ones (take (after_ones bs n) bs) = n"
    using i(3) ones_zero [of "takeWhile Not ?rest"] by (auto dest: set_takeWhileD)
  assume "after_ones bs n < length bs"
  then have "until_first ?rest < length ?rest" by (simp add: w)
  then have "?rest ! until_first ?rest" unfolding until_first_def using nth_length_takeWhile [of Not ?rest] by simp
  then show "bs ! after_ones bs n" using i(1) by (simp add: w)
qed

text \<open>The UTF-16 offset of a byte offset, and its order.\<close>

definition utf16_at :: "string \<Rightarrow> nat \<Rightarrow> nat" where
  "utf16_at t off = ones (take off (utf16_flags t))"

lemma utf16_at_mono: "i \<le> j \<Longrightarrow> utf16_at t i \<le> utf16_at t j"
proof -
  assume "i \<le> j"
  then have "take j (utf16_flags t) = take i (utf16_flags t) @ take (j - i) (drop i (utf16_flags t))"
    by (metis le_add_diff_inverse take_add)
  then show ?thesis by (simp add: utf16_at_def)
qed

lemma utf16_at_less:
  "utf8 t \<Longrightarrow> char_boundary t i \<Longrightarrow> i < j \<Longrightarrow> i < length t \<Longrightarrow> utf16_at t i < utf16_at t j"
  unfolding utf16_at_def by (intro ones_take_less) (simp_all add: utf16_flag_boundary)

text \<open>
  Clipping a UTF-16 offset gives the offset of a boundary: the greatest at or before the target on
  the left, the least at or behind it, or the end, on the right.
\<close>

definition clipped_utf16 :: "string \<Rightarrow> nat \<Rightarrow> bias \<Rightarrow> nat \<Rightarrow> bool" where
  "clipped_utf16 t target b u \<longleftrightarrow>
     (\<exists>off. char_boundary t off \<and> u = utf16_at t off) \<and>
     (case b of
        Left \<Rightarrow> u \<le> target \<and> (\<forall>off. char_boundary t off \<longrightarrow> utf16_at t off \<le> target \<longrightarrow> utf16_at t off \<le> u)
      | Right \<Rightarrow> min target (utf16_at t (length t)) \<le> u \<and>
          (\<forall>off. char_boundary t off \<longrightarrow> target \<le> utf16_at t off \<longrightarrow> u \<le> utf16_at t off))"

lemma clip_utf16_inside:
  assumes "utf8 t" "length t \<le> MAX_BASE" "0 < target" "target < utf16_at t (length t)"
  shows "clipped_utf16 t target b
    (utf16_at t (seek_boundary (char_boundary t) b (after_ones (utf16_flags t) target) (length t)))"
proof -
  let ?w = "after_ones (utf16_flags t) target"
  have len: "length (utf16_flags t) \<le> 128" using assms(2) by (simp add: MAX_BASE_def)
  have "1 \<le> target" "target \<le> ones (utf16_flags t)" using assms(3,4) by (simp_all add: utf16_at_def)
  note w = after_ones_at [OF len this]
  then have w': "?w \<le> length t" "utf16_at t ?w = target" by (simp_all add: utf16_at_def)
  show ?thesis
  proof (cases b)
    case Left
    have "char_boundary t (back_off (char_boundary t) ?w)" by (rule back_off_holds) simp
    moreover have "utf16_at t (back_off (char_boundary t) ?w) \<le> target"
      using utf16_at_mono [OF back_off_le, of t "char_boundary t" ?w] w'(2) by simp
    moreover have "utf16_at t off \<le> utf16_at t (back_off (char_boundary t) ?w)"
      if off: "char_boundary t off" "utf16_at t off \<le> target" for off
    proof -
      have "off \<le> ?w"
      proof (rule ccontr)
        assume "\<not> off \<le> ?w"
        moreover have "off \<le> length t" using off(1) by (rule char_boundary_le)
        ultimately have "?w < length (utf16_flags t)" "?w < off" by simp_all
        then have "ones (take ?w (utf16_flags t)) < ones (take off (utf16_flags t))"
          using w(3) by (intro ones_take_less)
        then show False using off(2) w(2) by (simp add: utf16_at_def)
      qed
      then show ?thesis using off(1) by (intro utf16_at_mono back_off_greatest)
    qed
    ultimately show ?thesis by (auto simp: clipped_utf16_def seek_boundary_def Left)
  next
    case Right
    let ?u = "step_up (char_boundary t) ?w (length t)"
    have "char_boundary t ?u" using step_up_holds [of ?w "length t" "char_boundary t"] w'(1) by simp
    moreover have "target \<le> utf16_at t ?u"
      using utf16_at_mono [of ?w ?u t] step_up_bounds [OF w'(1), of "char_boundary t"] w'(2) by simp
    moreover have "utf16_at t ?u \<le> utf16_at t off" if off: "char_boundary t off" "target \<le> utf16_at t off" for off
    proof -
      have "?w \<le> off"
      proof (rule ccontr)
        assume "\<not> ?w \<le> off"
        then have "utf16_at t off < utf16_at t ?w"
          using off(1) w'(1) assms(1) by (intro utf16_at_less) simp_all
        then show False using off(2) w'(2) by simp
      qed
      then show ?thesis using off(1) by (intro utf16_at_mono step_up_least)
    qed
    ultimately show ?thesis by (auto simp: clipped_utf16_def seek_boundary_def Right)
  qed
qed

lemma clip_offset_utf16_lemma:
  assumes "utf8 t" "length t \<le> MAX_BASE"
  shows "clipped_utf16 t target b (chunk_clip_offset_utf16 (chunk_of t) target b)"
proof -
  have all: "chunk_len_utf16 (chunk_of t) = utf16_at t (length t)"
    using assms(2) by (simp add: chunk_len_utf16_def utf16_at_def count_ones_bm MAX_BASE_def)
  have most: "utf16_at t off \<le> utf16_at t (length t)" if "char_boundary t off" for off
    using that by (intro utf16_at_mono char_boundary_le)
  consider "target = 0" | "0 < target" "target \<ge> utf16_at t (length t)" | "0 < target" "target < utf16_at t (length t)"
    by linarith
  then show ?thesis
  proof cases
    case 1
    have "utf16_at t 0 = 0" by (simp add: utf16_at_def)
    then show ?thesis
      using 1 unfolding clipped_utf16_def chunk_clip_offset_utf16_def
      by (intro conjI exI [of _ 0]) (simp_all split: bias.split)
  next
    case 2
    then have u: "chunk_clip_offset_utf16 (chunk_of t) target b = utf16_at t (length t)"
      by (simp add: chunk_clip_offset_utf16_def all)
    have "utf16_at t (length t) \<le> utf16_at t off" if "target \<le> utf16_at t off" for off
      using that 2(2) by (rule order_trans [rotated])
    then show ?thesis
      unfolding clipped_utf16_def u using 2 most
      by (intro conjI exI [of _ "length t"]) (simp_all split: bias.split)
  next
    case 3
    have "1 \<le> target" "target \<le> ones (utf16_flags t)" using 3 by (simp_all add: utf16_at_def)
    then have "chunk_clip_offset_utf16 (chunk_of t) target b =
        utf16_at t (seek_boundary (char_boundary t) b (after_ones (utf16_flags t) target) (length t))"
      using 3 assms(2)
      by (simp add: chunk_clip_offset_utf16_def all chunk_offset_utf16_to_offset_of chunk_offset_to_offset_utf16_of utf16_at_def)
    then show ?thesis using clip_utf16_inside [OF assms 3] by simp
  qed
qed

text \<open>A point on a character boundary of its row.\<close>

definition point_on_boundary :: "string \<Rightarrow> text_point \<Rightarrow> bool" where
  "point_on_boundary t p \<longleftrightarrow> (\<exists>off. char_boundary t off \<and> p = text_end (take off t))"

lemma point_on_boundaryI:
  assumes "utf8 t" "row_at t r pre line post" "char_boundary line k"
  shows "point_on_boundary t (new_point r k)"
proof -
  have k: "k \<le> length line" using assms(3) by (rule char_boundary_le)
  then have "char_boundary t (length pre + k)" using char_boundary_in_line [OF assms(1,2)] assms(3) by simp
  then show ?thesis using row_at_end [OF assms(2) k] by (metis point_on_boundary_def)
qed

lemma point_on_boundary_end: "point_on_boundary t (text_end t)"
  unfolding point_on_boundary_def by (intro exI [of _ "length t"]) simp

text \<open>The rows of the text, and nothing beyond its last row.\<close>

lemma row_casesE:
  assumes "length t \<le> MAX_BASE"
  obtains (beyond) "row p > row (text_end t)" "row p > row (chunk_lines (chunk_of t))"
  | (inside) pre line post where "row_at t (row p) pre line post" "\<not> row p > row (chunk_lines (chunk_of t))"
proof (cases "row p > row (text_end t)")
  case False
  then have "row p \<le> ones (newline_flags t)" by (simp add: text_end_def)
  then show thesis using inside False row_at_exists [of "row p" t] by (auto simp: chunk_lines_of [OF assms])
qed (use beyond in \<open>simp add: chunk_lines_of [OF assms]\<close>)

lemma seek_boundary_cases:
  assumes "P 0" "P n" "i \<le> n"
  shows "P (seek_boundary P b i n)" "case b of Left \<Rightarrow> seek_boundary P b i n \<le> i | Right \<Rightarrow> i \<le> seek_boundary P b i n"
proof -
  show "P (seek_boundary P b i n)"
    using assms back_off_holds [of P i] step_up_holds [of i n P] by (cases b) (simp_all add: seek_boundary_def)
  show "case b of Left \<Rightarrow> seek_boundary P b i n \<le> i | Right \<Rightarrow> i \<le> seek_boundary P b i n"
    using step_up_bounds [of i n P] assms(3) by (cases b) (simp_all add: seek_boundary_def)
qed

lemma ascii_boundary: "utf8 t \<Longrightarrow> i < length t \<Longrightarrow> (of_char (t ! i) :: nat) < 128 \<Longrightarrow> char_boundary t i"
  by (simp add: char_boundary_def is_cont_iff)

text \<open>
  Clipping a point returns a point on a character boundary, as long as the ends of every line are
  boundaries between graphemes.
\<close>

lemma clip_point_lemma:
  assumes "utf8 t" "length t \<le> MAX_BASE" "\<And>l. grapheme l 0 \<and> grapheme l (length l)"
  shows "\<exists>q. chunk_clip_point grapheme (chunk_of t) p b = Some q \<and> point_on_boundary t q"
proof (cases rule: row_casesE [of t p, OF assms(2), case_names beyond inside])
  case beyond
  then show ?thesis
    using point_on_boundary_end by (simp add: chunk_clip_point_def chunk_lines_of [OF assms(2)])
next
  case (inside pre line post)
  have line: "utf8 line" "length line \<le> MAX_BASE"
    using row_at_utf8(2) [OF assms(1) inside(1)] inside(1) assms(2) by (simp_all add: row_at_def)
  let ?P = "\<lambda>i. chunk_is_char_boundary (chunk_of line) i \<and> grapheme line i"
  let ?k = "if column p = 0 then 0 else if column p \<ge> length line then length line
    else if (of_char (line ! (column p - 1)) :: nat) < 128 \<and> (of_char (line ! column p) :: nat) < 128 then column p
    else seek_boundary ?P b (column p) (length line)"
  have "chunk_clip_point grapheme (chunk_of t) p b = Some (new_point (row p) ?k)"
    using inside(2) new_point_eq [of p]
    by (simp add: chunk_clip_point_def line_of_row_of [OF assms(1,2) inside(1)] Let_def chunk_len_def)
  moreover have "char_boundary line ?k"
  proof -
    have "?P 0" "?P (length line)" using assms(3) by (simp_all add: chunk_is_char_boundary_of [OF line])
    then have "?P (seek_boundary ?P b (column p) (length line))" if "column p < length line"
      using that by (intro seek_boundary_cases(1) [where P = ?P]) simp_all
    then have "char_boundary line (seek_boundary ?P b (column p) (length line))" if "column p < length line"
      using that by (simp add: chunk_is_char_boundary_of [OF line])
    then show ?thesis using ascii_boundary [OF line(1), of "column p"] by (simp del: split_paired_All)
  qed
  ultimately show ?thesis using point_on_boundaryI [OF assms(1) inside(1)] by blast
qed

text \<open>A UTF-16 point always has an offset, on a boundary; and clipping one keeps its row.\<close>

lemma point_utf16_to_offset_lemma:
  assumes "utf8 t" "length t \<le> MAX_BASE"
  shows "\<exists>off. chunk_point_utf16_to_offset (chunk_of t) p = Some off \<and> char_boundary t off"
proof (cases rule: row_casesE [of t p, OF assms(2), case_names beyond inside])
  case beyond
  then show ?thesis by (simp add: chunk_point_utf16_to_offset_def chunk_len_def)
next
  case (inside pre line post)
  have "char_boundary t (back_off (char_boundary t) n)" for n by (rule back_off_holds) simp
  then show ?thesis
    using chunk_point_utf16_to_offset_of [OF assms inside(1)] row_at_utf8(4,5) [OF assms(1) inside(1)] by auto
qed

lemma chunk_clip_point_utf16_of:
  assumes "utf8 t" "length t \<le> MAX_BASE" "row_at t (row p) pre line post"
  shows "\<exists>u. chunk_clip_point_utf16 (chunk_of t) p b = Some (new_point (row p) u) \<and> clipped_utf16 line (column p) b u"
proof -
  have line: "utf8 line" "length line \<le> MAX_BASE"
    using row_at_utf8(2) [OF assms(1,3)] assms(2,3) by (simp_all add: row_at_def)
  have "ones (newline_flags t) \<ge> row p" using assms(3) by (auto simp: row_at_def flags_append)
  then have "\<not> row p > row (chunk_lines (chunk_of t))" using assms(2) by (simp add: chunk_lines_of text_end_def)
  then show ?thesis
    using clip_offset_utf16_lemma [OF line, of "column p" b]
    by (simp add: chunk_clip_point_utf16_def line_of_row_of [OF assms])
qed

subsection \<open>Tabs\<close>

lemma tabs_next_less:
  fixes w :: bitmap
  assumes "w \<noteq> 0"
  shows "count_ones (w XOR push_bit (trailing_zeros w) 1) < count_ones w"
proof -
  have "\<exists>i < 128. bit w i" using assms bit_bitmap_less [of w] by (auto simp: bit_eq_iff)
  then have "takeWhile (\<lambda>i. \<not> bit w i) [0 ..< 128] \<noteq> [0 ..< 128]" by (auto simp: takeWhile_eq_all_conv)
  then have "length (takeWhile (\<lambda>i. \<not> bit w i) [0 ..< 128]) < length [0 ..< 128]"
    by (metis length_takeWhile_le le_neq_implies_less takeWhile_eq_take take_all order_refl)
  then have set: "bit w (trailing_zeros w)" "trailing_zeros w < 128"
    using nth_length_takeWhile [of "\<lambda>i. \<not> bit w i" "[0 ..< 128]"] by (simp_all add: trailing_zeros_def)
  have "{i. i < 128 \<and> bit (w XOR push_bit (trailing_zeros w) 1) i} \<subset> {i. i < 128 \<and> bit w i}"
    using set by (auto simp: bit_xor_iff bit_exp_iff)
  then have "card {i. i < 128 \<and> bit (w XOR push_bit (trailing_zeros w) 1) i} < card {i. i < 128 \<and> bit w i}"
    by (intro psubset_card_mono) simp_all
  moreover have "count_ones v = card {i. i < 128 \<and> bit v i}" for v :: bitmap
    by (simp add: count_ones_def distinct_length_filter conj_commute Int_def)
  ultimately show ?thesis by simp
qed

text \<open>All the tabs the iterator yields.\<close>

function tabs_collect :: "bitmap \<times> bitmap \<Rightarrow> (nat \<times> nat) list" where
  "tabs_collect it = (case tabs_next it of None \<Rightarrow> [] | Some (tab, it) \<Rightarrow> tab # tabs_collect it)"
  by pat_completeness auto
termination
proof (relation "measure (count_ones \<circ> fst)")
  fix it x tab it' assume "tabs_next it = Some x" "(tab, it') = x"
  then show "(it', it) \<in> measure (count_ones \<circ> fst)"
    using tabs_next_less [of "fst it"] by (cases it) (auto simp: tabs_next_def Let_def split: if_splits)
qed simp

declare tabs_collect.simps [simp del]

lemma bm_clear: "k < 128 \<Longrightarrow> bm (replicate k False @ True # fs) XOR push_bit k 1 = bm (replicate (Suc k) False @ fs)"
proof (rule bit_word_eqI)
  fix i assume k: "k < 128" and i: "i < LENGTH(128)"
  have "bit (push_bit k 1 :: bitmap) i \<longleftrightarrow> i = k" using k i by (auto simp: bit_exp_iff)
  then show "bit (bm (replicate k False @ True # fs) XOR push_bit k 1) i = bit (bm (replicate (Suc k) False @ fs)) i"
    unfolding bit_xor_iff by (cases "i < k"; cases "i = k") (use k in \<open>auto simp: bit_bm nth_append nth_Cons'\<close>)
qed

lemma tabs_collect_from:
  assumes "length t \<le> 128" "k \<le> length t"
  shows "tabs_collect (bm (replicate k False @ drop k (tab_flags t)), bm (leads t)) =
    map (\<lambda>i. (i, ones (take i (leads t)))) (filter (\<lambda>i. t ! i = CHR 0x09) [k ..< length t])"
  using assms(2)
proof (induction "length t - k" arbitrary: k)
  case 0
  then have "bm (replicate k False @ drop k (tab_flags t)) = 0"
    using assms(1) bm_zero [of "replicate k False"] by simp
  then show ?case using 0 by (simp add: tabs_collect.simps tabs_next_def)
next
  case (Suc n)
  then have k: "k < length t" by simp
  let ?w = "bm (replicate k False @ drop k (tab_flags t))"
  have rest: "drop k (tab_flags t) = (t ! k = CHR 0x09) # drop (Suc k) (tab_flags t)"
    using k Cons_nth_drop_Suc [of k "tab_flags t"] by (simp add: tab_flags_def)
  have upt: "[k ..< length t] = k # [Suc k ..< length t]" using k by (rule upt_conv_Cons)
  have IH: "tabs_collect (bm (replicate (Suc k) False @ drop (Suc k) (tab_flags t)), bm (leads t)) =
      map (\<lambda>i. (i, ones (take i (leads t)))) (filter (\<lambda>i. t ! i = CHR 0x09) [Suc k ..< length t])"
    using Suc k by (intro Suc.hyps(1)) simp_all
  show ?case
  proof (cases "t ! k = CHR 0x09")
    case False
    then have "replicate k False @ drop k (tab_flags t) = replicate (Suc k) False @ drop (Suc k) (tab_flags t)"
      by (simp add: rest replicate_append_same)
    then show ?thesis using IH False by (simp add: upt)
  next
    case True
    then have w: "?w = bm (replicate k False @ True # drop (Suc k) (tab_flags t))" by (simp add: rest)
    have len: "length (replicate k False @ True # drop (Suc k) (tab_flags t)) \<le> 128" using k assms(1) by simp
    have nz: "?w \<noteq> 0" using bm_zero [OF len] by (simp add: w)
    have "until_first (replicate k False @ True # drop (Suc k) (tab_flags t)) = k"
      by (simp add: until_first_append) (simp add: until_first_def)
    then have tz: "trailing_zeros ?w = k" using trailing_zeros_bm [OF len] by (simp add: w)
    have "push_bit k 1 - 1 = saturating_shl_mask k" by (simp add: saturating_shl_mask_def)
    then have "count_ones (bm (leads t) AND (push_bit k 1 - 1)) = ones (take k (leads t))"
      using assms(1) by (simp add: bm_and_mask count_ones_bm del: push_bit_of_1)
    then have step: "tabs_next (?w, bm (leads t)) =
        Some ((k, ones (take k (leads t))), bm (replicate (Suc k) False @ drop (Suc k) (tab_flags t)), bm (leads t))"
      using k assms(1) unfolding tabs_next_def split_conv Let_def tz
      using nz bm_clear [of k "drop (Suc k) (tab_flags t)"] by (simp add: w del: push_bit_of_1)
    show ?thesis
      by (subst tabs_collect.simps) (simp only: step option.case prod.case IH upt filter.simps True refl if_True list.map)
  qed
qed

lemma tabs_lemma:
  assumes "length t \<le> MAX_BASE"
  shows "tabs_collect (c_tabs (chunk_of t), c_chars (chunk_of t)) =
    map (\<lambda>i. (i, ones (take i (leads t)))) (filter (\<lambda>i. t ! i = CHR 0x09) [0 ..< length t])"
  using tabs_collect_from [of t 0] assms by (simp add: MAX_BASE_def)

end
