(* ===== verification/Rope.thy ===== *)
theory Rope
  imports RopeConvert
begin

text \<open>
  \<open>Rope\<close> of \<open>crates/rope/src/rope.rs\<close> over the sequence of its chunks: pushing texts at both ends,
  appending ropes, and the lookups that find the chunk of a position by one measure and continue
  inside the chunk. A panic is \<open>None\<close>.
\<close>

type_synonym rope = "chunk list"

definition MIN_BASE :: nat where
  "MIN_BASE = MAX_BASE div 2"

definition rope_text :: "rope \<Rightarrow> string" where
  "rope_text r = concat (map c_text r)"

subsection \<open>Pushing text\<close>

text \<open>Where the text is split: all of it when it fits, else enough to fill the last chunk to the minimum.\<close>

definition fill_ix :: "nat \<Rightarrow> (nat \<Rightarrow> bool) \<Rightarrow> nat \<Rightarrow> nat" where
  "fill_ix last_len boundary len =
     (if last_len + len \<le> MAX_BASE then len else step_up boundary (min (MIN_BASE - last_len) len) len)"

text \<open>
  The loop that cuts a text into pieces that fill a chunk each, every cut moved left to a character
  boundary. It does not return when a cut moves to 0.
\<close>

partial_function (option) pieces :: "string \<Rightarrow> string list option" where
  "pieces t =
     (if t = [] then Some []
      else let split_ix = back_off (char_boundary t) (min MAX_BASE (length t))
           in Option.bind (pieces (drop split_ix t)) (\<lambda>ps. Some (take split_ix t # ps)))"

definition NUM_CHUNKS :: nat where
  "NUM_CHUNKS = 4"

fun new_chunks :: "string list \<Rightarrow> chunk list option" where
  "new_chunks [] = Some []"
| "new_chunks (p # ps) = Option.bind (new_chunk p) (\<lambda>c. map_option (Cons c) (new_chunks ps))"

text \<open>
  The array of \<open>push\<close> holds \<open>NUM_CHUNKS\<close> pieces, a fifth one panics; a longer text goes to
  \<open>push_large\<close>, whose vector grows.
\<close>

definition push_pieces :: "rope \<Rightarrow> string \<Rightarrow> rope option" where
  "push_pieces r t =
     Option.bind (pieces t) (\<lambda>ps.
       if length t \<le> NUM_CHUNKS * MAX_BASE - NUM_CHUNKS * 4 \<and> length ps > NUM_CHUNKS then None
       else map_option (\<lambda>cs. r @ cs) (new_chunks ps))"

definition rope_push :: "rope \<Rightarrow> string \<Rightarrow> rope option" where
  "rope_push r t =
     (if r = [] then (if t = [] then Some [] else push_pieces [] t)
      else let c = last r;
               split_ix = fill_ix (length (c_text c)) (char_boundary t) (length t)
           in Option.bind (chunk_push_str c (take split_ix t)) (\<lambda>c.
                let r = butlast r @ [c]; rest = drop split_ix t
                in if rest = [] then Some r else push_pieces r rest))"

definition push_chunk :: "rope \<Rightarrow> chunk \<Rightarrow> rope option" where
  "push_chunk r s =
     (if r = [] then Some (if c_text s = [] then [] else [s])
      else let c = last r;
               split_ix = fill_ix (length (c_text c)) (chunk_is_char_boundary s) (length (c_text s))
           in Option.bind (split_at s split_ix) (\<lambda>(suffix, rest).
                map_option (\<lambda>c. butlast r @ [c] @ (if c_text rest = [] then [] else [rest])) (chunk_append c suffix)))"

definition rope_append :: "rope \<Rightarrow> rope \<Rightarrow> rope option" where
  "rope_append r s =
     (if s \<noteq> [] \<and> ((r \<noteq> [] \<and> length (c_text (last r)) < MIN_BASE) \<or> length (c_text (hd s)) < MIN_BASE)
      then map_option (\<lambda>r. r @ tl s) (push_chunk r (hd s))
      else Some (r @ s))"

definition rope_push_front :: "rope \<Rightarrow> string \<Rightarrow> rope option" where
  "rope_push_front r t =
     (if t = [] then Some r
      else if rope_text r = [] then rope_push r t
      else if r \<noteq> [] \<and> length (c_text (hd r)) + length t \<le> MAX_BASE
      then map_option (\<lambda>c. c # tl r) (chunk_prepend_str (hd r) t)
      else Option.bind (rope_push [] t) (\<lambda>p. rope_append p r))"

text \<open>The check of the tests: no chunk but the last is under the minimum, less a cut character.\<close>

definition check_invariants :: "rope \<Rightarrow> bool" where
  "check_invariants r \<longleftrightarrow> list_all (\<lambda>c. length (c_text c) + 3 \<ge> MIN_BASE) (butlast r)"

definition rope_ok :: "rope \<Rightarrow> bool" where
  "rope_ok r \<longleftrightarrow> list_all chunk_ok r"

subsection \<open>The text of a rope\<close>

lemma rope_text_simps [simp]:
  "rope_text [] = []" "rope_text (c # r) = c_text c @ rope_text r" "rope_text (r @ s) = rope_text r @ rope_text s"
  by (simp_all add: rope_text_def)

lemma rope_ok_simps [simp]:
  "rope_ok []" "rope_ok (c # r) \<longleftrightarrow> chunk_ok c \<and> rope_ok r" "rope_ok (r @ s) \<longleftrightarrow> rope_ok r \<and> rope_ok s"
  by (simp_all add: rope_ok_def)

lemma chunk_ok_of [simp]: "chunk_ok (chunk_of t) \<longleftrightarrow> utf8 t \<and> length t \<le> MAX_BASE"
  by (simp add: chunk_ok_def)

lemma rope_text_utf8: "rope_ok r \<Longrightarrow> utf8 (rope_text r)"
  by (induction r) (auto simp: chunk_ok_def intro: utf8_append)

lemma rope_last:
  assumes "rope_ok r" "r \<noteq> []"
  obtains r' t where "r = r' @ [chunk_of t]" "rope_ok r'" "utf8 t" "length t \<le> MAX_BASE"
proof -
  have r: "r = butlast r @ [last r]" using assms(2) by simp
  then have "chunk_ok (last r)" "rope_ok (butlast r)"
    using assms(1) rope_ok_simps(3) [of "butlast r" "[last r]"] by simp_all
  then show thesis using that [of "butlast r"] r by (auto elim!: chunk_okE)
qed

subsection \<open>Pieces\<close>

text \<open>In a text of UTF-8 a boundary is at most three bytes away, on either side.\<close>

lemma utf8_char_size: "utf8_char g \<Longrightarrow> 1 \<le> length g \<and> length g \<le> 4"
  by (cases g rule: utf8_char.cases) auto

lemma boundary_near:
  assumes "utf8 t" "i \<le> length t"
  shows "\<exists>j. char_boundary t j \<and> j \<le> i \<and> i < j + 4" "\<exists>j. char_boundary t j \<and> i \<le> j \<and> j < i + 4"
proof -
  have "(\<exists>j. char_boundary t j \<and> j \<le> i \<and> i < j + 4) \<and> (\<exists>j. char_boundary t j \<and> i \<le> j \<and> j < i + 4)"
    using assms
  proof (induction t rule: utf8_rev_induct)
    case (snoc t g)
    have g: "1 \<le> length g" "length g \<le> 4" using utf8_char_size [OF snoc(2)] by simp_all
    have mono: "char_boundary (t @ g) j" if "char_boundary t j" for j
    proof (cases "j < length t")
      case True
      then show ?thesis using that by (auto simp: char_boundary_def nth_append)
    next
      case False
      then have "j = length t" using char_boundary_le [OF that] by simp
      then show ?thesis using char_boundary_append [of t g] utf8_clean_start [OF utf8_single [OF snoc(2)]] by simp
    qed
    show ?case
    proof (cases "i \<le> length t")
      case True
      then show ?thesis using snoc(3) mono by blast
    next
      case False
      have "char_boundary (t @ g) (length t)" by (rule mono) simp
      moreover have "char_boundary (t @ g) (length (t @ g))" by (rule char_boundary_len)
      ultimately show ?thesis
        using False snoc(4) g by (intro conjI exI [of _ "if i = length (t @ g) then i else length t"] exI [of _ "length (t @ g)"]) auto
    qed
  next
    case Nil
    then show ?case by (intro conjI exI [of _ 0]) simp_all
  qed
  then show "\<exists>j. char_boundary t j \<and> j \<le> i \<and> i < j + 4" "\<exists>j. char_boundary t j \<and> i \<le> j \<and> j < i + 4" by auto
qed

lemma back_off_near:
  assumes "utf8 t" "i \<le> length t"
  shows "char_boundary t (back_off (char_boundary t) i)" "i < back_off (char_boundary t) i + 4"
proof -
  show "char_boundary t (back_off (char_boundary t) i)" by (rule back_off_holds) simp
  obtain j where j: "char_boundary t j" "j \<le> i" "i < j + 4" using boundary_near(1) [OF assms] by auto
  have "j \<le> back_off (char_boundary t) i" using back_off_greatest [of "char_boundary t" j i] j by simp
  then show "i < back_off (char_boundary t) i + 4" using j(3) by linarith
qed

lemma step_up_near:
  assumes "utf8 t" "i \<le> length t"
  shows "char_boundary t (step_up (char_boundary t) i (length t))" "i \<le> step_up (char_boundary t) i (length t)"
    "step_up (char_boundary t) i (length t) \<le> length t" "step_up (char_boundary t) i (length t) < i + 4"
proof -
  show "char_boundary t (step_up (char_boundary t) i (length t))"
    using step_up_holds [of i "length t" "char_boundary t"] assms(2) by simp
  show "i \<le> step_up (char_boundary t) i (length t)" "step_up (char_boundary t) i (length t) \<le> length t"
    using step_up_bounds [OF assms(2), of "char_boundary t"] by simp_all
  obtain j where j: "char_boundary t j" "i \<le> j" "j < i + 4" using boundary_near(2) [OF assms] by auto
  have "step_up (char_boundary t) i (length t) \<le> j" using step_up_least [of i j "char_boundary t"] j by simp
  then show "step_up (char_boundary t) i (length t) < i + 4" using j(3) by linarith
qed

text \<open>The loop returns, and its pieces make up the text; each but the last has at least 125 bytes.\<close>

definition pieces_ok :: "string list \<Rightarrow> bool" where
  "pieces_ok ps \<longleftrightarrow>
     list_all (\<lambda>p. utf8 p \<and> p \<noteq> [] \<and> length p \<le> MAX_BASE) ps \<and> list_all (\<lambda>p. MAX_BASE \<le> length p + 3) (butlast ps)"

lemma pieces_lemma:
  assumes "utf8 t"
  shows "\<exists>ps. pieces t = Some ps \<and> concat ps = t \<and> pieces_ok ps"
  using assms
proof (induction "length t" arbitrary: t rule: less_induct)
  case less
  show ?case
  proof (cases "t = []")
    case True
    then show ?thesis by (simp add: pieces.simps pieces_ok_def)
  next
    case False
    let ?m = "min MAX_BASE (length t)"
    define i where "i = back_off (char_boundary t) ?m"
    have at: "char_boundary t i" "?m < i + 4" using back_off_near [OF less.prems, of ?m] by (simp_all add: i_def)
    have "i \<le> ?m" unfolding i_def by (rule back_off_le)
    then have le: "i \<le> MAX_BASE" "i \<le> length t" using min.bounded_iff [of i MAX_BASE "length t"] by blast+
    have fixed: "i = length t" if "length t \<le> MAX_BASE"
    proof -
      have "?m = length t" using that by (rule min_absorb2)
      then show ?thesis unfolding i_def by (simp only: back_off_fixed char_boundary_len)
    qed
    have "0 < i"
    proof (cases "length t \<le> MAX_BASE")
      case False
      then show ?thesis using at(2) by (simp add: MAX_BASE_def)
    qed (use fixed \<open>t \<noteq> []\<close> in simp)
    then have shorter: "length (drop i t) < length t" using \<open>t \<noteq> []\<close> by simp
    have parts: "utf8 (take i t)" "utf8 (drop i t)" using utf8_take_drop [OF less.prems at(1)] .
    obtain ps where ps: "pieces (drop i t) = Some ps" "concat ps = drop i t" "pieces_ok ps"
      using less.hyps [OF shorter parts(2)] by blast
    have "ps = []" if "length t \<le> MAX_BASE"
      using ps(1) fixed [OF that] by (simp add: pieces.simps [of "[]"])
    moreover have "MAX_BASE \<le> length (take i t) + 3" if "\<not> length t \<le> MAX_BASE"
      using that at(2) le by simp
    ultimately have "pieces_ok (take i t # ps)"
      using ps(3) parts(1) le \<open>0 < i\<close> \<open>t \<noteq> []\<close> by (auto simp: pieces_ok_def)
    moreover have "pieces t = Some (take i t # ps)"
      using \<open>t \<noteq> []\<close> ps(1) by (subst pieces.simps) (simp add: Let_def i_def)
    ultimately show ?thesis using ps(2) by (auto intro!: exI [of _ "take i t # ps"])
  qed
qed

lemma pieces_length: "pieces_ok ps \<Longrightarrow> (MAX_BASE - 3) * (length ps - 1) \<le> length (concat ps)"
proof (induction ps)
  case (Cons p ps)
  then have IH: "pieces_ok ps" by (cases ps) (auto simp: pieces_ok_def)
  show ?case
  proof (cases ps)
    case (Cons q qs)
    then have "MAX_BASE - 3 \<le> length p" using Cons.prems by (simp add: pieces_ok_def le_diff_conv)
    moreover have "(MAX_BASE - 3) * (length ps - 1) \<le> length (concat ps)" by (rule Cons.IH [OF IH])
    ultimately show ?thesis using Cons by (simp add: MAX_BASE_def)
  qed simp
qed simp

lemma new_chunks_of:
  "list_all (\<lambda>p. utf8 p \<and> length p \<le> MAX_BASE) ps \<Longrightarrow> new_chunks ps = Some (map chunk_of ps)"
  by (induction ps) (simp_all add: new_chunk_of)

lemma rope_of_pieces:
  assumes "pieces_ok ps"
  shows "rope_ok (map chunk_of ps)" "rope_text (map chunk_of ps) = concat ps" "check_invariants (map chunk_of ps)"
proof -
  show "rope_ok (map chunk_of ps)" using assms by (induction ps) (auto simp: pieces_ok_def list_all_iff rope_ok_def)
  show "rope_text (map chunk_of ps) = concat ps" by (induction ps) simp_all
  show "check_invariants (map chunk_of ps)"
    using assms by (auto simp: check_invariants_def pieces_ok_def MIN_BASE_def MAX_BASE_def list_all_iff map_butlast [symmetric])
qed

text \<open>No more pieces than the array holds.\<close>

lemma push_pieces_lemma:
  assumes "utf8 t"
  shows "\<exists>ps. push_pieces r t = Some (r @ map chunk_of ps) \<and> concat ps = t \<and> pieces_ok ps"
proof -
  obtain ps where ps: "pieces t = Some ps" "concat ps = t" "pieces_ok ps" using pieces_lemma [OF assms] by blast
  have "length ps \<le> NUM_CHUNKS" if "length t \<le> NUM_CHUNKS * MAX_BASE - NUM_CHUNKS * 4"
    using pieces_length [OF ps(3)] that by (simp add: ps(2) NUM_CHUNKS_def MAX_BASE_def)
  moreover have "new_chunks ps = Some (map chunk_of ps)"
    using ps(3) by (intro new_chunks_of) (auto simp: pieces_ok_def list_all_iff)
  ultimately show ?thesis using ps by (auto simp: push_pieces_def intro!: exI [of _ ps])
qed

subsection \<open>Pushing keeps the text and the invariant of the rope\<close>

lemma fill_ix_lemma:
  assumes "utf8 t" "m \<le> MAX_BASE"
  shows "char_boundary t (fill_ix m (char_boundary t) (length t))" "fill_ix m (char_boundary t) (length t) \<le> length t"
    "m + fill_ix m (char_boundary t) (length t) \<le> MAX_BASE"
    "fill_ix m (char_boundary t) (length t) < length t \<Longrightarrow> MIN_BASE \<le> m + fill_ix m (char_boundary t) (length t) \<and>
       (if m < MIN_BASE then MIN_BASE \<le> length t - fill_ix m (char_boundary t) (length t) + 3
        else fill_ix m (char_boundary t) (length t) = 0)"
proof -
  let ?i = "fill_ix m (char_boundary t) (length t)" and ?k = "min (MIN_BASE - m) (length t)"
  have near: "char_boundary t (step_up (char_boundary t) ?k (length t))" "?k \<le> step_up (char_boundary t) ?k (length t)"
    "step_up (char_boundary t) ?k (length t) \<le> length t" "step_up (char_boundary t) ?k (length t) < ?k + 4"
    using step_up_near [OF assms(1), of ?k] by simp_all
  show "char_boundary t ?i" "?i \<le> length t" using near by (simp_all add: fill_ix_def)
  have zero: "step_up (char_boundary t) 0 (length t) = 0" by (simp add: step_up.simps)
  show "m + ?i \<le> MAX_BASE"
  proof (cases "m < MIN_BASE")
    case True
    then show ?thesis using near(4) by (auto simp: fill_ix_def MIN_BASE_def MAX_BASE_def)
  next
    case False
    then show ?thesis using assms(2) zero by (auto simp: fill_ix_def)
  qed
  assume less: "?i < length t"
  then have big: "\<not> m + length t \<le> MAX_BASE" by (auto simp: fill_ix_def)
  then have i: "?i = step_up (char_boundary t) ?k (length t)" by (simp add: fill_ix_def)
  then have k: "MIN_BASE - m < length t" using less near(2) by linarith
  have "MIN_BASE \<le> m + ?i" using near(2) k unfolding i by simp
  moreover have "MIN_BASE \<le> length t - ?i + 3" if "m < MIN_BASE"
    using near(3,4) big k that unfolding i by (simp add: MIN_BASE_def MAX_BASE_def)
  moreover have "?i = 0" if "\<not> m < MIN_BASE" using that zero unfolding i by simp
  ultimately show "MIN_BASE \<le> m + ?i \<and> (if m < MIN_BASE then MIN_BASE \<le> length t - ?i + 3 else ?i = 0)" by simp
qed

text \<open>What every pushing operation keeps.\<close>

definition rope_is :: "rope \<Rightarrow> string \<Rightarrow> bool" where
  "rope_is r t \<longleftrightarrow> rope_ok r \<and> check_invariants r \<and> rope_text r = t"

lemma check_invariants_append:
  "check_invariants (r @ s) \<longleftrightarrow>
     (if s = [] then check_invariants r
      else list_all (\<lambda>c. MIN_BASE \<le> length (c_text c) + 3) r \<and> check_invariants s)"
  by (simp add: check_invariants_def butlast_append)

lemma check_invariants_simps [simp]:
  "check_invariants []" "check_invariants [c]" "check_invariants [c, d] \<longleftrightarrow> MIN_BASE \<le> length (c_text c) + 3"
  by (simp_all add: check_invariants_def)

lemma check_invariants_all:
  "check_invariants (r @ [c]) \<longleftrightarrow> list_all (\<lambda>c. MIN_BASE \<le> length (c_text c) + 3) r"
  by (simp add: check_invariants_def)

lemma rope_push_lemma:
  assumes "rope_is r a" "utf8 b"
  shows "\<exists>s. rope_push r b = Some s \<and> rope_is s (a @ b)"
proof (cases "r = []")
  case True
  then have a: "a = []" using assms(1) by (simp add: rope_is_def)
  obtain ps where "push_pieces [] b = Some (map chunk_of ps)" "concat ps = b" "pieces_ok ps"
    using push_pieces_lemma [OF assms(2), of "[]"] by auto
  then show ?thesis
    using True rope_of_pieces [of ps] by (auto simp: rope_push_def rope_is_def a check_invariants_def)
next
  case False
  have r: "rope_ok r" "check_invariants r" "rope_text r = a" using assms(1) by (simp_all add: rope_is_def)
  obtain r' t where r': "r = r' @ [chunk_of t]" "rope_ok r'" "utf8 t" "length t \<le> MAX_BASE"
    by (rule rope_last [OF r(1) False])
  let ?i = "fill_ix (length t) (char_boundary b) (length b)"
  note fill = fill_ix_lemma [OF assms(2) r'(4)]
  have parts: "utf8 (take ?i b)" "utf8 (drop ?i b)" using utf8_take_drop [OF assms(2) fill(1)] .
  have "length (take ?i b) = ?i" using fill(2) by simp
  then have pushed: "chunk_push_str (chunk_of t) (take ?i b) = Some (chunk_of (t @ take ?i b))"
    using chunk_push_str_of [OF r'(3) parts(1) r'(4)] fill(3) by simp
  have front: "list_all (\<lambda>c. MIN_BASE \<le> length (c_text c) + 3) r'" "rope_text r' @ t = a"
    using r(2,3) r'(1) by (simp_all add: check_invariants_all)
  have new: "rope_ok (r' @ [chunk_of (t @ take ?i b)])"
    using r'(2,3) parts(1) fill(2,3) by (simp add: utf8_append)
  show ?thesis
  proof (cases "drop ?i b = []")
    case True
    then have "take ?i b = b" by simp
    then have "rope_push r b = Some (r' @ [chunk_of (t @ b)])" using r'(1) pushed by (simp add: rope_push_def)
    then show ?thesis
      using new front \<open>take ?i b = b\<close> by (simp add: rope_is_def check_invariants_all flip: front(2))
  next
    case False
    then have "MIN_BASE \<le> length t + ?i" using fill(2) by (intro fill(4) [THEN conjunct1]) simp
    then have last: "MIN_BASE \<le> length (t @ take ?i b) + 3" using fill(2) by simp
    obtain ps where ps: "push_pieces (r' @ [chunk_of (t @ take ?i b)]) (drop ?i b) =
        Some ((r' @ [chunk_of (t @ take ?i b)]) @ map chunk_of ps)" "concat ps = drop ?i b" "pieces_ok ps"
      using push_pieces_lemma [OF parts(2), of "r' @ [chunk_of (t @ take ?i b)]"] by blast
    have "rope_push r b = Some ((r' @ [chunk_of (t @ take ?i b)]) @ map chunk_of ps)"
      using r'(1) pushed ps(1) False by (simp add: rope_push_def)
    moreover have "rope_is ((r' @ [chunk_of (t @ take ?i b)]) @ map chunk_of ps) (a @ b)"
      using new front last rope_of_pieces [OF ps(3)] ps(2)
      unfolding rope_is_def check_invariants_append by (simp flip: front(2))
    ultimately show ?thesis by blast
  qed
qed

lemma push_chunk_lemma:
  assumes "rope_ok r" "check_invariants r" "utf8 b" "length b \<le> MAX_BASE"
  shows "\<exists>s. push_chunk r (chunk_of b) = Some s \<and> rope_is s (rope_text r @ b) \<and> (b \<noteq> [] \<longrightarrow> s \<noteq> []) \<and>
    (MIN_BASE \<le> length b + 3 \<or> (r \<noteq> [] \<and> length (c_text (last r)) < MIN_BASE \<and> length (c_text (last r)) + length b > MAX_BASE) \<longrightarrow>
       list_all (\<lambda>c. MIN_BASE \<le> length (c_text c) + 3) s)"
proof (cases "r = []")
  case True
  then show ?thesis using assms by (simp add: push_chunk_def rope_is_def)
next
  case False
  obtain r' t where r': "r = r' @ [chunk_of t]" "rope_ok r'" "utf8 t" "length t \<le> MAX_BASE"
    by (rule rope_last [OF assms(1) False])
  have same: "fill_ix (length t) (chunk_is_char_boundary (chunk_of b)) (length b) =
      fill_ix (length t) (char_boundary b) (length b)"
  proof -
    have "chunk_is_char_boundary (chunk_of b) = char_boundary b"
      by (rule ext) (rule chunk_is_char_boundary_of [OF assms(3,4)])
    then show ?thesis by (simp only:)
  qed
  let ?i = "fill_ix (length t) (char_boundary b) (length b)"
  note fill = fill_ix_lemma [OF assms(3) r'(4)]
  have parts: "utf8 (take ?i b)" "utf8 (drop ?i b)" using utf8_take_drop [OF assms(3) fill(1)] .
  have "length (take ?i b) = ?i" using fill(2) by simp
  then have appended: "chunk_append (chunk_of t) (chunk_of (take ?i b)) = Some (chunk_of (t @ take ?i b))"
    using chunk_append_of [OF r'(3) parts(1) r'(4)] fill(3) by simp
  have front: "list_all (\<lambda>c. MIN_BASE \<le> length (c_text c) + 3) r'"
    using assms(2) r'(1) by (simp add: check_invariants_all)
  have new: "rope_ok (r' @ [chunk_of (t @ take ?i b)])"
    using r'(2,3) parts(1) fill(2,3) by (simp add: utf8_append)
  have result: "push_chunk r (chunk_of b) =
      Some (r' @ [chunk_of (t @ take ?i b)] @ (if drop ?i b = [] then [] else [chunk_of (drop ?i b)]))"
    using r'(1) fill(1) appended by (simp add: push_chunk_def same split_at_of [OF assms(3,4)] Let_def)
  show ?thesis
  proof (cases "drop ?i b = []")
    case True
    then show ?thesis
      using new front result r'(1) fill(2)
      by (auto simp: rope_is_def check_invariants_all fill_ix_def split: if_splits)
  next
    case False
    then have less: "?i < length b" using fill(2) by simp
    note full = fill(4) [OF less]
    have last: "MIN_BASE \<le> length (t @ take ?i b) + 3" using full fill(2) by simp
    have rest: "MIN_BASE \<le> length (drop ?i b) + 3" if "MIN_BASE \<le> length b + 3 \<or> length t < MIN_BASE"
      using full that by (auto split: if_splits)
    have "length b - ?i \<le> MAX_BASE" using assms(4) by linarith
    then have "rope_is (r' @ [chunk_of (t @ take ?i b)] @ [chunk_of (drop ?i b)]) (rope_text r @ b)"
      using new front last parts(2) assms(4) r'(1)
      by (simp add: rope_is_def check_invariants_append)
    then show ?thesis using result False front last rest r'(1) by auto
  qed
qed

lemma rope_append_lemma:
  assumes "rope_is r a" "rope_is s b"
  shows "\<exists>u. rope_append r s = Some u \<and> rope_is u (a @ b)"
proof (cases "s \<noteq> [] \<and> ((r \<noteq> [] \<and> length (c_text (last r)) < MIN_BASE) \<or> length (c_text (hd s)) < MIN_BASE)")
  case False
  note full = False
  have r: "list_all (\<lambda>c. MIN_BASE \<le> length (c_text c) + 3) r" if "s \<noteq> []"
  proof (cases "r = []")
    case False
    then have "MIN_BASE \<le> length (c_text (last r))" using full that by auto
    moreover have "list_all (\<lambda>c. MIN_BASE \<le> length (c_text c) + 3) (butlast r)"
      using assms(1) by (simp add: rope_is_def check_invariants_def)
    ultimately have "list_all (\<lambda>c. MIN_BASE \<le> length (c_text c) + 3) (butlast r @ [last r])" by simp
    then show ?thesis using False by simp
  qed simp
  have "rope_append r s = Some (r @ s)" using False by (auto simp: rope_append_def)
  then show ?thesis using assms r by (simp add: rope_is_def check_invariants_append)
next
  case True
  then obtain c s' where s: "s = c # s'" by (cases s) auto
  then obtain t where t: "c = chunk_of t" "utf8 t" "length t \<le> MAX_BASE"
    using assms(2) by (auto simp: rope_is_def elim!: chunk_okE)
  have s': "rope_ok s'" "b = t @ rope_text s'" "check_invariants s'" "s' \<noteq> [] \<Longrightarrow> MIN_BASE \<le> length t + 3"
    using assms(2) check_invariants_append [of "[c]" s'] by (auto simp: rope_is_def s t(1) split: if_splits)
  obtain u where u: "push_chunk r (chunk_of t) = Some u" "rope_is u (rope_text r @ t)"
    "MIN_BASE \<le> length t + 3 \<Longrightarrow> list_all (\<lambda>c. MIN_BASE \<le> length (c_text c) + 3) u"
    using push_chunk_lemma [OF _ _ t(2,3), of r] assms(1) by (auto simp: rope_is_def)
  have "rope_append r s = Some (u @ s')" using True u(1) by (simp add: rope_append_def s t(1))
  moreover have "rope_is (u @ s') (a @ b)"
    using u(2,3) s' assms(1) by (auto simp: rope_is_def check_invariants_append)
  ultimately show ?thesis by blast
qed

lemma rope_push_front_lemma:
  assumes "rope_is r a" "utf8 b"
  shows "\<exists>s. rope_push_front r b = Some s \<and> rope_is s (b @ a)"
proof -
  consider "b = []" | "b \<noteq> []" "a = []" | "b \<noteq> []" "a \<noteq> []" by blast
  then show ?thesis
  proof cases
    case 1
    then show ?thesis using assms(1) by (simp add: rope_push_front_def)
  next
    case 2
    then show ?thesis
      using rope_push_lemma [OF assms] assms(1) by (simp add: rope_push_front_def rope_is_def)
  next
    case 3
    then have "r \<noteq> []" using assms(1) by (auto simp: rope_is_def)
    then obtain c r' where r: "r = c # r'" by (cases r) auto
    then obtain t where t: "c = chunk_of t" "utf8 t" "length t \<le> MAX_BASE"
      using assms(1) by (auto simp: rope_is_def elim!: chunk_okE)
    show ?thesis
    proof (cases "length t + length b \<le> MAX_BASE")
      case True
      then have "rope_push_front r b = Some (chunk_of (b @ t) # r')"
        using 3 assms by (simp add: rope_push_front_def r t chunk_prepend_str_of rope_is_def add.commute)
      moreover have "check_invariants (chunk_of (b @ t) # r')"
        using assms(1) check_invariants_append [of "[c]" r'] check_invariants_append [of "[chunk_of (b @ t)]" r']
        by (auto simp: rope_is_def r t(1) split: if_splits)
      ultimately show ?thesis using assms True t by (auto simp: rope_is_def r utf8_append)
    next
      case False
      obtain p where p: "rope_push [] b = Some p" "rope_is p b"
        using rope_push_lemma [OF _ assms(2), of "[]" "[]"] by (auto simp: rope_is_def)
      then show ?thesis
        using rope_append_lemma [OF p(2) assms(1)] 3 False assms(1)
        by (simp add: rope_push_front_def r t(1) rope_is_def)
    qed
  qed
qed

subsection \<open>Properties\<close>

text \<open>
  C5. The loop that cuts a pushed text into chunks returns for every text, although a cut moves left to
  a character boundary: the pieces make up the text, none is longer than a chunk, none but the
  last is shorter than a chunk less a cut character, and a text that \<open>push\<close> keeps from \<open>push_large\<close>
  has no more pieces than its array of four holds, so the push never overflows it.
\<close>

theorem cutting_loop_returns:
  assumes "utf8 t"
  shows "\<exists>ps. pieces t = Some ps \<and> concat ps = t \<and>
    list_all (\<lambda>p. utf8 p \<and> p \<noteq> [] \<and> length p \<le> MAX_BASE) ps \<and>
    list_all (\<lambda>p. MAX_BASE \<le> length p + 3) (butlast ps) \<and>
    push_pieces r t = Some (r @ map chunk_of ps)"
proof -
  obtain ps where ps: "pieces t = Some ps" "concat ps = t" "pieces_ok ps" using pieces_lemma [OF assms] by blast
  obtain qs where qs: "push_pieces r t = Some (r @ map chunk_of qs)" using push_pieces_lemma [OF assms] by blast
  then have "push_pieces r t = Some (r @ map chunk_of ps)"
    using ps(1) new_chunks_of [of ps] ps(3)
    by (auto simp: push_pieces_def pieces_ok_def list_all_iff split: if_splits)
  then show ?thesis using ps by (auto simp: pieces_ok_def)
qed

lemma cutting_loop_returns_witness:
  "\<exists>ps. pieces ''ab'' = Some ps \<and> concat ps = ''ab'' \<and>
    list_all (\<lambda>p. utf8 p \<and> p \<noteq> [] \<and> length p \<le> MAX_BASE) ps \<and>
    list_all (\<lambda>p. MAX_BASE \<le> length p + 3) (butlast ps) \<and>
    push_pieces [] ''ab'' = Some ([] @ map chunk_of ps)"
  by (rule cutting_loop_returns) (simp add: ascii_utf8 ascii_def in_bytes_def)

text \<open>
  C4. Growing a rope keeps its invariant and never panics: pushing a text at the end, pushing one at the
  front and appending another rope give a rope of well-formed chunks, none of which but the last is under
  the minimum size (less a cut character), and its text is the concatenation.
\<close>

theorem rope_growth:
  assumes "rope_is r a" "rope_is s b" "utf8 t"
  shows "(\<exists>u. rope_push r t = Some u \<and> rope_is u (a @ t)) \<and>
    (\<exists>u. rope_push_front r t = Some u \<and> rope_is u (t @ a)) \<and>
    (\<exists>u. rope_append r s = Some u \<and> rope_is u (a @ b))"
  using rope_push_lemma [OF assms(1,3)] rope_push_front_lemma [OF assms(1,3)] rope_append_lemma [OF assms(1,2)]
  by simp

lemma rope_growth_witness:
  "(\<exists>u. rope_push [] ''t'' = Some u \<and> rope_is u ([] @ ''t'')) \<and>
   (\<exists>u. rope_push_front [] ''t'' = Some u \<and> rope_is u (''t'' @ [])) \<and>
   (\<exists>u. rope_append [] [chunk_of ''b''] = Some u \<and> rope_is u ([] @ ''b''))"
  by (rule rope_growth) (simp_all add: rope_is_def check_invariants_def MAX_BASE_def ascii_utf8 ascii_def in_bytes_def)

end
