(* ===== verification/RopeFind.thy ===== *)
theory RopeFind
  imports Rope
begin

text \<open>
  The lookups of \<open>Rope\<close>: \<open>SumTree::find\<close> over the chunks by one or two measures at once, and the
  conversions between positions that continue inside the chunk it finds.
\<close>

subsection \<open>Finding a chunk\<close>

text \<open>
  \<open>find\<close> adds the measures of the chunks until the target is no longer behind the sum: with
  \<open>Bias::Left\<close> also when it is equal to it.
\<close>

fun rope_find :: "(text_summary \<Rightarrow> 'd) \<Rightarrow> ('d \<Rightarrow> 'd \<Rightarrow> 'd) \<Rightarrow> ('d \<Rightarrow> bool) \<Rightarrow> 'd \<Rightarrow> rope \<Rightarrow> 'd \<times> chunk option" where
  "rope_find m add hit start [] = (start, None)"
| "rope_find m add hit start (c # r) =
     (let stop = add start (m (chunk_text_summary c))
      in if hit stop then (start, Some c) else rope_find m add hit stop r)"

definition rope_summary :: "rope \<Rightarrow> text_summary" where
  "rope_summary r = foldl (\<lambda>s c. ts_add s (chunk_text_summary c)) ts_zero r"

definition rope_len :: "rope \<Rightarrow> nat" where
  "rope_len r = ts_len (rope_summary r)"

definition rope_max_point :: "rope \<Rightarrow> text_point" where
  "rope_max_point r = ts_lines (rope_summary r)"

text \<open>\<open>Dimensions<D1, D2>\<close>: two measures added side by side.\<close>

definition pair_add :: "('a \<Rightarrow> 'a \<Rightarrow> 'a) \<Rightarrow> ('b \<Rightarrow> 'b \<Rightarrow> 'b) \<Rightarrow> 'a \<times> 'b \<Rightarrow> 'a \<times> 'b \<Rightarrow> 'a \<times> 'b" where
  "pair_add f g p q = (f (fst p) (fst q), g (snd p) (snd q))"

text \<open>
  The shape of the conversions: past the end the measure of the whole; else the chunk of the
  position with the two measures before it, and the conversion of the rest inside the chunk.
\<close>

definition rope_lookup ::
  "(text_summary \<Rightarrow> 'a) \<Rightarrow> ('a \<Rightarrow> 'a \<Rightarrow> 'a) \<Rightarrow> 'a \<Rightarrow> ('a \<Rightarrow> 'a \<Rightarrow> 'a) \<Rightarrow> ('a \<Rightarrow> 'a \<Rightarrow> bool) \<Rightarrow>
   (text_summary \<Rightarrow> 'b) \<Rightarrow> ('b \<Rightarrow> 'b \<Rightarrow> 'b) \<Rightarrow> 'b \<Rightarrow> (chunk \<Rightarrow> 'a \<Rightarrow> 'b option) \<Rightarrow> rope \<Rightarrow> 'a \<Rightarrow> 'b option" where
  "rope_lookup m1 add1 zero1 sub1 less1 m2 add2 zero2 convert r x =
     (if \<not> less1 x (m1 (rope_summary r)) then Some (m2 (rope_summary r))
      else case rope_find (\<lambda>s. (m1 s, m2 s)) (pair_add add1 add2) (\<lambda>stop. \<not> less1 (fst stop) x) (zero1, zero2) r of
        (start, item) \<Rightarrow>
          (case item of
             None \<Rightarrow> Some (add2 (snd start) zero2)
           | Some c \<Rightarrow> map_option (add2 (snd start)) (convert c (sub1 x (fst start)))))"

definition rope_offset_to_point :: "rope \<Rightarrow> nat \<Rightarrow> text_point option" where
  "rope_offset_to_point =
     rope_lookup ts_len (+) 0 (-) (<) ts_lines point_add point_zero (\<lambda>c x. Some (chunk_offset_to_point c x))"

definition rope_offset_to_point_utf16 :: "rope \<Rightarrow> nat \<Rightarrow> point_utf16 option" where
  "rope_offset_to_point_utf16 =
     rope_lookup ts_len (+) 0 (-) (<) ts_lines_utf16 point_add point_zero (\<lambda>c x. Some (chunk_offset_to_point_utf16 c x))"

definition rope_offset_to_offset_utf16 :: "rope \<Rightarrow> nat \<Rightarrow> nat option" where
  "rope_offset_to_offset_utf16 =
     rope_lookup ts_len (+) 0 (-) (<) ts_len_utf16 (+) 0 (\<lambda>c x. Some (chunk_offset_to_offset_utf16 c x))"

definition rope_offset_utf16_to_offset :: "rope \<Rightarrow> nat \<Rightarrow> nat option" where
  "rope_offset_utf16_to_offset =
     rope_lookup ts_len_utf16 (+) 0 (-) (<) ts_len (+) 0 (\<lambda>c x. Some (chunk_offset_utf16_to_offset c x))"

definition rope_point_to_offset :: "rope \<Rightarrow> text_point \<Rightarrow> nat option" where
  "rope_point_to_offset =
     rope_lookup ts_lines point_add point_zero point_sub point_less ts_len (+) 0 (\<lambda>c x. Some (chunk_point_to_offset c x))"

definition rope_point_to_offset_utf16 :: "rope \<Rightarrow> text_point \<Rightarrow> nat option" where
  "rope_point_to_offset_utf16 =
     rope_lookup ts_lines point_add point_zero point_sub point_less ts_len_utf16 (+) 0
       (\<lambda>c x. Some (chunk_point_to_offset_utf16 c x))"

definition rope_point_to_point_utf16 :: "rope \<Rightarrow> text_point \<Rightarrow> point_utf16 option" where
  "rope_point_to_point_utf16 =
     rope_lookup ts_lines point_add point_zero point_sub point_less ts_lines_utf16 point_add point_zero
       (\<lambda>c x. Some (chunk_point_to_point_utf16 c x))"

definition rope_point_utf16_to_offset :: "rope \<Rightarrow> point_utf16 \<Rightarrow> nat option" where
  "rope_point_utf16_to_offset =
     rope_lookup ts_lines_utf16 point_add point_zero point_sub point_less ts_len (+) 0 chunk_point_utf16_to_offset"

definition rope_point_utf16_to_offset_utf16 :: "rope \<Rightarrow> point_utf16 \<Rightarrow> nat option" where
  "rope_point_utf16_to_offset_utf16 =
     rope_lookup ts_lines_utf16 point_add point_zero point_sub point_less ts_len_utf16 (+) 0
       (\<lambda>c x. map_option (chunk_offset_to_offset_utf16 c) (chunk_point_utf16_to_offset c x))"

definition rope_point_utf16_to_point :: "rope \<Rightarrow> point_utf16 \<Rightarrow> text_point option" where
  "rope_point_utf16_to_point =
     rope_lookup ts_lines_utf16 point_add point_zero point_sub point_less ts_lines point_add point_zero
       (\<lambda>c x. map_option (chunk_offset_to_point c) (chunk_point_utf16_to_offset c x))"

definition rope_unclipped_point_utf16_to_point :: "rope \<Rightarrow> point_utf16 \<Rightarrow> text_point option" where
  "rope_unclipped_point_utf16_to_point =
     rope_lookup ts_lines_utf16 point_add point_zero point_sub point_less ts_lines point_add point_zero
       chunk_unclipped_point_utf16_to_point"

subsection \<open>Boundaries and clipping\<close>

definition find_offset :: "rope \<Rightarrow> nat \<Rightarrow> nat \<times> chunk option" where
  "find_offset r offset = rope_find ts_len (+) (\<lambda>stop. offset \<le> stop) 0 r"

definition rope_is_char_boundary :: "rope \<Rightarrow> nat \<Rightarrow> bool" where
  "rope_is_char_boundary r offset =
     (if r = [] then offset = 0
      else case find_offset r offset of (start, item) \<Rightarrow>
        (case item of None \<Rightarrow> False | Some c \<Rightarrow> chunk_is_char_boundary c (offset - start)))"

definition rope_floor_char_boundary :: "rope \<Rightarrow> nat \<Rightarrow> nat" where
  "rope_floor_char_boundary r index =
     (if index \<ge> rope_len r then rope_len r
      else case find_offset r index of (start, item) \<Rightarrow>
        (case item of None \<Rightarrow> rope_len r | Some c \<Rightarrow> start + str_floor_char_boundary (c_text c) (index - start)))"

definition rope_ceil_char_boundary :: "rope \<Rightarrow> nat \<Rightarrow> nat" where
  "rope_ceil_char_boundary r index =
     (if index > rope_len r then rope_len r
      else case find_offset r index of (start, item) \<Rightarrow>
        (case item of None \<Rightarrow> rope_len r | Some c \<Rightarrow> start + str_ceil_char_boundary (c_text c) (index - start)))"

definition rope_clip_offset :: "rope \<Rightarrow> nat \<Rightarrow> bias \<Rightarrow> nat" where
  "rope_clip_offset r offset b =
     (case b of Left \<Rightarrow> rope_floor_char_boundary r offset | Right \<Rightarrow> rope_ceil_char_boundary r offset)"

definition rope_clip_offset_utf16 :: "rope \<Rightarrow> nat \<Rightarrow> bias \<Rightarrow> nat" where
  "rope_clip_offset_utf16 r offset b =
     (case rope_find ts_len_utf16 (+) (\<lambda>stop. offset < stop) 0 r of (start, item) \<Rightarrow>
        (case item of
           Some c \<Rightarrow> start + chunk_clip_offset_utf16 c (offset - start) b
         | None \<Rightarrow> ts_len_utf16 (rope_summary r)))"

definition rope_clip_point :: "(string \<Rightarrow> nat \<Rightarrow> bool) \<Rightarrow> rope \<Rightarrow> text_point \<Rightarrow> bias \<Rightarrow> text_point option" where
  "rope_clip_point grapheme r p b =
     (case rope_find ts_lines point_add (\<lambda>stop. point_less p stop) point_zero r of (start, item) \<Rightarrow>
        (case item of
           Some c \<Rightarrow> map_option (point_add start) (chunk_clip_point grapheme c (point_sub p start) b)
         | None \<Rightarrow> Some (ts_lines (rope_summary r))))"

definition rope_clip_point_utf16 :: "rope \<Rightarrow> point_utf16 \<Rightarrow> bias \<Rightarrow> point_utf16 option" where
  "rope_clip_point_utf16 r p b =
     (case rope_find ts_lines_utf16 point_add (\<lambda>stop. point_less p stop) point_zero r of (start, item) \<Rightarrow>
        (case item of
           Some c \<Rightarrow> map_option (point_add start) (chunk_clip_point_utf16 c (point_sub p start) b)
         | None \<Rightarrow> Some (ts_lines_utf16 (rope_summary r))))"

definition rope_line_len :: "(string \<Rightarrow> nat \<Rightarrow> bool) \<Rightarrow> rope \<Rightarrow> nat \<Rightarrow> nat option" where
  "rope_line_len grapheme r row_ix =
     map_option column (rope_clip_point grapheme r (new_point row_ix (2 ^ 32 - 1)) Left)"

subsection \<open>Finding on the text\<close>

text \<open>The same search over the texts before the chunks.\<close>

fun rope_locate :: "(string \<Rightarrow> bool) \<Rightarrow> string \<Rightarrow> rope \<Rightarrow> (string \<times> chunk) option" where
  "rope_locate P a [] = None"
| "rope_locate P a (c # r) = (if P (a @ c_text c) then Some (a, c) else rope_locate P (a @ c_text c) r)"

lemma chunk_ok_summary: "chunk_ok c \<Longrightarrow> chunk_text_summary c = text_summary_from (c_text c)"
  by (elim chunk_okE) (simp add: chunk_text_summary_of)

lemma text_summary_Nil: "text_summary_from [] = ts_zero"
  by (simp add: text_summary_from_def ts_zero_def)

lemma rope_find_locate:
  assumes "\<And>s t. m (ts_add s t) = add (m s) (m t)" "rope_ok r"
  shows "rope_find m add hit (m (text_summary_from a)) r =
    (case rope_locate (\<lambda>t. hit (m (text_summary_from t))) a r of
       Some (p, c) \<Rightarrow> (m (text_summary_from p), Some c)
     | None \<Rightarrow> (m (text_summary_from (a @ rope_text r)), None))"
  using assms(2)
proof (induction r arbitrary: a)
  case (Cons c r)
  then have c: "chunk_ok c" "utf8 (c_text c)" by (simp_all add: chunk_ok_def)
  have "add (m (text_summary_from a)) (m (chunk_text_summary c)) = m (text_summary_from (a @ c_text c))"
    using c by (simp add: chunk_ok_summary text_summary_from_append_lemma assms(1))
  then show ?case using Cons by (simp add: Let_def cong: option.case_cong)
qed simp

lemma rope_summary_of:
  assumes "rope_ok r"
  shows "rope_summary r = text_summary_from (rope_text r)"
proof -
  have "foldl (\<lambda>s c. ts_add s (chunk_text_summary c)) (text_summary_from a) r = text_summary_from (a @ rope_text r)" for a
    using assms
  proof (induction r arbitrary: a)
    case (Cons c r)
    then have "chunk_ok c" "utf8 (c_text c)" by (simp_all add: chunk_ok_def)
    then have "ts_add (text_summary_from a) (chunk_text_summary c) = text_summary_from (a @ c_text c)"
      by (simp add: chunk_ok_summary text_summary_from_append_lemma)
    then show ?case using Cons by simp
  qed simp
  from this [of "[]"] show ?thesis by (simp add: rope_summary_def text_summary_Nil)
qed

lemma rope_len_of: "rope_ok r \<Longrightarrow> rope_len r = length (rope_text r)"
  by (simp add: rope_len_def rope_summary_of text_summary_from_def)

text \<open>What the search has found.\<close>

lemma rope_locate_Some:
  assumes "rope_locate P a r = Some (p, c)" "rope_ok r"
  shows "\<exists>u q. p = a @ u \<and> rope_text r = u @ c_text c @ q \<and> P (p @ c_text c) \<and> chunk_ok c \<and> utf8 u \<and> utf8 q \<and>
    (u \<noteq> [] \<longrightarrow> \<not> P p)"
  using assms
proof (induction r arbitrary: a)
  case (Cons d r)
  have d: "chunk_ok d" "utf8 (c_text d)" "rope_ok r" using Cons.prems(2) by (simp_all add: chunk_ok_def)
  show ?case
  proof (cases "P (a @ c_text d)")
    case True
    then have "p = a" "c = d" using Cons.prems(1) by simp_all
    then show ?thesis
      using True d rope_text_utf8 [OF d(3)] by (intro exI [of _ "[]"] exI [of _ "rope_text r"]) simp
  next
    case False
    then have "rope_locate P (a @ c_text d) r = Some (p, c)" using Cons.prems(1) by simp
    then obtain u q where u: "p = (a @ c_text d) @ u" "rope_text r = u @ c_text c @ q" "P (p @ c_text c)" "chunk_ok c"
      "utf8 u" "utf8 q" "u \<noteq> [] \<longrightarrow> \<not> P p" using Cons.IH [OF _ d(3)] by blast
    have "\<not> P p" using u(1,7) False by (cases "u = []") simp_all
    then show ?thesis
      using u d(2) by (intro exI [of _ "c_text d @ u"] exI [of _ q]) (simp add: utf8_append)
  qed
qed simp

lemma rope_locate_None: "rope_locate P a r = None \<Longrightarrow> r \<noteq> [] \<Longrightarrow> \<not> P (a @ rope_text r)"
proof (induction r arbitrary: a)
  case (Cons c r)
  show ?case
  proof (cases "r = []")
    case False
    then show ?thesis using Cons.IH [of "a @ c_text c"] Cons.prems(1) by (simp split: if_splits)
  qed (use Cons.prems(1) in \<open>simp split: if_splits\<close>)
qed simp

lemma rope_locate_cong:
  "(\<And>u q. utf8 u \<Longrightarrow> utf8 q \<Longrightarrow> rope_text r = u @ q \<Longrightarrow> P (a @ u) = Q (a @ u)) \<Longrightarrow> rope_ok r \<Longrightarrow>
   rope_locate P a r = rope_locate Q a r"
proof (induction r arbitrary: a)
  case (Cons c r)
  have c: "utf8 (c_text c)" "rope_ok r" using Cons.prems(2) by (simp_all add: chunk_ok_def)
  have "P (a @ c_text c) = Q (a @ c_text c)"
    using Cons.prems(1) [of "c_text c" "rope_text r"] c rope_text_utf8 by simp
  moreover have "rope_locate P (a @ c_text c) r = rope_locate Q (a @ c_text c) r"
  proof (rule Cons.IH [OF _ c(2)])
    fix u q assume "utf8 u" "utf8 q" "rope_text r = u @ q"
    then show "P ((a @ c_text c) @ u) = Q ((a @ c_text c) @ u)"
      using Cons.prems(1) [of "c_text c @ u" q] c(1) by (simp add: utf8_append)
  qed
  ultimately show ?case by simp
qed simp

subsection \<open>Conversions agree with the text\<close>

lemma char_boundary_middle:
  assumes "utf8 t" "utf8 (p @ t @ q)" "k \<le> length t"
  shows "char_boundary (p @ t @ q) (length p + k) \<Longrightarrow> char_boundary t k"
proof (cases "k < length t")
  case True
  then show "char_boundary (p @ t @ q) (length p + k) \<Longrightarrow> char_boundary t k"
    using assms by (auto simp: char_boundary_leads flags_append nth_append)
next
  case False
  then have "k = length t" using assms(3) by simp
  then show "char_boundary (p @ t @ q) (length p + k) \<Longrightarrow> char_boundary t k" by simp
qed

lemma clean_start_take: "clean_start t \<Longrightarrow> clean_start (take n t)"
  by (cases t; cases n) auto

text \<open>A prefix of a text, before or behind a boundary.\<close>

lemma prefix_cases:
  assumes "utf8 (u @ q)" "utf8 u" "utf8 q" "char_boundary (u @ q) off"
  shows "length u < off \<Longrightarrow> \<exists>w. take off (u @ q) = u @ w \<and> utf8 w \<and> w \<noteq> []"
    "off \<le> length u \<Longrightarrow> \<exists>w. u = take off (u @ q) @ w \<and> utf8 w"
proof -
  have parts: "utf8 (take off (u @ q))" "utf8 (drop off (u @ q))" using utf8_take_drop [OF assms(1,4)] .
  {
    assume less: "length u < off"
    let ?w = "take (off - length u) q"
    have "take off (u @ q) = u @ ?w" using less by simp
    moreover have "utf8 ?w"
      using parts(1) utf8_append_split [OF clean_start_take [OF utf8_clean_start [OF assms(3)]], of u "off - length u"]
      by (simp add: less_imp_le [OF less])
    moreover have "?w \<noteq> []" using less char_boundary_le [OF assms(4)] by auto
    ultimately show "\<exists>w. take off (u @ q) = u @ w \<and> utf8 w \<and> w \<noteq> []" by blast
  }
  assume le: "off \<le> length u"
  have "clean_start (take (length u - off) (drop off (u @ q)))"
    by (rule clean_start_take [OF utf8_clean_start [OF parts(2)]])
  then have "clean_start (drop off u)" using le by simp
  then have "utf8 (drop off u)"
    using assms(2) utf8_append_split [of "drop off u" "take off u"] by simp
  then show "\<exists>w. u = take off (u @ q) @ w \<and> utf8 w" using le by (intro exI [of _ "drop off u"]) simp
qed

text \<open>
  What a conversion needs: subtraction undoes addition on the left, a longer text has a greater
  measure, and inside a chunk the conversion is right.
\<close>

locale rope_conversion =
  A: text_dimension m1 add1 zero1 + B: text_dimension m2 add2 zero2
  for m1 :: "text_summary \<Rightarrow> 'a" and add1 zero1 and m2 :: "text_summary \<Rightarrow> 'b" and add2 zero2 +
  fixes sub1 :: "'a \<Rightarrow> 'a \<Rightarrow> 'a" and less1 :: "'a \<Rightarrow> 'a \<Rightarrow> bool" and convert :: "chunk \<Rightarrow> 'a \<Rightarrow> 'b option"
  assumes sub_add: "sub1 (add1 x y) x = y"
    and less_longer: "utf8 a \<Longrightarrow> utf8 b \<Longrightarrow> length a + length b < 2 ^ 32 \<Longrightarrow> b \<noteq> [] \<Longrightarrow>
      less1 (m1 (text_summary_from a)) (m1 (text_summary_from (a @ b)))"
    and not_less_shorter: "utf8 a \<Longrightarrow> utf8 b \<Longrightarrow> length a + length b < 2 ^ 32 \<Longrightarrow>
      \<not> less1 (m1 (text_summary_from (a @ b))) (m1 (text_summary_from a))"
    and convert_chunk: "utf8 t \<Longrightarrow> length t \<le> MAX_BASE \<Longrightarrow> char_boundary t k \<Longrightarrow>
      convert (chunk_of t) (m1 (text_summary_from (take k t))) = Some (m2 (text_summary_from (take k t)))"
begin

lemma find_chunk:
  assumes r: "rope_ok r" "length (rope_text r) < 2 ^ 32" "char_boundary (rope_text r) off" and nonempty: "r \<noteq> []"
  shows "\<exists>p t q k. rope_find (\<lambda>s. (m1 s, m2 s)) (pair_add add1 add2)
      (\<lambda>stop. \<not> less1 (fst stop) (m1 (text_summary_from (take off (rope_text r))))) (zero1, zero2) r =
      ((m1 (text_summary_from p), m2 (text_summary_from p)), Some (chunk_of t)) \<and>
    rope_text r = p @ t @ q \<and> utf8 p \<and> utf8 t \<and> length t \<le> MAX_BASE \<and> char_boundary t k \<and> off = length p + k"
proof -
  let ?T = "rope_text r" and ?x = "m1 (text_summary_from (take off (rope_text r)))"
  have T: "utf8 ?T" using rope_text_utf8 [OF r(1)] .
  have parts: "utf8 (take off ?T)" using utf8_take_drop(1) [OF T r(3)] .
  have same: "(\<not> less1 (m1 (text_summary_from u)) ?x) = (off \<le> length u)"
    if u: "utf8 u" "utf8 q" "?T = u @ q" for u q
  proof (cases "off \<le> length u")
    case True
    then obtain w where w: "u = take off ?T @ w" "utf8 w"
      using prefix_cases(2) [of u q off] u T r(3) by auto
    have "length u = length (take off ?T @ w)" using w(1) by (rule arg_cong)
    moreover have "length u \<le> length ?T" using u(3) by simp
    ultimately have "length (take off ?T) + length w < 2 ^ 32" using r(2) unfolding length_append by linarith
    then show ?thesis using not_less_shorter [OF parts w(2)] True unfolding w(1) [symmetric] by simp
  next
    case False
    then obtain w where w: "take off ?T = u @ w" "utf8 w" "w \<noteq> []"
      using prefix_cases(1) [of u q off] u T r(3) by auto
    have "length (u @ w) \<le> length ?T" unfolding w(1) [symmetric] by simp
    then have "length u + length w < 2 ^ 32" using r(2) by simp
    then show ?thesis using less_longer [OF u(1) w(2) _ w(3)] False unfolding w(1) by simp
  qed
  have located: "rope_locate (\<lambda>t. \<not> less1 (m1 (text_summary_from t)) ?x) [] r = rope_locate (\<lambda>t. off \<le> length t) [] r"
    using same by (intro rope_locate_cong [OF _ r(1)]) simp
  have "off \<le> length ?T" using r(3) by (rule char_boundary_le)
  then obtain p c where pc: "rope_locate (\<lambda>t. off \<le> length t) [] r = Some (p, c)"
    using rope_locate_None [of "\<lambda>t. off \<le> length t" "[]" r] nonempty
    by (cases "rope_locate (\<lambda>t. off \<le> length t) [] r") auto
  obtain q where q: "?T = p @ c_text c @ q" "off \<le> length p + length (c_text c)" "chunk_ok c" "utf8 p"
    "p \<noteq> [] \<longrightarrow> \<not> off \<le> length p"
    using rope_locate_Some [OF pc r(1)] by auto
  obtain t where t: "c = chunk_of t" "utf8 t" "length t \<le> MAX_BASE" using q(3) by (rule chunk_okE)
  define k where "k = off - length p"
  have k: "off = length p + k" "k \<le> length t" using q(2,5) t(1) by (cases "p = []"; simp add: k_def)+
  have "char_boundary t k"
    using char_boundary_middle [OF t(2) _ k(2), of p q] T r(3) q(1) t(1) k(1) by simp
  moreover have "rope_find (\<lambda>s. (m1 s, m2 s)) (pair_add add1 add2) (\<lambda>stop. \<not> less1 (fst stop) ?x) (zero1, zero2) r =
      ((m1 (text_summary_from p), m2 (text_summary_from p)), Some c)"
    using rope_find_locate [of "\<lambda>s. (m1 s, m2 s)" "pair_add add1 add2" r "\<lambda>stop. \<not> less1 (fst stop) ?x" "[]"]
    by (simp add: pair_add_def A.from_add B.from_add r(1) text_summary_Nil A.from_zero B.from_zero located pc)
  ultimately show ?thesis using q t k(1) by auto
qed

lemma lookup_at:
  assumes r: "rope_ok r" "length (rope_text r) < 2 ^ 32" "char_boundary (rope_text r) off"
  shows "rope_lookup m1 add1 zero1 sub1 less1 m2 add2 zero2 convert r (m1 (text_summary_from (take off (rope_text r)))) =
    Some (m2 (text_summary_from (take off (rope_text r))))"
proof -
  let ?T = "rope_text r"
  have T: "utf8 ?T" using rope_text_utf8 [OF r(1)] .
  note summary = rope_summary_of [OF r(1)]
  show ?thesis
  proof (cases "off = length ?T")
    case True
    have "\<not> less1 (m1 (text_summary_from (?T @ []))) (m1 (text_summary_from ?T))"
      using r(2) by (intro not_less_shorter [OF T]) simp_all
    then show ?thesis by (simp add: rope_lookup_def summary True)
  next
    case False
    then have off: "off < length ?T" using char_boundary_le [OF r(3)] by simp
    then have "r \<noteq> []" by auto
    then obtain p t q k where find: "rope_find (\<lambda>s. (m1 s, m2 s)) (pair_add add1 add2)
        (\<lambda>stop. \<not> less1 (fst stop) (m1 (text_summary_from (take off ?T)))) (zero1, zero2) r =
        ((m1 (text_summary_from p), m2 (text_summary_from p)), Some (chunk_of t))"
      and at: "?T = p @ t @ q" "utf8 p" "utf8 t" "length t \<le> MAX_BASE" "char_boundary t k" "off = length p + k"
      using find_chunk [OF r] by blast
    have less: "less1 (m1 (text_summary_from (take off ?T))) (m1 (text_summary_from ?T))"
      using less_longer [of "take off ?T" "drop off ?T"] utf8_take_drop [OF T r(3)] off r(2) by simp
    have "take off ?T = p @ take k t" using at char_boundary_le [OF at(5)] by simp
    moreover have "utf8 (take k t)" using utf8_take_drop(1) [OF at(3,5)] .
    ultimately have sums: "text_summary_from (take off ?T) = ts_add (text_summary_from p) (text_summary_from (take k t))"
      by (simp add: text_summary_from_append_lemma)
    show ?thesis
      using less convert_chunk [OF at(3,4,5)]
      by (simp add: rope_lookup_def summary find) (simp add: sums A.from_add B.from_add sub_add)
  qed
qed

end

subsection \<open>The measures order the prefixes of a text\<close>

lemma measure_simps:
  assumes "utf8 t"
  shows "ts_len (text_summary_from t) = length t" "ts_len_utf16 (text_summary_from t) = ones (utf16_flags t)"
    "ts_lines (text_summary_from t) = text_end t"
    "ts_lines_utf16 (text_summary_from t) = new_point (row (text_end t)) (last_flags t (utf16_flags t))"
  using summary_flags_from [OF assms]
  by (simp_all add: summary_flags_def text_summary_from_def ts_lines_utf16_def)

lemma utf16_positive: "utf8 t \<Longrightarrow> t \<noteq> [] \<Longrightarrow> 0 < ones (utf16_flags t)"
  using utf16_at_less [of t 0 "length t"] by (simp add: utf16_at_def)

lemma text_end_bound: "row (text_end t) \<le> length t" "column (text_end t) \<le> length t"
  using ones_le [of "newline_flags t"] by (simp_all add: text_end_def)

lemma last_flags_le: "last_flags t fs \<le> length fs"
  unfolding last_flags_def using ones_le [of "drop (through_last (newline_flags t)) fs"] by simp

text \<open>Adding a measure that is not zero leads to a later point; a sum is never before its first part.\<close>

lemma point_less_add:
  assumes "row p + row q < 2 ^ 32" "column p + column q < 2 ^ 32"
  shows "point_less p (point_add p q) \<longleftrightarrow> 0 < row q \<or> 0 < column q" "\<not> point_less (point_add p q) p"
  using assms by (subst point_less_iff; auto)+

lemma lines_positive: "b \<noteq> [] \<Longrightarrow> 0 < row (text_end b) \<or> 0 < column (text_end b)"
  using text_end_row [of b]
  by (cases "True \<in> set (newline_flags b)") (simp_all add: text_end_def through_last_none)

lemma lines_utf16_positive:
  assumes "utf8 b" "b \<noteq> []"
  shows "0 < row (ts_lines_utf16 (text_summary_from b)) \<or> 0 < column (ts_lines_utf16 (text_summary_from b))"
proof (cases "True \<in> set (newline_flags b)")
  case False
  then have "last_flags b (utf16_flags b) = ones (utf16_flags b)" by (rule last_flags_none)
  then show ?thesis using utf16_positive [OF assms] by (simp add: measure_simps [OF assms(1)])
qed (use text_end_row [of b] in \<open>simp add: measure_simps [OF assms(1)]\<close>)

lemma lines_utf16_add:
  "utf8 b \<Longrightarrow> ts_lines_utf16 (text_summary_from (a @ b)) =
    point_add (ts_lines_utf16 (text_summary_from a)) (ts_lines_utf16 (text_summary_from b))"
  using td_point_utf16.from_add by (simp add: text_summary_from_append_lemma)

lemma lines_order:
  assumes "utf8 a" "utf8 b" "length a + length b < 2 ^ 32"
  shows "b \<noteq> [] \<Longrightarrow> point_less (ts_lines (text_summary_from a)) (ts_lines (text_summary_from (a @ b)))"
    "\<not> point_less (ts_lines (text_summary_from (a @ b))) (ts_lines (text_summary_from a))"
proof -
  have "row (text_end a) + row (text_end b) < 2 ^ 32" "column (text_end a) + column (text_end b) < 2 ^ 32"
    using text_end_bound [of a] text_end_bound [of b] assms(3) by linarith+
  note less = point_less_add [OF this]
  have ab: "ts_lines (text_summary_from (a @ b)) = point_add (text_end a) (text_end b)"
    using assms(1,2) by (simp add: measure_simps utf8_append text_end_append)
  show "point_less (ts_lines (text_summary_from a)) (ts_lines (text_summary_from (a @ b)))" if "b \<noteq> []"
    unfolding ab measure_simps(3) [OF assms(1)] less(1) by (rule lines_positive [OF that])
  show "\<not> point_less (ts_lines (text_summary_from (a @ b))) (ts_lines (text_summary_from a))"
    unfolding ab measure_simps(3) [OF assms(1)] by (rule less(2))
qed

lemma lines_utf16_order:
  assumes "utf8 a" "utf8 b" "length a + length b < 2 ^ 32"
  shows "b \<noteq> [] \<Longrightarrow> point_less (ts_lines_utf16 (text_summary_from a)) (ts_lines_utf16 (text_summary_from (a @ b)))"
    "\<not> point_less (ts_lines_utf16 (text_summary_from (a @ b))) (ts_lines_utf16 (text_summary_from a))"
proof -
  have bound: "row (ts_lines_utf16 (text_summary_from t)) \<le> length t"
    "column (ts_lines_utf16 (text_summary_from t)) \<le> length t" if "utf8 t" for t
    using text_end_bound(1) [of t] last_flags_le [of t "utf16_flags t"] by (simp_all add: measure_simps [OF that])
  have "row (ts_lines_utf16 (text_summary_from a)) + row (ts_lines_utf16 (text_summary_from b)) < 2 ^ 32"
    using bound(1) [OF assms(1)] bound(1) [OF assms(2)] assms(3) by linarith
  moreover have "column (ts_lines_utf16 (text_summary_from a)) + column (ts_lines_utf16 (text_summary_from b)) < 2 ^ 32"
    using bound(2) [OF assms(1)] bound(2) [OF assms(2)] assms(3) by linarith
  ultimately have less: "point_less (ts_lines_utf16 (text_summary_from a))
      (point_add (ts_lines_utf16 (text_summary_from a)) (ts_lines_utf16 (text_summary_from b))) \<longleftrightarrow>
      0 < row (ts_lines_utf16 (text_summary_from b)) \<or> 0 < column (ts_lines_utf16 (text_summary_from b))"
    "\<not> point_less (point_add (ts_lines_utf16 (text_summary_from a)) (ts_lines_utf16 (text_summary_from b)))
      (ts_lines_utf16 (text_summary_from a))"
    by (rule point_less_add)+
  show "point_less (ts_lines_utf16 (text_summary_from a)) (ts_lines_utf16 (text_summary_from (a @ b)))" if "b \<noteq> []"
    unfolding lines_utf16_add [OF assms(2)] less(1) by (rule lines_utf16_positive [OF assms(2) that])
  show "\<not> point_less (ts_lines_utf16 (text_summary_from (a @ b))) (ts_lines_utf16 (text_summary_from a))"
    unfolding lines_utf16_add [OF assms(2)] by (rule less(2))
qed

lemma len_order:
  "b \<noteq> [] \<Longrightarrow> ts_len (text_summary_from a) < ts_len (text_summary_from (a @ b))"
  "\<not> ts_len (text_summary_from (a @ b)) < ts_len (text_summary_from a)"
  by (simp_all add: text_summary_from_def)

lemma len_utf16_order:
  assumes "utf8 b"
  shows "b \<noteq> [] \<Longrightarrow> ts_len_utf16 (text_summary_from a) < ts_len_utf16 (text_summary_from (a @ b))"
    "\<not> ts_len_utf16 (text_summary_from (a @ b)) < ts_len_utf16 (text_summary_from a)"
  using assms utf16_positive [of b] by (simp_all add: text_summary_from_append_lemma measure_simps)

subsection \<open>Inside a chunk\<close>

lemma at_le:
  assumes t: "utf8 t" "length t \<le> MAX_BASE" "char_boundary t k"
  shows "k \<le> length t"
  using t(3) by (rule char_boundary_le)

lemma at_utf8:
  assumes t: "utf8 t" "length t \<le> MAX_BASE" "char_boundary t k"
  shows "utf8 (take k t)"
  by (rule utf8_take_drop(1) [OF t(1,3)])

lemma at_len:
  assumes t: "utf8 t" "length t \<le> MAX_BASE" "char_boundary t k"
  shows "ts_len (text_summary_from (take k t)) = k"
  using at_le [OF t] by (simp add: measure_simps [OF at_utf8 [OF t]])

lemma at_point:
  assumes t: "utf8 t" "length t \<le> MAX_BASE" "char_boundary t k"
  shows "chunk_offset_to_point (chunk_of t) k = ts_lines (text_summary_from (take k t))"
  using chunk_offset_to_point_of [OF t(2) at_le [OF t]] by (simp add: measure_simps [OF at_utf8 [OF t]])

lemma at_point_utf16:
  assumes t: "utf8 t" "length t \<le> MAX_BASE" "char_boundary t k"
  shows "chunk_offset_to_point_utf16 (chunk_of t) k = ts_lines_utf16 (text_summary_from (take k t))"
  using chunk_offset_to_point_utf16_of [OF t(2) at_le [OF t]] by (simp add: measure_simps [OF at_utf8 [OF t]])

lemma at_utf16:
  assumes t: "utf8 t" "length t \<le> MAX_BASE" "char_boundary t k"
  shows "chunk_offset_to_offset_utf16 (chunk_of t) k = ts_len_utf16 (text_summary_from (take k t))"
  using t by (simp add: chunk_offset_to_offset_utf16_of utf16_summary)

lemma from_utf16:
  assumes t: "utf8 t" "length t \<le> MAX_BASE" "char_boundary t k"
  shows "chunk_offset_utf16_to_offset (chunk_of t) (ts_len_utf16 (text_summary_from (take k t))) = k"
  using utf16_roundtrip_lemma [OF t] by (simp add: at_utf16 [OF t])

lemma from_point:
  assumes t: "utf8 t" "length t \<le> MAX_BASE" "char_boundary t k"
  shows "chunk_point_to_offset (chunk_of t) (ts_lines (text_summary_from (take k t))) = k"
  using point_offset_roundtrip_lemma [OF t(2) at_le [OF t]] by (simp add: at_point [OF t])

lemma from_point_row:
  assumes t: "utf8 t" "length t \<le> MAX_BASE" "char_boundary t k"
  shows "\<not> row (ts_lines (text_summary_from (take k t))) > row (chunk_lines (chunk_of t))"
  using text_end_append [of "take k t" "drop k t"] by (simp add: chunk_lines_of [OF t(2)] measure_simps [OF at_utf8 [OF t]])

lemma from_point_utf16:
  assumes t: "utf8 t" "length t \<le> MAX_BASE" "char_boundary t k"
  shows "chunk_point_utf16_to_offset (chunk_of t) (ts_lines_utf16 (text_summary_from (take k t))) = Some k"
  using point_utf16_roundtrip_lemma [OF t] by (simp add: at_point_utf16 [OF t])

lemma from_unclipped:
  assumes t: "utf8 t" "length t \<le> MAX_BASE" "char_boundary t k"
  shows "chunk_unclipped_point_utf16_to_point (chunk_of t) (ts_lines_utf16 (text_summary_from (take k t))) =
    Some (ts_lines (text_summary_from (take k t)))"
proof -
  obtain pre line post j where r: "row_at t (row (text_end (take k t))) pre line post" "j \<le> length line"
    "k = length pre + j" "column (text_end (take k t)) = j" by (rule row_at_offset [OF at_le [OF t]])
  let ?r = "row (text_end (take k t))" and ?u = "ones (take j (utf16_flags line))"
  have p: "ts_lines_utf16 (text_summary_from (take k t)) = new_point ?r ?u"
    using row_at_utf16 [OF t(1) r(1,2)] unfolding r(3) [symmetric] by (simp add: measure_simps [OF at_utf8 [OF t]])
  have line: "utf8 line" "length line \<le> MAX_BASE" "char_boundary line j"
    using row_at_utf8(2) [OF t(1) r(1)] char_boundary_in_line [OF t(1) r(1,2)] t(2,3) r(1,3)
    by (simp_all add: row_at_def)
  have result: "ts_lines (text_summary_from (take k t)) = new_point ?r j"
    using r(4) new_point_eq [of "text_end (take k t)"] by (simp add: measure_simps [OF at_utf8 [OF t]])
  have again: "chunk_offset_utf16_to_offset (chunk_of line) ?u = j" using utf16_roundtrip_flags [OF line] .
  have len: "chunk_len_utf16 (chunk_of line) = utf16_at line (length line)"
    using line(2) by (simp add: chunk_len_utf16_def count_ones_bm utf16_at_def MAX_BASE_def)
  have zero: "j = 0" if "?u = 0" using again that by (simp add: chunk_offset_utf16_to_offset_def)
  have all: "j = length line" if "?u \<ge> utf16_at line (length line)"
    using that r(2) utf16_at_less [OF line(1,3), of "length line"] by (cases "j = length line") (auto simp: utf16_at_def)
  have "back_off (char_boundary line) j = j" using line(3) by (rule back_off_fixed)
  then show ?thesis
    using from_point_row [OF t] zero all unfolding p result
    by (auto simp: chunk_unclipped_point_utf16_to_point_def line_of_row_of [OF t(1,2) r(1)] again len chunk_len_def)
qed

subsection \<open>The conversions\<close>

interpretation offset_point: rope_conversion ts_len "(+)" 0 ts_lines point_add point_zero "(-)" "(<)"
  "\<lambda>c x. Some (chunk_offset_to_point c x)"
  by unfold_locales (auto simp: len_order at_len at_point)

interpretation offset_point_utf16: rope_conversion ts_len "(+)" 0 ts_lines_utf16 point_add point_zero "(-)" "(<)"
  "\<lambda>c x. Some (chunk_offset_to_point_utf16 c x)"
  by unfold_locales (auto simp: len_order at_len at_point_utf16)

interpretation offset_utf16: rope_conversion ts_len "(+)" 0 ts_len_utf16 "(+)" 0 "(-)" "(<)"
  "\<lambda>c x. Some (chunk_offset_to_offset_utf16 c x)"
  by unfold_locales (auto simp: len_order at_len at_utf16)

interpretation utf16_offset: rope_conversion ts_len_utf16 "(+)" 0 ts_len "(+)" 0 "(-)" "(<)"
  "\<lambda>c x. Some (chunk_offset_utf16_to_offset c x)"
  by unfold_locales (simp_all add: len_utf16_order at_len from_utf16)

interpretation point_offset: rope_conversion ts_lines point_add point_zero ts_len "(+)" 0 point_sub point_less
  "\<lambda>c x. Some (chunk_point_to_offset c x)"
  by unfold_locales (simp_all add: lines_order at_len from_point point_sub_add)

interpretation point_offset_utf16: rope_conversion ts_lines point_add point_zero ts_len_utf16 "(+)" 0 point_sub point_less
  "\<lambda>c x. Some (chunk_point_to_offset_utf16 c x)"
  by unfold_locales
    (simp_all add: lines_order from_point from_point_row point_sub_add at_utf16 chunk_point_to_offset_utf16_def)

interpretation point_point_utf16: rope_conversion ts_lines point_add point_zero ts_lines_utf16 point_add point_zero
  point_sub point_less "\<lambda>c x. Some (chunk_point_to_point_utf16 c x)"
  by unfold_locales (simp_all add: lines_order from_point point_sub_add at_point_utf16 chunk_point_to_point_utf16_def)

interpretation utf16_point_offset: rope_conversion ts_lines_utf16 point_add point_zero ts_len "(+)" 0 point_sub point_less
  chunk_point_utf16_to_offset
  by unfold_locales (simp_all add: lines_utf16_order from_point_utf16 point_sub_add at_len)

interpretation utf16_point_utf16: rope_conversion ts_lines_utf16 point_add point_zero ts_len_utf16 "(+)" 0 point_sub
  point_less "\<lambda>c x. map_option (chunk_offset_to_offset_utf16 c) (chunk_point_utf16_to_offset c x)"
  by unfold_locales (simp_all add: lines_utf16_order from_point_utf16 point_sub_add at_utf16)

interpretation utf16_point_point: rope_conversion ts_lines_utf16 point_add point_zero ts_lines point_add point_zero
  point_sub point_less "\<lambda>c x. map_option (chunk_offset_to_point c) (chunk_point_utf16_to_offset c x)"
  by unfold_locales (simp_all add: lines_utf16_order from_point_utf16 point_sub_add at_point)

interpretation unclipped_point: rope_conversion ts_lines_utf16 point_add point_zero ts_lines point_add point_zero
  point_sub point_less chunk_unclipped_point_utf16_to_point
  by unfold_locales (simp_all add: lines_utf16_order from_unclipped point_sub_add)

end
