(* ===== verification/RopeEdit.thy ===== *)
theory RopeEdit
  imports RopeFind
begin

text \<open>
  Boundaries and clipping on a whole rope, and the cursor of \<open>crates/rope/src/rope.rs\<close>: slicing,
  summing a range, and replacing a range by a text.
\<close>

subsection \<open>The chunk of an offset\<close>

lemma find_offset_at:
  assumes r: "rope_ok r" "r \<noteq> []" "off \<le> length (rope_text r)"
  shows "\<exists>p t q k. find_offset r off = (length p, Some (chunk_of t)) \<and> rope_text r = p @ t @ q \<and>
    utf8 p \<and> utf8 t \<and> utf8 q \<and> length t \<le> MAX_BASE \<and> k \<le> length t \<and> off = length p + k"
proof -
  obtain p c where pc: "rope_locate (\<lambda>t. off \<le> length t) [] r = Some (p, c)"
    using rope_locate_None [of "\<lambda>t. off \<le> length t" "[]" r] r(2,3)
    by (cases "rope_locate (\<lambda>t. off \<le> length t) [] r") auto
  obtain q where q: "rope_text r = p @ c_text c @ q" "off \<le> length p + length (c_text c)" "chunk_ok c" "utf8 p" "utf8 q"
    "p \<noteq> [] \<longrightarrow> \<not> off \<le> length p"
    using rope_locate_Some [OF pc r(1)] by auto
  obtain t where t: "c = chunk_of t" "utf8 t" "length t \<le> MAX_BASE" using q(3) by (rule chunk_okE)
  have "ts_len (text_summary_from u) = length u" for u by (simp add: text_summary_from_def)
  then have "find_offset r off = (length p, Some c)"
    using rope_find_locate [of ts_len "(+)" r "\<lambda>stop. off \<le> stop" "[]"] r(1) pc
    by (simp add: find_offset_def)
  moreover have "off = length p + (off - length p)" using q(6) by (cases "p = []") simp_all
  ultimately show ?thesis using q t by (intro exI [of _ p] exI [of _ t] exI [of _ q] exI [of _ "off - length p"]) auto
qed

lemma boundary_inside:
  assumes "utf8 p" "utf8 t" "utf8 q" "k \<le> length t"
  shows "char_boundary (p @ t @ q) (length p + k) \<longleftrightarrow> char_boundary t k"
proof
  show "char_boundary (p @ t @ q) (length p + k) \<Longrightarrow> char_boundary t k"
    using assms by (intro char_boundary_middle [of t p q k]) (simp_all add: utf8_append)
  assume k: "char_boundary t k"
  have all: "utf8 (p @ t @ q)" using assms by (simp add: utf8_append)
  show "char_boundary (p @ t @ q) (length p + k)"
  proof (cases "k < length t")
    case True
    then show ?thesis using k assms all by (auto simp: char_boundary_leads flags_append nth_append)
  next
    case False
    then show ?thesis
      using assms(4) char_boundary_append [of "p @ t" q] utf8_clean_start [OF assms(3)] by simp
  qed
qed

lemma rope_is_char_boundary_lemma:
  assumes "rope_ok r"
  shows "rope_is_char_boundary r off \<longleftrightarrow> char_boundary (rope_text r) off"
proof (cases "r = []")
  case True
  then show ?thesis by (simp add: rope_is_char_boundary_def char_boundary_def)
next
  case False
  show ?thesis
  proof (cases "off \<le> length (rope_text r)")
    case True
    then obtain p t q k where f: "find_offset r off = (length p, Some (chunk_of t))" "rope_text r = p @ t @ q"
      "utf8 p" "utf8 t" "utf8 q" "length t \<le> MAX_BASE" "k \<le> length t" "off = length p + k"
      using find_offset_at [OF assms False] by blast
    then show ?thesis
      using False boundary_inside [OF f(3,4,5,7)] by (simp add: rope_is_char_boundary_def chunk_is_char_boundary_of)
  next
    case beyond: False
    have len: "ts_len (text_summary_from u) = length u" for u by (simp add: text_summary_from_def)
    have "rope_locate (\<lambda>t. off \<le> length t) [] r = None"
    proof (rule ccontr)
      assume "rope_locate (\<lambda>t. off \<le> length t) [] r \<noteq> None"
      then obtain p c where "rope_locate (\<lambda>t. off \<le> length t) [] r = Some (p, c)" by auto
      from rope_locate_Some [OF this assms] show False using beyond by auto
    qed
    then have "snd (find_offset r off) = None"
      using rope_find_locate [of ts_len "(+)" r "\<lambda>stop. off \<le> stop" "[]"] assms by (simp add: find_offset_def len)
    moreover have "\<not> char_boundary (rope_text r) off" using beyond char_boundary_le by blast
    ultimately show ?thesis using False by (simp add: rope_is_char_boundary_def case_prod_beta)
  qed
qed

text \<open>Moving to a boundary inside the chunk is moving to one in the text.\<close>

lemma back_off_shift: "P m \<Longrightarrow> back_off P (m + k) = m + back_off (\<lambda>j. P (m + j)) k"
proof (induction k)
  case 0
  then show ?case by (simp add: back_off_fixed)
qed simp

lemma step_up_shift: "step_up P (m + k) (m + n) = m + step_up (\<lambda>j. P (m + j)) k n"
proof (induction "n - k" arbitrary: k)
  case 0
  then show ?case by (simp add: step_up.simps [of P "m + k"] step_up.simps [of "\<lambda>j. P (m + j)" k n])
next
  case (Suc d)
  then have "step_up P (m + Suc k) (m + n) = m + step_up (\<lambda>j. P (m + j)) (Suc k) n" by (intro Suc.hyps(1)) simp
  then show ?case by (simp add: step_up.simps [of P "m + k"] step_up.simps [of "\<lambda>j. P (m + j)" k n])
qed

lemma step_up_cong:
  "(\<And>k. n \<le> k \<Longrightarrow> k \<le> hi \<Longrightarrow> P k = Q k) \<Longrightarrow> step_up P n hi = step_up Q n hi"
proof (induction P n hi rule: step_up.induct)
  case (1 P n hi)
  show ?case
  proof (cases "n < hi \<and> \<not> P n")
    case True
    then have "step_up P (Suc n) hi = step_up Q (Suc n) hi" using "1.prems" by (intro "1.IH") simp_all
    then show ?thesis
      using True "1.prems" [of n] by (simp add: step_up.simps [of P n hi] step_up.simps [of Q n hi])
  next
    case False
    then show ?thesis
      using "1.prems" [of n] by (cases "n < hi") (simp_all add: step_up.simps [of P n hi] step_up.simps [of Q n hi])
  qed
qed

lemma step_up_upper: "P hi' \<Longrightarrow> n \<le> hi' \<Longrightarrow> hi' \<le> hi \<Longrightarrow> step_up P n hi = step_up P n hi'"
proof (induction P n hi rule: step_up.induct)
  case (1 P n hi)
  show ?case
  proof (cases "n < hi' \<and> \<not> P n")
    case True
    then have "step_up P (Suc n) hi = step_up P (Suc n) hi'" using 1 by simp
    then show ?thesis using True "1.prems"(3) by (simp add: step_up.simps [of P n hi] step_up.simps [of P n hi'])
  next
    case False
    then have "P n" using "1.prems"(1,2) by (cases "n = hi'") auto
    then show ?thesis by (simp add: step_up.simps [of P n hi] step_up.simps [of P n hi'])
  qed
qed

lemma rope_floor_lemma:
  assumes "rope_ok r"
  shows "rope_floor_char_boundary r i = str_floor_char_boundary (rope_text r) i"
proof (cases "i < length (rope_text r)")
  case True
  then have "r \<noteq> []" by auto
  then obtain p t q k where f: "find_offset r i = (length p, Some (chunk_of t))" "rope_text r = p @ t @ q"
    "utf8 p" "utf8 t" "utf8 q" "length t \<le> MAX_BASE" "k \<le> length t" "i = length p + k"
    using find_offset_at [OF assms _ less_imp_le [OF True]] by blast
  have "char_boundary (p @ t @ q) (length p + 0)" using boundary_inside [OF f(3,4,5), of 0] by simp
  then have "back_off (char_boundary (p @ t @ q)) (length p + k) =
      length p + back_off (\<lambda>j. char_boundary (p @ t @ q) (length p + j)) k"
    by (intro back_off_shift) simp
  also have "back_off (\<lambda>j. char_boundary (p @ t @ q) (length p + j)) k = back_off (char_boundary t) k"
    using f(7) boundary_inside [OF f(3,4,5)] by (intro back_off_cong) simp
  also have "\<dots> = str_floor_char_boundary t k"
    using f(7) back_off_fixed [of "char_boundary t" "length t"]
    by (cases "k = length t") (simp_all add: str_floor_char_boundary_def)
  finally show ?thesis
    using True f(1,2,8) by (simp add: rope_floor_char_boundary_def rope_len_of [OF assms] str_floor_char_boundary_def)
qed (simp add: rope_floor_char_boundary_def rope_len_of [OF assms] str_floor_char_boundary_def)

lemma rope_ceil_lemma:
  assumes "rope_ok r"
  shows "rope_ceil_char_boundary r i = str_ceil_char_boundary (rope_text r) i"
proof (cases "i \<le> length (rope_text r) \<and> r \<noteq> []")
  case True
  then obtain p t q k where f: "find_offset r i = (length p, Some (chunk_of t))" "rope_text r = p @ t @ q"
    "utf8 p" "utf8 t" "utf8 q" "length t \<le> MAX_BASE" "k \<le> length t" "i = length p + k"
    using find_offset_at [OF assms] by blast
  let ?P = "char_boundary (p @ t @ q)"
  have "step_up ?P (length p + k) (length (p @ t @ q)) = step_up ?P (length p + k) (length p + length t)"
    using f(7) boundary_inside [OF f(3,4,5), of "length t"] by (intro step_up_upper) simp_all
  also have "\<dots> = length p + step_up (\<lambda>j. ?P (length p + j)) k (length t)" by (rule step_up_shift)
  also have "step_up (\<lambda>j. ?P (length p + j)) k (length t) = step_up (char_boundary t) k (length t)"
    using boundary_inside [OF f(3,4,5)] by (intro step_up_cong) simp
  also have "\<dots> = str_ceil_char_boundary t k"
    using f(7) by (cases "k = length t") (simp_all add: str_ceil_char_boundary_def step_up.simps [of _ "length t"])
  finally have "step_up ?P i (length (p @ t @ q)) = length p + str_ceil_char_boundary t k" by (simp only: f(8))
  moreover have "str_ceil_char_boundary (p @ t @ q) i = step_up ?P i (length (p @ t @ q))"
    using True unfolding f(2) by (auto simp: str_ceil_char_boundary_def step_up.simps [of _ i])
  ultimately show ?thesis
    using True f(1,2,8) by (simp add: rope_ceil_char_boundary_def rope_len_of [OF assms])
next
  case False
  then show ?thesis
    using rope_len_of [OF assms]
    by (cases "r = []") (auto simp: rope_ceil_char_boundary_def str_ceil_char_boundary_def find_offset_def)
qed

text \<open>Clipping a UTF-16 offset goes to the nearest boundary of the whole text.\<close>

lemma utf16_at_append:
  assumes "utf8 p"
  shows "utf16_at (p @ t) (length p + k) = ones (utf16_flags p) + utf16_at t k"
    "k \<le> length p \<Longrightarrow> utf16_at (p @ t) k = utf16_at p k"
  by (simp_all add: utf16_at_def utf16_flags_append [OF assms])

lemma utf16_at_end [simp]: "utf16_at t (length t) = ones (utf16_flags t)"
  by (simp add: utf16_at_def)

lemma rope_clip_offset_utf16_lemma:
  assumes "rope_ok r"
  shows "clipped_utf16 (rope_text r) target b (rope_clip_offset_utf16 r target b)"
proof -
  let ?T = "rope_text r" and ?P = "\<lambda>t. target < ts_len_utf16 (text_summary_from t)"
  have T: "utf8 ?T" using rope_text_utf8 [OF assms] .
  have find: "rope_find ts_len_utf16 (+) (\<lambda>stop. target < stop) 0 r =
      (case rope_locate ?P [] r of Some (p, c) \<Rightarrow> (ts_len_utf16 (text_summary_from p), Some c)
       | None \<Rightarrow> (ts_len_utf16 (text_summary_from ?T), None))"
    using rope_find_locate [of ts_len_utf16 "(+)" r "\<lambda>stop. target < stop" "[]"] assms
    by (simp add: text_summary_Nil ts_zero_def cong: option.case_cong)
  have most: "utf16_at ?T off \<le> utf16_at ?T (length ?T)" if "char_boundary ?T off" for off
    using that by (intro utf16_at_mono char_boundary_le)
  show ?thesis
  proof (cases "rope_locate ?P [] r")
    case None
    then have "\<not> ?P ?T" using rope_locate_None [of ?P "[]" r] by (cases "r = []") (simp_all add: text_summary_Nil ts_zero_def)
    then have past: "utf16_at ?T (length ?T) \<le> target" by (simp add: measure_simps [OF T])
    have u: "rope_clip_offset_utf16 r target b = utf16_at ?T (length ?T)"
      by (simp add: rope_clip_offset_utf16_def find None rope_summary_of [OF assms] measure_simps [OF T])
    have "utf16_at ?T (length ?T) \<le> utf16_at ?T off" if "target \<le> utf16_at ?T off" for off
      using past that by (rule order_trans)
    then show ?thesis
      unfolding clipped_utf16_def u using past most
      by (intro conjI exI [of _ "length ?T"]) (simp_all split: bias.split)
  next
    case (Some pc)
    then obtain p c where pc: "rope_locate ?P [] r = Some (p, c)" by (cases pc) auto
    obtain q where q: "?T = p @ c_text c @ q" "?P (p @ c_text c)" "chunk_ok c" "utf8 p" "utf8 q" "p \<noteq> [] \<longrightarrow> \<not> ?P p"
      using rope_locate_Some [OF pc assms] by auto
    obtain t where t: "c = chunk_of t" "utf8 t" "length t \<le> MAX_BASE" using q(3) by (rule chunk_okE)
    define v where "v = chunk_clip_offset_utf16 c (target - ones (utf16_flags p)) b"
    have before: "ones (utf16_flags p) \<le> target"
      using q(6) by (cases "p = []") (simp_all add: measure_simps [OF q(4)] utf16_flags_def)
    have within: "target < ones (utf16_flags p) + ones (utf16_flags t)"
      using q(2,4) t by (simp add: measure_simps utf8_append utf16_flags_append)
    have result: "rope_clip_offset_utf16 r target b = ones (utf16_flags p) + v"
      by (simp add: rope_clip_offset_utf16_def find pc measure_simps [OF q(4)] v_def)
    have chunk: "clipped_utf16 t (target - ones (utf16_flags p)) b v"
      using clip_offset_utf16_lemma [OF t(2,3)] by (simp add: v_def t(1))
    then obtain off where off: "char_boundary t off" "v = utf16_at t off" by (auto simp: clipped_utf16_def)
    have T': "?T = p @ t @ q" using q(1) t(1) by simp
    have split: "utf16_at ?T (length p + k) = ones (utf16_flags p) + utf16_at t k" if "k \<le> length t" for k
      unfolding T' using that utf16_at_append(1) [OF q(4), of "t @ q"] utf16_at_append(2) [OF t(2)] by simp
    have exists: "\<exists>off. char_boundary ?T off \<and> ones (utf16_flags p) + v = utf16_at ?T off"
      using off char_boundary_le [OF off(1)] split [of off] boundary_inside [OF q(4) t(2) q(5), of off]
      by (intro exI [of _ "length p + off"]) (simp add: T')
    have low: "utf16_at ?T k < ones (utf16_flags p)" if "char_boundary ?T k" "k < length p" for k
      using utf16_at_less [OF T that] that(2) split [of 0] by (simp add: T' utf16_at_def)
    have high: "ones (utf16_flags p) + ones (utf16_flags t) \<le> utf16_at ?T k" if "length p + length t < k" for k
      using utf16_at_mono [of "length p + length t" k ?T] that split [of "length t"] by simp
    have mid: "\<exists>j \<le> length t. k = length p + j \<and> char_boundary t j"
      if "char_boundary ?T k" "\<not> k < length p" "\<not> length p + length t < k" for k
      using that boundary_inside [OF q(4) t(2) q(5), of "k - length p"]
      by (intro exI [of _ "k - length p"]) (simp add: T')
    show ?thesis
    proof (cases b)
      case Left
      then have v: "v \<le> target - ones (utf16_flags p)"
        "\<And>j. char_boundary t j \<Longrightarrow> utf16_at t j \<le> target - ones (utf16_flags p) \<Longrightarrow> utf16_at t j \<le> v"
        using chunk by (simp_all add: clipped_utf16_def)
      have "utf16_at ?T k \<le> ones (utf16_flags p) + v" if k: "char_boundary ?T k" "utf16_at ?T k \<le> target" for k
      proof -
        consider "k < length p" | "length p + length t < k" | "\<not> k < length p" "\<not> length p + length t < k" by linarith
        then show ?thesis
        proof cases
          case 3
          then obtain j where "j \<le> length t" "k = length p + j" "char_boundary t j" using mid [OF k(1)] by blast
          then show ?thesis using v(2) [of j] split [of j] k(2) by simp
        qed (use low [OF k(1)] high [of k] within k(2) in linarith)+
      qed
      moreover have "ones (utf16_flags p) + v \<le> target" using v(1) before by linarith
      ultimately show ?thesis using exists by (simp add: clipped_utf16_def result [unfolded Left] Left)
    next
      case Right
      then have v: "min (target - ones (utf16_flags p)) (utf16_at t (length t)) \<le> v"
        "\<And>j. char_boundary t j \<Longrightarrow> target - ones (utf16_flags p) \<le> utf16_at t j \<Longrightarrow> v \<le> utf16_at t j"
        using chunk by (simp_all add: clipped_utf16_def)
      have "v \<le> utf16_at t (length t)" unfolding off(2) using char_boundary_le [OF off(1)] by (rule utf16_at_mono)
      then have top: "v \<le> ones (utf16_flags t)" by simp
      have "ones (utf16_flags p) + v \<le> utf16_at ?T k" if k: "char_boundary ?T k" "target \<le> utf16_at ?T k" for k
      proof -
        consider "k < length p" | "length p + length t < k" | "\<not> k < length p" "\<not> length p + length t < k" by linarith
        then show ?thesis
        proof cases
          case 3
          then obtain j where "j \<le> length t" "k = length p + j" "char_boundary t j" using mid [OF k(1)] by blast
          then show ?thesis using v(2) [of j] split [of j] k(2) by simp
        qed (use low [OF k(1)] high [of k] before top k(2) in linarith)+
      qed
      moreover have "target \<le> ones (utf16_flags p) + v" using v(1) within before by simp
      ultimately show ?thesis using exists by (simp add: clipped_utf16_def result [unfolded Right] Right)
    qed
  qed
qed

subsection \<open>The cursor\<close>

text \<open>
  The cursor over the chunks by their lengths: the chunks before it and the chunks from its item on.
  \<open>chunks.start()\<close> is the length of the chunks before, \<open>chunks.end()\<close> adds the item.
\<close>

record rope_cursor =
  cu_before :: rope
  cu_after :: rope
  cu_offset :: nat

definition cu_start :: "rope_cursor \<Rightarrow> nat" where
  "cu_start u = sum_list (map chunk_len (cu_before u))"

definition cu_end :: "rope_cursor \<Rightarrow> nat" where
  "cu_end u = (case cu_after u of [] \<Rightarrow> cu_start u | c # _ \<Rightarrow> cu_start u + chunk_len c)"

definition cu_rope :: "rope_cursor \<Rightarrow> rope" where
  "cu_rope u = cu_before u @ cu_after u"

text \<open>\<open>seek\<close> with \<open>Bias::Right\<close> passes the chunks that end at or before the target, and gives them.\<close>

fun chunks_until :: "nat \<Rightarrow> nat \<Rightarrow> rope \<Rightarrow> rope \<times> rope" where
  "chunks_until start target [] = ([], [])"
| "chunks_until start target (c # r) =
     (if start + chunk_len c \<le> target
      then (case chunks_until (start + chunk_len c) target r of (passed, rest) \<Rightarrow> (c # passed, rest))
      else ([], c # r))"

definition cu_seek :: "rope_cursor \<Rightarrow> nat \<Rightarrow> rope_cursor" where
  "cu_seek u target =
     (case chunks_until (cu_start u) target (cu_after u) of (passed, rest) \<Rightarrow>
        u\<lparr>cu_before := cu_before u @ passed, cu_after := rest\<rparr>)"

definition cu_next :: "rope_cursor \<Rightarrow> rope_cursor" where
  "cu_next u = (case cu_after u of [] \<Rightarrow> u | c # r \<Rightarrow> u\<lparr>cu_before := cu_before u @ [c], cu_after := r\<rparr>)"

definition cursor_new :: "rope \<Rightarrow> nat \<Rightarrow> rope_cursor" where
  "cursor_new r offset = cu_seek \<lparr>cu_before = [], cu_after = r, cu_offset = offset\<rparr> offset"

definition seek_forward :: "rope_cursor \<Rightarrow> nat \<Rightarrow> rope_cursor option" where
  "seek_forward u end_offset =
     (if end_offset < cu_offset u \<or> end_offset > rope_len (cu_rope u) then None
      else Some ((cu_seek u end_offset)\<lparr>cu_offset := end_offset\<rparr>))"

definition slice_start :: "rope_cursor \<Rightarrow> nat \<Rightarrow> rope option" where
  "slice_start u end_offset =
     (case cu_after u of
        [] \<Rightarrow> Some []
      | c # _ \<Rightarrow>
          Option.bind (chunk_slice c (cu_offset u - cu_start u) (min end_offset (cu_end u) - cu_start u)) (push_chunk []))"

text \<open>The whole chunks behind the first, and the start of the chunk with the end.\<close>

definition slice_rest :: "rope_cursor \<Rightarrow> nat \<Rightarrow> rope \<Rightarrow> (rope \<times> rope_cursor) option" where
  "slice_rest u end_offset s =
     (let u = cu_next u; v = cu_seek u end_offset; passed = drop (length (cu_before u)) (cu_before v)
      in Option.bind (rope_append s passed) (\<lambda>s.
        case cu_after v of
          [] \<Rightarrow> Some (s, v)
        | c # _ \<Rightarrow>
            map_option (\<lambda>s. (s, v)) (Option.bind (chunk_slice c 0 (end_offset - cu_start v)) (push_chunk s))))"

definition cursor_slice :: "rope_cursor \<Rightarrow> nat \<Rightarrow> (rope \<times> rope_cursor) option" where
  "cursor_slice u end_offset =
     (if end_offset < cu_offset u \<or> end_offset > rope_len (cu_rope u) then None
      else Option.bind (slice_start u end_offset) (\<lambda>s.
        map_option (\<lambda>(s, v). (s, v\<lparr>cu_offset := end_offset\<rparr>))
          (if end_offset > cu_end u then slice_rest u end_offset s else Some (s, u))))"

definition cursor_suffix :: "rope_cursor \<Rightarrow> rope option" where
  "cursor_suffix u = map_option fst (cursor_slice u (rope_len (cu_rope u)))"

definition rope_slice :: "rope \<Rightarrow> nat \<Rightarrow> nat \<Rightarrow> rope option" where
  "rope_slice r a b = Option.bind (seek_forward (cursor_new r 0) a) (\<lambda>u. map_option fst (cursor_slice u b))"

definition rope_slice_rows :: "rope \<Rightarrow> nat \<Rightarrow> nat \<Rightarrow> rope option" where
  "rope_slice_rows r a b =
     Option.bind (rope_point_to_offset r (new_point a 0)) (\<lambda>start.
     Option.bind (rope_point_to_offset r (new_point b 0)) (rope_slice r start))"

definition rope_replace :: "rope \<Rightarrow> nat \<Rightarrow> nat \<Rightarrow> string \<Rightarrow> rope option" where
  "rope_replace r a b t =
     Option.bind (cursor_slice (cursor_new r 0) a) (\<lambda>(prefix, u).
     Option.bind (rope_append [] prefix) (\<lambda>s.
     Option.bind (seek_forward u b) (\<lambda>u.
     Option.bind (rope_push s t) (\<lambda>s.
     Option.bind (cursor_suffix u) (rope_append s)))))"

text \<open>\<open>Cursor::summary\<close>: the measure of a range, whole chunks by their summaries.\<close>

definition cursor_summary ::
  "(text_summary \<Rightarrow> 'd) \<Rightarrow> ('d \<Rightarrow> 'd \<Rightarrow> 'd) \<Rightarrow> 'd \<Rightarrow> rope_cursor \<Rightarrow> nat \<Rightarrow> 'd option" where
  "cursor_summary m add zero u end_offset =
     (if end_offset < cu_offset u \<or> end_offset > rope_len (cu_rope u) then None
      else Option.bind
        (case cu_after u of
           [] \<Rightarrow> Some zero
         | c # _ \<Rightarrow>
             map_option (\<lambda>c. add zero (m (chunk_text_summary c)))
               (chunk_slice c (cu_offset u - cu_start u) (min end_offset (cu_end u) - cu_start u)))
        (\<lambda>d. if end_offset > cu_end u
             then let u = cu_next u; v = cu_seek u end_offset; passed = drop (length (cu_before u)) (cu_before v);
                      d = add d (foldl (\<lambda>d c. add d (m (chunk_text_summary c))) zero passed)
                  in (case cu_after v of
                        [] \<Rightarrow> Some d
                      | c # _ \<Rightarrow> map_option (\<lambda>c. add d (m (chunk_text_summary c))) (chunk_slice c 0 (end_offset - cu_start v)))
             else Some d))"

subsection \<open>Cursors cut texts\<close>

lemma sum_chunk_len: "sum_list (map chunk_len r) = length (rope_text r)"
  by (induction r) (simp_all add: chunk_len_def)

lemma cu_start_text: "cu_start u = length (rope_text (cu_before u))"
  by (simp add: cu_start_def sum_chunk_len)

text \<open>The cursor stands in, or at the end of, the chunk it is on.\<close>

definition cu_ok :: "rope \<Rightarrow> rope_cursor \<Rightarrow> bool" where
  "cu_ok r u \<longleftrightarrow> cu_rope u = r \<and> cu_start u \<le> cu_offset u \<and> cu_offset u \<le> cu_end u"

lemma chunks_until_lemma:
  assumes "chunks_until start target r = (passed, rest)" "start \<le> target"
  shows "r = passed @ rest \<and> start + length (rope_text passed) \<le> target \<and>
    (rest \<noteq> [] \<longrightarrow> target < start + length (rope_text passed) + chunk_len (hd rest))"
  using assms
proof (induction r arbitrary: start passed)
  case (Cons c r)
  show ?case
  proof (cases "start + chunk_len c \<le> target")
    case True
    then obtain p where p: "chunks_until (start + chunk_len c) target r = (p, rest)" "passed = c # p"
      using Cons.prems(1) by (auto split: prod.splits)
    then show ?thesis using Cons.IH [OF p(1) True] by (simp add: chunk_len_def add.assoc)
  qed (use Cons.prems in auto)
qed simp

lemma cu_seek_lemma:
  assumes "cu_start u \<le> target"
  shows "\<exists>passed rest. cu_seek u target = u\<lparr>cu_before := cu_before u @ passed, cu_after := rest\<rparr> \<and>
    cu_after u = passed @ rest \<and> cu_start u + length (rope_text passed) \<le> target \<and>
    (rest \<noteq> [] \<longrightarrow> target < cu_start u + length (rope_text passed) + chunk_len (hd rest))"
proof -
  obtain passed rest where e: "chunks_until (cu_start u) target (cu_after u) = (passed, rest)" by fastforce
  then have "cu_seek u target = u\<lparr>cu_before := cu_before u @ passed, cu_after := rest\<rparr>" by (simp add: cu_seek_def)
  then show ?thesis using chunks_until_lemma [OF e assms] by blast
qed

lemma cu_seek_ok:
  assumes "cu_rope u = r" "cu_start u \<le> target" "target \<le> length (rope_text r)"
  shows "cu_ok r ((cu_seek u target)\<lparr>cu_offset := target\<rparr>)"
proof -
  obtain passed rest where s: "cu_seek u target = u\<lparr>cu_before := cu_before u @ passed, cu_after := rest\<rparr>"
    "cu_after u = passed @ rest" "cu_start u + length (rope_text passed) \<le> target"
    "rest \<noteq> [] \<longrightarrow> target < cu_start u + length (rope_text passed) + chunk_len (hd rest)"
    using cu_seek_lemma [OF assms(2)] by blast
  have "length (rope_text r) = cu_start u + length (rope_text passed) + length (rope_text rest)"
    using assms(1) s(2) by (auto simp: cu_rope_def cu_start_text)
  then show ?thesis
    using s assms by (cases rest) (auto simp: cu_ok_def cu_rope_def cu_end_def cu_start_text)
qed

lemma cursor_new_ok: "off \<le> length (rope_text r) \<Longrightarrow> cu_ok r (cursor_new r off) \<and> cu_offset (cursor_new r off) = off"
proof -
  assume off: "off \<le> length (rope_text r)"
  let ?u = "\<lparr>cu_before = [], cu_after = r, cu_offset = off\<rparr>"
  have "cu_ok r ((cu_seek ?u off)\<lparr>cu_offset := off\<rparr>)"
    using off by (intro cu_seek_ok) (simp_all add: cu_rope_def cu_start_def)
  moreover have "(cu_seek ?u off)\<lparr>cu_offset := off\<rparr> = cu_seek ?u off" "cu_offset (cu_seek ?u off) = off"
    by (simp_all add: cu_seek_def split: prod.split)
  ultimately show ?thesis by (simp add: cursor_new_def)
qed

lemma seek_forward_ok:
  assumes "rope_ok r" "cu_ok r u" "cu_offset u \<le> target" "target \<le> length (rope_text r)"
  shows "\<exists>v. seek_forward u target = Some v \<and> cu_ok r v \<and> cu_offset v = target"
  using assms cu_seek_ok [of u r target] rope_len_of [OF assms(1)]
  by (auto simp: seek_forward_def cu_ok_def)

lemma check_invariants_part: "check_invariants (a @ b @ c) \<Longrightarrow> check_invariants b"
  by (auto simp: check_invariants_append check_invariants_def list_all_iff butlast_append dest: in_set_butlastD split: if_splits)

lemma push_chunk_is:
  assumes "rope_is s a" "utf8 b" "length b \<le> MAX_BASE"
  shows "\<exists>v. push_chunk s (chunk_of b) = Some v \<and> rope_is v (a @ b)"
  using push_chunk_lemma [OF _ _ assms(2,3), of s] assms(1) by (auto simp: rope_is_def)

lemma rope_is_Nil [simp]: "rope_is [] []"
  by (simp add: rope_is_def)

lemma slice_first_part:
  assumes "rope_ok r" "cu_ok r u" "cu_after u = chunk_of t # rest" "char_boundary (rope_text r) (cu_offset u)"
    "char_boundary (rope_text r) e" "cu_offset u \<le> e"
  shows "chunk_slice (chunk_of t) (cu_offset u - cu_start u) (min e (cu_end u) - cu_start u) =
    Some (chunk_of (take (min e (cu_end u) - cu_offset u) (drop (cu_offset u) (rope_text r))))"
    "utf8 (take (min e (cu_end u) - cu_offset u) (drop (cu_offset u) (rope_text r)))"
    "length (take (min e (cu_end u) - cu_offset u) (drop (cu_offset u) (rope_text r))) \<le> MAX_BASE"
proof -
  let ?b = "rope_text (cu_before u)"
  have T: "rope_text r = ?b @ t @ rope_text rest" using assms(2,3) by (auto simp: cu_ok_def cu_rope_def)
  have ok: "rope_ok (cu_before u)" "utf8 t" "length t \<le> MAX_BASE" "rope_ok rest"
    using assms(1-3) by (auto simp: cu_ok_def cu_rope_def)
  note utf8s = rope_text_utf8 [OF ok(1)] ok(2) rope_text_utf8 [OF ok(4)]
  define i where "i = cu_offset u - length ?b"
  define j where "j = min e (cu_end u) - length ?b"
  have fin: "cu_end u = length ?b + length t" using assms(3) by (simp add: cu_end_def cu_start_text chunk_len_def)
  have off: "cu_offset u = length ?b + i" "i \<le> length t"
    using assms(2) fin by (simp_all add: cu_ok_def cu_start_text i_def le_diff_conv)
  have stop: "min e (cu_end u) = length ?b + j" "i \<le> j" "j \<le> length t"
  proof -
    have "length ?b \<le> min e (cu_end u)" using assms(6) off(1) fin by simp
    then show m: "min e (cu_end u) = length ?b + j" unfolding j_def by (rule le_add_diff_inverse [symmetric])
    have "length ?b + i \<le> min e (cu_end u)" "min e (cu_end u) \<le> length ?b + length t"
      using assms(6) off fin by simp_all
    then show "i \<le> j" "j \<le> length t" unfolding m by simp_all
  qed
  have i: "char_boundary t i" using assms(4) boundary_inside [OF utf8s off(2)] by (simp add: T off(1))
  have j: "char_boundary t j"
  proof (cases "e \<le> cu_end u")
    case True
    then have "e = length ?b + j" using stop(1) by simp
    then show ?thesis using assms(5) boundary_inside [OF utf8s stop(3)] by (simp add: T)
  next
    case False
    then have "j = length t" using fin by (simp add: j_def)
    then show ?thesis by simp
  qed
  have part: "take (min e (cu_end u) - cu_offset u) (drop (cu_offset u) (rope_text r)) = take (j - i) (drop i t)"
    using off stop by (simp add: T)
  show "chunk_slice (chunk_of t) (cu_offset u - cu_start u) (min e (cu_end u) - cu_start u) =
      Some (chunk_of (take (min e (cu_end u) - cu_offset u) (drop (cu_offset u) (rope_text r))))"
    using slice_of [OF ok(2,3) stop(2) i j] unfolding part cu_start_text i_def [symmetric] j_def [symmetric] .
  show "utf8 (take (min e (cu_end u) - cu_offset u) (drop (cu_offset u) (rope_text r)))"
    unfolding part using i j stop(2) ok(2) by (intro utf8_take_drop char_boundary_drop)
  show "length (take (min e (cu_end u) - cu_offset u) (drop (cu_offset u) (rope_text r))) \<le> MAX_BASE"
    unfolding part using ok(3) by simp
qed

lemma slice_start_is:
  assumes "rope_ok r" "cu_ok r u" "cu_after u = chunk_of t # rest" "char_boundary (rope_text r) (cu_offset u)"
    "char_boundary (rope_text r) e" "cu_offset u \<le> e"
  shows "\<exists>s. slice_start u e = Some s \<and>
    rope_is s (take (min e (cu_end u) - cu_offset u) (drop (cu_offset u) (rope_text r)))"
  using slice_first_part [OF assms] push_chunk_is [OF rope_is_Nil slice_first_part(2,3) [OF assms]]
  by (simp add: slice_start_def assms(3))

text \<open>Behind the chunk of the cursor: the whole chunks that are passed, and the part of the chunk with the end.\<close>

definition passed_chunks :: "rope_cursor \<Rightarrow> nat \<Rightarrow> rope" where
  "passed_chunks u e = drop (length (cu_before u)) (cu_before (cu_seek u e))"

lemma cu_rest:
  assumes r: "rope_ok r" "cu_ok r u" "cu_after u = c # rest" and e: "char_boundary (rope_text r) e" "cu_end u < e"
  obtains a passed tail where "r = a @ passed @ tail" "passed_chunks (cu_next u) e = passed"
    "cu_after (cu_seek (cu_next u) e) = tail" "cu_ok r ((cu_seek (cu_next u) e)\<lparr>cu_offset := e\<rparr>)"
    "tail = [] \<Longrightarrow> take (e - cu_end u) (drop (cu_end u) (rope_text r)) = rope_text passed"
    "tail \<noteq> [] \<Longrightarrow> \<exists>y. chunk_slice (hd tail) 0 (e - cu_start (cu_seek (cu_next u) e)) = Some (chunk_of y) \<and> utf8 y \<and>
      length y \<le> MAX_BASE \<and> take (e - cu_end u) (drop (cu_end u) (rope_text r)) = rope_text passed @ y"
proof -
  let ?n = "cu_next u"
  have n: "cu_before ?n = cu_before u @ [c]" "cu_after ?n = rest" using r(3) by (simp_all add: cu_next_def)
  have fin: "cu_start ?n = cu_end u" using r(3) n(1) by (simp add: cu_end_def cu_start_text chunk_len_def)
  have whole: "cu_rope ?n = r" using r(2,3) n by (simp add: cu_ok_def cu_rope_def)
  obtain passed tail where k: "cu_seek ?n e = ?n\<lparr>cu_before := cu_before ?n @ passed, cu_after := tail\<rparr>"
    "rest = passed @ tail" "cu_end u + length (rope_text passed) \<le> e"
    "tail \<noteq> [] \<longrightarrow> e < cu_end u + length (rope_text passed) + chunk_len (hd tail)"
    using cu_seek_lemma [of ?n e] e(2) fin n(2) by auto
  have parts: "r = (cu_before u @ [c]) @ passed @ tail" using whole n k(2) by (simp add: cu_rope_def)
  have ok: "rope_ok (cu_before u @ [c])" "rope_ok passed" "rope_ok tail"
    using r(1) unfolding parts rope_ok_simps by simp_all
  define B where "B = rope_text (cu_before u @ [c])"
  have B: "length B = cu_end u" unfolding B_def using fin n(1) by (simp add: cu_start_text)
  have T: "rope_text r = B @ rope_text passed @ rope_text tail" unfolding parts B_def by simp
  have e_le: "e \<le> length (rope_text r)" using e(1) by (rule char_boundary_le)
  show thesis
  proof (rule that [OF parts])
    show "passed_chunks ?n e = passed" by (simp add: passed_chunks_def k(1))
    show "cu_after (cu_seek ?n e) = tail" by (simp add: k(1))
    show "cu_ok r ((cu_seek ?n e)\<lparr>cu_offset := e\<rparr>)"
      using e(2) fin by (intro cu_seek_ok [OF whole _ e_le]) simp
    show "take (e - cu_end u) (drop (cu_end u) (rope_text r)) = rope_text passed" if "tail = []"
      using that B k(3) by (simp add: T)
    assume "tail \<noteq> []"
    then obtain d tail' where tail: "tail = d # tail'" by (cases tail) auto
    then obtain w where w: "d = chunk_of w" "utf8 w" "length w \<le> MAX_BASE" using ok(3) by (auto elim!: chunk_okE)
    define j where "j = e - (cu_end u + length (rope_text passed))"
    have j: "e = length (B @ rope_text passed) + j" "j \<le> length w"
      using k(3,4) tail w(1) B by (auto simp: j_def chunk_len_def)
    have "utf8 B" unfolding B_def by (rule rope_text_utf8 [OF ok(1)])
    then have utf8s: "utf8 (B @ rope_text passed)" "utf8 w" "utf8 (rope_text tail')"
      using utf8_append rope_text_utf8 [OF ok(2)] w(2) rope_text_utf8 [of tail'] ok(3) tail by simp_all
    have at: "char_boundary w j"
      using e(1) boundary_inside [OF utf8s j(2)] tail w(1) j(1) by (simp add: T)
    have "e - cu_start (cu_seek ?n e) = j" using fin by (simp add: k(1) cu_start_text j_def)
    moreover have "chunk_slice (chunk_of w) 0 j = Some (chunk_of (take j w))" using slice_of [OF w(2,3), of 0 j] at by simp
    moreover have "take (e - cu_end u) (drop (cu_end u) (rope_text r)) = rope_text passed @ take j w"
      using B j tail w(1) by (simp add: T)
    ultimately show "\<exists>y. chunk_slice (hd tail) 0 (e - cu_start (cu_seek ?n e)) = Some (chunk_of y) \<and> utf8 y \<and>
      length y \<le> MAX_BASE \<and> take (e - cu_end u) (drop (cu_end u) (rope_text r)) = rope_text passed @ y"
      using utf8_take_drop(1) [OF w(2) at] w(3) tail w(1) by (intro exI [of _ "take j w"]) simp
  qed
qed

lemma slice_rest_is:
  assumes r: "rope_ok r" "check_invariants r" "cu_ok r u" "cu_after u = c # rest" and s: "rope_is s a"
    and e: "char_boundary (rope_text r) e" "cu_end u < e"
  shows "\<exists>s' v. slice_rest u e s = Some (s', v) \<and> rope_is s' (a @ take (e - cu_end u) (drop (cu_end u) (rope_text r))) \<and>
    cu_ok r (v\<lparr>cu_offset := e\<rparr>)"
proof -
  obtain b passed tail where k: "r = b @ passed @ tail" "passed_chunks (cu_next u) e = passed"
    "cu_after (cu_seek (cu_next u) e) = tail" "cu_ok r ((cu_seek (cu_next u) e)\<lparr>cu_offset := e\<rparr>)"
    "tail = [] \<Longrightarrow> take (e - cu_end u) (drop (cu_end u) (rope_text r)) = rope_text passed"
    "tail \<noteq> [] \<Longrightarrow> \<exists>y. chunk_slice (hd tail) 0 (e - cu_start (cu_seek (cu_next u) e)) = Some (chunk_of y) \<and> utf8 y \<and>
      length y \<le> MAX_BASE \<and> take (e - cu_end u) (drop (cu_end u) (rope_text r)) = rope_text passed @ y"
    using cu_rest [OF r(1,3,4) e] by metis
  have "rope_is passed (rope_text passed)"
    using r(1,2) check_invariants_part [of b passed tail] by (simp add: k(1) rope_is_def)
  then obtain m where m: "rope_append s passed = Some m" "rope_is m (a @ rope_text passed)"
    using rope_append_lemma [OF s] by blast
  show ?thesis
  proof (cases tail)
    case Nil
    then show ?thesis using k(2-5) m by (simp add: slice_rest_def Let_def passed_chunks_def)
  next
    case (Cons d tail')
    then obtain y where y: "chunk_slice d 0 (e - cu_start (cu_seek (cu_next u) e)) = Some (chunk_of y)" "utf8 y"
      "length y \<le> MAX_BASE" "take (e - cu_end u) (drop (cu_end u) (rope_text r)) = rope_text passed @ y"
      using k(6) by auto
    obtain s' where "push_chunk m (chunk_of y) = Some s'" "rope_is s' ((a @ rope_text passed) @ y)"
      using push_chunk_is [OF m(2) y(2,3)] by blast
    then show ?thesis using k(2-4) Cons m(1) y by (simp add: slice_rest_def Let_def passed_chunks_def)
  qed
qed

lemma cursor_slice_lemma:
  assumes r: "rope_is r T" "cu_ok r u" and b: "char_boundary T (cu_offset u)" "char_boundary T e" "cu_offset u \<le> e"
  shows "\<exists>s v. cursor_slice u e = Some (s, v) \<and> rope_is s (take (e - cu_offset u) (drop (cu_offset u) T)) \<and>
    cu_ok r v \<and> cu_offset v = e"
proof -
  have ok: "rope_ok r" "check_invariants r" "rope_text r = T" using r(1) by (simp_all add: rope_is_def)
  have whole: "cu_rope u = r" using r(2) by (simp add: cu_ok_def)
  have e: "e \<le> length T" using b(2) by (rule char_boundary_le)
  have guard: "\<not> (e < cu_offset u \<or> e > rope_len (cu_rope u))"
    using b(3) e by (simp add: whole rope_len_of [OF ok(1)] ok(3))
  show ?thesis
  proof (cases "cu_after u")
    case Nil
    then have "cu_start u = length T" "cu_end u = length T"
      using whole ok(3) by (auto simp: cu_rope_def cu_start_text cu_end_def)
    then have off: "cu_offset u = length T" "e = length T" using r(2) b(3) e by (simp_all add: cu_ok_def)
    then have "cursor_slice u e = Some ([], u\<lparr>cu_offset := e\<rparr>)"
      using guard Nil \<open>cu_end u = length T\<close> by (simp add: cursor_slice_def slice_start_def)
    then show ?thesis using off r(2) Nil by (auto simp: cu_ok_def cu_rope_def cu_start_text cu_end_def)
  next
    case (Cons c rest)
    then have "chunk_ok c" using whole ok(1) by (auto simp: cu_rope_def)
    then obtain t where t: "c = chunk_of t" by (auto elim!: chunk_okE)
    obtain s where s: "slice_start u e = Some s" "rope_is s (take (min e (cu_end u) - cu_offset u) (drop (cu_offset u) T))"
      using slice_start_is [OF ok(1) r(2) Cons [unfolded t]] b by (auto simp: ok(3))
    show ?thesis
    proof (cases "cu_end u < e")
      case False
      then have "cursor_slice u e = Some (s, u\<lparr>cu_offset := e\<rparr>)" using guard s(1) by (simp add: cursor_slice_def)
      moreover have "cu_ok r (u\<lparr>cu_offset := e\<rparr>)"
        using r(2) b(3) False by (auto simp: cu_ok_def cu_rope_def cu_start_text cu_end_def split: list.splits)
      moreover have "min e (cu_end u) = e" using False by simp
      ultimately show ?thesis using s(2) by simp
    next
      case True
      obtain s' v where v: "slice_rest u e s = Some (s', v)" "cu_ok r (v\<lparr>cu_offset := e\<rparr>)"
        "rope_is s' (take (min e (cu_end u) - cu_offset u) (drop (cu_offset u) T) @ take (e - cu_end u) (drop (cu_end u) T))"
        using slice_rest_is [OF ok(1,2) r(2) Cons s(2) _ True] b(2) by (auto simp: ok(3))
      have "cu_offset u \<le> cu_end u" using r(2) by (simp add: cu_ok_def)
      then have "take (e - cu_offset u) (drop (cu_offset u) T) =
          take (min e (cu_end u) - cu_offset u) (drop (cu_offset u) T) @ take (e - cu_end u) (drop (cu_end u) T)"
        using True take_add [of "cu_end u - cu_offset u" "e - cu_end u" "drop (cu_offset u) T"] by simp
      then show ?thesis using guard s(1) v True by (simp add: cursor_slice_def)
    qed
  qed
qed

text \<open>Slicing and replacing are what they are on the text.\<close>

lemma rope_slice_lemma:
  assumes "rope_is r T" "char_boundary T a" "char_boundary T b" "a \<le> b"
  shows "\<exists>s. rope_slice r a b = Some s \<and> rope_is s (take (b - a) (drop a T))"
proof -
  have ok: "rope_ok r" "rope_text r = T" using assms(1) by (simp_all add: rope_is_def)
  have new: "cu_ok r (cursor_new r 0)" "cu_offset (cursor_new r 0) = 0" using cursor_new_ok [of 0 r] by simp_all
  obtain u where u: "seek_forward (cursor_new r 0) a = Some u" "cu_ok r u" "cu_offset u = a"
    using seek_forward_ok [OF ok(1) new(1), of a] new(2) char_boundary_le [OF assms(2)] ok(2) by auto
  then show ?thesis
    using cursor_slice_lemma [OF assms(1) u(2), of b] assms by (auto simp: rope_slice_def)
qed

lemma cursor_suffix_lemma:
  assumes "rope_is r T" "cu_ok r u" "char_boundary T (cu_offset u)"
  shows "\<exists>s. cursor_suffix u = Some s \<and> rope_is s (drop (cu_offset u) T)"
proof -
  have "rope_len (cu_rope u) = length T" using assms(1,2) by (simp add: cu_ok_def rope_is_def rope_len_of)
  moreover have "take (length T - cu_offset u) (drop (cu_offset u) T) = drop (cu_offset u) T" by simp
  ultimately show ?thesis
    using cursor_slice_lemma [OF assms, of "length T"] char_boundary_le [OF assms(3)] by (auto simp: cursor_suffix_def)
qed

lemma rope_replace_lemma:
  assumes "rope_is r T" "char_boundary T a" "char_boundary T b" "a \<le> b" "utf8 t"
  shows "\<exists>s. rope_replace r a b t = Some s \<and> rope_is s (take a T @ t @ drop b T)"
proof -
  have ok: "rope_ok r" "rope_text r = T" using assms(1) by (simp_all add: rope_is_def)
  have new: "cu_ok r (cursor_new r 0)" "cu_offset (cursor_new r 0) = 0" using cursor_new_ok [of 0 r] by simp_all
  obtain p u where p: "cursor_slice (cursor_new r 0) a = Some (p, u)" "rope_is p (take a T)" "cu_ok r u" "cu_offset u = a"
    using cursor_slice_lemma [OF assms(1) new(1), of a] assms(2) new(2) by auto
  obtain s where s: "rope_append [] p = Some s" "rope_is s (take a T)"
    using rope_append_lemma [OF rope_is_Nil p(2)] by auto
  obtain v where v: "seek_forward u b = Some v" "cu_ok r v" "cu_offset v = b"
    using seek_forward_ok [OF ok(1) p(3), of b] p(4) assms(4) char_boundary_le [OF assms(3)] ok(2) by auto
  obtain m where m: "rope_push s t = Some m" "rope_is m (take a T @ t)" using rope_push_lemma [OF s(2) assms(5)] by blast
  obtain z where z: "cursor_suffix v = Some z" "rope_is z (drop b T)"
    using cursor_suffix_lemma [OF assms(1) v(2)] assms(3) v(3) by auto
  show ?thesis
    using rope_append_lemma [OF m(2) z(2)] by (simp add: rope_replace_def p(1) s(1) v(1) m(1) z(1))
qed

subsection \<open>The measure of a range\<close>

context text_dimension
begin

lemma dim_sum: "rope_ok p \<Longrightarrow>
  foldl (\<lambda>d c. add_dim d (from_text_summary (chunk_text_summary c))) zero_dim p = dim (rope_text p)"
proof (induction p rule: rev_induct)
  case (snoc c p)
  then have "chunk_ok c" "utf8 (c_text c)" by (simp_all add: chunk_ok_def)
  then show ?case using snoc by (simp add: chunk_ok_summary dim_append [unfolded dim_def] dim_def)
qed (simp add: dim_Nil)

lemma dim_chunk: "utf8 t \<Longrightarrow> length t \<le> MAX_BASE \<Longrightarrow> from_text_summary (chunk_text_summary (chunk_of t)) = dim t"
  by (simp add: chunk_text_summary_of dim_def)

lemma zero_add: "add_dim zero_dim (dim t) = dim t"
  unfolding dim_def from_zero [symmetric] from_add [symmetric] by (simp add: ts_wf_from)

lemma cursor_summary_dim:
  assumes r: "rope_ok r" "cu_ok r u" and b: "char_boundary (rope_text r) (cu_offset u)" "char_boundary (rope_text r) e"
    "cu_offset u \<le> e"
  shows "cursor_summary from_text_summary add_dim zero_dim u e =
    Some (dim (take (e - cu_offset u) (drop (cu_offset u) (rope_text r))))"
proof -
  have whole: "cu_rope u = r" using r(2) by (simp add: cu_ok_def)
  have e: "e \<le> length (rope_text r)" using b(2) by (rule char_boundary_le)
  have guard: "\<not> (e < cu_offset u \<or> e > rope_len (cu_rope u))"
    using b(3) e by (simp add: whole rope_len_of [OF r(1)])
  show ?thesis
  proof (cases "cu_after u")
    case Nil
    then have "cu_end u = length (rope_text r)" "cu_offset u = length (rope_text r)"
      using whole r(2) char_boundary_le [OF b(1)] by (auto simp: cu_ok_def cu_rope_def cu_start_text cu_end_def)
    then show ?thesis using guard Nil e by (simp add: cursor_summary_def dim_Nil)
  next
    case (Cons c rest)
    then have "chunk_ok c" using whole r(1) by (auto simp: cu_rope_def)
    then obtain t where t: "c = chunk_of t" by (auto elim!: chunk_okE)
    let ?x = "take (min e (cu_end u) - cu_offset u) (drop (cu_offset u) (rope_text r))"
    note first = slice_first_part [OF r Cons [unfolded t] b]
    show ?thesis
    proof (cases "cu_end u < e")
      case False
      then have "min e (cu_end u) = e" by simp
      then show ?thesis using guard Cons first False by (simp add: cursor_summary_def t dim_chunk zero_add)
    next
      case True
      have "cu_offset u \<le> cu_end u" using r(2) by (simp add: cu_ok_def)
      then have split: "take (e - cu_offset u) (drop (cu_offset u) (rope_text r)) =
          ?x @ take (e - cu_end u) (drop (cu_end u) (rope_text r))"
        using True take_add [of "cu_end u - cu_offset u" "e - cu_end u" "drop (cu_offset u) (rope_text r)"] by simp
      obtain a passed tail where k: "r = a @ passed @ tail" "passed_chunks (cu_next u) e = passed"
        "cu_after (cu_seek (cu_next u) e) = tail"
        "tail = [] \<Longrightarrow> take (e - cu_end u) (drop (cu_end u) (rope_text r)) = rope_text passed"
        "tail \<noteq> [] \<Longrightarrow> \<exists>y. chunk_slice (hd tail) 0 (e - cu_start (cu_seek (cu_next u) e)) = Some (chunk_of y) \<and> utf8 y \<and>
          length y \<le> MAX_BASE \<and> take (e - cu_end u) (drop (cu_end u) (rope_text r)) = rope_text passed @ y"
        using cu_rest [OF r Cons b(2) True] by metis
      have passed: "rope_ok passed" using r(1) by (simp add: k(1))
      have sums: "foldl (\<lambda>d c. add_dim d (from_text_summary (chunk_text_summary c))) zero_dim passed = dim (rope_text passed)"
        "utf8 (rope_text passed)" using dim_sum [OF passed] rope_text_utf8 [OF passed] by simp_all
      show ?thesis
      proof (cases tail)
        case Nil
        then show ?thesis
          using guard Cons first True k(2-4) sums
          by (simp add: cursor_summary_def Let_def passed_chunks_def split dim_append t dim_chunk zero_add)
      next
        case tail: (Cons d tail')
        then obtain y where y: "chunk_slice d 0 (e - cu_start (cu_seek (cu_next u) e)) = Some (chunk_of y)" "utf8 y"
          "length y \<le> MAX_BASE" "take (e - cu_end u) (drop (cu_end u) (rope_text r)) = rope_text passed @ y"
          using k(5) by auto
        have "dim (?x @ rope_text passed @ y) = add_dim (add_dim (dim ?x) (dim (rope_text passed))) (dim y)"
          using dim_append [OF y(2), of "?x @ rope_text passed"] dim_append [OF sums(2), of ?x] by simp
        then show ?thesis
          using guard Cons first True k(2,3) sums tail y
          by (simp add: cursor_summary_def Let_def passed_chunks_def split t dim_chunk zero_add)
      qed
    qed
  qed
qed

end

subsection \<open>Properties\<close>

text \<open>
  C1. Replacing in a rope is replacing in its text: for a range on character boundaries and any text,
  \<open>replace\<close> never panics, its result has the text with the range replaced, and the chunks keep the
  invariant of the rope. The cursor cuts the chunks at the ends of the range and the parts are joined again.
\<close>

theorem rope_replace_correct:
  assumes "rope_is r T" "char_boundary T a" "char_boundary T b" "a \<le> b" "utf8 t"
  shows "\<exists>s. rope_replace r a b t = Some s \<and> rope_is s (take a T @ t @ drop b T)"
  by (rule rope_replace_lemma [OF assms])

lemma rope_replace_correct_witness:
  "\<exists>s. rope_replace [chunk_of ''abc''] 1 2 ''xy'' = Some s \<and> rope_is s (take 1 ''abc'' @ ''xy'' @ drop 2 ''abc'')"
  by (rule rope_replace_correct)
    (simp_all add: rope_is_def check_invariants_def MAX_BASE_def ascii_utf8 ascii_def in_bytes_def char_boundary_def)

text \<open>
  C2. Positions in a rope convert without loss: from an offset on a character boundary to a point, a
  UTF-16 offset or a UTF-16 point and back gives the offset again, across chunks, where each conversion
  finds its chunk by the summaries before it and continues in the bitmaps. Each conversion gives the
  measure of the text before the offset. Texts are under 4 GiB, since rows and columns are 32 bits wide.
\<close>

theorem rope_positions_roundtrip:
  assumes "rope_ok r" "length (rope_text r) < 2 ^ 32" "char_boundary (rope_text r) off"
  defines "s \<equiv> text_summary_from (take off (rope_text r))"
  shows "rope_offset_to_point r off = Some (ts_lines s) \<and> rope_point_to_offset r (ts_lines s) = Some off \<and>
    rope_offset_to_offset_utf16 r off = Some (ts_len_utf16 s) \<and> rope_offset_utf16_to_offset r (ts_len_utf16 s) = Some off \<and>
    rope_offset_to_point_utf16 r off = Some (ts_lines_utf16 s) \<and> rope_point_utf16_to_offset r (ts_lines_utf16 s) = Some off"
proof -
  have off: "ts_len s = off" using char_boundary_le [OF assms(3)] by (simp add: s_def text_summary_from_def)
  note at = offset_point.lookup_at [OF assms(1-3)] offset_utf16.lookup_at [OF assms(1-3)]
    offset_point_utf16.lookup_at [OF assms(1-3)] point_offset.lookup_at [OF assms(1-3)]
    utf16_offset.lookup_at [OF assms(1-3)] utf16_point_offset.lookup_at [OF assms(1-3)]
  show ?thesis
    using at [folded s_def, unfolded off]
    by (simp add: rope_offset_to_point_def rope_point_to_offset_def rope_offset_to_offset_utf16_def
        rope_offset_utf16_to_offset_def rope_offset_to_point_utf16_def rope_point_utf16_to_offset_def)
qed

lemma rope_positions_roundtrip_witness:
  "let s = text_summary_from (take 1 (rope_text [chunk_of ''ab'']))
   in rope_offset_to_point [chunk_of ''ab''] 1 = Some (ts_lines s) \<and>
    rope_point_to_offset [chunk_of ''ab''] (ts_lines s) = Some 1 \<and>
    rope_offset_to_offset_utf16 [chunk_of ''ab''] 1 = Some (ts_len_utf16 s) \<and>
    rope_offset_utf16_to_offset [chunk_of ''ab''] (ts_len_utf16 s) = Some 1 \<and>
    rope_offset_to_point_utf16 [chunk_of ''ab''] 1 = Some (ts_lines_utf16 s) \<and>
    rope_point_utf16_to_offset [chunk_of ''ab''] (ts_lines_utf16 s) = Some 1"
  unfolding Let_def
  by (rule rope_positions_roundtrip)
    (simp_all add: MAX_BASE_def ascii_utf8 ascii_def in_bytes_def char_boundary_def)

end
