(* ===== verification/StrOps.thy ===== *)
theory StrOps
  imports RustStr
begin

text \<open>
  The further standard-library string methods the program calls (case folding, whitespace,
  trimming, splitting, line iteration, replacement, decimal formatting), and the non-ASCII
  literals of the source as byte sequences. A split or trim at ASCII characters works on
  bytes: no byte of a multi-byte character is below 128.
\<close>

subsection \<open>Text constants\<close>

abbreviation nl :: char where "nl \<equiv> CHR 0x0A"
abbreviation cr :: char where "cr \<equiv> CHR 0x0D"

text \<open>A blank line, the separator of most rendered sections.\<close>

definition blank_line :: string where [text_consts]: "blank_line = [nl, nl]"

text \<open>\<open> \<cdot> \<close> (U+00B7 between spaces), and the other literals by their code points.\<close>

definition mid_dot :: string where [text_consts]:
  "mid_dot = [CHR 0x20, CHR 0xC2, CHR 0xB7, CHR 0x20]"
definition heavy_rule :: string where [text_consts]: \<comment> \<open>four times U+2501\<close>
  "heavy_rule = concat (replicate 4 [CHR 0xE2, CHR 0x94, CHR 0x81])"
definition light_rule :: string where [text_consts]: \<comment> \<open>eight times U+2500\<close>
  "light_rule = concat (replicate 8 [CHR 0xE2, CHR 0x94, CHR 0x80])"
definition ellipsis :: string where [text_consts]: \<comment> \<open>U+2026\<close>
  "ellipsis = [CHR 0xE2, CHR 0x80, CHR 0xA6]"
definition bullet :: string where [text_consts]: \<comment> \<open>U+2022\<close>
  "bullet = [CHR 0xE2, CHR 0x80, CHR 0xA2]"
definition right_arrow :: string where [text_consts]: \<comment> \<open>U+2192 between spaces\<close>
  "right_arrow = [CHR 0x20, CHR 0xE2, CHR 0x86, CHR 0x92, CHR 0x20]"
definition em_dash :: string where [text_consts]: \<comment> \<open>U+2014 between spaces\<close>
  "em_dash = [CHR 0x20, CHR 0xE2, CHR 0x80, CHR 0x94, CHR 0x20]"
definition angle_quote :: string where [text_consts]: \<comment> \<open>U+203A\<close>
  "angle_quote = [CHR 0xE2, CHR 0x80, CHR 0xBA]"

subsection \<open>ASCII case folding\<close>

definition ascii_lower :: "char \<Rightarrow> char" where
  "ascii_lower c = (if in_bytes 0x41 0x5A c then char_of ((of_char c :: nat) + 32) else c)"

definition to_ascii_lowercase :: "string \<Rightarrow> string" where
  "to_ascii_lowercase s = map ascii_lower s"

definition eq_ignore_ascii_case :: "string \<Rightarrow> string \<Rightarrow> bool" where
  "eq_ignore_ascii_case a b = (to_ascii_lowercase a = to_ascii_lowercase b)"

lemma is_cont_code: "is_cont c \<longleftrightarrow> 128 \<le> (of_char c :: nat) \<and> (of_char c :: nat) < 192"
proof (cases c)
  case (Char b0 b1 b2 b3 b4 b5 b6 b7)
  show ?thesis
    by (cases b7; cases b6)
       (auto simp: Char of_char_def horner_sum_simps of_bool_def split: if_splits)
qed

lemma of_char_ascii_lower:
  "(of_char (ascii_lower c) :: nat) =
     (if in_bytes 0x41 0x5A c then of_char c + 32 else of_char c)"
  by (auto simp: ascii_lower_def in_bytes_def)

lemma is_cont_ascii_lower [simp]: "is_cont (ascii_lower c) = is_cont c"
  by (auto simp: is_cont_code of_char_ascii_lower in_bytes_def)

lemma length_to_ascii_lowercase [simp]: "length (to_ascii_lowercase s) = length s"
  by (simp add: to_ascii_lowercase_def)

lemma char_boundary_lower [simp]: "char_boundary (to_ascii_lowercase s) i = char_boundary s i"
  by (auto simp: char_boundary_def to_ascii_lowercase_def)

lemma clean_start_lower [simp]: "clean_start (to_ascii_lowercase s) = clean_start s"
  by (cases s) (auto simp: to_ascii_lowercase_def)

subsection \<open>Whitespace, trimming, words\<close>

text \<open>\<open>char::is_whitespace\<close>: the Unicode property \<open>White_Space\<close>.\<close>

fun is_ws :: "string \<Rightarrow> bool" where
  "is_ws [a] = (in_bytes 0x09 0x0D a \<or> a = CHR 0x20)"
| "is_ws [a, b] = (a = CHR 0xC2 \<and> (b = CHR 0x85 \<or> b = CHR 0xA0))"
| "is_ws [a, b, c] =
     (a = CHR 0xE1 \<and> b = CHR 0x9A \<and> c = CHR 0x80
      \<or> a = CHR 0xE2 \<and> b = CHR 0x80 \<and>
        (in_bytes 0x80 0x8A c \<or> c = CHR 0xA8 \<or> c = CHR 0xA9 \<or> c = CHR 0xAF)
      \<or> a = CHR 0xE2 \<and> b = CHR 0x81 \<and> c = CHR 0x9F
      \<or> a = CHR 0xE3 \<and> b = CHR 0x80 \<and> c = CHR 0x80)"
| "is_ws _ = False"

text \<open>\<open>char::is_control\<close>: the general category \<open>Cc\<close>.\<close>

fun is_control :: "string \<Rightarrow> bool" where
  "is_control [a] = (in_bytes 0x00 0x1F a \<or> a = CHR 0x7F)"
| "is_control [a, b] = (a = CHR 0xC2 \<and> in_bytes 0x80 0x9F b)"
| "is_control _ = False"

definition trim_start :: "string \<Rightarrow> string" where
  "trim_start s = concat (dropWhile is_ws (chars s))"

definition trim_end :: "string \<Rightarrow> string" where
  "trim_end s = concat (rev (dropWhile is_ws (rev (chars s))))"

definition trim :: "string \<Rightarrow> string" where
  "trim s = trim_end (trim_start s)"

text \<open>\<open>trim_start_matches\<close> and \<open>trim_end_matches\<close> with a set of ASCII characters.\<close>

definition trim_start_matches :: "char set \<Rightarrow> string \<Rightarrow> string" where
  "trim_start_matches C s = dropWhile (\<lambda>c. c \<in> C) s"

definition trim_end_matches :: "char set \<Rightarrow> string \<Rightarrow> string" where
  "trim_end_matches C s = rev (dropWhile (\<lambda>c. c \<in> C) (rev s))"

text \<open>\<open>split_whitespace\<close>: the maximal runs of characters that are not whitespace.\<close>

function ws_words :: "string list \<Rightarrow> string list" where
  "ws_words gs =
     (case dropWhile is_ws gs of
        [] \<Rightarrow> []
      | h # hs \<Rightarrow>
          concat (takeWhile (\<lambda>g. \<not> is_ws g) (h # hs)) #
          ws_words (dropWhile (\<lambda>g. \<not> is_ws g) hs))"
  by pat_completeness auto
termination
proof (relation "measure length", goal_cases)
  case (2 gs h hs)
  have "length (dropWhile (\<lambda>g. \<not> is_ws g) hs) \<le> length hs"
    by (rule length_dropWhile_le)
  also have "\<dots> < length (dropWhile is_ws gs)"
    using 2 by simp
  also have "\<dots> \<le> length gs"
    by (rule length_dropWhile_le)
  finally show ?case by simp
qed simp

declare ws_words.simps [simp del]

definition split_whitespace :: "string \<Rightarrow> string list" where
  "split_whitespace s = ws_words (chars s)"

definition char_count :: "string \<Rightarrow> nat" where
  "char_count s = length (chars s)"

definition char_take :: "nat \<Rightarrow> string \<Rightarrow> string" where
  "char_take n s = concat (take n (chars s))"

subsection \<open>Splitting and lines\<close>

fun split_bytes :: "(char \<Rightarrow> bool) \<Rightarrow> string \<Rightarrow> string list" where
  "split_bytes P [] = [[]]"
| "split_bytes P (c # cs) =
     (if P c then [] # split_bytes P cs
      else (case split_bytes P cs of [] \<Rightarrow> [[c]] | w # ws \<Rightarrow> (c # w) # ws))"

function split_str :: "string \<Rightarrow> string \<Rightarrow> string list" where
  "split_str sep s =
     (case str_find s sep of
        None \<Rightarrow> [s]
      | Some i \<Rightarrow>
          if sep = [] then [s] \<comment> \<open>never called with an empty separator\<close>
          else take i s # split_str sep (drop (i + length sep) s))"
  by pat_completeness auto
termination
proof (relation "measure (length \<circ> snd)", goal_cases)
  case (2 sep s i)
  then have "match_at s sep i" using str_find_Some by blast
  from match_at_length [OF this] 2 show ?case
    by (cases sep) auto
qed simp

declare split_str.simps [simp del]

definition split_once :: "string \<Rightarrow> string \<Rightarrow> (string \<times> string) option" where
  "split_once s sep = map_option (\<lambda>i. (take i s, drop (i + length sep) s)) (str_find s sep)"

text \<open>
  \<open>str::lines\<close>: lines end with a line feed, optionally preceded by a carriage return that
  is removed with it; the last line may lack the terminator and keeps its bytes.
\<close>

definition strip_cr :: "string \<Rightarrow> string" where
  "strip_cr l = (if l \<noteq> [] \<and> last l = cr then butlast l else l)"

definition lines :: "string \<Rightarrow> string list" where
  "lines s =
     (let ps = split_bytes (\<lambda>c. c = nl) s
      in map strip_cr (butlast ps) @ (if last ps = [] then [] else [last ps]))"

text \<open>\<open>str::replace\<close> for a non-empty pattern.\<close>

function str_replace :: "string \<Rightarrow> string \<Rightarrow> string \<Rightarrow> string" where
  "str_replace p r [] = []"
| "str_replace p r (c # cs) =
     (if p \<noteq> [] \<and> prefix p (c # cs)
      then r @ str_replace p r (drop (length p) (c # cs))
      else c # str_replace p r cs)"
  by pat_completeness auto
termination
  by (relation "measure (\<lambda>(p, r, s). length s)") (auto simp: Suc_le_eq)

subsection \<open>Decimal formatting\<close>

definition digit :: "nat \<Rightarrow> char" where
  "digit n = char_of (48 + n)"

fun dec :: "nat \<Rightarrow> string" where
  "dec n = (if n < 10 then [digit n] else dec (n div 10) @ [digit (n mod 10)])"

declare dec.simps [simp del]

definition dec_int :: "int \<Rightarrow> string" where
  "dec_int i = (if i < 0 then CHR ''-'' # dec (nat (- i)) else dec (nat i))"

lemma digit_inj: "m < 10 \<Longrightarrow> n < 10 \<Longrightarrow> digit m = digit n \<longleftrightarrow> m = n"
proof -
  assume "m < 10" "n < 10"
  then have "(of_char (digit m) :: nat) = 48 + m" "(of_char (digit n) :: nat) = 48 + n"
    by (simp_all add: digit_def)
  then show ?thesis by (metis add_left_cancel)
qed

lemma dec_nonempty [simp]: "dec n \<noteq> []" "[] \<noteq> dec n"
  by (subst dec.simps, simp)+

lemma dec_inj: "dec m = dec n \<Longrightarrow> m = n"
proof (induction m arbitrary: n rule: dec.induct)
  case (1 m)
  show ?case
  proof (cases "m < 10"; cases "n < 10")
    assume "m < 10" "n < 10"
    with "1.prems" show ?thesis
      by (simp add: dec.simps [of m] dec.simps [of n] digit_inj)
  next
    assume "m < 10" "\<not> n < 10"
    with "1.prems" show ?thesis
      by (simp add: dec.simps [of m] dec.simps [of n] append_eq_Cons_conv)
  next
    assume "\<not> m < 10" "n < 10"
    with "1.prems" show ?thesis
      by (simp add: dec.simps [of m] dec.simps [of n] append_eq_Cons_conv)
  next
    assume m: "\<not> m < 10" and n: "\<not> n < 10"
    with "1.prems" have "dec (m div 10) = dec (n div 10)" "digit (m mod 10) = digit (n mod 10)"
      by (simp_all add: dec.simps [of m] dec.simps [of n])
    with "1.IH" [OF m] have "m div 10 = n div 10" "m mod 10 = n mod 10"
      by (auto simp: digit_inj)
    then show ?thesis by (metis div_mult_mod_eq)
  qed
qed

lemma dec_eq_iff [simp]: "dec m = dec n \<longleftrightarrow> m = n"
  by (auto dest: dec_inj)

subsection \<open>Well-formedness of the results\<close>

lemma utf8_chars: "utf8 s \<Longrightarrow> g \<in> set (chars s) \<Longrightarrow> utf8_char g"
  by (auto simp: utf8_def list_all_iff)

lemma utf8_concat_chars: "\<forall>g \<in> set gs. utf8_char g \<Longrightarrow> utf8 (concat gs)"
  by (auto intro: utf8_concat utf8_single)

lemma chars_concat: "\<forall>g \<in> set gs. utf8_char g \<Longrightarrow> chars (concat gs) = gs"
proof (induction gs)
  case (Cons g gs)
  then have "clean_start (concat gs)" by (auto intro: utf8_clean_start utf8_concat_chars)
  with Cons show ?case by (simp add: chars_append)
qed simp

lemma utf8_trim_start: "utf8 s \<Longrightarrow> utf8 (trim_start s)"
  unfolding trim_start_def
  by (rule utf8_concat_chars) (auto dest!: set_dropWhileD intro: utf8_chars)

lemma utf8_trim_end: "utf8 s \<Longrightarrow> utf8 (trim_end s)"
  unfolding trim_end_def
  by (rule utf8_concat_chars) (auto dest!: set_dropWhileD intro: utf8_chars)

lemma utf8_trim: "utf8 s \<Longrightarrow> utf8 (trim s)"
  by (simp add: trim_def utf8_trim_start utf8_trim_end)

lemma suffix_trim_start: "suffix (trim_start s) s"
proof -
  have "s = concat (takeWhile is_ws (chars s)) @ concat (dropWhile is_ws (chars s))"
    by (metis concat_append concat_chars takeWhile_dropWhile_id)
  then show ?thesis by (auto simp: trim_start_def suffix_def)
qed

lemma prefix_trim_end: "prefix (trim_end s) s"
proof -
  have "chars s = rev (dropWhile is_ws (rev (chars s))) @ rev (takeWhile is_ws (rev (chars s)))"
    by (metis rev_append rev_rev_ident takeWhile_dropWhile_id)
  then have "s = concat (rev (dropWhile is_ws (rev (chars s)))) @
      concat (rev (takeWhile is_ws (rev (chars s))))"
    by (metis concat_append concat_chars)
  then show ?thesis by (auto simp: trim_end_def prefix_def)
qed

lemma utf8_char_take: "utf8 s \<Longrightarrow> utf8 (char_take n s)"
  unfolding char_take_def
  by (rule utf8_concat_chars) (auto dest!: in_set_takeD intro: utf8_chars)

lemma char_count_take: "utf8 s \<Longrightarrow> char_count (char_take n s) = min (char_count s) n"
proof -
  assume "utf8 s"
  then have "chars (concat (take n (chars s))) = take n (chars s)"
    by (intro chars_concat) (auto dest!: in_set_takeD intro: utf8_chars)
  then show ?thesis by (simp add: char_count_def char_take_def)
qed

text \<open>The lead byte fixes the length of a character, so no character extends another.\<close>

lemma utf8_char_no_extension: "utf8_char g \<Longrightarrow> utf8_char (g @ x) \<Longrightarrow> x = []"
  by (cases g rule: utf8_char.cases; cases x rule: utf8_char.cases)
     (auto simp: in_bytes_def split: if_splits)

lemma utf8_induct [consumes 1, case_names Nil Char]:
  assumes "utf8 s" "P []" "\<And>g s. utf8_char g \<Longrightarrow> utf8 s \<Longrightarrow> P s \<Longrightarrow> P (g @ s)"
  shows "P s"
proof -
  have "P (concat gs)" if "\<forall>g \<in> set gs. utf8_char g" for gs
    using that
  proof (induction gs)
    case (Cons g gs)
    then show ?case using assms(3) [of g "concat gs"] by (simp add: utf8_concat_chars)
  qed (simp add: assms(2))
  from this [of "chars s"] assms(1) show ?thesis by (simp add: utf8_def list_all_iff)
qed

text \<open>What follows a well-formed beginning of a well-formed text is well-formed.\<close>

lemma utf8_rest: "utf8 c \<Longrightarrow> utf8 (c @ r) \<Longrightarrow> utf8 r"
proof (induction c rule: utf8_induct)
  case (Char g s)
  obtain b bs where g: "g = b # bs" "\<not> is_cont b" "\<forall>y \<in> set bs. is_cont y"
    using utf8_char_shape [OF Char(1)] by auto
  let ?y = "takeWhile is_cont (s @ r)"
  have "utf8_char (g @ ?y)"
    using Char.prems g by (simp add: utf8_def takeWhile_append2)
  then have "?y = []" using utf8_char_no_extension Char(1) by blast
  then have "clean_start (s @ r)" by (cases "s @ r") auto
  then have "utf8 (s @ r)" using Char.prems utf8_append_split [of "s @ r" g] by simp
  then show ?case by (rule Char(3))
qed simp

lemma utf8_prefix_boundary: "utf8 c \<Longrightarrow> utf8 (c @ r) \<Longrightarrow> char_boundary (c @ r) (length c)"
  using utf8_clean_start [OF utf8_rest [of c r]] by (simp add: char_boundary_append)

lemma utf8_char_bytes: "utf8_char g \<Longrightarrow> length g \<noteq> 1 \<Longrightarrow> b \<in> set g \<Longrightarrow> \<not> in_bytes 0 0x7F b"
  by (cases g rule: utf8_char.cases) (auto simp: in_bytes_def is_cont_code split: if_splits)

lemma str_replace_skip:
  "p \<noteq> [] \<Longrightarrow> \<forall>b \<in> set x. b \<noteq> hd p \<Longrightarrow> str_replace p r (x @ s) = x @ str_replace p r s"
  by (induction x) (auto simp: prefix_Cons neq_Nil_conv)

lemma utf8_str_replace:
  assumes p: "ascii p" "p \<noteq> []" and r: "utf8 r"
  shows "utf8 s \<Longrightarrow> utf8 (str_replace p r s)"
proof (induction s rule: length_induct)
  case (1 s)
  show ?case
  proof (cases "chars s")
    case Nil
    then show ?thesis by simp
  next
    case (Cons g gs)
    then have s: "s = g @ concat gs" by (metis concat.simps(2) concat_chars)
    have g: "utf8_char g" and gs: "utf8 (concat gs)"
      using 1(2) Cons by (auto simp: utf8_def list_all_iff chars_concat intro!: utf8_concat_chars)
    have hd: "in_bytes 0 0x7F (hd p)" using p by (cases p) (auto simp: ascii_def)
    have IH: "utf8 (str_replace p r (concat gs))"
      using 1(1) gs s g utf8_char_shape [OF g] by auto
    show ?thesis
    proof (cases "prefix p s")
      case True
      then obtain t where t: "s = p @ t" by (auto simp: prefix_def)
      have "utf8 t" using utf8_rest [OF ascii_utf8 [OF p(1)]] 1(2) t by blast
      moreover have "length t < length s" using t p(2) by simp
      ultimately have "utf8 (str_replace p r t)" using 1(1) by blast
      moreover have "str_replace p r s = r @ str_replace p r t"
        using t p(2) by (cases p) auto
      ultimately show ?thesis using r by (simp add: utf8_append)
    next
      case False
      have "str_replace p r s = g @ str_replace p r (concat gs)"
      proof (cases "length g = 1")
        case True
        then obtain b where "g = [b]" by (cases g) auto
        with False s show ?thesis by simp
      next
        case len: False
        have "b \<noteq> hd p" if "b \<in> set g" for b
          using utf8_char_bytes [OF g len that] hd by auto
        then show ?thesis using str_replace_skip [OF p(2)] s by auto
      qed
      then show ?thesis using IH utf8_append [OF utf8_single [OF g]] by simp
    qed
  qed
qed

lemma str_replace_byte:
  "c \<notin> set r \<Longrightarrow> c \<notin> set (str_replace [c] r s)"
  by (induction "[c]" r s rule: str_replace.induct) auto

end
