(* ===== verification/TextEdit.thy ===== *)
theory TextEdit
  imports StrOps
begin

text \<open>
  The pure text helpers at the head of \<open>crates/harness_protocol/src/lib.rs\<close>: the minimal
  replacement between two versions of a document, and the wrapping case-insensitive search.
  A slice that would panic is \<open>None\<close> in the outer option of each result.
\<close>

subsection \<open>Minimal text edit\<close>

definition common_prefix :: "string \<Rightarrow> string \<Rightarrow> nat" where
  "common_prefix old new = length (takeWhile (\<lambda>(l, r). l = r) (zip old new))"

definition minimal_text_edit :: "string \<Rightarrow> string \<Rightarrow> ((nat \<times> nat) \<times> string) option" where
  "minimal_text_edit old new =
     (let p = back_off (\<lambda>k. char_boundary old k \<and> char_boundary new k) (common_prefix old new);
          maximum_suffix = min (length old) (length new) - p;
          s = back_off (\<lambda>k. char_boundary old (length old - k) \<and>
                             char_boundary new (length new - k))
                (length (takeWhile (\<lambda>(l, r). l = r)
                   (take maximum_suffix (zip (rev old) (rev new)))))
      in map_option (\<lambda>t. ((p, length old - s), t)) (str_slice new p (length new - s)))"

text \<open>Carrying out an edit: the range of the old text is replaced.\<close>

definition apply_text_edit :: "string \<Rightarrow> (nat \<times> nat) \<times> string \<Rightarrow> string" where
  "apply_text_edit old e = (case e of ((a, b), t) \<Rightarrow> take a old @ t @ drop b old)"

lemma common_prefix_take: "k \<le> common_prefix old new \<Longrightarrow> take k old = take k new"
  using takeWhile_eq_prefix [OF refl, of old new]
  by (metis common_prefix_def min.absorb1 take_take)

lemma common_prefix_le: "common_prefix old new \<le> min (length old) (length new)"
  unfolding common_prefix_def by (rule takeWhile_zip_le)

lemma common_prefix_greatest:
  "take k old = take k new \<Longrightarrow> k \<le> min (length old) (length new) \<Longrightarrow> k \<le> common_prefix old new"
  unfolding common_prefix_def by (rule takeWhile_zip_greatest) auto

text \<open>The suffix loop counts bytes from the end, at most as many as its bound.\<close>

definition common_suffix :: "nat \<Rightarrow> string \<Rightarrow> string \<Rightarrow> nat" where
  "common_suffix m old new =
     length (takeWhile (\<lambda>(l, r). l = r) (take m (zip (rev old) (rev new))))"

lemma common_suffix_alt: "common_suffix m old new = common_prefix (take m (rev old)) (take m (rev new))"
  by (simp add: common_suffix_def common_prefix_def take_zip)

lemma common_suffix_drop:
  assumes "k \<le> common_suffix m old new"
  shows "drop (length old - k) old = drop (length new - k) new"
proof -
  have le: "k \<le> m" "k \<le> length old" "k \<le> length new"
    using assms common_prefix_le [of "take m (rev old)" "take m (rev new)"]
    by (auto simp: common_suffix_alt)
  from common_prefix_take [OF assms [unfolded common_suffix_alt]] le
  have "take k (rev old) = take k (rev new)"
    by simp
  then show ?thesis by (metis le(2,3) rev_rev_ident rev_take length_rev)
qed

lemma common_suffix_le: "common_suffix m old new \<le> min m (min (length old) (length new))"
  using common_prefix_le [of "take m (rev old)" "take m (rev new)"]
  by (auto simp: common_suffix_alt)

lemma common_suffix_greatest:
  assumes "drop (length old - k) old = drop (length new - k) new"
    and "k \<le> m" "k \<le> length old" "k \<le> length new"
  shows "k \<le> common_suffix m old new"
proof -
  have "take k (rev old) = take k (rev new)"
    using assms by (simp add: take_rev)
  then show ?thesis
    unfolding common_suffix_alt using assms by (intro common_prefix_greatest) auto
qed

text \<open>The two loop results, named, with the facts the correctness proofs use.\<close>

definition edit_prefix :: "string \<Rightarrow> string \<Rightarrow> nat" where
  "edit_prefix old new =
     back_off (\<lambda>k. char_boundary old k \<and> char_boundary new k) (common_prefix old new)"

definition edit_suffix :: "string \<Rightarrow> string \<Rightarrow> nat" where
  "edit_suffix old new =
     back_off (\<lambda>k. char_boundary old (length old - k) \<and> char_boundary new (length new - k))
       (common_suffix (min (length old) (length new) - edit_prefix old new) old new)"

lemma minimal_text_edit_alt:
  "minimal_text_edit old new =
     map_option (\<lambda>t. ((edit_prefix old new, length old - edit_suffix old new), t))
       (str_slice new (edit_prefix old new) (length new - edit_suffix old new))"
  by (simp add: minimal_text_edit_def edit_prefix_def edit_suffix_def common_suffix_def Let_def)

lemma edit_prefix_facts:
  "char_boundary old (edit_prefix old new)" "char_boundary new (edit_prefix old new)"
  "take (edit_prefix old new) old = take (edit_prefix old new) new"
  "edit_prefix old new \<le> length old" "edit_prefix old new \<le> length new"
proof -
  let ?P = "\<lambda>k. char_boundary old k \<and> char_boundary new k"
  have "?P (edit_prefix old new)"
    unfolding edit_prefix_def by (rule back_off_holds) simp
  then show "char_boundary old (edit_prefix old new)" "char_boundary new (edit_prefix old new)"
    by simp_all
  show "take (edit_prefix old new) old = take (edit_prefix old new) new"
    unfolding edit_prefix_def by (rule common_prefix_take) simp
  have "edit_prefix old new \<le> common_prefix old new"
    by (simp add: edit_prefix_def)
  with common_prefix_le [of old new]
  show "edit_prefix old new \<le> length old" "edit_prefix old new \<le> length new"
    by simp_all
qed

lemma edit_suffix_facts:
  "char_boundary old (length old - edit_suffix old new)"
  "char_boundary new (length new - edit_suffix old new)"
  "drop (length old - edit_suffix old new) old = drop (length new - edit_suffix old new) new"
  "edit_prefix old new + edit_suffix old new \<le> length old"
  "edit_prefix old new + edit_suffix old new \<le> length new"
proof -
  let ?m = "min (length old) (length new) - edit_prefix old new"
  let ?P = "\<lambda>k. char_boundary old (length old - k) \<and> char_boundary new (length new - k)"
  have "?P (edit_suffix old new)"
    unfolding edit_suffix_def by (rule back_off_holds) simp
  then show "char_boundary old (length old - edit_suffix old new)"
    "char_boundary new (length new - edit_suffix old new)"
    by simp_all
  have le: "edit_suffix old new \<le> common_suffix ?m old new"
    by (simp add: edit_suffix_def)
  then show "drop (length old - edit_suffix old new) old =
      drop (length new - edit_suffix old new) new"
    by (rule common_suffix_drop)
  from le common_suffix_le [of ?m old new] edit_prefix_facts [where old = old and new = new]
  show "edit_prefix old new + edit_suffix old new \<le> length old"
    "edit_prefix old new + edit_suffix old new \<le> length new"
    by linarith+
qed

lemma minimal_text_edit_total:
  "minimal_text_edit old new =
     Some ((edit_prefix old new, length old - edit_suffix old new),
       take (length new - edit_suffix old new - edit_prefix old new)
         (drop (edit_prefix old new) new))"
  using edit_prefix_facts [where old = old and new = new] edit_suffix_facts [where old = old and new = new]
  by (simp add: minimal_text_edit_alt str_slice_def)

subsection \<open>Correctness and minimality\<close>

text \<open>The edit turns any text into any other, and its replacement is a slice of the new one.\<close>

lemma minimal_text_edit_spec:
  "\<exists>a b t. minimal_text_edit old new = Some ((a, b), t) \<and> a \<le> b \<and> b \<le> length old \<and>
    char_boundary old a \<and> char_boundary old b \<and> str_slice new a (a + length t) = Some t \<and>
    apply_text_edit old ((a, b), t) = new"
proof -
  let ?p = "edit_prefix old new" and ?s = "edit_suffix old new"
  note pf = edit_prefix_facts [where old = old and new = new]
  note sf = edit_suffix_facts [where old = old and new = new]
  let ?t = "take (length new - ?s - ?p) (drop ?p new)"
  have "take ?p new @ ?t @ drop (length new - ?s) new = new"
    using sf(5)
    by (metis add.commute add_le_imp_le_diff append_take_drop_id drop_drop le_add_diff_inverse2)
  then have "apply_text_edit old ((?p, length old - ?s), ?t) = new"
    using pf(3) sf(3) by (simp add: apply_text_edit_def)
  moreover have "str_slice new ?p (?p + length ?t) = Some ?t"
    using pf(2) sf(2,5) by (simp add: str_slice_def)
  ultimately show ?thesis
    using minimal_text_edit_total [of old new] pf sf by auto
qed

text \<open>
  C35. The edit that \<open>minimal_text_edit\<close> computes never panics on well-formed texts, its
  range lies in the old text on character boundaries, its replacement is well-formed, and
  carrying it out yields exactly the new text.
\<close>

theorem minimal_text_edit_correct:
  assumes "utf8 old" "utf8 new"
  shows "\<exists>a b t. minimal_text_edit old new = Some ((a, b), t) \<and> a \<le> b \<and> b \<le> length old \<and>
    char_boundary old a \<and> char_boundary old b \<and> utf8 t \<and>
    apply_text_edit old ((a, b), t) = new"
  using minimal_text_edit_spec [of old new] str_slice_utf8 [OF assms(2)] by blast

theorem minimal_text_edit_correct_witness:
  "utf8 [CHR ''a'', CHR 0xC3, CHR 0xA9] \<and> utf8 [CHR ''a'', CHR 0xC3, CHR 0xA8] \<and>
   (\<exists>a b t. minimal_text_edit [CHR ''a'', CHR 0xC3, CHR 0xA9] [CHR ''a'', CHR 0xC3, CHR 0xA8] =
        Some ((a, b), t) \<and>
      apply_text_edit [CHR ''a'', CHR 0xC3, CHR 0xA9] ((a, b), t) = [CHR ''a'', CHR 0xC3, CHR 0xA8])"
proof -
  have u: "utf8 [CHR ''a'', CHR 0xC3, CHR 0xA9]" "utf8 [CHR ''a'', CHR 0xC3, CHR 0xA8]"
    by (simp_all add: utf8_def in_bytes_def)
  from minimal_text_edit_correct [OF u] u show ?thesis by blast
qed

text \<open>A second edit of the same texts, described by what it keeps.\<close>

lemma shorter_suffix_fits:
  assumes u: "utf8 old" "utf8 new"
    and s': "drop (length old - s') old = drop (length new - s') new"
    and p: "p \<le> min (length old) (length new)" "char_boundary old p" "char_boundary new p"
    and long: "min (length old) (length new) - p \<le> s'" "s' \<le> length old" "s' \<le> length new"
  shows "char_boundary old (length old - (min (length old) (length new) - p)) \<and>
    char_boundary new (length new - (min (length old) (length new) - p)) \<and>
    drop (length old - (min (length old) (length new) - p)) old =
    drop (length new - (min (length old) (length new) - p)) new"
proof -
  let ?k = "min (length old) (length new) - p"
  have eq: "drop (length old - ?k) old = drop (length new - ?k) new"
  proof -
    have "drop (s' - ?k) (drop (length old - s') old) = drop (s' - ?k) (drop (length new - s') new)"
      using s' by simp
    then show ?thesis using long by simp
  qed
  have iff: "clean_start (drop (length old - ?k) old) \<longleftrightarrow> clean_start (drop (length new - ?k) new)"
    using eq by simp
  have short: "clean_start (drop (length old - ?k) old)"
  proof (cases "length old \<le> length new")
    case True
    then have "length old - ?k = p" using p(1) by simp
    then show ?thesis using clean_start_drop_utf8 [OF u(1) p(2)] by simp
  next
    case False
    then have "length new - ?k = p" using p(1) by simp
    then show ?thesis using clean_start_drop_utf8 [OF u(2) p(3)] iff by simp
  qed
  have "char_boundary s i" if "clean_start (drop i s)" "i \<le> length s" for s :: string and i
    using that by (cases "i < length s") (auto simp: char_boundary_def Cons_nth_drop_Suc [symmetric])
  with short iff eq show ?thesis by simp
qed

lemma edit_keeps_most:
  assumes u: "utf8 old" "utf8 new"
    and p': "take p' old = take p' new" "char_boundary old p'" "char_boundary new p'"
    and s': "drop (length old - s') old = drop (length new - s') new"
      "char_boundary old (length old - s')" "char_boundary new (length new - s')"
    and fit: "p' + s' \<le> length old" "p' + s' \<le> length new"
  shows "p' + s' \<le> edit_prefix old new + edit_suffix old new"
proof -
  let ?p = "edit_prefix old new" and ?L = "min (length old) (length new)"
  note pf = edit_prefix_facts [where old = old and new = new]
  have "p' \<le> common_prefix old new"
    using p' fit by (intro common_prefix_greatest) auto
  then have pp: "p' \<le> ?p"
    unfolding edit_prefix_def using p' by (intro back_off_greatest) auto
  show ?thesis
  proof (cases "s' \<le> ?L - ?p")
    case True
    then have "s' \<le> common_suffix (?L - ?p) old new"
      using s' fit by (intro common_suffix_greatest) auto
    then have "s' \<le> edit_suffix old new"
      unfolding edit_suffix_def using s' by (intro back_off_greatest) auto
    with pp show ?thesis by simp
  next
    case False
    have "?L - ?p \<le> s'" using False by simp
    from shorter_suffix_fits [OF u s'(1) _ pf(1,2) this] pf fit
    have k: "char_boundary old (length old - (?L - ?p)) \<and>
        char_boundary new (length new - (?L - ?p)) \<and>
        drop (length old - (?L - ?p)) old = drop (length new - (?L - ?p)) new"
      by simp
    then have "?L - ?p \<le> common_suffix (?L - ?p) old new"
      by (intro common_suffix_greatest) auto
    then have "?L - ?p \<le> edit_suffix old new"
      unfolding edit_suffix_def using k by (intro back_off_greatest) auto
    with fit pf show ?thesis by simp
  qed
qed

text \<open>
  No UTF-8-safe replacement of one range of the old text that produces the new text is
  smaller, neither in the range it replaces nor in the text it inserts.
\<close>

lemma minimal_text_edit_minimal:
  assumes u: "utf8 old" "utf8 t'"
    and other: "a' \<le> b'" "b' \<le> length old" "char_boundary old a'" "char_boundary old b'"
    and new: "apply_text_edit old ((a', b'), t') = new"
    and edit: "minimal_text_edit old new = Some ((a, b), t)"
  shows "b - a \<le> b' - a' \<and> length t \<le> length t'"
proof -
  let ?s' = "length old - b'"
  have n: "new = take a' old @ t' @ drop b' old" using new by (simp add: apply_text_edit_def)
  have ud: "utf8 (take a' old)" "utf8 (drop b' old)"
    using utf8_take_drop u other by blast+
  have un: "utf8 new" by (simp add: n utf8_append ud u(2))
  have len: "length new = a' + length t' + ?s'" using other by (simp add: n)
  have "clean_start (t' @ drop b' old)"
    using utf8_append [OF u(2) ud(2)] by (rule utf8_clean_start)
  then have cb1: "char_boundary new a'"
    using char_boundary_append [of "take a' old" "t' @ drop b' old"] other by (simp add: n)
  have cb2: "char_boundary new (length new - ?s')"
    using char_boundary_append [of "take a' old @ t'" "drop b' old"] other
      utf8_clean_start [OF ud(2)] by (simp add: n)
  have "a' + ?s' \<le> edit_prefix old new + edit_suffix old new"
  proof (rule edit_keeps_most [OF u(1) un])
    show "take a' old = take a' new" using other by (simp add: n)
    show "drop (length old - ?s') old = drop (length new - ?s') new"
      using other by (simp add: n)
  qed (use other cb1 cb2 len in simp_all)
  moreover have "a = edit_prefix old new" "b = length old - edit_suffix old new"
    "length t = length new - edit_suffix old new - edit_prefix old new"
    using edit edit_suffix_facts [where old = old and new = new]
    by (auto simp: minimal_text_edit_total)
  ultimately show ?thesis using other len by linarith
qed

subsection \<open>Wrapping search\<close>

definition previous_char_boundary :: "string \<Rightarrow> nat \<Rightarrow> nat" where
  "previous_char_boundary text offset = back_off (char_boundary text) (min offset (length text))"

definition next_char_boundary :: "string \<Rightarrow> nat \<Rightarrow> nat" where
  "next_char_boundary text offset =
     (let offset = previous_char_boundary text offset
      in case chars (drop offset text) of [] \<Rightarrow> offset | c # _ \<Rightarrow> offset + length c)"

definition find_wrapped_match :: "string \<Rightarrow> string \<Rightarrow> nat \<Rightarrow> bool \<Rightarrow> nat option option" where
  "find_wrapped_match text query cursor_offset backwards =
     (if query = [] then Some None
      else
        let haystack = to_ascii_lowercase text;
            needle = to_ascii_lowercase query;
            cursor = previous_char_boundary text (min cursor_offset (length text))
        in if backwards then
             do { before \<leftarrow> str_slice haystack 0 cursor;
                  after \<leftarrow> str_slice haystack cursor (length haystack);
                  Some (or_else (str_rfind before needle)
                          (map_option (\<lambda>at. cursor + at) (str_rfind after needle))) }
           else
             let after_cursor = next_char_boundary text cursor
             in do { after \<leftarrow> str_slice haystack after_cursor (length haystack);
                     before \<leftarrow> str_slice haystack 0 after_cursor;
                     Some (or_else (map_option (\<lambda>at. after_cursor + at) (str_find after needle))
                             (str_find before needle)) })"

text \<open>The query occurs at an offset, up to ASCII case.\<close>

definition caseless_match :: "string \<Rightarrow> string \<Rightarrow> nat \<Rightarrow> bool" where
  "caseless_match doc query k = match_at (to_ascii_lowercase doc) (to_ascii_lowercase query) k"

lemma previous_char_boundary_boundary [simp]: "char_boundary doc (previous_char_boundary doc i)"
  unfolding previous_char_boundary_def by (rule back_off_holds) simp

lemma previous_char_boundary_le: "previous_char_boundary doc i \<le> length doc"
  using char_boundary_le previous_char_boundary_boundary by blast

lemma previous_char_boundary_id [simp]: "char_boundary doc i \<Longrightarrow> previous_char_boundary doc i = i"
  by (simp add: previous_char_boundary_def back_off_fixed char_boundary_le min_absorb1)

lemma first_char_boundary:
  "chars s = g # gs \<Longrightarrow> char_boundary s (length g)"
proof -
  assume "chars s = g # gs"
  then obtain b bs where s: "s = b # bs" and g: "g = b # takeWhile is_cont bs"
    by (cases s) auto
  have "char_boundary (g @ dropWhile is_cont bs) (length g)"
    by (simp add: char_boundary_append)
  then show ?thesis by (simp add: s g)
qed

lemma char_boundary_shift:
  "char_boundary s o' \<Longrightarrow> char_boundary (drop o' s) k \<Longrightarrow> char_boundary s (o' + k)"
  by (auto simp: char_boundary_def split: if_splits)

lemma next_char_boundary_boundary [simp]: "char_boundary doc (next_char_boundary doc i)"
  by (auto simp: next_char_boundary_def Let_def split: list.split
      intro!: char_boundary_shift first_char_boundary)

lemma next_char_boundary_le: "next_char_boundary doc i \<le> length doc"
  using char_boundary_le next_char_boundary_boundary by blast

lemma match_at_take: "a \<le> length s \<Longrightarrow> match_at (take a s) p k \<longleftrightarrow> match_at s p k \<and> k + length p \<le> a"
proof
  assume a: "a \<le> length s" and m: "match_at (take a s) p k"
  from match_at_length [OF m] a m show "match_at s p k \<and> k + length p \<le> a"
    by (auto simp: match_at_def drop_take intro: prefix_order.trans take_is_prefix)
next
  assume a: "a \<le> length s" and m: "match_at s p k \<and> k + length p \<le> a"
  then have "take (length p) (drop k s) = p"
    by (auto simp: match_at_def prefix_def)
  then have "take (length p) (drop k (take a s)) = p"
    using m by (simp add: drop_take le_diff_conv2 min_absorb1)
  then show "match_at (take a s) p k"
    using m a by (auto simp: match_at_def) (metis take_is_prefix)
qed

lemma match_at_drop: "a \<le> length s \<Longrightarrow> match_at (drop a s) p k \<longleftrightarrow> match_at s p (a + k)"
  by (auto simp: match_at_def add.commute)

lemma caseless_match_lt:
  assumes "query \<noteq> []" "caseless_match doc query k"
  shows "k < length doc"
proof -
  have "k + length query \<le> length doc"
    using match_at_length [OF assms(2) [unfolded caseless_match_def]] by simp
  with assms(1) show ?thesis by (cases query) auto
qed

lemma caseless_match_boundary:
  assumes "utf8 query" "query \<noteq> []" "caseless_match doc query k"
  shows "char_boundary doc k"
proof (cases "k = 0")
  case False
  have "prefix (to_ascii_lowercase query) (drop k (to_ascii_lowercase doc))"
    using assms(3) by (simp add: caseless_match_def match_at_def)
  moreover have "clean_start (to_ascii_lowercase query)"
    using utf8_clean_start [OF assms(1)] by simp
  moreover have "to_ascii_lowercase query \<noteq> []"
    using assms(2) by (simp add: to_ascii_lowercase_def)
  ultimately have "clean_start (drop k (to_ascii_lowercase doc))"
    by (auto simp: prefix_def clean_start_def split: list.splits)
  moreover have "k < length doc"
    using caseless_match_lt assms(2,3) by blast
  ultimately show ?thesis
    by (auto simp: char_boundary_def to_ascii_lowercase_def Cons_nth_drop_Suc [symmetric])
qed simp

text \<open>
  Forward search never panics. It returns the nearest match at or after the character
  behind the cursor; failing that, the first match of the document that ends before that
  point; and nothing only when every match straddles that point. Every returned offset is
  a character boundary.
\<close>

lemma find_wrapped_match_forward:
  fixes doc query :: string and cursor :: nat
  assumes "utf8 query" "query \<noteq> []"
  defines "M \<equiv> caseless_match doc query"
  defines "a \<equiv> next_char_boundary doc (previous_char_boundary doc (min cursor (length doc)))"
  shows "\<exists>r. find_wrapped_match doc query cursor False = Some r \<and>
    (case r of
       Some k \<Rightarrow> M k \<and> char_boundary doc k \<and>
         (a \<le> k \<and> (\<forall>j. a \<le> j \<and> M j \<longrightarrow> k \<le> j) \<or>
          k + length query \<le> a \<and> (\<forall>j. M j \<longrightarrow> k \<le> j \<and> j < a))
     | None \<Rightarrow> \<forall>j. M j \<longrightarrow> j < a \<and> a < j + length query)"
proof -
  let ?h = "to_ascii_lowercase doc" and ?n = "to_ascii_lowercase query"
  have a: "a \<le> length ?h" using next_char_boundary_le by (simp add: a_def)
  have sl: "str_slice ?h a (length ?h) = Some (drop a ?h)" "str_slice ?h 0 a = Some (take a ?h)"
    using a char_boundary_len [of doc] by (simp_all add: str_slice_def a_def)
  have r: "find_wrapped_match doc query cursor False =
      Some (or_else (map_option (\<lambda>at. a + at) (str_find (drop a ?h) ?n)) (str_find (take a ?h) ?n))"
    using assms(2) sl by (simp add: find_wrapped_match_def Let_def a_def)
  have after: "match_at (drop a ?h) ?n k \<longleftrightarrow> M (a + k)" for k
    using match_at_drop [OF a] by (simp add: M_def caseless_match_def)
  have before: "match_at (take a ?h) ?n k \<longleftrightarrow> M k \<and> k + length query \<le> a" for k
    using match_at_take [OF a] by (simp add: M_def caseless_match_def)
  have bd: "M k \<Longrightarrow> char_boundary doc k" for k
    using caseless_match_boundary [OF assms(1,2)] by (simp add: M_def)
  show ?thesis
  proof (cases "str_find (drop a ?h) ?n")
    case (Some k)
    from str_find_Some [OF this] have k: "M (a + k)" "\<And>j. j < k \<Longrightarrow> \<not> M (a + j)"
      by (simp_all add: after)
    have "a + k \<le> j" if "a \<le> j" "M j" for j
      using that k(2) [of "j - a"] by (cases "j - a < k") auto
    with r Some k bd show ?thesis by auto
  next
    case None
    then have none: "\<not> M j" if "a \<le> j" for j
      using that by (metis after le_add_diff_inverse str_find_None)
    show ?thesis
    proof (cases "str_find (take a ?h) ?n")
      case (Some k)
      from str_find_Some [OF this] have k: "M k" "k + length query \<le> a"
        "\<And>j. j < k \<Longrightarrow> \<not> (M j \<and> j + length query \<le> a)"
        unfolding before by blast+
      have "k \<le> j \<and> j < a" if "M j" for j
        using that k(2) k(3) [of j] none [of j] by (cases "j < k"; cases "a \<le> j") auto
      with r \<open>str_find (drop a ?h) ?n = None\<close> Some k bd show ?thesis by auto
    next
      case 2: None
      have "j < a \<and> a < j + length query" if "M j" for j
        using that none [of j] before [of j] 2 str_find_None by (metis not_le)
      with r None 2 show ?thesis by auto
    qed
  qed
qed

text \<open>
  Backward search never panics. It returns the last match that ends at or before the
  cursor; failing that, the last match of the document starting at or after it; and nothing
  only when every match straddles the cursor.
\<close>

lemma find_wrapped_match_backward:
  fixes doc query :: string and cursor :: nat
  assumes "utf8 query" "query \<noteq> []"
  defines "M \<equiv> caseless_match doc query"
  defines "c \<equiv> previous_char_boundary doc (min cursor (length doc))"
  shows "\<exists>r. find_wrapped_match doc query cursor True = Some r \<and>
    (case r of
       Some k \<Rightarrow> M k \<and> char_boundary doc k \<and>
         (k + length query \<le> c \<and> (\<forall>j. M j \<and> j + length query \<le> c \<longrightarrow> j \<le> k) \<or>
          c \<le> k \<and> (\<forall>j. M j \<longrightarrow> c < j + length query \<and> j \<le> k))
     | None \<Rightarrow> \<forall>j. M j \<longrightarrow> j < c \<and> c < j + length query)"
proof -
  let ?h = "to_ascii_lowercase doc" and ?n = "to_ascii_lowercase query"
  have c: "c \<le> length ?h" using previous_char_boundary_le by (simp add: c_def)
  have sl: "str_slice ?h c (length ?h) = Some (drop c ?h)" "str_slice ?h 0 c = Some (take c ?h)"
    using c char_boundary_len [of doc] by (simp_all add: str_slice_def c_def)
  have r: "find_wrapped_match doc query cursor True =
      Some (or_else (str_rfind (take c ?h) ?n) (map_option (\<lambda>at. c + at) (str_rfind (drop c ?h) ?n)))"
    using assms(2) sl by (simp add: find_wrapped_match_def Let_def c_def)
  have after: "match_at (drop c ?h) ?n k \<longleftrightarrow> M (c + k)" for k
    using match_at_drop [OF c] by (simp add: M_def caseless_match_def)
  have before: "match_at (take c ?h) ?n k \<longleftrightarrow> M k \<and> k + length query \<le> c" for k
    using match_at_take [OF c] by (simp add: M_def caseless_match_def)
  have bd: "M k \<Longrightarrow> char_boundary doc k" for k
    using caseless_match_boundary [OF assms(1,2)] by (simp add: M_def)
  show ?thesis
  proof (cases "str_rfind (take c ?h) ?n")
    case (Some k)
    from str_rfind_Some [OF this] have k: "M k" "k + length query \<le> c"
      "\<And>j. k < j \<Longrightarrow> \<not> (M j \<and> j + length query \<le> c)"
      by (simp_all add: before)
    then have "j \<le> k" if "M j" "j + length query \<le> c" for j
      using that k(3) [of j] by (cases "k < j") auto
    with r Some k bd show ?thesis by auto
  next
    case None
    then have none: "c < j + length query" if "M j" for j
      using that by (metis before not_le str_rfind_None)
    show ?thesis
    proof (cases "str_rfind (drop c ?h) ?n")
      case (Some k)
      from str_rfind_Some [OF this] have k: "M (c + k)" "\<And>j. k < j \<Longrightarrow> \<not> M (c + j)"
        by (simp_all add: after)
      have "j \<le> c + k" if "M j" for j
        using that k(2) [of "j - c"] by (cases "k < j - c") auto
      with r None Some k none bd show ?thesis by auto
    next
      case 2: None
      have "j < c" if "M j" for j
        using that 2 by (metis after le_add_diff_inverse not_le str_rfind_None)
      with none r None 2 show ?thesis by auto
    qed
  qed
qed

text \<open>
  The wrapping search misses the match the cursor stands on: when the only match of the
  document starts at the cursor and is longer than the character there, repeating the
  forward search answers that there is no match, although a search that wraps at the
  document boundary would come back to it.
\<close>

lemma forward_search_misses_match_at_cursor:
  assumes "utf8 query" "query \<noteq> []" "caseless_match doc query k"
    and only: "\<And>j. caseless_match doc query j \<Longrightarrow> j = k"
    and longer: "next_char_boundary doc k < k + length query"
  shows "find_wrapped_match doc query k False = Some None"
proof -
  have k: "char_boundary doc k"
    using caseless_match_boundary assms(1-3) by blast
  then have c: "previous_char_boundary doc (min k (length doc)) = k"
    by (simp add: char_boundary_le min_absorb1)
  have k_lt: "k < next_char_boundary doc k"
  proof -
    have "k < length doc"
      using caseless_match_lt assms(2,3) by blast
    then obtain g gs where "chars (drop k doc) = g # gs"
      by (cases "chars (drop k doc)") auto
    moreover from this have "g \<noteq> []" by (metis chars_nonempty list.set_intros(1))
    ultimately show ?thesis using k by (simp add: next_char_boundary_def)
  qed
  from find_wrapped_match_forward [OF assms(1,2), of doc k, unfolded c]
  obtain r where r: "find_wrapped_match doc query k False = Some r"
    and spec: "case r of
       Some i \<Rightarrow> caseless_match doc query i \<and> char_boundary doc i \<and>
         (next_char_boundary doc k \<le> i \<and>
            (\<forall>j. next_char_boundary doc k \<le> j \<and> caseless_match doc query j \<longrightarrow> i \<le> j) \<or>
          i + length query \<le> next_char_boundary doc k \<and>
            (\<forall>j. caseless_match doc query j \<longrightarrow> i \<le> j \<and> j < next_char_boundary doc k))
     | None \<Rightarrow> \<forall>j. caseless_match doc query j \<longrightarrow>
         j < next_char_boundary doc k \<and> next_char_boundary doc k < j + length query"
    by blast
  have "r = None"
  proof (cases r)
    case (Some i)
    with spec only have "i = k" by auto
    with Some spec k_lt longer show ?thesis by auto
  qed
  with r show ?thesis by simp
qed

end
