(* ===== verification/Json.thy ===== *)
theory Json
  imports StrOps
begin

text \<open>
  The JSON values the protocol carries and the services outside the repository.
  \<open>serde_json::Value\<close> is an enum the source matches on; it is built with
  \<open>preserve_order\<close>, so an object is an association list in insertion order. What the
  source calls of third-party code (serialisation, Base64, the Markdown parser, derived
  deserialisers) and the Unicode case tables of the standard library are the fields of the
  record \<open>host\<close>, an argument of every definition that uses them.
\<close>

subsection \<open>Values\<close>

datatype jnum = PosInt nat | NegInt int | Float string \<comment> \<open>a float by its printed form\<close>

datatype json =
    JNull
  | JBool bool
  | JNumber jnum
  | JString string
  | JArray "json list"
  | JObject "(string \<times> json) list"

fun as_str :: "json \<Rightarrow> string option" where
  "as_str (JString s) = Some s"
| "as_str _ = None"

fun as_bool :: "json \<Rightarrow> bool option" where
  "as_bool (JBool b) = Some b"
| "as_bool _ = None"

fun as_array :: "json \<Rightarrow> json list option" where
  "as_array (JArray xs) = Some xs"
| "as_array _ = None"

fun as_object :: "json \<Rightarrow> (string \<times> json) list option" where
  "as_object (JObject kvs) = Some kvs"
| "as_object _ = None"

fun as_u64 :: "json \<Rightarrow> nat option" where
  "as_u64 (JNumber (PosInt n)) = Some n"
| "as_u64 _ = None"

fun as_i64 :: "json \<Rightarrow> int option" where
  "as_i64 (JNumber (PosInt n)) = (if n < 2 ^ 63 then Some (int n) else None)"
| "as_i64 (JNumber (NegInt i)) = Some i"
| "as_i64 _ = None"

definition is_null :: "json \<Rightarrow> bool" where
  "is_null v = (v = JNull)"

text \<open>\<open>Value::get\<close> with a string index.\<close>

definition jget :: "string \<Rightarrow> json \<Rightarrow> json option" where
  "jget k v = (case v of JObject kvs \<Rightarrow> map_of kvs k | _ \<Rightarrow> None)"

text \<open>
  \<open>Value::pointer\<close>: the literal JSON pointers of the source, as their list of tokens. A
  token that meets an array is an index without sign or leading zero.
\<close>

definition parse_index :: "string \<Rightarrow> nat option" where
  "parse_index t =
     (if t = [] \<or> \<not> list_all (in_bytes 0x30 0x39) t \<or> (hd t = CHR ''0'' \<and> length t \<noteq> 1) then None
      else Some (foldl (\<lambda>n c. n * 10 + (of_char c - 48)) 0 t))"

fun pointer :: "string list \<Rightarrow> json \<Rightarrow> json option" where
  "pointer [] v = Some v"
| "pointer (t # ts) v =
     (case v of
        JObject kvs \<Rightarrow> Option.bind (map_of kvs t) (pointer ts)
      | JArray xs \<Rightarrow>
          Option.bind (parse_index t) (\<lambda>i. Option.bind (get_at xs i) (pointer ts))
      | _ \<Rightarrow> None)"

text \<open>\<open>Map::insert\<close>: an existing key keeps its place.\<close>

fun obj_insert :: "string \<Rightarrow> json \<Rightarrow> (string \<times> json) list \<Rightarrow> (string \<times> json) list" where
  "obj_insert k v [] = [(k, v)]"
| "obj_insert k v ((k', v') # kvs) =
     (if k = k' then (k, v) # kvs else (k', v') # obj_insert k v kvs)"

lemma map_of_obj_insert: "map_of (obj_insert k v kvs) = (map_of kvs)(k \<mapsto> v)"
  by (induction kvs) (auto simp: fun_eq_iff)

text \<open>
  \<open>Value\<close>'s equality: objects are equal when they have as many entries and the left one's
  entries are found equal in the right one, whatever their order.
\<close>

function (sequential) json_eq :: "json \<Rightarrow> json \<Rightarrow> bool" where
  "json_eq JNull JNull = True"
| "json_eq (JBool a) (JBool b) = (a = b)"
| "json_eq (JNumber a) (JNumber b) = (a = b)"
| "json_eq (JString a) (JString b) = (a = b)"
| "json_eq (JArray xs) (JArray ys) =
     (length xs = length ys \<and> list_all (\<lambda>(x, y). json_eq x y) (zip xs ys))"
| "json_eq (JObject xs) (JObject ys) =
     (length xs = length ys \<and>
      list_all (\<lambda>(k, x). case map_of ys k of Some y \<Rightarrow> json_eq x y | None \<Rightarrow> False) xs)"
| "json_eq _ _ = False"
  by pat_completeness auto
termination
proof (relation "measure (size \<circ> fst)", goal_cases)
  case (2 xs ys z a b)
  then have "a \<in> set xs" by (auto dest: set_zip_leftD)
  then show ?case
    by (auto simp: less_Suc_eq_le intro: size_list_estimation')
next
  case (3 xs ys z a b c)
  then have "size b \<le> size_list (size_prod (\<lambda>x. 0) size) xs"
    by (intro size_list_estimation' [of "(a, b)"]) auto
  then show ?case by simp
qed simp_all

text \<open>No object repeats a key: the invariant of \<open>serde_json::Map\<close>.\<close>

fun json_ok :: "json \<Rightarrow> bool" where
  "json_ok (JArray xs) = list_all json_ok xs"
| "json_ok (JObject kvs) = (distinct (map fst kvs) \<and> list_all (\<lambda>(k, v). json_ok v) kvs)"
| "json_ok _ = True"

lemma json_eq_refl: "json_ok v \<Longrightarrow> json_eq v v"
proof (induction v rule: json_ok.induct)
  case (1 xs)
  then show ?case by (auto simp: list_all_iff in_set_zip)
next
  case (2 kvs)
  then show ?case by (fastforce simp: list_all_iff)
qed simp_all

text \<open>Every string of the value is well-formed: what the type \<open>String\<close> guarantees.\<close>

fun json_utf8 :: "json \<Rightarrow> bool" where
  "json_utf8 (JString s) = utf8 s"
| "json_utf8 (JArray xs) = list_all json_utf8 xs"
| "json_utf8 (JObject kvs) = list_all (\<lambda>(k, v). utf8 k \<and> json_utf8 v) kvs"
| "json_utf8 _ = True"

lemma pointer_utf8: "json_utf8 v \<Longrightarrow> pointer path v = Some w \<Longrightarrow> json_utf8 w"
proof (induction path v rule: pointer.induct)
  case (2 t ts v)
  show ?case
  proof (cases v)
    case (JArray xs)
    then obtain i x where x: "parse_index t = Some i" "get_at xs i = Some x" "pointer ts x = Some w"
      using 2(4) by (auto simp: bind_eq_Some_conv)
    then have "json_utf8 x" using 2(3) JArray by (auto simp: list_all_iff get_at_Some)
    with 2(1) JArray x show ?thesis by blast
  next
    case (JObject kvs)
    then obtain x where x: "map_of kvs t = Some x" "pointer ts x = Some w"
      using 2(4) by (auto simp: bind_eq_Some_conv)
    then have "json_utf8 x" using 2(3) JObject by (auto simp: list_all_iff dest: map_of_SomeD)
    with 2(2) JObject x show ?thesis by blast
  qed (use 2(4) in simp_all)
qed simp

subsection \<open>Markdown events\<close>

text \<open>The events of \<open>pulldown_cmark\<close> that the source distinguishes.\<close>

datatype md_tag =
    TagHeading | TagStrong | TagEmphasis | TagStrikethrough | TagList "nat option" | TagItem
  | TagCodeBlock | TagBlockQuote | TagLink string | TagImage string | TagOther

datatype md_tag_end =
    EndHeading | EndStrong | EndEmphasis | EndStrikethrough | EndList | EndItem | EndCodeBlock
  | EndBlockQuote | EndLink | EndImage | EndParagraph | EndTableRow | EndTableCell | EndOther

datatype md_event =
    MdStart md_tag | MdEnd md_tag_end | MdText string | MdCode string | MdInlineMath string
  | MdDisplayMath string | MdHtml string | MdInlineHtml string | MdFootnoteReference string
  | MdSoftBreak | MdHardBreak | MdRule | MdTaskListMarker bool

subsection \<open>Code outside the repository\<close>

record host =
  char_to_uppercase :: "string \<Rightarrow> string"
  char_is_uppercase :: "string \<Rightarrow> bool"
  char_is_lowercase :: "string \<Rightarrow> bool"
  str_to_uppercase :: "string \<Rightarrow> string"
  str_to_lowercase :: "string \<Rightarrow> string"
  json_to_vec :: "json \<Rightarrow> string option" \<comment> \<open>\<open>serde_json::to_vec\<close>\<close>
  json_to_string_pretty :: "json \<Rightarrow> string option"
  json_display :: "json \<Rightarrow> string" \<comment> \<open>\<open>Value::to_string\<close>\<close>
  base64_decode :: "string \<Rightarrow> string option"
  markdown_events :: "string \<Rightarrow> md_event list"

text \<open>\<open>string_at\<close>, \<open>pretty_json\<close> and \<open>compact_json\<close> of the protocol crate.\<close>

definition string_at :: "json \<Rightarrow> string list \<Rightarrow> string option" where
  "string_at v path = Option.bind (pointer path v) as_str"

definition pretty_json :: "host \<Rightarrow> json \<Rightarrow> string" where
  "pretty_json h v = unwrap_or (json_to_string_pretty h v) (json_display h v)"

definition compact_json :: "host \<Rightarrow> json \<Rightarrow> string" where
  "compact_json h v = (case v of JString s \<Rightarrow> s | _ \<Rightarrow> json_display h v)"

lemma string_at_key [simp]:
  "string_at (JObject kvs) [k] = Option.bind (map_of kvs k) as_str"
  by (cases "map_of kvs k") (simp_all add: string_at_def)

lemma string_at_JNull [simp]: "string_at JNull (t # ts) = None"
  by (simp add: string_at_def)

lemma string_at_utf8: "json_utf8 v \<Longrightarrow> string_at v path = Some s \<Longrightarrow> utf8 s"
proof -
  assume v: "json_utf8 v" and "string_at v path = Some s"
  then obtain w where w: "pointer path v = Some w" "as_str w = Some s"
    by (auto simp: string_at_def bind_eq_Some_conv)
  from pointer_utf8 [OF v w(1)] w(2) show ?thesis by (cases w) auto
qed

end
