(* ===== verification/Items.thy ===== *)
theory Items
  imports Json
begin

text \<open>
  Transcript items of \<open>harness_protocol\<close>: their kinds and fields, when an item is visible,
  and \<open>command_transcript\<close>, which separates a command item's invocation from its output.
\<close>

subsection \<open>Data\<close>

datatype TranscriptKind =
    User | Agent | Reasoning | Plan | Command | FileChange | Tool | Diff | Image | Subagent
  | Web | Review | Trace | Error | Approval

definition is_structured :: "TranscriptKind \<Rightarrow> bool" where
  "is_structured k = (k \<notin> {User, Agent, Reasoning, Plan})"

record PendingRequest =
  pr_id :: json
  pr_method :: string
  pr_resolved :: bool

record TranscriptItem =
  it_key :: string
  it_protocol_id :: "string option"
  it_kind :: TranscriptKind
  it_title :: string
  it_status :: "string option"
  it_content :: string
  it_raw :: json
  it_event_count :: nat
  it_expanded :: bool
  it_pending :: "PendingRequest option"

record CommandTranscript =
  ct_command :: string
  ct_cwd :: "string option"
  ct_output :: string

record PersistedTranscript =
  pt_version :: nat
  pt_thread_id :: string
  pt_items :: "TranscriptItem list"

subsection \<open>Visibility\<close>

definition is_routine_terminal_status :: "string \<Rightarrow> bool" where
  "is_routine_terminal_status status =
     list_ex (eq_ignore_ascii_case status)
       [''complete'', ''completed'', ''idle'', ''inactive'', ''ready'', ''replay'',
        ''resolved'', ''sent'', ''succeeded'', ''success'']"

definition display_status :: "TranscriptItem \<Rightarrow> string option" where
  "display_status item = opt_filter (\<lambda>s. \<not> is_routine_terminal_status s) (it_status item)"

definition is_presentationally_visible :: "TranscriptItem \<Rightarrow> bool" where
  "is_presentationally_visible item =
     (it_kind item \<noteq> Trace \<and>
      (it_kind item \<noteq> Reasoning \<or> trim (it_content item) \<noteq> [] \<or>
       it_pending item \<noteq> None \<or> display_status item \<noteq> None))"

subsection \<open>Invocation and output of a command\<close>

definition wd_header :: string where "wd_header = ''Working directory'' @ [nl]"
definition result_header :: string where "result_header = ''Result'' @ [nl]"

text \<open>The minimum of the markers' first offsets, or the end of the text.\<close>

definition command_separator :: "string \<Rightarrow> nat" where
  "command_separator rest =
     (case filter_map (str_find rest)
        [blank_line @ wd_header, blank_line @ result_header, blank_line] of
        [] \<Rightarrow> length rest
      | i # is \<Rightarrow> fold min is i)"

text \<open>
  The command and the remainder of the content: from the typed field when there is one,
  else parsed off the text (\<open>None\<close> when the text has no prompt).
\<close>

definition command_head :: "string option \<Rightarrow> string \<Rightarrow> (string \<times> string) option" where
  "command_head raw_command content =
     (case raw_command of
        Some command \<Rightarrow>
          (case Option.bind (strip_prefix content ''$ '') (\<lambda>rest. strip_prefix rest command) of
             Some rest \<Rightarrow> Some (command, rest)
           | None \<Rightarrow> Some (command, content))
      | None \<Rightarrow>
          do { rest \<leftarrow> strip_prefix content ''$ '';
               Some (take (command_separator rest) rest, drop (command_separator rest) rest) })"

text \<open>The working directory and the output in the remainder.\<close>

definition command_body :: "string option \<Rightarrow> string \<Rightarrow> string option \<times> string" where
  "command_body cwd remainder =
     (case strip_prefix remainder wd_header of
        Some rest \<Rightarrow>
          (case split_once rest (blank_line @ result_header) of
             Some (working_directory, output) \<Rightarrow>
               (case cwd of Some d \<Rightarrow> (Some d, output) | None \<Rightarrow> (Some (trim working_directory), output))
           | None \<Rightarrow> (case cwd of Some d \<Rightarrow> (Some d, []) | None \<Rightarrow> (Some (trim rest), [])))
      | None \<Rightarrow>
          (case strip_prefix remainder result_header of
             Some rest \<Rightarrow> (cwd, rest)
           | None \<Rightarrow> (cwd, remainder)))"

definition command_transcript :: "TranscriptItem \<Rightarrow> CommandTranscript option" where
  "command_transcript item =
     (if it_kind item \<noteq> Command then None
      else
        do { (command, remainder) \<leftarrow> command_head (string_at (it_raw item) [''command'']) (it_content item);
             let (cwd, remainder) =
               command_body (string_at (it_raw item) [''cwd'']) (trim_start_matches {nl} remainder);
             Some \<lparr>ct_command = command, ct_cwd = cwd,
               ct_output =
                 (if remainder = [] then unwrap_or (string_at (it_raw item) [''aggregatedOutput'']) []
                  else remainder)\<rparr> })"

subsection \<open>What the separation guarantees\<close>

lemma command_transcript_head:
  assumes "command_transcript item = Some ct"
  obtains remainder where
    "command_head (string_at (it_raw item) [''command'']) (it_content item) =
       Some (ct_command ct, remainder)"
proof (cases "command_head (string_at (it_raw item) [''command'']) (it_content item)")
  case None
  with assms show ?thesis by (simp add: command_transcript_def split: if_splits)
next
  case (Some p)
  obtain command remainder where p: "p = (command, remainder)" by (cases p)
  obtain cwd out where
    "command_body (string_at (it_raw item) [''cwd'']) (trim_start_matches {nl} remainder) = (cwd, out)"
    by fastforce
  with assms Some p have "ct_command ct = command"
    by (auto simp: command_transcript_def split: if_splits)
  with Some p that show ?thesis by simp
qed

lemma is_routine_ci:
  "eq_ignore_ascii_case a b \<Longrightarrow> is_routine_terminal_status a = is_routine_terminal_status b"
  by (simp add: is_routine_terminal_status_def eq_ignore_ascii_case_def)

lemma display_status_not_routine:
  "display_status item = Some s \<Longrightarrow> \<not> is_routine_terminal_status s"
  by (cases "it_status item") (auto simp: display_status_def split: if_splits)

lemma trace_never_visible: "it_kind item = Trace \<Longrightarrow> \<not> is_presentationally_visible item"
  by (simp add: is_presentationally_visible_def)

text \<open>An output that the text form cannot be confused with one of its own headers.\<close>

definition plain_output :: "string \<Rightarrow> bool" where
  "plain_output out =
     (out \<noteq> [] \<and> hd out \<noteq> nl \<and> \<not> prefix wd_header out \<and> \<not> prefix result_header out)"

lemma strip_prefix_None: "strip_prefix s p = None \<longleftrightarrow> \<not> prefix p s"
  by (induction s p rule: strip_prefix.induct) auto

lemma command_body_plain: "plain_output out \<Longrightarrow> command_body cwd out = (cwd, out)"
  by (simp add: command_body_def plain_output_def strip_prefix_None [THEN iffD2])

lemma trim_newlines_plain:
  "plain_output out \<Longrightarrow> trim_start_matches {nl} (nl # nl # out) = out"
  by (cases out) (auto simp: plain_output_def trim_start_matches_def)

lemma match_at_append_pattern: "match_at s (p @ q) i \<Longrightarrow> match_at s p i"
  by (auto simp: match_at_def dest: append_prefixD)

lemma str_find_here:
  assumes "match_at s p i" "\<And>j. j < i \<Longrightarrow> \<not> match_at s p j"
  shows "str_find s p = Some i"
proof -
  obtain k where k: "str_find s p = Some k"
    using assms(1) str_find_None [of s p] by (cases "str_find s p") auto
  from str_find_Some [OF k] assms have "k = i" by (metis linorder_neqE_nat)
  with k show ?thesis by simp
qed

lemma no_blank_line_before:
  assumes "\<not> contains (command @ [nl]) blank_line" "j < length command"
  shows "\<not> match_at (command @ blank_line @ out) blank_line j"
proof
  assume m: "match_at (command @ blank_line @ out) blank_line j"
  have e: "command @ blank_line @ out = (command @ [nl]) @ nl # out"
    by (simp add: blank_line_def)
  have "prefix blank_line (drop j (command @ [nl]) @ nl # out)"
    using m assms(2) by (simp add: match_at_def e)
  moreover have "length blank_line \<le> length (drop j (command @ [nl]))"
    using assms(2) by (simp add: blank_line_def)
  ultimately have "prefix blank_line (drop j (command @ [nl]))"
    by (metis prefix_def prefix_length_prefix)
  then have "match_at (command @ [nl]) blank_line j"
    using assms(2) by (simp add: match_at_def)
  with assms(1) show False by (auto simp: contains_iff)
qed

lemma command_separator_found:
  assumes "\<not> contains (command @ [nl]) blank_line"
  shows "command_separator (command @ blank_line @ out) = length command"
proof -
  let ?rest = "command @ blank_line @ out"
  have here: "str_find ?rest blank_line = Some (length command)"
    using no_blank_line_before [OF assms] by (intro str_find_here) (simp_all add: match_at_def)
  have later: "length command \<le> i" if "str_find ?rest (blank_line @ m) = Some i" for m i
  proof (rule ccontr)
    assume "\<not> length command \<le> i"
    then have "\<not> match_at ?rest blank_line i"
      using no_blank_line_before [OF assms] by simp
    moreover have "match_at ?rest blank_line i"
      using str_find_Some [OF that] match_at_append_pattern by blast
    ultimately show False by simp
  qed
  show ?thesis
    using later [of wd_header] later [of result_header]
    by (auto simp: command_separator_def List.map_filter_def here split: option.splits)
qed

text \<open>
  The text form of a command item separates again: with the typed command field, content
  \<open>$ command\<close>, a blank line and the output is read back as that command and that output;
  without it too, when the command itself holds no blank line.
\<close>

lemma command_transcript_roundtrip:
  assumes "it_kind item = Command"
    and "it_content item = ''$ '' @ command @ blank_line @ out"
    and "plain_output out"
    and "string_at (it_raw item) [''command''] = Some command \<or>
         string_at (it_raw item) [''command''] = None \<and> \<not> contains (command @ [nl]) blank_line"
  shows "command_transcript item =
    Some \<lparr>ct_command = command, ct_cwd = string_at (it_raw item) [''cwd''], ct_output = out\<rparr>"
proof -
  have strip: "strip_prefix (''$ '' @ command @ blank_line @ out) ''$ '' =
      Some (command @ blank_line @ out)"
    "strip_prefix (command @ blank_line @ out) command = Some (blank_line @ out)"
    by (simp_all only: strip_prefix_Some)
  have head: "command_head (string_at (it_raw item) [''command'']) (it_content item) =
      Some (command, blank_line @ out)"
    using assms(4)
  proof
    assume "string_at (it_raw item) [''command''] = Some command"
    then show ?thesis unfolding command_head_def assms(2) by (simp add: strip del: append.simps)
  next
    assume none: "string_at (it_raw item) [''command''] = None \<and>
      \<not> contains (command @ [nl]) blank_line"
    then show ?thesis unfolding command_head_def assms(2)
      by (simp add: strip command_separator_found del: append.simps)
  qed
  have "out \<noteq> []" using assms(3) by (simp add: plain_output_def)
  moreover have "trim_start_matches {nl} (blank_line @ out) = out"
    using trim_newlines_plain [OF assms(3)] by (simp add: blank_line_def)
  ultimately show ?thesis
    using assms(1) by (simp add: command_transcript_def head command_body_plain [OF assms(3)])
qed

definition example_command :: TranscriptItem where
  "example_command =
     \<lparr>it_key = ''k'', it_protocol_id = None, it_kind = Command, it_title = ''Command'',
      it_status = None, it_content = ''$ ls'' @ blank_line @ ''a.txt'',
      it_raw = JObject [(''cwd'', JString ''/tmp'')], it_event_count = 1, it_expanded = True,
      it_pending = None\<rparr>"

end
