(* ===== verification/SemanticSpans.thy ===== *)
theory SemanticSpans
  imports Items "HOL-Library.Product_Lexorder"
begin

text \<open>
  The selectable text of Markdown bodies (\<open>selectable_markdown_text\<close> and its helpers): a
  fold over the parser's events that writes plain text and records styled spans of it. The
  vectors of the source grow at their end, so a stack's top is the last element.
\<close>

subsection \<open>Data\<close>

datatype TranscriptSemanticStyle =
    Heading | Strong | Emphasis | InlineCode | Link | CodeBlock | BlockQuote | Strikethrough
  | CommandInvocation | CommandOutput

text \<open>The derived order is the order of declaration.\<close>

fun style_rank :: "TranscriptSemanticStyle \<Rightarrow> nat" where
  "style_rank Heading = 0" | "style_rank Strong = 1" | "style_rank Emphasis = 2"
| "style_rank InlineCode = 3" | "style_rank Link = 4" | "style_rank CodeBlock = 5"
| "style_rank BlockQuote = 6" | "style_rank Strikethrough = 7"
| "style_rank CommandInvocation = 8" | "style_rank CommandOutput = 9"

lemma style_rank_inj: "style_rank a = style_rank b \<Longrightarrow> a = b"
  by (cases a; cases b) simp_all

instantiation TranscriptSemanticStyle :: linorder
begin

definition less_eq_TranscriptSemanticStyle ::
  "TranscriptSemanticStyle \<Rightarrow> TranscriptSemanticStyle \<Rightarrow> bool" where
  "a \<le> b \<longleftrightarrow> style_rank a \<le> style_rank b"

definition less_TranscriptSemanticStyle ::
  "TranscriptSemanticStyle \<Rightarrow> TranscriptSemanticStyle \<Rightarrow> bool" where
  "a < b \<longleftrightarrow> style_rank a < style_rank b"

instance
  by standard
     (auto simp: less_eq_TranscriptSemanticStyle_def less_TranscriptSemanticStyle_def
       intro: style_rank_inj)

end

record TranscriptSemanticSpan =
  span_start :: nat
  span_end :: nat
  span_style :: TranscriptSemanticStyle

record SelectableBodyProjection =
  body_text :: string
  body_spans :: "TranscriptSemanticSpan list"

record OpenSemanticSpan =
  open_start :: nat
  open_style :: TranscriptSemanticStyle

definition MAX_SEMANTIC_SPANS_PER_ITEM :: nat where
  "MAX_SEMANTIC_SPANS_PER_ITEM = 2048"

subsection \<open>Opening and closing spans\<close>

definition open_semantic_span ::
  "OpenSemanticSpan list \<Rightarrow> TranscriptSemanticStyle \<Rightarrow> string \<Rightarrow> OpenSemanticSpan list" where
  "open_semantic_span opens style out = opens @ [\<lparr>open_start = length out, open_style = style\<rparr>]"

definition close_semantic_span_at ::
  "OpenSemanticSpan list \<Rightarrow> TranscriptSemanticSpan list \<Rightarrow> TranscriptSemanticStyle \<Rightarrow> nat \<Rightarrow>
    OpenSemanticSpan list \<times> TranscriptSemanticSpan list" where
  "close_semantic_span_at opens spans style e =
     (case rposition (\<lambda>c. open_style c = style) opens of
        None \<Rightarrow> (opens, spans)
      | Some p \<Rightarrow>
          (take p opens @ drop (Suc p) opens,
           if open_start (opens ! p) < e \<and> length spans < MAX_SEMANTIC_SPANS_PER_ITEM
           then spans @ [\<lparr>span_start = open_start (opens ! p), span_end = e, span_style = style\<rparr>]
           else spans))"

definition close_semantic_span ::
  "OpenSemanticSpan list \<Rightarrow> TranscriptSemanticSpan list \<Rightarrow> TranscriptSemanticStyle \<Rightarrow> string \<Rightarrow>
    OpenSemanticSpan list \<times> TranscriptSemanticSpan list" where
  "close_semantic_span opens spans style out = close_semantic_span_at opens spans style (length out)"

definition close_block_semantic_span ::
  "OpenSemanticSpan list \<Rightarrow> TranscriptSemanticSpan list \<Rightarrow> TranscriptSemanticStyle \<Rightarrow> string \<Rightarrow>
    OpenSemanticSpan list \<times> TranscriptSemanticSpan list" where
  "close_block_semantic_span opens spans style out =
     close_semantic_span_at opens spans style (length (trim_end_matches {nl} out))"

definition push_inline_semantic_text ::
  "string \<Rightarrow> TranscriptSemanticSpan list \<Rightarrow> string \<Rightarrow> TranscriptSemanticStyle \<Rightarrow>
    string \<times> TranscriptSemanticSpan list" where
  "push_inline_semantic_text out spans txt style =
     (let start = length out; out' = out @ txt
      in (out',
          if start < length out' \<and> length spans < MAX_SEMANTIC_SPANS_PER_ITEM
          then spans @ [\<lparr>span_start = start, span_end = length out', span_style = style\<rparr>]
          else spans))"

definition trim_body_projection :: "SelectableBodyProjection \<Rightarrow> SelectableBodyProjection" where
  "trim_body_projection p =
     (let trimmed_start = length (body_text p) - length (trim_start (body_text p));
          trimmed_end = length (trim_end (body_text p))
      in if trimmed_start \<ge> trimmed_end then \<lparr>body_text = [], body_spans = []\<rparr>
         else if trimmed_start = 0 \<and> trimmed_end = length (body_text p) then p
         else \<lparr>body_text = take (trimmed_end - trimmed_start) (drop trimmed_start (body_text p)),
               body_spans =
                 filter_map
                   (\<lambda>s. let st = max (span_start s) trimmed_start; en = min (span_end s) trimmed_end
                        in if st < en
                           then Some \<lparr>span_start = st - trimmed_start,
                                  span_end = en - trimmed_start, span_style = span_style s\<rparr>
                           else None)
                   (body_spans p)\<rparr>)"

definition ensure_line_break :: "string \<Rightarrow> string" where
  "ensure_line_break txt = (if txt \<noteq> [] \<and> last txt \<noteq> nl then txt @ [nl] else txt)"

subsection \<open>The fold over Markdown events\<close>

record md_state =
  md_out :: string
  md_spans :: "TranscriptSemanticSpan list"
  md_open :: "OpenSemanticSpan list"
  md_lists :: "nat option list"
  md_destinations :: "(string \<times> nat \<times> bool) list"

definition md_init :: md_state where
  "md_init = \<lparr>md_out = [], md_spans = [], md_open = [], md_lists = [], md_destinations = []\<rparr>"

text \<open>The recurring actions of the match arms.\<close>

definition md_push :: "string \<Rightarrow> md_state \<Rightarrow> md_state" where
  "md_push txt st = st\<lparr>md_out := md_out st @ txt\<rparr>"

definition md_break :: "md_state \<Rightarrow> md_state" where
  "md_break st = st\<lparr>md_out := ensure_line_break (md_out st)\<rparr>"

definition md_open_span :: "TranscriptSemanticStyle \<Rightarrow> md_state \<Rightarrow> md_state" where
  "md_open_span style st = st\<lparr>md_open := open_semantic_span (md_open st) style (md_out st)\<rparr>"

definition md_close_span :: "TranscriptSemanticStyle \<Rightarrow> md_state \<Rightarrow> md_state" where
  "md_close_span style st =
     (let (opens, spans) = close_semantic_span (md_open st) (md_spans st) style (md_out st)
      in st\<lparr>md_open := opens, md_spans := spans\<rparr>)"

definition md_close_block :: "TranscriptSemanticStyle \<Rightarrow> md_state \<Rightarrow> md_state" where
  "md_close_block style st =
     (let (opens, spans) = close_block_semantic_span (md_open st) (md_spans st) style (md_out st)
      in st\<lparr>md_open := opens, md_spans := spans\<rparr>)"

definition md_push_dest :: "string \<Rightarrow> bool \<Rightarrow> md_state \<Rightarrow> md_state" where
  "md_push_dest url is_image st =
     st\<lparr>md_destinations := md_destinations st @ [(url, length (md_out st), is_image)]\<rparr>"

text \<open>The start of a list item: the number of an ordered list counts up.\<close>

definition md_item_marker :: "md_state \<Rightarrow> md_state" where
  "md_item_marker st =
     (if md_lists st = [] then st
      else case last (md_lists st) of
             Some number \<Rightarrow>
               (md_push (dec number @ ''. '') st)
                 \<lparr>md_lists := butlast (md_lists st) @ [Some (number + 1)]\<rparr>
           | None \<Rightarrow> md_push (bullet @ '' '') st)"

text \<open>The end of a link or image: its destination, unless the label already shows it.\<close>

definition md_link_destination :: "md_state \<Rightarrow> md_state" where
  "md_link_destination st =
     (if md_destinations st = [] then st
      else
        let (destination, label_start, is_image) = last (md_destinations st);
            lbl = drop label_start (md_out st);
            st = st\<lparr>md_destinations := butlast (md_destinations st)\<rparr>
        in if destination \<noteq> [] \<and> \<not> contains lbl destination then
             (if is_image \<or> trim lbl \<noteq> [] then md_push ('' ('' @ destination @ '')'') st
              else md_push destination st)
           else st)"

fun md_start :: "md_tag \<Rightarrow> md_state \<Rightarrow> md_state" where
  "md_start TagHeading st = md_open_span Heading st"
| "md_start TagStrong st = md_open_span Strong st"
| "md_start TagEmphasis st = md_open_span Emphasis st"
| "md_start TagStrikethrough st = md_open_span Strikethrough st"
| "md_start (TagList start) st = (md_break st)\<lparr>md_lists := md_lists st @ [start]\<rparr>"
| "md_start TagItem st = md_item_marker (md_break st)"
| "md_start TagCodeBlock st = md_open_span CodeBlock (md_break st)"
| "md_start TagBlockQuote st = md_open_span BlockQuote (md_break st)"
| "md_start (TagLink url) st = md_push_dest url False (md_open_span Link st)"
| "md_start (TagImage url) st =
     md_push_dest url True (md_open_span Link (md_push ''Image: '' st))"
| "md_start TagOther st = st"

fun md_end :: "md_tag_end \<Rightarrow> md_state \<Rightarrow> md_state" where
  "md_end EndList st = md_break (st\<lparr>md_lists := butlast (md_lists st)\<rparr>)"
| "md_end EndLink st = md_close_span Link (md_link_destination st)"
| "md_end EndImage st = md_close_span Link (md_link_destination st)"
| "md_end EndStrong st = md_close_span Strong st"
| "md_end EndEmphasis st = md_close_span Emphasis st"
| "md_end EndStrikethrough st = md_close_span Strikethrough st"
| "md_end EndHeading st = md_break (md_close_span Heading st)"
| "md_end EndCodeBlock st = md_break (md_close_block CodeBlock st)"
| "md_end EndBlockQuote st = md_break (md_close_block BlockQuote st)"
| "md_end EndParagraph st = md_break st"
| "md_end EndItem st = md_break st"
| "md_end EndTableRow st = md_break st"
| "md_end EndTableCell st = md_push [CHR 0x09] st"
| "md_end EndOther st = st"

fun md_step :: "md_state \<Rightarrow> md_event \<Rightarrow> md_state" where
  "md_step st (MdStart tag) = md_start tag st"
| "md_step st (MdEnd tag) = md_end tag st"
| "md_step st (MdCode txt) =
     (let (out, spans) = push_inline_semantic_text (md_out st) (md_spans st) txt InlineCode
      in st\<lparr>md_out := out, md_spans := spans\<rparr>)"
| "md_step st (MdText txt) = md_push txt st"
| "md_step st (MdInlineMath txt) = md_push txt st"
| "md_step st (MdDisplayMath txt) = md_push txt st"
| "md_step st (MdHtml html) = md_push html st"
| "md_step st (MdInlineHtml html) = md_push html st"
| "md_step st (MdFootnoteReference lbl) = md_push (''[^'' @ lbl @ '']'') st"
| "md_step st MdSoftBreak = md_push [nl] st"
| "md_step st MdHardBreak = md_push [nl] st"
| "md_step st MdRule = md_push (light_rule @ [nl]) (md_break st)"
| "md_step st (MdTaskListMarker checked) = md_push (if checked then ''[x] '' else ''[ ] '') st"

definition span_key :: "TranscriptSemanticSpan \<Rightarrow> nat \<times> nat \<times> TranscriptSemanticStyle" where
  "span_key s = (span_start s, span_end s, span_style s)"

definition selectable_markdown_text :: "host \<Rightarrow> string \<Rightarrow> SelectableBodyProjection" where
  "selectable_markdown_text h source =
     (let st = foldl md_step md_init (markdown_events h source)
      in trim_body_projection
           \<lparr>body_text = md_out st, body_spans = sort_key span_key (md_spans st)\<rparr>)"

subsection \<open>Spans stay inside the text they describe\<close>

definition span_in :: "string \<Rightarrow> TranscriptSemanticSpan \<Rightarrow> bool" where
  "span_in txt s =
     (span_start s < span_end s \<and> char_boundary txt (span_start s) \<and> char_boundary txt (span_end s))"

definition md_inv :: "md_state \<Rightarrow> bool" where
  "md_inv st =
     (utf8 (md_out st) \<and> list_all (span_in (md_out st)) (md_spans st) \<and>
      list_all (\<lambda>c. char_boundary (md_out st) (open_start c)) (md_open st) \<and>
      list_all (\<lambda>(url, l, im). utf8 url \<and> char_boundary (md_out st) l) (md_destinations st) \<and>
      length (md_spans st) \<le> MAX_SEMANTIC_SPANS_PER_ITEM)"

fun event_utf8 :: "md_event \<Rightarrow> bool" where
  "event_utf8 (MdStart (TagLink url)) = utf8 url"
| "event_utf8 (MdStart (TagImage url)) = utf8 url"
| "event_utf8 (MdText t) = utf8 t"
| "event_utf8 (MdCode t) = utf8 t"
| "event_utf8 (MdInlineMath t) = utf8 t"
| "event_utf8 (MdDisplayMath t) = utf8 t"
| "event_utf8 (MdHtml t) = utf8 t"
| "event_utf8 (MdInlineHtml t) = utf8 t"
| "event_utf8 (MdFootnoteReference t) = utf8 t"
| "event_utf8 _ = True"

lemma char_boundary_grow: "utf8 x \<Longrightarrow> char_boundary out i \<Longrightarrow> char_boundary (out @ x) i"
proof -
  assume x: "utf8 x" and i: "char_boundary out i"
  show ?thesis
  proof (cases "i < length out")
    case True
    with i show ?thesis by (auto simp: char_boundary_def nth_append)
  next
    case False
    with i have "i = length out" using char_boundary_le by fastforce
    with x show ?thesis by (simp add: char_boundary_append utf8_clean_start)
  qed
qed

lemma span_in_grow: "utf8 x \<Longrightarrow> span_in out s \<Longrightarrow> span_in (out @ x) s"
  by (simp add: span_in_def char_boundary_grow)

lemma utf8_dec [simp]: "utf8 (dec n)"
proof (rule ascii_utf8, induction n rule: dec.induct)
  case (1 n)
  then show ?case
    by (subst dec.simps) (auto simp: ascii_def digit_def in_bytes_def)
qed

lemma utf8_nl [simp]: "utf8 [nl]"
  by (simp add: utf8_def in_bytes_def)

lemma utf8_bullet [simp]: "utf8 bullet"
  by (simp add: utf8_def in_bytes_def bullet_def)

lemma utf8_light_rule [simp]: "utf8 light_rule"
  unfolding light_rule_def by (rule utf8_concat) (simp add: utf8_def in_bytes_def)

lemma md_inv_init [simp]: "md_inv md_init"
  by (simp add: md_inv_def md_init_def)

lemma md_inv_push: "md_inv st \<Longrightarrow> utf8 x \<Longrightarrow> md_inv (md_push x st)"
  by (auto simp: md_inv_def md_push_def list_all_iff utf8_append span_in_grow char_boundary_grow)

lemma md_inv_break: "md_inv st \<Longrightarrow> md_inv (md_break st)"
  using md_inv_push [of st "[nl]"]
  by (auto simp: md_break_def ensure_line_break_def md_push_def)

lemma md_inv_open: "md_inv st \<Longrightarrow> md_inv (md_open_span style st)"
  by (auto simp: md_inv_def md_open_span_def open_semantic_span_def)

lemma set_remove_nth: "set (take p xs @ drop (Suc p) xs) \<subseteq> set xs"
  by (auto dest: in_set_takeD in_set_dropD)

lemma close_at_keeps:
  assumes "list_all (span_in out) spans" "length spans \<le> MAX_SEMANTIC_SPANS_PER_ITEM"
    and "list_all (\<lambda>c. char_boundary out (open_start c)) opens" "char_boundary out e"
    and "close_semantic_span_at opens spans style e = (opens', spans')"
  shows "list_all (span_in out) spans' \<and> length spans' \<le> MAX_SEMANTIC_SPANS_PER_ITEM \<and>
    list_all (\<lambda>c. char_boundary out (open_start c)) opens'"
proof (cases "rposition (\<lambda>c. open_style c = style) opens")
  case None
  with assms show ?thesis by (simp add: close_semantic_span_at_def)
next
  case (Some p)
  then have "opens ! p \<in> set opens" using rposition_lt by (metis nth_mem)
  then have "char_boundary out (open_start (opens ! p))"
    using assms(3) by (auto simp: list_all_iff)
  moreover have "list_all (\<lambda>c. char_boundary out (open_start c)) (take p opens @ drop (Suc p) opens)"
    using set_remove_nth [of p opens] assms(3) unfolding list_all_iff by blast
  ultimately show ?thesis using assms Some
    by (auto simp: close_semantic_span_at_def span_in_def split: if_splits)
qed

lemma char_boundary_trim_nl: "char_boundary out (length (trim_end_matches {nl} out))"
proof -
  have "out = trim_end_matches {nl} out @ rev (takeWhile (\<lambda>c. c \<in> {nl}) (rev out))"
    unfolding trim_end_matches_def
    by (metis rev_append rev_rev_ident takeWhile_dropWhile_id)
  moreover have "clean_start (rev (takeWhile (\<lambda>c. c \<in> {nl}) (rev out)))"
  proof (cases "rev (takeWhile (\<lambda>c. c \<in> {nl}) (rev out))")
    case (Cons b bs)
    then have "b \<in> set (takeWhile (\<lambda>c. c \<in> {nl}) (rev out))"
      by (metis list.set_intros(1) set_rev)
    then have "b = nl" by (auto dest: set_takeWhileD)
    with Cons show ?thesis by simp
  qed simp
  ultimately show ?thesis by (metis char_boundary_append)
qed

lemma md_inv_close: "md_inv st \<Longrightarrow> md_inv (md_close_span style st)"
  using close_at_keeps [of "md_out st" "md_spans st" "md_open st" "length (md_out st)" style]
  by (auto simp: md_inv_def md_close_span_def close_semantic_span_def split: prod.split)

lemma md_inv_close_block: "md_inv st \<Longrightarrow> md_inv (md_close_block style st)"
  using close_at_keeps [of "md_out st" "md_spans st" "md_open st"
      "length (trim_end_matches {nl} (md_out st))" style] char_boundary_trim_nl
  by (auto simp: md_inv_def md_close_block_def close_block_semantic_span_def split: prod.split)

lemma md_inv_item: "md_inv st \<Longrightarrow> md_inv (md_item_marker st)"
proof -
  assume i: "md_inv st"
  have "utf8 ''. ''" "utf8 '' ''" by (simp_all add: utf8_def in_bytes_def)
  then have "utf8 (dec n @ ''. '')" "utf8 (bullet @ '' '')" for n
    by (simp_all only: utf8_append utf8_dec utf8_bullet)
  then have "md_inv (md_push (dec n @ ''. '') st)" "md_inv (md_push (bullet @ '' '') st)" for n
    using md_inv_push [OF i] by blast+
  with i show ?thesis
    by (auto simp: md_item_marker_def split: option.split) (simp add: md_inv_def)
qed

lemma md_inv_dest: "md_inv st \<Longrightarrow> utf8 url \<Longrightarrow> md_inv (md_push_dest url im st)"
  by (auto simp: md_inv_def md_push_dest_def)

lemma md_inv_link: "md_inv st \<Longrightarrow> md_inv (md_link_destination st)"
proof (cases "md_destinations st = []")
  case False
  assume i: "md_inv st"
  obtain d l im where last: "last (md_destinations st) = (d, l, im)" by (cases "last (md_destinations st)")
  let ?st = "st\<lparr>md_destinations := butlast (md_destinations st)\<rparr>"
  have "(d, l, im) \<in> set (md_destinations st)" using False last by (metis last_in_set)
  then have "utf8 d" using i by (auto simp: md_inv_def list_all_iff)
  moreover have st: "md_inv ?st"
    using i by (auto simp: md_inv_def list_all_iff dest: in_set_butlastD)
  moreover have "utf8 '' (''" "utf8 '')''" by (simp_all add: utf8_def in_bytes_def)
  ultimately have "md_inv (md_push d ?st)" "md_inv (md_push ('' ('' @ d @ '')'') ?st)"
    by (simp_all only: md_inv_push utf8_append)
  with st False last show ?thesis by (auto simp: md_link_destination_def Let_def)
qed (simp add: md_link_destination_def)

lemma md_inv_start: "md_inv st \<Longrightarrow> event_utf8 (MdStart tag) \<Longrightarrow> md_inv (md_start tag st)"
proof (cases tag)
  case (TagImage url)
  assume i: "md_inv st" and u: "event_utf8 (MdStart tag)"
  have "utf8 ''Image: ''" by (simp add: utf8_def in_bytes_def)
  with i u TagImage show ?thesis by (simp add: md_inv_dest md_inv_open md_inv_push)
next
  case (TagList x)
  assume "md_inv st"
  then have "md_inv (md_break st)" by (rule md_inv_break)
  with TagList show ?thesis by (simp add: md_inv_def)
qed (simp_all add: md_inv_open md_inv_break md_inv_item md_inv_dest)

lemma md_inv_end: "md_inv st \<Longrightarrow> md_inv (md_end tag st)"
proof (cases tag)
  case EndList
  assume "md_inv st"
  then have "md_inv (st\<lparr>md_lists := butlast (md_lists st)\<rparr>)" by (simp add: md_inv_def)
  with EndList show ?thesis by (simp add: md_inv_break)
next
  case EndTableCell
  assume "md_inv st"
  moreover have "utf8 [CHR 0x09]" by (simp add: utf8_def in_bytes_def)
  ultimately show ?thesis using EndTableCell by (simp add: md_inv_push)
qed (simp_all add: md_inv_close md_inv_close_block md_inv_break md_inv_link)

lemma md_inv_step: "md_inv st \<Longrightarrow> event_utf8 ev \<Longrightarrow> md_inv (md_step st ev)"
proof (cases ev)
  case (MdCode code)
  assume i: "md_inv st" and "event_utf8 ev"
  with MdCode have u: "utf8 code" by simp
  from md_inv_push [OF i u] i u MdCode char_boundary_len [of "md_out st @ code"] show ?thesis
    by (auto simp: push_inline_semantic_text_def md_inv_def md_push_def span_in_def
        char_boundary_grow Let_def)
next
  case (MdFootnoteReference lbl)
  assume i: "md_inv st" and "event_utf8 ev"
  with MdFootnoteReference have "utf8 (''[^'' @ lbl @ '']'')"
    by (intro utf8_append) (simp_all add: utf8_def in_bytes_def)
  with i MdFootnoteReference show ?thesis by (simp add: md_inv_push del: append.simps)
next
  case MdRule
  assume "md_inv st"
  with MdRule show ?thesis by (simp add: md_inv_push md_inv_break utf8_append)
next
  case (MdTaskListMarker b)
  assume "md_inv st"
  moreover have "utf8 ''[x] ''" "utf8 ''[ ] ''" by (simp_all add: utf8_def in_bytes_def)
  ultimately show ?thesis using MdTaskListMarker by (simp add: md_inv_push)
qed (simp_all add: md_inv_start md_inv_end md_inv_push)

lemma md_inv_fold: "md_inv st \<Longrightarrow> list_all event_utf8 evs \<Longrightarrow> md_inv (foldl md_step st evs)"
  by (induction evs arbitrary: st) (simp_all add: md_inv_step)

lemma char_boundary_take: "char_boundary s i \<Longrightarrow> i \<le> n \<Longrightarrow> char_boundary (take n s) i"
  by (auto simp: char_boundary_def split: if_splits)

lemma char_boundary_trim_start:
  assumes "utf8 s"
  shows "char_boundary s (length s - length (trim_start s))"
proof -
  obtain w where w: "s = w @ trim_start s" using suffix_trim_start by (auto simp: suffix_def)
  then have "length s - length (trim_start s) = length w"
    by (metis add_diff_cancel_right' length_append)
  moreover have "char_boundary (w @ trim_start s) (length w)"
    using utf8_clean_start [OF utf8_trim_start [OF assms]] by (simp add: char_boundary_append)
  ultimately show ?thesis using w by metis
qed

lemma char_boundary_trim_end:
  assumes "utf8 s"
  shows "char_boundary s (length (trim_end s))"
proof -
  have "chars s = rev (dropWhile is_ws (rev (chars s))) @ rev (takeWhile is_ws (rev (chars s)))"
    by (metis rev_append rev_rev_ident takeWhile_dropWhile_id)
  then have s: "s = trim_end s @ concat (rev (takeWhile is_ws (rev (chars s))))"
    unfolding trim_end_def by (metis concat_append concat_chars)
  have "utf8 (concat (rev (takeWhile is_ws (rev (chars s)))))"
    using assms by (intro utf8_concat_chars) (auto dest!: set_takeWhileD intro: utf8_chars)
  then have "char_boundary (trim_end s @ concat (rev (takeWhile is_ws (rev (chars s)))))
      (length (trim_end s))"
    by (simp add: char_boundary_append utf8_clean_start)
  with s show ?thesis by simp
qed

text \<open>One span clamped to the trimmed range, in the trimmed text's coordinates.\<close>

lemma clamped_span_in:
  assumes "span_in txt s" "char_boundary txt ts" "char_boundary txt te" "ts < te"
    and "max (span_start s) ts < min (span_end s) te"
  shows "span_in (take (te - ts) (drop ts txt))
    \<lparr>span_start = max (span_start s) ts - ts, span_end = min (span_end s) te - ts, span_style = y\<rparr>"
proof -
  have b: "char_boundary (take (te - ts) (drop ts txt)) (i - ts)"
    if "char_boundary txt i" "ts \<le> i" "i \<le> te" for i
    using that assms(2) by (intro char_boundary_take char_boundary_drop) auto
  have "char_boundary txt (max (span_start s) ts)" "char_boundary txt (min (span_end s) te)"
    using assms by (auto simp: span_in_def max_def min_def)
  then show ?thesis
    using assms(5) b [of "max (span_start s) ts"] b [of "min (span_end s) te"]
    by (auto simp: span_in_def)
qed

lemma sorted_filter_map_mono:
  assumes "sorted (map f xs)" "\<And>x y. g x = Some y \<Longrightarrow> f y = m (f x)" "mono m"
  shows "sorted (map f (filter_map g xs))"
  using assms(1)
proof (induction xs)
  case (Cons x xs)
  have in_fm: "\<exists>z \<in> set xs. g z = Some y" if "y \<in> set (filter_map g xs)" for y
    using that by (auto simp: List.map_filter_def)
  show ?case
  proof (cases "g x")
    case None
    with Cons show ?thesis by (simp add: List.map_filter_def)
  next
    case (Some y)
    have "f y \<le> f y'" if "y' \<in> set (filter_map g xs)" for y'
      using in_fm [OF that] Some assms(2,3) Cons.prems
      by (fastforce simp: mono_def)
    with Some Cons show ?thesis by (auto simp: List.map_filter_def)
  qed
qed (simp add: List.map_filter_def)

definition projection_ok :: "SelectableBodyProjection \<Rightarrow> bool" where
  "projection_ok p =
     (utf8 (body_text p) \<and> list_all (span_in (body_text p)) (body_spans p) \<and>
      sorted (map span_start (body_spans p)) \<and>
      length (body_spans p) \<le> MAX_SEMANTIC_SPANS_PER_ITEM)"

lemma length_filter_map: "length (filter_map f xs) \<le> length xs"
  unfolding List.map_filter_def by (simp add: length_filter_le)

lemma trim_body_projection_ok:
  assumes "projection_ok p"
  shows "projection_ok (trim_body_projection p)"
proof -
  let ?t = "body_text p"
  let ?ts = "length ?t - length (trim_start ?t)" and ?te = "length (trim_end ?t)"
  let ?f = "\<lambda>s. let st = max (span_start s) ?ts; en = min (span_end s) ?te
      in if st < en then Some \<lparr>span_start = st - ?ts, span_end = en - ?ts, span_style = span_style s\<rparr>
         else None"
  have u: "utf8 ?t" using assms by (simp add: projection_ok_def)
  note bs = char_boundary_trim_start [OF u] char_boundary_trim_end [OF u]
  consider "?ts \<ge> ?te" | "?ts = 0" "?te = length ?t" | "?ts < ?te" "\<not> (?ts = 0 \<and> ?te = length ?t)"
    by linarith
  then show ?thesis
  proof cases
    case 1
    then show ?thesis by (simp add: trim_body_projection_def projection_ok_def)
  next
    case 2
    then show ?thesis using assms
      by (auto simp: trim_body_projection_def projection_ok_def Let_def)
  next
    case 3
    let ?txt = "take (?te - ?ts) (drop ?ts ?t)"
    have "str_slice ?t ?ts ?te = Some ?txt"
      using 3 bs by (simp add: str_slice_Some)
    then have "utf8 ?txt" using u str_slice_utf8 by blast
    moreover have "list_all (span_in ?txt) (filter_map ?f (body_spans p))"
    proof -
      have "span_in ?txt y" if "s \<in> set (body_spans p)" "?f s = Some y" for s y
        using clamped_span_in [OF _ bs 3(1), of s "span_style s"] that assms
        by (auto simp: projection_ok_def list_all_iff Let_def split: if_splits)
      then show ?thesis by (fastforce simp: list_all_iff List.map_filter_def)
    qed
    moreover have "sorted (map span_start (filter_map ?f (body_spans p)))"
      using assms
      by (intro sorted_filter_map_mono [where m = "\<lambda>n. max n ?ts - ?ts"])
         (auto simp: projection_ok_def Let_def mono_def max_def diff_le_mono split: if_splits)
    moreover have "length (filter_map ?f (body_spans p)) \<le> MAX_SEMANTIC_SPANS_PER_ITEM"
      using assms length_filter_map [of ?f "body_spans p"] by (simp add: projection_ok_def)
    moreover have "trim_body_projection p =
        \<lparr>body_text = ?txt, body_spans = filter_map ?f (body_spans p)\<rparr>"
      using 3 by (auto simp: trim_body_projection_def Let_def)
    ultimately show ?thesis by (simp add: projection_ok_def)
  qed
qed

lemma sorted_starts: "sorted (map span_key xs) \<Longrightarrow> sorted (map span_start xs)"
  by (induction xs) (auto simp: span_key_def less_eq_prod_simp)

text \<open>
  C36. Whatever events the Markdown parser emits for a body (its texts being strings), the
  selectable projection is well-formed text, and its semantic spans are at most 2048
  non-empty ranges of that text that begin and end on character boundaries, in the order of
  their starts.
\<close>

theorem selectable_markdown_text_ok:
  assumes "list_all event_utf8 (markdown_events h source)"
  shows "projection_ok (selectable_markdown_text h source)"
proof -
  let ?st = "foldl md_step md_init (markdown_events h source)"
  have "md_inv ?st" using md_inv_fold [OF md_inv_init assms] .
  then have "projection_ok \<lparr>body_text = md_out ?st, body_spans = sort_key span_key (md_spans ?st)\<rparr>"
    by (auto simp: projection_ok_def md_inv_def list_all_iff intro: sorted_starts)
  then show ?thesis
    by (simp add: selectable_markdown_text_def Let_def trim_body_projection_ok)
qed

definition example_host :: host where
  "example_host =
     \<lparr>char_to_uppercase = map (\<lambda>c. if in_bytes 0x61 0x7A c then char_of ((of_char c :: nat) - 32) else c),
      char_is_uppercase = list_all (in_bytes 0x41 0x5A),
      char_is_lowercase = list_all (in_bytes 0x61 0x7A),
      str_to_uppercase = map (\<lambda>c. if in_bytes 0x61 0x7A c then char_of ((of_char c :: nat) - 32) else c),
      str_to_lowercase = to_ascii_lowercase,
      json_to_vec = (\<lambda>v. Some ''{}''), json_to_string_pretty = (\<lambda>v. Some ''{}''),
      json_display = (\<lambda>v. ''{}''), base64_decode = (\<lambda>s. None),
      markdown_events =
        (\<lambda>s. [MdStart TagStrong, MdText s, MdEnd EndStrong, MdEnd EndParagraph])\<rparr>"

theorem selectable_markdown_text_ok_witness:
  "projection_ok (selectable_markdown_text example_host ''hi'') \<and>
   selectable_markdown_text example_host ''hi'' =
     \<lparr>body_text = ''hi'', body_spans = [\<lparr>span_start = 0, span_end = 2, span_style = Strong\<rparr>]\<rparr>"
proof -
  have "list_all event_utf8 (markdown_events example_host ''hi'')"
    by (simp add: example_host_def utf8_def in_bytes_def)
  from selectable_markdown_text_ok [OF this]
  have "projection_ok (selectable_markdown_text example_host ''hi'')" .
  moreover have "selectable_markdown_text example_host ''hi'' =
     \<lparr>body_text = ''hi'', body_spans = [\<lparr>span_start = 0, span_end = 2, span_style = Strong\<rparr>]\<rparr>"
    by (simp add: selectable_markdown_text_def example_host_def md_init_def md_open_span_def
        open_semantic_span_def md_push_def md_close_span_def close_semantic_span_def
        close_semantic_span_at_def MAX_SEMANTIC_SPANS_PER_ITEM_def md_break_def ensure_line_break_def
        trim_body_projection_def trim_start_def trim_end_def in_bytes_def List.map_filter_def)
  ultimately show ?thesis by blast
qed

end
