(* ===== verification/Projection.thy ===== *)
theory Projection
  imports SemanticSpans TextEdit
begin

text \<open>
  The text projection of one transcript item (\<open>selectable_transcript_body\<close>,
  \<open>project_transcript_item\<close>) and the relocation of its segment into a document. A
  \<open>Range<usize>\<close> is the pair of its ends.
\<close>

subsection \<open>Data\<close>

record TranscriptDocumentSegment =
  seg_item_index :: nat
  seg_item_key :: string
  seg_kind :: TranscriptKind
  seg_whole :: "nat \<times> nat"
  seg_header :: "nat \<times> nat"
  seg_body :: "nat \<times> nat"
  seg_spans :: "TranscriptSemanticSpan list"

record TranscriptItemProjection =
  pj_text :: string
  pj_segment :: TranscriptDocumentSegment

subsection \<open>Operations\<close>

definition normalize_buffer_line_endings :: "string \<Rightarrow> string" where
  "normalize_buffer_line_endings txt =
     (if cr \<in> set txt then str_replace [cr] [nl] (str_replace [cr, nl] [nl] txt) else txt)"

definition append_stable_stream :: "TranscriptItem \<Rightarrow> bool" where
  "append_stable_stream item =
     (case it_status item of
        Some status \<Rightarrow> status \<in> {''streaming'', ''running'', ''inProgress'', ''in_progress''}
      | None \<Rightarrow> False)"

text \<open>The byte offset of the first character that is not whitespace.\<close>

definition find_non_ws :: "string \<Rightarrow> nat option" where
  "find_non_ws s =
     (if list_all is_ws (chars s) then None
      else Some (length (concat (takeWhile is_ws (chars s)))))"

definition command_body_spans :: "string \<Rightarrow> string \<Rightarrow> TranscriptSemanticSpan list" where
  "command_body_spans command txt =
     (if command \<noteq> [] \<and> starts_with txt command then
        \<lparr>span_start = 0, span_end = length command, span_style = CommandInvocation\<rparr> #
        (case find_non_ws (drop (length command) txt) of
           Some o' \<Rightarrow>
             (if length command + o' < length txt
              then [\<lparr>span_start = length command + o', span_end = length txt,
                     span_style = CommandOutput\<rparr>]
              else [])
         | None \<Rightarrow> [])
      else [])"

definition selectable_transcript_body ::
  "host \<Rightarrow> TranscriptItem \<Rightarrow> string \<Rightarrow> SelectableBodyProjection" where
  "selectable_transcript_body h item normalized_content =
     (if it_kind item \<in> {User, Agent, Reasoning, Plan} then
        (if append_stable_stream item then \<lparr>body_text = normalized_content, body_spans = []\<rparr>
         else selectable_markdown_text h normalized_content)
      else if it_kind item = Command then
        let txt = trim (unwrap_or (strip_prefix normalized_content ''$ '') normalized_content)
        in \<lparr>body_text = txt,
            body_spans =
              (case command_transcript item of
                 Some ct \<Rightarrow>
                   command_body_spans
                     (trim_end_matches {cr, nl} (normalize_buffer_line_endings (ct_command ct))) txt
               | None \<Rightarrow> [])\<rparr>
      else \<lparr>body_text = trim normalized_content, body_spans = []\<rparr>)"

definition shifted_range :: "nat \<times> nat \<Rightarrow> nat \<Rightarrow> nat \<times> nat" where
  "shifted_range r offset = (fst r + offset, snd r + offset)"

definition shifted_span :: "TranscriptSemanticSpan \<Rightarrow> nat \<Rightarrow> TranscriptSemanticSpan" where
  "shifted_span s offset =
     s\<lparr>span_start := span_start s + offset, span_end := span_end s + offset\<rparr>"

definition shifted_segment :: "TranscriptDocumentSegment \<Rightarrow> nat \<Rightarrow> TranscriptDocumentSegment" where
  "shifted_segment seg offset =
     \<lparr>seg_item_index = seg_item_index seg, seg_item_key = seg_item_key seg, seg_kind = seg_kind seg,
      seg_whole = shifted_range (seg_whole seg) offset,
      seg_header = shifted_range (seg_header seg) offset,
      seg_body = shifted_range (seg_body seg) offset,
      seg_spans = map (\<lambda>s. shifted_span s offset) (seg_spans seg)\<rparr>"

definition show_header :: "TranscriptItem \<Rightarrow> bool" where
  "show_header item =
     (\<not> (it_kind item = Agent \<and> it_title item = ''Codex'' \<or>
         it_kind item = User \<and> it_title item = ''You''))"

definition header_line :: "TranscriptItem \<Rightarrow> string" where
  "header_line item =
     (if show_header item then
        heavy_rule @ '' '' @ normalize_buffer_line_endings (it_title item) @
        (case display_status item of
           Some status \<Rightarrow> mid_dot @ normalize_buffer_line_endings status
         | None \<Rightarrow> []) @
        '' '' @ heavy_rule
      else [])"

definition project_transcript_item ::
  "host \<Rightarrow> nat \<Rightarrow> TranscriptItem \<Rightarrow> TranscriptItemProjection option" where
  "project_transcript_item h item_index item =
     (if it_kind item = Trace \<or> \<not> is_presentationally_visible item then None
      else
        let header = header_line item;
            header_end = length header;
            txt = header @ (if show_header item then [nl] else []);
            body_start = length txt;
            body = selectable_transcript_body h item (normalize_buffer_line_endings (it_content item));
            txt = txt @ (if body_text body \<noteq> [] then body_text body @ [nl] else []);
            body_end = body_start + length (body_text body)
        in Some
          \<lparr>pj_text = txt,
           pj_segment =
             \<lparr>seg_item_index = item_index, seg_item_key = it_key item, seg_kind = it_kind item,
              seg_whole = (0, length txt), seg_header = (0, header_end),
              seg_body = (body_start, body_end),
              seg_spans = map (\<lambda>s. shifted_span s body_start) (body_spans body)\<rparr>\<rparr>)"

definition header_text :: "TranscriptItemProjection \<Rightarrow> string option" where
  "header_text p = str_slice (pj_text p) (fst (seg_header (pj_segment p))) (snd (seg_header (pj_segment p)))"

definition body_text_of :: "TranscriptItemProjection \<Rightarrow> string option" where
  "body_text_of p = str_slice (pj_text p) (fst (seg_body (pj_segment p))) (snd (seg_body (pj_segment p)))"

subsection \<open>Line endings\<close>

lemma normalize_no_cr: "cr \<notin> set (normalize_buffer_line_endings s)"
  unfolding normalize_buffer_line_endings_def
  by (auto intro: str_replace_byte [THEN notE, rotated])

lemma utf8_normalize: "utf8 s \<Longrightarrow> utf8 (normalize_buffer_line_endings s)"
  unfolding normalize_buffer_line_endings_def
  by (auto intro!: utf8_str_replace simp: ascii_def in_bytes_def)

lemma normalize_idem [simp]:
  "normalize_buffer_line_endings (normalize_buffer_line_endings s) = normalize_buffer_line_endings s"
  by (subst (1) normalize_buffer_line_endings_def) (simp add: normalize_no_cr)

subsection \<open>Well-formed bodies\<close>

text \<open>The strings of an item are strings (the type invariant of \<open>String\<close>).\<close>

definition item_utf8 :: "TranscriptItem \<Rightarrow> bool" where
  "item_utf8 item =
     (utf8 (it_title item) \<and> utf8 (it_content item) \<and> json_utf8 (it_raw item) \<and>
      (case it_status item of Some s \<Rightarrow> utf8 s | None \<Rightarrow> True))"

text \<open>The Markdown parser's texts are strings.\<close>

definition host_utf8 :: "host \<Rightarrow> bool" where
  "host_utf8 h = (\<forall>source. utf8 source \<longrightarrow> list_all event_utf8 (markdown_events h source))"

lemma find_markers_nl:
  assumes "m \<in> set [blank_line @ wd_header, blank_line @ result_header, blank_line]"
    "str_find rest m = Some i"
  shows "clean_start (drop i rest) \<and> i \<le> length rest"
proof -
  have "match_at rest m i" using str_find_Some [OF assms(2)] by simp
  moreover obtain m' where "m = nl # m'" using assms(1) by (auto simp: blank_line_def)
  ultimately show ?thesis by (auto simp: match_at_def prefix_def)
qed

lemma fold_min_in: "fold min is i \<in> set (i # is)"
  for i :: "'a :: linorder"
proof (induction "is" arbitrary: i)
  case (Cons j js)
  from Cons [of "min j i"] show ?case by (auto simp: min_def split: if_splits)
qed simp

lemma command_separator_boundary: "char_boundary rest (command_separator rest)"
proof -
  let ?ms = "[blank_line @ wd_header, blank_line @ result_header, blank_line]"
  have "clean_start (drop (command_separator rest) rest) \<and> command_separator rest \<le> length rest"
  proof (cases "filter_map (str_find rest) ?ms")
    case Nil
    then show ?thesis by (simp add: command_separator_def)
  next
    case (Cons i "is")
    then have sep: "command_separator rest \<in> set (filter_map (str_find rest) ?ms)"
      unfolding command_separator_def Cons using fold_min_in by simp
    then obtain m where "m \<in> set ?ms" "str_find rest m = Some (command_separator rest)"
      unfolding set_filter_map by blast
    then show ?thesis by (rule find_markers_nl)
  qed
  then show ?thesis
    by (cases "command_separator rest < length rest")
       (auto simp: char_boundary_def Cons_nth_drop_Suc [symmetric])
qed

lemma utf8_strip_ascii: "utf8 s \<Longrightarrow> ascii p \<Longrightarrow> strip_prefix s p = Some r \<Longrightarrow> utf8 r"
  using utf8_rest [OF ascii_utf8] by (auto simp: strip_prefix_Some)

lemma ascii_prompt: "ascii ''$ ''"
  by (simp add: ascii_def in_bytes_def)

lemma command_head_utf8:
  assumes "utf8 content" "\<And>c. raw_command = Some c \<Longrightarrow> utf8 c"
    and "command_head raw_command content = Some (command, remainder)"
  shows "utf8 command"
proof (cases raw_command)
  case None
  with assms(3) obtain rest where
    rest: "strip_prefix content ''$ '' = Some rest" "command = take (command_separator rest) rest"
    by (auto simp: command_head_def bind_eq_Some_conv)
  from utf8_strip_ascii [OF assms(1) ascii_prompt rest(1)] rest(2) show ?thesis
    using utf8_take_drop(1) command_separator_boundary by blast
next
  case (Some c)
  with assms show ?thesis by (auto simp: command_head_def split: option.splits)
qed

lemma command_transcript_utf8:
  assumes "item_utf8 item" "command_transcript item = Some ct"
  shows "utf8 (ct_command ct)"
proof -
  obtain remainder where
    h: "command_head (string_at (it_raw item) [''command'']) (it_content item) =
      Some (ct_command ct, remainder)"
    using command_transcript_head [OF assms(2)] .
  show ?thesis
    using assms(1) string_at_utf8 by (intro command_head_utf8 [OF _ _ h]) (auto simp: item_utf8_def)
qed

lemma utf8_trim_end_matches:
  assumes "utf8 s" "\<forall>c \<in> C. in_bytes 0 0x7F c"
  shows "utf8 (trim_end_matches C s)"
proof -
  let ?u = "rev (takeWhile (\<lambda>c. c \<in> C) (rev s))"
  have s: "s = trim_end_matches C s @ ?u"
    unfolding trim_end_matches_def by (metis rev_append rev_rev_ident takeWhile_dropWhile_id)
  have "clean_start ?u"
  proof (cases ?u)
    case (Cons b bs)
    then have "b \<in> C" by (metis list.set_intros(1) set_rev set_takeWhileD)
    then show ?thesis using assms(2) in_bytes_lead [of 0 127 b] Cons by simp
  qed simp
  with s assms(1) show ?thesis using utf8_append_split by metis
qed

lemma find_non_ws_boundary:
  assumes "utf8 s" "find_non_ws s = Some i"
  shows "char_boundary s i"
proof -
  let ?w = "concat (takeWhile is_ws (chars s))" and ?r = "concat (dropWhile is_ws (chars s))"
  have s: "s = ?w @ ?r"
    by (metis concat_append concat_chars takeWhile_dropWhile_id)
  have "utf8 ?r"
    using assms(1) by (intro utf8_concat_chars) (auto dest!: set_dropWhileD intro: utf8_chars)
  then have "char_boundary (?w @ ?r) (length ?w)"
    by (simp add: char_boundary_append utf8_clean_start)
  moreover have "i = length ?w"
    using assms(2) by (auto simp: find_non_ws_def split: if_splits)
  ultimately show ?thesis unfolding s [symmetric] by simp
qed

lemma command_body_spans_ok:
  assumes "utf8 command" "utf8 txt"
  shows "projection_ok \<lparr>body_text = txt, body_spans = command_body_spans command txt\<rparr>"
proof (cases "command \<noteq> [] \<and> starts_with txt command")
  case True
  then obtain r where r: "txt = command @ r" by (auto simp: starts_with_def prefix_def)
  have b: "char_boundary txt (length command)"
    using utf8_prefix_boundary assms r by blast
  have "utf8 r" by (rule utf8_rest [OF assms(1)]) (use assms(2) r in simp)
  then have ur: "utf8 (drop (length command) txt)" using r by simp
  have "char_boundary txt (length command + i)"
    if "find_non_ws (drop (length command) txt) = Some i" for i
    using TextEdit.char_boundary_shift [OF b find_non_ws_boundary [OF ur that]] .
  then show ?thesis using True b assms
    by (auto simp: projection_ok_def command_body_spans_def span_in_def
        MAX_SEMANTIC_SPANS_PER_ITEM_def split: option.split)
next
  case False
  then have "command_body_spans command txt = []" by (auto simp: command_body_spans_def)
  with assms show ?thesis by (simp add: projection_ok_def)
qed

lemma selectable_transcript_body_ok:
  assumes "host_utf8 h" "item_utf8 item" "utf8 content"
  shows "projection_ok (selectable_transcript_body h item content)"
proof -
  have plain: "projection_ok \<lparr>body_text = t, body_spans = []\<rparr>" if "utf8 t" for t
    using that by (simp add: projection_ok_def)
  have md: "projection_ok (selectable_markdown_text h content)"
    using assms by (auto simp: host_utf8_def intro: selectable_markdown_text_ok)
  have stripped: "utf8 (unwrap_or (strip_prefix content ''$ '') content)"
    using utf8_strip_ascii [OF assms(3) ascii_prompt] assms(3) by (auto split: option.split)
  have cmd: "projection_ok \<lparr>body_text = trim (unwrap_or (strip_prefix content ''$ '') content),
      body_spans = command_body_spans
        (trim_end_matches {cr, nl} (normalize_buffer_line_endings (ct_command ct)))
        (trim (unwrap_or (strip_prefix content ''$ '') content))\<rparr>"
    if "command_transcript item = Some ct" for ct
    using command_transcript_utf8 [OF assms(2) that] stripped
    by (intro command_body_spans_ok utf8_trim_end_matches utf8_normalize utf8_trim)
       (auto simp: in_bytes_def)
  show ?thesis
    using plain md cmd assms(3) stripped
    by (auto simp: selectable_transcript_body_def Let_def utf8_trim split: option.split)
qed

subsection \<open>Segments\<close>

lemma utf8_constants [simp]: "utf8 heavy_rule" "utf8 mid_dot" "utf8 '' ''"
proof -
  show "utf8 heavy_rule"
    unfolding heavy_rule_def by (rule utf8_concat) (simp add: utf8_def in_bytes_def)
qed (simp_all add: mid_dot_def utf8_def in_bytes_def)

lemma header_line_utf8: "item_utf8 item \<Longrightarrow> utf8 (header_line item)"
proof -
  assume i: "item_utf8 item"
  have "utf8 s" if "display_status item = Some s" for s
    using that i by (cases "it_status item") (auto simp: display_status_def item_utf8_def split: if_splits)
  then have "utf8 (case display_status item of
      Some status \<Rightarrow> mid_dot @ normalize_buffer_line_endings status | None \<Rightarrow> [])"
    by (auto intro!: utf8_append utf8_normalize split: option.split)
  moreover have "utf8 (normalize_buffer_line_endings (it_title item))"
    using i by (simp add: item_utf8_def utf8_normalize)
  ultimately show ?thesis
    unfolding header_line_def by (simp del: append.simps add: utf8_append)
qed

text \<open>The ranges of a segment are nested, in order and on boundaries of the text.\<close>

definition segment_ok :: "string \<Rightarrow> TranscriptDocumentSegment \<Rightarrow> bool" where
  "segment_ok txt seg =
     (let (ws, we) = seg_whole seg; (hs, he) = seg_header seg; (bs, be) = seg_body seg
      in ws = hs \<and> hs \<le> he \<and> he \<le> bs \<and> bs \<le> be \<and> be \<le> we \<and>
         list_all (char_boundary txt) [ws, we, he, bs, be] \<and>
         list_all (\<lambda>s. span_in txt s \<and> bs \<le> span_start s \<and> span_end s \<le> be) (seg_spans seg))"

lemma char_boundary_prepend:
  "utf8 a \<Longrightarrow> utf8 b \<Longrightarrow> char_boundary b i \<Longrightarrow> char_boundary (a @ b) (length a + i)"
  using char_boundary_append [of a b] utf8_clean_start [of b]
  by (cases "i = 0") (auto simp: char_boundary_def nth_append split: if_splits)

lemma shifted_span_in:
  assumes "utf8 a" "utf8 (b @ c)" "utf8 c" "span_in b s"
  shows "span_in (a @ b @ c) (shifted_span s (length a)) \<and>
    length a \<le> span_start (shifted_span s (length a)) \<and>
    span_end (shifted_span s (length a)) \<le> length a + length b"
proof -
  have "char_boundary (a @ b @ c) (i + length a)" if "char_boundary b i" for i
    using char_boundary_prepend [OF assms(1,2)] char_boundary_grow [OF assms(3) that]
    by (simp add: add.commute)
  moreover have "span_end s \<le> length b" using assms(4) char_boundary_le by (simp add: span_in_def)
  ultimately show ?thesis
    using assms(4) by (simp add: span_in_def shifted_span_def)
qed

lemma boundary_of_parts:
  "utf8 a \<Longrightarrow> utf8 b \<Longrightarrow> char_boundary (a @ b) (length a)"
  by (simp add: char_boundary_append utf8_clean_start)

text \<open>The shape of a projection: header, line break, body, line break.\<close>

lemma project_parts:
  assumes "project_transcript_item h i item = Some p"
  defines "hl \<equiv> header_line item" and "br \<equiv> if show_header item then [nl] else []"
    and "body \<equiv> selectable_transcript_body h item (normalize_buffer_line_endings (it_content item))"
  defines "e \<equiv> if body_text body \<noteq> [] then [nl] else []"
  shows "pj_text p = hl @ br @ body_text body @ e \<and>
    pj_segment p =
      \<lparr>seg_item_index = i, seg_item_key = it_key item, seg_kind = it_kind item,
       seg_whole = (0, length (pj_text p)), seg_header = (0, length hl),
       seg_body = (length hl + length br, length hl + length br + length (body_text body)),
       seg_spans = map (\<lambda>s. shifted_span s (length hl + length br)) (body_spans body)\<rparr>"
  using assms(1)
  by (auto simp: project_transcript_item_def Let_def hl_def br_def body_def e_def split: if_splits)

lemma project_transcript_item_spec:
  assumes "host_utf8 h" "item_utf8 item" "project_transcript_item h i item = Some p"
  shows "utf8 (pj_text p) \<and> segment_ok (pj_text p) (pj_segment p) \<and>
    seg_whole (pj_segment p) = (0, length (pj_text p)) \<and>
    header_text p = Some (header_line item) \<and>
    body_text_of p = Some (body_text (selectable_transcript_body h item
      (normalize_buffer_line_endings (it_content item))))"
proof -
  define hl where "hl = header_line item"
  define br where "br = (if show_header item then [nl] else [])"
  define body where "body = selectable_transcript_body h item
    (normalize_buffer_line_endings (it_content item))"
  define e where "e = (if body_text body \<noteq> [] then [nl] else [])"
  have "projection_ok body"
    unfolding body_def using assms(2)
    by (intro selectable_transcript_body_ok [OF assms(1,2)] utf8_normalize) (simp add: item_utf8_def)
  then have ub: "utf8 (body_text body)" and sps: "list_all (span_in (body_text body)) (body_spans body)"
    by (simp_all add: projection_ok_def)
  have uh: "utf8 hl" "utf8 br" "utf8 e"
    using header_line_utf8 [OF assms(2)] by (simp_all add: hl_def br_def e_def)
  from project_parts [OF assms(3)]
  have ptxt: "pj_text p = hl @ br @ body_text body @ e"
    and seg: "pj_segment p =
      \<lparr>seg_item_index = i, seg_item_key = it_key item, seg_kind = it_kind item,
       seg_whole = (0, length (pj_text p)), seg_header = (0, length hl),
       seg_body = (length hl + length br, length hl + length br + length (body_text body)),
       seg_spans = map (\<lambda>s. shifted_span s (length hl + length br)) (body_spans body)\<rparr>"
    by (simp_all add: hl_def br_def body_def e_def)
  have b1: "char_boundary (pj_text p) (length hl)"
    using boundary_of_parts [of hl "br @ body_text body @ e"] uh ub by (simp add: ptxt utf8_append)
  have b2: "char_boundary (pj_text p) (length hl + length br)"
    using boundary_of_parts [of "hl @ br" "body_text body @ e"] uh ub by (simp add: ptxt utf8_append)
  have b3: "char_boundary (pj_text p) (length hl + length br + length (body_text body))"
    using boundary_of_parts [of "hl @ br @ body_text body" e] uh ub
    by (simp add: ptxt utf8_append add.assoc)
  have "span_in (pj_text p) s' \<and> length hl + length br \<le> span_start s' \<and>
      span_end s' \<le> length hl + length br + length (body_text body)"
    if "s \<in> set (body_spans body)" "s' = shifted_span s (length hl + length br)" for s s'
    using shifted_span_in [of "hl @ br" "body_text body" e s] that uh ub sps
    by (simp add: ptxt utf8_append list_all_iff)
  then have "segment_ok (pj_text p) (pj_segment p)"
    using b1 b2 b3 by (auto simp: segment_ok_def seg list_all_iff) (auto simp: ptxt)
  then show ?thesis
    using b1 b2 b3 uh ub
    by (auto simp: seg header_text_def body_text_of_def str_slice_def hl_def [symmetric]
        body_def [symmetric] utf8_append) (auto simp: ptxt utf8_append)
qed

text \<open>
  C37. The projection of a visible item is well-formed text whose segment covers all of it;
  header and body are nested in that order on character boundaries, every semantic span lies
  inside the body, and the header and body ranges slice out exactly the header line and the
  selectable body.
\<close>

theorem project_transcript_item_ok:
  assumes "host_utf8 h" "item_utf8 item" "project_transcript_item h i item = Some p"
  shows "utf8 (pj_text p) \<and> segment_ok (pj_text p) (pj_segment p) \<and>
    seg_whole (pj_segment p) = (0, length (pj_text p)) \<and>
    header_text p = Some (header_line item) \<and>
    body_text_of p = Some (body_text (selectable_transcript_body h item
      (normalize_buffer_line_endings (it_content item))))"
  using assms by (rule project_transcript_item_spec)

lemma example_host_utf8: "host_utf8 example_host"
  by (simp add: host_utf8_def example_host_def)

theorem project_transcript_item_ok_witness:
  "item_utf8 example_command \<and>
   (\<exists>p. project_transcript_item example_host 0 example_command = Some p \<and>
      segment_ok (pj_text p) (pj_segment p) \<and> body_text_of p = Some (''ls'' @ blank_line @ ''a.txt''))"
proof -
  have u: "item_utf8 example_command"
    by (simp add: item_utf8_def example_command_def utf8_def in_bytes_def blank_line_def)
  have v: "is_presentationally_visible example_command"
    by (simp add: is_presentationally_visible_def example_command_def)
  then obtain p where p: "project_transcript_item example_host 0 example_command = Some p"
    by (simp add: project_transcript_item_def example_command_def Let_def)
  have b: "body_text (selectable_transcript_body example_host example_command
      (normalize_buffer_line_endings (it_content example_command))) = ''ls'' @ blank_line @ ''a.txt''"
    by (simp add: selectable_transcript_body_def example_command_def normalize_buffer_line_endings_def
        blank_line_def trim_def trim_start_def trim_end_def in_bytes_def Let_def)
  from project_transcript_item_ok [OF example_host_utf8 u p] p u b show ?thesis by auto
qed

end
