(* ===== verification/Document.thy ===== *)
theory Document
  imports Projection "HOL-Library.Word"
begin

text \<open>
  Documents of \<open>harness_protocol\<close>: the projections of a range of items, one after another, with
  the row each item starts at and its relocated segment. Rows are \<open>u32\<close>; a slice out of range
  panics (\<open>None\<close>).
\<close>

subsection \<open>Documents\<close>

type_synonym row = "32 word"

record TranscriptDocument =
  doc_text :: string
  doc_rows :: "row option list"
  doc_segments :: "TranscriptDocumentSegment list"

text \<open>\<open>bytes().filter(..).count() as u32\<close>.\<close>

definition newlines :: "string \<Rightarrow> nat" where
  "newlines s = length (filter (\<lambda>b. b = nl) s)"

definition newline_rows :: "string \<Rightarrow> row" where
  "newline_rows s = word_of_nat (newlines s)"

definition window_marker :: "nat \<Rightarrow> string \<Rightarrow> string" where
  "window_marker n side =
     heavy_rule @ '' '' @ dec n @ side @ '' BLOCKS'' @ mid_dot @ ''RETURN TO RICH VIEW TO JUMP '' @
       heavy_rule @ [nl]"

text \<open>The loop over the items of the range; \<open>index\<close> is the index of the next item.\<close>

fun document_items ::
  "host \<Rightarrow> nat \<Rightarrow> TranscriptItem list \<Rightarrow> row \<Rightarrow> TranscriptDocument \<Rightarrow> TranscriptDocument" where
  "document_items h index [] current_row doc = doc"
| "document_items h index (item # items) current_row doc =
     (case project_transcript_item h index item of
        None \<Rightarrow> document_items h (index + 1) items current_row doc
      | Some projection \<Rightarrow>
          document_items h (index + 1) items (current_row + newline_rows (pj_text projection))
            \<lparr>doc_text = doc_text doc @ pj_text projection,
             doc_rows = (doc_rows doc)[index := Some current_row],
             doc_segments = doc_segments doc @
               [shifted_segment (pj_segment projection) (length (doc_text doc))]\<rparr>)"

text \<open>The markers a window may start and end with, for the items it leaves out.\<close>

definition leading_marker :: "nat \<Rightarrow> bool \<Rightarrow> string" where
  "leading_marker start markers =
     (if markers \<and> start > 0 then window_marker start '' EARLIER'' @ [nl] else [])"

definition trailing_marker :: "nat \<Rightarrow> nat \<Rightarrow> bool \<Rightarrow> string" where
  "trailing_marker len end_index markers =
     (if markers \<and> end_index < len then window_marker (len - end_index) '' LATER'' else [])"

definition document_range ::
  "host \<Rightarrow> TranscriptItem list \<Rightarrow> nat \<Rightarrow> nat \<Rightarrow> bool \<Rightarrow> TranscriptDocument option" where
  "document_range h items start end_index include_window_markers =
     (if start \<le> end_index \<and> end_index \<le> length items then
        let marker = leading_marker start include_window_markers;
            doc = document_items h start (take (end_index - start) (drop start items))
              (newline_rows marker)
              \<lparr>doc_text = marker, doc_rows = replicate (length items) None, doc_segments = []\<rparr>
        in Some (doc\<lparr>doc_text :=
             doc_text doc @ trailing_marker (length items) end_index include_window_markers\<rparr>)
      else None)"

definition window_bounds :: "nat \<Rightarrow> nat \<Rightarrow> nat \<Rightarrow> nat \<times> nat" where
  "window_bounds len center item_limit =
     (let item_limit = max item_limit 1;
          start = center - item_limit div 2;
          end_index = min (start + item_limit) len;
          start = end_index - item_limit
      in (start, end_index))"

definition document_window ::
  "host \<Rightarrow> TranscriptItem list \<Rightarrow> nat \<Rightarrow> nat \<Rightarrow> TranscriptDocument option" where
  "document_window h items center item_limit =
     (let (start, end_index) = window_bounds (length items) center item_limit
      in document_range h items start end_index True)"

definition full_document :: "host \<Rightarrow> TranscriptItem list \<Rightarrow> TranscriptDocument option" where
  "full_document h items = document_range h items 0 (length items) False"

definition item_projection ::
  "host \<Rightarrow> TranscriptItem list \<Rightarrow> nat \<Rightarrow> TranscriptItemProjection option" where
  "item_projection h items item_index =
     do { item \<leftarrow> get_at items item_index; project_transcript_item h item_index item }"

subsection \<open>Tiling\<close>

text \<open>The projections of a list of items that have one, with their indices.\<close>

fun projections ::
  "host \<Rightarrow> nat \<Rightarrow> TranscriptItem list \<Rightarrow> (nat \<times> TranscriptItemProjection) list" where
  "projections h index [] = []"
| "projections h index (item # items) =
     (case project_transcript_item h index item of
        None \<Rightarrow> projections h (index + 1) items
      | Some p \<Rightarrow> (index, p) # projections h (index + 1) items)"

definition texts :: "(nat \<times> TranscriptItemProjection) list \<Rightarrow> string" where
  "texts ps = concat (map (\<lambda>(i, p). pj_text p) ps)"

lemma texts_simps [simp]: "texts [] = []" "texts ((i, p) # ps) = pj_text p @ texts ps"
  by (simp_all add: texts_def)

lemma newlines_append [simp]: "newlines (a @ b) = newlines a + newlines b"
  by (simp add: newlines_def)

lemma newline_rows_append [simp]: "newline_rows (a @ b) = newline_rows a + newline_rows b"
  by (simp add: newline_rows_def)

lemma projections_index: "(i, p) \<in> set (projections h index items) \<Longrightarrow> index \<le> i \<and> i < index + length items"
  by (induction h index items rule: projections.induct) (fastforce split: option.splits)+

lemma projections_project:
  "(i, p) \<in> set (projections h index items) \<longleftrightarrow>
     index \<le> i \<and> i < index + length items \<and> project_transcript_item h i (items ! (i - index)) = Some p"
proof (induction h index items rule: projections.induct)
  case (2 h index item items)
  have nth: "(item # items) ! (i - index) = items ! (i - (index + 1))" if "index + 1 \<le> i"
    using that by (metis Suc_diff_le Suc_eq_plus1 diff_Suc_Suc nth_Cons_Suc)
  show ?case
  proof (cases "i = index")
    case True
    then show ?thesis
      using "2.IH" projections_index [of i p h "index + 1" items]
      by (auto split: option.splits)
  next
    case False
    then show ?thesis using "2.IH" nth by (auto split: option.splits)
  qed
qed simp

text \<open>
  What the loop appends to a document whose current row is the number of its line breaks: the
  projections' texts, their segments relocated to where they stand, and their rows.
\<close>

lemma document_items_spec:
  assumes "document_items h index items (newline_rows (doc_text doc)) doc = doc'"
    and "index + length items \<le> length (doc_rows doc)"
  defines "ps \<equiv> projections h index items"
  shows "doc_text doc' = doc_text doc @ texts ps \<and>
    doc_segments doc' = doc_segments doc @
      map (\<lambda>k. shifted_segment (pj_segment (snd (ps ! k))) (length (doc_text doc @ texts (take k ps))))
        [0 ..< length ps] \<and>
    length (doc_rows doc') = length (doc_rows doc) \<and>
    (\<forall>k < length ps. doc_rows doc' ! fst (ps ! k) = Some (newline_rows (doc_text doc @ texts (take k ps)))) \<and>
    (\<forall>i < length (doc_rows doc). i \<notin> fst ` set ps \<longrightarrow> doc_rows doc' ! i = doc_rows doc ! i)"
  using assms(1,2) unfolding ps_def
proof (induction items arbitrary: index doc)
  case Nil
  then show ?case by auto
next
  case (Cons item items)
  show ?case
  proof (cases "project_transcript_item h index item")
    case None
    with Cons.prems Cons.IH [of "index + 1" doc] show ?thesis by simp
  next
    case (Some p)
    let ?qs = "projections h (index + 1) items"
    let ?d = "\<lparr>doc_text = doc_text doc @ pj_text p,
      doc_rows = (doc_rows doc)[index := Some (newline_rows (doc_text doc))],
      doc_segments = doc_segments doc @ [shifted_segment (pj_segment p) (length (doc_text doc))]\<rparr>"
    have ps: "projections h index (item # items) = (index, p) # ?qs" using Some by simp
    have "document_items h (index + 1) items (newline_rows (doc_text ?d)) ?d = doc'"
      using Cons.prems(1) Some by simp
    from Cons.IH [OF this] Cons.prems(2) have IH:
      "doc_text doc' = doc_text ?d @ texts ?qs"
      "doc_segments doc' = doc_segments ?d @
        map (\<lambda>k. shifted_segment (pj_segment (snd (?qs ! k))) (length (doc_text ?d @ texts (take k ?qs))))
          [0 ..< length ?qs]"
      "length (doc_rows doc') = length (doc_rows doc)"
      "\<And>k. k < length ?qs \<Longrightarrow> doc_rows doc' ! fst (?qs ! k) = Some (newline_rows (doc_text ?d @ texts (take k ?qs)))"
      "\<And>i. i < length (doc_rows doc) \<Longrightarrow> i \<notin> fst ` set ?qs \<Longrightarrow> doc_rows doc' ! i = doc_rows ?d ! i"
      by simp_all
    have index: "index \<notin> fst ` set ?qs" using projections_index by fastforce
    have "[0 ..< length ((index, p) # ?qs)] = 0 # map Suc [0 ..< length ?qs]"
      by (simp add: upt_conv_Cons map_Suc_upt del: upt_Suc)
    then have segs: "doc_segments doc' = doc_segments doc @
        map (\<lambda>k. shifted_segment (pj_segment (snd (((index, p) # ?qs) ! k)))
            (length (doc_text doc @ texts (take k ((index, p) # ?qs)))))
          [0 ..< length ((index, p) # ?qs)]"
      using IH(2) by (simp add: o_def del: upt_Suc)
    have "doc_rows doc' ! fst (((index, p) # ?qs) ! k) =
        Some (newline_rows (doc_text doc @ texts (take k ((index, p) # ?qs))))"
      if "k < length ((index, p) # ?qs)" for k
    proof (cases k)
      case 0
      then show ?thesis using IH(5) [of index] index Cons.prems(2) by simp
    next
      case (Suc j)
      then show ?thesis using that IH(4) [of j] by simp
    qed
    then show ?thesis unfolding ps using IH(1,3,5) segs by auto
  qed
qed

text \<open>The projections of a range.\<close>

definition range_projections ::
  "host \<Rightarrow> TranscriptItem list \<Rightarrow> nat \<Rightarrow> nat \<Rightarrow> (nat \<times> TranscriptItemProjection) list" where
  "range_projections h items start end_index =
     projections h start (take (end_index - start) (drop start items))"

lemma range_projections_iff:
  assumes "start \<le> end_index" "end_index \<le> length items"
  shows "(i, p) \<in> set (range_projections h items start end_index) \<longleftrightarrow>
    start \<le> i \<and> i < end_index \<and> project_transcript_item h i (items ! i) = Some p"
  using assms by (auto simp: range_projections_def projections_project)

lemma document_range_spec:
  fixes h :: host and markers :: bool
  assumes "start \<le> end_index" "end_index \<le> length items"
  defines "ps \<equiv> range_projections h items start end_index" and "lead \<equiv> leading_marker start markers"
  shows "\<exists>doc. document_range h items start end_index markers = Some doc \<and>
    doc_text doc = lead @ texts ps @ trailing_marker (length items) end_index markers \<and>
    doc_segments doc = map (\<lambda>k. shifted_segment (pj_segment (snd (ps ! k)))
      (length (lead @ texts (take k ps)))) [0 ..< length ps] \<and>
    length (doc_rows doc) = length items \<and>
    (\<forall>k < length ps. doc_rows doc ! fst (ps ! k) = Some (newline_rows (lead @ texts (take k ps)))) \<and>
    (\<forall>i < length items. i \<notin> fst ` set ps \<longrightarrow> doc_rows doc ! i = None)"
proof -
  let ?xs = "take (end_index - start) (drop start items)"
  let ?d = "\<lparr>doc_text = lead, doc_rows = replicate (length items) None, doc_segments = []\<rparr>"
  obtain doc where doc: "document_items h start ?xs (newline_rows (doc_text ?d)) ?d = doc" by blast
  have "start + length ?xs \<le> length (doc_rows ?d)" using assms(1,2) by simp
  from document_items_spec [OF doc this] have "doc_text doc = lead @ texts ps"
    "doc_segments doc = map (\<lambda>k. shifted_segment (pj_segment (snd (ps ! k)))
      (length (lead @ texts (take k ps)))) [0 ..< length ps]"
    "length (doc_rows doc) = length items"
    "\<forall>k < length ps. doc_rows doc ! fst (ps ! k) = Some (newline_rows (lead @ texts (take k ps)))"
    "\<forall>i < length items. i \<notin> fst ` set ps \<longrightarrow> doc_rows doc ! i = None"
    by (simp_all add: ps_def range_projections_def)
  moreover have "document_range h items start end_index markers =
      Some (doc\<lparr>doc_text := doc_text doc @ trailing_marker (length items) end_index markers\<rparr>)"
    using assms(1,2) doc
    by (simp add: document_range_def lead_def Let_def)
  ultimately show ?thesis by simp
qed

lemma texts_take_Suc: "k < length ps \<Longrightarrow> texts (take (Suc k) ps) = texts (take k ps) @ pj_text (snd (ps ! k))"
  by (simp add: texts_def take_Suc_conv_app_nth case_prod_beta)

lemma texts_take_drop: "texts ps = texts (take k ps) @ texts (drop k ps)"
  by (metis append_take_drop_id concat_append map_append texts_def)

lemma texts_slice:
  assumes "k < length ps"
  shows "take (length (pj_text (snd (ps ! k)))) (drop (length (a @ texts (take k ps))) (a @ texts ps @ b)) =
    pj_text (snd (ps ! k))"
proof -
  have "texts ps = texts (take k ps) @ pj_text (snd (ps ! k)) @ texts (drop (Suc k) ps)"
    using texts_take_drop [of ps "Suc k"] texts_take_Suc [OF assms] by simp
  then show ?thesis by simp
qed

lemma project_whole: "project_transcript_item h i item = Some p \<Longrightarrow> seg_whole (pj_segment p) = (0, length (pj_text p))"
  using project_parts [of h i item p] by simp

text \<open>The items of a range that are shown, each once and in their order, with their projections.\<close>

definition shown_items ::
  "host \<Rightarrow> TranscriptItem list \<Rightarrow> nat \<Rightarrow> nat \<Rightarrow> (nat \<times> TranscriptItemProjection) list" where
  "shown_items h items start end_index =
     filter_map (\<lambda>i. map_option (Pair i) (project_transcript_item h i (items ! i))) [start ..< end_index]"

lemma filter_map_cong: "(\<And>x. x \<in> set xs \<Longrightarrow> f x = g x) \<Longrightarrow> filter_map f xs = filter_map g xs"
  by (induction xs) (auto cong: option.case_cong)

lemma projections_filter_map:
  "projections h n xs =
     filter_map (\<lambda>i. map_option (Pair i) (project_transcript_item h i (xs ! (i - n)))) [n ..< n + length xs]"
proof (induction xs arbitrary: n)
  case (Cons x xs)
  have rest: "filter_map (\<lambda>i. map_option (Pair i) (project_transcript_item h i ((x # xs) ! (i - n)))) [Suc n ..< Suc n + length xs] =
      filter_map (\<lambda>i. map_option (Pair i) (project_transcript_item h i (xs ! (i - Suc n)))) [Suc n ..< Suc n + length xs]"
    by (rule filter_map_cong) (auto simp: Suc_diff_le nth_Cons')
  have "[n ..< n + length (x # xs)] = n # [Suc n ..< Suc n + length xs]" by (simp add: upt_rec)
  then show ?case using Cons.IH [of "Suc n"] rest by (auto split: option.split)
qed simp

lemma range_shown:
  assumes "start \<le> end_index" "end_index \<le> length items"
  shows "range_projections h items start end_index = shown_items h items start end_index"
proof -
  have "start + length (take (end_index - start) (drop start items)) = end_index" using assms by simp
  then show ?thesis
    unfolding range_projections_def shown_items_def projections_filter_map
    by (simp only:) (rule filter_map_cong, use assms in auto)
qed

text \<open>
  C32. A document is its items' projections end to end. For a range in bounds the document is
  returned: its text is the marker of what was left out before, the projections of the visible items of
  the range, each once and in their order, and the marker of what was left out after. It has one
  segment for each of them, in the same order, with the item's index, key and kind: slicing its whole range out
  of the document gives the item's projection, it starts where the one before ended, and its
  header, its body and its spans are those of the projection moved by that start.
\<close>

theorem document_range_tiles:
  fixes h :: host and markers :: bool
  assumes "start \<le> end_index" "end_index \<le> length items"
  defines "ps \<equiv> shown_items h items start end_index"
  shows "\<exists>doc. document_range h items start end_index markers = Some doc \<and>
    doc_text doc = leading_marker start markers @ concat (map (\<lambda>(i, p). pj_text p) ps) @
      trailing_marker (length items) end_index markers \<and>
    length (doc_segments doc) = length ps \<and>
    (\<forall>k < length ps. let (i, p) = ps ! k; q = pj_segment p; s = doc_segments doc ! k; (a, b) = seg_whole s in
       a = length (leading_marker start markers) + length (concat (map (\<lambda>(i, p). pj_text p) (take k ps))) \<and>
       a \<le> b \<and> take (b - a) (drop a (doc_text doc)) = pj_text p \<and>
       (seg_item_index s, seg_item_key s, seg_kind s) = (i, it_key (items ! i), it_kind (items ! i)) \<and>
       seg_header s = (a + fst (seg_header q), a + snd (seg_header q)) \<and>
       seg_body s = (a + fst (seg_body q), a + snd (seg_body q)) \<and>
       map (\<lambda>x. (span_start x, span_end x, span_style x)) (seg_spans s) =
         map (\<lambda>x. (a + span_start x, a + span_end x, span_style x)) (seg_spans q))"
proof -
  let ?lead = "leading_marker start markers"
  obtain doc where doc: "document_range h items start end_index markers = Some doc"
    "doc_text doc = ?lead @ texts ps @ trailing_marker (length items) end_index markers"
    "doc_segments doc = map (\<lambda>k. shifted_segment (pj_segment (snd (ps ! k)))
      (length (?lead @ texts (take k ps)))) [0 ..< length ps]"
    using document_range_spec [OF assms(1,2), of h markers, unfolded range_shown [OF assms(1,2)], folded ps_def] by blast
  have "let (i, p) = ps ! k; q = pj_segment p; s = doc_segments doc ! k; (a, b) = seg_whole s in
       a = length ?lead + length (texts (take k ps)) \<and>
       a \<le> b \<and> take (b - a) (drop a (doc_text doc)) = pj_text p \<and>
       (seg_item_index s, seg_item_key s, seg_kind s) = (i, it_key (items ! i), it_kind (items ! i)) \<and>
       seg_header s = (a + fst (seg_header q), a + snd (seg_header q)) \<and>
       seg_body s = (a + fst (seg_body q), a + snd (seg_body q)) \<and>
       map (\<lambda>x. (span_start x, span_end x, span_style x)) (seg_spans s) =
         map (\<lambda>x. (a + span_start x, a + span_end x, span_style x)) (seg_spans q)"
    if k: "k < length ps" for k
  proof -
    obtain i p where ip: "ps ! k = (i, p)" by fastforce
    then have "project_transcript_item h i (items ! i) = Some p"
      using range_projections_iff [OF assms(1,2), of i p h, unfolded range_shown [OF assms(1,2)], folded ps_def]
        nth_mem [OF k] by simp
    then have q: "seg_whole (pj_segment p) = (0, length (pj_text p))" "seg_item_index (pj_segment p) = i"
      "seg_item_key (pj_segment p) = it_key (items ! i)" "seg_kind (pj_segment p) = it_kind (items ! i)"
      using project_parts [of h i "items ! i" p] by simp_all
    define off where "off = length ?lead + length (texts (take k ps))"
    have seg: "doc_segments doc ! k = shifted_segment (pj_segment p) off" using k ip by (simp add: doc(3) off_def)
    have cut: "take (length (pj_text p)) (drop off (doc_text doc)) = pj_text p"
      using texts_slice [OF k, of ?lead] ip by (simp add: doc(2) off_def)
    show ?thesis
      unfolding ip seg off_def [symmetric] using q cut
      by (simp add: shifted_segment_def shifted_range_def shifted_span_def add.commute comp_def)
  qed
  then show ?thesis using doc unfolding texts_def by (intro exI [of _ doc]) simp
qed

theorem document_range_tiles_witness:
  "\<exists>doc. document_range example_host [example_command] 0 1 True = Some doc \<and>
     doc_text doc = concat (map (\<lambda>(i, p). pj_text p) (shown_items example_host [example_command] 0 1)) \<and>
     length (doc_segments doc) = length (shown_items example_host [example_command] 0 1)"
proof -
  have "(0::nat) \<le> 1" "1 \<le> length [example_command]" by simp_all
  from document_range_tiles [OF this, of example_host True] show ?thesis
    by (auto simp: leading_marker_def trailing_marker_def)
qed

text \<open>The row of an item that is shown counts the line breaks before its segment.\<close>

lemma document_row_shown:
  assumes "document_range h items start end_index markers = Some doc"
    and i: "i \<in> fst ` set (range_projections h items start end_index)"
  shows "\<exists>seg \<in> set (doc_segments doc). seg_item_index seg = i \<and> doc_rows doc ! i =
      Some (newline_rows (take (fst (seg_whole seg)) (doc_text doc)))"
proof -
  let ?ps = "range_projections h items start end_index" and ?lead = "leading_marker start markers"
  have b: "start \<le> end_index" "end_index \<le> length items"
    using assms(1) by (auto simp: document_range_def split: if_splits)
  have doc: "doc_text doc = ?lead @ texts ?ps @ trailing_marker (length items) end_index markers"
    "doc_segments doc = map (\<lambda>k. shifted_segment (pj_segment (snd (?ps ! k)))
      (length (?lead @ texts (take k ?ps)))) [0 ..< length ?ps]"
    "\<And>k. k < length ?ps \<Longrightarrow> doc_rows doc ! fst (?ps ! k) = Some (newline_rows (?lead @ texts (take k ?ps)))"
    using document_range_spec [OF b, of h markers] assms(1) by auto
  obtain k where k: "k < length ?ps" "fst (?ps ! k) = i" using i by (auto simp: in_set_conv_nth)
  obtain p where p: "?ps ! k = (i, p)" using k(2) by (cases "?ps ! k") auto
  then have pr: "project_transcript_item h i (items ! i) = Some p"
    using range_projections_iff [OF b] nth_mem [OF k(1)] by metis
  have seg: "doc_segments doc ! k \<in> set (doc_segments doc)" using k(1) doc(2) by simp
  have sh: "doc_segments doc ! k = shifted_segment (pj_segment p) (length (?lead @ texts (take k ?ps)))"
    using k(1) p by (simp add: doc(2))
  have "texts ?ps = texts (take k ?ps) @ texts (drop k ?ps)" by (rule texts_take_drop)
  then have "take (length (?lead @ texts (take k ?ps))) (doc_text doc) = ?lead @ texts (take k ?ps)"
    by (simp add: doc(1))
  then show ?thesis
    using seg doc(3) [OF k(1)] k(2) project_parts [OF pr]
    by (intro bexI [OF _ seg]) (simp add: sh shifted_segment_def shifted_range_def)
qed

lemma newline_rows_prefix:
  assumes "newlines t < 2 ^ 32"
  shows "unat (newline_rows (take n t)) = newlines (take n t)"
proof -
  have "newlines (take n t) \<le> newlines t"
    by (metis append_take_drop_id le_add1 newlines_append)
  then show ?thesis using assms by (simp add: newline_rows_def unat_of_nat)
qed

text \<open>
  The row of an item is the number of line breaks before it, exactly as long as the
  document has fewer than \<open>2 ^ 32\<close> of them; an item that is not shown has no row.
\<close>

lemma document_rows:
  assumes "document_range h items start end_index markers = Some doc"
    and "newlines (doc_text doc) < 2 ^ 32"
  shows "length (doc_rows doc) = length items \<and>
    (\<forall>i < length items. case doc_rows doc ! i of
       Some row \<Rightarrow> \<exists>seg \<in> set (doc_segments doc). seg_item_index seg = i \<and>
         unat row = newlines (take (fst (seg_whole seg)) (doc_text doc))
     | None \<Rightarrow> i < start \<or> end_index \<le> i \<or> project_transcript_item h i (items ! i) = None)"
proof -
  let ?ps = "range_projections h items start end_index"
  have b: "start \<le> end_index" "end_index \<le> length items"
    using assms(1) by (auto simp: document_range_def split: if_splits)
  have doc: "length (doc_rows doc) = length items"
    "\<And>i. i < length items \<Longrightarrow> i \<notin> fst ` set ?ps \<Longrightarrow> doc_rows doc ! i = None"
    using document_range_spec [OF b, of h markers] assms(1) by auto
  have "case doc_rows doc ! i of
       Some row \<Rightarrow> \<exists>seg \<in> set (doc_segments doc). seg_item_index seg = i \<and>
         unat row = newlines (take (fst (seg_whole seg)) (doc_text doc))
     | None \<Rightarrow> i < start \<or> end_index \<le> i \<or> project_transcript_item h i (items ! i) = None"
    if "i < length items" for i
  proof (cases "i \<in> fst ` set ?ps")
    case True
    from document_row_shown [OF assms(1) this] newline_rows_prefix [OF assms(2)]
    show ?thesis by auto
  next
    case False
    then have "project_transcript_item h i (items ! i) \<noteq> Some p" if "start \<le> i" "i < end_index" for p
      using range_projections_iff [OF b, of i p h] that by force
    then have "i < start \<or> end_index \<le> i \<or> project_transcript_item h i (items ! i) = None"
      by (cases "project_transcript_item h i (items ! i)") (metis not_less)+
    then show ?thesis using doc(2) [OF that False] by simp
  qed
  with doc(1) show ?thesis by blast
qed

text \<open>
  A window is around its center: \<open>document_window\<close> always returns, covers exactly as many
  items as the limit allows and there are, and includes the center when that is an item; the
  whole document never fails either.
\<close>

lemma document_window_ok:
  "\<exists>start end_index. document_window h items center limit =
      document_range h items start end_index True \<and>
    document_window h items center limit \<noteq> None \<and> full_document h items \<noteq> None \<and>
    start \<le> end_index \<and> end_index \<le> length items \<and>
    end_index - start = min (max limit 1) (length items) \<and>
    (length items \<le> center \<or> start \<le> center \<and> center < end_index)"
proof -
  obtain a b where ab: "window_bounds (length items) center limit = (a, b)" by fastforce
  define L where "L = max limit 1"
  have half: "L div 2 < L" by (simp add: L_def)
  have a: "a = b - L" and b: "b = min (center - L div 2 + L) (length items)"
    using ab by (auto simp: window_bounds_def Let_def L_def)
  have r: "a \<le> b" "b \<le> length items" using a b by linarith+
  have n: "b - a = min L (length items)" unfolding a b by linarith
  have c: "length items \<le> center \<or> a \<le> center \<and> center < b"
  proof (cases "length items \<le> center")
    case False
    then have "center < b" unfolding b using half by linarith
    moreover have "a \<le> center" unfolding a b by linarith
    ultimately show ?thesis by simp
  qed simp
  have some: "document_range h items x y mk \<noteq> None" if "x \<le> y" "y \<le> length items" for x y mk
    using that by (simp add: document_range_def Let_def)
  have "document_window h items center limit = document_range h items a b True"
    by (simp add: document_window_def ab)
  then show ?thesis
    using r c n some [of a b True] some [of 0 "length items" False]
    by (intro exI [of _ a] exI [of _ b]) (auto simp: full_document_def L_def)
qed

end
