(* ===== verification/TextUtil.thy ===== *)
theory TextUtil
  imports Json
begin

text \<open>
  The text utilities of \<open>harness_protocol\<close> that the rendering functions share: identifiers
  made readable, one-line summaries, redaction of encoded payloads, durations, reasoning
  sections, lossy decoding.
\<close>

subsection \<open>Identifiers and statuses\<close>

definition is_ascii_digit :: "string \<Rightarrow> bool" where
  "is_ascii_digit c = (case c of [b] \<Rightarrow> in_bytes 0x30 0x39 b | _ \<Rightarrow> False)"

definition is_ascii_alphanumeric :: "char \<Rightarrow> bool" where
  "is_ascii_alphanumeric b = (in_bytes 0x30 0x39 b \<or> in_bytes 0x41 0x5A b \<or> in_bytes 0x61 0x7A b)"

text \<open>The first character in upper case, the rest unchanged.\<close>

definition capitalize :: "host \<Rightarrow> string \<Rightarrow> string" where
  "capitalize h s = (case chars s of [] \<Rightarrow> [] | c # cs \<Rightarrow> char_to_uppercase h c @ concat cs)"

definition humanize_step :: "host \<Rightarrow> string \<times> bool \<Rightarrow> string \<Rightarrow> string \<times> bool" where
  "humanize_step h st character =
     (let (output, previous_was_lowercase) = st
      in if character = ''_'' \<or> character = ''-'' then
           (if ends_with output '' '' then output else output @ '' '', False)
         else
           ((if char_is_uppercase h character \<and> previous_was_lowercase then output @ '' '' else output)
              @ character,
            char_is_lowercase h character \<or> is_ascii_digit character))"

definition humanize_identifier :: "host \<Rightarrow> string \<Rightarrow> string" where
  "humanize_identifier h v =
     capitalize h (trim (fst (foldl (humanize_step h) ([], False) (chars v))))"

definition protocol_status_text :: "host \<Rightarrow> string \<Rightarrow> string" where
  "protocol_status_text h v = str_to_lowercase h (humanize_identifier h v)"

lemma map_of_json_size: "map_of kvs k = Some v \<Longrightarrow> size v < Suc (size_list (size_prod (\<lambda>x. 0) size) kvs)"
proof -
  assume "map_of kvs k = Some v"
  then have "(k, v) \<in> set kvs" by (rule map_of_SomeD)
  then have "size v \<le> size_list (size_prod (\<lambda>x. 0) size) kvs"
    by (intro size_list_estimation' [of "(k, v)"]) auto
  then show ?thesis by simp
qed

function (sequential) protocol_status :: "host \<Rightarrow> json \<Rightarrow> string option" where
  "protocol_status h (JString status) =
     (let status = protocol_status_text h status in if status \<noteq> [] then Some status else None)"
| "protocol_status h (JObject obj) =
     or_else (Option.bind (map_of obj ''type'') (protocol_status h))
       (or_else (Option.bind (map_of obj ''status'') (protocol_status h))
         (Option.bind (map_of obj ''state'') (protocol_status h)))"
| "protocol_status h _ = None"
  by pat_completeness auto
termination
  by (relation "measure (size \<circ> snd)") (auto dest: map_of_json_size)

definition friendly_method :: "host \<Rightarrow> string \<Rightarrow> string" where
  "friendly_method h m =
     join mid_dot (map (capitalize h)
       (filter (\<lambda>part. part \<noteq> []) (split_bytes (\<lambda>c. c = CHR ''/'' \<or> c = CHR ''_'') m)))"

definition one_line :: "string \<Rightarrow> nat \<Rightarrow> string" where
  "one_line v limit =
     (let v = join '' '' (split_whitespace v)
      in if char_count v \<le> limit then v else char_take limit v @ ellipsis)"

subsection \<open>Durations\<close>

text \<open>
  \<open>f64\<close> arithmetic on values at least 1, exactly: a value is a fraction; the nearest double
  has 53 significant bits, ties going to the even one; formatting with a precision rounds
  the exact value the same way.
\<close>

definition round_half_even :: "nat \<Rightarrow> nat \<Rightarrow> nat" where
  "round_half_even p q =
     (let d = p div q; r = p mod q
      in if 2 * r < q \<or> (2 * r = q \<and> even d) then d else d + 1)"

fun bit_length :: "nat \<Rightarrow> nat" where
  "bit_length n = (if n = 0 then 0 else Suc (bit_length (n div 2)))"

declare bit_length.simps [simp del]

definition f64_nearest :: "nat \<Rightarrow> nat \<Rightarrow> nat \<times> nat" where
  "f64_nearest p q =
     (let l = bit_length (p div q)
      in if l \<le> 53 then (round_half_even (p * 2 ^ (53 - l)) q, 2 ^ (53 - l))
         else (round_half_even p (q * 2 ^ (l - 53)) * 2 ^ (l - 53), 1))"

definition format_duration :: "nat \<Rightarrow> string" where
  "format_duration duration_ms =
     (if duration_ms < 1000 then dec duration_ms @ ''ms''
      else
        let (p, q) = f64_nearest duration_ms 1;
            (p, q) = f64_nearest p (q * 1000)
        in if p < 10 * q then
             (let t = round_half_even (10 * p) q in dec (t div 10) @ ''.'' @ dec (t mod 10) @ ''s'')
           else dec (round_half_even p q) @ ''s'')"

subsection \<open>Redaction\<close>

definition looks_like_encoded_payload :: "host \<Rightarrow> string \<Rightarrow> bool" where
  "looks_like_encoded_payload h v =
     (let quote = {CHR 0x27, CHR 0x22, CHR 0x60, CHR '','', CHR '';'', CHR ''('', CHR '')'',
                   CHR ''['', CHR '']''};
          v = trim_end_matches quote (trim_start_matches quote v)
      in length v \<ge> 128 \<and> length v mod 4 = 0 \<and>
         list_all (\<lambda>b. is_ascii_alphanumeric b \<or> b \<in> {CHR ''+'', CHR ''/'', CHR ''=''}) v \<and>
         base64_decode h v \<noteq> None)"

definition encoded_omitted :: string where
  "encoded_omitted = ''[encoded data omitted]''"

definition safe_semantic_text :: "host \<Rightarrow> string \<Rightarrow> string option" where
  "safe_semantic_text h v =
     (let v = trim v
      in if v = [] then None
         else if contains (to_ascii_lowercase v) '';base64,'' then Some encoded_omitted
         else
           let words = split_whitespace v;
               redacted = list_ex (looks_like_encoded_payload h) words;
               txt = join '' ''
                 (map (\<lambda>w. if looks_like_encoded_payload h w then encoded_omitted else w) words);
               txt = (if char_count txt > 8192 then char_take 8192 txt @ ellipsis else txt)
           in if redacted \<and> txt = v then Some encoded_omitted else Some txt)"

definition safe_http_url :: "host \<Rightarrow> string \<Rightarrow> string option" where
  "safe_http_url h v =
     do { v \<leftarrow> safe_semantic_text h v;
          let lower = to_ascii_lowercase v;
          if (starts_with lower ''https://'' \<or> starts_with lower ''http://'') \<and>
             \<not> list_ex is_control (chars v) \<and> \<not> list_ex is_ws (chars v)
          then Some v else None }"

definition display_primitive :: "host \<Rightarrow> json \<Rightarrow> string option" where
  "display_primitive h v =
     (case v of
        JString s \<Rightarrow> safe_semantic_text h s
      | JBool b \<Rightarrow> Some (if b then ''true'' else ''false'')
      | JNumber n \<Rightarrow> Some (case n of PosInt k \<Rightarrow> dec k | NegInt i \<Rightarrow> dec_int i | Float f \<Rightarrow> f)
      | _ \<Rightarrow> None)"

definition push_labeled_text ::
  "host \<Rightarrow> string list \<Rightarrow> string \<Rightarrow> string option \<Rightarrow> string list" where
  "push_labeled_text h sections lbl v =
     (case Option.bind v (safe_semantic_text h) of
        Some v \<Rightarrow> sections @ [lbl @ '': '' @ v]
      | None \<Rightarrow> sections)"

definition bullet_lines :: "string list \<Rightarrow> string" where
  "bullet_lines ls = join [nl] (map (\<lambda>line. ''- '' @ line) ls)"

subsection \<open>Text sections of reasoning items\<close>

definition string_sections :: "string \<Rightarrow> string list" where
  "string_sections t =
     filter (\<lambda>line. line \<noteq> []) (map trim (concat (map lines (split_str blank_line t))))"

function (sequential) text_sections :: "json \<Rightarrow> string list" where
  "text_sections (JString t) = string_sections t"
| "text_sections (JArray vs) = concat (map text_sections vs)"
| "text_sections (JObject obj) =
     (case map_of obj ''text'' of Some v \<Rightarrow> text_sections v | None \<Rightarrow> []) @
     (case map_of obj ''content'' of Some v \<Rightarrow> text_sections v | None \<Rightarrow> []) @
     (case map_of obj ''summary'' of Some v \<Rightarrow> text_sections v | None \<Rightarrow> [])"
| "text_sections _ = []"
  by pat_completeness auto
termination
proof (relation "measure size", goal_cases)
  case (2 vs v)
  then show ?case by (auto simp: less_Suc_eq_le intro: size_list_estimation')
qed (auto dest: map_of_json_size)

definition collect_text_sections :: "json option \<Rightarrow> string list \<Rightarrow> string list" where
  "collect_text_sections v sections =
     sections @ (case v of Some v \<Rightarrow> text_sections v | None \<Rightarrow> [])"

fun unique_from :: "string list \<Rightarrow> string list \<Rightarrow> string list" where
  "unique_from seen [] = []"
| "unique_from seen (s # ss) =
     (if s \<in> set seen then unique_from seen ss else s # unique_from (s # seen) ss)"

definition unique_sections :: "string list \<Rightarrow> string list" where
  "unique_sections sections = unique_from [] sections"

definition merge_unique_reasoning :: "string \<Rightarrow> string \<Rightarrow> string" where
  "merge_unique_reasoning existing incoming =
     (let sections = collect_text_sections (Some (JString existing)) [];
          sections = collect_text_sections (Some (JString incoming)) sections
      in join blank_line (unique_sections sections))"

subsection \<open>Base64 and lossy decoding\<close>

text \<open>
  \<open>String::from_utf8_lossy\<close>: each maximal ill-formed part becomes U+FFFD. The length of
  that part depends on how far the bytes follow a lead byte's valid continuations.
\<close>

definition replacement_char :: string where
  "replacement_char = [CHR 0xEF, CHR 0xBF, CHR 0xBD]"

definition valid_len :: "string \<Rightarrow> nat" where
  "valid_len s =
     (if utf8_char (take 1 s) then 1 else if utf8_char (take 2 s) then 2
      else if utf8_char (take 3 s) then 3 else if utf8_char (take 4 s) then 4 else 0)"

fun second_ok :: "char \<Rightarrow> char \<Rightarrow> bool" where
  "second_ok a b =
     (if in_bytes 0xE0 0xE0 a then in_bytes 0xA0 0xBF b
      else if in_bytes 0xED 0xED a then in_bytes 0x80 0x9F b
      else if in_bytes 0xF0 0xF0 a then in_bytes 0x90 0xBF b
      else if in_bytes 0xF4 0xF4 a then in_bytes 0x80 0x8F b
      else in_bytes 0xE1 0xF3 a \<and> is_cont b)"

fun invalid_len :: "string \<Rightarrow> nat" where
  "invalid_len (a # b # c # _) =
     (if second_ok a b then (if in_bytes 0xF0 0xF4 a \<and> is_cont c then 3 else 2) else 1)"
| "invalid_len [a, b] = (if second_ok a b then 2 else 1)"
| "invalid_len _ = 1"

lemma invalid_len_pos: "0 < invalid_len s"
  by (induction s rule: invalid_len.induct) auto

function utf8_lossy :: "string \<Rightarrow> string" where
  "utf8_lossy s =
     (if s = [] then []
      else if valid_len s \<noteq> 0 then take (valid_len s) s @ utf8_lossy (drop (valid_len s) s)
      else replacement_char @ utf8_lossy (drop (invalid_len s) s))"
  by pat_completeness auto
termination
  by (relation "measure length") (auto simp: invalid_len_pos)

declare utf8_lossy.simps [simp del]

definition decode_base64 :: "host \<Rightarrow> string \<Rightarrow> string option" where
  "decode_base64 h v = map_option utf8_lossy (base64_decode h v)"

end
