(* ===== verification/Requests.thy ===== *)
theory Requests
  imports TextUtil
begin

text \<open>
  How \<open>harness_protocol\<close> shows the server's requests: hook runs, safety reviews, approvals,
  user input and MCP elicitations, model verifications and configuration warnings.
\<close>

subsection \<open>Hook runs and safety reviews\<close>

definition nonempty :: "string option \<Rightarrow> string option" where
  "nonempty v = opt_filter (\<lambda>s. s \<noteq> []) v"

definition opt_list :: "'a option \<Rightarrow> 'a list" where
  "opt_list v = (case v of Some x \<Rightarrow> [x] | None \<Rightarrow> [])"

definition render_hook_run :: "host \<Rightarrow> json \<Rightarrow> string" where
  "render_hook_run h run =
     (let handler = map_option (humanize_identifier h) (string_at run [''handlerType'']);
          mode = map_option (humanize_identifier h) (string_at run [''executionMode'']);
          ls = (if handler \<noteq> None \<or> mode \<noteq> None
                then [join mid_dot (opt_list handler @ opt_list mode)] else []);
          ls = ls @ opt_list (string_at run [''sourcePath'']);
          ls = ls @ opt_list (nonempty (string_at run [''statusMessage'']));
          ls = (case Option.bind (jget ''entries'' run) as_array of
                  Some entries \<Rightarrow>
                    ls @ filter_map
                      (\<lambda>entry. do { t \<leftarrow> string_at entry [''text'']; nonempty (Some (trim t)) }) entries
                | None \<Rightarrow> ls)
      in if ls = [] then ''Hook activity'' else join blank_line ls)"

definition approval_review_title :: "host \<Rightarrow> json \<Rightarrow> string" where
  "approval_review_title h params =
     ''Safety review'' @ mid_dot @
       humanize_identifier h (unwrap_or (string_at params [''action'', ''type'']) ''action'')"

definition render_approval_review :: "host \<Rightarrow> json \<Rightarrow> string" where
  "render_approval_review h params =
     (let action = unwrap_or (jget ''action'' params) JNull;
          ls = (case string_at action [''command''] of
                  Some command \<Rightarrow> [''$ '' @ command]
                | None \<Rightarrow>
                    (case or_else (string_at action [''toolTitle'']) (string_at action [''toolName'']) of
                       Some tool \<Rightarrow> [tool]
                     | None \<Rightarrow>
                         (case string_at action [''target''] of
                            Some target \<Rightarrow> [target]
                          | None \<Rightarrow>
                              (case string_at action [''type''] of
                                 Some action_type \<Rightarrow> [humanize_identifier h action_type]
                               | None \<Rightarrow> []))));
          ls = ls @ opt_list (nonempty (string_at params [''review'', ''rationale'']));
          ls = (case string_at params [''review'', ''riskLevel''] of
                  Some risk \<Rightarrow> ls @ [''Risk'' @ mid_dot @ humanize_identifier h risk]
                | None \<Rightarrow> ls)
      in if ls = [] then ''Codex reviewed an action before running it.'' else join blank_line ls)"

subsection \<open>Permissions and decisions\<close>

record PendingRequestPresentation =
  prp_title :: string
  prp_content :: string

definition permission_path :: "host \<Rightarrow> json option \<Rightarrow> string option" where
  "permission_path h path =
     do { path \<leftarrow> path;
          (case string_at path [''type''] of
             Some t \<Rightarrow>
               if t = ''path'' then Option.bind (string_at path [''path'']) (safe_semantic_text h)
               else if t = ''glob_pattern'' then
                 map_option (\<lambda>pattern. ''glob '' @ pattern)
                   (Option.bind (string_at path [''pattern'']) (safe_semantic_text h))
               else if t = ''special'' then
                 map_option (humanize_identifier h)
                   (Option.bind (string_at path [''value'']) (safe_semantic_text h))
               else Option.bind (as_str path) (safe_semantic_text h)
           | None \<Rightarrow> Option.bind (as_str path) (safe_semantic_text h)) }"

definition permission_lines :: "host \<Rightarrow> json \<Rightarrow> string list" where
  "permission_lines h permissions =
     (case jget ''fileSystem'' permissions of
        Some file_system \<Rightarrow>
          (case Option.bind (jget ''entries'' file_system) as_array of
             Some entries \<Rightarrow>
               filter_map (\<lambda>entry.
                 let access = unwrap_or
                       (map_option (humanize_identifier h) (string_at entry [''access''])) ''Access''
                 in map_option (\<lambda>path. ''- '' @ access @ '': '' @ path)
                      (permission_path h (jget ''path'' entry))) entries
           | None \<Rightarrow> []) @
          concat (map (\<lambda>(key, lbl).
            case Option.bind (jget key file_system) as_array of
              Some paths \<Rightarrow>
                filter_map (\<lambda>path. map_option (\<lambda>path. ''- '' @ lbl @ '': '' @ path)
                  (display_primitive h path)) paths
            | None \<Rightarrow> []) [(''read'', ''Read''), (''write'', ''Write'')])
      | None \<Rightarrow> []) @
     (case Option.bind (pointer [''network'', ''enabled''] permissions) as_bool of
        Some enabled \<Rightarrow>
          [if enabled then ''- Network access'' else ''- Network access remains disabled'']
      | None \<Rightarrow> [])"

definition legacy_file_change_lines :: "host \<Rightarrow> json option \<Rightarrow> string list" where
  "legacy_file_change_lines h file_changes =
     filter_map (\<lambda>(path, change).
       do { path \<leftarrow> safe_semantic_text h path;
            let action = unwrap_or
                  (map_option (humanize_identifier h) (string_at change [''type''])) ''change'';
            let destination = Option.bind (string_at change [''move_path'']) (safe_semantic_text h);
            Some (case destination of
                    None \<Rightarrow> ''- '' @ action @ '': '' @ path
                  | Some destination \<Rightarrow>
                      ''- '' @ action @ '': '' @ path @ right_arrow @ destination) })
       (unwrap_or (Option.bind file_changes as_object) [])"

definition legacy_approval_decisions :: "string list" where
  "legacy_approval_decisions =
     [''Allow once'', ''Allow for this task'', ''Deny'', ''Deny and stop the turn'']"

definition command_approval_decision_label :: "host \<Rightarrow> json \<Rightarrow> string option" where
  "command_approval_decision_label h decision =
     (case as_str decision of
        Some d \<Rightarrow>
          if d = ''accept'' then Some ''Allow once''
          else if d = ''acceptForSession'' then Some ''Allow for this task''
          else if d = ''decline'' then Some ''Deny''
          else if d = ''cancel'' then Some ''Deny and stop the turn''
          else None
      | None \<Rightarrow>
          if jget ''acceptWithExecpolicyAmendment'' decision \<noteq> None then
            Some ''Allow and remember matching commands''
          else
            do { amendment \<leftarrow> jget ''applyNetworkPolicyAmendment'' decision;
                 let host = Option.bind (string_at amendment [''network_policy_amendment'', ''host''])
                              (safe_semantic_text h);
                 let action = unwrap_or (map_option (humanize_identifier h)
                       (string_at amendment [''network_policy_amendment'', ''action''])) ''apply'';
                 Some (case host of
                         None \<Rightarrow> ''Apply the proposed network rule''
                       | Some host \<Rightarrow> action @ '' and remember network access for '' @ host) })"

definition command_approval_decision_labels :: "host \<Rightarrow> json \<Rightarrow> string list" where
  "command_approval_decision_labels h params =
     (case jget ''availableDecisions'' params of
        None \<Rightarrow> [''Allow once'', ''Allow for this task'', ''Deny'', ''Deny and stop the turn'']
      | Some JNull \<Rightarrow>
          [''Allow once'', ''Allow for this task'', ''Deny'', ''Deny and stop the turn'']
      | Some (JArray decisions) \<Rightarrow> filter_map (command_approval_decision_label h) decisions
      | Some _ \<Rightarrow> [])"

subsection \<open>Approvals\<close>

definition render_command_approval ::
  "host \<Rightarrow> json \<Rightarrow> bool \<Rightarrow> PendingRequestPresentation" where
  "render_command_approval h params legacy =
     (let command = nonempty
            (if legacy then
               map_option (\<lambda>parts.
                 join '' '' (filter_map (safe_semantic_text h) (filter_map as_str parts)))
                 (Option.bind (jget ''command'' params) as_array)
             else Option.bind (string_at params [''command'']) (safe_semantic_text h));
          sections = (case command of Some command \<Rightarrow> [''$ '' @ command] | None \<Rightarrow> []);
          sections = push_labeled_text h sections ''Working directory'' (string_at params [''cwd'']);
          sections = push_labeled_text h sections ''Reason'' (string_at params [''reason'']);
          sections =
            (case (if legacy then None else jget ''additionalPermissions'' params) of
               Some permissions \<Rightarrow>
                 (let permissions = permission_lines h permissions
                  in if permissions \<noteq> [] then
                       sections @ [''Requested permissions'' @ [nl] @ join [nl] permissions]
                     else sections)
             | None \<Rightarrow> sections);
          sections = (if sections = [] then
              [''Codex wants to run a command, but no displayable command details were provided.'']
            else sections);
          decisions = (if legacy then legacy_approval_decisions
                       else command_approval_decision_labels h params);
          sections = (if decisions \<noteq> [] then
              sections @ [''Available decisions'' @ [nl] @ bullet_lines decisions] else sections);
          title = (case command of
              None \<Rightarrow> ''Command approval''
            | Some command \<Rightarrow> ''Command approval'' @ mid_dot @ one_line command 72)
      in \<lparr>prp_title = title, prp_content = join blank_line sections\<rparr>)"

definition render_file_change_approval ::
  "host \<Rightarrow> json \<Rightarrow> bool \<Rightarrow> PendingRequestPresentation" where
  "render_file_change_approval h params legacy =
     (let sections =
            (if legacy then
               (let changes = legacy_file_change_lines h (jget ''fileChanges'' params)
                in if changes \<noteq> [] then
                     [''Requested file changes'' @ [nl] @ join [nl] changes] else [])
             else []);
          sections = push_labeled_text h sections ''Write scope'' (string_at params [''grantRoot'']);
          sections = push_labeled_text h sections ''Reason'' (string_at params [''reason'']);
          sections = sections @ [''Available decisions'' @ [nl] @ bullet_lines
            (if legacy then legacy_approval_decisions
             else [''Allow once'', ''Allow for this task'', ''Deny'', ''Deny and stop the turn''])];
          sections = (if length sections = 1 then
              ''Codex wants to change files, but no displayable file scope was provided.'' # sections
            else sections)
      in \<lparr>prp_title = (if legacy then ''Patch approval'' else ''File changes approval''),
          prp_content = join blank_line sections\<rparr>)"

definition render_permissions_approval :: "host \<Rightarrow> json \<Rightarrow> PendingRequestPresentation" where
  "render_permissions_approval h params =
     (let permissions =
            (case jget ''permissions'' params of Some p \<Rightarrow> permission_lines h p | None \<Rightarrow> []);
          sections =
            (if permissions = [] then
               [''Codex requested additional permissions, but no displayable permission subset was provided.'']
             else [''Requested permission subset'' @ [nl] @ join [nl] permissions]);
          sections = push_labeled_text h sections ''Working directory'' (string_at params [''cwd'']);
          sections = push_labeled_text h sections ''Reason'' (string_at params [''reason'']);
          sections = sections @
            [''The response can grant exactly this subset for the turn, or deny it.'']
      in \<lparr>prp_title = ''Permission approval'', prp_content = join blank_line sections\<rparr>)"

subsection \<open>User input\<close>

definition render_user_input_question :: "host \<Rightarrow> json \<Rightarrow> string option" where
  "render_user_input_question h question =
     do { prompt \<leftarrow> Option.bind (string_at question [''question'']) (safe_semantic_text h);
          let header = Option.bind (string_at question [''header'']) (safe_semantic_text h);
          let ls = [case header of None \<Rightarrow> prompt | Some header \<Rightarrow> header @ em_dash @ prompt];
          let ls = (case Option.bind (jget ''options'' question) as_array of
                      Some options \<Rightarrow>
                        ls @ filter_map (\<lambda>option.
                          do { lbl \<leftarrow> Option.bind (string_at option [''label'']) (safe_semantic_text h);
                               let description = Option.bind (string_at option [''description''])
                                     (safe_semantic_text h);
                               Some (case description of
                                       None \<Rightarrow> ''- '' @ lbl
                                     | Some description \<Rightarrow>
                                         ''- '' @ lbl @ em_dash @ description) }) options
                    | None \<Rightarrow> ls);
          let ls = (if unwrap_or (Option.bind (jget ''isOther'' question) as_bool) False
                    then ls @ [''- A custom response is allowed''] else ls);
          let ls = (if unwrap_or (Option.bind (jget ''isSecret'' question) as_bool) False
                    then ls @ [''Your response will be hidden while you type.''] else ls);
          Some (join [nl] ls) }"

definition render_user_input_request :: "host \<Rightarrow> json \<Rightarrow> PendingRequestPresentation" where
  "render_user_input_request h params =
     (let questions = filter_map (render_user_input_question h)
            (unwrap_or (Option.bind (jget ''questions'' params) as_array) []);
          detail = Option.bind
            (Option.bind (pointer [''questions'', ''0'', ''header''] params) as_str)
            (safe_semantic_text h)
      in \<lparr>prp_title = (case detail of
             None \<Rightarrow> ''Input requested''
           | Some detail \<Rightarrow> ''Input requested'' @ mid_dot @ one_line detail 72),
          prp_content = (if questions = [] then
              ''Codex requested input, but no displayable questions were provided.''
            else join blank_line questions)\<rparr>)"

subsection \<open>MCP elicitations\<close>

lemma jget_size: "jget k v = Some w \<Longrightarrow> size w < size v"
  by (cases v) (auto simp: jget_def dest: map_of_json_size)

definition titled_choice :: "host \<Rightarrow> json \<Rightarrow> string option" where
  "titled_choice h choice =
     or_else (Option.bind (string_at choice [''title'']) (safe_semantic_text h))
       (Option.bind (jget ''const'' choice) (display_primitive h))"

text \<open>The loop over the keys returns at the first key whose array gives a choice.\<close>

fun keyed_choices :: "host \<Rightarrow> json \<Rightarrow> string list \<Rightarrow> string list option" where
  "keyed_choices h schema [] = None"
| "keyed_choices h schema (key # keys) =
     (case Option.bind (jget key schema) as_array of
        Some vs \<Rightarrow>
          (let choices = filter_map (titled_choice h) vs
           in if choices \<noteq> [] then Some choices else keyed_choices h schema keys)
      | None \<Rightarrow> keyed_choices h schema keys)"

function mcp_schema_choices :: "host \<Rightarrow> json \<Rightarrow> string list" where
  "mcp_schema_choices h schema =
     (case Option.bind (jget ''enum'' schema) as_array of
        Some vs \<Rightarrow> filter_map (display_primitive h) vs
      | None \<Rightarrow>
          (case keyed_choices h schema [''oneOf'', ''anyOf''] of
             Some choices \<Rightarrow> choices
           | None \<Rightarrow>
               if string_at schema [''type''] = Some ''array'' then
                 (case jget ''items'' schema of
                    Some items \<Rightarrow> mcp_schema_choices h items
                  | None \<Rightarrow> [])
               else []))"
  by pat_completeness auto
termination
  by (relation "measure (size \<circ> snd)") (auto dest: jget_size)

declare mcp_schema_choices.simps [simp del]

definition mcp_field_line :: "host \<Rightarrow> string list \<Rightarrow> string \<times> json \<Rightarrow> string option" where
  "mcp_field_line h required property =
     (let (property_name, field) = property; is_required = property_name \<in> set required
      in do { name \<leftarrow> safe_semantic_text h property_name;
              let title = unwrap_or
                    (Option.bind (string_at field [''title'']) (safe_semantic_text h)) name;
              let metadata = (if is_required then [''required''] else []);
              let metadata = (case string_at field [''type''] of
                    Some kind \<Rightarrow> metadata @
                      [if kind = ''array'' then ''list''
                       else if kind = ''boolean'' then ''true or false''
                       else humanize_identifier h kind]
                  | None \<Rightarrow> metadata);
              let choices = mcp_schema_choices h field;
              let metadata = (if choices \<noteq> [] then
                    metadata @ [''choices: '' @ join '', '' choices] else metadata);
              let metadata = (case Option.bind (jget ''default'' field) (display_primitive h) of
                    Some dflt \<Rightarrow> metadata @ [''default: '' @ dflt]
                  | None \<Rightarrow> metadata);
              let line = ''- '' @ title @
                    (if metadata \<noteq> [] then '' ('' @ join mid_dot metadata @ '')'' else []);
              Some (case Option.bind (string_at field [''description'']) (safe_semantic_text h) of
                      Some description \<Rightarrow> line @ em_dash @ description
                    | None \<Rightarrow> line) })"

definition render_mcp_form_fields :: "host \<Rightarrow> json option \<Rightarrow> string list" where
  "render_mcp_form_fields h schema =
     (case schema of
        None \<Rightarrow> []
      | Some schema \<Rightarrow>
          (let required = filter_map as_str
                 (unwrap_or (Option.bind (jget ''required'' schema) as_array) [])
           in filter_map (mcp_field_line h required)
                (unwrap_or (Option.bind (jget ''properties'' schema) as_object) [])))"

definition elicitation_section :: "host \<Rightarrow> json \<Rightarrow> string" where
  "elicitation_section h params =
     (let mode = string_at params [''mode'']
      in if mode = Some ''form'' then
           (let fields = render_mcp_form_fields h (jget ''requestedSchema'' params)
            in if fields = [] then
                 ''The server requested a form, but no displayable fields were provided.''
               else ''Requested fields'' @ [nl] @ join [nl] fields)
         else if mode = Some ''url'' then
           (case Option.bind (string_at params [''url'']) (safe_http_url h) of
              Some url \<Rightarrow> ''Open this link to continue:'' @ [nl] @ url
            | None \<Rightarrow> ''The server requested a link that is not safe to display.'')
         else if mode = Some ''openai/form'' then
           ''The server requested an extended form. Its fields are available in the secure request UI.''
         else ''The server requested input in an unsupported format.'')"

definition render_mcp_elicitation_request :: "host \<Rightarrow> json \<Rightarrow> PendingRequestPresentation" where
  "render_mcp_elicitation_request h params =
     (let server = Option.bind (string_at params [''serverName'']) (safe_semantic_text h);
          sections = (case server of Some server \<Rightarrow> [''Server: '' @ server] | None \<Rightarrow> []);
          sections = sections @
            opt_list (Option.bind (string_at params [''message'']) (safe_semantic_text h));
          sections = sections @ [elicitation_section h params]
      in \<lparr>prp_title = (case server of
             None \<Rightarrow> ''MCP input requested''
           | Some server \<Rightarrow> ''MCP input requested'' @ mid_dot @ one_line server 64),
          prp_content = join blank_line sections\<rparr>)"

subsection \<open>Dispatch, verifications, configuration warnings\<close>

definition pending_request_presentation ::
  "host \<Rightarrow> string \<Rightarrow> json \<Rightarrow> PendingRequestPresentation" where
  "pending_request_presentation h m params =
     (if m = ''item/commandExecution/requestApproval'' then render_command_approval h params False
      else if m = ''item/fileChange/requestApproval'' then render_file_change_approval h params False
      else if m = ''item/permissions/requestApproval'' then render_permissions_approval h params
      else if m = ''item/tool/requestUserInput'' then render_user_input_request h params
      else if m = ''mcpServer/elicitation/request'' then render_mcp_elicitation_request h params
      else if m = ''execCommandApproval'' then render_command_approval h params True
      else if m = ''applyPatchApproval'' then render_file_change_approval h params True
      else \<lparr>prp_title = ''Confirmation requested'',
            prp_content =
              ''Codex requested confirmation. The complete event is available in the raw journal.''\<rparr>)"

definition render_model_verifications :: "host \<Rightarrow> json \<Rightarrow> string" where
  "render_model_verifications h params =
     (case Option.bind (jget ''verifications'' params) as_array of
        None \<Rightarrow> ''Model verification completed.''
      | Some [] \<Rightarrow> ''Model verification completed.''
      | Some verifications \<Rightarrow>
          join blank_line (map (\<lambda>verification.
            case verification of
              JString v \<Rightarrow> humanize_identifier h v
            | other \<Rightarrow> pretty_json h other) verifications))"

definition render_config_warning :: "json \<Rightarrow> string" where
  "render_config_warning params =
     (let warning = unwrap_or (string_at params [''summary'']) ''Codex configuration warning'';
          warning = (case string_at params [''path''] of
                       Some path \<Rightarrow> warning @ mid_dot @ path | None \<Rightarrow> warning)
      in case nonempty (string_at params [''details'']) of
           Some details \<Rightarrow> warning @ '': '' @ details
         | None \<Rightarrow> warning)"

end
