(* ===== verification/Journal.thy ===== *)
theory Journal
  imports TextUtil Items
begin

text \<open>
  What \<open>harness_protocol\<close> keeps of a payload or an item when it is too large: the bounded
  raw payloads of the diagnostic journal, the items of the local history cache, and the path
  of that cache. The length of a serialised value comes from \<open>json_to_vec\<close> of the host.
\<close>

definition RAW_EVENT_LIMIT :: nat where "RAW_EVENT_LIMIT = 4096"
definition RAW_EVENT_EVICTION_BATCH :: nat where "RAW_EVENT_EVICTION_BATCH = 512"
definition RAW_PAYLOAD_LIMIT :: nat where "RAW_PAYLOAD_LIMIT = 256 * 1024"
definition RAW_STRING_LIMIT :: nat where "RAW_STRING_LIMIT = 64 * 1024"
definition RAW_ARRAY_LIMIT :: nat where "RAW_ARRAY_LIMIT = 512"
definition SNAPSHOT_VERSION :: nat where "SNAPSHOT_VERSION = 1"
definition SNAPSHOT_RAW_LIMIT :: nat where "SNAPSHOT_RAW_LIMIT = 512 * 1024"
definition SNAPSHOT_CONTENT_LIMIT :: nat where "SNAPSHOT_CONTENT_LIMIT = 2 * 1024 * 1024"

subsection \<open>Bounded payloads\<close>

definition omitted_string :: "nat \<Rightarrow> json" where
  "omitted_string n = JString (''['' @ dec n @ '' bytes omitted from diagnostic payload]'')"

definition omitted_values :: "nat \<Rightarrow> json" where
  "omitted_values n =
     JString (''['' @ dec n @ '' additional values omitted from diagnostic payload]'')"

text \<open>Only the first \<open>RAW_ARRAY_LIMIT\<close> values of an array are visited.\<close>

function (sequential) trim_large_json_values :: "json \<Rightarrow> json" where
  "trim_large_json_values (JString t) =
     (if length t > RAW_STRING_LIMIT then omitted_string (length t) else JString t)"
| "trim_large_json_values (JArray vs) =
     JArray (map trim_large_json_values (take RAW_ARRAY_LIMIT vs) @
       (if length vs > RAW_ARRAY_LIMIT then [omitted_values (length vs - RAW_ARRAY_LIMIT)] else []))"
| "trim_large_json_values (JObject obj) =
     JObject (map (\<lambda>(k, v). (k, trim_large_json_values v)) obj)"
| "trim_large_json_values v = v"
  by pat_completeness auto
termination
proof (relation "measure size", goal_cases)
  case (2 vs v)
  then have "v \<in> set vs" by (auto dest: in_set_takeD)
  then show ?case by (auto simp: less_Suc_eq_le intro: size_list_estimation')
next
  case (3 obj z k v)
  then have "size v \<le> size_list (size_prod (\<lambda>x. 0) size) obj"
    by (intro size_list_estimation' [of "(k, v)"]) auto
  then show ?case by simp
qed simp

text \<open>\<open>usize::MAX\<close> stands for a value that does not serialise.\<close>

definition serialized_size :: "host \<Rightarrow> json \<Rightarrow> nat" where
  "serialized_size h v =
     (case json_to_vec h v of Some bytes \<Rightarrow> length bytes | None \<Rightarrow> 2 ^ 64 - 1)"

definition bounded_raw_payload :: "host \<Rightarrow> json \<Rightarrow> json" where
  "bounded_raw_payload h payload =
     (let original_size = (case json_to_vec h payload of Some bytes \<Rightarrow> length bytes | None \<Rightarrow> 0);
          trimmed = trim_large_json_values payload;
          bounded_size = serialized_size h trimmed
      in if bounded_size \<le> RAW_PAYLOAD_LIMIT then trimmed
         else JObject
           [(''rawPayload'',
              JString ''omitted because the diagnostic payload exceeded the in-memory limit''),
            (''originalBytes'', JNumber (PosInt original_size)),
            (''boundedBytes'', JNumber (PosInt bounded_size))])"

text \<open>Every string and every array of the value is within the limits.\<close>

fun bounded_json :: "json \<Rightarrow> bool" where
  "bounded_json (JString t) = (length t \<le> RAW_STRING_LIMIT)"
| "bounded_json (JArray vs) = (length vs \<le> RAW_ARRAY_LIMIT + 1 \<and> list_all bounded_json vs)"
| "bounded_json (JObject obj) = list_all (\<lambda>(k, v). bounded_json v) obj"
| "bounded_json _ = True"

subsection \<open>The history cache\<close>

definition truncation_marker :: string where
  "truncation_marker = blank_line @ ellipsis @ '' output truncated in local history cache '' @
     ellipsis @ blank_line"

text \<open>The slices panic (\<open>None\<close>) off a character boundary.\<close>

definition truncate_middle :: "string \<Rightarrow> nat \<Rightarrow> string option" where
  "truncate_middle v byte_limit =
     (if length v \<le> byte_limit then Some v
      else
        let available = byte_limit - length truncation_marker;
            head_end = back_off (char_boundary v) (available * 3 div 4);
            tail_start = step_up (char_boundary v) (length v - (available - head_end)) (length v)
        in do { head \<leftarrow> str_slice v 0 head_end;
                tail \<leftarrow> str_slice v tail_start (length v);
                Some (head @ truncation_marker @ tail) })"

definition item_for_snapshot :: "host \<Rightarrow> TranscriptItem \<Rightarrow> TranscriptItem option" where
  "item_for_snapshot h item =
     do { content \<leftarrow> (if length (it_content item) > SNAPSHOT_CONTENT_LIMIT
                     then truncate_middle (it_content item) SNAPSHOT_CONTENT_LIMIT
                     else Some (it_content item));
          let item = item\<lparr>it_content := content\<rparr>;
          Some (if (case json_to_vec h (it_raw item) of
                      Some bytes \<Rightarrow> length bytes > SNAPSHOT_RAW_LIMIT | None \<Rightarrow> True)
                then item\<lparr>it_raw := JObject
                  [(''snapshot'', JString ''Raw payload omitted from the local history cache because it exceeded 512 KiB. Live semantic content is preserved.''),
                   (''protocolId'', case it_protocol_id item of Some i \<Rightarrow> JString i | None \<Rightarrow> JNull)]\<rparr>
                else item) }"

text \<open>
  \<open>PathBuf::join\<close> with a relative component; \<open>env\<close> is the process environment. The result
  is \<open>None\<close> where the source returns an error.
\<close>

definition path_join :: "string \<Rightarrow> string \<Rightarrow> string" where
  "path_join base part =
     (if base = [] \<or> ends_with base ''/'' then base @ part else base @ ''/'' @ part)"

definition valid_thread_id :: "string \<Rightarrow> bool" where
  "valid_thread_id i =
     (i \<noteq> [] \<and> list_all (\<lambda>c. is_ascii_alphanumeric c \<or> c \<in> {CHR ''-'', CHR ''_''}) i)"

definition transcript_snapshot_path ::
  "(string \<Rightarrow> string option) \<Rightarrow> string \<Rightarrow> string option" where
  "transcript_snapshot_path env thread_id =
     (if \<not> valid_thread_id thread_id then None
      else
        do { state_root \<leftarrow>
               or_else (opt_filter (\<lambda>p. p \<noteq> []) (env ''XDG_STATE_HOME''))
                 (map_option (\<lambda>p. path_join p ''.local/state'')
                   (opt_filter (\<lambda>p. p \<noteq> []) (env ''HOME'')));
             Some (path_join (path_join (path_join state_root ''harness'') ''transcripts'')
                     (thread_id @ ''.json'')) })"

text \<open>The snapshot \<open>persist_transcript\<close> writes.\<close>

definition snapshot_of ::
  "host \<Rightarrow> string \<Rightarrow> TranscriptItem list \<Rightarrow> PersistedTranscript option" where
  "snapshot_of h thread_id items =
     (let kept = map (item_for_snapshot h) items
      in if list_all (\<lambda>x. x \<noteq> None) kept
         then Some \<lparr>pt_version = SNAPSHOT_VERSION, pt_thread_id = thread_id, pt_items = map the kept\<rparr>
         else None)"

subsection \<open>What is kept is small\<close>

text \<open>The decimal form of a 64-bit length has at most 20 digits.\<close>

lemma dec_length: "n < 10 ^ Suc k \<Longrightarrow> length (dec n) \<le> Suc k"
proof (induction k arbitrary: n)
  case 0
  then show ?case by (simp add: dec.simps)
next
  case (Suc k)
  show ?case
  proof (cases "n < 10")
    case False
    from Suc.prems have "n div 10 < 10 ^ Suc k" by (simp add: less_mult_imp_div_less)
    from Suc.IH [OF this] False show ?thesis by (subst dec.simps) simp
  qed (simp add: dec.simps)
qed

lemma dec_length_64: "n < 2 ^ 64 \<Longrightarrow> length (dec n) \<le> 20"
  using dec_length [of n 19] by simp

text \<open>Every string and array has a length that a \<open>usize\<close> holds.\<close>

fun addressable :: "json \<Rightarrow> bool" where
  "addressable (JString t) = (length t < 2 ^ 64)"
| "addressable (JArray vs) = (length vs < 2 ^ 64 \<and> list_all addressable vs)"
| "addressable (JObject obj) = list_all (\<lambda>(k, v). addressable v) obj"
| "addressable _ = True"

lemma bounded_omitted:
  "n < 2 ^ 64 \<Longrightarrow> bounded_json (omitted_string n)" "n < 2 ^ 64 \<Longrightarrow> bounded_json (omitted_values n)"
  using dec_length_64 [of n]
  by (simp_all add: omitted_string_def omitted_values_def RAW_STRING_LIMIT_def)

lemma addressable_omitted:
  "n < 2 ^ 64 \<Longrightarrow> addressable (omitted_string n)" "n < 2 ^ 64 \<Longrightarrow> addressable (omitted_values n)"
  using dec_length_64 [of n] by (simp_all add: omitted_string_def omitted_values_def)

lemma bounded_trim: "addressable v \<Longrightarrow> bounded_json (trim_large_json_values v)"
proof (induction v rule: trim_large_json_values.induct)
  case (1 t)
  then show ?case by (simp add: bounded_omitted)
next
  case (2 vs)
  then have "bounded_json w" if "w \<in> set (map trim_large_json_values (take RAW_ARRAY_LIMIT vs))" for w
    using that by (auto simp: list_all_iff dest: in_set_takeD)
  moreover have "bounded_json (omitted_values (length vs - RAW_ARRAY_LIMIT))"
    using 2(2) by (intro bounded_omitted) (auto intro: le_less_trans)
  ultimately show ?case by (auto simp: list_all_iff)
next
  case (3 obj)
  then show ?case by (fastforce simp: list_all_iff)
qed simp_all

text \<open>
  C38. What is kept of a payload is bounded. Every string in it has at most 64 KiB and every
  array at most 513 elements; the whole serialises to at most 256 KiB, unless it is the
  fixed object of three fields that stands for a larger payload.
\<close>

theorem bounded_raw_payload_bounded:
  fixes h :: host and v :: json
  assumes "addressable v"
  defines "w \<equiv> bounded_raw_payload h v"
  shows "bounded_json w \<and>
    (serialized_size h w \<le> RAW_PAYLOAD_LIMIT \<or>
     (\<exists>a b. w = JObject
        [(''rawPayload'',
           JString ''omitted because the diagnostic payload exceeded the in-memory limit''),
         (''originalBytes'', a), (''boundedBytes'', b)]))"
  using bounded_trim [OF assms(1)]
  by (auto simp: w_def bounded_raw_payload_def Let_def RAW_STRING_LIMIT_def)

text \<open>An instance of the services in which nothing serialises to more than two bytes.\<close>

definition tiny_host :: host where
  "tiny_host =
     \<lparr>char_to_uppercase = id, char_is_uppercase = (\<lambda>c. False), char_is_lowercase = (\<lambda>c. False),
      str_to_uppercase = id, str_to_lowercase = id, json_to_vec = (\<lambda>v. Some ''{}''),
      json_to_string_pretty = (\<lambda>v. Some ''{}''), json_display = (\<lambda>v. ''{}''),
      base64_decode = (\<lambda>s. None), markdown_events = (\<lambda>s. [])\<rparr>"

theorem bounded_raw_payload_bounded_witness:
  "bounded_json (bounded_raw_payload tiny_host (JArray [JString ''a'']))"
  using bounded_raw_payload_bounded [of "JArray [JString ''a'']" tiny_host] by simp

text \<open>
  Bounding is not idempotent: an array that was already cut is cut again, and the
  marker that told how many values are missing is replaced by one that tells 1. The source
  does bound bounded payloads again, when a request is resolved or an item is reviewed.
\<close>

lemma trim_again_loses_count:
  assumes "RAW_ARRAY_LIMIT < length vs"
  shows "trim_large_json_values (trim_large_json_values (JArray vs)) =
    JArray (map (trim_large_json_values \<circ> trim_large_json_values) (take RAW_ARRAY_LIMIT vs) @
      [omitted_values 1])"
  using assms by simp

subsection \<open>Truncation\<close>

lemma utf8_marker: "utf8 truncation_marker"
  by code_simp

lemma truncate_middle_spec:
  assumes "utf8 v"
  shows "\<exists>r. truncate_middle v limit = Some r \<and> utf8 r \<and>
    length r \<le> max limit (length truncation_marker) \<and>
    (if length v \<le> limit then r = v
     else \<exists>a b c. v = a @ b @ c \<and> r = a @ truncation_marker @ c)"
proof (cases "length v \<le> limit")
  case True
  with assms show ?thesis by (simp add: truncate_middle_def)
next
  case False
  define available where "available = limit - length truncation_marker"
  define i where "i = back_off (char_boundary v) (available * 3 div 4)"
  define j where "j = step_up (char_boundary v) (length v - (available - i)) (length v)"
  have i: "i \<le> available * 3 div 4" "char_boundary v i"
    by (simp_all add: i_def back_off_holds)
  have j: "length v - (available - i) \<le> j" "j \<le> length v" "char_boundary v j"
    using step_up_bounds [of "length v - (available - i)" "length v" "char_boundary v"]
      step_up_holds [of "length v - (available - i)" "length v" "char_boundary v"]
    by (simp_all add: j_def)
  have ij: "i \<le> j" using i(1) j(1) False by (simp add: available_def)
  have sl: "str_slice v 0 i = Some (take i v)" "str_slice v j (length v) = Some (drop j v)"
    using i j by (simp_all add: str_slice_Some)
  have r: "truncate_middle v limit = Some (take i v @ truncation_marker @ drop j v)"
    using False sl by (simp add: truncate_middle_def Let_def available_def i_def j_def)
  have u: "utf8 (take i v)" "utf8 (drop j v)"
    using str_slice_utf8 [OF assms] sl by blast+
  have "v = take i v @ drop i (take j v) @ drop j v"
    using ij by (metis append_take_drop_id append.assoc min.absorb1 take_take)
  moreover have "i + (length v - j) \<le> available" using i(1) j(1) by linarith
  ultimately show ?thesis
    unfolding r using u utf8_marker False ij j(2)
    by (auto simp: available_def intro!: utf8_append)
qed

text \<open>
  \<open>truncate_middle\<close> never panics. The result is well-formed and no longer than the
  limit (or the marker); a text within the limit is unchanged, and a longer one keeps a
  prefix and a suffix around the marker.
\<close>

lemma truncate_middle_ok:
  assumes "utf8 v"
  shows "\<exists>r. truncate_middle v limit = Some r \<and> utf8 r \<and>
    length r \<le> max limit (length truncation_marker) \<and>
    (if length v \<le> limit then r = v
     else \<exists>a b c. v = a @ b @ c \<and> r = a @ truncation_marker @ c)"
  using assms by (rule truncate_middle_spec)

text \<open>
  Writing the cache never panics, and what it stores of an item is bounded: content of at
  most 2 MiB, and a raw payload of at most 512 KiB or the object that stands for it. The
  item's identity, kind, title, status and requests are kept.
\<close>

lemma item_for_snapshot_bounded:
  assumes "utf8 (it_content item)"
  shows "\<exists>r. item_for_snapshot h item = Some r \<and>
    r = item\<lparr>it_content := it_content r, it_raw := it_raw r\<rparr> \<and>
    length (it_content r) \<le> SNAPSHOT_CONTENT_LIMIT \<and> utf8 (it_content r) \<and>
    (if length (it_content item) \<le> SNAPSHOT_CONTENT_LIMIT then it_content r = it_content item
     else \<exists>a b c. it_content item = a @ b @ c \<and> it_content r = a @ truncation_marker @ c) \<and>
    (if json_to_vec h (it_raw item) \<noteq> None \<and> serialized_size h (it_raw item) \<le> SNAPSHOT_RAW_LIMIT
     then it_raw r = it_raw item
     else \<exists>note. it_raw r = JObject
       [(''snapshot'', JString note),
        (''protocolId'', case it_protocol_id item of Some i \<Rightarrow> JString i | None \<Rightarrow> JNull)])"
proof -
  let ?c = "it_content item"
  have m: "length truncation_marker \<le> SNAPSHOT_CONTENT_LIMIT"
    by (simp add: SNAPSHOT_CONTENT_LIMIT_def truncation_marker_def text_consts)
  obtain r where r: "truncate_middle ?c SNAPSHOT_CONTENT_LIMIT = Some r" "utf8 r"
      "length r \<le> SNAPSHOT_CONTENT_LIMIT"
      "if length ?c \<le> SNAPSHOT_CONTENT_LIMIT then r = ?c
       else \<exists>a b c. ?c = a @ b @ c \<and> r = a @ truncation_marker @ c"
    using truncate_middle_spec [OF assms, of SNAPSHOT_CONTENT_LIMIT] m by auto
  have content: "(if length ?c > SNAPSHOT_CONTENT_LIMIT
      then truncate_middle ?c SNAPSHOT_CONTENT_LIMIT else Some ?c) = Some r"
    using r(1,4) by (auto split: if_splits)
  show ?thesis
    unfolding item_for_snapshot_def content
    using r(2-4) by (auto simp: serialized_size_def split: option.splits if_splits)
qed

text \<open>The directory of the cache.\<close>

definition transcripts_dir :: "(string \<Rightarrow> string option) \<Rightarrow> string option" where
  "transcripts_dir env =
     map_option (\<lambda>root. path_join (path_join root ''harness'') ''transcripts'')
       (or_else (opt_filter (\<lambda>p. p \<noteq> []) (env ''XDG_STATE_HOME''))
         (map_option (\<lambda>p. path_join p ''.local/state'')
           (opt_filter (\<lambda>p. p \<noteq> []) (env ''HOME''))))"

lemma path_join_dir: "path_join (path_join p ''transcripts'') q = path_join p ''transcripts'' @ ''/'' @ q"
  by (simp add: path_join_def ends_with_def suffix_def)

lemma alphanumeric_not_sep: "\<not> is_ascii_alphanumeric (CHR ''/'')" "\<not> is_ascii_alphanumeric (CHR ''.'')"
  by (simp_all add: is_ascii_alphanumeric_def in_bytes_def)

text \<open>
  The cache of a thread is a file of the \<open>transcripts\<close> directory named after it: an
  accepted identifier holds no separator and no dot, so that no identifier leads outside
  that directory and distinct threads have distinct files; every other identifier is refused.
\<close>

lemma transcript_snapshot_path_safe:
  "transcript_snapshot_path env i =
     (if valid_thread_id i
      then map_option (\<lambda>dir. dir @ ''/'' @ i @ ''.json'') (transcripts_dir env) else None) \<and>
   (valid_thread_id i \<longrightarrow> i \<noteq> [] \<and> CHR ''/'' \<notin> set i \<and> CHR ''.'' \<notin> set i)"
proof -
  have "valid_thread_id i \<longrightarrow> i \<noteq> [] \<and> CHR ''/'' \<notin> set i \<and> CHR ''.'' \<notin> set i"
    using alphanumeric_not_sep by (auto simp: valid_thread_id_def list_all_iff)
  moreover have "Option.bind x (\<lambda>r. Some (f r)) = map_option f x"
    for x :: "string option" and f :: "string \<Rightarrow> string"
    by (cases x) simp_all
  ultimately show ?thesis
    by (simp add: transcript_snapshot_path_def transcripts_dir_def path_join_dir option.map_comp
        o_def del: append_Cons)
qed

end
