(* ===== verification/ProtocolItems.thy ===== *)
theory ProtocolItems
  imports Requests Journal
begin

text \<open>
  How \<open>harness_protocol\<close> turns a typed protocol item into a transcript item: its kind, title
  and text, for every item type of the protocol.
\<close>

subsection \<open>Kinds\<close>

definition event_matches_thread :: "string option \<Rightarrow> json \<Rightarrow> bool" where
  "event_matches_thread selected_thread_id params =
     (case (selected_thread_id, string_at params [''threadId'']) of
        (Some selected, Some event_thread) \<Rightarrow> selected = event_thread
      | _ \<Rightarrow> True)"

definition kind_from_protocol :: "string \<Rightarrow> TranscriptKind" where
  "kind_from_protocol k =
     (if k = ''userMessage'' \<or> k = ''hookPrompt'' then User
      else if k = ''agentMessage'' then Agent
      else if k = ''reasoning'' then Reasoning
      else if k = ''plan'' then Plan
      else if k = ''commandExecution'' \<or> k = ''sleep'' then Command
      else if k = ''fileChange'' then FileChange
      else if k = ''mcpToolCall'' \<or> k = ''dynamicToolCall'' then Tool
      else if k = ''collabAgentToolCall'' \<or> k = ''subAgentActivity'' then Subagent
      else if k = ''webSearch'' then Web
      else if k = ''imageView'' \<or> k = ''imageGeneration'' then Image
      else if k = ''enteredReviewMode'' \<or> k = ''exitedReviewMode'' then Review
      else Trace)"

definition default_expanded :: "TranscriptKind \<Rightarrow> bool \<Rightarrow> bool" where
  "default_expanded kind completed = (kind \<noteq> Trace)"

fun title_for_kind :: "TranscriptKind \<Rightarrow> string" where
  "title_for_kind User = ''You''"
| "title_for_kind Agent = ''Codex''"
| "title_for_kind Reasoning = ''Reasoning''"
| "title_for_kind Plan = ''Plan''"
| "title_for_kind Command = ''Command''"
| "title_for_kind FileChange = ''File changes''"
| "title_for_kind Tool = ''Tool call''"
| "title_for_kind Diff = ''Diff''"
| "title_for_kind Image = ''Image''"
| "title_for_kind Subagent = ''Subagent''"
| "title_for_kind Web = ''Web search''"
| "title_for_kind Review = ''Review''"
| "title_for_kind Trace = ''Protocol event''"
| "title_for_kind Error = ''Error''"
| "title_for_kind Approval = ''Approval''"

subsection \<open>Titles\<close>

definition command_title :: "json \<Rightarrow> string" where
  "command_title raw =
     unwrap_or
       (case Option.bind (jget ''commandActions'' raw) as_array of
          Some [action] \<Rightarrow>
            (let t = string_at action [''type'']
             in if t = Some ''read'' then
                  map_option (\<lambda>path. ''Read'' @ mid_dot @ path) (string_at action [''path''])
                else if t = Some ''listFiles'' then
                  Some (case string_at action [''path''] of
                          Some path \<Rightarrow> ''List files'' @ mid_dot @ path
                        | None \<Rightarrow> ''List files'')
                else if t = Some ''search'' then
                  (let query = unwrap_or (string_at action [''query'']) ''text''
                   in Some (case string_at action [''path''] of
                              Some path \<Rightarrow> ''Search'' @ mid_dot @ query @ mid_dot @ path
                            | None \<Rightarrow> ''Search'' @ mid_dot @ query))
                else None)
        | _ \<Rightarrow> None) ''Command''"

definition mcp_tool_title :: "host \<Rightarrow> json \<Rightarrow> string" where
  "mcp_tool_title h raw =
     (case (string_at raw [''appContext'', ''appName''], string_at raw [''appContext'', ''actionName'']) of
        (Some app, Some action) \<Rightarrow> app @ mid_dot @ humanize_identifier h action
      | (Some app, None) \<Rightarrow> app
      | _ \<Rightarrow> ''MCP'' @ mid_dot @ unwrap_or (string_at raw [''server'']) ''server'' @ '' / '' @
               unwrap_or (string_at raw [''tool'']) ''tool'')"

definition media_title :: "string \<Rightarrow> string option \<Rightarrow> string" where
  "media_title pre path =
     (case Option.bind path (\<lambda>path.
             find (\<lambda>part. part \<noteq> []) (rev (split_bytes (\<lambda>c. c = CHR ''/'') path))) of
        Some name \<Rightarrow> pre @ mid_dot @ name
      | None \<Rightarrow> pre)"

definition web_search_title :: "json \<Rightarrow> string" where
  "web_search_title raw =
     (let action = unwrap_or (jget ''action'' raw) JNull; t = string_at action [''type'']
      in if t = Some ''openPage'' \<or> t = Some ''open_page'' then
           ''Open page'' @ mid_dot @ one_line (unwrap_or (string_at action [''url'']) ''page'') 96
         else if t = Some ''findInPage'' \<or> t = Some ''find_in_page'' then
           ''Find in page'' @ mid_dot @
             one_line (unwrap_or (string_at action [''pattern'']) ''text'') 72
         else ''Web search'' @ mid_dot @
             one_line (unwrap_or (string_at raw [''query'']) ''search'') 96)"

definition file_changes_title :: "json \<Rightarrow> string" where
  "file_changes_title changes =
     (case map_option length (as_array changes) of
        Some n \<Rightarrow> if n = 1 then ''File change'' @ mid_dot @ ''1 file''
                  else ''File changes'' @ mid_dot @ dec n @ '' files''
      | None \<Rightarrow> ''File changes'')"

definition title_from_protocol :: "host \<Rightarrow> string \<Rightarrow> json \<Rightarrow> string" where
  "title_from_protocol h k raw =
     (if k = ''userMessage'' \<or> k = ''hookPrompt'' then ''You''
      else if k = ''agentMessage'' then ''Codex''
      else if k = ''reasoning'' then ''Reasoning''
      else if k = ''plan'' then ''Plan''
      else if k = ''commandExecution'' then command_title raw
      else if k = ''fileChange'' then
        file_changes_title (unwrap_or (jget ''changes'' raw) JNull)
      else if k = ''mcpToolCall'' then mcp_tool_title h raw
      else if k = ''dynamicToolCall'' then
        ''Tool'' @ mid_dot @ humanize_identifier h (unwrap_or (string_at raw [''tool'']) ''dynamic tool'')
      else if k = ''collabAgentToolCall'' then
        ''Subagent'' @ mid_dot @ humanize_identifier h (unwrap_or (string_at raw [''tool'']) ''activity'')
      else if k = ''subAgentActivity'' then
        ''Subagent'' @ mid_dot @ humanize_identifier h (unwrap_or (string_at raw [''kind'']) ''activity'')
      else if k = ''webSearch'' then web_search_title raw
      else if k = ''imageView'' then media_title ''Viewed image'' (string_at raw [''path''])
      else if k = ''imageGeneration'' then
        media_title ''Generated image'' (string_at raw [''savedPath''])
      else if k = ''sleep'' then
        (case Option.bind (jget ''durationMs'' raw) as_u64 of
           Some duration \<Rightarrow> ''Wait'' @ mid_dot @ format_duration duration
         | None \<Rightarrow> ''Wait'')
      else if k = ''enteredReviewMode'' then ''Entered review''
      else if k = ''exitedReviewMode'' then ''Exited review''
      else if k = ''contextCompaction'' then ''Context compacted''
      else friendly_method h k)"

subsection \<open>User content, tool calls, subagents\<close>

definition render_user_block :: "host \<Rightarrow> json \<Rightarrow> string option" where
  "render_user_block h block =
     (let t = string_at block [''type'']
      in if t = Some ''text'' then string_at block [''text'']
         else if t = Some ''localImage'' then
           map_option (\<lambda>path. ''Attached image: '' @ path) (string_at block [''path''])
         else if t = Some ''image'' then Some ''Attached image''
         else if t = Some ''localAudio'' \<or> t = Some ''audio'' then Some ''Attached audio''
         else if t = Some ''mention'' \<or> t = Some ''skill'' then
           map_option (\<lambda>path. ''Mention: '' @ path) (string_at block [''path''])
         else Some (pretty_json h block))"

definition render_user_content :: "host \<Rightarrow> json \<Rightarrow> string" where
  "render_user_content h content =
     join blank_line (filter_map (render_user_block h) (unwrap_or (as_array content) []))"

definition render_hook_prompt :: "json \<Rightarrow> string" where
  "render_hook_prompt fragments =
     (case as_array fragments of
        None \<Rightarrow> ''Hook prompt unavailable''
      | Some fragments \<Rightarrow>
          join blank_line (filter_map (\<lambda>fragment. string_at fragment [''text'']) fragments))"

definition non_null :: "json option \<Rightarrow> json option" where
  "non_null v = opt_filter (\<lambda>v. \<not> is_null v) v"

definition push_json_section ::
  "host \<Rightarrow> string list \<Rightarrow> string \<Rightarrow> json option \<Rightarrow> string list" where
  "push_json_section h sections title v =
     (case non_null v of
        Some v \<Rightarrow>
          if as_object v = Some [] \<or> as_array v = Some [] then sections
          else sections @ [title @ [nl] @ pretty_json h v]
      | None \<Rightarrow> sections)"

definition summarize_data_url :: "string \<Rightarrow> string" where
  "summarize_data_url v =
     (case strip_prefix v ''data:'' of
        Some rest \<Rightarrow> hd (split_bytes (\<lambda>c. c = CHR '';'') rest)
      | None \<Rightarrow> one_line v 160)"

definition render_content_block :: "host \<Rightarrow> json \<Rightarrow> string" where
  "render_content_block h block =
     (case block of
        JString t \<Rightarrow> t
      | JObject _ \<Rightarrow>
          (let t = unwrap_or (string_at block [''type'']) []
           in if t \<in> {''text'', ''inputText'', ''outputText'', ''input_text'', ''output_text''} then
                unwrap_or (string_at block [''text'']) []
              else if t \<in> {''image'', ''inputImage'', ''input_image''} then
                ''Image'' @ mid_dot @
                  (case or_else (string_at block [''mimeType''])
                          (or_else (string_at block [''imageUrl'']) (string_at block [''image_url''])) of
                     Some u \<Rightarrow> summarize_data_url u | None \<Rightarrow> ''content'')
              else if t \<in> {''audio'', ''inputAudio'', ''input_audio''} then
                ''Audio'' @ mid_dot @
                  (case or_else (string_at block [''mimeType''])
                          (or_else (string_at block [''audioUrl'']) (string_at block [''audio_url''])) of
                     Some u \<Rightarrow> summarize_data_url u | None \<Rightarrow> ''content'')
              else if t = ''encrypted_content'' then ''Encrypted tool output''
              else if t = ''resource_link'' then
                unwrap_or (or_else (string_at block [''title'']) (string_at block [''name''])) ''Resource''
                  @ [nl] @ unwrap_or (string_at block [''uri'']) []
              else if t = ''resource'' then
                (let uri = unwrap_or (string_at block [''resource'', ''uri'']) ''Resource''
                 in case string_at block [''resource'', ''text''] of
                      Some body \<Rightarrow> uri @ [nl] @ body
                    | None \<Rightarrow> uri)
              else pretty_json h block)
      | _ \<Rightarrow> pretty_json h block)"

definition render_content_blocks :: "host \<Rightarrow> json option \<Rightarrow> string" where
  "render_content_blocks h content =
     join blank_line
       (filter (\<lambda>section. section \<noteq> [])
         (map (\<lambda>block. trim_end_matches {nl} (render_content_block h block))
           (unwrap_or (Option.bind content as_array) [])))"

definition waiting_for_output :: string where
  "waiting_for_output = ''Waiting for tool output'' @ ellipsis"

definition render_mcp_tool_call :: "host \<Rightarrow> json \<Rightarrow> string" where
  "render_mcp_tool_call h raw =
     (let sections = push_json_section h [] ''Arguments'' (jget ''arguments'' raw);
          sections = (case string_at raw [''error'', ''message''] of
                        Some error \<Rightarrow> sections @ [''Error'' @ [nl] @ error] | None \<Rightarrow> sections);
          sections =
            (case non_null (jget ''result'' raw) of
               Some result \<Rightarrow>
                 (let content = render_content_blocks h (jget ''content'' result);
                      sections = (if content \<noteq> [] then sections @ [''Result'' @ [nl] @ content]
                                  else sections)
                  in push_json_section h sections ''Structured result''
                       (jget ''structuredContent'' result))
             | None \<Rightarrow> sections)
      in if sections = [] then waiting_for_output else join blank_line sections)"

definition render_dynamic_tool_call :: "host \<Rightarrow> json \<Rightarrow> string" where
  "render_dynamic_tool_call h raw =
     (let sections = push_json_section h [] ''Arguments'' (jget ''arguments'' raw);
          sections =
            (case Option.bind (jget ''contentItems'' raw) as_array of
               Some items \<Rightarrow>
                 (let output = join blank_line (filter_map (\<lambda>item.
                        let t = string_at item [''type'']
                        in if t = Some ''inputText'' then string_at item [''text'']
                           else if t = Some ''inputImage'' then
                             map_option (\<lambda>url. ''Image'' @ mid_dot @ summarize_data_url url)
                               (string_at item [''imageUrl''])
                           else if t = Some ''inputAudio'' then
                             map_option (\<lambda>url. ''Audio'' @ mid_dot @ summarize_data_url url)
                               (string_at item [''audioUrl''])
                           else Some (pretty_json h item)) items)
                  in if output \<noteq> [] then sections @ [''Result'' @ [nl] @ output] else sections)
             | None \<Rightarrow> sections)
      in if sections = [] then waiting_for_output else join blank_line sections)"

definition render_collab_tool_call :: "host \<Rightarrow> json \<Rightarrow> string" where
  "render_collab_tool_call h raw =
     (let sections = (case nonempty (string_at raw [''prompt'']) of
                        Some prompt \<Rightarrow> [''Prompt'' @ [nl] @ prompt] | None \<Rightarrow> []);
          sections =
            (case Option.bind (jget ''agentsStates'' raw) as_object of
               Some states \<Rightarrow>
                 (let agents = join blank_line (map (\<lambda>(thread_id, state).
                        let status = (case string_at state [''status''] of
                              Some s \<Rightarrow> humanize_identifier h s | None \<Rightarrow> ''Unknown'')
                        in case nonempty (string_at state [''message'']) of
                             Some message \<Rightarrow> thread_id @ mid_dot @ status @ [nl] @ message
                           | None \<Rightarrow> thread_id @ mid_dot @ status) states)
                  in if agents \<noteq> [] then sections @ [''Agents'' @ [nl] @ agents] else sections)
             | None \<Rightarrow>
                 (case Option.bind (jget ''receiverThreadIds'' raw) as_array of
                    Some thread_ids \<Rightarrow>
                      (let thread_ids = join [nl] (filter_map as_str thread_ids)
                       in if thread_ids \<noteq> [] then sections @ [''Agents'' @ [nl] @ thread_ids]
                          else sections)
                  | None \<Rightarrow> sections))
      in if sections = [] then ''Subagent state unavailable'' else join blank_line sections)"

definition render_subagent_activity :: "json \<Rightarrow> string" where
  "render_subagent_activity raw =
     (let path = unwrap_or (string_at raw [''agentPath'']) ''subagent''
      in case string_at raw [''agentThreadId''] of
           Some thread \<Rightarrow> path @ [nl] @ thread
         | None \<Rightarrow> path)"

subsection \<open>Web searches\<close>

definition render_web_result :: "host \<Rightarrow> nat \<Rightarrow> json \<Rightarrow> string" where
  "render_web_result h index result =
     (case as_str result of
        Some t \<Rightarrow> dec index @ ''. '' @ t
      | None \<Rightarrow>
          (let title = or_else (string_at result [''title''])
                 (or_else (string_at result [''name'']) (string_at result [''text'']));
               url = or_else (string_at result [''url'']) (string_at result [''link'']);
               snippet = or_else (string_at result [''snippet''])
                 (or_else (string_at result [''description'']) (string_at result [''content'']))
           in if title = None \<and> url = None \<and> snippet = None then
                dec index @ ''. '' @ pretty_json h result
              else
                join [nl]
                  ([dec index @ ''. '' @
                      (case title of Some title \<Rightarrow> one_line title 140 | None \<Rightarrow> ''Result'')] @
                   opt_list url @
                   (case snippet of Some snippet \<Rightarrow> [one_line snippet 320] | None \<Rightarrow> []))))"

definition render_web_search :: "host \<Rightarrow> json \<Rightarrow> string" where
  "render_web_search h raw =
     (let action = unwrap_or (jget ''action'' raw) JNull; t = string_at action [''type''];
          sections =
            (if t = Some ''openPage'' \<or> t = Some ''open_page'' then
               (case string_at action [''url''] of Some url \<Rightarrow> [''Page'' @ [nl] @ url] | None \<Rightarrow> [])
             else if t = Some ''findInPage'' \<or> t = Some ''find_in_page'' then
               [''Find'' @ [nl] @ unwrap_or (string_at action [''pattern'']) [] @ [nl] @
                  unwrap_or (string_at action [''url'']) []]
             else if t = Some ''search'' \<or> t = None then
               (case or_else
                   (nonempty (map_option (\<lambda>queries. join [nl] (filter_map as_str queries))
                      (Option.bind (jget ''queries'' action) as_array)))
                   (or_else (string_at action [''query'']) (string_at raw [''query''])) of
                  Some queries \<Rightarrow> [''Query'' @ [nl] @ queries]
                | None \<Rightarrow> [])
             else []);
          sections =
            (case Option.bind (jget ''results'' raw) as_array of
               Some results \<Rightarrow>
                 (let results = join blank_line
                        (map (\<lambda>(index, result). render_web_result h (index + 1) result)
                          (enumerate 0 results))
                  in if results \<noteq> [] then sections @ [''Results'' @ [nl] @ results] else sections)
             | None \<Rightarrow> sections)
      in if sections = [] then ''Search details unavailable'' else join blank_line sections)"

subsection \<open>File changes, plans, turns\<close>

definition file_change_kind :: "host \<Rightarrow> json option \<Rightarrow> string" where
  "file_change_kind h k =
     (let k = unwrap_or
            (Option.bind k (\<lambda>k.
               or_else (as_str k) (or_else (string_at k [''type'']) (string_at k [''kind'']))))
            ''update'';
          l = to_ascii_lowercase k
      in if l \<in> {''add'', ''added'', ''create'', ''created''} then ''Added''
         else if l \<in> {''delete'', ''deleted'', ''remove'', ''removed''} then ''Deleted''
         else if l \<in> {''move'', ''moved'', ''rename'', ''renamed''} then ''Moved''
         else if l \<in> {''update'', ''updated'', ''modify'', ''modified''} then ''Modified''
         else friendly_method h k)"

definition render_file_change :: "host \<Rightarrow> json \<Rightarrow> string" where
  "render_file_change h change =
     (let path = unwrap_or (string_at change [''path'']) ''unknown'';
          kind = file_change_kind h (jget ''kind'' change);
          diff = unwrap_or (string_at change [''diff'']) [];
          description =
            (case nonempty (Option.bind (pointer [''kind'', ''move_path''] change) as_str) of
               Some move_path \<Rightarrow> ''Moved'' @ mid_dot @ path @ right_arrow @ move_path
             | None \<Rightarrow> kind @ mid_dot @ path)
      in if diff = [] then description else description @ [nl] @ diff)"

definition render_file_changes :: "host \<Rightarrow> json \<Rightarrow> string" where
  "render_file_changes h changes =
     (case as_array changes of
        None \<Rightarrow> pretty_json h changes
      | Some changes \<Rightarrow> join blank_line (map (render_file_change h) changes))"

definition render_plan_step :: "json \<Rightarrow> string" where
  "render_plan_step step =
     (let status = unwrap_or (string_at step [''status'']) ''pending'';
          body = unwrap_or (string_at step [''step'']) [];
          marker = (if status = ''completed'' then ''x'' else '' '')
      in ''- ['' @ marker @ ''] '' @ body @ '' ('' @ status @ '')'' @ [nl])"

definition render_plan :: "json \<Rightarrow> string" where
  "render_plan params =
     (case nonempty (string_at params [''explanation'']) of
        Some t \<Rightarrow> t @ blank_line | None \<Rightarrow> []) @
     (case Option.bind (jget ''plan'' params) as_array of
        Some steps \<Rightarrow> concat (map render_plan_step steps) | None \<Rightarrow> [])"

definition render_turn_completion :: "host \<Rightarrow> json \<Rightarrow> string \<Rightarrow> string" where
  "render_turn_completion h turn status =
     (let sections = opt_list (nonempty (string_at turn [''error'', ''message'']));
          sections = sections @ opt_list (nonempty (string_at turn [''error'', ''additionalDetails'']));
          sections = (case non_null (pointer [''error'', ''codexErrorInfo''] turn) of
                        Some info \<Rightarrow> sections @ [''Error details'' @ [nl] @ pretty_json h info]
                      | None \<Rightarrow> sections)
      in join blank_line
           (if sections = [] then
              [if status = ''interrupted'' then ''The turn was interrupted before it completed.''
               else ''The turn failed without an error message.'']
            else sections))"

subsection \<open>Items\<close>

definition content_from_protocol :: "host \<Rightarrow> string \<Rightarrow> json \<Rightarrow> string" where
  "content_from_protocol h k raw =
     (if k = ''userMessage'' then render_user_content h (unwrap_or (jget ''content'' raw) JNull)
      else if k = ''hookPrompt'' then render_hook_prompt (unwrap_or (jget ''fragments'' raw) JNull)
      else if k = ''agentMessage'' \<or> k = ''plan'' then unwrap_or (string_at raw [''text'']) []
      else if k = ''reasoning'' then
        (let sections = collect_text_sections (jget ''summary'' raw) [];
             sections = collect_text_sections (jget ''content'' raw) sections
         in join blank_line (unique_sections sections))
      else if k = ''commandExecution'' then
        (let command = unwrap_or (string_at raw [''command'']) [];
             output = unwrap_or (string_at raw [''aggregatedOutput'']) []
         in if output = [] then ''$ '' @ command else ''$ '' @ command @ blank_line @ output)
      else if k = ''fileChange'' then
        render_file_changes h (unwrap_or (jget ''changes'' raw) JNull)
      else if k = ''mcpToolCall'' then render_mcp_tool_call h raw
      else if k = ''dynamicToolCall'' then render_dynamic_tool_call h raw
      else if k = ''collabAgentToolCall'' then render_collab_tool_call h raw
      else if k = ''subAgentActivity'' then render_subagent_activity raw
      else if k = ''webSearch'' then render_web_search h raw
      else if k = ''imageView'' then unwrap_or (string_at raw [''path'']) ''Image path unavailable''
      else if k = ''imageGeneration'' then
        (case string_at raw [''savedPath''] of
           Some path \<Rightarrow>
             (let prompt = unwrap_or (string_at raw [''revisedPrompt'']) []
              in if prompt = [] then path
                 else path @ blank_line @ ''Revised prompt'' @ [nl] @ prompt)
         | None \<Rightarrow> ''Generated image path unavailable'')
      else if k = ''sleep'' then
        (case Option.bind (jget ''durationMs'' raw) as_u64 of
           Some duration \<Rightarrow> ''Waiting for '' @ format_duration duration
         | None \<Rightarrow> ''Waiting'')
      else if k = ''enteredReviewMode'' \<or> k = ''exitedReviewMode'' then
        unwrap_or (string_at raw [''review'']) []
      else if k = ''contextCompaction'' then
        ''Earlier context was compacted so the task could continue.''
      else pretty_json h raw)"

definition item_from_protocol :: "host \<Rightarrow> json \<Rightarrow> bool \<Rightarrow> TranscriptItem" where
  "item_from_protocol h raw completed =
     (let protocol_id = unwrap_or (string_at raw [''id'']) ''unknown-item'';
          protocol_kind = unwrap_or (string_at raw [''type'']) ''unknown'';
          kind = kind_from_protocol protocol_kind
      in \<lparr>it_key = protocol_id, it_protocol_id = Some protocol_id, it_kind = kind,
          it_title = title_from_protocol h protocol_kind raw,
          it_status =
            or_else (Option.bind (jget ''status'' raw) (protocol_status h))
              (or_else (if completed then Some ''completed'' else None) (Some ''running'')),
          it_content = content_from_protocol h protocol_kind raw,
          it_raw = bounded_raw_payload h raw, it_event_count = 1,
          it_expanded = default_expanded kind completed, it_pending = None\<rparr>)"

definition replay_item ::
  "host \<Rightarrow> nat \<Rightarrow> TranscriptKind \<Rightarrow> string \<Rightarrow> string \<Rightarrow> json \<Rightarrow> TranscriptItem" where
  "replay_item h index kind title content raw =
     \<lparr>it_key = ''template:'' @ dec index, it_protocol_id = Some (''fixture-'' @ dec index),
      it_kind = kind, it_title = title, it_status = Some ''replay'', it_content = content,
      it_raw = bounded_raw_payload h raw, it_event_count = 1,
      it_expanded = default_expanded kind True, it_pending = None\<rparr>"

lemma item_from_protocol_fields [simp]:
  "it_key (item_from_protocol h raw completed) = unwrap_or (string_at raw [''id'']) ''unknown-item''"
  "it_protocol_id (item_from_protocol h raw completed) =
     Some (unwrap_or (string_at raw [''id'']) ''unknown-item'')"
  "it_event_count (item_from_protocol h raw completed) = 1"
  "it_pending (item_from_protocol h raw completed) = None"
  "it_kind (item_from_protocol h raw completed) =
     kind_from_protocol (unwrap_or (string_at raw [''type'']) ''unknown'')"
  "it_content (item_from_protocol h raw completed) =
     content_from_protocol h (unwrap_or (string_at raw [''type'']) ''unknown'') raw"
  by (simp_all add: item_from_protocol_def Let_def)

end
