(* ===== verification/Telemetry.thy ===== *)
theory Telemetry
  imports Journal "HOL-Library.AList"
begin

text \<open>
  \<open>SessionTelemetry\<close> of \<open>harness_protocol\<close>: the notifications that report the state of the
  session instead of adding to the transcript. The derived deserialisers of the settings are
  fields of the record \<open>services\<close>, beside the host.
\<close>

subsection \<open>Settings\<close>

record GranularApprovalSnapshot =
  ga_mcp_elicitations :: "bool option"
  ga_rules :: "bool option"
  ga_sandbox_approval :: "bool option"
  ga_request_permissions :: "bool option"
  ga_skill_approval :: "bool option"

datatype ApprovalPolicySnapshot = Named string | Granular GranularApprovalSnapshot

datatype SandboxPolicySnapshot =
    DangerFullAccess
  | ReadOnly "bool option"
  | ExternalSandbox "string option"
  | WorkspaceWrite "bool option" "string list option" "bool option" "bool option"

record ActivePermissionProfileSnapshot =
  ap_id :: "string option"
  ap_extends :: "string option"

record CollaborationModeSettingsSnapshot =
  cms_model :: "string option"
  cms_reasoning_effort :: "string option"
  cms_developer_instructions :: "string option"

record CollaborationModeSnapshot =
  cm_mode :: "string option"
  cm_settings :: "CollaborationModeSettingsSnapshot option"

record ThreadSettingsSnapshot =
  ts_model :: "string option"
  ts_model_provider :: "string option"
  ts_effort :: "string option"
  ts_approval_policy :: "ApprovalPolicySnapshot option"
  ts_sandbox_policy :: "SandboxPolicySnapshot option"
  ts_active_permission_profile :: "ActivePermissionProfileSnapshot option"
  ts_collaboration_mode :: "CollaborationModeSnapshot option"
  ts_cwd :: "string option"
  ts_personality :: "string option"
  ts_summary :: "string option"
  ts_service_tier :: "string option"

record services =
  sv_host :: host
  approval_policy_from_value :: "json \<Rightarrow> ApprovalPolicySnapshot option"
  sandbox_policy_from_value :: "json \<Rightarrow> SandboxPolicySnapshot option"
  permission_profile_from_value :: "json \<Rightarrow> ActivePermissionProfileSnapshot option"
  collaboration_mode_from_value :: "json \<Rightarrow> CollaborationModeSnapshot option"

text \<open>\<open>setting_value\<close>, with the deserialiser of the field's type.\<close>

definition setting_value :: "(json \<Rightarrow> 'a option) \<Rightarrow> json \<Rightarrow> string \<Rightarrow> 'a option" where
  "setting_value from_value settings field =
     Option.bind (opt_filter (\<lambda>v. \<not> is_null v) (jget field settings)) from_value"

definition thread_settings_from_value :: "services \<Rightarrow> json \<Rightarrow> ThreadSettingsSnapshot" where
  "thread_settings_from_value sv settings =
     \<lparr>ts_model = string_at settings [''model''],
      ts_model_provider = string_at settings [''modelProvider''],
      ts_effort = string_at settings [''effort''],
      ts_approval_policy = setting_value (approval_policy_from_value sv) settings ''approvalPolicy'',
      ts_sandbox_policy = setting_value (sandbox_policy_from_value sv) settings ''sandboxPolicy'',
      ts_active_permission_profile =
        setting_value (permission_profile_from_value sv) settings ''activePermissionProfile'',
      ts_collaboration_mode =
        setting_value (collaboration_mode_from_value sv) settings ''collaborationMode'',
      ts_cwd = string_at settings [''cwd''],
      ts_personality = string_at settings [''personality''],
      ts_summary = string_at settings [''summary''],
      ts_service_tier = string_at settings [''serviceTier'']\<rparr>"

subsection \<open>State\<close>

text \<open>The map of MCP servers is an association list without repeated keys.\<close>

record SessionTelemetry =
  st_thread_status :: "string option"
  st_mcp_servers :: "(string \<times> string) list"
  st_token_usage :: "json option"
  st_goal_active :: bool
  st_rate_limits :: "json option"
  st_remote_control_status :: "string option"
  st_model_status :: "string option"
  st_thread_settings :: "ThreadSettingsSnapshot option"

definition default_telemetry :: SessionTelemetry where
  "default_telemetry =
     \<lparr>st_thread_status = None, st_mcp_servers = [], st_token_usage = None, st_goal_active = False,
      st_rate_limits = None, st_remote_control_status = None, st_model_status = None,
      st_thread_settings = None\<rparr>"

definition telemetry_ok :: "SessionTelemetry \<Rightarrow> bool" where
  "telemetry_ok t = distinct (map fst (st_mcp_servers t))"

definition summary :: "host \<Rightarrow> SessionTelemetry \<Rightarrow> string option" where
  "summary h t =
     (let parts = (case st_thread_status t of Some s \<Rightarrow> [str_to_uppercase h s] | None \<Rightarrow> []);
          parts =
            (if st_mcp_servers t \<noteq> [] then
               parts @ [''MCP '' @
                 dec (length (filter (\<lambda>(k, s). s = ''ready'' \<or> s = ''completed'') (st_mcp_servers t)))
                 @ ''/'' @ dec (length (st_mcp_servers t)) @ '' ready'']
             else parts);
          parts = (if st_goal_active t then parts @ [''GOAL ACTIVE''] else parts);
          parts = (case st_model_status t of Some s \<Rightarrow> parts @ [s] | None \<Rightarrow> parts)
      in if parts \<noteq> [] then Some (join mid_dot parts) else None)"

subsection \<open>Ingestion\<close>

text \<open>The server and the status a startup report names.\<close>

definition reported_server :: "json \<Rightarrow> string" where
  "reported_server params =
     unwrap_or (or_else (string_at params [''serverName'']) (string_at params [''name''])) ''MCP server''"

definition reported_status :: "json \<Rightarrow> string" where
  "reported_status params =
     unwrap_or
       (or_else (string_at params [''status''])
         (or_else (string_at params [''startupStatus'', ''type''])
           (string_at params [''startupStatus''])))
       ''unknown''"

text \<open>The new state, and whether the notification was one of telemetry.\<close>

definition ingest ::
  "services \<Rightarrow> string \<Rightarrow> json \<Rightarrow> SessionTelemetry \<Rightarrow> SessionTelemetry \<times> bool" where
  "ingest sv m params t =
     (if m = ''thread/status/changed'' then
        (t\<lparr>st_thread_status :=
             or_else (string_at params [''status'', ''type''])
               (or_else (string_at params [''status'']) (string_at params [''type'']))\<rparr>, True)
      else if m = ''thread/tokenUsage/updated'' then (t\<lparr>st_token_usage := Some params\<rparr>, True)
      else if m = ''thread/settings/updated'' then
        (let settings = unwrap_or (jget ''threadSettings'' params) JNull
         in (t\<lparr>st_thread_settings := Some (thread_settings_from_value sv settings)\<rparr>, True))
      else if m = ''thread/goal/updated'' then (t\<lparr>st_goal_active := True\<rparr>, True)
      else if m = ''thread/goal/cleared'' then (t\<lparr>st_goal_active := False\<rparr>, True)
      else if m = ''mcpServer/startupStatus/updated'' then
        (t\<lparr>st_mcp_servers :=
             AList.update (reported_server params) (reported_status params) (st_mcp_servers t)\<rparr>, True)
      else if m = ''account/rateLimits/updated'' then (t\<lparr>st_rate_limits := Some params\<rparr>, True)
      else if m = ''remoteControl/status/changed'' then
        (t\<lparr>st_remote_control_status :=
             or_else (string_at params [''status'']) (string_at params [''state''])\<rparr>, True)
      else if m = ''model/safetyBuffering/updated'' then
        (t\<lparr>st_model_status :=
             (if unwrap_or (Option.bind (jget ''showBufferingUi'' params) as_bool) False
              then Some ''SAFETY BUFFER'' else None)\<rparr>, True)
      else (t, False))"

definition telemetry_methods :: "string set" where
  "telemetry_methods =
     {''thread/status/changed'', ''thread/tokenUsage/updated'', ''thread/settings/updated'',
      ''thread/goal/updated'', ''thread/goal/cleared'', ''mcpServer/startupStatus/updated'',
      ''account/rateLimits/updated'', ''remoteControl/status/changed'',
      ''model/safetyBuffering/updated''}"

lemma ingest_not_handled: "m \<notin> telemetry_methods \<Longrightarrow> ingest sv m params t = (t, False)"
  by (simp add: ingest_def telemetry_methods_def)

lemma ingest_handled: "m \<in> telemetry_methods \<Longrightarrow> snd (ingest sv m params t)"
  by (auto simp: ingest_def telemetry_methods_def Let_def)

lemma ingest_ok: "telemetry_ok t \<Longrightarrow> telemetry_ok (fst (ingest sv m params t))"
  by (simp add: telemetry_ok_def ingest_def Let_def distinct_update)

lemma ready_le: "length (filter P xs) \<le> length xs"
  by (rule length_filter_le)

text \<open>
  A notification is consumed by the telemetry exactly when its method is one of the nine
  it knows; any other leaves it unchanged. The servers stay without repetition, and a report
  about a server changes the status of that server and of no other.
\<close>

lemma ingest_telemetry:
  fixes sv :: services and m :: string and params :: json and t :: SessionTelemetry
  defines "t' \<equiv> fst (ingest sv m params t)"
  shows "snd (ingest sv m params t) = (m \<in> telemetry_methods) \<and>
    (m \<in> telemetry_methods \<or> t' = t) \<and>
    (telemetry_ok t \<longrightarrow> telemetry_ok t') \<and>
    map_of (st_mcp_servers t') =
      (if m = ''mcpServer/startupStatus/updated''
       then (map_of (st_mcp_servers t))(reported_server params \<mapsto> reported_status params)
       else map_of (st_mcp_servers t))"
proof -
  have "snd (ingest sv m params t) = (m \<in> telemetry_methods)" "m \<in> telemetry_methods \<or> t' = t"
    using ingest_handled ingest_not_handled by (cases "m \<in> telemetry_methods"; force simp: t'_def)+
  moreover have "telemetry_ok t \<longrightarrow> telemetry_ok t'" by (simp add: t'_def ingest_ok)
  moreover have "map_of (st_mcp_servers t') =
      (if m = ''mcpServer/startupStatus/updated''
       then (map_of (st_mcp_servers t))(reported_server params \<mapsto> reported_status params)
       else map_of (st_mcp_servers t))"
    by (simp add: t'_def ingest_def Let_def update_conv')
  ultimately show ?thesis by blast
qed

definition example_services :: "host \<Rightarrow> services" where
  "example_services h =
     \<lparr>sv_host = h, approval_policy_from_value = (\<lambda>v. None), sandbox_policy_from_value = (\<lambda>v. None),
      permission_profile_from_value = (\<lambda>v. None), collaboration_mode_from_value = (\<lambda>v. None)\<rparr>"

end
