(* ===== verification/Model.thy ===== *)
theory Model
  imports ProtocolItems Telemetry
begin

text \<open>
  \<open>TranscriptModel\<close> of \<open>harness_protocol\<close>: its state and the operations that change one item.
  A hash map is a partial map; the vector of items is a list, and indexing it out of range,
  which panics, is \<open>None\<close>.
\<close>

subsection \<open>State\<close>

record RawEvent =
  re_sequence :: nat
  re_method :: string
  re_payload :: json

record TranscriptModel =
  tm_items :: "TranscriptItem list"
  tm_indices :: "string \<rightharpoonup> nat"
  tm_raw_events :: "RawEvent list"
  tm_telemetry :: SessionTelemetry
  tm_current_turn_id :: "string option"
  tm_local_message_id :: nat
  tm_next_raw_sequence :: nat
  tm_dropped_raw_events :: nat

definition default_model :: TranscriptModel where
  "default_model =
     \<lparr>tm_items = [], tm_indices = Map.empty, tm_raw_events = [], tm_telemetry = default_telemetry,
      tm_current_turn_id = None, tm_local_message_id = 0, tm_next_raw_sequence = 0,
      tm_dropped_raw_events = 0\<rparr>"

definition clear :: "TranscriptModel \<Rightarrow> TranscriptModel" where
  "clear m =
     m\<lparr>tm_items := [], tm_indices := Map.empty, tm_raw_events := [],
       tm_telemetry := default_telemetry, tm_next_raw_sequence := 0, tm_dropped_raw_events := 0,
       tm_current_turn_id := None\<rparr>"

text \<open>\<open>self.items[index]\<close> as a place, and \<open>item_indices.insert\<close>.\<close>

definition update_item ::
  "nat \<Rightarrow> (TranscriptItem \<Rightarrow> TranscriptItem) \<Rightarrow> TranscriptModel \<Rightarrow> TranscriptModel option" where
  "update_item i f m =
     do { items \<leftarrow> modify_at i f (tm_items m); Some (m\<lparr>tm_items := items\<rparr>) }"

definition insert_index :: "string \<Rightarrow> nat \<Rightarrow> TranscriptModel \<Rightarrow> TranscriptModel" where
  "insert_index k i m = m\<lparr>tm_indices := (tm_indices m)(k \<mapsto> i)\<rparr>"

definition remove_index :: "string \<Rightarrow> TranscriptModel \<Rightarrow> TranscriptModel" where
  "remove_index k m = m\<lparr>tm_indices := (tm_indices m)(k := None)\<rparr>"

subsection \<open>Operations\<close>

definition push_without_splice :: "TranscriptItem \<Rightarrow> TranscriptModel \<Rightarrow> nat \<times> TranscriptModel" where
  "push_without_splice item m =
     (let index = length (tm_items m);
          m = insert_index (it_key item) index m
      in (index, m\<lparr>tm_items := tm_items m @ [item]\<rparr>))"

fun index_items ::
  "nat \<Rightarrow> TranscriptItem list \<Rightarrow> (string \<rightharpoonup> nat) \<Rightarrow> (string \<rightharpoonup> nat)" where
  "index_items index [] indices = indices"
| "index_items index (item # items) indices =
     (let indices = indices(it_key item \<mapsto> index);
          indices = (case it_protocol_id item of
                       Some protocol_id \<Rightarrow> indices(protocol_id \<mapsto> index) | None \<Rightarrow> indices)
      in index_items (index + 1) items indices)"

definition rebuild_item_indices :: "TranscriptModel \<Rightarrow> TranscriptModel" where
  "rebuild_item_indices m = m\<lparr>tm_indices := index_items 0 (tm_items m) Map.empty\<rparr>"

definition record_raw :: "host \<Rightarrow> string \<Rightarrow> json \<Rightarrow> TranscriptModel \<Rightarrow> TranscriptModel" where
  "record_raw h m payload tm =
     (let tm = (if length (tm_raw_events tm) \<ge> RAW_EVENT_LIMIT then
              tm\<lparr>tm_raw_events := drop RAW_EVENT_EVICTION_BATCH (tm_raw_events tm),
                 tm_dropped_raw_events := tm_dropped_raw_events tm + RAW_EVENT_EVICTION_BATCH\<rparr>
            else tm);
          tm = tm\<lparr>tm_next_raw_sequence := tm_next_raw_sequence tm + 1\<rparr>
      in tm\<lparr>tm_raw_events := tm_raw_events tm @
             [\<lparr>re_sequence = tm_next_raw_sequence tm, re_method = m,
               re_payload = bounded_raw_payload h payload\<rparr>]\<rparr>)"

definition upsert_generated ::
  "host \<Rightarrow> string \<Rightarrow> TranscriptKind \<Rightarrow> string \<Rightarrow> string \<Rightarrow> json \<Rightarrow> TranscriptModel \<Rightarrow>
   (nat \<times> TranscriptModel) option" where
  "upsert_generated h key kind title content raw m =
     (case tm_indices m key of
        Some index \<Rightarrow>
          do { m \<leftarrow> update_item index (\<lambda>item.
                 item\<lparr>it_kind := kind, it_title := title, it_content := content,
                   it_raw := bounded_raw_payload h raw,
                   it_event_count := it_event_count item + 1\<rparr>) m;
               Some (index, m) }
      | None \<Rightarrow>
          Some (push_without_splice
            \<lparr>it_key = key, it_protocol_id = None, it_kind = kind, it_title = title, it_status = None,
             it_content = content, it_raw = bounded_raw_payload h raw, it_event_count = 1,
             it_expanded = (kind \<noteq> Trace), it_pending = None\<rparr> m))"

text \<open>The reasoning branch of \<open>upsert_protocol_item\<close>: one item per turn, and its aliases.\<close>

definition upsert_reasoning ::
  "host \<Rightarrow> json \<Rightarrow> bool \<Rightarrow> string \<Rightarrow> string \<Rightarrow> TranscriptModel \<Rightarrow>
   (nat option \<times> TranscriptModel) option" where
  "upsert_reasoning h v completed protocol_id turn_id m =
     (let aggregate_key = ''turn-reasoning:'' @ turn_id
      in case tm_indices m aggregate_key of
           Some index \<Rightarrow>
             (let incoming = item_from_protocol h v completed
              in do { m \<leftarrow> update_item index (\<lambda>item.
                        item\<lparr>it_content :=
                               merge_unique_reasoning (it_content item) (it_content incoming),
                             it_status := it_status incoming, it_raw := it_raw incoming,
                             it_event_count := it_event_count item + 1\<rparr>) m;
                      Some (Some index, insert_index protocol_id index m) })
         | None \<Rightarrow>
             (let item = (item_from_protocol h v completed)\<lparr>it_key := aggregate_key\<rparr>;
                  (index, m) = push_without_splice item m
              in Some (Some index, insert_index protocol_id index m)))"

text \<open>
  The branch of a new identifier: a user message takes the place of the last local message
  with its text.
\<close>

definition insert_typed ::
  "host \<Rightarrow> json \<Rightarrow> bool \<Rightarrow> string \<Rightarrow> TranscriptModel \<Rightarrow> (nat option \<times> TranscriptModel) option" where
  "insert_typed h v completed protocol_id m =
     (let item = item_from_protocol h v completed
      in case (if it_kind item = User then
                 rposition (\<lambda>candidate. starts_with (it_key candidate) ''local-user:'' \<and>
                   it_content candidate = it_content item) (tm_items m)
               else None) of
           Some index \<Rightarrow>
             do { old \<leftarrow> get_at (tm_items m) index;
                  m \<leftarrow> update_item index (\<lambda>_. item)
                    (insert_index protocol_id index (remove_index (it_key old) m));
                  Some (Some index, m) }
         | None \<Rightarrow>
             (let (index, m) = push_without_splice item m in Some (Some index, m)))"

definition upsert_protocol_item ::
  "host \<Rightarrow> json \<Rightarrow> bool \<Rightarrow> string option \<Rightarrow> TranscriptModel \<Rightarrow>
   (nat option \<times> TranscriptModel) option" where
  "upsert_protocol_item h v completed turn_id m =
     (if string_at v [''type''] = Some ''contextCompaction'' then Some (None, m)
      else
        let protocol_id = unwrap_or (string_at v [''id'']) ''unknown-item'';
            is_reasoning = (string_at v [''type''] = Some ''reasoning'')
        in case (if is_reasoning then turn_id else None) of
             Some turn_id \<Rightarrow> upsert_reasoning h v completed protocol_id turn_id m
           | None \<Rightarrow>
               (case tm_indices m protocol_id of
                  Some index \<Rightarrow>
                    do { m \<leftarrow> update_item index (\<lambda>old.
                           (item_from_protocol h v completed)
                             \<lparr>it_event_count := it_event_count old + 1,
                              it_expanded := it_expanded old, it_pending := it_pending old\<rparr>) m;
                         Some (Some index, m) }
                | None \<Rightarrow> insert_typed h v completed protocol_id m))"

text \<open>An item that does not exist yet is created empty before the text is appended.\<close>

definition append_delta ::
  "host \<Rightarrow> json \<Rightarrow> TranscriptKind \<Rightarrow> TranscriptModel \<Rightarrow> (nat \<times> TranscriptModel) option" where
  "append_delta h params kind m =
     (let item_id = unwrap_or (string_at params [''itemId'']) ''streaming-item'';
          (index, m) =
            (case tm_indices m item_id of
               Some index \<Rightarrow> (index, m)
             | None \<Rightarrow> push_without_splice
                 \<lparr>it_key = item_id, it_protocol_id = Some item_id, it_kind = kind,
                  it_title = title_for_kind kind, it_status = Some ''streaming'', it_content = [],
                  it_raw = bounded_raw_payload h params, it_event_count = 0,
                  it_expanded = (kind \<noteq> Trace), it_pending = None\<rparr> m);
          delta = unwrap_or (string_at params [''delta'']) []
      in do { m \<leftarrow> update_item index (\<lambda>item.
                let needs_command_separator =
                      (kind = Command \<and> delta \<noteq> [] \<and>
                       (case command_transcript item of
                          Some command \<Rightarrow> ct_output command = [] | None \<Rightarrow> False) \<and>
                       it_content item \<noteq> []);
                    item = (if needs_command_separator
                            then item\<lparr>it_content := it_content item @ blank_line\<rparr> else item);
                    item = item\<lparr>it_content := it_content item @ delta\<rparr>;
                    item = (if jget ''type'' (it_raw item) = None
                            then item\<lparr>it_raw := bounded_raw_payload h params\<rparr> else item)
                in item\<lparr>it_event_count := it_event_count item + 1\<rparr>) m;
              Some (index, m) })"

definition append_named_delta ::
  "host \<Rightarrow> string \<Rightarrow> TranscriptKind \<Rightarrow> string \<Rightarrow> string \<Rightarrow> json \<Rightarrow> TranscriptModel \<Rightarrow>
   (nat \<times> TranscriptModel) option" where
  "append_named_delta h key kind title delta raw m =
     (let (index, m) =
            (case tm_indices m key of
               Some index \<Rightarrow> (index, m)
             | None \<Rightarrow> push_without_splice
                 \<lparr>it_key = key, it_protocol_id = Some key, it_kind = kind, it_title = title,
                  it_status = Some ''streaming'', it_content = [],
                  it_raw = bounded_raw_payload h raw, it_event_count = 0,
                  it_expanded = (kind \<noteq> Trace), it_pending = None\<rparr> m)
      in do { m \<leftarrow> update_item index (\<lambda>item.
                item\<lparr>it_content := it_content item @ delta, it_raw := bounded_raw_payload h raw,
                  it_event_count := it_event_count item + 1\<rparr>) m;
              Some (index, m) })"

definition push_local_user :: "string \<Rightarrow> TranscriptModel \<Rightarrow> (nat \<times> string) \<times> TranscriptModel" where
  "push_local_user content m =
     (let m = m\<lparr>tm_local_message_id := tm_local_message_id m + 1\<rparr>;
          key = ''local-user:'' @ dec (tm_local_message_id m);
          (index, m) = push_without_splice
            \<lparr>it_key = key, it_protocol_id = None, it_kind = User, it_title = ''You'',
             it_status = Some ''sending'', it_content = content,
             it_raw = JArray [JObject [(''type'', JString ''text''), (''text'', JString content)]],
             it_event_count = 1, it_expanded = True, it_pending = None\<rparr> m
      in ((index, key), m))"

definition set_status_for_key ::
  "string \<Rightarrow> string \<Rightarrow> TranscriptModel \<Rightarrow> (nat option \<times> TranscriptModel) option" where
  "set_status_for_key key status m =
     (case tm_indices m key of
        None \<Rightarrow> Some (None, m)
      | Some index \<Rightarrow>
          do { m \<leftarrow> update_item index (\<lambda>item. item\<lparr>it_status := Some status\<rparr>) m;
               Some (Some index, m) })"

subsection \<open>The invariant of the index\<close>

definition indices_ok :: "TranscriptModel \<Rightarrow> bool" where
  "indices_ok m = (\<forall>k i. tm_indices m k = Some i \<longrightarrow> i < length (tm_items m))"

text \<open>The journal: contiguous sequence numbers, the last \<open>RAW_EVENT_LIMIT\<close> of them at most.\<close>

definition journal_ok :: "TranscriptModel \<Rightarrow> bool" where
  "journal_ok m =
     (length (tm_raw_events m) \<le> RAW_EVENT_LIMIT \<and>
      map re_sequence (tm_raw_events m) =
        [tm_dropped_raw_events m + 1 ..< tm_next_raw_sequence m + 1] \<and>
      tm_dropped_raw_events m \<le> tm_next_raw_sequence m)"

text \<open>Everything but the items and their index is as it was.\<close>

definition same_rest :: "TranscriptModel \<Rightarrow> TranscriptModel \<Rightarrow> bool" where
  "same_rest m m' =
     (m' = m\<lparr>tm_items := tm_items m', tm_indices := tm_indices m'\<rparr>)"

text \<open>
  What an operation on one item guarantees: it returns, the item is in range, no item is
  lost, only that item changes, and the index stays in range.
\<close>

definition touches :: "TranscriptModel \<Rightarrow> nat \<Rightarrow> TranscriptModel \<Rightarrow> bool" where
  "touches m i m' =
     (indices_ok m' \<and> i < length (tm_items m') \<and> length (tm_items m) \<le> length (tm_items m') \<and>
      (\<forall>j < length (tm_items m'). j \<noteq> i \<longrightarrow>
         j < length (tm_items m) \<and> tm_items m' ! j = tm_items m ! j) \<and> same_rest m m')"

lemma same_rest_refl [simp]: "same_rest m m"
  by (simp add: same_rest_def)

lemma same_rest_trans: "same_rest a b \<Longrightarrow> same_rest b c \<Longrightarrow> same_rest a c"
  by (cases a, cases b, cases c) (simp add: same_rest_def)

lemma same_rest_fields:
  "same_rest m m' \<Longrightarrow> tm_raw_events m' = tm_raw_events m \<and> tm_telemetry m' = tm_telemetry m \<and>
     tm_current_turn_id m' = tm_current_turn_id m \<and>
     tm_local_message_id m' = tm_local_message_id m \<and>
     tm_next_raw_sequence m' = tm_next_raw_sequence m \<and>
     tm_dropped_raw_events m' = tm_dropped_raw_events m"
  by (cases m, cases m') (simp add: same_rest_def)

lemma touches_trans:
  "touches m i m' \<Longrightarrow> touches m' i m'' \<Longrightarrow> touches m i m''"
  unfolding touches_def by (auto intro: same_rest_trans)

lemma indices_ok_insert: "indices_ok m \<Longrightarrow> i < length (tm_items m) \<Longrightarrow> indices_ok (insert_index k i m)"
  by (auto simp: indices_ok_def insert_index_def)

lemma indices_ok_remove: "indices_ok m \<Longrightarrow> indices_ok (remove_index k m)"
  by (auto simp: indices_ok_def remove_index_def split: if_splits)

lemma index_fields [simp]:
  "tm_items (insert_index k i m) = tm_items m" "tm_items (remove_index k m) = tm_items m"
  "tm_indices (insert_index k i m) = (tm_indices m)(k \<mapsto> i)"
  "same_rest m (insert_index k i m)" "same_rest m (remove_index k m)"
  by (simp_all add: insert_index_def remove_index_def same_rest_def)

lemma touches_insert_index:
  "touches m i m' \<Longrightarrow> touches m i (insert_index k i m')"
  unfolding touches_def by (auto intro: indices_ok_insert same_rest_trans)

lemma update_item_Some:
  "i < length (tm_items m) \<Longrightarrow>
     update_item i f m = Some (m\<lparr>tm_items := (tm_items m)[i := f (tm_items m ! i)]\<rparr>)"
  by (simp add: update_item_def)

lemma update_item_touches:
  "indices_ok m \<Longrightarrow> i < length (tm_items m) \<Longrightarrow> \<exists>m'. update_item i f m = Some m' \<and> touches m i m'"
  by (auto simp: update_item_Some touches_def indices_ok_def same_rest_def)

lemma touches_update:
  "touches m i m' \<Longrightarrow> \<exists>m''. update_item i f m' = Some m'' \<and> touches m i m''"
proof -
  assume t: "touches m i m'"
  then have "indices_ok m'" "i < length (tm_items m')" by (simp_all add: touches_def)
  from update_item_touches [OF this, of f] obtain m'' where
    "update_item i f m' = Some m''" "touches m' i m''" by blast
  with touches_trans [OF t] show ?thesis by blast
qed

lemma push_touches:
  "indices_ok m \<Longrightarrow> push_without_splice item m = (i, m') \<Longrightarrow> touches m i m' \<and> i = length (tm_items m)"
  by (auto simp: push_without_splice_def Let_def insert_index_def touches_def indices_ok_def
      same_rest_def nth_append less_Suc_eq split: if_splits)

lemma indexed_or_pushed_touches:
  assumes "indices_ok m"
    and "(case tm_indices m k of Some i \<Rightarrow> (i, m) | None \<Rightarrow> push_without_splice item m) = (i, m')"
  shows "touches m i m'"
proof (cases "tm_indices m k")
  case None
  with assms push_touches show ?thesis by auto
next
  case (Some j)
  with assms show ?thesis by (auto simp: touches_def indices_ok_def)
qed

text \<open>The result of an operation on one item is a touched model.\<close>

definition op_ok :: "TranscriptModel \<Rightarrow> (nat \<times> TranscriptModel) option \<Rightarrow> bool" where
  "op_ok m r = (\<exists>i m'. r = Some (i, m') \<and> touches m i m')"

lemma op_okE: "op_ok m r \<Longrightarrow> (\<And>i m'. r = Some (i, m') \<Longrightarrow> touches m i m' \<Longrightarrow> thesis) \<Longrightarrow> thesis"
  by (auto simp: op_ok_def)

lemma op_ok_push: "indices_ok m \<Longrightarrow> op_ok m (Some (push_without_splice item m))"
  using push_touches [of m item] by (cases "push_without_splice item m") (auto simp: op_ok_def)

lemma op_ok_update:
  "touches m i m' \<Longrightarrow> op_ok m (do { m \<leftarrow> update_item i f m'; Some (i, m) })"
  using touches_update [of m i m' f] by (auto simp: op_ok_def)

lemma touches_here: "indices_ok m \<Longrightarrow> tm_indices m k = Some i \<Longrightarrow> touches m i m"
  by (auto simp: touches_def indices_ok_def)

lemma upsert_generated_ok [panic_free]:
  "indices_ok m \<Longrightarrow> op_ok m (upsert_generated h key kind title content raw m)"
  by (cases "tm_indices m key")
     (auto simp: upsert_generated_def intro: op_ok_push op_ok_update touches_here)

lemma append_named_delta_ok [panic_free]:
  assumes "indices_ok m"
  shows "op_ok m (append_named_delta h key kind title delta raw m)"
proof -
  let ?new = "\<lparr>it_key = key, it_protocol_id = Some key, it_kind = kind, it_title = title,
    it_status = Some ''streaming'', it_content = [], it_raw = bounded_raw_payload h raw,
    it_event_count = 0, it_expanded = (kind \<noteq> Trace), it_pending = None\<rparr>"
  obtain i m' where im:
    "(case tm_indices m key of Some i \<Rightarrow> (i, m) | None \<Rightarrow> push_without_splice ?new m) = (i, m')"
    by fastforce
  show ?thesis
    using op_ok_update [OF indexed_or_pushed_touches [OF assms im]]
    unfolding append_named_delta_def Let_def im prod.case .
qed

lemma append_delta_ok [panic_free]:
  assumes "indices_ok m"
  shows "op_ok m (append_delta h params kind m)"
proof -
  let ?id = "unwrap_or (string_at params [''itemId'']) ''streaming-item''"
  let ?new = "\<lparr>it_key = ?id, it_protocol_id = Some ?id, it_kind = kind,
    it_title = title_for_kind kind, it_status = Some ''streaming'', it_content = [],
    it_raw = bounded_raw_payload h params, it_event_count = 0,
    it_expanded = (kind \<noteq> Trace), it_pending = None\<rparr>"
  obtain i m' where im:
    "(case tm_indices m ?id of Some i \<Rightarrow> (i, m) | None \<Rightarrow> push_without_splice ?new m) = (i, m')"
    by fastforce
  show ?thesis
    using op_ok_update [OF indexed_or_pushed_touches [OF assms im]]
    unfolding append_delta_def Let_def im prod.case .
qed

text \<open>The result of an operation that may leave the transcript alone.\<close>

definition opt_op_ok :: "TranscriptModel \<Rightarrow> (nat option \<times> TranscriptModel) option \<Rightarrow> bool" where
  "opt_op_ok m r =
     (\<exists>x m'. r = Some (x, m') \<and> (case x of None \<Rightarrow> m' = m | Some i \<Rightarrow> touches m i m'))"

lemma opt_op_ok_Some: "touches m i m' \<Longrightarrow> opt_op_ok m (Some (Some i, m'))"
  by (simp add: opt_op_ok_def)

lemma opt_op_ok_update:
  "touches m i m' \<Longrightarrow> (\<And>m''. touches m i m'' \<Longrightarrow> opt_op_ok m (g m'')) \<Longrightarrow>
     opt_op_ok m (Option.bind (update_item i f m') g)"
  using touches_update [of m i m' f] by auto

lemma opt_op_ok_push:
  assumes "indices_ok m" "\<And>i m'. touches m i m' \<Longrightarrow> touches m i (g i m')"
  shows "opt_op_ok m (case push_without_splice item m of (index, m) \<Rightarrow> Some (Some index, g index m))"
  using push_touches [OF assms(1), of item] assms(2)
  by (cases "push_without_splice item m") (simp add: opt_op_ok_def)

lemma upsert_reasoning_ok [panic_free]:
  assumes ok: "indices_ok m"
  shows "opt_op_ok m (upsert_reasoning h v completed protocol_id turn_id m)"
proof (cases "tm_indices m (''turn-reasoning:'' @ turn_id)")
  case None
  then show ?thesis
    unfolding upsert_reasoning_def Let_def None option.case
    by (intro opt_op_ok_push [OF ok] touches_insert_index)
next
  case (Some i)
  show ?thesis
    unfolding upsert_reasoning_def Let_def Some option.case
    by (intro opt_op_ok_update [OF touches_here [OF ok Some]] opt_op_ok_Some touches_insert_index)
qed

lemma insert_typed_ok [panic_free]:
  assumes ok: "indices_ok m"
  shows "opt_op_ok m (insert_typed h v completed protocol_id m)"
proof -
  let ?item = "item_from_protocol h v completed"
  let ?found = "if it_kind ?item = User then
      rposition (\<lambda>candidate. starts_with (it_key candidate) ''local-user:'' \<and>
        it_content candidate = it_content ?item) (tm_items m) else None"
  show ?thesis
  proof (cases ?found)
    case None
    show ?thesis
      unfolding insert_typed_def Let_def None option.case by (intro opt_op_ok_push [OF ok])
  next
    case (Some i)
    then have i: "i < length (tm_items m)" by (auto split: if_splits dest: rposition_lt)
    let ?m = "insert_index protocol_id i (remove_index (it_key (tm_items m ! i)) m)"
    have "indices_ok ?m" using ok i by (intro indices_ok_insert indices_ok_remove) simp_all
    moreover have "same_rest m ?m" by (rule same_rest_trans [OF index_fields(5) index_fields(4)])
    ultimately have t: "touches m i ?m" using i by (simp add: touches_def)
    show ?thesis
      unfolding insert_typed_def Let_def Some option.case get_at_in [OF i] bind.bind_lunit
      by (intro opt_op_ok_update [OF t] opt_op_ok_Some)
  qed
qed

lemma upsert_protocol_item_ok [panic_free]:
  assumes ok: "indices_ok m"
  shows "opt_op_ok m (upsert_protocol_item h v completed turn_id m)"
proof -
  let ?id = "unwrap_or (string_at v [''id'']) ''unknown-item''"
  have known: "opt_op_ok m (do { m \<leftarrow> update_item i f m; Some (Some i, m) })"
    if "tm_indices m ?id = Some i" for i f
    by (intro opt_op_ok_update [OF touches_here [OF ok that]] opt_op_ok_Some)
  have rest: "opt_op_ok m (case tm_indices m ?id of
      Some i \<Rightarrow> do { m \<leftarrow> update_item i f m; Some (Some i, m) }
    | None \<Rightarrow> insert_typed h v completed ?id m)" for f
    by (cases "tm_indices m ?id") (simp_all only: option.case known insert_typed_ok [OF ok])
  show ?thesis
    unfolding upsert_protocol_item_def Let_def
    by (rule if_cases, simp add: opt_op_ok_def,
        cases "if string_at v [''type''] = Some ''reasoning'' then turn_id else None")
       (simp_all only: option.case rest upsert_reasoning_ok [OF ok])
qed

lemma set_status_for_key_ok [panic_free]:
  "indices_ok m \<Longrightarrow> opt_op_ok m (set_status_for_key key status m)"
  by (cases "tm_indices m key")
     (auto simp: set_status_for_key_def opt_op_ok_def [of m "Some (None, m)"]
      intro!: opt_op_ok_update opt_op_ok_Some intro: touches_here)

lemma index_items_range:
  "index_items n items f k = Some i \<Longrightarrow> f k = Some i \<or> n \<le> i \<and> i < n + length items"
proof (induction n items f rule: index_items.induct)
  case (2 n item items f)
  then show ?case by (fastforce simp: Let_def split: option.splits if_splits)
qed simp

lemma rebuild_ok: "indices_ok (rebuild_item_indices m)"
  by (auto simp: indices_ok_def rebuild_item_indices_def dest: index_items_range)

subsection \<open>The journal\<close>

lemma record_raw_fields [simp]:
  "tm_items (record_raw h me p m) = tm_items m" "tm_indices (record_raw h me p m) = tm_indices m"
  "tm_telemetry (record_raw h me p m) = tm_telemetry m"
  "tm_next_raw_sequence (record_raw h me p m) = Suc (tm_next_raw_sequence m)"
  "tm_current_turn_id (record_raw h me p m) = tm_current_turn_id m"
  "tm_local_message_id (record_raw h me p m) = tm_local_message_id m"
  by (simp_all add: record_raw_def Let_def)

lemma record_raw_indices_ok: "indices_ok (record_raw h me p m) = indices_ok m"
  by (simp add: indices_ok_def)

lemma journal_ok_length:
  "journal_ok m \<Longrightarrow> length (tm_raw_events m) = tm_next_raw_sequence m - tm_dropped_raw_events m"
  unfolding journal_ok_def by (metis length_map length_upt Suc_eq_plus1 diff_Suc_Suc)

lemma sequence_snoc:
  assumes "map re_sequence es = [Suc d ..< Suc n]" "d \<le> n" "re_sequence e = Suc n"
  shows "map re_sequence (es @ [e]) = [Suc d ..< Suc (Suc n)]"
proof -
  have "[Suc d ..< Suc (Suc n)] = [Suc d ..< Suc n] @ [Suc n]"
    using assms(2) by (intro upt_Suc_append) simp
  with assms(1,3) show ?thesis by simp
qed

lemma record_raw_journal_ok:
  assumes "journal_ok m"
  shows "journal_ok (record_raw h me p m)"
proof -
  let ?n = "tm_next_raw_sequence m" and ?d = "tm_dropped_raw_events m" and ?es = "tm_raw_events m"
  let ?e = "\<lparr>re_sequence = Suc ?n, re_method = me, re_payload = bounded_raw_payload h p\<rparr>"
  have l: "length ?es = ?n - ?d" using journal_ok_length [OF assms] .
  have j: "length ?es \<le> RAW_EVENT_LIMIT" "map re_sequence ?es = [Suc ?d ..< Suc ?n]" "?d \<le> ?n"
    using assms by (simp_all add: journal_ok_def del: upt_Suc)
  show ?thesis
  proof (cases "length ?es \<ge> RAW_EVENT_LIMIT")
    case True
    have "map re_sequence (drop RAW_EVENT_EVICTION_BATCH ?es) =
        [Suc (?d + RAW_EVENT_EVICTION_BATCH) ..< Suc ?n]"
      using j(2) by (simp add: drop_map [symmetric] del: upt_Suc)
    moreover have le: "?d + RAW_EVENT_EVICTION_BATCH \<le> ?n"
      using True l j(1,3) unfolding RAW_EVENT_LIMIT_def RAW_EVENT_EVICTION_BATCH_def by linarith
    ultimately have "map re_sequence (drop RAW_EVENT_EVICTION_BATCH ?es @ [?e]) =
        [Suc (?d + RAW_EVENT_EVICTION_BATCH) ..< Suc (Suc ?n)]"
      by (rule sequence_snoc) simp
    moreover have "Suc (length ?es - RAW_EVENT_EVICTION_BATCH) \<le> RAW_EVENT_LIMIT"
      using j(1) True unfolding RAW_EVENT_LIMIT_def RAW_EVENT_EVICTION_BATCH_def by linarith
    ultimately show ?thesis
      using True le by (simp add: journal_ok_def record_raw_def Let_def del: upt_Suc)
  next
    case False
    have "map re_sequence (?es @ [?e]) = [Suc ?d ..< Suc (Suc ?n)]"
      using j(2,3) by (rule sequence_snoc) simp
    with False j(3) show ?thesis
      by (simp add: journal_ok_def record_raw_def Let_def del: upt_Suc)
  qed
qed

end
