(* ===== verification/Events.thy ===== *)
theory Events
  imports Model
begin

text \<open>
  \<open>apply_event\<close> and \<open>apply_batch\<close> of \<open>harness_protocol\<close>: one definition per group of
  notification arms, in the order of the source, and their dispatch. A handler takes the model
  and the batch outcome and returns both, or \<open>None\<close> where an index out of range panics.
\<close>

subsection \<open>Events and outcomes\<close>

record RpcError =
  rpc_code :: int
  rpc_message :: string
  rpc_data :: "json option"

datatype Event =
    ServerRequest json string json
  | Notification string json
  | UnmatchedResponse json "json option" "RpcError option"
  | Disconnected string

record BatchOutcome =
  bo_dirty :: "nat set"
  bo_refresh_threads :: bool
  bo_renamed_thread :: "string option"
  bo_transport_error :: "string option"

definition default_outcome :: BatchOutcome where
  "default_outcome =
     \<lparr>bo_dirty = {}, bo_refresh_threads = False, bo_renamed_thread = None,
      bo_transport_error = None\<rparr>"

type_synonym result = "(TranscriptModel \<times> BatchOutcome) option"

text \<open>\<open>outcome.dirty.insert(index)\<close> after an operation that returns an index, or may.\<close>

definition mark :: "nat \<Rightarrow> BatchOutcome \<Rightarrow> BatchOutcome" where
  "mark i out = out\<lparr>bo_dirty := insert i (bo_dirty out)\<rparr>"

definition marked :: "BatchOutcome \<Rightarrow> (nat \<times> TranscriptModel) option \<Rightarrow> result" where
  "marked out r = do { (i, m) \<leftarrow> r; Some (m, mark i out) }"

definition marked_opt :: "BatchOutcome \<Rightarrow> (nat option \<times> TranscriptModel) option \<Rightarrow> result" where
  "marked_opt out r =
     do { (x, m) \<leftarrow> r; Some (m, case x of Some i \<Rightarrow> mark i out | None \<Rightarrow> out) }"

text \<open>A change of the item an operation returned, by its index.\<close>

definition then_item ::
  "(TranscriptItem \<Rightarrow> TranscriptItem) \<Rightarrow> (nat \<times> TranscriptModel) option \<Rightarrow>
   (nat \<times> TranscriptModel) option" where
  "then_item f r = do { (i, m) \<leftarrow> r; m \<leftarrow> update_item i f m; Some (i, m) }"

definition then_status ::
  "string \<Rightarrow> (nat \<times> TranscriptModel) option \<Rightarrow> (nat \<times> TranscriptModel) option" where
  "then_status status = then_item (\<lambda>item. item\<lparr>it_status := Some status\<rparr>)"

subsection \<open>Items and deltas\<close>

definition on_item :: "host \<Rightarrow> string \<Rightarrow> json \<Rightarrow> TranscriptModel \<Rightarrow> BatchOutcome \<Rightarrow> result" where
  "on_item h me params m out =
     (case jget ''item'' params of
        Some item \<Rightarrow>
          marked_opt out
            (upsert_protocol_item h item (me = ''item/completed'') (string_at params [''turnId'']) m)
      | None \<Rightarrow> Some (m, out))"

definition fallback_kind :: "string \<Rightarrow> TranscriptKind" where
  "fallback_kind me =
     (if me = ''item/agentMessage/delta'' then Agent
      else if me = ''item/plan/delta'' then Plan
      else if me = ''item/reasoning/textDelta'' \<or> me = ''item/reasoning/summaryTextDelta'' then Reasoning
      else if me = ''item/commandExecution/outputDelta'' then Command
      else FileChange)"

definition on_delta :: "host \<Rightarrow> string \<Rightarrow> json \<Rightarrow> TranscriptModel \<Rightarrow> BatchOutcome \<Rightarrow> result" where
  "on_delta h me params m out = marked out (append_delta h params (fallback_kind me) m)"

definition on_terminal_interaction ::
  "host \<Rightarrow> json \<Rightarrow> TranscriptModel \<Rightarrow> BatchOutcome \<Rightarrow> result" where
  "on_terminal_interaction h params m out =
     (let item_id = unwrap_or (string_at params [''itemId'']) ''command'';
          stdin = unwrap_or (string_at params [''stdin'']) []
      in marked out (append_named_delta h item_id Command ''Command''
           ([nl] @ angle_quote @ '' '' @ stdin) params m))"

definition on_summary_part ::
  "host \<Rightarrow> json \<Rightarrow> TranscriptModel \<Rightarrow> BatchOutcome \<Rightarrow> result" where
  "on_summary_part h params m out =
     (let item_id = unwrap_or (string_at params [''itemId'']) ''reasoning''
      in marked out
           (then_item (\<lambda>item.
              if it_content item \<noteq> [] \<and> \<not> ends_with (it_content item) blank_line
              then item\<lparr>it_content := it_content item @ blank_line\<rparr> else item)
             (append_named_delta h item_id Reasoning ''Reasoning'' [] params m)))"

definition on_process_output ::
  "host \<Rightarrow> string \<Rightarrow> json \<Rightarrow> TranscriptModel \<Rightarrow> BatchOutcome \<Rightarrow> result" where
  "on_process_output h me params m out =
     (let process_id = unwrap_or
            (or_else (string_at params [''processId'']) (string_at params [''processHandle'']))
            ''process'';
          stream = unwrap_or (string_at params [''stream'']) ''output'';
          delta = unwrap_or (Option.bind (string_at params [''deltaBase64'']) (decode_base64 h))
            ''[binary output chunk]''
      in marked out (append_named_delta h (me @ '':'' @ process_id) Command
           (''Process'' @ mid_dot @ process_id @ mid_dot @ stream) delta params m))"

definition on_process_exited ::
  "host \<Rightarrow> json \<Rightarrow> TranscriptModel \<Rightarrow> BatchOutcome \<Rightarrow> result" where
  "on_process_exited h params m out =
     (let process_id = unwrap_or (string_at params [''processHandle'']) ''process'';
          key = ''process/outputDelta:'' @ process_id
      in case tm_indices m key of
           None \<Rightarrow> Some (m, out)
         | Some index \<Rightarrow>
             (let stdout = unwrap_or (string_at params [''stdout'']) [];
                  stderr = unwrap_or (string_at params [''stderr'']) [];
                  exit_code = unwrap_or (Option.bind (jget ''exitCode'' params) as_i64) 0
              in marked out (then_item (\<lambda>item.
                   let item = item\<lparr>it_content := it_content item @ stdout\<rparr>;
                       item = item\<lparr>it_content := it_content item @ stderr\<rparr>;
                       item = item\<lparr>it_status := Some
                         (if exit_code = 0 then ''completed'' else ''exit '' @ dec_int exit_code)\<rparr>;
                       item = item\<lparr>it_raw := bounded_raw_payload h params\<rparr>
                   in item\<lparr>it_event_count := it_event_count item + 1\<rparr>) (Some (index, m)))))"

definition realtime_kind :: "string \<Rightarrow> TranscriptKind" where
  "realtime_kind role = (if role = ''user'' \<or> role = ''human'' then User else Agent)"

definition on_realtime_delta ::
  "host \<Rightarrow> json \<Rightarrow> TranscriptModel \<Rightarrow> BatchOutcome \<Rightarrow> result" where
  "on_realtime_delta h params m out =
     (let thread_id = unwrap_or (string_at params [''threadId'']) ''realtime'';
          role = unwrap_or (string_at params [''role'']) ''assistant'';
          delta = unwrap_or (string_at params [''delta'']) []
      in marked out (append_named_delta h (''realtime:'' @ thread_id @ '':'' @ role)
           (realtime_kind role) (''Realtime'' @ mid_dot @ role) delta params m))"

subsection \<open>Requests, turns, patches\<close>

text \<open>The loop stops at the first item whose request has the identifier.\<close>

definition has_request :: "json \<Rightarrow> TranscriptItem \<Rightarrow> bool" where
  "has_request request_id item =
     (case it_pending item of Some request \<Rightarrow> json_eq (pr_id request) request_id | None \<Rightarrow> False)"

definition resolve_item :: "host \<Rightarrow> json \<Rightarrow> TranscriptItem \<Rightarrow> TranscriptItem" where
  "resolve_item h params item =
     item\<lparr>it_pending := map_option (\<lambda>request. request\<lparr>pr_resolved := True\<rparr>) (it_pending item),
       it_status := Some ''resolved'',
       it_raw := bounded_raw_payload h
         (JObject [(''request'', it_raw item), (''resolution'', params)])\<rparr>"

definition on_request_resolved ::
  "host \<Rightarrow> json \<Rightarrow> TranscriptModel \<Rightarrow> BatchOutcome \<Rightarrow> result" where
  "on_request_resolved h params m out =
     (case jget ''requestId'' params of
        None \<Rightarrow> Some (m, out)
      | Some request_id \<Rightarrow>
          (case position (has_request request_id) (tm_items m) of
             None \<Rightarrow> Some (m, out)
           | Some index \<Rightarrow> marked out (then_item (resolve_item h params) (Some (index, m)))))"

definition on_diff :: "host \<Rightarrow> json \<Rightarrow> TranscriptModel \<Rightarrow> BatchOutcome \<Rightarrow> result" where
  "on_diff h params m out =
     (let turn_id = unwrap_or (string_at params [''turnId'']) ''unknown''
      in marked out (upsert_generated h (''turn-diff:'' @ turn_id) Diff ''Working tree diff''
           (unwrap_or (string_at params [''diff'']) []) params m))"

definition on_plan :: "host \<Rightarrow> json \<Rightarrow> TranscriptModel \<Rightarrow> BatchOutcome \<Rightarrow> result" where
  "on_plan h params m out =
     (let turn_id = unwrap_or (string_at params [''turnId'']) ''unknown''
      in marked out (upsert_generated h (''turn-plan:'' @ turn_id) Plan ''Plan''
           (render_plan params) params m))"

text \<open>The loop over the items of a completed turn.\<close>

fun upsert_items ::
  "host \<Rightarrow> string \<Rightarrow> json list \<Rightarrow> TranscriptModel \<Rightarrow> BatchOutcome \<Rightarrow> result" where
  "upsert_items h turn_id [] m out = Some (m, out)"
| "upsert_items h turn_id (item # items) m out =
     do { (m, out) \<leftarrow> marked_opt out (upsert_protocol_item h item True (Some turn_id) m);
          upsert_items h turn_id items m out }"

definition turn_verdict ::
  "host \<Rightarrow> json \<Rightarrow> string \<Rightarrow> TranscriptModel \<Rightarrow> BatchOutcome \<Rightarrow> result" where
  "turn_verdict h turn turn_id m out =
     (let status = unwrap_or (string_at turn [''status'']) ''completed''
      in if status = ''failed'' \<or> status = ''interrupted'' then
           marked out
             (then_status (protocol_status_text h status)
               (upsert_generated h (''turn-completion:'' @ turn_id)
                 (if status = ''failed'' then Error else Review)
                 (''Turn '' @ protocol_status_text h status)
                 (render_turn_completion h turn status) turn m))
         else Some (m, out))"

definition on_turn :: "host \<Rightarrow> string \<Rightarrow> json \<Rightarrow> TranscriptModel \<Rightarrow> BatchOutcome \<Rightarrow> result" where
  "on_turn h me params m out =
     (let turn = unwrap_or (jget ''turn'' params) JNull;
          turn_id = unwrap_or (string_at turn [''id'']) ''unknown''
      in if me = ''turn/started'' then Some (m\<lparr>tm_current_turn_id := Some turn_id\<rparr>, out)
         else
           do { (m, out) \<leftarrow>
                  upsert_items h turn_id
                    (unwrap_or (Option.bind (jget ''items'' turn) as_array) []) m out;
                let m = m\<lparr>tm_current_turn_id := None\<rparr>;
                let out = out\<lparr>bo_refresh_threads := True\<rparr>;
                turn_verdict h turn turn_id m out })"

definition on_patch_updated ::
  "host \<Rightarrow> json \<Rightarrow> TranscriptModel \<Rightarrow> BatchOutcome \<Rightarrow> result" where
  "on_patch_updated h params m out =
     (let item_id = unwrap_or (string_at params [''itemId'']) ''patch'';
          changes = unwrap_or (jget ''changes'' params) JNull
      in marked out (upsert_generated h item_id FileChange (file_changes_title changes)
           (render_file_changes h changes) params m))"

definition on_mcp_progress ::
  "host \<Rightarrow> json \<Rightarrow> TranscriptModel \<Rightarrow> BatchOutcome \<Rightarrow> result" where
  "on_mcp_progress h params m out =
     (let item_id = unwrap_or (string_at params [''itemId'']) ''mcp'';
          message = (case string_at params [''message''] of
                       Some message \<Rightarrow> message @ [nl] | None \<Rightarrow> [])
      in marked out (append_named_delta h item_id Tool ''MCP tool'' message params m))"

subsection \<open>Hooks, reviews, models, warnings\<close>

definition on_hook :: "host \<Rightarrow> string \<Rightarrow> json \<Rightarrow> TranscriptModel \<Rightarrow> BatchOutcome \<Rightarrow> result" where
  "on_hook h me params m out =
     (let run = unwrap_or (jget ''run'' params) JNull;
          hook_id = unwrap_or (string_at run [''id'']) ''hook'';
          event_name = unwrap_or
            (map_option (humanize_identifier h) (string_at run [''eventName''])) ''Hook'';
          status = unwrap_or (map_option (protocol_status_text h) (string_at run [''status'']))
            (if me = ''hook/completed'' then ''completed'' else ''running'')
      in marked out
           (then_status status
             (upsert_generated h (''hook:'' @ hook_id) Tool (''Hook'' @ mid_dot @ event_name)
               (render_hook_run h run) params m)))"

definition on_approval_review ::
  "host \<Rightarrow> string \<Rightarrow> json \<Rightarrow> TranscriptModel \<Rightarrow> BatchOutcome \<Rightarrow> result" where
  "on_approval_review h me params m out =
     (let review_id = unwrap_or (string_at params [''reviewId'']) ''review'';
          review_status = unwrap_or
            (map_option (protocol_status_text h) (string_at params [''review'', ''status'']))
            (if ends_with me ''/completed'' then ''completed'' else ''reviewing'')
      in marked out
           (case Option.bind (string_at params [''targetItemId'']) (tm_indices m) of
              Some index \<Rightarrow>
                then_item (\<lambda>item.
                  item\<lparr>it_status := Some review_status,
                    it_raw := bounded_raw_payload h
                      (JObject [(''item'', it_raw item), (''approvalReview'', params)]),
                    it_event_count := it_event_count item + 1\<rparr>) (Some (index, m))
            | None \<Rightarrow>
                then_status review_status
                  (upsert_generated h (''approval-review:'' @ review_id) Review
                    (approval_review_title h params) (render_approval_review h params) params m)))"

definition on_rerouted :: "host \<Rightarrow> json \<Rightarrow> TranscriptModel \<Rightarrow> BatchOutcome \<Rightarrow> result" where
  "on_rerouted h params m out =
     (let turn_id = unwrap_or (string_at params [''turnId'']) ''unknown'';
          from_model = unwrap_or (string_at params [''fromModel'']) ''model'';
          to_model = unwrap_or (string_at params [''toModel'']) ''model'';
          reason = unwrap_or (map_option (humanize_identifier h) (string_at params [''reason'']))
            ''The requested model was unavailable''
      in marked out
           (then_status ''completed''
             (upsert_generated h (''model-reroute:'' @ turn_id) Review
               (''Model rerouted'' @ mid_dot @ from_model @ right_arrow @ to_model) reason params m)))"

definition on_verification :: "host \<Rightarrow> json \<Rightarrow> TranscriptModel \<Rightarrow> BatchOutcome \<Rightarrow> result" where
  "on_verification h params m out =
     (let turn_id = unwrap_or (string_at params [''turnId'']) ''unknown''
      in marked out
           (then_status ''completed''
             (upsert_generated h (''model-verification:'' @ turn_id) Review ''Model verification''
               (render_model_verifications h params) params m)))"

definition on_warning :: "host \<Rightarrow> string \<Rightarrow> json \<Rightarrow> TranscriptModel \<Rightarrow> BatchOutcome \<Rightarrow> result" where
  "on_warning h me params m out =
     (let message = unwrap_or (string_at params [''message'']) ''Codex reported a warning''
      in marked out
           (then_status ''warning''
             (upsert_generated h (me @ '':'' @ dec (tm_next_raw_sequence m)) Error
               (if me = ''guardianWarning'' then ''Safety warning'' else ''Codex warning'')
               message params m)))"

definition on_config_warning :: "json \<Rightarrow> TranscriptModel \<Rightarrow> BatchOutcome \<Rightarrow> result" where
  "on_config_warning params m out =
     Some (m, out\<lparr>bo_transport_error := Some (render_config_warning params)\<rparr>)"

subsection \<open>Realtime, names, errors\<close>

definition on_realtime_item :: "host \<Rightarrow> json \<Rightarrow> TranscriptModel \<Rightarrow> BatchOutcome \<Rightarrow> result" where
  "on_realtime_item h params m out =
     (case jget ''item'' params of
        Some item \<Rightarrow> marked_opt out (upsert_protocol_item h item True None m)
      | None \<Rightarrow> Some (m, out))"

definition on_realtime_done :: "host \<Rightarrow> json \<Rightarrow> TranscriptModel \<Rightarrow> BatchOutcome \<Rightarrow> result" where
  "on_realtime_done h params m out =
     (let thread_id = unwrap_or (string_at params [''threadId'']) ''realtime'';
          role = unwrap_or (string_at params [''role'']) ''assistant'';
          body = unwrap_or (string_at params [''text'']) []
      in marked out
           (then_status ''completed''
             (upsert_generated h (''realtime:'' @ thread_id @ '':'' @ role) (realtime_kind role)
               (''Realtime'' @ mid_dot @ role) body params m)))"

definition on_realtime_audio :: "host \<Rightarrow> json \<Rightarrow> TranscriptModel \<Rightarrow> BatchOutcome \<Rightarrow> result" where
  "on_realtime_audio h params m out =
     (let thread_id = unwrap_or (string_at params [''threadId'']) ''realtime'';
          item_id = unwrap_or (string_at params [''audio'', ''itemId'']) ''output'';
          sample_rate = unwrap_or (Option.bind (pointer [''audio'', ''sampleRate''] params) as_u64) 0;
          channels = unwrap_or (Option.bind (pointer [''audio'', ''numChannels''] params) as_u64) 0
      in marked out
           (then_item (\<lambda>item.
              item\<lparr>it_content := ''Streaming PCM audio'' @ mid_dot @ dec sample_rate @ '' Hz'' @ mid_dot @
                     dec channels @ '' channel(s)'' @ mid_dot @ dec (it_event_count item) @ '' chunk(s)'',
                   it_status := Some ''streaming''\<rparr>)
             (upsert_generated h (''realtime-audio:'' @ thread_id @ '':'' @ item_id) Tool
               ''Realtime audio'' [] params m)))"

definition on_realtime_error :: "host \<Rightarrow> json \<Rightarrow> TranscriptModel \<Rightarrow> BatchOutcome \<Rightarrow> result" where
  "on_realtime_error h params m out =
     (let thread_id = unwrap_or (string_at params [''threadId'']) ''realtime''
      in marked out (upsert_generated h (''realtime-error:'' @ thread_id) Error ''Realtime error''
           (unwrap_or (string_at params [''message'']) ''Realtime failed'') params m))"

definition on_name_updated :: "json \<Rightarrow> TranscriptModel \<Rightarrow> BatchOutcome \<Rightarrow> result" where
  "on_name_updated params m out =
     Some (m, out\<lparr>bo_renamed_thread :=
       or_else (string_at params [''threadName'']) (string_at params [''name''])\<rparr>)"

definition on_error :: "host \<Rightarrow> json \<Rightarrow> TranscriptModel \<Rightarrow> BatchOutcome \<Rightarrow> result" where
  "on_error h params m out =
     (let turn_id = unwrap_or (string_at params [''turnId'']) ''unknown''
      in marked out (upsert_generated h (''error:'' @ turn_id) Error ''Codex error''
           (pretty_json h params) params m))"

subsection \<open>Dispatch\<close>

definition on_notification ::
  "host \<Rightarrow> string \<Rightarrow> json \<Rightarrow> TranscriptModel \<Rightarrow> BatchOutcome \<Rightarrow> result" where
  "on_notification h me params m out =
     (if me \<in> {''item/started'', ''item/completed''} then on_item h me params m out
      else if me \<in> {''item/agentMessage/delta'', ''item/plan/delta'', ''item/reasoning/textDelta'',
          ''item/reasoning/summaryTextDelta'', ''item/commandExecution/outputDelta'',
          ''item/fileChange/outputDelta''} then on_delta h me params m out
      else if me = ''item/commandExecution/terminalInteraction'' then
        on_terminal_interaction h params m out
      else if me = ''item/reasoning/summaryPartAdded'' then on_summary_part h params m out
      else if me \<in> {''command/exec/outputDelta'', ''process/outputDelta''} then
        on_process_output h me params m out
      else if me = ''process/exited'' then on_process_exited h params m out
      else if me = ''rawResponseItem/completed'' then Some (m, out)
      else if me = ''thread/realtime/transcript/delta'' then on_realtime_delta h params m out
      else if me = ''serverRequest/resolved'' then on_request_resolved h params m out
      else if me = ''turn/diff/updated'' then on_diff h params m out
      else if me = ''turn/plan/updated'' then on_plan h params m out
      else if me \<in> {''turn/started'', ''turn/completed''} then on_turn h me params m out
      else if me = ''item/fileChange/patchUpdated'' then on_patch_updated h params m out
      else if me = ''item/mcpToolCall/progress'' then on_mcp_progress h params m out
      else if me \<in> {''hook/started'', ''hook/completed''} then on_hook h me params m out
      else if me \<in> {''item/autoApprovalReview/started'', ''item/autoApprovalReview/completed''} then
        on_approval_review h me params m out
      else if me = ''model/rerouted'' then on_rerouted h params m out
      else if me = ''model/verification'' then on_verification h params m out
      else if me \<in> {''warning'', ''guardianWarning''} then on_warning h me params m out
      else if me = ''configWarning'' then on_config_warning params m out
      else if me = ''thread/realtime/itemAdded'' then on_realtime_item h params m out
      else if me = ''thread/realtime/transcript/done'' then on_realtime_done h params m out
      else if me = ''thread/realtime/outputAudio/delta'' then on_realtime_audio h params m out
      else if me = ''thread/realtime/error'' then on_realtime_error h params m out
      else if me = ''thread/name/updated'' then on_name_updated params m out
      else if me = ''error'' then on_error h params m out
      else Some (m, out))"

definition on_server_request ::
  "host \<Rightarrow> json \<Rightarrow> string \<Rightarrow> json \<Rightarrow> TranscriptModel \<Rightarrow> BatchOutcome \<Rightarrow> result" where
  "on_server_request h i me params m out =
     (let key = ''request:'' @ compact_json h i;
          presentation = pending_request_presentation h me params
      in marked out
           (then_item (\<lambda>item.
              item\<lparr>it_status := Some ''waiting'',
                it_pending := Some \<lparr>pr_id = i, pr_method = me, pr_resolved = False\<rparr>\<rparr>)
             (upsert_generated h key Approval (prp_title presentation) (prp_content presentation)
               params m)))"

definition unmatched_payload :: "json \<Rightarrow> json option \<Rightarrow> RpcError option \<Rightarrow> json" where
  "unmatched_payload i result error =
     JObject [(''id'', i), (''result'', unwrap_or result JNull),
       (''error'', case error of Some e \<Rightarrow> JString (rpc_message e) | None \<Rightarrow> JNull)]"

fun apply_event ::
  "services \<Rightarrow> Event \<Rightarrow> string option \<Rightarrow> TranscriptModel \<Rightarrow> BatchOutcome \<Rightarrow> result" where
  "apply_event sv (Notification me params) selected_thread_id m out =
     (if \<not> event_matches_thread selected_thread_id params then Some (m, out)
      else
        let m = record_raw (sv_host sv) me params m;
            (telemetry, handled) = ingest sv me params (tm_telemetry m);
            m = m\<lparr>tm_telemetry := telemetry\<rparr>
        in if handled then Some (m, out) else on_notification (sv_host sv) me params m out)"
| "apply_event sv (ServerRequest i me params) selected_thread_id m out =
     (if \<not> event_matches_thread selected_thread_id params then Some (m, out)
      else
        let m = record_raw (sv_host sv) me params m
        in on_server_request (sv_host sv) i me params m out)"
| "apply_event sv (UnmatchedResponse i result error) selected_thread_id m out =
     (let payload = unmatched_payload i result error;
          m = record_raw (sv_host sv) ''unmatchedResponse'' payload m
      in marked out
           (upsert_generated (sv_host sv) (''unmatched-response:'' @ dec (length (tm_raw_events m)))
             Trace ''Unmatched response'' (pretty_json (sv_host sv) payload) payload m))"
| "apply_event sv (Disconnected reason) selected_thread_id m out =
     (let out = out\<lparr>bo_transport_error := Some reason\<rparr>;
          payload = JObject [(''reason'', JString reason)];
          m = record_raw (sv_host sv) ''disconnected'' payload m
      in marked out
           (then_status ''offline''
             (upsert_generated (sv_host sv) ''app-server-disconnected'' Error
               ''App Server disconnected'' reason payload m)))"

text \<open>A loop whose body may panic.\<close>

fun run_steps :: "('e \<Rightarrow> 's \<Rightarrow> 's option) \<Rightarrow> 'e list \<Rightarrow> 's \<Rightarrow> 's option" where
  "run_steps step [] s = Some s"
| "run_steps step (e # es) s = do { s \<leftarrow> step e s; run_steps step es s }"

definition event_step ::
  "services \<Rightarrow> string option \<Rightarrow> Event \<Rightarrow> TranscriptModel \<times> BatchOutcome \<Rightarrow> result" where
  "event_step sv selected_thread_id e s = apply_event sv e selected_thread_id (fst s) (snd s)"

definition apply_batch ::
  "services \<Rightarrow> Event list \<Rightarrow> string option \<Rightarrow> TranscriptModel \<Rightarrow> result" where
  "apply_batch sv events selected_thread_id m =
     run_steps (event_step sv selected_thread_id) events (m, default_outcome)"

subsection \<open>Loops of safe steps\<close>

text \<open>
  The contract of a step that loops rely on: from a state of the invariant it returns, keeps
  the invariant, and relates the two states by an order.
\<close>

locale stepping =
  fixes step :: "'e \<Rightarrow> 's \<Rightarrow> 's option"
    and inv :: "'s \<Rightarrow> bool"
    and evolves :: "'s \<Rightarrow> 's \<Rightarrow> bool"
  assumes safe: "inv s \<Longrightarrow> \<exists>s'. step e s = Some s' \<and> inv s' \<and> evolves s s'"
    and evolves_refl: "evolves s s"
    and evolves_trans: "evolves a b \<Longrightarrow> evolves b c \<Longrightarrow> evolves a c"
begin

lemma loop_safe: "inv s \<Longrightarrow> \<exists>s'. run_steps step es s = Some s' \<and> inv s' \<and> evolves s s'"
proof (induction es arbitrary: s)
  case Nil
  then show ?case by (simp add: evolves_refl)
next
  case (Cons e es)
  from safe [OF Cons.prems, of e] obtain t where t: "step e s = Some t" "inv t" "evolves s t"
    by blast
  from Cons.IH [OF t(2)] t(1,3) show ?case by (auto intro: evolves_trans)
qed

lemma loop_append:
  "run_steps step (xs @ ys) s = Option.bind (run_steps step xs s) (run_steps step ys)"
proof (induction xs arbitrary: s)
  case (Cons x xs)
  then show ?case by (cases "step x s") simp_all
qed simp

end

subsection \<open>The invariant of events\<close>

text \<open>The index is in range, the journal is contiguous and bounded, servers are distinct.\<close>

definition model_ok :: "TranscriptModel \<Rightarrow> bool" where
  "model_ok m = (indices_ok m \<and> journal_ok m \<and> telemetry_ok (tm_telemetry m))"

text \<open>
  How a batch may change the items: none is lost, the dirty set grows by indices in range, and
  an item outside it is as it was.
\<close>

definition redraws :: "TranscriptModel \<times> BatchOutcome \<Rightarrow> TranscriptModel \<times> BatchOutcome \<Rightarrow> bool" where
  "redraws s s' =
     (length (tm_items (fst s)) \<le> length (tm_items (fst s')) \<and>
      bo_dirty (snd s) \<subseteq> bo_dirty (snd s') \<and>
      bo_dirty (snd s') \<subseteq> bo_dirty (snd s) \<union> {..< length (tm_items (fst s'))} \<and>
      (\<forall>j < length (tm_items (fst s')). j \<notin> bo_dirty (snd s') \<longrightarrow>
         j < length (tm_items (fst s)) \<and> tm_items (fst s') ! j = tm_items (fst s) ! j))"

lemma redraws_refl: "redraws s s"
  by (simp add: redraws_def)

lemma redraws_trans:
  assumes "redraws a b" "redraws b c"
  shows "redraws a c"
proof -
  have "j < length (tm_items (fst a)) \<and> tm_items (fst c) ! j = tm_items (fst a) ! j"
    if "j < length (tm_items (fst c))" "j \<notin> bo_dirty (snd c)" for j
  proof -
    from assms(2) that have "j < length (tm_items (fst b))" "tm_items (fst c) ! j = tm_items (fst b) ! j"
      "j \<notin> bo_dirty (snd b)" by (auto simp: redraws_def)
    with assms(1) show ?thesis by (simp add: redraws_def)
  qed
  moreover have "bo_dirty (snd c) \<subseteq> bo_dirty (snd a) \<union> {..< length (tm_items (fst c))}"
    using assms unfolding redraws_def by fastforce
  ultimately show ?thesis using assms unfolding redraws_def by auto
qed

text \<open>The journal and the message counter, which no handler changes.\<close>

definition journal :: "TranscriptModel \<Rightarrow> RawEvent list \<times> nat \<times> nat \<times> nat" where
  "journal m =
     (tm_raw_events m, tm_next_raw_sequence m, tm_dropped_raw_events m, tm_local_message_id m)"

text \<open>
  A handler returns, keeps the invariant and the journal, and redraws what it changed.
\<close>

definition handled :: "TranscriptModel \<Rightarrow> BatchOutcome \<Rightarrow> result \<Rightarrow> bool" where
  "handled m out r =
     (\<exists>s. r = Some s \<and> model_ok (fst s) \<and> redraws (m, out) s \<and> journal (fst s) = journal m)"

lemma handled_if:
  "(b \<Longrightarrow> handled m out x) \<Longrightarrow> (\<not> b \<Longrightarrow> handled m out y) \<Longrightarrow> handled m out (if b then x else y)"
  by simp

lemma model_okD: "model_ok m \<Longrightarrow> indices_ok m"
  by (simp add: model_ok_def)

lemma model_ok_touches: "model_ok m \<Longrightarrow> touches m i m' \<Longrightarrow> model_ok m'"
  using same_rest_fields [of m m'] by (simp add: model_ok_def touches_def journal_ok_def)

lemma touches_journal: "touches m i m' \<Longrightarrow> journal m' = journal m"
  using same_rest_fields [of m m'] by (simp add: touches_def journal_def)

lemma touches_redraws: "touches m i m' \<Longrightarrow> redraws (m, out) (m', mark i out)"
  by (auto simp: touches_def redraws_def mark_def less_Suc_eq)

lemma handled_same [panic_free]:
  assumes "model_ok m'" "tm_items m' = tm_items m" "bo_dirty out' = bo_dirty out"
    "journal m' = journal m"
  shows "handled m out (Some (m', out'))"
  using assms by (simp add: handled_def redraws_def)

lemma marked_ok [panic_free]:
  assumes "model_ok m" "op_ok m r"
  shows "handled m out (marked out r)"
  using assms(2)
proof (rule op_okE)
  fix i m'
  assume "r = Some (i, m')" "touches m i m'"
  with assms(1) show ?thesis
    by (auto simp: handled_def marked_def model_ok_touches touches_redraws touches_journal)
qed

lemma marked_opt_ok [panic_free]:
  assumes "model_ok m" "opt_op_ok m r"
  shows "handled m out (marked_opt out r)"
proof -
  obtain x m' where r: "r = Some (x, m')" "case x of None \<Rightarrow> m' = m | Some i \<Rightarrow> touches m i m'"
    using assms(2) by (auto simp: opt_op_ok_def)
  then show ?thesis
    using assms(1) by (cases x)
      (auto simp: handled_def marked_opt_def model_ok_touches touches_redraws touches_journal
        redraws_refl)
qed

lemma then_item_ok [panic_free]: "op_ok m r \<Longrightarrow> op_ok m (then_item f r)"
  by (erule op_okE) (simp add: then_item_def op_ok_update)

lemma then_status_ok [panic_free]: "op_ok m r \<Longrightarrow> op_ok m (then_status s r)"
  by (simp add: then_status_def then_item_ok)

lemma op_ok_here: "touches m i m \<Longrightarrow> op_ok m (Some (i, m))"
  by (auto simp: op_ok_def)

lemma handled_bind:
  assumes "handled m out r" "\<And>m' out'. model_ok m' \<Longrightarrow> handled m' out' (f (m', out'))"
  shows "handled m out (Option.bind r f)"
proof -
  from assms(1) obtain m' out' where r: "r = Some (m', out')" "model_ok m'" "redraws (m, out) (m', out')"
      "journal m' = journal m"
    by (auto simp: handled_def)
  from assms(2) [OF r(2), of out'] obtain s where
    "f (m', out') = Some s" "model_ok (fst s)" "redraws (m', out') s" "journal (fst s) = journal m'"
    by (auto simp: handled_def)
  with r show ?thesis by (auto simp: handled_def intro: redraws_trans)
qed

lemma on_item_ok [panic_free]: "model_ok m \<Longrightarrow> handled m out (on_item h me params m out)"
  by (cases "jget ''item'' params")
     (auto simp: on_item_def model_okD intro!: panic_free)

lemma on_request_resolved_ok [panic_free]:
  assumes ok: "model_ok m"
  shows "handled m out (on_request_resolved h params m out)"
proof (cases "jget ''requestId'' params")
  case None
  with ok show ?thesis by (simp add: on_request_resolved_def handled_same)
next
  case (Some rid)
  show ?thesis
  proof (cases "position (has_request rid) (tm_items m)")
    case None
    show ?thesis unfolding on_request_resolved_def Some option.case None
      by (rule handled_same) (simp_all add: ok)
  next
    case found: (Some i)
    have "touches m i m"
      using position_lt [OF found] model_okD [OF ok] by (simp add: touches_def)
    then show ?thesis
      unfolding on_request_resolved_def Some option.case found
      by (intro marked_ok [OF ok] then_item_ok op_ok_here)
  qed
qed

lemma on_process_exited_ok [panic_free]:
  assumes ok: "model_ok m"
  shows "handled m out (on_process_exited h params m out)"
proof (cases "tm_indices m (''process/outputDelta:'' @ unwrap_or (string_at params [''processHandle'']) ''process'')")
  case None
  then show ?thesis
    unfolding on_process_exited_def Let_def None option.case
    by (intro handled_same) (simp_all add: ok)
next
  case (Some i)
  show ?thesis
    unfolding on_process_exited_def Let_def Some option.case
    by (intro marked_ok [OF ok] then_item_ok op_ok_here touches_here [OF model_okD [OF ok] Some])
qed

lemma on_approval_review_ok [panic_free]:
  assumes ok: "model_ok m"
  shows "handled m out (on_approval_review h me params m out)"
proof (cases "Option.bind (string_at params [''targetItemId'']) (tm_indices m)")
  case None
  show ?thesis
    unfolding on_approval_review_def Let_def None option.case
    by (intro marked_ok [OF ok] then_status_ok upsert_generated_ok model_okD [OF ok])
next
  case (Some i)
  then obtain k where "tm_indices m k = Some i" by (auto simp: bind_eq_Some_conv)
  then have "touches m i m" by (rule touches_here [OF model_okD [OF ok]])
  then show ?thesis
    unfolding on_approval_review_def Let_def Some option.case
    by (intro marked_ok [OF ok] then_item_ok op_ok_here)
qed

lemma upsert_items_ok [panic_free]:
  "model_ok m \<Longrightarrow> handled m out (upsert_items h turn_id items m out)"
proof (induction items arbitrary: m out)
  case Nil
  then show ?case by (simp add: handled_same)
next
  case (Cons item items)
  then show ?case
    by (auto simp: model_okD intro!: handled_bind marked_opt_ok upsert_protocol_item_ok)
qed

lemma turn_verdict_ok [panic_free]:
  "model_ok m \<Longrightarrow> handled m out (turn_verdict h turn turn_id m out)"
  unfolding turn_verdict_def Let_def
  by (intro handled_if handled_same marked_ok then_status_ok upsert_generated_ok model_okD refl)

lemma handled_from:
  "handled m' out' r \<Longrightarrow> tm_items m' = tm_items m \<Longrightarrow> bo_dirty out' = bo_dirty out \<Longrightarrow>
     journal m' = journal m \<Longrightarrow> handled m out r"
  by (auto simp: handled_def redraws_def)

lemma journal_current_turn [simp]: "journal (m\<lparr>tm_current_turn_id := t\<rparr>) = journal m"
  by (simp add: journal_def)

lemma model_ok_current_turn [simp]: "model_ok (m\<lparr>tm_current_turn_id := t\<rparr>) = model_ok m"
  by (simp add: model_ok_def indices_ok_def journal_ok_def)

lemma on_turn_ok [panic_free]:
  assumes ok: "model_ok m"
  shows "handled m out (on_turn h me params m out)"
proof -
  have verdict: "handled m' out' (turn_verdict h turn turn_id (m'\<lparr>tm_current_turn_id := None\<rparr>)
      (out'\<lparr>bo_refresh_threads := True\<rparr>))" if "model_ok m'" for m' out' turn turn_id
    by (rule handled_from [OF turn_verdict_ok]) (simp_all add: that)
  show ?thesis
    unfolding on_turn_def Let_def
    using ok
    by (intro handled_if handled_bind [OF upsert_items_ok]) (simp_all add: handled_same verdict)
qed

lemma generated_handlers_ok [panic_free]:
  assumes ok: "model_ok m"
  shows "handled m out (on_delta h me params m out)"
    and "handled m out (on_terminal_interaction h params m out)"
    and "handled m out (on_summary_part h params m out)"
    and "handled m out (on_process_output h me params m out)"
    and "handled m out (on_realtime_delta h params m out)"
    and "handled m out (on_diff h params m out)"
    and "handled m out (on_plan h params m out)"
    and "handled m out (on_patch_updated h params m out)"
    and "handled m out (on_mcp_progress h params m out)"
    and "handled m out (on_hook h me params m out)"
    and "handled m out (on_rerouted h params m out)"
    and "handled m out (on_verification h params m out)"
    and "handled m out (on_warning h me params m out)"
    and "handled m out (on_realtime_done h params m out)"
    and "handled m out (on_realtime_audio h params m out)"
    and "handled m out (on_realtime_error h params m out)"
    and "handled m out (on_error h params m out)"
    and "handled m out (on_server_request h i me params m out)"
  unfolding on_delta_def on_terminal_interaction_def on_summary_part_def on_process_output_def
    on_realtime_delta_def on_diff_def on_plan_def on_patch_updated_def on_mcp_progress_def
    on_hook_def on_rerouted_def on_verification_def on_warning_def on_realtime_done_def
    on_realtime_audio_def on_realtime_error_def on_error_def on_server_request_def Let_def
  by (intro marked_ok [OF ok] then_item_ok then_status_ok upsert_generated_ok append_delta_ok
      append_named_delta_ok model_okD [OF ok])+

lemma plain_handlers_ok [panic_free]:
  assumes ok: "model_ok m"
  shows "handled m out (on_config_warning params m out)"
    and "handled m out (on_name_updated params m out)"
    and "handled m out (on_realtime_item h params m out)"
proof -
  show "handled m out (on_realtime_item h params m out)"
    using ok by (cases "jget ''item'' params")
      (auto simp: on_realtime_item_def model_okD intro!: handled_same marked_opt_ok upsert_protocol_item_ok)
qed (simp_all add: on_config_warning_def on_name_updated_def handled_same ok)

lemma on_notification_ok [panic_free]:
  "model_ok m \<Longrightarrow> handled m out (on_notification h me params m out)"
  unfolding on_notification_def
  by (intro handled_if panic_free handled_same refl; assumption)

lemma model_ok_record: "model_ok m \<Longrightarrow> model_ok (record_raw h me p m)"
  by (simp add: model_ok_def record_raw_indices_ok record_raw_journal_ok)

lemma model_ok_ingest:
  "model_ok m \<Longrightarrow> model_ok (m\<lparr>tm_telemetry := fst (ingest sv me params (tm_telemetry m))\<rparr>)"
  by (simp add: model_ok_def indices_ok_def journal_ok_def ingest_ok)

text \<open>What an event adds to the journal: nothing when it is of another thread.\<close>

fun journal_entry :: "string option \<Rightarrow> Event \<Rightarrow> (string \<times> json) option" where
  "journal_entry thread (Notification me params) =
     (if event_matches_thread thread params then Some (me, params) else None)"
| "journal_entry thread (ServerRequest i me params) =
     (if event_matches_thread thread params then Some (me, params) else None)"
| "journal_entry thread (UnmatchedResponse i result error) =
     Some (''unmatchedResponse'', unmatched_payload i result error)"
| "journal_entry thread (Disconnected reason) =
     Some (''disconnected'', JObject [(''reason'', JString reason)])"

definition recorded :: "services \<Rightarrow> string option \<Rightarrow> Event \<Rightarrow> TranscriptModel \<Rightarrow> TranscriptModel" where
  "recorded sv thread e m =
     (case journal_entry thread e of
        Some (me, p) \<Rightarrow> record_raw (sv_host sv) me p m | None \<Rightarrow> m)"

text \<open>An event is recorded, and then handled.\<close>

definition stepped ::
  "services \<Rightarrow> string option \<Rightarrow> Event \<Rightarrow> TranscriptModel \<Rightarrow> BatchOutcome \<Rightarrow> result \<Rightarrow> bool" where
  "stepped sv thread e m out r =
     (\<exists>s. r = Some s \<and> model_ok (fst s) \<and> redraws (m, out) s \<and>
        journal (fst s) = journal (recorded sv thread e m))"

lemma stepped_from:
  "handled m' out' r \<Longrightarrow> tm_items m' = tm_items m \<Longrightarrow> bo_dirty out' = bo_dirty out \<Longrightarrow>
     journal m' = journal (recorded sv thread e m) \<Longrightarrow> stepped sv thread e m out r"
  by (auto simp: handled_def stepped_def redraws_def)

lemma apply_event_ok:
  assumes ok: "model_ok m"
  shows "stepped sv thread e m out (apply_event sv e thread m out)"
proof (cases e)
  case (Notification me params)
  let ?m = "record_raw (sv_host sv) me params m"
  let ?t = "ingest sv me params (tm_telemetry ?m)"
  let ?m' = "?m\<lparr>tm_telemetry := fst ?t\<rparr>"
  have "model_ok ?m'" by (intro model_ok_ingest model_ok_record ok)
  then have "handled ?m' out (if snd ?t then Some (?m', out)
      else on_notification (sv_host sv) me params ?m' out)"
    by (intro handled_if handled_same on_notification_ok refl)
  then have "stepped sv thread e m out (if snd ?t then Some (?m', out)
      else on_notification (sv_host sv) me params ?m' out)" if "event_matches_thread thread params"
    using that by (elim stepped_from) (simp_all add: recorded_def journal_def Notification)
  moreover have "stepped sv thread e m out (Some (m, out))" if "\<not> event_matches_thread thread params"
    using that ok by (simp add: stepped_def recorded_def Notification redraws_refl)
  moreover have "apply_event sv e thread m out =
      (if \<not> event_matches_thread thread params then Some (m, out)
       else if snd ?t then Some (?m', out) else on_notification (sv_host sv) me params ?m' out)"
    by (simp add: Notification Let_def case_prod_beta del: record_raw_fields)
  ultimately show ?thesis by simp
next
  case (ServerRequest i me params)
  let ?m = "record_raw (sv_host sv) me params m"
  have "stepped sv thread e m out (on_server_request (sv_host sv) i me params ?m out)"
    if "event_matches_thread thread params"
    by (rule stepped_from [OF generated_handlers_ok(18) [OF model_ok_record [OF ok]]])
       (simp_all add: that recorded_def ServerRequest)
  moreover have "stepped sv thread e m out (Some (m, out))" if "\<not> event_matches_thread thread params"
    using that ok by (simp add: stepped_def recorded_def ServerRequest redraws_refl)
  ultimately show ?thesis by (simp add: ServerRequest Let_def)
next
  case (UnmatchedResponse i result error)
  show ?thesis
    unfolding UnmatchedResponse apply_event.simps Let_def
    by (rule stepped_from [OF marked_ok [OF model_ok_record upsert_generated_ok]])
       (simp_all add: ok model_okD record_raw_indices_ok recorded_def)
next
  case (Disconnected reason)
  show ?thesis
    unfolding Disconnected apply_event.simps Let_def
    by (rule stepped_from [OF marked_ok [OF model_ok_record then_status_ok [OF upsert_generated_ok]]])
       (simp_all add: ok model_okD record_raw_indices_ok recorded_def)
qed

interpretation batch: stepping "event_step sv thread" "model_ok \<circ> fst" redraws for sv thread
proof
  fix s :: "TranscriptModel \<times> BatchOutcome" and e
  assume "(model_ok \<circ> fst) s"
  then show "\<exists>s'. event_step sv thread e s = Some s' \<and> (model_ok \<circ> fst) s' \<and> redraws s s'"
    using apply_event_ok [of "fst s" sv thread e "snd s"] by (auto simp: stepped_def event_step_def)
qed (auto intro: redraws_refl redraws_trans)

end
