(* ===== verification/EventProperties.thy ===== *)
theory EventProperties
  imports Events
begin

text \<open>
  What a batch of events guarantees: it returns, keeps the invariant, reports every item it
  changed, records every event once and in order, and ignores other threads.
\<close>

subsection \<open>Batches\<close>

lemma default_model_ok: "model_ok default_model"
  by (simp add: model_ok_def default_model_def indices_ok_def journal_ok_def telemetry_ok_def
      default_telemetry_def)

lemma clear_ok: "model_ok (clear m)"
  by (simp add: model_ok_def clear_def indices_ok_def journal_ok_def telemetry_ok_def
      default_telemetry_def)

lemma apply_batch_safe:
  "model_ok m \<Longrightarrow> \<exists>m' out. apply_batch sv events thread m = Some (m', out) \<and> model_ok m' \<and>
     redraws (m, default_outcome) (m', out)"
  using batch.loop_safe [of "(m, default_outcome)" sv thread events]
  by (auto simp: apply_batch_def)

text \<open>
  No batch of events panics, whatever the events: from a model whose index is in range and
  whose journal is contiguous and bounded, \<open>apply_batch\<close> returns a model of the same
  invariant. The empty model satisfies it, and so does a cleared one.
\<close>

lemma apply_batch_total:
  "model_ok default_model \<and> model_ok (clear m0) \<and>
   (model_ok m \<longrightarrow> (\<exists>m' out. apply_batch sv events thread m = Some (m', out) \<and> model_ok m'))"
  using batch.loop_safe [of "(m, default_outcome)" sv thread events] default_model_ok clear_ok
  by (auto simp: apply_batch_def)

text \<open>
  C25. The dirty set of a batch is right for redrawing: its indices are in range, items are
  never lost, and an item that is not in the set existed before and is unchanged.
\<close>

theorem apply_batch_dirty:
  assumes "model_ok m" "apply_batch sv events thread m = Some (m', out)"
  shows "bo_dirty out \<subseteq> {..< length (tm_items m')} \<and> length (tm_items m) \<le> length (tm_items m') \<and>
    (\<forall>j < length (tm_items m'). j \<in> bo_dirty out \<or>
       j < length (tm_items m) \<and> tm_items m' ! j = tm_items m ! j)"
  using batch.loop_safe [of "(m, default_outcome)" sv thread events] assms
  by (auto simp: apply_batch_def redraws_def default_outcome_def)

theorem apply_batch_dirty_witness:
  "\<exists>m' out. apply_batch (example_services tiny_host) [Disconnected ''gone''] None default_model =
     Some (m', out) \<and> bo_dirty out \<subseteq> {..< length (tm_items m')}"
proof -
  obtain m' out where
    r: "apply_batch (example_services tiny_host) [Disconnected ''gone''] None default_model = Some (m', out)"
    using apply_batch_safe [OF default_model_ok] by blast
  from apply_batch_dirty [OF default_model_ok r] r show ?thesis by blast
qed

subsection \<open>The journal\<close>

definition entry_of :: "RawEvent \<Rightarrow> string \<times> json" where
  "entry_of e = (re_method e, re_payload e)"

text \<open>What the journal keeps of an event.\<close>

definition kept_entry :: "services \<Rightarrow> string option \<Rightarrow> Event \<Rightarrow> (string \<times> json) option" where
  "kept_entry sv thread e =
     map_option (\<lambda>(me, p). (me, bounded_raw_payload (sv_host sv) p)) (journal_entry thread e)"

text \<open>The journal of \<open>m'\<close> is that of \<open>m\<close> with entries added at its end and lost at its start.\<close>

definition journal_after :: "TranscriptModel \<Rightarrow> (string \<times> json) list \<Rightarrow> TranscriptModel \<Rightarrow> bool" where
  "journal_after m entries m' =
     (tm_dropped_raw_events m \<le> tm_dropped_raw_events m' \<and>
      tm_next_raw_sequence m' = tm_next_raw_sequence m + length entries \<and>
      map entry_of (tm_raw_events m') =
        drop (tm_dropped_raw_events m' - tm_dropped_raw_events m)
          (map entry_of (tm_raw_events m) @ entries))"

lemma journal_after_refl: "journal_after m [] m"
  by (simp add: journal_after_def)

lemma journal_after_trans:
  assumes "journal_after a xs b" "journal_after b ys c"
    and "tm_dropped_raw_events b - tm_dropped_raw_events a \<le> length (tm_raw_events a) + length xs"
  shows "journal_after a (xs @ ys) c"
proof -
  let ?d = "tm_dropped_raw_events"
  have le: "?d a \<le> ?d b" "?d b \<le> ?d c" using assms(1,2) by (simp_all add: journal_after_def)
  have "map entry_of (tm_raw_events c) =
      drop (?d c - ?d b) (drop (?d b - ?d a) (map entry_of (tm_raw_events a) @ xs) @ ys)"
    using assms(1,2) by (simp add: journal_after_def)
  also have "\<dots> = drop (?d c - ?d b) (drop (?d b - ?d a) (map entry_of (tm_raw_events a) @ xs @ ys))"
    using assms(3) by simp
  also have "\<dots> = drop (?d c - ?d a) (map entry_of (tm_raw_events a) @ xs @ ys)"
    using le by (simp only: drop_drop) simp
  finally show ?thesis using assms(1,2) by (simp add: journal_after_def)
qed

lemma record_raw_journal_after:
  "journal_after m [(me, bounded_raw_payload h p)] (record_raw h me p m)"
  by (simp add: journal_after_def record_raw_def Let_def entry_of_def drop_map RAW_EVENT_LIMIT_def
      RAW_EVENT_EVICTION_BATCH_def)

lemma recorded_journal_after:
  "journal_after m (filter_map (kept_entry sv thread) [e]) (recorded sv thread e m)"
  by (auto simp: recorded_def kept_entry_def journal_after_refl record_raw_journal_after
      split: option.splits)

lemma journal_eq_after: "journal b = journal c \<Longrightarrow> journal_after a xs b \<Longrightarrow> journal_after a xs c"
  by (simp add: journal_def journal_after_def)

lemma step_journal_after:
  "model_ok m \<Longrightarrow> event_step sv thread e (m, out) = Some s \<Longrightarrow>
     model_ok (fst s) \<and> journal_after m (filter_map (kept_entry sv thread) [e]) (fst s)"
  using apply_event_ok [of m sv thread e out] recorded_journal_after [of m sv thread e]
  by (auto simp: event_step_def stepped_def intro: journal_eq_after)

lemma filter_map_Cons_append: "filter_map f (x # xs) = filter_map f [x] @ filter_map f xs"
  by (simp split: option.split)

lemma journal_after_dropped:
  assumes "model_ok m" "model_ok m'" "journal_after m es m'"
  shows "tm_dropped_raw_events m' - tm_dropped_raw_events m \<le> length (tm_raw_events m) + length es"
proof -
  have "length (tm_raw_events m) = tm_next_raw_sequence m - tm_dropped_raw_events m"
    "tm_dropped_raw_events m' \<le> tm_next_raw_sequence m'"
    using assms(1,2) journal_ok_length by (auto simp: model_ok_def journal_ok_def)
  with assms(3) show ?thesis unfolding journal_after_def by linarith
qed

lemma run_journal_after:
  "model_ok m \<Longrightarrow> run_steps (event_step sv thread) events (m, out) = Some s \<Longrightarrow>
     model_ok (fst s) \<and> journal_after m (filter_map (kept_entry sv thread) events) (fst s)"
proof (induction events arbitrary: m out)
  case Nil
  then show ?case by (auto simp: journal_after_refl)
next
  case (Cons e events)
  from Cons.prems(2) obtain m1 out1 where
    step: "event_step sv thread e (m, out) = Some (m1, out1)" and
    run: "run_steps (event_step sv thread) events (m1, out1) = Some s"
    by (auto simp: bind_eq_Some_conv)
  have one: "model_ok m1" "journal_after m (filter_map (kept_entry sv thread) [e]) m1"
    using step_journal_after [OF Cons.prems(1) step] by simp_all
  have rest: "model_ok (fst s)" "journal_after m1 (filter_map (kept_entry sv thread) events) (fst s)"
    using Cons.IH [OF one(1) run] by simp_all
  show ?case
    using rest(1) journal_after_trans [OF one(2) rest(2) journal_after_dropped [OF Cons.prems(1) one]]
    by (simp only: filter_map_Cons_append [of _ e events])
qed

text \<open>
  C24. The journal is the end of the history. A batch adds one entry for each of its events that
  is not of another thread, in their order, each with its bounded payload; entries are lost
  only at the start, and are counted in \<open>dropped_raw_events\<close>; the sequence numbers stay
  contiguous, and there are never more than \<open>RAW_EVENT_LIMIT\<close> entries.
\<close>

theorem apply_batch_journal:
  assumes "model_ok m" "apply_batch sv events thread m = Some (m', out)"
  shows "map entry_of (tm_raw_events m') =
      drop (tm_dropped_raw_events m' - tm_dropped_raw_events m)
        (map entry_of (tm_raw_events m) @ filter_map (kept_entry sv thread) events) \<and>
    map re_sequence (tm_raw_events m') =
      [tm_dropped_raw_events m' + 1 ..< tm_next_raw_sequence m' + 1] \<and>
    tm_next_raw_sequence m' = tm_next_raw_sequence m + length (filter_map (kept_entry sv thread) events) \<and>
    length (tm_raw_events m') \<le> RAW_EVENT_LIMIT"
proof -
  have "model_ok m'" "journal_after m (filter_map (kept_entry sv thread) events) m'"
    using run_journal_after [OF assms(1) assms(2) [unfolded apply_batch_def]] by simp_all
  then show ?thesis by (simp add: journal_after_def model_ok_def journal_ok_def del: upt_Suc)
qed

theorem apply_batch_journal_witness:
  "\<exists>m' out. apply_batch (example_services tiny_host) [Disconnected ''gone''] None default_model =
     Some (m', out) \<and> tm_next_raw_sequence m' = 1 \<and> length (tm_raw_events m') \<le> 4096"
proof -
  obtain m' out where
    r: "apply_batch (example_services tiny_host) [Disconnected ''gone''] None default_model = Some (m', out)"
    using apply_batch_safe [OF default_model_ok] by blast
  from apply_batch_journal [OF default_model_ok r] r show ?thesis
    by (auto simp: kept_entry_def default_model_def RAW_EVENT_LIMIT_def)
qed

subsection \<open>Other threads\<close>

text \<open>The thread an event names; an event that names another than the selected one is foreign.\<close>

fun event_thread :: "Event \<Rightarrow> string option" where
  "event_thread (Notification me params) = string_at params [''threadId'']"
| "event_thread (ServerRequest i me params) = string_at params [''threadId'']"
| "event_thread _ = None"

definition concerns :: "string option \<Rightarrow> Event \<Rightarrow> bool" where
  "concerns thread e =
     (thread = None \<or> event_thread e = None \<or> event_thread e = thread)"

lemma event_step_foreign: "\<not> concerns thread e \<Longrightarrow> event_step sv thread e s = Some s"
  by (cases e) (auto simp: event_step_def concerns_def event_matches_thread_def)

text \<open>
  Notifications and requests that name a thread other than the selected one have no effect:
  a batch does what the batch without them does, to the transcript, the journal, the telemetry
  and the outcome.
\<close>

lemma apply_batch_ignores_other_threads:
  "apply_batch sv events thread m = apply_batch sv (filter (concerns thread) events) thread m"
proof -
  have "run_steps (event_step sv thread) events s =
      run_steps (event_step sv thread) (filter (concerns thread) events) s" for s
  proof (induction events arbitrary: s)
    case (Cons e events)
    then show ?case
      by (cases "concerns thread e"; cases "event_step sv thread e s")
         (simp_all add: event_step_foreign)
  qed simp
  then show ?thesis by (simp add: apply_batch_def)
qed

end
