(* ===== verification/EventBehaviour.thy ===== *)
theory EventBehaviour
  imports EventProperties
begin

text \<open>
  What particular sequences of events and operations do to the transcript: streaming, the life
  of a request, the arrival of a typed item, the echo of a local message, and three cases in
  which items lose their identity.
\<close>

subsection \<open>Streaming\<close>

definition agent_delta :: "string \<Rightarrow> string \<Rightarrow> string \<Rightarrow> Event" where
  "agent_delta thread i delta =
     Notification ''item/agentMessage/delta''
       (JObject [(''threadId'', JString thread), (''itemId'', JString i), (''delta'', JString delta)])"

definition streamed :: "string \<Rightarrow> string \<Rightarrow> nat \<Rightarrow> json \<Rightarrow> TranscriptItem" where
  "streamed i content n raw =
     \<lparr>it_key = i, it_protocol_id = Some i, it_kind = Agent, it_title = ''Codex'',
      it_status = Some ''streaming'', it_content = content, it_raw = raw, it_event_count = n,
      it_expanded = True, it_pending = None\<rparr>"

lemma agent_delta_step:
  fixes m :: TranscriptModel and thread i delta :: string
  defines "params \<equiv>
    JObject [(''threadId'', JString thread), (''itemId'', JString i), (''delta'', JString delta)]"
  shows "event_step sv (Some thread) (agent_delta thread i delta) (m, out) =
    marked out (append_delta (sv_host sv) params Agent
      (record_raw (sv_host sv) ''item/agentMessage/delta'' params m))"
proof -
  have "ingest sv ''item/agentMessage/delta'' p t = (t, False)" for p t
    by (rule ingest_not_handled) (simp add: telemetry_methods_def)
  then show ?thesis
    by (simp add: event_step_def agent_delta_def params_def event_matches_thread_def
        on_notification_def on_delta_def fallback_kind_def)
qed

lemma append_delta_new:
  assumes "tm_indices m i = None" "string_at params [''itemId''] = Some i"
    "string_at params [''delta''] = Some delta"
  shows "\<exists>m' raw. append_delta h params Agent m = Some (length (tm_items m), m') \<and>
    tm_items m' = tm_items m @ [streamed i delta 1 raw] \<and>
    tm_indices m' = (tm_indices m)(i \<mapsto> length (tm_items m))"
  using assms
  by (simp add: append_delta_def push_without_splice_def insert_index_def update_item_def streamed_def
      Let_def)

lemma append_delta_old:
  assumes "tm_indices m i = Some (length items)" "string_at params [''itemId''] = Some i"
    "string_at params [''delta''] = Some delta" "tm_items m = items @ [streamed i content n raw]"
  shows "\<exists>m' raw'. append_delta h params Agent m = Some (length items, m') \<and>
    tm_items m' = items @ [streamed i (content @ delta) (Suc n) raw'] \<and> tm_indices m' = tm_indices m"
  using assms by (simp add: append_delta_def update_item_def streamed_def Let_def)

lemma streaming_tail:
  assumes "tm_indices m i = Some (length items)" "tm_items m = items @ [streamed i content n raw]"
    "length items \<in> bo_dirty out"
  shows "\<exists>m' out' raw'. run_steps (event_step sv (Some thread)) (map (agent_delta thread i) deltas) (m, out) =
      Some (m', out') \<and>
    tm_items m' = items @ [streamed i (content @ concat deltas) (n + length deltas) raw'] \<and>
    bo_dirty out' = bo_dirty out"
  using assms
proof (induction deltas arbitrary: m content n raw out)
  case Nil
  then show ?case by auto
next
  case (Cons d deltas)
  let ?p = "JObject [(''threadId'', JString thread), (''itemId'', JString i), (''delta'', JString d)]"
  let ?m = "record_raw (sv_host sv) ''item/agentMessage/delta'' ?p m"
  obtain m1 raw1 where m1: "append_delta (sv_host sv) ?p Agent ?m = Some (length items, m1)"
    "tm_items m1 = items @ [streamed i (content @ d) (Suc n) raw1]" "tm_indices m1 = tm_indices m"
    using append_delta_old [of ?m i items ?p d content n raw "sv_host sv"] Cons.prems(1,2) by auto
  have o: "length items \<in> bo_dirty (mark (length items) out)" by (simp add: mark_def)
  from Cons.IH [OF _ m1(2) o] m1(3) Cons.prems(1) obtain m' out' raw' where
    "run_steps (event_step sv (Some thread)) (map (agent_delta thread i) deltas)
       (m1, mark (length items) out) = Some (m', out')"
    "tm_items m' = items @ [streamed i ((content @ d) @ concat deltas) (Suc n + length deltas) raw']"
    "bo_dirty out' = bo_dirty (mark (length items) out)" by auto
  with m1(1) Cons.prems(3) show ?case
    by (auto simp: agent_delta_step marked_def mark_def)
qed

text \<open>
  C23. Streaming is concatenation: the deltas of a new message of the agent, however it is cut
  into them, make one item at the end of the transcript whose text is their concatenation;
  the other items are untouched and that item alone is reported.
\<close>

theorem agent_deltas_concatenate:
  assumes "tm_indices m i = None" "deltas \<noteq> []"
  shows "\<exists>m' out raw. apply_batch sv (map (agent_delta thread i) deltas) (Some thread) m = Some (m', out) \<and>
    tm_items m' = tm_items m @ [streamed i (concat deltas) (length deltas) raw] \<and>
    bo_dirty out = {length (tm_items m)}"
proof -
  obtain d ds where ds: "deltas = d # ds" using assms(2) by (cases deltas) auto
  let ?p = "JObject [(''threadId'', JString thread), (''itemId'', JString i), (''delta'', JString d)]"
  let ?m = "record_raw (sv_host sv) ''item/agentMessage/delta'' ?p m"
  let ?out = "mark (length (tm_items m)) default_outcome"
  obtain m1 raw where m1: "append_delta (sv_host sv) ?p Agent ?m = Some (length (tm_items m), m1)"
    "tm_items m1 = tm_items m @ [streamed i d 1 raw]" "tm_indices m1 i = Some (length (tm_items m))"
    using append_delta_new [of ?m i ?p d "sv_host sv"] assms(1) by auto
  have "length (tm_items m) \<in> bo_dirty ?out" by (simp add: mark_def)
  from streaming_tail [OF m1(3,2) this, of sv thread ds] m1(1) show ?thesis
    by (auto simp: apply_batch_def ds agent_delta_step marked_def mark_def default_outcome_def)
qed

theorem agent_deltas_concatenate_witness:
  "\<exists>m' out. apply_batch (example_services tiny_host)
     (map (agent_delta ''t'' ''i'') [''Hel'', ''lo'']) (Some ''t'') default_model = Some (m', out) \<and>
   map it_content (tm_items m') = [''Hello''] \<and> bo_dirty out = {0}"
  using agent_deltas_concatenate [of default_model "''i''" "[''Hel'', ''lo'']"
      "example_services tiny_host" "''t''"]
  by (auto simp: default_model_def streamed_def)

subsection \<open>The life of a request\<close>

definition resolved_event :: "string \<Rightarrow> json \<Rightarrow> Event" where
  "resolved_event thread i =
     Notification ''serverRequest/resolved''
       (JObject [(''threadId'', JString thread), (''requestId'', i)])"

lemma position_append_new:
  "\<forall>x \<in> set xs. \<not> P x \<Longrightarrow> P y \<Longrightarrow> position P (xs @ [y]) = Some (length xs)"
  by (induction xs) auto

text \<open>
  A request of the server waits in the transcript and is then resolved: it becomes one
  new item that waits, carries the request, unresolved, and the rendered form; the
  notification that resolves it changes that item alone, to resolved.
\<close>

lemma request_lifecycle:
  assumes new: "tm_indices m (''request:'' @ compact_json (sv_host sv) i) = None"
    "\<forall>item \<in> set (tm_items m). \<not> has_request i item"
    and i: "json_ok i" and thread: "string_at params [''threadId''] = Some thread"
  shows "\<exists>m1 out1 m2 out2 waiting.
    event_step sv (Some thread) (ServerRequest i me params) (m, out) = Some (m1, out1) \<and>
    tm_items m1 = tm_items m @ [waiting] \<and>
    it_status waiting = Some ''waiting'' \<and> it_kind waiting = Approval \<and>
    it_content waiting = prp_content (pending_request_presentation (sv_host sv) me params) \<and>
    it_pending waiting = Some \<lparr>pr_id = i, pr_method = me, pr_resolved = False\<rparr> \<and>
    event_step sv (Some thread) (resolved_event thread i) (m1, out1) = Some (m2, out2) \<and>
    (\<exists>raw. tm_items m2 = tm_items m @
      [waiting\<lparr>it_pending := Some \<lparr>pr_id = i, pr_method = me, pr_resolved = True\<rparr>,
         it_status := Some ''resolved'', it_raw := raw\<rparr>]) \<and>
    length (tm_items m) \<in> bo_dirty out2"
proof -
  let ?h = "sv_host sv"
  let ?m = "record_raw ?h me params m"
  let ?k = "''request:'' @ compact_json ?h i"
  let ?w = "\<lparr>it_key = ?k, it_protocol_id = None, it_kind = Approval,
    it_title = prp_title (pending_request_presentation ?h me params), it_status = Some ''waiting'',
    it_content = prp_content (pending_request_presentation ?h me params),
    it_raw = bounded_raw_payload ?h params, it_event_count = 1, it_expanded = True,
    it_pending = Some \<lparr>pr_id = i, pr_method = me, pr_resolved = False\<rparr>\<rparr>"
  let ?rp = "JObject [(''threadId'', JString thread), (''requestId'', i)]"
  have "upsert_generated ?h ?k Approval t c p ?m = Some (push_without_splice
      \<lparr>it_key = ?k, it_protocol_id = None, it_kind = Approval, it_title = t, it_status = None,
       it_content = c, it_raw = bounded_raw_payload ?h p, it_event_count = 1, it_expanded = True,
       it_pending = None\<rparr> ?m)" for t c p
    using new(1) by (simp add: upsert_generated_def)
  then have "\<exists>m1. event_step sv (Some thread) (ServerRequest i me params) (m, out) =
      Some (m1, mark (length (tm_items m)) out) \<and> tm_items m1 = tm_items m @ [?w]"
    using thread
    by (simp add: event_step_def event_matches_thread_def on_server_request_def Let_def
        then_item_def push_without_splice_def insert_index_def update_item_def marked_def)
  then obtain m1 where m1: "event_step sv (Some thread) (ServerRequest i me params) (m, out) =
      Some (m1, mark (length (tm_items m)) out)" "tm_items m1 = tm_items m @ [?w]" by blast
  have "position (has_request i) (tm_items m @ [?w]) = Some (length (tm_items m))"
    using new(2) json_eq_refl [OF i] by (intro position_append_new) (simp_all add: has_request_def)
  moreover have "ingest sv ''serverRequest/resolved'' p t = (t, False)" for p t
    by (rule ingest_not_handled) (simp add: telemetry_methods_def)
  ultimately have "\<exists>m2. event_step sv (Some thread) (resolved_event thread i)
        (m1, mark (length (tm_items m)) out) =
      Some (m2, mark (length (tm_items m)) (mark (length (tm_items m)) out)) \<and>
      tm_items m2 = tm_items m @ [resolve_item ?h ?rp ?w]"
    by (simp add: event_step_def resolved_event_def event_matches_thread_def on_notification_def
        on_request_resolved_def jget_def m1(2) then_item_def update_item_def marked_def)
  with m1 show ?thesis
    by (auto simp: resolve_item_def mark_def)
qed

subsection \<open>Typed items\<close>

lemma upsert_known:
  assumes "tm_indices m (unwrap_or (string_at v [''id'']) ''unknown-item'') = Some i"
    "i < length (tm_items m)" "string_at v [''type''] \<noteq> Some ''contextCompaction''"
    "string_at v [''type''] = Some ''reasoning'' \<longrightarrow> turn_id = None"
  shows "upsert_protocol_item h v completed turn_id m =
    Some (Some i, m\<lparr>tm_items := (tm_items m)[i := (item_from_protocol h v completed)
      \<lparr>it_event_count := it_event_count (tm_items m ! i) + 1,
       it_expanded := it_expanded (tm_items m ! i), it_pending := it_pending (tm_items m ! i)\<rparr>]\<rparr>)"
  using assms by (simp add: upsert_protocol_item_def update_item_Some)

text \<open>What an upsert leaves behind: the item at its index is known under its identifier.\<close>

lemma upsert_leaves_known:
  assumes "indices_ok m" "string_at v [''type''] \<noteq> Some ''contextCompaction''"
    "string_at v [''type''] = Some ''reasoning'' \<longrightarrow> turn_id = None"
  shows "\<exists>i m'. upsert_protocol_item h v completed turn_id m = Some (Some i, m') \<and>
    i < length (tm_items m') \<and>
    tm_indices m' (unwrap_or (string_at v [''id'']) ''unknown-item'') = Some i \<and>
    tm_items m' ! i = (item_from_protocol h v completed)
      \<lparr>it_event_count := it_event_count (tm_items m' ! i),
       it_expanded := it_expanded (tm_items m' ! i), it_pending := it_pending (tm_items m' ! i)\<rparr>"
proof -
  let ?id = "unwrap_or (string_at v [''id'']) ''unknown-item''"
  let ?item = "item_from_protocol h v completed"
  show ?thesis
  proof (cases "tm_indices m ?id")
    case (Some i)
    then have "i < length (tm_items m)" using assms(1) by (auto simp: indices_ok_def)
    with upsert_known [OF Some this assms(2,3)] Some show ?thesis by simp
  next
    case None
    then have ins: "upsert_protocol_item h v completed turn_id m = insert_typed h v completed ?id m"
      using assms(2,3) by (simp add: upsert_protocol_item_def)
    let ?found = "if it_kind ?item = User then
      rposition (\<lambda>candidate. starts_with (it_key candidate) ''local-user:'' \<and>
        it_content candidate = it_content ?item) (tm_items m) else None"
    show ?thesis
    proof (cases ?found)
      case None
      then have "insert_typed h v completed ?id m =
          (let (index, m) = push_without_splice ?item m in Some (Some index, m))"
        unfolding insert_typed_def Let_def by (simp only: option.case)
      then show ?thesis
        by (simp add: ins push_without_splice_def insert_index_def Let_def)
    next
      case (Some i)
      then have i: "i < length (tm_items m)" by (auto split: if_splits dest: rposition_lt)
      have "insert_typed h v completed ?id m =
          do { m \<leftarrow> update_item i (\<lambda>_. ?item)
                 (insert_index ?id i (remove_index (it_key (tm_items m ! i)) m));
               Some (Some i, m) }"
        unfolding insert_typed_def Let_def Some option.case get_at_in [OF i] by simp
      with i show ?thesis by (simp add: ins update_item_Some)
    qed
  qed
qed

text \<open>
  Receiving a typed item again changes nothing but its event count: an item that arrives a
  second time with the same payload replaces itself, keeps its place and whether it is
  expanded, and adds no card (reasoning of a turn, which is merged, apart).
\<close>

lemma upsert_twice:
  assumes "indices_ok m" "string_at v [''type''] \<noteq> Some ''contextCompaction''"
    "string_at v [''type''] = Some ''reasoning'' \<longrightarrow> turn_id = None"
  shows "\<exists>i m' m''. upsert_protocol_item h v completed turn_id m = Some (Some i, m') \<and>
    upsert_protocol_item h v completed turn_id m' = Some (Some i, m'') \<and>
    m'' = m'\<lparr>tm_items := (tm_items m')
      [i := (tm_items m' ! i)\<lparr>it_event_count := it_event_count (tm_items m' ! i) + 1\<rparr>]\<rparr>"
proof -
  let ?item = "item_from_protocol h v completed"
  obtain i m' where m': "upsert_protocol_item h v completed turn_id m = Some (Some i, m')"
    "i < length (tm_items m')" "tm_indices m' (unwrap_or (string_at v [''id'']) ''unknown-item'') = Some i"
    "tm_items m' ! i = ?item\<lparr>it_event_count := it_event_count (tm_items m' ! i),
       it_expanded := it_expanded (tm_items m' ! i), it_pending := it_pending (tm_items m' ! i)\<rparr>"
    using upsert_leaves_known [OF assms] by blast
  have "(tm_items m' ! i)\<lparr>it_event_count := c\<rparr> = ?item\<lparr>it_event_count := c,
       it_expanded := it_expanded (tm_items m' ! i), it_pending := it_pending (tm_items m' ! i)\<rparr>" for c
    using arg_cong [OF m'(4), of "\<lambda>x. x\<lparr>it_event_count := c\<rparr>"] by simp
  then show ?thesis
    using m'(1) upsert_known [OF m'(3,2) assms(2,3), of h completed] by auto
qed

text \<open>
  The echo of a local message takes its place: a message pushed locally and then received
  as a typed user message of the same text is one card, at the place of the local one, known
  under the identifier of the server and no longer under the local key.
\<close>

lemma local_echo_replaced:
  assumes v: "string_at v [''type''] = Some ''userMessage''" "string_at v [''id''] = Some i"
    and fresh: "tm_indices m i = None"
    and push: "push_local_user (content_from_protocol h ''userMessage'' v) m = ((k, key), m1)"
    and i: "i \<noteq> key"
  shows "\<exists>m2. upsert_protocol_item h v completed turn_id m1 = Some (Some k, m2) \<and>
    tm_items m2 = tm_items m @ [item_from_protocol h v completed] \<and> k = length (tm_items m) \<and>
    tm_indices m2 i = Some k \<and> tm_indices m2 key = None"
proof -
  let ?c = "content_from_protocol h ''userMessage'' v"
  let ?item = "item_from_protocol h v completed"
  have m1: "k = length (tm_items m)" "tm_items m1 = tm_items m @ [tm_items m1 ! k]"
    "it_key (tm_items m1 ! k) = key" "it_content (tm_items m1 ! k) = ?c"
    "tm_indices m1 = (tm_indices m)(key \<mapsto> k)" "starts_with key ''local-user:''"
    using push by (auto simp: push_local_user_def push_without_splice_def insert_index_def Let_def
        starts_with_def)
  have item: "it_kind ?item = User" "it_content ?item = ?c"
    by (simp_all add: v kind_from_protocol_def)
  have "rposition P (xs @ [y]) = Some (length xs)" if "P y" for P xs and y :: TranscriptItem
    using that by (induction xs) auto
  from this [of "\<lambda>c. starts_with (it_key c) ''local-user:'' \<and> it_content c = ?c" "tm_items m1 ! k" "tm_items m"]
  have found: "rposition (\<lambda>c. starts_with (it_key c) ''local-user:'' \<and> it_content c = ?c)
      (tm_items m1) = Some k"
    using m1 by metis
  have k: "k < length (tm_items m1)" by (subst m1(2)) (simp add: m1(1))
  have "upsert_protocol_item h v completed turn_id m1 = insert_typed h v completed i m1"
    using v fresh i by (simp add: upsert_protocol_item_def m1(5))
  also have "\<dots> = do { m \<leftarrow> update_item k (\<lambda>_. ?item) (insert_index i k (remove_index key m1));
      Some (Some k, m) }"
    using found k m1(3) by (simp add: insert_typed_def item del: item_from_protocol_fields)
  finally have up: "upsert_protocol_item h v completed turn_id m1 = \<dots>" .
  have "(tm_items m1)[k := ?item] = tm_items m @ [?item]"
    by (subst m1(2)) (simp add: m1(1))
  then show ?thesis
    using k m1(1) i by (simp add: up update_item_Some insert_index_def remove_index_def)
qed

subsection \<open>Lost identities\<close>

definition reasoning :: "string \<Rightarrow> json" where
  "reasoning i = JObject [(''type'', JString ''reasoning''), (''id'', JString i)]"

text \<open>
  Rebuilding the index forgets the later reasoning items of a turn. All reasoning items of
  a turn share one card and are all known under their identifiers, but the card keeps only
  the first identifier, and a rebuild (as after every refresh) keeps no other: the deltas of
  the second item then open a new card.
\<close>

lemma rebuild_forgets_reasoning_alias:
  assumes "a \<noteq> b" "b \<noteq> ''turn-reasoning:'' @ t" "a \<noteq> ''turn-reasoning:'' @ t"
  shows "\<exists>m1 m2. upsert_protocol_item h (reasoning a) False (Some t) default_model = Some (Some 0, m1) \<and>
    upsert_protocol_item h (reasoning b) False (Some t) m1 = Some (Some 0, m2) \<and>
    tm_indices m2 a = Some 0 \<and> tm_indices m2 b = Some 0 \<and>
    tm_indices (rebuild_item_indices m2) a = Some 0 \<and>
    tm_indices (rebuild_item_indices m2) b = None"
  using assms
  by (simp add: upsert_protocol_item_def upsert_reasoning_def reasoning_def default_model_def
      push_without_splice_def insert_index_def update_item_def rebuild_item_indices_def Let_def
      fun_upd_twist)

text \<open>
  A response without a request can erase an earlier one. Its card is keyed by the length of
  the journal, which falls back when old entries are evicted: with a full journal the key is
  always the same, so that a card of that key is overwritten instead of a new one added.
\<close>

lemma unmatched_response_overwrites:
  assumes "length (tm_raw_events m) = RAW_EVENT_LIMIT"
    and "tm_indices m (''unmatched-response:'' @ dec 3585) = Some k" "k < length (tm_items m)"
  shows "\<exists>m' out'. event_step sv thread (UnmatchedResponse i result error) (m, out) = Some (m', out') \<and>
    length (tm_items m') = length (tm_items m) \<and>
    it_content (tm_items m' ! k) = pretty_json (sv_host sv) (unmatched_payload i result error)"
proof -
  let ?m = "record_raw (sv_host sv) ''unmatchedResponse'' (unmatched_payload i result error) m"
  have "length (tm_raw_events ?m) = 3585"
    using assms(1) by (simp add: record_raw_def Let_def RAW_EVENT_LIMIT_def RAW_EVENT_EVICTION_BATCH_def)
  then show ?thesis
    using assms(2,3)
    by (simp add: event_step_def upsert_generated_def update_item_Some marked_def Let_def)
qed

lemma unmatched_response_example:
  "\<exists>m' out'. event_step (example_services tiny_host) None (UnmatchedResponse (JNumber (PosInt 9)) None None)
     (default_model\<lparr>tm_raw_events := replicate 4096 \<lparr>re_sequence = 0, re_method = [], re_payload = JNull\<rparr>,
        tm_items := [streamed ''x'' ''earlier'' 1 JNull],
        tm_indices := [''unmatched-response:'' @ dec 3585 \<mapsto> 0]\<rparr>, default_outcome) = Some (m', out') \<and>
     length (tm_items m') = 1"
  using unmatched_response_overwrites [of "default_model\<lparr>tm_raw_events :=
        replicate 4096 \<lparr>re_sequence = 0, re_method = [], re_payload = JNull\<rparr>,
      tm_items := [streamed ''x'' ''earlier'' 1 JNull],
      tm_indices := [''unmatched-response:'' @ dec 3585 \<mapsto> 0]\<rparr>" 0 "example_services tiny_host" None
      "JNumber (PosInt 9)" None None default_outcome]
  by (auto simp: RAW_EVENT_LIMIT_def)

end
