(* ===== verification/Snapshot.thy ===== *)
theory Snapshot
  imports Items
begin

text \<open>
  Merging the items a thread was read back with and the items of the local history cache
  (\<open>merge_snapshot_items\<close> of \<open>harness_protocol\<close>), and the comparisons of items it uses.
\<close>

subsection \<open>Comparing items\<close>

definition originates_from_raw_response :: "TranscriptItem \<Rightarrow> bool" where
  "originates_from_raw_response item =
     (let response_type =
            or_else (string_at (it_raw item) [''type''])
              (or_else (string_at (it_raw item) [''call'', ''type''])
                (string_at (it_raw item) [''output'', ''type'']))
      in response_type \<in> Some ` {''custom_tool_call'', ''custom_tool_call_output'', ''function_call'',
           ''function_call_output'', ''tool_search_call'', ''tool_search_output''})"

definition items_are_semantically_equal :: "TranscriptItem \<Rightarrow> TranscriptItem \<Rightarrow> bool" where
  "items_are_semantically_equal left right =
     (it_kind left = it_kind right \<and> trim (it_content left) = trim (it_content right))"

definition thread_snapshot_items_equal :: "TranscriptItem \<Rightarrow> TranscriptItem \<Rightarrow> bool" where
  "thread_snapshot_items_equal left right =
     (it_key left = it_key right \<and> it_protocol_id left = it_protocol_id right \<and>
      it_kind left = it_kind right \<and> it_title left = it_title right \<and>
      it_status left = it_status right \<and> it_content left = it_content right \<and>
      json_eq (it_raw left) (it_raw right) \<and>
      (case (it_pending left, it_pending right) of
         (None, None) \<Rightarrow> True
       | (Some left, Some right) \<Rightarrow>
           json_eq (pr_id left) (pr_id right) \<and> pr_method left = pr_method right \<and>
           pr_resolved left = pr_resolved right
       | _ \<Rightarrow> False))"

subsection \<open>Matching\<close>

text \<open>
  The matching loop. Each cached item takes the first remaining fresh item with its key, or
  else the first with its kind and text; what precedes the item taken is not matched again.
\<close>

definition find_fresh :: "TranscriptItem list \<Rightarrow> TranscriptItem \<Rightarrow> nat option" where
  "find_fresh remaining persisted_item =
     or_else (position (\<lambda>fresh_item. it_key fresh_item = it_key persisted_item) remaining)
       (position (items_are_semantically_equal persisted_item) remaining)"

fun match_items ::
  "TranscriptItem list \<Rightarrow> nat \<Rightarrow> TranscriptItem list \<Rightarrow> nat option list" where
  "match_items fresh next_fresh [] = []"
| "match_items fresh next_fresh (p # ps) =
     (case find_fresh (drop next_fresh fresh) p of
        Some relative_index \<Rightarrow>
          Some (next_fresh + relative_index) # match_items fresh (next_fresh + relative_index + 1) ps
      | None \<Rightarrow> None # match_items fresh next_fresh ps)"

subsection \<open>Merging\<close>

text \<open>A slice of a vector, which panics (\<open>None\<close>) out of range.\<close>

definition list_slice :: "'a list \<Rightarrow> nat \<Rightarrow> nat \<Rightarrow> 'a list option" where
  "list_slice xs a b = (if a \<le> b \<and> b \<le> length xs then Some (take (b - a) (drop a xs)) else None)"

fun merge_loop ::
  "TranscriptItem list \<Rightarrow> nat \<Rightarrow> nat \<Rightarrow> TranscriptItem list \<Rightarrow>
   (TranscriptItem \<times> nat option) list \<Rightarrow> (TranscriptItem list \<times> nat) option" where
  "merge_loop fresh next_unmerged restored merged [] =
     do { rest \<leftarrow> list_slice fresh next_unmerged (length fresh); Some (merged @ rest, restored) }"
| "merge_loop fresh next_unmerged restored merged ((item, Some fresh_index) # ms) =
     do { skipped \<leftarrow> list_slice fresh next_unmerged fresh_index;
          matched \<leftarrow> get_at fresh fresh_index;
          merge_loop fresh (fresh_index + 1) restored (merged @ skipped @ [matched]) ms }"
| "merge_loop fresh next_unmerged restored merged ((item, None) # ms) =
     merge_loop fresh next_unmerged (restored + 1) (merged @ [item]) ms"

definition merge_snapshot_items ::
  "TranscriptItem list \<Rightarrow> TranscriptItem list \<Rightarrow> (TranscriptItem list \<times> nat) option" where
  "merge_snapshot_items fresh persisted =
     (let persisted = filter (\<lambda>item. \<not> originates_from_raw_response item) persisted;
          matches = match_items fresh 0 persisted
      in case rposition (\<lambda>m. m \<noteq> None) matches of
           None \<Rightarrow> Some (fresh, 0)
         | Some anchor \<Rightarrow>
             merge_loop fresh 0 0 [] (take (anchor + 1) (zip persisted matches)))"

subsection \<open>What the merge keeps and adds\<close>

lemma find_fresh_lt: "find_fresh remaining p = Some r \<Longrightarrow> r < length remaining"
  by (auto simp: find_fresh_def or_else_def split: option.splits dest: position_lt)

text \<open>The matches are increasing and in range.\<close>

fun increasing :: "nat \<Rightarrow> nat \<Rightarrow> nat option list \<Rightarrow> bool" where
  "increasing n len [] = (n \<le> len)"
| "increasing n len (Some i # ms) = (n \<le> i \<and> i < len \<and> increasing (i + 1) len ms)"
| "increasing n len (None # ms) = increasing n len ms"

lemma increasing_match: "n \<le> length fresh \<Longrightarrow> increasing n (length fresh) (match_items fresh n ps)"
proof (induction ps arbitrary: n)
  case (Cons p ps)
  show ?case
  proof (cases "find_fresh (drop n fresh) p")
    case (Some r)
    from find_fresh_lt [OF this] have "n + r < length fresh" by simp
    with Cons.IH [of "n + r + 1"] Some show ?thesis by simp
  qed (use Cons in simp)
qed simp

lemma increasing_le: "increasing n len ms \<Longrightarrow> n \<le> len"
  by (induction n len ms rule: increasing.induct) auto

lemma increasing_take: "increasing n len ms \<Longrightarrow> increasing n len (take k ms)"
proof (induction n len ms arbitrary: k rule: increasing.induct)
  case (2 n len i ms)
  then show ?case by (cases k) auto
next
  case (3 n len ms)
  then show ?case by (cases k) (auto dest: increasing_le)
qed auto

lemma length_match_items [simp]: "length (match_items fresh n ps) = length ps"
  by (induction ps arbitrary: n) (auto split: option.split)

text \<open>The cached items of a merge that no fresh item matches.\<close>

definition unmatched :: "(TranscriptItem \<times> nat option) list \<Rightarrow> TranscriptItem list" where
  "unmatched ms = map fst (filter (\<lambda>m. snd m = None) ms)"

lemma shuffles_append_left: "zs \<in> shuffles xs ys \<Longrightarrow> us @ zs \<in> shuffles (us @ xs) ys"
  by (induction us) (auto intro: Cons_in_shuffles_leftI)

lemma shuffles_append_right: "zs \<in> shuffles xs ys \<Longrightarrow> zs @ us \<in> shuffles (xs @ us) ys"
proof (induction xs ys arbitrary: zs rule: shuffles.induct)
  case (1 ys)
  have "ys @ us \<in> shuffles us ys" by (induction ys) (auto intro: Cons_in_shuffles_rightI)
  with 1 show ?case by simp
qed (auto intro: Cons_in_shuffles_leftI Cons_in_shuffles_rightI)

lemma take_split:
  assumes "n \<le> i" "i < k" "k \<le> length xs"
  shows "take (k - n) (drop n xs) =
    take (i - n) (drop n xs) @ xs ! i # take (k - (i + 1)) (drop (i + 1) xs)"
proof -
  have "take (k - n) (drop n xs) = take (i - n) (drop n xs) @ take (k - i) (drop i xs)"
    using assms take_add [of "i - n" "k - i" "drop n xs"] by simp
  moreover have "take (k - i) (drop i xs) = xs ! i # take (k - (i + 1)) (drop (i + 1) xs)"
    using assms by (simp add: Cons_nth_drop_Suc [symmetric] take_Cons' )
  ultimately show ?thesis by simp
qed

lemma increasing_last: "increasing n len (ms @ [Some k]) \<Longrightarrow> n \<le> k \<and> k < len"
  by (induction n len ms rule: increasing.induct) auto

text \<open>Merging up to an anchor: what precedes it is a shuffle, what follows it is fresh.\<close>

lemma merge_loop_anchor:
  assumes "increasing n (length fresh) (map snd ms @ [Some k])"
  shows "\<exists>pre. merge_loop fresh n restored merged (ms @ [(p, Some k)]) =
      Some (merged @ pre @ drop k fresh, restored + length (unmatched ms)) \<and>
    pre \<in> shuffles (take (k - n) (drop n fresh)) (unmatched ms)"
  using assms
proof (induction fresh n restored merged ms rule: merge_loop.induct)
  case (1 fresh n restored merged)
  then have k: "n \<le> k" "k < length fresh" by simp_all
  have d: "fresh ! k # drop (Suc k) fresh = drop k fresh"
    using k(2) by (rule Cons_nth_drop_Suc)
  show ?case using k by (simp add: list_slice_def unmatched_def d)
next
  case (2 fresh n restored merged item i ms)
  then have i: "n \<le> i" "i < length fresh" "increasing (i + 1) (length fresh) (map snd ms @ [Some k])"
    by auto
  have k: "i < k" "k < length fresh" using increasing_last [OF i(3)] by auto
  have sl: "list_slice fresh n i = Some (take (i - n) (drop n fresh))"
    using i by (simp add: list_slice_def)
  have at: "get_at fresh i = Some (fresh ! i)" using i(2) by simp
  obtain pre where pre:
    "merge_loop fresh (i + 1) restored (merged @ take (i - n) (drop n fresh) @ [fresh ! i])
         (ms @ [(p, Some k)]) =
       Some ((merged @ take (i - n) (drop n fresh) @ [fresh ! i]) @ pre @ drop k fresh,
         restored + length (unmatched ms))"
    "pre \<in> shuffles (take (k - (i + 1)) (drop (i + 1) fresh)) (unmatched ms)"
    using "2.IH" [OF sl at i(3)] by auto
  have "take (i - n) (drop n fresh) @ fresh ! i # pre \<in>
      shuffles (take (i - n) (drop n fresh) @ fresh ! i # take (k - (i + 1)) (drop (i + 1) fresh))
        (unmatched ms)"
    using pre(2) by (intro shuffles_append_left Cons_in_shuffles_leftI)
  then have sh: "take (i - n) (drop n fresh) @ fresh ! i # pre \<in>
      shuffles (take (k - n) (drop n fresh)) (unmatched ((item, Some i) # ms))"
    using take_split [OF i(1) k(1), of fresh] k(2) by (simp add: unmatched_def)
  show ?case
    using pre(1) sl at
    by (intro exI [of _ "take (i - n) (drop n fresh) @ fresh ! i # pre"] conjI sh)
       (simp add: unmatched_def)
next
  case (3 fresh n restored merged item ms)
  then obtain pre where
    "merge_loop fresh n (restored + 1) (merged @ [item]) (ms @ [(p, Some k)]) =
       Some ((merged @ [item]) @ pre @ drop k fresh, restored + 1 + length (unmatched ms))"
    "pre \<in> shuffles (take (k - n) (drop n fresh)) (unmatched ms)"
    by auto
  then show ?case
    by (intro exI [of _ "item # pre"]) (simp add: unmatched_def Cons_in_shuffles_rightI)
qed

lemma subseq_unmatched: "subseq (unmatched (zip ps ms)) ps"
proof (induction ps ms rule: list_induct2')
  case (4 p ps m ms)
  then show ?case by (auto simp: unmatched_def intro: subseq_Cons')
qed (simp_all add: unmatched_def)

lemma take_rposition:
  assumes "rposition P xs = Some a"
  shows "\<exists>y. take (a + 1) xs = take a xs @ [y] \<and> P y"
  using rposition_Some [OF assms] by (auto simp: take_Suc_conv_app_nth)

lemma merge_snapshot_items_spec:
  "\<exists>pre k restored_items. merge_snapshot_items fresh persisted =
      Some (pre @ drop k fresh, length restored_items) \<and>
    pre \<in> shuffles (take k fresh) restored_items \<and>
    subseq restored_items (filter (\<lambda>item. \<not> originates_from_raw_response item) persisted) \<and>
    (restored_items \<noteq> [] \<longrightarrow> k < length fresh)"
proof -
  let ?ps = "filter (\<lambda>item. \<not> originates_from_raw_response item) persisted"
  let ?ms = "match_items fresh 0 ?ps"
  show ?thesis
  proof (cases "rposition (\<lambda>m. m \<noteq> None) ?ms")
    case None
    have "merge_snapshot_items fresh persisted = Some (fresh, 0)"
      unfolding merge_snapshot_items_def Let_def None by simp
    then show ?thesis by (intro exI [of _ "[]"] exI [of _ 0]) simp
  next
    case (Some anchor)
    then have "anchor < length (zip ?ps ?ms)" "anchor < length ?ms"
      using rposition_lt by fastforce+
    moreover obtain k where k: "?ms ! anchor = Some k"
      using rposition_Some [OF Some] by auto
    ultimately have z: "take (anchor + 1) (zip ?ps ?ms) =
        take anchor (zip ?ps ?ms) @ [(?ps ! anchor, Some k)]"
      by (simp add: take_Suc_conv_app_nth)
    have "increasing 0 (length fresh) (take (anchor + 1) ?ms)"
      by (intro increasing_take increasing_match) simp
    moreover have "take (anchor + 1) ?ms = map snd (take anchor (zip ?ps ?ms)) @ [Some k]"
      using k \<open>anchor < length ?ms\<close> by (simp add: take_Suc_conv_app_nth take_map [symmetric])
    ultimately have inc: "increasing 0 (length fresh) (map snd (take anchor (zip ?ps ?ms)) @ [Some k])"
      by simp
    from merge_loop_anchor [OF this, of 0 "[]" "?ps ! anchor", folded z] obtain pre where
      "merge_loop fresh 0 0 [] (take (anchor + 1) (zip ?ps ?ms)) =
         Some (pre @ drop k fresh, length (unmatched (take anchor (zip ?ps ?ms))))"
      "pre \<in> shuffles (take k fresh) (unmatched (take anchor (zip ?ps ?ms)))"
      by (auto simp only: append_Nil add_0 diff_zero drop_0)
    moreover have "subseq (unmatched (take anchor (zip ?ps ?ms))) ?ps"
      using subseq_unmatched [of "take anchor ?ps" "take anchor ?ms"]
      using subseq_order.order_trans [OF _ prefix_imp_subseq [OF take_is_prefix [of anchor ?ps]]]
      by (simp only: take_zip)
    moreover have "k < length fresh" using increasing_last [OF inc] by simp
    ultimately show ?thesis
      using Some unfolding merge_snapshot_items_def Let_def
      by (intro exI [of _ pre] exI [of _ k]
          exI [of _ "unmatched (take anchor (zip ?ps ?ms))"]) simp
  qed
qed

text \<open>
  The merge as one pass over the two lists, without indices. The counterpart of a cached item is the
  first fresh item with its key, or else the first with its kind and text; it ends the fresh items up to
  it. A cached item without a counterpart is restored when a later one has a counterpart.
\<close>

definition split_first :: "('a \<Rightarrow> bool) \<Rightarrow> 'a list \<Rightarrow> ('a list \<times> 'a list) option" where
  "split_first P xs =
     (case dropWhile (\<lambda>x. \<not> P x) xs of
        [] \<Rightarrow> None
      | x # rest \<Rightarrow> Some (takeWhile (\<lambda>x. \<not> P x) xs @ [x], rest))"

definition counterpart ::
  "TranscriptItem list \<Rightarrow> TranscriptItem \<Rightarrow> (TranscriptItem list \<times> TranscriptItem list) option" where
  "counterpart fresh cached =
     or_else (split_first (\<lambda>item. it_key item = it_key cached) fresh)
       (split_first (items_are_semantically_equal cached) fresh)"

fun merged_lists :: "TranscriptItem list \<Rightarrow> TranscriptItem list \<Rightarrow> TranscriptItem list" where
  "merged_lists fresh [] = fresh"
| "merged_lists fresh (cached # later) =
     (case counterpart fresh cached of
        Some (through, rest) \<Rightarrow> through @ merged_lists rest later
      | None \<Rightarrow>
          if list_ex (\<lambda>c. counterpart fresh c \<noteq> None) later then cached # merged_lists fresh later else fresh)"

lemma split_first_Cons:
  "split_first P (x # xs) =
     (if P x then Some ([x], xs) else map_option (\<lambda>(through, rest). (x # through, rest)) (split_first P xs))"
  by (cases "P x") (simp_all add: split_first_def split: list.split del: dropWhile_eq_Nil_conv)

lemma split_first_position:
  "split_first P xs = map_option (\<lambda>i. (take (Suc i) xs, drop (Suc i) xs)) (position P xs)"
proof (induction xs)
  case (Cons x xs)
  then show ?case by (simp add: split_first_Cons option.map_comp comp_def)
qed (simp add: split_first_def)

lemma map_or_else: "map_option f (or_else a b) = or_else (map_option f a) (map_option f b)"
  by (cases a) (simp_all add: or_else_def)

lemma counterpart_find:
  "counterpart fresh p = map_option (\<lambda>i. (take (Suc i) fresh, drop (Suc i) fresh)) (find_fresh fresh p)"
  by (simp add: counterpart_def find_fresh_def split_first_position map_or_else)

text \<open>Whether anything matches is decided by the items that remain at the start.\<close>

lemma matches_some:
  "rposition (\<lambda>m. m \<noteq> None) (match_items fresh n ps) \<noteq> None \<longleftrightarrow>
     list_ex (\<lambda>c. counterpart (drop n fresh) c \<noteq> None) ps"
  by (induction ps arbitrary: n) (auto simp: counterpart_find split: option.splits simp del: not_None_eq rposition_None)

lemma merged_lists_none: "\<not> list_ex (\<lambda>c. counterpart fresh c \<noteq> None) ps \<Longrightarrow> merged_lists fresh ps = fresh"
  by (cases ps) (auto split: option.splits)

lemma merge_loop_merged:
  assumes "rposition (\<lambda>m. m \<noteq> None) (match_items fresh n ps) = Some anchor" "n \<le> length fresh"
  shows "\<exists>k. merge_loop fresh n restored merged (take (anchor + 1) (zip ps (match_items fresh n ps))) =
    Some (merged @ merged_lists (drop n fresh) ps, k)"
  using assms
proof (induction ps arbitrary: n restored merged anchor)
  case (Cons p ps)
  show ?case
  proof (cases "find_fresh (drop n fresh) p")
    case None
    then obtain a where a: "rposition (\<lambda>m. m \<noteq> None) (match_items fresh n ps) = Some a" "anchor = Suc a"
      using Cons.prems(1) by (auto split: option.splits)
    have "list_ex (\<lambda>c. counterpart (drop n fresh) c \<noteq> None) ps"
      using a(1) matches_some [of fresh n ps] by simp
    then show ?thesis
      using Cons.IH [OF a(1) Cons.prems(2), of "restored + 1" "merged @ [p]"] None
      by (simp add: a(2) counterpart_find)
  next
    case (Some r)
    let ?i = "n + r"
    have i: "?i < length fresh" using find_fresh_lt [OF Some] by simp
    have take_r: "take (Suc r) (drop n fresh) = take r (drop n fresh) @ [fresh ! ?i]"
      using i by (simp add: take_Suc_conv_app_nth)
    have slice: "list_slice fresh n ?i = Some (take r (drop n fresh))" using i by (simp add: list_slice_def)
    have step: "merge_loop fresh n restored merged ((p, Some ?i) # ms) =
        merge_loop fresh (Suc ?i) restored (merged @ take (Suc r) (drop n fresh)) ms" for ms
      using i take_r slice by simp
    show ?thesis
    proof (cases "rposition (\<lambda>m. m \<noteq> None) (match_items fresh (Suc ?i) ps)")
      case None
      then have anchor: "anchor = 0" using Cons.prems(1) Some by (simp del: not_None_eq rposition_None)
      have "\<not> list_ex (\<lambda>c. counterpart (drop (Suc ?i) fresh) c \<noteq> None) ps"
        using None matches_some [of fresh "Suc ?i" ps] by simp
      then have "merged_lists (drop n fresh) (p # ps) = take (Suc r) (drop n fresh) @ drop (Suc ?i) fresh"
        using Some merged_lists_none by (simp add: counterpart_find add.commute)
      moreover have "merge_loop fresh (Suc ?i) restored xs [] = Some (xs @ drop (Suc ?i) fresh, restored)" for xs
        using i by (simp add: list_slice_def)
      moreover have "take (anchor + 1) (zip (p # ps) (match_items fresh n (p # ps))) = [(p, Some ?i)]"
        using Some by (simp add: anchor)
      ultimately show ?thesis by (simp only: step) simp
    next
      case later: (Some a)
      then have anchor: "anchor = Suc a" using Cons.prems(1) Some by simp
      show ?thesis
        using Cons.IH [OF later, of restored "merged @ take (Suc r) (drop n fresh)"] i Some
        by (simp add: anchor slice take_r counterpart_find add.commute)
    qed
  qed
qed simp

text \<open>
  C31. Merging never panics and gives exactly the one-pass merge of the fresh items with the cached ones
  that are no raw tool wrappers: each cached item with a counterpart stands for it, the fresh items
  up to it come first, and a cached item without one is restored at its place exactly when a later cached
  item has a counterpart. So all fresh items are kept in their order, the restored ones are a part of
  the cached ones in theirs, and the count is their number.
\<close>

theorem merge_snapshot_items_ok:
  "let cached = filter (\<lambda>item. \<not> originates_from_raw_response item) persisted
   in \<exists>restored. merge_snapshot_items fresh persisted = Some (merged_lists fresh cached, length restored) \<and>
     merged_lists fresh cached \<in> shuffles fresh restored \<and> subseq restored cached"
proof -
  let ?ps = "filter (\<lambda>item. \<not> originates_from_raw_response item) persisted"
  obtain pre k r where r: "merge_snapshot_items fresh persisted = Some (pre @ drop k fresh, length r)"
    "pre \<in> shuffles (take k fresh) r" "subseq r ?ps"
    using merge_snapshot_items_spec by blast
  have shuffled: "pre @ drop k fresh \<in> shuffles fresh r" using shuffles_append_right [OF r(2), of "drop k fresh"] by simp
  have "pre @ drop k fresh = merged_lists fresh ?ps"
  proof (cases "rposition (\<lambda>m. m \<noteq> None) (match_items fresh 0 ?ps)")
    case None
    then have "\<not> list_ex (\<lambda>c. counterpart fresh c \<noteq> None) ?ps" using matches_some [of fresh 0 ?ps] by simp
    then show ?thesis using r(1) None merged_lists_none [of fresh ?ps]
      by (simp add: merge_snapshot_items_def Let_def del: not_None_eq rposition_None)
  next
    case (Some anchor)
    then show ?thesis using r(1) merge_loop_merged [OF Some, of 0 "[]"] by (auto simp: merge_snapshot_items_def Let_def)
  qed
  then show ?thesis using r shuffled by (auto simp: Let_def)
qed

text \<open>A card with a key and a text, for examples.\<close>

definition card :: "string \<Rightarrow> string \<Rightarrow> TranscriptItem" where
  "card key content =
     \<lparr>it_key = key, it_protocol_id = Some key, it_kind = Agent, it_title = ''Codex'',
      it_status = None, it_content = content, it_raw = JObject [], it_event_count = 1,
      it_expanded = True, it_pending = None\<rparr>"

text \<open>
  The merge can show a card twice. A cached card without a counterpart takes a later
  fresh card of the same text; a cached card whose own counterpart was passed over is then
  restored beside it, under the same key, though no key was repeated on either side.
\<close>

lemma merge_can_duplicate_a_card:
  "let fresh = [card ''b'' ''hello'', card ''c'' ''ok'', card ''d'' ''bye''];
       persisted = [card ''a'' ''ok'', card ''b'' ''hello'', card ''d'' ''bye'']
   in distinct (map it_key fresh) \<and> distinct (map it_key persisted) \<and>
     map_option (\<lambda>(items, n). (map it_key items, n)) (merge_snapshot_items fresh persisted) =
       Some ([''b'', ''c'', ''b'', ''d''], 1)"
  by code_simp

end
