(* ===== verification/Refresh.thy ===== *)
theory Refresh
  imports Events Snapshot
begin

text \<open>
  Reading a thread back in \<open>harness_protocol\<close>: \<open>load_thread\<close>, \<open>refresh_thread\<close>, which keeps
  what the reader did to unchanged cards, and \<open>merge_persisted_transcript\<close>, which adds what the
  local history cache remembers.
\<close>

subsection \<open>Threads\<close>

record CodexThreadItem =
  ti_id :: string
  ti_kind :: string
  ti_body :: "(string \<times> json) list"

record CodexTurn =
  tu_id :: string
  tu_status :: json
  tu_items :: "CodexThreadItem list"

record CodexThread =
  th_id :: string
  th_name :: "string option"
  th_preview :: string
  th_cwd :: string
  th_updated_at :: int
  th_turns :: "CodexTurn list"

definition thread_item_value :: "CodexThreadItem \<Rightarrow> json" where
  "thread_item_value protocol_item =
     (let raw = ti_body protocol_item;
          raw = obj_insert ''id'' (JString (ti_id protocol_item)) raw;
          raw = obj_insert ''type'' (JString (ti_kind protocol_item)) raw
      in JObject raw)"

fun load_items ::
  "host \<Rightarrow> string \<Rightarrow> CodexThreadItem list \<Rightarrow> TranscriptModel \<Rightarrow> TranscriptModel option" where
  "load_items h turn_id [] m = Some m"
| "load_items h turn_id (item # items) m =
     do { (_, m) \<leftarrow> upsert_protocol_item h (thread_item_value item) True (Some turn_id) m;
          load_items h turn_id items m }"

fun load_turns :: "host \<Rightarrow> CodexTurn list \<Rightarrow> TranscriptModel \<Rightarrow> TranscriptModel option" where
  "load_turns h [] m = Some m"
| "load_turns h (turn # turns) m =
     do { m \<leftarrow> load_items h (tu_id turn) (tu_items turn) m; load_turns h turns m }"

definition load_thread :: "host \<Rightarrow> CodexThread \<Rightarrow> TranscriptModel \<Rightarrow> TranscriptModel option" where
  "load_thread h thread m = load_turns h (th_turns thread) (clear m)"

subsection \<open>Refreshing\<close>

record ThreadRefreshOutcome =
  ro_dirty :: "nat set"
  ro_old_len :: nat
  ro_new_len :: nat
  ro_reset :: bool

definition saturating_add :: "nat \<Rightarrow> nat \<Rightarrow> nat" where
  "saturating_add a b = min (a + b) (2 ^ 64 - 1)"

text \<open>The loop over the fresh items that correspond to old ones.\<close>

fun refresh_prefix ::
  "nat \<Rightarrow> TranscriptItem list \<Rightarrow> TranscriptItem list \<Rightarrow> nat set \<Rightarrow>
   (TranscriptItem list \<times> nat set) option" where
  "refresh_prefix index [] items dirty = Some (items, dirty)"
| "refresh_prefix index (incoming # fresh) items dirty =
     do { current \<leftarrow> get_at items index;
          (if thread_snapshot_items_equal current incoming then
             refresh_prefix (index + 1) fresh items dirty
           else
             let incoming = incoming\<lparr>it_expanded := it_expanded current,
                   it_event_count := saturating_add (it_event_count current) 1\<rparr>
             in refresh_prefix (index + 1) fresh (items[index := incoming]) (insert index dirty)) }"

text \<open>A map collected from pairs keeps the last value of a key.\<close>

definition keep_expanded :: "TranscriptItem list \<Rightarrow> TranscriptItem \<Rightarrow> TranscriptItem" where
  "keep_expanded old item =
     (case map_of (rev (map (\<lambda>i. (it_key i, it_expanded i)) old)) (it_key item) of
        Some expanded \<Rightarrow> item\<lparr>it_expanded := expanded\<rparr>
      | None \<Rightarrow> item)"

definition prefix_compatible :: "TranscriptItem list \<Rightarrow> TranscriptItem list \<Rightarrow> bool" where
  "prefix_compatible old fresh =
     (length old \<le> length fresh \<and>
      list_all (\<lambda>(old, new). it_key old = it_key new) (zip old fresh))"

definition refresh_thread ::
  "host \<Rightarrow> CodexThread \<Rightarrow> TranscriptModel \<Rightarrow> (ThreadRefreshOutcome \<times> TranscriptModel) option" where
  "refresh_thread h thread m =
     do { fresh \<leftarrow> load_thread h thread default_model;
          let old_len = length (tm_items m);
          let fresh_items = tm_items fresh;
          let new_len = length fresh_items;
          (if \<not> prefix_compatible (tm_items m) fresh_items then
             let fresh_items = map (keep_expanded (tm_items m)) fresh_items
             in Some
               (\<lparr>ro_dirty = {0 ..< new_len}, ro_old_len = old_len, ro_new_len = new_len, ro_reset = True\<rparr>,
                rebuild_item_indices (m\<lparr>tm_items := fresh_items\<rparr>))
           else
             do { (items, dirty) \<leftarrow> refresh_prefix 0 (take old_len fresh_items) (tm_items m) {};
                  Some
                    (\<lparr>ro_dirty = dirty, ro_old_len = old_len, ro_new_len = new_len, ro_reset = False\<rparr>,
                     rebuild_item_indices (m\<lparr>tm_items := items @ drop old_len fresh_items\<rparr>)) }) }"

subsection \<open>The history cache\<close>

datatype file_read = Contents string | NotFound | ReadError

text \<open>
  The file system and the derived deserialiser are arguments; the inner \<open>None\<close> is the error
  the source returns.
\<close>

definition merge_persisted_transcript ::
  "(string \<Rightarrow> string option) \<Rightarrow> (string \<Rightarrow> file_read) \<Rightarrow> (string \<Rightarrow> PersistedTranscript option) \<Rightarrow>
   string \<Rightarrow> TranscriptModel \<Rightarrow> (nat option \<times> TranscriptModel) option" where
  "merge_persisted_transcript env read_file from_slice thread_id m =
     (case transcript_snapshot_path env thread_id of
        None \<Rightarrow> Some (None, m)
      | Some path \<Rightarrow>
          (case read_file path of
             NotFound \<Rightarrow> Some (Some 0, m)
           | ReadError \<Rightarrow> Some (None, m)
           | Contents serialized \<Rightarrow>
               (case from_slice serialized of
                  None \<Rightarrow> Some (None, m)
                | Some snapshot \<Rightarrow>
                    if pt_version snapshot \<noteq> SNAPSHOT_VERSION \<or> pt_thread_id snapshot \<noteq> thread_id
                    then Some (Some 0, m)
                    else
                      do { (items, restored) \<leftarrow> merge_snapshot_items (tm_items m) (pt_items snapshot);
                           Some (Some restored, rebuild_item_indices (m\<lparr>tm_items := items\<rparr>)) })))"

subsection \<open>Loading returns\<close>

lemma load_items_ok [panic_free]:
  "indices_ok m \<Longrightarrow> \<exists>m'. load_items h turn_id items m = Some m' \<and> indices_ok m'"
proof (induction items arbitrary: m)
  case (Cons item items)
  obtain x m1 where r: "upsert_protocol_item h (thread_item_value item) True (Some turn_id) m = Some (x, m1)"
    "case x of None \<Rightarrow> m1 = m | Some i \<Rightarrow> touches m i m1"
    using upsert_protocol_item_ok [OF Cons.prems] unfolding opt_op_ok_def by blast
  then have "indices_ok m1" using Cons.prems by (cases x) (auto simp: touches_def)
  with Cons.IH r(1) show ?case by simp
qed simp

lemma load_turns_ok [panic_free]:
  "indices_ok m \<Longrightarrow> \<exists>m'. load_turns h turns m = Some m' \<and> indices_ok m'"
proof (induction turns arbitrary: m)
  case (Cons turn turns)
  from load_items_ok [OF Cons.prems, of h "tu_id turn" "tu_items turn"] obtain m1 where
    "load_items h (tu_id turn) (tu_items turn) m = Some m1" "indices_ok m1" by blast
  with Cons.IH show ?case by simp
qed simp

lemma load_thread_ok [panic_free]: "\<exists>m'. load_thread h thread m = Some m' \<and> indices_ok m'"
  unfolding load_thread_def by (rule load_turns_ok) (simp add: clear_def indices_ok_def)

subsection \<open>What a refresh keeps\<close>

text \<open>The item at an index after a refresh that keeps the cards.\<close>

definition refreshed :: "TranscriptItem \<Rightarrow> TranscriptItem \<Rightarrow> TranscriptItem" where
  "refreshed current incoming =
     (if thread_snapshot_items_equal current incoming then current
      else incoming\<lparr>it_expanded := it_expanded current,
             it_event_count := saturating_add (it_event_count current) 1\<rparr>)"

lemma refresh_prefix_spec:
  assumes "index + length fresh \<le> length items"
  shows "\<exists>items'. refresh_prefix index fresh items dirty =
      Some (items', dirty \<union> {index + j | j. j < length fresh \<and>
        \<not> thread_snapshot_items_equal (items ! (index + j)) (fresh ! j)}) \<and>
    length items' = length items \<and>
    (\<forall>i < length items. items' ! i =
      (if index \<le> i \<and> i < index + length fresh then refreshed (items ! i) (fresh ! (i - index))
       else items ! i))"
  using assms
proof (induction fresh arbitrary: index items dirty)
  case Nil
  then show ?case by auto
next
  case (Cons incoming fresh)
  define items1 where "items1 = items[index := refreshed (items ! index) incoming]"
  define dirty1 where "dirty1 =
    (if thread_snapshot_items_equal (items ! index) incoming then dirty else insert index dirty)"
  have step: "refresh_prefix index (incoming # fresh) items dirty =
      refresh_prefix (index + 1) fresh items1 dirty1"
    using Cons.prems by (simp add: items1_def dirty1_def refreshed_def Let_def)
  have "index + 1 + length fresh \<le> length items1" using Cons.prems by (simp add: items1_def)
  from Cons.IH [OF this, of dirty1] obtain items' where
    r: "refresh_prefix (index + 1) fresh items1 dirty1 =
      Some (items', dirty1 \<union> {index + 1 + j | j. j < length fresh \<and>
        \<not> thread_snapshot_items_equal (items1 ! (index + 1 + j)) (fresh ! j)})" and
    len: "length items' = length items1" and
    nth: "\<And>i. i < length items1 \<Longrightarrow> items' ! i =
      (if index + 1 \<le> i \<and> i < index + 1 + length fresh
       then refreshed (items1 ! i) (fresh ! (i - (index + 1))) else items1 ! i)"
    by blast
  have dirty: "dirty1 \<union> {index + 1 + j | j. j < length fresh \<and>
        \<not> thread_snapshot_items_equal (items1 ! (index + 1 + j)) (fresh ! j)} =
      dirty \<union> {index + j | j. j < length (incoming # fresh) \<and>
        \<not> thread_snapshot_items_equal (items ! (index + j)) ((incoming # fresh) ! j)}"
  proof -
    have "{index + j | j. j < length (incoming # fresh) \<and>
        \<not> thread_snapshot_items_equal (items ! (index + j)) ((incoming # fresh) ! j)} =
      (if thread_snapshot_items_equal (items ! index) incoming then {} else {index}) \<union>
      {index + 1 + j | j. j < length fresh \<and>
        \<not> thread_snapshot_items_equal (items ! (index + 1 + j)) (fresh ! j)}" (is "?l = ?r")
    proof (rule set_eqI)
      fix x
      have "x \<in> ?l \<longleftrightarrow> (x = index \<and> \<not> thread_snapshot_items_equal (items ! index) incoming) \<or>
        (\<exists>j < length fresh. x = index + Suc j \<and>
          \<not> thread_snapshot_items_equal (items ! (index + Suc j)) (fresh ! j))"
        by (auto simp: less_Suc_eq_0_disj)
      also have "\<dots> \<longleftrightarrow> x \<in> ?r" by auto
      finally show "x \<in> ?l \<longleftrightarrow> x \<in> ?r" .
    qed
    then show ?thesis by (auto simp: dirty1_def items1_def)
  qed
  have "items' ! i =
      (if index \<le> i \<and> i < index + length (incoming # fresh)
       then refreshed (items ! i) ((incoming # fresh) ! (i - index)) else items ! i)"
    if "i < length items" for i
  proof (cases "i = index")
    case True
    then show ?thesis using nth [of i] that by (simp add: items1_def)
  next
    case False
    have "(incoming # fresh) ! (i - index) = fresh ! (i - (index + 1))" if "index + 1 \<le> i"
      using that by (metis Suc_diff_le Suc_eq_plus1 diff_Suc_Suc nth_Cons_Suc)
    then show ?thesis using nth [of i] that False by (auto simp: items1_def)
  qed
  then show ?case
    using r len by (simp only: step dirty) (simp add: items1_def)
qed

lemma refresh_thread_spec:
  "\<exists>fresh out m'. load_thread h thread default_model = Some fresh \<and>
    refresh_thread h thread m = Some (out, m') \<and> indices_ok m' \<and>
    length (tm_items m') = length (tm_items fresh) \<and>
    ro_reset out = (\<not> prefix_compatible (tm_items m) (tm_items fresh)) \<and>
    (if ro_reset out then
       ro_dirty out = {0 ..< length (tm_items m')} \<and>
       tm_items m' = map (keep_expanded (tm_items m)) (tm_items fresh)
     else
       ro_dirty out = {i. i < length (tm_items m) \<and>
         \<not> thread_snapshot_items_equal (tm_items m ! i) (tm_items fresh ! i)} \<and>
       (\<forall>i < length (tm_items m'). tm_items m' ! i =
         (if i < length (tm_items m) then refreshed (tm_items m ! i) (tm_items fresh ! i)
          else tm_items fresh ! i)))"
proof -
  obtain fresh where fresh: "load_thread h thread default_model = Some fresh"
    using load_thread_ok by blast
  let ?F = "tm_items fresh" and ?old = "tm_items m"
  show ?thesis
  proof (cases "prefix_compatible ?old ?F")
    case False
    let ?m = "rebuild_item_indices (m\<lparr>tm_items := map (keep_expanded ?old) ?F\<rparr>)"
    let ?out = "\<lparr>ro_dirty = {0 ..< length ?F}, ro_old_len = length ?old, ro_new_len = length ?F,
      ro_reset = True\<rparr>"
    have "refresh_thread h thread m = Some (?out, ?m)"
      using fresh False by (simp add: refresh_thread_def Let_def)
    moreover have "tm_items ?m = map (keep_expanded ?old) ?F" by (simp add: rebuild_item_indices_def)
    ultimately show ?thesis
      using fresh False rebuild_ok
      by (intro exI [of _ fresh] exI [of _ ?out] exI [of _ ?m]) simp
  next
    case True
    then have le: "length ?old \<le> length ?F" by (simp add: prefix_compatible_def)
    then have "0 + length (take (length ?old) ?F) \<le> length ?old" by simp
    from refresh_prefix_spec [OF this, of "{}"] le obtain items' where
      r: "refresh_prefix 0 (take (length ?old) ?F) ?old {} =
        Some (items', {j. j < length ?old \<and> \<not> thread_snapshot_items_equal (?old ! j) (?F ! j)})" and
      items': "length items' = length ?old"
        "\<And>i. i < length ?old \<Longrightarrow> items' ! i = refreshed (?old ! i) (?F ! i)"
      by (auto simp: conj_commute cong: conj_cong)
    let ?m = "rebuild_item_indices (m\<lparr>tm_items := items' @ drop (length ?old) ?F\<rparr>)"
    let ?out = "\<lparr>ro_dirty = {j. j < length ?old \<and> \<not> thread_snapshot_items_equal (?old ! j) (?F ! j)},
      ro_old_len = length ?old, ro_new_len = length ?F, ro_reset = False\<rparr>"
    have "tm_items ?m ! i =
         (if i < length ?old then refreshed (?old ! i) (?F ! i) else ?F ! i)"
      if "i < length (tm_items ?m)" for i
      using that items' le by (auto simp: rebuild_item_indices_def nth_append)
    moreover have "length (tm_items ?m) = length ?F"
      using items'(1) le by (simp add: rebuild_item_indices_def)
    moreover have "refresh_thread h thread m = Some (?out, ?m)"
      using fresh True r by (simp add: refresh_thread_def Let_def)
    ultimately show ?thesis
      using fresh True rebuild_ok
      by (intro exI [of _ fresh] exI [of _ ?out] exI [of _ ?m]) simp
  qed
qed

text \<open>
  Refreshing never panics and leaves the index in range. When the thread still begins with
  the cards shown, a card whose content did not change is left alone, a card that changed takes
  the fresh content and keeps whether it is expanded, the cards that follow are appended, and
  the dirty set is exactly the set of changed cards; otherwise all cards are replaced, all are
  dirty, and a card of a known key still keeps whether it is expanded.
\<close>

lemma refresh_thread_ok:
  "\<exists>fresh out m'. load_thread h thread default_model = Some fresh \<and>
    refresh_thread h thread m = Some (out, m') \<and> indices_ok m' \<and>
    length (tm_items m') = length (tm_items fresh) \<and>
    ro_reset out = (\<not> prefix_compatible (tm_items m) (tm_items fresh)) \<and>
    (if ro_reset out then
       ro_dirty out = {0 ..< length (tm_items m')} \<and>
       tm_items m' = map (keep_expanded (tm_items m)) (tm_items fresh)
     else
       ro_dirty out = {i. i < length (tm_items m) \<and>
         \<not> thread_snapshot_items_equal (tm_items m ! i) (tm_items fresh ! i)} \<and>
       (\<forall>i < length (tm_items m'). tm_items m' ! i =
         (if i < length (tm_items m) then refreshed (tm_items m ! i) (tm_items fresh ! i)
          else tm_items fresh ! i)))"
  by (rule refresh_thread_spec)

definition example_thread :: CodexThread where
  "example_thread =
     \<lparr>th_id = ''t'', th_name = None, th_preview = [], th_cwd = [], th_updated_at = 0,
      th_turns = [\<lparr>tu_id = ''u'', tu_status = JNull,
        tu_items = [\<lparr>ti_id = ''a'', ti_kind = ''agentMessage'', ti_body = [(''text'', JString ''hi'')]\<rparr>]\<rparr>]\<rparr>"

subsection \<open>Refreshing again\<close>

text \<open>The raw payloads are values without repeated keys, and no request is pending.\<close>

definition read_back :: "TranscriptItem \<Rightarrow> bool" where
  "read_back item = (json_ok (it_raw item) \<and> it_pending item = None)"

lemma map_fst_trim: "map fst (map (\<lambda>(k, v). (k, trim_large_json_values v)) obj) = map fst obj"
  by (induction obj) auto

lemma json_ok_trim: "json_ok v \<Longrightarrow> json_ok (trim_large_json_values v)"
proof (induction v rule: trim_large_json_values.induct)
  case (1 t)
  then show ?case by (simp add: omitted_string_def)
next
  case (2 vs)
  then show ?case by (auto simp: list_all_iff omitted_values_def dest: in_set_takeD)
next
  case (3 obj)
  then show ?case by (fastforce simp: list_all_iff map_fst_trim simp del: map_map)
qed simp_all

lemma json_ok_bounded: "json_ok v \<Longrightarrow> json_ok (bounded_raw_payload h v)"
  by (simp add: bounded_raw_payload_def Let_def json_ok_trim)

lemma fst_obj_insert: "fst ` set (obj_insert k v kvs) = insert k (fst ` set kvs)"
  by (induction k v kvs rule: obj_insert.induct) auto

lemma json_ok_obj_insert: "json_ok (JObject kvs) \<Longrightarrow> json_ok v \<Longrightarrow> json_ok (JObject (obj_insert k v kvs))"
  by (induction k v kvs rule: obj_insert.induct) (auto simp: list_all_iff fst_obj_insert)

lemma read_back_equal: "read_back item \<Longrightarrow> thread_snapshot_items_equal item item"
  by (simp add: read_back_def thread_snapshot_items_equal_def json_eq_refl)

lemma read_back_refreshed:
  "read_back incoming \<Longrightarrow> thread_snapshot_items_equal (refreshed current incoming) incoming"
  using read_back_equal [of incoming]
  by (simp add: refreshed_def thread_snapshot_items_equal_def)

lemma read_back_item: "json_ok v \<Longrightarrow> read_back (item_from_protocol h v completed)"
  by (simp add: read_back_def item_from_protocol_def Let_def json_ok_bounded)

lemma read_back_raw:
  "json_ok v \<Longrightarrow> json_ok (it_raw (item_from_protocol h v completed))"
  using read_back_item by (simp add: read_back_def)

text \<open>Whatever model an operation returns, its items satisfy a predicate.\<close>

definition keeps :: "(TranscriptItem \<Rightarrow> bool) \<Rightarrow> ('a \<times> TranscriptModel) option \<Rightarrow> bool" where
  "keeps P r = (\<forall>x m'. r = Some (x, m') \<longrightarrow> list_all P (tm_items m'))"

lemma keeps_update:
  assumes "list_all P (tm_items m)" "\<And>x. P x \<Longrightarrow> P (f x)" "\<And>m'. tm_items (k m') = tm_items m'"
  shows "keeps P (do { m \<leftarrow> update_item i f m; Some (y, k m) })"
proof (cases "i < length (tm_items m)")
  case True
  have "list_all P ((tm_items m)[i := f (tm_items m ! i)])"
    using assms(1,2) True set_update_subset_insert [of "tm_items m" i "f (tm_items m ! i)"]
    by (auto simp: list_all_iff)
  with True assms(3) show ?thesis by (simp add: keeps_def update_item_Some)
qed (simp add: keeps_def update_item_def modify_at_def)

lemma keeps_push:
  assumes "list_all P (tm_items m)" "P item" "\<And>i m'. tm_items (k i m') = tm_items m'"
  shows "keeps P (case push_without_splice item m of (i, m) \<Rightarrow> Some (g i, k i m))"
  using assms by (simp add: keeps_def push_without_splice_def insert_index_def Let_def)

lemma upsert_reasoning_read_back:
  assumes "json_ok v" "list_all read_back (tm_items m)"
  shows "keeps read_back (upsert_reasoning h v completed protocol_id turn_id m)"
proof (cases "tm_indices m (''turn-reasoning:'' @ turn_id)")
  case None
  show ?thesis
    unfolding upsert_reasoning_def Let_def None option.case
    by (rule keeps_push [OF assms(2)])
       (use read_back_item [OF assms(1), of h completed] in \<open>simp_all add: read_back_def\<close>)
next
  case (Some i)
  show ?thesis
    unfolding upsert_reasoning_def Let_def Some option.case
    by (rule keeps_update [OF assms(2)])
       (simp_all add: read_back_def read_back_raw [OF assms(1)])
qed

lemma insert_typed_read_back:
  assumes "json_ok v" "list_all read_back (tm_items m)"
  shows "keeps read_back (insert_typed h v completed protocol_id m)"
proof -
  let ?item = "item_from_protocol h v completed"
  let ?found = "if it_kind ?item = User then
      rposition (\<lambda>candidate. starts_with (it_key candidate) ''local-user:'' \<and>
        it_content candidate = it_content ?item) (tm_items m) else None"
  have item: "read_back ?item" by (rule read_back_item [OF assms(1)])
  show ?thesis
  proof (cases ?found)
    case None
    show ?thesis
      unfolding insert_typed_def Let_def None option.case
      by (rule keeps_push [OF assms(2) item]) simp
  next
    case (Some i)
    then have i: "i < length (tm_items m)" by (auto split: if_splits dest: rposition_lt)
    show ?thesis
      unfolding insert_typed_def Let_def Some option.case get_at_in [OF i] bind.bind_lunit
      by (rule keeps_update) (simp_all add: assms(2) item)
  qed
qed

lemma upsert_read_back:
  assumes "json_ok v" "list_all read_back (tm_items m)"
  shows "keeps read_back (upsert_protocol_item h v completed turn_id m)"
proof -
  let ?id = "unwrap_or (string_at v [''id'']) ''unknown-item''"
  have known: "keeps read_back (do { m \<leftarrow> update_item i (\<lambda>old. (item_from_protocol h v completed)
      \<lparr>it_event_count := it_event_count old + 1, it_expanded := it_expanded old,
       it_pending := it_pending old\<rparr>) m; Some (Some i, m) })" for i
    by (rule keeps_update [OF assms(2)]) (simp_all add: read_back_def read_back_raw [OF assms(1)])
  have rest: "keeps read_back (case tm_indices m ?id of
      Some i \<Rightarrow> do { m \<leftarrow> update_item i (\<lambda>old. (item_from_protocol h v completed)
          \<lparr>it_event_count := it_event_count old + 1, it_expanded := it_expanded old,
           it_pending := it_pending old\<rparr>) m; Some (Some i, m) }
    | None \<Rightarrow> insert_typed h v completed ?id m)"
    by (cases "tm_indices m ?id") (simp_all only: option.case known insert_typed_read_back [OF assms])
  show ?thesis
    unfolding upsert_protocol_item_def Let_def
    by (rule if_cases, simp add: keeps_def assms(2),
        cases "if string_at v [''type''] = Some ''reasoning'' then turn_id else None")
       (simp_all only: option.case rest upsert_reasoning_read_back [OF assms])
qed

text \<open>The bodies of a thread are JSON objects: no key is repeated.\<close>

definition thread_ok :: "CodexThread \<Rightarrow> bool" where
  "thread_ok thread =
     list_all (\<lambda>turn. list_all (\<lambda>item. json_ok (JObject (ti_body item))) (tu_items turn)) (th_turns thread)"

lemma json_ok_thread_item: "json_ok (JObject (ti_body item)) \<Longrightarrow> json_ok (thread_item_value item)"
  unfolding thread_item_value_def Let_def by (intro json_ok_obj_insert) simp_all

lemma load_items_read_back:
  "list_all (\<lambda>item. json_ok (JObject (ti_body item))) items \<Longrightarrow> list_all read_back (tm_items m) \<Longrightarrow>
     load_items h turn_id items m = Some m' \<Longrightarrow> list_all read_back (tm_items m')"
proof (induction items arbitrary: m)
  case (Cons item items)
  from Cons.prems(3) obtain x m1 where
    "upsert_protocol_item h (thread_item_value item) True (Some turn_id) m = Some (x, m1)"
    "load_items h turn_id items m1 = Some m'" by (auto simp: bind_eq_Some_conv)
  moreover from this(1) have "list_all read_back (tm_items m1)"
    using Cons.prems(1,2) upsert_read_back [of "thread_item_value item" m h True "Some turn_id"]
      json_ok_thread_item [of item] by (simp add: keeps_def)
  ultimately show ?case using Cons.IH Cons.prems(1) by simp
qed simp

lemma load_turns_read_back:
  "list_all (\<lambda>turn. list_all (\<lambda>item. json_ok (JObject (ti_body item))) (tu_items turn)) turns \<Longrightarrow>
     list_all read_back (tm_items m) \<Longrightarrow> load_turns h turns m = Some m' \<Longrightarrow>
     list_all read_back (tm_items m')"
proof (induction turns arbitrary: m)
  case (Cons turn turns)
  from Cons.prems(3) obtain m1 where m1: "load_items h (tu_id turn) (tu_items turn) m = Some m1"
    "load_turns h turns m1 = Some m'" by (auto simp: bind_eq_Some_conv)
  have "list_all (\<lambda>item. json_ok (JObject (ti_body item))) (tu_items turn)"
    using Cons.prems(1) by (simp del: json_ok.simps)
  from load_items_read_back [OF this Cons.prems(2) m1(1)] show ?case
    using Cons.IH [OF _ _ m1(2)] Cons.prems(1) by (simp del: json_ok.simps)
qed simp

lemma load_thread_read_back:
  "thread_ok thread \<Longrightarrow> load_thread h thread m = Some m' \<Longrightarrow> list_all read_back (tm_items m')"
  unfolding thread_ok_def load_thread_def
  by (erule load_turns_read_back) (simp_all add: clear_def)

text \<open>
  Refreshing with the same thread again is free: no card is dirty, none changes, none is
  replaced.
\<close>

lemma refresh_twice:
  assumes "thread_ok thread" "refresh_thread h thread m = Some (out, m')"
  shows "\<exists>out' m''. refresh_thread h thread m' = Some (out', m'') \<and> ro_dirty out' = {} \<and>
    \<not> ro_reset out' \<and> tm_items m'' = tm_items m'"
proof -
  obtain fresh where fresh: "load_thread h thread default_model = Some fresh"
    and one: "length (tm_items m') = length (tm_items fresh)"
      "if ro_reset out then
         ro_dirty out = {0 ..< length (tm_items m')} \<and>
         tm_items m' = map (keep_expanded (tm_items m)) (tm_items fresh)
       else
         ro_dirty out = {i. i < length (tm_items m) \<and>
           \<not> thread_snapshot_items_equal (tm_items m ! i) (tm_items fresh ! i)} \<and>
         (\<forall>i < length (tm_items m'). tm_items m' ! i =
           (if i < length (tm_items m) then refreshed (tm_items m ! i) (tm_items fresh ! i)
            else tm_items fresh ! i))"
    using refresh_thread_spec [of h thread m] assms(2) by auto
  let ?F = "tm_items fresh"
  have rb: "read_back (?F ! i)" if "i < length ?F" for i
    using load_thread_read_back [OF assms(1) fresh] that by (simp add: list_all_length)
  have eq: "thread_snapshot_items_equal (tm_items m' ! i) (?F ! i)" if i: "i < length ?F" for i
  proof (cases "ro_reset out")
    case True
    then have "tm_items m' ! i = keep_expanded (tm_items m) (?F ! i)" using one i by simp
    moreover have "thread_snapshot_items_equal (keep_expanded old x) x" if "read_back x" for old x
      using read_back_equal [OF that]
      by (auto simp: keep_expanded_def thread_snapshot_items_equal_def split: option.splits)
    ultimately show ?thesis using rb [OF i] by simp
  next
    case False
    then show ?thesis
      using one i read_back_refreshed [OF rb [OF i]] read_back_equal [OF rb [OF i]] by simp
  qed
  then have keys: "it_key (tm_items m' ! i) = it_key (?F ! i)" if "i < length ?F" for i
    using that by (simp add: thread_snapshot_items_equal_def)
  have compatible: "prefix_compatible (tm_items m') ?F"
    using one(1) keys by (auto simp: prefix_compatible_def list_all_length)
  obtain out' m'' where two: "refresh_thread h thread m' = Some (out', m'')"
    "length (tm_items m'') = length ?F" "\<not> ro_reset out'"
    "ro_dirty out' = {i. i < length (tm_items m') \<and> \<not> thread_snapshot_items_equal (tm_items m' ! i) (?F ! i)}"
    "\<forall>i < length (tm_items m''). tm_items m'' ! i =
      (if i < length (tm_items m') then refreshed (tm_items m' ! i) (?F ! i) else ?F ! i)"
    using refresh_thread_spec [of h thread m'] fresh compatible by auto
  have "tm_items m'' = tm_items m'"
    using two(2,5) one(1) eq by (intro nth_equalityI) (simp_all add: refreshed_def)
  with two eq one(1) show ?thesis by auto
qed

subsection \<open>The history cache and the transcript\<close>

text \<open>
  Merging the history cache never panics and leaves the index in range. The transcript is
  as before when there is no cache, when it cannot be read, and when it is of another
  version or thread; otherwise it holds every item it held, in the same order, and as many
  more as the result says.
\<close>

lemma merge_persisted_ok:
  assumes "indices_ok m"
  shows "\<exists>result m'. merge_persisted_transcript env read_file from_slice thread_id m = Some (result, m') \<and>
    indices_ok m' \<and> subseq (tm_items m) (tm_items m') \<and>
    (case result of
       Some restored \<Rightarrow> length (tm_items m') = length (tm_items m) + restored
     | None \<Rightarrow> m' = m) \<and>
    (m' = m \<or> (\<exists>path bytes snapshot. transcript_snapshot_path env thread_id = Some path \<and>
       read_file path = Contents bytes \<and> from_slice bytes = Some snapshot \<and>
       pt_thread_id snapshot = thread_id \<and> pt_version snapshot = SNAPSHOT_VERSION))"
proof -
  have sub: "subseq xs zs" if "zs \<in> shuffles xs ys" for xs ys zs :: "TranscriptItem list"
    using that
  proof (induction xs ys arbitrary: zs rule: shuffles.induct)
    case (3 x xs y ys)
    then show ?case by (auto intro: subseq_Cons')
  qed auto
  show ?thesis
  proof (cases "\<exists>path bytes snapshot. transcript_snapshot_path env thread_id = Some path \<and>
      read_file path = Contents bytes \<and> from_slice bytes = Some snapshot \<and>
      pt_version snapshot = SNAPSHOT_VERSION \<and> pt_thread_id snapshot = thread_id")
    case False
    then have "\<exists>result. merge_persisted_transcript env read_file from_slice thread_id m = Some (result, m) \<and>
        (result = None \<or> result = Some 0)"
      by (auto simp: merge_persisted_transcript_def split: option.split file_read.split)
    with assms show ?thesis by force
  next
    case True
    then obtain path bytes snapshot where s: "transcript_snapshot_path env thread_id = Some path"
      "read_file path = Contents bytes" "from_slice bytes = Some snapshot"
      "pt_version snapshot = SNAPSHOT_VERSION" "pt_thread_id snapshot = thread_id" by blast
    obtain pre k r where r: "merge_snapshot_items (tm_items m) (pt_items snapshot) =
        Some (pre @ drop k (tm_items m), length r)" "pre \<in> shuffles (take k (tm_items m)) r"
      using merge_snapshot_items_spec by blast
    have "pre @ drop k (tm_items m) \<in> shuffles (take k (tm_items m) @ drop k (tm_items m)) r"
      using r(2) by (rule shuffles_append_right)
    then have "pre @ drop k (tm_items m) \<in> shuffles (tm_items m) r" by simp
    moreover from length_shuffles [OF this] have "length (pre @ drop k (tm_items m)) = length (tm_items m) + length r" .
    moreover let ?m = "rebuild_item_indices (m\<lparr>tm_items := pre @ drop k (tm_items m)\<rparr>)"
    have "merge_persisted_transcript env read_file from_slice thread_id m = Some (Some (length r), ?m)"
      using r(1) s by (simp add: merge_persisted_transcript_def)
    moreover have "tm_items ?m = pre @ drop k (tm_items m)" by (simp add: rebuild_item_indices_def)
    moreover have "indices_ok ?m" by (rule rebuild_ok)
    ultimately show ?thesis
      using sub s by (intro exI [of _ "Some (length r)"] exI [of _ ?m]) auto
  qed
qed

text \<open>The greedy matching finds every cached item when the keys are those of the fresh items.\<close>

lemma match_items_own:
  assumes "n \<le> k" "map it_key ps = map it_key (drop k xs)"
  shows "None \<notin> set (match_items xs n (filter P ps))"
  using assms
proof (induction ps arbitrary: n k)
  case (Cons p ps)
  have k: "k < length xs" using Cons.prems(2) by (cases "k < length xs") auto
  then have d: "drop k xs = xs ! k # drop (Suc k) xs" by (rule Cons_nth_drop_Suc [symmetric])
  have key: "it_key p = it_key (xs ! k)" and rest: "map it_key ps = map it_key (drop (Suc k) xs)"
    using Cons.prems(2) by (simp_all add: d)
  show ?case
  proof (cases "P p")
    case False
    then show ?thesis using Cons.IH [of n "Suc k"] Cons.prems(1) rest by simp
  next
    case True
    have at: "drop n xs ! (k - n) = xs ! k" "k - n < length (drop n xs)" using Cons.prems(1) k by simp_all
    have "position (\<lambda>x. it_key x = it_key p) (drop n xs) \<noteq> None"
    proof
      assume "position (\<lambda>x. it_key x = it_key p) (drop n xs) = None"
      then have "\<forall>x \<in> set (drop n xs). it_key x \<noteq> it_key p" by simp
      with nth_mem [OF at(2)] have "it_key (drop n xs ! (k - n)) \<noteq> it_key p" by blast
      with at(1) key show False by simp
    qed
    then obtain i where i: "position (\<lambda>x. it_key x = it_key p) (drop n xs) = Some i" by blast
    have "\<not> k - n < i"
    proof
      assume "k - n < i"
      then have "it_key (drop n xs ! (k - n)) \<noteq> it_key p" using position_Some [OF i] by blast
      with at(1) key show False by simp
    qed
    then have "n + i + 1 \<le> Suc k" using Cons.prems(1) by simp
    with Cons.IH [OF this rest] True i show ?thesis by (simp add: find_fresh_def)
  qed
qed simp

lemma unmatched_none: "None \<notin> snd ` set ms \<Longrightarrow> unmatched ms = []"
  unfolding unmatched_def by (induction ms) auto

lemma merge_all_matched:
  assumes "None \<notin> set (match_items fresh 0 (filter (\<lambda>item. \<not> originates_from_raw_response item) persisted))"
  shows "merge_snapshot_items fresh persisted = Some (fresh, 0)"
proof -
  let ?ps = "filter (\<lambda>item. \<not> originates_from_raw_response item) persisted"
  let ?ms = "match_items fresh 0 ?ps"
  show ?thesis
  proof (cases "rposition (\<lambda>m. m \<noteq> None) ?ms")
    case None
    then show ?thesis unfolding merge_snapshot_items_def Let_def None by simp
  next
    case (Some a)
    obtain k where k: "?ms ! a = Some k" "a < length ?ms" using rposition_Some [OF Some] by auto
    have inc: "increasing 0 (length fresh) (map snd (take a (zip ?ps ?ms)) @ [Some k])"
    proof -
      have "increasing 0 (length fresh) (take (a + 1) ?ms)"
        by (intro increasing_take increasing_match) simp
      moreover have "take (a + 1) ?ms = map snd (take a (zip ?ps ?ms)) @ [Some k]"
        using k by (simp add: take_Suc_conv_app_nth take_map [symmetric])
      ultimately show ?thesis by simp
    qed
    have z: "take (a + 1) (zip ?ps ?ms) = take a (zip ?ps ?ms) @ [(?ps ! a, Some k)]"
      using k by (simp add: take_Suc_conv_app_nth)
    have "None \<notin> snd ` set (take a (zip ?ps ?ms))"
      using assms by (auto dest!: in_set_takeD set_zip_rightD)
    then have u: "unmatched (take a (zip ?ps ?ms)) = []" by (rule unmatched_none)
    from merge_loop_anchor [OF inc, of 0 "[]" "?ps ! a", folded z] u
    have "merge_loop fresh 0 0 [] (take (a + 1) (zip ?ps ?ms)) = Some (fresh, 0)"
      by (auto simp del: One_nat_def)
    then show ?thesis unfolding merge_snapshot_items_def Let_def Some by simp
  qed
qed

text \<open>
  Restoring a transcript's own cache restores nothing: whatever \<open>item_for_snapshot\<close> left
  out of the items, merging the snapshot written from them gives them back, once each.
\<close>

lemma own_snapshot_adds_nothing:
  assumes "snapshot_of h thread_id items = Some snapshot"
  shows "merge_snapshot_items items (pt_items snapshot) = Some (items, 0)"
proof -
  have kept: "list_all (\<lambda>x. x \<noteq> None) (map (item_for_snapshot h) items)"
    and s: "pt_items snapshot = map the (map (item_for_snapshot h) items)"
    using assms by (auto simp: snapshot_of_def Let_def split: if_splits)
  have "it_key r = it_key item" if "item_for_snapshot h item = Some r" for item r
    using that by (auto simp: item_for_snapshot_def bind_eq_Some_conv Let_def split: if_splits)
  then have "map it_key (pt_items snapshot) = map it_key (drop 0 items)"
    using kept by (auto simp: s list_all_iff)
  from match_items_own [OF le_refl this] show ?thesis by (rule merge_all_matched)
qed

text \<open>
  Local keys repeat after a restart. The counter of local messages starts at zero, and the
  cache may restore a local message of the session before: the next local message then gets a
  key that is already in the transcript, and the index forgets the older card.
\<close>

lemma local_key_repeats:
  assumes "i < length (tm_items m)"
    and "it_key (tm_items m ! i) = ''local-user:'' @ dec (tm_local_message_id m + 1)"
  shows "\<exists>k key m'. push_local_user content m = ((k, key), m') \<and> k \<noteq> i \<and>
    it_key (tm_items m' ! k) = key \<and> it_key (tm_items m' ! i) = key \<and> tm_indices m' key = Some k"
  using assms
  by (auto simp: push_local_user_def push_without_splice_def insert_index_def Let_def nth_append)

end
