(* ===== verification/Session.thy ===== *)
theory Session
  imports Refresh EventProperties
begin

text \<open>
  The life of a transcript: the public operations of \<open>TranscriptModel\<close> that change it, in any
  order, as a state machine that starts from the empty transcript. What a cache file holds at
  the time of a merge is part of the operation.
\<close>

subsection \<open>Operations and reachable states\<close>

datatype operation =
    ApplyBatch "Event list" "string option"
  | LoadThread CodexThread
  | RefreshThread CodexThread
  | MergePersisted "string \<Rightarrow> string option" "string \<Rightarrow> file_read"
      "string \<Rightarrow> PersistedTranscript option" string
  | PushLocalUser string
  | SetStatusForKey string string
  | Clear

fun perform :: "services \<Rightarrow> operation \<Rightarrow> TranscriptModel \<Rightarrow> TranscriptModel option" where
  "perform sv (ApplyBatch events thread) m = map_option fst (apply_batch sv events thread m)"
| "perform sv (LoadThread thread) m = load_thread (sv_host sv) thread m"
| "perform sv (RefreshThread thread) m = map_option snd (refresh_thread (sv_host sv) thread m)"
| "perform sv (MergePersisted env read_file from_slice thread_id) m =
     map_option snd (merge_persisted_transcript env read_file from_slice thread_id m)"
| "perform sv (PushLocalUser content) m = Some (snd (push_local_user content m))"
| "perform sv (SetStatusForKey key status) m = map_option snd (set_status_for_key key status m)"
| "perform sv Clear m = Some (clear m)"

inductive reachable :: "services \<Rightarrow> TranscriptModel \<Rightarrow> bool" for sv where
  start: "reachable sv default_model"
| operate: "reachable sv m \<Longrightarrow> perform sv op m = Some m' \<Longrightarrow> reachable sv m'"

subsection \<open>Every operation keeps the invariant\<close>

lemma model_ok_items: "model_ok m \<Longrightarrow> model_ok (rebuild_item_indices (m\<lparr>tm_items := items\<rparr>))"
  using rebuild_ok [of "m\<lparr>tm_items := items\<rparr>"]
  by (simp add: model_ok_def rebuild_item_indices_def journal_ok_def)

lemma load_items_model_ok:
  "model_ok m \<Longrightarrow> \<exists>m'. load_items h turn_id items m = Some m' \<and> model_ok m'"
proof (induction items arbitrary: m)
  case (Cons item items)
  obtain x m1 where r: "upsert_protocol_item h (thread_item_value item) True (Some turn_id) m = Some (x, m1)"
    "case x of None \<Rightarrow> m1 = m | Some i \<Rightarrow> touches m i m1"
    using upsert_protocol_item_ok [OF model_okD [OF Cons.prems]] unfolding opt_op_ok_def by blast
  then have "model_ok m1" using Cons.prems by (cases x) (auto intro: model_ok_touches)
  with Cons.IH r(1) show ?case by simp
qed simp

lemma load_turns_model_ok:
  "model_ok m \<Longrightarrow> \<exists>m'. load_turns h turns m = Some m' \<and> model_ok m'"
proof (induction turns arbitrary: m)
  case (Cons turn turns)
  from load_items_model_ok [OF Cons.prems, of h "tu_id turn" "tu_items turn"] obtain m1 where
    "load_items h (tu_id turn) (tu_items turn) m = Some m1" "model_ok m1" by blast
  with Cons.IH show ?case by simp
qed simp

lemma refresh_model_ok:
  assumes "model_ok m"
  shows "\<exists>out m'. refresh_thread h thread m = Some (out, m') \<and> model_ok m'"
proof -
  obtain fresh out m' where r: "load_thread h thread default_model = Some fresh"
    "refresh_thread h thread m = Some (out, m')"
    using refresh_thread_spec [of h thread m] by blast
  then obtain items where "m' = rebuild_item_indices (m\<lparr>tm_items := items\<rparr>)"
    by (auto simp: refresh_thread_def Let_def split: if_splits option.splits bind_splits)
  then show ?thesis using r(2) model_ok_items [OF assms] by blast
qed

lemma push_local_user_model_ok: "model_ok m \<Longrightarrow> model_ok (snd (push_local_user content m))"
  by (auto simp: model_ok_def indices_ok_def journal_ok_def push_local_user_def
      push_without_splice_def insert_index_def Let_def split: if_splits dest: less_SucI)

lemma set_status_model_ok:
  assumes "model_ok m"
  shows "\<exists>x m'. set_status_for_key key status m = Some (x, m') \<and> model_ok m'"
proof -
  obtain x m' where r: "set_status_for_key key status m = Some (x, m')"
    "case x of None \<Rightarrow> m' = m | Some i \<Rightarrow> touches m i m'"
    using set_status_for_key_ok [OF model_okD [OF assms]] unfolding opt_op_ok_def by blast
  then show ?thesis using assms by (cases x) (auto intro: model_ok_touches)
qed

lemma merge_model_ok:
  assumes "model_ok m"
  shows "\<exists>x m'. merge_persisted_transcript env read_file from_slice thread_id m = Some (x, m') \<and> model_ok m'"
proof -
  have "\<forall>snapshot :: PersistedTranscript. \<exists>r. merge_snapshot_items (tm_items m) (pt_items snapshot) = Some r"
    using merge_snapshot_items_spec by blast
  then obtain f where f: "\<And>snapshot :: PersistedTranscript. merge_snapshot_items (tm_items m) (pt_items snapshot) = Some (f snapshot)"
    using choice [where Q = "\<lambda>(snapshot :: PersistedTranscript) r. merge_snapshot_items (tm_items m) (pt_items snapshot) = Some r"]
    by blast
  then show ?thesis
    using assms model_ok_items [OF assms]
    by (simp add: merge_persisted_transcript_def case_prod_beta split: option.split file_read.split)
qed

lemma perform_ok: "model_ok m \<Longrightarrow> \<exists>m'. perform sv op m = Some m' \<and> model_ok m'"
proof (cases op)
  case (ApplyBatch events thread)
  moreover assume "model_ok m"
  ultimately show ?thesis using apply_batch_safe by fastforce
next
  case (LoadThread thread)
  then show ?thesis
    using load_turns_model_ok [OF clear_ok] by (simp add: load_thread_def)
next
  case (RefreshThread thread)
  moreover assume "model_ok m"
  ultimately show ?thesis using refresh_model_ok [of m "sv_host sv" thread] by auto
next
  case (MergePersisted env read_file from_slice thread_id)
  moreover assume "model_ok m"
  ultimately show ?thesis using merge_model_ok [of m env read_file from_slice thread_id] by auto
next
  case (PushLocalUser content)
  moreover assume "model_ok m"
  ultimately show ?thesis by (simp add: push_local_user_model_ok)
next
  case (SetStatusForKey key status)
  moreover assume "model_ok m"
  ultimately show ?thesis using set_status_model_ok [of m key status] by auto
next
  case Clear
  then show ?thesis by (simp add: clear_ok)
qed

interpretation session: stepping "perform sv" model_ok "\<lambda>_ _. True" for sv
  by unfold_locales (auto simp: perform_ok)

lemma reachable_ok: "reachable sv m \<Longrightarrow> model_ok m"
proof (induction rule: reachable.induct)
  case start
  show ?case by (rule default_model_ok)
next
  case (operate m op m')
  then show ?case using perform_ok [of m sv op] by auto
qed

lemma reachable_run: "reachable sv m \<Longrightarrow> run_steps (perform sv) ops m = Some m' \<Longrightarrow> reachable sv m'"
proof (induction ops arbitrary: m)
  case (Cons op ops)
  then show ?case by (auto intro: operate split: bind_splits)
qed simp

lemma reachable_iff: "reachable sv m \<longleftrightarrow> (\<exists>ops. run_steps (perform sv) ops default_model = Some m)"
proof
  assume "reachable sv m"
  then show "\<exists>ops. run_steps (perform sv) ops default_model = Some m"
  proof (induction rule: reachable.induct)
    case start
    have "run_steps (perform sv) [] default_model = Some default_model" by simp
    then show ?case by blast
  next
    case (operate m op m')
    then obtain ops where "run_steps (perform sv) ops default_model = Some m" by blast
    with operate(2) have "run_steps (perform sv) (ops @ [op]) default_model = Some m'"
      by (simp add: session.loop_append)
    then show ?case by blast
  qed
qed (auto intro: reachable_run start)

subsection \<open>Properties\<close>

text \<open>
  C22. Nothing a session does makes the transcript panic: from the empty transcript, every sequence
  of batches of events, loads and refreshes of threads, merges of cache files, local messages,
  status changes and clears returns, for every content of the messages and files, and the state
  it reaches keeps the invariant of index, journal and telemetry.
\<close>

theorem session_never_panics:
  "\<exists>m. run_steps (perform sv) ops default_model = Some m \<and> reachable sv m \<and> model_ok m"
  using session.loop_safe [OF default_model_ok, of sv ops] by (auto simp: reachable_iff)

end
