(* ===== verification/Slices.thy ===== *)
theory Slices
  imports Prelude
begin

text \<open>
  The searches of the standard library over slices, which the program uses on its ordered lists
  of segments and spans: \<open>partition_point\<close> and \<open>binary_search_by_key\<close>, by the halving loop they
  share, and \<open>windows(2)\<close>, which is the library's \<open>successively\<close>.
\<close>

subsection \<open>The halving loop\<close>

text \<open>The loop moves to the middle of the remaining size unless it has to stay before it.\<close>

function bisect :: "(nat \<Rightarrow> bool) \<Rightarrow> nat \<Rightarrow> nat \<Rightarrow> nat" where
  "bisect stay base sz =
     (if 1 < sz then
        let half = sz div 2; mid = base + half
        in bisect stay (if stay mid then base else mid) (sz - half)
      else base)"
  by pat_completeness auto
termination
  by (relation "measure (\<lambda>(stay, base, sz). sz)") auto

declare bisect.simps [simp del]

definition partition_point :: "('a \<Rightarrow> bool) \<Rightarrow> 'a list \<Rightarrow> nat" where
  "partition_point P xs =
     (if xs = [] then 0
      else
        let base = bisect (\<lambda>i. \<not> P (xs ! i)) 0 (length xs)
        in if P (xs ! base) then base + 1 else base)"

definition binary_search_by_key :: "('k :: linorder) \<Rightarrow> ('a \<Rightarrow> 'k) \<Rightarrow> 'a list \<Rightarrow> nat option" where
  "binary_search_by_key b f xs =
     (if xs = [] then None
      else
        let base = bisect (\<lambda>i. b < f (xs ! i)) 0 (length xs)
        in if f (xs ! base) = b then Some base else None)"

text \<open>
  When the indices to stay before are those from \<open>n\<close> on, the loop ends at the last index
  before \<open>n\<close> of the range it starts with, or at the start of the range.
\<close>

lemma bisect_ends:
  assumes stay: "\<And>i. stay i \<longleftrightarrow> n \<le> i"
  shows "base < n \<or> base = 0 \<Longrightarrow> n \<le> base + sz \<Longrightarrow> 0 < sz \<Longrightarrow> bisect stay base sz = n - 1"
proof (induction sz arbitrary: base rule: less_induct)
  case (less sz)
  show ?case
  proof (cases "1 < sz")
    case True
    have "bisect stay (if n \<le> base + sz div 2 then base else base + sz div 2) (sz - sz div 2) = n - 1"
      using less.prems True by (intro less.IH) auto
    then show ?thesis
      using True by (subst bisect.simps) (simp add: stay Let_def)
  next
    case False
    then have "sz = 1" using less.prems by simp
    then show ?thesis using less.prems by (simp add: bisect.simps [of stay base]) linarith
  qed
qed

text \<open>The loop only looks at indices inside its range.\<close>

lemma bisect_cong:
  "(\<And>i. i < base + sz \<Longrightarrow> stay i = stay' i) \<Longrightarrow> bisect stay base sz = bisect stay' base sz"
proof (induction sz arbitrary: base rule: less_induct)
  case (less sz)
  show ?case
  proof (cases "1 < sz")
    case True
    have "bisect stay b (sz - sz div 2) = bisect stay' b (sz - sz div 2)"
      if "b + (sz - sz div 2) \<le> base + sz" for b
      using True that by (intro less.IH less.prems) auto
    then show ?thesis
      using True less.prems [of "base + sz div 2"]
      by (subst (1 2) bisect.simps) (simp add: Let_def)
  next
    case False
    then show ?thesis by (simp add: bisect.simps [of _ base])
  qed
qed

lemma bisect_prefix:
  assumes "\<And>i. i < length xs \<Longrightarrow> P (xs ! i) \<longleftrightarrow> i < n" "n \<le> length xs" "xs \<noteq> []"
  shows "bisect (\<lambda>i. \<not> P (xs ! i)) 0 (length xs) = n - 1"
proof -
  have "bisect (\<lambda>i. \<not> P (xs ! i)) 0 (length xs) = bisect (\<lambda>i. n \<le> i) 0 (length xs)"
    using assms(1) by (intro bisect_cong) (auto simp: not_less)
  also have "\<dots> = n - 1" using assms(2,3) by (intro bisect_ends) auto
  finally show ?thesis .
qed

subsection \<open>What the searches find\<close>

lemma partition_point_eq:
  assumes "\<And>i. i < length xs \<Longrightarrow> P (xs ! i) \<longleftrightarrow> i < n" "n \<le> length xs"
  shows "partition_point P xs = n"
proof (cases "xs = []")
  case False
  moreover have "n - 1 < length xs" using False assms(2) by (cases xs) auto
  ultimately show ?thesis
    using assms(1) [of "n - 1"] by (cases n) (simp_all add: partition_point_def bisect_prefix [OF assms] Let_def)
qed (use assms(2) in \<open>simp add: partition_point_def\<close>)

text \<open>A predicate that the list satisfies first and then no more, as on ordered lists.\<close>

lemma partition_point_sorted:
  assumes "sorted_wrt (\<lambda>x y. P y \<longrightarrow> P x) xs"
  shows "partition_point P xs \<le> length xs"
    and "i < length xs \<Longrightarrow> P (xs ! i) \<longleftrightarrow> i < partition_point P xs"
proof -
  define n where "n = length (takeWhile P xs)"
  have "P (xs ! i) \<longleftrightarrow> i < n" if "i < length xs" for i
  proof
    assume "P (xs ! i)"
    then have "\<forall>j \<le> i. P (xs ! j)"
      using assms that by (auto simp: sorted_wrt_iff_nth_less le_less)
    then have "\<forall>x \<in> set (take (Suc i) xs). P x" by (auto simp: in_set_conv_nth less_Suc_eq_le)
    then have "takeWhile P xs = take (Suc i) xs @ takeWhile P (drop (Suc i) xs)"
      using takeWhile_append2 [of "take (Suc i) xs" P "drop (Suc i) xs"] by simp
    then have "Suc i \<le> length (takeWhile P xs)" using that by simp
    then show "i < n" by (simp add: n_def)
  next
    assume "i < n"
    then show "P (xs ! i)"
      using nth_mem [of i "takeWhile P xs"] by (simp add: n_def takeWhile_nth) (blast dest: set_takeWhileD)
  qed
  moreover have "n \<le> length xs" by (simp add: n_def length_takeWhile_le)
  ultimately have "partition_point P xs = n" "\<And>i. i < length xs \<Longrightarrow> P (xs ! i) \<longleftrightarrow> i < n" "n \<le> length xs"
    using partition_point_eq by blast+
  then show "partition_point P xs \<le> length xs"
    and "i < length xs \<Longrightarrow> P (xs ! i) \<longleftrightarrow> i < partition_point P xs" by simp_all
qed

text \<open>On strictly increasing keys, the binary search finds the element with the key.\<close>

lemma binary_search_by_key_iff:
  assumes "sorted_wrt (<) (map f xs)"
  shows "binary_search_by_key b f xs = Some i \<longleftrightarrow> i < length xs \<and> f (xs ! i) = b"
proof (cases "xs = []")
  case False
  have mono: "f (xs ! i) < f (xs ! j)" if "i < j" "j < length xs" for i j
    using sorted_wrt_nth_less [OF assms, of i j] that by simp
  have "sorted_wrt (\<lambda>x y. f y \<le> b \<longrightarrow> f x \<le> b) xs"
    unfolding sorted_wrt_iff_nth_less using mono by (meson less_imp_le order_trans)
  from partition_point_sorted [OF this] obtain n where
    n: "n \<le> length xs" "\<And>i. i < length xs \<Longrightarrow> f (xs ! i) \<le> b \<longleftrightarrow> i < n" by blast
  have base: "bisect (\<lambda>i. b < f (xs ! i)) 0 (length xs) = n - 1"
    using bisect_prefix [of xs "\<lambda>x. f x \<le> b" n] n False by (simp add: not_le)
  have "i = n - 1" if "i < length xs" "f (xs ! i) = b" for i
  proof -
    have "i < n" using n(2) that by force
    moreover have "f (xs ! (n - 1)) \<le> b" if "i < n"
      using n(1) n(2) [of "n - 1"] that by simp
    moreover have "f (xs ! i) < f (xs ! (n - 1))" if "i < n - 1"
      using mono [OF that] n(1) that by simp
    ultimately have "i < n" "\<not> i < n - 1" using \<open>f (xs ! i) = b\<close> by (force, force)
    then show ?thesis by linarith
  qed
  moreover have "n - 1 < length xs" using n(1) False by (cases xs) auto
  moreover have "binary_search_by_key b f xs = (if f (xs ! (n - 1)) = b then Some (n - 1) else None)"
    unfolding binary_search_by_key_def base Let_def using False by (rule if_not_P)
  ultimately show ?thesis by (metis option.distinct(1) option.inject)
qed (simp add: binary_search_by_key_def)

end
