(* ===== verification/EditorShape.thy ===== *)
theory EditorShape
  imports Document TextEdit Slices
begin

text \<open>
  The transcript editor of \<open>crates/harness_editor\<close>: a buffer with the segments of the items it
  shows. \<open>decorate\<close> takes over the segments of a document that it can trust, and
  \<open>apply_item_projections\<close> brings buffer and segments up to date for a few changed and appended
  items without building the document again. Anchors, blocks, folds and highlights of the editor
  widget are platform state and left out; so is the refresh of the viewport at the end of an
  operation, and the dirty flags are those that this refresh is given, which paints and clears
  them. A \<open>false\<close> of the source is the value \<open>False\<close> or, inside
  a loop, \<open>Some None\<close>; a panic is \<open>None\<close>.
\<close>

subsection \<open>State\<close>

text \<open>The active match is the range of offsets that its two anchors were made from.\<close>

record TranscriptSearchState =
  sr_query :: string
  sr_backwards :: bool
  sr_case_sensitive :: bool
  sr_whole_word :: bool
  sr_active_match :: "(nat \<times> nat) option"
  sr_highlights_dirty :: bool

datatype PendingTailIntent = DirectScroll | Selection bool

text \<open>The requests for an autoscroll to the tail are counted, in the place of the widget.\<close>

record TranscriptEditor =
  te_text :: string
  te_segments :: "TranscriptDocumentSegment list"
  te_header_texts :: "string list"
  te_model_item_count :: nat
  te_collapsed_items :: "string set"
  te_diff_dirty :: bool
  te_semantic_dirty :: bool
  te_search :: TranscriptSearchState
  te_follow_tail :: bool
  te_pending_tail_intent :: "PendingTailIntent option"
  te_tail_requests :: nat

definition default_search :: TranscriptSearchState where
  "default_search = \<lparr>sr_query = [], sr_backwards = False, sr_case_sensitive = False,
     sr_whole_word = False, sr_active_match = None, sr_highlights_dirty = False\<rparr>"

definition new_editor :: TranscriptEditor where
  "new_editor = \<lparr>te_text = [], te_segments = [], te_header_texts = [], te_model_item_count = 0,
     te_collapsed_items = {}, te_diff_dirty = True, te_semantic_dirty = True,
     te_search = default_search, te_follow_tail = False, te_pending_tail_intent = None,
     te_tail_requests = 0\<rparr>"

subsection \<open>What is trusted\<close>

definition MAX_SEMANTIC_SPANS_PER_SEGMENT :: nat where
  "MAX_SEMANTIC_SPANS_PER_SEGMENT = 2048"

definition semantic_spans_are_valid ::
  "TranscriptSemanticSpan list \<Rightarrow> nat \<times> nat \<Rightarrow> string \<Rightarrow> bool" where
  "semantic_spans_are_valid spans body_range txt =
     (length spans \<le> MAX_SEMANTIC_SPANS_PER_SEGMENT \<and>
      list_all (\<lambda>span. fst body_range \<le> span_start span \<and> span_start span < span_end span \<and>
        span_end span \<le> snd body_range \<and>
        char_boundary txt (span_start span) \<and> char_boundary txt (span_end span)) spans \<and>
      successively (\<lambda>left right. span_key left \<le> span_key right) spans)"

definition projection_has_valid_relative_ranges :: "TranscriptItemProjection \<Rightarrow> bool" where
  "projection_has_valid_relative_ranges p =
     (let txt = pj_text p; seg = pj_segment p; (hs, he) = seg_header seg; (bs, be) = seg_body seg
      in seg_whole seg = (0, length txt) \<and>
         hs \<le> he \<and> he \<le> length txt \<and> char_boundary txt hs \<and> char_boundary txt he \<and>
         bs \<le> be \<and> be \<le> length txt \<and> char_boundary txt bs \<and> char_boundary txt be \<and>
         he \<le> bs \<and> semantic_spans_are_valid (seg_spans seg) (seg_body seg) txt)"

definition segment_is_valid :: "string \<Rightarrow> TranscriptDocumentSegment \<Rightarrow> bool" where
  "segment_is_valid txt seg =
     (let (ws, we) = seg_whole seg; (hs, he) = seg_header seg; (bs, be) = seg_body seg
      in ws < we \<and> hs = ws \<and> hs \<le> he \<and> he \<le> bs \<and> bs \<le> be \<and> be \<le> we \<and> we \<le> length txt \<and>
         list_all (char_boundary txt) [ws, we, hs, he, bs, be] \<and>
         semantic_spans_are_valid (seg_spans seg) (seg_body seg) txt)"

text \<open>The loop over the segments, with the index, row and end of the one before and the keys so far.\<close>

fun segments_are_valid ::
  "string \<Rightarrow> row option list \<Rightarrow> nat option \<Rightarrow> row option \<Rightarrow> nat \<Rightarrow> string set \<Rightarrow>
   TranscriptDocumentSegment list \<Rightarrow> bool" where
  "segments_are_valid txt rows previous_index previous_row previous_end keys [] = True"
| "segments_are_valid txt rows previous_index previous_row previous_end keys (seg # segs) =
     (case Option.bind (get_at rows (seg_item_index seg)) id of
        None \<Rightarrow> False
      | Some row \<Rightarrow>
          \<not> (case previous_index of Some p \<Rightarrow> p \<ge> seg_item_index seg | None \<Rightarrow> False) \<and>
          \<not> (case previous_row of Some p \<Rightarrow> p \<ge> row | None \<Rightarrow> False) \<and>
          \<not> fst (seg_whole seg) < previous_end \<and>
          seg_item_key seg \<notin> keys \<and>
          segment_is_valid txt seg \<and>
          segments_are_valid txt rows (Some (seg_item_index seg)) (Some row) (snd (seg_whole seg))
            (insert (seg_item_key seg) keys) segs)"

definition document_has_valid_segment_ranges :: "TranscriptDocument \<Rightarrow> bool" where
  "document_has_valid_segment_ranges doc =
     (length (filter (\<lambda>row. row \<noteq> None) (doc_rows doc)) = length (doc_segments doc) \<and>
      segments_are_valid (doc_text doc) (doc_rows doc) None None 0 {} (doc_segments doc))"

subsection \<open>Offsets\<close>

definition checked_sub :: "nat \<Rightarrow> nat \<Rightarrow> nat option" where
  "checked_sub a b = (if b \<le> a then Some (a - b) else None)"

definition checked_add_signed :: "nat \<Rightarrow> int \<Rightarrow> nat option" where
  "checked_add_signed n d = (if int n + d < 0 then None else Some (nat (int n + d)))"

definition shift_range :: "nat \<times> nat \<Rightarrow> int \<Rightarrow> (nat \<times> nat) option" where
  "shift_range r delta =
     do { start \<leftarrow> checked_add_signed (fst r) delta;
          finish \<leftarrow> checked_add_signed (snd r) delta;
          Some (start, finish) }"

definition shift_span :: "int \<Rightarrow> TranscriptSemanticSpan \<Rightarrow> TranscriptSemanticSpan option" where
  "shift_span delta span =
     map_option (\<lambda>(a, b). span\<lparr>span_start := a, span_end := b\<rparr>)
       (shift_range (span_start span, span_end span) delta)"

definition shift_later ::
  "int \<Rightarrow> TranscriptDocumentSegment \<Rightarrow> TranscriptDocumentSegment option" where
  "shift_later delta seg =
     do { whole \<leftarrow> shift_range (seg_whole seg) delta;
          header \<leftarrow> shift_range (seg_header seg) delta;
          body \<leftarrow> shift_range (seg_body seg) delta;
          spans \<leftarrow> those (map (shift_span delta) (seg_spans seg));
          Some (seg\<lparr>seg_whole := whole, seg_header := header, seg_body := body, seg_spans := spans\<rparr>) }"

definition apply_projected_segment_shape ::
  "TranscriptDocumentSegment list \<Rightarrow> nat \<Rightarrow> TranscriptDocumentSegment \<Rightarrow>
   TranscriptDocumentSegment list option option" where
  "apply_projected_segment_shape segments segment_position projected =
     (case get_at segments segment_position of
        None \<Rightarrow> Some None
      | Some current \<Rightarrow>
          do { current_body_offset \<leftarrow> checked_sub (fst (seg_body current)) (fst (seg_whole current));
               projected_body_offset \<leftarrow>
                 checked_sub (fst (seg_body projected)) (fst (seg_whole projected));
               if current_body_offset \<noteq> projected_body_offset then Some None
               else
                 let old_whole_len = snd (seg_whole current) - fst (seg_whole current);
                     new_whole_len = snd (seg_whole projected) - fst (seg_whole projected);
                     delta = int new_whole_len - int old_whole_len;
                     body_start = fst (seg_body current);
                     whole_start = fst (seg_whole current);
                     current' = current\<lparr>
                       seg_body := (body_start,
                         body_start + (snd (seg_body projected) - fst (seg_body projected))),
                       seg_whole := (whole_start, whole_start + new_whole_len),
                       seg_spans := map (\<lambda>span. shifted_span span whole_start) (seg_spans projected)\<rparr>
                 in Some (map_option (\<lambda>later. take segment_position segments @ current' # later)
                      (those (map (shift_later delta) (drop (Suc segment_position) segments)))) })"

subsection \<open>The buffer\<close>

text \<open>
  What \<open>Buffer::edit\<close> promises for one edit: the range is replaced by the text with its line
  endings normalised. A range that is not on character boundaries of the text panics.
\<close>

definition buffer_edit :: "(nat \<times> nat) \<times> string \<Rightarrow> string \<Rightarrow> string option" where
  "buffer_edit e txt =
     (case e of ((a, b), new) \<Rightarrow>
        if a \<le> b \<and> char_boundary txt a \<and> char_boundary txt b
        then Some (take a txt @ normalize_buffer_line_endings new @ drop b txt) else None)"

fun buffer_edits :: "((nat \<times> nat) \<times> string) list \<Rightarrow> string \<Rightarrow> string option" where
  "buffer_edits [] txt = Some txt"
| "buffer_edits (e # es) txt = do { txt \<leftarrow> buffer_edit e txt; buffer_edits es txt }"

definition should_request_tail_autoscroll :: "bool \<Rightarrow> bool \<Rightarrow> bool" where
  "should_request_tail_autoscroll follow_tail content_changed = (follow_tail \<and> content_changed)"

definition request_tail_autoscroll :: "TranscriptEditor \<Rightarrow> TranscriptEditor" where
  "request_tail_autoscroll ed = ed\<lparr>te_tail_requests := te_tail_requests ed + 1\<rparr>"

definition changes_text :: "(nat \<times> nat) \<times> string \<Rightarrow> bool" where
  "changes_text e = (case e of ((a, b), new) \<Rightarrow> a < b \<or> new \<noteq> [])"

definition mark_search_dirty :: "bool \<Rightarrow> TranscriptEditor \<Rightarrow> TranscriptEditor" where
  "mark_search_dirty changed ed =
     ed\<lparr>te_search := (te_search ed)\<lparr>sr_highlights_dirty := sr_highlights_dirty (te_search ed) \<or> changed\<rparr>\<rparr>"

definition edit_transcript ::
  "(nat \<times> nat) \<times> string \<Rightarrow> TranscriptEditor \<Rightarrow> TranscriptEditor option" where
  "edit_transcript e ed =
     do { txt \<leftarrow> buffer_edit e (te_text ed);
          let ed = mark_search_dirty True (ed\<lparr>te_text := txt\<rparr>);
          Some (if should_request_tail_autoscroll (te_follow_tail ed) (changes_text e)
                then request_tail_autoscroll ed else ed) }"

subsection \<open>Full and incremental updates\<close>

definition decorate :: "TranscriptDocument \<Rightarrow> TranscriptEditor \<Rightarrow> (bool \<times> TranscriptEditor) option" where
  "decorate doc ed =
     (if \<not> document_has_valid_segment_ranges doc then
        Some (False, mark_search_dirty True
          (ed\<lparr>te_segments := [], te_header_texts := [], te_collapsed_items := {},
              te_model_item_count := length (doc_rows doc),
              te_diff_dirty := False, te_semantic_dirty := False\<rparr>))
      else
        do { headers \<leftarrow> those (map (\<lambda>seg. str_slice (doc_text doc) (fst (seg_header seg)) (snd (seg_header seg)))
               (doc_segments doc));
             Some (True, mark_search_dirty True
               (ed\<lparr>te_segments := doc_segments doc,
                   te_collapsed_items :=
                     {key \<in> te_collapsed_items ed. \<exists>seg \<in> set (doc_segments doc). seg_item_key seg = key},
                   te_header_texts := headers, te_model_item_count := length (doc_rows doc),
                   te_diff_dirty := True, te_semantic_dirty := True\<rparr>)) })"

text \<open>One existing item: \<open>None\<close> refuses the update, \<open>Some None\<close> skips an item that is not shown.\<close>

definition check_update ::
  "TranscriptEditor \<Rightarrow> nat \<times> TranscriptItemProjection option \<Rightarrow>
   (nat \<times> TranscriptItemProjection) option option" where
  "check_update ed u =
     (case u of (item_index, projection) \<Rightarrow>
        if item_index \<ge> te_model_item_count ed then None
        else case (binary_search_by_key item_index seg_item_index (te_segments ed), projection) of
          (None, None) \<Rightarrow> Some None
        | (Some segment_position, Some p) \<Rightarrow>
            let current = te_segments ed ! segment_position
            in if \<not> projection_has_valid_relative_ranges p \<or>
                  seg_item_index (pj_segment p) \<noteq> item_index \<or>
                  seg_item_key current \<noteq> seg_item_key (pj_segment p) \<or>
                  seg_kind current \<noteq> seg_kind (pj_segment p) \<or>
                  header_text p \<noteq> Some (te_header_texts ed ! segment_position)
               then None else Some (Some (segment_position, p))
        | _ \<Rightarrow> None)"

fun check_updates ::
  "TranscriptEditor \<Rightarrow> (nat \<times> TranscriptItemProjection option) list \<Rightarrow>
   (nat \<times> TranscriptItemProjection) list option" where
  "check_updates ed [] = Some []"
| "check_updates ed (u # us) =
     do { x \<leftarrow> check_update ed u;
          xs \<leftarrow> check_updates ed us;
          Some (case x of None \<Rightarrow> xs | Some y \<Rightarrow> y # xs) }"

definition descending ::
  "(nat \<times> TranscriptItemProjection) list \<Rightarrow> (nat \<times> TranscriptItemProjection) list" where
  "descending updates = rev (sort_key fst updates)"

fun check_appended ::
  "TranscriptEditor \<Rightarrow> nat \<Rightarrow> TranscriptItemProjection list \<Rightarrow> TranscriptItemProjection option list \<Rightarrow>
   TranscriptItemProjection list option" where
  "check_appended ed item_index accepted [] = Some accepted"
| "check_appended ed item_index accepted (None # ps) =
     check_appended ed (item_index + 1) accepted ps"
| "check_appended ed item_index accepted (Some p # ps) =
     (if \<not> projection_has_valid_relative_ranges p \<or>
         seg_item_index (pj_segment p) \<noteq> item_index \<or>
         list_ex (\<lambda>seg. seg_item_key seg = seg_item_key (pj_segment p)) (te_segments ed) \<or>
         list_ex (\<lambda>q. seg_item_key (pj_segment q) = seg_item_key (pj_segment p)) accepted
      then None
      else check_appended ed (item_index + 1) (accepted @ [p]) ps)"

definition pending_edit ::
  "TranscriptEditor \<Rightarrow> nat \<times> TranscriptItemProjection \<Rightarrow> ((nat \<times> nat) \<times> string) option" where
  "pending_edit ed u =
     (case u of (segment_position, p) \<Rightarrow>
        let current = te_segments ed ! segment_position; body_start = fst (seg_body current)
        in do { old_tail \<leftarrow> str_slice (te_text ed) body_start (snd (seg_whole current));
                new_tail \<leftarrow> str_slice (pj_text p) (fst (seg_body (pj_segment p)))
                  (snd (seg_whole (pj_segment p)));
                (local_range, replacement) \<leftarrow> minimal_text_edit old_tail new_tail;
                Some ((body_start + fst local_range, body_start + snd local_range), replacement) })"

fun apply_shapes ::
  "(nat \<times> TranscriptItemProjection) list \<Rightarrow> TranscriptDocumentSegment list \<Rightarrow>
   TranscriptDocumentSegment list option option" where
  "apply_shapes [] segments = Some (Some segments)"
| "apply_shapes ((segment_position, p) # us) segments =
     do { next \<leftarrow> apply_projected_segment_shape segments segment_position (pj_segment p);
          case next of None \<Rightarrow> Some None | Some segments \<Rightarrow> apply_shapes us segments }"

fun append_projections ::
  "nat \<Rightarrow> TranscriptItemProjection list \<Rightarrow>
   (TranscriptDocumentSegment list \<times> string list \<times> string) option" where
  "append_projections next_offset [] = Some ([], [], [])"
| "append_projections next_offset (p # ps) =
     do { header \<leftarrow> header_text p;
          (segments, headers, txt) \<leftarrow> append_projections (next_offset + length (pj_text p)) ps;
          Some (shifted_segment (pj_segment p) next_offset # segments, header # headers,
                pj_text p @ txt) }"

definition segments_end :: "TranscriptDocumentSegment list \<Rightarrow> nat" where
  "segments_end segments = (if segments = [] then 0 else snd (seg_whole (last segments)))"

definition apply_item_projections ::
  "nat \<Rightarrow> (nat \<times> TranscriptItemProjection option) list \<Rightarrow> TranscriptItemProjection option list \<Rightarrow>
   TranscriptEditor \<Rightarrow> (bool \<times> TranscriptEditor) option" where
  "apply_item_projections old_model_item_count existing_updates appended ed =
     (if te_model_item_count ed \<noteq> old_model_item_count \<or>
         length (te_header_texts ed) \<noteq> length (te_segments ed) \<or>
         length (te_text ed) \<noteq> segments_end (te_segments ed)
      then Some (False, ed)
      else case check_updates ed existing_updates of None \<Rightarrow> Some (False, ed) | Some updates \<Rightarrow>
      let updates = descending updates
      in if \<not> successively (\<lambda>left right. fst left \<noteq> fst right) updates then Some (False, ed)
      else case check_appended ed old_model_item_count [] appended of None \<Rightarrow> Some (False, ed) | Some accepted \<Rightarrow>
      let diff_bodies_changed =
            list_ex (\<lambda>(pos, p). seg_kind (te_segments ed ! pos) = Diff) updates \<or>
            list_ex (\<lambda>p. seg_kind (pj_segment p) = Diff) accepted;
          semantic_bodies_changed =
            updates \<noteq> [] \<or> list_ex (\<lambda>p. seg_spans (pj_segment p) \<noteq> []) accepted
      in do {
        pending_edits \<leftarrow> those (map (pending_edit ed) updates);
        next \<leftarrow> apply_shapes updates (te_segments ed);
        case next of
          None \<Rightarrow> Some (False, ed)
        | Some next_segments \<Rightarrow>
            do { (appended_segments, appended_headers, append_text) \<leftarrow>
                   append_projections (segments_end next_segments) accepted;
                 let search_text_changed = list_ex changes_text pending_edits \<or> append_text \<noteq> [];
                 txt \<leftarrow> buffer_edits pending_edits (te_text ed);
                 txt \<leftarrow> (if append_text \<noteq> [] then buffer_edit ((length txt, length txt), append_text) txt
                         else Some txt);
                 let ed = mark_search_dirty search_text_changed
                   (ed\<lparr>te_text := txt,
                       te_segments := next_segments @ appended_segments,
                       te_header_texts := te_header_texts ed @ appended_headers,
                       te_model_item_count := old_model_item_count + length appended,
                       te_diff_dirty := te_diff_dirty ed \<or> diff_bodies_changed,
                       te_semantic_dirty := te_semantic_dirty ed \<or> semantic_bodies_changed\<rparr>);
                 Some (True,
                   if should_request_tail_autoscroll (te_follow_tail ed) search_text_changed
                   then request_tail_autoscroll ed else ed) } })"

subsection \<open>Segments of a row of projections\<close>

text \<open>The segments of projections that stand one after another.\<close>

fun layout :: "nat \<Rightarrow> (nat \<times> TranscriptItemProjection) list \<Rightarrow> TranscriptDocumentSegment list" where
  "layout offset [] = []"
| "layout offset ((i, p) # ps) =
     shifted_segment (pj_segment p) offset # layout (offset + length (pj_text p)) ps"

lemma length_layout [simp]: "length (layout offset ps) = length ps"
  by (induction offset ps rule: layout.induct) auto

lemma texts_append [simp]: "texts (a @ b) = texts a @ texts b"
  by (simp add: texts_def)

lemma layout_append: "layout offset (a @ b) = layout offset a @ layout (offset + length (texts a)) b"
  by (induction offset a rule: layout.induct) (auto simp: add.assoc)

lemma nth_layout:
  "k < length ps \<Longrightarrow> layout offset ps ! k =
     shifted_segment (pj_segment (snd (ps ! k))) (offset + length (texts (take k ps)))"
proof (induction offset ps arbitrary: k rule: layout.induct)
  case (2 offset i p ps)
  then show ?case by (cases k) (auto simp: add.assoc)
qed simp

text \<open>A projection as \<open>project_transcript_item\<close> makes it, with line feeds only.\<close>

definition clean_projection :: "TranscriptItemProjection \<Rightarrow> bool" where
  "clean_projection p =
     (let txt = pj_text p; seg = pj_segment p; (hs, he) = seg_header seg; (bs, be) = seg_body seg
      in seg_whole seg = (0, length txt) \<and> hs = 0 \<and> he \<le> bs \<and> bs \<le> be \<and> be \<le> length txt \<and>
         list_all (char_boundary txt) [he, bs, be] \<and> utf8 txt \<and> cr \<notin> set txt \<and>
         take bs txt = take he txt @ replicate (bs - he) nl)"

lemma shift_range_shifted:
  "0 \<le> int offset + d \<Longrightarrow>
     shift_range (shifted_range r offset) d = Some (shifted_range r (nat (int offset + d)))"
  by (auto simp: shift_range_def shifted_range_def checked_add_signed_def)

lemma those_map_Some: "(\<And>x. x \<in> set xs \<Longrightarrow> f x = Some (g x)) \<Longrightarrow> those (map f xs) = Some (map g xs)"
  by (induction xs) auto

lemma shift_span_shifted:
  "0 \<le> int offset + d \<Longrightarrow> shift_span d (shifted_span s offset) = Some (shifted_span s (nat (int offset + d)))"
  using shift_range_shifted [of offset d "(span_start s, span_end s)"]
  by (simp add: shift_span_def shifted_span_def shifted_range_def)

lemma shift_later_shifted:
  assumes "0 \<le> int offset + d"
  shows "shift_later d (shifted_segment seg offset) = Some (shifted_segment seg (nat (int offset + d)))"
proof -
  have "those (map (shift_span d) (map (\<lambda>s. shifted_span s offset) (seg_spans seg))) =
      Some (map (\<lambda>s. shifted_span s (nat (int offset + d))) (seg_spans seg))"
    using those_map_Some [of "seg_spans seg" "shift_span d \<circ> (\<lambda>s. shifted_span s offset)"
        "\<lambda>s. shifted_span s (nat (int offset + d))"] shift_span_shifted [OF assms] by simp
  then show ?thesis
    using assms by (simp add: shift_later_def shifted_segment_def shift_range_shifted)
qed

lemma shift_layout:
  "0 \<le> int offset + d \<Longrightarrow>
     those (map (shift_later d) (layout offset ps)) = Some (layout (nat (int offset + d)) ps)"
proof (induction offset ps rule: layout.induct)
  case (2 offset i p ps)
  have "nat (int (offset + length (pj_text p)) + d) = nat (int offset + d) + length (pj_text p)"
    using "2.prems" by simp
  then show ?case using 2 by (simp add: shift_later_shifted)
qed simp

subsection \<open>One item\<close>

text \<open>What stays of an item that is projected anew: its identity and everything before its body.\<close>

definition same_frame :: "TranscriptItemProjection \<Rightarrow> TranscriptItemProjection \<Rightarrow> bool" where
  "same_frame p q =
     (seg_item_index (pj_segment p) = seg_item_index (pj_segment q) \<and>
      seg_item_key (pj_segment p) = seg_item_key (pj_segment q) \<and>
      seg_kind (pj_segment p) = seg_kind (pj_segment q) \<and>
      header_text p = header_text q)"

lemma clean_header_text: "clean_projection p \<Longrightarrow> header_text p = Some (take (snd (seg_header (pj_segment p))) (pj_text p))"
  by (auto simp: clean_projection_def header_text_def str_slice_Some Let_def split: prod.splits)

lemma same_frame_header:
  assumes "clean_projection p" "clean_projection q" "same_frame p q"
  shows "seg_header (pj_segment p) = seg_header (pj_segment q)"
    and "take (snd (seg_header (pj_segment p))) (pj_text p) = take (snd (seg_header (pj_segment q))) (pj_text q)"
proof -
  show t: "take (snd (seg_header (pj_segment p))) (pj_text p) = take (snd (seg_header (pj_segment q))) (pj_text q)"
    using assms by (simp add: same_frame_def clean_header_text)
  have "min (length (pj_text p)) (snd (seg_header (pj_segment p))) = min (length (pj_text q)) (snd (seg_header (pj_segment q)))"
    using arg_cong [OF t, of length] by simp
  then show "seg_header (pj_segment p) = seg_header (pj_segment q)"
    using assms(1,2) by (auto simp: clean_projection_def Let_def min_def split: prod.splits if_splits)
qed

lemma apply_shape_layout:
  assumes "clean_projection q" "clean_projection p" "same_frame q p"
  shows "apply_projected_segment_shape (layout offset (a @ (i, q) # b)) (length a) (pj_segment p) =
    (if fst (seg_body (pj_segment q)) \<noteq> fst (seg_body (pj_segment p)) then Some None
     else Some (Some (layout offset (a @ (i, p) # b))))"
proof -
  let ?o = "offset + length (texts a)" and ?d = "int (length (pj_text p)) - int (length (pj_text q))"
  have l: "layout offset (a @ (i, r) # b) =
      layout offset a @ shifted_segment (pj_segment r) ?o # layout (?o + length (pj_text r)) b" for r
    by (simp add: layout_append)
  have "nat (int (?o + length (pj_text q)) + ?d) = ?o + length (pj_text p)" by simp
  then have s: "those (map (shift_later ?d) (layout (?o + length (pj_text q)) b)) =
      Some (layout (?o + length (pj_text p)) b)"
    using shift_layout [of "?o + length (pj_text q)" ?d b] by simp
  show ?thesis
    using assms same_frame_header [OF assms] s
    unfolding l apply_projected_segment_shape_def
    by (auto simp: get_at_def nth_append checked_sub_def shifted_segment_def shifted_range_def Let_def
        clean_projection_def same_frame_def split: prod.splits)
qed

subsection \<open>The text of one item\<close>

lemma normalize_clean: "cr \<notin> set t \<Longrightarrow> normalize_buffer_line_endings t = t"
  by (simp add: normalize_buffer_line_endings_def)

lemma set_str_slice: "str_slice s a b = Some t \<Longrightarrow> set t \<subseteq> set s"
  by (auto simp: str_slice_Some dest!: in_set_takeD in_set_dropD)

text \<open>The minimal edit of a part, moved to where the part stands, replaces that part.\<close>

lemma buffer_edit_part:
  assumes u: "utf8 a" "utf8 old" "utf8 b" and cr: "cr \<notin> set new"
    and e: "minimal_text_edit old new = Some ((x, y), t)"
  shows "buffer_edit ((length a + x, length a + y), t) (a @ old @ b) = Some (a @ new @ b)"
proof -
  from minimal_text_edit_spec [of old new] e have f: "x \<le> y" "y \<le> length old" "char_boundary old x"
    "char_boundary old y" "str_slice new x (x + length t) = Some t" "apply_text_edit old ((x, y), t) = new"
    by auto
  have "char_boundary (a @ old @ b) (length a + i)" if "char_boundary old i" for i
    using char_boundary_prepend [OF u(1)] char_boundary_grow [OF u(3) that] u by (simp add: utf8_append)
  moreover have "normalize_buffer_line_endings t = t"
    using set_str_slice [OF f(5)] cr by (intro normalize_clean) auto
  ultimately show ?thesis
    using f by (simp add: buffer_edit_def apply_text_edit_def)
qed

definition clean_row :: "(nat \<times> TranscriptItemProjection) list \<Rightarrow> bool" where
  "clean_row qs \<longleftrightarrow> (\<forall>(i, q) \<in> set qs. clean_projection q)"

lemma clean_row_simps [simp]:
  "clean_row []" "clean_row (x # qs) \<longleftrightarrow> clean_projection (snd x) \<and> clean_row qs"
  "clean_row (a @ b) \<longleftrightarrow> clean_row a \<and> clean_row b"
  by (auto simp: clean_row_def)

lemma clean_texts: "clean_row qs \<Longrightarrow> utf8 (texts qs)"
  by (induction qs) (auto simp: clean_projection_def Let_def intro!: utf8_append split: prod.splits)

lemma clean_parts:
  assumes "clean_projection p"
  defines "bs \<equiv> fst (seg_body (pj_segment p))"
  shows "utf8 (take bs (pj_text p))" "utf8 (drop bs (pj_text p))" "bs \<le> length (pj_text p)"
    "cr \<notin> set (drop bs (pj_text p))" "utf8 (pj_text p)" "char_boundary (pj_text p) bs"
proof -
  have "utf8 (pj_text p)" "char_boundary (pj_text p) bs" "bs \<le> length (pj_text p)" "cr \<notin> set (pj_text p)"
    using assms by (auto simp: clean_projection_def Let_def split: prod.splits)
  then show "utf8 (take bs (pj_text p))" "utf8 (drop bs (pj_text p))" "bs \<le> length (pj_text p)"
    "cr \<notin> set (drop bs (pj_text p))" "utf8 (pj_text p)" "char_boundary (pj_text p) bs"
    by (auto intro: utf8_take_drop dest: in_set_dropD)
qed

lemma slice_tail:
  "utf8 a \<Longrightarrow> utf8 q \<Longrightarrow> utf8 b \<Longrightarrow> char_boundary q bs \<Longrightarrow>
     str_slice (a @ q @ b) (length a + bs) (length a + length q) = Some (drop bs q)"
  using char_boundary_prepend [of a "q @ b"] char_boundary_grow [of b q] char_boundary_le [of q bs]
  by (auto simp: str_slice_Some utf8_append)

lemma pending_edit_ok:
  assumes ed: "te_segments ed = layout 0 (a @ (i, q) # b)" "te_text ed = texts (a @ (i, q) # b)"
    and clean: "clean_row a" "clean_row b" "clean_projection q" "clean_projection p" "same_frame q p"
  shows "\<exists>e. pending_edit ed (length a, p) = Some e \<and>
    (fst (seg_body (pj_segment q)) = fst (seg_body (pj_segment p)) \<longrightarrow>
      (\<forall>rest. utf8 rest \<longrightarrow>
        buffer_edit e (texts a @ pj_text q @ rest) = Some (texts a @ pj_text p @ rest)))"
proof -
  let ?bq = "fst (seg_body (pj_segment q))" and ?bp = "fst (seg_body (pj_segment p))"
  let ?old = "drop ?bq (pj_text q)" and ?new = "drop ?bp (pj_text p)"
  have seg: "te_segments ed ! length a = shifted_segment (pj_segment q) (length (texts a))"
    using nth_layout [of "length a" "a @ (i, q) # b" 0] ed(1) by simp
  have whole: "seg_whole (pj_segment q) = (0, length (pj_text q))" "seg_whole (pj_segment p) = (0, length (pj_text p))"
    using clean by (auto simp: clean_projection_def Let_def split: prod.splits)
  note u = clean_texts [OF clean(1)] clean_texts [OF clean(2)]
    and cq = clean_parts [OF clean(3)] and cp = clean_parts [OF clean(4)]
  obtain x y t where m: "minimal_text_edit ?old ?new = Some ((x, y), t)"
    using minimal_text_edit_spec [of ?old ?new] by blast
  let ?e = "((length (texts a) + ?bq + x, length (texts a) + ?bq + y), t)"
  have "pending_edit ed (length a, p) = Some ?e"
    using slice_tail [OF u(1) cq(5) u(2) cq(6)] slice_tail [of "[]" "pj_text p" "[]" ?bp] cp(5,6) m
    by (simp add: pending_edit_def seg shifted_segment_def shifted_range_def whole ed(2) Let_def add.commute [of _ "length (texts a)"])
  moreover have "buffer_edit ?e (texts a @ pj_text q @ rest) = Some (texts a @ pj_text p @ rest)"
    if eq: "?bq = ?bp" and rest: "utf8 rest" for rest
  proof -
    have "take ?bq (pj_text q) = take ?bp (pj_text p)"
      using same_frame_header [OF clean(3,4,5)] clean(3,4) eq
      by (auto simp: clean_projection_def Let_def split: prod.splits)
    then have parts: "pj_text q = take ?bq (pj_text q) @ ?old" "pj_text p = take ?bq (pj_text q) @ ?new"
      by (metis append_take_drop_id)+
    have "utf8 (texts a @ take ?bq (pj_text q))" using u(1) cq(1) by (rule utf8_append)
    from buffer_edit_part [OF this cq(2) rest cp(4) m] cq(3)
    have "buffer_edit ?e ((texts a @ take ?bq (pj_text q)) @ ?old @ rest) =
        Some ((texts a @ take ?bq (pj_text q)) @ ?new @ rest)"
      by (simp add: add.assoc min_absorb2)
    then show ?thesis using parts by (metis append.assoc)
  qed
  ultimately show ?thesis by blast
qed

subsection \<open>All updates of existing items\<close>

fun put_projection ::
  "nat \<times> TranscriptItemProjection \<Rightarrow> (nat \<times> TranscriptItemProjection) list \<Rightarrow>
   (nat \<times> TranscriptItemProjection) list" where
  "put_projection (k, p) qs = qs[k := (fst (qs ! k), p)]"

lemma put_projection_split:
  "k < length qs \<Longrightarrow> put_projection (k, p) qs = take k qs @ (fst (qs ! k), p) # drop (Suc k) qs"
  by (simp add: upd_conv_take_nth_drop)

lemma clean_row_nth: "clean_row qs \<Longrightarrow> k < length qs \<Longrightarrow> clean_projection (snd (qs ! k))"
  by (auto simp: clean_row_def dest!: nth_mem)

lemma updates_ok:
  assumes ed: "te_segments ed = layout 0 qs" "te_text ed = texts qs" and clean: "clean_row qs"
  shows "sorted_wrt (>) (map fst us) \<Longrightarrow>
    \<forall>(k, p) \<in> set us. k < m \<and> clean_projection p \<and> same_frame (snd (qs ! k)) p \<Longrightarrow>
    m \<le> length qs \<Longrightarrow> take m rs = take m qs \<Longrightarrow> clean_row rs \<Longrightarrow> m \<le> length rs \<Longrightarrow>
    \<exists>es. those (map (pending_edit ed) us) = Some es \<and>
      (apply_shapes us (layout 0 rs) = Some None \<or>
       apply_shapes us (layout 0 rs) = Some (Some (layout 0 (fold put_projection us rs))) \<and>
       buffer_edits es (texts rs) = Some (texts (fold put_projection us rs)))"
proof (induction us arbitrary: m rs)
  case (Cons u us)
  obtain k p where u: "u = (k, p)" by fastforce
  let ?i = "fst (qs ! k)" and ?q = "snd (qs ! k)"
  have k: "k < m" "k < length qs" and p: "clean_projection p" "same_frame ?q p"
    using Cons.prems(2,3) by (auto simp: u)
  have kr: "rs ! k = qs ! k" "take k rs = take k qs"
    using Cons.prems(4) k by (metis nth_take, metis min.strict_order_iff take_take)
  have qs: "qs = take k qs @ (?i, ?q) # drop (Suc k) qs"
    using id_take_nth_drop [OF k(2)] by simp
  have rs: "rs = take k qs @ (?i, ?q) # drop (Suc k) rs"
    using id_take_nth_drop [of k rs] kr k Cons.prems(6) by simp
  have put: "put_projection (k, p) rs = take k qs @ (?i, p) # drop (Suc k) rs"
    using put_projection_split [of k rs p] kr k Cons.prems(6) by simp
  have lk: "length (take k qs) = k" using k by simp
  note cq = clean_row_nth [OF clean k(2)]
  have c: "clean_row (take k qs)" "clean_row (drop (Suc k) qs)" "clean_row (drop (Suc k) rs)"
    using clean Cons.prems(5) by (auto simp: clean_row_def dest: in_set_takeD in_set_dropD)
  obtain e where e: "pending_edit ed (k, p) = Some e"
    "fst (seg_body (pj_segment ?q)) = fst (seg_body (pj_segment p)) \<Longrightarrow> utf8 rest \<Longrightarrow>
      buffer_edit e (texts (take k qs) @ pj_text ?q @ rest) = Some (texts (take k qs) @ pj_text p @ rest)" for rest
    using pending_edit_ok [of ed "take k qs" ?i ?q "drop (Suc k) qs" p] ed c cq p qs lk by metis
  have shape: "apply_projected_segment_shape (layout 0 rs) k (pj_segment p) =
    (if fst (seg_body (pj_segment ?q)) \<noteq> fst (seg_body (pj_segment p)) then Some None
     else Some (Some (layout 0 (put_projection (k, p) rs))))"
    using apply_shape_layout [OF cq p, of 0 "take k qs" ?i "drop (Suc k) rs"] lk rs put by metis
  have "\<exists>es. those (map (pending_edit ed) us) = Some es \<and>
      (apply_shapes us (layout 0 (put_projection (k, p) rs)) = Some None \<or>
       apply_shapes us (layout 0 (put_projection (k, p) rs)) =
         Some (Some (layout 0 (fold put_projection us (put_projection (k, p) rs)))) \<and>
       buffer_edits es (texts (put_projection (k, p) rs)) =
         Some (texts (fold put_projection us (put_projection (k, p) rs))))"
    using Cons.prems(1,2,3,6) k c p lk unfolding put
    by (intro Cons.IH [where m = k]) (auto simp: u)
  then obtain es where es: "those (map (pending_edit ed) us) = Some es"
    and rest: "apply_shapes us (layout 0 (put_projection (k, p) rs)) = Some None \<or>
       apply_shapes us (layout 0 (put_projection (k, p) rs)) =
         Some (Some (layout 0 (fold put_projection us (put_projection (k, p) rs)))) \<and>
       buffer_edits es (texts (put_projection (k, p) rs)) =
         Some (texts (fold put_projection us (put_projection (k, p) rs)))" by blast
  have those: "those (map (pending_edit ed) (u # us)) = Some (e # es)" by (simp add: u e(1) es)
  show ?case
  proof (cases "fst (seg_body (pj_segment ?q)) = fst (seg_body (pj_segment p))")
    case False
    then show ?thesis using those by (simp add: u shape)
  next
    case True
    have "buffer_edit e (texts rs) = Some (texts (put_projection (k, p) rs))"
      unfolding put using e(2) [OF True clean_texts [OF c(3)]] by (subst rs) (simp add: texts_def case_prod_beta)
    then show ?thesis using those rest True by (auto simp: u shape)
  qed
qed simp

subsection \<open>What the checks accept\<close>

text \<open>
  An editor shows a row of projections, each with its item's index, when its buffer is their
  texts, its segments their layout and its headers theirs.
\<close>

definition shows_row :: "TranscriptEditor \<Rightarrow> (nat \<times> TranscriptItemProjection) list \<Rightarrow> nat \<Rightarrow> bool" where
  "shows_row ed qs n \<longleftrightarrow>
     te_text ed = texts qs \<and> te_segments ed = layout 0 qs \<and>
     te_header_texts ed = map (\<lambda>q. the (header_text (snd q))) qs \<and> te_model_item_count ed = n \<and>
     clean_row qs \<and> (\<forall>(i, q) \<in> set qs. seg_item_index (pj_segment q) = i \<and> i < n) \<and>
     sorted_wrt (<) (map fst qs)"

lemma shifted_segment_fields [simp]:
  "seg_item_index (shifted_segment s k) = seg_item_index s" "seg_item_key (shifted_segment s k) = seg_item_key s"
  "seg_kind (shifted_segment s k) = seg_kind s"
  by (simp_all add: shifted_segment_def)

lemma shows_rowD:
  assumes "shows_row ed qs n" "k < length qs"
  shows "seg_item_index (te_segments ed ! k) = fst (qs ! k)" "fst (qs ! k) < n"
    "te_header_texts ed ! k = the (header_text (snd (qs ! k)))"
    "seg_item_index (pj_segment (snd (qs ! k))) = fst (qs ! k)" "clean_projection (snd (qs ! k))"
    "seg_item_key (te_segments ed ! k) = seg_item_key (pj_segment (snd (qs ! k)))"
    "seg_kind (te_segments ed ! k) = seg_kind (pj_segment (snd (qs ! k)))"
proof -
  have "seg_item_index (pj_segment (snd (qs ! k))) = fst (qs ! k) \<and> fst (qs ! k) < n"
    using assms(1) nth_mem [OF assms(2)] by (auto simp: shows_row_def case_prod_beta)
  then show "seg_item_index (te_segments ed ! k) = fst (qs ! k)" "fst (qs ! k) < n"
    "te_header_texts ed ! k = the (header_text (snd (qs ! k)))"
    "seg_item_index (pj_segment (snd (qs ! k))) = fst (qs ! k)" "clean_projection (snd (qs ! k))"
    "seg_item_key (te_segments ed ! k) = seg_item_key (pj_segment (snd (qs ! k)))"
    "seg_kind (te_segments ed ! k) = seg_kind (pj_segment (snd (qs ! k)))"
    using assms clean_row_nth [of qs k] by (simp_all add: shows_row_def nth_layout)
qed

lemma shown_position:
  assumes "shows_row ed qs n"
  shows "binary_search_by_key i seg_item_index (te_segments ed) = Some k \<longleftrightarrow> k < length qs \<and> fst (qs ! k) = i"
proof -
  have l: "length (te_segments ed) = length qs" using assms by (simp add: shows_row_def)
  have "map seg_item_index (te_segments ed) = map fst qs"
    using shows_rowD(1) [OF assms] l by (intro nth_equalityI) auto
  then have "sorted_wrt (<) (map seg_item_index (te_segments ed))" using assms by (simp add: shows_row_def)
  from binary_search_by_key_iff [OF this, of i k] show ?thesis
    using l shows_rowD(1) [OF assms, of k] by auto
qed

lemma option_eqI: "(\<And>k. x = Some k \<longleftrightarrow> y = Some k) \<Longrightarrow> x = y"
  by (metis option.exhaust)

text \<open>An update with the place its item is shown at.\<close>

definition placed ::
  "(nat \<times> TranscriptItemProjection) list \<Rightarrow> nat \<times> TranscriptItemProjection option \<Rightarrow>
   (nat \<times> TranscriptItemProjection) option" where
  "placed qs u = (case (position (\<lambda>q. fst q = fst u) qs, snd u) of (Some k, Some p) \<Rightarrow> Some (k, p) | _ \<Rightarrow> None)"

definition fitting :: "(nat \<times> TranscriptItemProjection) list \<Rightarrow> nat \<Rightarrow> nat \<times> TranscriptItemProjection option \<Rightarrow> bool" where
  "fitting qs n u \<longleftrightarrow> fst u < n \<and> (snd u = None \<longleftrightarrow> fst u \<notin> fst ` set qs) \<and>
     (\<forall>k p. placed qs u = Some (k, p) \<longrightarrow> same_frame (snd (qs ! k)) p)"

lemma position_shown:
  assumes "sorted_wrt (<) (map fst qs)"
  shows "position (\<lambda>q. fst q = i) qs = Some k \<longleftrightarrow> k < length qs \<and> fst (qs ! k) = (i :: nat)"
proof -
  have same: "j = k" if "fst (qs ! j) = fst (qs ! k)" "j < length qs" "k < length qs" for j k
    using sorted_wrt_nth_less [OF assms, of j k] sorted_wrt_nth_less [OF assms, of k j] that
    by (cases j k rule: linorder_cases) auto
  show ?thesis
  proof (cases "position (\<lambda>q. fst q = i) qs")
    case None
    then have "\<forall>q \<in> set qs. fst q \<noteq> i" by simp
    then show ?thesis unfolding None using nth_mem [of k qs] by auto
  next
    case (Some j)
    from position_Some [OF this] Some same show ?thesis by auto
  qed
qed

lemma check_update_Some:
  assumes sh: "shows_row ed qs n" and c: "\<And>p. snd u = Some p \<Longrightarrow> clean_projection p"
    and x: "check_update ed u = Some x"
  shows "x = placed qs u \<and> fitting qs n u"
proof (cases u)
  case (Pair i pr)
  have s: "sorted_wrt (<) (map fst qs)" using sh by (simp add: shows_row_def)
  have pos: "binary_search_by_key i seg_item_index (te_segments ed) = position (\<lambda>q. fst q = i) qs"
    by (rule option_eqI) (simp add: shown_position [OF sh] position_shown [OF s])
  have n: "te_model_item_count ed = n" using sh by (simp add: shows_row_def)
  show ?thesis
  proof (cases "position (\<lambda>q. fst q = i) qs")
    case None
    then have "i \<notin> fst ` set qs" by auto
    then show ?thesis
      using x by (auto simp: Pair check_update_def pos None placed_def fitting_def n simp del: position_None
          split: if_splits option.splits)
  next
    case (Some k)
    then have k: "k < length qs" "fst (qs ! k) = i" using position_shown [OF s] by auto
    note f = shows_rowD [OF sh k(1)] clean_header_text [OF shows_rowD(5) [OF sh k(1)]]
    have "i \<in> fst ` set qs" using k by force
    then show ?thesis
      using x f k
      by (auto simp: Pair check_update_def pos Some placed_def fitting_def n same_frame_def Let_def
          split: if_splits option.splits)
  qed
qed

lemma check_updates_Some:
  assumes sh: "shows_row ed qs n"
  shows "(\<And>i p. (i, Some p) \<in> set us \<Longrightarrow> clean_projection p) \<Longrightarrow> check_updates ed us = Some xs \<Longrightarrow>
    xs = filter_map (placed qs) us \<and> (\<forall>u \<in> set us. fitting qs n u)"
proof (induction us arbitrary: xs)
  case (Cons u us)
  obtain x ys where x: "check_update ed u = Some x" "check_updates ed us = Some ys"
    "xs = (case x of None \<Rightarrow> ys | Some y \<Rightarrow> y # ys)"
    using Cons.prems(2) by (auto split: bind_splits)
  moreover have "\<And>p. snd u = Some p \<Longrightarrow> clean_projection p" using Cons.prems(1) by (cases u) auto
  ultimately show ?case
    using check_update_Some [OF sh _ x(1)] Cons.IH [OF _ x(2)] Cons.prems(1) by auto
qed simp

lemma check_appended_Some:
  "check_appended ed n accepted ps = Some xs \<Longrightarrow>
     xs = accepted @ filter_map id ps \<and>
     (\<forall>p \<in> set (filter_map id ps). n \<le> seg_item_index (pj_segment p) \<and> seg_item_index (pj_segment p) < n + length ps) \<and>
     sorted_wrt (<) (map (\<lambda>p. seg_item_index (pj_segment p)) (filter_map id ps))"
proof (induction ed n accepted ps arbitrary: xs rule: check_appended.induct)
  case (2 ed n accepted ps)
  then have c: "check_appended ed (n + 1) accepted ps = Some xs" by simp
  show ?case using "2.IH" [OF c] by auto
next
  case (3 ed n accepted p ps)
  then have p: "seg_item_index (pj_segment p) = n" and c: "check_appended ed (n + 1) (accepted @ [p]) ps = Some xs"
    by (auto split: if_splits)
  from "3.IH" [OF _ c] "3.prems" show ?case by (auto simp: p Suc_le_eq split: if_splits)
qed simp

lemma descending_strict:
  assumes "successively (\<lambda>l r. fst l \<noteq> fst r) (descending us)"
  shows "sorted_wrt (>) (map fst (descending us))"
proof -
  have "sorted_wrt (\<ge>) (map fst (descending us))"
    by (simp add: descending_def rev_map [symmetric] sorted_wrt_rev)
  then have "successively (\<ge>) (map fst (descending us))" by (rule successively_if_sorted_wrt)
  then have "successively (>) (map fst (descending us))"
    using assms unfolding successively_map by (auto simp: successively_conv_nth le_neq_trans)
  then show ?thesis by (subst (asm) successively_iff_sorted_wrt_strong) auto
qed

lemma set_descending [simp]: "set (descending us) = set us"
  by (simp add: descending_def)

lemma length_fold_put [simp]: "length (fold put_projection us qs) = length qs"
proof (induction us arbitrary: qs)
  case (Cons u us)
  then show ?case by (cases u) simp
qed simp

lemma nth_put:
  "sorted_wrt (>) (map fst us) \<Longrightarrow> \<forall>(k, p) \<in> set us. k < length qs \<Longrightarrow> j < length qs \<Longrightarrow>
   fold put_projection us qs ! j = (case map_of us j of None \<Rightarrow> qs ! j | Some p \<Rightarrow> (fst (qs ! j), p))"
proof (induction us arbitrary: qs)
  case (Cons u us)
  obtain k p where u: "u = (k, p)" by fastforce
  have "map_of us k = None" using Cons.prems(1) by (auto simp: u map_of_eq_None_iff)
  then show ?case using Cons.IH [of "qs[k := (fst (qs ! k), p)]"] Cons.prems
    by (auto simp: u nth_list_update split: option.splits)
qed simp

text \<open>A shown projection, replaced when the updates have a new one for its item.\<close>

definition renewed ::
  "(nat \<times> TranscriptItemProjection option) list \<Rightarrow> nat \<times> TranscriptItemProjection \<Rightarrow>
   nat \<times> TranscriptItemProjection" where
  "renewed us q = (case map_of us (fst q) of Some (Some p) \<Rightarrow> (fst q, p) | _ \<Rightarrow> q)"

lemma fst_renewed [simp]: "fst (renewed us q) = fst q"
  by (simp add: renewed_def split: option.split)

lemma put_renewed:
  assumes s: "sorted_wrt (<) (map fst qs)" and fit: "\<forall>u \<in> set us. fitting qs n u"
    and d: "sorted_wrt (>) (map fst (descending (filter_map (placed qs) us)))"
  shows "fold put_projection (descending (filter_map (placed qs) us)) qs = map (renewed us) qs"
proof -
  let ?xs = "descending (filter_map (placed qs) us)"
  have inxs: "(k, p) \<in> set ?xs \<longleftrightarrow> k < length qs \<and> (fst (qs ! k), Some p) \<in> set us" for k p
  proof -
    have "placed qs (i, pr) = Some (k, p) \<longleftrightarrow> k < length qs \<and> fst (qs ! k) = i \<and> pr = Some p" for i pr
      using position_shown [OF s, of i k] by (auto simp: placed_def split: option.splits)
    then show ?thesis by (auto simp: set_filter_map)
  qed
  have dis: "distinct (map fst ?xs)"
    using d by (auto simp: distinct_conv_nth sorted_wrt_iff_nth_less) (metis less_irrefl linorder_neqE_nat)
  have range: "\<forall>(k, p) \<in> set ?xs. k < length qs" using inxs by blast
  have "fold put_projection ?xs qs ! k = renewed us (qs ! k)" if k: "k < length qs" for k
  proof (cases "map_of us (fst (qs ! k))")
    case None
    then have "map_of ?xs k = None"
      using inxs by (force simp: map_of_eq_None_iff)
    then show ?thesis using nth_put [OF d range k] None by (simp add: renewed_def)
  next
    case (Some pr)
    then have "(fst (qs ! k), pr) \<in> set us" by (rule map_of_SomeD)
    moreover from this fit have "pr \<noteq> None" using k by (force simp: fitting_def)
    ultimately obtain p where p: "pr = Some p" "(k, p) \<in> set ?xs" using inxs k by auto
    then have "map_of ?xs k = Some p" using dis by simp
    then show ?thesis using nth_put [OF d range k] Some p by (simp add: renewed_def)
  qed
  moreover have "length (fold put_projection ?xs qs) = length qs"
    by (rule length_fold_put)
  ultimately show ?thesis by (intro nth_equalityI) auto
qed

subsection \<open>The incremental update\<close>

definition tagged :: "TranscriptItemProjection \<Rightarrow> nat \<times> TranscriptItemProjection" where
  "tagged p = (seg_item_index (pj_segment p), p)"

lemma append_projections_ok:
  "clean_row (map tagged ps) \<Longrightarrow>
   append_projections offset ps =
     Some (layout offset (map tagged ps), map (\<lambda>q. the (header_text (snd q))) (map tagged ps), texts (map tagged ps))"
  by (induction offset ps rule: append_projections.induct)
     (auto simp: tagged_def clean_header_text)

lemma segments_end_layout: "clean_row qs \<Longrightarrow> segments_end (layout 0 qs) = length (texts qs)"
proof (cases qs rule: rev_cases)
  case (snoc rs q)
  assume "clean_row qs"
  then have "seg_whole (pj_segment (snd q)) = (0, length (pj_text (snd q)))"
    by (auto simp: snoc clean_projection_def Let_def split: prod.splits)
  then show ?thesis
    by (cases q) (simp add: snoc segments_end_def layout_append shifted_segment_def shifted_range_def)
qed (simp add: segments_end_def)

lemma buffer_append:
  "utf8 txt \<Longrightarrow> utf8 new \<Longrightarrow> cr \<notin> set new \<Longrightarrow> buffer_edit ((length txt, length txt), new) txt = Some (txt @ new)"
  by (simp add: buffer_edit_def normalize_clean)

lemma clean_texts_cr: "clean_row qs \<Longrightarrow> cr \<notin> set (texts qs)"
  by (induction qs) (auto simp: clean_projection_def Let_def split: prod.splits)

lemma mark_search_dirty_fields [simp]:
  "te_text (mark_search_dirty b ed) = te_text ed" "te_segments (mark_search_dirty b ed) = te_segments ed"
  "te_header_texts (mark_search_dirty b ed) = te_header_texts ed"
  "te_model_item_count (mark_search_dirty b ed) = te_model_item_count ed"
  "te_follow_tail (mark_search_dirty b ed) = te_follow_tail ed"
  by (simp_all add: mark_search_dirty_def)

lemma shows_row_irrelevant [simp]:
  "shows_row (request_tail_autoscroll ed) qs n = shows_row ed qs n"
  "shows_row (mark_search_dirty b ed) qs n = shows_row ed qs n"
  by (simp_all add: shows_row_def request_tail_autoscroll_def)

lemma renewed_frame:
  assumes fit: "\<forall>u \<in> set us. fitting qs n u" and s: "sorted_wrt (<) (map fst qs)" and q: "q \<in> set qs"
  shows "same_frame (snd q) (snd (renewed us q)) \<or> renewed us q = q"
proof (cases "\<exists>p. map_of us (fst q) = Some (Some p)")
  case True
  then obtain p where p: "map_of us (fst q) = Some (Some p)" by blast
  obtain k where k: "k < length qs" "qs ! k = q" using q by (auto simp: in_set_conv_nth)
  have "fitting qs n (fst q, Some p)" using fit map_of_SomeD [OF p] by blast
  then show ?thesis
    using position_shown [OF s, of "fst q" k] k p by (auto simp: fitting_def placed_def renewed_def)
qed (auto simp: renewed_def split: option.split)

lemma clean_renewed:
  assumes "clean_row qs" "\<And>i p. (i, Some p) \<in> set us \<Longrightarrow> clean_projection p"
  shows "clean_row (map (renewed us) qs)"
  using assms by (fastforce simp: clean_row_def renewed_def split: option.splits dest!: map_of_SomeD)

text \<open>
  An incremental update never panics. When it is refused the editor is as before. When it
  succeeds, the editor shows the updated projections in the place of the old ones and then the
  appended ones, and every update was for an item of the right kind: shown when it has a
  projection, and not shown when it has none.
\<close>

lemma apply_item_projections_spec:
  assumes sh: "shows_row ed qs n"
    and clean: "\<And>i p. (i, Some p) \<in> set us \<Longrightarrow> clean_projection p" "\<And>p. Some p \<in> set ps \<Longrightarrow> clean_projection p"
  shows "\<exists>ok ed'. apply_item_projections m us ps ed = Some (ok, ed') \<and> (\<not> ok \<longrightarrow> ed' = ed) \<and>
    (ok \<longrightarrow> m = n \<and> (\<forall>u \<in> set us. fitting qs n u) \<and>
      shows_row ed' (map (renewed us) qs @ map tagged (filter_map id ps)) (n + length ps))"
proof -
  let ?xs = "descending (filter_map (placed qs) us)" and ?as = "filter_map id ps"
  have f: "te_segments ed = layout 0 qs" "te_text ed = texts qs" "clean_row qs" "te_model_item_count ed = n"
    "sorted_wrt (<) (map fst qs)" "te_header_texts ed = map (\<lambda>q. the (header_text (snd q))) qs"
    "\<forall>(i, q) \<in> set qs. seg_item_index (pj_segment q) = i \<and> i < n"
    using sh by (simp_all add: shows_row_def)
  have ca: "clean_row (map tagged ?as)"
    using clean(2) by (auto simp: clean_row_def tagged_def set_filter_map)
  have refuse: ?thesis if "apply_item_projections m us ps ed = Some (False, ed)"
    using that by (intro exI [of _ False] exI [of _ ed]) simp
  show ?thesis
  proof (cases "m = n \<and> check_updates ed us \<noteq> None \<and> check_appended ed n [] ps \<noteq> None \<and>
      successively (\<lambda>left right. fst left \<noteq> fst right) (descending (the (check_updates ed us)))")
    case False
    show ?thesis
      using False f(4) by (intro refuse) (auto simp: apply_item_projections_def Let_def split: option.split)
  next
    case True
    then have m: "m = n" by simp
    obtain zs where zs: "check_updates ed us = Some zs" using True by blast
    from check_updates_Some [OF sh _ zs] clean(1) zs have cu: "check_updates ed us = Some (filter_map (placed qs) us)"
      and fit: "\<forall>u \<in> set us. fitting qs n u" by auto
    obtain ys where ys: "check_appended ed n [] ps = Some ys" using True by blast
    from check_appended_Some [OF ys] ys have cap: "check_appended ed n [] ps = Some ?as"
      and idx: "\<forall>p \<in> set ?as. n \<le> seg_item_index (pj_segment p) \<and> seg_item_index (pj_segment p) < n + length ps"
        "sorted_wrt (<) (map (\<lambda>p. seg_item_index (pj_segment p)) ?as)" by auto
    have suc: "successively (\<lambda>left right. fst left \<noteq> fst right) ?xs" using True cu by simp
    note d = descending_strict [OF suc]
    have inxs: "k < length qs \<and> clean_projection p \<and> same_frame (snd (qs ! k)) p" if "(k, p) \<in> set ?xs" for k p
    proof -
      from that have "\<exists>u \<in> set us. placed qs u = Some (k, p)" by (simp only: set_descending set_filter_map)
      then obtain u where u: "u \<in> set us" "placed qs u = Some (k, p)" by blast
      then have "snd u = Some p" "k < length qs"
        by (auto simp: placed_def split: option.splits dest: position_lt)
      then show ?thesis using u clean(1) fit by (cases u) (auto simp: fitting_def)
    qed
    then obtain es where es: "those (map (pending_edit ed) ?xs) = Some es"
      and alt: "apply_shapes ?xs (layout 0 qs) = Some None \<or>
       apply_shapes ?xs (layout 0 qs) = Some (Some (layout 0 (map (renewed us) qs))) \<and>
       buffer_edits es (texts qs) = Some (texts (map (renewed us) qs))"
      using updates_ok [OF f(1,2,3) d, of "length qs" qs] f(3) put_renewed [OF f(5) fit d] by auto
    note body = apply_item_projections_def [of n us ps ed] m
      f(1,2,4,6) cu cap suc es segments_end_layout [OF f(3)] Let_def
    from alt show ?thesis
    proof
      assume "apply_shapes ?xs (layout 0 qs) = Some None"
      then show ?thesis by (intro refuse) (simp add: body)
    next
      let ?rs = "map (renewed us) qs"
      assume a: "apply_shapes ?xs (layout 0 qs) = Some (Some (layout 0 ?rs)) \<and>
        buffer_edits es (texts qs) = Some (texts ?rs)"
      have cr: "clean_row ?rs" by (rule clean_renewed [OF f(3) clean(1)])
      note tail = append_projections_ok [OF ca, of "length (texts ?rs)"] segments_end_layout [OF cr]
        buffer_append [OF clean_texts [OF cr] clean_texts [OF ca] clean_texts_cr [OF ca]]
      let ?R = "texts ?rs" and ?T = "texts (map tagged ?as)"
      have upd: "(if ?T \<noteq> [] then buffer_edit ((length ?R, length ?R), ?T) ?R else Some ?R) = Some (?R @ ?T)"
        by (simp add: tail)
      have "\<exists>ed'. apply_item_projections n us ps ed = Some (True, ed') \<and> te_text ed' = ?R @ ?T \<and>
          te_segments ed' = layout 0 ?rs @ layout (length ?R) (map tagged ?as) \<and>
          te_header_texts ed' = te_header_texts ed @ map (\<lambda>q. the (header_text (snd q))) (map tagged ?as) \<and>
          te_model_item_count ed' = n + length ps"
        by (simp add: body a tail(1,2) upd del: map_map) (simp add: request_tail_autoscroll_def)
      then obtain ed' where e: "apply_item_projections n us ps ed = Some (True, ed')" and g: "te_text ed' = ?R @ ?T"
          "te_segments ed' = layout 0 ?rs @ layout (length ?R) (map tagged ?as)"
          "te_header_texts ed' = te_header_texts ed @ map (\<lambda>q. the (header_text (snd q))) (map tagged ?as)"
          "te_model_item_count ed' = n + length ps" by blast
      have same: "same_frame (snd q) (snd (renewed us q)) \<or> renewed us q = q" if "q \<in> set qs" for q
        using renewed_frame [OF fit f(5) that] .
      then have "map (\<lambda>q. the (header_text (snd q))) ?rs = te_header_texts ed"
        by (force simp: f(6) same_frame_def)
      moreover have "seg_item_index (pj_segment (snd r)) = fst r \<and> fst r < n" if "r \<in> set ?rs" for r
        using same f(7) that by (fastforce simp: same_frame_def)
      then have "\<forall>(i, q) \<in> set (?rs @ map tagged ?as). seg_item_index (pj_segment q) = i \<and> i < n + length ps"
        using idx(1) by (fastforce simp: tagged_def)
      moreover have "sorted_wrt (<) (map fst (?rs @ map tagged ?as))"
        using f(5,7) idx by (fastforce simp: sorted_wrt_append tagged_def o_def)
      ultimately have "shows_row ed' (?rs @ map tagged ?as) (n + length ps)"
        using g cr ca by (simp add: shows_row_def layout_append)
      then show ?thesis using e m fit by auto
    qed
  qed
qed

end
