(* ===== verification/EditorSync.thy ===== *)
theory EditorSync
  imports EditorShape EventProperties
begin

text \<open>
  Keeping the transcript editor in step with the model, as \<open>crates/harness_app\<close> does after a
  batch of events: the changed and the new items are projected and applied to the editor, and
  when the editor refuses, the whole document is built, the buffer edited to its text and the
  segments taken over.
\<close>

subsection \<open>Operations\<close>

definition sync_transcript_item_updates ::
  "host \<Rightarrow> TranscriptItem list \<Rightarrow> nat \<Rightarrow> nat list \<Rightarrow> TranscriptEditor \<Rightarrow>
   (bool \<times> TranscriptEditor) option" where
  "sync_transcript_item_updates h items old_model_item_count dirty_items ed =
     (let new_model_item_count = length items
      in if new_model_item_count < old_model_item_count then Some (False, ed)
         else
           let existing_updates = map (\<lambda>i. (i, item_projection h items i))
                 (filter (\<lambda>i. i < old_model_item_count) dirty_items);
               appended = map (item_projection h items) [old_model_item_count ..< new_model_item_count]
           in apply_item_projections old_model_item_count existing_updates appended ed)"

definition sync_transcript_document ::
  "host \<Rightarrow> TranscriptItem list \<Rightarrow> bool \<Rightarrow> TranscriptEditor \<Rightarrow>
   (TranscriptDocument option \<times> TranscriptEditor) option" where
  "sync_transcript_document h items buffer_view ed =
     (if \<not> buffer_view then Some (None, ed)
      else
        do { doc \<leftarrow> full_document h items;
             if te_text ed = doc_text doc
             then do { (_, ed) \<leftarrow> decorate doc ed; Some (Some doc, ed) }
             else do { e \<leftarrow> minimal_text_edit (te_text ed) (doc_text doc);
                       ed \<leftarrow> edit_transcript e ed;
                       (_, ed) \<leftarrow> decorate doc ed;
                       Some (Some doc, ed) } })"

text \<open>The end of \<open>apply_event_batch\<close>: what the outcome of a batch does to the editor.\<close>

definition sync_after_batch ::
  "host \<Rightarrow> nat \<Rightarrow> TranscriptItem list \<Rightarrow> BatchOutcome \<Rightarrow> bool \<Rightarrow> TranscriptEditor \<Rightarrow>
   TranscriptEditor option" where
  "sync_after_batch h old_len items outcome buffer_view ed =
     (let document_changed = (length items \<noteq> old_len \<or> bo_dirty outcome \<noteq> {});
          dirty_items = sorted_list_of_set (bo_dirty outcome)
      in if document_changed \<and> buffer_view
         then do { (incrementally_applied, ed) \<leftarrow> sync_transcript_item_updates h items old_len dirty_items ed;
                   if incrementally_applied then Some ed
                   else map_option snd (sync_transcript_document h items buffer_view ed) }
         else Some ed)"

subsection \<open>The document as a row of projections\<close>

lemma layout_map:
  "layout offset ps = map (\<lambda>k. shifted_segment (pj_segment (snd (ps ! k))) (offset + length (texts (take k ps))))
     [0 ..< length ps]"
  by (rule nth_equalityI) (auto simp: nth_layout)

lemma full_document_layout:
  fixes h :: host and items :: "TranscriptItem list"
  defines "ps \<equiv> projections h 0 items"
  shows "\<exists>doc. full_document h items = Some doc \<and> doc_text doc = texts ps \<and>
    doc_segments doc = layout 0 ps \<and> length (doc_rows doc) = length items \<and>
    (\<forall>k < length ps. doc_rows doc ! fst (ps ! k) = Some (newline_rows (texts (take k ps)))) \<and>
    (\<forall>i < length items. i \<notin> fst ` set ps \<longrightarrow> doc_rows doc ! i = None)"
proof -
  have "range_projections h items 0 (length items) = ps" by (simp add: range_projections_def ps_def)
  then show ?thesis
    using document_range_spec [of 0 "length items" items h False]
    by (simp add: full_document_def leading_marker_def trailing_marker_def layout_map)
qed

text \<open>Items whose projections are well-formed text with line feeds only.\<close>

definition clean_items :: "host \<Rightarrow> TranscriptItem list \<Rightarrow> bool" where
  "clean_items h items \<longleftrightarrow> host_utf8 h \<and>
     (\<forall>i < length items. item_utf8 (items ! i) \<and>
        (\<forall>p. project_transcript_item h i (items ! i) = Some p \<longrightarrow> cr \<notin> set (pj_text p)))"

lemma project_clean:
  assumes "host_utf8 h" "item_utf8 item" "project_transcript_item h i item = Some p" "cr \<notin> set (pj_text p)"
  shows "clean_projection p \<and> seg_item_index (pj_segment p) = i"
proof -
  have ok: "utf8 (pj_text p)" "segment_ok (pj_text p) (pj_segment p)"
    using project_transcript_item_spec [OF assms(1-3)] by auto
  show ?thesis
    using project_parts [OF assms(3)] ok assms(4)
    by (auto simp: clean_projection_def segment_ok_def Let_def split: prod.splits if_splits)
qed

lemma clean_items_projection:
  assumes "clean_items h items" "(i, p) \<in> set (projections h 0 items)"
  shows "clean_projection p \<and> seg_item_index (pj_segment p) = i \<and> i < length items"
  using assms projections_project [of i p h 0 items] project_clean [of h "items ! i" i p]
  by (auto simp: clean_items_def)

lemma clean_items_row: "clean_items h items \<Longrightarrow> clean_row (projections h 0 items)"
  using clean_items_projection by (auto simp: clean_row_def)

text \<open>The projections of items, index by index.\<close>

lemma filter_map_append [simp]: "filter_map f (xs @ ys) = filter_map f xs @ filter_map f ys"
  by (induction xs) (auto split: option.splits)

lemma filter_map_comp:
  "map g (filter_map f xs) = filter_map (\<lambda>x. map_option g (f x)) xs"
  "filter P (filter_map f xs) = filter_map (\<lambda>x. opt_filter P (f x)) xs"
  by (induction xs) (auto split: option.splits)

lemma projections_index_wise:
  "projections h n items =
     filter_map (\<lambda>i. map_option (Pair i) (project_transcript_item h i (items ! (i - n)))) [n ..< n + length items]"
proof (induction h n items rule: projections.induct)
  case (2 h n item items)
  have "filter_map (\<lambda>i. map_option (Pair i) (project_transcript_item h i ((item # items) ! (i - n))))
      [Suc n ..< Suc n + length items] =
    filter_map (\<lambda>i. map_option (Pair i) (project_transcript_item h i (items ! (i - Suc n))))
      [Suc n ..< Suc n + length items]"
    by (rule filter_map_cong) (auto simp: nth_Cons')
  with 2 show ?case
    by (cases "project_transcript_item h n item") (simp_all add: upt_conv_Cons del: upt_Suc)
qed simp

subsection \<open>The editor in step with the items\<close>

text \<open>
  The buffer holds the text of the whole document. The segments are those of the document with
  the possible exception of items without any text, or there are none because the document
  was not trusted.
\<close>

definition shown_part :: "nat set \<Rightarrow> (nat \<times> TranscriptItemProjection) list \<Rightarrow> (nat \<times> TranscriptItemProjection) list" where
  "shown_part S ps = filter (\<lambda>q. fst q \<in> S) ps"

definition tracks :: "host \<Rightarrow> TranscriptItem list \<Rightarrow> TranscriptEditor \<Rightarrow> bool" where
  "tracks h items ed \<longleftrightarrow>
     te_text ed = texts (projections h 0 items) \<and> te_model_item_count ed = length items \<and>
     (te_segments ed = [] \<and> te_header_texts ed = [] \<and> te_text ed \<noteq> [] \<or>
      (\<exists>S. shows_row ed (shown_part S (projections h 0 items)) (length items) \<and>
         (\<forall>(i, p) \<in> set (projections h 0 items). i \<in> S \<or> pj_text p = [])))"

lemma texts_shown_part:
  "(\<forall>(i, p) \<in> set ps. i \<in> S \<or> pj_text p = []) \<Longrightarrow> texts (shown_part S ps) = texts ps"
  unfolding shown_part_def by (induction ps) (auto split: if_splits)

lemma tracksI:
  assumes "shows_row ed (shown_part S (projections h 0 items)) (length items)"
    and "\<forall>(i, p) \<in> set (projections h 0 items). i \<in> S \<or> pj_text p = []"
  shows "tracks h items ed"
proof -
  have "te_text ed = texts (projections h 0 items)" "te_model_item_count ed = length items"
    using assms(1) texts_shown_part [OF assms(2)] by (simp_all add: shows_row_def)
  then show ?thesis unfolding tracks_def using assms by blast
qed

text \<open>The items that changed are among the dirty ones.\<close>

definition extends :: "TranscriptItem list \<Rightarrow> nat set \<Rightarrow> TranscriptItem list \<Rightarrow> bool" where
  "extends items dirty items' \<longleftrightarrow> length items \<le> length items' \<and>
     (\<forall>i < length items. i \<notin> dirty \<longrightarrow> items' ! i = items ! i)"

lemma map_of_tagged: "map_of (map (\<lambda>i. (i, b i)) xs) i = (if i \<in> set xs then Some (b i) else None)"
  by (induction xs) auto

text \<open>An index of the items before: what is shown for it afterwards.\<close>

lemma renewed_index:
  assumes fit: "\<forall>u \<in> set us. fitting qs n u"
    and us: "us = map (\<lambda>i. (i, b i)) (filter (\<lambda>i. i < n) dirty)"
    and same: "i \<notin> set dirty \<Longrightarrow> b i = a i" and i: "i < n"
    and qs: "\<And>p. (i, p) \<in> set qs \<longleftrightarrow> i \<in> S \<and> a i = Some p"
  shows "opt_filter (\<lambda>q. fst q \<in> S) (map_option (Pair i) (b i)) =
    map_option (renewed us) (opt_filter (\<lambda>q. fst q \<in> S) (map_option (Pair i) (a i)))"
proof (cases "i \<in> set dirty")
  case True
  have "map_of us i = Some (b i)" using True i by (simp add: us map_of_tagged)
  moreover have "(i, b i) \<in> set us" using True i by (auto simp: us)
  then have "b i = None \<longleftrightarrow> i \<notin> fst ` set qs" using bspec [OF fit] unfolding fitting_def by (metis fst_conv snd_conv)
  moreover have "i \<in> fst ` set qs \<longleftrightarrow> i \<in> S \<and> a i \<noteq> None" using qs by force
  ultimately show ?thesis by (cases "a i"; cases "b i") (auto simp: renewed_def)
next
  case False
  then have "map_of us i = None" by (simp add: us map_of_tagged)
  then show ?thesis using same [OF False] by (cases "a i") (auto simp: renewed_def)
qed

text \<open>The items of an index range, and what an appended range projects to.\<close>

lemma shown_part_index_wise:
  "shown_part S (projections h 0 items) =
     filter_map (\<lambda>i. opt_filter (\<lambda>q. fst q \<in> S) (map_option (Pair i) (project_transcript_item h i (items ! i))))
       [0 ..< length items]"
  by (simp add: shown_part_def projections_index_wise filter_map_comp)

lemma shown_part_append:
  assumes "m \<le> length items" "{m ..} \<subseteq> S"
  shows "shown_part S (projections h 0 items) =
    filter_map (\<lambda>i. opt_filter (\<lambda>q. fst q \<in> S) (map_option (Pair i) (project_transcript_item h i (items ! i)))) [0 ..< m] @
    filter_map (\<lambda>i. map_option (Pair i) (project_transcript_item h i (items ! i))) [m ..< length items]"
proof -
  have "filter_map (\<lambda>i. opt_filter (\<lambda>q. fst q \<in> S) (map_option (Pair i) (project_transcript_item h i (items ! i)))) [m ..< length items] =
      filter_map (\<lambda>i. map_option (Pair i) (project_transcript_item h i (items ! i))) [m ..< length items]"
    using assms(2) by (intro filter_map_cong) (auto simp: opt_filter_def split: option.splits)
  then show ?thesis
    using assms(1) upt_add_eq_append [of 0 m "length items - m"] by (simp add: shown_part_index_wise)
qed

lemma tagged_appended:
  "map tagged (filter_map id (map (item_projection h items) [m ..< length items])) =
     filter_map (\<lambda>i. map_option (Pair i) (project_transcript_item h i (items ! i))) [m ..< length items]"
proof -
  have "map_option tagged (item_projection h items i) = map_option (Pair i) (project_transcript_item h i (items ! i))"
    if "i < length items" for i
    using that project_parts [of h i "items ! i"] by (cases "project_transcript_item h i (items ! i)")
      (auto simp: item_projection_def tagged_def)
  moreover have "filter_map id (map f xs) = filter_map f xs" for f :: "nat \<Rightarrow> TranscriptItemProjection option" and xs
    by (induction xs) (auto split: option.splits)
  ultimately show ?thesis by (auto simp: filter_map_comp intro!: filter_map_cong)
qed

subsection \<open>The incremental path\<close>

lemma sync_item_updates_spec:
  assumes tr: "tracks h items ed" and clean: "clean_items h items'" and ext: "extends items (set dirty) items'"
  shows "\<exists>ok ed'. sync_transcript_item_updates h items' (length items) dirty ed = Some (ok, ed') \<and>
    (if ok then tracks h items' ed' else ed' = ed)"
proof -
  let ?n = "length items" and ?n' = "length items'"
  let ?us = "map (\<lambda>i. (i, item_projection h items' i)) (filter (\<lambda>i. i < ?n) dirty)"
  let ?ap = "map (item_projection h items') [?n ..< ?n']"
  have len: "?n \<le> ?n'" using ext by (simp add: extends_def)
  then have sync: "sync_transcript_item_updates h items' ?n dirty ed = apply_item_projections ?n ?us ?ap ed"
    by (simp add: sync_transcript_item_updates_def Let_def)
  show ?thesis
  proof (cases "te_segments ed = [] \<and> te_text ed \<noteq> []")
    case True
    then have "sync_transcript_item_updates h items' ?n dirty ed = Some (False, ed)"
      by (simp add: sync apply_item_projections_def segments_end_def)
    then show ?thesis by fastforce
  next
    case False
    then obtain S where sh: "shows_row ed (shown_part S (projections h 0 items)) ?n"
      and rest: "\<forall>(i, p) \<in> set (projections h 0 items). i \<in> S \<or> pj_text p = []"
      using tr by (auto simp: tracks_def)
    let ?qs = "shown_part S (projections h 0 items)" and ?T = "S \<inter> {..< ?n} \<union> {?n ..}"
    have cp: "clean_projection p" if "i < ?n'" "item_projection h items' i = Some p" for i p
      using clean project_clean [of h "items' ! i" i p] that by (simp add: clean_items_def item_projection_def)
    have cu: "clean_projection p" if "(i, Some p) \<in> set ?us" for i p
      using that cp [of i p] len by auto
    have ca: "clean_projection p" if "Some p \<in> set ?ap" for p
      using that cp by auto
    have "\<exists>ok ed'. apply_item_projections ?n ?us ?ap ed = Some (ok, ed') \<and> (\<not> ok \<longrightarrow> ed' = ed) \<and>
        (ok \<longrightarrow> ?n = ?n \<and> (\<forall>u \<in> set ?us. fitting ?qs ?n u) \<and>
          shows_row ed' (map (renewed ?us) ?qs @ map tagged (filter_map id ?ap)) (?n + length ?ap))"
      by (rule apply_item_projections_spec [OF sh]) (erule cu, erule ca)
    then obtain ok ed' where r: "apply_item_projections ?n ?us ?ap ed = Some (ok, ed')" "\<not> ok \<longrightarrow> ed' = ed"
      and ok: "ok \<Longrightarrow> (\<forall>u \<in> set ?us. fitting ?qs ?n u) \<and>
        shows_row ed' (map (renewed ?us) ?qs @ map tagged (filter_map id ?ap)) (?n + length ?ap)" by blast
    have "tracks h items' ed'" if ok
    proof -
      note fit = ok [OF that, THEN conjunct1] and row = ok [OF that, THEN conjunct2]
      have inqs: "(i, p) \<in> set ?qs \<longleftrightarrow> i \<in> S \<and> item_projection h items i = Some p" if "i < ?n" for i p
        using that by (auto simp: shown_part_def projections_project item_projection_def)
      have old: "item_projection h items' i = item_projection h items i" if "i < ?n" "i \<notin> set dirty" for i
        using ext that len by (simp add: extends_def item_projection_def)
      have "map (renewed ?us) ?qs =
          filter_map (\<lambda>i. opt_filter (\<lambda>q. fst q \<in> ?T) (map_option (Pair i) (project_transcript_item h i (items' ! i)))) [0 ..< ?n]"
        unfolding shown_part_index_wise filter_map_comp
      proof (rule filter_map_cong)
        fix i assume "i \<in> set [0 ..< ?n]"
        then have i: "i < ?n" by simp
        show "map_option (renewed ?us) (opt_filter (\<lambda>q. fst q \<in> S) (map_option (Pair i) (project_transcript_item h i (items ! i)))) =
          opt_filter (\<lambda>q. fst q \<in> ?T) (map_option (Pair i) (project_transcript_item h i (items' ! i)))"
          using renewed_index [where a = "item_projection h items" and b = "item_projection h items'" and i = i,
              OF fit refl old [OF i] i inqs [OF i]] i len
          by (cases "project_transcript_item h i (items' ! i)") (simp_all add: item_projection_def)
      qed
      then have eq: "map (renewed ?us) ?qs @ map tagged (filter_map id ?ap) = shown_part ?T (projections h 0 items')"
        using shown_part_append [OF len, of ?T h] tagged_appended [of h items' ?n] by simp
      have "i \<in> ?T \<or> pj_text p = []" if "(i, p) \<in> set (projections h 0 items')" for i p
      proof (cases "i < ?n \<and> i \<notin> S")
        case True
        then have p: "item_projection h items' i = Some p" using that len
          by (auto simp: projections_project item_projection_def)
        moreover have "i \<notin> fst ` set ?qs" using True by (auto simp: shown_part_def)
        ultimately have "i \<notin> set dirty" using fit True by (force simp: fitting_def)
        then have "(i, p) \<in> set (projections h 0 items)"
          using old [of i] p True by (auto simp: projections_project item_projection_def)
        then show ?thesis using rest True by blast
      qed auto
      then have all: "\<forall>(i, p) \<in> set (projections h 0 items'). i \<in> ?T \<or> pj_text p = []" by blast
      have "shows_row ed' (shown_part ?T (projections h 0 items')) ?n'" using row len by (simp add: eq)
      then show ?thesis
        by (rule tracksI [OF _ all])
    qed
    then show ?thesis using r by (auto simp: sync)
  qed
qed

subsection \<open>The full path\<close>

lemma segments_are_valid_all:
  "segments_are_valid s rows pi pr pe keys segs \<Longrightarrow> seg \<in> set segs \<Longrightarrow> segment_is_valid s seg"
  by (induction s rows pi pr pe keys segs rule: segments_are_valid.induct) (auto split: option.splits)

lemma valid_segment_header:
  "segment_is_valid s seg \<Longrightarrow> str_slice s (fst (seg_header seg)) (snd (seg_header seg)) \<noteq> None"
  by (auto simp: segment_is_valid_def str_slice_def Let_def split: prod.splits)

text \<open>\<open>decorate\<close> slices nothing that it has not checked.\<close>

lemma decorate_total: "decorate doc ed \<noteq> None"
proof (cases "document_has_valid_segment_ranges doc")
  case True
  let ?hd = "\<lambda>seg. str_slice (doc_text doc) (fst (seg_header seg)) (snd (seg_header seg))"
  have "?hd seg = Some (the (?hd seg))" if "seg \<in> set (doc_segments doc)" for seg
    using segments_are_valid_all [of "doc_text doc" "doc_rows doc" None None 0 "{}" "doc_segments doc" seg]
      valid_segment_header [of "doc_text doc" seg] that True
    by (auto simp: document_has_valid_segment_ranges_def)
  then have "those (map ?hd (doc_segments doc)) = Some (map (\<lambda>seg. the (?hd seg)) (doc_segments doc))"
    by (rule those_map_Some)
  then show ?thesis using True by (simp add: decorate_def)
qed (simp add: decorate_def)

lemma header_slice:
  assumes "clean_row ps" "k < length ps"
  shows "str_slice (texts ps) (fst (seg_header (layout 0 ps ! k))) (snd (seg_header (layout 0 ps ! k))) =
    header_text (snd (ps ! k))"
proof -
  let ?a = "texts (take k ps)" and ?p = "snd (ps ! k)" and ?b = "texts (drop (Suc k) ps)"
  let ?he = "snd (seg_header (pj_segment ?p))"
  have c: "clean_projection ?p" by (rule clean_row_nth [OF assms])
  then have p: "utf8 (pj_text ?p)" "char_boundary (pj_text ?p) ?he" "fst (seg_header (pj_segment ?p)) = 0"
    by (auto simp: clean_projection_def Let_def split: prod.splits)
  have u: "utf8 ?a" "utf8 ?b"
    using assms(1) by (auto intro!: clean_texts simp: clean_row_def dest!: in_set_takeD in_set_dropD)
  have t: "texts ps = ?a @ pj_text ?p @ ?b"
    using texts_take_drop [of ps "Suc k"] texts_take_Suc [OF assms(2)] by simp
  have b: "char_boundary (texts ps) (length ?a + i)" if "char_boundary (pj_text ?p) i" for i
    unfolding t using char_boundary_prepend [OF u(1), of "pj_text ?p @ ?b"] u p(1) char_boundary_grow [OF u(2) that]
    by (simp add: utf8_append)
  have "?he \<le> length (pj_text ?p)" using p(2) by (rule char_boundary_le)
  then have "str_slice (texts ps) (length ?a) (length ?a + ?he) = Some (take ?he (pj_text ?p))"
    using b [of 0] b [OF p(2)] by (simp add: str_slice_Some t)
  then show ?thesis
    using clean_header_text [OF c] p(3) assms(2)
    by (simp add: nth_layout shifted_segment_def shifted_range_def add.commute)
qed

lemma shown_part_UNIV [simp]: "shown_part UNIV ps = ps"
  by (simp add: shown_part_def)

lemma projections_sorted: "sorted_wrt (<) (map fst (projections h n items))"
  by (induction h n items rule: projections.induct) (auto split: option.splits dest: projections_index)

text \<open>\<open>decorate\<close> never panics; with the document's text in the buffer it puts the editor in step.\<close>

lemma decorate_tracks:
  assumes doc: "full_document h items = Some doc" and same: "te_text ed = doc_text doc"
    and clean: "clean_items h items"
  shows "\<exists>b ed'. decorate doc ed = Some (b, ed') \<and> tracks h items ed'"
proof -
  let ?ps = "projections h 0 items"
  have d: "doc_text doc = texts ?ps" "doc_segments doc = layout 0 ?ps" "length (doc_rows doc) = length items"
    using full_document_layout [of h items] doc by auto
  note row = clean_items_row [OF clean]
  show ?thesis
  proof (cases "document_has_valid_segment_ranges doc")
    case True
    let ?hd = "\<lambda>seg. str_slice (doc_text doc) (fst (seg_header seg)) (snd (seg_header seg))"
    have "map ?hd (layout 0 ?ps) = map (\<lambda>q. header_text (snd q)) ?ps"
      using header_slice [OF row] by (intro nth_equalityI) (auto simp: d(1))
    moreover have "those (map (\<lambda>q. header_text (snd q)) ?ps) = Some (map (\<lambda>q. the (header_text (snd q))) ?ps)"
      using row by (intro those_map_Some) (auto simp: clean_row_def clean_header_text)
    ultimately have "those (map ?hd (doc_segments doc)) = Some (map (\<lambda>q. the (header_text (snd q))) ?ps)"
      by (simp add: d(2))
    then obtain ed' where e: "decorate doc ed = Some (True, ed')" and f: "te_text ed' = texts ?ps"
      "te_segments ed' = layout 0 ?ps" "te_header_texts ed' = map (\<lambda>q. the (header_text (snd q))) ?ps"
      "te_model_item_count ed' = length items"
      using True same d by (simp add: decorate_def)
    have "shows_row ed' (shown_part UNIV ?ps) (length items)"
      using f row clean_items_projection [OF clean] projections_sorted [of h 0 items]
      by (auto simp: shows_row_def)
    then have "tracks h items ed'" by (rule tracksI) auto
    then show ?thesis using e by blast
  next
    case False
    then obtain ed' where e: "decorate doc ed = Some (False, ed')" and f: "te_text ed' = texts ?ps"
      "te_segments ed' = []" "te_header_texts ed' = []" "te_model_item_count ed' = length items"
      using same d False by (simp add: decorate_def)
    have "tracks h items ed'"
    proof (cases "texts ?ps = []")
      case True
      then have "shows_row ed' (shown_part {} ?ps) (length items)"
        using f by (simp add: shows_row_def shown_part_def)
      moreover have "\<forall>(i, p) \<in> set ?ps. i \<in> {} \<or> pj_text p = []"
        using True by (auto simp: texts_def)
      ultimately show ?thesis by (rule tracksI)
    qed (use f in \<open>simp add: tracks_def\<close>)
    then show ?thesis using e by blast
  qed
qed

lemma sync_document_spec:
  assumes clean: "clean_items h items"
  shows "\<exists>doc ed'. sync_transcript_document h items True ed = Some (Some doc, ed') \<and>
    full_document h items = Some doc \<and> tracks h items ed'"
proof -
  obtain doc where doc: "full_document h items = Some doc" "doc_text doc = texts (projections h 0 items)"
    using full_document_layout [of h items] by blast
  show ?thesis
  proof (cases "te_text ed = doc_text doc")
    case True
    then show ?thesis
      using decorate_tracks [OF doc(1) True clean] doc by (auto simp: sync_transcript_document_def)
  next
    case False
    obtain a b t where e: "minimal_text_edit (te_text ed) (doc_text doc) = Some ((a, b), t)" "a \<le> b"
      "char_boundary (te_text ed) a" "char_boundary (te_text ed) b"
      "str_slice (doc_text doc) a (a + length t) = Some t"
      "apply_text_edit (te_text ed) ((a, b), t) = doc_text doc"
      using minimal_text_edit_spec [of "te_text ed" "doc_text doc"] by blast
    have "cr \<notin> set t"
      using set_str_slice [OF e(5)] clean_texts_cr [OF clean_items_row [OF clean]] by (auto simp: doc(2))
    then have "buffer_edit ((a, b), t) (te_text ed) = Some (doc_text doc)"
      using e by (simp add: buffer_edit_def normalize_clean apply_text_edit_def)
    then obtain ed1 where ed1: "edit_transcript ((a, b), t) ed = Some ed1" "te_text ed1 = doc_text doc"
      by (simp add: edit_transcript_def Let_def request_tail_autoscroll_def)
    then show ?thesis
      using decorate_tracks [OF doc(1) ed1(2) clean] doc False e(1) by (auto simp: sync_transcript_document_def)
  qed
qed

subsection \<open>Properties\<close>

lemma tracks_new_editor: "tracks h [] new_editor"
  by (rule tracksI [where S = UNIV]) (auto simp: shows_row_def new_editor_def)

lemma sync_after_batch_spec:
  assumes tr: "tracks h items ed" and clean: "clean_items h items'"
    and ext: "extends items (bo_dirty outcome) items'" "finite (bo_dirty outcome)"
  shows "\<exists>ed'. sync_after_batch h (length items) items' outcome True ed = Some ed' \<and> tracks h items' ed'"
proof (cases "length items' \<noteq> length items \<or> bo_dirty outcome \<noteq> {}")
  case True
  have "extends items (set (sorted_list_of_set (bo_dirty outcome))) items'" using ext by simp
  from sync_item_updates_spec [OF tr clean this] obtain ok ed' where
    u: "sync_transcript_item_updates h items' (length items) (sorted_list_of_set (bo_dirty outcome)) ed = Some (ok, ed')"
      "if ok then tracks h items' ed' else ed' = ed" by blast
  show ?thesis
  proof (cases ok)
    case False
    with u show ?thesis
      using True sync_document_spec [OF clean, of ed] by (auto simp: sync_after_batch_def Let_def)
  qed (use u True in \<open>auto simp: sync_after_batch_def Let_def\<close>)
next
  case False
  then have "items' = items" using ext(1) by (intro nth_equalityI) (auto simp: extends_def)
  then show ?thesis using False tr by (simp add: sync_after_batch_def)
qed

text \<open>
  C26. The buffer follows the model. When the editor is in step with the transcript, a batch of
  events is applied to the model, and the editor is brought up to date with the outcome of the
  batch, then nothing panics and the editor is in step with the new transcript: whether the
  few dirty items were patched in place or everything was built again, its buffer holds exactly
  the text of the full document. A new editor is in step with the empty transcript. The projections
  of the new transcript must be free of carriage returns (\<open>clean_items\<close>): a document with one,
  which a character reference can bring in, never agrees with the normalised buffer
  (\<open>carriage_return_lost\<close>).
\<close>

theorem buffer_follows_model:
  assumes "model_ok m" "tracks (sv_host sv) (tm_items m) ed"
    and "apply_batch sv events thread m = Some (m', outcome)" "clean_items (sv_host sv) (tm_items m')"
  shows "\<exists>ed' doc. sync_after_batch (sv_host sv) (length (tm_items m)) (tm_items m') outcome True ed = Some ed' \<and>
    full_document (sv_host sv) (tm_items m') = Some doc \<and> te_text ed' = doc_text doc \<and>
    tracks (sv_host sv) (tm_items m') ed' \<and> tracks (sv_host sv) (tm_items default_model) new_editor"
proof -
  have r: "redraws (m, default_outcome) (m', outcome)"
    using apply_batch_safe [OF assms(1), of sv events thread] assms(3) by auto
  have "extends (tm_items m) (bo_dirty outcome) (tm_items m')"
    using r unfolding redraws_def extends_def by (auto simp: default_outcome_def)
  moreover have "finite (bo_dirty outcome)"
    using r unfolding redraws_def by (auto simp: default_outcome_def intro: finite_subset)
  ultimately obtain ed' where
    "sync_after_batch (sv_host sv) (length (tm_items m)) (tm_items m') outcome True ed = Some ed'"
    "tracks (sv_host sv) (tm_items m') ed'"
    using sync_after_batch_spec [OF assms(2,4)] by blast
  moreover obtain doc where "full_document (sv_host sv) (tm_items m') = Some doc"
    "doc_text doc = texts (projections (sv_host sv) 0 (tm_items m'))"
    using full_document_layout [of "sv_host sv" "tm_items m'"] by blast
  ultimately show ?thesis
    using tracks_new_editor by (auto simp: tracks_def default_model_def)
qed

definition offline_card :: TranscriptItem where
  "offline_card = \<lparr>it_key = ''app-server-disconnected'', it_protocol_id = None, it_kind = Error,
     it_title = ''App Server disconnected'', it_status = Some ''offline'', it_content = ''gone'',
     it_raw = JObject [(''reason'', JString ''gone'')], it_event_count = 1, it_expanded = True,
     it_pending = None\<rparr>"

lemma clean_offline_card: "clean_items tiny_host [offline_card]"
proof -
  have "case project_transcript_item tiny_host 0 offline_card of None \<Rightarrow> True | Some p \<Rightarrow> cr \<notin> set (pj_text p)"
    by code_simp
  moreover have "item_utf8 offline_card"
    by (simp add: item_utf8_def offline_card_def utf8_def in_bytes_def)
  moreover have "host_utf8 tiny_host" by (simp add: host_utf8_def tiny_host_def)
  ultimately show ?thesis by (auto simp: clean_items_def)
qed

theorem buffer_follows_model_witness:
  "\<exists>m' outcome ed' doc. apply_batch (example_services tiny_host) [Disconnected ''gone''] None default_model =
       Some (m', outcome) \<and>
     sync_after_batch tiny_host 0 (tm_items m') outcome True new_editor = Some ed' \<and>
     full_document tiny_host [offline_card] = Some doc \<and> te_text ed' = doc_text doc"
proof -
  let ?sv = "example_services tiny_host"
  have h: "sv_host ?sv = tiny_host" by (simp add: example_services_def)
  have "bounded_raw_payload tiny_host (JObject [(''reason'', JString ''gone'')]) = JObject [(''reason'', JString ''gone'')]"
    by (simp add: bounded_raw_payload_def tiny_host_def serialized_size_def RAW_STRING_LIMIT_def RAW_PAYLOAD_LIMIT_def Let_def)
  then have "map_option (\<lambda>(m, _). tm_items m) (apply_batch ?sv [Disconnected ''gone''] None default_model) =
      Some [offline_card]"
    by (simp add: apply_batch_def event_step_def h upsert_generated_def push_without_splice_def insert_index_def
        record_raw_def default_model_def then_status_def marked_def mark_def then_item_def update_item_def
        offline_card_def RAW_EVENT_LIMIT_def Let_def)
  then obtain m' outcome where r: "apply_batch ?sv [Disconnected ''gone''] None default_model = Some (m', outcome)"
    and items: "tm_items m' = [offline_card]" by auto
  have "tracks (sv_host ?sv) (tm_items default_model) new_editor"
    using tracks_new_editor by (simp add: default_model_def)
  moreover have "clean_items (sv_host ?sv) (tm_items m')" using clean_offline_card by (simp add: h items)
  ultimately show ?thesis
    using buffer_follows_model [OF default_model_ok _ r] r items by (fastforce simp: h default_model_def)
qed

end
