(* ===== verification/EditorTrust.thy ===== *)
theory EditorTrust
  imports EditorSync
begin

text \<open>
  Which documents the transcript editor trusts. \<open>decorate\<close> validates a document before it uses
  its segments; the documents of the model pass exactly when every item that is shown has text,
  spans in order and a key of its own. Three kinds of items that the program does produce fail
  the test, and the editor then shows the whole transcript without any decoration.
\<close>

subsection \<open>Validation in place\<close>

lemma char_boundary_within:
  assumes "utf8 a" "utf8 t" "utf8 b" "i \<le> length t"
  shows "char_boundary (a @ t @ b) (length a + i) \<longleftrightarrow> char_boundary t i"
proof
  assume "char_boundary t i"
  then show "char_boundary (a @ t @ b) (length a + i)"
    using char_boundary_prepend [OF assms(1)] char_boundary_grow [OF assms(3)] assms by (simp add: utf8_append)
next
  assume "char_boundary (a @ t @ b) (length a + i)"
  then show "char_boundary t i"
    using assms(4) by (cases "i = length t") (auto simp: char_boundary_def nth_append split: if_splits)
qed

lemma span_key_shifted:
  "span_key (shifted_span s n) \<le> span_key (shifted_span s' n) \<longleftrightarrow> span_key s \<le> span_key s'"
  by (auto simp: span_key_def shifted_span_def less_eq_prod_simp)

lemma spans_valid_shifted:
  assumes "utf8 a" "utf8 t" "utf8 b" "snd body \<le> length t"
  shows "semantic_spans_are_valid (map (\<lambda>s. shifted_span s (length a)) spans) (shifted_range body (length a)) (a @ t @ b)
    \<longleftrightarrow> semantic_spans_are_valid spans body t"
proof -
  let ?v = "\<lambda>body txt s. fst body \<le> span_start s \<and> span_start s < span_end s \<and> span_end s \<le> snd body \<and>
      char_boundary txt (span_start s) \<and> char_boundary txt (span_end s)"
  have "?v (shifted_range body (length a)) (a @ t @ b) (shifted_span s (length a)) \<longleftrightarrow> ?v body t s" for s
  proof (cases "span_start s < span_end s \<and> span_end s \<le> snd body")
    case True
    then have "span_start s \<le> length t" "span_end s \<le> length t" using assms(4) by simp_all
    then show ?thesis
      using char_boundary_within [OF assms(1-3), of "span_start s"] char_boundary_within [OF assms(1-3), of "span_end s"]
      by (simp add: shifted_range_def shifted_span_def add.commute)
  qed (auto simp: shifted_range_def shifted_span_def)
  then have "list_all (?v (shifted_range body (length a)) (a @ t @ b)) (map (\<lambda>s. shifted_span s (length a)) spans) \<longleftrightarrow>
      list_all (?v body t) spans"
    unfolding list_all_iff by (simp only: set_map ball_simps)
  then show ?thesis
    unfolding semantic_spans_are_valid_def by (simp only: length_map successively_map span_key_shifted)
qed

text \<open>What the editor asks of an item's projection.\<close>

definition trusted :: "TranscriptItemProjection \<Rightarrow> bool" where
  "trusted p \<longleftrightarrow> pj_text p \<noteq> [] \<and>
     semantic_spans_are_valid (seg_spans (pj_segment p)) (seg_body (pj_segment p)) (pj_text p)"

lemma segment_valid_shifted:
  assumes "utf8 a" "utf8 b" "clean_projection p"
  shows "segment_is_valid (a @ pj_text p @ b) (shifted_segment (pj_segment p) (length a)) \<longleftrightarrow> trusted p"
proof -
  obtain he bs be where f: "seg_whole (pj_segment p) = (0, length (pj_text p))"
    "seg_header (pj_segment p) = (0, he)" "seg_body (pj_segment p) = (bs, be)" "he \<le> bs" "bs \<le> be"
    "be \<le> length (pj_text p)" "list_all (char_boundary (pj_text p)) [0, length (pj_text p), he, bs, be]" "utf8 (pj_text p)"
    using assms(3) by (auto simp: clean_projection_def Let_def split: prod.splits)
  have cb: "char_boundary (a @ pj_text p @ b) (i + length a)" if "char_boundary (pj_text p) i" for i
    using char_boundary_within [OF assms(1) f(8) assms(2), of i] char_boundary_le [OF that] that
    by (simp add: add.commute)
  then have "list_all (char_boundary (a @ pj_text p @ b)) (map (\<lambda>i. i + length a) [0, length (pj_text p), 0, he, bs, be])"
    using f(7) cb [of 0] cb by simp
  then show ?thesis
    using spans_valid_shifted [OF assms(1) f(8) assms(2), of "(bs, be)" "seg_spans (pj_segment p)"] f
    by (simp add: segment_is_valid_def shifted_segment_def shifted_range_def Let_def trusted_def)
qed

subsection \<open>The whole document\<close>

lemma newline_rows_less:
  assumes "newlines a + newlines b < 2 ^ 32"
  shows "newline_rows a < newline_rows (a @ b) \<longleftrightarrow> 0 < newlines b"
  using assms unfolding newline_rows_def
  by (simp add: word_less_nat_alt unat_of_nat del: of_nat_add flip: of_nat_add)

lemma segments_valid_layout:
  "clean_row pre \<Longrightarrow> clean_row ps \<Longrightarrow> newlines (texts pre @ texts ps) < 2 ^ 32 \<Longrightarrow>
   \<forall>(i, p) \<in> set ps. i < length rows \<and> seg_item_index (pj_segment p) = i \<and> (pj_text p \<noteq> [] \<longrightarrow> 0 < newlines (pj_text p)) \<Longrightarrow>
   \<forall>k < length ps. rows ! fst (ps ! k) = Some (newline_rows (texts pre @ texts (take k ps))) \<Longrightarrow>
   sorted_wrt (<) (map fst ps) \<Longrightarrow> \<forall>j \<in> set_option pi. \<forall>q \<in> set ps. j < fst q \<Longrightarrow>
   \<forall>r \<in> set_option pr. r < newline_rows (texts pre) \<Longrightarrow> pe \<le> length (texts pre) \<Longrightarrow>
   segments_are_valid (texts pre @ texts ps) rows pi pr pe keys (layout (length (texts pre)) ps) \<longleftrightarrow>
     (\<forall>q \<in> set ps. trusted (snd q)) \<and> distinct (map (\<lambda>q. seg_item_key (pj_segment (snd q))) ps) \<and>
     keys \<inter> set (map (\<lambda>q. seg_item_key (pj_segment (snd q))) ps) = {}"
proof (induction ps arbitrary: pre pi pr pe keys)
  case (Cons q ps)
  obtain i p where q: "q = (i, p)" by fastforce
  let ?a = "texts pre" and ?b = "texts ps" and ?row = "newline_rows (texts pre)"
  have row: "rows ! i = Some ?row" "i < length rows" "seg_item_index (pj_segment p) = i"
    using Cons.prems(4) Cons.prems(5) [rule_format, of 0] by (simp_all add: q)
  have u: "utf8 ?a" "utf8 ?b" using Cons.prems(1,2) by (auto intro: clean_texts)
  have p: "clean_projection p" using Cons.prems(2) by (simp add: q)
  have valid: "segment_is_valid (?a @ pj_text p @ ?b) (shifted_segment (pj_segment p) (length ?a)) \<longleftrightarrow> trusted p"
    by (rule segment_valid_shifted [OF u p])
  have whole: "fst (seg_whole (shifted_segment (pj_segment p) (length ?a))) = length ?a"
    "snd (seg_whole (shifted_segment (pj_segment p) (length ?a))) = length ?a + length (pj_text p)"
    using p by (auto simp: shifted_segment_def shifted_range_def clean_projection_def Let_def split: prod.splits)
  have tail: "segments_are_valid (?a @ pj_text p @ ?b) rows (Some i) (Some ?row) (length ?a + length (pj_text p))
      (insert (seg_item_key (pj_segment p)) keys) (layout (length ?a + length (pj_text p)) ps) \<longleftrightarrow>
     (\<forall>q \<in> set ps. trusted (snd q)) \<and> distinct (map (\<lambda>q. seg_item_key (pj_segment (snd q))) ps) \<and>
     insert (seg_item_key (pj_segment p)) keys \<inter> set (map (\<lambda>q. seg_item_key (pj_segment (snd q))) ps) = {}"
    if "pj_text p \<noteq> []"
  proof -
    have "?row < newline_rows (?a @ pj_text p)"
      using newline_rows_less [of ?a "pj_text p"] Cons.prems(3,4) that by (auto simp: q)
    moreover have "rows ! fst (ps ! k) = Some (newline_rows ((?a @ pj_text p) @ texts (take k ps)))" if "k < length ps" for k
      using Cons.prems(5) [rule_format, of "Suc k"] that by (simp add: q)
    ultimately show ?thesis
      using Cons.IH [of "pre @ [q]" "Some i" "Some ?row" "length ?a + length (pj_text p)"
          "insert (seg_item_key (pj_segment p)) keys"] Cons.prems(1-4,6) by (auto simp: q)
  qed
  have "Option.bind (get_at rows (seg_item_index (shifted_segment (pj_segment p) (length ?a)))) id = Some ?row"
    by (simp add: row)
  then have "segments_are_valid (?a @ texts (q # ps)) rows pi pr pe keys (layout (length ?a) (q # ps)) \<longleftrightarrow>
      seg_item_key (pj_segment p) \<notin> keys \<and> trusted p \<and>
      segments_are_valid (?a @ pj_text p @ ?b) rows (Some i) (Some ?row) (length ?a + length (pj_text p))
      (insert (seg_item_key (pj_segment p)) keys) (layout (length ?a + length (pj_text p)) ps)"
    using Cons.prems(7,8,9) by (auto simp: q valid whole row(3) not_le not_less split: option.splits)
  then show ?case using tail by (auto simp: q trusted_def)
qed simp

lemma nonempty_has_newline:
  "project_transcript_item h i item = Some p \<Longrightarrow> pj_text p \<noteq> [] \<Longrightarrow> 0 < newlines (pj_text p)"
  using project_parts [of h i item p]
  by (auto simp: header_line_def newlines_def filter_empty_conv split: if_splits)

lemma length_shown_rows:
  assumes "length rows = n" "\<forall>k < length ps. rows ! fst (ps ! k) \<noteq> None" "\<forall>i < n. i \<notin> fst ` set ps \<longrightarrow> rows ! i = None"
    and "\<forall>q \<in> set ps. fst q < n" "distinct (map fst ps)"
  shows "length (filter (\<lambda>row. row \<noteq> None) rows) = length ps"
proof -
  have "{i. i < length rows \<and> rows ! i \<noteq> None} = fst ` set ps"
    using assms(1-4) by (fastforce simp: in_set_conv_nth)
  then show ?thesis
    using distinct_card [OF assms(5)] by (simp add: length_filter_conv_card)
qed

text \<open>
  The editor trusts a document of the model, with fewer than \<open>2 ^ 32\<close> rows, exactly when every
  item it shows has some text and at most 2048 spans that lie in its body in order of start,
  end and style, and no two of them have the same key. Nothing else that the validation checks
  can fail: indices, rows, offsets and character boundaries are always right.
\<close>

lemma document_trusted_iff:
  assumes clean: "clean_items h items" and doc: "full_document h items = Some doc"
    and rows: "newlines (doc_text doc) < 2 ^ 32"
  shows "document_has_valid_segment_ranges doc \<longleftrightarrow>
    (\<forall>q \<in> set (projections h 0 items). trusted (snd q)) \<and>
    distinct (map (\<lambda>q. seg_item_key (pj_segment (snd q))) (projections h 0 items))"
proof -
  let ?ps = "projections h 0 items"
  have d: "doc_text doc = texts ?ps" "doc_segments doc = layout 0 ?ps" "length (doc_rows doc) = length items"
    "\<forall>k < length ?ps. doc_rows doc ! fst (?ps ! k) = Some (newline_rows (texts (take k ?ps)))"
    "\<forall>i < length items. i \<notin> fst ` set ?ps \<longrightarrow> doc_rows doc ! i = None"
    using full_document_layout [of h items] doc by auto
  have "\<forall>q \<in> set ?ps. fst q < length items" using projections_index by fastforce
  moreover have "distinct (map fst ?ps)" using projections_sorted strict_sorted_iff by blast
  ultimately have count: "length (filter (\<lambda>row. row \<noteq> None) (doc_rows doc)) = length ?ps"
    using length_shown_rows [OF d(3) _ d(5)] d(4) by simp
  have "0 < newlines (pj_text p)" if "(i, p) \<in> set ?ps" "pj_text p \<noteq> []" for i p
    using that nonempty_has_newline by (auto simp: projections_project)
  then have items: "\<forall>(i, p) \<in> set ?ps. i < length (doc_rows doc) \<and> seg_item_index (pj_segment p) = i \<and>
      (pj_text p \<noteq> [] \<longrightarrow> 0 < newlines (pj_text p))"
    using clean_items_projection [OF clean] d(3) by auto
  have "segments_are_valid (texts [] @ texts ?ps) (doc_rows doc) None None 0 {} (layout (length (texts [])) ?ps) \<longleftrightarrow>
      (\<forall>q \<in> set ?ps. trusted (snd q)) \<and> distinct (map (\<lambda>q. seg_item_key (pj_segment (snd q))) ?ps) \<and>
      {} \<inter> set (map (\<lambda>q. seg_item_key (pj_segment (snd q))) ?ps) = {}"
    using rows d(1,4) by (intro segments_valid_layout clean_items_row [OF clean] items projections_sorted) auto
  then show ?thesis
    using count by (simp add: document_has_valid_segment_ranges_def d(1,2))
qed

subsection \<open>Items that cost the document its trust\<close>

lemma untrusted_decorate:
  "\<not> document_has_valid_segment_ranges doc \<Longrightarrow>
     \<exists>ed'. decorate doc ed = Some (False, ed') \<and> te_segments ed' = [] \<and> te_header_texts ed' = []"
  by (simp add: decorate_def)

text \<open>
  A message without text costs the whole transcript its decoration. An agent message that has
  started and has no text yet is projected to the empty text, its segment is empty, and the
  validation refuses empty segments: a full update of the editor then drops all segments,
  whatever the other items are.
\<close>

lemma empty_message_untrusted:
  assumes doc: "full_document h items = Some doc" and item: "item \<in> set items"
    and "it_kind item = Agent" "it_title item = ''Codex''" "append_stable_stream item" "it_content item = []"
  shows "\<exists>ed'. decorate doc ed = Some (False, ed') \<and> te_segments ed' = [] \<and> te_header_texts ed' = []"
proof (rule untrusted_decorate)
  let ?ps = "projections h 0 items"
  obtain i where i: "i < length items" "items ! i = item" using item by (auto simp: in_set_conv_nth)
  obtain p where p: "project_transcript_item h i item = Some p"
    "pj_text p = []"
    using assms(3-6) by (auto simp: project_transcript_item_def is_presentationally_visible_def show_header_def
        header_line_def selectable_transcript_body_def normalize_buffer_line_endings_def Let_def)
  then have "(i, p) \<in> set ?ps" using i by (simp add: projections_project)
  then obtain k where k: "k < length ?ps" "?ps ! k = (i, p)" by (auto simp: in_set_conv_nth)
  have segs: "doc_segments doc = layout 0 ?ps" using full_document_layout [of h items] doc by auto
  have "\<not> segment_is_valid (doc_text doc) (layout 0 ?ps ! k)"
    using k p project_whole [OF p(1)]
    by (auto simp: nth_layout segment_is_valid_def shifted_segment_def shifted_range_def Let_def split: prod.splits)
  moreover have "layout 0 ?ps ! k \<in> set (doc_segments doc)" using k by (simp add: segs)
  ultimately show "\<not> document_has_valid_segment_ranges doc"
    using segments_are_valid_all unfolding document_has_valid_segment_ranges_def by blast
qed

definition started_message :: TranscriptItem where
  "started_message = \<lparr>it_key = ''m1'', it_protocol_id = Some ''m1'', it_kind = Agent, it_title = ''Codex'',
     it_status = Some ''running'', it_content = [], it_raw = JNull, it_event_count = 1, it_expanded = True,
     it_pending = None\<rparr>"

text \<open>
  The spans of a body are sorted before the body is trimmed. When a span starts in the trimmed
  whitespace (an emphasised no-break space does) it is cut to the start of the text, and then
  stands before a shorter span that starts there: the spans are out of order.
\<close>

definition nested_host :: host where
  "nested_host = example_host\<lparr>markdown_events := (\<lambda>s.
     [MdStart TagEmphasis, MdText [CHR 0xC2, CHR 0xA0], MdStart TagStrong, MdText ''foo'', MdEnd EndStrong,
      MdText '' bar'', MdEnd EndEmphasis, MdEnd EndParagraph])\<rparr>"

lemma trimmed_spans_out_of_order:
  "(let p = selectable_markdown_text nested_host ''*&nbsp;**foo** bar*''
    in body_text p = ''foo bar'' \<and> \<not> semantic_spans_are_valid (body_spans p) (0, 7) ''foo bar'')"
  by code_simp

text \<open>
  The buffer normalises line endings, the projection does not: a carriage return that the parser
  decodes from a character reference is in the document and not in the buffer, so that the
  editor is never in step with it.
\<close>

lemma carriage_return_lost:
  "te_text ed = [] \<Longrightarrow> doc_text doc = [CHR ''a'', cr, nl, CHR ''b''] \<Longrightarrow>
     Option.bind (minimal_text_edit (te_text ed) (doc_text doc)) (\<lambda>e. map_option te_text (edit_transcript e ed)) =
       Some [CHR ''a'', nl, CHR ''b'']"
proof -
  have "minimal_text_edit [] [CHR ''a'', cr, nl, CHR ''b''] = Some ((0, 0), [CHR ''a'', cr, nl, CHR ''b''])"
    by code_simp
  moreover have "buffer_edit ((0, 0), [CHR ''a'', cr, nl, CHR ''b'']) [] = Some [CHR ''a'', nl, CHR ''b'']"
    by code_simp
  moreover assume "te_text ed = []" "doc_text doc = [CHR ''a'', cr, nl, CHR ''b'']"
  ultimately show ?thesis by (simp add: edit_transcript_def Let_def request_tail_autoscroll_def)
qed

end
