(* ===== verification/EditorSearch.thy ===== *)
theory EditorSearch
  imports EditorShape
begin

text \<open>
  Search in the transcript editor: all matches of a query, as they are highlighted, with the
  word under the cursor and the Vim motions over them, and the conversion between offsets and
  points. The Unicode table of alphanumeric characters is a parameter. Selecting and scrolling
  are done by the editor widget; an operation returns the point it selects.
\<close>

subsection \<open>Words\<close>

definition is_keyword_character :: "(string \<Rightarrow> bool) \<Rightarrow> string \<Rightarrow> bool" where
  "is_keyword_character alphanumeric character = (character = ''_'' \<or> alphanumeric character)"

definition is_whole_keyword_match ::
  "(string \<Rightarrow> bool) \<Rightarrow> string \<Rightarrow> nat \<Rightarrow> nat \<Rightarrow> nat \<Rightarrow> nat \<Rightarrow> bool option" where
  "is_whole_keyword_match alphanumeric txt start finish base_offset document_len =
     do { starts_at_boundary \<leftarrow>
            (if start = 0 then Some (base_offset = 0)
             else do { before \<leftarrow> str_slice txt 0 start;
                       Some (chars before = [] \<or> \<not> is_keyword_character alphanumeric (last (chars before))) });
          ends_at_boundary \<leftarrow>
            (if finish = length txt then Some (base_offset + finish = document_len)
             else do { after \<leftarrow> str_slice txt finish (length txt);
                       Some (chars after = [] \<or> \<not> is_keyword_character alphanumeric (hd (chars after))) });
          Some (starts_at_boundary \<and> ends_at_boundary) }"

text \<open>\<open>previous_char_boundary\<close> and \<open>next_char_boundary\<close> of the editor.\<close>

definition boundary_before :: "string \<Rightarrow> nat \<Rightarrow> nat" where
  "boundary_before txt offset =
     unwrap_or (find (char_boundary txt) (rev [0 ..< min offset (length txt) + 1])) 0"

definition boundary_after :: "string \<Rightarrow> nat \<Rightarrow> nat option" where
  "boundary_after txt offset =
     (if offset \<ge> length txt then Some (length txt)
      else do { rest \<leftarrow> str_slice txt offset (length txt);
                Some (offset + (case chars rest of [] \<Rightarrow> 1 | c # _ \<Rightarrow> length c)) })"

text \<open>The two loops of \<open>keyword_range_at_offset\<close>, over the characters before and after the offset.\<close>

definition keyword_range_at_offset :: "(string \<Rightarrow> bool) \<Rightarrow> string \<Rightarrow> nat \<Rightarrow> (nat \<times> nat) option" where
  "keyword_range_at_offset alphanumeric txt offset =
     (let offset = boundary_before txt (min offset (length txt))
      in case chars (drop offset txt) of
           [] \<Rightarrow> None
         | character # later \<Rightarrow>
             if \<not> is_keyword_character alphanumeric character then None
             else
               let kw = is_keyword_character alphanumeric;
                   start = offset - length (concat (takeWhile kw (rev (chars (take offset txt)))));
                   finish = offset + length character + length (concat (takeWhile kw later))
               in Some (start, finish))"

subsection \<open>Matches\<close>

text \<open>The loop may panic, and for an empty needle it would not end; both are \<open>None\<close>.\<close>

partial_function (option) match_loop ::
  "(nat \<Rightarrow> nat \<Rightarrow> bool option) \<Rightarrow> string \<Rightarrow> string \<Rightarrow> string \<Rightarrow> nat \<Rightarrow> nat \<Rightarrow> (nat \<times> nat) list option" where
  "match_loop whole txt haystack needle base_offset search_start =
     (if search_start \<le> length haystack then
        do { rest \<leftarrow> str_slice haystack search_start (length haystack);
             case str_find rest needle of
               None \<Rightarrow> Some []
             | Some relative_start \<Rightarrow>
                 do { let start = search_start + relative_start;
                      let finish = start + length needle;
                      keep \<leftarrow> whole start finish;
                      next_start \<leftarrow> boundary_after txt start;
                      matches \<leftarrow> match_loop whole txt haystack needle base_offset next_start;
                      Some (if keep then (base_offset + start, base_offset + finish) # matches
                            else matches) } }
      else Some [])"

definition literal_match_ranges_with_options ::
  "(string \<Rightarrow> bool) \<Rightarrow> string \<Rightarrow> string \<Rightarrow> nat \<Rightarrow> nat \<Rightarrow> bool \<Rightarrow> bool \<Rightarrow> (nat \<times> nat) list option" where
  "literal_match_ranges_with_options alphanumeric txt query base_offset document_len case_sensitive whole_word =
     (if query = [] then Some []
      else
        let haystack = if case_sensitive then txt else to_ascii_lowercase txt;
            needle = if case_sensitive then query else to_ascii_lowercase query;
            whole = (\<lambda>start finish. if whole_word
              then is_whole_keyword_match alphanumeric txt start finish base_offset document_len
              else Some True)
        in match_loop whole txt haystack needle base_offset 0)"

definition find_wrapped_literal_match ::
  "(string \<Rightarrow> bool) \<Rightarrow> string \<Rightarrow> string \<Rightarrow> nat \<Rightarrow> bool \<Rightarrow> bool \<Rightarrow> bool \<Rightarrow> nat option option" where
  "find_wrapped_literal_match alphanumeric txt query cursor_offset backwards case_sensitive whole_word =
     do { matches \<leftarrow> literal_match_ranges_with_options alphanumeric txt query 0 (length txt)
            case_sensitive whole_word;
          let cursor_offset = boundary_before txt (min cursor_offset (length txt));
          Some (map_option fst
            (if backwards then
               or_else (find (\<lambda>r. fst r < cursor_offset) (rev matches))
                 (if matches = [] then None else Some (last matches))
             else
               or_else (find (\<lambda>r. fst r > cursor_offset) matches)
                 (if matches = [] then None else Some (hd matches)))) }"

subsection \<open>Points\<close>

type_synonym point = "32 word \<times> 32 word"

fun skip_rows :: "nat \<Rightarrow> string \<Rightarrow> nat \<Rightarrow> nat option" where
  "skip_rows 0 txt offset = Some offset"
| "skip_rows (Suc n) txt offset =
     (case str_find (drop offset txt) [nl] of
        None \<Rightarrow> None
      | Some line_end \<Rightarrow> skip_rows n txt (offset + (line_end + 1)))"

definition point_to_offset :: "string \<Rightarrow> point \<Rightarrow> nat" where
  "point_to_offset txt point =
     (case skip_rows (unat (fst point)) txt 0 of
        None \<Rightarrow> length txt
      | Some offset \<Rightarrow>
          let requested = min (offset + unat (snd point)) (length txt)
          in max (boundary_before txt requested) offset)"

definition offset_to_point :: "string \<Rightarrow> nat \<Rightarrow> point option" where
  "offset_to_point txt offset =
     (let offset = min offset (length txt)
      in do { before \<leftarrow> str_slice txt 0 offset;
              let row = word_of_nat (length (filter (\<lambda>b. b = nl) before));
              let column = (case str_rfind before [nl] of
                              None \<Rightarrow> offset | Some line_end \<Rightarrow> offset - line_end - 1);
              Some (row, word_of_nat column) })"

subsection \<open>The search state\<close>

definition clear_search :: "TranscriptEditor \<Rightarrow> TranscriptEditor" where
  "clear_search ed = ed\<lparr>te_search := default_search\<rparr>"

definition search_query :: "TranscriptEditor \<Rightarrow> string option" where
  "search_query ed = (if sr_query (te_search ed) \<noteq> [] then Some (sr_query (te_search ed)) else None)"

definition repeated_search_backwards :: "bool \<Rightarrow> bool \<Rightarrow> bool" where
  "repeated_search_backwards original_backwards reverse = (original_backwards \<noteq> reverse)"

text \<open>The part that \<open>set_search_query\<close> and \<open>search\<close> share: a new query forgets the active match.\<close>

definition put_query :: "string \<Rightarrow> bool \<Rightarrow> TranscriptSearchState \<Rightarrow> TranscriptSearchState" where
  "put_query query backwards s =
     (let query_changed = (sr_query s \<noteq> query \<or> sr_case_sensitive s \<or> sr_whole_word s);
          s = s\<lparr>sr_backwards := backwards, sr_case_sensitive := False, sr_whole_word := False\<rparr>
      in if query_changed
         then s\<lparr>sr_query := query, sr_active_match := None, sr_highlights_dirty := True\<rparr> else s)"

definition set_search_query :: "string \<Rightarrow> bool \<Rightarrow> TranscriptEditor \<Rightarrow> TranscriptEditor" where
  "set_search_query query backwards ed =
     (if query = [] then clear_search ed
      else ed\<lparr>te_search := put_query query backwards (te_search ed)\<rparr>)"

definition move_search_from_offset ::
  "(string \<Rightarrow> bool) \<Rightarrow> nat \<Rightarrow> bool \<Rightarrow> TranscriptEditor \<Rightarrow> (point option \<times> TranscriptEditor) option" where
  "move_search_from_offset alphanumeric cursor_offset backwards ed =
     (let s = te_search ed in
      do { found \<leftarrow> find_wrapped_literal_match alphanumeric (te_text ed) (sr_query s) cursor_offset backwards
             (sr_case_sensitive s) (sr_whole_word s);
           case found of
             None \<Rightarrow> Some (None,
               ed\<lparr>te_search := s\<lparr>sr_active_match := None, sr_highlights_dirty := True\<rparr>\<rparr>)
           | Some match_offset \<Rightarrow>
               do { point \<leftarrow> offset_to_point (te_text ed) match_offset;
                    Some (Some point,
                      ed\<lparr>te_search := s\<lparr>
                        sr_active_match := Some (match_offset, match_offset + length (sr_query s)),
                        sr_highlights_dirty := True\<rparr>\<rparr>) } })"

definition move_search_in_direction ::
  "(string \<Rightarrow> bool) \<Rightarrow> point \<Rightarrow> bool \<Rightarrow> TranscriptEditor \<Rightarrow> (point option \<times> TranscriptEditor) option" where
  "move_search_in_direction alphanumeric cursor backwards ed =
     (if sr_query (te_search ed) = [] then Some (None, ed)
      else move_search_from_offset alphanumeric (point_to_offset (te_text ed) cursor) backwards ed)"

definition repeat_search ::
  "(string \<Rightarrow> bool) \<Rightarrow> point \<Rightarrow> bool \<Rightarrow> TranscriptEditor \<Rightarrow> (point option \<times> TranscriptEditor) option" where
  "repeat_search alphanumeric cursor reverse ed =
     move_search_in_direction alphanumeric cursor
       (repeated_search_backwards (sr_backwards (te_search ed)) reverse) ed"

definition search_transcript ::
  "(string \<Rightarrow> bool) \<Rightarrow> point \<Rightarrow> string \<Rightarrow> bool \<Rightarrow> TranscriptEditor \<Rightarrow>
   (point option \<times> TranscriptEditor) option" where
  "search_transcript alphanumeric cursor query backwards ed =
     (if query = [] then Some (None, clear_search ed)
      else move_search_in_direction alphanumeric cursor backwards
        (ed\<lparr>te_search := put_query query backwards (te_search ed)\<rparr>))"

definition search_word_under_cursor ::
  "(string \<Rightarrow> bool) \<Rightarrow> point \<Rightarrow> bool \<Rightarrow> bool \<Rightarrow> bool \<Rightarrow> TranscriptEditor \<Rightarrow>
   (point option \<times> TranscriptEditor) option" where
  "search_word_under_cursor alphanumeric cursor backwards partial_word case_sensitive ed =
     (case keyword_range_at_offset alphanumeric (te_text ed) (point_to_offset (te_text ed) cursor) of
        None \<Rightarrow> Some (None, ed)
      | Some (start, finish) \<Rightarrow>
          do { query \<leftarrow> str_slice (te_text ed) start finish;
               move_search_from_offset alphanumeric start backwards
                 (ed\<lparr>te_search := (te_search ed)\<lparr>sr_query := query, sr_backwards := backwards,
                    sr_case_sensitive := case_sensitive, sr_whole_word := \<not> partial_word,
                    sr_active_match := None, sr_highlights_dirty := True\<rparr>\<rparr>) })"

definition item_body_start_at_offset :: "nat \<Rightarrow> TranscriptDocumentSegment list \<Rightarrow> nat" where
  "item_body_start_at_offset requested_offset segments =
     (case find (\<lambda>seg. fst (seg_whole seg) = requested_offset \<or>
             fst (seg_whole seg) \<le> requested_offset \<and> requested_offset < snd (seg_whole seg)) segments of
        None \<Rightarrow> requested_offset
      | Some seg \<Rightarrow> fst (seg_body seg))"

text \<open>The point where \<open>set_cursor_row\<close> puts the cursor, and the item at an offset.\<close>

definition set_cursor_row :: "32 word \<Rightarrow> TranscriptEditor \<Rightarrow> point option" where
  "set_cursor_row row ed =
     (let requested_offset = point_to_offset (te_text ed) (row, 0);
          target_offset = item_body_start_at_offset requested_offset (te_segments ed)
      in offset_to_point (te_text ed) target_offset)"

definition item_at_offset :: "nat \<Rightarrow> TranscriptEditor \<Rightarrow> nat option" where
  "item_at_offset offset ed =
     (let segments = te_segments ed;
          segment_index = min (partition_point (\<lambda>seg. snd (seg_whole seg) \<le> offset) segments)
            (length segments - 1)
      in map_option seg_item_index
           (or_else (get_at segments segment_index)
             (find (\<lambda>seg. fst (seg_whole seg) \<le> offset) (rev segments))))"

subsection \<open>The loop finds every match\<close>

lemma utf8_lower: "utf8 s \<Longrightarrow> utf8 (to_ascii_lowercase s)"
proof (induction s rule: utf8_induct)
  case (Char g s)
  have "utf8_char (map ascii_lower g)"
  proof (cases "length g = 1")
    case True
    then obtain b where "g = [b]" by (auto simp: length_Suc_conv)
    then show ?thesis using Char(1) by (auto simp: in_bytes_def of_char_ascii_lower)
  next
    case False
    have "ascii_lower b = b" if "b \<in> set g" for b
      using utf8_char_bytes [OF Char(1) False that] by (auto simp: ascii_lower_def in_bytes_def)
    then have "map ascii_lower g = g" by (simp add: map_idI)
    then show ?thesis using Char(1) by simp
  qed
  then show ?case using Char(3) by (simp add: to_ascii_lowercase_def utf8_append utf8_single)
qed (simp add: to_ascii_lowercase_def)

lemma boundary_before_eq: "boundary_before s k = back_off (char_boundary s) (min k (length s))"
proof -
  have "unwrap_or (find P (rev [0 ..< n + 1])) 0 = back_off P n" if "P 0" for P and n :: nat
    using that by (induction n) auto
  then show ?thesis unfolding boundary_before_def by (simp del: upt_Suc)
qed

lemma boundary_before_boundary [simp]: "char_boundary s (boundary_before s k)"
  unfolding boundary_before_eq by (rule back_off_holds) simp

lemma boundary_before_id [simp]: "char_boundary s k \<Longrightarrow> boundary_before s k = k"
  by (simp add: boundary_before_eq back_off_fixed char_boundary_le min_absorb1)

text \<open>The next boundary, with none in between.\<close>

lemma boundary_after_ok:
  assumes "char_boundary s k" "k < length s"
  shows "\<exists>m. boundary_after s k = Some m \<and> k < m \<and> m \<le> length s \<and> char_boundary s m \<and>
    (\<forall>j. k < j \<and> j < m \<longrightarrow> \<not> char_boundary s j)"
proof -
  obtain b bs where d: "drop k s = b # bs" using assms(2) by (cases "drop k s") auto
  let ?c = "b # takeWhile is_cont bs"
  have c: "chars (drop k s) = ?c # chars (dropWhile is_cont bs)" by (simp add: d)
  have m: "char_boundary s (k + length ?c)"
    using char_boundary_shift [OF assms(1) first_char_boundary [OF c]] .
  have "\<not> char_boundary s j" if "k < j" "j < k + length ?c" for j
  proof -
    have "takeWhile is_cont bs ! (j - k - 1) = bs ! (j - k - 1)" using that by (intro takeWhile_nth) auto
    moreover have "takeWhile is_cont bs ! (j - k - 1) \<in> set (takeWhile is_cont bs)" using that by (intro nth_mem) auto
    moreover have "s ! j = bs ! (j - k - 1)"
    proof -
      have "s ! j = drop k s ! (j - k)" using that assms(2) by simp
      then show ?thesis using that by (simp add: d nth_Cons')
    qed
    ultimately have "is_cont (s ! j)" by (metis set_takeWhileD)
    moreover have "j < length s" using that char_boundary_le [OF m] by linarith
    ultimately show ?thesis using that by (simp add: char_boundary_def)
  qed
  moreover have "boundary_after s k = Some (k + length ?c)"
    using assms c by (simp add: boundary_after_def str_slice_def)
  ultimately show ?thesis
    using m char_boundary_le [OF m] by (intro exI [of _ "k + length ?c"]) auto
qed

lemma match_loop_ok:
  assumes hay: "length hay = length s" "\<And>i. char_boundary hay i \<longleftrightarrow> char_boundary s i"
    and needle: "needle \<noteq> []" and bd: "\<And>i. match_at hay needle i \<Longrightarrow> char_boundary s i"
    and whole: "\<And>i. match_at hay needle i \<Longrightarrow> whole i (i + length needle) = Some (keep i)"
  shows "char_boundary s k \<Longrightarrow> match_loop whole s hay needle base k =
    Some (map (\<lambda>i. (base + i, base + (i + length needle))) (filter (\<lambda>i. match_at hay needle i \<and> keep i) [k ..< length s]))"
proof (induction "length s - k" arbitrary: k rule: less_induct)
  case less
  have k: "k \<le> length hay" "char_boundary hay k" using less.prems hay char_boundary_le by metis+
  then have rest: "str_slice hay k (length hay) = Some (drop k hay)" by (simp add: str_slice_def)
  show ?case
  proof (cases "str_find (drop k hay) needle")
    case None
    then have "\<not> match_at hay needle (k + i)" for i using match_at_drop [OF k(1)] by (auto simp: str_find_None)
    then have "\<forall>i \<in> set [k ..< length s]. \<not> match_at hay needle i" by (metis atLeastLessThan_iff atLeastLessThan_upt le_iff_add)
    then have "filter (\<lambda>i. match_at hay needle i \<and> keep i) [k ..< length s] = []" by (simp add: filter_empty_conv)
    then show ?thesis using k rest None by (simp add: match_loop.simps)
  next
    case (Some r)
    let ?i = "k + r"
    from str_find_Some [OF Some] have m: "match_at hay needle ?i" and first: "\<And>j. j < r \<Longrightarrow> \<not> match_at hay needle (k + j)"
      using match_at_drop [OF k(1)] by auto
    have i: "?i < length s" using match_at_length [OF m] needle hay(1) by (cases needle) auto
    obtain n where n: "boundary_after s ?i = Some n" "?i < n" "n \<le> length s" "char_boundary s n"
      "\<And>j. ?i < j \<Longrightarrow> j < n \<Longrightarrow> \<not> char_boundary s j"
      using boundary_after_ok [OF bd [OF m] i] by blast
    have "[k ..< length s] = [k ..< ?i] @ [?i] @ [?i + 1 ..< n] @ [n ..< length s]"
      using n(2,3) i by (metis Suc_eq_plus1 Suc_leI append_Cons append_Nil le_add1 less_imp_le_nat upt_add_eq_append upt_conv_Cons le_add_diff_inverse)
    moreover have "filter (\<lambda>i. match_at hay needle i \<and> keep i) [k ..< ?i] = []"
      using first by (auto simp: filter_empty_conv) (metis le_add_diff_inverse nat_add_left_cancel_less)
    moreover have "filter (\<lambda>i. match_at hay needle i \<and> keep i) [?i + 1 ..< n] = []"
    proof -
      have "\<not> match_at hay needle j" if "?i < j" "j < n" for j using bd n(5) that by blast
      then show ?thesis by (auto simp: filter_empty_conv Suc_le_eq)
    qed
    moreover have "match_loop whole s hay needle base n =
        Some (map (\<lambda>i. (base + i, base + (i + length needle))) (filter (\<lambda>i. match_at hay needle i \<and> keep i) [n ..< length s]))"
      using n i by (intro less.hyps) auto
    ultimately show ?thesis
      using k rest Some whole [OF m] n(1) m by (subst match_loop.simps) (simp add: Let_def)
  qed
qed

text \<open>The query stands at an offset, as a whole word if that is asked for.\<close>

definition occurs ::
  "(string \<Rightarrow> bool) \<Rightarrow> string \<Rightarrow> string \<Rightarrow> nat \<Rightarrow> nat \<Rightarrow> bool \<Rightarrow> bool \<Rightarrow> nat \<Rightarrow> bool" where
  "occurs alphanumeric s query base len case_sensitive whole_word i \<longleftrightarrow>
     (if case_sensitive then match_at s query i else caseless_match s query i) \<and>
     (whole_word \<longrightarrow> is_whole_keyword_match alphanumeric s i (i + length query) base len = Some True)"

lemma match_end_boundary:
  assumes "utf8 hay" "utf8 needle" "match_at hay needle i" "char_boundary hay i"
  shows "char_boundary hay (i + length needle)"
proof -
  obtain r where r: "drop i hay = needle @ r" using assms(3) by (auto simp: match_at_def prefix_def)
  have "utf8 (needle @ r)" using utf8_take_drop(2) [OF assms(1,4)] by (simp add: r)
  then show ?thesis
    using char_boundary_shift [OF assms(4), of "length needle"] utf8_prefix_boundary [OF assms(2), of r] r by simp
qed

lemma match_start_boundary:
  assumes "utf8 needle" "needle \<noteq> []" "match_at hay needle i"
  shows "char_boundary hay i"
proof (cases "i = 0")
  case False
  obtain r where r: "drop i hay = needle @ r" using assms(3) by (auto simp: match_at_def prefix_def)
  obtain b bs where b: "needle = b # bs" using assms(2) by (cases needle) auto
  have "\<not> is_cont b" using utf8_clean_start [OF assms(1)] by (simp add: b)
  moreover have "i < length hay" using r b by (metis append_Cons drop_eq_Nil linorder_not_le list.distinct(1))
  moreover from this have "hay ! i = b" using r b by (metis Cons_nth_drop_Suc append_Cons list.inject)
  ultimately show ?thesis by (simp add: char_boundary_def)
qed simp

lemma whole_match_total:
  assumes "char_boundary s i" "char_boundary s j"
  shows "\<exists>b. is_whole_keyword_match alphanumeric s i j base len = Some b"
proof -
  have "str_slice s 0 i = Some (take i s)" "str_slice s j (length s) = Some (drop j s)"
    using assms by (auto simp: str_slice_def dest: char_boundary_le)
  then show ?thesis by (auto simp: is_whole_keyword_match_def)
qed

lemma literal_matches_spec:
  assumes u: "utf8 s" "utf8 query" and q: "query \<noteq> []"
  shows "literal_match_ranges_with_options alphanumeric s query base len case_sensitive whole_word =
    Some (map (\<lambda>i. (base + i, base + (i + length query)))
      (filter (occurs alphanumeric s query base len case_sensitive whole_word) [0 ..< length s]))"
proof -
  let ?h = "if case_sensitive then s else to_ascii_lowercase s"
    and ?n = "if case_sensitive then query else to_ascii_lowercase query"
  let ?whole = "\<lambda>i j. if whole_word then is_whole_keyword_match alphanumeric s i j base len else Some True"
  let ?keep = "\<lambda>i. whole_word \<longrightarrow> is_whole_keyword_match alphanumeric s i (i + length query) base len = Some True"
  have l: "length ?h = length s" "length ?n = length query" and b: "\<And>i. char_boundary ?h i \<longleftrightarrow> char_boundary s i"
    by simp_all
  have n: "?n \<noteq> []" using q by (auto simp: to_ascii_lowercase_def)
  have uh: "utf8 ?h" "utf8 ?n" using u utf8_lower by auto
  have bd: "char_boundary s i" "char_boundary s (i + length query)" if "match_at ?h ?n i" for i
    using match_start_boundary [OF uh(2) n that] match_end_boundary [OF uh that] b l(2) by metis+
  have w: "?whole i (i + length ?n) = Some (?keep i)" if "match_at ?h ?n i" for i
    using whole_match_total [OF bd [OF that], of alphanumeric base len] by (auto simp: l(2))
  have "match_loop ?whole s ?h ?n base 0 =
      Some (map (\<lambda>i. (base + i, base + (i + length ?n))) (filter (\<lambda>i. match_at ?h ?n i \<and> ?keep i) [0 ..< length s]))"
    by (rule match_loop_ok [where whole = ?whole and keep = ?keep, OF l(1) b n bd(1) w]) auto
  moreover have "(\<lambda>i. match_at ?h ?n i \<and> ?keep i) = occurs alphanumeric s query base len case_sensitive whole_word"
    by (auto simp: occurs_def caseless_match_def fun_eq_iff)
  ultimately show ?thesis
    using q by (simp add: literal_match_ranges_with_options_def Let_def)
qed

lemma occurs_lt: "query \<noteq> [] \<Longrightarrow> occurs alphanumeric s query base len cs ww i \<Longrightarrow> i < length s"
  using match_at_length [of s query i] caseless_match_lt [of query s i]
  by (cases query) (auto simp: occurs_def split: if_splits)

text \<open>The first element of an ordered list with a property.\<close>

lemma find_first:
  "find P xs = Some x \<Longrightarrow> sorted_wrt R xs \<Longrightarrow> x \<in> set xs \<and> P x \<and> (\<forall>y \<in> set xs. P y \<longrightarrow> y = x \<or> R x y)"
  by (induction xs) (auto split: if_splits)

lemma find_map: "find P (map f xs) = map_option f (find (P \<circ> f) xs)"
  by (induction xs) auto

definition pick :: "bool \<Rightarrow> nat \<Rightarrow> nat list \<Rightarrow> nat option" where
  "pick backwards c xs =
     (if backwards then or_else (find (\<lambda>i. i < c) (rev xs)) (find (\<lambda>i. True) (rev xs))
      else or_else (find (\<lambda>i. c < i) xs) (find (\<lambda>i. True) xs))"

lemma pick_ok:
  assumes "sorted_wrt (<) xs"
  shows "case pick backwards c xs of
      None \<Rightarrow> \<forall>i. i \<notin> set xs
    | Some k \<Rightarrow> k \<in> set xs \<and>
        (if backwards
         then k < c \<and> (\<forall>i. i \<in> set xs \<and> i < c \<longrightarrow> i \<le> k) \<or> c \<le> k \<and> (\<forall>i. i \<in> set xs \<longrightarrow> c \<le> i \<and> i \<le> k)
         else c < k \<and> (\<forall>i. i \<in> set xs \<and> c < i \<longrightarrow> k \<le> i) \<or> k \<le> c \<and> (\<forall>i. i \<in> set xs \<longrightarrow> i \<le> c \<and> k \<le> i))"
proof (cases backwards)
  case True
  have "sorted_wrt (>) (rev xs)" using assms by (simp add: sorted_wrt_rev)
  note f = find_first [OF _ this]
  have g: "x \<in> set xs \<and> P x \<and> (\<forall>y. y \<in> set xs \<and> P y \<longrightarrow> y \<le> x)" if "find P (rev xs) = Some x" for P x
    using f [OF that] by auto
  have n: "\<forall>y. y \<in> set xs \<longrightarrow> \<not> P y" if "find P (rev xs) = None" for P
    using that by (simp add: find_None_iff)
  have e: "pick backwards c xs = or_else (find (\<lambda>i. i < c) (rev xs)) (find (\<lambda>i. True) (rev xs))"
    using True by (simp add: pick_def)
  show ?thesis
  proof (cases "find (\<lambda>i. i < c) (rev xs)")
    case None
    show ?thesis
    proof (cases "find (\<lambda>i. True) (rev xs)")
      case (Some x)
      show ?thesis unfolding e None Some using g [OF Some] n [OF None] True by (simp add: not_less)
    qed (unfold e None, use n [of "\<lambda>i. True"] in simp)
  next
    case (Some x)
    show ?thesis unfolding e Some using g [OF Some] True by simp
  qed
next
  case False
  note f = find_first [OF _ assms]
  have g: "x \<in> set xs \<and> P x \<and> (\<forall>y. y \<in> set xs \<and> P y \<longrightarrow> x \<le> y)" if "find P xs = Some x" for P x
    using f [OF that] by auto
  have n: "\<forall>y. y \<in> set xs \<longrightarrow> \<not> P y" if "find P xs = None" for P
    using that by (simp add: find_None_iff)
  have e: "pick backwards c xs = or_else (find (\<lambda>i. c < i) xs) (find (\<lambda>i. True) xs)"
    using False by (simp add: pick_def)
  show ?thesis
  proof (cases "find (\<lambda>i. c < i) xs")
    case None
    show ?thesis
    proof (cases "find (\<lambda>i. True) xs")
      case (Some x)
      show ?thesis unfolding e None Some using g [OF Some] n [OF None] False by (simp add: not_less)
    qed (unfold e None, use n [of "\<lambda>i. True"] in simp)
  next
    case (Some x)
    show ?thesis unfolding e Some using g [OF Some] False by simp
  qed
qed

text \<open>
  Search in the editor is complete. It never panics, and it returns no match only when there
  is none. Forward, it returns the nearest match that starts behind the cursor, or else the
  first of the text; backward the nearest one before it, or else the last. Whole words and case
  are respected, and matches may overlap.
\<close>

lemma literal_search_complete:
  fixes alphanumeric :: "string \<Rightarrow> bool" and s query :: string and case_sensitive whole_word :: bool
    and cursor :: nat
  assumes "utf8 s" "utf8 query" "query \<noteq> []"
  defines "M \<equiv> occurs alphanumeric s query 0 (length s) case_sensitive whole_word"
    and "c \<equiv> boundary_before s (min cursor (length s))"
  shows "\<exists>r. find_wrapped_literal_match alphanumeric s query cursor backwards case_sensitive whole_word = Some r \<and>
    (case r of
       None \<Rightarrow> \<forall>i. \<not> M i
     | Some k \<Rightarrow> M k \<and>
         (if backwards
          then k < c \<and> (\<forall>i. M i \<and> i < c \<longrightarrow> i \<le> k) \<or> c \<le> k \<and> (\<forall>i. M i \<longrightarrow> c \<le> i \<and> i \<le> k)
          else c < k \<and> (\<forall>i. M i \<and> c < i \<longrightarrow> k \<le> i) \<or> k \<le> c \<and> (\<forall>i. M i \<longrightarrow> i \<le> c \<and> k \<le> i)))"
proof -
  let ?L = "filter M [0 ..< length s]" and ?f = "\<lambda>i. (i, i + length query)"
  have set: "i \<in> set ?L \<longleftrightarrow> M i" for i using occurs_lt [OF assms(3)] by (auto simp: M_def)
  have sorted: "sorted_wrt (<) ?L" by (simp add: sorted_wrt_filter)
  then have rsorted: "sorted_wrt (>) (rev ?L)" by (simp add: sorted_wrt_rev)
  have matches: "literal_match_ranges_with_options alphanumeric s query 0 (length s) case_sensitive whole_word =
      Some (map ?f ?L)"
    using literal_matches_spec [OF assms(1-3), of alphanumeric 0 "length s"] by (simp add: M_def)
  have hd: "find (\<lambda>i. True) ?L = (if ?L = [] then None else Some (hd ?L))" by (cases ?L) auto
  have lst: "find (\<lambda>i. True) (rev ?L) = (if ?L = [] then None else Some (last ?L))"
    by (cases ?L rule: rev_cases) auto
  have "find_wrapped_literal_match alphanumeric s query cursor backwards case_sensitive whole_word =
      Some (if backwards then or_else (find (\<lambda>i. i < c) (rev ?L)) (find (\<lambda>i. True) (rev ?L))
            else or_else (find (\<lambda>i. c < i) ?L) (find (\<lambda>i. True) ?L))"
    by (simp add: find_wrapped_literal_match_def matches c_def Let_def rev_map find_map o_def
        hd lst or_else_def hd_map last_map option.map_comp split: option.split)
  then have r: "find_wrapped_literal_match alphanumeric s query cursor backwards case_sensitive whole_word =
      Some (pick backwards c ?L)" by (simp add: pick_def)
  show ?thesis
    using pick_ok [OF sorted, of backwards c] unfolding r set by (auto split: option.splits)
qed

subsection \<open>Points and offsets\<close>

lemma match_at_single: "match_at s [b] i \<longleftrightarrow> i < length s \<and> s ! i = b"
  by (cases "i < length s") (auto simp: match_at_def Cons_nth_drop_Suc [symmetric])

text \<open>Skipping as many rows as there are line breaks before an offset leads to the start of its line.\<close>

lemma skip_rows_line:
  "k \<le> i \<Longrightarrow> i \<le> length s \<Longrightarrow> length (filter (\<lambda>b. b = nl) (take (i - k) (drop k s))) = n \<Longrightarrow>
   \<exists>st. skip_rows n s k = Some st \<and> k \<le> st \<and> st \<le> i \<and> (\<forall>j. st \<le> j \<and> j < i \<longrightarrow> s ! j \<noteq> nl) \<and>
     (st = k \<or> 0 < st \<and> s ! (st - 1) = nl)"
proof (induction n arbitrary: k)
  case 0
  have "s ! j \<noteq> nl" if "k \<le> j" "j < i" for j
  proof -
    have "take (i - k) (drop k s) ! (j - k) \<in> set (take (i - k) (drop k s))"
      using that 0 by (intro nth_mem) auto
    then show ?thesis using 0 that by (auto simp: filter_empty_conv)
  qed
  then show ?case using 0 by auto
next
  case (Suc n)
  let ?part = "take (i - k) (drop k s)"
  obtain e where e: "str_find (drop k s) [nl] = Some e"
  proof (cases "str_find (drop k s) [nl]")
    case None
    then have "nl \<notin> set (drop k s)"
      by (auto simp: str_find_None match_at_single in_set_conv_nth)
    then have "filter (\<lambda>b. b = nl) ?part = []" by (auto simp: filter_empty_conv dest: in_set_takeD)
    with Suc.prems show ?thesis by simp
  qed
  from str_find_Some [OF e] have e': "e < length (drop k s)" "drop k s ! e = nl" "\<And>j. j < e \<Longrightarrow> drop k s ! j \<noteq> nl"
    by (auto simp: match_at_single)
  have none: "filter (\<lambda>b. b = nl) (take m (drop k s)) = []" if "m \<le> e" for m
    using e'(1,3) that by (auto simp: filter_empty_conv in_set_conv_nth)
  have le: "e < i - k"
  proof (rule ccontr)
    assume "\<not> e < i - k"
    then show False using none [of "i - k"] Suc.prems(3) by simp
  qed
  have "?part = take e (drop k s) @ nl # take (i - (k + (e + 1))) (drop (k + (e + 1)) s)"
  proof -
    have "?part = take e ?part @ ?part ! e # drop (Suc e) ?part"
      using le e'(1) Suc.prems by (intro id_take_nth_drop) auto
    then show ?thesis using le e'(2) by (simp add: drop_take add.commute add.left_commute min_absorb1)
  qed
  then have "length (filter (\<lambda>b. b = nl) (take (i - (k + (e + 1))) (drop (k + (e + 1)) s))) = n"
    using Suc.prems(3) none [of e] by simp
  moreover have "k + (e + 1) \<le> i" using le by simp
  ultimately obtain st where st: "skip_rows n s (k + (e + 1)) = Some st"
    "k + (e + 1) \<le> st" "st \<le> i" "\<forall>j. st \<le> j \<and> j < i \<longrightarrow> s ! j \<noteq> nl"
    "st = k + (e + 1) \<or> 0 < st \<and> s ! (st - 1) = nl" using Suc.IH [OF _ Suc.prems(2)] by blast
  moreover have "s ! (k + e) = nl" using e'(1,2) by simp
  ultimately show ?case using e by auto
qed

text \<open>
  Offsets and points agree. In a text of less than \<open>2 ^ 32\<close> bytes every character boundary has
  a point, and that point leads back to it.
\<close>

lemma point_round_trip:
  assumes "char_boundary s i" "length s < 2 ^ 32"
  shows "\<exists>p. offset_to_point s i = Some p \<and> point_to_offset s p = i"
proof -
  let ?n = "length (filter (\<lambda>b. b = nl) (take i s))"
  have i: "i \<le> length s" using assms(1) by (rule char_boundary_le)
  obtain st where st: "skip_rows ?n s 0 = Some st" "st \<le> i" "\<And>j. st \<le> j \<Longrightarrow> j < i \<Longrightarrow> s ! j \<noteq> nl"
    "st = 0 \<or> 0 < st \<and> s ! (st - 1) = nl"
    using skip_rows_line [of 0 i s ?n] i by auto
  have col: "(case str_rfind (take i s) [nl] of None \<Rightarrow> i | Some e \<Rightarrow> i - e - 1) = i - st"
  proof (cases "str_rfind (take i s) [nl]")
    case None
    then have "s ! j \<noteq> nl" if "j < i" for j using that i by (auto simp: str_rfind_None match_at_single)
    then have "st = 0" using st(2,4) by (cases st) auto
    then show ?thesis using None by simp
  next
    case (Some e)
    from str_rfind_Some [OF Some] i have e: "e < i" "s ! e = nl" "\<And>j. e < j \<Longrightarrow> j < i \<Longrightarrow> s ! j \<noteq> nl"
      by (auto simp: match_at_single)
    have "e < st" using e(1,2) st(3) [of e] by (rule_tac ccontr) auto
    moreover have "\<not> e < st - 1" using e(1) e(3) [of "st - 1"] st(2,4) less_le_trans [of "st - 1" st i] by (cases "st = 0") auto
    ultimately have "st = e + 1" by linarith
    then show ?thesis using Some by simp
  qed
  have "?n \<le> length s" using length_filter_le [of "\<lambda>b. b = nl" "take i s"] by simp
  then have "?n < 2 ^ 32" "i - st < 2 ^ 32" using assms(2) i by linarith+
  then have small: "unat (word_of_nat ?n :: 32 word) = ?n" "unat (word_of_nat (i - st) :: 32 word) = i - st"
    by (simp_all add: unat_of_nat)
  have "offset_to_point s i = Some (word_of_nat ?n, word_of_nat (i - st))"
    using assms(1) i col by (simp add: offset_to_point_def str_slice_def min_absorb1 Let_def)
  moreover have "point_to_offset s (word_of_nat ?n, word_of_nat (i - st)) = i"
    using st(1,2) i small assms(1) by (simp add: point_to_offset_def Let_def min_absorb1)
  ultimately show ?thesis by blast
qed

end
