(* ===== verification/EditorRanges.thy ===== *)
theory EditorRanges
  imports EditorSearch
begin

text \<open>
  What the transcript editor decorates: the segments and rows near the viewport, the byte ranges
  of diffs, Markdown and shell commands, the native headers to mount, and whether the view
  follows the tail. Colours and blocks are the editor widget's; the captures of the shell
  grammar are a parameter, and so is the comparison of scroll positions, which are floats.
\<close>

subsection \<open>The viewport\<close>

datatype ViewportWindowChoice = ReuseCached | Recenter

definition viewport_window_choice :: "nat \<times> nat \<Rightarrow> (nat \<times> nat) option \<Rightarrow> ViewportWindowChoice" where
  "viewport_window_choice visible cached =
     (if (case cached of Some c \<Rightarrow> fst c \<le> fst visible \<and> snd visible \<le> snd c | None \<Rightarrow> False)
      then ReuseCached else Recenter)"

definition VIEWPORT_OVERSCAN_ROWS :: "32 word" where "VIEWPORT_OVERSCAN_ROWS = 64"

definition saturating_sub_u32 :: "32 word \<Rightarrow> 32 word \<Rightarrow> 32 word" where
  "saturating_sub_u32 a b = (if b \<le> a then a - b else 0)"

definition saturating_add_u32 :: "32 word \<Rightarrow> 32 word \<Rightarrow> 32 word" where
  "saturating_add_u32 a b = (if a \<le> a + b then a + b else - 1)"

definition overscanned_point_range :: "point \<times> point \<Rightarrow> point \<Rightarrow> 32 word \<Rightarrow> point \<times> point" where
  "overscanned_point_range visible_range max_point overscan_rows =
     (let start_row = saturating_sub_u32 (fst (fst visible_range)) overscan_rows;
          end_row = saturating_add_u32 (saturating_add_u32 (fst (snd visible_range)) overscan_rows) 1;
          start = (if start_row \<ge> fst max_point then min (fst max_point, 0) max_point else (start_row, 0));
          finish = (if end_row > fst max_point then max_point else (end_row, 0))
      in (start, max finish start))"

definition intersecting :: "(TranscriptDocumentSegment \<Rightarrow> nat \<times> nat) \<Rightarrow> TranscriptDocumentSegment list \<Rightarrow> nat \<times> nat \<Rightarrow> nat \<times> nat" where
  "intersecting span_range segments byte_range =
     (if fst byte_range \<ge> snd byte_range then (0, 0)
      else
        let start = partition_point (\<lambda>seg. snd (span_range seg) \<le> fst byte_range) segments;
            finish = partition_point (\<lambda>seg. fst (span_range seg) < snd byte_range) segments
        in (min start finish, finish))"

definition header_segments_intersecting :: "TranscriptDocumentSegment list \<Rightarrow> nat \<times> nat \<Rightarrow> nat \<times> nat" where
  "header_segments_intersecting = intersecting seg_header"

definition segments_intersecting :: "TranscriptDocumentSegment list \<Rightarrow> nat \<times> nat \<Rightarrow> nat \<times> nat" where
  "segments_intersecting = intersecting seg_whole"

definition header_window_delta :: "nat list \<Rightarrow> nat \<times> nat \<Rightarrow> nat list \<times> nat list" where
  "header_window_delta mounted_positions desired =
     (let mounted = remdups_adj (sort mounted_positions);
          remove = filter (\<lambda>position. \<not> (fst desired \<le> position \<and> position < snd desired)) mounted;
          insert = filter (\<lambda>position. binary_search_by_key position id mounted = None)
                     [fst desired ..< snd desired]
      in (remove, insert))"

definition intersect_ranges :: "nat \<times> nat \<Rightarrow> nat \<times> nat \<Rightarrow> (nat \<times> nat) option" where
  "intersect_ranges l r =
     (let intersection = (max (fst l) (fst r), min (snd l) (snd r))
      in if fst intersection < snd intersection then Some intersection else None)"

subsection \<open>Diffs\<close>

record DiffHighlightRanges =
  dh_file_headers :: "(nat \<times> nat) list"
  dh_hunks :: "(nat \<times> nat) list"
  dh_additions :: "(nat \<times> nat) list"
  dh_deletions :: "(nat \<times> nat) list"
  dh_parsed_bytes :: nat

definition is_diff_file_header :: "string \<Rightarrow> bool" where
  "is_diff_file_header line =
     list_ex (\<lambda>p. starts_with line p)
       [''diff --git '', ''--- '', ''+++ '', ''index '', ''Index: '', ''new file mode '',
        ''deleted file mode '', ''old mode '', ''new mode '', ''similarity index '',
        ''dissimilarity index '', ''rename from '', ''rename to '', ''copy from '', ''copy to '',
        ''Binary files '', ''GIT binary patch'']"

lemma rest_is_shorter: "s \<noteq> [] \<Longrightarrow> length (dropWhile P s) - Suc 0 < length s"
  using length_dropWhile_le [of P s] by (cases "length s") auto

text \<open>\<open>split_inclusive('\n')\<close>: every line with its line break.\<close>

function split_inclusive :: "string \<Rightarrow> string list" where
  "split_inclusive s =
     (if s = [] then []
      else let line = takeWhile (\<lambda>b. b \<noteq> nl) s; rest = dropWhile (\<lambda>b. b \<noteq> nl) s
           in if rest = [] then [line] else (line @ [nl]) # split_inclusive (tl rest))"
  by pat_completeness auto
termination
  by (relation "measure length") (auto simp: rest_is_shorter)

declare split_inclusive.simps [simp del]

definition strip_line_end :: "string \<Rightarrow> string" where
  "strip_line_end raw_line =
     (let line = (if raw_line \<noteq> [] \<and> last raw_line = nl then butlast raw_line else raw_line)
      in if line \<noteq> [] \<and> last line = cr then butlast line else line)"

definition push_diff_line :: "string \<Rightarrow> nat \<times> nat \<Rightarrow> DiffHighlightRanges \<Rightarrow> DiffHighlightRanges" where
  "push_diff_line line line_range d =
     (if fst line_range \<ge> snd line_range then d
      else if is_diff_file_header line then d\<lparr>dh_file_headers := dh_file_headers d @ [line_range]\<rparr>
      else if starts_with line ''@@'' then d\<lparr>dh_hunks := dh_hunks d @ [line_range]\<rparr>
      else if starts_with line ''+'' then d\<lparr>dh_additions := dh_additions d @ [line_range]\<rparr>
      else if starts_with line ''-'' then d\<lparr>dh_deletions := dh_deletions d @ [line_range]\<rparr>
      else d)"

fun parse_diff_lines :: "nat \<Rightarrow> string list \<Rightarrow> DiffHighlightRanges \<Rightarrow> DiffHighlightRanges" where
  "parse_diff_lines offset [] d = d"
| "parse_diff_lines offset (raw_line # ls) d =
     (let line = strip_line_end raw_line
      in parse_diff_lines (offset + length raw_line) ls
           (push_diff_line line (offset, offset + length line) d))"

definition parse_body :: "string \<Rightarrow> nat \<Rightarrow> DiffHighlightRanges \<Rightarrow> DiffHighlightRanges" where
  "parse_body txt base_offset d =
     parse_diff_lines base_offset (split_inclusive txt)
       (d\<lparr>dh_parsed_bytes := dh_parsed_bytes d + length txt\<rparr>)"

definition visible_diff_body_ranges :: "TranscriptDocumentSegment list \<Rightarrow> nat \<times> nat \<Rightarrow> (nat \<times> nat) list" where
  "visible_diff_body_ranges segments viewport =
     (let (start, finish) = segments_intersecting segments viewport
      in filter_map (\<lambda>seg. intersect_ranges (seg_body seg) viewport)
           (filter (\<lambda>seg. seg_kind seg = Diff) (take (finish - start) (drop start segments))))"

subsection \<open>Semantic spans\<close>

definition MAX_SCANNED_SEMANTIC_SPANS_PER_VIEWPORT :: nat where
  "MAX_SCANNED_SEMANTIC_SPANS_PER_VIEWPORT = 4096"

definition MAX_SEMANTIC_SPAN_LOOKBEHIND :: nat where "MAX_SEMANTIC_SPAN_LOOKBEHIND = 128"

text \<open>The ten lists of the source are one function of the style.\<close>

record SemanticHighlightRanges =
  sh_ranges :: "TranscriptSemanticStyle \<Rightarrow> (nat \<times> nat) list"
  sh_scanned_spans :: nat

definition push_highlight ::
  "TranscriptSemanticStyle \<Rightarrow> nat \<times> nat \<Rightarrow> SemanticHighlightRanges \<Rightarrow> SemanticHighlightRanges" where
  "push_highlight style span_range hl =
     hl\<lparr>sh_ranges := (sh_ranges hl)(style := sh_ranges hl style @ [span_range])\<rparr>"

text \<open>The inner loop; \<open>False\<close> is the break out of both loops.\<close>

fun scan_spans ::
  "nat \<times> nat \<Rightarrow> TranscriptSemanticSpan list \<Rightarrow> SemanticHighlightRanges \<Rightarrow> bool \<times> SemanticHighlightRanges" where
  "scan_spans viewport [] hl = (True, hl)"
| "scan_spans viewport (span # spans) hl =
     (if sh_scanned_spans hl \<ge> MAX_SCANNED_SEMANTIC_SPANS_PER_VIEWPORT then (False, hl)
      else
        let hl = hl\<lparr>sh_scanned_spans := sh_scanned_spans hl + 1\<rparr>
        in scan_spans viewport spans
             (case intersect_ranges (span_start span, span_end span) viewport of
                None \<Rightarrow> hl | Some span_range \<Rightarrow> push_highlight (span_style span) span_range hl))"

definition spans_to_scan :: "nat \<times> nat \<Rightarrow> TranscriptSemanticSpan list \<Rightarrow> TranscriptSemanticSpan list option" where
  "spans_to_scan viewport spans =
     (let first_starting_in_viewport = partition_point (\<lambda>span. span_start span < fst viewport) spans;
          last_starting_in_viewport = partition_point (\<lambda>span. span_start span < snd viewport) spans;
          scan_start = first_starting_in_viewport - MAX_SEMANTIC_SPAN_LOOKBEHIND
      in if scan_start \<le> last_starting_in_viewport
         then Some (take (last_starting_in_viewport - scan_start) (drop scan_start spans)) else None)"

fun scan_segments ::
  "nat \<times> nat \<Rightarrow> TranscriptDocumentSegment list \<Rightarrow> SemanticHighlightRanges \<Rightarrow> SemanticHighlightRanges option" where
  "scan_segments viewport [] hl = Some hl"
| "scan_segments viewport (seg # segs) hl =
     do { spans \<leftarrow> spans_to_scan viewport (seg_spans seg);
          let (continue, hl) = scan_spans viewport spans hl;
          if continue then scan_segments viewport segs hl else Some hl }"

definition visible_semantic_highlight_ranges ::
  "TranscriptDocumentSegment list \<Rightarrow> nat \<times> nat \<Rightarrow> SemanticHighlightRanges option" where
  "visible_semantic_highlight_ranges segments viewport =
     (let (start, finish) = segments_intersecting segments viewport
      in scan_segments viewport (take (finish - start) (drop start segments))
           \<lparr>sh_ranges = (\<lambda>style. []), sh_scanned_spans = 0\<rparr>)"

definition is_monospace :: "TranscriptSemanticStyle \<Rightarrow> bool" where
  "is_monospace style \<longleftrightarrow> style \<in> {InlineCode, CodeBlock, CommandInvocation, CommandOutput}"

text \<open>The merging loop; the vector's last element is that of the list.\<close>

fun merge_ranges :: "(nat \<times> nat) list \<Rightarrow> (nat \<times> nat) list \<Rightarrow> (nat \<times> nat) list" where
  "merge_ranges merged [] = merged"
| "merge_ranges merged (span_range # ranges) =
     (if merged \<noteq> [] \<and> fst span_range \<le> snd (last merged)
      then merge_ranges (butlast merged @ [(fst (last merged), max (snd (last merged)) (snd span_range))]) ranges
      else if fst span_range < snd span_range then merge_ranges (merged @ [span_range]) ranges
      else merge_ranges merged ranges)"

definition semantic_monospace_ranges :: "TranscriptDocumentSegment list \<Rightarrow> (nat \<times> nat) list" where
  "semantic_monospace_ranges segments =
     merge_ranges []
       (sort_key (\<lambda>r. (fst r, snd r))
         (map (\<lambda>span. (span_start span, span_end span))
           (filter (\<lambda>span. is_monospace (span_style span)) (concat (map seg_spans segments)))))"

subsection \<open>The shell\<close>

datatype ShellSemanticKind =
    ShFunction | ShVariable | ShKeyword | ShOperator | ShConstant | ShString | ShComment | ShEmbedded
  | ShPunctuation

definition shell_capture_priority :: "string \<Rightarrow> nat" where
  "shell_capture_priority name =
     (if name = ''function'' then 60
      else if name \<in> {''variable'', ''variable.special''} then 55
      else if name \<in> {''keyword'', ''keyword.control'', ''keyword.operator''} then 50
      else if name = ''operator'' then 45
      else if name \<in> {''constant'', ''number''} then 40
      else if name \<in> {''comment'', ''keyword.directive''} then 35
      else if name \<in> {''embedded'', ''punctuation.special''} then 30
      else if name \<in> {''punctuation.delimiter'', ''punctuation.bracket''} then 20
      else 10)"

definition shell_capture_kind :: "string \<Rightarrow> ShellSemanticKind" where
  "shell_capture_kind name =
     (if name = ''function'' then ShFunction
      else if name \<in> {''variable'', ''variable.special''} then ShVariable
      else if name \<in> {''keyword'', ''keyword.control'', ''keyword.operator''} then ShKeyword
      else if name = ''operator'' then ShOperator
      else if name \<in> {''constant'', ''number''} then ShConstant
      else if name \<in> {''comment'', ''keyword.directive''} then ShComment
      else if name = ''embedded'' then ShEmbedded
      else if name \<in> {''string'', ''string.escape'', ''string.regex'', ''character''} then ShString
      else ShPunctuation)"

type_synonym byte_styles = "(nat \<times> ShellSemanticKind option) list"

text \<open>One capture paints its range over what has no higher priority; a range off the end panics.\<close>

definition paint_capture :: "(nat \<times> nat) \<times> string \<Rightarrow> byte_styles \<Rightarrow> byte_styles option" where
  "paint_capture capture styles =
     (let ((start, finish), name) = capture;
          priority = shell_capture_priority name; kind = shell_capture_kind name
      in if start \<le> finish \<and> finish \<le> length styles
         then Some (take start styles @
           map (\<lambda>style. if priority \<ge> fst style then (priority, Some kind) else style)
             (take (finish - start) (drop start styles)) @ drop finish styles)
         else None)"

fun paint_captures :: "((nat \<times> nat) \<times> string) list \<Rightarrow> byte_styles \<Rightarrow> byte_styles option" where
  "paint_captures [] styles = Some styles"
| "paint_captures (c # cs) styles = do { styles \<leftarrow> paint_capture c styles; paint_captures cs styles }"

type_synonym shell_highlights = "(ShellSemanticKind \<times> (nat \<times> nat)) list"

text \<open>The offsets of \<open>char_indices\<close>, and the end.\<close>

fun char_offsets :: "nat \<Rightarrow> string list \<Rightarrow> nat list" where
  "char_offsets offset [] = [offset]"
| "char_offsets offset (c # cs) = offset # char_offsets (offset + length c) cs"

fun shell_runs ::
  "byte_styles \<Rightarrow> nat \<Rightarrow> nat list \<Rightarrow> ShellSemanticKind option \<Rightarrow> nat \<Rightarrow> shell_highlights" where
  "shell_runs styles base [] active_kind active_start = []"
| "shell_runs styles base (offset # offsets) active_kind active_start =
     (let kind = Option.bind (get_at styles offset) snd
      in if kind \<noteq> active_kind
         then (case active_kind of
                 Some k \<Rightarrow> [(k, (base + active_start, base + offset))] | None \<Rightarrow> []) @
              shell_runs styles base offsets kind offset
         else shell_runs styles base offsets active_kind active_start)"

definition shell_semantic_highlights ::
  "(string \<Rightarrow> ((nat \<times> nat) \<times> string) list) \<Rightarrow> string \<Rightarrow> nat \<Rightarrow> shell_highlights option" where
  "shell_semantic_highlights shell_capture_ranges command base =
     map_option (\<lambda>styles. shell_runs styles base (char_offsets 0 (chars command)) None 0)
       (paint_captures (shell_capture_ranges command) (replicate (length command) (0, None)))"

fun visible_shell_semantic_highlights ::
  "(string \<Rightarrow> ((nat \<times> nat) \<times> string) list) \<Rightarrow> string \<Rightarrow> nat \<Rightarrow> (nat \<times> nat) list \<Rightarrow>
   shell_highlights option" where
  "visible_shell_semantic_highlights captures txt text_base [] = Some []"
| "visible_shell_semantic_highlights captures txt text_base (r # invocations) =
     (case str_slice txt (fst r - text_base) (snd r - text_base) of
        None \<Rightarrow> visible_shell_semantic_highlights captures txt text_base invocations
      | Some command \<Rightarrow>
          do { parsed \<leftarrow> shell_semantic_highlights captures command (fst r);
               rest \<leftarrow> visible_shell_semantic_highlights captures txt text_base invocations;
               Some (parsed @ rest) })"

subsection \<open>Following the tail\<close>

definition direct_scroll_can_change_follow_tail :: "bool \<Rightarrow> bool \<Rightarrow> bool" where
  "direct_scroll_can_change_follow_tail local autoscroll = (local \<and> \<not> autoscroll)"

definition follow_tail_after_selection :: "bool \<Rightarrow> nat option \<Rightarrow> nat \<Rightarrow> nat \<Rightarrow> bool" where
  "follow_tail_after_selection was_following previous_offset current_offset document_len =
     (current_offset = document_len \<or>
      was_following \<and> (case previous_offset of Some p \<Rightarrow> current_offset \<ge> p | None \<Rightarrow> False))"

definition pause_tail_follow :: "TranscriptEditor \<Rightarrow> TranscriptEditor" where
  "pause_tail_follow ed = ed\<lparr>te_follow_tail := False, te_pending_tail_intent := None\<rparr>"

definition reveal_tail :: "TranscriptEditor \<Rightarrow> TranscriptEditor" where
  "reveal_tail ed =
     request_tail_autoscroll (ed\<lparr>te_follow_tail := True, te_pending_tail_intent := None\<rparr>)"

definition note_local_selection_for_follow_tail :: "TranscriptEditor \<Rightarrow> TranscriptEditor" where
  "note_local_selection_for_follow_tail ed =
     (let was_following = (case te_pending_tail_intent ed of
                             Some (Selection was_following) \<Rightarrow> was_following | _ \<Rightarrow> te_follow_tail ed)
      in ed\<lparr>te_follow_tail := False, te_pending_tail_intent := Some (Selection was_following)\<rparr>)"

definition note_scroll :: "bool \<Rightarrow> bool \<Rightarrow> TranscriptEditor \<Rightarrow> TranscriptEditor" where
  "note_scroll local autoscroll ed =
     (if direct_scroll_can_change_follow_tail local autoscroll
      then ed\<lparr>te_follow_tail := False, te_pending_tail_intent := Some DirectScroll\<rparr> else ed)"

text \<open>
  The layout after the intent: whether the viewport is near the tail, where the selection was
  and is now, and the length of the document.
\<close>

definition apply_pending_tail_intent ::
  "bool \<Rightarrow> nat option \<Rightarrow> nat \<Rightarrow> nat \<Rightarrow> TranscriptEditor \<Rightarrow> TranscriptEditor" where
  "apply_pending_tail_intent near_tail previous_offset current_offset document_len ed =
     (case te_pending_tail_intent ed of
        None \<Rightarrow> ed
      | Some DirectScroll \<Rightarrow> ed\<lparr>te_pending_tail_intent := None, te_follow_tail := near_tail\<rparr>
      | Some (Selection was_following) \<Rightarrow>
          ed\<lparr>te_pending_tail_intent := None, te_follow_tail :=
            follow_tail_after_selection was_following previous_offset current_offset document_len\<rparr>)"

subsection \<open>Segments near the viewport\<close>

definition in_order :: "(TranscriptDocumentSegment \<Rightarrow> nat \<times> nat) \<Rightarrow> TranscriptDocumentSegment list \<Rightarrow> bool" where
  "in_order f segments \<longleftrightarrow>
     sorted_wrt (\<lambda>s t. snd (f s) \<le> fst (f t)) segments \<and> (\<forall>s \<in> set segments. fst (f s) \<le> snd (f s))"

lemma intersecting_exact:
  assumes "in_order f segments" "a < b"
  shows "fst (intersecting f segments (a, b)) \<le> i \<and> i < snd (intersecting f segments (a, b)) \<longleftrightarrow>
    i < length segments \<and> fst (f (segments ! i)) < b \<and> a < snd (f (segments ! i))"
proof -
  let ?P = "\<lambda>seg. snd (f seg) \<le> a" and ?Q = "\<lambda>seg. fst (f seg) < b"
  have le: "fst (f s) \<le> snd (f s)" if "s \<in> set segments" for s using assms(1) that by (simp add: in_order_def)
  have sorted: "sorted_wrt (\<lambda>s t. snd (f s) \<le> fst (f t)) segments" using assms(1) by (simp add: in_order_def)
  have p: "sorted_wrt (\<lambda>s t. ?P t \<longrightarrow> ?P s) segments"
    using sorted by (rule sorted_wrt_mono_rel [rotated]) (use le in force)
  have q: "sorted_wrt (\<lambda>s t. ?Q t \<longrightarrow> ?Q s) segments"
    using sorted by (rule sorted_wrt_mono_rel [rotated]) (use le in force)
  show ?thesis
    using partition_point_sorted(2) [OF p, of i] partition_point_sorted(1) [OF q]
      partition_point_sorted(2) [OF q, of i] assms(2)
    by (auto simp: intersecting_def Let_def not_le min_def split: if_splits)
qed

lemma shifted_ranges:
  fixes k :: nat
  assumes "clean_projection p"
  defines "s \<equiv> shifted_segment (pj_segment p) k"
  shows "fst (seg_whole s) = k" "snd (seg_whole s) = k + length (pj_text p)" "fst (seg_header s) = k"
    "k \<le> snd (seg_header s)" "snd (seg_header s) \<le> k + length (pj_text p)"
  using assms by (auto simp: clean_projection_def shifted_segment_def shifted_range_def Let_def split: prod.splits)

lemma layout_starts:
  "clean_row qs \<Longrightarrow> s \<in> set (layout offset qs) \<Longrightarrow> offset \<le> fst (seg_whole s) \<and> offset \<le> fst (seg_header s)"
proof (induction offset qs rule: layout.induct)
  case (2 offset i p ps)
  then show ?case using shifted_ranges [of p offset] by fastforce
qed simp

lemma layout_in_order:
  "clean_row qs \<Longrightarrow> in_order seg_whole (layout offset qs) \<and> in_order seg_header (layout offset qs)"
proof (induction offset qs rule: layout.induct)
  case (2 offset i p ps)
  have "offset + length (pj_text p) \<le> fst (seg_whole s) \<and> offset + length (pj_text p) \<le> fst (seg_header s)"
    if "s \<in> set (layout (offset + length (pj_text p)) ps)" for s
    using layout_starts [OF _ that] "2.prems" by simp
  then show ?case
    using 2 shifted_ranges [of p offset] by (fastforce simp: in_order_def)
qed (simp add: in_order_def)

subsection \<open>Monospace ranges\<close>

definition covers :: "(nat \<times> nat) list \<Rightarrow> nat \<Rightarrow> bool" where
  "covers rs x \<longleftrightarrow> (\<exists>r \<in> set rs. fst r \<le> x \<and> x < snd r)"

lemma covers_simps [simp]:
  "\<not> covers [] x" "covers (r # rs) x \<longleftrightarrow> fst r \<le> x \<and> x < snd r \<or> covers rs x"
  "covers (a @ b) x \<longleftrightarrow> covers a x \<or> covers b x"
  by (auto simp: covers_def)

definition separate :: "(nat \<times> nat) list \<Rightarrow> bool" where
  "separate rs \<longleftrightarrow> sorted_wrt (\<lambda>a b. snd a < fst b) rs \<and> (\<forall>r \<in> set rs. fst r < snd r)"

lemma merge_ranges_ok:
  "separate merged \<Longrightarrow> sorted (map fst rs) \<Longrightarrow> merged \<noteq> [] \<Longrightarrow> \<forall>r \<in> set rs. fst (last merged) \<le> fst r \<Longrightarrow>
   separate (merge_ranges merged rs) \<and> (\<forall>x. covers (merge_ranges merged rs) x \<longleftrightarrow> covers merged x \<or> covers rs x)"
proof (induction merged rs rule: merge_ranges.induct)
  case (2 merged r rs)
  obtain front e where m: "merged = front @ [e]" using "2.prems"(3) by (cases merged rule: rev_cases) auto
  have sep: "separate front" "\<forall>a \<in> set front. snd a < fst e" "fst e < snd e"
    using "2.prems"(1) by (auto simp: m separate_def sorted_wrt_append)
  have le: "fst e \<le> fst r" "\<forall>s \<in> set rs. fst r \<le> fst s" "sorted (map fst rs)" using "2.prems"(2,4) by (auto simp: m)
  consider "fst r \<le> snd e" | "snd e < fst r" "fst r < snd r" | "snd e < fst r" "snd r \<le> fst r" by linarith
  then show ?case
  proof cases
    case 1
    have "separate (front @ [(fst e, max (snd e) (snd r))])"
      using sep by (auto simp: separate_def sorted_wrt_append)
    moreover have "\<forall>s \<in> set rs. fst e \<le> fst s" using le by force
    ultimately have "separate (merge_ranges merged (r # rs)) \<and> (\<forall>x. covers (merge_ranges merged (r # rs)) x \<longleftrightarrow>
        covers (front @ [(fst e, max (snd e) (snd r))]) x \<or> covers rs x)"
      using "2.IH"(1) 1 le(3) by (simp add: m)
    moreover have "fst e \<le> x \<and> x < max (snd e) (snd r) \<longleftrightarrow> fst e \<le> x \<and> x < snd e \<or> fst r \<le> x \<and> x < snd r" for x
      using 1 le(1) by auto
    ultimately show ?thesis by (auto simp: m simp del: merge_ranges.simps)
  next
    case 2
    have "separate (merged @ [r])"
      using sep 2 by (auto simp: m separate_def sorted_wrt_append)
    moreover have "merge_ranges merged (r # rs) = merge_ranges (merged @ [r]) rs" using 2 by (simp add: m)
    moreover have "\<not> fst r \<le> snd (last merged)" "fst r < snd r" using 2 by (simp_all add: m)
    ultimately show ?thesis
      using "2.IH"(2) "2.prems"(3) le(2,3) by (simp add: disj_assoc del: merge_ranges.simps)
  next
    case 3
    have "\<forall>s \<in> set rs. fst e \<le> fst s" using le by force
    then have "separate (merge_ranges merged rs) \<and>
        (\<forall>x. covers (merge_ranges merged rs) x \<longleftrightarrow> covers merged x \<or> covers rs x)"
      using "2.IH"(3) "2.prems"(1) 3 le(3) by (simp add: m)
    moreover have "merge_ranges merged (r # rs) = merge_ranges merged rs" using 3 by (simp add: m)
    moreover have "covers (r # rs) x = covers rs x" for x using 3(2) by (auto simp: covers_def)
    ultimately show ?thesis by (simp del: covers_simps)
  qed
qed simp

lemma merge_ranges_start:
  "sorted (map fst rs) \<Longrightarrow> separate (merge_ranges [] rs) \<and> (\<forall>x. covers (merge_ranges [] rs) x \<longleftrightarrow> covers rs x)"
proof (induction rs)
  case (Cons r rs)
  then show ?case
    using merge_ranges_ok [of "[r]" rs] by (cases "fst r < snd r") (auto simp: separate_def)
qed (simp add: separate_def)

text \<open>
  The ranges set in the monospace font are disjoint, in order and not empty, and cover exactly
  the bytes of the inline code, code blocks, commands and outputs of the document, however these
  nest, overlap or touch.
\<close>

lemma monospace_ranges_exact:
  "separate (semantic_monospace_ranges segments) \<and>
   (covers (semantic_monospace_ranges segments) x \<longleftrightarrow>
      (\<exists>seg \<in> set segments. \<exists>span \<in> set (seg_spans seg).
         is_monospace (span_style span) \<and> span_start span \<le> x \<and> x < span_end span))"
proof -
  define rs where "rs = map (\<lambda>span. (span_start span, span_end span))
    (filter (\<lambda>span. is_monospace (span_style span)) (concat (map seg_spans segments)))"
  have "sorted (sort_key (\<lambda>r. (fst r, snd r)) rs)" using sorted_sort_key [of "\<lambda>r. (fst r, snd r)" rs] by simp
  then have "sorted (map fst (sort_key (\<lambda>r. (fst r, snd r)) rs))"
    unfolding sorted_map by (rule sorted_wrt_mono_rel [rotated]) (auto simp: less_eq_prod_def)
  from merge_ranges_start [OF this] have "separate (semantic_monospace_ranges segments) \<and>
      (covers (semantic_monospace_ranges segments) x \<longleftrightarrow> covers rs x)"
    by (simp add: semantic_monospace_ranges_def rs_def covers_def)
  moreover have "covers rs x \<longleftrightarrow> (\<exists>seg \<in> set segments. \<exists>span \<in> set (seg_spans seg).
         is_monospace (span_style span) \<and> span_start span \<le> x \<and> x < span_end span)"
    by (auto simp: rs_def covers_def)
  ultimately show ?thesis by blast
qed

subsection \<open>What is near the viewport\<close>

text \<open>
  For an editor that shows a model, the binary searches over its segments and headers return
  exactly the items whose bytes, and whose header bytes, meet the viewport.
\<close>

lemma visible_segments_exact:
  assumes "shows_row ed qs n" "a < b"
  shows "(fst (segments_intersecting (te_segments ed) (a, b)) \<le> i \<and>
      i < snd (segments_intersecting (te_segments ed) (a, b)) \<longleftrightarrow>
        i < length qs \<and> fst (seg_whole (te_segments ed ! i)) < b \<and> a < snd (seg_whole (te_segments ed ! i))) \<and>
    (fst (header_segments_intersecting (te_segments ed) (a, b)) \<le> i \<and>
      i < snd (header_segments_intersecting (te_segments ed) (a, b)) \<longleftrightarrow>
        i < length qs \<and> fst (seg_header (te_segments ed ! i)) < b \<and> a < snd (seg_header (te_segments ed ! i)))"
proof -
  have layout: "te_segments ed = layout 0 qs" and clean: "clean_row qs"
    using assms(1) by (auto simp: shows_row_def)
  have ordered: "in_order seg_whole (layout 0 qs)" "in_order seg_header (layout 0 qs)"
    using layout_in_order [OF clean] by auto
  show ?thesis
    using intersecting_exact [OF ordered(1) assms(2), of i] intersecting_exact [OF ordered(2) assms(2), of i]
    by (simp add: segments_intersecting_def header_segments_intersecting_def layout)
qed

lemma distinct_remdups_adj_sorted: "sorted xs \<Longrightarrow> distinct (remdups_adj xs)"
  by (induction xs rule: remdups_adj.induct) (auto simp: less_le intro: order_antisym)

lemma header_window_delta_sets:
  fixes desired :: "nat \<times> nat"
  shows "set mounted - set (fst (header_window_delta mounted desired)) \<union> set (snd (header_window_delta mounted desired)) =
      {fst desired ..< snd desired}"
    and "set (snd (header_window_delta mounted desired)) \<inter> set mounted = {}"
    and "distinct (snd (header_window_delta mounted desired))"
proof -
  let ?m = "remdups_adj (sort mounted)"
  have strict: "sorted_wrt (<) (map id ?m)"
    by (simp add: strict_sorted_iff distinct_remdups_adj_sorted)
  have none: "binary_search_by_key position id ?m = None \<longleftrightarrow> position \<notin> set mounted" for position
  proof -
    have "(\<exists>i. binary_search_by_key position id ?m = Some i) \<longleftrightarrow> position \<in> set ?m"
      unfolding binary_search_by_key_iff [OF strict] in_set_conv_nth by auto
    then show ?thesis by (cases "binary_search_by_key position id ?m") auto
  qed
  show "set mounted - set (fst (header_window_delta mounted desired)) \<union> set (snd (header_window_delta mounted desired)) =
      {fst desired ..< snd desired}"
    "set (snd (header_window_delta mounted desired)) \<inter> set mounted = {}"
    "distinct (snd (header_window_delta mounted desired))"
    by (auto simp: header_window_delta_def Let_def none)
qed

subsection \<open>Semantic highlights\<close>

definition highlights_ok :: "nat \<times> nat \<Rightarrow> SemanticHighlightRanges \<Rightarrow> bool" where
  "highlights_ok viewport hl \<longleftrightarrow>
     sh_scanned_spans hl \<le> MAX_SCANNED_SEMANTIC_SPANS_PER_VIEWPORT \<and>
     (\<forall>style. length (sh_ranges hl style) \<le> sh_scanned_spans hl \<and>
        (\<forall>r \<in> set (sh_ranges hl style). fst viewport \<le> fst r \<and> fst r < snd r \<and> snd r \<le> snd viewport))"

lemma intersect_ranges_inside:
  "intersect_ranges l r = Some s \<Longrightarrow> fst r \<le> fst s \<and> fst s < snd s \<and> snd s \<le> snd r"
  by (auto simp: intersect_ranges_def Let_def split: if_splits)

lemma scan_spans_ok: "highlights_ok viewport hl \<Longrightarrow> highlights_ok viewport (snd (scan_spans viewport spans hl))"
proof (induction viewport spans hl rule: scan_spans.induct)
  case (2 viewport span spans hl)
  show ?case
  proof (cases "sh_scanned_spans hl \<ge> MAX_SCANNED_SEMANTIC_SPANS_PER_VIEWPORT")
    case False
    have "highlights_ok viewport (case intersect_ranges (span_start span, span_end span) viewport of
        None \<Rightarrow> hl\<lparr>sh_scanned_spans := sh_scanned_spans hl + 1\<rparr>
      | Some span_range \<Rightarrow> push_highlight (span_style span) span_range
          (hl\<lparr>sh_scanned_spans := sh_scanned_spans hl + 1\<rparr>))"
      using "2.prems" False
      by (auto simp: highlights_ok_def push_highlight_def le_SucI split: option.splits
          dest!: intersect_ranges_inside)
    from "2.IH" [OF False refl this] show ?thesis
      using False by (simp only: scan_spans.simps Let_def if_False)
  qed (use "2.prems" in simp)
qed simp

lemma spans_to_scan_total:
  assumes "sorted (map span_start spans)" "fst viewport \<le> snd viewport"
  shows "\<exists>part. spans_to_scan viewport spans = Some part"
proof -
  have sorted: "sorted_wrt (\<lambda>s t. span_start t < k \<longrightarrow> span_start s < k) spans" for k
    using assms(1) unfolding sorted_map by (rule sorted_wrt_mono_rel [rotated]) auto
  let ?p = "\<lambda>k. partition_point (\<lambda>span. span_start span < k) spans"
  have "?p (fst viewport) \<le> ?p (snd viewport)"
  proof (rule ccontr)
    assume less: "\<not> ?thesis"
    then have "?p (snd viewport) < length spans"
      using partition_point_sorted(1) [OF sorted, of "fst viewport"] by linarith
    then show False
      using less partition_point_sorted(2) [OF sorted, of "?p (snd viewport)"] assms(2)
      by (meson leI less_irrefl less_le_trans)
  qed
  then show ?thesis by (simp add: spans_to_scan_def Let_def)
qed

lemma scan_segments_ok:
  "\<forall>seg \<in> set segs. sorted (map span_start (seg_spans seg)) \<Longrightarrow> fst viewport \<le> snd viewport \<Longrightarrow>
   highlights_ok viewport hl \<Longrightarrow> \<exists>out. scan_segments viewport segs hl = Some out \<and> highlights_ok viewport out"
proof (induction viewport segs hl rule: scan_segments.induct)
  case (2 viewport seg segs hl)
  obtain part where part: "spans_to_scan viewport (seg_spans seg) = Some part"
    using spans_to_scan_total [of "seg_spans seg" viewport] "2.prems" by auto
  obtain cont hl' where scan: "scan_spans viewport part hl = (cont, hl')" by fastforce
  then have "highlights_ok viewport hl'" using scan_spans_ok [OF "2.prems"(3), of part] by simp
  then show ?case using "2.IH" [OF part scan [symmetric]] "2.prems" part scan by (cases cont) auto
qed simp

text \<open>
  Over spans that are in order, as in every document that is decorated, the highlights of a
  viewport are computed without a panic, look at no more than \<open>4096\<close> spans, and hold only ranges
  that are not empty and lie inside the viewport.
\<close>

lemma visible_highlights_bounded:
  assumes "\<forall>seg \<in> set segments. sorted (map span_start (seg_spans seg))" "fst viewport \<le> snd viewport"
  shows "\<exists>hl. visible_semantic_highlight_ranges segments viewport = Some hl \<and> highlights_ok viewport hl"
proof -
  obtain start finish where "segments_intersecting segments viewport = (start, finish)" by fastforce
  moreover have "highlights_ok viewport \<lparr>sh_ranges = (\<lambda>style. []), sh_scanned_spans = 0\<rparr>"
    by (simp add: highlights_ok_def)
  moreover have "\<forall>seg \<in> set (take (finish - start) (drop start segments)). sorted (map span_start (seg_spans seg))"
    using assms(1) by (meson in_set_dropD in_set_takeD)
  ultimately show ?thesis
    using scan_segments_ok assms(2) by (simp add: visible_semantic_highlight_ranges_def)
qed

subsection \<open>Shell highlights\<close>

text \<open>What a byte of the command shows once the captures over it are painted in their order.\<close>

definition repaint :: "nat \<Rightarrow> ((nat \<times> nat) \<times> string) \<Rightarrow> nat \<times> ShellSemanticKind option \<Rightarrow> nat \<times> ShellSemanticKind option" where
  "repaint i capture style =
     (if fst (fst capture) \<le> i \<and> i < snd (fst capture) \<and> fst style \<le> shell_capture_priority (snd capture)
      then (shell_capture_priority (snd capture), Some (shell_capture_kind (snd capture))) else style)"

lemma paint_capture_nth:
  "paint_capture c styles = Some out \<Longrightarrow>
   length out = length styles \<and> (\<forall>i < length styles. out ! i = repaint i c (styles ! i))"
  by (cases c) (auto simp: paint_capture_def repaint_def Let_def nth_append min_def split: if_splits prod.splits)

lemma paint_captures_nth:
  "paint_captures cs styles = Some out \<Longrightarrow>
   length out = length styles \<and> (\<forall>i < length styles. out ! i = fold (repaint i) cs (styles ! i))"
  by (induction cs arbitrary: styles) (auto split: bind_splits dest!: paint_capture_nth)

lemma paint_captures_total:
  "\<forall>c \<in> set cs. fst (fst c) \<le> snd (fst c) \<and> snd (fst c) \<le> length styles \<Longrightarrow>
   \<exists>out. paint_captures cs styles = Some out"
proof (induction cs arbitrary: styles)
  case (Cons c cs)
  then obtain out where out: "paint_capture c styles = Some out"
    by (cases c) (auto simp: paint_capture_def Let_def)
  then show ?case using Cons.IH [of out] Cons.prems paint_capture_nth [OF out] by auto
qed simp

text \<open>The byte carries the highest priority of the captures over it.\<close>

lemma repaint_priority:
  "fst (fold (repaint i) cs style) =
   fold max (map (\<lambda>c. shell_capture_priority (snd c)) (filter (\<lambda>c. fst (fst c) \<le> i \<and> i < snd (fst c)) cs))
     (fst style)"
  by (induction cs arbitrary: style) (auto simp: repaint_def max_def)

subsection \<open>Following the tail over a run of events\<close>

text \<open>
  A scroll by the user and the layout that follows it decide: the view follows the tail exactly
  when the viewport is near it; a scroll of the editor itself changes nothing.
\<close>

lemma scroll_decides_follow:
  "te_follow_tail (apply_pending_tail_intent near previous current len (note_scroll True False ed)) = near"
  "note_scroll local True ed = ed" "note_scroll False autoscroll ed = ed"
  by (simp_all add: apply_pending_tail_intent_def note_scroll_def direct_scroll_can_change_follow_tail_def)

text \<open>
  Several selections before one layout are judged by whether the view followed the tail before
  the first of them.
\<close>

lemma selections_before_layout:
  assumes "te_pending_tail_intent ed = None"
  shows "te_pending_tail_intent ((note_local_selection_for_follow_tail ^^ Suc k) ed) =
      Some (Selection (te_follow_tail ed))"
    and "te_follow_tail (apply_pending_tail_intent near previous current len
        ((note_local_selection_for_follow_tail ^^ Suc k) ed)) =
      follow_tail_after_selection (te_follow_tail ed) previous current len"
proof -
  show *: "te_pending_tail_intent ((note_local_selection_for_follow_tail ^^ Suc k) ed) =
      Some (Selection (te_follow_tail ed))"
    by (induction k) (auto simp: assms note_local_selection_for_follow_tail_def split: option.splits)
  then show "te_follow_tail (apply_pending_tail_intent near previous current len
        ((note_local_selection_for_follow_tail ^^ Suc k) ed)) =
      follow_tail_after_selection (te_follow_tail ed) previous current len"
    unfolding apply_pending_tail_intent_def by simp
qed

end
