(* ===== verification/RequestPolicy.thy ===== *)
theory RequestPolicy
  imports Events
begin

text \<open>
  What the application does with a request of the server (\<open>crates/harness_app/src/main.rs\<close>): whether it is
  shown to the user or answered at once, the safe rejection of a request that nobody can see, and
  the choices that an approval offers.
\<close>

subsection \<open>Types\<close>

datatype RequestReply = ReplyResult json | ReplyError int string

datatype RequestRoute = Interactive | Immediate RequestReply

datatype RequestChoiceTone = ToneAllow | ToneDeny | ToneCancel

record RequestChoice =
  rc_label :: string
  rc_response :: json
  rc_completed_status :: string
  rc_tone :: RequestChoiceTone

subsection \<open>Decisions of a command approval\<close>

definition is_supported_command_decision :: "json \<Rightarrow> bool" where
  "is_supported_command_decision decision =
     (if as_str decision \<in> Some ` {''accept'', ''acceptForSession'', ''decline'', ''cancel''} then True
      else case opt_filter (\<lambda>object. length object = 1) (as_object decision) of
        None \<Rightarrow> False
      | Some decision_object \<Rightarrow>
          (case pointer [''acceptWithExecpolicyAmendment'', ''execpolicy_amendment''] decision of
             Some amendment \<Rightarrow>
               map_of decision_object ''acceptWithExecpolicyAmendment'' \<noteq> None \<and>
               (case Option.bind (jget ''acceptWithExecpolicyAmendment'' decision) as_object of
                  Some object \<Rightarrow> length object = 1 | None \<Rightarrow> False) \<and>
               (case as_array amendment of
                  Some parts \<Rightarrow> list_all (\<lambda>part. as_str part \<noteq> None) parts | None \<Rightarrow> False)
           | None \<Rightarrow>
               (case pointer [''applyNetworkPolicyAmendment'', ''network_policy_amendment''] decision of
                  None \<Rightarrow> False
                | Some amendment \<Rightarrow>
                    map_of decision_object ''applyNetworkPolicyAmendment'' \<noteq> None \<and>
                    (case Option.bind (jget ''applyNetworkPolicyAmendment'' decision) as_object of
                       Some object \<Rightarrow> length object = 1 | None \<Rightarrow> False) \<and>
                    Option.bind (jget ''host'' amendment) as_str \<noteq> None \<and>
                    Option.bind (jget ''action'' amendment) as_str \<in> Some ` {''allow'', ''deny''})))"

definition command_approval_decisions :: "json \<Rightarrow> json list" where
  "command_approval_decisions params =
     (let defaults = [JString ''accept'', JString ''acceptForSession'', JString ''decline'', JString ''cancel'']
      in case jget ''availableDecisions'' params of
           None \<Rightarrow> defaults
         | Some JNull \<Rightarrow> defaults
         | Some (JArray decisions) \<Rightarrow> filter is_supported_command_decision decisions
         | Some _ \<Rightarrow> [])"

definition decision_response :: "json \<Rightarrow> json" where
  "decision_response decision = JObject [(''decision'', decision)]"

definition command_decision_choice :: "json \<Rightarrow> RequestChoice option" where
  "command_decision_choice decision =
     (let choice = (\<lambda>(label, status, tone). \<lparr>rc_label = label, rc_response = decision_response decision,
            rc_completed_status = status, rc_tone = tone\<rparr>)
      in map_option choice
        (if as_str decision = Some ''accept'' then Some (''Allow once'', ''accepted'', ToneAllow)
         else if as_str decision = Some ''acceptForSession'' then Some (''Allow for task'', ''accepted for task'', ToneAllow)
         else if as_str decision = Some ''decline'' then Some (''Deny'', ''declined'', ToneDeny)
         else if as_str decision = Some ''cancel'' then Some (''Cancel turn'', ''cancelled'', ToneCancel)
         else if jget ''acceptWithExecpolicyAmendment'' decision \<noteq> None
         then Some (''Allow & remember command'', ''policy amended'', ToneAllow)
         else if jget ''applyNetworkPolicyAmendment'' decision \<noteq> None then
           do { amendment \<leftarrow> pointer [''applyNetworkPolicyAmendment'', ''network_policy_amendment''] decision;
                action \<leftarrow> Option.bind (jget ''action'' amendment) as_str;
                hostname \<leftarrow> Option.bind (jget ''host'' amendment) as_str;
                Some (action @ '' '' @ hostname, ''network policy amended'',
                  if action = ''allow'' then ToneAllow else ToneDeny) }
         else None))"

subsection \<open>Replies without the user\<close>

definition declined_elicitation :: json where
  "declined_elicitation = JObject [(''action'', JString ''decline''), (''content'', JNull)]"

definition no_permissions :: json where
  "no_permissions = JObject [(''permissions'', JObject []), (''scope'', JString ''turn'')]"

definition unsupported_method :: "string \<Rightarrow> RequestReply" where
  "unsupported_method method_name = ReplyError (- 32601) (''unsupported app-server request method: '' @ method_name)"

definition safe_request_rejection :: "string \<Rightarrow> json \<Rightarrow> RequestReply" where
  "safe_request_rejection method_name params =
     (if method_name = ''item/commandExecution/requestApproval'' then
        let decisions = command_approval_decisions params
        in case or_else (find (\<lambda>d. as_str d = Some ''decline'') decisions)
                  (find (\<lambda>d. as_str d = Some ''cancel'') decisions) of
             None \<Rightarrow> ReplyError (- 32000) ''background command approval offered no safe rejection''
           | Some decision \<Rightarrow> ReplyResult (decision_response decision)
      else if method_name = ''item/fileChange/requestApproval'' then
        ReplyResult (decision_response (JString ''decline''))
      else if method_name = ''item/tool/requestUserInput'' then
        ReplyError (- 32000) ''request_user_input belongs to a task that is not open''
      else if method_name = ''mcpServer/elicitation/request'' then ReplyResult declined_elicitation
      else if method_name = ''item/permissions/requestApproval'' then ReplyResult no_permissions
      else if method_name = ''applyPatchApproval'' \<or> method_name = ''execCommandApproval'' then
        ReplyResult (decision_response (JObject [(''denied'', JObject
          [(''rejection'', JString ''Approval belongs to a task that is not open'')])]))
      else unsupported_method method_name)"

subsection \<open>Routing\<close>

definition request_matches_thread :: "json \<Rightarrow> string option \<Rightarrow> bool" where
  "request_matches_thread params selected_thread_id =
     (let request_thread_id =
            Option.bind (or_else (jget ''threadId'' params) (jget ''conversationId'' params)) as_str
      in case (selected_thread_id, request_thread_id) of
           (Some selected, Some request_thread_id) \<Rightarrow> selected = request_thread_id
         | (None, Some _) \<Rightarrow> False
         | (_, None) \<Rightarrow> True)"

definition answerable_option :: "json \<Rightarrow> bool" where
  "answerable_option choice \<longleftrightarrow>
     Option.bind (jget ''label'' choice) as_str \<noteq> None \<and> Option.bind (jget ''description'' choice) as_str \<noteq> None"

definition question_id :: "json \<Rightarrow> string option" where
  "question_id question = opt_filter (\<lambda>i. i \<noteq> []) (Option.bind (jget ''id'' question) as_str)"

text \<open>One question of the loop, with the identifiers that came before.\<close>

definition valid_question :: "string set \<Rightarrow> json \<Rightarrow> bool" where
  "valid_question ids question =
     (case question_id question of
        None \<Rightarrow> False
      | Some i \<Rightarrow>
          i \<notin> ids \<and> Option.bind (jget ''header'' question) as_str \<noteq> None \<and>
          opt_filter (\<lambda>q. q \<noteq> []) (Option.bind (jget ''question'' question) as_str) \<noteq> None \<and>
          (case jget ''options'' question of
             None \<Rightarrow> True
           | Some options \<Rightarrow>
               is_null options \<or>
               (case as_array options of Some os \<Rightarrow> list_all answerable_option os | None \<Rightarrow> False)))"

fun valid_questions :: "string set \<Rightarrow> json list \<Rightarrow> bool" where
  "valid_questions ids [] = True"
| "valid_questions ids (question # questions) =
     (valid_question ids question \<and> valid_questions (insert (the (question_id question)) ids) questions)"

definition valid_user_input_questions :: "json list \<Rightarrow> bool" where
  "valid_user_input_questions questions = (questions \<noteq> [] \<and> valid_questions {} questions)"

definition answerable_form :: "json \<Rightarrow> bool" where
  "answerable_form params \<longleftrightarrow>
     Option.bind (pointer [''requestedSchema'', ''type''] params) as_str = Some ''object'' \<and>
     (case pointer [''requestedSchema'', ''required''] params of
        None \<Rightarrow> True | Some required \<Rightarrow> is_null required \<or> as_array required \<noteq> None) \<and>
     Option.bind (pointer [''requestedSchema'', ''properties''] params) as_object \<noteq> None"

definition web_url :: "json \<Rightarrow> bool" where
  "web_url params =
     (case Option.bind (jget ''url'' params) as_str of
        Some url \<Rightarrow> starts_with url ''https://'' \<or> starts_with url ''http://'' | None \<Rightarrow> False)"

definition route_server_request :: "string \<Rightarrow> json \<Rightarrow> string option \<Rightarrow> RequestRoute" where
  "route_server_request method_name params selected_thread_id =
     (if \<not> request_matches_thread params selected_thread_id
      then Immediate (safe_request_rejection method_name params)
      else if method_name = ''item/commandExecution/requestApproval'' then
        (if command_approval_decisions params = []
         then Immediate (ReplyError (- 32602) ''command approval contained no supported decisions'')
         else Interactive)
      else if method_name \<in> {''item/fileChange/requestApproval'', ''applyPatchApproval'', ''execCommandApproval''}
      then Interactive
      else if method_name = ''item/tool/requestUserInput'' then
        (if (case Option.bind (jget ''questions'' params) as_array of
               Some questions \<Rightarrow> valid_user_input_questions questions | None \<Rightarrow> False)
         then Interactive
         else Immediate (ReplyError (- 32602) ''request_user_input contained no answerable questions''))
      else if method_name = ''mcpServer/elicitation/request'' then
        (let mode = Option.bind (jget ''mode'' params) as_str
         in if mode = Some ''form'' \<and> answerable_form params \<or> mode = Some ''openai/form'' \<or>
               mode = Some ''url'' \<and> web_url params
            then Interactive else Immediate (ReplyResult declined_elicitation))
      else if method_name = ''item/permissions/requestApproval'' then
        (if Option.bind (jget ''permissions'' params) as_object \<noteq> None
         then Interactive else Immediate (ReplyResult no_permissions))
      else Immediate (unsupported_method method_name))"

subsection \<open>Choices\<close>

definition plain_choice :: "(json \<Rightarrow> json) \<Rightarrow> (string \<times> json \<times> string \<times> RequestChoiceTone) \<Rightarrow> RequestChoice" where
  "plain_choice respond_with c = (case c of (label, decision, status, tone) \<Rightarrow>
     \<lparr>rc_label = label, rc_response = respond_with decision, rc_completed_status = status, rc_tone = tone\<rparr>)"

definition scoped_permissions :: "json \<Rightarrow> string \<Rightarrow> json" where
  "scoped_permissions permissions scope = JObject [(''permissions'', permissions), (''scope'', JString scope)]"

definition permission_choices :: "json \<Rightarrow> RequestChoice list" where
  "permission_choices params =
     (let permissions = unwrap_or (opt_filter (\<lambda>p. as_object p \<noteq> None) (jget ''permissions'' params)) (JObject []);
          choice = (\<lambda>label granted scope status tone. \<lparr>rc_label = label,
            rc_response = scoped_permissions granted scope, rc_completed_status = status, rc_tone = tone\<rparr>);
          file_system = pointer [''permissions'', ''fileSystem''] params;
          network = pointer [''permissions'', ''network''] params
      in [choice ''Allow once'' permissions ''turn'' ''accepted'' ToneAllow] @
         (case (opt_filter (\<lambda>v. \<not> is_null v) file_system, opt_filter (\<lambda>v. \<not> is_null v) network) of
            (Some file_system, Some network) \<Rightarrow>
              [choice ''Files only'' (JObject [(''fileSystem'', file_system)]) ''turn'' ''file access accepted'' ToneAllow,
               choice ''Network only'' (JObject [(''network'', network)]) ''turn'' ''network access accepted'' ToneAllow]
          | _ \<Rightarrow> []) @
         [choice ''Allow for task'' permissions ''session'' ''accepted for task'' ToneAllow,
          choice ''Deny'' (JObject []) ''turn'' ''declined'' ToneDeny])"

definition request_choices :: "string \<Rightarrow> json \<Rightarrow> RequestChoice list" where
  "request_choices method_name params =
     (if method_name = ''item/commandExecution/requestApproval'' then
        filter_map command_decision_choice (command_approval_decisions params)
      else if method_name = ''item/fileChange/requestApproval'' then
        map (plain_choice decision_response)
          [(''Allow once'', JString ''accept'', ''accept'', ToneAllow),
           (''Allow for task'', JString ''acceptForSession'', ''acceptForSession'', ToneAllow),
           (''Deny'', JString ''decline'', ''decline'', ToneDeny),
           (''Cancel turn'', JString ''cancel'', ''cancel'', ToneCancel)]
      else if method_name = ''item/permissions/requestApproval'' then permission_choices params
      else if method_name = ''applyPatchApproval'' \<or> method_name = ''execCommandApproval'' then
        map (plain_choice decision_response)
          [(''Allow once'', JString ''approved'', ''allow once'', ToneAllow),
           (''Allow for task'', JString ''approved_for_session'', ''allow for task'', ToneAllow),
           (''Deny'', JObject [(''denied'', JObject [(''rejection'', JString ''Denied by user'')])], ''deny'', ToneDeny),
           (''Cancel turn'', JString ''abort'', ''cancel turn'', ToneCancel)]
      else if method_name = ''mcpServer/elicitation/request'' then
        map (plain_choice (\<lambda>action. JObject [(''action'', action), (''content'', JNull)]))
          ((if Option.bind (jget ''mode'' params) as_str = Some ''url''
            then [(''I completed this'', JString ''accept'', ''accepted'', ToneAllow)] else []) @
           [(''Decline'', JString ''decline'', ''declined'', ToneDeny),
            (''Cancel'', JString ''cancel'', ''cancelled'', ToneCancel)])
      else [])"

subsection \<open>What grants something\<close>

text \<open>
  Specification: a decision that lets the server act, and a result that carries one, accepts an
  elicitation or hands out a permission.
\<close>

definition allows :: "json \<Rightarrow> bool" where
  "allows decision \<longleftrightarrow>
     as_str decision \<in> Some ` {''accept'', ''acceptForSession'', ''approved'', ''approved_for_session''} \<or>
     jget ''acceptWithExecpolicyAmendment'' decision \<noteq> None \<or>
     Option.bind (Option.bind (pointer [''applyNetworkPolicyAmendment'', ''network_policy_amendment''] decision)
       (jget ''action'')) as_str = Some ''allow''"

definition grants :: "json \<Rightarrow> bool" where
  "grants result \<longleftrightarrow>
     pred_option allows (jget ''decision'' result) \<and> jget ''decision'' result \<noteq> None \<or>
     jget ''action'' result = Some (JString ''accept'') \<or>
     jget ''permissions'' result \<notin> {None, Some (JObject [])}"

fun reply_grants :: "RequestReply \<Rightarrow> bool" where
  "reply_grants (ReplyResult result) = grants result"
| "reply_grants (ReplyError code message) = False"

lemma grants_decision [simp]: "grants (decision_response d) = allows d"
  by (simp add: grants_def decision_response_def jget_def)

lemma allows_string [simp]:
  "allows (JString s) \<longleftrightarrow> s \<in> {''accept'', ''acceptForSession'', ''approved'', ''approved_for_session''}"
  by (auto simp: allows_def jget_def)

lemma as_str_eq: "as_str v = Some s \<longleftrightarrow> v = JString s"
  by (cases v) auto

lemma jget_Some: "jget k v = Some w \<longleftrightarrow> (\<exists>kvs. v = JObject kvs \<and> map_of kvs k = Some w)"
  by (cases v) (auto simp: jget_def)

lemma immediate_fixed:
  "\<not> grants declined_elicitation" "\<not> grants no_permissions" "\<not> reply_grants (unsupported_method m)"
  "\<not> allows (JObject [(''denied'', v)])"
  by (auto simp: grants_def declined_elicitation_def no_permissions_def unsupported_method_def allows_def jget_def)

lemma safe_rejection_grants_nothing: "\<not> reply_grants (safe_request_rejection method_name params)"
proof -
  have rejected: "\<not> allows d" if "or_else (find (\<lambda>d. as_str d = Some ''decline'') ds) (find (\<lambda>d. as_str d = Some ''cancel'') ds) = Some d" for d ds
    using that by (auto simp: or_else_def find_Some_iff as_str_eq split: option.splits)
  have command: "\<not> reply_grants (case or_else (find (\<lambda>d. as_str d = Some ''decline'') ds) (find (\<lambda>d. as_str d = Some ''cancel'') ds) of
      None \<Rightarrow> ReplyError e m | Some decision \<Rightarrow> ReplyResult (decision_response decision))" for ds e m
    using rejected by (simp split: option.split)
  show ?thesis
    unfolding safe_request_rejection_def Let_def by (simp add: immediate_fixed command del: find.simps)
qed

lemma immediate_reply_grants_nothing:
  "route_server_request method_name params selected = Immediate reply \<Longrightarrow> \<not> reply_grants reply"
  by (auto simp: route_server_request_def immediate_fixed safe_rejection_grants_nothing Let_def split: if_splits)

text \<open>
  Nothing is granted behind the user's back. A reply that the application sends at once,
  without showing the request, never lets a command run, a file change or a permission through,
  and neither does the safe rejection of any request, whatever its method and parameters.
\<close>

lemma immediate_replies_grant_nothing:
  "(case route_server_request method_name params selected of
      Interactive \<Rightarrow> request_matches_thread params selected
    | Immediate reply \<Rightarrow> \<not> reply_grants reply) \<and>
   \<not> reply_grants (safe_request_rejection method_name params)"
proof (cases "route_server_request method_name params selected")
  case Interactive
  then show ?thesis
    using safe_rejection_grants_nothing by (auto simp: route_server_request_def split: if_splits)
next
  case (Immediate reply)
  then show ?thesis using safe_rejection_grants_nothing immediate_reply_grants_nothing by simp
qed

subsection \<open>What is offered\<close>

text \<open>The two kinds of objects among the supported decisions.\<close>

lemma supported_cases:
  assumes "is_supported_command_decision d"
  obtains (plain) s where "d = JString s" "s \<in> {''accept'', ''acceptForSession'', ''decline'', ''cancel''}"
  | (policy) v where "d = JObject [(''acceptWithExecpolicyAmendment'', v)]"
  | (network) inner amendment action hostname where "d = JObject [(''applyNetworkPolicyAmendment'', JObject inner)]"
      "map_of inner ''network_policy_amendment'' = Some amendment"
      "jget ''host'' amendment = Some (JString hostname)" "jget ''action'' amendment = Some (JString action)"
      "action \<in> {''allow'', ''deny''}"
proof (cases "as_str d \<in> Some ` {''accept'', ''acceptForSession'', ''decline'', ''cancel''}")
  case True
  then show ?thesis using plain by (auto simp: as_str_eq)
next
  case False
  then obtain k v where d: "d = JObject [(k, v)]"
    using assms by (cases d) (auto simp: is_supported_command_decision_def opt_filter_def length_Suc_conv split: if_splits)
  show ?thesis
  proof (cases "pointer [''acceptWithExecpolicyAmendment'', ''execpolicy_amendment''] d")
    case (Some amendment)
    then have "k = ''acceptWithExecpolicyAmendment''" by (simp add: d split: if_splits)
    then show ?thesis using policy d by simp
  next
    case None
    then obtain amendment action hostname where a: "pointer [''applyNetworkPolicyAmendment'', ''network_policy_amendment''] d = Some amendment"
      "Option.bind (jget ''applyNetworkPolicyAmendment'' d) as_object \<noteq> None"
      "jget ''host'' amendment = Some (JString hostname)" "jget ''action'' amendment = Some (JString action)"
      "action \<in> {''allow'', ''deny''}"
      using assms False
      by (auto simp: is_supported_command_decision_def d as_str_eq bind_eq_Some_conv split: option.splits)
    then obtain inner where "k = ''applyNetworkPolicyAmendment''" "v = JObject inner"
      "map_of inner ''network_policy_amendment'' = Some amendment"
      by (cases v) (auto simp: d jget_def bind_eq_Some_conv split: if_splits option.splits)
    then show ?thesis using network a d by blast
  qed
qed

lemma supported_choice:
  assumes "is_supported_command_decision d"
  shows "\<exists>c. command_decision_choice d = Some c \<and> rc_response c = decision_response d \<and>
    (rc_tone c = ToneAllow \<longleftrightarrow> allows d)"
  using assms
proof (cases rule: supported_cases)
  case (plain s)
  then show ?thesis by (auto simp: command_decision_choice_def)
next
  case (policy v)
  then show ?thesis by (simp add: command_decision_choice_def jget_def allows_def)
next
  case (network inner amendment action hostname)
  have "pointer [''applyNetworkPolicyAmendment'', ''network_policy_amendment''] d = Some amendment"
    "as_str d = None" "jget ''acceptWithExecpolicyAmendment'' d = None" "jget ''applyNetworkPolicyAmendment'' d \<noteq> None"
    by (simp_all add: network(1,2) jget_def)
  then show ?thesis
    using network(3-5) by (auto simp: command_decision_choice_def allows_def simp del: pointer.simps)
qed

lemma decisions_supported: "d \<in> set (command_approval_decisions params) \<Longrightarrow> is_supported_command_decision d"
proof -
  have plain: "is_supported_command_decision (JString s)" if "s \<in> {''accept'', ''acceptForSession'', ''decline'', ''cancel''}" for s
    using that by (auto simp: is_supported_command_decision_def)
  assume d: "d \<in> set (command_approval_decisions params)"
  show ?thesis
  proof (cases "jget ''availableDecisions'' params")
    case None
    then show ?thesis using d plain by (auto simp: command_approval_decisions_def Let_def)
  next
    case (Some v)
    then show ?thesis using d plain by (cases v) (auto simp: command_approval_decisions_def Let_def)
  qed
qed

lemma command_choices:
  assumes "\<forall>d \<in> set ds. is_supported_command_decision d"
  shows "map rc_response (filter_map command_decision_choice ds) = map decision_response ds \<and>
    map (\<lambda>c. rc_tone c = ToneAllow) (filter_map command_decision_choice ds) = map allows ds"
  using assms
proof (induction ds)
  case (Cons d ds)
  then show ?case using supported_choice [of d] by auto
qed simp

text \<open>
  A command approval offers the user every decision of the server that the application
  supports, in the server's order, each sent back as it came, and none of its own; only without
  a list of decisions are the four standard ones offered. A request that is shown has a choice.
\<close>

lemma command_choices_exact:
  fixes params :: json and selected :: "string option"
  defines "choices \<equiv> request_choices ''item/commandExecution/requestApproval'' params"
  shows "map rc_response choices = map decision_response (command_approval_decisions params) \<and>
    (case jget ''availableDecisions'' params of
       Some (JArray decisions) \<Rightarrow>
         map rc_response choices = map decision_response (filter is_supported_command_decision decisions)
     | _ \<Rightarrow> True) \<and>
    (route_server_request ''item/commandExecution/requestApproval'' params selected = Interactive \<longrightarrow> choices \<noteq> [])"
proof -
  have choices: "choices = filter_map command_decision_choice (command_approval_decisions params)"
    by (simp add: choices_def request_choices_def)
  have sent: "map rc_response choices = map decision_response (command_approval_decisions params)"
    using command_choices [of "command_approval_decisions params"] decisions_supported unfolding choices by blast
  moreover have "choices \<noteq> []" if "command_approval_decisions params \<noteq> []"
    using sent that by auto
  moreover have "command_approval_decisions params \<noteq> []"
    if "route_server_request ''item/commandExecution/requestApproval'' params selected = Interactive"
    using that by (auto simp: route_server_request_def split: if_splits)
  ultimately show ?thesis
    by (auto simp: command_approval_decisions_def split: option.split json.split)
qed

text \<open>Requests whose permissions, if they ask for any, are not empty.\<close>

definition asks_for_something :: "string \<Rightarrow> json \<Rightarrow> bool" where
  "asks_for_something method_name params \<longleftrightarrow>
     method_name \<noteq> ''item/permissions/requestApproval'' \<or>
     (\<exists>kvs. jget ''permissions'' params = Some (JObject kvs) \<and> kvs \<noteq> [])"

lemma grants_permissions [simp]: "grants (scoped_permissions p scope) \<longleftrightarrow> p \<noteq> JObject []"
  by (simp add: grants_def scoped_permissions_def jget_def)

lemma permission_tones:
  assumes "jget ''permissions'' params = Some (JObject kvs)" "kvs \<noteq> []" "c \<in> set (permission_choices params)"
  shows "rc_tone c = ToneAllow \<longleftrightarrow> grants (rc_response c)"
proof -
  have "(JObject kvs \<noteq> JObject []) = True" "unwrap_or (opt_filter (\<lambda>p. as_object p \<noteq> None) (jget ''permissions'' params)) (JObject []) = JObject kvs"
    using assms(1,2) by simp_all
  then show ?thesis
    using assms(3) unfolding permission_choices_def
    by (auto simp: Let_def split: option.splits prod.splits)
qed

lemma one_of_six:
  obtains "m = a" | "m = b" | "m = c" | "m \<in> {d, e}" | "m = f" | "m \<notin> {a, b, c, d, e, f}"
  by blast

text \<open>
  The colours of the choices are honest. Of the choices of every request, exactly those shown
  as allowing grant something when they are sent: denying or cancelling never lets anything
  through, and nothing that lets something through is shown as harmless.
\<close>

lemma choice_tones_honest:
  assumes "asks_for_something method_name params" "c \<in> set (request_choices method_name params)"
  shows "rc_tone c = ToneAllow \<longleftrightarrow> grants (rc_response c)"
proof -
  have action: "grants (JObject [(''action'', JString s), (''content'', JNull)]) \<longleftrightarrow> s = ''accept''" for s
    by (auto simp: grants_def jget_def)
  have denied: "\<not> allows (JObject [(''denied'', v)])" for v by (auto simp: allows_def jget_def)
  consider "method_name = ''item/commandExecution/requestApproval''" | "method_name = ''item/fileChange/requestApproval''"
    | "method_name = ''item/permissions/requestApproval''" | "method_name \<in> {''applyPatchApproval'', ''execCommandApproval''}"
    | "method_name = ''mcpServer/elicitation/request''"
    | "method_name \<notin> {''item/commandExecution/requestApproval'', ''item/fileChange/requestApproval'',
        ''item/permissions/requestApproval'', ''applyPatchApproval'', ''execCommandApproval'',
        ''mcpServer/elicitation/request''}"
    by (rule one_of_six)
  then show ?thesis
  proof cases
    case 1
    then have "c \<in> set (filter_map command_decision_choice (command_approval_decisions params))"
      using assms(2) by (simp add: request_choices_def)
    then obtain d where "d \<in> set (command_approval_decisions params)" "command_decision_choice d = Some c"
      unfolding set_filter_map by blast
    then show ?thesis using supported_choice [OF decisions_supported] by force
  next
    case 2
    then show ?thesis using assms(2) by (auto simp: request_choices_def plain_choice_def)
  next
    case 3
    then show ?thesis
      using assms permission_tones by (auto simp: asks_for_something_def request_choices_def)
  next
    case 4
    then show ?thesis using assms(2) by (auto simp: request_choices_def plain_choice_def denied)
  next
    case 5
    then show ?thesis using assms(2) by (auto simp: request_choices_def plain_choice_def action split: if_splits)
  next
    case 6
    then show ?thesis using assms(2) by (simp add: request_choices_def)
  qed
qed

text \<open>
  The choices are built from the bounded payload of the card. When the payload of an approval is
  over the limit, its list of decisions is gone, and a request that could only be declined is
  offered with the four standard decisions.
\<close>

lemma omitted_payload_offers_acceptance:
  assumes "bounded_raw_payload h params =
      JObject [(''rawPayload'', a), (''originalBytes'', b), (''boundedBytes'', c)]"
    and "jget ''availableDecisions'' params = Some (JArray [JString ''decline''])"
  shows "map rc_response (request_choices ''item/commandExecution/requestApproval'' params) =
      [decision_response (JString ''decline'')]"
    and "decision_response (JString ''acceptForSession'') \<in>
      set (map rc_response (request_choices ''item/commandExecution/requestApproval'' (bounded_raw_payload h params)))"
proof -
  have "command_approval_decisions params = [JString ''decline'']"
    using assms(2) by (simp add: command_approval_decisions_def is_supported_command_decision_def)
  then show "map rc_response (request_choices ''item/commandExecution/requestApproval'' params) =
      [decision_response (JString ''decline'')]"
    by (simp add: request_choices_def command_decision_choice_def)
  show "decision_response (JString ''acceptForSession'') \<in>
      set (map rc_response (request_choices ''item/commandExecution/requestApproval'' (bounded_raw_payload h params)))"
    unfolding assms(1)
    by (simp add: request_choices_def command_approval_decisions_def jget_def command_decision_choice_def)
qed

end
