(* ===== verification/RequestState.thy ===== *)
theory RequestState
  imports RequestPolicy Session
begin

text \<open>
  The part of the application's state that decides what happens to a request of the server
  (\<open>crates/harness_app/src/main.rs\<close>): which requests are live, which have a surface to answer
  them, and the connection they came through. The operations are the functions of the
  application that change this state; the spawned tasks become operations of their own, which
  take the answer of the awaited call.
\<close>

subsection \<open>State\<close>

record LiveRequestSurface =
  ls_request_id :: json
  ls_responding :: bool

text \<open>
  A client is known by a number, as \<open>Rc::ptr_eq\<close> compares identities. \<open>ha_sent\<close> is the log of
  what was handed to a client, which the program does not keep, and \<open>ha_reconnect_in\<close> the delay
  of the timer task that is waiting.
\<close>

record HarnessApp =
  ha_model :: TranscriptModel
  ha_client :: "nat option"
  ha_connecting :: bool
  ha_replaying :: bool
  ha_reconnect_attempts :: nat
  ha_reconnect_in :: "nat option"
  ha_selected_thread_id :: "string option"
  ha_loading_thread :: bool
  ha_thread_read_only_reason :: "string option"
  ha_error :: "string option"
  ha_live_request_keys :: "string set"
  ha_dirty_request_surfaces :: "string set"
  ha_request_surfaces :: "string \<rightharpoonup> LiveRequestSurface"
  ha_sent :: "(nat \<times> json \<times> RequestReply) list"

definition unresolved :: "TranscriptItem \<Rightarrow> bool" where
  "unresolved item = (case it_pending item of Some request \<Rightarrow> \<not> pr_resolved request | None \<Rightarrow> False)"

text \<open>A loop over the items of the transcript that changes them in place.\<close>

definition each_item :: "(TranscriptItem \<Rightarrow> TranscriptItem) \<Rightarrow> HarnessApp \<Rightarrow> HarnessApp" where
  "each_item f st = st\<lparr>ha_model := (ha_model st)\<lparr>tm_items := map f (tm_items (ha_model st))\<rparr>\<rparr>"

definition one_item :: "nat \<Rightarrow> (TranscriptItem \<Rightarrow> TranscriptItem) \<Rightarrow> HarnessApp \<Rightarrow> HarnessApp" where
  "one_item index f st = st\<lparr>ha_model := (ha_model st)\<lparr>tm_items :=
     (tm_items (ha_model st))[index := f (tm_items (ha_model st) ! index)]\<rparr>\<rparr>"

subsection \<open>Requests that arrive\<close>

fun dispatch_server_requests ::
  "string option \<Rightarrow> Event list \<Rightarrow> Event list \<times> json list \<times> (json \<times> RequestReply) list" where
  "dispatch_server_requests selected [] = ([], [], [])"
| "dispatch_server_requests selected (event # events) =
     (let (forwarded, live_request_ids, replies) = dispatch_server_requests selected events
      in case event of
           ServerRequest i me params \<Rightarrow>
             (case route_server_request me params selected of
                Interactive \<Rightarrow> (event # forwarded, i # live_request_ids, replies)
              | Immediate reply \<Rightarrow> (forwarded, live_request_ids, (i, reply) # replies))
         | _ \<Rightarrow> (event # forwarded, live_request_ids, replies))"

definition send_immediate_request_reply :: "json \<times> RequestReply \<Rightarrow> HarnessApp \<Rightarrow> HarnessApp" where
  "send_immediate_request_reply r st =
     (case ha_client st of
        None \<Rightarrow> st
      | Some client \<Rightarrow> st\<lparr>ha_sent := ha_sent st @ [(client, fst r, snd r)]\<rparr>)"

definition track_item :: "json list \<Rightarrow> nat \<Rightarrow> HarnessApp \<Rightarrow> HarnessApp" where
  "track_item live_request_ids index st =
     (if index < length (tm_items (ha_model st)) then
        let item = tm_items (ha_model st) ! index;
            st = (if unresolved item \<and>
                    list_ex (\<lambda>i. json_eq i (pr_id (the (it_pending item)))) live_request_ids
                  then st\<lparr>ha_live_request_keys := insert (it_key item) (ha_live_request_keys st)\<rparr> else st)
        in if it_key item \<in> ha_live_request_keys st \<or> ha_request_surfaces st (it_key item) \<noteq> None
           then st\<lparr>ha_dirty_request_surfaces := insert (it_key item) (ha_dirty_request_surfaces st)\<rparr>
           else st
      else st)"

definition track_live_request_updates ::
  "json list \<Rightarrow> nat \<Rightarrow> nat \<Rightarrow> nat list \<Rightarrow> HarnessApp \<Rightarrow> HarnessApp" where
  "track_live_request_updates live_request_ids old_len new_len dirty_items st =
     fold (track_item live_request_ids) (dirty_items @ [old_len ..< new_len]) st"

text \<open>The part of \<open>apply_event_batch\<close> that concerns the requests.\<close>

definition apply_event_batch :: "services \<Rightarrow> Event list \<Rightarrow> HarnessApp \<Rightarrow> HarnessApp option" where
  "apply_event_batch sv events st =
     (let (events, live_request_ids, replies) =
            dispatch_server_requests (ha_selected_thread_id st) events;
          st = fold send_immediate_request_reply replies st;
          old_len = length (tm_items (ha_model st))
      in do { (m, outcome) \<leftarrow> apply_batch sv events (ha_selected_thread_id st) (ha_model st);
              let new_len = length (tm_items m);
                  dirty_items = sorted_list_of_set (bo_dirty outcome);
                  st = st\<lparr>ha_model := m\<rparr>;
                  st = (case bo_transport_error outcome of
                          Some error \<Rightarrow> st\<lparr>ha_error := Some error\<rparr> | None \<Rightarrow> st)
              in Some (track_live_request_updates live_request_ids old_len new_len dirty_items st) })"

subsection \<open>Answers\<close>

text \<open>
  Answering takes the request at once; the task that sends the answer then hands it to the
  client, and \<open>response_returned\<close> is what it does when the call returns. The result is the key
  the task remembers.
\<close>

definition respond_with_value :: "nat \<Rightarrow> json \<Rightarrow> HarnessApp \<Rightarrow> HarnessApp \<times> string option" where
  "respond_with_value index response st =
     (case ha_client st of
        None \<Rightarrow> (st, None)
      | Some client \<Rightarrow>
          (case (if index < length (tm_items (ha_model st)) then
                   let item = tm_items (ha_model st) ! index
                   in map_option (\<lambda>request. (it_key item, request)) (it_pending item)
                 else None) of
             None \<Rightarrow> (st, None)
           | Some (request_key, request) \<Rightarrow>
               if pr_resolved request \<or> request_key \<notin> ha_live_request_keys st then (st, None)
               else
                 (let st = st\<lparr>ha_request_surfaces := (ha_request_surfaces st)(request_key :=
                        map_option (\<lambda>entry. entry\<lparr>ls_responding := True\<rparr>)
                          (ha_request_surfaces st request_key))\<rparr>;
                      st = one_item index (\<lambda>item. item\<lparr>it_status := Some ''responding'',
                        it_pending := map_option (\<lambda>r. r\<lparr>pr_resolved := True\<rparr>) (it_pending item)\<rparr>) st
                  in (st\<lparr>ha_sent := ha_sent st @ [(client, pr_id request, ReplyResult response)]\<rparr>,
                      Some request_key))))"

definition response_returned ::
  "string \<Rightarrow> string \<Rightarrow> string option \<Rightarrow> HarnessApp \<Rightarrow> HarnessApp" where
  "response_returned request_key completed_status failure st =
     (case position (\<lambda>item. it_key item = request_key) (tm_items (ha_model st)) of
        None \<Rightarrow> st
      | Some index \<Rightarrow>
          (let st = one_item index (\<lambda>item. item\<lparr>
                 it_status := Some (if failure = None then completed_status else ''response failed''),
                 it_pending := map_option (\<lambda>r. r\<lparr>pr_resolved := failure = None\<rparr>) (it_pending item)\<rparr>) st;
               st = (case failure of
                       Some error \<Rightarrow> st\<lparr>ha_error := Some (''Approval response failed: '' @ error)\<rparr>
                     | None \<Rightarrow> st)
           in st\<lparr>ha_request_surfaces := (ha_request_surfaces st)(request_key :=
                   map_option (\<lambda>entry. entry\<lparr>ls_responding := False\<rparr>) (ha_request_surfaces st request_key)),
                 ha_dirty_request_surfaces := insert request_key (ha_dirty_request_surfaces st)\<rparr>))"

text \<open>An answer from the surface of a request.\<close>

definition handle_request_surface_response ::
  "string \<Rightarrow> json \<Rightarrow> HarnessApp \<Rightarrow> HarnessApp \<times> string option" where
  "handle_request_surface_response item_key response st =
     (case position (\<lambda>item. it_key item = item_key) (tm_items (ha_model st)) of
        None \<Rightarrow> (st, None)
      | Some index \<Rightarrow>
          if \<not> unresolved (tm_items (ha_model st) ! index) \<or> ha_client st = None then (st, None)
          else respond_with_value index response (st\<lparr>ha_request_surfaces := (ha_request_surfaces st)(item_key :=
                 map_option (\<lambda>entry. entry\<lparr>ls_responding := True\<rparr>) (ha_request_surfaces st item_key))\<rparr>))"

definition waiting_request :: "string set \<Rightarrow> TranscriptItem \<Rightarrow> PendingRequest option" where
  "waiting_request live_request_keys item =
     (if it_key item \<notin> live_request_keys then None
      else opt_filter (\<lambda>request. \<not> pr_resolved request) (it_pending item))"

definition decline_item :: "string set \<Rightarrow> TranscriptItem \<Rightarrow> TranscriptItem" where
  "decline_item live_request_keys item =
     (case waiting_request live_request_keys item of
        None \<Rightarrow> item
      | Some request \<Rightarrow> item\<lparr>it_pending := Some (request\<lparr>pr_resolved := True\<rparr>),
          it_status := Some ''declined when task closed''\<rparr>)"

definition rejected_request :: "string set \<Rightarrow> TranscriptItem \<Rightarrow> (string \<times> json \<times> RequestReply) option" where
  "rejected_request live_request_keys item =
     map_option (\<lambda>request. (it_key item, pr_id request,
        safe_request_rejection (pr_method request) (it_raw item)))
       (waiting_request live_request_keys item)"

definition reject_pending_requests :: "HarnessApp \<Rightarrow> HarnessApp" where
  "reject_pending_requests st =
     (let pending = filter_map (rejected_request (ha_live_request_keys st)) (tm_items (ha_model st));
          st = each_item (decline_item (ha_live_request_keys st)) st
      in fold (\<lambda>(item_key, reply) st. send_immediate_request_reply reply
             (st\<lparr>ha_dirty_request_surfaces := insert item_key (ha_dirty_request_surfaces st)\<rparr>))
           pending st)"

definition mark_unbacked_requests_inactive :: "HarnessApp \<Rightarrow> HarnessApp" where
  "mark_unbacked_requests_inactive st =
     each_item (\<lambda>item. if unresolved item \<and> it_key item \<notin> ha_live_request_keys st
       then item\<lparr>it_status := Some ''inactive''\<rparr> else item) st"

definition retire_all_request_surfaces :: "HarnessApp \<Rightarrow> HarnessApp" where
  "retire_all_request_surfaces st =
     st\<lparr>ha_live_request_keys := {},
        ha_dirty_request_surfaces := ha_dirty_request_surfaces st \<union> dom (ha_request_surfaces st)\<rparr>"

subsection \<open>Surfaces\<close>

datatype SurfaceSyncDecision = Ignore | Upsert | KeepResponding | Remove

definition surface_sync_decision :: "bool \<Rightarrow> bool \<Rightarrow> bool \<Rightarrow> bool \<Rightarrow> SurfaceSyncDecision" where
  "surface_sync_decision is_live is_unresolved responding exists =
     (if \<not> is_live then (if exists then Remove else Ignore)
      else if is_unresolved then Upsert
      else if responding \<and> exists then KeepResponding
      else if exists then Remove else Ignore)"

definition remove_request_surface :: "string \<Rightarrow> bool \<Rightarrow> HarnessApp \<Rightarrow> HarnessApp" where
  "remove_request_surface item_key retire_live_request st =
     st\<lparr>ha_request_surfaces := (ha_request_surfaces st)(item_key := None),
        ha_live_request_keys := (if retire_live_request then ha_live_request_keys st - {item_key}
          else ha_live_request_keys st)\<rparr>"

definition sync_request_surface :: "string \<Rightarrow> HarnessApp \<Rightarrow> HarnessApp" where
  "sync_request_surface item_key st =
     (let item = find (\<lambda>item. it_key item = item_key) (tm_items (ha_model st));
          request = Option.bind item it_pending;
          is_live = (item_key \<in> ha_live_request_keys st);
          is_unresolved = (case request of Some r \<Rightarrow> \<not> pr_resolved r | None \<Rightarrow> False);
          responding = (case ha_request_surfaces st item_key of
             Some entry \<Rightarrow> ls_responding entry | None \<Rightarrow> False)
      in case surface_sync_decision is_live is_unresolved responding (ha_request_surfaces st item_key \<noteq> None) of
           Remove \<Rightarrow> remove_request_surface item_key True st
         | Upsert \<Rightarrow>
             (case request of
                None \<Rightarrow> st
              | Some request \<Rightarrow>
                  (let st = (case ha_request_surfaces st item_key of
                         Some entry \<Rightarrow> if \<not> json_eq (ls_request_id entry) (pr_id request)
                           then remove_request_surface item_key False st else st
                       | None \<Rightarrow> st)
                   in case ha_request_surfaces st item_key of
                        Some entry \<Rightarrow> st
                      | None \<Rightarrow> st\<lparr>ha_request_surfaces := (ha_request_surfaces st)(item_key \<mapsto>
                          \<lparr>ls_request_id = pr_id request, ls_responding = False\<rparr>)\<rparr>))
         | _ \<Rightarrow> st)"

text \<open>The set of dirty keys is taken and visited in the order of the hash set, here a parameter.\<close>

definition sync_request_surfaces :: "(string set \<Rightarrow> string list) \<Rightarrow> HarnessApp \<Rightarrow> HarnessApp" where
  "sync_request_surfaces order st =
     fold sync_request_surface (order (ha_dirty_request_surfaces st))
       (st\<lparr>ha_dirty_request_surfaces := {}\<rparr>)"

subsection \<open>Tasks\<close>

definition open_thread :: "string \<Rightarrow> HarnessApp \<Rightarrow> HarnessApp" where
  "open_thread thread_id st =
     (if ha_client st = None then st
      else
        let st = reject_pending_requests st;
            st = st\<lparr>ha_selected_thread_id := Some thread_id, ha_loading_thread := True,
                    ha_thread_read_only_reason := None, ha_error := None,
                    ha_model := clear (ha_model st)\<rparr>
        in retire_all_request_surfaces st)"

text \<open>What \<open>load_thread\<close> does to the state; the cache it merges is a parameter as in \<open>Session\<close>.\<close>

definition load_thread_app ::
  "services \<Rightarrow> (string \<Rightarrow> string option) \<Rightarrow> (string \<Rightarrow> file_read) \<Rightarrow>
   (string \<Rightarrow> PersistedTranscript option) \<Rightarrow> CodexThread \<Rightarrow> HarnessApp \<Rightarrow> HarnessApp option" where
  "load_thread_app sv env read_file from_slice thread st =
     (let st = st\<lparr>ha_selected_thread_id := Some (th_id thread)\<rparr>
      in do { m \<leftarrow> load_thread (sv_host sv) thread (ha_model st);
              (restored, m) \<leftarrow> merge_persisted_transcript env read_file from_slice (th_id thread) m;
              Some (retire_all_request_surfaces (mark_unbacked_requests_inactive (st\<lparr>ha_model := m\<rparr>))) })"

text \<open>The task of \<open>open_thread\<close> when the reads have returned: the thread and the read-only warning.\<close>

definition thread_opened ::
  "services \<Rightarrow> (string \<Rightarrow> string option) \<Rightarrow> (string \<Rightarrow> file_read) \<Rightarrow>
   (string \<Rightarrow> PersistedTranscript option) \<Rightarrow> CodexThread \<Rightarrow> string option \<Rightarrow> HarnessApp \<Rightarrow> HarnessApp option" where
  "thread_opened sv env read_file from_slice thread warning st =
     do { st \<leftarrow> load_thread_app sv env read_file from_slice thread (st\<lparr>ha_loading_thread := False\<rparr>);
          Some (st\<lparr>ha_thread_read_only_reason := warning, ha_error := None\<rparr>) }"

definition thread_not_opened :: "string \<Rightarrow> HarnessApp \<Rightarrow> HarnessApp" where
  "thread_not_opened error st = st\<lparr>ha_loading_thread := False,
     ha_thread_read_only_reason := Some ''This task could not be loaded. Choose another task or start a new one.'',
     ha_error := Some (''Could not open task: '' @ error)\<rparr>"

definition new_task :: "HarnessApp \<Rightarrow> HarnessApp" where
  "new_task st =
     (let st = reject_pending_requests st;
          st = st\<lparr>ha_model := clear (ha_model st)\<rparr>;
          st = retire_all_request_surfaces st
      in st\<lparr>ha_selected_thread_id := None, ha_thread_read_only_reason := None, ha_error := None\<rparr>)"

subsection \<open>The connection\<close>

definition MAX_RECONNECT_ATTEMPTS :: nat where "MAX_RECONNECT_ATTEMPTS = 3"

text \<open>In seconds; \<open>1 << attempt\<close> does not overflow below the limit.\<close>

definition reconnect_delay :: "nat \<Rightarrow> nat option" where
  "reconnect_delay attempt = (if attempt < MAX_RECONNECT_ATTEMPTS then Some (push_bit attempt 1) else None)"

definition schedule_reconnect :: "HarnessApp \<Rightarrow> HarnessApp" where
  "schedule_reconnect st =
     (if ha_client st \<noteq> None \<or> ha_connecting st \<or> ha_replaying st then st
      else case reconnect_delay (ha_reconnect_attempts st) of
        None \<Rightarrow> st
      | Some delay \<Rightarrow>
          (let attempt = ha_reconnect_attempts st + 1
           in st\<lparr>ha_reconnect_attempts := attempt,
                 ha_error := Some (''Codex app server disconnected. Reconnecting in '' @ dec delay @ ''s ('' @
                   dec attempt @ ''/'' @ dec MAX_RECONNECT_ATTEMPTS @ '')'' @ ellipsis),
                 ha_reconnect_in := Some delay\<rparr>))"

definition connect :: "HarnessApp \<Rightarrow> HarnessApp" where
  "connect st =
     (if ha_connecting st \<or> ha_client st \<noteq> None \<or> ha_replaying st then st
      else st\<lparr>ha_connecting := True, ha_error := None\<rparr>)"

text \<open>The timer of a scheduled reconnection.\<close>

definition reconnect_timer :: "HarnessApp \<Rightarrow> HarnessApp" where
  "reconnect_timer st =
     (let st = st\<lparr>ha_reconnect_in := None\<rparr>
      in if ha_client st = None \<and> \<not> ha_connecting st then connect st else st)"

text \<open>
  The two results of the connection task. A connection may open the listed thread that the
  query of the start selects.
\<close>

definition connected :: "nat \<Rightarrow> string option \<Rightarrow> HarnessApp \<Rightarrow> HarnessApp" where
  "connected client initial_thread st =
     (let st = st\<lparr>ha_client := Some client, ha_connecting := False, ha_reconnect_attempts := 0,
                 ha_error := None\<rparr>
      in case initial_thread of Some thread_id \<Rightarrow> open_thread thread_id st | None \<Rightarrow> st)"

definition connect_failed :: "string \<Rightarrow> HarnessApp \<Rightarrow> HarnessApp" where
  "connect_failed error st = schedule_reconnect (st\<lparr>ha_connecting := False,
     ha_error := Some
       (if ha_reconnect_attempts st \<ge> MAX_RECONNECT_ATTEMPTS
        then ''Could not reconnect to Codex: '' @ error @ ''. Refresh the task list to try again.''
        else ''Could not connect to Codex: '' @ error)\<rparr>)"

definition handle_server_disconnect :: "nat \<Rightarrow> HarnessApp \<Rightarrow> HarnessApp" where
  "handle_server_disconnect disconnected_client st =
     (if ha_client st \<noteq> Some disconnected_client then st
      else
        let st = st\<lparr>ha_client := None, ha_connecting := False,
                   ha_model := (ha_model st)\<lparr>tm_current_turn_id := None\<rparr>,
                   ha_thread_read_only_reason := None,
                   ha_error := Some ''Codex app server disconnected.''\<rparr>;
            st = retire_all_request_surfaces st;
            st = mark_unbacked_requests_inactive st
        in schedule_reconnect st)"

subsection \<open>Steps\<close>

text \<open>
  What can happen to the application, with the guards of its tasks: events come from the task
  of the current client, a connection is made or fails while it is being made, a timer runs when
  one was set.
\<close>

datatype app_op =
    EventBatch "Event list"
  | Respond nat json
  | RespondFromSurface string json
  | ResponseResult string string "string option"
  | SyncSurfaces "string set \<Rightarrow> string list"
  | OpenThread string
  | ThreadOpened "string \<Rightarrow> string option" "string \<Rightarrow> file_read" "string \<Rightarrow> PersistedTranscript option"
      CodexThread "string option"
  | ThreadNotOpened string
  | NewTask
  | Connect
  | Connected nat "string option"
  | ConnectFailed string
  | ReconnectTimer
  | ServerDisconnect nat

inductive app_step :: "services \<Rightarrow> HarnessApp \<Rightarrow> app_op \<Rightarrow> HarnessApp \<Rightarrow> bool" for sv where
  "ha_client st \<noteq> None \<Longrightarrow> apply_event_batch sv events st = Some st' \<Longrightarrow> app_step sv st (EventBatch events) st'"
| "app_step sv st (Respond index response) (fst (respond_with_value index response st))"
| "app_step sv st (RespondFromSurface key response) (fst (handle_request_surface_response key response st))"
| "app_step sv st (ResponseResult key status failure) (response_returned key status failure st)"
| "app_step sv st (SyncSurfaces order) (sync_request_surfaces order st)"
| "app_step sv st (OpenThread thread_id) (open_thread thread_id st)"
| "thread_opened sv env read_file from_slice thread warning st = Some st' \<Longrightarrow>
     app_step sv st (ThreadOpened env read_file from_slice thread warning) st'"
| "app_step sv st (ThreadNotOpened error) (thread_not_opened error st)"
| "app_step sv st NewTask (new_task st)"
| "app_step sv st Connect (connect st)"
| "ha_connecting st \<Longrightarrow> app_step sv st (Connected client thread) (connected client thread st)"
| "ha_connecting st \<Longrightarrow> app_step sv st (ConnectFailed error) (connect_failed error st)"
| "ha_reconnect_in st \<noteq> None \<Longrightarrow> app_step sv st ReconnectTimer (reconnect_timer st)"
| "app_step sv st (ServerDisconnect client) (handle_server_disconnect client st)"

inductive_cases app_stepE: "app_step sv st op st'"

text \<open>The application before it has connected.\<close>

definition initial_app :: "TranscriptModel \<Rightarrow> string option \<Rightarrow> bool \<Rightarrow> HarnessApp" where
  "initial_app m initial_thread_id replaying = \<lparr>ha_model = m, ha_client = None, ha_connecting = False,
     ha_replaying = replaying, ha_reconnect_attempts = 0, ha_reconnect_in = None,
     ha_selected_thread_id = initial_thread_id, ha_loading_thread = False, ha_thread_read_only_reason = None,
     ha_error = None, ha_live_request_keys = {}, ha_dirty_request_surfaces = {},
     ha_request_surfaces = Map.empty, ha_sent = []\<rparr>"

inductive app_run :: "services \<Rightarrow> HarnessApp \<Rightarrow> app_op list \<Rightarrow> HarnessApp \<Rightarrow> bool" for sv where
  app_done: "app_run sv st [] st"
| app_next: "app_step sv st op st' \<Longrightarrow> app_run sv st' ops st'' \<Longrightarrow> app_run sv st (op # ops) st''"

end
