(* ===== verification/RequestHandling.thy ===== *)
theory RequestHandling
  imports RequestState
begin

text \<open>
  What happens to the requests of the server: each is answered at once or reaches the user,
  closing a task answers those that wait, an answer is taken once, and the surfaces and the
  reconnections follow.
\<close>

subsection \<open>Dispatch and replies\<close>

lemma dispatch_append:
  "dispatch_server_requests selected (xs @ ys) =
     (let (f, l, r) = dispatch_server_requests selected xs; (f', l', r') = dispatch_server_requests selected ys
      in (f @ f', l @ l', r @ r'))"
  by (induction xs) (auto simp: Let_def split: prod.split Event.split RequestRoute.split)

lemma send_replies:
  "fold send_immediate_request_reply replies st =
     st\<lparr>ha_sent := ha_sent st @
       (case ha_client st of None \<Rightarrow> [] | Some c \<Rightarrow> map (\<lambda>(i, reply). (c, i, reply)) replies)\<rparr>"
  by (induction replies arbitrary: st)
    (auto simp: send_immediate_request_reply_def split: option.split)

lemma not_an_index: "parse_index ''threadId'' = None"
  by (simp add: parse_index_def in_bytes_def)

lemma request_of_thread: "request_matches_thread params selected \<Longrightarrow> event_matches_thread selected params"
  by (auto simp: request_matches_thread_def event_matches_thread_def string_at_def jget_def or_else_def Let_def not_an_index
      split: option.splits json.splits)

lemma interactive_matches: "route_server_request me params selected = Interactive \<Longrightarrow> request_matches_thread params selected"
  by (auto simp: route_server_request_def split: if_splits)

subsection \<open>Tracking\<close>

text \<open>The items a batch has left waiting for one of its requests.\<close>

definition waits_for :: "json list \<Rightarrow> TranscriptItem \<Rightarrow> bool" where
  "waits_for ids item \<longleftrightarrow> unresolved item \<and> list_ex (\<lambda>i. json_eq i (pr_id (the (it_pending item)))) ids"

lemma track_item_fields:
  "ha_model (track_item ids j st) = ha_model st" "ha_client (track_item ids j st) = ha_client st"
  "ha_sent (track_item ids j st) = ha_sent st" "ha_selected_thread_id (track_item ids j st) = ha_selected_thread_id st"
  "ha_request_surfaces (track_item ids j st) = ha_request_surfaces st"
  "ha_live_request_keys (track_item ids j st) = ha_live_request_keys st \<union>
     {it_key item | item. j < length (tm_items (ha_model st)) \<and> item = tm_items (ha_model st) ! j \<and> waits_for ids item}"
  "ha_dirty_request_surfaces st \<subseteq> ha_dirty_request_surfaces (track_item ids j st)"
  "j < length (tm_items (ha_model st)) \<Longrightarrow> waits_for ids (tm_items (ha_model st) ! j) \<Longrightarrow>
     it_key (tm_items (ha_model st) ! j) \<in> ha_dirty_request_surfaces (track_item ids j st)"
  by (auto simp: track_item_def waits_for_def Let_def)

lemma track_fields:
  fixes js ids st
  defines "st' \<equiv> fold (track_item ids) js st"
  shows "ha_model st' = ha_model st" "ha_client st' = ha_client st" "ha_sent st' = ha_sent st"
    "ha_selected_thread_id st' = ha_selected_thread_id st" "ha_request_surfaces st' = ha_request_surfaces st"
    "ha_live_request_keys st' = ha_live_request_keys st \<union>
       {it_key item | item. \<exists>j \<in> set js. j < length (tm_items (ha_model st)) \<and>
          item = tm_items (ha_model st) ! j \<and> waits_for ids item}"
    "ha_dirty_request_surfaces st \<subseteq> ha_dirty_request_surfaces st'"
    "j \<in> set js \<Longrightarrow> j < length (tm_items (ha_model st)) \<Longrightarrow> waits_for ids (tm_items (ha_model st) ! j) \<Longrightarrow>
       it_key (tm_items (ha_model st) ! j) \<in> ha_dirty_request_surfaces st'"
  unfolding st'_def
proof (induction js arbitrary: st)
  case (Cons x js)
  { case 1 then show ?case using Cons(1) by (simp add: track_item_fields) }
  { case 2 then show ?case using Cons(2) by (simp add: track_item_fields) }
  { case 3 then show ?case using Cons(3) by (simp add: track_item_fields) }
  { case 4 then show ?case using Cons(4) by (simp add: track_item_fields) }
  { case 5 then show ?case using Cons(5) by (simp add: track_item_fields) }
  { case 6 show ?case using Cons(6) [of "track_item ids x st"] by (auto simp: track_item_fields) }
  { case 7 then show ?case
      using Cons(7) [of "track_item ids x st"] track_item_fields(7) [of st ids x] by auto }
  { case 8 then show ?case
      using Cons(8) [of "track_item ids x st"] Cons(7) [of "track_item ids x st"]
        track_item_fields(8) [of x st ids] by (auto simp: track_item_fields(1)) }
qed simp_all

subsection \<open>A batch with requests\<close>

lemma batch_with_requests:
  assumes "model_ok (ha_model st)"
    "dispatch_server_requests (ha_selected_thread_id st) events = (forwarded, ids, replies)"
  obtains m out st' where
    "apply_batch sv forwarded (ha_selected_thread_id st) (ha_model st) = Some (m, out)"
    "apply_event_batch sv events st = Some st'" "ha_model st' = m" "model_ok m" "ha_client st' = ha_client st"
    "ha_sent st' = ha_sent st @
       (case ha_client st of None \<Rightarrow> [] | Some c \<Rightarrow> map (\<lambda>(i, reply). (c, i, reply)) replies)"
    "\<And>j. j \<in> bo_dirty out \<Longrightarrow> j < length (tm_items m) \<Longrightarrow> waits_for ids (tm_items m ! j) \<Longrightarrow>
       it_key (tm_items m ! j) \<in> ha_live_request_keys st' \<inter> ha_dirty_request_surfaces st'"
proof -
  obtain m out where r: "apply_batch sv forwarded (ha_selected_thread_id st) (ha_model st) = Some (m, out)"
    "model_ok m" "redraws (ha_model st, default_outcome) (m, out)"
    using apply_batch_safe [OF assms(1)] by blast
  have "finite (bo_dirty out)"
    using r(3) unfolding redraws_def by (auto simp: default_outcome_def intro: finite_subset)
  then have dirty: "set (sorted_list_of_set (bo_dirty out)) = bo_dirty out" by simp
  define st1 where "st1 = (case bo_transport_error out of
     Some error \<Rightarrow> (fold send_immediate_request_reply replies st)\<lparr>ha_model := m, ha_error := Some error\<rparr>
   | None \<Rightarrow> (fold send_immediate_request_reply replies st)\<lparr>ha_model := m\<rparr>)"
  have st1: "ha_model st1 = m" "ha_client st1 = ha_client st" "ha_sent st1 = ha_sent st @
       (case ha_client st of None \<Rightarrow> [] | Some c \<Rightarrow> map (\<lambda>(i, reply). (c, i, reply)) replies)"
    by (auto simp: st1_def send_replies split: option.split)
  let ?js = "sorted_list_of_set (bo_dirty out) @ [length (tm_items (ha_model st)) ..< length (tm_items m)]"
  have "apply_event_batch sv events st = Some (fold (track_item ids) ?js st1)"
    by (cases "bo_transport_error out")
      (simp_all add: apply_event_batch_def assms(2) r(1) send_replies track_live_request_updates_def st1_def Let_def)
  moreover have "it_key (tm_items m ! j) \<in> ha_live_request_keys (fold (track_item ids) ?js st1) \<inter>
      ha_dirty_request_surfaces (fold (track_item ids) ?js st1)"
    if "j \<in> bo_dirty out" "j < length (tm_items m)" "waits_for ids (tm_items m ! j)" for j
    using track_fields(8) [of j ?js st1 ids] that dirty
    by (auto simp: track_fields(6) st1(1) simp del: fold_append sorted_list_of_set.set_sorted_key_list_of_set)
  ultimately show thesis
    using that [OF r(1), of "fold (track_item ids) ?js st1"] r(2) st1 track_fields(1-3) [of ids ?js st1]
    by (simp del: fold_append)
qed

lemma asked_card:
  assumes "model_ok m" "event_matches_thread selected params"
  shows "\<exists>m' index. event_step sv selected (ServerRequest i me params) (m, out) = Some (m', mark index out) \<and>
    index < length (tm_items m') \<and>
    it_pending (tm_items m' ! index) = Some \<lparr>pr_id = i, pr_method = me, pr_resolved = False\<rparr> \<and>
    it_status (tm_items m' ! index) = Some ''waiting''"
proof -
  let ?h = "sv_host sv"
  let ?p = "pending_request_presentation ?h me params"
  have "indices_ok (record_raw ?h me params m)"
    using assms(1) by (simp add: model_okD record_raw_indices_ok)
  then obtain index m1 where m1: "upsert_generated ?h (''request:'' @ compact_json ?h i) Approval (prp_title ?p)
      (prp_content ?p) params (record_raw ?h me params m) = Some (index, m1)" "index < length (tm_items m1)"
    using upsert_generated_ok unfolding op_ok_def touches_def by blast
  then have "event_step sv selected (ServerRequest i me params) (m, out) = Some (m1\<lparr>tm_items := (tm_items m1)
      [index := (tm_items m1 ! index)\<lparr>it_status := Some ''waiting'',
         it_pending := Some \<lparr>pr_id = i, pr_method = me, pr_resolved = False\<rparr>\<rparr>]\<rparr>, mark index out)"
    using assms(2)
    by (simp add: event_step_def on_server_request_def Let_def then_item_def marked_def update_item_Some)
  then show ?thesis using m1(2) by (intro exI conjI) (assumption, simp_all)
qed

lemma interactive_request_waits:
  fixes before :: "Event list"
  assumes "model_ok (ha_model st)" "ha_client st = Some client" "json_ok i"
    and interactive: "route_server_request me params (ha_selected_thread_id st) = Interactive"
  shows "\<exists>st' index replies. apply_event_batch sv (before @ [ServerRequest i me params]) st = Some st' \<and>
    index < length (tm_items (ha_model st')) \<and>
    it_pending (tm_items (ha_model st') ! index) = Some \<lparr>pr_id = i, pr_method = me, pr_resolved = False\<rparr> \<and>
    it_status (tm_items (ha_model st') ! index) = Some ''waiting'' \<and>
    it_key (tm_items (ha_model st') ! index) \<in> ha_live_request_keys st' \<and>
    it_key (tm_items (ha_model st') ! index) \<in> ha_dirty_request_surfaces st' \<and>
    ha_client st' = Some client \<and> ha_sent st' = ha_sent st @ replies \<and> (before = [] \<longrightarrow> replies = []) \<and>
    model_ok (ha_model st')"
proof -
  let ?sel = "ha_selected_thread_id st"
  obtain forwarded ids replies where b: "dispatch_server_requests ?sel before = (forwarded, ids, replies)"
    by (cases "dispatch_server_requests ?sel before")
  have d: "dispatch_server_requests ?sel (before @ [ServerRequest i me params]) =
      (forwarded @ [ServerRequest i me params], ids @ [i], replies)"
    by (simp add: dispatch_append b interactive)
  obtain m0 out0 where m0: "apply_batch sv forwarded ?sel (ha_model st) = Some (m0, out0)" "model_ok m0"
    using apply_batch_safe [OF assms(1)] by blast
  from asked_card [OF m0(2) request_of_thread [OF interactive_matches [OF interactive]], of sv i me out0]
  obtain m index where c: "event_step sv ?sel (ServerRequest i me params) (m0, out0) = Some (m, mark index out0)"
    "index < length (tm_items m)"
    "it_pending (tm_items m ! index) = Some \<lparr>pr_id = i, pr_method = me, pr_resolved = False\<rparr>"
    "it_status (tm_items m ! index) = Some ''waiting''" by blast
  have whole: "apply_batch sv (forwarded @ [ServerRequest i me params]) ?sel (ha_model st) = Some (m, mark index out0)"
    using m0(1) c(1) by (simp add: apply_batch_def batch.loop_append)
  obtain m2 out2 st' where r:
    "apply_batch sv (forwarded @ [ServerRequest i me params]) ?sel (ha_model st) = Some (m2, out2)"
    "apply_event_batch sv (before @ [ServerRequest i me params]) st = Some st'" "ha_model st' = m2" "model_ok m2"
    "ha_client st' = ha_client st" "ha_sent st' = ha_sent st @
      (case ha_client st of None \<Rightarrow> [] | Some c \<Rightarrow> map (\<lambda>(i, reply). (c, i, reply)) replies)"
    and keys: "\<And>j. j \<in> bo_dirty out2 \<Longrightarrow> j < length (tm_items m2) \<Longrightarrow> waits_for (ids @ [i]) (tm_items m2 ! j) \<Longrightarrow>
      it_key (tm_items m2 ! j) \<in> ha_live_request_keys st' \<inter> ha_dirty_request_surfaces st'"
    by (rule batch_with_requests [OF assms(1) d], rule that)
  have same: "m2 = m" "out2 = mark index out0" using r(1) whole by simp_all
  have "waits_for (ids @ [i]) (tm_items m ! index)"
    using c(3) json_eq_refl [OF assms(3)] by (simp add: waits_for_def unresolved_def)
  with keys [unfolded same, of index] c(2) have "it_key (tm_items m ! index) \<in> ha_live_request_keys st'"
    "it_key (tm_items m ! index) \<in> ha_dirty_request_surfaces st'" by (auto simp: mark_def)
  moreover have "before = [] \<longrightarrow> replies = []" using b by auto
  ultimately show ?thesis
    using c(2-4) r(2,4,5,6) r(3) [unfolded same] assms(2) same(1) by (intro exI [of _ st'] exI [of _ index]) auto
qed

text \<open>
  C21. No request of the server is lost. The last request of a batch, whatever came before it, is
  either answered on the spot, in the order of the requests, or it is on a card that waits in the
  transcript, is live and gets a surface, and any answer the user gives to it is sent.
\<close>

theorem request_reaches_user:
  fixes before :: "Event list"
  assumes "model_ok (ha_model st)" "ha_client st = Some client" "json_ok i"
  shows "\<exists>st'. apply_event_batch sv (before @ [ServerRequest i me params]) st = Some st' \<and>
    (case route_server_request me params (ha_selected_thread_id st) of
       Immediate reply \<Rightarrow> ha_sent st' \<noteq> [] \<and> last (ha_sent st') = (client, i, reply)
     | Interactive \<Rightarrow>
         (\<exists>index < length (tm_items (ha_model st')). let item = tm_items (ha_model st') ! index in
            it_pending item = Some \<lparr>pr_id = i, pr_method = me, pr_resolved = False\<rparr> \<and>
            it_status item = Some ''waiting'' \<and>
            it_key item \<in> ha_live_request_keys st' \<and> it_key item \<in> ha_dirty_request_surfaces st' \<and>
            (\<forall>response. ha_sent (fst (respond_with_value index response st')) =
               ha_sent st' @ [(client, i, ReplyResult response)])))"
proof (cases "route_server_request me params (ha_selected_thread_id st)")
  case (Immediate reply)
  let ?sel = "ha_selected_thread_id st"
  obtain forwarded ids replies where b: "dispatch_server_requests ?sel before = (forwarded, ids, replies)"
    by (cases "dispatch_server_requests ?sel before")
  from Immediate have d: "dispatch_server_requests ?sel (before @ [ServerRequest i me params]) =
      (forwarded, ids, replies @ [(i, reply)])"
    by (simp add: dispatch_append b)
  obtain st' where "apply_event_batch sv (before @ [ServerRequest i me params]) st = Some st'"
    "ha_sent st' = ha_sent st @ (case ha_client st of None \<Rightarrow> []
       | Some c \<Rightarrow> map (\<lambda>(i, reply). (c, i, reply)) (replies @ [(i, reply)]))"
    by (rule batch_with_requests [OF assms(1) d], rule that)
  then have "apply_event_batch sv (before @ [ServerRequest i me params]) st = Some st'"
    "ha_sent st' = (ha_sent st @ map (\<lambda>(i, reply). (client, i, reply)) replies) @ [(client, i, reply)]"
    by (simp_all add: assms(2))
  then show ?thesis by (simp add: Immediate)
next
  case Interactive
  from interactive_request_waits [OF assms Interactive, of sv before] obtain st' index where
    w: "apply_event_batch sv (before @ [ServerRequest i me params]) st = Some st'"
    "index < length (tm_items (ha_model st'))" "ha_client st' = Some client"
    "it_pending (tm_items (ha_model st') ! index) = Some \<lparr>pr_id = i, pr_method = me, pr_resolved = False\<rparr>"
    "it_status (tm_items (ha_model st') ! index) = Some ''waiting''"
    "it_key (tm_items (ha_model st') ! index) \<in> ha_live_request_keys st'"
    "it_key (tm_items (ha_model st') ! index) \<in> ha_dirty_request_surfaces st'" by blast
  then have "ha_sent (fst (respond_with_value index response st')) = ha_sent st' @ [(client, i, ReplyResult response)]" for response
    by (simp add: respond_with_value_def Let_def one_item_def)
  with w Interactive show ?thesis by (auto simp: Let_def)
qed

definition connected_app :: "string \<Rightarrow> HarnessApp" where
  "connected_app thread_id = (initial_app default_model (Some thread_id) False)\<lparr>ha_client := Some 1\<rparr>"

theorem request_reaches_user_witness:
  "\<exists>st'. apply_event_batch (example_services tiny_host)
      ([] @ [ServerRequest JNull ''item/fileChange/requestApproval'' (JObject [(''threadId'', JString ''t'')])])
      (connected_app ''t'') = Some st' \<and> ha_live_request_keys st' \<noteq> {}"
proof -
  let ?p = "JObject [(''threadId'', JString ''t'')]"
  have route: "route_server_request ''item/fileChange/requestApproval'' ?p (Some ''t'') = Interactive"
    by (simp add: route_server_request_def request_matches_thread_def jget_def)
  have "model_ok (ha_model (connected_app ''t''))" "ha_client (connected_app ''t'') = Some 1" "json_ok JNull"
    "ha_selected_thread_id (connected_app ''t'') = Some ''t''"
    by (simp_all add: connected_app_def initial_app_def default_model_ok)
  with request_reaches_user [OF this(1-3), of "example_services tiny_host" "[]" "''item/fileChange/requestApproval''" ?p]
  show ?thesis by (auto simp: route Let_def)
qed

subsection \<open>Closing a task\<close>

definition waiting_on :: "string set \<Rightarrow> TranscriptItem list \<Rightarrow> TranscriptItem list" where
  "waiting_on live items = filter (\<lambda>item. waiting_request live item \<noteq> None) items"

definition refusal :: "nat \<Rightarrow> TranscriptItem \<Rightarrow> nat \<times> json \<times> RequestReply" where
  "refusal client item = (let request = the (it_pending item)
     in (client, pr_id request, safe_request_rejection (pr_method request) (it_raw item)))"

lemma each_item_fields [simp]:
  "ha_client (each_item f st) = ha_client st" "ha_sent (each_item f st) = ha_sent st"
  "ha_live_request_keys (each_item f st) = ha_live_request_keys st"
  "tm_items (ha_model (each_item f st)) = map f (tm_items (ha_model st))"
  "ha_request_surfaces (each_item f st) = ha_request_surfaces st"
  "ha_connecting (each_item f st) = ha_connecting st" "ha_replaying (each_item f st) = ha_replaying st"
  "ha_reconnect_attempts (each_item f st) = ha_reconnect_attempts st"
  "ha_reconnect_in (each_item f st) = ha_reconnect_in st"
  by (simp_all add: each_item_def)

lemma waiting_request_Some:
  "waiting_request live item = Some r \<longleftrightarrow> it_key item \<in> live \<and> it_pending item = Some r \<and> \<not> pr_resolved r"
  by (auto simp: waiting_request_def opt_filter_def split: option.splits if_splits)

text \<open>The loop over the refused requests.\<close>

lemma refuse_loop:
  fixes st :: HarnessApp
  defines "refuse \<equiv> \<lambda>(item_key, reply) st. send_immediate_request_reply reply
     (st\<lparr>ha_dirty_request_surfaces := insert item_key (ha_dirty_request_surfaces st)\<rparr>)"
  shows "fold refuse pending st = st\<lparr>
     ha_dirty_request_surfaces := ha_dirty_request_surfaces st \<union> fst ` set pending,
     ha_sent := ha_sent st @ (case ha_client st of None \<Rightarrow> []
       | Some c \<Rightarrow> map (\<lambda>(key, r). (c, r)) pending)\<rparr>"
  unfolding refuse_def
proof (induction pending arbitrary: st)
  case (Cons p pending)
  then show ?case by (cases p; cases "ha_client st") (simp_all add: send_immediate_request_reply_def)
qed (simp split: option.split)

lemma refusals:
  "map (\<lambda>(key, r). (c, r)) (filter_map (rejected_request live) items) =
     map (refusal c) (waiting_on live items)"
proof (induction items)
  case (Cons item items)
  show ?case
  proof (cases "waiting_request live item")
    case None
    with Cons show ?thesis by (simp add: waiting_on_def rejected_request_def)
  next
    case (Some r)
    then have "it_pending item = Some r" by (simp add: waiting_request_Some)
    with Some Cons show ?thesis by (simp add: waiting_on_def rejected_request_def refusal_def)
  qed
qed (simp add: waiting_on_def)

lemma reject_fields:
  "ha_sent (reject_pending_requests st) = ha_sent st @ (case ha_client st of None \<Rightarrow> []
     | Some c \<Rightarrow> map (refusal c) (waiting_on (ha_live_request_keys st) (tm_items (ha_model st))))"
  "ha_model (reject_pending_requests st) = ha_model (each_item (decline_item (ha_live_request_keys st)) st)"
  "ha_client (reject_pending_requests st) = ha_client st"
  "ha_live_request_keys (reject_pending_requests st) = ha_live_request_keys st"
  "ha_connecting (reject_pending_requests st) = ha_connecting st"
  "ha_replaying (reject_pending_requests st) = ha_replaying st"
  "ha_reconnect_attempts (reject_pending_requests st) = ha_reconnect_attempts st"
  "ha_reconnect_in (reject_pending_requests st) = ha_reconnect_in st"
  by (simp_all add: reject_pending_requests_def Let_def refuse_loop refusals split: option.split)

lemma declined_waits_no_more: "waiting_request live (decline_item live item) = None"
  by (auto simp: decline_item_def waiting_request_def split: option.splits)

text \<open>Nothing is sent for a state without live requests.\<close>

lemma nothing_live:
  assumes "ha_live_request_keys st = {}"
  shows "respond_with_value index response st = (st, None)" "ha_sent (reject_pending_requests st) = ha_sent st"
  using assms
  by (auto simp: respond_with_value_def Let_def reject_fields(1) waiting_on_def waiting_request_def split: option.split)

text \<open>
  C33. Closing a task leaves no request of it unanswered. Opening another task, or starting a new
  one, sends exactly one reply to every live request that still waits, in the order of the cards;
  the replies grant nothing; and afterwards no request is live, so none can be answered again.
\<close>

theorem tasks_close_safely:
  assumes "ha_client st = Some client"
    and "st' = open_thread thread_id st \<or> st' = new_task st"
  shows "ha_sent st' = ha_sent st @
      map (refusal client) (waiting_on (ha_live_request_keys st) (tm_items (ha_model st))) \<and>
    (\<forall>item. \<not> reply_grants (snd (snd (refusal client item)))) \<and>
    ha_live_request_keys st' = {} \<and> tm_items (ha_model st') = [] \<and>
    ha_sent (reject_pending_requests st') = ha_sent st'"
proof -
  have "ha_live_request_keys st' = {}" "tm_items (ha_model st') = []"
    "ha_sent st' = ha_sent (reject_pending_requests st)"
    using assms by (auto simp: open_thread_def new_task_def retire_all_request_surfaces_def clear_def Let_def)
  then show ?thesis
    using assms(1) nothing_live(2) by (simp add: reject_fields(1) refusal_def Let_def safe_rejection_grants_nothing)
qed

definition waiting_card :: "string \<Rightarrow> TranscriptItem" where
  "waiting_card key = \<lparr>it_key = key, it_protocol_id = None, it_kind = Approval, it_title = [],
     it_status = Some ''waiting'', it_content = [], it_raw = JNull, it_event_count = 1, it_expanded = True,
     it_pending = Some \<lparr>pr_id = JString key, pr_method = ''item/fileChange/requestApproval'', pr_resolved = False\<rparr>\<rparr>"

definition waiting_app :: "string \<Rightarrow> HarnessApp" where
  "waiting_app key = (connected_app ''t'')\<lparr>ha_model := default_model\<lparr>tm_items := [waiting_card key]\<rparr>,
     ha_live_request_keys := {key}\<rparr>"

theorem tasks_close_safely_witness:
  "ha_sent (new_task (waiting_app ''a'')) =
     [(1, JString ''a'', ReplyResult (decision_response (JString ''decline'')))]"
proof -
  have "ha_client (waiting_app ''a'') = Some 1" by (simp add: waiting_app_def connected_app_def)
  from tasks_close_safely [OF this, of "new_task (waiting_app ''a'')"] show ?thesis
    by (simp add: waiting_app_def connected_app_def initial_app_def waiting_on_def waiting_request_def
        waiting_card_def refusal_def safe_request_rejection_def)
qed

subsection \<open>Answers\<close>

lemma one_item_fields [simp]:
  "ha_client (one_item j f st) = ha_client st" "ha_sent (one_item j f st) = ha_sent st"
  "ha_live_request_keys (one_item j f st) = ha_live_request_keys st"
  "tm_items (ha_model (one_item j f st)) = (tm_items (ha_model st))[j := f (tm_items (ha_model st) ! j)]"
  "ha_connecting (one_item j f st) = ha_connecting st"
  "ha_reconnect_attempts (one_item j f st) = ha_reconnect_attempts st"
  "ha_reconnect_in (one_item j f st) = ha_reconnect_in st"
  by (simp_all add: one_item_def)

lemma respond_cases:
  obtains (refused) "respond_with_value index response st = (st, None)"
    "ha_client st = None \<or> index \<ge> length (tm_items (ha_model st)) \<or>
     waiting_request (ha_live_request_keys st) (tm_items (ha_model st) ! index) = None"
  | (taken) client request where "ha_client st = Some client" "index < length (tm_items (ha_model st))"
      "waiting_request (ha_live_request_keys st) (tm_items (ha_model st) ! index) = Some request"
      "snd (respond_with_value index response st) = Some (it_key (tm_items (ha_model st) ! index))"
      "ha_sent (fst (respond_with_value index response st)) = ha_sent st @ [(client, pr_id request, ReplyResult response)]"
      "ha_client (fst (respond_with_value index response st)) = Some client"
      "ha_live_request_keys (fst (respond_with_value index response st)) = ha_live_request_keys st"
      "tm_items (ha_model (fst (respond_with_value index response st))) = (tm_items (ha_model st))[index :=
         (tm_items (ha_model st) ! index)\<lparr>it_status := Some ''responding'',
           it_pending := Some (request\<lparr>pr_resolved := True\<rparr>)\<rparr>]"
proof (cases "\<exists>client request. ha_client st = Some client \<and> index < length (tm_items (ha_model st)) \<and>
    waiting_request (ha_live_request_keys st) (tm_items (ha_model st) ! index) = Some request")
  case True
  then obtain client request where c: "ha_client st = Some client" "index < length (tm_items (ha_model st))"
    "waiting_request (ha_live_request_keys st) (tm_items (ha_model st) ! index) = Some request" by blast
  then show ?thesis
    by (intro taken [OF c]) (simp_all add: waiting_request_Some respond_with_value_def Let_def)
next
  case False
  then have "ha_client st = None \<or> index \<ge> length (tm_items (ha_model st)) \<or>
      waiting_request (ha_live_request_keys st) (tm_items (ha_model st) ! index) = None"
    by (meson not_le_imp_less not_Some_eq)
  moreover from this have "respond_with_value index response st = (st, None)"
    by (auto simp: respond_with_value_def waiting_request_def opt_filter_def Let_def split: option.splits if_splits)
  ultimately show ?thesis by (rule refused [rotated])
qed

lemma respond_not_waiting:
  assumes "waiting_request (ha_live_request_keys st) (tm_items (ha_model st) ! index) = None"
  shows "respond_with_value index response st = (st, None)"
  by (rule respond_cases [of index response st]) (use assms in simp_all)

lemma position_update:
  "i < length xs \<Longrightarrow> P y = P (xs ! i) \<Longrightarrow> position P (xs[i := y]) = position P xs"
  by (induction xs arbitrary: i) (auto split: nat.split)

lemma returned_fields:
  "ha_sent (response_returned key status failure st) = ha_sent st"
  "ha_client (response_returned key status failure st) = ha_client st"
  "ha_live_request_keys (response_returned key status failure st) = ha_live_request_keys st"
  "ha_connecting (response_returned key status failure st) = ha_connecting st"
  "ha_reconnect_attempts (response_returned key status failure st) = ha_reconnect_attempts st"
  "ha_reconnect_in (response_returned key status failure st) = ha_reconnect_in st"
  "tm_items (ha_model (response_returned key status failure st)) =
     (case position (\<lambda>item. it_key item = key) (tm_items (ha_model st)) of
        None \<Rightarrow> tm_items (ha_model st)
      | Some j \<Rightarrow> (tm_items (ha_model st))[j := (tm_items (ha_model st) ! j)\<lparr>
          it_status := Some (if failure = None then status else ''response failed''),
          it_pending := map_option (\<lambda>r. r\<lparr>pr_resolved := failure = None\<rparr>) (it_pending (tm_items (ha_model st) ! j))\<rparr>])"
  by (cases "position (\<lambda>item. it_key item = key) (tm_items (ha_model st))"; cases failure;
      simp add: response_returned_def Let_def del: position_None)+

lemma nth_update_pending:
  "index < length xs \<Longrightarrow> it_pending (xs ! index) = p \<Longrightarrow> (a = index \<Longrightarrow> it_pending y = p) \<Longrightarrow>
     it_pending (xs[a := y] ! index) = p"
  by (cases "a = index") simp_all

lemma returned_pending:
  assumes "index < length (tm_items (ha_model st))"
    "it_pending (tm_items (ha_model st) ! index) = Some (request\<lparr>pr_resolved := True\<rparr>)"
  shows "it_pending (tm_items (ha_model (response_returned key status None st)) ! index) = Some (request\<lparr>pr_resolved := True\<rparr>)"
  using assms
  by (cases "position (\<lambda>item. it_key item = key) (tm_items (ha_model st))")
    (auto simp: returned_fields simp del: position_None intro!: nth_update_pending)

text \<open>
  An answer is taken once. What the user sends for a waiting card is handed to the client with
  the identifier of its request, and from then on neither a second answer nor the closing of the
  task sends anything for that card, also after the call has returned; only when the call has
  failed can the card be answered again.
\<close>

lemma answer_taken_once:
  assumes "respond_with_value index response st = (st1, Some key)"
  shows "\<exists>client request. waiting_request (ha_live_request_keys st) (tm_items (ha_model st) ! index) = Some request \<and>
      ha_client st = Some client \<and> ha_sent st1 = ha_sent st @ [(client, pr_id request, ReplyResult response)] \<and>
      (\<forall>again status. \<forall>later \<in> {st1, response_returned key status None st1}.
         respond_with_value index again later = (later, None) \<and>
         waiting_request (ha_live_request_keys later) (tm_items (ha_model later) ! index) = None) \<and>
      (position (\<lambda>item. it_key item = key) (tm_items (ha_model st)) = Some index \<longrightarrow>
        (\<forall>again status error. ha_sent (fst (respond_with_value index again (response_returned key status (Some error) st1))) =
           ha_sent st1 @ [(client, pr_id request, ReplyResult again)]))"
  using respond_cases [of index response st]
proof cases
  case refused
  then show ?thesis using assms by simp
next
  case (taken client request)
  let ?item = "(tm_items (ha_model st) ! index)\<lparr>it_status := Some ''responding'',
    it_pending := Some (request\<lparr>pr_resolved := True\<rparr>)\<rparr>"
  have st1: "fst (respond_with_value index response st) = st1" and key: "it_key (tm_items (ha_model st) ! index) = key"
    using assms taken(4) by simp_all
  note after = taken(6-8) [unfolded st1]
  have settled: "waiting_request (ha_live_request_keys later) (tm_items (ha_model later) ! index) = None"
    if "later \<in> {st1, response_returned key status None st1}" for later status
  proof -
    have "it_pending (tm_items (ha_model later) ! index) = Some (request\<lparr>pr_resolved := True\<rparr>)"
      using that taken(2) after(3) returned_pending [of index st1 request key status] by auto
    then show ?thesis by (simp add: waiting_request_def)
  qed
  have retry: "ha_sent (fst (respond_with_value index again (response_returned key status (Some error) st1))) =
      ha_sent st1 @ [(client, pr_id request, ReplyResult again)]"
    if first: "position (\<lambda>item. it_key item = key) (tm_items (ha_model st)) = Some index" for again status error
  proof -
    let ?later = "response_returned key status (Some error) st1"
    have "position (\<lambda>item. it_key item = key) (tm_items (ha_model st1)) = Some index"
      using first after(3) taken(2) by (simp add: position_update)
    then have "tm_items (ha_model ?later) ! index = ?item\<lparr>it_status := Some ''response failed'',
        it_pending := Some (request\<lparr>pr_resolved := False\<rparr>)\<rparr>" "index < length (tm_items (ha_model ?later))"
      using taken(2) after(3) by (simp_all add: returned_fields)
    then have "waiting_request (ha_live_request_keys ?later) (tm_items (ha_model ?later) ! index) = Some (request\<lparr>pr_resolved := False\<rparr>)"
      using taken(3) after(2) by (simp add: waiting_request_Some returned_fields)
    then show ?thesis
      using after(1) \<open>index < length (tm_items (ha_model ?later))\<close>
      by (cases rule: respond_cases [of index again ?later]) (auto simp: returned_fields)
  qed
  show ?thesis
    using taken(1,3,5) settled retry respond_not_waiting unfolding st1 by (intro exI conjI) auto
qed

subsection \<open>Steps and runs\<close>

definition app_ok :: "HarnessApp \<Rightarrow> bool" where
  "app_ok st \<longleftrightarrow> model_ok (ha_model st) \<and> (ha_client st = None \<longrightarrow> ha_live_request_keys st = {}) \<and>
     (ha_connecting st \<longrightarrow> ha_client st = None) \<and> ha_reconnect_attempts st \<le> MAX_RECONNECT_ATTEMPTS"

lemma schedule_fields [simp]:
  "ha_model (schedule_reconnect st) = ha_model st" "ha_client (schedule_reconnect st) = ha_client st"
  "ha_live_request_keys (schedule_reconnect st) = ha_live_request_keys st"
  "ha_connecting (schedule_reconnect st) = ha_connecting st" "ha_sent (schedule_reconnect st) = ha_sent st"
  "ha_request_surfaces (schedule_reconnect st) = ha_request_surfaces st"
  by (simp_all add: schedule_reconnect_def Let_def split: option.split)

lemma schedule_attempts: "ha_reconnect_attempts st \<le> MAX_RECONNECT_ATTEMPTS \<Longrightarrow>
    ha_reconnect_attempts (schedule_reconnect st) \<le> MAX_RECONNECT_ATTEMPTS"
  by (auto simp: schedule_reconnect_def reconnect_delay_def Let_def)

lemma retire_fields [simp]:
  "ha_model (retire_all_request_surfaces st) = ha_model st" "ha_client (retire_all_request_surfaces st) = ha_client st"
  "ha_live_request_keys (retire_all_request_surfaces st) = {}"
  "ha_connecting (retire_all_request_surfaces st) = ha_connecting st" "ha_sent (retire_all_request_surfaces st) = ha_sent st"
  "ha_reconnect_attempts (retire_all_request_surfaces st) = ha_reconnect_attempts st"
  "ha_reconnect_in (retire_all_request_surfaces st) = ha_reconnect_in st"
  "ha_replaying (retire_all_request_surfaces st) = ha_replaying st"
  "ha_selected_thread_id (retire_all_request_surfaces st) = ha_selected_thread_id st"
  by (simp_all add: retire_all_request_surfaces_def)

lemma model_ok_items_changed: "model_ok m \<Longrightarrow> length xs = length (tm_items m) \<Longrightarrow> model_ok (m\<lparr>tm_items := xs\<rparr>)"
  by (simp add: model_ok_def indices_ok_def journal_ok_def)

lemma each_item_ok [simp]: "model_ok (ha_model st) \<Longrightarrow> model_ok (ha_model (each_item f st))"
  by (simp add: each_item_def model_ok_items_changed)

lemma one_item_ok [simp]: "model_ok (ha_model st) \<Longrightarrow> model_ok (ha_model (one_item j f st))"
  by (simp add: one_item_def model_ok_items_changed)

lemma open_thread_fields:
  assumes "ha_client st \<noteq> None"
  shows "ha_model (open_thread thread_id st) = clear (ha_model (reject_pending_requests st))"
    "ha_client (open_thread thread_id st) = ha_client st" "ha_live_request_keys (open_thread thread_id st) = {}"
    "ha_sent (open_thread thread_id st) = ha_sent (reject_pending_requests st)"
    "ha_connecting (open_thread thread_id st) = ha_connecting st"
    "ha_reconnect_attempts (open_thread thread_id st) = ha_reconnect_attempts st"
    "ha_selected_thread_id (open_thread thread_id st) = Some thread_id"
  using assms by (auto simp: open_thread_def Let_def reject_fields)

lemma open_thread_ok: "app_ok st \<Longrightarrow> app_ok (open_thread thread_id st)"
  by (cases "ha_client st = None")
    (auto simp: app_ok_def open_thread_fields clear_ok, simp_all add: open_thread_def)

lemma new_task_fields:
  "ha_model (new_task st) = clear (ha_model (reject_pending_requests st))" "ha_client (new_task st) = ha_client st"
  "ha_live_request_keys (new_task st) = {}" "ha_sent (new_task st) = ha_sent (reject_pending_requests st)"
  "ha_connecting (new_task st) = ha_connecting st" "ha_reconnect_attempts (new_task st) = ha_reconnect_attempts st"
  by (simp_all add: new_task_def Let_def reject_fields)

lemma sync_surface_fields:
  "ha_model (sync_request_surface k st) = ha_model st" "ha_client (sync_request_surface k st) = ha_client st"
  "ha_connecting (sync_request_surface k st) = ha_connecting st" "ha_sent (sync_request_surface k st) = ha_sent st"
  "ha_reconnect_attempts (sync_request_surface k st) = ha_reconnect_attempts st"
  "ha_reconnect_in (sync_request_surface k st) = ha_reconnect_in st"
  "ha_live_request_keys (sync_request_surface k st) \<subseteq> ha_live_request_keys st"
  "ha_dirty_request_surfaces (sync_request_surface k st) = ha_dirty_request_surfaces st"
  by (auto simp: sync_request_surface_def remove_request_surface_def Let_def
      split: SurfaceSyncDecision.split option.split)

lemma sync_surfaces_fields:
  "ha_model (fold sync_request_surface ks st) = ha_model st" "ha_client (fold sync_request_surface ks st) = ha_client st"
  "ha_connecting (fold sync_request_surface ks st) = ha_connecting st" "ha_sent (fold sync_request_surface ks st) = ha_sent st"
  "ha_reconnect_attempts (fold sync_request_surface ks st) = ha_reconnect_attempts st"
  "ha_reconnect_in (fold sync_request_surface ks st) = ha_reconnect_in st"
  "ha_live_request_keys (fold sync_request_surface ks st) \<subseteq> ha_live_request_keys st"
proof (induction ks arbitrary: st)
  case (Cons k ks)
  { case 7 show ?case using Cons(7) [of "sync_request_surface k st"] sync_surface_fields(7) [of k st] by auto }
qed (simp_all add: sync_surface_fields)

lemma track_other:
  "ha_connecting (fold (track_item ids) js st) = ha_connecting st"
  "ha_reconnect_attempts (fold (track_item ids) js st) = ha_reconnect_attempts st"
  "ha_reconnect_in (fold (track_item ids) js st) = ha_reconnect_in st"
  by (induction js arbitrary: st) (simp_all add: track_item_def Let_def)

lemma batch_fields:
  assumes "apply_event_batch sv events st = Some st'"
  shows "ha_connecting st' = ha_connecting st" "ha_reconnect_attempts st' = ha_reconnect_attempts st"
    "ha_reconnect_in st' = ha_reconnect_in st"
  using assms
  by (auto simp: apply_event_batch_def track_live_request_updates_def track_other send_replies Let_def
      split: prod.splits bind_splits option.splits)

lemma batch_replies:
  assumes "apply_event_batch sv events st = Some st'" "model_ok (ha_model st)"
  shows "model_ok (ha_model st')" "ha_client st' = ha_client st"
    "ha_sent st' = ha_sent st @ (case ha_client st of None \<Rightarrow> [] | Some c \<Rightarrow>
       map (\<lambda>(i, reply). (c, i, reply)) (snd (snd (dispatch_server_requests (ha_selected_thread_id st) events))))"
proof -
  obtain f ids replies where d: "dispatch_server_requests (ha_selected_thread_id st) events = (f, ids, replies)"
    by (cases "dispatch_server_requests (ha_selected_thread_id st) events")
  obtain m out st2 where "apply_event_batch sv events st = Some st2" "ha_model st2 = m" "model_ok m"
    "ha_client st2 = ha_client st" "ha_sent st2 = ha_sent st @
       (case ha_client st of None \<Rightarrow> [] | Some c \<Rightarrow> map (\<lambda>(i, reply). (c, i, reply)) replies)"
    by (rule batch_with_requests [OF assms(2) d], rule that)
  with assms(1) d show "model_ok (ha_model st')" "ha_client st' = ha_client st"
    "ha_sent st' = ha_sent st @ (case ha_client st of None \<Rightarrow> [] | Some c \<Rightarrow>
       map (\<lambda>(i, reply). (c, i, reply)) (snd (snd (dispatch_server_requests (ha_selected_thread_id st) events))))"
    by (cases "ha_client st"; simp)+
qed

lemma load_thread_app_total:
  assumes "model_ok (ha_model st)"
  shows "\<exists>st' m. load_thread_app sv env read_file from_slice thread st = Some st' \<and> model_ok m \<and>
    st' = retire_all_request_surfaces (mark_unbacked_requests_inactive
      (st\<lparr>ha_selected_thread_id := Some (th_id thread), ha_model := m\<rparr>))"
proof -
  obtain m1 where m1: "load_thread (sv_host sv) thread (ha_model st) = Some m1" "model_ok m1"
    using perform_ok [OF assms, of sv "LoadThread thread"] by auto
  obtain x m2 where "merge_persisted_transcript env read_file from_slice (th_id thread) m1 = Some (x, m2)" "model_ok m2"
    using merge_model_ok [OF m1(2)] by blast
  with m1 show ?thesis by (auto simp: load_thread_app_def Let_def)
qed

lemma inactive_fields:
  "ha_client (mark_unbacked_requests_inactive st) = ha_client st"
  "ha_sent (mark_unbacked_requests_inactive st) = ha_sent st"
  "ha_live_request_keys (mark_unbacked_requests_inactive st) = ha_live_request_keys st"
  "ha_connecting (mark_unbacked_requests_inactive st) = ha_connecting st"
  "ha_reconnect_attempts (mark_unbacked_requests_inactive st) = ha_reconnect_attempts st"
  "ha_reconnect_in (mark_unbacked_requests_inactive st) = ha_reconnect_in st"
  "model_ok (ha_model st) \<Longrightarrow> model_ok (ha_model (mark_unbacked_requests_inactive st))"
  by (simp_all add: mark_unbacked_requests_inactive_def)

lemma thread_opened_total:
  assumes "model_ok (ha_model st)"
  shows "\<exists>st'. thread_opened sv env read_file from_slice thread warning st = Some st' \<and> model_ok (ha_model st') \<and>
    ha_client st' = ha_client st \<and> ha_sent st' = ha_sent st \<and> ha_live_request_keys st' = {} \<and>
    ha_connecting st' = ha_connecting st \<and> ha_reconnect_attempts st' = ha_reconnect_attempts st \<and>
    ha_reconnect_in st' = ha_reconnect_in st"
  using load_thread_app_total [of "st\<lparr>ha_loading_thread := False\<rparr>" sv env read_file from_slice thread] assms
  by (auto simp: thread_opened_def inactive_fields)

lemma respond_ok:
  "app_ok st \<Longrightarrow> app_ok (fst (respond_with_value index response st))"
  "ha_reconnect_attempts (fst (respond_with_value index response st)) = ha_reconnect_attempts st"
  "ha_reconnect_in (fst (respond_with_value index response st)) = ha_reconnect_in st"
  by (auto simp: respond_with_value_def app_ok_def Let_def split: option.split)

lemma surface_response_ok:
  "app_ok st \<Longrightarrow> app_ok (fst (handle_request_surface_response key response st))"
  "ha_reconnect_attempts (fst (handle_request_surface_response key response st)) = ha_reconnect_attempts st"
  "ha_reconnect_in (fst (handle_request_surface_response key response st)) = ha_reconnect_in st"
  by (auto simp: handle_request_surface_response_def respond_ok split: option.split intro!: respond_ok(1))
    (simp add: app_ok_def)

lemma returned_ok: "app_ok st \<Longrightarrow> app_ok (response_returned key status failure st)"
proof -
  assume "app_ok st"
  moreover have "model_ok (ha_model st) \<Longrightarrow> model_ok (ha_model (response_returned key status failure st))"
    by (auto simp: response_returned_def Let_def split: option.split)
  ultimately show ?thesis by (simp add: app_ok_def returned_fields)
qed

lemma connection_ok:
  "app_ok st \<Longrightarrow> app_ok (connect st)" "app_ok st \<Longrightarrow> app_ok (reconnect_timer st)"
  "app_ok st \<Longrightarrow> app_ok (connect_failed error st)" "app_ok st \<Longrightarrow> app_ok (handle_server_disconnect client st)"
  by (auto simp: app_ok_def connect_def reconnect_timer_def connect_failed_def handle_server_disconnect_def
      inactive_fields schedule_attempts Let_def
      intro!: schedule_attempts inactive_fields(7))

end
