(* ===== verification/RequestRuns.thy ===== *)
theory RequestRuns
  imports RequestHandling
begin

text \<open>
  What holds of the application over any sequence of its steps: it never panics, only the user
  grants, a failing server is retried a bounded number of times, and the surfaces follow the
  requests; with the request that is lost while a task is loading.
\<close>

subsection \<open>The invariant\<close>

lemma app_step_ok:
  assumes "app_step sv st op st'" "app_ok st"
  shows "app_ok st'"
  using assms(1)
proof cases
  case (1 events)
  with assms(2) show ?thesis using batch_replies [OF 1(3)] batch_fields [OF 1(3)] by (auto simp: app_ok_def)
next
  case (7 env read_file from_slice thread warning)
  then show ?thesis
    using assms(2) thread_opened_total [of st sv env read_file from_slice thread warning] by (auto simp: app_ok_def)
next
  case (5 order)
  then show ?thesis using assms(2) sync_surfaces_fields(7) [of "order (ha_dirty_request_surfaces st)" "st\<lparr>ha_dirty_request_surfaces := {}\<rparr>"]
    by (auto simp: app_ok_def sync_request_surfaces_def sync_surfaces_fields(1-5))
next
  case (9)
  then show ?thesis using assms(2) by (simp add: app_ok_def new_task_fields clear_ok)
next
  case (11 client thread)
  then have "app_ok (st\<lparr>ha_client := Some client, ha_connecting := False, ha_reconnect_attempts := 0, ha_error := None\<rparr>)"
    using assms(2) by (simp add: app_ok_def)
  then show ?thesis using 11 by (auto simp: connected_def Let_def open_thread_ok split: option.split)
next
  case (8 error)
  then show ?thesis using assms(2) by (simp add: app_ok_def thread_not_opened_def)
qed (use assms(2) in \<open>auto simp: respond_ok surface_response_ok returned_ok open_thread_ok connection_ok\<close>)

lemma app_run_ok: "app_run sv st ops st' \<Longrightarrow> app_ok st \<Longrightarrow> app_ok st'"
  by (induction rule: app_run.induct) (auto dest: app_step_ok)

lemma initial_ok: "model_ok m \<Longrightarrow> app_ok (initial_app m initial_thread_id replaying)"
  by (simp add: app_ok_def initial_app_def)

text \<open>
  C34. Events, requests and connections never panic. Whatever sequence of batches of events,
  answers of the user, results of calls, switches of task, disconnections and reconnections came
  before, the transcript keeps its invariant, no request is live without a connection, at most three
  reconnections have been tried since the last success, and the next batch of events and the next
  loaded task are handled. (Selecting and copying text are operations of the view, not of these
  runs; \<open>TranscriptNavigation\<close> says when copying panics.)
\<close>

theorem request_operations_never_panic:
  assumes "app_run sv (initial_app m initial_thread_id replaying) ops st" "model_ok m"
  shows "model_ok (ha_model st) \<and> (ha_client st = None \<longrightarrow> ha_live_request_keys st = {}) \<and>
    (ha_connecting st \<longrightarrow> ha_client st = None) \<and> ha_reconnect_attempts st \<le> 3 \<and>
    apply_event_batch sv events st \<noteq> None \<and>
    thread_opened sv env read_file from_slice thread warning st \<noteq> None"
proof -
  have ok: "app_ok st" by (rule app_run_ok [OF assms(1) initial_ok [OF assms(2)]])
  obtain f ids replies where d: "dispatch_server_requests (ha_selected_thread_id st) events = (f, ids, replies)"
    by (cases "dispatch_server_requests (ha_selected_thread_id st) events")
  have "apply_event_batch sv events st \<noteq> None"
    using ok by (auto simp: app_ok_def intro: batch_with_requests [OF _ d])
  then show ?thesis
    using ok thread_opened_total [of st sv env read_file from_slice thread warning]
    by (auto simp: app_ok_def MAX_RECONNECT_ATTEMPTS_def)
qed

theorem request_operations_never_panic_witness:
  "apply_event_batch (example_services tiny_host) [Disconnected ''gone'']
     (connect (initial_app default_model None False)) \<noteq> None"
proof -
  have "app_run (example_services tiny_host) (initial_app default_model None False) [Connect]
      (connect (initial_app default_model None False))"
    by (rule app_next [OF app_step.intros(10) app_done])
  then show ?thesis
    using request_operations_never_panic default_model_ok by blast
qed

subsection \<open>Who grants\<close>

text \<open>The operations by which the user answers a request.\<close>

fun answers_with :: "app_op \<Rightarrow> json \<Rightarrow> bool" where
  "answers_with (Respond index response) r = (response = r)"
| "answers_with (RespondFromSurface key response) r = (response = r)"
| "answers_with _ r = False"

lemma dispatched_grants_nothing:
  "(i, reply) \<in> set (snd (snd (dispatch_server_requests selected events))) \<Longrightarrow> \<not> reply_grants reply"
  by (induction events)
    (auto simp: Let_def immediate_reply_grants_nothing split: prod.splits Event.splits RequestRoute.splits)

lemma respond_sends:
  "\<exists>new. ha_sent (fst (respond_with_value index response st)) = ha_sent st @ new \<and>
     (\<forall>e \<in> set new. snd (snd e) = ReplyResult response)"
  by (rule respond_cases [of index response st]) auto

lemma surface_response_sends:
  "\<exists>new. ha_sent (fst (handle_request_surface_response key response st)) = ha_sent st @ new \<and>
     (\<forall>e \<in> set new. snd (snd e) = ReplyResult response)"
  using respond_sends [of _ response "st\<lparr>ha_request_surfaces := _\<rparr>"]
  by (auto simp: handle_request_surface_response_def split: option.split)

lemma reject_sends:
  "\<exists>new. ha_sent (reject_pending_requests st) = ha_sent st @ new \<and> (\<forall>e \<in> set new. \<not> reply_grants (snd (snd e)))"
  by (auto simp: reject_fields(1) refusal_def Let_def safe_rejection_grants_nothing split: option.split)

lemma open_sends:
  "\<exists>new. ha_sent (open_thread thread_id st) = ha_sent st @ new \<and> (\<forall>e \<in> set new. \<not> reply_grants (snd (snd e)))"
  using reject_sends [of st] by (cases "ha_client st = None") (simp add: open_thread_def, simp add: open_thread_fields)

definition granted_by :: "app_op \<Rightarrow> RequestReply \<Rightarrow> bool" where
  "granted_by op reply \<longleftrightarrow> (reply_grants reply \<longrightarrow> (\<exists>r. answers_with op r \<and> reply = ReplyResult r))"

lemma step_sends:
  assumes "app_step sv st op st'" "app_ok st"
  shows "\<exists>new. ha_sent st' = ha_sent st @ new \<and> (\<forall>e \<in> set new. granted_by op (snd (snd e)))"
  using assms(1)
proof cases
  case (1 events)
  then show ?thesis
    using batch_replies(3) [OF 1(3)] assms(2) dispatched_grants_nothing
    by (auto simp: app_ok_def granted_by_def split: option.splits)
next
  case (2 index response)
  then show ?thesis using respond_sends [of index response st] by (auto simp: granted_by_def)
next
  case (3 key response)
  then show ?thesis using surface_response_sends [of key response st] by (auto simp: granted_by_def)
next
  case (4 key status failure)
  then show ?thesis by (simp add: returned_fields)
next
  case (5 order)
  then show ?thesis by (simp add: sync_request_surfaces_def sync_surfaces_fields(4))
next
  case (6 thread_id)
  then show ?thesis using open_sends [of thread_id st] by (auto simp: granted_by_def)
next
  case (7 env read_file from_slice thread warning)
  then show ?thesis
    using assms(2) thread_opened_total [of st sv env read_file from_slice thread warning] by (auto simp: app_ok_def)
next
  case (9)
  then show ?thesis using reject_sends [of st] by (auto simp: new_task_fields granted_by_def)
next
  case (11 client thread)
  then show ?thesis
    using open_sends [of _ "st\<lparr>ha_client := Some client, ha_connecting := False, ha_reconnect_attempts := 0, ha_error := None\<rparr>"]
    by (auto simp: connected_def granted_by_def Let_def split: option.split)
qed (simp_all add: thread_not_opened_def connect_def connect_failed_def reconnect_timer_def
      handle_server_disconnect_def inactive_fields Let_def)

lemma run_sends:
  "app_run sv st ops st' \<Longrightarrow> app_ok st \<Longrightarrow>
     \<exists>new. ha_sent st' = ha_sent st @ new \<and> (\<forall>e \<in> set new. \<exists>op \<in> set ops. granted_by op (snd (snd e)))"
proof (induction rule: app_run.induct)
  case (app_next st op st' ops st'')
  obtain a b where "ha_sent st' = ha_sent st @ a" "\<forall>e \<in> set a. granted_by op (snd (snd e))"
    "ha_sent st'' = ha_sent st' @ b" "\<forall>e \<in> set b. \<exists>op \<in> set ops. granted_by op (snd (snd e))"
    using step_sends [OF app_next(1,4)] app_next.IH [OF app_step_ok [OF app_next(1,4)]] by blast
  then show ?case by (intro exI [of _ "a @ b"]) auto
qed simp

text \<open>
  C20. Only the user grants. In every sequence of operations, whatever requests the server makes and
  however they are timed, each reply that lets a command, a file change or a permission through is
  an answer that the user gave in one of the operations; nothing the application sends by itself,
  on arrival, when a task closes or when the connection is lost, grants anything.
\<close>

theorem only_the_user_grants:
  assumes "app_run sv (initial_app m initial_thread_id replaying) ops st" "model_ok m"
    and "(client, i, reply) \<in> set (ha_sent st)" "reply_grants reply"
  shows "\<exists>op \<in> set ops. \<exists>response. answers_with op response \<and> reply = ReplyResult response"
proof -
  obtain new where "ha_sent st = ha_sent (initial_app m initial_thread_id replaying) @ new"
    "\<forall>e \<in> set new. \<exists>op \<in> set ops. granted_by op (snd (snd e))"
    using run_sends [OF assms(1) initial_ok [OF assms(2)]] by blast
  moreover from this(1) have "new = ha_sent st" by (simp add: initial_app_def)
  ultimately obtain op where "op \<in> set ops" "granted_by op reply" using assms(3) by fastforce
  then show ?thesis using assms(4) by (auto simp: granted_by_def)
qed

theorem only_the_user_grants_witness:
  "\<exists>ops st. app_run (example_services tiny_host) (initial_app default_model (Some ''t'') False) ops st \<and>
     (7, JNull, ReplyResult (decision_response (JString ''accept''))) \<in> set (ha_sent st) \<and>
     (\<exists>op \<in> set ops. \<exists>response. answers_with op response \<and>
        ReplyResult (decision_response (JString ''accept'')) = ReplyResult response)"
proof -
  let ?sv = "example_services tiny_host" and ?p = "JObject [(''threadId'', JString ''t'')]"
  let ?accept = "decision_response (JString ''accept'')"
  define st0 where "st0 = initial_app default_model (Some ''t'') False"
  define st2 where "st2 = connected 7 None (connect st0)"
  have st2: "model_ok (ha_model st2)" "ha_client st2 = Some 7" "ha_selected_thread_id st2 = Some ''t''"
    by (simp_all add: st2_def st0_def connected_def connect_def initial_app_def default_model_ok)
  have "route_server_request ''item/fileChange/requestApproval'' ?p (ha_selected_thread_id st2) = Interactive"
    by (simp add: route_server_request_def request_matches_thread_def jget_def st2(3))
  from interactive_request_waits [OF st2(1,2) _ this, of JNull ?sv "[]"] obtain st3 index where
    st3: "apply_event_batch ?sv [ServerRequest JNull ''item/fileChange/requestApproval'' ?p] st2 = Some st3"
    "index < length (tm_items (ha_model st3))" "ha_client st3 = Some 7"
    "it_pending (tm_items (ha_model st3) ! index) = Some \<lparr>pr_id = JNull, pr_method = ''item/fileChange/requestApproval'', pr_resolved = False\<rparr>"
    "it_key (tm_items (ha_model st3) ! index) \<in> ha_live_request_keys st3" by auto
  define st4 where "st4 = fst (respond_with_value index ?accept st3)"
  have sent: "(7, JNull, ReplyResult ?accept) \<in> set (ha_sent st4)"
  proof -
    have "waiting_request (ha_live_request_keys st3) (tm_items (ha_model st3) ! index) =
        Some \<lparr>pr_id = JNull, pr_method = ''item/fileChange/requestApproval'', pr_resolved = False\<rparr>"
      using st3(4,5) by (simp add: waiting_request_Some)
    then show ?thesis
      unfolding st4_def using st3(2,3) by (cases rule: respond_cases [of index ?accept st3]) auto
  qed
  have "app_run ?sv st0 [Connect, Connected 7 None,
      EventBatch [ServerRequest JNull ''item/fileChange/requestApproval'' ?p], Respond index ?accept] st4"
    unfolding st4_def
    by (rule app_next [OF app_step.intros(10)], rule app_next [OF app_step.intros(11)],
        simp add: st0_def connect_def initial_app_def, fold st2_def,
        rule app_next [OF app_step.intros(1) [OF _ st3(1)]], simp add: st2,
        rule app_next [OF app_step.intros(2) app_done])
  moreover have "reply_grants (ReplyResult ?accept)" by simp
  ultimately show ?thesis
    using only_the_user_grants [OF _ default_model_ok sent] sent unfolding st0_def by blast
qed

subsection \<open>Reconnection\<close>

fun reconnects :: "app_op list \<Rightarrow> nat" where
  "reconnects [] = 0"
| "reconnects (op # ops) = (case op of ReconnectTimer \<Rightarrow> Suc (reconnects ops) | _ \<Rightarrow> reconnects ops)"

fun is_success :: "app_op \<Rightarrow> bool" where
  "is_success (Connected client thread) = True"
| "is_success _ = False"

definition timer_set :: "HarnessApp \<Rightarrow> nat" where
  "timer_set st = (case ha_reconnect_in st of Some delay \<Rightarrow> 1 | None \<Rightarrow> 0)"

lemma schedule_timer:
  "timer_set (schedule_reconnect st) + ha_reconnect_attempts st \<le> timer_set st + ha_reconnect_attempts (schedule_reconnect st)"
  by (auto simp: schedule_reconnect_def timer_set_def Let_def split: option.split)

lemma step_timer:
  assumes "app_step sv st op st'" "app_ok st" "\<not> is_success op"
  shows "reconnects [op] + timer_set st' + ha_reconnect_attempts st \<le> timer_set st + ha_reconnect_attempts st'"
  using assms(1)
proof cases
  case (1 events)
  then show ?thesis using batch_fields [OF 1(3)] by (simp add: timer_set_def)
next
  case (7 env read_file from_slice thread warning)
  then show ?thesis
    using assms(2) thread_opened_total [of st sv env read_file from_slice thread warning]
    by (auto simp: app_ok_def timer_set_def)
next
  case (6 thread_id)
  then show ?thesis by (simp add: open_thread_def timer_set_def reject_fields Let_def)
next
  case (12 error)
  then show ?thesis
    using schedule_timer [of "st\<lparr>ha_connecting := False, ha_error := _\<rparr>"]
    by (simp add: connect_failed_def timer_set_def)
next
  case (14 client)
  let ?s = "mark_unbacked_requests_inactive (retire_all_request_surfaces (st\<lparr>ha_client := None, ha_connecting := False,
     ha_model := (ha_model st)\<lparr>tm_current_turn_id := None\<rparr>, ha_thread_read_only_reason := None,
     ha_error := Some ''Codex app server disconnected.''\<rparr>))"
  have "timer_set ?s = timer_set st" "ha_reconnect_attempts ?s = ha_reconnect_attempts st"
    by (simp_all add: timer_set_def inactive_fields)
  then show ?thesis
    using 14 schedule_timer [of ?s] by (simp add: handle_server_disconnect_def Let_def)
next
  case 13
  then show ?thesis by (auto simp: reconnect_timer_def connect_def timer_set_def Let_def)
qed (use assms(3) in \<open>simp_all add: timer_set_def respond_ok surface_response_ok returned_fields sync_request_surfaces_def
      sync_surfaces_fields new_task_def reject_fields thread_not_opened_def connect_def reconnect_timer_def Let_def\<close>)

text \<open>
  A server that is gone is retried a bounded number of times. From any state of the application,
  as long as no connection succeeds, the timers of reconnection run at most as often as attempts are
  left of the three, and one that was already waiting; the delays are one, two and four seconds.
\<close>

lemma reconnects_bounded:
  assumes "app_run sv st ops st'" "app_ok st" "\<forall>op \<in> set ops. \<not> is_success op"
  shows "reconnects ops + ha_reconnect_attempts st \<le> timer_set st + 3 \<and> reconnects ops \<le> 4 \<and>
    map reconnect_delay [0, 1, 2, 3] = [Some 1, Some 2, Some 4, None]"
proof -
  have "reconnects ops + timer_set st' + ha_reconnect_attempts st \<le> timer_set st + ha_reconnect_attempts st'"
    using assms
  proof (induction rule: app_run.induct)
    case (app_next st op st' ops st'')
    have "reconnects (op # ops) = reconnects [op] + reconnects ops" by (cases op) simp_all
    moreover have "app_ok st'" by (rule app_step_ok [OF app_next(1,4)])
    ultimately show ?case using app_next step_timer [OF app_next(1,4)] by fastforce
  qed simp
  moreover have "ha_reconnect_attempts st' \<le> 3"
    using app_run_ok [OF assms(1,2)] by (simp add: app_ok_def MAX_RECONNECT_ATTEMPTS_def)
  moreover have "timer_set st \<le> 1" by (simp add: timer_set_def split: option.split)
  moreover have "map reconnect_delay [0, 1, 2, 3] = [Some 1, Some 2, Some 4, None]"
    by (simp add: reconnect_delay_def MAX_RECONNECT_ATTEMPTS_def push_bit_eq_mult)
  ultimately show ?thesis by linarith
qed

subsection \<open>Loading a task\<close>

text \<open>
  A request that arrives while its task is loading is lost. When a task is opened, its requests
  are accepted at once; the result of the load then replaces the transcript and retires every live
  request without a reply. The request is never answered: no card takes an answer, and closing the
  task sends nothing for it.
\<close>

lemma request_lost_while_loading:
  assumes "model_ok (ha_model st)" "ha_client st = Some client" "json_ok i"
    and "route_server_request me params (Some thread_id) = Interactive"
  shows "\<exists>st1 st2. apply_event_batch sv [ServerRequest i me params] (open_thread thread_id st) = Some st1 \<and>
    (\<exists>item \<in> set (tm_items (ha_model st1)). it_key item \<in> ha_live_request_keys st1 \<and>
       it_pending item = Some \<lparr>pr_id = i, pr_method = me, pr_resolved = False\<rparr>) \<and>
    thread_opened sv env read_file from_slice thread warning st1 = Some st2 \<and>
    ha_sent st2 = ha_sent (open_thread thread_id st) \<and>
    (\<forall>index response. respond_with_value index response st2 = (st2, None)) \<and>
    ha_sent (new_task st2) = ha_sent st2 \<and> (\<forall>other. ha_sent (open_thread other st2) = ha_sent st2)"
proof -
  let ?st = "open_thread thread_id st"
  have open_ok: "model_ok (ha_model ?st)" "ha_client ?st = Some client" "ha_selected_thread_id ?st = Some thread_id"
    using assms(2) by (simp_all add: open_thread_fields clear_ok)
  from interactive_request_waits [OF open_ok(1,2) assms(3), of me params sv "[]"] obtain st1 index where
    st1: "apply_event_batch sv [ServerRequest i me params] ?st = Some st1" "index < length (tm_items (ha_model st1))"
    "it_pending (tm_items (ha_model st1) ! index) = Some \<lparr>pr_id = i, pr_method = me, pr_resolved = False\<rparr>"
    "it_key (tm_items (ha_model st1) ! index) \<in> ha_live_request_keys st1" "ha_sent st1 = ha_sent ?st"
    "model_ok (ha_model st1)" "ha_client st1 = Some client"
    unfolding open_ok(3) using assms(4) by auto
  from thread_opened_total [OF st1(6), of sv env read_file from_slice thread warning] obtain st2 where
    st2: "thread_opened sv env read_file from_slice thread warning st1 = Some st2" "ha_sent st2 = ha_sent st1"
    "ha_live_request_keys st2 = {}" "ha_client st2 = Some client" by (auto simp: st1(7))
  have "\<exists>item \<in> set (tm_items (ha_model st1)). it_key item \<in> ha_live_request_keys st1 \<and>
      it_pending item = Some \<lparr>pr_id = i, pr_method = me, pr_resolved = False\<rparr>"
    using st1(2-4) nth_mem by blast
  then show ?thesis
    using st1(1,5) st2 nothing_live [OF st2(3)]
    by (intro exI [of _ st1] exI [of _ st2]) (simp add: new_task_fields open_thread_fields)
qed

text \<open>
  Nor does starting a new task stop the load of the one before: its result replaces the new task.
\<close>

lemma new_task_overtaken_by_load:
  assumes "model_ok (ha_model st)"
  shows "ha_selected_thread_id (new_task st) = None \<and>
    (\<exists>st'. thread_opened sv env read_file from_slice thread warning (new_task st) = Some st' \<and>
       ha_selected_thread_id st' = Some (th_id thread))"
proof -
  have "model_ok (ha_model ((new_task st)\<lparr>ha_loading_thread := False\<rparr>))" by (simp add: new_task_fields clear_ok)
  from load_thread_app_total [OF this, of sv env read_file from_slice thread] show ?thesis
    by (auto simp: thread_opened_def new_task_def Let_def mark_unbacked_requests_inactive_def each_item_def)
qed

subsection \<open>Surfaces\<close>

text \<open>What a pass makes of the surface of a key: its entry, and whether the key stays live.\<close>

definition surface_after ::
  "PendingRequest option \<Rightarrow> bool \<Rightarrow> LiveRequestSurface option \<Rightarrow> LiveRequestSurface option \<times> bool" where
  "surface_after request live entry =
     (let waiting = (case request of Some r \<Rightarrow> \<not> pr_resolved r | None \<Rightarrow> False);
          responding = (case entry of Some e \<Rightarrow> ls_responding e | None \<Rightarrow> False)
      in if live \<and> waiting then
           (case entry of
              Some e \<Rightarrow> if json_eq (ls_request_id e) (pr_id (the request)) then (Some e, True)
                else (Some \<lparr>ls_request_id = pr_id (the request), ls_responding = False\<rparr>, True)
            | None \<Rightarrow> (Some \<lparr>ls_request_id = pr_id (the request), ls_responding = False\<rparr>, True))
         else if live \<and> responding then (entry, True)
         else (None, live \<and> entry = None))"

definition request_of_key :: "string \<Rightarrow> HarnessApp \<Rightarrow> PendingRequest option" where
  "request_of_key k st = Option.bind (find (\<lambda>item. it_key item = k) (tm_items (ha_model st))) it_pending"

lemma sync_one:
  defines "r k st \<equiv> surface_after (request_of_key k st) (k \<in> ha_live_request_keys st) (ha_request_surfaces st k)"
  shows "ha_request_surfaces (sync_request_surface k st) = (ha_request_surfaces st)(k := fst (r k st))"
    "ha_live_request_keys (sync_request_surface k st) =
      (if snd (r k st) \<or> k \<notin> ha_live_request_keys st then ha_live_request_keys st else ha_live_request_keys st - {k})"
  unfolding r_def
  by (auto simp: sync_request_surface_def surface_after_def surface_sync_decision_def request_of_key_def
      remove_request_surface_def Let_def split: option.split)

lemma sync_pass:
  "distinct ks \<Longrightarrow> ha_request_surfaces (fold sync_request_surface ks st) k =
     (if k \<in> set ks then fst (surface_after (request_of_key k st) (k \<in> ha_live_request_keys st) (ha_request_surfaces st k))
      else ha_request_surfaces st k)"
  "distinct ks \<Longrightarrow> k \<in> ha_live_request_keys (fold sync_request_surface ks st) \<longleftrightarrow>
     (if k \<in> set ks then snd (surface_after (request_of_key k st) (k \<in> ha_live_request_keys st) (ha_request_surfaces st k))
      else k \<in> ha_live_request_keys st)"
proof (induction ks arbitrary: st)
  case (Cons x ks)
  have same: "request_of_key k (sync_request_surface x st) = request_of_key k st" for k st
    by (simp add: request_of_key_def sync_surface_fields)
  have dead: "\<not> snd (surface_after r False e)" for r e by (simp add: surface_after_def Let_def)
  { case 1 then show ?case using Cons(1) [of "sync_request_surface x st"] by (auto simp: sync_one same) }
  { case 2 then show ?case using Cons(2) [of "sync_request_surface x st"] by (auto simp: sync_one same dead) }
qed simp_all

text \<open>
  The surfaces follow the requests. After a pass over the dirty keys, in whatever order, nothing
  is dirty, and a dirty key has a surface exactly when its request is live and waits for an answer, or
  is live and its answer is on the way; a waiting one has the surface of its own request, and a key
  whose surface is removed is no longer live. Other keys are as they were.
\<close>

lemma surfaces_follow_requests:
  assumes "distinct (order (ha_dirty_request_surfaces st))" "set (order (ha_dirty_request_surfaces st)) = ha_dirty_request_surfaces st"
  defines "st' \<equiv> sync_request_surfaces order st"
  shows "ha_dirty_request_surfaces st' = {} \<and>
    (\<forall>k. let entry = ha_request_surfaces st k; live = k \<in> ha_live_request_keys st;
           waiting = \<exists>r. request_of_key k st = Some r \<and> \<not> pr_resolved r;
           responding = \<exists>e. entry = Some e \<and> ls_responding e
       in if k \<in> ha_dirty_request_surfaces st then
            (ha_request_surfaces st' k \<noteq> None \<longleftrightarrow> live \<and> (waiting \<or> responding)) \<and>
            (k \<in> ha_live_request_keys st' \<longleftrightarrow> live \<and> (waiting \<or> responding \<or> entry = None)) \<and>
            (live \<and> waiting \<longrightarrow> (\<exists>e. ha_request_surfaces st' k = Some e \<and>
               (ls_request_id e = pr_id (the (request_of_key k st)) \<or>
                json_eq (ls_request_id e) (pr_id (the (request_of_key k st))))))
          else ha_request_surfaces st' k = entry \<and> (k \<in> ha_live_request_keys st' \<longleftrightarrow> live))"
proof -
  let ?ks = "order (ha_dirty_request_surfaces st)" and ?st = "st\<lparr>ha_dirty_request_surfaces := {}\<rparr>"
  have "ha_dirty_request_surfaces (fold sync_request_surface ks s) = ha_dirty_request_surfaces s" for ks s
    by (induction ks arbitrary: s) (simp_all add: sync_surface_fields)
  then have clean: "ha_dirty_request_surfaces st' = {}" by (simp add: st'_def sync_request_surfaces_def)
  have same: "request_of_key k ?st = request_of_key k st" for k by (simp add: request_of_key_def)
  have surface: "ha_request_surfaces st' k = (if k \<in> ha_dirty_request_surfaces st
      then fst (surface_after (request_of_key k st) (k \<in> ha_live_request_keys st) (ha_request_surfaces st k))
      else ha_request_surfaces st k)" for k
    using sync_pass(1) [OF assms(1), of ?st k] by (simp add: st'_def sync_request_surfaces_def assms(2) same)
  have live: "k \<in> ha_live_request_keys st' \<longleftrightarrow> (if k \<in> ha_dirty_request_surfaces st
      then snd (surface_after (request_of_key k st) (k \<in> ha_live_request_keys st) (ha_request_surfaces st k))
      else k \<in> ha_live_request_keys st)" for k
    using sync_pass(2) [OF assms(1), of k ?st] by (simp add: st'_def sync_request_surfaces_def assms(2) same)
  show ?thesis
    unfolding surface live clean Let_def surface_after_def by (auto split: option.split)
qed

end
