(* ===== verification/RequestForms.thy ===== *)
theory RequestForms
  imports RequestState
begin

text \<open>
  What a user types into a request of the server, and the JSON that is sent for it
  (\<open>crates/harness_app/src/main.rs\<close>): the answers to the questions of a tool and the fields of an
  MCP form, which are parsed and checked against the schema of the form. A result is the error
  that is shown (\<open>Inl\<close>) or the response (\<open>Inr\<close>).
\<close>

subsection \<open>Numbers\<close>

text \<open>
  The machine's binary floating point is a parameter: reading a number, its value, its JSON
  form (which exists for finite numbers) and the comparison, which fails on what is not a number.
\<close>

record 'f floats =
  f64_parse :: "string \<Rightarrow> 'f option"
  f64_of :: "jnum \<Rightarrow> 'f" \<comment> \<open>\<open>Value::as_f64\<close>\<close>
  f64_to :: "'f \<Rightarrow> jnum option" \<comment> \<open>\<open>Number::from_f64\<close>\<close>
  f64_less :: "'f \<Rightarrow> 'f \<Rightarrow> bool"

definition as_f64 :: "'f floats \<Rightarrow> json \<Rightarrow> 'f option" where
  "as_f64 fl v = (case v of JNumber n \<Rightarrow> Some (f64_of fl n) | _ \<Rightarrow> None)"

text \<open>\<open>str::parse::<i64>\<close> and \<open>Value::from\<close>.\<close>

definition digits_value :: "string \<Rightarrow> nat" where
  "digits_value s = foldl (\<lambda>n c. n * 10 + (of_char c - 48)) 0 s"

definition parse_i64 :: "string \<Rightarrow> int option" where
  "parse_i64 s =
     (let (negative, digits) =
            (case s of
               c # cs \<Rightarrow> if c = CHR ''-'' then (True, cs) else if c = CHR ''+'' then (False, cs) else (False, s)
             | [] \<Rightarrow> (False, []))
      in if digits = [] \<or> \<not> list_all (in_bytes 0x30 0x39) digits then None
         else opt_filter (\<lambda>i. - (2 ^ 63) \<le> i \<and> i < 2 ^ 63)
           (Some (if negative then - int (digits_value digits) else int (digits_value digits))))"

definition form_int :: "int \<Rightarrow> json" where
  "form_int i = JNumber (if 0 \<le> i then PosInt (nat i) else NegInt i)"

subsection \<open>Questions\<close>

definition question_options :: "json \<Rightarrow> string list" where
  "question_options question =
     filter_map (\<lambda>option. Option.bind (jget ''label'' option) as_str)
       (unwrap_or (Option.bind (jget ''options'' question) as_array) [])"

definition flag :: "string \<Rightarrow> json \<Rightarrow> bool" where
  "flag key question = unwrap_or (Option.bind (jget key question) as_bool) False"

text \<open>The body of the loop over the questions, after the identifier is known.\<close>

definition question_values ::
  "json \<Rightarrow> string \<Rightarrow> (string \<Rightarrow> string list option) \<Rightarrow> (string \<Rightarrow> string option) \<Rightarrow> string + string list" where
  "question_values question q_id selected_answers typed_answers =
     (let selected = unwrap_or (selected_answers q_id) [];
          options = question_options question;
          typed = opt_filter (\<lambda>t. t \<noteq> []) (map_option trim (typed_answers q_id))
      in if options \<noteq> [] \<and> list_ex (\<lambda>v. v \<notin> set options) selected
         then Inl (q_id @ '' contains an unavailable option'')
         else if typed \<noteq> None \<and> options \<noteq> [] \<and> \<not> flag ''isOther'' question
         then Inl (q_id @ '' does not accept a custom answer'')
         else
           let chosen = remdups_adj (case typed of Some t \<Rightarrow> selected @ [t] | None \<Rightarrow> selected)
           in if chosen = [] then Inl ''answer every question'' else Inr chosen)"

fun answer_questions ::
  "(string \<Rightarrow> string list option) \<Rightarrow> (string \<Rightarrow> string option) \<Rightarrow> json list \<Rightarrow> (string \<times> json) list
     \<Rightarrow> string + (string \<times> json) list" where
  "answer_questions selected_answers typed_answers [] answers = Inr answers"
| "answer_questions selected_answers typed_answers (question # questions) answers =
     (case question_id question of
        None \<Rightarrow> Inl ''question is missing an id''
      | Some q_id \<Rightarrow>
          if map_of answers q_id \<noteq> None
          then Inl (''question id '' @ q_id @ '' is duplicated'')
          else
            (case question_values question q_id selected_answers typed_answers of
               Inl error \<Rightarrow> Inl error
             | Inr chosen \<Rightarrow>
                 answer_questions selected_answers typed_answers questions
                   (obj_insert q_id (JObject [(''answers'', JArray (map JString chosen))]) answers)))"

definition build_user_input_response ::
  "json list \<Rightarrow> (string \<Rightarrow> string list option) option \<Rightarrow> (string \<Rightarrow> string option) \<Rightarrow> string + json" where
  "build_user_input_response questions selected_answers typed_answers =
     (if questions = [] then Inl ''request contains no questions''
      else
        (case answer_questions (unwrap_or selected_answers (\<lambda>_. None)) typed_answers questions [] of
           Inl error \<Rightarrow> Inl error
         | Inr answers \<Rightarrow> Inr (JObject [(''answers'', JObject answers)])))"

subsection \<open>Forms\<close>

definition string_choices_from_schema :: "json \<Rightarrow> string list" where
  "string_choices_from_schema schema =
     (case Option.bind (jget ''enum'' schema) as_array of
        Some alternatives \<Rightarrow> filter_map as_str alternatives
      | None \<Rightarrow>
          (case or_else (Option.bind (jget ''oneOf'' schema) as_array)
                  (Option.bind (jget ''anyOf'' schema) as_array) of
             Some alternatives \<Rightarrow> filter_map (\<lambda>v. Option.bind (jget ''const'' v) as_str) alternatives
           | None \<Rightarrow> []))"

definition list_parts :: "string \<Rightarrow> string list" where
  "list_parts s = filter (\<lambda>part. part \<noteq> []) (map trim (split_bytes (\<lambda>c. c = CHR '','') s))"

definition typed_value :: "'f floats \<Rightarrow> json \<Rightarrow> string \<Rightarrow> string + json" where
  "typed_value fl schema s =
     (case Option.bind (jget ''type'' schema) as_str of
        None \<Rightarrow> Inr (JString s)
      | Some kind \<Rightarrow>
          if kind = ''boolean'' then
            (if to_ascii_lowercase s \<in> {''true'', ''yes'', ''1''} then Inr (JBool True)
             else if to_ascii_lowercase s \<in> {''false'', ''no'', ''0''} then Inr (JBool False)
             else Inl ''enter true or false'')
          else if kind = ''integer'' then
            (case parse_i64 s of Some i \<Rightarrow> Inr (form_int i) | None \<Rightarrow> Inl ''enter a whole number'')
          else if kind = ''number'' then
            (case f64_parse fl s of
               None \<Rightarrow> Inl ''enter a number''
             | Some number \<Rightarrow>
                 (case f64_to fl number of
                    Some n \<Rightarrow> Inr (JNumber n) | None \<Rightarrow> Inl ''enter a finite number''))
          else if kind = ''array'' then Inr (JArray (map JString (list_parts s)))
          else if kind = ''string'' then Inr (JString s)
          else Inl (''unsupported field type '' @ kind))"

definition exceeds :: "('a \<Rightarrow> 'a \<Rightarrow> bool) \<Rightarrow> 'a option \<Rightarrow> 'a \<Rightarrow> bool" where
  "exceeds beyond limit x = (case limit of Some l \<Rightarrow> beyond x l | None \<Rightarrow> False)"

definition check_string :: "json \<Rightarrow> string \<Rightarrow> string option" where
  "check_string schema s =
     (let allowed = string_choices_from_schema schema
      in if allowed \<noteq> [] \<and> s \<notin> set allowed then Some (''choose one of '' @ join '', '' allowed)
         else if exceeds (<) (Option.bind (jget ''minLength'' schema) as_u64) (char_count s)
         then Some ''value is too short''
         else if exceeds (>) (Option.bind (jget ''maxLength'' schema) as_u64) (char_count s)
         then Some ''value is too long'' else None)"

definition check_number :: "'f floats \<Rightarrow> json \<Rightarrow> 'f \<Rightarrow> string option" where
  "check_number fl schema number =
     (if exceeds (f64_less fl) (Option.bind (jget ''minimum'' schema) (as_f64 fl)) number
      then Some ''value is below the minimum''
      else if exceeds (\<lambda>x l. f64_less fl l x) (Option.bind (jget ''maximum'' schema) (as_f64 fl)) number
      then Some ''value is above the maximum'' else None)"

definition check_array :: "json \<Rightarrow> json list \<Rightarrow> string option" where
  "check_array schema vs =
     (let allowed = string_choices_from_schema (unwrap_or (jget ''items'' schema) JNull)
      in if allowed \<noteq> [] \<and> list_ex (\<lambda>v. case as_str v of Some s \<Rightarrow> s \<notin> set allowed | None \<Rightarrow> True) vs
         then Some (''choose only from '' @ join '', '' allowed)
         else if exceeds (<) (Option.bind (jget ''minItems'' schema) as_u64) (length vs)
         then Some ''select more values''
         else if exceeds (>) (Option.bind (jget ''maxItems'' schema) as_u64) (length vs)
         then Some ''select fewer values'' else None)"

definition parse_mcp_form_value :: "'f floats \<Rightarrow> json \<Rightarrow> string \<Rightarrow> string + json" where
  "parse_mcp_form_value fl schema s =
     (case typed_value fl schema s of
        Inl error \<Rightarrow> Inl error
      | Inr v \<Rightarrow>
          (case or_else (Option.bind (as_str v) (check_string schema))
                  (or_else (Option.bind (as_f64 fl v) (check_number fl schema))
                     (Option.bind (as_array v) (check_array schema))) of
             Some error \<Rightarrow> Inl error
           | None \<Rightarrow> Inr v))"

text \<open>The value of one field: \<open>Inr None\<close> when it is left out.\<close>

definition field_value ::
  "'f floats \<Rightarrow> string list \<Rightarrow> (string \<Rightarrow> string option) \<Rightarrow> string \<Rightarrow> json \<Rightarrow> string + json option" where
  "field_value fl required field_text name schema =
     (let s = unwrap_or (map_option trim (field_text name)) []
      in if s = [] then
           (case opt_filter (\<lambda>v. \<not> is_null v) (jget ''default'' schema) of
              Some dflt \<Rightarrow> Inr (Some dflt)
            | None \<Rightarrow> if name \<in> set required then Inl (name @ '' is required'') else Inr None)
         else
           (case parse_mcp_form_value fl schema s of
              Inl error \<Rightarrow> Inl (name @ '': '' @ error)
            | Inr v \<Rightarrow> Inr (Some v)))"

fun fill_form ::
  "'f floats \<Rightarrow> string list \<Rightarrow> (string \<Rightarrow> string option) \<Rightarrow> (string \<times> json) list \<Rightarrow> (string \<times> json) list
     \<Rightarrow> string + (string \<times> json) list" where
  "fill_form fl required field_text [] content = Inr content"
| "fill_form fl required field_text ((name, schema) # properties) content =
     (case field_value fl required field_text name schema of
        Inl error \<Rightarrow> Inl error
      | Inr None \<Rightarrow> fill_form fl required field_text properties content
      | Inr (Some v) \<Rightarrow> fill_form fl required field_text properties (obj_insert name v content))"

definition required_fields :: "json \<Rightarrow> string list" where
  "required_fields schema =
     filter_map as_str (unwrap_or (Option.bind (jget ''required'' schema) as_array) [])"

definition build_mcp_form_response ::
  "'f floats \<Rightarrow> json \<Rightarrow> (string \<Rightarrow> string option) \<Rightarrow> string + json" where
  "build_mcp_form_response fl requested_schema field_text =
     (if Option.bind (jget ''type'' requested_schema) as_str \<noteq> Some ''object''
      then Inl ''unsupported MCP form schema''
      else
        (case Option.bind (jget ''properties'' requested_schema) as_object of
           None \<Rightarrow> Inl ''unsupported MCP form schema''
         | Some properties \<Rightarrow>
             (case fill_form fl (required_fields requested_schema) field_text properties [] of
                Inl error \<Rightarrow> Inl error
              | Inr content \<Rightarrow>
                  Inr (JObject [(''action'', JString ''accept''), (''content'', JObject content)]))))"

definition mcp_form_field_hint :: "host \<Rightarrow> json \<Rightarrow> string" where
  "mcp_form_field_hint h schema =
     (let kind = Option.bind (jget ''type'' schema) as_str;
          choices = (if kind = Some ''array''
                     then string_choices_from_schema (unwrap_or (jget ''items'' schema) JNull)
                     else string_choices_from_schema schema)
      in join mid_dot
        ((case kind of
            Some k \<Rightarrow> [if k = ''array'' then ''comma-separated values''
                       else if k = ''boolean'' then ''true or false'' else k]
          | None \<Rightarrow> []) @
         (if choices \<noteq> [] then [''choices: '' @ join '', '' choices] else []) @
         (case opt_filter (\<lambda>v. \<not> is_null v) (jget ''default'' schema) of
            Some dflt \<Rightarrow> [''default: '' @ json_display h dflt] | None \<Rightarrow> [])))"

subsection \<open>Answers to questions\<close>

text \<open>
  Specification: a question is answered when something is selected or typed, when what is
  selected is among its options, and when nothing is typed where only its options count.
\<close>

definition typed_answer :: "(string \<Rightarrow> string option) \<Rightarrow> string \<Rightarrow> string list" where
  "typed_answer typed_answers q_id =
     (case typed_answers q_id of Some t \<Rightarrow> if trim t = [] then [] else [trim t] | None \<Rightarrow> [])"

definition question_answered ::
  "(string \<Rightarrow> string list option) \<Rightarrow> (string \<Rightarrow> string option) \<Rightarrow> json \<Rightarrow> bool" where
  "question_answered selected_answers typed_answers question \<longleftrightarrow>
     (let q_id = the (question_id question);
          selected = unwrap_or (selected_answers q_id) [];
          typed = typed_answer typed_answers q_id;
          options = question_options question
      in selected @ typed \<noteq> [] \<and>
         (options \<noteq> [] \<longrightarrow> set selected \<subseteq> set options \<and> (typed \<noteq> [] \<longrightarrow> flag ''isOther'' question)))"

definition answer_entry ::
  "(string \<Rightarrow> string list option) \<Rightarrow> (string \<Rightarrow> string option) \<Rightarrow> json \<Rightarrow> string \<times> json" where
  "answer_entry selected_answers typed_answers question =
     (let q_id = the (question_id question)
      in (q_id, JObject [(''answers'', JArray (map JString (remdups_adj
            (unwrap_or (selected_answers q_id) [] @ typed_answer typed_answers q_id))))]))"

lemma question_values_Inr:
  "question_values question q_id sel typed = Inr chosen \<longleftrightarrow>
     (let selected = unwrap_or (sel q_id) []; answer = typed_answer typed q_id; options = question_options question
      in selected @ answer \<noteq> [] \<and>
         (options \<noteq> [] \<longrightarrow> set selected \<subseteq> set options \<and> (answer \<noteq> [] \<longrightarrow> flag ''isOther'' question)) \<and>
         chosen = remdups_adj (selected @ answer))"
proof -
  define selected where "selected = unwrap_or (sel q_id) []"
  have *: "list_ex (\<lambda>v. v \<notin> set (question_options question)) selected \<longleftrightarrow> \<not> set selected \<subseteq> set (question_options question)"
    by (auto simp: list_ex_iff)
  consider (none) "opt_filter (\<lambda>t. t \<noteq> []) (map_option trim (typed q_id)) = None" "typed_answer typed q_id = []"
    | (some) t where "opt_filter (\<lambda>t. t \<noteq> []) (map_option trim (typed q_id)) = Some t" "typed_answer typed q_id = [t]"
  proof (cases "typed_answer typed q_id")
    case Nil
    then show thesis using none by (auto simp: typed_answer_def split: option.splits if_splits)
  next
    case (Cons t ts)
    then show thesis using some [of t] by (auto simp: typed_answer_def split: option.splits if_splits)
  qed
  then show ?thesis
    by cases (auto simp: question_values_def Let_def selected_def [symmetric] * split: if_splits)
qed

lemma obj_insert_fresh: "map_of kvs k = None \<Longrightarrow> obj_insert k v kvs = kvs @ [(k, v)]"
  by (induction kvs) (auto split: if_splits)

lemma answer_questions_Inr:
  assumes "valid_questions ids questions" "dom (map_of answers) \<subseteq> ids"
  shows "answer_questions sel typed questions answers = Inr result \<longleftrightarrow>
     (\<forall>question \<in> set questions. question_answered sel typed question) \<and>
     result = answers @ map (answer_entry sel typed) questions"
  using assms
proof (induction questions arbitrary: ids answers)
  case (Cons question questions)
  from Cons.prems(1) obtain q_id where q: "question_id question = Some q_id" "q_id \<notin> ids"
    and rest: "valid_questions (insert q_id ids) questions"
    by (auto simp: valid_question_def split: option.splits)
  have fresh: "map_of answers q_id = None"
    using q(2) Cons.prems(2) by (auto simp: domIff)
  let ?v = "answer_entry sel typed question"
  have step: "answer_questions sel typed questions (obj_insert q_id v answers) = Inr result \<longleftrightarrow>
      (\<forall>question \<in> set questions. question_answered sel typed question) \<and>
      result = answers @ (q_id, v) # map (answer_entry sel typed) questions" for v
    using Cons.IH [OF rest, of "answers @ [(q_id, v)]"] Cons.prems(2)
    by (auto simp: obj_insert_fresh [OF fresh])
  show ?case
  proof (cases "question_values question q_id sel typed")
    case (Inl e)
    then have "\<not> question_answered sel typed question"
      using question_values_Inr [of question q_id sel typed] q(1)
      by (auto simp: question_answered_def Let_def)
    then show ?thesis using q fresh Inl by simp
  next
    case (Inr chosen)
    then have "question_answered sel typed question"
      "?v = (q_id, JObject [(''answers'', JArray (map JString chosen))])"
      using question_values_Inr [of question q_id sel typed chosen] q(1)
      by (auto simp: question_answered_def answer_entry_def Let_def)
    then show ?thesis using q fresh Inr step by simp
  qed
qed auto

lemma user_input_response_iff:
  assumes "valid_user_input_questions questions"
  shows "build_user_input_response questions sel typed = Inr response \<longleftrightarrow>
     (\<forall>question \<in> set questions. question_answered (unwrap_or sel (\<lambda>_. None)) typed question) \<and>
     response = JObject [(''answers'', JObject (map (answer_entry (unwrap_or sel (\<lambda>_. None)) typed) questions))]"
proof -
  have nonempty: "questions \<noteq> []" and valid: "valid_questions {} questions"
    using assms by (simp_all add: valid_user_input_questions_def)
  note iff = answer_questions_Inr [OF valid, of "[]" "unwrap_or sel (\<lambda>_. None)" typed]
  show ?thesis
  proof (cases "answer_questions (unwrap_or sel (\<lambda>_. None)) typed questions []")
    case (Inl e)
    then show ?thesis using nonempty iff by (auto simp: build_user_input_response_def)
  next
    case (Inr answers)
    then show ?thesis using nonempty iff [of answers] by (auto simp: build_user_input_response_def)
  qed
qed

subsection \<open>Forms conform to their schema\<close>

text \<open>
  Specification: the part of JSON Schema that a form may use. A number is in bounds when it is
  not less than the minimum and the maximum is not less than it.
\<close>

definition has_type :: "string option \<Rightarrow> json \<Rightarrow> bool" where
  "has_type kind v =
     (case v of
        JBool b \<Rightarrow> kind = Some ''boolean''
      | JNumber n \<Rightarrow>
          kind = Some ''number'' \<or>
          kind = Some ''integer'' \<and> (case n of PosInt i \<Rightarrow> i < 2 ^ 63 | NegInt i \<Rightarrow> - (2 ^ 63) \<le> i \<and> i < 0 | Float _ \<Rightarrow> False)
      | JArray vs \<Rightarrow> kind = Some ''array'' \<and> list_all (\<lambda>v. as_str v \<noteq> None) vs
      | JString s \<Rightarrow> kind \<in> {None, Some ''string''}
      | _ \<Rightarrow> False)"

definition size_within :: "string \<Rightarrow> string \<Rightarrow> json \<Rightarrow> nat \<Rightarrow> bool" where
  "size_within lower upper schema n \<longleftrightarrow>
     (case Option.bind (jget lower schema) as_u64 of Some l \<Rightarrow> l \<le> n | None \<Rightarrow> True) \<and>
     (case Option.bind (jget upper schema) as_u64 of Some u \<Rightarrow> n \<le> u | None \<Rightarrow> True)"

definition among :: "string list \<Rightarrow> string \<Rightarrow> bool" where
  "among choices s \<longleftrightarrow> choices = [] \<or> s \<in> set choices"

definition conforms :: "'f floats \<Rightarrow> json \<Rightarrow> json \<Rightarrow> bool" where
  "conforms fl schema v \<longleftrightarrow>
     has_type (Option.bind (jget ''type'' schema) as_str) v \<and>
     (case v of
        JString s \<Rightarrow>
          among (string_choices_from_schema schema) s \<and>
          size_within ''minLength'' ''maxLength'' schema (char_count s)
      | JNumber n \<Rightarrow>
          (case Option.bind (jget ''minimum'' schema) (as_f64 fl) of
             Some l \<Rightarrow> \<not> f64_less fl (f64_of fl n) l | None \<Rightarrow> True) \<and>
          (case Option.bind (jget ''maximum'' schema) (as_f64 fl) of
             Some u \<Rightarrow> \<not> f64_less fl u (f64_of fl n) | None \<Rightarrow> True)
      | JArray vs \<Rightarrow>
          list_all (\<lambda>v. among (string_choices_from_schema (unwrap_or (jget ''items'' schema) JNull)) (the (as_str v))) vs \<and>
          size_within ''minItems'' ''maxItems'' schema (length vs)
      | _ \<Rightarrow> True)"

lemma parse_i64_range: "parse_i64 s = Some i \<Longrightarrow> - (2 ^ 63) \<le> i \<and> i < 2 ^ 63"
  unfolding parse_i64_def Let_def by (simp split: prod.splits if_splits del: power_numeral)

lemma form_int_type: "- (2 ^ 63) \<le> i \<Longrightarrow> i < 2 ^ 63 \<Longrightarrow> has_type (Some ''integer'') (form_int i)"
  by (auto simp: has_type_def form_int_def nat_less_iff)

lemma typed_value_type:
  assumes "typed_value fl schema s = Inr v"
  shows "has_type (Option.bind (jget ''type'' schema) as_str) v"
proof (cases "Option.bind (jget ''type'' schema) as_str")
  case None
  then show ?thesis using assms by (auto simp: typed_value_def has_type_def)
next
  case (Some kind)
  have "kind \<in> {''boolean'', ''integer'', ''number'', ''array'', ''string''}"
  proof (rule ccontr)
    assume "\<not> ?thesis"
    then show False using assms Some by (simp add: typed_value_def)
  qed
  then consider "kind = ''boolean''" | "kind = ''integer''" | "kind = ''number''" | "kind = ''array''" | "kind = ''string''"
    by (elim insertE emptyE)
  then show ?thesis
  proof cases
    case 2
    then obtain i where "parse_i64 s = Some i" "v = form_int i"
      using assms Some by (auto simp: typed_value_def split: option.splits)
    then show ?thesis using Some 2 parse_i64_range form_int_type by simp
  next
    case 1
    then have "v \<in> {JBool True, JBool False}"
      using assms Some unfolding typed_value_def option.case by (simp split: if_splits)
    then show ?thesis using Some 1 by (auto simp: has_type_def)
  next
    case 3
    then have "\<exists>n. v = JNumber n"
      using assms Some unfolding typed_value_def option.case by (auto split: option.splits)
    then show ?thesis using Some 3 by (auto simp: has_type_def)
  qed (use assms Some in \<open>auto simp: typed_value_def has_type_def list_all_iff\<close>)
qed

lemma check_string_None:
  "check_string schema s = None \<longleftrightarrow>
     among (string_choices_from_schema schema) s \<and> size_within ''minLength'' ''maxLength'' schema (char_count s)"
  unfolding check_string_def Let_def among_def size_within_def exceeds_def
  by (simp add: not_less split: option.split)

lemma check_array_None:
  assumes "list_all (\<lambda>v. as_str v \<noteq> None) vs"
  shows "check_array schema vs = None \<longleftrightarrow>
     list_all (\<lambda>v. among (string_choices_from_schema (unwrap_or (jget ''items'' schema) JNull)) (the (as_str v))) vs \<and>
     size_within ''minItems'' ''maxItems'' schema (length vs)"
proof -
  define allowed where "allowed = string_choices_from_schema (unwrap_or (jget ''items'' schema) JNull)"
  have *: "(allowed \<noteq> [] \<and> list_ex (\<lambda>v. case as_str v of Some s \<Rightarrow> s \<notin> set allowed | None \<Rightarrow> True) vs) =
      (\<not> list_all (\<lambda>v. among allowed (the (as_str v))) vs)"
    using assms by (induction vs) (auto simp: among_def)
  show ?thesis
    unfolding check_array_def Let_def allowed_def [symmetric] * size_within_def exceeds_def
    by (simp add: not_less split: option.split)
qed

lemma check_number_None:
  "check_number fl schema x = None \<longleftrightarrow>
     (case Option.bind (jget ''minimum'' schema) (as_f64 fl) of Some l \<Rightarrow> \<not> f64_less fl x l | None \<Rightarrow> True) \<and>
     (case Option.bind (jget ''maximum'' schema) (as_f64 fl) of Some u \<Rightarrow> \<not> f64_less fl u x | None \<Rightarrow> True)"
  unfolding check_number_def exceeds_def by (simp split: option.split)

lemma parse_value_iff:
  "parse_mcp_form_value fl schema s = Inr v \<longleftrightarrow> typed_value fl schema s = Inr v \<and> conforms fl schema v"
proof (cases "typed_value fl schema s")
  case (Inl e)
  then show ?thesis by (simp add: parse_mcp_form_value_def)
next
  case (Inr w)
  note type = typed_value_type [OF Inr]
  have last: "or_else x None = None \<longleftrightarrow> x = None" for x :: "string option"
    by (cases x) simp_all
  let ?checks = "or_else (Option.bind (as_str w) (check_string schema))
    (or_else (Option.bind (as_f64 fl w) (check_number fl schema)) (Option.bind (as_array w) (check_array schema)))"
  have "?checks = None \<longleftrightarrow> conforms fl schema w"
  proof (cases w)
    case (JArray vs)
    then have "list_all (\<lambda>v. as_str v \<noteq> None) vs" using type by (simp add: has_type_def)
    from check_array_None [OF this] show ?thesis using JArray type by (simp add: conforms_def as_f64_def)
  qed (use type in \<open>simp_all add: conforms_def as_f64_def check_string_None check_number_None has_type_def last\<close>)
  then show ?thesis using Inr by (auto simp: parse_mcp_form_value_def split: option.split)
qed

lemma parse_value_conforms: "parse_mcp_form_value fl schema s = Inr v \<Longrightarrow> conforms fl schema v"
  by (simp add: parse_value_iff)

lemma fill_form_Inr:
  assumes "distinct (map fst properties)" "\<forall>(name, schema) \<in> set properties. map_of content name = None"
  shows "fill_form fl required field_text properties content = Inr result \<longleftrightarrow>
     (\<forall>(name, schema) \<in> set properties. \<exists>v. field_value fl required field_text name schema = Inr v) \<and>
     result = content @ filter_map (\<lambda>(name, schema).
       map_option (Pair name) (projr (field_value fl required field_text name schema))) properties"
  using assms
proof (induction properties arbitrary: content)
  case (Cons p properties)
  obtain name schema where p: "p = (name, schema)" by (cases p)
  have distinct: "distinct (map fst properties)" and fresh: "map_of content name = None"
    using Cons.prems p by auto
  show ?case
  proof (cases "field_value fl required field_text name schema")
    case (Inl e)
    then show ?thesis using p by simp
  next
    case (Inr v)
    show ?thesis
    proof (cases v)
      case None
      then show ?thesis using Inr p Cons.IH [OF distinct, of content] Cons.prems by simp
    next
      case (Some w)
      have "map_of (content @ [(name, w)]) n = None" if "(n, s) \<in> set properties" for n s
      proof -
        have "n \<noteq> name" using Cons.prems(1) p that by force
        moreover have "map_of content n = None" using Cons.prems(2) that by auto
        ultimately show ?thesis by (simp add: map_add_def)
      qed
      then have "\<forall>(n, s) \<in> set properties. map_of (content @ [(name, w)]) n = None" by blast
      from Cons.IH [OF distinct this] show ?thesis
        using Inr Some p obj_insert_fresh [OF fresh, of w] by simp
    qed
  qed
qed auto

lemma field_value_Some:
  assumes "field_value fl required field_text name schema = Inr (Some v)"
  shows "conforms fl schema v \<or> v \<noteq> JNull \<and> jget ''default'' schema = Some v"
proof (cases "unwrap_or (map_option trim (field_text name)) [] = []")
  case True
  then show ?thesis
    using assms by (auto simp: field_value_def Let_def opt_filter_def is_null_def split: option.splits if_splits)
next
  case False
  then show ?thesis
    using assms parse_value_conforms by (auto simp: field_value_def Let_def split: sum.splits)
qed

lemma field_value_required:
  "field_value fl required field_text name schema = Inr None \<Longrightarrow> name \<notin> set required"
  by (auto simp: field_value_def Let_def split: option.splits if_splits sum.splits)

lemma form_response_lemma:
  assumes "distinct (map fst properties)"
    and "jget ''properties'' schema = Some (JObject properties)"
    and "build_mcp_form_response fl schema field_text = Inr response"
  shows "\<exists>content. response = JObject [(''action'', JString ''accept''), (''content'', JObject content)] \<and>
    subseq (map fst content) (map fst properties) \<and>
    (\<forall>(name, v) \<in> set content. \<exists>s. map_of properties name = Some s \<and>
       (conforms fl s v \<or> v \<noteq> JNull \<and> jget ''default'' s = Some v)) \<and>
    set (required_fields schema) \<inter> set (map fst properties) \<subseteq> set (map fst content)"
proof -
  let ?field = "field_value fl (required_fields schema) field_text"
  let ?entry = "\<lambda>(name, s). map_option (Pair name) (projr (?field name s))"
  let ?content = "filter_map ?entry properties"
  obtain content where filled: "fill_form fl (required_fields schema) field_text properties [] = Inr content"
    and response: "response = JObject [(''action'', JString ''accept''), (''content'', JObject content)]"
    using assms(2,3) by (auto simp: build_mcp_form_response_def split: if_splits sum.splits)
  have filled: "(\<forall>(name, s) \<in> set properties. \<exists>v. ?field name s = Inr v) \<and> content = [] @ ?content"
    using filled by (subst (asm) fill_form_Inr [OF assms(1)]) auto
  then have content: "content = ?content" by simp
  have fields: "\<exists>v. ?field name s = Inr v" if "(name, s) \<in> set properties" for name s
    using filled that by blast
  have order: "subseq (map fst (filter_map ?entry ps)) (map fst ps)" for ps
    by (induction ps) (auto split: option.split)
  have "\<exists>s. map_of properties name = Some s \<and> (conforms fl s v \<or> v \<noteq> JNull \<and> jget ''default'' s = Some v)"
    if "(name, v) \<in> set ?content" for name v
  proof -
    obtain s where s: "(name, s) \<in> set properties" "projr (?field name s) = Some v"
      using \<open>(name, v) \<in> set ?content\<close> by (auto simp: set_filter_map)
    with fields have "?field name s = Inr (Some v)" by fastforce
    with s(1) assms(1) field_value_Some show ?thesis by (metis map_of_eq_Some_iff)
  qed
  moreover have "name \<in> set (map fst ?content)"
    if "name \<in> set (required_fields schema)" "(name, s) \<in> set properties" for name s
  proof -
    obtain v where "?field name s = Inr v" using fields \<open>(name, s) \<in> set properties\<close> by blast
    moreover from this have "v \<noteq> None" using field_value_required that(1) by metis
    ultimately have "?entry (name, s) = Some (name, the v)" by auto
    then have "(name, the v) \<in> set ?content" using that(2) unfolding set_filter_map by blast
    then show ?thesis by force
  qed
  ultimately show ?thesis using order [of properties] unfolding response content by auto
qed

text \<open>
  Specification of a response: it has only fields that the schema lists, in its order; each
  value conforms to its field or is the default that the schema itself gives; and no listed field
  that is required is left out.
\<close>

definition form_accepted :: "'f floats \<Rightarrow> json \<Rightarrow> json \<Rightarrow> bool" where
  "form_accepted fl schema response \<longleftrightarrow>
     (\<exists>properties content. jget ''properties'' schema = Some (JObject properties) \<and>
        response = JObject [(''action'', JString ''accept''), (''content'', JObject content)] \<and>
        subseq (map fst content) (map fst properties) \<and>
        (\<forall>(name, v) \<in> set content. \<exists>s. map_of properties name = Some s \<and>
           (conforms fl s v \<or> v \<noteq> JNull \<and> jget ''default'' s = Some v)) \<and>
        set (required_fields schema) \<inter> set (map fst properties) \<subseteq> set (map fst content))"

lemma form_response_accepted:
  assumes "json_ok schema" "build_mcp_form_response fl schema field_text = Inr response"
  shows "form_accepted fl schema response"
proof -
  obtain properties where properties: "jget ''properties'' schema = Some (JObject properties)"
    using assms(2) by (auto simp: build_mcp_form_response_def bind_eq_Some_conv elim: as_object.elims
      split: if_splits option.splits sum.splits)
  moreover have "distinct (map fst properties)"
    using assms(1) properties by (cases schema) (auto simp: jget_def list_all_iff dest!: map_of_SomeD)
  ultimately show ?thesis
    using form_response_lemma [OF _ _ assms(2)] by (simp add: form_accepted_def)
qed

subsection \<open>What can be entered\<close>

lemma in_bytes_digit [simp]: "n < 10 \<Longrightarrow> in_bytes 0x30 0x39 (digit n)"
  by (simp add: in_bytes_def digit_def)

lemma dec_digits: "list_all (in_bytes 0x30 0x39) (dec n)"
  by (induction n rule: dec.induct) (subst dec.simps, simp)

lemma digits_value_dec: "digits_value (dec n) = n"
proof (induction n rule: dec.induct)
  case (1 n)
  have digit: "(of_char (digit m) :: nat) = 48 + m" if "m < 10" for m
    using that by (simp add: digit_def)
  show ?case
  proof (cases "n < 10")
    case True
    then show ?thesis by (simp add: dec.simps [of n] digits_value_def digit)
  next
    case False
    with 1 show ?thesis by (simp add: dec.simps [of n] digits_value_def digit)
  qed
qed

lemma dec_head: "dec n = c # cs \<Longrightarrow> c \<noteq> CHR ''-'' \<and> c \<noteq> CHR ''+''"
  using dec_digits [of n] by (auto simp: in_bytes_def)

lemma parse_i64_dec:
  assumes "- (2 ^ 63) \<le> i" "i < 2 ^ 63"
  shows "parse_i64 (dec_int i) = Some i"
proof -
  obtain c cs where c: "dec (nat i) = c # cs" by (cases "dec (nat i)") auto
  show ?thesis
    using assms dec_head [OF c] dec_digits [of "nat i"] dec_digits [of "nat (- i)"]
      digits_value_dec [of "nat i"] digits_value_dec [of "nat (- i)"]
    by (cases "i < 0") (simp_all add: parse_i64_def dec_int_def c Let_def)
qed

lemma in_split_bytes: "part \<in> set (split_bytes P s) \<Longrightarrow> c \<in> set part \<Longrightarrow> \<not> P c"
proof (induction s arbitrary: part)
  case (Cons b s)
  then show ?case by (cases "split_bytes P s") (fastforce split: if_splits)+
qed simp

lemma trim_subset: "set (trim s) \<subseteq> set s"
  using suffix_trim_start [of s] prefix_trim_end [of "trim_start s"]
  by (auto simp: trim_def prefix_def suffix_def) (metis Un_iff set_append)+

lemma list_parts_clean: "part \<in> set (list_parts s) \<Longrightarrow> CHR '','' \<notin> set part"
  using trim_subset in_split_bytes [of _ "\<lambda>c. c = CHR '',''" s] by (fastforce simp: list_parts_def)

text \<open>
  A field of several values is typed with commas between them, so an alternative that has a
  comma itself can not be chosen, although the hint of the field lists it.
\<close>

lemma choice_with_comma_unreachable:
  assumes "Option.bind (jget ''type'' schema) as_str = Some ''array''"
    and "parse_mcp_form_value fl schema s = Inr (JArray vs)" and "CHR '','' \<in> set choice"
  shows "JString choice \<notin> set vs"
proof
  assume "JString choice \<in> set vs"
  moreover have "vs = map JString (list_parts s)"
    using assms(1,2) unfolding parse_value_iff by (simp add: typed_value_def)
  ultimately have "choice \<in> set (list_parts s)" by auto
  with list_parts_clean assms(3) show False by blast
qed

end
