(* ===== verification/RequestSurface.thy ===== *)
theory RequestSurface
  imports RequestForms
begin

text \<open>
  The surface on which a user answers a request of the server
  (\<open>crates/harness_app/src/request_surface.rs\<close>): its state with the cursors, the selected answers and
  the texts of its fields, the operations of the keyboard and the mouse, what it emits, and what
  it shows of the request. The editor widgets of the fields are their texts.
\<close>

subsection \<open>Types\<close>

record Respond =
  re_item_key :: string
  re_response :: json
  re_completed_status :: string

definition from_choice :: "string \<Rightarrow> RequestChoice \<Rightarrow> Respond" where
  "from_choice item_key choice =
     \<lparr>re_item_key = item_key, re_response = rc_response choice, re_completed_status = rc_completed_status choice\<rparr>"

datatype SurfaceKind = Approval | UserInput | McpForm | McpUrl | McpUnsupported

record FieldEditor =
  fe_text :: string
  fe_masked :: bool

record RequestSurface =
  rs_item_key :: string
  rs_method :: string
  rs_raw :: json
  rs_kind :: SurfaceKind
  rs_editors :: "string \<rightharpoonup> FieldEditor"
  rs_selected_answers :: "string \<Rightarrow> string list option"
  rs_question_cursor :: nat
  rs_option_cursors :: "string \<rightharpoonup> nat"
  rs_choice_cursor :: nat
  rs_validation_error :: "string option"
  rs_responding :: bool

definition surface_kind :: "string \<Rightarrow> json \<Rightarrow> SurfaceKind" where
  "surface_kind method_name raw =
     (if method_name = ''item/tool/requestUserInput'' then UserInput
      else if method_name = ''mcpServer/elicitation/request'' then
        (let mode = Option.bind (jget ''mode'' raw) as_str
         in if mode = Some ''form'' then McpForm else if mode = Some ''url'' then McpUrl else McpUnsupported)
      else Approval)"

definition surface_question_id :: "json \<Rightarrow> string" where
  "surface_question_id question = unwrap_or (Option.bind (jget ''id'' question) as_str) ''question''"

definition surface_questions :: "RequestSurface \<Rightarrow> json list" where
  "surface_questions s = unwrap_or (Option.bind (jget ''questions'' (rs_raw s)) as_array) []"

definition mcp_field_names :: "RequestSurface \<Rightarrow> string list" where
  "mcp_field_names s =
     (case Option.bind (pointer [''requestedSchema'', ''properties''] (rs_raw s)) as_object of
        Some properties \<Rightarrow> map fst properties | None \<Rightarrow> [])"

definition surface_choices :: "RequestSurface \<Rightarrow> RequestChoice list" where
  "surface_choices s = request_choices (rs_method s) (rs_raw s)"

definition option_count :: "json \<Rightarrow> nat" where
  "option_count question = (case Option.bind (jget ''options'' question) as_array of Some os \<Rightarrow> length os | None \<Rightarrow> 0)"

subsection \<open>Cursors\<close>

text \<open>\<open>usize::saturating_add_signed\<close> and the minimum with the last index; the upper saturation is beyond every index.\<close>

definition move_cursor :: "nat \<Rightarrow> int \<Rightarrow> nat \<Rightarrow> nat" where
  "move_cursor cursor delta count = min (nat (int cursor + delta)) (count - 1)"

definition move_vertical :: "int \<Rightarrow> RequestSurface \<Rightarrow> RequestSurface" where
  "move_vertical delta s =
     (let move = (\<lambda>count. if count > 0
            then s\<lparr>rs_question_cursor := move_cursor (rs_question_cursor s) delta count\<rparr> else s)
      in case rs_kind s of
           UserInput \<Rightarrow> move (length (surface_questions s))
         | McpForm \<Rightarrow> move (length (mcp_field_names s))
         | _ \<Rightarrow> s)"

definition choice_offset :: "RequestSurface \<Rightarrow> nat" where
  "choice_offset s = (if rs_kind s = McpForm then 1 else 0)"

definition move_horizontal :: "int \<Rightarrow> RequestSurface \<Rightarrow> RequestSurface" where
  "move_horizontal delta s =
     (case rs_kind s of
        UserInput \<Rightarrow>
          (case get_at (surface_questions s) (rs_question_cursor s) of
             None \<Rightarrow> s
           | Some question \<Rightarrow>
               (let q_id = surface_question_id question
                in if option_count question > 0
                   then s\<lparr>rs_option_cursors := (rs_option_cursors s)(q_id \<mapsto>
                     move_cursor (unwrap_or (rs_option_cursors s q_id) 0) delta (option_count question))\<rparr>
                   else s))
      | _ \<Rightarrow>
          (let choice_count = length (surface_choices s) + choice_offset s
           in if choice_count > 0
              then s\<lparr>rs_choice_cursor := move_cursor (rs_choice_cursor s) delta choice_count\<rparr> else s))"

definition clamp_cursors :: "RequestSurface \<Rightarrow> RequestSurface" where
  "clamp_cursors s =
     (let count = (case rs_kind s of
            UserInput \<Rightarrow> length (surface_questions s) | McpForm \<Rightarrow> length (mcp_field_names s) | _ \<Rightarrow> 0);
          choice_count = length (surface_choices s) + choice_offset s
      in s\<lparr>rs_question_cursor := min (rs_question_cursor s) (count - 1),
           rs_choice_cursor := min (rs_choice_cursor s) (choice_count - 1)\<rparr>)"

subsection \<open>Creation and update\<close>

definition accepts_text :: "json \<Rightarrow> bool" where
  "accepts_text question \<longleftrightarrow> option_count question = 0 \<or> flag ''isOther'' question"

definition surface_fields :: "RequestSurface \<Rightarrow> (string \<times> bool) list" where
  "surface_fields s =
     (case rs_kind s of
        UserInput \<Rightarrow>
          map (\<lambda>question. (surface_question_id question, flag ''isSecret'' question))
            (filter accepts_text (surface_questions s))
      | McpForm \<Rightarrow> map (\<lambda>name. (name, False)) (mcp_field_names s)
      | _ \<Rightarrow> [])"

definition ensure_editor :: "string \<times> bool \<Rightarrow> RequestSurface \<Rightarrow> RequestSurface" where
  "ensure_editor field s =
     (case rs_editors s (fst field) of
        Some editor \<Rightarrow> s
      | None \<Rightarrow> s\<lparr>rs_editors := (rs_editors s)(fst field \<mapsto> \<lparr>fe_text = [], fe_masked = snd field\<rparr>)\<rparr>)"

definition ensure_editors :: "RequestSurface \<Rightarrow> RequestSurface" where
  "ensure_editors s = fold ensure_editor (surface_fields s) s"

definition new_surface :: "string \<Rightarrow> string \<Rightarrow> json \<Rightarrow> RequestSurface" where
  "new_surface item_key method_name raw =
     ensure_editors
       \<lparr>rs_item_key = item_key, rs_method = method_name, rs_raw = raw, rs_kind = surface_kind method_name raw,
        rs_editors = Map.empty, rs_selected_answers = (\<lambda>_. None), rs_question_cursor = 0,
        rs_option_cursors = Map.empty, rs_choice_cursor = 0, rs_validation_error = None,
        rs_responding = False\<rparr>"

definition update_request :: "string \<Rightarrow> json \<Rightarrow> RequestSurface \<Rightarrow> RequestSurface" where
  "update_request method_name raw s =
     clamp_cursors (ensure_editors
       (s\<lparr>rs_kind := surface_kind method_name raw, rs_method := method_name, rs_raw := raw\<rparr>))"

definition set_responding :: "bool \<Rightarrow> RequestSurface \<Rightarrow> RequestSurface" where
  "set_responding responding s = s\<lparr>rs_responding := responding\<rparr>"

subsection \<open>Submission\<close>

text \<open>What is typed in the fields, by key: only text that is not blank counts.\<close>

definition typed_fields :: "string list \<Rightarrow> RequestSurface \<Rightarrow> string \<Rightarrow> string option" where
  "typed_fields keys s key =
     (if key \<in> set keys then
        opt_filter (\<lambda>t. t \<noteq> []) (map_option (\<lambda>editor. trim (fe_text editor)) (rs_editors s key))
      else None)"

definition surface_user_input_response :: "RequestSurface \<Rightarrow> string + json \<times> string" where
  "surface_user_input_response s =
     map_sum id (\<lambda>response. (response, ''answered''))
       (build_user_input_response (surface_questions s) (Some (rs_selected_answers s))
          (typed_fields (map surface_question_id (surface_questions s)) s))"

definition surface_mcp_form_response :: "'f floats \<Rightarrow> RequestSurface \<Rightarrow> string + json \<times> string" where
  "surface_mcp_form_response fl s =
     map_sum id (\<lambda>response. (response, ''submitted''))
       (build_mcp_form_response fl (unwrap_or (pointer [''requestedSchema''] (rs_raw s)) JNull)
          (typed_fields (mcp_field_names s) s))"

definition submit :: "'f floats \<Rightarrow> RequestSurface \<Rightarrow> RequestSurface \<times> Respond option" where
  "submit fl s =
     (if rs_responding s then (s, None)
      else
        (let finish = (\<lambda>result. case result of
               Inr (response, completed_status) \<Rightarrow>
                 (s\<lparr>rs_validation_error := None\<rparr>,
                  Some \<lparr>re_item_key = rs_item_key s, re_response = response, re_completed_status = completed_status\<rparr>)
             | Inl error \<Rightarrow> (s\<lparr>rs_validation_error := Some error\<rparr>, None))
         in case rs_kind s of
              UserInput \<Rightarrow> finish (surface_user_input_response s)
            | McpForm \<Rightarrow> finish (surface_mcp_form_response fl s)
            | _ \<Rightarrow> (s, None)))"

definition surface_choose :: "'f floats \<Rightarrow> RequestSurface \<Rightarrow> RequestSurface \<times> Respond option" where
  "surface_choose fl s =
     (if rs_responding s then (s, None)
      else
        (let emit = (\<lambda>index. (s, map_option (from_choice (rs_item_key s)) (get_at (surface_choices s) index)))
         in case rs_kind s of
              UserInput \<Rightarrow>
                (case get_at (surface_questions s) (rs_question_cursor s) of
                   None \<Rightarrow> (s, None)
                 | Some question \<Rightarrow>
                     (let q_id = surface_question_id question;
                          option_index = unwrap_or (rs_option_cursors s q_id) 0;
                          answer = do { options \<leftarrow> Option.bind (jget ''options'' question) as_array;
                                        option \<leftarrow> get_at options option_index;
                                        Option.bind (jget ''label'' option) as_str }
                      in case answer of
                           Some answer \<Rightarrow>
                             (s\<lparr>rs_selected_answers := (rs_selected_answers s)(q_id \<mapsto> [answer]),
                                rs_validation_error := None\<rparr>, None)
                         | None \<Rightarrow> (s, None)))
            | McpForm \<Rightarrow> if rs_choice_cursor s = 0 then submit fl s else emit (rs_choice_cursor s - 1)
            | _ \<Rightarrow> emit (min (rs_choice_cursor s) (length (surface_choices s) - 1))))"

text \<open>The two handlers of the mouse: a button of a choice and an option of a question.\<close>

definition click_choice :: "nat \<Rightarrow> RequestSurface \<Rightarrow> RequestSurface \<times> Respond option" where
  "click_choice index s =
     (case get_at (surface_choices s) index of
        None \<Rightarrow> (s, None)
      | Some choice \<Rightarrow>
          if rs_responding s then (s, None) \<comment> \<open>the button is disabled\<close>
          else (s\<lparr>rs_choice_cursor := index + choice_offset s\<rparr>, Some (from_choice (rs_item_key s) choice)))"

definition click_option :: "nat \<Rightarrow> nat \<Rightarrow> RequestSurface \<Rightarrow> RequestSurface" where
  "click_option index option_index s =
     (case do { question \<leftarrow> get_at (surface_questions s) index;
                option \<leftarrow> get_at (unwrap_or (Option.bind (jget ''options'' question) as_array) []) option_index;
                Some (surface_question_id question, unwrap_or (Option.bind (jget ''label'' option) as_str) ''Option'') } of
        None \<Rightarrow> s
      | Some (q_id, label) \<Rightarrow>
          s\<lparr>rs_question_cursor := index,
            rs_option_cursors := (rs_option_cursors s)(q_id \<mapsto> option_index),
            rs_selected_answers := (rs_selected_answers s)(q_id \<mapsto> [label]),
            rs_validation_error := None\<rparr>)"

text \<open>The user types into a field that is there.\<close>

definition edit_field :: "string \<Rightarrow> string \<Rightarrow> RequestSurface \<Rightarrow> RequestSurface" where
  "edit_field key t s =
     s\<lparr>rs_editors := (rs_editors s)(key := map_option (\<lambda>editor. editor\<lparr>fe_text := t\<rparr>) (rs_editors s key))\<rparr>"

definition edited_field :: "RequestSurface \<Rightarrow> string option" where
  "edited_field s =
     opt_filter (\<lambda>key. rs_editors s key \<noteq> None)
       (case rs_kind s of
          UserInput \<Rightarrow> map_option surface_question_id (get_at (surface_questions s) (rs_question_cursor s))
        | McpForm \<Rightarrow> get_at (mcp_field_names s) (rs_question_cursor s)
        | _ \<Rightarrow> None)"

subsection \<open>What is shown\<close>

definition concise_string_values :: "json option \<Rightarrow> string list" where
  "concise_string_values v =
     (case v of
        Some (JString s) \<Rightarrow> [s]
      | Some (JArray vs) \<Rightarrow> filter_map as_str vs
      | _ \<Rightarrow> [])"

text \<open>\<open>lower_char\<close> is \<open>char::to_lowercase\<close>.\<close>

definition spaced_lower :: "host \<Rightarrow> (string \<Rightarrow> string) \<Rightarrow> string \<Rightarrow> string" where
  "spaced_lower h lower_char key =
     fold (\<lambda>character result.
       (if char_is_uppercase h character \<and> result \<noteq> [] then result @ '' '' else result) @ lower_char character)
       (chars key) []"

definition humanize_permission_key :: "host \<Rightarrow> (string \<Rightarrow> string) \<Rightarrow> string \<Rightarrow> string" where
  "humanize_permission_key h lower_char key =
     (case chars (spaced_lower h lower_char key) of
        first # characters \<Rightarrow> char_to_uppercase h first @ concat characters
      | [] \<Rightarrow> ''Permission'')"

definition file_system_rows :: "json \<Rightarrow> string list" where
  "file_system_rows file_system =
     (case as_object file_system of
        None \<Rightarrow> [''File system access'']
      | Some entries \<Rightarrow>
          concat (map (\<lambda>(key, label).
            let granted = concise_string_values (map_of entries key)
            in if granted = [] then [] else [label @ mid_dot @ join '', '' granted])
            [(''read'', ''Read''), (''write'', ''Write'')]) @
          (if entries \<noteq> [] \<and> map_of entries ''read'' = None \<and> map_of entries ''write'' = None
           then [''File system access''] else []))"

definition network_rows :: "json \<Rightarrow> string list" where
  "network_rows network =
     (let details = (case as_object network of
            Some entries \<Rightarrow>
              concat (map (\<lambda>key. concise_string_values (map_of entries key)) [''host'', ''hosts'', ''domains''])
          | None \<Rightarrow> concise_string_values (Some network))
      in if details = [] then
           [if unwrap_or (Option.bind (jget ''enabled'' network) as_bool) True
            then ''Network access'' else ''Network access disabled'']
         else [''Network'' @ mid_dot @ join '', '' details])"

definition semantic_permission_rows :: "host \<Rightarrow> (string \<Rightarrow> string) \<Rightarrow> json \<Rightarrow> string list" where
  "semantic_permission_rows h lower_char raw =
     (case Option.bind (jget ''permissions'' raw) as_object of
        None \<Rightarrow> []
      | Some permissions \<Rightarrow>
          (case map_of permissions ''fileSystem'' of Some v \<Rightarrow> file_system_rows v | None \<Rightarrow> []) @
          (case map_of permissions ''network'' of Some v \<Rightarrow> network_rows v | None \<Rightarrow> []) @
          map (\<lambda>key. humanize_permission_key h lower_char key @ '' access'')
            (filter (\<lambda>key. key \<notin> {''fileSystem'', ''network''}) (map fst permissions)))"

text \<open>The first line of an approval, with whether it is a command, and the lines below it.\<close>

definition summary_primary :: "string \<Rightarrow> json \<Rightarrow> string option \<times> bool" where
  "summary_primary method_name raw =
     (if method_name = ''item/commandExecution/requestApproval'' then
        (Option.bind (jget ''command'' raw) as_str, True)
      else if method_name = ''execCommandApproval'' then
        (map_option (\<lambda>parts. join '' '' (filter_map as_str parts)) (Option.bind (jget ''command'' raw) as_array), True)
      else if method_name = ''item/fileChange/requestApproval'' then
        (map_option (\<lambda>root. ''Write access under '' @ root) (Option.bind (jget ''grantRoot'' raw) as_str), False)
      else if method_name = ''applyPatchApproval'' then
        (map_option (\<lambda>changes. case changes of
             [] \<Rightarrow> ''Apply requested patch''
           | [(file, _)] \<Rightarrow> ''Change '' @ file
           | _ \<Rightarrow> ''Change '' @ dec (length changes) @ '' files'')
           (Option.bind (jget ''fileChanges'' raw) as_object), False)
      else if method_name = ''item/permissions/requestApproval'' then
        (Some ''Additional permissions requested'', False)
      else (None, False))"

definition summary_lines :: "host \<Rightarrow> (string \<Rightarrow> string) \<Rightarrow> string \<Rightarrow> json \<Rightarrow> string list" where
  "summary_lines h lower_char method_name raw =
     (let present = (\<lambda>x. case x of Some t \<Rightarrow> [t] | None \<Rightarrow> [])
      in present (fst (summary_primary method_name raw)) @
         present (opt_filter (\<lambda>cwd. cwd \<noteq> []) (Option.bind (jget ''cwd'' raw) as_str)) @
         present (opt_filter (\<lambda>reason. trim reason \<noteq> []) (Option.bind (jget ''reason'' raw) as_str)) @
         (if method_name = ''item/permissions/requestApproval''
          then semantic_permission_rows h lower_char raw else []))"

subsection \<open>The height of a surface\<close>

definition clamp :: "nat \<Rightarrow> nat \<Rightarrow> nat \<Rightarrow> nat" where
  "clamp lo hi n = (if n < lo then lo else if hi < n then hi else n)"

definition estimated_text_rows :: "string \<Rightarrow> nat" where
  "estimated_text_rows t = clamp 1 6 ((char_count t + 71) div 72)"

definition text_rows_at :: "string \<Rightarrow> nat \<Rightarrow> json \<Rightarrow> nat" where
  "text_rows_at key absent v =
     (case Option.bind (jget key v) as_str of Some t \<Rightarrow> estimated_text_rows t | None \<Rightarrow> absent)"

definition description_rows :: "json \<Rightarrow> nat" where
  "description_rows v =
     (case opt_filter (\<lambda>d. d \<noteq> []) (Option.bind (jget ''description'' v) as_str) of
        Some d \<Rightarrow> estimated_text_rows d | None \<Rightarrow> 0)"

definition question_rows :: "json \<Rightarrow> nat" where
  "question_rows question =
     2 + text_rows_at ''question'' 1 question +
     sum_list (map (\<lambda>option. 1 + description_rows option)
       (unwrap_or (Option.bind (jget ''options'' question) as_array) [])) +
     (if accepts_text question then 3 else 0)"

definition field_rows :: "host \<Rightarrow> json \<Rightarrow> nat" where
  "field_rows h schema =
     4 + description_rows schema + (if mcp_form_field_hint h schema \<noteq> [] then 1 else 0)"

definition request_surface_rows :: "host \<Rightarrow> (string \<Rightarrow> string) \<Rightarrow> string \<Rightarrow> json \<Rightarrow> nat" where
  "request_surface_rows h lower_char method_name raw =
     (case surface_kind method_name raw of
        Approval \<Rightarrow>
          clamp 6 24
            (4 + sum_list (map (\<lambda>key. text_rows_at key 0 raw) [''command'', ''cwd'', ''reason'', ''grantRoot'']) +
             length (semantic_permission_rows h lower_char raw) +
             (if 3 < length (request_choices method_name raw) then 1 else 0))
      | UserInput \<Rightarrow>
          clamp 8 96
            (5 + sum_list (map question_rows (unwrap_or (Option.bind (jget ''questions'' raw) as_array) [])))
      | McpForm \<Rightarrow>
          clamp 8 96
            (6 + text_rows_at ''message'' 1 raw +
             (case Option.bind (pointer [''requestedSchema'', ''properties''] raw) as_object of
                Some properties \<Rightarrow> sum_list (map (field_rows h \<circ> snd) properties) | None \<Rightarrow> 0))
      | McpUrl \<Rightarrow> clamp 10 24 (8 + sum_list (map (\<lambda>key. text_rows_at key 0 raw) [''message'', ''url'']))
      | McpUnsupported \<Rightarrow> 8)"

lemma clamp_bounds: "lo \<le> hi \<Longrightarrow> lo \<le> clamp lo hi n \<and> clamp lo hi n \<le> hi"
  by (simp add: clamp_def)

lemma surface_rows_lemma:
  "6 \<le> request_surface_rows h lower_char method_name raw \<and> request_surface_rows h lower_char method_name raw \<le> 96"
proof -
  have "6 \<le> clamp lo hi n \<and> clamp lo hi n \<le> 96" if "6 \<le> lo" "lo \<le> hi" "hi \<le> 96" for lo hi n
    using clamp_bounds [OF that(2), of n] that by linarith
  then show ?thesis
    unfolding request_surface_rows_def by (cases "surface_kind method_name raw") simp_all
qed

subsection \<open>Runs of a surface\<close>

text \<open>
  A surface is made for the payload that the item of the request keeps (\<open>rs_raw\<close> is the bounded
  payload). The steps below are those of surfaces whose payload is itself a request for the user;
  \<open>omitted_questions_unanswerable\<close> is about the payloads that bounding leaves out.
\<close>

definition request_shown :: "string \<Rightarrow> json \<Rightarrow> bool" where
  "request_shown method_name raw \<longleftrightarrow>
     json_ok raw \<and> (\<exists>selected. route_server_request method_name raw selected = Interactive)"

inductive surface_step :: "'f floats \<Rightarrow> RequestSurface \<Rightarrow> Respond option \<Rightarrow> RequestSurface \<Rightarrow> bool"
  for fl where
  step_update: "request_shown m raw \<Longrightarrow> surface_step fl s None (update_request m raw s)"
| step_responding: "surface_step fl s None (set_responding b s)"
| step_vertical: "surface_step fl s None (move_vertical delta s)"
| step_horizontal: "surface_step fl s None (move_horizontal delta s)"
| step_choose: "surface_choose fl s = (s', r) \<Longrightarrow> surface_step fl s r s'"
| step_submit: "submit fl s = (s', r) \<Longrightarrow> surface_step fl s r s'"
| step_click_choice: "click_choice i s = (s', r) \<Longrightarrow> surface_step fl s r s'"
| step_click_option: "rs_kind s = UserInput \<Longrightarrow> surface_step fl s None (click_option i j s)"
| step_edit: "surface_step fl s None (edit_field key t s)"

inductive surface_reaches :: "'f floats \<Rightarrow> RequestSurface \<Rightarrow> bool" for fl where
  reaches_start: "request_shown m raw \<Longrightarrow> surface_reaches fl (new_surface item_key m raw)"
| reaches_step: "surface_reaches fl s \<Longrightarrow> surface_step fl s r s' \<Longrightarrow> surface_reaches fl s'"

definition question_count :: "RequestSurface \<Rightarrow> nat" where
  "question_count s = (case rs_kind s of
     UserInput \<Rightarrow> length (surface_questions s) | McpForm \<Rightarrow> length (mcp_field_names s) | _ \<Rightarrow> 0)"

definition cursors_ok :: "RequestSurface \<Rightarrow> bool" where
  "cursors_ok s \<longleftrightarrow> rs_question_cursor s \<le> question_count s - 1 \<and>
     rs_choice_cursor s \<le> length (surface_choices s) + choice_offset s - 1"

definition surface_ok :: "RequestSurface \<Rightarrow> bool" where
  "surface_ok s \<longleftrightarrow> request_shown (rs_method s) (rs_raw s) \<and> rs_kind s = surface_kind (rs_method s) (rs_raw s) \<and>
     cursors_ok s \<and> (\<forall>field \<in> set (surface_fields s). rs_editors s (fst field) \<noteq> None)"

text \<open>The request of a surface is what its method, parameters and kind say.\<close>

definition same_request :: "RequestSurface \<Rightarrow> RequestSurface \<Rightarrow> bool" where
  "same_request s t \<longleftrightarrow> rs_item_key s = rs_item_key t \<and> rs_method s = rs_method t \<and> rs_raw s = rs_raw t \<and>
     rs_kind s = rs_kind t"

lemma same_request_parts:
  assumes "same_request s t"
  shows "surface_questions s = surface_questions t" "mcp_field_names s = mcp_field_names t"
    "surface_choices s = surface_choices t" "choice_offset s = choice_offset t"
    "question_count s = question_count t" "surface_fields s = surface_fields t"
proof -
  show questions: "surface_questions s = surface_questions t" and names: "mcp_field_names s = mcp_field_names t"
    using assms by (simp_all add: same_request_def surface_questions_def mcp_field_names_def)
  show "surface_choices s = surface_choices t" "choice_offset s = choice_offset t"
    using assms by (simp_all add: same_request_def surface_choices_def choice_offset_def)
  show "question_count s = question_count t" "surface_fields s = surface_fields t"
    using assms unfolding question_count_def surface_fields_def questions names
    by (simp_all add: same_request_def)
qed

lemma surface_ok_same:
  assumes "same_request s t" "surface_ok t" "dom (rs_editors s) = dom (rs_editors t)" "cursors_ok s"
  shows "surface_ok s"
  using assms same_request_parts(6) [OF assms(1)]
  by (auto simp: surface_ok_def same_request_def domIff)

lemma ensure_editors_frame: "\<exists>editors. ensure_editors s = s\<lparr>rs_editors := editors\<rparr> \<and>
   (\<forall>field \<in> set (surface_fields s). editors (fst field) \<noteq> None) \<and> dom (rs_editors s) \<subseteq> dom editors"
proof -
  have "\<exists>editors. fold ensure_editor fields s = s\<lparr>rs_editors := editors\<rparr> \<and>
      (\<forall>field \<in> set fields. editors (fst field) \<noteq> None) \<and> dom (rs_editors s) \<subseteq> dom editors" for fields
  proof (induction fields arbitrary: s)
    case Nil
    show ?case by (intro exI [of _ "rs_editors s"]) simp
  next
    case (Cons field fields)
    obtain e where e: "ensure_editor field s = s\<lparr>rs_editors := e\<rparr>" "e (fst field) \<noteq> None" "dom (rs_editors s) \<subseteq> dom e"
    proof (cases "rs_editors s (fst field)")
      case None
      then show thesis by (intro that [of "(rs_editors s)(fst field \<mapsto> \<lparr>fe_text = [], fe_masked = snd field\<rparr>)"])
        (auto simp: ensure_editor_def)
    next
      case (Some editor)
      then show thesis by (intro that [of "rs_editors s"]) (auto simp: ensure_editor_def)
    qed
    from Cons.IH [of "s\<lparr>rs_editors := e\<rparr>"] obtain editors where
      "fold ensure_editor fields (s\<lparr>rs_editors := e\<rparr>) = s\<lparr>rs_editors := editors\<rparr>"
      "\<forall>field \<in> set fields. editors (fst field) \<noteq> None" "dom e \<subseteq> dom editors" by auto
    moreover from this e have "editors (fst field) \<noteq> None" by blast
    ultimately show ?case using e by (intro exI [of _ editors]) auto
  qed
  then show ?thesis by (simp add: ensure_editors_def)
qed

lemma move_cursor_bound: "move_cursor cursor delta count \<le> count - 1"
  by (simp add: move_cursor_def)

lemma get_at_lt: "get_at xs i = Some x \<Longrightarrow> i \<le> length xs - 1"
  by (auto simp: get_at_Some)

lemma start_ok:
  assumes "request_shown m raw"
  shows "surface_ok (new_surface item_key m raw)"
proof -
  let ?s = "\<lparr>rs_item_key = item_key, rs_method = m, rs_raw = raw, rs_kind = surface_kind m raw,
    rs_editors = Map.empty, rs_selected_answers = (\<lambda>_. None), rs_question_cursor = 0,
    rs_option_cursors = Map.empty, rs_choice_cursor = 0, rs_validation_error = None, rs_responding = False\<rparr>"
  obtain editors where e: "ensure_editors ?s = ?s\<lparr>rs_editors := editors\<rparr>"
    "\<forall>field \<in> set (surface_fields ?s). editors (fst field) \<noteq> None"
    using ensure_editors_frame by blast
  have "same_request (?s\<lparr>rs_editors := editors\<rparr>) ?s" by (simp add: same_request_def)
  from same_request_parts(6) [OF this] assms e show ?thesis
    by (simp add: new_surface_def surface_ok_def cursors_ok_def)
qed

lemma update_ok:
  assumes "request_shown m raw"
  shows "surface_ok (update_request m raw s)"
proof -
  let ?s = "s\<lparr>rs_kind := surface_kind m raw, rs_method := m, rs_raw := raw\<rparr>"
  obtain editors where e: "ensure_editors ?s = ?s\<lparr>rs_editors := editors\<rparr>"
    "\<forall>field \<in> set (surface_fields ?s). editors (fst field) \<noteq> None"
    using ensure_editors_frame by blast
  let ?t = "update_request m raw s"
  have same: "same_request ?t ?s" "same_request (?s\<lparr>rs_editors := editors\<rparr>) ?s"
    unfolding update_request_def e by (simp_all add: clamp_cursors_def same_request_def Let_def)
  have "rs_question_cursor ?t = min (rs_question_cursor s) (question_count (?s\<lparr>rs_editors := editors\<rparr>) - 1)"
    "rs_choice_cursor ?t = min (rs_choice_cursor s)
       (length (surface_choices (?s\<lparr>rs_editors := editors\<rparr>)) + choice_offset (?s\<lparr>rs_editors := editors\<rparr>) - 1)"
    "rs_editors ?t = editors"
    unfolding update_request_def e by (simp_all add: clamp_cursors_def question_count_def Let_def)
  then show ?thesis
    using assms e(2) same_request_parts [OF same(1)] same_request_parts [OF same(2)] same(1)
    by (auto simp: surface_ok_def cursors_ok_def same_request_def)
qed

lemma vertical_ok: "surface_ok s \<Longrightarrow> surface_ok (move_vertical delta s)"
proof -
  assume s: "surface_ok s"
  have "move_vertical delta s = s \<or>
      move_vertical delta s = s\<lparr>rs_question_cursor := move_cursor (rs_question_cursor s) delta (question_count s)\<rparr>"
    by (cases "rs_kind s") (simp_all add: move_vertical_def question_count_def)
  moreover have "surface_ok (s\<lparr>rs_question_cursor := move_cursor c delta (question_count s)\<rparr>)" for c
  proof -
    let ?t = "s\<lparr>rs_question_cursor := move_cursor c delta (question_count s)\<rparr>"
    have same: "same_request ?t s" by (simp add: same_request_def)
    show ?thesis
      using s same_request_parts [OF same] move_cursor_bound
      by (intro surface_ok_same [OF same s]) (simp_all add: cursors_ok_def surface_ok_def)
  qed
  ultimately show ?thesis using s by metis
qed

lemma horizontal_ok: "surface_ok s \<Longrightarrow> surface_ok (move_horizontal delta s)"
proof -
  assume s: "surface_ok s"
  let ?count = "length (surface_choices s) + choice_offset s"
  have "(\<exists>o'. move_horizontal delta s = s\<lparr>rs_option_cursors := o'\<rparr>) \<or>
      move_horizontal delta s = s \<or> move_horizontal delta s = s\<lparr>rs_choice_cursor := move_cursor (rs_choice_cursor s) delta ?count\<rparr>"
    by (cases "rs_kind s"; cases "get_at (surface_questions s) (rs_question_cursor s)")
      (auto simp: move_horizontal_def Let_def)
  moreover have "surface_ok (s\<lparr>rs_option_cursors := o'\<rparr>)" for o'
  proof -
    have same: "same_request (s\<lparr>rs_option_cursors := o'\<rparr>) s" by (simp add: same_request_def)
    show ?thesis
      using s same_request_parts [OF same]
      by (intro surface_ok_same [OF same s]) (simp_all add: cursors_ok_def surface_ok_def)
  qed
  moreover have "surface_ok (s\<lparr>rs_choice_cursor := move_cursor (rs_choice_cursor s) delta ?count\<rparr>)"
  proof -
    let ?t = "s\<lparr>rs_choice_cursor := move_cursor (rs_choice_cursor s) delta ?count\<rparr>"
    have same: "same_request ?t s" by (simp add: same_request_def)
    show ?thesis
      using s same_request_parts [OF same] move_cursor_bound
      by (intro surface_ok_same [OF same s]) (simp_all add: cursors_ok_def surface_ok_def)
  qed
  ultimately show ?thesis using s by auto
qed

lemma finish_frame:
  assumes "(case result of
     Inr (response, status) \<Rightarrow> (s\<lparr>rs_validation_error := None\<rparr>, Some (f response status))
   | Inl error \<Rightarrow> (s\<lparr>rs_validation_error := Some error\<rparr>, None)) = (s', r)"
  shows "(\<exists>e. s' = s\<lparr>rs_validation_error := e\<rparr>) \<and>
    (case r of None \<Rightarrow> True | Some r \<Rightarrow> \<exists>response status. result = Inr (response, status) \<and> r = f response status)"
proof (cases result)
  case (Inl e)
  then show ?thesis using assms by auto
next
  case (Inr p)
  then show ?thesis using assms by (cases p) auto
qed

text \<open>Specification of what may be emitted: a choice that is offered, or all that is asked for.\<close>

definition answers_request :: "'f floats \<Rightarrow> RequestSurface \<Rightarrow> Respond \<Rightarrow> bool" where
  "answers_request fl s r \<longleftrightarrow>
     re_item_key r = rs_item_key s \<and>
     ((\<exists>choice \<in> set (surface_choices s). r = from_choice (rs_item_key s) choice) \<or>
      rs_kind s = UserInput \<and> re_completed_status r = ''answered'' \<and>
        (let typed = typed_fields (map surface_question_id (surface_questions s)) s
         in (\<forall>question \<in> set (surface_questions s). question_answered (rs_selected_answers s) typed question) \<and>
            re_response r = JObject [(''answers'', JObject
              (map (answer_entry (rs_selected_answers s) typed) (surface_questions s)))]) \<or>
      rs_kind s = McpForm \<and> re_completed_status r = ''submitted'' \<and>
        form_accepted fl (unwrap_or (pointer [''requestedSchema''] (rs_raw s)) JNull) (re_response r))"

lemma submit_frame:
  assumes "submit fl s = (s', r)"
  shows "(\<exists>e. s' = s\<lparr>rs_validation_error := e\<rparr>) \<and>
    (case r of None \<Rightarrow> True | Some r \<Rightarrow> \<not> rs_responding s \<and> re_item_key r = rs_item_key s \<and>
       (rs_kind s = UserInput \<and> surface_user_input_response s = Inr (re_response r, re_completed_status r) \<or>
        rs_kind s = McpForm \<and> surface_mcp_form_response fl s = Inr (re_response r, re_completed_status r)))"
proof (cases "rs_responding s \<or> rs_kind s \<notin> {UserInput, McpForm}")
  case True
  then have "s' = s \<and> r = None"
    using assms by (cases "rs_kind s") (auto simp: submit_def Let_def split: if_splits)
  then show ?thesis by (auto intro: exI [of _ "rs_validation_error s"])
next
  case False
  let ?f = "\<lambda>response status. \<lparr>re_item_key = rs_item_key s, re_response = response, re_completed_status = status\<rparr>"
  let ?result = "if rs_kind s = UserInput then surface_user_input_response s else surface_mcp_form_response fl s"
  have "(case ?result of
     Inr (response, status) \<Rightarrow> (s\<lparr>rs_validation_error := None\<rparr>, Some (?f response status))
   | Inl error \<Rightarrow> (s\<lparr>rs_validation_error := Some error\<rparr>, None)) = (s', r)"
    using assms False by (auto simp: submit_def Let_def)
  from finish_frame [OF this] False show ?thesis by (cases r) auto
qed

lemma shown_questions:
  assumes "request_shown m raw" "surface_kind m raw = UserInput"
  shows "valid_user_input_questions (unwrap_or (Option.bind (jget ''questions'' raw) as_array) [])"
proof -
  obtain selected where "route_server_request m raw selected = Interactive"
    using assms(1) by (auto simp: request_shown_def)
  moreover have "m = ''item/tool/requestUserInput''"
    using assms(2) by (auto simp: surface_kind_def Let_def split: if_splits)
  ultimately show ?thesis
    by (auto simp: route_server_request_def split: if_splits option.splits)
qed

lemma json_ok_pointer: "json_ok v \<Longrightarrow> pointer path v = Some w \<Longrightarrow> json_ok w"
proof (induction path v rule: pointer.induct)
  case (2 t ts v)
  show ?case
  proof (cases v)
    case (JArray xs)
    then obtain i x where x: "parse_index t = Some i" "get_at xs i = Some x" "pointer ts x = Some w"
      using 2(4) by (auto simp: bind_eq_Some_conv)
    then have "json_ok x" using 2(3) JArray by (auto simp: list_all_iff get_at_Some)
    with 2(1) JArray x show ?thesis by blast
  next
    case (JObject kvs)
    then obtain x where x: "map_of kvs t = Some x" "pointer ts x = Some w"
      using 2(4) by (auto simp: bind_eq_Some_conv)
    then have "json_ok x" using 2(3) JObject by (auto simp: list_all_iff dest: map_of_SomeD)
    with 2(2) JObject x show ?thesis by blast
  qed (use 2(4) in simp_all)
qed simp

lemma submitted_answers:
  assumes "surface_ok s" "submit fl s = (s', Some r)"
  shows "answers_request fl s r"
proof -
  let ?schema = "unwrap_or (pointer [''requestedSchema''] (rs_raw s)) JNull"
  let ?typed = "typed_fields (map surface_question_id (surface_questions s)) s"
  have kind: "rs_kind s = surface_kind (rs_method s) (rs_raw s)" and shown: "request_shown (rs_method s) (rs_raw s)"
    using assms(1) by (simp_all add: surface_ok_def)
  have key: "re_item_key r = rs_item_key s" using submit_frame [OF assms(2)] by simp
  consider (user) "rs_kind s = UserInput" "surface_user_input_response s = Inr (re_response r, re_completed_status r)"
    | (form) "rs_kind s = McpForm" "surface_mcp_form_response fl s = Inr (re_response r, re_completed_status r)"
    using submit_frame [OF assms(2)] by auto
  then show ?thesis
  proof cases
    case user
    have valid: "valid_user_input_questions (surface_questions s)"
      using shown_questions [OF shown] kind user(1) by (simp add: surface_questions_def)
    have "build_user_input_response (surface_questions s) (Some (rs_selected_answers s)) ?typed = Inr (re_response r)"
      and "re_completed_status r = ''answered''"
      using user(2) by (auto simp: surface_user_input_response_def map_sum_def split: sum.splits)
    then show ?thesis
      using user(1) key user_input_response_iff [OF valid, of "Some (rs_selected_answers s)"]
      by (simp add: answers_request_def)
  next
    case form
    have built: "build_mcp_form_response fl ?schema (typed_fields (mcp_field_names s) s) = Inr (re_response r)"
      and status: "re_completed_status r = ''submitted''"
      using form(2) by (auto simp: surface_mcp_form_response_def map_sum_def split: sum.splits)
    have "json_ok (rs_raw s)" using shown by (simp add: request_shown_def)
    then have "json_ok ?schema"
      by (cases "pointer [''requestedSchema''] (rs_raw s)") (simp_all add: json_ok_pointer del: pointer.simps)
    from form_response_accepted [OF this built] have "form_accepted fl ?schema (re_response r)" .
    then show ?thesis using form(1) key status by (simp add: answers_request_def)
  qed
qed

lemma offered: "get_at (surface_choices s) i = Some choice \<Longrightarrow>
   answers_request fl s (from_choice (rs_item_key s) choice)"
  by (auto simp: answers_request_def get_at_Some from_choice_def)

lemma choose_frame:
  assumes "surface_choose fl s = (s', r)"
  shows "(\<exists>e a. s' = s\<lparr>rs_validation_error := e, rs_selected_answers := a\<rparr>) \<and>
    (case r of None \<Rightarrow> True | Some r \<Rightarrow> \<not> rs_responding s \<and>
       ((\<exists>i choice. get_at (surface_choices s) i = Some choice \<and> r = from_choice (rs_item_key s) choice) \<or>
        submit fl s = (s', Some r)))"
proof -
  have same: "\<exists>e a. s = s\<lparr>rs_validation_error := e, rs_selected_answers := a\<rparr>"
    by (intro exI [of _ "rs_validation_error s"] exI [of _ "rs_selected_answers s"]) simp
  have emit: ?thesis if "(s, map_option (from_choice (rs_item_key s)) (get_at (surface_choices s) i)) = (s', r)"
      "\<not> rs_responding s" for i
  proof (cases "get_at (surface_choices s) i")
    case None
    then show ?thesis using that same by auto
  next
    case (Some choice)
    then have r: "s' = s" "r = Some (from_choice (rs_item_key s) choice)" using that(1) by auto
    have "\<exists>i choice'. get_at (surface_choices s) i = Some choice' \<and>
        from_choice (rs_item_key s) choice = from_choice (rs_item_key s) choice'"
      using Some by blast
    then show ?thesis using same that(2) unfolding r by simp
  qed
  have none: ?thesis if "s' = s" "r = None" using that same by simp
  consider (off) "rs_responding s" | (user) "\<not> rs_responding s" "rs_kind s = UserInput"
    | (form) "\<not> rs_responding s" "rs_kind s = McpForm"
    | (other) "\<not> rs_responding s" "rs_kind s \<notin> {UserInput, McpForm}" by auto
  then show ?thesis
  proof cases
    case off
    then show ?thesis using assms none by (simp add: surface_choose_def)
  next
    case user
    show ?thesis
    proof (cases "get_at (surface_questions s) (rs_question_cursor s)")
      case None
      then show ?thesis using assms user none by (simp add: surface_choose_def)
    next
      case (Some question)
      have "(\<exists>a. s' = s\<lparr>rs_selected_answers := a, rs_validation_error := None\<rparr>) \<and> r = None \<or> s' = s \<and> r = None"
        using assms user Some by (auto simp: surface_choose_def Let_def split: option.splits)
      then show ?thesis
      proof
        assume "(\<exists>a. s' = s\<lparr>rs_selected_answers := a, rs_validation_error := None\<rparr>) \<and> r = None"
        then obtain a where "s' = s\<lparr>rs_selected_answers := a, rs_validation_error := None\<rparr>" "r = None" by blast
        then show ?thesis by (auto intro!: exI [of _ a] exI [of _ None])
      qed (use none in blast)
    qed
  next
    case form
    show ?thesis
    proof (cases "rs_choice_cursor s = 0")
      case True
      then have submit: "submit fl s = (s', r)" using assms form by (simp add: surface_choose_def)
      then obtain e where e: "s' = s\<lparr>rs_validation_error := e\<rparr>" using submit_frame by blast
      then have "\<exists>e a. s' = s\<lparr>rs_validation_error := e, rs_selected_answers := a\<rparr>"
        by (intro exI [of _ e] exI [of _ "rs_selected_answers s"]) simp
      then show ?thesis using submit form(1) by (cases r) simp_all
    next
      case False
      then have "(s, map_option (from_choice (rs_item_key s))
          (get_at (surface_choices s) (rs_choice_cursor s - 1))) = (s', r)"
        using assms form by (auto simp: surface_choose_def)
      then show ?thesis using emit form(1) by blast
    qed
  next
    case other
    then have "(s, map_option (from_choice (rs_item_key s))
        (get_at (surface_choices s) (min (rs_choice_cursor s) (length (surface_choices s) - 1)))) = (s', r)"
      using assms by (cases "rs_kind s") (auto simp: surface_choose_def)
    then show ?thesis using emit other(1) by blast
  qed
qed

lemma click_choice_frame:
  assumes "click_choice i s = (s', r)"
  shows "(s' = s \<and> r = None) \<or> (\<exists>choice. get_at (surface_choices s) i = Some choice \<and> \<not> rs_responding s \<and>
     s' = s\<lparr>rs_choice_cursor := i + choice_offset s\<rparr> \<and> r = Some (from_choice (rs_item_key s) choice))"
  using assms by (cases "get_at (surface_choices s) i") (auto simp: click_choice_def split: if_splits)

lemma click_option_frame:
  "click_option i j s = s \<or> (i < length (surface_questions s) \<and> (\<exists>o' a. click_option i j s =
     s\<lparr>rs_question_cursor := i, rs_option_cursors := o', rs_selected_answers := a, rs_validation_error := None\<rparr>))"
  unfolding click_option_def by (auto simp: get_at_Some bind_eq_Some_conv split: option.splits)

lemma emitted_answers:
  assumes "surface_ok s" "surface_step fl s (Some r) s'"
  shows "\<not> rs_responding s \<and> answers_request fl s r"
  using assms(2)
proof cases
  case step_choose
  from choose_frame [OF step_choose] have "\<not> rs_responding s" and
    "(\<exists>i choice. get_at (surface_choices s) i = Some choice \<and> r = from_choice (rs_item_key s) choice) \<or>
      submit fl s = (s', Some r)" by simp_all
  then show ?thesis using offered submitted_answers [OF assms(1)] by blast
next
  case step_submit
  then show ?thesis using submit_frame [OF step_submit] submitted_answers [OF assms(1)] by auto
next
  case (step_click_choice i)
  then show ?thesis using click_choice_frame [OF step_click_choice] offered by auto
qed

lemma step_ok: 
  assumes "surface_step fl s r s'" "surface_ok s"
  shows "surface_ok s'"
  using assms
proof (induction rule: surface_step.induct)
  case (step_choose s s' r)
  then obtain e a where s': "s' = s\<lparr>rs_validation_error := e, rs_selected_answers := a\<rparr>"
    using choose_frame by blast
  have same: "same_request s' s" using s' by (simp add: same_request_def)
  show ?case using step_choose.prems s' same_request_parts [OF same]
    by (intro surface_ok_same [OF same]) (simp_all add: cursors_ok_def surface_ok_def)
next
  case (step_submit s s' r)
  then obtain e where s': "s' = s\<lparr>rs_validation_error := e\<rparr>" using submit_frame by blast
  have same: "same_request s' s" using s' by (simp add: same_request_def)
  show ?case using step_submit.prems s' same_request_parts [OF same]
    by (intro surface_ok_same [OF same]) (simp_all add: cursors_ok_def surface_ok_def)
next
  case (step_click_choice i s s' r)
  have "s' = s \<or> i < length (surface_choices s) \<and> s' = s\<lparr>rs_choice_cursor := i + choice_offset s\<rparr>"
    using click_choice_frame [OF step_click_choice.hyps] by (auto simp: get_at_Some)
  moreover have "surface_ok (s\<lparr>rs_choice_cursor := i + choice_offset s\<rparr>)" if "i < length (surface_choices s)"
  proof -
    have same: "same_request (s\<lparr>rs_choice_cursor := i + choice_offset s\<rparr>) s" by (simp add: same_request_def)
    show ?thesis using step_click_choice.prems that same_request_parts [OF same]
      by (intro surface_ok_same [OF same]) (simp_all add: cursors_ok_def surface_ok_def)
  qed
  ultimately show ?case using step_click_choice.prems by blast
next
  case (step_click_option s i j)
  note frame = click_option_frame [of i j s]
  moreover have "surface_ok (s\<lparr>rs_question_cursor := i, rs_option_cursors := o', rs_selected_answers := a,
      rs_validation_error := None\<rparr>)" if "i < length (surface_questions s)" "rs_kind s = UserInput" for o' a
  proof -
    let ?t = "s\<lparr>rs_question_cursor := i, rs_option_cursors := o', rs_selected_answers := a, rs_validation_error := None\<rparr>"
    have same: "same_request ?t s" by (simp add: same_request_def)
    show ?thesis using step_click_option.prems that same_request_parts [OF same]
      by (intro surface_ok_same [OF same]) (simp_all add: cursors_ok_def surface_ok_def question_count_def)
  qed
  ultimately show ?case using step_click_option by metis
next
  case (step_edit s key t)
  have same: "same_request (edit_field key t s) s" by (simp add: same_request_def edit_field_def)
  have "dom (rs_editors (edit_field key t s)) = dom (rs_editors s)"
    by (auto simp: edit_field_def)
  then show ?case using step_edit.prems same_request_parts [OF same]
    by (intro surface_ok_same [OF same]) (simp_all add: cursors_ok_def surface_ok_def edit_field_def)
next
  case (step_responding s b)
  have same: "same_request (set_responding b s) s" by (simp add: same_request_def set_responding_def)
  show ?case using step_responding.prems same_request_parts [OF same]
    by (intro surface_ok_same [OF same]) (simp_all add: cursors_ok_def surface_ok_def set_responding_def)
qed (simp_all add: update_ok vertical_ok horizontal_ok)

lemma reaches_ok: "surface_reaches fl s \<Longrightarrow> surface_ok s"
  by (induction rule: surface_reaches.induct) (auto intro: start_ok step_ok)

subsection \<open>Every request that is shown can be answered\<close>

inductive surface_run :: "'f floats \<Rightarrow> RequestSurface \<Rightarrow> RequestSurface \<Rightarrow> bool" for fl where
  run_done: "surface_run fl s s"
| run_next: "surface_step fl s None s' \<Longrightarrow> surface_run fl s' s'' \<Longrightarrow> surface_run fl s s''"

lemma run_trans: "surface_run fl s t \<Longrightarrow> surface_run fl t u \<Longrightarrow> surface_run fl s u"
  by (induction rule: surface_run.induct) (auto intro: run_next)

lemma run_reaches: "surface_run fl s t \<Longrightarrow> surface_reaches fl s \<Longrightarrow> surface_reaches fl t"
  by (induction rule: surface_run.induct) (auto intro: reaches_step)

text \<open>
  Answering one question: its first option and an empty field, or some text where there are no
  options.
\<close>

definition answer_question :: "nat \<Rightarrow> RequestSurface \<Rightarrow> RequestSurface" where
  "answer_question i s =
     (let question = surface_questions s ! i; q_id = surface_question_id question
      in if option_count question = 0 then edit_field q_id ''x'' s
         else edit_field q_id [] (click_option i 0 s))"

definition answered_at :: "nat \<Rightarrow> RequestSurface \<Rightarrow> bool" where
  "answered_at i s \<longleftrightarrow> question_answered (rs_selected_answers s)
     (typed_fields (map surface_question_id (surface_questions s)) s) (surface_questions s ! i)"

lemma valid_questions_id:
  "valid_questions ids qs \<Longrightarrow> i < length qs \<Longrightarrow>
     question_id (qs ! i) = Some (surface_question_id (qs ! i)) \<and> surface_question_id (qs ! i) \<notin> ids"
proof (induction qs arbitrary: ids i)
  case (Cons q qs)
  have head: "question_id q = Some (surface_question_id q) \<and> surface_question_id q \<notin> ids"
    using Cons.prems(1) by (auto simp: valid_question_def question_id_def surface_question_id_def
      opt_filter_def split: option.splits if_splits)
  then show ?case using Cons by (cases i) auto
qed simp

lemma valid_questions_distinct:
  "valid_questions ids qs \<Longrightarrow> distinct (map surface_question_id qs)"
proof (induction qs arbitrary: ids)
  case (Cons q qs)
  then have "surface_question_id q = the (question_id q)" 
    using valid_questions_id [of ids "q # qs" 0] by simp
  moreover have "surface_question_id (qs ! i) \<noteq> the (question_id q)" if "i < length qs" for i
    using Cons.prems valid_questions_id [OF _ that] by auto
  ultimately have "surface_question_id q \<notin> set (map surface_question_id qs)"
    by (fastforce simp: in_set_conv_nth)
  then show ?case using Cons by auto
qed simp

lemma valid_question_options:
  assumes "valid_questions ids qs" "question \<in> set qs"
  shows "length (question_options question) = option_count question \<and>
    (\<forall>options. Option.bind (jget ''options'' question) as_array = Some options \<longrightarrow>
       map (\<lambda>option. Option.bind (jget ''label'' option) as_str) options = map Some (question_options question))"
  using assms
proof (induction qs arbitrary: ids)
  case (Cons q qs)
  have labels: "map (\<lambda>option. Option.bind (jget ''label'' option) as_str) os =
      map Some (filter_map (\<lambda>option. Option.bind (jget ''label'' option) as_str) os)"
    if "list_all answerable_option os" for os
    using that by (induction os) (auto simp: answerable_option_def)
  show ?case
  proof (cases "question = q")
    case True
    have "list_all answerable_option os" if "Option.bind (jget ''options'' q) as_array = Some os" for os
      using Cons.prems(1) that by (auto simp: valid_question_def bind_eq_Some_conv is_null_def split: option.splits)
    then show ?thesis
      using labels True by (auto simp: question_options_def option_count_def split: option.splits)
        (metis length_map)
  next
    case False
    then show ?thesis using Cons by auto
  qed
qed simp

lemma answered_at_cong:
  assumes "same_request t s"
    and "rs_selected_answers t (surface_question_id (surface_questions s ! i)) =
      rs_selected_answers s (surface_question_id (surface_questions s ! i))"
    and "rs_editors t (surface_question_id (surface_questions s ! i)) =
      rs_editors s (surface_question_id (surface_questions s ! i))"
    and "question_id (surface_questions s ! i) = Some (surface_question_id (surface_questions s ! i))"
  shows "answered_at i t = answered_at i s"
  using assms same_request_parts(1) [OF assms(1)]
  by (simp add: answered_at_def question_answered_def typed_answer_def typed_fields_def)

lemma trim_one [simp]: "trim ''x'' = ''x''" "trim [] = []"
  by (simp_all add: trim_def trim_start_def trim_end_def in_bytes_def)

lemma answer_question_run:
  assumes "surface_ok s" "rs_kind s = UserInput" "i < length (surface_questions s)"
  defines "t \<equiv> answer_question i s"
  shows "surface_run fl s t" and "same_request t s" and "rs_responding t = rs_responding s"
    and "answered_at i t"
    and "\<And>j. j < length (surface_questions s) \<Longrightarrow> answered_at j s \<Longrightarrow> answered_at j t"
proof -
  let ?qs = "surface_questions s"
  let ?q = "?qs ! i"
  let ?id = "surface_question_id ?q"
  have ok: "valid_questions {} ?qs"
    using assms(1,2) shown_questions [of "rs_method s" "rs_raw s"]
    by (simp add: surface_ok_def surface_questions_def valid_user_input_questions_def)
  note id = valid_questions_id [OF ok assms(3)]
  have mem: "?q \<in> set ?qs" using assms(3) by simp
  note options = valid_question_options [OF ok mem]
  have *: "(\<exists>e a o' c v. t = s\<lparr>rs_editors := e, rs_selected_answers := a, rs_option_cursors := o',
        rs_question_cursor := c, rs_validation_error := v\<rparr> \<and>
      (\<forall>key. key \<noteq> ?id \<longrightarrow> e key = rs_editors s key \<and> a key = rs_selected_answers s key)) \<and>
    surface_run fl s t \<and> answered_at i t"
  proof (cases "option_count ?q = 0")
    case True
    then have t: "t = edit_field ?id ''x'' s" by (simp add: t_def answer_question_def)
    have "(?id, flag ''isSecret'' ?q) \<in> set (surface_fields s)"
      using True assms(2) mem by (auto simp: surface_fields_def accepts_text_def)
    then obtain e where e: "rs_editors s ?id = Some e" using assms(1) by (force simp: surface_ok_def)
    have same: "same_request t s" by (simp add: t same_request_def edit_field_def)
    have "question_options ?q = []" using True options by simp
    then have "answered_at i t"
      using same_request_parts(1) [OF same] id e mem
      by (simp add: answered_at_def question_answered_def typed_answer_def typed_fields_def t edit_field_def)
    moreover have "t = s\<lparr>rs_editors := rs_editors t, rs_selected_answers := rs_selected_answers s, rs_option_cursors := rs_option_cursors s,
        rs_question_cursor := rs_question_cursor s, rs_validation_error := rs_validation_error s\<rparr>"
      by (simp add: t edit_field_def)
    moreover have "rs_editors t key = rs_editors s key" if "key \<noteq> ?id" for key
      using that by (simp add: t edit_field_def)
    moreover have "surface_run fl s t" unfolding t by (rule run_next [OF step_edit run_done])
    ultimately show ?thesis by blast
  next
    case False
    then obtain os where os: "Option.bind (jget ''options'' ?q) as_array = Some os" "os \<noteq> []"
      by (auto simp: option_count_def split: option.splits)
    with options have "map (\<lambda>option. Option.bind (jget ''label'' option) as_str) os = map Some (question_options ?q)" by blast
    then have label: "Option.bind (jget ''label'' (os ! 0)) as_str = Some (question_options ?q ! 0)" "question_options ?q \<noteq> []"
      using os(2) by (cases os; cases "question_options ?q"; simp)+
    let ?c = "s\<lparr>rs_question_cursor := i, rs_option_cursors := (rs_option_cursors s)(?id \<mapsto> 0),
        rs_selected_answers := (rs_selected_answers s)(?id \<mapsto> [question_options ?q ! 0]), rs_validation_error := None\<rparr>"
    have click: "click_option i 0 s = ?c"
      using os label assms(3) by (simp add: click_option_def)
    have t: "t = edit_field ?id [] ?c" using False by (simp add: t_def answer_question_def click Let_def)
    have same: "same_request t s" by (simp add: t same_request_def edit_field_def)
    have "answered_at i t"
      using same_request_parts(1) [OF same] id mem label(2)
      by (cases "rs_editors s ?id")
        (simp_all add: answered_at_def question_answered_def typed_answer_def typed_fields_def t edit_field_def)
    moreover have "t = s\<lparr>rs_editors := rs_editors t, rs_selected_answers := rs_selected_answers t, rs_option_cursors := rs_option_cursors t,
        rs_question_cursor := rs_question_cursor t, rs_validation_error := rs_validation_error t\<rparr>"
      by (simp add: t edit_field_def)
    moreover have "\<forall>key. key \<noteq> ?id \<longrightarrow> rs_editors t key = rs_editors s key \<and> rs_selected_answers t key = rs_selected_answers s key"
      by (simp add: t edit_field_def)
    moreover have "surface_run fl s t"
      unfolding t click [symmetric]
      by (rule run_next [OF step_click_option [OF assms(2), of fl i 0]], rule run_next [OF step_edit run_done])
    ultimately show ?thesis
      by (intro conjI exI [of _ "rs_editors t"] exI [of _ "rs_selected_answers t"] exI [of _ "rs_option_cursors t"]
        exI [of _ "rs_question_cursor t"] exI [of _ "rs_validation_error t"])
  qed
  then show "surface_run fl s t" "answered_at i t" by blast+
  from * obtain e a o' c v where t: "t = s\<lparr>rs_editors := e, rs_selected_answers := a, rs_option_cursors := o',
        rs_question_cursor := c, rs_validation_error := v\<rparr>"
    "\<forall>key. key \<noteq> ?id \<longrightarrow> e key = rs_editors s key \<and> a key = rs_selected_answers s key" by blast
  then show same: "same_request t s" and "rs_responding t = rs_responding s" by (simp_all add: same_request_def)
  show "answered_at j t" if "j < length ?qs" "answered_at j s" for j
  proof (cases "j = i")
    case True
    then show ?thesis using * by blast
  next
    case False
    then have "surface_question_id (?qs ! j) \<noteq> ?id"
      using valid_questions_distinct [OF ok] that(1) assms(3) by (simp add: distinct_conv_nth)
    then have "answered_at j t = answered_at j s"
      using t valid_questions_id [OF ok that(1)] by (intro answered_at_cong [OF same]) simp_all
    then show ?thesis using that(2) by simp
  qed
qed

lemma answer_first_questions:
  assumes "surface_reaches fl s" "rs_kind s = UserInput" "\<not> rs_responding s" "k \<le> length (surface_questions s)"
  shows "\<exists>t. surface_run fl s t \<and> same_request t s \<and> \<not> rs_responding t \<and> (\<forall>i < k. answered_at i t)"
  using assms(4)
proof (induction k)
  case 0
  show ?case using assms(3) by (intro exI [of _ s]) (simp add: run_done same_request_def)
next
  case (Suc k)
  then obtain t where t: "surface_run fl s t" "same_request t s" "\<not> rs_responding t" "\<forall>i < k. answered_at i t"
    by auto
  have ok: "surface_ok t" "rs_kind t = UserInput" "k < length (surface_questions t)"
    using reaches_ok [OF run_reaches [OF t(1) assms(1)]] t(2) assms(2) Suc.prems same_request_parts(1) [OF t(2)]
    by (simp_all add: same_request_def)
  note next_one = answer_question_run [OF ok]
  let ?u = "answer_question k t"
  have "answered_at i ?u" if "i < Suc k" for i
    using next_one(4) next_one(5) [of i] t(4) that ok(3) by (cases "i = k") auto
  moreover have "same_request ?u s" using next_one(2) t(2) by (simp add: same_request_def)
  moreover have "\<not> rs_responding ?u" using next_one(3) t(3) by simp
  ultimately show ?case using run_trans [OF t(1) next_one(1)] by blast
qed

lemma shown_choices:
  assumes "request_shown m raw" "surface_kind m raw \<noteq> UserInput"
  shows "request_choices m raw \<noteq> []"
proof -
  obtain selected where route: "route_server_request m raw selected = Interactive"
    using assms(1) by (auto simp: request_shown_def)
  have "m \<noteq> ''item/tool/requestUserInput''" using assms(2) by (auto simp: surface_kind_def)
  have "m \<in> {''item/commandExecution/requestApproval'', ''item/fileChange/requestApproval'', ''applyPatchApproval'',
      ''execCommandApproval'', ''mcpServer/elicitation/request'', ''item/permissions/requestApproval''}"
  proof (rule ccontr)
    assume "\<not> ?thesis"
    then show False
      using route \<open>m \<noteq> ''item/tool/requestUserInput''\<close>
      by (simp add: route_server_request_def split: if_splits)
  qed
  then consider "m = ''item/commandExecution/requestApproval''" | "m = ''item/fileChange/requestApproval''"
    | "m = ''applyPatchApproval''" | "m = ''execCommandApproval''" | "m = ''mcpServer/elicitation/request''"
    | "m = ''item/permissions/requestApproval''"
    by (elim insertE emptyE)
  then show ?thesis
  proof cases
    case 1
    with route show ?thesis using command_choices_exact [of raw selected] by simp
  next
    case 6
    then show ?thesis by (simp add: request_choices_def permission_choices_def Let_def)
  qed (simp_all add: request_choices_def)
qed

lemma surface_answerable:
  assumes "surface_reaches fl s" "\<not> rs_responding s"
  shows "\<exists>t r u. surface_run fl s t \<and> same_request t s \<and> surface_step fl t (Some r) u \<and> answers_request fl t r"
proof (cases "rs_kind s = UserInput")
  case True
  let ?n = "length (surface_questions s)"
  obtain t where t: "surface_run fl s t" "same_request t s" "\<not> rs_responding t" "\<forall>i < ?n. answered_at i t"
    using answer_first_questions [OF assms(1) True assms(2), of ?n] by auto
  have ok: "surface_ok t" using reaches_ok [OF run_reaches [OF t(1) assms(1)]] .
  have kind: "rs_kind t = UserInput" using t(2) True by (simp add: same_request_def)
  have valid: "valid_user_input_questions (surface_questions t)"
    using shown_questions [of "rs_method t" "rs_raw t"] ok kind by (simp add: surface_ok_def surface_questions_def)
  let ?typed = "typed_fields (map surface_question_id (surface_questions t)) t"
  have "\<forall>question \<in> set (surface_questions t). question_answered (rs_selected_answers t) ?typed question"
    using t(4) same_request_parts(1) [OF t(2)] by (auto simp: in_set_conv_nth answered_at_def)
  then obtain response where "build_user_input_response (surface_questions t) (Some (rs_selected_answers t)) ?typed = Inr response"
    using user_input_response_iff [OF valid, of "Some (rs_selected_answers t)" ?typed] by auto
  then have "surface_user_input_response t = Inr (response, ''answered'')"
    by (simp add: surface_user_input_response_def)
  then have "submit fl t = (t\<lparr>rs_validation_error := None\<rparr>,
      Some \<lparr>re_item_key = rs_item_key t, re_response = response, re_completed_status = ''answered''\<rparr>)"
    using t(3) kind by (simp add: submit_def)
  from step_submit [OF this] show ?thesis using t(1,2) emitted_answers [OF ok] by blast
next
  case False
  have ok: "surface_ok s" using reaches_ok [OF assms(1)] .
  then have "surface_choices s \<noteq> []"
    using False shown_choices by (simp add: surface_ok_def surface_choices_def)
  then have "click_choice 0 s = (s\<lparr>rs_choice_cursor := 0 + choice_offset s\<rparr>,
      Some (from_choice (rs_item_key s) (surface_choices s ! 0)))"
    using assms(2) by (simp add: click_choice_def)
  from step_click_choice [OF this] show ?thesis
    using emitted_answers [OF ok] run_done [of fl s] by (metis same_request_def)
qed

text \<open>
  The surface shows the payload that the item keeps. Of parameters over the limit that is an object
  without questions, and a surface for input without questions sends nothing.
\<close>

lemma new_surface_request:
  "rs_method (new_surface item_key m raw) = m" "rs_raw (new_surface item_key m raw) = raw"
  "rs_kind (new_surface item_key m raw) = surface_kind m raw"
proof -
  have frame: "rs_method (ensure_editors s) = rs_method s" "rs_raw (ensure_editors s) = rs_raw s"
    "rs_kind (ensure_editors s) = rs_kind s" for s
    using ensure_editors_frame [of s] by auto
  show "rs_method (new_surface item_key m raw) = m" "rs_raw (new_surface item_key m raw) = raw"
    "rs_kind (new_surface item_key m raw) = surface_kind m raw"
    by (simp_all add: new_surface_def frame)
qed

lemma no_questions_no_response:
  assumes "rs_kind t = UserInput" "surface_questions t = []" "surface_choices t = []"
  shows "\<not> surface_step fl t (Some r) u"
proof
  have no_submit: "submit fl t \<noteq> (u, Some r)"
    using assms by (auto simp: submit_def surface_user_input_response_def build_user_input_response_def)
  assume "surface_step fl t (Some r) u"
  then show False
  proof cases
    case step_choose
    from choose_frame [OF this] no_submit assms(3) show False by (auto simp: get_at_Some)
  next
    case step_submit
    then show False using no_submit by simp
  next
    case step_click_choice
    then show False using assms(3) by (auto simp: click_choice_def get_at_Some split: option.splits if_splits)
  qed
qed

lemma omitted_questions_unanswerable:
  assumes "RAW_PAYLOAD_LIMIT < serialized_size h (trim_large_json_values params)"
    "same_request t (new_surface item_key ''item/tool/requestUserInput'' (bounded_raw_payload h params))"
  shows "\<not> surface_step fl t (Some r) u"
proof (rule no_questions_no_response)
  have "jget ''questions'' (bounded_raw_payload h params) = None"
    using assms(1) by (simp add: bounded_raw_payload_def Let_def jget_def)
  then show "surface_questions t = []" using assms(2) by (simp add: surface_questions_def same_request_def new_surface_request)
  show "rs_kind t = UserInput" "surface_choices t = []"
    using assms(2) by (simp_all add: same_request_def surface_kind_def surface_choices_def request_choices_def new_surface_request)
qed

subsection \<open>Properties\<close>


definition no_floats :: "nat floats" where
  "no_floats = \<lparr>f64_parse = (\<lambda>_. None), f64_of = (\<lambda>_. 0), f64_to = (\<lambda>_. None), f64_less = (<)\<rparr>"




text \<open>
  C10. A request that is shown can be answered when what the item keeps of it is still a request for
  the user, as it is whenever bounding leaves the parameters as they are: from any state that such a
  surface reaches, unless a response is on its way, a sequence of steps of the user leads to a
  response that answers the request, without a change of the request in between. A request for
  input that is over the limit of the payload is shown as well, but the item keeps only a notice of
  the omission: no step of any state of that surface sends a response.
\<close>

theorem shown_request_answerable:
  "(surface_reaches fl s \<and> \<not> rs_responding s \<longrightarrow>
      (\<exists>t r u. surface_run fl s t \<and> same_request t s \<and> surface_step fl t (Some r) u \<and> answers_request fl t r)) \<and>
   (RAW_PAYLOAD_LIMIT < serialized_size h (trim_large_json_values params) \<and>
    same_request t (new_surface item_key ''item/tool/requestUserInput'' (bounded_raw_payload h params)) \<longrightarrow>
      \<not> surface_step fl t (Some r) u)"
  using surface_answerable omitted_questions_unanswerable by blast

lemma ensure_editors_responding [simp]: "rs_responding (ensure_editors s) = rs_responding s"
proof -
  obtain editors where "ensure_editors s = s\<lparr>rs_editors := editors\<rparr>" using ensure_editors_frame by blast
  then show ?thesis by simp
qed

lemma new_surface_free: "\<not> rs_responding (new_surface item_key m raw)"
  by (simp add: new_surface_def)

definition question_surface :: RequestSurface where
  "question_surface = new_surface ''k'' ''item/tool/requestUserInput'' (JObject [(''questions'', JArray
     [JObject [(''id'', JString ''q''), (''header'', JString ''h''), (''question'', JString ''why'')]])])"

lemma question_surface_reached: "surface_reaches no_floats question_surface"
  unfolding question_surface_def
  by (rule reaches_start) (auto simp: request_shown_def route_server_request_def request_matches_thread_def jget_def
    valid_user_input_questions_def valid_question_def question_id_def intro!: exI [of _ None])

definition wide_host :: host where
  "wide_host = tiny_host\<lparr>json_to_vec := (\<lambda>_. Some (replicate 300000 CHR 0x20))\<rparr>"

theorem shown_request_answerable_witness:
  "(\<exists>t r u. surface_run no_floats question_surface t \<and> same_request t question_surface \<and>
     surface_step no_floats t (Some r) u \<and> answers_request no_floats t r) \<and>
   (\<forall>r u. \<not> surface_step no_floats
       (new_surface ''k'' ''item/tool/requestUserInput'' (bounded_raw_payload wide_host (rs_raw question_surface)))
       (Some r) u)"
  apply (rule conjI)
   apply (rule shown_request_answerable [THEN conjunct1, THEN mp])
   apply (rule conjI [OF question_surface_reached])
   apply (simp add: question_surface_def new_surface_free)
  apply (intro allI)
  apply (rule shown_request_answerable [where h = wide_host and params = "rs_raw question_surface" and item_key = "''k''",
      THEN conjunct2, THEN mp])
  apply (rule conjI)
   apply (simp add: wide_host_def serialized_size_def RAW_PAYLOAD_LIMIT_def)
  apply (simp add: same_request_def)
  done

text \<open>
  An approval of permissions can show nothing of what it grants. When the keys \<open>read\<close> and \<open>write\<close>
  are there without paths, for example \<open>null\<close>, the list of entries gets no row, while the choice
  to allow sends all of it back. (Only where both keys are absent is there a row for the whole.)
\<close>

lemma permission_without_row:
  "let permissions = JObject [(''fileSystem'', JObject [(''read'', JNull), (''write'', JNull), (''entries'', entries)])];
       raw = JObject [(''permissions'', permissions)]
   in route_server_request ''item/permissions/requestApproval'' raw None = Interactive \<and>
      semantic_permission_rows h lower_char raw = [] \<and>
      (\<exists>choice \<in> set (request_choices ''item/permissions/requestApproval'' raw).
         rc_response choice = scoped_permissions permissions ''session'' \<and> grants (rc_response choice))"
  by (simp add: Let_def route_server_request_def request_matches_thread_def jget_def semantic_permission_rows_def
    file_system_rows_def concise_string_values_def request_choices_def permission_choices_def scoped_permissions_def
    grants_def)

end
