(* ===== verification/FoldedSearch.thy ===== *)
theory FoldedSearch
  imports Items
begin

text \<open>
  The search of the application over the transcript (\<open>crates/harness_app/src/main.rs\<close>): the matcher
  that streams folded characters through the algorithm of Knuth, Morris and Pratt and maps
  its matches back to byte ranges of the source, the ranges that are painted, the snippets of the
  results and the list of matching items.
\<close>

subsection \<open>The matcher\<close>

text \<open>
  The inner loop of both passes, \<open>while k > 0 && q[k] != c { k = prefix[k - 1] }\<close>. An index out
  of range is a panic; a run that does not end has no value either.
\<close>

partial_function (option) fall_back :: "'a list \<Rightarrow> nat list \<Rightarrow> 'a \<Rightarrow> nat \<Rightarrow> nat option" where
  "fall_back q table c k =
     (if k = 0 then Some 0
      else Option.bind (get_at q k) (\<lambda>x.
        if x = c then Some k
        else Option.bind (get_at table (k - 1)) (fall_back q table c)))"

definition prefix_entry :: "'a list \<Rightarrow> nat \<Rightarrow> nat list option \<Rightarrow> nat list option" where
  "prefix_entry q index table =
     do { table \<leftarrow> table;
          candidate \<leftarrow> get_at table (index - 1);
          c \<leftarrow> get_at q index;
          candidate \<leftarrow> fall_back q table c candidate;
          x \<leftarrow> get_at q candidate;
          Some (table[index := if c = x then candidate + 1 else candidate]) }"

definition prefix_table :: "'a list \<Rightarrow> nat list option" where
  "prefix_table q = fold (prefix_entry q) [1 ..< length q] (Some (replicate (length q) 0))"

text \<open>
  The loop over the stream of folded characters with the byte ranges of their sources. The
  two nested loops of the source are one here: \<open>break 'source\<close> leaves both.
\<close>

fun match_stream ::
  "'a list \<Rightarrow> nat list \<Rightarrow> nat \<Rightarrow> ((nat \<times> nat) \<times> 'a) list \<Rightarrow>
   (nat \<times> nat) list \<Rightarrow> nat \<Rightarrow> (nat \<times> nat) list \<Rightarrow> (nat \<times> nat) list option" where
  "match_stream q table limit [] window matched ranges = Some ranges"
| "match_stream q table limit ((source, c) # stream) window matched ranges =
     do { matched \<leftarrow> fall_back q table c matched;
          x \<leftarrow> get_at q matched;
          let matched = (if x = c then matched + 1 else matched);
              window = window @ [source];
              window = (if length window > length q then tl window else window)
          in if matched = length q then
               let ranges = (if window = [] then ranges
                     else let range = (fst (hd window), snd (last window))
                          in if ranges \<noteq> [] \<and> last ranges = range then ranges else ranges @ [range])
               in if length ranges = limit then Some ranges
                  else match_stream q table limit stream [] 0 ranges
             else match_stream q table limit stream window matched ranges }"

text \<open>\<open>char_indices\<close> with the range of each character.\<close>

fun char_ranges :: "nat \<Rightarrow> string list \<Rightarrow> ((nat \<times> nat) \<times> string) list" where
  "char_ranges start [] = []"
| "char_ranges start (g # gs) = ((start, start + length g), g) # char_ranges (start + length g) gs"

text \<open>\<open>char::to_lowercase\<close> gives the characters that a character folds to.\<close>

definition folded_stream :: "(string \<Rightarrow> string list) \<Rightarrow> string \<Rightarrow> ((nat \<times> nat) \<times> string) list" where
  "folded_stream lower_char content =
     concat (map (\<lambda>(source, g). map (\<lambda>c. (source, c)) (lower_char g)) (char_ranges 0 (chars content)))"

definition folded_match_byte_ranges ::
  "(string \<Rightarrow> string list) \<Rightarrow> string \<Rightarrow> string \<Rightarrow> nat \<Rightarrow> (nat \<times> nat) list option" where
  "folded_match_byte_ranges lower_char content query limit =
     (let folded_query = concat (map lower_char (chars (trim query)))
      in if folded_query = [] \<or> limit = 0 then Some []
         else do { table \<leftarrow> prefix_table folded_query;
                   match_stream folded_query table limit (folded_stream lower_char content) [] 0 [] })"

subsection \<open>Correctness of the matcher\<close>

text \<open>The longest prefix of the pattern that the text ends with.\<close>

definition best :: "'a list \<Rightarrow> 'a list \<Rightarrow> nat \<Rightarrow> bool" where
  "best q p k \<longleftrightarrow> k \<le> length q \<and> suffix (take k q) p \<and> (\<forall>j \<le> length q. suffix (take j q) p \<longrightarrow> j \<le> k)"

definition table_ok :: "'a list \<Rightarrow> nat list \<Rightarrow> nat \<Rightarrow> bool" where
  "table_ok q table n \<longleftrightarrow> length table = length q \<and> (\<forall>i < n. best q (tl (take (Suc i) q)) (table ! i))"

lemma suffix_shorter: "suffix a p \<Longrightarrow> suffix b p \<Longrightarrow> length a \<le> length b \<Longrightarrow> suffix a b"
  by (metis suffix_length_suffix)

lemma suffix_tl_less: "suffix a b \<Longrightarrow> length a < length b \<Longrightarrow> suffix a (tl b)"
  by (cases b) (auto simp: suffix_Cons)

lemma suffix_take_snoc:
  assumes "j < length q"
  shows "suffix (take (Suc j) q) (p @ [c]) \<longleftrightarrow> suffix (take j q) p \<and> q ! j = c"
  using assms by (auto simp: take_Suc_conv_app_nth)

text \<open>Falling back ends at the longest prefix that the next character extends.\<close>

lemma fall_back_best:
  assumes "table_ok q table n" "k < length q" "k \<le> n" "suffix (take k q) p"
    and "\<forall>j < length q. suffix (take j q) p \<longrightarrow> q ! j = c \<longrightarrow> j \<le> k"
  shows "\<exists>k'. fall_back q table c k = Some k' \<and> k' \<le> k \<and>
    best q (p @ [c]) (if q ! k' = c then k' + 1 else k')"
  using assms(2-5)
proof (induction k rule: less_induct)
  case (less k)
  have extend: "best q (p @ [c]) (Suc k)" if "q ! k = c"
    unfolding best_def
  proof (intro conjI allI impI)
    show "Suc k \<le> length q" using less.prems(1) by simp
    show "suffix (take (Suc k) q) (p @ [c])"
      using less.prems(1,3) that suffix_take_snoc by metis
    fix j assume j: "j \<le> length q" "suffix (take j q) (p @ [c])"
    show "j \<le> Suc k"
    proof (cases j)
      case (Suc i)
      then show ?thesis using j less.prems(4) suffix_take_snoc [of i q p c] by auto
    qed simp
  qed
  show ?case
  proof (cases "k = 0 \<or> q ! k = c")
    case True
    have "best q (p @ [c]) 0" if "q ! k \<noteq> c"
      unfolding best_def
    proof (intro conjI allI impI)
      fix j assume j: "j \<le> length q" "suffix (take j q) (p @ [c])"
      show "j \<le> 0"
      proof (cases j)
        case (Suc i)
        then have "i < length q" "suffix (take i q) p" "q ! i = c"
          using j suffix_take_snoc [of i q p c] by auto
        then have "i = 0" using less.prems(4) True that by auto
        then show ?thesis using \<open>q ! i = c\<close> True that by auto
      qed simp
    qed simp_all
    moreover have "fall_back q table c k = Some k"
      using True less.prems(1) by (auto simp: fall_back.simps get_at_in)
    ultimately show ?thesis using extend True by auto
  next
    case False
    let ?k = "table ! (k - 1)"
    have b: "best q (tl (take k q)) ?k" and l: "length table = length q"
      using assms(1) less.prems(2) False by (auto simp: table_ok_def dest: spec [of _ "k - 1"])
    have "length (take ?k q) \<le> length (tl (take k q))" "?k \<le> length q"
      using b by (auto simp: best_def dest: suffix_length_le)
    then have smaller: "?k < k" using less.prems(1) False by auto
    have "suffix (take ?k q) (take k q)"
      using b unfolding best_def by (meson suffix_order.trans suffix_tl)
    then have s: "suffix (take ?k q) p" using less.prems(3) by (rule suffix_order.trans)
    have "j \<le> ?k" if "j < length q" "suffix (take j q) p" "q ! j = c" for j
    proof -
      have "j < k" using that less.prems(4) False by (metis le_neq_implies_less)
      then have "suffix (take j q) (take k q)"
        using that less.prems(1,3) by (intro suffix_shorter [OF that(2) less.prems(3)]) simp
      then have "suffix (take j q) (tl (take k q))"
        using \<open>j < k\<close> less.prems(1) by (intro suffix_tl_less) simp_all
      then show ?thesis using b that(1) by (simp add: best_def)
    qed
    then have "\<exists>k'. fall_back q table c ?k = Some k' \<and> k' \<le> ?k \<and>
        best q (p @ [c]) (if q ! k' = c then k' + 1 else k')"
      using less.IH [OF smaller] less.prems(1,2) smaller s by simp
    moreover have "fall_back q table c k = fall_back q table c ?k"
      using False less.prems(1) l by (simp add: fall_back.simps [of q table c k] get_at_in)
    ultimately show ?thesis using smaller by auto
  qed
qed

lemma best_Nil: "best q [] 0"
  by (auto simp: best_def)

lemma tl_take_Suc: "0 < i \<Longrightarrow> i < length q \<Longrightarrow> tl (take (Suc i) q) = tl (take i q) @ [q ! i]"
  by (cases i; cases q) (simp_all add: take_Suc_conv_app_nth)

lemma best_lt: "best q (tl (take i q)) k \<Longrightarrow> 0 < i \<Longrightarrow> i \<le> length q \<Longrightarrow> k < i"
  unfolding best_def by (auto dest: suffix_length_le)

lemma prefix_entry_ok:
  assumes t: "table_ok q t i" and i: "0 < i" "i < length q"
  shows "\<exists>t'. prefix_entry q i (Some t) = Some t' \<and> table_ok q t' (Suc i)"
proof -
  let ?k = "t ! (i - 1)" and ?p = "tl (take i q)"
  have b: "best q ?p ?k" and l: "length t = length q"
    using t i by (auto simp: table_ok_def dest: spec [of _ "i - 1"])
  have k: "?k < i" using best_lt [OF b] i by simp
  have "suffix (take ?k q) ?p" "\<forall>j < length q. suffix (take j q) ?p \<longrightarrow> q ! j = q ! i \<longrightarrow> j \<le> ?k"
    using b by (auto simp: best_def)
  from fall_back_best [OF t _ _ this] k i obtain k' where k': "fall_back q t (q ! i) ?k = Some k'" "k' \<le> ?k"
    "best q (?p @ [q ! i]) (if q ! k' = q ! i then k' + 1 else k')" by auto
  let ?t = "t[i := if q ! i = q ! k' then k' + 1 else k']"
  have "prefix_entry q i (Some t) = Some ?t"
    using k k' i l by (simp add: prefix_entry_def get_at_in)
  moreover have "table_ok q ?t (Suc i)"
    using t i k'(3) l by (auto simp: table_ok_def less_Suc_eq nth_list_update tl_take_Suc split: if_splits)
  ultimately show ?thesis by blast
qed

lemma prefix_table_ok:
  assumes "q \<noteq> []"
  shows "\<exists>t. prefix_table q = Some t \<and> table_ok q t (length q)"
proof -
  have "1 \<le> n \<Longrightarrow> n \<le> length q \<Longrightarrow>
      \<exists>t. fold (prefix_entry q) [1 ..< n] (Some (replicate (length q) 0)) = Some t \<and> table_ok q t n" for n
  proof (induction n)
    case (Suc n)
    show ?case
    proof (cases "n = 0")
      case True
      then show ?thesis using Suc.prems by (cases q) (simp_all add: table_ok_def best_Nil)
    next
      case False
      then obtain t where t: "fold (prefix_entry q) [1 ..< n] (Some (replicate (length q) 0)) = Some t" "table_ok q t n"
        using Suc by auto
      from prefix_entry_ok [OF t(2)] False Suc.prems t(1) show ?thesis by auto
    qed
  qed simp
  from this [of "length q"] assms show ?thesis by (simp add: prefix_table_def Suc_le_eq)
qed

text \<open>
  The reference: scanning from the left, an occurrence is taken and the scan goes on behind it.
\<close>

function occurrences :: "'a list \<Rightarrow> ('r \<times> 'a) list \<Rightarrow> 'r list list" where
  "occurrences q xs =
     (if q = [] \<or> length xs < length q then []
      else if map snd (take (length q) xs) = q
      then map fst (take (length q) xs) # occurrences q (drop (length q) xs)
      else occurrences q (tl xs))"
  by pat_completeness auto
termination by (relation "measure (length \<circ> snd)") (auto simp: not_less neq_Nil_conv)

declare occurrences.simps [simp del]

definition span_of :: "(nat \<times> nat) list \<Rightarrow> nat \<times> nat" where
  "span_of window = (fst (hd window), snd (last window))"

definition occurs :: "'a list \<Rightarrow> 'a list \<Rightarrow> bool" where
  "occurs q p \<longleftrightarrow> (\<exists>a b. p = a @ q @ b)"

lemma no_occurrences: "\<not> occurs q (map snd xs) \<Longrightarrow> occurrences q xs = []"
proof (induction q xs rule: occurrences.induct)
  case (1 q xs)
  have "\<not> occurs q (map snd (tl xs))"
    using 1(3) unfolding occurs_def by (cases xs) (auto, metis append_Cons)
  moreover have "map snd (take (length q) xs) \<noteq> q"
    using 1(3) unfolding occurs_def by (metis append_Nil append_take_drop_id map_append)
  ultimately show ?case using 1(2) by (auto simp: occurrences.simps [of q xs])
qed

text \<open>Text in which the pattern ends for the first time gives its last characters.\<close>

lemma first_occurrence:
  assumes "q \<noteq> []" "map snd w = q" "\<not> occurs q (map snd (butlast (pre @ w)))"
  shows "occurrences q (pre @ w @ xs) = map fst w # occurrences q xs"
  using assms(3)
proof (induction pre)
  case Nil
  have "take (length q) (w @ xs) = w" "drop (length q) (w @ xs) = xs" using assms(2) by auto
  then show ?case using assms(1,2) by (auto simp: occurrences.simps [of q "w @ xs"])
next
  case (Cons x pre)
  have w: "w \<noteq> []" "length w = length q" using assms(1,2) by auto
  have "map snd (take (length q) ((x # pre) @ w @ xs)) \<noteq> q"
  proof
    assume h: "map snd (take (length q) ((x # pre) @ w @ xs)) = q"
    have "(x # pre) @ w @ xs = butlast ((x # pre) @ w) @ last w # xs" "length q \<le> length (butlast ((x # pre) @ w))"
      using w by (simp_all add: butlast_append)
    then have "take (length q) ((x # pre) @ w @ xs) = take (length q) (butlast ((x # pre) @ w))"
      by (simp only: take_append) simp
    then have "map snd (butlast ((x # pre) @ w)) = [] @ q @ map snd (drop (length q) (butlast ((x # pre) @ w)))"
      using h by (metis append_Nil append_take_drop_id map_append)
    then show False using Cons.prems unfolding occurs_def by blast
  qed
  moreover have "\<not> occurs q (map snd (butlast (pre @ w)))"
    using Cons.prems w unfolding occurs_def by (auto simp: butlast_append) (metis append_Cons)+
  ultimately show ?case
    using Cons.IH w assms(1) by (simp add: occurrences.simps [of q "x # pre @ w @ xs"])
qed

lemma remdups_adj_again: "remdups_adj (remdups_adj xs @ ys) = remdups_adj (xs @ ys)"
proof (induction xs rule: remdups_adj.induct)
  case (3 x y xs)
  have "remdups_adj (y # xs) = y # tl (remdups_adj (y # xs))" by simp
  then obtain t where t: "remdups_adj (y # xs) = y # t" by blast
  then show ?case using 3 by (cases "x = y") simp_all
qed simp_all

lemma remdups_adj_last:
  "remdups_adj (xs @ [y]) = (if xs \<noteq> [] \<and> last xs = y then remdups_adj xs else remdups_adj xs @ [y])"
  by (induction xs rule: remdups_adj.induct) auto

lemma prefix_remdups_adj: "prefix (remdups_adj xs) (remdups_adj (xs @ ys))"
proof (induction ys rule: rev_induct)
  case (snoc y ys)
  then show ?case using remdups_adj_last [of "xs @ ys" y] by (auto simp: prefix_def)
qed simp

lemma suffix_last: "suffix q ys \<Longrightarrow> drop (length ys - length q) ys = q \<and> length q \<le> length ys"
  by (auto simp: suffix_def)

text \<open>The loop, between two characters.\<close>

lemma match_stream_ok:
  assumes "table_ok q table (length q)" "q \<noteq> []"
    and "best q (map snd p) matched" "matched < length q" "\<not> occurs q (map snd p)"
    and "window = drop (length p - length q) (map fst p)" "remdups_adj ranges = ranges" "length ranges < limit"
  shows "match_stream q table limit xs window matched ranges =
    Some (take limit (remdups_adj (ranges @ map span_of (occurrences q (p @ xs)))))"
  using assms(3-8)
proof (induction xs arbitrary: p window matched ranges)
  case Nil
  then show ?case by (simp add: no_occurrences)
next
  case (Cons x xs)
  obtain source c where x: "x = (source, c)" by (cases x)
  let ?p = "p @ [x]"
  have "suffix (take matched q) (map snd p)" "\<forall>j < length q. suffix (take j q) (map snd p) \<longrightarrow> q ! j = c \<longrightarrow> j \<le> matched"
    using Cons.prems(1) by (auto simp: best_def)
  from fall_back_best [OF assms(1) Cons.prems(2) _ this] Cons.prems(2) obtain k where
    k: "fall_back q table c matched = Some k" "k \<le> matched"
      "best q (map snd ?p) (if q ! k = c then k + 1 else k)" by (auto simp: x)
  define m where "m = (if q ! k = c then k + 1 else k)"
  define w where "w = (let w = window @ [source] in if length w > length q then tl w else w)"
  have w: "w = drop (length ?p - length q) (map fst ?p)"
  proof -
    have "window @ [source] = drop (length p - length q) (map fst ?p)"
      using Cons.prems(4) by (simp add: x)
    moreover have "tl (drop k l) = drop (Suc k) l" for k and l :: "(nat \<times> nat) list"
      by (simp add: drop_Suc tl_drop)
    moreover define l where "l = map fst ?p"
    moreover from this have "length l = Suc (length p)" by simp
    ultimately show ?thesis
      unfolding w_def l_def [symmetric] by (cases "length p < length q") (simp_all add: Let_def Suc_diff_le not_less del: drop_append)
  qed
  have step: "match_stream q table limit (x # xs) window matched ranges =
      (if m = length q then
         let ranges = (if w = [] then ranges
               else let range = (fst (hd w), snd (last w))
                    in if ranges \<noteq> [] \<and> last ranges = range then ranges else ranges @ [range])
         in if length ranges = limit then Some ranges else match_stream q table limit xs [] 0 ranges
       else match_stream q table limit xs w m ranges)"
    using k(1,2) Cons.prems(2) by (simp add: x m_def w_def get_at_in Let_def)
  have new: "\<not> occurs q (map snd ?p)" if "\<not> suffix q (map snd ?p)"
  proof
    assume "occurs q (map snd ?p)"
    then obtain a b where ab: "map snd p @ [c] = a @ q @ b" by (auto simp: occurs_def x)
    show False
    proof (cases b rule: rev_cases)
      case Nil
      then have "suffix q (map snd ?p)" using ab by (simp add: x suffix_def)
      then show ?thesis using that by blast
    next
      case (snoc b' y)
      then have "map snd p = a @ q @ b'" using ab by simp
      then show ?thesis using Cons.prems(3) by (auto simp: occurs_def)
    qed
  qed
  show ?case
  proof (cases "m = length q")
    case False
    then have "\<not> suffix q (map snd ?p)" "m < length q"
      using k(3) by (auto simp: best_def m_def)
    then show ?thesis
      using Cons.IH [of ?p m w ranges] k(3) new w Cons.prems(5,6) step False by (simp add: m_def)
  next
    case True
    then have "suffix q (map snd ?p)" using k(3) by (simp add: best_def m_def split: if_splits)
    then have len: "length q \<le> length ?p" and dr: "map snd (drop (length ?p - length q) ?p) = q"
      using suffix_last [of q "map snd ?p"] by (simp_all only: length_map drop_map)
    let ?w = "drop (length ?p - length q) ?p" and ?pre = "take (length ?p - length q) ?p"
    have "occurrences q (?pre @ ?w @ xs) = map fst ?w # occurrences q xs"
      using assms(2) dr Cons.prems(3) by (intro first_occurrence) (simp_all only: append_take_drop_id butlast_snoc not_False_eq_True)
    moreover have "?pre @ ?w @ xs = p @ x # xs"
      by (simp only: append_assoc [symmetric] append_take_drop_id) simp
    moreover have "map fst ?w = w" by (simp only: w drop_map)
    ultimately have occ: "occurrences q (p @ x # xs) = w # occurrences q xs" by (simp only:)
    have "length w = length q" using len by (simp add: w del: drop_append)
    then have "w \<noteq> []" using assms(2) by auto
    define r where "r = (if ranges \<noteq> [] \<and> last ranges = span_of w then ranges else ranges @ [span_of w])"
    have r: "remdups_adj r = r" "r = remdups_adj (ranges @ [span_of w])"
      using Cons.prems(5) remdups_adj_last [of ranges "span_of w"] by (auto simp: r_def)
    have all: "remdups_adj (ranges @ map span_of (occurrences q (p @ x # xs))) =
        remdups_adj (r @ map span_of (occurrences q xs))"
      unfolding occ r(2) remdups_adj_again by simp
    have step': "match_stream q table limit (x # xs) window matched ranges =
        (if length r = limit then Some r else match_stream q table limit xs [] 0 r)"
      using step True \<open>w \<noteq> []\<close> by (simp add: r_def span_of_def)
    show ?thesis
    proof (cases "length r = limit")
      case True
      have "prefix r (remdups_adj (r @ map span_of (occurrences q xs)))"
        using prefix_remdups_adj [of r] r(1) by metis
      then show ?thesis using step' True all by (auto simp: prefix_def)
    next
      case False
      then have "length r < limit" using Cons.prems(6) by (auto simp: r_def)
      then show ?thesis
        using Cons.IH [of "[]" 0 "[]" r] step' False all r(1) assms(2)
        by (simp add: best_Nil occurs_def)
    qed
  qed
qed

lemma folded_match_eq:
  "folded_match_byte_ranges lower_char content query limit =
     (let folded_query = concat (map lower_char (chars (trim query)))
      in if folded_query = [] then Some []
         else Some (take limit (remdups_adj
           (map span_of (occurrences folded_query (folded_stream lower_char content))))))"
proof -
  let ?q = "concat (map lower_char (chars (trim query)))"
  show ?thesis
  proof (cases "?q = [] \<or> limit = 0")
    case False
    then obtain t where t: "prefix_table ?q = Some t" "table_ok ?q t (length ?q)"
      using prefix_table_ok by blast
    have "match_stream ?q t limit (folded_stream lower_char content) [] 0 [] =
        Some (take limit (remdups_adj ([] @ map span_of (occurrences ?q ([] @ folded_stream lower_char content)))))"
      using False by (intro match_stream_ok t(2)) (auto simp: best_Nil occurs_def)
    with t(1) False show ?thesis by (simp add: folded_match_byte_ranges_def Let_def del: concat_eq_Nil_conv)
  qed (auto simp: folded_match_byte_ranges_def Let_def)
qed

text \<open>
  C19. The streaming matcher is right. It never reads out of range and always ends, and the ranges it
  returns are those of a plain scan from the left for the folded query in the folded text, each from
  the start of its first source character to the end of its last, without neighbours that are equal,
  up to the limit.
\<close>

theorem folded_search_correct:
  "folded_match_byte_ranges lower_char content query limit =
     (let folded_query = concat (map lower_char (chars (trim query)))
      in if folded_query = [] then Some []
         else Some (take limit (remdups_adj
           (map span_of (occurrences folded_query (folded_stream lower_char content))))))"
  by (rule folded_match_eq)

end
