(* ===== verification/OutputPreview.thy ===== *)
theory OutputPreview
  imports FoldedSearch Document
begin

text \<open>
  How much of a long output a card shows (\<open>crates/harness_app/src/main.rs\<close>): the preview within a
  number of lines and bytes, the steps of expansion, and the sections and JSON tokens of the
  output of activities.
\<close>

subsection \<open>Limits\<close>

datatype OutputExpansion = Preview | Medium | Large | AllOutput

record OutputLimits =
  ol_lines :: nat
  ol_bytes :: nat

record StructuredOutputPreview =
  so_content :: string
  so_footer :: "string option"

record ProgressiveOutputToggle =
  to_label :: string
  to_next :: OutputExpansion

record ProgressiveOutputPresentation =
  po_content :: string
  po_toggle :: "ProgressiveOutputToggle option"

definition usize_max :: nat where "usize_max = 2 ^ 64 - 1"

definition STRUCTURED_OUTPUT_PREVIEW_LINES :: nat where "STRUCTURED_OUTPUT_PREVIEW_LINES = 10"
definition STRUCTURED_OUTPUT_PREVIEW_BYTES :: nat where "STRUCTURED_OUTPUT_PREVIEW_BYTES = 1200"
definition COMMAND_PREVIEW_LINES :: nat where "COMMAND_PREVIEW_LINES = 4"
definition COMMAND_PREVIEW_BYTES :: nat where "COMMAND_PREVIEW_BYTES = 800"
definition PROGRESSIVE_OUTPUT_MEDIUM_LINES :: nat where "PROGRESSIVE_OUTPUT_MEDIUM_LINES = 100"
definition PROGRESSIVE_OUTPUT_MEDIUM_BYTES :: nat where "PROGRESSIVE_OUTPUT_MEDIUM_BYTES = 16 * 1024"
definition PROGRESSIVE_OUTPUT_LARGE_LINES :: nat where "PROGRESSIVE_OUTPUT_LARGE_LINES = 500"
definition PROGRESSIVE_OUTPUT_LARGE_BYTES :: nat where "PROGRESSIVE_OUTPUT_LARGE_BYTES = 64 * 1024"

fun candidates_after :: "OutputExpansion \<Rightarrow> OutputExpansion list" where
  "candidates_after Preview = [Medium, Large, AllOutput]"
| "candidates_after Medium = [Large, AllOutput]"
| "candidates_after Large = [AllOutput]"
| "candidates_after AllOutput = [Preview]"

fun output_limits :: "OutputExpansion \<Rightarrow> nat \<Rightarrow> nat \<Rightarrow> OutputLimits" where
  "output_limits Preview preview_lines preview_bytes = \<lparr>ol_lines = preview_lines, ol_bytes = preview_bytes\<rparr>"
| "output_limits Medium preview_lines preview_bytes =
     \<lparr>ol_lines = PROGRESSIVE_OUTPUT_MEDIUM_LINES, ol_bytes = PROGRESSIVE_OUTPUT_MEDIUM_BYTES\<rparr>"
| "output_limits Large preview_lines preview_bytes =
     \<lparr>ol_lines = PROGRESSIVE_OUTPUT_LARGE_LINES, ol_bytes = PROGRESSIVE_OUTPUT_LARGE_BYTES\<rparr>"
| "output_limits AllOutput preview_lines preview_bytes = \<lparr>ol_lines = usize_max, ol_bytes = usize_max\<rparr>"

subsection \<open>Previews\<close>

text \<open>\<open>String::truncate\<close> at the last start of a character within the limit; off a boundary it panics.\<close>

definition preview_end :: "nat \<Rightarrow> string \<Rightarrow> nat" where
  "preview_end byte_limit preview =
     (let offsets = takeWhile (\<lambda>offset. offset \<le> byte_limit) (map (\<lambda>x. fst (fst x)) (char_ranges 0 (chars preview)))
      in if offsets = [] then 0 else last offsets)"

definition structured_output_preview_with_limits ::
  "string \<Rightarrow> string \<Rightarrow> nat \<Rightarrow> nat \<Rightarrow> StructuredOutputPreview option" where
  "structured_output_preview_with_limits content noun line_limit byte_limit =
     (let total_lines = length (lines content);
          preview = (if total_lines > line_limit then join [nl] (take line_limit (lines content)) else content);
          hidden_lines = total_lines - line_limit
      in do { (preview, truncated_bytes) \<leftarrow>
                (if length preview > byte_limit
                 then do { cut \<leftarrow> str_slice preview 0 (preview_end byte_limit preview); Some (cut, True) }
                 else Some (preview, False));
              Some \<lparr>so_content = preview, so_footer =
                (if hidden_lines > 0 then Some (''Show '' @ dec hidden_lines @ '' more '' @ noun @ '' lines'')
                 else if truncated_bytes then Some (''Show more '' @ noun) else None)\<rparr> })"

definition structured_output_preview :: "string \<Rightarrow> string \<Rightarrow> StructuredOutputPreview option" where
  "structured_output_preview content noun = structured_output_preview_with_limits content noun
     STRUCTURED_OUTPUT_PREVIEW_LINES STRUCTURED_OUTPUT_PREVIEW_BYTES"

definition content_fits_output_expansion :: "string \<Rightarrow> OutputExpansion \<Rightarrow> nat \<Rightarrow> nat \<Rightarrow> bool option" where
  "content_fits_output_expansion content expansion preview_lines preview_bytes =
     (let limits = output_limits expansion preview_lines preview_bytes
      in map_option (\<lambda>p. so_footer p = None)
           (structured_output_preview_with_limits content ''output'' (ol_lines limits) (ol_bytes limits)))"

text \<open>\<open>find\<close> with a test that may panic.\<close>

fun find_useful :: "(OutputExpansion \<Rightarrow> bool option) \<Rightarrow> OutputExpansion list \<Rightarrow> OutputExpansion option" where
  "find_useful fits [] = Some AllOutput"
| "find_useful fits (candidate # candidates) =
     (if candidate = AllOutput then Some AllOutput
      else do { fit \<leftarrow> fits candidate; if fit then find_useful fits candidates else Some candidate })"

definition next_useful_output_expansion ::
  "OutputExpansion \<Rightarrow> (OutputExpansion \<Rightarrow> bool option) \<Rightarrow> OutputExpansion option" where
  "next_useful_output_expansion current fits =
     (if current = AllOutput then Some Preview else find_useful fits (candidates_after current))"

definition progressive_output_label ::
  "string \<Rightarrow> nat \<Rightarrow> nat \<Rightarrow> nat \<Rightarrow> nat \<Rightarrow> OutputExpansion \<Rightarrow> string" where
  "progressive_output_label noun total_lines total_bytes preview_lines preview_bytes next_expansion =
     (let limits = output_limits next_expansion preview_lines preview_bytes
      in case next_expansion of
           Preview \<Rightarrow> ''Collapse to preview''
         | AllOutput \<Rightarrow> if total_lines > preview_lines then ''Show all '' @ dec total_lines @ '' '' @ noun
                  else ''Show all '' @ noun
         | _ \<Rightarrow> if total_lines > ol_lines limits then ''Show first '' @ dec (ol_lines limits) @ '' '' @ noun
                else if total_bytes > ol_bytes limits
                then ''Show first '' @ dec (ol_bytes limits div 1024) @ '' KiB '' @ noun
                else ''Show more '' @ noun)"

definition structured_output_presentation_with_limits ::
  "string \<Rightarrow> string \<Rightarrow> OutputExpansion \<Rightarrow> nat \<Rightarrow> nat \<Rightarrow> ProgressiveOutputPresentation option" where
  "structured_output_presentation_with_limits content noun expansion preview_lines preview_bytes =
     do { preview \<leftarrow> structured_output_preview_with_limits content noun preview_lines preview_bytes;
          if so_footer preview = None then Some \<lparr>po_content = content, po_toggle = None\<rparr>
          else
            let limits = output_limits expansion preview_lines preview_bytes
            in do { visible \<leftarrow> structured_output_preview_with_limits content noun (ol_lines limits) (ol_bytes limits);
                    next_expansion \<leftarrow> next_useful_output_expansion expansion
                      (\<lambda>candidate. content_fits_output_expansion content candidate preview_lines preview_bytes);
                    Some \<lparr>po_content = so_content visible, po_toggle = Some
                      \<lparr>to_label = progressive_output_label noun (length (lines content)) (length content)
                         preview_lines preview_bytes next_expansion,
                       to_next = next_expansion\<rparr>\<rparr> } }"

definition structured_output_presentation ::
  "string \<Rightarrow> string \<Rightarrow> OutputExpansion \<Rightarrow> ProgressiveOutputPresentation option" where
  "structured_output_presentation content noun expansion =
     structured_output_presentation_with_limits content noun expansion
       STRUCTURED_OUTPUT_PREVIEW_LINES STRUCTURED_OUTPUT_PREVIEW_BYTES"

definition command_output_for_display :: "string \<Rightarrow> string" where
  "command_output_for_display output = trim_end_matches {cr, nl} output"

subsection \<open>Previews are right\<close>

lemma char_ranges_split:
  "x \<in> set (char_ranges n gs) \<Longrightarrow> \<exists>a b. gs = a @ snd x # b \<and> fst x = (n + length (concat a), n + length (concat a) + length (snd x))"
proof (induction gs arbitrary: n)
  case (Cons g gs)
  show ?case
  proof (cases "x = ((n, n + length g), g)")
    case True
    then show ?thesis by (intro exI [of _ "[]"] exI [of _ gs]) simp
  next
    case False
    then obtain a b where "gs = a @ snd x # b" "fst x = (n + length g + length (concat a), n + length g + length (concat a) + length (snd x))"
      using Cons by fastforce
    then show ?thesis by (intro exI [of _ "g # a"] exI [of _ b]) simp
  qed
qed simp

text \<open>The ranges of characters lie on boundaries.\<close>

lemma char_range_boundary:
  assumes "utf8 s" "((i, j), g) \<in> set (char_ranges 0 (chars s))"
  shows "char_boundary s i \<and> char_boundary s j \<and> i \<le> j"
proof -
  from char_ranges_split [OF assms(2)] obtain a b where
    ab: "chars s = a @ g # b" "i = length (concat a)" "j = length (concat a) + length g" by auto
  have u: "\<forall>g \<in> set (chars s). utf8 g" using utf8_chars [OF assms(1)] utf8_single by blast
  have s: "s = concat a @ g @ concat b" using arg_cong [OF ab(1), of concat] by simp
  have "utf8 (concat a)" "utf8 (concat b)" "utf8 (concat a @ g)"
    using u ab(1) by (auto intro!: utf8_concat utf8_append)
  then show ?thesis
    using utf8_prefix_boundary [of "concat a" "g @ concat b"] utf8_prefix_boundary [of "concat a @ g" "concat b"] assms(1) s ab(2,3)
    by simp
qed

lemma utf8_char_length: "utf8_char g \<Longrightarrow> length g \<le> 4"
  by (cases g rule: utf8_char.cases) auto

lemma char_ranges_Cons_first: "gs \<noteq> [] \<Longrightarrow> \<exists>x xs. char_ranges n gs = x # xs \<and> fst (fst x) = n"
  by (cases gs) simp_all

text \<open>The character in which the limit lies.\<close>

lemma last_start:
  assumes "n \<le> limit" "limit < n + length (concat gs)"
  shows "\<exists>a g b. gs = a @ g # b \<and> takeWhile (\<lambda>x. x \<le> limit) (map (\<lambda>x. fst (fst x)) (char_ranges n gs)) \<noteq> [] \<and>
    last (takeWhile (\<lambda>x. x \<le> limit) (map (\<lambda>x. fst (fst x)) (char_ranges n gs))) = n + length (concat a) \<and>
    n + length (concat a) \<le> limit \<and> limit < n + length (concat a) + length g"
  using assms
proof (induction gs arbitrary: n)
  case (Cons g gs)
  show ?case
  proof (cases "limit < n + length g")
    case True
    have "takeWhile (\<lambda>x. x \<le> limit) (map (\<lambda>x. fst (fst x)) (char_ranges (n + length g) gs)) = []"
      using True by (cases gs) simp_all
    then have tw: "takeWhile (\<lambda>x. x \<le> limit) (map (\<lambda>x. fst (fst x)) (char_ranges n (g # gs))) = [n]"
      using Cons.prems(1) by simp
    have "g # gs = [] @ g # gs \<and> [n] \<noteq> [] \<and> last [n] = n + length (concat []) \<and> n + length (concat []) \<le> limit \<and>
        limit < n + length (concat []) + length g"
      using True Cons.prems(1) by simp
    then show ?thesis unfolding tw by blast
  next
    case False
    then have "n + length g \<le> limit" "limit < n + length g + length (concat gs)" using Cons.prems by simp_all
    from Cons.IH [OF this] obtain a h b where "gs = a @ h # b"
      "takeWhile (\<lambda>x. x \<le> limit) (map (\<lambda>x. fst (fst x)) (char_ranges (n + length g) gs)) \<noteq> []"
      "last (takeWhile (\<lambda>x. x \<le> limit) (map (\<lambda>x. fst (fst x)) (char_ranges (n + length g) gs))) = n + length g + length (concat a)"
      "n + length g + length (concat a) \<le> limit" "limit < n + length g + length (concat a) + length h"
      by blast
    then have "g # gs = (g # a) @ h # b \<and>
        takeWhile (\<lambda>x. x \<le> limit) (map (\<lambda>x. fst (fst x)) (char_ranges n (g # gs))) \<noteq> [] \<and>
        last (takeWhile (\<lambda>x. x \<le> limit) (map (\<lambda>x. fst (fst x)) (char_ranges n (g # gs)))) = n + length (concat (g # a)) \<and>
        n + length (concat (g # a)) \<le> limit \<and> limit < n + length (concat (g # a)) + length h"
      using Cons.prems(1) by simp
    then show ?thesis by blast
  qed
qed simp

lemma preview_end_ok:
  assumes "utf8 s" "limit < length s"
  shows "char_boundary s (preview_end limit s) \<and> preview_end limit s \<le> limit \<and> limit < preview_end limit s + 4"
proof -
  from last_start [of 0 limit "chars s"] assms(2) obtain a g b where
    ab: "chars s = a @ g # b" "preview_end limit s = length (concat a)" "length (concat a) \<le> limit"
      "limit < length (concat a) + length g"
    by (auto simp: preview_end_def Let_def)
  have s: "s = concat a @ g @ concat b" using arg_cong [OF ab(1), of concat] by simp
  have "utf8 (concat a)" "utf8_char g"
    using utf8_chars [OF assms(1)] utf8_single ab(1) by (auto intro!: utf8_concat)
  then show ?thesis
    using utf8_prefix_boundary [of "concat a" "g @ concat b"] assms(1) s ab(2-4) utf8_char_length [of g] by simp
qed

lemma split_newlines: "length (split_bytes (\<lambda>c. c = nl) s) = newlines s + 1"
  by (induction s) (auto simp: newlines_def split: list.split)

lemma lines_newlines: "length (lines s) \<le> newlines s + 1"
  using split_newlines [of s] by (auto simp: lines_def Let_def)

lemma split_pieces: "p \<in> set (split_bytes (\<lambda>c. c = nl) s) \<Longrightarrow> newlines p = 0"
  by (induction s arbitrary: p) (auto simp: newlines_def split: list.splits if_splits)

lemma newlines_strip: "newlines (strip_cr p) \<le> newlines p"
  by (cases p rule: rev_cases) (auto simp: strip_cr_def newlines_def)

lemma lines_pieces:
  assumes "p \<in> set (lines s)"
  shows "newlines p = 0"
proof -
  let ?ps = "split_bytes (\<lambda>c. c = nl) s"
  have "?ps \<noteq> []" using split_newlines [of s] by auto
  then have "last ?ps \<in> set ?ps" by simp
  with assms obtain q where "q \<in> set ?ps" "p = strip_cr q \<or> p = q"
    by (auto simp: lines_def Let_def dest: in_set_butlastD split: if_splits)
  then show ?thesis using split_pieces [of q s] newlines_strip [of q] by auto
qed

lemma newlines_join: "\<forall>p \<in> set ps. newlines p = 0 \<Longrightarrow> newlines (join [nl] ps) = length ps - 1"
  by (induction "[nl] :: string" ps rule: join.induct) (auto simp: newlines_def)

lemma split_last: "last (split_bytes (\<lambda>c. c = nl) s) = [] \<longleftrightarrow> s = [] \<or> last s = nl"
proof (induction s)
  case (Cons c s)
  have ne: "split_bytes (\<lambda>c. c = nl) s \<noteq> []" using split_newlines [of s] by auto
  then obtain w ws where w: "split_bytes (\<lambda>c. c = nl) s = w # ws" by (cases "split_bytes (\<lambda>c. c = nl) s") auto
  have "ws = [] \<Longrightarrow> newlines s = 0" using split_newlines [of s] w by simp
  then have "ws = [] \<Longrightarrow> s \<noteq> [] \<Longrightarrow> last s \<noteq> nl" by (auto simp: newlines_def filter_empty_conv dest: last_in_set)
  then show ?case using Cons w by auto
qed simp

lemma lines_count: "length (lines s) = newlines s + (if s = [] \<or> last s = nl then 0 else 1)"
  using split_newlines [of s] by (simp add: lines_def Let_def split_last)

lemma newlines_0_last: "newlines u = 0 \<Longrightarrow> u \<noteq> [] \<Longrightarrow> last u \<noteq> nl"
  by (auto simp: newlines_def filter_empty_conv dest: last_in_set)

lemma lines_prefix:
  assumes "prefix t s"
  shows "length (lines t) \<le> length (lines s)"
proof -
  obtain u where s: "s = t @ u" using assms by (auto simp: prefix_def)
  show ?thesis
  proof (cases "newlines u = 0")
    case True
    then show ?thesis using newlines_0_last [of u] by (cases "u = []") (auto simp: s lines_count)
  next
    case False
    then show ?thesis by (simp add: s lines_count)
  qed
qed

lemma utf8_pieces: "utf8 s \<Longrightarrow> p \<in> set (split_bytes (\<lambda>c. c = nl) s) \<Longrightarrow> utf8 p"
proof (induction s arbitrary: p rule: utf8_induct)
  case (Char g s)
  have plain: "split_bytes (\<lambda>c. c = nl) (xs @ s) =
      (case split_bytes (\<lambda>c. c = nl) s of [] \<Rightarrow> [xs] | w # ws \<Rightarrow> (xs @ w) # ws)" if "nl \<notin> set xs" for xs
    using that split_newlines [of s] by (induction xs) (auto split: list.split)
  show ?case
  proof (cases "g = [nl]")
    case True
    then show ?thesis using Char by auto
  next
    case False
    have "nl \<notin> set g"
    proof (cases "length g = 1")
      case True
      then show ?thesis using False by (auto simp: length_Suc_conv)
    next
      case False
      then show ?thesis using utf8_char_bytes [OF Char(1) False, of nl] by (auto simp: in_bytes_def)
    qed
    then show ?thesis
      using plain [of g] Char utf8_single [OF Char(1)] split_newlines [of s]
      by (cases "split_bytes (\<lambda>c. c = nl) s") (auto intro: utf8_append)
  qed
qed simp

lemma utf8_strip_cr: "utf8 p \<Longrightarrow> utf8 (strip_cr p)"
  using utf8_append_split [of "[cr]"] by (cases p rule: rev_cases) (auto simp: strip_cr_def)

lemma utf8_lines:
  assumes "utf8 s" "l \<in> set (lines s)"
  shows "utf8 l"
proof -
  have "split_bytes (\<lambda>c. c = nl) s \<noteq> []" using split_newlines [of s] by auto
  then have "last (split_bytes (\<lambda>c. c = nl) s) \<in> set (split_bytes (\<lambda>c. c = nl) s)" by simp
  then show ?thesis
    using assms by (auto simp: lines_def Let_def intro: utf8_strip_cr utf8_pieces dest: in_set_butlastD split: if_splits)
qed

lemma utf8_join_nl: "\<forall>p \<in> set ps. utf8 p \<Longrightarrow> utf8 (join [nl] ps)"
  using utf8_append [of "[nl]"] by (induction "[nl] :: string" ps rule: join.induct) (auto intro!: utf8_append simp: ascii_utf8)

lemma preview_within_limits_lemma:
  assumes "utf8 content"
  shows "\<exists>p. structured_output_preview_with_limits content noun line_limit byte_limit = Some p \<and>
    utf8 (so_content p) \<and> length (so_content p) \<le> byte_limit \<and> length (lines (so_content p)) \<le> line_limit \<and>
    (so_footer p = None \<longleftrightarrow> length (lines content) \<le> line_limit \<and> length content \<le> byte_limit) \<and>
    (so_footer p = None \<longrightarrow> so_content p = content) \<and>
    (length (lines content) \<le> line_limit \<and> byte_limit < length content \<longrightarrow>
       prefix (so_content p) content \<and> byte_limit < length (so_content p) + 4)"
proof -
  let ?ls = "take line_limit (lines content)"
  define preview where "preview = (if length (lines content) > line_limit then join [nl] ?ls else content)"
  have u: "utf8 preview"
    using utf8_lines [OF assms] assms by (auto simp: preview_def intro!: utf8_join_nl dest: in_set_takeD)
  have l: "length (lines preview) \<le> line_limit"
  proof (cases "length (lines content) > line_limit")
    case True
    have "newlines preview = line_limit - 1"
      using True newlines_join [of ?ls] lines_pieces by (auto simp: preview_def dest: in_set_takeD)
    then show ?thesis
      using True lines_newlines [of preview] by (cases "line_limit = 0") (auto simp: preview_def lines_def)
  qed (simp add: preview_def)
  show ?thesis
  proof (cases "length preview > byte_limit")
    case True
    let ?e = "preview_end byte_limit preview"
    have e: "char_boundary preview ?e" "?e \<le> byte_limit" "byte_limit < ?e + 4"
      using preview_end_ok [OF u True] by simp_all
    have "str_slice preview 0 ?e = Some (take ?e preview)" using e(1) by (simp add: str_slice_Some)
    moreover have "utf8 (take ?e preview)" by (rule utf8_take_drop(1) [OF u e(1)])
    moreover have "length (lines (take ?e preview)) \<le> line_limit"
      using lines_prefix [OF take_is_prefix, of ?e preview] l by simp
    ultimately show ?thesis
      using True e by (auto simp: structured_output_preview_with_limits_def Let_def preview_def take_is_prefix split: if_splits)
  next
    case False
    then show ?thesis
      using u l by (auto simp: structured_output_preview_with_limits_def Let_def preview_def split: if_splits)
  qed
qed

text \<open>
  A preview is right. It never panics on well-formed text; what it shows is well-formed text
  within both limits; when nothing is said to be hidden it is the whole text, and that is exactly
  when the text is within the limits; and a text cut for its bytes alone is cut at the last
  character that fits.
\<close>

lemma preview_within_limits:
  assumes "utf8 content"
  shows "\<exists>p. structured_output_preview_with_limits content noun line_limit byte_limit = Some p \<and>
    utf8 (so_content p) \<and> length (so_content p) \<le> byte_limit \<and> length (lines (so_content p)) \<le> line_limit \<and>
    (so_footer p = None \<longleftrightarrow> length (lines content) \<le> line_limit \<and> length content \<le> byte_limit) \<and>
    (so_footer p = None \<longrightarrow> so_content p = content) \<and>
    (length (lines content) \<le> line_limit \<and> byte_limit < length content \<longrightarrow>
       prefix (so_content p) content \<and> byte_limit < length (so_content p) + 4)"
  using preview_within_limits_lemma [OF assms] .

lemma preview_shown:
  assumes "utf8 content"
  shows "\<exists>p. structured_output_preview_with_limits content noun line_limit byte_limit = Some p \<and>
    (so_footer p = None \<longleftrightarrow> length (lines content) \<le> line_limit \<and> length content \<le> byte_limit) \<and>
    (so_footer p = None \<longrightarrow> so_content p = content)"
proof -
  from preview_within_limits_lemma [OF assms, of noun line_limit byte_limit]
  show ?thesis by (elim exE conjE, intro exI conjI)
qed

lemma fits_iff:
  assumes "utf8 content"
  shows "content_fits_output_expansion content expansion preview_lines preview_bytes =
    Some (length (lines content) \<le> ol_lines (output_limits expansion preview_lines preview_bytes) \<and>
      length content \<le> ol_bytes (output_limits expansion preview_lines preview_bytes))"
proof -
  obtain p where "structured_output_preview_with_limits content ''output''
      (ol_lines (output_limits expansion preview_lines preview_bytes))
      (ol_bytes (output_limits expansion preview_lines preview_bytes)) = Some p"
    "so_footer p = None \<longleftrightarrow> length (lines content) \<le> ol_lines (output_limits expansion preview_lines preview_bytes) \<and>
      length content \<le> ol_bytes (output_limits expansion preview_lines preview_bytes)"
    using preview_shown [OF assms] by meson
  then show ?thesis by (simp add: content_fits_output_expansion_def Let_def)
qed

lemma lines_le: "length (lines s) \<le> length s"
  by (cases s rule: rev_cases) (auto simp: lines_count newlines_def length_filter_le le_SucI)

text \<open>The steps from the preview to everything.\<close>

fun rank :: "OutputExpansion \<Rightarrow> nat" where
  "rank Preview = 0" | "rank Medium = 1" | "rank Large = 2" | "rank AllOutput = 3"

lemma find_useful_rank:
  assumes "\<forall>e \<in> set es. fits e \<noteq> None" "\<forall>e \<in> set es. rank current < rank e" "current \<noteq> AllOutput"
  shows "\<exists>e. find_useful fits es = Some e \<and> rank current < rank e \<and> (e = AllOutput \<or> fits e = Some False)"
  using assms by (induction es) (cases current; auto)+

lemma next_useful:
  assumes "\<forall>e. fits e \<noteq> None" "current \<noteq> AllOutput"
  shows "\<exists>e. next_useful_output_expansion current fits = Some e \<and> rank current < rank e \<and>
    (e = AllOutput \<or> fits e = Some False)"
  using assms find_useful_rank [of "candidates_after current" fits current]
  by (cases current) (auto simp: next_useful_output_expansion_def)

text \<open>
  The reader can always get to everything. An output gets a button exactly when its preview hides
  something; without one, and at the last step, the whole text is shown. A press always goes to a
  larger step, which is the last one or one that still hides something, so that at most three
  presses show the whole text; the press after that returns to the preview. No step panics.
\<close>

lemma expansion_reveals_everything:
  assumes "utf8 content" "length content \<le> usize_max"
  shows "\<exists>p. structured_output_presentation content noun expansion = Some p \<and>
    (po_toggle p = None \<longleftrightarrow> content_fits_output_expansion content Preview
       STRUCTURED_OUTPUT_PREVIEW_LINES STRUCTURED_OUTPUT_PREVIEW_BYTES = Some True) \<and>
    (po_toggle p = None \<or> expansion = AllOutput \<longrightarrow> po_content p = content) \<and>
    (\<forall>toggle. po_toggle p = Some toggle \<longrightarrow>
       (if expansion = AllOutput then to_next toggle = Preview
        else rank expansion < rank (to_next toggle) \<and>
          (to_next toggle = AllOutput \<or> content_fits_output_expansion content (to_next toggle)
             STRUCTURED_OUTPUT_PREVIEW_LINES STRUCTURED_OUTPUT_PREVIEW_BYTES = Some False)))"
proof -
  let ?L = STRUCTURED_OUTPUT_PREVIEW_LINES and ?B = STRUCTURED_OUTPUT_PREVIEW_BYTES
  let ?fits = "\<lambda>candidate. content_fits_output_expansion content candidate ?L ?B"
  have all: "length (lines content) \<le> usize_max" using lines_le [of content] assms(2) by linarith
  obtain preview where preview: "structured_output_preview_with_limits content noun ?L ?B = Some preview"
    "so_footer preview = None \<longleftrightarrow> length (lines content) \<le> ?L \<and> length content \<le> ?B"
    using preview_shown [OF assms(1), of noun ?L ?B] by (elim exE conjE)
  have fits: "so_footer preview = None \<longleftrightarrow> ?fits Preview = Some True"
    using preview(2) by (simp add: fits_iff [OF assms(1)])
  let ?limits = "output_limits expansion ?L ?B"
  obtain visible where visible: "structured_output_preview_with_limits content noun (ol_lines ?limits) (ol_bytes ?limits) = Some visible"
    "so_footer visible = None \<longleftrightarrow> length (lines content) \<le> ol_lines ?limits \<and> length content \<le> ol_bytes ?limits"
    "so_footer visible = None \<longrightarrow> so_content visible = content"
    using preview_shown [OF assms(1), of noun "ol_lines ?limits" "ol_bytes ?limits"] by (elim exE conjE)
  have whole: "expansion = AllOutput \<longrightarrow> so_content visible = content"
    using visible(2,3) assms(2) all by simp
  have some: "\<forall>e. ?fits e \<noteq> None" by (simp add: fits_iff [OF assms(1)])
  obtain e where e: "next_useful_output_expansion expansion ?fits = Some e"
    "if expansion = AllOutput then e = Preview else rank expansion < rank e \<and> (e = AllOutput \<or> ?fits e = Some False)"
    using next_useful [OF some, of expansion] by (cases "expansion = AllOutput") (auto simp: next_useful_output_expansion_def)
  show ?thesis
  proof (cases "so_footer preview = None")
    case True
    then show ?thesis
      using preview(1) fits by (simp add: structured_output_presentation_def structured_output_presentation_with_limits_def)
  next
    case False
    then show ?thesis
      using preview(1) fits visible(1) whole e
      by (simp add: structured_output_presentation_def structured_output_presentation_with_limits_def Let_def)
  qed
qed

text \<open>What a press of the button of an output does to its step.\<close>

definition pressed :: "string \<Rightarrow> string \<Rightarrow> OutputExpansion \<Rightarrow> OutputExpansion" where
  "pressed content noun expansion =
     (case structured_output_presentation content noun expansion of
        Some p \<Rightarrow> (case po_toggle p of Some toggle \<Rightarrow> to_next toggle | None \<Rightarrow> expansion)
      | None \<Rightarrow> expansion)"

lemma rank_AllOutput: "rank e \<le> 3" "rank e = 3 \<longleftrightarrow> e = AllOutput"
  by (cases e; simp)+

lemma presses_reveal:
  assumes "utf8 content" "length content \<le> usize_max"
  shows "\<exists>n \<le> 3 - rank e. \<exists>p. structured_output_presentation content noun ((pressed content noun ^^ n) e) = Some p \<and>
    po_content p = content"
proof (induction "3 - rank e" arbitrary: e rule: less_induct)
  case less
  from expansion_reveals_everything [OF assms, of noun e] obtain p where
    p: "structured_output_presentation content noun e = Some p"
      "po_toggle p = None \<or> e = AllOutput \<longrightarrow> po_content p = content"
      "\<forall>toggle. po_toggle p = Some toggle \<longrightarrow> e \<noteq> AllOutput \<longrightarrow> rank e < rank (to_next toggle)"
    by (elim exE conjE) simp
  show ?case
  proof (cases "po_toggle p = None \<or> e = AllOutput")
    case True
    then show ?thesis using p by (intro exI [of _ 0]) simp
  next
    case False
    then obtain toggle where toggle: "po_toggle p = Some toggle" "e \<noteq> AllOutput" by auto
    let ?e = "pressed content noun e"
    have up: "rank e < rank ?e" using p toggle by (simp add: pressed_def)
    then have "3 - rank ?e < 3 - rank e" using rank_AllOutput(1) [of ?e] by linarith
    from less [OF this] obtain n where n: "n \<le> 3 - rank ?e"
      "\<exists>p. structured_output_presentation content noun ((pressed content noun ^^ n) ?e) = Some p \<and> po_content p = content"
      by blast
    have "Suc n \<le> 3 - rank e" using n(1) up rank_AllOutput(1) [of ?e] by linarith
    then show ?thesis using n(2) by (intro exI [of _ "Suc n"]) (simp add: funpow_swap1)
  qed
qed

text \<open>
  C15. The reader of a plain output can always get to all of it, and nothing panics on the way. An output has no
  button exactly when it has at most 10 lines and 1200 bytes, and then all of it is shown; from any
  step at most three presses of the button show the whole text, and a press at the last step
  returns to the preview.
\<close>

theorem output_expands:
  assumes "utf8 content" "length content \<le> usize_max"
  shows "(\<exists>p. structured_output_presentation content noun expansion = Some p \<and>
      (po_toggle p = None \<longleftrightarrow> length (lines content) \<le> 10 \<and> length content \<le> 1200) \<and>
      (po_toggle p = None \<longrightarrow> po_content p = content) \<and>
      (\<forall>toggle. po_toggle p = Some toggle \<longrightarrow> expansion = AllOutput \<longrightarrow> to_next toggle = Preview)) \<and>
    (\<exists>n \<le> 3. \<exists>p. structured_output_presentation content noun ((pressed content noun ^^ n) expansion) = Some p \<and>
      po_content p = content)"
proof -
  from expansion_reveals_everything [OF assms, of noun expansion] obtain p where p:
    "structured_output_presentation content noun expansion = Some p"
    "po_toggle p = None \<longleftrightarrow> content_fits_output_expansion content Preview
       STRUCTURED_OUTPUT_PREVIEW_LINES STRUCTURED_OUTPUT_PREVIEW_BYTES = Some True"
    "po_toggle p = None \<longrightarrow> po_content p = content"
    "\<forall>toggle. po_toggle p = Some toggle \<longrightarrow> expansion = AllOutput \<longrightarrow> to_next toggle = Preview"
    by (elim exE conjE) simp
  have fits: "content_fits_output_expansion content Preview STRUCTURED_OUTPUT_PREVIEW_LINES STRUCTURED_OUTPUT_PREVIEW_BYTES =
      Some (length (lines content) \<le> 10 \<and> length content \<le> 1200)"
    by (simp add: fits_iff [OF assms(1)] STRUCTURED_OUTPUT_PREVIEW_LINES_def STRUCTURED_OUTPUT_PREVIEW_BYTES_def)
  obtain n where n: "n \<le> 3 - rank expansion"
    "\<exists>p. structured_output_presentation content noun ((pressed content noun ^^ n) expansion) = Some p \<and> po_content p = content"
    using presses_reveal [OF assms] by blast
  show ?thesis
  proof (rule conjI)
    show "\<exists>n \<le> 3. \<exists>p. structured_output_presentation content noun ((pressed content noun ^^ n) expansion) = Some p \<and>
        po_content p = content"
      using n by (intro exI [of _ n]) simp
  qed (rule exI [of _ p], use p(1,3,4) p(2) [unfolded fits] in simp)
qed

theorem output_expands_witness:
  "\<exists>n \<le> 3. \<exists>p. structured_output_presentation ''ab'' ''output'' ((pressed ''ab'' ''output'' ^^ n) Preview) = Some p \<and>
     po_content p = ''ab''"
proof -
  have "utf8 ''ab''" by code_simp
  moreover have "length ''ab'' \<le> usize_max" by (simp add: usize_max_def)
  ultimately show ?thesis by (rule output_expands [THEN conjunct2])
qed

end
