(* ===== verification/DiffCards.thy ===== *)
theory DiffCards
  imports OutputPreview
begin

text \<open>
  How the application shows changes of files (\<open>crates/harness_app/src/main.rs\<close>): the files of a
  diff and of a file change item, the tone and the numbers of their lines, the share of the
  lines that each file gets, and the steps of expansion of these cards.
\<close>

subsection \<open>Files of a diff\<close>

record FileChangePresentation =
  fc_operation :: string
  fc_path :: string
  fc_content :: string

record DiffFilePresentation =
  df_path :: string
  df_content :: string

definition trim_matches :: "char set \<Rightarrow> string \<Rightarrow> string" where
  "trim_matches C s = trim_end_matches C (trim_start_matches C s)"

definition normalized_diff_path :: "string \<Rightarrow> string option" where
  "normalized_diff_path path =
     (let whole = trim_matches {CHR 0x22} (trim path);
          path = trim_matches {CHR 0x22} (case split_once whole [CHR 0x09] of
            Some (path, _) \<Rightarrow> path | None \<Rightarrow> whole)
      in if path = [] \<or> path = ''/dev/null'' then None
         else Some (unwrap_or (or_else (strip_prefix path ''a/'') (strip_prefix path ''b/'')) path))"

definition rsplit_once :: "string \<Rightarrow> string \<Rightarrow> (string \<times> string) option" where
  "rsplit_once s sep = map_option (\<lambda>i. (take i s, drop (i + length sep) s)) (str_rfind s sep)"

definition diff_header_path :: "string \<Rightarrow> string option" where
  "diff_header_path line =
     do { header \<leftarrow> strip_prefix line ''diff --git '';
          path \<leftarrow> or_else (map_option snd (rsplit_once header '' b/''))
            (map_option snd (rsplit_once header ('' '' @ [CHR 0x22] @ ''b/'')));
          normalized_diff_path path }"

definition find_map :: "('a \<Rightarrow> 'b option) \<Rightarrow> 'a list \<Rightarrow> 'b option" where
  "find_map f xs = (case filter_map f xs of [] \<Rightarrow> None | y # ys \<Rightarrow> Some y)"

definition push_diff_file_presentation ::
  "string option \<Rightarrow> string list \<Rightarrow> DiffFilePresentation list \<Rightarrow> DiffFilePresentation list" where
  "push_diff_file_presentation path ls sections =
     (if ls = [] \<and> path = None then sections
      else
        let inferred_path =
              or_else (find_map (\<lambda>line. Option.bind (strip_prefix line ''+++ '') normalized_diff_path) ls)
                (find_map (\<lambda>line. Option.bind (strip_prefix line ''--- '') normalized_diff_path) ls)
        in sections @ [\<lparr>df_path = unwrap_or (or_else path inferred_path) ''Diff'',
                        df_content = trim_end (join [nl] ls)\<rparr>])"

fun diff_sections ::
  "string list \<Rightarrow> string option \<Rightarrow> string list \<Rightarrow> DiffFilePresentation list \<Rightarrow> DiffFilePresentation list" where
  "diff_sections [] path ls sections = push_diff_file_presentation path ls sections"
| "diff_sections (line # rest) path ls sections =
     (if starts_with line ''diff --git ''
      then diff_sections rest (diff_header_path line) [] (push_diff_file_presentation path ls sections)
      else diff_sections rest path (ls @ [line]) sections)"

definition diff_file_presentations :: "string \<Rightarrow> DiffFilePresentation list" where
  "diff_file_presentations content =
     (let sections = diff_sections (lines content) None [] []
      in if sections = [] \<and> trim content \<noteq> [] then [\<lparr>df_path = ''Diff'', df_content = trim_end content\<rparr>]
         else sections)"

subsection \<open>Lines\<close>

datatype DiffLineTone = NormalLine | HunkLine | AdditionLine | DeletionLine

definition diff_line_tone :: "string \<Rightarrow> bool \<Rightarrow> DiffLineTone \<times> bool" where
  "diff_line_tone line in_hunk =
     (let in_hunk = (if starts_with line ''--- '' \<or> starts_with line ''diff --git '' then False else in_hunk)
      in if starts_with line ''@@'' then (HunkLine, True)
         else if in_hunk \<and> starts_with line ''+'' \<and> \<not> starts_with line ''+++'' then (AdditionLine, in_hunk)
         else if in_hunk \<and> starts_with line ''-'' \<and> \<not> starts_with line ''---'' then (DeletionLine, in_hunk)
         else (NormalLine, in_hunk))"

fun line_tones :: "bool \<Rightarrow> string list \<Rightarrow> DiffLineTone list" where
  "line_tones in_hunk [] = []"
| "line_tones in_hunk (line # rest) =
     (let (tone, in_hunk) = diff_line_tone line in_hunk in tone # line_tones in_hunk rest)"

definition count_tones :: "DiffLineTone list \<Rightarrow> nat \<times> nat" where
  "count_tones tones = fold (\<lambda>tone (additions, deletions).
     case tone of AdditionLine \<Rightarrow> (additions + 1, deletions)
                | DeletionLine \<Rightarrow> (additions, deletions + 1)
                | _ \<Rightarrow> (additions, deletions)) tones (0, 0)"

definition diff_content_counts :: "string \<Rightarrow> nat \<times> nat" where
  "diff_content_counts content = count_tones (line_tones False (lines content))"

definition aggregate_diff_counts :: "string list \<Rightarrow> nat \<times> nat" where
  "aggregate_diff_counts contents =
     fold (\<lambda>(additions, deletions) (total_additions, total_deletions).
        (total_additions + additions, total_deletions + deletions)) (map diff_content_counts contents) (0, 0)"

text \<open>\<open>str::parse::<usize>\<close>: digits with an optional plus sign, within the range.\<close>

definition parse_usize :: "string \<Rightarrow> nat option" where
  "parse_usize s =
     (let digits = unwrap_or (strip_prefix s ''+'') s
      in if digits = [] \<or> \<not> list_all (in_bytes 0x30 0x39) digits then None
         else opt_filter (\<lambda>n. n \<le> usize_max) (Some (foldl (\<lambda>n c. n * 10 + (of_char c - 48)) 0 digits)))"

definition hunk_start :: "string \<Rightarrow> string \<Rightarrow> nat option" where
  "hunk_start sign field =
     do { rest \<leftarrow> strip_prefix field sign; parse_usize (hd (split_bytes (\<lambda>c. c = CHR '','') rest)) }"

definition diff_hunk_starts :: "string \<Rightarrow> (nat \<times> nat) option" where
  "diff_hunk_starts line =
     (case split_whitespace line of
        at # old_field # others \<Rightarrow>
          if at \<noteq> ''@@'' then None
          else do { old_line \<leftarrow> hunk_start ''-'' old_field;
                    new_line \<leftarrow> (case others of new_field # _ \<Rightarrow> hunk_start ''+'' new_field | [] \<Rightarrow> None);
                    Some (old_line, new_line) }
      | _ \<Rightarrow> None)"

text \<open>The numbers that are displayed, and the counters for the next line; \<open>None\<close> is an overflow,
  which panics in a build that checks for it.\<close>

definition step_line :: "nat option \<Rightarrow> nat option option" where
  "step_line n = (case n of None \<Rightarrow> Some None | Some n \<Rightarrow> if n < usize_max then Some (Some (n + 1)) else None)"

definition diff_line_numbers ::
  "string \<Rightarrow> DiffLineTone \<Rightarrow> bool \<Rightarrow> bool \<Rightarrow> nat option \<Rightarrow> nat option \<Rightarrow> nat \<Rightarrow>
   ((nat option \<times> nat option) \<times> nat option \<times> nat option) option" where
  "diff_line_numbers line tone unified in_hunk old_line new_line fallback_line =
     (if tone = HunkLine then
        (case diff_hunk_starts line of
           Some (old_start, new_start) \<Rightarrow> Some ((None, None), Some old_start, Some new_start)
         | None \<Rightarrow> Some ((None, None), old_line, new_line))
      else if \<not> unified then Some ((None, Some fallback_line), old_line, new_line)
      else if \<not> in_hunk \<or> starts_with line (CHR 0x5C # '' No newline'') then Some ((None, None), old_line, new_line)
      else case tone of
        AdditionLine \<Rightarrow> map_option (\<lambda>new'. ((None, new_line), old_line, new')) (step_line new_line)
      | DeletionLine \<Rightarrow> map_option (\<lambda>old'. ((old_line, None), old', new_line)) (step_line old_line)
      | _ \<Rightarrow> do { old' \<leftarrow> step_line old_line; new' \<leftarrow> step_line new_line;
                  Some ((old_line, new_line), old', new') })"

text \<open>The loop of \<open>render_diff_lines\<close>: tone and numbers of each visible line.\<close>

fun number_lines ::
  "bool \<Rightarrow> nat \<Rightarrow> bool \<Rightarrow> nat option \<Rightarrow> nat option \<Rightarrow> string list \<Rightarrow>
   (DiffLineTone \<times> nat option \<times> nat option) list option" where
  "number_lines unified index in_hunk old_line new_line [] = Some []"
| "number_lines unified index in_hunk old_line new_line (line # rest) =
     (let (tone, in_hunk) = diff_line_tone line in_hunk
      in do { (displayed, old_line, new_line) \<leftarrow>
                diff_line_numbers line tone unified in_hunk old_line new_line (index + 1);
              shown \<leftarrow> number_lines unified (index + 1) in_hunk old_line new_line rest;
              Some ((tone, displayed) # shown) })"

definition render_diff_lines ::
  "string \<Rightarrow> nat \<Rightarrow> (DiffLineTone \<times> nat option \<times> nat option) list option" where
  "render_diff_lines content visible_line_count =
     number_lines (list_ex (\<lambda>line. starts_with line ''@@'') (lines content)) 0 False None None
       (take visible_line_count (lines content))"

subsection \<open>Files of a change\<close>

definition file_change_summary :: "string \<Rightarrow> (string \<times> string) option" where
  "file_change_summary line =
     find_map (\<lambda>operation. map_option (Pair operation)
         (Option.bind (strip_prefix line operation) (\<lambda>rest. strip_prefix rest mid_dot)))
       [''Added'', ''Modified'', ''Deleted'', ''Moved'']"

definition finished :: "FileChangePresentation option \<Rightarrow> FileChangePresentation list" where
  "finished current =
     (case current of None \<Rightarrow> [] | Some p \<Rightarrow> [p\<lparr>fc_content := trim_end (fc_content p)\<rparr>])"

fun file_change_sections ::
  "string list \<Rightarrow> FileChangePresentation list \<Rightarrow> FileChangePresentation option \<Rightarrow> FileChangePresentation list" where
  "file_change_sections [] presentations current = presentations @ finished current"
| "file_change_sections (line # rest) presentations current =
     (case file_change_summary line of
        Some (operation, path) \<Rightarrow>
          file_change_sections rest (presentations @ finished current)
            (Some \<lparr>fc_operation = operation, fc_path = path, fc_content = []\<rparr>)
      | None \<Rightarrow>
          file_change_sections rest presentations
            (map_option (\<lambda>p. p\<lparr>fc_content := (if fc_content p = [] then [] else fc_content p @ [nl]) @ line\<rparr>) current))"

definition file_change_presentations :: "string \<Rightarrow> FileChangePresentation list" where
  "file_change_presentations content =
     (let presentations = file_change_sections (lines content) [] None
      in if presentations = [] \<and> trim content \<noteq> []
         then [\<lparr>fc_operation = ''Changed'', fc_path = ''File details unavailable'', fc_content = trim_end content\<rparr>]
         else presentations)"

definition file_change_counts :: "FileChangePresentation \<Rightarrow> nat \<times> nat" where
  "file_change_counts p =
     (if \<not> list_ex (\<lambda>line. starts_with line ''@@'') (lines (fc_content p)) then
        let line_count = length (lines (fc_content p))
        in if fc_operation p = ''Added'' then (line_count, 0)
           else if fc_operation p = ''Deleted'' then (0, line_count) else (0, 0)
      else diff_content_counts (fc_content p))"

subsection \<open>Shares of the lines\<close>

fun share_lines :: "nat \<Rightarrow> nat \<Rightarrow> nat list \<Rightarrow> nat list \<times> nat" where
  "share_lines share remaining [] = ([], remaining)"
| "share_lines share remaining (line_count # rest) =
     (if remaining = 0 then (replicate (length (line_count # rest)) 0, 0)
      else
        let added = min (min line_count share) remaining;
            (allocations, remaining) = share_lines share (remaining - added) rest
        in (added # allocations, remaining))"

definition fair_line_allocations :: "nat list \<Rightarrow> nat \<Rightarrow> nat list" where
  "fair_line_allocations line_counts budget =
     (if budget = usize_max then line_counts
      else if line_counts = [] \<or> budget = 0 then replicate (length line_counts) 0
      else
        let (allocations, remaining_budget) = share_lines (max (budget div length line_counts) 1) budget line_counts;
            added = min (last line_counts - last allocations) remaining_budget
        in butlast allocations @ [last allocations + added])"

definition progressive_line_limit :: "OutputExpansion \<Rightarrow> nat \<Rightarrow> nat" where
  "progressive_line_limit expansion preview_limit =
     (case expansion of Preview \<Rightarrow> preview_limit
        | Medium \<Rightarrow> PROGRESSIVE_OUTPUT_MEDIUM_LINES
        | Large \<Rightarrow> PROGRESSIVE_OUTPUT_LARGE_LINES
        | AllOutput \<Rightarrow> usize_max)"

definition progressive_file_line_allocations :: "nat list \<Rightarrow> OutputExpansion \<Rightarrow> nat list" where
  "progressive_file_line_allocations line_counts expansion =
     (let limit = progressive_line_limit expansion STRUCTURED_OUTPUT_PREVIEW_LINES
      in fair_line_allocations (take limit line_counts) limit)"

definition file_change_counts_for_limits :: "string \<Rightarrow> nat \<times> nat" where
  "file_change_counts_for_limits content =
     (let presentations = file_change_presentations content
      in (length presentations, sum_list (map (\<lambda>p. length (lines (fc_content p))) presentations)))"

definition file_change_fits_output_expansion :: "string \<Rightarrow> OutputExpansion \<Rightarrow> bool" where
  "file_change_fits_output_expansion content expansion =
     (let (files, changed_lines) = file_change_counts_for_limits content;
          limit = progressive_line_limit expansion STRUCTURED_OUTPUT_PREVIEW_LINES
      in files \<le> limit \<and> changed_lines \<le> limit)"

definition next_file_change_expansion :: "string \<Rightarrow> OutputExpansion \<Rightarrow> OutputExpansion option" where
  "next_file_change_expansion content current =
     next_useful_output_expansion current (\<lambda>candidate. Some (file_change_fits_output_expansion content candidate))"

definition progressive_file_change_toggle ::
  "string \<Rightarrow> OutputExpansion \<Rightarrow> ProgressiveOutputToggle option option" where
  "progressive_file_change_toggle content current =
     (let (files, changed_lines) = file_change_counts_for_limits content
      in if files \<le> STRUCTURED_OUTPUT_PREVIEW_LINES \<and> changed_lines \<le> STRUCTURED_OUTPUT_PREVIEW_LINES then Some None
         else do { next_expansion \<leftarrow> next_file_change_expansion content current;
                   Some (Some \<lparr>to_label = (case next_expansion of
                       Preview \<Rightarrow> ''Collapse to preview''
                     | AllOutput \<Rightarrow> ''Show all '' @ dec files @ '' files and '' @ dec changed_lines @ '' changed lines''
                     | _ \<Rightarrow> ''Show up to '' @ dec (progressive_line_limit next_expansion STRUCTURED_OUTPUT_PREVIEW_LINES) @
                         '' files / changed lines''), to_next = next_expansion\<rparr>) })"

definition diff_counts_for_limits :: "string \<Rightarrow> nat \<times> nat" where
  "diff_counts_for_limits content =
     (let presentations = diff_file_presentations content
      in (length presentations, sum_list (map (\<lambda>p. length (lines (df_content p))) presentations)))"

definition diff_fits_output_expansion :: "string \<Rightarrow> OutputExpansion \<Rightarrow> bool" where
  "diff_fits_output_expansion content expansion =
     (let (files, detail_lines) = diff_counts_for_limits content;
          limit = progressive_line_limit expansion STRUCTURED_OUTPUT_PREVIEW_LINES
      in files \<le> limit \<and> detail_lines \<le> limit)"

definition next_diff_expansion :: "string \<Rightarrow> OutputExpansion \<Rightarrow> OutputExpansion option" where
  "next_diff_expansion content current =
     next_useful_output_expansion current (\<lambda>candidate. Some (diff_fits_output_expansion content candidate))"

definition progressive_diff_toggle ::
  "string \<Rightarrow> OutputExpansion \<Rightarrow> ProgressiveOutputToggle option option" where
  "progressive_diff_toggle content current =
     (let (files, detail_lines) = diff_counts_for_limits content
      in if files \<le> STRUCTURED_OUTPUT_PREVIEW_LINES \<and> detail_lines \<le> STRUCTURED_OUTPUT_PREVIEW_LINES then Some None
         else do { next_expansion \<leftarrow> next_diff_expansion content current;
                   Some (Some \<lparr>to_label = (case next_expansion of
                       Preview \<Rightarrow> ''Collapse to preview''
                     | AllOutput \<Rightarrow> ''Show all '' @ dec files @ '' files and '' @ dec detail_lines @ '' diff lines''
                     | _ \<Rightarrow> ''Show up to '' @ dec (progressive_line_limit next_expansion STRUCTURED_OUTPUT_PREVIEW_LINES) @
                         '' files / diff lines''), to_next = next_expansion\<rparr>) })"

subsection \<open>Shares are fair\<close>

lemma share_lines_enough:
  assumes "share * length cs \<le> remaining" "1 \<le> share"
  shows "share_lines share remaining cs = (map (min share) cs, remaining - sum_list (map (min share) cs)) \<and>
    sum_list (map (min share) cs) \<le> remaining"
  using assms
proof (induction cs arbitrary: remaining)
  case (Cons c cs)
  have le: "min share c \<le> share" by simp
  have "share + share * length cs \<le> remaining" using Cons.prems(1) by simp
  then have "share * length cs \<le> remaining - min share c" "0 < remaining" "min share c \<le> remaining"
    using Cons.prems(2) le by linarith+
  then show ?case
    using Cons.IH [of "remaining - min share c"] Cons.prems(2)
    by (simp add: Let_def min.commute [of _ share] min.absorb1) linarith
qed simp

lemma min_added: "min share c + min (c - min share c) r = min c (share + r)" for c share r :: nat
  by linarith

lemma fair_line_allocations_eq:
  assumes "cs \<noteq> []" "length cs \<le> budget" "budget < usize_max"
  shows "\<exists>extra. fair_line_allocations cs budget =
      map (min (budget div length cs)) (butlast cs) @ [min (last cs) (budget div length cs + extra)] \<and>
    sum_list (fair_line_allocations cs budget) \<le> budget"
proof -
  let ?share = "budget div length cs"
  have b: "budget \<noteq> usize_max" "0 < budget" using assms less_le_trans [of 0 "length cs" budget] by auto
  have pos: "1 \<le> ?share" using assms(1,2) b by (simp add: Suc_le_eq div_greater_zero_iff)
  have "?share * length cs \<le> budget" by simp
  note s = share_lines_enough [OF this pos]
  let ?r = "budget - sum_list (map (min ?share) cs)"
  have split: "map (min ?share) cs = map (min ?share) (butlast cs) @ [min ?share (last cs)]"
    using assms(1) by (metis append_butlast_last_id list.simps(8,9) map_append)
  have eq: "fair_line_allocations cs budget =
      map (min ?share) (butlast cs) @ [min (last cs) (?share + ?r)]"
    using s assms(1) b pos min_added [of ?share "last cs" ?r]
    by (simp add: fair_line_allocations_def Let_def last_map map_butlast max.absorb1)
  have "sum_list (map (min ?share) (butlast cs)) + min ?share (last cs) \<le> budget"
    using s split by simp
  moreover have "min (last cs) (?share + ?r) \<le> min ?share (last cs) + ?r" by linarith
  moreover have "?r = budget - (sum_list (map (min ?share) (butlast cs)) + min ?share (last cs))" using split by simp
  ultimately have "sum_list (map (min ?share) (butlast cs)) + min (last cs) (?share + ?r) \<le> budget"
    by linarith
  then have "sum_list (fair_line_allocations cs budget) \<le> budget" unfolding eq by simp
  with eq show ?thesis by blast
qed

lemma limit_pos: "0 < progressive_line_limit expansion STRUCTURED_OUTPUT_PREVIEW_LINES"
  by (cases expansion) (simp_all add: progressive_line_limit_def STRUCTURED_OUTPUT_PREVIEW_LINES_def
    PROGRESSIVE_OUTPUT_MEDIUM_LINES_def PROGRESSIVE_OUTPUT_LARGE_LINES_def usize_max_def)

lemma limit_less:
  "expansion \<noteq> AllOutput \<Longrightarrow> progressive_line_limit expansion STRUCTURED_OUTPUT_PREVIEW_LINES < usize_max"
  by (cases expansion) (simp_all add: progressive_line_limit_def STRUCTURED_OUTPUT_PREVIEW_LINES_def
    PROGRESSIVE_OUTPUT_MEDIUM_LINES_def PROGRESSIVE_OUTPUT_LARGE_LINES_def usize_max_def)

text \<open>
  The lines of a card are shared out fairly. Only as many files are shown as the step of
  expansion has lines. Together they never get more lines than the limit and none more than it
  has; each gets its lines or an equal share of the limit, whichever is less, so that a huge
  patch does not starve the files behind it. The last step gives every file all its lines.
\<close>

lemma line_shares_fair:
  "if expansion = AllOutput then progressive_file_line_allocations line_counts expansion = take usize_max line_counts
   else let limit = progressive_line_limit expansion STRUCTURED_OUTPUT_PREVIEW_LINES;
            allocations = progressive_file_line_allocations line_counts expansion
     in length allocations = min limit (length line_counts) \<and> sum_list allocations \<le> limit \<and>
     list_all2 (\<lambda>shown all. min all (limit div length allocations) \<le> shown \<and> shown \<le> all)
       allocations (take limit line_counts)"
proof (cases "expansion = AllOutput")
  case True
  then show ?thesis
    by (simp add: progressive_file_line_allocations_def progressive_line_limit_def fair_line_allocations_def)
next
  case False
  let ?limit = "progressive_line_limit expansion STRUCTURED_OUTPUT_PREVIEW_LINES"
  let ?cs = "take ?limit line_counts" and ?a = "progressive_file_line_allocations line_counts expansion"
  have a: "?a = fair_line_allocations ?cs ?limit" by (simp add: progressive_file_line_allocations_def Let_def)
  have "length ?a = min ?limit (length line_counts) \<and> sum_list ?a \<le> ?limit \<and>
    list_all2 (\<lambda>shown all. min all (?limit div length ?a) \<le> shown \<and> shown \<le> all) ?a ?cs"
  proof (cases "line_counts = []")
    case True
    then have "?a = []" unfolding a by (simp add: fair_line_allocations_def)
    with True show ?thesis by simp
  next
    case False
    then have ne: "?cs \<noteq> []" using limit_pos [of expansion] by simp
    from fair_line_allocations_eq [OF ne _ limit_less [OF \<open>expansion \<noteq> AllOutput\<close>]] obtain extra where
      eq: "?a = map (min (?limit div length ?cs)) (butlast ?cs) @ [min (last ?cs) (?limit div length ?cs + extra)]"
      and sum: "sum_list ?a \<le> ?limit" unfolding a by auto
    have len: "length ?a = length ?cs" using ne by (simp add: eq)
    have cs: "?cs = butlast ?cs @ [last ?cs]" using ne by simp
    have "list_all2 (\<lambda>shown all. min all (?limit div length ?cs) \<le> shown \<and> shown \<le> all) ?a (butlast ?cs @ [last ?cs])"
      unfolding eq
      by (rule list_all2_appendI) (auto simp: list.rel_map min.commute intro!: list.rel_refl_strong)
    then have "list_all2 (\<lambda>shown all. min all (?limit div length ?a) \<le> shown \<and> shown \<le> all) ?a ?cs"
      using cs len by simp
    then show ?thesis using len sum by (simp add: min.commute)
  qed
  then show ?thesis unfolding if_not_P [OF False] Let_def by blast
qed

text \<open>
  A small diff hides lines for good. When the files of a diff have no more lines than the
  preview holds, the card has no button; but the shares are made file by file, so of two files the
  first shows at most half of the preview's lines, whatever is left over by the second.
\<close>

lemma small_diff_hides_lines:
  assumes "map (\<lambda>p. length (lines (df_content p))) (diff_file_presentations content) = [a, b]"
    and "5 < a" "a + b \<le> 10"
  shows "diff_fits_output_expansion content Preview \<and> progressive_diff_toggle content Preview = Some None \<and>
    progressive_file_line_allocations [a, b] Preview = [5, b]"
proof -
  have l: "length (diff_file_presentations content) = 2"
    using arg_cong [OF assms(1), of length] by simp
  have "diff_counts_for_limits content = (2, a + b)"
    using l assms(1) by (simp add: diff_counts_for_limits_def Let_def)
  moreover have "(10 :: nat) div Suc (Suc 0) = 5" by (simp add: numeral_2_eq_2 [symmetric])
  ultimately show ?thesis
    using assms(2,3)
    by (simp add: diff_fits_output_expansion_def progressive_diff_toggle_def progressive_line_limit_def
      progressive_file_line_allocations_def fair_line_allocations_def STRUCTURED_OUTPUT_PREVIEW_LINES_def
      usize_max_def Let_def)
qed

subsection \<open>Unified diffs\<close>

text \<open>The lines of a hunk, and what is to be shown for them.\<close>

datatype diff_op = Keep string | Insert string | Remove string | NoNewline

fun op_line :: "diff_op \<Rightarrow> string" where
  "op_line (Keep s) = CHR '' '' # s"
| "op_line (Insert s) = CHR ''+'' # s"
| "op_line (Remove s) = CHR ''-'' # s"
| "op_line NoNewline = CHR 0x5C # '' No newline at end of file''"

fun plain_op :: "diff_op \<Rightarrow> bool" where
  "plain_op (Keep s) = True"
| "plain_op (Insert s) = (\<not> prefix ''++'' s)"
| "plain_op (Remove s) = (\<not> prefix ''--'' s)"
| "plain_op NoNewline = True"

fun numbered :: "nat \<Rightarrow> nat \<Rightarrow> diff_op list \<Rightarrow> (DiffLineTone \<times> nat option \<times> nat option) list" where
  "numbered i j [] = []"
| "numbered i j (Keep s # ops) = (NormalLine, Some i, Some j) # numbered (i + 1) (j + 1) ops"
| "numbered i j (Insert s # ops) = (AdditionLine, None, Some j) # numbered i (j + 1) ops"
| "numbered i j (Remove s # ops) = (DeletionLine, Some i, None) # numbered (i + 1) j ops"
| "numbered i j (NoNewline # ops) = (NormalLine, None, None) # numbered i j ops"

type_synonym hunk = "string \<times> nat \<times> nat \<times> diff_op list"

fun hunk_ok :: "hunk \<Rightarrow> bool" where
  "hunk_ok (header, i, j, ops) \<longleftrightarrow> prefix ''@@'' header \<and> diff_hunk_starts header = Some (i, j) \<and>
     list_all plain_op ops \<and> i + length ops \<le> usize_max \<and> j + length ops \<le> usize_max"

fun hunk_lines :: "hunk \<Rightarrow> string list" where
  "hunk_lines (header, i, j, ops) = header # map op_line ops"

fun hunk_rows :: "hunk \<Rightarrow> (DiffLineTone \<times> nat option \<times> nat option) list" where
  "hunk_rows (header, i, j, ops) = (HunkLine, None, None) # numbered i j ops"

lemma tone_hunk: "prefix ''@@'' line \<Longrightarrow> diff_line_tone line h = (HunkLine, True)"
  by (auto simp: diff_line_tone_def starts_with_def prefix_def)

lemma tone_op:
  "plain_op op \<Longrightarrow> diff_line_tone (op_line op) True =
     (case op of Insert _ \<Rightarrow> AdditionLine | Remove _ \<Rightarrow> DeletionLine | _ \<Rightarrow> NormalLine, True)"
  by (cases op) (auto simp: diff_line_tone_def starts_with_def prefix_def)

lemma tone_preamble: "\<not> prefix ''@@'' line \<Longrightarrow> diff_line_tone line False = (NormalLine, False)"
  by (simp add: diff_line_tone_def starts_with_def)

lemma op_marker: "starts_with (op_line op) (CHR 0x5C # '' No newline'') \<longleftrightarrow> op = NoNewline"
  by (cases op) (simp_all add: starts_with_def)

lemma number_ops:
  assumes "list_all plain_op ops" "i + length ops \<le> usize_max" "j + length ops \<le> usize_max"
    and "\<And>k i j. number_lines True k True (Some i) (Some j) rest = Some shown"
  shows "number_lines True k True (Some i) (Some j) (map op_line ops @ rest) = Some (numbered i j ops @ shown)"
  using assms(1-3)
proof (induction ops arbitrary: k i j)
  case (Cons op ops)
  then show ?case
    by (cases op)
      (simp_all add: tone_op op_marker diff_line_numbers_def step_line_def del: op_line.simps)
qed (simp add: assms(4))

lemma number_hunks:
  "\<forall>h \<in> set hunks. hunk_ok h \<Longrightarrow>
    number_lines True k h i j (concat (map hunk_lines hunks)) = Some (concat (map hunk_rows hunks))"
proof (induction hunks arbitrary: k h i j)
  case (Cons x hunks)
  obtain header i' j' ops where x: "x = (header, i', j', ops)" by (cases x) auto
  have "number_lines True k True (Some i') (Some j') (map op_line ops @ concat (map hunk_lines hunks)) =
      Some (numbered i' j' ops @ concat (map hunk_rows hunks))" for k
    using Cons x by (intro number_ops) auto
  then show ?case using Cons.prems x by (simp add: tone_hunk diff_line_numbers_def)
qed simp

lemma number_preamble:
  assumes "\<forall>line \<in> set preamble. \<not> prefix ''@@'' line" "\<forall>h \<in> set hunks. hunk_ok h"
  shows "number_lines True k False None None (preamble @ concat (map hunk_lines hunks)) =
    Some (replicate (length preamble) (NormalLine, None, None) @ concat (map hunk_rows hunks))"
  using assms
  by (induction preamble arbitrary: k) (simp_all add: number_hunks tone_preamble diff_line_numbers_def)

lemma number_take:
  "number_lines u k h i j ls = Some shown \<Longrightarrow> number_lines u k h i j (take m ls) = Some (take m shown)"
proof (induction ls arbitrary: k h i j m shown)
  case (Cons line ls)
  then show ?case by (cases m) (auto simp: bind_eq_Some_conv split: prod.splits)
qed simp

lemma number_tones: "number_lines u k h i j ls = Some shown \<Longrightarrow> line_tones h ls = map fst shown"
  by (induction ls arbitrary: k h i j shown) (auto simp: bind_eq_Some_conv split: prod.splits)

lemma count_tones_eq:
  "count_tones tones = (count_list tones AdditionLine, count_list tones DeletionLine)"
proof -
  have "fold (\<lambda>tone (additions, deletions).
     case tone of AdditionLine \<Rightarrow> (additions + 1, deletions)
                | DeletionLine \<Rightarrow> (additions, deletions + 1)
                | _ \<Rightarrow> (additions, deletions)) tones (a, d) =
      (a + count_list tones AdditionLine, d + count_list tones DeletionLine)" for a d
    by (induction tones arbitrary: a d) (auto split: DiffLineTone.split)
  then show ?thesis by (simp add: count_tones_def)
qed

text \<open>
  C17. Unified diffs are read right, as long as no line of a hunk looks like a file header. For a file of any
  header lines and of hunks with kept, inserted and removed lines and markers of a missing
  newline, where no removed line begins with two dashes and no inserted one with two plus signs, every visible
  line has its tone and its line numbers of the old and of the new file (a marker has none), and
  the totals are the numbers of inserted and of removed lines. Without that condition the claim
  is false: see \<open>removed_comment_ends_hunk\<close>.
\<close>

theorem unified_diff_shown:
  assumes "lines content = preamble @ concat (map hunk_lines hunks)" "hunks \<noteq> []"
    and "\<forall>line \<in> set preamble. \<not> prefix ''@@'' line" "\<forall>h \<in> set hunks. hunk_ok h"
  shows "render_diff_lines content visible =
      Some (take visible (replicate (length preamble) (NormalLine, None, None) @ concat (map hunk_rows hunks))) \<and>
    diff_content_counts content =
      (let tones = map fst (concat (map hunk_rows hunks))
       in (count_list tones AdditionLine, count_list tones DeletionLine))"
proof -
  let ?shown = "replicate (length preamble) (NormalLine, None, None) @ concat (map hunk_rows hunks)"
  note n = number_preamble [OF assms(3,4), folded assms(1)]
  have "list_ex (\<lambda>line. starts_with line ''@@'') (lines content)"
    using assms(1,2,4) by (cases hunks) (auto simp: starts_with_def)
  then have "render_diff_lines content visible = Some (take visible ?shown)"
    using number_take [OF n] by (simp add: render_diff_lines_def)
  moreover have "diff_content_counts content = (count_list (map fst ?shown) AdditionLine, count_list (map fst ?shown) DeletionLine)"
    using number_tones [OF n] by (simp only: diff_content_counts_def count_tones_eq)
  moreover have "count_list (replicate k NormalLine) AdditionLine = 0" "count_list (replicate k NormalLine) DeletionLine = 0" for k
    by (induction k) simp_all
  ultimately show ?thesis by (simp add: Let_def)
qed

theorem unified_diff_shown_witness:
  "\<exists>content. lines content = [''@@ -7 +9 @@'', ''-a'', ''+b''] \<and> diff_content_counts content = (1, 1) \<and>
     render_diff_lines content 2 = Some [(HunkLine, None, None), (DeletionLine, Some 7, None)]"
proof -
  let ?hunk = "(''@@ -7 +9 @@'', 7, 9, [Remove ''a'', Insert ''b''])"
  have "lines (join [nl] [''@@ -7 +9 @@'', ''-a'', ''+b'']) = [''@@ -7 +9 @@'', ''-a'', ''+b'']" by code_simp
  then obtain content where l: "lines content = [''@@ -7 +9 @@'', ''-a'', ''+b'']" by blast
  have "split_whitespace ''@@ -7 +9 @@'' = [''@@'', ''-7'', ''+9'', ''@@'']" by code_simp
  moreover have "parse_usize ''7'' = Some 7" "parse_usize ''9'' = Some 9"
    by (simp_all add: parse_usize_def in_bytes_def usize_max_def)
  ultimately have "diff_hunk_starts ''@@ -7 +9 @@'' = Some (7, 9)"
    by (simp add: diff_hunk_starts_def hunk_start_def)
  then have "hunk_ok ?hunk" by (simp add: usize_max_def)
  then show ?thesis
    using unified_diff_shown [of content "[]" "[?hunk]" 2] l by (intro exI [of _ content]) simp
qed

text \<open>Removing a line that begins with two dashes and a space ends the hunk for the reader.\<close>

lemma tones_outside: "\<forall>line \<in> set ls. \<not> prefix ''@@'' line \<Longrightarrow> line_tones False ls = replicate (length ls) NormalLine"
  by (induction ls) (simp_all add: tone_preamble)

lemma removed_comment_ends_hunk:
  "line_tones True (map op_line (Remove (''-- '' @ s) # ops)) = replicate (Suc (length ops)) NormalLine"
proof -
  have "\<not> prefix ''@@'' (op_line op)" for op by (cases op) auto
  moreover have "diff_line_tone (op_line (Remove (''-- '' @ s))) True = (NormalLine, False)"
    by (simp add: diff_line_tone_def starts_with_def)
  ultimately show ?thesis by (simp add: tones_outside del: op_line.simps)
qed

subsection \<open>The files of a diff\<close>

lemma str_rfind_last: "match_at s p i \<Longrightarrow> (\<And>j. i < j \<Longrightarrow> \<not> match_at s p j) \<Longrightarrow> str_rfind s p = Some i"
  using str_rfind_None [of s p] str_rfind_Some [of s p] by (metis linorder_neqE_nat option.exhaust)

lemma rsplit_header:
  assumes "\<not> contains path '' b/''"
  shows "rsplit_once (front @ '' b/'' @ path) '' b/'' = Some (front, path)"
proof -
  let ?s = "front @ '' b/'' @ path"
  have "str_rfind ?s '' b/'' = Some (length front)"
  proof (rule str_rfind_last)
    show "match_at ?s '' b/'' (length front)" by (simp add: match_at_def)
    fix j assume "length front < j"
    then obtain k where j: "j = length front + Suc k" using less_iff_Suc_add by auto
    show "\<not> match_at ?s '' b/'' j"
    proof
      assume "match_at ?s '' b/'' j"
      then have m: "match_at ('' b/'' @ path) '' b/'' (Suc k)" by (simp add: match_at_def j)
      consider "k = 0" | "k = 1" | l where "k = Suc (Suc l)" by (metis One_nat_def nat.exhaust)
      then show False
      proof cases
        case (3 l)
        then have "match_at path '' b/'' l" using m by (simp add: match_at_Suc)
        then show False using assms contains_iff by blast
      qed (use m in \<open>simp_all add: match_at_def\<close>)
    qed
  qed
  then show ?thesis by (simp add: rsplit_once_def)
qed

text \<open>
  A path as git writes it without quotes. Its first directory must not be \<open>a\<close> or \<open>b\<close>: see
  \<open>header_path_loses_directory\<close>.
\<close>

definition clean_path :: "string \<Rightarrow> bool" where
  "clean_path path \<longleftrightarrow> path \<noteq> [] \<and> path \<noteq> ''/dev/null'' \<and> trim path = path \<and>
     CHR 0x22 \<notin> set path \<and> CHR 0x09 \<notin> set path \<and> \<not> contains path '' b/''"

lemma trim_matches_absent: "c \<notin> set s \<Longrightarrow> trim_matches {c} s = s"
proof -
  assume "c \<notin> set s"
  then have "dropWhile (\<lambda>x. x \<in> {c}) s = s" "dropWhile (\<lambda>x. x \<in> {c}) (rev s) = rev s"
    by (metis dropWhile_eq_self_iff hd_in_set set_rev singletonD)+
  then show ?thesis by (simp only: trim_matches_def trim_start_matches_def trim_end_matches_def rev_rev_ident)
qed

lemma split_once_absent: "c \<notin> set s \<Longrightarrow> split_once s [c] = None"
proof -
  assume "c \<notin> set s"
  then have "str_find s [c] = None"
    by (auto simp: str_find_None match_at_def prefix_def dest: in_set_dropD [of c] )
      (metis in_set_dropD list.set_intros(1))
  then show ?thesis by (simp add: split_once_def)
qed

lemma header_path:
  assumes "clean_path path"
  shows "diff_header_path (''diff --git '' @ front @ '' b/'' @ path) =
    Some (unwrap_or (or_else (strip_prefix path ''a/'') (strip_prefix path ''b/'')) path)"
proof -
  have *: "trim path = path" "trim_matches {CHR 0x22} path = path" "split_once path [CHR 0x09] = None"
    using assms by (simp_all add: clean_path_def trim_matches_absent split_once_absent)
  have "normalized_diff_path path = Some (unwrap_or (or_else (strip_prefix path ''a/'') (strip_prefix path ''b/'')) path)"
    using assms unfolding normalized_diff_path_def Let_def * option.case by (simp add: clean_path_def)
  moreover have "strip_prefix (''diff --git '' @ front @ '' b/'' @ path) ''diff --git '' = Some (front @ '' b/'' @ path)"
    by (simp only: strip_prefix_Some)
  ultimately show ?thesis
    using rsplit_header [of path front] assms by (simp add: diff_header_path_def clean_path_def)
qed

text \<open>The path of a file in a directory named \<open>a\<close> or \<open>b\<close> loses that directory.\<close>

lemma header_path_loses_directory:
  "clean_path (''a/'' @ path) \<Longrightarrow>
    diff_header_path (''diff --git a/a/'' @ path @ '' b/a/'' @ path) = Some path"
  using header_path [of "''a/'' @ path" "''a/a/'' @ path"] by simp

lemma diff_sections_body:
  "\<forall>line \<in> set body. \<not> prefix ''diff --git '' line \<Longrightarrow>
    diff_sections (body @ rest) path ls sections = diff_sections rest path (ls @ body) sections"
  by (induction body arbitrary: ls) (simp_all add: starts_with_def)

text \<open>A header line with the lines up to the next one, and the section it makes.\<close>

type_synonym diff_file = "string \<times> string list"

definition file_ok :: "diff_file \<Rightarrow> bool" where
  "file_ok f \<longleftrightarrow> prefix ''diff --git '' (fst f) \<and> (\<forall>line \<in> set (snd f). \<not> prefix ''diff --git '' line)"

definition body_path :: "string \<Rightarrow> string list \<Rightarrow> string option" where
  "body_path marker body =
     (case filter_map normalized_diff_path (map (drop (length marker)) (filter (prefix marker) body)) of
        [] \<Rightarrow> None
      | p # _ \<Rightarrow> Some p)"

definition section_shown :: "string option \<Rightarrow> string list \<Rightarrow> DiffFilePresentation list" where
  "section_shown path body =
     (if path = None \<and> body = [] then []
      else [\<lparr>df_path = unwrap_or (or_else path (or_else (body_path ''+++ '' body) (body_path ''--- '' body))) ''Diff'',
             df_content = trim_end (join [nl] body)\<rparr>])"

lemma strip_prefix_eq: "strip_prefix s p = (if prefix p s then Some (drop (length p) s) else None)"
proof (cases "prefix p s")
  case True
  then obtain r where "s = p @ r" by (auto simp: prefix_def)
  then show ?thesis using strip_prefix_Some [of s p r] by simp
next
  case False
  then show ?thesis using strip_prefix_Some [of s p] by (cases "strip_prefix s p") (auto simp: prefix_def)
qed

lemma find_body_path:
  "find_map (\<lambda>line. Option.bind (strip_prefix line marker) normalized_diff_path) body = body_path marker body"
proof -
  have "filter_map (\<lambda>line. Option.bind (strip_prefix line marker) normalized_diff_path) body =
      filter_map normalized_diff_path (map (drop (length marker)) (filter (prefix marker) body))"
    by (induction body) (auto simp: strip_prefix_eq split: option.split)
  then show ?thesis by (simp add: find_map_def body_path_def)
qed

lemma push_section: "push_diff_file_presentation path ls sections = sections @ section_shown path ls"
  by (simp add: push_diff_file_presentation_def section_shown_def find_body_path Let_def)

lemma strip_directory:
  "unwrap_or (or_else (strip_prefix path ''a/'') (strip_prefix path ''b/'')) path =
     (if prefix ''a/'' path \<or> prefix ''b/'' path then drop 2 path else path)"
  by (simp add: strip_prefix_eq or_else_def numeral_2_eq_2)

lemma diff_sections_files:
  assumes "\<forall>f \<in> set files. file_ok f"
  shows "diff_sections (concat (map (\<lambda>(header, body). header # body) files)) path ls sections =
    sections @ section_shown path ls @ concat (map (\<lambda>(header, body). section_shown (diff_header_path header) body) files)"
  using assms
proof (induction files arbitrary: path ls sections)
  case (Cons f files)
  obtain header body where f: "f = (header, body)" by (cases f) auto
  then show ?case
    using Cons diff_sections_body [of body] by (simp add: push_section file_ok_def starts_with_def)
qed (simp add: push_section)

text \<open>Every list of lines is some lines before the first header and the files behind it.\<close>

lemma lines_of_files:
  "\<exists>preamble files. ls = preamble @ concat (map (\<lambda>(header, body). header # body) files) \<and>
    (\<forall>line \<in> set preamble. \<not> prefix ''diff --git '' line) \<and> (\<forall>f \<in> set files. file_ok f)"
proof (induction ls)
  case (Cons line ls)
  then obtain preamble files where ls: "ls = preamble @ concat (map (\<lambda>(header, body). header # body) files)"
    "\<forall>line \<in> set preamble. \<not> prefix ''diff --git '' line" "\<forall>f \<in> set files. file_ok f" by blast
  show ?case
  proof (cases "prefix ''diff --git '' line")
    case True
    then show ?thesis using ls
      by (intro exI [of _ "[]"] exI [of _ "(line, preamble) # files"]) (simp add: file_ok_def)
  next
    case False
    then show ?thesis using ls by (intro exI [of _ "line # preamble"] exI [of _ files]) simp
  qed
qed (intro exI [of _ "[]"], simp)

text \<open>
  C18. A diff is taken apart at its header lines, whatever it is: its lines are some lines before the first
  header and the files behind it, each a header with the lines up to the next one, and
  the sections shown are these in their order, each with all of its lines but trailing white space. The
  path of a section is that of its header, or else that of its first \<open>+++\<close> or \<open>---\<close> line that has one;
  lines before the first header make a section of their own, and a part with neither path nor
  lines makes none. The path of a header that ends in \<open>b/\<close> and an unquoted path is that path, less
  a leading \<open>a/\<close> or \<open>b/\<close> (which is wrong for such directories: see \<open>header_path_loses_directory\<close>).
\<close>

theorem diff_files_separated:
  "(\<exists>preamble files.
     lines content = preamble @ concat (map (\<lambda>(header, body). header # body) files) \<and>
     (\<forall>line \<in> set preamble. \<not> prefix ''diff --git '' line) \<and> (\<forall>f \<in> set files. file_ok f) \<and>
     (let shown = section_shown None preamble @
          concat (map (\<lambda>(header, body). section_shown (diff_header_path header) body) files)
      in diff_file_presentations content =
           (if shown = [] \<and> trim content \<noteq> [] then [\<lparr>df_path = ''Diff'', df_content = trim_end content\<rparr>] else shown))) \<and>
   (clean_path path \<longrightarrow> diff_header_path (''diff --git '' @ front @ '' b/'' @ path) =
      Some (if prefix ''a/'' path \<or> prefix ''b/'' path then drop 2 path else path))"
proof -
  obtain preamble files where ls: "lines content = preamble @ concat (map (\<lambda>(header, body). header # body) files)"
    "\<forall>line \<in> set preamble. \<not> prefix ''diff --git '' line" "\<forall>f \<in> set files. file_ok f"
    using lines_of_files by blast
  have "diff_sections (lines content) None [] [] =
      section_shown None preamble @ concat (map (\<lambda>(header, body). section_shown (diff_header_path header) body) files)"
    using diff_sections_body [OF ls(2), of _ None "[]" "[]"] diff_sections_files [OF ls(3)] by (simp add: ls(1))
  then have "let shown = section_shown None preamble @
          concat (map (\<lambda>(header, body). section_shown (diff_header_path header) body) files)
      in diff_file_presentations content =
           (if shown = [] \<and> trim content \<noteq> [] then [\<lparr>df_path = ''Diff'', df_content = trim_end content\<rparr>] else shown)"
    by (simp add: diff_file_presentations_def Let_def)
  moreover have "clean_path path \<longrightarrow> diff_header_path (''diff --git '' @ front @ '' b/'' @ path) =
      Some (if prefix ''a/'' path \<or> prefix ''b/'' path then drop 2 path else path)"
    using header_path [of path front] by (auto simp: strip_directory)
  ultimately show ?thesis using ls by blast
qed

theorem diff_files_separated_witness:
  "clean_path ''x'' \<and> diff_header_path (''diff --git '' @ ''a/x'' @ '' b/'' @ ''x'') = Some ''x''"
proof -
  have "clean_path ''x''" by code_simp
  then show ?thesis using diff_files_separated [of "[]" "''x''" "''a/x''"] by simp
qed

end
