(* ===== verification/OutputCards.thy ===== *)
theory OutputCards
  imports DiffCards
begin

text \<open>
  The cards of the remaining kinds of output (\<open>crates/harness_app/src/main.rs\<close>): the sections of
  an activity, the tokens of JSON text, the results of a web search, and for an item of any kind
  whether its card can be expanded, whether a step shows all of it, and the step that follows.
\<close>

subsection \<open>Activities\<close>

record ActivityTextSection =
  ats_heading :: "string option"
  ats_body :: string

record ActivitySectionPresentation =
  asp_heading :: "string option"
  asp_body :: string
  asp_is_json :: bool

record ActivityOutputPresentation =
  aop_sections :: "ActivitySectionPresentation list"
  aop_toggle :: "ProgressiveOutputToggle option"

definition HEADINGS :: "string list" where
  "HEADINGS = [''Arguments'', ''Result'', ''Structured result'', ''Error'', ''Prompt'', ''Agents'',
     ''Query'', ''Page'', ''Find'']"

definition push_block :: "string \<Rightarrow> ActivityTextSection list \<Rightarrow> ActivityTextSection list" where
  "push_block block sections =
     (let (first_line, remainder) = (case split_once block [nl] of Some p \<Rightarrow> p | None \<Rightarrow> (block, []))
      in if first_line \<in> set HEADINGS
         then sections @ [\<lparr>ats_heading = Some first_line, ats_body = remainder\<rparr>]
         else if sections \<noteq> []
         then butlast sections @ [(last sections)\<lparr>ats_body :=
                (if ats_body (last sections) = [] then [] else ats_body (last sections) @ blank_line) @ block\<rparr>]
         else sections @ [\<lparr>ats_heading = None, ats_body = block\<rparr>])"

definition activity_text_sections :: "string \<Rightarrow> ActivityTextSection list" where
  "activity_text_sections content =
     fold push_block (filter (\<lambda>block. block \<noteq> []) (split_str blank_line content)) []"

text \<open>\<open>all\<close> with a test that may panic.\<close>

fun all_fit :: "('a \<Rightarrow> bool option) \<Rightarrow> 'a list \<Rightarrow> bool option" where
  "all_fit fits [] = Some True"
| "all_fit fits (x # xs) = do { fit \<leftarrow> fits x; if fit then all_fit fits xs else Some False }"

definition activity_sections_fit_output_expansion ::
  "ActivityTextSection list \<Rightarrow> OutputExpansion \<Rightarrow> bool option" where
  "activity_sections_fit_output_expansion sections expansion =
     all_fit (\<lambda>section. content_fits_output_expansion (ats_body section) expansion
        STRUCTURED_OUTPUT_PREVIEW_LINES STRUCTURED_OUTPUT_PREVIEW_BYTES) sections"

definition activity_output_toggle ::
  "ActivityTextSection list \<Rightarrow> OutputExpansion \<Rightarrow> ProgressiveOutputToggle option option" where
  "activity_output_toggle sections current =
     do { fit \<leftarrow> activity_sections_fit_output_expansion sections Preview;
          if fit then Some None
          else do {
            next_expansion \<leftarrow> next_useful_output_expansion current
              (\<lambda>candidate. activity_sections_fit_output_expansion sections candidate);
            let limits = output_limits next_expansion STRUCTURED_OUTPUT_PREVIEW_LINES STRUCTURED_OUTPUT_PREVIEW_BYTES
            in Some (Some \<lparr>to_label = (case next_expansion of
                 Preview \<Rightarrow> ''Collapse to preview''
               | AllOutput \<Rightarrow> ''Show all activity''
               | _ \<Rightarrow> if list_ex (\<lambda>section. length (lines (ats_body section)) > ol_lines limits) sections
                      then ''Show up to '' @ dec (ol_lines limits) @ '' lines per section''
                      else ''Show up to '' @ dec (ol_bytes limits div 1024) @ '' KiB per section''),
               to_next = next_expansion\<rparr>) } }"

text \<open>Whether a text is JSON is decided by \<open>serde_json\<close>, a parameter.\<close>

definition activity_section_presentation ::
  "(string \<Rightarrow> bool) \<Rightarrow> OutputLimits \<Rightarrow> ActivityTextSection \<Rightarrow> ActivitySectionPresentation option" where
  "activity_section_presentation is_valid_json limits section =
     map_option (\<lambda>p. \<lparr>asp_heading = ats_heading section, asp_body = so_content p,
                      asp_is_json = is_valid_json (ats_body section)\<rparr>)
       (structured_output_preview_with_limits (ats_body section) ''section'' (ol_lines limits) (ol_bytes limits))"

fun all_some :: "'a option list \<Rightarrow> 'a list option" where
  "all_some [] = Some []"
| "all_some (x # xs) = do { y \<leftarrow> x; ys \<leftarrow> all_some xs; Some (y # ys) }"

definition activity_output_presentation ::
  "(string \<Rightarrow> bool) \<Rightarrow> string \<Rightarrow> OutputExpansion \<Rightarrow> ActivityOutputPresentation option option" where
  "activity_output_presentation is_valid_json content expansion =
     (let sections = activity_text_sections content
      in if \<not> list_ex (\<lambda>section. ats_heading section \<noteq> None) sections then Some None
         else
           let limits = output_limits expansion STRUCTURED_OUTPUT_PREVIEW_LINES STRUCTURED_OUTPUT_PREVIEW_BYTES
           in do { toggle \<leftarrow> activity_output_toggle sections expansion;
                   sections \<leftarrow> all_some (map (activity_section_presentation is_valid_json limits) sections);
                   Some (Some \<lparr>aop_sections = sections, aop_toggle = toggle\<rparr>) })"

subsection \<open>JSON tokens\<close>

datatype JsonTokenKind = TokenKey | TokenString | TokenNumber | TokenLiteral | TokenPunctuation

record JsonToken =
  jt_range :: "nat \<times> nat"
  jt_kind :: JsonTokenKind

definition is_ascii_whitespace :: "char \<Rightarrow> bool" where
  "is_ascii_whitespace b = (b \<in> {CHR 0x20, CHR 0x09, CHR 0x0A, CHR 0x0C, CHR 0x0D})"

definition is_ascii_alphabetic :: "char \<Rightarrow> bool" where
  "is_ascii_alphabetic b = (in_bytes 0x41 0x5A b \<or> in_bytes 0x61 0x7A b)"

definition number_start :: "char \<Rightarrow> bool" where
  "number_start b = (b = CHR ''-'' \<or> in_bytes 0x30 0x39 b)"

definition number_byte :: "char \<Rightarrow> bool" where
  "number_byte b = (in_bytes 0x30 0x39 b \<or> b \<in> {CHR ''.'', CHR ''e'', CHR ''E'', CHR ''+'', CHR ''-''})"

definition punctuation :: "char \<Rightarrow> bool" where
  "punctuation b = (b \<in> {CHR ''{'', CHR ''}'', CHR ''['', CHR '']'', CHR '':'', CHR '',''})"

text \<open>How many bytes of the rest a string takes: up to its closing quote, or all of them.\<close>

fun string_rest :: "string \<Rightarrow> nat" where
  "string_rest [] = 0"
| "string_rest (b # bs) =
     (if b = CHR 0x5C then (case bs of [] \<Rightarrow> 1 | _ # bs' \<Rightarrow> 2 + string_rest bs')
      else if b = CHR 0x22 then 1
      else 1 + string_rest bs)"

function json_tokens_from :: "string \<Rightarrow> nat \<Rightarrow> JsonToken list" where
  "json_tokens_from bytes offset =
     (if offset < length bytes then
        let b = bytes ! offset; rest = drop (offset + 1) bytes
        in if b = CHR 0x22 then
             let finish = offset + 1 + string_rest rest;
                 after = finish + length (takeWhile is_ascii_whitespace (drop finish bytes))
             in \<lparr>jt_range = (offset, finish),
                 jt_kind = (if get_at bytes after = Some (CHR '':'') then TokenKey else TokenString)\<rparr> #
                json_tokens_from bytes finish
           else if number_start b then
             let finish = offset + 1 + length (takeWhile number_byte rest)
             in \<lparr>jt_range = (offset, finish), jt_kind = TokenNumber\<rparr> # json_tokens_from bytes finish
           else if b \<in> {CHR ''t'', CHR ''f'', CHR ''n''} then
             let finish = offset + 1 + length (takeWhile is_ascii_alphabetic rest)
             in \<lparr>jt_range = (offset, finish), jt_kind = TokenLiteral\<rparr> # json_tokens_from bytes finish
           else if punctuation b then
             \<lparr>jt_range = (offset, offset + 1), jt_kind = TokenPunctuation\<rparr> # json_tokens_from bytes (offset + 1)
           else json_tokens_from bytes (offset + 1)
      else [])"
  by pat_completeness auto
termination
  by (relation "measure (\<lambda>(bytes, offset). length bytes - offset)") auto

declare json_tokens_from.simps [simp del]

definition json_tokens_unchecked :: "string \<Rightarrow> JsonToken list" where
  "json_tokens_unchecked content = json_tokens_from content 0"

subsection \<open>Web searches\<close>

record WebResultPresentation =
  wr_title :: string
  wr_url :: "string option"
  wr_snippet :: "string option"

record WebSearchPresentation =
  ws_related_queries :: nat
  ws_results :: "WebResultPresentation list"

definition WEB_RESULT_PREVIEW_COUNT :: nat where "WEB_RESULT_PREVIEW_COUNT = 3"
definition PROGRESSIVE_WEB_MEDIUM_RESULTS :: nat where "PROGRESSIVE_WEB_MEDIUM_RESULTS = 10"
definition PROGRESSIVE_WEB_LARGE_RESULTS :: nat where "PROGRESSIVE_WEB_LARGE_RESULTS = 50"

definition compact_web_text :: "string \<Rightarrow> string" where
  "compact_web_text s = join '' '' (split_whitespace s)"

definition web_search_has_hidden_content :: "WebSearchPresentation \<Rightarrow> bool" where
  "web_search_has_hidden_content presentation =
     (let long = (\<lambda>limit s. case s of None \<Rightarrow> False | Some s \<Rightarrow> char_count s > limit)
      in length (ws_results presentation) > WEB_RESULT_PREVIEW_COUNT \<or>
         list_ex (\<lambda>result. char_count (wr_title result) > 100 \<or> long 140 (wr_url result) \<or>
           long 120 (wr_snippet result)) (ws_results presentation))"

definition web_result :: "json \<Rightarrow> WebResultPresentation option" where
  "web_result result =
     (case as_str result of
        Some s \<Rightarrow> Some \<lparr>wr_title = compact_web_text s, wr_url = None, wr_snippet = None\<rparr>
      | None \<Rightarrow>
          let title = Option.bind (or_else (or_else (jget ''title'' result) (jget ''name'' result)) (jget ''text'' result)) as_str;
              url = Option.bind (or_else (jget ''url'' result) (jget ''link'' result)) as_str;
              snippet = Option.bind (or_else (or_else (jget ''snippet'' result) (jget ''description'' result))
                (jget ''content'' result)) as_str
          in if title \<noteq> None \<or> url \<noteq> None \<or> snippet \<noteq> None
             then Some \<lparr>wr_title = compact_web_text (unwrap_or title ''Result''),
                        wr_url = map_option compact_web_text url,
                        wr_snippet = map_option compact_web_text snippet\<rparr>
             else None)"

definition web_query_count :: "json \<Rightarrow> nat" where
  "web_query_count raw =
     (let action = unwrap_or (jget ''action'' raw) JNull
      in case Option.bind (jget ''queries'' action) as_array of
           Some queries \<Rightarrow> length (filter (\<lambda>query. as_str query \<noteq> None) queries)
         | None \<Rightarrow> if Option.bind (jget ''query'' action) as_str \<noteq> None \<or>
                      Option.bind (jget ''query'' raw) as_str \<noteq> None then 1 else 0)"

definition web_search_presentation :: "json \<Rightarrow> WebSearchPresentation" where
  "web_search_presentation raw =
     \<lparr>ws_related_queries = web_query_count raw - 1,
      ws_results = filter_map web_result (unwrap_or (Option.bind (jget ''results'' raw) as_array) [])\<rparr>"

definition progressive_web_limit :: "OutputExpansion \<Rightarrow> nat" where
  "progressive_web_limit expansion =
     (case expansion of Preview \<Rightarrow> WEB_RESULT_PREVIEW_COUNT
        | Medium \<Rightarrow> PROGRESSIVE_WEB_MEDIUM_RESULTS
        | Large \<Rightarrow> PROGRESSIVE_WEB_LARGE_RESULTS
        | AllOutput \<Rightarrow> usize_max)"

definition next_web_expansion :: "OutputExpansion \<Rightarrow> nat \<Rightarrow> OutputExpansion option" where
  "next_web_expansion current result_count =
     next_useful_output_expansion current (\<lambda>candidate.
       Some (candidate \<noteq> Preview \<and> result_count \<le> progressive_web_limit candidate))"

definition progressive_web_toggle ::
  "OutputExpansion \<Rightarrow> nat \<Rightarrow> bool \<Rightarrow> ProgressiveOutputToggle option option" where
  "progressive_web_toggle current result_count has_hidden_content =
     (if \<not> has_hidden_content then Some None
      else do { next_expansion \<leftarrow> next_web_expansion current result_count;
                Some (Some \<lparr>to_label = (case next_expansion of
                    Preview \<Rightarrow> ''Collapse to preview''
                  | AllOutput \<Rightarrow> if result_count > WEB_RESULT_PREVIEW_COUNT
                      then ''Show all '' @ dec result_count @ '' results'' else ''Show all result details''
                  | _ \<Rightarrow> ''Show first '' @ dec (progressive_web_limit next_expansion) @ '' results''),
                  to_next = next_expansion\<rparr>) })"

subsection \<open>The card of an item\<close>

definition command_text :: "CommandTranscript \<Rightarrow> string" where
  "command_text command = trim_end_matches {cr, nl} (ct_command command)"

definition command_fits_output_expansion :: "CommandTranscript \<Rightarrow> OutputExpansion \<Rightarrow> bool option" where
  "command_fits_output_expansion command expansion =
     do { fit \<leftarrow> content_fits_output_expansion (command_text command) expansion
            COMMAND_PREVIEW_LINES COMMAND_PREVIEW_BYTES;
          if fit then content_fits_output_expansion (command_output_for_display (ct_output command)) expansion
            STRUCTURED_OUTPUT_PREVIEW_LINES STRUCTURED_OUTPUT_PREVIEW_BYTES
          else Some False }"

definition next_command_expansion :: "CommandTranscript \<Rightarrow> OutputExpansion \<Rightarrow> OutputExpansion option" where
  "next_command_expansion command current =
     next_useful_output_expansion current (command_fits_output_expansion command)"

definition command_output_toggle ::
  "CommandTranscript \<Rightarrow> OutputExpansion \<Rightarrow> ProgressiveOutputToggle option option" where
  "command_output_toggle command current =
     do { fit \<leftarrow> command_fits_output_expansion command Preview;
          if fit then Some None
          else do { next_expansion \<leftarrow> next_command_expansion command current;
                    Some (Some \<lparr>to_label = (case next_expansion of
                        Preview \<Rightarrow> ''Collapse to preview''
                      | AllOutput \<Rightarrow> ''Show all command and output''
                      | _ \<Rightarrow> ''Show up to '' @
                          dec (ol_lines (output_limits next_expansion STRUCTURED_OUTPUT_PREVIEW_LINES usize_max)) @
                          '' lines per section''), to_next = next_expansion\<rparr>) } }"

text \<open>Whether \<open>structured_output_preview\<close> has a footer.\<close>

definition shortened :: "StructuredOutputPreview option \<Rightarrow> bool option" where
  "shortened preview = map_option (\<lambda>p. so_footer p \<noteq> None) preview"

definition transcript_output_is_expandable :: "(string \<Rightarrow> bool) \<Rightarrow> TranscriptItem \<Rightarrow> bool option" where
  "transcript_output_is_expandable is_valid_json item =
     (let plain = shortened (structured_output_preview (it_content item) ''output'')
      in case it_kind item of
           Command \<Rightarrow>
             (case command_transcript item of
                None \<Rightarrow> Some False
              | Some command \<Rightarrow>
                  do { long \<leftarrow> shortened (structured_output_preview_with_limits (command_text command) ''command''
                         COMMAND_PREVIEW_LINES COMMAND_PREVIEW_BYTES);
                       if long then Some True
                       else shortened (structured_output_preview
                         (command_output_for_display (ct_output command)) ''output'') })
         | Web \<Rightarrow> Some (web_search_has_hidden_content (web_search_presentation (it_raw item)))
         | Diff \<Rightarrow> Some (\<not> diff_fits_output_expansion (it_content item) Preview)
         | FileChange \<Rightarrow> Some (\<not> file_change_fits_output_expansion (it_content item) Preview)
         | Image \<Rightarrow> Some False | Approval \<Rightarrow> Some False
         | k \<Rightarrow>
             if k \<in> {Tool, Subagent, Review} then
               do { presentation \<leftarrow> activity_output_presentation is_valid_json (it_content item) Preview;
                    case presentation of
                      Some p \<Rightarrow> Some (aop_toggle p \<noteq> None)
                    | None \<Rightarrow> plain }
             else if is_structured k then plain else Some False)"

definition plain_fits :: "TranscriptItem \<Rightarrow> OutputExpansion \<Rightarrow> bool option" where
  "plain_fits item expansion = content_fits_output_expansion (it_content item) expansion
     STRUCTURED_OUTPUT_PREVIEW_LINES STRUCTURED_OUTPUT_PREVIEW_BYTES"

definition output_expansion_reveals_all :: "TranscriptItem \<Rightarrow> OutputExpansion \<Rightarrow> bool option" where
  "output_expansion_reveals_all item expansion =
     (case it_kind item of
        Command \<Rightarrow>
          (case command_transcript item of
             None \<Rightarrow> Some False
           | Some command \<Rightarrow> command_fits_output_expansion command expansion)
      | Web \<Rightarrow> Some (expansion \<noteq> Preview \<and>
          length (ws_results (web_search_presentation (it_raw item))) \<le> progressive_web_limit expansion)
      | Diff \<Rightarrow> Some (diff_fits_output_expansion (it_content item) expansion)
      | FileChange \<Rightarrow> Some (file_change_fits_output_expansion (it_content item) expansion)
      | Image \<Rightarrow> Some True | Approval \<Rightarrow> Some True
      | k \<Rightarrow>
          if k \<in> {Tool, Subagent, Review} then
            let sections = activity_text_sections (it_content item)
            in if list_ex (\<lambda>section. ats_heading section \<noteq> None) sections
               then activity_sections_fit_output_expansion sections expansion
               else plain_fits item expansion
          else if is_structured k then plain_fits item expansion else Some True)"

definition next_item_output_expansion :: "TranscriptItem \<Rightarrow> OutputExpansion \<Rightarrow> OutputExpansion option" where
  "next_item_output_expansion item current =
     (case it_kind item of
        Command \<Rightarrow>
          (case command_transcript item of
             None \<Rightarrow> Some Preview
           | Some command \<Rightarrow> next_command_expansion command current)
      | Web \<Rightarrow> next_web_expansion current (length (ws_results (web_search_presentation (it_raw item))))
      | Diff \<Rightarrow> next_diff_expansion (it_content item) current
      | FileChange \<Rightarrow> next_file_change_expansion (it_content item) current
      | Image \<Rightarrow> Some Preview | Approval \<Rightarrow> Some Preview
      | k \<Rightarrow>
          if k \<in> {Tool, Subagent, Review} then
            let sections = activity_text_sections (it_content item)
            in if list_ex (\<lambda>section. ats_heading section \<noteq> None) sections
               then map_option (\<lambda>toggle. case toggle of Some t \<Rightarrow> to_next t | None \<Rightarrow> Preview)
                 (activity_output_toggle sections current)
               else next_useful_output_expansion current (plain_fits item)
          else if is_structured k then next_useful_output_expansion current (plain_fits item)
          else Some Preview)"

definition rich_search_match_needs_context ::
  "(string \<Rightarrow> bool) \<Rightarrow> TranscriptItem \<Rightarrow> OutputExpansion \<Rightarrow> bool option" where
  "rich_search_match_needs_context is_valid_json item expansion =
     (if \<not> it_expanded item then Some True
      else do { expandable \<leftarrow> transcript_output_is_expandable is_valid_json item;
                if expandable then map_option Not (output_expansion_reveals_all item expansion) else Some False })"

subsection \<open>JSON tokens are safe to paint\<close>

lemma ascii_not_cont: "in_bytes 0 0x7F c \<Longrightarrow> \<not> is_cont c"
  by (rule in_bytes_lead [of 0 "0x7F"]) simp_all

lemma utf8_ascii_boundary:
  assumes "utf8 s" "i < length s" "in_bytes 0 0x7F (s ! i)"
  shows "char_boundary s i \<and> char_boundary s (i + 1)"
proof
  show "char_boundary s i" using assms(2,3) ascii_not_cont by (simp add: char_boundary_def)
  show "char_boundary s (i + 1)"
    using assms
  proof (induction s arbitrary: i rule: utf8_induct)
    case (Char g s)
    show ?case
    proof (cases "i < length g")
      case True
      have "length g = 1"
        using utf8_char_bytes [OF Char(1), of "g ! i"] Char.prems True by (auto simp: nth_append)
      then show ?thesis
        using True utf8_prefix_boundary [of g s] utf8_single [OF Char(1)] Char(2) utf8_append by fastforce
    next
      case False
      then have "char_boundary s (i - length g + 1)" using Char.IH [of "i - length g"] Char.prems by (simp add: nth_append)
      then show ?thesis using False by (auto simp: char_boundary_def nth_append Suc_diff_le split: if_splits)
    qed
  qed simp
qed

lemma string_rest_end:
  "string_rest bs \<le> length bs \<and>
    (string_rest bs = length bs \<or> 0 < string_rest bs \<and> bs ! (string_rest bs - 1) = CHR 0x22)"
proof (induction bs rule: string_rest.induct)
  case (2 b bs)
  show ?case
  proof (cases "b = CHR 0x5C")
    case True
    show ?thesis
    proof (cases bs)
      case (Cons c bs')
      with 2(1) [OF True Cons] True show ?thesis by (cases "string_rest bs'") simp_all
    qed (simp add: True)
  next
    case False
    show ?thesis
    proof (cases "b = CHR 0x22")
      case quote: False
      with 2(2) [OF False quote] False show ?thesis by (cases "string_rest bs") simp_all
    qed (simp add: False)
  qed
qed simp

text \<open>Bytes that begin a token.\<close>

definition token_start :: "char \<Rightarrow> bool" where
  "token_start b \<longleftrightarrow> b = CHR 0x22 \<or> number_start b \<or> b \<in> {CHR ''t'', CHR ''f'', CHR ''n''} \<or> punctuation b"

lemma token_bytes_ascii:
  "token_start b \<Longrightarrow> in_bytes 0 0x7F b" "number_byte b \<Longrightarrow> in_bytes 0 0x7F b"
  "is_ascii_alphabetic b \<Longrightarrow> in_bytes 0 0x7F b"
  by (auto simp: token_start_def number_start_def number_byte_def is_ascii_alphabetic_def punctuation_def in_bytes_def)

lemma run_boundary:
  assumes "utf8 s" "i < length s" "in_bytes 0 0x7F (s ! i)" "\<And>b. P b \<Longrightarrow> in_bytes 0 0x7F b"
  shows "char_boundary s (i + 1 + length (takeWhile P (drop (i + 1) s))) \<and>
    i + 1 + length (takeWhile P (drop (i + 1) s)) \<le> length s"
proof (cases "takeWhile P (drop (i + 1) s)" rule: rev_cases)
  case Nil
  then show ?thesis using utf8_ascii_boundary [OF assms(1-3)] assms(2) by simp
next
  case (snoc xs b)
  let ?n = "length (takeWhile P (drop (i + 1) s))"
  have n: "i + 1 + ?n \<le> length s" using length_takeWhile_le [of P "drop (i + 1) s"] assms(2) by simp
  have "0 < ?n" unfolding snoc by simp
  then obtain m where m: "?n = Suc m" using gr0_implies_Suc by blast
  have at: "s ! (i + ?n) = takeWhile P (drop (i + 1) s) ! m"
    using takeWhile_nth [of m P "drop (i + 1) s"] nth_drop [of "i + 1" s m] assms(2) m by simp
  have "P (takeWhile P (drop (i + 1) s) ! m)"
    using m nth_mem [of m "takeWhile P (drop (i + 1) s)"] set_takeWhileD by fastforce
  then have "in_bytes 0 0x7F (s ! (i + ?n))" using at assms(4) by simp
  moreover have "i + ?n < length s" using n by simp
  ultimately show ?thesis using utf8_ascii_boundary [OF assms(1), of "i + ?n"] n by (simp add: add.commute)
qed

lemma string_boundary:
  assumes "utf8 s" "i < length s"
  shows "char_boundary s (i + 1 + string_rest (drop (i + 1) s)) \<and> i + 1 + string_rest (drop (i + 1) s) \<le> length s"
proof -
  let ?r = "drop (i + 1) s" and ?n = "string_rest (drop (i + 1) s)"
  have n: "?n \<le> length ?r" "?n = length ?r \<or> 0 < ?n \<and> ?r ! (?n - 1) = CHR 0x22" using string_rest_end by blast+
  have le: "i + 1 + ?n \<le> length s" using n(1) assms(2) by simp
  show ?thesis
  proof (cases "?n = length ?r")
    case True
    then have "i + 1 + ?n = length s" using assms(2) by simp
    then show ?thesis by simp
  next
    case False
    then have "0 < ?n" "?r ! (?n - 1) = CHR 0x22" using n(2) by blast+
    moreover from this(1) have "i + 1 + (?n - 1) = i + ?n" by simp
    ultimately have "s ! (i + ?n) = CHR 0x22" using assms(2) by (metis Suc_eq_plus1 Suc_leI nth_drop)
    moreover have "i + ?n < length s" using le by simp
    ultimately show ?thesis
      using utf8_ascii_boundary [OF assms(1), of "i + ?n"] le by (simp add: in_bytes_def add.commute)
  qed
qed

definition tokens_ok :: "string \<Rightarrow> nat \<Rightarrow> JsonToken list \<Rightarrow> bool" where
  "tokens_ok s offset tokens \<longleftrightarrow>
     sorted_wrt (\<lambda>t u. snd (jt_range t) \<le> fst (jt_range u)) tokens \<and>
     (\<forall>t \<in> set tokens. offset \<le> fst (jt_range t) \<and> fst (jt_range t) < snd (jt_range t) \<and>
        char_boundary s (fst (jt_range t)) \<and> char_boundary s (snd (jt_range t))) \<and>
     (\<forall>i. offset \<le> i \<and> i < length s \<and> token_start (s ! i) \<longrightarrow>
        (\<exists>t \<in> set tokens. fst (jt_range t) \<le> i \<and> i < snd (jt_range t)))"

lemma tokens_ok_Cons:
  assumes "tokens_ok s finish tokens" "offset < finish" "char_boundary s offset" "char_boundary s finish"
  shows "tokens_ok s offset (\<lparr>jt_range = (offset, finish), jt_kind = k\<rparr> # tokens)"
  using assms unfolding tokens_ok_def by (auto simp: not_less)

lemma tokens_ok_skip: "tokens_ok s (offset + 1) tokens \<Longrightarrow> \<not> token_start (s ! offset) \<Longrightarrow> tokens_ok s offset tokens"
  unfolding tokens_ok_def by (auto simp: Suc_le_eq) (metis le_neq_implies_less)+

lemma json_tokens_ok: "utf8 s \<Longrightarrow> tokens_ok s offset (json_tokens_from s offset)"
proof (induction s offset rule: json_tokens_from.induct)
  case (1 s offset)
  show ?case
  proof (cases "offset < length s")
    case False
    then show ?thesis by (simp add: json_tokens_from.simps [of s offset] tokens_ok_def)
  next
    case True
    note IH = 1(1-5) [OF True refl refl]
    let ?b = "s ! offset"
    show ?thesis
    proof (cases "token_start ?b")
      case False
      then have "json_tokens_from s offset = json_tokens_from s (offset + 1)"
        using True by (simp add: json_tokens_from.simps [of s offset] token_start_def)
      moreover have "tokens_ok s (offset + 1) (json_tokens_from s (offset + 1))"
        using False "1.prems" by (intro IH(5)) (auto simp: token_start_def)
      ultimately show ?thesis using False tokens_ok_skip by simp
    next
      case start: True
      note ascii = token_bytes_ascii(1) [OF start]
      note b = utf8_ascii_boundary [OF "1.prems" True ascii]
      consider "?b = CHR 0x22" | "?b \<noteq> CHR 0x22" "number_start ?b"
        | "?b \<noteq> CHR 0x22" "\<not> number_start ?b" "?b \<in> {CHR ''t'', CHR ''f'', CHR ''n''}"
        | "?b \<noteq> CHR 0x22" "\<not> number_start ?b" "?b \<notin> {CHR ''t'', CHR ''f'', CHR ''n''}" "punctuation ?b"
        using start by (auto simp: token_start_def)
      then show ?thesis
      proof cases
        case 1
        then show ?thesis
          using True IH(1) "1.prems" b string_boundary [OF "1.prems" True]
          by (simp add: json_tokens_from.simps [of s offset] Let_def tokens_ok_Cons)
      next
        case 2
        then show ?thesis
          using True IH(2) "1.prems" b run_boundary [OF "1.prems" True ascii, of number_byte] token_bytes_ascii(2)
          by (simp add: json_tokens_from.simps [of s offset] Let_def tokens_ok_Cons)
      next
        case 3
        then show ?thesis
          using True IH(3) "1.prems" b run_boundary [OF "1.prems" True ascii, of is_ascii_alphabetic] token_bytes_ascii(3)
          by (simp add: json_tokens_from.simps [of s offset] Let_def tokens_ok_Cons)
      next
        case 4
        then show ?thesis
          using True IH(4) "1.prems" b
          by (simp add: json_tokens_from.simps [of s offset] Let_def tokens_ok_Cons)
      qed
    qed
  qed
qed

text \<open>
  C16. The colours of JSON text are safe and complete. On any well-formed text, valid JSON or cut
  off, the tokens are in order, disjoint and not empty, begin and end at character boundaries
  within the text, and no quote, digit, bracket or letter that begins a literal lies outside them.
\<close>

theorem json_tokens_safe:
  assumes "utf8 content"
  shows "sorted_wrt (\<lambda>t u. snd (jt_range t) \<le> fst (jt_range u)) (json_tokens_unchecked content) \<and>
    (\<forall>t \<in> set (json_tokens_unchecked content). fst (jt_range t) < snd (jt_range t) \<and> snd (jt_range t) \<le> length content \<and>
       char_boundary content (fst (jt_range t)) \<and> char_boundary content (snd (jt_range t))) \<and>
    (\<forall>i < length content. token_start (content ! i) \<longrightarrow>
       (\<exists>t \<in> set (json_tokens_unchecked content). fst (jt_range t) \<le> i \<and> i < snd (jt_range t)))"
  using json_tokens_ok [OF assms, of 0] char_boundary_le by (auto simp: tokens_ok_def json_tokens_unchecked_def)

theorem json_tokens_safe_witness:
  "\<exists>t \<in> set (json_tokens_unchecked ''{1''). fst (jt_range t) \<le> 1 \<and> 1 < snd (jt_range t)"
proof -
  have "utf8 ''{1''" by (rule ascii_utf8) (simp add: ascii_def in_bytes_def)
  from json_tokens_safe [OF this] show ?thesis by (auto simp: token_start_def number_start_def in_bytes_def)
qed

subsection \<open>Every card can be expanded\<close>

lemma utf8_split_once:
  assumes "utf8 s" "ascii sep" "sep \<noteq> []" "split_once s sep = Some (a, b)"
  shows "utf8 a \<and> utf8 b"
proof -
  obtain i where i: "str_find s sep = Some i" "a = take i s" "b = drop (i + length sep) s"
    using assms(4) by (auto simp: split_once_def)
  then have "match_at s sep i" using str_find_Some by blast
  then obtain r where r: "drop i s = sep @ r" "i \<le> length s" by (auto simp: match_at_def prefix_def)
  then have "i < length s" "in_bytes 0 0x7F (s ! i)"
    using assms(2,3) by (cases sep; auto simp: ascii_def nth_via_drop dest: arg_cong [of _ _ length])+
  then have bound: "char_boundary s i" using utf8_ascii_boundary assms(1) by blast
  note ud = utf8_take_drop [OF assms(1) bound]
  have "utf8 (sep @ r)" using ud(2) r by simp
  then have "utf8 r" using utf8_rest ascii_utf8 [OF assms(2)] by blast
  moreover have "b = r"
    using arg_cong [OF r(1), of "drop (length sep)"] i(3) by (simp add: add.commute)
  ultimately show ?thesis using ud(1) i(2) by simp
qed

lemma utf8_split_str: "utf8 s \<Longrightarrow> ascii sep \<Longrightarrow> sep \<noteq> [] \<Longrightarrow> p \<in> set (split_str sep s) \<Longrightarrow> utf8 p"
proof (induction sep s rule: split_str.induct)
  case (1 sep s)
  show ?case
  proof (cases "str_find s sep")
    case None
    then show ?thesis using 1 by (simp add: split_str.simps [of sep s])
  next
    case (Some i)
    then have "split_once s sep = Some (take i s, drop (i + length sep) s)" by (simp add: split_once_def)
    from utf8_split_once [OF "1.prems"(1-3) this] show ?thesis
      using 1 Some by (auto simp: split_str.simps [of sep s])
  qed
qed

lemma ascii_blank_line: "ascii blank_line" "ascii [nl]"
  by (simp_all add: text_consts ascii_def in_bytes_def)

lemma push_block_utf8:
  assumes "utf8 block" "\<forall>section \<in> set sections. utf8 (ats_body section)"
  shows "\<forall>section \<in> set (push_block block sections). utf8 (ats_body section)"
proof -
  have "utf8 b" if "split_once block [nl] = Some (a, b)" for a b
    using utf8_split_once [OF assms(1) _ _ that] ascii_blank_line(2) by simp
  then show ?thesis
    using assms ascii_utf8 [OF ascii_blank_line(1)]
    by (auto simp: push_block_def Let_def intro!: utf8_append dest: in_set_butlastD split: option.splits)
qed

lemma activity_sections_utf8:
  assumes "utf8 content" "section \<in> set (activity_text_sections content)"
  shows "utf8 (ats_body section)"
proof -
  have fold: "(\<forall>b \<in> set blocks. utf8 b) \<Longrightarrow> (\<forall>section \<in> set sections. utf8 (ats_body section)) \<Longrightarrow>
    (\<forall>section \<in> set (fold push_block blocks sections). utf8 (ats_body section))" for blocks sections
  proof (induction blocks arbitrary: sections)
    case (Cons b blocks)
    then show ?case using push_block_utf8 [of b sections] by simp
  qed simp
  have "\<forall>b \<in> set (split_str blank_line content). utf8 b"
    using utf8_split_str [OF assms(1) ascii_blank_line(1)] by (auto simp: text_consts)
  then have "\<forall>section \<in> set (activity_text_sections content). utf8 (ats_body section)"
    unfolding activity_text_sections_def by (intro fold) simp_all
  then show ?thesis using assms(2) by blast
qed

lemma utf8_trim_newlines: "utf8 s \<Longrightarrow> utf8 (trim_start_matches {nl} s)"
proof (induction s)
  case (Cons c s)
  then show ?case using utf8_rest [of "[nl]" s] by (auto simp: trim_start_matches_def)
qed (simp add: trim_start_matches_def)

lemma command_output_utf8:
  assumes "item_utf8 item" "command_transcript item = Some ct"
  shows "utf8 (ct_output ct)"
proof -
  have ascii: "ascii wd_header" "ascii result_header" "ascii (blank_line @ result_header)"
    by (simp_all add: wd_header_def result_header_def text_consts ascii_def in_bytes_def)
  have remainder: "utf8 remainder"
    if "command_head raw_command content = Some (command, remainder)" "utf8 content"
      "\<forall>c. raw_command = Some c \<longrightarrow> utf8 c" for raw_command content command remainder
  proof (cases raw_command)
    note head = that
    case None
    then obtain rest where rest: "strip_prefix content ''$ '' = Some rest" "remainder = drop (command_separator rest) rest"
      using head(1) by (auto simp: command_head_def bind_eq_Some_conv)
    then show ?thesis
      using utf8_strip_ascii [OF head(2) ascii_prompt rest(1)] utf8_take_drop(2) command_separator_boundary by blast
  next
    case (Some c)
    then have "utf8 (''$ '' @ c)" using that(3) ascii_utf8 [OF ascii_prompt] by (blast intro: utf8_append)
    moreover have "remainder = content \<or> content = (''$ '' @ c) @ remainder"
      using that(1) Some by (auto simp: command_head_def bind_eq_Some_conv strip_prefix_Some split: option.splits)
    ultimately show ?thesis using that(2) utf8_rest by metis
  qed
  have body: "utf8 (snd (command_body cwd remainder))" if "utf8 remainder" for cwd remainder
  proof -
    have rest: "utf8 rest" if "strip_prefix remainder wd_header = Some rest \<or> strip_prefix remainder result_header = Some rest" for rest
      using that utf8_strip_ascii [OF \<open>utf8 remainder\<close>] ascii(1,2) by blast
    have "utf8 b" if "utf8 rest" "split_once rest (blank_line @ result_header) = Some (a, b)" for rest a b
      using utf8_split_once [OF that(1) ascii(3) _ that(2)] by (simp add: blank_line_def)
    with rest show ?thesis
      using that by (simp add: command_body_def split: option.split prod.split) blast
  qed
  obtain remainder where
    h: "command_head (string_at (it_raw item) [''command'']) (it_content item) = Some (ct_command ct, remainder)"
    using command_transcript_head [OF assms(2)] .
  have "utf8 remainder"
    using assms(1) string_at_utf8 by (intro remainder [OF h]) (auto simp: item_utf8_def)
  then have "utf8 (trim_start_matches {nl} remainder)" by (rule utf8_trim_newlines)
  note body [OF this, of "string_at (it_raw item) [''cwd'']"]
  moreover have "utf8 s" if "string_at (it_raw item) [''aggregatedOutput''] = Some s" for s
    using that assms(1) string_at_utf8 by (auto simp: item_utf8_def)
  ultimately show ?thesis
    using h assms(2)
    by (cases ct; cases "string_at (it_raw item) [''aggregatedOutput'']")
      (auto simp: command_transcript_def split: if_splits prod.splits)
qed

lemma shortened_fits:
  assumes "utf8 content"
  shows "\<exists>fit. content_fits_output_expansion content Preview preview_lines preview_bytes = Some fit \<and>
    shortened (structured_output_preview_with_limits content noun preview_lines preview_bytes) = Some (\<not> fit)"
  using preview_shown [OF assms, of noun preview_lines preview_bytes] fits_iff [OF assms]
  by (auto simp: shortened_def)

lemma all_fit_total: "\<forall>x \<in> set xs. fits x \<noteq> None \<Longrightarrow> all_fit fits xs \<noteq> None"
  by (induction xs) auto

lemma all_some_total: "\<forall>x \<in> set xs. x \<noteq> None \<Longrightarrow> all_some xs \<noteq> None"
  by (induction xs) auto

lemma sections_fit_total:
  assumes "utf8 content"
  shows "activity_sections_fit_output_expansion (activity_text_sections content) expansion \<noteq> None"
  unfolding activity_sections_fit_output_expansion_def
  using fits_iff [OF activity_sections_utf8 [OF assms]] by (intro all_fit_total) simp

text \<open>A card whose button follows \<open>next_useful_output_expansion\<close>.\<close>

definition steps_ok :: "(OutputExpansion \<Rightarrow> bool option) \<Rightarrow> OutputExpansion \<Rightarrow> OutputExpansion option \<Rightarrow> bool" where
  "steps_ok reveals current e \<longleftrightarrow> (\<exists>e'. e = Some e' \<and>
     (if current = AllOutput then e' = Preview
      else rank current < rank e' \<and> (e' = AllOutput \<or> reveals e' = Some False)))"

lemma next_useful_steps:
  "\<forall>e. reveals e \<noteq> None \<Longrightarrow> steps_ok reveals current (next_useful_output_expansion current reveals)"
  using next_useful [of reveals current]
  by (auto simp: steps_ok_def next_useful_output_expansion_def)

lemma activity_card:
  assumes "utf8 content" "list_ex (\<lambda>section. ats_heading section \<noteq> None) (activity_text_sections content)"
  defines "reveals \<equiv> activity_sections_fit_output_expansion (activity_text_sections content)"
  shows "\<exists>p. activity_output_presentation v content Preview = Some (Some p) \<and>
      (aop_toggle p \<noteq> None \<longleftrightarrow> reveals Preview = Some False)"
    and "reveals Preview = Some False \<Longrightarrow> \<exists>toggle. activity_output_toggle (activity_text_sections content) current = Some (Some toggle) \<and>
      steps_ok reveals current (Some (to_next toggle))"
    and "activity_output_toggle (activity_text_sections content) current \<noteq> None"
proof -
  let ?s = "activity_text_sections content"
  have total: "\<forall>e. reveals e \<noteq> None" using sections_fit_total [OF assms(1)] by (simp add: reveals_def)
  obtain fit where fit: "reveals Preview = Some fit" using total by blast
  have steps: "steps_ok reveals c (next_useful_output_expansion c reveals)" for c
    by (rule next_useful_steps [OF total])
  have toggle: "if fit then activity_output_toggle ?s c = Some None
    else \<exists>t. activity_output_toggle ?s c = Some (Some t) \<and> next_useful_output_expansion c reveals = Some (to_next t)" for c
    using fit steps [of c] by (auto simp: activity_output_toggle_def reveals_def steps_ok_def Let_def)
  let ?limits = "output_limits Preview STRUCTURED_OUTPUT_PREVIEW_LINES STRUCTURED_OUTPUT_PREVIEW_BYTES"
  have "activity_section_presentation v ?limits s \<noteq> None" if "s \<in> set ?s" for s
    using preview_shown [OF activity_sections_utf8 [OF assms(1) that], of "''section''" "ol_lines ?limits" "ol_bytes ?limits"]
    unfolding activity_section_presentation_def by (elim exE conjE) (simp only: option.map option.simps not_False_eq_True)
  then have "\<forall>x \<in> set (map (activity_section_presentation v ?limits) ?s). x \<noteq> None" by auto
  from all_some_total [OF this] obtain ps where ps: "all_some (map (activity_section_presentation v ?limits) ?s) = Some ps"
    by blast
  have "activity_output_presentation v content Preview =
      map_option (\<lambda>toggle. Some \<lparr>aop_sections = ps, aop_toggle = toggle\<rparr>) (activity_output_toggle ?s Preview)"
    using assms(2) ps
    by (cases "activity_output_toggle ?s Preview")
      (simp_all add: activity_output_presentation_def Let_def del: output_limits.simps)
  with toggle [of Preview] fit show "\<exists>p. activity_output_presentation v content Preview = Some (Some p) \<and>
      (aop_toggle p \<noteq> None \<longleftrightarrow> reveals Preview = Some False)"
    by (cases fit) auto
  show "\<exists>toggle. activity_output_toggle ?s current = Some (Some toggle) \<and> steps_ok reveals current (Some (to_next toggle))"
    if "reveals Preview = Some False"
    using toggle [of current] fit that steps [of current] by auto
  show "activity_output_toggle ?s current \<noteq> None"
    using toggle [of current] by (cases fit) auto
qed

lemma command_card:
  assumes "item_utf8 item" "command_transcript item = Some command"
  shows "\<forall>e. command_fits_output_expansion command e \<noteq> None"
    and "\<exists>fit. command_fits_output_expansion command Preview = Some fit \<and>
      Option.bind (shortened (structured_output_preview_with_limits (command_text command) ''command''
          COMMAND_PREVIEW_LINES COMMAND_PREVIEW_BYTES))
        (\<lambda>long. if long then Some True
          else shortened (structured_output_preview (command_output_for_display (ct_output command)) ''output'')) =
      Some (\<not> fit)"
proof -
  have "\<forall>c \<in> {cr, nl}. in_bytes 0 0x7F c" by (simp add: in_bytes_def)
  then have u: "utf8 (command_text command)" "utf8 (command_output_for_display (ct_output command))"
    using command_transcript_utf8 [OF assms] command_output_utf8 [OF assms]
    by (simp_all only: command_text_def command_output_for_display_def utf8_trim_end_matches)
  show "\<forall>e. command_fits_output_expansion command e \<noteq> None"
    by (simp only: command_fits_output_expansion_def fits_iff [OF u(1)] fits_iff [OF u(2)] bind.bind_lunit
      split: if_split) simp
  obtain a where a: "content_fits_output_expansion (command_text command) Preview COMMAND_PREVIEW_LINES COMMAND_PREVIEW_BYTES = Some a"
    "shortened (structured_output_preview_with_limits (command_text command) ''command''
       COMMAND_PREVIEW_LINES COMMAND_PREVIEW_BYTES) = Some (\<not> a)"
    using shortened_fits [OF u(1)] by blast
  obtain b where b: "content_fits_output_expansion (command_output_for_display (ct_output command)) Preview
      STRUCTURED_OUTPUT_PREVIEW_LINES STRUCTURED_OUTPUT_PREVIEW_BYTES = Some b"
    "shortened (structured_output_preview (command_output_for_display (ct_output command)) ''output'') = Some (\<not> b)"
    using shortened_fits [OF u(2)] unfolding structured_output_preview_def by blast
  show "\<exists>fit. command_fits_output_expansion command Preview = Some fit \<and>
      Option.bind (shortened (structured_output_preview_with_limits (command_text command) ''command''
          COMMAND_PREVIEW_LINES COMMAND_PREVIEW_BYTES))
        (\<lambda>long. if long then Some True
          else shortened (structured_output_preview (command_output_for_display (ct_output command)) ''output'')) =
      Some (\<not> fit)"
    using a b by (cases a) (auto simp: command_fits_output_expansion_def)
qed

lemma plain_card:
  assumes "item_utf8 item"
  shows "\<forall>e. plain_fits item e \<noteq> None"
    and "\<exists>fit. plain_fits item Preview = Some fit \<and>
      shortened (structured_output_preview (it_content item) ''output'') = Some (\<not> fit)"
proof -
  have u: "utf8 (it_content item)" using assms by (simp add: item_utf8_def)
  show "\<forall>e. plain_fits item e \<noteq> None" by (simp add: plain_fits_def fits_iff [OF u])
  show "\<exists>fit. plain_fits item Preview = Some fit \<and>
      shortened (structured_output_preview (it_content item) ''output'') = Some (\<not> fit)"
    using shortened_fits [OF u] unfolding structured_output_preview_def plain_fits_def .
qed

lemma card_ok:
  assumes "ex = Some (\<not> fit)" "reveals Preview = Some fit" "\<forall>e. reveals e \<noteq> None" "n \<noteq> None"
    and "\<not> fit \<Longrightarrow> steps_ok reveals current n"
  shows "\<exists>expandable. ex = Some expandable \<and> (\<forall>e. reveals e \<noteq> None) \<and> n \<noteq> None \<and>
    (P \<longrightarrow> reveals Preview = Some (\<not> expandable)) \<and> (expandable \<longrightarrow> steps_ok reveals current n)"
  using assms by (intro exI [of _ "\<not> fit"]) simp

lemma card_steps_ok:
  assumes "ex = Some (\<not> fit)" "reveals Preview = Some fit" "\<forall>e. reveals e \<noteq> None"
    and "n = next_useful_output_expansion current reveals"
  shows "\<exists>expandable. ex = Some expandable \<and> (\<forall>e. reveals e \<noteq> None) \<and> n \<noteq> None \<and>
    (P \<longrightarrow> reveals Preview = Some (\<not> expandable)) \<and> (expandable \<longrightarrow> steps_ok reveals current n)"
proof -
  have "steps_ok reveals current n" unfolding assms(4) by (rule next_useful_steps [OF assms(3)])
  then show ?thesis by (intro card_ok [OF assms(1-3)]) (auto simp: steps_ok_def)
qed

text \<open>
  Every card can be expanded. For an item of any kind the three questions about its card never
  panic. The card has a button exactly when its preview hides something, except that a web search
  also has one for results that are cut, and that a command item without a command line has none.
  Each press of the button leads to a larger step, which is the last one or one that still hides
  something, and from the last step back to the preview.
\<close>

lemma item_cards_expand:
  assumes "item_utf8 item"
  shows "\<exists>expandable. transcript_output_is_expandable v item = Some expandable \<and>
    (\<forall>e. output_expansion_reveals_all item e \<noteq> None) \<and> next_item_output_expansion item current \<noteq> None \<and>
    (it_kind item \<noteq> Web \<and> (it_kind item = Command \<longrightarrow> command_transcript item \<noteq> None) \<longrightarrow>
       output_expansion_reveals_all item Preview = Some (\<not> expandable)) \<and>
    (expandable \<longrightarrow> steps_ok (output_expansion_reveals_all item) current (next_item_output_expansion item current))"
    (is "?card")
proof -
  have u: "utf8 (it_content item)" using assms by (simp add: item_utf8_def)
  obtain fit where plain: "plain_fits item Preview = Some fit"
    "shortened (structured_output_preview (it_content item) ''output'') = Some (\<not> fit)"
    using plain_card(2) [OF assms] by blast
  have activity: ?card if "it_kind item \<in> {Tool, Subagent, Review}"
  proof (cases "list_ex (\<lambda>s. ats_heading s \<noteq> None) (activity_text_sections (it_content item))")
    case True
    let ?reveals = "activity_sections_fit_output_expansion (activity_text_sections (it_content item))"
    obtain p where p: "activity_output_presentation v (it_content item) Preview = Some (Some p)"
      "aop_toggle p \<noteq> None \<longleftrightarrow> ?reveals Preview = Some False"
      using activity_card(1) [OF u True] by blast
    obtain fit where fit: "?reveals Preview = Some fit" using sections_fit_total [OF u] by blast
    have r: "output_expansion_reveals_all item = ?reveals"
      using that True by (auto simp: output_expansion_reveals_all_def)
    have x: "transcript_output_is_expandable v item = Some (\<not> fit)"
      using that p fit by (auto simp: transcript_output_is_expandable_def)
    have n: "next_item_output_expansion item current =
        map_option (\<lambda>toggle. case toggle of Some t \<Rightarrow> to_next t | None \<Rightarrow> Preview)
          (activity_output_toggle (activity_text_sections (it_content item)) current)"
      using that True by (auto simp: next_item_output_expansion_def)
    show ?thesis
      unfolding r n
    proof (rule card_ok [where reveals = ?reveals, OF x fit])
      show "\<forall>e. ?reveals e \<noteq> None" using sections_fit_total [OF u] by blast
      show "map_option (\<lambda>toggle. case toggle of Some t \<Rightarrow> to_next t | None \<Rightarrow> Preview)
          (activity_output_toggle (activity_text_sections (it_content item)) current) \<noteq> None"
        using activity_card(3) [OF u True, of current] by simp
      assume "\<not> fit"
      then have "?reveals Preview = Some False" using fit by simp
      from activity_card(2) [OF u True this, of current]
      show "steps_ok ?reveals current (map_option (\<lambda>toggle. case toggle of Some t \<Rightarrow> to_next t | None \<Rightarrow> Preview)
          (activity_output_toggle (activity_text_sections (it_content item)) current))"
        by (elim exE conjE) simp
    qed
  next
    case False
    have r: "output_expansion_reveals_all item = plain_fits item"
      using that False by (auto simp: output_expansion_reveals_all_def)
    have "activity_output_presentation v (it_content item) Preview = Some None"
      using False by (simp add: activity_output_presentation_def)
    then have x: "transcript_output_is_expandable v item = Some (\<not> fit)"
      using that plain(2) by (auto simp: transcript_output_is_expandable_def)
    have n: "next_item_output_expansion item current = next_useful_output_expansion current (plain_fits item)"
      using that False by (auto simp: next_item_output_expansion_def)
    show ?thesis unfolding r by (rule card_steps_ok [where reveals = "plain_fits item", OF x plain(1) plain_card(1) [OF assms] n])
  qed
  show ?card
  proof (cases "it_kind item \<in> {Tool, Subagent, Review}")
    case other: False
    consider "it_kind item = Command" | "it_kind item = Web" | "it_kind item = Diff" | "it_kind item = FileChange"
      | "it_kind item \<in> {Trace, Error}" | "it_kind item \<in> {Image, Approval, User, Agent, Reasoning, Plan}"
      using other by (cases "it_kind item") auto
    then show ?thesis
    proof cases
      case 1
      show ?thesis
      proof (cases "command_transcript item")
        case None
        then show ?thesis
          using 1 by (intro exI [of _ False])
            (simp add: transcript_output_is_expandable_def next_item_output_expansion_def output_expansion_reveals_all_def)
      next
        case (Some command)
        have r: "output_expansion_reveals_all item = command_fits_output_expansion command"
          using 1 Some by (auto simp: output_expansion_reveals_all_def)
        obtain f where f: "command_fits_output_expansion command Preview = Some f"
          "transcript_output_is_expandable v item = Some (\<not> f)"
          using command_card(2) [OF assms Some] 1 Some by (auto simp: transcript_output_is_expandable_def Let_def)
        show ?thesis
          unfolding r
          by (rule card_steps_ok [where reveals = "command_fits_output_expansion command", OF f(2,1) command_card(1) [OF assms Some]])
            (simp add: 1 Some next_item_output_expansion_def next_command_expansion_def)
      qed
    next
      case 2
      let ?n = "length (ws_results (web_search_presentation (it_raw item)))"
      have r: "output_expansion_reveals_all item = (\<lambda>e. Some (e \<noteq> Preview \<and> ?n \<le> progressive_web_limit e))"
        using 2 by (auto simp: output_expansion_reveals_all_def)
      have "next_item_output_expansion item current =
          next_useful_output_expansion current (output_expansion_reveals_all item)"
        using 2 by (simp add: r next_item_output_expansion_def next_web_expansion_def)
      then have "steps_ok (output_expansion_reveals_all item) current (next_item_output_expansion item current)"
        using next_useful_steps [of "output_expansion_reveals_all item" current] by (simp add: r)
      then show ?thesis
        using 2 r by (auto simp: transcript_output_is_expandable_def steps_ok_def)
    next
      case 3
      show ?thesis
        by (rule card_steps_ok [where fit = "diff_fits_output_expansion (it_content item) Preview"])
          (auto simp: 3 transcript_output_is_expandable_def output_expansion_reveals_all_def
            next_item_output_expansion_def next_diff_expansion_def)
    next
      case 4
      show ?thesis
        by (rule card_steps_ok [where fit = "file_change_fits_output_expansion (it_content item) Preview"])
          (auto simp: 4 transcript_output_is_expandable_def output_expansion_reveals_all_def
            next_item_output_expansion_def next_file_change_expansion_def)
    next
      case 5
      have r: "output_expansion_reveals_all item = plain_fits item"
        using 5 by (auto simp: output_expansion_reveals_all_def is_structured_def)
      show ?thesis
        unfolding r
        by (rule card_steps_ok [where reveals = "plain_fits item", OF _ plain(1) plain_card(1) [OF assms]])
          (use 5 plain(2) in \<open>auto simp: transcript_output_is_expandable_def next_item_output_expansion_def is_structured_def\<close>)
    next
      case 6
      show ?thesis
        by (rule card_ok [where fit = True])
          (use 6 in \<open>auto simp: transcript_output_is_expandable_def next_item_output_expansion_def
            output_expansion_reveals_all_def is_structured_def\<close>)
    qed
  qed (rule activity)
qed

end
