(* ===== verification/TranscriptSearch.thy ===== *)
theory TranscriptSearch
  imports OutputCards EventProperties Slices
begin

text \<open>
  The search over the cards of the transcript (\<open>crates/harness_app/src/main.rs\<close>): whether an item
  matches, the snippet that is shown for a match the card does not show, the ranges that are
  painted, and the list of the matching items, which is kept while items change.
\<close>

subsection \<open>What of an item is searched\<close>

definition transcript_item_shows_header :: "TranscriptItem \<Rightarrow> bool" where
  "transcript_item_shows_header item =
     (\<not> (it_kind item = Agent \<and> it_title item = ''Codex'' \<or> it_kind item = User \<and> it_title item = ''You''))"

definition request_header_title :: "string \<Rightarrow> string option" where
  "request_header_title me =
     (if me \<in> {''item/commandExecution/requestApproval'', ''execCommandApproval''} then Some ''Command approval''
      else if me \<in> {''item/fileChange/requestApproval'', ''applyPatchApproval''} then Some ''File change approval''
      else if me = ''item/permissions/requestApproval'' then Some ''Permission request''
      else if me = ''item/tool/requestUserInput'' then Some ''Input requested''
      else if me = ''mcpServer/elicitation/request'' then Some ''MCP request''
      else None)"

definition transcript_item_header_title :: "TranscriptItem \<Rightarrow> string" where
  "transcript_item_header_title item =
     unwrap_or (Option.bind (it_pending item) (\<lambda>request. request_header_title (pr_method request))) (it_title item)"

definition image_protocol_path :: "json \<Rightarrow> string option" where
  "image_protocol_path raw = Option.bind (or_else (jget ''path'' raw) (jget ''savedPath'' raw)) as_str"

definition image_caption_for_display :: "TranscriptItem \<Rightarrow> string option" where
  "image_caption_for_display item =
     (let caption = trim (it_content item)
      in if caption \<noteq> [] \<and>
            (case image_protocol_path (it_raw item) of None \<Rightarrow> True | Some path \<Rightarrow> caption \<noteq> trim path)
         then Some caption else None)"

definition transcript_item_searchable_body :: "TranscriptItem \<Rightarrow> string" where
  "transcript_item_searchable_body item =
     (if it_kind item = Image then unwrap_or (image_caption_for_display item) [] else it_content item)"

text \<open>Here the lower case is that of whole strings, and the query is folded already.\<close>

definition item_matches_folded_query :: "host \<Rightarrow> string \<Rightarrow> TranscriptItem \<Rightarrow> bool" where
  "item_matches_folded_query h folded_query item =
     (let has = (\<lambda>s. contains (str_to_lowercase h s) folded_query);
          opt_has = (\<lambda>s. case s of None \<Rightarrow> False | Some s \<Rightarrow> has s)
      in transcript_item_shows_header item \<and> has (transcript_item_header_title item) \<or>
         has (transcript_item_searchable_body item) \<or>
         opt_has (display_status item) \<or>
         it_kind item = Web \<and> list_ex (\<lambda>result. has (wr_title result) \<or> opt_has (wr_url result) \<or>
           opt_has (wr_snippet result)) (ws_results (web_search_presentation (it_raw item))))"

subsection \<open>Snippets\<close>

record SearchContextSnippet =
  sn_text :: string
  sn_match_range :: "nat \<times> nat"

definition snippet_of :: "string \<Rightarrow> nat \<times> nat \<Rightarrow> nat \<Rightarrow> SearchContextSnippet option" where
  "snippet_of line source_range max_chars =
     do { matched \<leftarrow> str_slice line (fst source_range) (snd source_range);
          before \<leftarrow> str_slice line 0 (fst source_range);
          after \<leftarrow> str_slice line (snd source_range) (length line);
          let context_budget = max_chars - char_count matched;
              context_before = context_budget div 3;
              prefix_chars = rev (take context_before (rev (chars before)));
              prefix_truncated = char_count before > length prefix_chars;
              context_after = context_budget - length prefix_chars;
              suffix_chars = take context_after (chars after);
              suffix_truncated = char_count after > length suffix_chars;
              lead = (if prefix_truncated then ellipsis @ '' '' else []) @ concat prefix_chars
          in Some \<lparr>sn_text = lead @ matched @ concat suffix_chars @ (if suffix_truncated then '' '' @ ellipsis else []),
                   sn_match_range = (length lead, length lead + length matched)\<rparr> }"

fun snippet_in_lines ::
  "(string \<Rightarrow> string list) \<Rightarrow> string \<Rightarrow> nat \<Rightarrow> string list \<Rightarrow> SearchContextSnippet option option" where
  "snippet_in_lines lower_char folded_query max_chars [] = Some None"
| "snippet_in_lines lower_char folded_query max_chars (line # rest) =
     do { ranges \<leftarrow> folded_match_byte_ranges lower_char line folded_query 1;
          if ranges = [] then snippet_in_lines lower_char folded_query max_chars rest
          else map_option Some (snippet_of line (last ranges) max_chars) }"

definition search_context_snippet ::
  "host \<Rightarrow> (string \<Rightarrow> string list) \<Rightarrow> string \<Rightarrow> string \<Rightarrow> nat \<Rightarrow> SearchContextSnippet option option" where
  "search_context_snippet h lower_char content query max_chars =
     (let folded_query = str_to_lowercase h (trim query)
      in if folded_query = [] \<or> max_chars = 0 then Some None
         else snippet_in_lines lower_char folded_query max_chars
           (filter (\<lambda>line. line \<noteq> []) (map trim (lines content))))"

definition item_search_context_snippet ::
  "host \<Rightarrow> (string \<Rightarrow> string list) \<Rightarrow> TranscriptItem \<Rightarrow> string \<Rightarrow> nat \<Rightarrow> SearchContextSnippet option option" where
  "item_search_context_snippet h lower_char item query max_chars =
     (if it_kind item = Web then
        let semantic_results = join [nl] (concat (map (\<lambda>result.
              filter_map id [Some (wr_title result), wr_url result, wr_snippet result])
              (ws_results (web_search_presentation (it_raw item)))))
        in do { snippet \<leftarrow> search_context_snippet h lower_char semantic_results query max_chars;
                case snippet of
                  Some s \<Rightarrow> Some (Some s)
                | None \<Rightarrow> search_context_snippet h lower_char (it_content item) query max_chars }
      else search_context_snippet h lower_char (it_content item) query max_chars)"

subsection \<open>Painted ranges\<close>

definition RICH_SEARCH_HIGHLIGHT_LIMIT :: nat where "RICH_SEARCH_HIGHLIGHT_LIMIT = 128"

record SearchTextRanges =
  st_ranges :: "(nat \<times> nat) list"
  st_active :: "nat option"

text \<open>The two cells are part of the state that is passed on from text to text of a card.\<close>

record RichSearchPaint =
  rp_query :: string
  rp_active_item :: bool
  rp_active_claimed :: bool
  rp_remaining_ranges :: nat

definition new_paint :: "string \<Rightarrow> bool \<Rightarrow> RichSearchPaint" where
  "new_paint query active_item = \<lparr>rp_query = query, rp_active_item = active_item, rp_active_claimed = False,
     rp_remaining_ranges = RICH_SEARCH_HIGHLIGHT_LIMIT\<rparr>"

definition decorate_ranges :: "(nat \<times> nat) list \<Rightarrow> RichSearchPaint \<Rightarrow> SearchTextRanges \<times> RichSearchPaint" where
  "decorate_ranges ranges paint =
     (let remaining = rp_remaining_ranges paint;
          ranges = take remaining ranges;
          paint = paint\<lparr>rp_remaining_ranges := remaining - length ranges\<rparr>
      in if rp_active_item paint \<and> ranges \<noteq> [] \<and> \<not> rp_active_claimed paint
         then (\<lparr>st_ranges = ranges, st_active = Some 0\<rparr>, paint\<lparr>rp_active_claimed := True\<rparr>)
         else (\<lparr>st_ranges = ranges, st_active = None\<rparr>, paint))"

definition ranges_for ::
  "(string \<Rightarrow> string list) \<Rightarrow> string \<Rightarrow> RichSearchPaint \<Rightarrow> (SearchTextRanges \<times> RichSearchPaint) option" where
  "ranges_for lower_char content paint =
     map_option (\<lambda>ranges. decorate_ranges ranges paint)
       (folded_match_byte_ranges lower_char content (rp_query paint) (rp_remaining_ranges paint))"

text \<open>The texts of a card are painted one after the other.\<close>

fun paint_texts ::
  "(string \<Rightarrow> string list) \<Rightarrow> string list \<Rightarrow> RichSearchPaint \<Rightarrow> (SearchTextRanges list \<times> RichSearchPaint) option" where
  "paint_texts lower_char [] paint = Some ([], paint)"
| "paint_texts lower_char (content # rest) paint =
     do { (ranges, paint) \<leftarrow> ranges_for lower_char content paint;
          (more, paint) \<leftarrow> paint_texts lower_char rest paint;
          Some (ranges # more, paint) }"

definition markdown_search_autoscroll ::
  "SearchTextRanges \<Rightarrow> nat option \<Rightarrow> nat option \<Rightarrow> (nat \<times> nat) option" where
  "markdown_search_autoscroll search generation last_generation =
     do { g \<leftarrow> opt_filter (\<lambda>g. last_generation \<noteq> Some g) generation;
          active \<leftarrow> st_active search;
          range \<leftarrow> get_at (st_ranges search) active;
          Some (g, fst range) }"

definition folded_contains :: "(string \<Rightarrow> string list) \<Rightarrow> string \<Rightarrow> string \<Rightarrow> bool option" where
  "folded_contains lower_char content query =
     map_option (\<lambda>ranges. ranges \<noteq> []) (folded_match_byte_ranges lower_char content query 1)"

subsection \<open>The matching items\<close>

text \<open>\<open>binary_search\<close> of an index: found at a position, or the position to insert it at.\<close>

definition binary_search :: "nat \<Rightarrow> nat list \<Rightarrow> nat + nat" where
  "binary_search x xs =
     (if xs = [] then Inr 0
      else
        let base = bisect (\<lambda>i. x < xs ! i) 0 (length xs)
        in if xs ! base = x then Inl base
           else Inr (if xs ! base < x then base + 1 else base))"

definition reconcile_sorted_search_match :: "nat \<Rightarrow> bool \<Rightarrow> nat list \<Rightarrow> nat list" where
  "reconcile_sorted_search_match index is_match matches =
     (case (binary_search index matches, is_match) of
        (Inr at, True) \<Rightarrow> take at matches @ [index] @ drop at matches
      | (Inl at, False) \<Rightarrow> take at matches @ drop (at + 1) matches
      | _ \<Rightarrow> matches)"

record SearchState =
  ss_query :: string
  ss_matches :: "nat list"
  ss_active :: nat

definition matching_items :: "host \<Rightarrow> string \<Rightarrow> TranscriptItem list \<Rightarrow> nat list" where
  "matching_items h query items =
     filter (\<lambda>index. item_matches_folded_query h query (items ! index)) [0 ..< length items]"

definition rebuild_search_matches :: "host \<Rightarrow> TranscriptItem list \<Rightarrow> SearchState \<Rightarrow> SearchState" where
  "rebuild_search_matches h items s =
     (let query = str_to_lowercase h (ss_query s);
          matches = (if query = [] then [] else matching_items h query items)
      in s\<lparr>ss_matches := matches, ss_active := min (ss_active s) (length matches - 1)\<rparr>)"

definition reconcile_item :: "host \<Rightarrow> string \<Rightarrow> TranscriptItem list \<Rightarrow> nat \<Rightarrow> nat list \<Rightarrow> nat list" where
  "reconcile_item h query items index matches =
     (if index < length items
      then reconcile_sorted_search_match index (item_matches_folded_query h query (items ! index)) matches
      else matches)"

definition update_search_matches_for_changes ::
  "host \<Rightarrow> TranscriptItem list \<Rightarrow> nat \<Rightarrow> nat \<Rightarrow> nat list \<Rightarrow> SearchState \<Rightarrow> SearchState" where
  "update_search_matches_for_changes h items selected_item old_len dirty_items s =
     (let query = str_to_lowercase h (ss_query s)
      in if query = [] then s\<lparr>ss_matches := [], ss_active := 0\<rparr>
         else
           let active_item = get_at (ss_matches s) (ss_active s);
               item_count = length items;
               matches = filter (\<lambda>index. index < item_count) (ss_matches s);
               changed = remdups_adj (sort (dirty_items @ [min old_len item_count ..< item_count]));
               matches = fold (reconcile_item h query items) changed matches;
               active = (case Option.bind active_item (\<lambda>i. case binary_search i matches of Inl p \<Rightarrow> Some p | Inr _ \<Rightarrow> None) of
                 Some p \<Rightarrow> p
               | None \<Rightarrow> min (partition_point (\<lambda>index. index < selected_item) matches) (length matches - 1))
           in s\<lparr>ss_matches := matches, ss_active := active\<rparr>)"

subsection \<open>The list of matches stays right\<close>

lemma binary_search_ok:
  assumes "sorted_wrt (<) xs"
  shows "case binary_search x xs of
      Inl p \<Rightarrow> p < length xs \<and> xs ! p = x
    | Inr p \<Rightarrow> p \<le> length xs \<and> (\<forall>y \<in> set (take p xs). y < x) \<and> (\<forall>y \<in> set (drop p xs). x < y)"
proof (cases "xs = []")
  case False
  have mono: "xs ! i < xs ! j" if "i < j" "j < length xs" for i j
    using sorted_wrt_nth_less [OF assms, of i j] that by simp
  have "sorted_wrt (\<lambda>a b. b \<le> x \<longrightarrow> a \<le> x) xs"
    unfolding sorted_wrt_iff_nth_less using mono by (meson less_imp_le order_trans)
  from partition_point_sorted [OF this] obtain n where
    n: "n \<le> length xs" "\<And>i. i < length xs \<Longrightarrow> xs ! i \<le> x \<longleftrightarrow> i < n" by blast
  have base: "bisect (\<lambda>i. x < xs ! i) 0 (length xs) = n - 1"
    using bisect_prefix [of xs "\<lambda>y. y \<le> x" n] n False by (simp add: not_le)
  have len: "n - 1 < length xs" using n(1) False by (cases xs) auto
  have bs: "binary_search x xs =
      (if xs ! (n - 1) = x then Inl (n - 1) else Inr (if xs ! (n - 1) < x then n - 1 + 1 else n - 1))"
    unfolding binary_search_def base Let_def using False by (rule if_not_P)
  show ?thesis
  proof (cases "xs ! (n - 1) = x")
    case True
    then show ?thesis using bs len by simp
  next
    case ne: False
    have before: "xs ! i < x" if "i < n" for i
    proof (cases "i = n - 1")
      case True
      then show ?thesis using n(2) [of i] that len ne by simp
    next
      case False
      then show ?thesis using mono [of i "n - 1"] n(2) [of "n - 1"] that len by force
    qed
    have p: "(if xs ! (n - 1) < x then n - 1 + 1 else n - 1) = n"
    proof (cases n)
      case 0
      then have "\<not> xs ! 0 < x" using n(2) [of 0] len by simp
      then show ?thesis using 0 by simp
    next
      case (Suc k)
      then show ?thesis using before [of k] by simp
    qed
    have "\<forall>y \<in> set (take n xs). y < x" using before by (auto simp: in_set_conv_nth)
    moreover have "\<forall>y \<in> set (drop n xs). x < y"
    proof
      fix y assume "y \<in> set (drop n xs)"
      then obtain i where "i < length xs - n" "y = xs ! (n + i)" using n(1) by (auto simp: in_set_conv_nth)
      moreover from this(1) have "n + i < length xs" by linarith
      ultimately show "x < y" using n(2) [of "n + i"] by simp
    qed
    ultimately show ?thesis using bs ne n(1) unfolding p by simp
  qed
qed (simp add: binary_search_def)

lemma reconcile_sorted_ok:
  assumes "sorted_wrt (<) matches"
  shows "sorted_wrt (<) (reconcile_sorted_search_match index is_match matches) \<and>
    set (reconcile_sorted_search_match index is_match matches) =
      (if is_match then insert index (set matches) else set matches - {index})"
proof (cases "binary_search index matches")
  case (Inl p)
  with binary_search_ok [OF assms, of index] have p: "p < length matches" "matches ! p = index" by simp_all
  have split: "matches = take p matches @ index # drop (Suc p) matches" using p id_take_nth_drop by fastforce
  have "sorted_wrt (<) (take p matches @ index # drop (Suc p) matches)" using assms split by simp
  then have "sorted_wrt (<) (take p matches @ drop (Suc p) matches)"
    "index \<notin> set (take p matches @ drop (Suc p) matches)"
    by (auto simp: sorted_wrt_append)
  moreover have "set matches = insert index (set (take p matches @ drop (Suc p) matches))"
    using arg_cong [OF split, of set] by auto
  ultimately show ?thesis using Inl assms by (auto simp: reconcile_sorted_search_match_def)
next
  case (Inr p)
  with binary_search_ok [OF assms, of index] have p: "\<forall>y \<in> set (take p matches). y < index"
    "\<forall>y \<in> set (drop p matches). index < y" by simp_all
  have split: "matches = take p matches @ drop p matches" by simp
  then have "sorted_wrt (<) (take p matches @ drop p matches)" using assms by simp
  then have "sorted_wrt (<) (take p matches @ index # drop p matches)"
    using p unfolding sorted_wrt_append by (auto dest: order.strict_trans)
  moreover have s: "set matches = set (take p matches) \<union> set (drop p matches)"
    using arg_cong [OF split, of set] unfolding set_append .
  moreover have "index \<notin> set matches" using p unfolding s by blast
  ultimately show ?thesis using Inr assms by (auto simp: reconcile_sorted_search_match_def)
qed

lemma reconcile_items_ok:
  assumes "sorted_wrt (<) matches"
  shows "sorted_wrt (<) (fold (reconcile_item h q items) changed matches) \<and>
    set (fold (reconcile_item h q items) changed matches) =
      {i. if i \<in> set changed \<and> i < length items then item_matches_folded_query h q (items ! i) else i \<in> set matches}"
  using assms
proof (induction changed arbitrary: matches)
  case (Cons i changed)
  have "sorted_wrt (<) (reconcile_item h q items i matches)"
    "set (reconcile_item h q items i matches) =
      (if i < length items then if item_matches_folded_query h q (items ! i) then insert i (set matches)
         else set matches - {i} else set matches)"
    using reconcile_sorted_ok [OF Cons.prems] Cons.prems by (auto simp: reconcile_item_def)
  then show ?case using Cons.IH [of "reconcile_item h q items i matches"] by auto
qed simp

lemma matching_items_ok:
  "sorted_wrt (<) (matching_items h q items)"
  "set (matching_items h q items) = {i. i < length items \<and> item_matches_folded_query h q (items ! i)}"
  by (auto simp: matching_items_def sorted_wrt_filter)

lemma matches_after_changes:
  assumes "str_to_lowercase h (ss_query s) = q" "q \<noteq> []"
    and "ss_matches s = matching_items h q old" "length old \<le> length items"
    and "\<forall>i < length old. i \<in> set dirty \<or> items ! i = old ! i"
  shows "ss_matches (update_search_matches_for_changes h items selected (length old) dirty s) = matching_items h q items"
proof -
  let ?changed = "remdups_adj (sort (dirty @ [length old ..< length items]))"
  let ?kept = "filter (\<lambda>i. i < length items) (ss_matches s)"
  have "sorted_wrt (<) ?kept" using assms(3) matching_items_ok(1) [of h q old] by (simp add: sorted_wrt_filter)
  note f = reconcile_items_ok [OF this, of h q items ?changed]
  have "i \<in> set (fold (reconcile_item h q items) ?changed ?kept) \<longleftrightarrow> i \<in> set (matching_items h q items)" for i
  proof (cases "i < length old \<and> i \<notin> set dirty")
    case True
    then have "items ! i = old ! i" "i < length items" "i \<notin> set ?changed" using assms(4,5) by auto
    then show ?thesis using True f assms(3) by (simp add: matching_items_ok(2))
  next
    case False
    then have "i \<in> set ?changed \<longleftrightarrow> i < length items \<or> i \<in> set dirty" using assms(4) by auto
    then show ?thesis using False f assms(3,4) by (auto simp: matching_items_ok(2))
  qed
  then have "set (fold (reconcile_item h q items) ?changed ?kept) = set (matching_items h q items)" by blast
  then have "fold (reconcile_item h q items) ?changed ?kept = matching_items h q items"
    using f matching_items_ok(1) by (intro strict_sorted_equal) (auto simp: strict_sorted_iff sorted_wrt_iff_nth_less)
  then show ?thesis
    using assms(1,2,4) by (simp add: update_search_matches_for_changes_def Let_def min.absorb1)
qed

lemma active_after_changes:
  fixes s :: SearchState and items :: "TranscriptItem list" and selected old_len :: nat and dirty :: "nat list"
    and h :: host
  assumes "str_to_lowercase h (ss_query s) \<noteq> []"
  defines "s' \<equiv> update_search_matches_for_changes h items selected old_len dirty s"
  assumes "sorted_wrt (<) (ss_matches s')"
  shows "(ss_matches s' = [] \<or> ss_active s' < length (ss_matches s')) \<and>
    (ss_active s < length (ss_matches s) \<and> ss_matches s ! ss_active s \<in> set (ss_matches s') \<longrightarrow>
       ss_matches s' ! ss_active s' = ss_matches s ! ss_active s)"
proof -
  let ?ms = "ss_matches s'"
  let ?found = "Option.bind (get_at (ss_matches s) (ss_active s))
    (\<lambda>i. case binary_search i ?ms of Inl p \<Rightarrow> Some p | Inr _ \<Rightarrow> None)"
  have active: "ss_active s' = (case ?found of Some p \<Rightarrow> p
     | None \<Rightarrow> min (partition_point (\<lambda>index. index < selected) ?ms) (length ?ms - 1))"
    using assms(1) by (simp add: s'_def update_search_matches_for_changes_def Let_def cong: option.case_cong)
  have found: "p < length ?ms \<and> ss_active s < length (ss_matches s) \<and> ?ms ! p = ss_matches s ! ss_active s" if "?found = Some p" for p
    using that binary_search_ok [OF assms(3), of "ss_matches s ! ss_active s"]
    by (auto simp: get_at_def bind_eq_Some_conv split: if_splits sum.splits)
  show ?thesis
  proof (cases ?found)
    case None
    have "ss_matches s ! ss_active s \<notin> set ?ms" if "ss_active s < length (ss_matches s)"
    proof -
      from None that obtain p where "binary_search (ss_matches s ! ss_active s) ?ms = Inr p"
        by (auto simp: get_at_def split: sum.splits)
      with binary_search_ok [OF assms(3), of "ss_matches s ! ss_active s"]
      have p: "\<forall>y \<in> set (take p ?ms). y < ss_matches s ! ss_active s" "\<forall>y \<in> set (drop p ?ms). ss_matches s ! ss_active s < y"
        by simp_all
      have "set ?ms = set (take p ?ms) \<union> set (drop p ?ms)" by (metis append_take_drop_id set_append)
      then show ?thesis using p by blast
    qed
    moreover have "ss_active s' < length ?ms" if "?ms \<noteq> []" using that None active by (cases ?ms) auto
    ultimately show ?thesis by blast
  next
    case (Some p)
    then show ?thesis using found [OF Some] active by simp
  qed
qed

text \<open>
  C12. The list of matches follows the items. Whatever events a batch has, updating the list for the
  changed and the new items gives the list that a search of all items would give; the active match is
  one of the list, and it stays with its item as long as that matches.
\<close>

theorem search_follows_batch:
  assumes "model_ok m" "apply_batch sv events thread m = Some (m', out)"
    and "str_to_lowercase h (ss_query s) = query" "query \<noteq> []"
    and "ss_matches s = matching_items h query (tm_items m)"
  shows "let s' = update_search_matches_for_changes h (tm_items m') selected (length (tm_items m))
      (sorted_list_of_set (bo_dirty out)) s
    in ss_matches s' = ss_matches (rebuild_search_matches h (tm_items m') s) \<and>
    (ss_matches s' = [] \<or> ss_active s' < length (ss_matches s')) \<and>
    (ss_active s < length (ss_matches s) \<and> ss_matches s ! ss_active s \<in> set (ss_matches s') \<longrightarrow>
       ss_matches s' ! ss_active s' = ss_matches s ! ss_active s)"
proof -
  let ?s' = "update_search_matches_for_changes h (tm_items m') selected (length (tm_items m))
      (sorted_list_of_set (bo_dirty out)) s"
  have r: "redraws (m, default_outcome) (m', out)" using apply_batch_safe [OF assms(1), of sv events thread] assms(2) by auto
  then have dirty: "bo_dirty out \<subseteq> {..< length (tm_items m')}" "length (tm_items m) \<le> length (tm_items m')"
    "\<forall>j < length (tm_items m'). j \<in> bo_dirty out \<or> j < length (tm_items m) \<and> tm_items m' ! j = tm_items m ! j"
    by (auto simp: redraws_def default_outcome_def)
  then have "set (sorted_list_of_set (bo_dirty out)) = bo_dirty out" by (simp add: finite_subset [of _ "{..< _}"])
  then have "\<forall>i < length (tm_items m). i \<in> set (sorted_list_of_set (bo_dirty out)) \<or> tm_items m' ! i = tm_items m ! i"
    using dirty(2,3) by (metis order.strict_trans2)
  from matches_after_changes [OF assms(3-5) dirty(2) this]
  have eq: "ss_matches ?s' = matching_items h query (tm_items m')" .
  then have "sorted_wrt (<) (ss_matches ?s')" using matching_items_ok(1) by simp
  from active_after_changes [OF _ this] show ?thesis
    using assms(3,4) eq unfolding Let_def by (simp add: rebuild_search_matches_def Let_def)
qed

theorem search_follows_batch_witness:
  "\<exists>m' out. apply_batch (example_services tiny_host) [Disconnected ''gone''] None default_model = Some (m', out) \<and>
     ss_matches (update_search_matches_for_changes tiny_host (tm_items m') 0 0 (sorted_list_of_set (bo_dirty out))
       \<lparr>ss_query = ''gone'', ss_matches = [], ss_active = 0\<rparr>) =
     ss_matches (rebuild_search_matches tiny_host (tm_items m') \<lparr>ss_query = ''gone'', ss_matches = [], ss_active = 0\<rparr>)"
proof -
  obtain m' out where b: "apply_batch (example_services tiny_host) [Disconnected ''gone''] None default_model = Some (m', out)"
    using apply_batch_safe [OF default_model_ok] by blast
  let ?s = "\<lparr>ss_query = ''gone'', ss_matches = [], ss_active = 0\<rparr>"
  have q: "str_to_lowercase tiny_host (ss_query ?s) = ''gone''" by (simp add: tiny_host_def)
  have l: "tm_items default_model = []" by (simp add: default_model_def)
  then have "ss_matches ?s = matching_items tiny_host ''gone'' (tm_items default_model)" by (simp add: matching_items_def)
  from search_follows_batch [OF default_model_ok b q _ this, of 0] b l show ?thesis by (auto simp: Let_def)
qed

subsection \<open>What the matcher finds\<close>

lemma occurrence_segment:
  "w \<in> set (occurrences q xs) \<Longrightarrow> \<exists>a seg b. xs = a @ seg @ b \<and> map snd seg = q \<and> map fst seg = w \<and> seg \<noteq> []"
proof (induction q xs rule: occurrences.induct)
  case (1 q xs)
  have here: ?case if "\<not> (q = [] \<or> length xs < length q)" "map snd (take (length q) xs) = q" "w = map fst (take (length q) xs)"
    using that by (intro exI [of _ "[]"] exI [of _ "take (length q) xs"] exI [of _ "drop (length q) xs"]) auto
  have later: ?case if "\<exists>a seg b. zs = a @ seg @ b \<and> map snd seg = q \<and> map fst seg = w \<and> seg \<noteq> []" "xs = ys @ zs" for ys zs
    using that by (metis append.assoc)
  show ?case
  proof (cases "q = [] \<or> length xs < length q")
    case False
    show ?thesis
    proof (cases "map snd (take (length q) xs) = q")
      case True
      then consider "w = map fst (take (length q) xs)" | "w \<in> set (occurrences q (drop (length q) xs))"
        using "1.prems" False by (auto simp: occurrences.simps [of q xs])
      then show ?thesis
      proof cases
        case 2
        show ?thesis by (rule later [OF 1(1) [OF False True 2], of "take (length q) xs"]) simp
      qed (rule here [OF False True])
    next
      case no: False
      then have "w \<in> set (occurrences q (tl xs))" using "1.prems" False by (simp add: occurrences.simps [of q xs])
      from 1(2) [OF False no this] show ?thesis by (rule later [of _ "[hd xs]"]) (use False in \<open>cases xs; auto\<close>)
    qed
  qed (use 1 in \<open>simp add: occurrences.simps [of q xs]\<close>)
qed

text \<open>A segment of a concatenation lies in the concatenation of a segment.\<close>

lemma concat_segment:
  assumes "concat (map f rs) = a @ seg @ b" "seg \<noteq> []"
  shows "\<exists>ra mid rb pre post. rs = ra @ mid @ rb \<and> mid \<noteq> [] \<and> concat (map f mid) = pre @ seg @ post \<and>
    a = concat (map f ra) @ pre \<and> hd seg \<in> set (f (hd mid)) \<and> last seg \<in> set (f (last mid))"
  using assms
proof (induction rs arbitrary: a seg)
  case (Cons r rs)
  show ?case
  proof (cases "length (f r) \<le> length a")
    case True
    then obtain a' where a': "a = f r @ a'" "concat (map f rs) = a' @ seg @ b"
      using Cons.prems(1) by (auto simp: append_eq_append_conv2)
    from Cons.IH [OF a'(2) Cons.prems(2)] obtain ra mid rb pre post where
      "rs = ra @ mid @ rb" "mid \<noteq> []" "concat (map f mid) = pre @ seg @ post" "a' = concat (map f ra) @ pre"
      "hd seg \<in> set (f (hd mid))" "last seg \<in> set (f (last mid))"
      by blast
    then show ?thesis using a'(1)
      by (intro exI [of _ "r # ra"] exI [of _ mid] exI [of _ rb] exI [of _ pre] exI [of _ post]) simp
  next
    case short: False
    obtain s0 where s0: "f r = a @ s0" "s0 @ concat (map f rs) = seg @ b"
      using append_eq_append_conv2 [of "f r" "concat (map f rs)" a "seg @ b"] Cons.prems(1) short by auto
    then have ne: "s0 \<noteq> []" using short by auto
    show ?thesis
    proof (cases "length seg \<le> length s0")
      case True
      then obtain s1 where "s0 = seg @ s1"
        using append_eq_append_conv2 [of s0 "concat (map f rs)" seg b] s0(2) by auto
      then show ?thesis
        using s0(1) Cons.prems(2)
        by (intro exI [of _ "[]"] exI [of _ "[r]"] exI [of _ rs] exI [of _ a] exI [of _ s1]) simp
    next
      case False
      then obtain seg' where seg': "seg = s0 @ seg'" "seg' \<noteq> []" "concat (map f rs) = [] @ seg' @ b"
        using append_eq_append_conv2 [of s0 "concat (map f rs)" seg b] s0(2) by auto
      from Cons.IH [OF seg'(3,2)] obtain ra mid rb pre post where
        m: "rs = ra @ mid @ rb" "mid \<noteq> []" "concat (map f mid) = pre @ seg' @ post" "[] = concat (map f ra) @ pre"
          "last seg' \<in> set (f (last mid))"
        by blast
      have "concat (map f ra) = []" "pre = []" using m(4) by simp_all
      then show ?thesis
        using m(1-3,5) s0(1) ne seg'(1,2)
        by (intro exI [of _ "[]"] exI [of _ "r # ra @ mid"] exI [of _ rb] exI [of _ a] exI [of _ post])
          (simp del: concat_eq_Nil_conv)
    qed
  qed
qed simp

lemma char_ranges_append: "char_ranges n (xs @ ys) = char_ranges n xs @ char_ranges (n + length (concat xs)) ys"
  by (induction xs arbitrary: n) (simp_all add: add.assoc)

lemma char_ranges_Nil_iff [simp]: "char_ranges n gs = [] \<longleftrightarrow> gs = []"
  by (cases gs) simp_all

lemma char_ranges_snd [simp]: "map snd (char_ranges n gs) = gs" "length (char_ranges n gs) = length gs"
  by (induction gs arbitrary: n) simp_all

text \<open>
  A range of the matcher lies on boundaries, and the characters in it fold to a text with the query.
\<close>

lemma match_range_text:
  assumes "utf8 s" "w \<in> set (occurrences q (folded_stream lower_char s))"
  shows "\<exists>gs. char_boundary s (fst (span_of w)) \<and> char_boundary s (snd (span_of w)) \<and>
    fst (span_of w) \<le> snd (span_of w) \<and>
    take (snd (span_of w) - fst (span_of w)) (drop (fst (span_of w)) s) = concat gs \<and> gs \<noteq> [] \<and>
    (\<forall>g \<in> set gs. utf8_char g) \<and> sublist q (concat (map lower_char gs))"
proof -
  let ?f = "\<lambda>(source, g). map (\<lambda>c. (source, c)) (lower_char g)" and ?rs = "char_ranges 0 (chars s)"
  from occurrence_segment [OF assms(2)] obtain a seg b where
    seg: "concat (map ?f ?rs) = a @ seg @ b" "map snd seg = q" "map fst seg = w" "seg \<noteq> []"
    by (auto simp: folded_stream_def)
  from concat_segment [OF seg(1,4)] obtain ra mid rb pre post where
    m: "?rs = ra @ mid @ rb" "mid \<noteq> []" "concat (map ?f mid) = pre @ seg @ post"
      "hd seg \<in> set (?f (hd mid))" "last seg \<in> set (?f (last mid))"
    by blast
  let ?ga = "map snd ra" and ?gs = "map snd mid" and ?gb = "map snd rb"
  have chars: "chars s = ?ga @ ?gs @ ?gb" using arg_cong [OF m(1), of "map snd"] by simp
  have s: "s = concat ?ga @ concat ?gs @ concat ?gb" using arg_cong [OF chars, of concat] by simp
  have mid: "mid = char_ranges (length (concat ?ga)) ?gs"
  proof -
    have "ra @ mid @ rb = char_ranges 0 ?ga @ char_ranges (length (concat ?ga)) ?gs @
        char_ranges (length (concat ?ga) + length (concat ?gs)) ?gb"
      using m(1) unfolding chars by (simp add: char_ranges_append)
    then show ?thesis by (simp add: append_eq_append_conv)
  qed
  have ends: "fst (fst (hd mid)) = length (concat ?ga)" "snd (fst (last mid)) = length (concat ?ga) + length (concat ?gs)"
  proof -
    show "fst (fst (hd mid)) = length (concat ?ga)" by (subst mid) (use m(2) in \<open>cases mid; simp\<close>)
    have "snd (fst (last (char_ranges n gs))) = n + length (concat gs)" if "gs \<noteq> []" for n gs
      using that by (induction gs arbitrary: n) (auto simp: add.assoc)
    then show "snd (fst (last mid)) = length (concat ?ga) + length (concat ?gs)"
      by (subst mid) (use m(2) in simp)
  qed
  have "fst (hd seg) = fst (hd mid)" "fst (last seg) = fst (last mid)" using m(4,5) by (cases "hd mid"; cases "last mid"; auto)+
  then have span: "fst (span_of w) = length (concat ?ga)" "snd (span_of w) = length (concat ?ga) + length (concat ?gs)"
    using seg(3,4) ends by (auto simp: span_of_def hd_map last_map)
  have u: "\<forall>g \<in> set (chars s). utf8_char g" using utf8_chars [OF assms(1)] by blast
  then have parts: "utf8 (concat ?ga)" "utf8 (concat ?ga @ concat ?gs)" "\<forall>g \<in> set ?gs. utf8_char g"
    using utf8_concat_chars [of ?ga] utf8_concat_chars [of "?ga @ ?gs"] unfolding chars by auto
  have "char_boundary s (length (concat ?ga))" "char_boundary s (length (concat ?ga @ concat ?gs))"
    using utf8_prefix_boundary [of "concat ?ga" "concat ?gs @ concat ?gb"]
      utf8_prefix_boundary [of "concat ?ga @ concat ?gs" "concat ?gb"] parts assms(1) s by simp_all
  moreover have "map snd (concat (map ?f mid)) = concat (map lower_char ?gs)"
    by (induction mid) (auto simp: split_def comp_def)
  then have "sublist q (concat (map lower_char ?gs))" using m(3) seg(2) by (metis map_append sublist_appendI)
  ultimately show ?thesis
    using span s parts(3) m(2) by (intro exI [of _ ?gs]) simp
qed

lemma occurrences_Nil_iff: "q \<noteq> [] \<Longrightarrow> occurrences q xs = [] \<longleftrightarrow> \<not> sublist q (map snd xs)"
proof (induction q xs rule: occurrences.induct)
  case (1 q xs)
  show ?case
  proof (cases "length xs < length q")
    case True
    then show ?thesis using sublist_length_le [of q "map snd xs"] by (auto simp: occurrences.simps [of q xs])
  next
    case long: False
    then obtain x xs' where xs: "xs = x # xs'" using 1(3) by (cases xs) auto
    have p: "map snd (take (length q) xs) = q \<longleftrightarrow> prefix q (map snd xs)"
      by (metis append_eq_conv_conj prefix_def take_is_prefix take_map)
    show ?thesis
    proof (cases "map snd (take (length q) xs) = q")
      case True
      then show ?thesis using long 1(3) p prefix_imp_sublist by (auto simp: occurrences.simps [of q xs])
    next
      case False
      then show ?thesis
        using long 1(3) 1(2) p xs by (simp add: occurrences.simps [of q "x # xs'"] sublist_Cons_right)
    qed
  qed
qed

lemma folded_stream_snd: "map snd (folded_stream lower_char s) = concat (map lower_char (chars s))"
proof -
  have "map snd (concat (map (\<lambda>(source, g). map (\<lambda>c. (source, c)) (lower_char g)) (char_ranges n gs))) =
      concat (map lower_char gs)" for n gs
    by (induction gs arbitrary: n) (simp_all add: comp_def)
  then show ?thesis by (simp add: folded_stream_def)
qed

lemma char_count_append: "utf8 b \<Longrightarrow> char_count (a @ b) = char_count a + char_count b"
  using chars_append [OF utf8_clean_start] by (simp add: char_count_def)

lemma char_count_concat: "\<forall>g \<in> set gs. utf8_char g \<Longrightarrow> char_count (concat gs) = length gs"
proof (induction gs)
  case (Cons g gs)
  then have "utf8 (concat gs)" using utf8_concat_chars by simp
  then show ?case using Cons by (simp add: char_count_append) (simp add: char_count_def)
qed (simp add: char_count_def)

lemma ellipsis_char:
  "utf8 (if c then ellipsis @ '' '' else [])" "char_count (if c then ellipsis @ '' '' else []) \<le> 2"
  "utf8 (if c then '' '' @ ellipsis else [])" "char_count (if c then '' '' @ ellipsis else []) \<le> 2"
  by (simp_all add: text_consts char_count_def utf8_def in_bytes_def)

lemma slice_middle:
  assumes "utf8 a" "utf8 t" "utf8 b"
  shows "str_slice (a @ t @ b) (length a) (length a + length t) = Some t"
proof -
  have u: "utf8 (a @ t @ b)" "utf8 (a @ t)" using assms utf8_append by blast+
  have "char_boundary (a @ t @ b) (length a)" by (rule utf8_prefix_boundary [OF assms(1) u(1)])
  moreover have "char_boundary ((a @ t) @ b) (length (a @ t))" using u by (intro utf8_prefix_boundary) simp_all
  ultimately show ?thesis by (simp add: str_slice_Some)
qed

text \<open>The snippet around a range of a line.\<close>

lemma snippet_of_ok:
  assumes "utf8 line" "char_boundary line i" "char_boundary line j" "i \<le> j"
  shows "\<exists>s t. snippet_of line (i, j) max_chars = Some s \<and> t = take (j - i) (drop i line) \<and>
    str_slice (sn_text s) (fst (sn_match_range s)) (snd (sn_match_range s)) = Some t \<and>
    char_count (sn_text s) \<le> max max_chars (char_count t) + 4"
proof -
  let ?t = "take (j - i) (drop i line)" and ?before = "take i line" and ?after = "drop j line"
  have slices: "str_slice line i j = Some ?t" "str_slice line 0 i = Some ?before" "str_slice line j (length line) = Some ?after"
    using assms char_boundary_le by (auto simp: str_slice_Some)
  have u: "utf8 ?t" "utf8 ?before" "utf8 ?after"
    using slices str_slice_utf8 [OF assms(1)] by blast+
  let ?budget = "max_chars - char_count ?t"
  let ?pre = "rev (take (?budget div 3) (rev (chars ?before)))"
  let ?post = "take (?budget - length ?pre) (chars ?after)"
  let ?lead = "(if char_count ?before > length ?pre then ellipsis @ '' '' else []) @ concat ?pre"
  let ?trail = "concat ?post @ (if char_count ?after > length ?post then '' '' @ ellipsis else [])"
  have gs: "\<forall>g \<in> set ?pre. utf8_char g" "\<forall>g \<in> set ?post. utf8_char g"
    using utf8_chars [OF u(2)] utf8_chars [OF u(3)] by (metis in_set_takeD set_rev)+
  then have cu: "utf8 (concat ?pre)" "utf8 (concat ?post)" using utf8_concat_chars by blast+
  have lead: "utf8 ?lead" "char_count ?lead \<le> length ?pre + 2"
    using utf8_append [OF ellipsis_char(1) cu(1)] ellipsis_char(2) [of "char_count ?before > length ?pre"]
    unfolding char_count_append [OF cu(1)] char_count_concat [OF gs(1)] by (blast, linarith)
  have trail: "utf8 ?trail" "char_count ?trail \<le> length ?post + 2"
    using utf8_append [OF cu(2) ellipsis_char(3)] ellipsis_char(4) [of "char_count ?after > length ?post"]
    unfolding char_count_append [OF ellipsis_char(3)] char_count_concat [OF gs(2)] by (blast, linarith)
  let ?s = "\<lparr>sn_text = ?lead @ ?t @ ?trail, sn_match_range = (length ?lead, length ?lead + length ?t)\<rparr>"
  have "snippet_of line (i, j) max_chars = Some ?s"
    unfolding snippet_of_def fst_conv snd_conv slices bind.bind_lunit Let_def by (simp only: append_assoc)
  moreover have "str_slice (?lead @ ?t @ ?trail) (length ?lead) (length ?lead + length ?t) = Some ?t"
    by (rule slice_middle [OF lead(1) u(1) trail(1)])
  moreover have "char_count (?lead @ ?t @ ?trail) \<le> max max_chars (char_count ?t) + 4"
  proof -
    have "char_count (?lead @ ?t @ ?trail) = char_count ?lead + (char_count ?t + char_count ?trail)"
      by (simp only: char_count_append [OF utf8_append [OF u(1) trail(1)]] char_count_append [OF trail(1)])
    moreover have "length ?pre \<le> ?budget div 3" "?budget div 3 \<le> ?budget" by simp_all
    moreover have "length ?post \<le> ?budget - length ?pre" unfolding length_take by (rule min.cobounded2)
    ultimately show ?thesis using lead(2) trail(2) by linarith
  qed
  ultimately show ?thesis
    by (intro exI [of _ ?s] exI [of _ ?t] conjI; simp only: SearchContextSnippet.select_convs fst_conv snd_conv)
qed

lemma utf8_trimmed_lines:
  "utf8 content \<Longrightarrow> line \<in> set (filter (\<lambda>line. line \<noteq> []) (map trim (lines content))) \<Longrightarrow> utf8 line"
  using utf8_lines [of content] by (auto intro: utf8_trim)

lemma snippet_in_lines_ok:
  assumes "\<forall>line \<in> set ls. utf8 line" "concat (map lower_char (chars (trim query))) = q"
  shows "\<exists>r. snippet_in_lines lower_char query max_chars ls = Some r \<and>
    (r = None \<longleftrightarrow> q = [] \<or> (\<forall>line \<in> set ls. \<not> sublist q (concat (map lower_char (chars line))))) \<and>
    (\<forall>s. r = Some s \<longrightarrow> (\<exists>t line. line \<in> set ls \<and> sublist t line \<and>
       str_slice (sn_text s) (fst (sn_match_range s)) (snd (sn_match_range s)) = Some t \<and>
       sublist q (concat (map lower_char (chars t))) \<and> char_count (sn_text s) \<le> max max_chars (char_count t) + 4))"
  using assms(1)
proof (induction ls)
  case (Cons line ls)
  have u: "utf8 line" using Cons.prems by simp
  let ?occ = "occurrences q (folded_stream lower_char line)"
  have ranges: "folded_match_byte_ranges lower_char line query 1 =
      Some (if q = [] then [] else take 1 (remdups_adj (map span_of ?occ)))"
    by (simp add: folded_match_eq assms(2))
  show ?case
  proof (cases "q = [] \<or> ?occ = []")
    case True
    then have skip: "snippet_in_lines lower_char query max_chars (line # ls) = snippet_in_lines lower_char query max_chars ls"
      using ranges by auto
    have "q = [] \<or> \<not> sublist q (concat (map lower_char (chars line)))"
      using True occurrences_Nil_iff [of q "folded_stream lower_char line"] by (simp only: folded_stream_snd) blast
    then show ?thesis
      unfolding skip using Cons by (auto 4 4)
  next
    case False
    then obtain w ws where w: "?occ = w # ws" by (cases ?occ) auto
    then have "take 1 (remdups_adj (map span_of ?occ)) = [span_of w]" by (cases "remdups_adj (map span_of ws)") (auto simp: remdups_adj_Cons)
    then have step: "snippet_in_lines lower_char query max_chars (line # ls) = map_option Some (snippet_of line (span_of w) max_chars)"
      using ranges False by simp
    from match_range_text [OF u, of w q lower_char] w obtain gs where
      gs: "char_boundary line (fst (span_of w))" "char_boundary line (snd (span_of w))" "fst (span_of w) \<le> snd (span_of w)"
        "take (snd (span_of w) - fst (span_of w)) (drop (fst (span_of w)) line) = concat gs"
        "\<forall>g \<in> set gs. utf8_char g" "sublist q (concat (map lower_char gs))"
      by auto
    have chars: "chars (concat gs) = gs" using gs(5)
    proof (induction gs)
      case (Cons g gs)
      then have "utf8 (concat gs)" using utf8_concat_chars by simp
      then show ?case using Cons chars_append [OF utf8_clean_start, of "concat gs" g] by simp
    qed simp
    from snippet_of_ok [OF u gs(1-3), of max_chars] obtain s where
      s: "snippet_of line (span_of w) max_chars = Some s"
        "str_slice (sn_text s) (fst (sn_match_range s)) (snd (sn_match_range s)) = Some (concat gs)"
        "char_count (sn_text s) \<le> max max_chars (char_count (concat gs)) + 4"
      unfolding gs(4) by auto
    have "sublist (concat gs) line"
      unfolding gs(4) [symmetric] by (metis append_take_drop_id sublist_appendI)
    moreover have "sublist q (concat (map lower_char (chars line)))"
      using False occurrences_Nil_iff [of q "folded_stream lower_char line"] by (simp only: folded_stream_snd) blast
    ultimately show ?thesis
      unfolding step s(1) using s(2,3) gs(6) False chars
      by (intro exI [of _ "Some s"]) auto
  qed
qed simp

text \<open>
  C14. The snippet of a match is right. Making it never panics; there is one exactly when some line
  contains the folded query; the range it paints is a part of that line, at character boundaries,
  that folds to a text with the query; and it is no longer than asked, but for the match itself and
  the two marks of what was left out.
\<close>

theorem search_snippet_right:
  assumes "utf8 content" "0 < max_chars"
  shows "\<exists>r. search_context_snippet h lower_char content query max_chars = Some r \<and>
    (let folded = str_to_lowercase h (trim query); q = concat (map lower_char (chars (trim folded)))
     in (r = None \<longleftrightarrow> q = [] \<or>
          (\<forall>line \<in> set (lines content). trim line = [] \<or> \<not> sublist q (concat (map lower_char (chars (trim line)))))) \<and>
        (\<forall>s. r = Some s \<longrightarrow> (\<exists>t line. line \<in> set (lines content) \<and> sublist t (trim line) \<and>
           str_slice (sn_text s) (fst (sn_match_range s)) (snd (sn_match_range s)) = Some t \<and>
           sublist q (concat (map lower_char (chars t))) \<and>
           char_count (sn_text s) \<le> max max_chars (char_count t) + 4)))"
proof -
  let ?folded = "str_to_lowercase h (trim query)" and ?ls = "filter (\<lambda>line. line \<noteq> []) (map trim (lines content))"
  let ?q = "concat (map lower_char (chars (trim ?folded)))"
  show ?thesis
  proof (cases "?folded = []")
    case True
    then show ?thesis by (auto simp: search_context_snippet_def Let_def trim_def trim_start_def trim_end_def)
  next
    case False
    have "\<forall>line \<in> set ?ls. utf8 line" using utf8_trimmed_lines [OF assms(1)] by blast
    from snippet_in_lines_ok [OF this refl, of lower_char ?folded max_chars]
    obtain r where r: "snippet_in_lines lower_char ?folded max_chars ?ls = Some r"
      "r = None \<longleftrightarrow> ?q = [] \<or> (\<forall>line \<in> set ?ls. \<not> sublist ?q (concat (map lower_char (chars line))))"
      "\<forall>s. r = Some s \<longrightarrow> (\<exists>t line. line \<in> set ?ls \<and> sublist t line \<and>
       str_slice (sn_text s) (fst (sn_match_range s)) (snd (sn_match_range s)) = Some t \<and>
       sublist ?q (concat (map lower_char (chars t))) \<and> char_count (sn_text s) \<le> max max_chars (char_count t) + 4)"
      by (elim exE conjE)
    have "search_context_snippet h lower_char content query max_chars = Some r"
      using r(1) False assms(2) by (simp add: search_context_snippet_def Let_def)
    moreover have "r = None \<longleftrightarrow> ?q = [] \<or>
        (\<forall>line \<in> set (lines content). trim line = [] \<or> \<not> sublist ?q (concat (map lower_char (chars (trim line)))))"
      unfolding r(2) by auto
    ultimately show ?thesis
      unfolding Let_def using r(3) by (intro exI [of _ r]) fastforce
  qed
qed

theorem search_snippet_right_witness:
  "\<exists>s. search_context_snippet tiny_host (\<lambda>c. [c]) ''ab'' ''b'' 9 = Some (Some s) \<and>
     str_slice (sn_text s) (fst (sn_match_range s)) (snd (sn_match_range s)) \<noteq> None"
proof -
  have u: "utf8 ''ab''" by (rule ascii_utf8) (simp add: ascii_def in_bytes_def)
  have c: "lines ''ab'' = [''ab'']" "trim ''ab'' = ''ab''" "trim ''b'' = ''b''" "chars ''ab'' = [''a'', ''b'']" "chars ''b'' = [''b'']"
    by code_simp+
  have "sublist [''b''] [''a'', ''b'']" by (simp add: sublist_Cons_right)
  then show ?thesis
    using search_snippet_right [OF u, of 9 tiny_host "\<lambda>c. [c]" "''b''"] c by (auto simp: tiny_host_def Let_def)
qed

text \<open>A card paints at most as many ranges as its budget allows, and at most one of them as active.\<close>

lemma paint_bounded:
  "paint_texts lower_char contents paint = Some (rs, paint') \<Longrightarrow>
    sum_list (map (\<lambda>r. length (st_ranges r)) rs) + rp_remaining_ranges paint' = rp_remaining_ranges paint \<and>
    length (filter (\<lambda>r. st_active r \<noteq> None) rs) + of_bool (rp_active_claimed paint) \<le> 1 + of_bool (rp_active_claimed paint) \<and>
    (rp_active_claimed paint \<longrightarrow> filter (\<lambda>r. st_active r \<noteq> None) rs = [])"
proof (induction lower_char contents paint arbitrary: rs rule: paint_texts.induct)
  case (2 lower_char content rest paint)
  then obtain r p more where r: "ranges_for lower_char content paint = Some (r, p)"
    "paint_texts lower_char rest p = Some (more, paint')" "rs = r # more"
    by (auto simp: bind_eq_Some_conv)
  note IH = "2.IH" [OF r(1) refl r(2)]
  from r(1) have "length (st_ranges r) + rp_remaining_ranges p = rp_remaining_ranges paint"
    "(st_active r \<noteq> None \<longrightarrow> \<not> rp_active_claimed paint \<and> rp_active_claimed p)"
    "rp_active_claimed paint \<longrightarrow> rp_active_claimed p"
    by (auto simp: ranges_for_def decorate_ranges_def Let_def split: if_splits)
  with IH r(3) show ?case by (cases "st_active r") auto
qed simp

subsection \<open>Whether the card shows the match\<close>

definition compact_reasoning_preview :: "string \<Rightarrow> string" where
  "compact_reasoning_preview content =
     (let latest = trim (trim_matches {CHR ''*''} (trim
            (unwrap_or (find (\<lambda>line. trim line \<noteq> []) (rev (lines content))) ''Thinking'')))
      in char_take 140 latest @ (if char_count latest > 140 then ellipsis else []))"

text \<open>\<open>any\<close> and \<open>||\<close> with tests that may panic.\<close>

fun any_some :: "('a \<Rightarrow> bool option) \<Rightarrow> 'a list \<Rightarrow> bool option" where
  "any_some P [] = Some False"
| "any_some P (x # xs) = do { found \<leftarrow> P x; if found then Some True else any_some P xs }"

definition or_some :: "bool option \<Rightarrow> bool option \<Rightarrow> bool option" where
  "or_some a b = do { found \<leftarrow> a; if found then Some True else b }"

definition visible_line_prefix_contains :: "(string \<Rightarrow> string list) \<Rightarrow> string \<Rightarrow> nat \<Rightarrow> string \<Rightarrow> bool option" where
  "visible_line_prefix_contains lower_char content visible_lines query =
     any_some (\<lambda>line. folded_contains lower_char line query) (take visible_lines (lines content))"

definition file_change_visible ::
  "(string \<Rightarrow> string list) \<Rightarrow> string \<Rightarrow> FileChangePresentation \<times> nat \<Rightarrow> bool option" where
  "file_change_visible lower_char query p =
     (let (presentation, visible_lines) = p;
          (additions, deletions) = file_change_counts presentation
      in or_some (if additions = 0 \<and> deletions = 0 then folded_contains lower_char (fc_operation presentation) query
           else Some False)
         (or_some (folded_contains lower_char (fc_path presentation) query)
           (visible_line_prefix_contains lower_char (fc_content presentation) visible_lines query)))"

definition diff_file_visible ::
  "(string \<Rightarrow> string list) \<Rightarrow> string \<Rightarrow> DiffFilePresentation \<times> nat \<Rightarrow> bool option" where
  "diff_file_visible lower_char query p =
     (let (presentation, visible_lines) = p
      in or_some (folded_contains lower_char (df_path presentation) query)
           (visible_line_prefix_contains lower_char (df_content presentation) visible_lines query))"

definition opt_contains :: "(string \<Rightarrow> string list) \<Rightarrow> string option \<Rightarrow> string \<Rightarrow> bool option" where
  "opt_contains lower_char content query =
     (case content of None \<Rightarrow> Some False | Some s \<Rightarrow> folded_contains lower_char s query)"

definition command_visible ::
  "(string \<Rightarrow> string list) \<Rightarrow> CommandTranscript \<Rightarrow> OutputExpansion \<Rightarrow> string \<Rightarrow> bool option" where
  "command_visible lower_char transcript expansion query =
     (let command_limits = output_limits expansion COMMAND_PREVIEW_LINES COMMAND_PREVIEW_BYTES;
          limits = output_limits expansion STRUCTURED_OUTPUT_PREVIEW_LINES STRUCTURED_OUTPUT_PREVIEW_BYTES
      in do { command \<leftarrow> structured_output_preview_with_limits (command_text transcript) ''command''
                (ol_lines command_limits) (ol_bytes command_limits);
              out \<leftarrow> structured_output_preview_with_limits (command_output_for_display (ct_output transcript)) ''output''
                (ol_lines limits) (ol_bytes limits);
              or_some (folded_contains lower_char (so_content command) query)
                (folded_contains lower_char (so_content out) query) })"

definition plain_visible :: "(string \<Rightarrow> string list) \<Rightarrow> TranscriptItem \<Rightarrow> OutputExpansion \<Rightarrow> string \<Rightarrow> bool option" where
  "plain_visible lower_char item expansion query =
     do { visible \<leftarrow> structured_output_presentation (it_content item) ''output'' expansion;
          folded_contains lower_char (po_content visible) query }"

definition expanded_body_visible ::
  "(string \<Rightarrow> bool) \<Rightarrow> (string \<Rightarrow> string list) \<Rightarrow> TranscriptItem \<Rightarrow> OutputExpansion \<Rightarrow> string \<Rightarrow> bool option" where
  "expanded_body_visible is_valid_json lower_char item expansion query =
     (case it_kind item of
        Command \<Rightarrow>
          (case command_transcript item of
             None \<Rightarrow> Some False
           | Some transcript \<Rightarrow> command_visible lower_char transcript expansion query)
      | FileChange \<Rightarrow>
          let presentations = file_change_presentations (it_content item)
          in any_some (file_change_visible lower_char query) (zip presentations
               (progressive_file_line_allocations (map (\<lambda>p. length (lines (fc_content p))) presentations) expansion))
      | Diff \<Rightarrow>
          let presentations = diff_file_presentations (it_content item)
          in any_some (diff_file_visible lower_char query) (zip presentations
               (progressive_file_line_allocations (map (\<lambda>p. length (lines (df_content p))) presentations) expansion))
      | Web \<Rightarrow> any_some (\<lambda>result. or_some (folded_contains lower_char (wr_title result) query)
            (or_some (opt_contains lower_char (wr_url result) query) (opt_contains lower_char (wr_snippet result) query)))
          (take (progressive_web_limit expansion) (ws_results (web_search_presentation (it_raw item))))
      | k \<Rightarrow>
          if k \<in> {Tool, Subagent, Review} then
            do { presentation \<leftarrow> activity_output_presentation is_valid_json (it_content item) expansion;
                 case presentation of
                   Some p \<Rightarrow> any_some (\<lambda>section. or_some (opt_contains lower_char (asp_heading section) query)
                     (folded_contains lower_char (asp_body section) query)) (aop_sections p)
                 | None \<Rightarrow> plain_visible lower_char item expansion query }
          else if is_structured k then plain_visible lower_char item expansion query
          else folded_contains lower_char (transcript_item_searchable_body item) query)"

definition rich_search_query_is_visible ::
  "(string \<Rightarrow> bool) \<Rightarrow> (string \<Rightarrow> string list) \<Rightarrow> TranscriptItem \<Rightarrow> OutputExpansion \<Rightarrow> string \<Rightarrow> bool option" where
  "rich_search_query_is_visible is_valid_json lower_char item expansion query =
     do { shown \<leftarrow> or_some
            (if transcript_item_shows_header item
             then folded_contains lower_char (transcript_item_header_title item) query else Some False)
            (opt_contains lower_char (display_status item) query);
          if shown then Some True
          else if \<not> it_expanded item then
            (if it_kind item = Reasoning
             then folded_contains lower_char (compact_reasoning_preview (it_content item)) query else Some False)
          else expanded_body_visible is_valid_json lower_char item expansion query }"

end
