(* ===== verification/TranscriptNavigation.thy ===== *)
theory TranscriptNavigation
  imports TranscriptSearch Session RequestHandling
begin

text \<open>
  Moving through the cards of the transcript (\<open>crates/harness_app/src/main.rs\<close>): the selected item,
  the anchor of a visual selection, the search with its list of matches, and what batches,
  refreshes and the switch of tasks do to them. The view is the one of cards; the list widget is
  outside, so whether it follows the tail, and which item is at its top, are arguments.
\<close>

subsection \<open>State and operations\<close>

record TranscriptView =
  tv_model :: TranscriptModel
  tv_selected_item :: nat
  tv_visual_anchor :: "nat option"
  tv_search :: SearchState
  tv_search_visible :: bool
  tv_search_navigation_generation :: nat
  tv_output_expansion :: "string \<rightharpoonup> OutputExpansion"
  tv_raw_visible :: "string set"

abbreviation tv_items :: "TranscriptView \<Rightarrow> TranscriptItem list" where
  "tv_items v \<equiv> tm_items (tv_model v)"

text \<open>The part of \<open>apply_event_batch\<close> for the view, with the events that were forwarded.\<close>

definition view_event_batch ::
  "services \<Rightarrow> bool \<Rightarrow> Event list \<Rightarrow> string option \<Rightarrow> TranscriptView \<Rightarrow> TranscriptView option" where
  "view_event_batch sv was_following_tail events thread v =
     (let old_len = length (tv_items v)
      in do { (m, outcome) \<leftarrow> apply_batch sv events thread (tv_model v);
              let new_len = length (tm_items m);
                  dirty_items = sorted_list_of_set (bo_dirty outcome);
                  v = v\<lparr>tv_model := m\<rparr>;
                  v = (if new_len > old_len \<and> was_following_tail then v\<lparr>tv_selected_item := new_len - 1\<rparr> else v)
              in Some (if ss_query (tv_search v) \<noteq> []
                   then v\<lparr>tv_search := update_search_matches_for_changes (sv_host sv) (tm_items m) (tv_selected_item v)
                          old_len dirty_items (tv_search v)\<rparr>
                   else v) })"

definition mark_inactive :: "string set \<Rightarrow> TranscriptModel \<Rightarrow> TranscriptModel" where
  "mark_inactive live m = m\<lparr>tm_items := map (\<lambda>item. if unresolved item \<and> it_key item \<notin> live
     then item\<lparr>it_status := Some ''inactive''\<rparr> else item) (tm_items m)\<rparr>"

text \<open>The refresh of a task that is read only, for the task that is selected.\<close>

definition view_refresh ::
  "host \<Rightarrow> bool \<Rightarrow> string set \<Rightarrow> CodexThread \<Rightarrow> TranscriptView \<Rightarrow> TranscriptView option" where
  "view_refresh h was_following_tail live thread v =
     (let selected_key = map_option it_key (get_at (tv_items v) (tv_selected_item v))
      in do { (outcome, m) \<leftarrow> refresh_thread h thread (tv_model v);
              let dirty_items = sorted_list_of_set (ro_dirty outcome)
              in if \<not> ro_reset outcome \<and> ro_old_len outcome = ro_new_len outcome \<and> dirty_items = []
                 then Some (v\<lparr>tv_model := m\<rparr>)
                 else
                   let m = mark_inactive live m;
                       selected = (if was_following_tail then length (tm_items m) - 1
                         else unwrap_or (Option.bind selected_key (\<lambda>key. position (\<lambda>item. it_key item = key) (tm_items m)))
                           (min (tv_selected_item v) (length (tm_items m) - 1)));
                       s = tv_search v;
                       s = (if ss_query s = [] then s
                            else if ro_reset outcome then rebuild_search_matches h (tm_items m) s
                            else update_search_matches_for_changes h (tm_items m) selected (ro_old_len outcome) dirty_items s)
                   in Some (v\<lparr>tv_model := m, tv_selected_item := selected, tv_search := s\<rparr>) })"

definition forget_cards :: "TranscriptView \<Rightarrow> TranscriptView" where
  "forget_cards v = v\<lparr>tv_raw_visible := {}, tv_output_expansion := Map.empty\<rparr>"

text \<open>\<open>open_thread\<close> (with a client) and \<open>new_task\<close>.\<close>

definition view_clear :: "TranscriptView \<Rightarrow> TranscriptView" where
  "view_clear v = (forget_cards (v\<lparr>tv_model := clear (tv_model v)\<rparr>))\<lparr>tv_selected_item := 0\<rparr>"

definition view_load_thread ::
  "services \<Rightarrow> (string \<Rightarrow> string option) \<Rightarrow> (string \<Rightarrow> file_read) \<Rightarrow> (string \<Rightarrow> PersistedTranscript option) \<Rightarrow>
   string set \<Rightarrow> CodexThread \<Rightarrow> TranscriptView \<Rightarrow> TranscriptView option" where
  "view_load_thread sv env read_file from_slice live thread v =
     do { m \<leftarrow> load_thread (sv_host sv) thread (tv_model v);
          (restored, m) \<leftarrow> merge_persisted_transcript env read_file from_slice (th_id thread) m;
          let m = mark_inactive live m
          in Some ((forget_cards (v\<lparr>tv_model := m\<rparr>))\<lparr>tv_selected_item := length (tm_items m) - 1\<rparr>) }"

definition composer_send_blocked :: "bool \<Rightarrow> bool \<Rightarrow> bool \<Rightarrow> bool \<Rightarrow> bool" where
  "composer_send_blocked composer_empty loading_thread read_only transport_available =
     (composer_empty \<or> loading_thread \<or> read_only \<or> \<not> transport_available)"

definition view_send :: "bool \<Rightarrow> bool \<Rightarrow> bool \<Rightarrow> string \<Rightarrow> TranscriptView \<Rightarrow> TranscriptView" where
  "view_send loading_thread read_only transport_available content v =
     (let content = trim content
      in if composer_send_blocked (content = []) loading_thread read_only transport_available then v
         else let ((index, key), m) = push_local_user content (tv_model v)
              in v\<lparr>tv_model := m, tv_selected_item := index\<rparr>)"

definition move_selection :: "int \<Rightarrow> TranscriptView \<Rightarrow> TranscriptView" where
  "move_selection delta v =
     (if tv_items v = [] then v
      else v\<lparr>tv_selected_item := min (nat (max 0 (int (tv_selected_item v) + delta))) (length (tv_items v) - 1)\<rparr>)"

definition go_top :: "TranscriptView \<Rightarrow> TranscriptView" where
  "go_top v = v\<lparr>tv_selected_item := 0\<rparr>"

definition go_bottom :: "TranscriptView \<Rightarrow> TranscriptView" where
  "go_bottom v = v\<lparr>tv_selected_item := length (tv_items v) - 1\<rparr>"

definition click_item :: "nat \<Rightarrow> TranscriptView \<Rightarrow> TranscriptView" where
  "click_item index v = v\<lparr>tv_selected_item := index, tv_visual_anchor := None\<rparr>"

definition scroll_page :: "nat \<Rightarrow> TranscriptView \<Rightarrow> TranscriptView" where
  "scroll_page item_ix v =
     (if tv_items v = [] then v else v\<lparr>tv_selected_item := min item_ix (length (tv_items v) - 1)\<rparr>)"

definition toggle_visual :: "TranscriptView \<Rightarrow> TranscriptView" where
  "toggle_visual v = v\<lparr>tv_visual_anchor :=
     (if tv_visual_anchor v \<noteq> None then None else Some (tv_selected_item v))\<rparr>"

definition toggle_raw :: "TranscriptView \<Rightarrow> TranscriptView" where
  "toggle_raw v =
     (case get_at (tv_items v) (tv_selected_item v) of
        None \<Rightarrow> v
      | Some item \<Rightarrow> v\<lparr>tv_raw_visible := (if it_key item \<in> tv_raw_visible v then tv_raw_visible v - {it_key item}
          else insert (it_key item) (tv_raw_visible v))\<rparr>)"

text \<open>A slice of the items that is out of range panics; the inner \<open>None\<close> is that nothing is copied.\<close>

definition yank_selected :: "TranscriptView \<Rightarrow> (string option \<times> TranscriptView) option" where
  "yank_selected v =
     (if tv_items v = [] then Some (None, v)
      else
        let anchor = unwrap_or (tv_visual_anchor v) (tv_selected_item v);
            start = min anchor (tv_selected_item v); finish = max anchor (tv_selected_item v)
        in if finish < length (tv_items v)
           then Some (Some (join blank_line (map it_content (take (finish + 1 - start) (drop start (tv_items v))))),
                      v\<lparr>tv_visual_anchor := None\<rparr>)
           else None)"

definition jump_to_search_match :: "TranscriptView \<Rightarrow> TranscriptView" where
  "jump_to_search_match v =
     (case get_at (ss_matches (tv_search v)) (ss_active (tv_search v)) of
        None \<Rightarrow> v
      | Some index \<Rightarrow> v\<lparr>tv_selected_item := index,
          tv_search_navigation_generation := (tv_search_navigation_generation v + 1) mod 2 ^ 64\<rparr>)"

definition move_search_match :: "int \<Rightarrow> TranscriptView \<Rightarrow> TranscriptView" where
  "move_search_match delta v =
     (let s = tv_search v; len = length (ss_matches s)
      in if ss_matches s = [] then v
         else jump_to_search_match (v\<lparr>tv_search := s\<lparr>ss_active :=
           (if delta < 0 then (if ss_active s = 0 then len - 1 else ss_active s - 1)
            else (ss_active s + 1) mod len)\<rparr>\<rparr>))"

definition commit_search :: "host \<Rightarrow> string \<Rightarrow> TranscriptView \<Rightarrow> TranscriptView" where
  "commit_search h entered v =
     (let s = rebuild_search_matches h (tv_items v) ((tv_search v)\<lparr>ss_query := trim entered\<rparr>)
      in if ss_matches s \<noteq> []
         then jump_to_search_match (v\<lparr>tv_search := s\<lparr>ss_active :=
           unwrap_or (position (\<lambda>index. index \<ge> tv_selected_item v) (ss_matches s)) 0\<rparr>\<rparr>)
         else v\<lparr>tv_search := s\<rparr>)"

definition open_search :: "TranscriptView \<Rightarrow> TranscriptView" where
  "open_search v = v\<lparr>tv_search_visible := True\<rparr>"

definition close_search :: "TranscriptView \<Rightarrow> TranscriptView" where
  "close_search v = v\<lparr>tv_search_visible := False, tv_search := \<lparr>ss_query = [], ss_matches = [], ss_active = 0\<rparr>\<rparr>"

subsection \<open>Sequences of operations\<close>

text \<open>
  What the user and the server can do, the refresh of a task that is read only and the switch of tasks
  included. Only items that exist are clicked.
\<close>

datatype view_op =
    ViewBatch bool "Event list" "string option"
  | ViewSend bool bool bool string
  | MoveSelection int | GoTop | GoBottom | ClickItem nat | ScrollPage nat
  | ToggleVisual | ToggleRaw | YankItem
  | OpenSearch | CommitSearch string | CloseSearch | MoveSearchMatch int
  | ViewRefresh bool "string set" CodexThread
  | ViewClear
  | ViewLoad "string \<Rightarrow> string option" "string \<Rightarrow> file_read" "string \<Rightarrow> PersistedTranscript option" "string set" CodexThread

fun view_step :: "services \<Rightarrow> view_op \<Rightarrow> TranscriptView \<Rightarrow> TranscriptView option" where
  "view_step sv (ViewBatch follows events thread) v = view_event_batch sv follows events thread v"
| "view_step sv (ViewSend loading read_only available content) v = Some (view_send loading read_only available content v)"
| "view_step sv (MoveSelection delta) v = Some (move_selection delta v)"
| "view_step sv GoTop v = Some (go_top v)"
| "view_step sv GoBottom v = Some (go_bottom v)"
| "view_step sv (ClickItem index) v = Some (if index < length (tv_items v) then click_item index v else v)"
| "view_step sv (ScrollPage item_ix) v = Some (scroll_page item_ix v)"
| "view_step sv ToggleVisual v = Some (toggle_visual v)"
| "view_step sv ToggleRaw v = Some (toggle_raw v)"
| "view_step sv YankItem v = map_option snd (yank_selected v)"
| "view_step sv OpenSearch v = Some (open_search v)"
| "view_step sv (CommitSearch entered) v = Some (commit_search (sv_host sv) entered v)"
| "view_step sv CloseSearch v = Some (close_search v)"
| "view_step sv (MoveSearchMatch delta) v = Some (move_search_match delta v)"
| "view_step sv (ViewRefresh follows live thread) v = view_refresh (sv_host sv) follows live thread v"
| "view_step sv ViewClear v = Some (view_clear v)"
| "view_step sv (ViewLoad env read_file from_slice live thread) v = view_load_thread sv env read_file from_slice live thread v"

fun view_run :: "services \<Rightarrow> view_op list \<Rightarrow> TranscriptView \<Rightarrow> TranscriptView option" where
  "view_run sv [] v = Some v"
| "view_run sv (op # ops) v = Option.bind (view_step sv op v) (view_run sv ops)"

definition view_ok :: "TranscriptView \<Rightarrow> bool" where
  "view_ok v \<longleftrightarrow> model_ok (tv_model v) \<and> tv_selected_item v < max 1 (length (tv_items v)) \<and>
     (\<forall>a. tv_visual_anchor v = Some a \<longrightarrow> a < max 1 (length (tv_items v))) \<and>
     sorted_wrt (<) (ss_matches (tv_search v)) \<and> (\<forall>i \<in> set (ss_matches (tv_search v)). i < length (tv_items v))"

lemma update_matches_bounds:
  assumes "sorted_wrt (<) (ss_matches s)"
  shows "sorted_wrt (<) (ss_matches (update_search_matches_for_changes h items selected old_len dirty s)) \<and>
    (\<forall>i \<in> set (ss_matches (update_search_matches_for_changes h items selected old_len dirty s)). i < length items)"
proof -
  have "sorted_wrt (<) (filter (\<lambda>index. index < length items) (ss_matches s))" using assms by (simp add: sorted_wrt_filter)
  from reconcile_items_ok [OF this] show ?thesis
    by (auto simp: update_search_matches_for_changes_def Let_def split: if_splits)
qed

lemma rebuild_bounds:
  "sorted_wrt (<) (ss_matches (rebuild_search_matches h items s)) \<and>
    (\<forall>i \<in> set (ss_matches (rebuild_search_matches h items s)). i < length items)"
  using matching_items_ok by (simp add: rebuild_search_matches_def Let_def)

lemma jump_ok:
  assumes "view_ok v"
  shows "view_ok (jump_to_search_match v)"
proof -
  have "ss_matches (tv_search v) ! i < length (tv_items v)" if "i < length (ss_matches (tv_search v))" for i
    using assms that by (simp add: view_ok_def)
  then show ?thesis using assms by (auto simp: view_ok_def jump_to_search_match_def get_at_def less_max_iff_disj)
qed

lemma batch_view_ok:
  assumes "view_ok v"
  shows "\<exists>v'. view_event_batch sv follows events thread v = Some v' \<and> view_ok v'"
proof -
  have m: "model_ok (tv_model v)" using assms by (simp add: view_ok_def)
  obtain m' out where b: "apply_batch sv events thread (tv_model v) = Some (m', out)" "model_ok m'"
    "redraws (tv_model v, default_outcome) (m', out)"
    using apply_batch_safe [OF m] by blast
  have l: "length (tv_items v) \<le> length (tm_items m')" using b(3) by (simp add: redraws_def)
  let ?v = "v\<lparr>tv_model := m', tv_selected_item := (if length (tm_items m') > length (tv_items v) \<and> follows
      then length (tm_items m') - 1 else tv_selected_item v)\<rparr>"
  have ok: "view_ok ?v" using assms b(2) l by (auto simp: view_ok_def less_max_iff_disj)
  have "sorted_wrt (<) (ss_matches (tv_search v))" using assms by (simp add: view_ok_def)
  note u = update_matches_bounds [OF this]
  have "view_event_batch sv follows events thread v = Some (if ss_query (tv_search v) \<noteq> []
      then ?v\<lparr>tv_search := update_search_matches_for_changes (sv_host sv) (tm_items m') (tv_selected_item ?v)
        (length (tv_items v)) (sorted_list_of_set (bo_dirty out)) (tv_search v)\<rparr> else ?v)"
    using b(1) by (simp add: view_event_batch_def Let_def)
  moreover have "view_ok (?v\<lparr>tv_search := update_search_matches_for_changes (sv_host sv) (tm_items m') (tv_selected_item ?v)
        (length (tv_items v)) (sorted_list_of_set (bo_dirty out)) (tv_search v)\<rparr>)"
    using ok u by (simp add: view_ok_def)
  ultimately show ?thesis using ok by (cases "ss_query (tv_search v) \<noteq> []") simp_all
qed

lemma send_view_ok:
  assumes "view_ok v"
  shows "view_ok (view_send loading read_only available content v)"
proof -
  have "tm_items (snd (push_local_user c m)) = tm_items m @ [it] \<and> fst (fst (push_local_user c m)) = length (tm_items m)"
    if "it = last (tm_items (snd (push_local_user c m)))" for c m it
    using that by (simp add: push_local_user_def push_without_splice_def Let_def)
  from this [OF refl] have "length (tm_items (snd (push_local_user c m))) = Suc (length (tm_items m)) \<and>
      fst (fst (push_local_user c m)) = length (tm_items m)" for c m
    by (metis length_append_singleton)
  then show ?thesis
    using assms push_local_user_model_ok [of "tv_model v"]
    by (auto simp: view_ok_def view_send_def Let_def less_max_iff_disj less_Suc_eq split: prod.splits)
      (metis fst_conv snd_conv less_Suc_eq)+
qed

text \<open>The operations that put other items in the place of those of the transcript.\<close>

fun replaces :: "view_op \<Rightarrow> bool" where
  "replaces (ViewRefresh follows live thread) = True"
| "replaces ViewClear = True"
| "replaces (ViewLoad env read_file from_slice live thread) = True"
| "replaces op = False"

text \<open>The slice that copying takes is out of range.\<close>

definition copy_out_of_range :: "TranscriptView \<Rightarrow> bool" where
  "copy_out_of_range v \<longleftrightarrow> tv_items v \<noteq> [] \<and>
     length (tv_items v) \<le> max (unwrap_or (tv_visual_anchor v) (tv_selected_item v)) (tv_selected_item v)"

lemma yank_None: "yank_selected v = None \<longleftrightarrow> copy_out_of_range v"
  by (auto simp: yank_selected_def copy_out_of_range_def Let_def not_less)

lemma in_range_copies: "view_ok v \<Longrightarrow> \<not> copy_out_of_range v"
  by (cases "tv_visual_anchor v") (auto simp: view_ok_def copy_out_of_range_def less_max_iff_disj)

lemma yank_model: "yank_selected v = Some r \<Longrightarrow> tv_model (snd r) = tv_model v \<and> (view_ok v \<longrightarrow> view_ok (snd r))"
  by (auto simp: yank_selected_def Let_def view_ok_def split: if_splits)

text \<open>Within a task everything stays in range.\<close>

lemma step_view_ok:
  assumes "view_ok v" "\<not> replaces op"
  shows "\<exists>v'. view_step sv op v = Some v' \<and> view_ok v'"
proof (cases op)
  case (ViewBatch follows events thread)
  then show ?thesis using batch_view_ok [OF assms(1)] by simp
next
  case (ViewSend loading read_only available content)
  then show ?thesis using send_view_ok [OF assms(1)] by simp
next
  case (CommitSearch entered)
  let ?s = "rebuild_search_matches (sv_host sv) (tv_items v) ((tv_search v)\<lparr>ss_query := trim entered\<rparr>)"
  have "view_ok (v\<lparr>tv_search := ?s\<rparr>)" "view_ok (v\<lparr>tv_search := ?s\<lparr>ss_active := k\<rparr>\<rparr>)" for k
    using assms(1) rebuild_bounds [of "sv_host sv" "tv_items v" "(tv_search v)\<lparr>ss_query := trim entered\<rparr>"]
    by (simp_all add: view_ok_def)
  then show ?thesis using CommitSearch jump_ok by (simp add: commit_search_def Let_def)
next
  case (MoveSearchMatch delta)
  have "view_ok (v\<lparr>tv_search := (tv_search v)\<lparr>ss_active := k\<rparr>\<rparr>)" for k using assms(1) by (simp add: view_ok_def)
  then show ?thesis using MoveSearchMatch assms(1) jump_ok by (simp add: move_search_match_def Let_def)
next
  case YankItem
  then show ?thesis
    using in_range_copies [OF assms(1)] yank_None [of v] yank_model [of v] assms(1) by (cases "yank_selected v") auto
next
  case ToggleVisual
  then show ?thesis using assms(1) by (simp add: toggle_visual_def view_ok_def)
next
  case (MoveSelection delta)
  then show ?thesis using assms(1) by (auto simp: move_selection_def view_ok_def less_max_iff_disj min_less_iff_disj)
qed (use assms in \<open>auto simp: go_top_def go_bottom_def click_item_def scroll_page_def toggle_raw_def open_search_def
    close_search_def view_ok_def less_max_iff_disj min_less_iff_disj split: option.split\<close>)

text \<open>The operations that replace items return, and the model keeps its invariant.\<close>

lemma mark_inactive_ok: "model_ok m \<Longrightarrow> model_ok (mark_inactive live m)"
  by (simp add: mark_inactive_def model_ok_items_changed)

lemma replacing_model_ok:
  assumes "model_ok (tv_model v)" "replaces op"
  shows "\<exists>v'. view_step sv op v = Some v' \<and> model_ok (tv_model v')"
  using assms(2)
proof (cases op)
  case (ViewRefresh follows live thread)
  obtain out m where "refresh_thread (sv_host sv) thread (tv_model v) = Some (out, m)" "model_ok m"
    using refresh_model_ok [OF assms(1)] by blast
  then show ?thesis using ViewRefresh mark_inactive_ok by (simp add: view_refresh_def Let_def)
next
  case ViewClear
  then show ?thesis using clear_ok by (simp add: view_clear_def forget_cards_def)
next
  case (ViewLoad env read_file from_slice live thread)
  obtain m1 where m1: "load_thread (sv_host sv) thread (tv_model v) = Some m1" "model_ok m1"
    using perform_ok [OF assms(1), of sv "LoadThread thread"] by auto
  obtain x m2 where "merge_persisted_transcript env read_file from_slice (th_id thread) m1 = Some (x, m2)" "model_ok m2"
    using merge_model_ok [OF m1(2)] by blast
  then show ?thesis using ViewLoad m1 mark_inactive_ok by (simp add: view_load_thread_def forget_cards_def Let_def)
qed simp_all

lemma step_model_ok:
  assumes "model_ok (tv_model v)"
  shows "if op = YankItem \<and> copy_out_of_range v then view_step sv op v = None
    else \<exists>v'. view_step sv op v = Some v' \<and> model_ok (tv_model v')"
proof (cases "replaces op")
  case True
  then show ?thesis using replacing_model_ok [OF assms True, of sv] by (cases op) simp_all
next
  case False
  show ?thesis
  proof (cases op)
    case (ViewBatch follows events thread)
    obtain m out where "apply_batch sv events thread (tv_model v) = Some (m, out)" "model_ok m"
      using apply_batch_safe [OF assms] by blast
    then show ?thesis using ViewBatch by (simp add: view_event_batch_def Let_def)
  next
    case (ViewSend loading read_only available content)
    then show ?thesis
      using assms push_local_user_model_ok [OF assms, of "trim content"]
      by (auto simp: view_send_def Let_def split: prod.split)
  next
    case YankItem
    then show ?thesis using yank_None [of v] yank_model [of v] assms by (cases "yank_selected v") auto
  qed (use False assms in \<open>auto simp: move_selection_def go_top_def go_bottom_def click_item_def scroll_page_def
      toggle_visual_def toggle_raw_def open_search_def close_search_def commit_search_def move_search_match_def
      jump_to_search_match_def Let_def split: option.split\<close>)
qed

lemma within_task_ok:
  assumes "view_ok v" "list_all (\<lambda>op. \<not> replaces op) ops"
  shows "\<exists>w. view_run sv ops v = Some w \<and> view_ok w"
  using assms
proof (induction ops arbitrary: v)
  case (Cons op ops)
  then obtain v1 where "view_step sv op v = Some v1" "view_ok v1" using step_view_ok [of v op sv] by auto
  then show ?case using Cons.IH [of v1] Cons.prems(2) by simp
qed simp

lemma run_stops_at_copy:
  assumes "model_ok (tv_model v)"
  shows "view_run sv ops v = None \<longleftrightarrow>
    (\<exists>before after w. ops = before @ YankItem # after \<and> view_run sv before v = Some w \<and> copy_out_of_range w)"
  using assms
proof (induction ops arbitrary: v)
  case (Cons op ops)
  note step = step_model_ok [OF Cons.prems, of op sv]
  show ?case
  proof (cases "op = YankItem \<and> copy_out_of_range v")
    case True
    then have "op # ops = [] @ YankItem # ops" "view_run sv [] v = Some v" "copy_out_of_range v" by simp_all
    moreover have "view_run sv (op # ops) v = None" using True step by simp
    ultimately show ?thesis by blast
  next
    case False
    then obtain v1 where v1: "view_step sv op v = Some v1" "model_ok (tv_model v1)" using step by auto
    have "(\<exists>before after w. op # ops = before @ YankItem # after \<and> view_run sv before v = Some w \<and> copy_out_of_range w) \<longleftrightarrow>
        (\<exists>before after w. ops = before @ YankItem # after \<and> view_run sv before v1 = Some w \<and> copy_out_of_range w)"
      (is "?l \<longleftrightarrow> ?r")
    proof
      assume ?l
      then obtain before after w where w: "op # ops = before @ YankItem # after" "view_run sv before v = Some w" "copy_out_of_range w"
        by blast
      then obtain rest where "before = op # rest" using False by (cases before) auto
      then show ?r using w v1(1) by auto
    next
      assume ?r
      then obtain before after w where "ops = before @ YankItem # after" "view_run sv before v1 = Some w" "copy_out_of_range w"
        by blast
      then show ?l using v1(1) by (intro exI [of _ "op # before"] exI [of _ after] exI [of _ w]) simp
    qed
    then show ?thesis using Cons.IH [OF v1(2)] v1(1) by simp
  qed
qed simp

text \<open>
  C13. What can panic when the user moves through the transcript. From any view, whatever batches arrive,
  whatever the user selects, searches, marks and sends, and however tasks are refreshed, left and
  loaded, a sequence of operations panics exactly when it copies a selection that reaches
  behind the last item. From a view whose selection, anchor and matches are in range that cannot
  happen as long as the items are not replaced, by the refresh of a read-only task or by the switch
  of tasks; after that it can: see \<open>copy_panics_after_switch\<close> and \<open>copy_panics_after_refresh\<close>.
\<close>

theorem navigation_panics_only_in_copy:
  assumes "model_ok (tv_model v)"
  shows "(view_run sv ops v = None \<longleftrightarrow>
      (\<exists>before after w. ops = before @ YankItem # after \<and> view_run sv before v = Some w \<and> copy_out_of_range w)) \<and>
    (view_ok v \<and> list_all (\<lambda>op. \<not> replaces op) ops \<longrightarrow> (\<exists>w. view_run sv ops v = Some w \<and> view_ok w))"
proof (rule conjI)
  show "view_ok v \<and> list_all (\<lambda>op. \<not> replaces op) ops \<longrightarrow> (\<exists>w. view_run sv ops v = Some w \<and> view_ok w)"
    by (intro impI, elim conjE) (rule within_task_ok)
qed (rule run_stops_at_copy [OF assms])

definition empty_view :: TranscriptView where
  "empty_view = \<lparr>tv_model = default_model, tv_selected_item = 0, tv_visual_anchor = None,
     tv_search = \<lparr>ss_query = [], ss_matches = [], ss_active = 0\<rparr>, tv_search_visible = False,
     tv_search_navigation_generation = 0, tv_output_expansion = Map.empty, tv_raw_visible = {}\<rparr>"

lemma empty_view_ok: "view_ok empty_view"
  by (simp add: view_ok_def empty_view_def default_model_ok)

theorem navigation_panics_only_in_copy_witness:
  "\<exists>v'. view_run (example_services tiny_host) [ToggleVisual, ViewSend False False True ''hi'', GoTop, YankItem] empty_view = Some v'"
proof -
  define ops where "ops = [ToggleVisual, ViewSend False False True ''hi'', GoTop, YankItem]"
  have "model_ok (tv_model empty_view)" using empty_view_ok by (simp add: view_ok_def)
  moreover have "list_all (\<lambda>op. \<not> replaces op) ops" by (simp add: ops_def)
  ultimately obtain w where "view_run (example_services tiny_host) ops empty_view = Some w"
    using navigation_panics_only_in_copy [of empty_view "example_services tiny_host" ops] empty_view_ok by blast
  then show ?thesis unfolding ops_def by (rule exI)
qed

subsection \<open>Across tasks\<close>

lemma items_after_send:
  "trim content \<noteq> [] \<Longrightarrow> length (tv_items (view_send False False True content (view_clear v))) = 1"
  by (simp add: view_send_def composer_send_blocked_def Let_def view_clear_def forget_cards_def clear_def
    push_local_user_def push_without_splice_def)

text \<open>
  The switch of tasks leaves the visual anchor and the matches of the search behind. After
  starting a new task and sending a message, copying panics when an anchor was set at a later item
  of the task before; without an anchor, going to the next match selects an item of the task
  before, and copying panics then.
\<close>

lemma copy_panics_after_switch:
  assumes "trim content \<noteq> []"
  shows "let v' = view_send False False True content (view_clear v) in
    (\<forall>a > 0. tv_visual_anchor v = Some a \<longrightarrow> yank_selected v' = None) \<and>
    (\<forall>i > 0. ss_matches (tv_search v) = [i] \<longrightarrow> tv_selected_item (move_search_match 1 v') = i \<and>
       yank_selected (move_search_match 1 v') = None)"
proof -
  define v' where "v' = view_send False False True content (view_clear v)"
  have l: "length (tv_items v') = 1" unfolding v'_def by (rule items_after_send [OF assms(1)])
  have same: "tv_visual_anchor v' = tv_visual_anchor v" "tv_search v' = tv_search v"
    by (simp_all add: v'_def view_send_def view_clear_def forget_cards_def Let_def split: prod.splits)
  have sel: "tv_selected_item v' = 0"
    using assms(1)
    by (simp add: v'_def view_send_def composer_send_blocked_def Let_def view_clear_def forget_cards_def clear_def
      push_local_user_def push_without_splice_def)
  have ne: "tv_items v' \<noteq> []" using l by auto
  have "yank_selected v' = None" if "tv_visual_anchor v = Some a" "0 < a" for a
    using that l ne same(1) sel by (simp add: yank_selected_def Let_def)
  moreover have "tv_selected_item (move_search_match 1 v') = i \<and> yank_selected (move_search_match 1 v') = None"
    if "ss_matches (tv_search v) = [i]" "0 < i" for i
  proof -
    have m: "move_search_match 1 v' = v'\<lparr>tv_search := (tv_search v)\<lparr>ss_active := 0\<rparr>, tv_selected_item := i,
        tv_search_navigation_generation := (tv_search_navigation_generation v' + 1) mod 2 ^ 64\<rparr>"
      using that same(2) by (simp add: move_search_match_def jump_to_search_match_def Let_def)
    show ?thesis
      unfolding m using that l ne by (cases "tv_visual_anchor v'") (simp_all add: yank_selected_def Let_def)
  qed
  ultimately show ?thesis unfolding Let_def v'_def [symmetric] by blast
qed

text \<open>
  The refresh of a read-only task leaves the visual anchor behind too: when the task was read back with
  fewer items and the anchor was at a later one, copying panics.
\<close>

lemma copy_panics_after_refresh:
  assumes "view_refresh h follows live thread v = Some v'" "tv_visual_anchor v = Some a"
    and "0 < length (tv_items v')" "length (tv_items v') \<le> a"
  shows "yank_selected v' = None"
proof -
  have "tv_visual_anchor v' = Some a"
    using assms(1,2) by (auto simp: view_refresh_def Let_def split: bind_splits if_splits)
  then show ?thesis using assms(3,4) by (simp add: yank_None copy_out_of_range_def)
qed

end
