(* ===== verification/StreamingDiff.thy ===== *)
theory StreamingDiff
  imports StrOps
begin

text \<open>
  The incremental diff between a text and its replacement while the replacement is still
  arriving (\<open>crates/streaming_diff/src/streaming_diff.rs\<close>): the score matrix, the state \<open>StreamingDiff\<close>
  with \<open>push_new\<close>, \<open>backtrack\<close> and \<open>finish\<close>. A text is the list of its characters, each the bytes of
  its encoding, so that the length of a character is \<open>len_utf8\<close>. The scores are floating point
  numbers, whose arithmetic is a parameter: nothing that is proved depends on it.
\<close>

subsection \<open>Numbers\<close>

record 'f f64_ops =
  f_lit :: "int \<Rightarrow> nat \<Rightarrow> 'f" \<comment> \<open>the nearest number to a fraction\<close>
  f_neg_infinity :: 'f
  f_of_nat :: "nat \<Rightarrow> 'f"
  f_add :: "'f \<Rightarrow> 'f \<Rightarrow> 'f"
  f_mul :: "'f \<Rightarrow> 'f \<Rightarrow> 'f"
  f_powi :: "'f \<Rightarrow> nat \<Rightarrow> 'f"
  f_max :: "'f \<Rightarrow> 'f \<Rightarrow> 'f"
  f_less :: "'f \<Rightarrow> 'f \<Rightarrow> bool"
  f_ordered_le :: "'f \<Rightarrow> 'f \<Rightarrow> bool" \<comment> \<open>the total order of \<open>OrderedFloat\<close>\<close>

definition INSERTION_SCORE :: "'f f64_ops \<Rightarrow> 'f" where "INSERTION_SCORE F = f_lit F (- 1) 1"

definition DELETION_SCORE :: "'f f64_ops \<Rightarrow> 'f" where "DELETION_SCORE F = f_lit F (- 20) 1"

definition EQUALITY_BASE :: "'f f64_ops \<Rightarrow> 'f" where "EQUALITY_BASE F = f_lit F 9 5"

definition MAX_EQUALITY_EXPONENT :: nat where "MAX_EQUALITY_EXPONENT = 16"

subsection \<open>The matrix\<close>

text \<open>The cells lie column after column. An index out of bounds panics.\<close>

record 'f Matrix =
  mx_cells :: "'f list"
  mx_rows :: nat
  mx_cols :: nat

definition matrix_new :: "'f Matrix" where
  "matrix_new = \<lparr>mx_cells = [], mx_rows = 0, mx_cols = 0\<rparr>"

definition matrix_resize :: "'f f64_ops \<Rightarrow> nat \<Rightarrow> nat \<Rightarrow> 'f Matrix \<Rightarrow> 'f Matrix" where
  "matrix_resize F rows cols m =
     \<lparr>mx_cells = take (rows * cols) (mx_cells m) @ replicate (rows * cols - length (mx_cells m)) (f_lit F 0 1),
      mx_rows = rows, mx_cols = cols\<rparr>"

text \<open>The column at an index, and the cells with a column replaced.\<close>

definition column :: "'f Matrix \<Rightarrow> nat \<Rightarrow> 'f list" where
  "column m col = take (mx_rows m) (drop (col * mx_rows m) (mx_cells m))"

definition with_column :: "nat \<Rightarrow> 'f list \<Rightarrow> 'f Matrix \<Rightarrow> 'f Matrix" where
  "with_column col xs m = m\<lparr>mx_cells :=
     take (col * mx_rows m) (mx_cells m) @ xs @ drop (col * mx_rows m + mx_rows m) (mx_cells m)\<rparr>"

definition swap_columns :: "nat \<Rightarrow> nat \<Rightarrow> 'f Matrix \<Rightarrow> 'f Matrix option" where
  "swap_columns col1 col2 m =
     (if col1 = col2 then Some m
      else if mx_cols m \<le> col1 \<or> mx_cols m \<le> col2 then None
      else Some (with_column col1 (column m col2) (with_column col2 (column m col1) m)))"

definition matrix_get :: "nat \<Rightarrow> nat \<Rightarrow> 'f Matrix \<Rightarrow> 'f option" where
  "matrix_get row col m =
     (if mx_rows m \<le> row \<or> mx_cols m \<le> col then None else get_at (mx_cells m) (col * mx_rows m + row))"

definition matrix_set :: "nat \<Rightarrow> nat \<Rightarrow> 'f \<Rightarrow> 'f Matrix \<Rightarrow> 'f Matrix option" where
  "matrix_set row col v m =
     (if mx_rows m \<le> row \<or> mx_cols m \<le> col then None
      else map_option (\<lambda>cells. m\<lparr>mx_cells := cells\<rparr>) (modify_at (col * mx_rows m + row) (\<lambda>_. v) (mx_cells m)))"

text \<open>The previous column, which is read while the current one is overwritten.\<close>

definition adjacent_columns_mut :: "nat \<Rightarrow> 'f Matrix \<Rightarrow> ('f list \<times> ('f list \<Rightarrow> 'f Matrix)) option" where
  "adjacent_columns_mut current_col m =
     (if current_col = 0 \<or> mx_cols m \<le> current_col then None
      else Some (column m (current_col - 1), \<lambda>xs. with_column current_col xs m))"

subsection \<open>Operations on characters\<close>

datatype CharOperation = CharInsert string | CharDelete nat | CharKeep nat

record 'f StreamingDiff =
  sd_old :: "string list"
  sd_new :: "string list"
  sd_scores :: "'f Matrix"
  sd_old_text_ix :: nat
  sd_new_text_ix :: nat
  sd_previous_equal_runs :: "nat list"
  sd_current_equal_runs :: "nat list"

fun first_column :: "'f f64_ops \<Rightarrow> nat list \<Rightarrow> 'f Matrix \<Rightarrow> 'f Matrix option" where
  "first_column F [] m = Some m"
| "first_column F (i # is) m =
     Option.bind (matrix_set i 0 (f_mul F (f_of_nat F i) (DELETION_SCORE F)) m) (first_column F is)"

definition streaming_diff_new :: "'f f64_ops \<Rightarrow> string \<Rightarrow> 'f StreamingDiff option" where
  "streaming_diff_new F old =
     (let old = chars old; old_len = length old
      in map_option (\<lambda>scores. \<lparr>sd_old = old, sd_new = [], sd_scores = scores, sd_old_text_ix = 0, sd_new_text_ix = 0,
           sd_previous_equal_runs = replicate (old_len + 1) 0, sd_current_equal_runs = replicate (old_len + 1) 0\<rparr>)
         (first_column F [0 ..< Suc old_len] (matrix_resize F (old_len + 1) 1 matrix_new)))"

text \<open>One cell of a column: the scores so far end with the cell above.\<close>

definition score_cell ::
  "'f f64_ops \<Rightarrow> string list \<Rightarrow> string \<Rightarrow> 'f list \<Rightarrow> nat list \<Rightarrow> nat \<Rightarrow> 'f list \<times> nat list \<Rightarrow> ('f list \<times> nat list) option" where
  "score_cell F old new_char previous_scores previous_equal_runs i c =
     (case c of (current_scores, current_equal_runs) \<Rightarrow>
        do { above \<leftarrow> get_at current_scores (i - 1);
             left \<leftarrow> get_at previous_scores i;
             diagonal \<leftarrow> get_at previous_scores (i - 1);
             old_char \<leftarrow> get_at old (i - 1);
             run \<leftarrow> get_at previous_equal_runs (i - 1);
             let insertion_score = f_add F left (INSERTION_SCORE F);
                 deletion_score = f_add F above (DELETION_SCORE F);
                 equal_run = run + 1;
                 equality_score = (if old_char = new_char
                   then f_add F diagonal (f_powi F (EQUALITY_BASE F) (min (equal_run div 4) MAX_EQUALITY_EXPONENT))
                   else f_neg_infinity F)
             in Some (current_scores @ [f_max F (f_max F insertion_score deletion_score) equality_score],
                      current_equal_runs @ [if old_char = new_char then equal_run else 0]) })"

fun score_cells ::
  "'f f64_ops \<Rightarrow> string list \<Rightarrow> string \<Rightarrow> 'f list \<Rightarrow> nat list \<Rightarrow> nat list \<Rightarrow> 'f list \<times> nat list \<Rightarrow> ('f list \<times> nat list) option" where
  "score_cells F old new_char previous_scores previous_equal_runs [] c = Some c"
| "score_cells F old new_char previous_scores previous_equal_runs (i # is) c =
     Option.bind (score_cell F old new_char previous_scores previous_equal_runs i c)
       (score_cells F old new_char previous_scores previous_equal_runs is)"

text \<open>The loop over the new characters; at its end the two vectors of runs are exchanged.\<close>

definition score_column :: "'f f64_ops \<Rightarrow> nat \<Rightarrow> 'f StreamingDiff \<Rightarrow> 'f StreamingDiff option" where
  "score_column F j st =
     do { new_char \<leftarrow> get_at (sd_new st) (j - 1);
          (previous_scores, write) \<leftarrow> adjacent_columns_mut (j - sd_new_text_ix st) (sd_scores st);
          (scores, runs) \<leftarrow> score_cells F (sd_old st) new_char previous_scores (sd_previous_equal_runs st)
             [1 ..< Suc (length (sd_old st))] ([f_mul F (f_of_nat F j) (INSERTION_SCORE F)], [0]);
          Some (st\<lparr>sd_scores := write scores, sd_previous_equal_runs := runs,
                   sd_current_equal_runs := sd_previous_equal_runs st\<rparr>) }"

fun score_columns :: "'f f64_ops \<Rightarrow> nat list \<Rightarrow> 'f StreamingDiff \<Rightarrow> 'f StreamingDiff option" where
  "score_columns F [] st = Some st"
| "score_columns F (j # js) st = Option.bind (score_column F j st) (score_columns F js)"

text \<open>The row of the last column with the greatest score, the first of those.\<close>

fun best_row :: "'f f64_ops \<Rightarrow> 'f Matrix \<Rightarrow> nat \<Rightarrow> nat list \<Rightarrow> 'f \<times> nat \<Rightarrow> nat option" where
  "best_row F m col [] best = Some (snd best)"
| "best_row F m col (i # is) best =
     do { score \<leftarrow> matrix_get i col m;
          best_row F m col is (if f_less F (fst best) score then (score, i) else best) }"

subsection \<open>Backtracking\<close>

text \<open>
  \<open>max_by_key\<close> over the three candidates: the last of the greatest, where a candidate that does
  not exist is less than every other.
\<close>

definition later_max ::
  "'f f64_ops \<Rightarrow> ((nat \<times> nat) \<times> 'f) option \<Rightarrow> ((nat \<times> nat) \<times> 'f) option \<Rightarrow> ((nat \<times> nat) \<times> 'f) option" where
  "later_max F best c =
     (case (best, c) of
        (Some b, None) \<Rightarrow> best
      | (Some b, Some d) \<Rightarrow> if f_ordered_le F (snd b) (snd d) then c else best
      | (None, _) \<Rightarrow> c)"

definition scored :: "'f StreamingDiff \<Rightarrow> (nat \<times> nat) option \<Rightarrow> ((nat \<times> nat) \<times> 'f) option option" where
  "scored st cell =
     (case cell of
        None \<Rightarrow> Some None
      | Some (i, j) \<Rightarrow>
          map_option (\<lambda>score. Some ((i, j), score)) (matrix_get i (j - sd_new_text_ix st) (sd_scores st)))"

definition insertion_cell :: "'f StreamingDiff \<Rightarrow> nat \<Rightarrow> nat \<Rightarrow> (nat \<times> nat) option" where
  "insertion_cell st i j = (if j > sd_new_text_ix st then Some (i, j - 1) else None)"

definition deletion_cell :: "'f StreamingDiff \<Rightarrow> nat \<Rightarrow> nat \<Rightarrow> (nat \<times> nat) option" where
  "deletion_cell st i j = (if i > sd_old_text_ix st then Some (i - 1, j) else None)"

definition equality_cell :: "'f StreamingDiff \<Rightarrow> nat \<Rightarrow> nat \<Rightarrow> (nat \<times> nat) option option" where
  "equality_cell st i j =
     (if i > sd_old_text_ix st \<and> j > sd_new_text_ix st then
        do { old_char \<leftarrow> get_at (sd_old st) (i - 1);
             new_char \<leftarrow> get_at (sd_new st) (j - 1);
             Some (if old_char = new_char then Some (i - 1, j - 1) else None) }
      else Some None)"

definition previous_cell :: "'f f64_ops \<Rightarrow> 'f StreamingDiff \<Rightarrow> nat \<Rightarrow> nat \<Rightarrow> (nat \<times> nat) option" where
  "previous_cell F st i j =
     do { cell \<leftarrow> equality_cell st i j;
          insertion \<leftarrow> scored st (insertion_cell st i j);
          deletion \<leftarrow> scored st (deletion_cell st i j);
          equality \<leftarrow> scored st cell;
          map_option fst (later_max F (later_max F insertion deletion) equality) }"

definition push_insert :: "string list \<Rightarrow> (nat \<times> nat) option \<Rightarrow> CharOperation list \<Rightarrow> CharOperation list" where
  "push_insert new pending_insert hunks =
     (case pending_insert of
        Some (a, b) \<Rightarrow> CharInsert (concat (take (b - a) (drop a new))) # hunks
      | None \<Rightarrow> hunks)"

definition push_delete :: "nat \<Rightarrow> CharOperation list \<Rightarrow> CharOperation list" where
  "push_delete char_len hunks =
     (case hunks of CharDelete l # rest \<Rightarrow> CharDelete (l + char_len) # rest | _ \<Rightarrow> CharDelete char_len # hunks)"

definition push_keep :: "nat \<Rightarrow> CharOperation list \<Rightarrow> CharOperation list" where
  "push_keep char_len hunks =
     (case hunks of CharKeep l # rest \<Rightarrow> CharKeep (l + char_len) # rest | _ \<Rightarrow> CharKeep char_len # hunks)"

lemma later_max_in: "later_max F x y = Some b \<Longrightarrow> x = Some b \<or> y = Some b"
  by (auto simp: later_max_def split: option.splits if_splits)

lemma scored_Some: "scored st cell = Some (Some b) \<Longrightarrow> cell = Some (fst b)"
  by (auto simp: scored_def split: option.splits)

lemma previous_cell_Some:
  assumes "previous_cell F st i j = Some p"
  shows "(j > sd_new_text_ix st \<and> p = (i, j - 1)) \<or> (i > sd_old_text_ix st \<and> p = (i - 1, j)) \<or>
    (i > sd_old_text_ix st \<and> j > sd_new_text_ix st \<and> p = (i - 1, j - 1) \<and>
     (\<exists>c. get_at (sd_old st) (i - 1) = Some c \<and> get_at (sd_new st) (j - 1) = Some c))"
proof -
  from assms obtain insertion deletion cell equality b where
    parts: "equality_cell st i j = Some cell" "scored st (insertion_cell st i j) = Some insertion"
      "scored st (deletion_cell st i j) = Some deletion" "scored st cell = Some equality"
    and max: "later_max F (later_max F insertion deletion) equality = Some b" and p: "p = fst b"
    unfolding previous_cell_def bind_eq_Some_conv map_option_eq_Some by blast
  from max have "insertion = Some b \<or> deletion = Some b \<or> equality = Some b"
    using later_max_in by metis
  then consider "insertion_cell st i j = Some p" | "deletion_cell st i j = Some p" | "cell = Some p"
    using parts(2-4) scored_Some p by metis
  then show ?thesis
  proof cases
    case 1
    then show ?thesis by (simp add: insertion_cell_def split: if_splits)
  next
    case 2
    then show ?thesis by (simp add: deletion_cell_def split: if_splits)
  next
    case 3
    with parts(1) show ?thesis by (auto simp: equality_cell_def bind_eq_Some_conv split: if_splits)
  qed
qed

lemma previous_cell_less: "previous_cell F st i j = Some (a, b) \<Longrightarrow> a + b < i + j"
  using previous_cell_Some [of F st i j "(a, b)"] by auto

text \<open>
  The loop of \<open>backtrack\<close>. The program appends to its vector of hunks and reverses it at the end;
  here the list has the last hunk first, which is the reversed vector.
\<close>

function backtrack_from ::
  "'f f64_ops \<Rightarrow> 'f StreamingDiff \<Rightarrow> (nat \<times> nat) option \<Rightarrow> CharOperation list \<Rightarrow> nat \<Rightarrow> nat \<Rightarrow> CharOperation list option" where
  "backtrack_from F st pending_insert hunks i j =
     (if (i, j) = (sd_old_text_ix st, sd_new_text_ix st) then Some (push_insert (sd_new st) pending_insert hunks)
      else case previous_cell F st i j of
        None \<Rightarrow> None
      | Some (prev_i, prev_j) \<Rightarrow>
          if prev_i = i \<and> prev_j = j - 1 then
            backtrack_from F st
              (Some (case pending_insert of Some (a, b) \<Rightarrow> (prev_j, b) | None \<Rightarrow> (prev_j, j))) hunks prev_i prev_j
          else
            (let hunks = push_insert (sd_new st) pending_insert hunks
             in case get_at (sd_old st) (i - 1) of
                  None \<Rightarrow> None
                | Some c \<Rightarrow>
                    backtrack_from F st None
                      (if prev_i = i - 1 \<and> prev_j = j then push_delete (length c) hunks else push_keep (length c) hunks)
                      prev_i prev_j))"
  by pat_completeness auto
termination
  by (relation "measure (\<lambda>(F, st, pending_insert, hunks, i, j). i + j)") (auto dest!: previous_cell_less)

declare backtrack_from.simps [simp del]

definition backtrack :: "'f f64_ops \<Rightarrow> nat \<Rightarrow> nat \<Rightarrow> 'f StreamingDiff \<Rightarrow> CharOperation list option" where
  "backtrack F old_text_ix new_text_ix st = backtrack_from F st None [] old_text_ix new_text_ix"

definition push_new_text :: "'f f64_ops \<Rightarrow> string \<Rightarrow> 'f StreamingDiff \<Rightarrow> (CharOperation list \<times> 'f StreamingDiff) option" where
  "push_new_text F t st =
     (let st = st\<lparr>sd_new := sd_new st @ chars t\<rparr>
      in do { scores \<leftarrow> swap_columns 0 (mx_cols (sd_scores st) - 1) (sd_scores st);
              let st = st\<lparr>sd_scores := matrix_resize F (length (sd_old st) + 1)
                    (length (sd_new st) - sd_new_text_ix st + 1) scores\<rparr>
              in do { st \<leftarrow> score_columns F [sd_new_text_ix st + 1 ..< Suc (length (sd_new st))] st;
                      let next_new_text_ix = length (sd_new st)
                      in do { next_old_text_ix \<leftarrow> best_row F (sd_scores st) (next_new_text_ix - sd_new_text_ix st)
                                [sd_old_text_ix st ..< Suc (length (sd_old st))] (f_neg_infinity F, sd_old_text_ix st);
                              hunks \<leftarrow> backtrack F next_old_text_ix next_new_text_ix st;
                              Some (hunks, st\<lparr>sd_old_text_ix := next_old_text_ix,
                                             sd_new_text_ix := next_new_text_ix\<rparr>) } } })"

definition finish_diff :: "'f f64_ops \<Rightarrow> 'f StreamingDiff \<Rightarrow> CharOperation list option" where
  "finish_diff F st = backtrack F (length (sd_old st)) (length (sd_new st)) st"

subsection \<open>Applying operations\<close>

text \<open>
  Specification: what a sequence of operations makes of a text, and the part of the text it does
  not reach; \<open>None\<close> when it deletes or keeps more than there is.
\<close>

fun apply_char_operations :: "CharOperation list \<Rightarrow> string \<Rightarrow> (string \<times> string) option" where
  "apply_char_operations [] s = Some ([], s)"
| "apply_char_operations (CharInsert t # ops) s =
     map_option (map_prod ((@) t) id) (apply_char_operations ops s)"
| "apply_char_operations (CharDelete n # ops) s =
     (if n \<le> length s then apply_char_operations ops (drop n s) else None)"
| "apply_char_operations (CharKeep n # ops) s =
     (if n \<le> length s then map_option (map_prod ((@) (take n s)) id) (apply_char_operations ops (drop n s)) else None)"

lemma apply_append:
  "apply_char_operations ops s = Some (out, rest) \<Longrightarrow> apply_char_operations ops' rest = Some (out', rest') \<Longrightarrow>
   apply_char_operations (ops @ ops') s = Some (out @ out', rest')"
  by (induction ops s arbitrary: out rule: apply_char_operations.induct) (auto split: if_splits)

lemma apply_push_delete:
  assumes "apply_char_operations hunks rest = Some r"
  shows "apply_char_operations (push_delete (length c) hunks) (c @ rest) = Some r"
proof (cases hunks)
  case (Cons h hs)
  then show ?thesis using assms by (cases h) (auto simp: push_delete_def split: if_splits)
qed (use assms in \<open>simp add: push_delete_def\<close>)

lemma apply_push_keep:
  assumes "apply_char_operations hunks rest = Some (out, r)"
  shows "apply_char_operations (push_keep (length c) hunks) (c @ rest) = Some (c @ out, r)"
proof (cases hunks)
  case (Cons h hs)
  then show ?thesis using assms by (cases h) (auto simp: push_keep_def split: if_splits)
qed (use assms in \<open>simp add: push_keep_def\<close>)

definition slice :: "nat \<Rightarrow> nat \<Rightarrow> 'a list \<Rightarrow> 'a list" where
  "slice a b xs = take (b - a) (drop a xs)"

lemma slice_same [simp]: "slice a a xs = []"
  by (simp add: slice_def)

lemma slice_snoc:
  assumes "a < b" "b \<le> length xs"
  shows "slice a b xs = slice a (b - 1) xs @ [xs ! (b - 1)]"
proof -
  obtain k where k: "b = Suc (a + k)" using assms(1) less_iff_Suc_add by auto
  then have "k < length (drop a xs)" using assms(2) by auto
  then show ?thesis using k assms(2) by (simp add: slice_def take_Suc_conv_app_nth Suc_diff_le add.commute)
qed

lemma slice_split:
  assumes "a \<le> b" "b \<le> c"
  shows "slice a c xs = slice a b xs @ slice b c xs"
proof -
  obtain k where k: "b = a + k" using assms(1) le_iff_add by auto
  obtain l where l: "c = b + l" using assms(2) le_iff_add by auto
  show ?thesis unfolding k l slice_def by (simp add: take_add add.assoc add.commute)
qed

subsection \<open>The matrix keeps its shape\<close>

definition matrix_ok :: "nat \<Rightarrow> nat \<Rightarrow> 'f Matrix \<Rightarrow> bool" where
  "matrix_ok rows cols m \<longleftrightarrow> mx_rows m = rows \<and> mx_cols m = cols \<and> length (mx_cells m) = rows * cols"

lemma cell_index: "row < rows \<Longrightarrow> col < cols \<Longrightarrow> col * rows + row < rows * (cols :: nat)"
proof -
  assume row: "row < rows" and col: "col < cols"
  have "col * rows + row < Suc col * rows" using row by simp
  also have "\<dots> \<le> cols * rows" using col by (intro mult_le_mono1) simp
  finally show ?thesis by (simp add: mult.commute)
qed

lemma matrix_get_ok: "matrix_ok rows cols m \<Longrightarrow> row < rows \<Longrightarrow> col < cols \<Longrightarrow> \<exists>v. matrix_get row col m = Some v"
  using cell_index [of row rows col cols] by (auto simp: matrix_ok_def matrix_get_def)

lemma matrix_set_ok:
  "matrix_ok rows cols m \<Longrightarrow> row < rows \<Longrightarrow> col < cols \<Longrightarrow>
   \<exists>m'. matrix_set row col v m = Some m' \<and> matrix_ok rows cols m'"
  using cell_index [of row rows col cols] by (auto simp: matrix_ok_def matrix_set_def)

lemma matrix_resize_ok [simp]: "matrix_ok rows cols (matrix_resize F rows cols m)"
  by (simp add: matrix_ok_def matrix_resize_def)

lemma column_end: "col < cols \<Longrightarrow> col * rows + rows \<le> rows * (cols :: nat)"
  by (metis Suc_leI mult.commute mult_Suc mult_le_mono1 add.commute)

lemma with_column_ok:
  assumes "matrix_ok rows cols m" "col < cols" "length xs = rows"
  shows "matrix_ok rows cols (with_column col xs m)"
  using assms column_end [OF assms(2), of rows] by (auto simp: matrix_ok_def with_column_def)

lemma column_length: "matrix_ok rows cols m \<Longrightarrow> col < cols \<Longrightarrow> length (column m col) = rows"
  using column_end [of col cols rows] by (auto simp: matrix_ok_def column_def)

lemma swap_columns_ok:
  assumes "matrix_ok rows cols m" "a < cols" "b < cols"
  shows "\<exists>m'. swap_columns a b m = Some m' \<and> matrix_ok rows cols m'"
proof (cases "a = b")
  case True
  then show ?thesis using assms by (simp add: swap_columns_def)
next
  case False
  have "matrix_ok rows cols (with_column a (column m b) (with_column b (column m a) m))"
    using assms by (intro with_column_ok column_length)
  moreover have "mx_cols m = cols" using assms(1) by (simp add: matrix_ok_def)
  ultimately show ?thesis using False assms(2,3) by (simp add: swap_columns_def)
qed

subsection \<open>Backtracking returns the right operations\<close>

definition diff_dims :: "nat \<Rightarrow> 'f StreamingDiff \<Rightarrow> bool" where
  "diff_dims cols st \<longleftrightarrow> matrix_ok (length (sd_old st) + 1) cols (sd_scores st) \<and>
     sd_old_text_ix st \<le> length (sd_old st) \<and> sd_new_text_ix st \<le> length (sd_new st)"

definition in_window :: "nat \<Rightarrow> 'f StreamingDiff \<Rightarrow> nat \<Rightarrow> nat \<Rightarrow> bool" where
  "in_window cols st i j \<longleftrightarrow> sd_old_text_ix st \<le> i \<and> i \<le> length (sd_old st) \<and>
     sd_new_text_ix st \<le> j \<and> j \<le> length (sd_new st) \<and> j - sd_new_text_ix st < cols"

lemma later_max_Some: "(\<exists>b. later_max F x y = Some b) \<longleftrightarrow> x \<noteq> None \<or> y \<noteq> None"
  by (auto simp: later_max_def split: option.splits)

lemma scored_total:
  assumes "diff_dims cols st" "cell = None \<or> (\<exists>i j. cell = Some (i, j) \<and> i \<le> length (sd_old st) \<and> j - sd_new_text_ix st < cols)"
  shows "\<exists>c. scored st cell = Some c \<and> (c = None \<longleftrightarrow> cell = None)"
  using assms matrix_get_ok [of "length (sd_old st) + 1" cols "sd_scores st"]
  by (fastforce simp: scored_def diff_dims_def less_Suc_eq_le)

lemma previous_cell_total:
  assumes "diff_dims cols st" "in_window cols st i j" "(i, j) \<noteq> (sd_old_text_ix st, sd_new_text_ix st)"
  shows "\<exists>p. previous_cell F st i j = Some p"
proof -
  have w: "sd_old_text_ix st \<le> i" "i \<le> length (sd_old st)" "sd_new_text_ix st \<le> j" "j \<le> length (sd_new st)"
    "j - sd_new_text_ix st < cols" "j - 1 - sd_new_text_ix st < cols" "i - 1 \<le> length (sd_old st)"
    using assms(2) by (auto simp: in_window_def)
  obtain insertion where ins: "scored st (insertion_cell st i j) = Some insertion"
    "insertion = None \<longleftrightarrow> insertion_cell st i j = None"
    using scored_total [OF assms(1), of "insertion_cell st i j"] w by (cases "sd_new_text_ix st < j") (auto simp: insertion_cell_def)
  obtain deletion where del: "scored st (deletion_cell st i j) = Some deletion"
    "deletion = None \<longleftrightarrow> deletion_cell st i j = None"
    using scored_total [OF assms(1), of "deletion_cell st i j"] w by (cases "sd_old_text_ix st < i") (auto simp: deletion_cell_def)
  obtain cell where cell: "equality_cell st i j = Some cell" "cell = None \<or> cell = Some (i - 1, j - 1)"
  proof (cases "sd_old_text_ix st < i \<and> sd_new_text_ix st < j")
    case True
    then have "i - 1 < length (sd_old st)" "j - 1 < length (sd_new st)" using w by auto
    then show thesis using that True by (auto simp: equality_cell_def)
  next
    case False
    then show thesis using that by (auto simp: equality_cell_def)
  qed
  obtain equality where eq: "scored st cell = Some equality"
    using scored_total [OF assms(1), of cell] cell(2) w by fastforce
  have "insertion \<noteq> None \<or> deletion \<noteq> None"
    using ins(2) del(2) assms(3) w by (auto simp: insertion_cell_def deletion_cell_def)
  then have "\<exists>b. later_max F (later_max F insertion deletion) equality = Some b"
    using later_max_Some by (metis option.distinct(1))
  then show ?thesis using ins(1) del(1) cell(1) eq by (auto simp: previous_cell_def)
qed

definition pending_ok :: "nat \<Rightarrow> 'f StreamingDiff \<Rightarrow> (nat \<times> nat) option \<Rightarrow> bool" where
  "pending_ok j st pending \<longleftrightarrow> (case pending of None \<Rightarrow> True | Some (a, b) \<Rightarrow> a = j \<and> j \<le> b \<and> b \<le> length (sd_new st))"

definition extend_pending :: "nat \<Rightarrow> (nat \<times> nat) option \<Rightarrow> nat \<times> nat" where
  "extend_pending j pending = (case pending of Some (a, b) \<Rightarrow> (j - 1, b) | None \<Rightarrow> (j - 1, j))"

lemma pending_step:
  assumes "pending_ok j st pending" "0 < j" "j \<le> length (sd_new st)"
    and "apply_char_operations (push_insert (sd_new st) pending hunks) rest = Some (out, r)"
  shows "pending_ok (j - 1) st (Some (extend_pending j pending)) \<and>
    apply_char_operations (push_insert (sd_new st) (Some (extend_pending j pending)) hunks) rest =
      Some (sd_new st ! (j - 1) @ out, r)"
proof -
  have head: "drop (j - 1) (sd_new st) = sd_new st ! (j - 1) # drop j (sd_new st)"
    using Cons_nth_drop_Suc [of "j - 1" "sd_new st"] assms(2,3) by simp
  show ?thesis
  proof (cases pending)
    case None
    then show ?thesis
      using assms head by (simp add: extend_pending_def pending_ok_def push_insert_def)
  next
    case (Some p)
    then obtain b where p: "p = (j, b)" "j \<le> b" "b \<le> length (sd_new st)"
      using assms(1) by (cases p) (auto simp: pending_ok_def)
    have "b - (j - 1) = Suc (b - j)" using p(2) assms(2) by simp
    then have "concat (take (b - (j - 1)) (drop (j - 1) (sd_new st))) =
        sd_new st ! (j - 1) @ concat (take (b - j) (drop j (sd_new st)))"
      by (simp only: head take_Suc_Cons concat.simps)
    then show ?thesis
      using assms(4) p Some by (auto simp: extend_pending_def pending_ok_def push_insert_def)
  qed
qed

lemma backtrack_from_correct:
  assumes "diff_dims cols st" "in_window cols st i j" "pending_ok j st pending"
    and "apply_char_operations (push_insert (sd_new st) pending hunks) rest = Some (out, r)"
  shows "\<exists>ops. backtrack_from F st pending hunks i j = Some ops \<and>
    apply_char_operations ops (concat (slice (sd_old_text_ix st) i (sd_old st)) @ rest) =
      Some (concat (slice (sd_new_text_ix st) j (sd_new st)) @ out, r)"
  using assms(2-4)
proof (induction "i + j" arbitrary: i j pending hunks rest out rule: less_induct)
  case less
  let ?a = "sd_old_text_ix st" and ?b = "sd_new_text_ix st"
  have w: "?a \<le> i" "i \<le> length (sd_old st)" "?b \<le> j" "j \<le> length (sd_new st)" "j - ?b < cols"
    using less.prems(1) by (simp_all add: in_window_def)
  show ?case
  proof (cases "(i, j) = (?a, ?b)")
    case True
    then show ?thesis using less.prems(3) by (simp add: backtrack_from.simps)
  next
    case False
    obtain p q where p: "previous_cell F st i j = Some (p, q)"
      using previous_cell_total [OF assms(1) less.prems(1) False, of F] by auto
    note step = backtrack_from.simps [of F st pending hunks i j, unfolded if_not_P [OF False] p option.case prod.case]
    consider (ins) "?b < j" "p = i" "q = j - 1" | (del) "?a < i" "p = i - 1" "q = j"
      | (eq) "?a < i" "?b < j" "p = i - 1" "q = j - 1" "sd_old st ! (i - 1) = sd_new st ! (j - 1)"
      using previous_cell_Some [OF p] by (auto simp: get_at_Some)
    then show ?thesis
    proof cases
      case ins
      note next_state = pending_step [OF less.prems(2) _ w(4) less.prems(3)]
      have "in_window cols st i (j - 1)" using w ins(1) by (auto simp: in_window_def)
      then obtain ops where ops: "backtrack_from F st (Some (extend_pending j pending)) hunks i (j - 1) = Some ops"
        "apply_char_operations ops (concat (slice ?a i (sd_old st)) @ rest) =
          Some (concat (slice ?b (j - 1) (sd_new st)) @ sd_new st ! (j - 1) @ out, r)"
        using less.hyps [of i "j - 1" "Some (extend_pending j pending)" hunks rest] next_state ins(1) by auto
      then have "backtrack_from F st pending hunks i j = Some ops"
        using step unfolding ins(2,3) by (simp add: extend_pending_def)
      then show ?thesis using ops(2) slice_snoc [OF ins(1) w(4)] by simp
    next
      case del
      let ?c = "sd_old st ! (i - 1)" and ?hunks = "push_insert (sd_new st) pending hunks"
      have "in_window cols st (i - 1) j" using w del(1) by (auto simp: in_window_def)
      then obtain ops where ops: "backtrack_from F st None (push_delete (length ?c) ?hunks) (i - 1) j = Some ops"
        "apply_char_operations ops (concat (slice ?a (i - 1) (sd_old st)) @ ?c @ rest) =
          Some (concat (slice ?b j (sd_new st)) @ out, r)"
        using less.hyps [of "i - 1" j None "push_delete (length ?c) ?hunks" "?c @ rest"] del(1)
          apply_push_delete [OF less.prems(3)] by (auto simp: pending_ok_def push_insert_def)
      have "get_at (sd_old st) (i - 1) = Some ?c" and ne: "(i - 1 = i) = False" using del(1) w(2) by auto
      then have "backtrack_from F st pending hunks i j = Some ops"
        using step ops(1) ne unfolding del(2,3) by simp
      then show ?thesis using ops(2) slice_snoc [OF del(1) w(2)] by simp
    next
      case eq
      let ?c = "sd_old st ! (i - 1)" and ?hunks = "push_insert (sd_new st) pending hunks"
      have lt: "(i - 1) + (j - 1) < i + j" using eq(1) by linarith
      have "in_window cols st (i - 1) (j - 1)" using w eq(1,2) by (auto simp: in_window_def)
      then obtain ops where ops: "backtrack_from F st None (push_keep (length ?c) ?hunks) (i - 1) (j - 1) = Some ops"
        "apply_char_operations ops (concat (slice ?a (i - 1) (sd_old st)) @ ?c @ rest) =
          Some (concat (slice ?b (j - 1) (sd_new st)) @ ?c @ out, r)"
        using less.hyps [OF lt, of None "push_keep (length ?c) ?hunks" "?c @ rest" "?c @ out"] eq(1)
          apply_push_keep [OF less.prems(3)] by (auto simp: pending_ok_def push_insert_def)
      have "get_at (sd_old st) (i - 1) = Some ?c" and ne: "(i - 1 = i) = False" "(j - 1 = j) = False"
        using eq(1,2) w(2) by auto
      then have "backtrack_from F st pending hunks i j = Some ops"
        using step ops(1) ne unfolding eq(3,4) by simp
      then show ?thesis using ops(2) slice_snoc [OF eq(1) w(2)] slice_snoc [OF eq(2) w(4)] eq(5) by simp
    qed
  qed
qed

lemma backtrack_correct:
  assumes "diff_dims cols st" "in_window cols st i j"
  shows "\<exists>ops. backtrack F i j st = Some ops \<and>
    apply_char_operations ops (concat (slice (sd_old_text_ix st) i (sd_old st)) @ rest) =
      Some (concat (slice (sd_new_text_ix st) j (sd_new st)), rest)"
  using backtrack_from_correct [OF assms, of None "[]" rest "[]" rest F]
  by (simp add: backtrack_def pending_ok_def push_insert_def)

subsection \<open>Pushing text\<close>

definition diff_ok :: "'f StreamingDiff \<Rightarrow> bool" where
  "diff_ok st \<longleftrightarrow> (\<exists>cols > 0. diff_dims cols st) \<and> sd_new_text_ix st = length (sd_new st) \<and>
     length (sd_previous_equal_runs st) = length (sd_old st) + 1"

lemma first_column_ok:
  "matrix_ok rows cols m \<Longrightarrow> 0 < cols \<Longrightarrow> \<forall>i \<in> set is. i < rows \<Longrightarrow>
   \<exists>m'. first_column F is m = Some m' \<and> matrix_ok rows cols m'"
proof (induction "is" arbitrary: m)
  case (Cons i "is")
  obtain m' where "matrix_set i 0 (f_mul F (f_of_nat F i) (DELETION_SCORE F)) m = Some m'" "matrix_ok rows cols m'"
    using matrix_set_ok [OF Cons.prems(1) _ Cons.prems(2), of i "f_mul F (f_of_nat F i) (DELETION_SCORE F)"] Cons.prems(3) by auto
  then show ?case using Cons by simp
qed simp

lemma streaming_diff_new_ok:
  "\<exists>st. streaming_diff_new F old = Some st \<and> diff_ok st \<and> sd_old st = chars old \<and> sd_new st = [] \<and> sd_old_text_ix st = 0"
proof -
  let ?n = "length (chars old)"
  obtain m where m: "first_column F [0 ..< Suc ?n] (matrix_resize F (?n + 1) 1 matrix_new) = Some m" "matrix_ok (?n + 1) 1 m"
    using first_column_ok [of "?n + 1" 1 "matrix_resize F (?n + 1) 1 matrix_new" "[0 ..< Suc ?n]" F] by auto
  have "\<exists>cols > 0. matrix_ok (?n + 1) cols m" using m(2) by (intro exI [of _ 1]) simp
  with m(1) show ?thesis
    by (simp add: streaming_diff_new_def diff_ok_def diff_dims_def Let_def del: upt_Suc)
qed

lemma score_cells_ok:
  assumes "length (fst c) = i" "length (snd c) = i" "0 < i" "i \<le> n"
    and "length previous_scores = n" "length previous_runs = n" "n = Suc (length old)"
  shows "\<exists>scores runs. score_cells F old new_char previous_scores previous_runs [i ..< n] c = Some (scores, runs) \<and>
    length scores = n \<and> length runs = n"
  using assms(1-4)
proof (induction "n - i" arbitrary: i c)
  case 0
  then show ?case using assms by (cases c) simp
next
  case (Suc k)
  obtain scores runs where c: "c = (scores, runs)" by (cases c)
  have lengths: "i < n" "i - 1 < length scores" "i - 1 < length previous_scores" "i < length previous_scores"
    "i - 1 < length old" "i - 1 < length previous_runs"
    using Suc assms c by auto
  obtain scores' runs' where cell: "score_cell F old new_char previous_scores previous_runs i c = Some (scores', runs')"
    "length scores' = Suc i" "length runs' = Suc i"
    using lengths Suc.prems c by (auto simp: score_cell_def Let_def)
  have "[i ..< n] = i # [Suc i ..< n]" using lengths(1) by (simp add: upt_conv_Cons)
  moreover have "k = n - Suc i" using Suc.hyps(2) by simp
  from Suc.hyps(1) [OF this, of "(scores', runs')"] have
    "\<exists>scores runs. score_cells F old new_char previous_scores previous_runs [Suc i ..< n] (scores', runs') = Some (scores, runs) \<and>
      length scores = n \<and> length runs = n"
    using cell(2,3) lengths(1) by simp
  ultimately show ?case using cell(1) by simp
qed

definition scoring :: "nat \<Rightarrow> 'f StreamingDiff \<Rightarrow> 'f StreamingDiff \<Rightarrow> bool" where
  "scoring cols st st' \<longleftrightarrow> diff_dims cols st' \<and> length (sd_previous_equal_runs st') = length (sd_old st') + 1 \<and>
     sd_old st' = sd_old st \<and> sd_new st' = sd_new st \<and> sd_old_text_ix st' = sd_old_text_ix st \<and>
     sd_new_text_ix st' = sd_new_text_ix st"

lemma score_column_ok:
  assumes "diff_dims cols st" "length (sd_previous_equal_runs st) = length (sd_old st) + 1"
    and "sd_new_text_ix st < j" "j \<le> length (sd_new st)" "j - sd_new_text_ix st < cols"
  shows "\<exists>st'. score_column F j st = Some st' \<and> scoring cols st st'"
proof -
  let ?n = "Suc (length (sd_old st))" and ?col = "j - sd_new_text_ix st"
  have m: "matrix_ok ?n cols (sd_scores st)" using assms(1) by (simp add: diff_dims_def)
  have length: "length (column (sd_scores st) (?col - 1)) = ?n"
    using column_length [OF m, of "?col - 1"] assms(3,5) by simp
  obtain scores runs where cells: "score_cells F (sd_old st) (sd_new st ! (j - 1)) (column (sd_scores st) (?col - 1))
      (sd_previous_equal_runs st) [1 ..< ?n] ([f_mul F (f_of_nat F j) (INSERTION_SCORE F)], [0]) = Some (scores, runs)"
    "length scores = ?n" "length runs = ?n"
    using score_cells_ok [of "([f_mul F (f_of_nat F j) (INSERTION_SCORE F)], [0])" 1 ?n "column (sd_scores st) (?col - 1)"
      "sd_previous_equal_runs st" "sd_old st" F "sd_new st ! (j - 1)"] length assms(2) by auto
  have "get_at (sd_new st) (j - 1) = Some (sd_new st ! (j - 1))" using assms(3,4) by simp
  moreover have "adjacent_columns_mut ?col (sd_scores st) =
      Some (column (sd_scores st) (?col - 1), \<lambda>xs. with_column ?col xs (sd_scores st))"
    using m assms(3,5) by (simp add: adjacent_columns_mut_def matrix_ok_def)
  moreover have "matrix_ok ?n cols (with_column ?col scores (sd_scores st))"
    using with_column_ok [OF m assms(5) cells(2)] .
  ultimately show ?thesis
    using cells assms(1) unfolding score_column_def by (simp add: scoring_def diff_dims_def)
qed

lemma score_columns_ok:
  assumes "diff_dims cols st" "length (sd_previous_equal_runs st) = length (sd_old st) + 1"
    and "\<forall>j \<in> set js. sd_new_text_ix st < j \<and> j \<le> length (sd_new st) \<and> j - sd_new_text_ix st < cols"
  shows "\<exists>st'. score_columns F js st = Some st' \<and> scoring cols st st'"
  using assms
proof (induction js arbitrary: st)
  case Nil
  then show ?case by (simp add: scoring_def)
next
  case (Cons j js)
  obtain st' where st': "score_column F j st = Some st'" "scoring cols st st'"
    using score_column_ok [OF Cons.prems(1,2), of j F] Cons.prems(3) by auto
  then obtain st'' where "score_columns F js st' = Some st''" "scoring cols st' st''"
    using Cons.IH [of st'] Cons.prems(3) by (auto simp: scoring_def)
  then show ?case using st' by (auto simp: scoring_def)
qed

lemma best_row_ok:
  assumes "matrix_ok rows cols m" "col < cols" "\<forall>i \<in> set is. i < rows"
  shows "\<exists>i. best_row F m col is best = Some i \<and> (i = snd best \<or> i \<in> set is)"
  using assms(3)
proof (induction "is" arbitrary: best)
  case (Cons i "is")
  obtain score where "matrix_get i col m = Some score"
    using matrix_get_ok [OF assms(1) _ assms(2), of i] Cons.prems by auto
  then show ?case
    using Cons.IH [of "if f_less F (fst best) score then (score, i) else best"] Cons.prems by auto
qed simp

lemma push_new_text_lemma:
  assumes "diff_ok st"
  shows "\<exists>hunks st'. push_new_text F t st = Some (hunks, st') \<and> diff_ok st' \<and>
    sd_old st' = sd_old st \<and> sd_new st' = sd_new st @ chars t \<and>
    sd_old_text_ix st \<le> sd_old_text_ix st' \<and>
    (\<forall>rest. apply_char_operations hunks
       (concat (slice (sd_old_text_ix st) (sd_old_text_ix st') (sd_old st)) @ rest) = Some (t, rest))"
proof -
  let ?st = "st\<lparr>sd_new := sd_new st @ chars t\<rparr>" and ?a = "sd_old_text_ix st" and ?b = "sd_new_text_ix st"
  let ?n = "length (sd_old st) + 1" and ?new = "length (sd_new st @ chars t)"
  let ?cols = "?new - ?b + 1"
  obtain cols where cols: "0 < cols" "diff_dims cols st" and b: "?b = length (sd_new st)"
    and runs: "length (sd_previous_equal_runs st) = ?n"
    using assms by (auto simp: diff_ok_def)
  then have m: "matrix_ok ?n cols (sd_scores st)" and a: "?a \<le> length (sd_old st)" by (simp_all add: diff_dims_def)
  have "mx_cols (sd_scores st) = cols" using m by (simp add: matrix_ok_def)
  then obtain scores where swap: "swap_columns 0 (mx_cols (sd_scores st) - 1) (sd_scores st) = Some scores"
    using swap_columns_ok [OF m, of 0 "cols - 1"] cols(1) by auto
  let ?start = "?st\<lparr>sd_scores := matrix_resize F ?n ?cols scores\<rparr>"
  have dims: "diff_dims ?cols ?start" using a b by (simp add: diff_dims_def)
  have range: "\<forall>j \<in> set [?b + 1 ..< Suc ?new]. sd_new_text_ix ?start < j \<and> j \<le> length (sd_new ?start) \<and>
      j - sd_new_text_ix ?start < ?cols"
    using b by auto
  obtain st1 where st1: "score_columns F [?b + 1 ..< Suc ?new] ?start = Some st1" "scoring ?cols ?start st1"
    using score_columns_ok [OF dims _ range, of F] runs by auto
  then have dims: "diff_dims ?cols st1" and same: "sd_old st1 = sd_old st" "sd_new st1 = sd_new st @ chars t"
    "sd_old_text_ix st1 = ?a" "sd_new_text_ix st1 = ?b" "length (sd_previous_equal_runs st1) = ?n"
    by (simp_all add: scoring_def)
  have "matrix_ok ?n ?cols (sd_scores st1)" using dims same by (simp add: diff_dims_def)
  from best_row_ok [OF this, of "?new - ?b" "[?a ..< Suc (length (sd_old st))]" F "(f_neg_infinity F, ?a)"]
  obtain i where i: "best_row F (sd_scores st1) (?new - ?b) [?a ..< Suc (length (sd_old st))] (f_neg_infinity F, ?a) = Some i"
    "?a \<le> i" "i \<le> length (sd_old st)"
    using a by (auto simp del: upt_Suc)
  have window: "in_window ?cols st1 i ?new"
    using i same b by (simp add: in_window_def)
  obtain hunks where traced: "backtrack F i ?new st1 = Some hunks"
    using backtrack_correct [OF dims window, of F] by blast
  let ?final = "st1\<lparr>sd_old_text_ix := i, sd_new_text_ix := ?new\<rparr>"
  have "push_new_text F t st = Some (hunks, ?final)"
    using swap st1(1) i(1) traced same b by (simp add: push_new_text_def del: upt_Suc)
  moreover have "diff_dims ?cols ?final" using dims i(3) same by (simp add: diff_dims_def)
  then have "\<exists>cols > 0. diff_dims cols ?final" by (intro exI [of _ ?cols]) simp
  then have "diff_ok ?final" using same by (simp add: diff_ok_def)
  moreover have "apply_char_operations hunks (concat (slice ?a i (sd_old st)) @ rest) = Some (t, rest)" for rest
    using backtrack_correct [OF dims window, of F rest] traced same b by (auto simp: slice_def)
  ultimately show ?thesis using same i(2) by auto
qed

subsection \<open>A whole stream\<close>

fun push_all :: "'f f64_ops \<Rightarrow> string list \<Rightarrow> 'f StreamingDiff \<Rightarrow> (CharOperation list \<times> 'f StreamingDiff) option" where
  "push_all F [] st = Some ([], st)"
| "push_all F (t # ts) st =
     do { (hunks, st) \<leftarrow> push_new_text F t st;
          (rest, st) \<leftarrow> push_all F ts st;
          Some (hunks @ rest, st) }"

definition stream_operations :: "'f f64_ops \<Rightarrow> string \<Rightarrow> string list \<Rightarrow> CharOperation list option" where
  "stream_operations F old parts =
     do { st \<leftarrow> streaming_diff_new F old;
          (hunks, st) \<leftarrow> push_all F parts st;
          last_hunks \<leftarrow> finish_diff F st;
          Some (hunks @ last_hunks) }"

lemma push_all_ok:
  assumes "diff_ok st"
  shows "\<exists>hunks st'. push_all F ts st = Some (hunks, st') \<and> diff_ok st' \<and>
    sd_old st' = sd_old st \<and> sd_new st' = sd_new st @ concat (map chars ts) \<and>
    sd_old_text_ix st \<le> sd_old_text_ix st' \<and>
    (\<forall>rest. apply_char_operations hunks
       (concat (slice (sd_old_text_ix st) (sd_old_text_ix st') (sd_old st)) @ rest) = Some (concat ts, rest))"
  using assms
proof (induction ts arbitrary: st)
  case (Cons t ts)
  obtain h st1 where h: "push_new_text F t st = Some (h, st1)" "diff_ok st1" "sd_old st1 = sd_old st"
    "sd_new st1 = sd_new st @ chars t" "sd_old_text_ix st \<le> sd_old_text_ix st1"
    "\<And>rest. apply_char_operations h (concat (slice (sd_old_text_ix st) (sd_old_text_ix st1) (sd_old st)) @ rest) = Some (t, rest)"
    using push_new_text_lemma [OF Cons.prems, of F t] by blast
  obtain hs st2 where hs: "push_all F ts st1 = Some (hs, st2)" "diff_ok st2" "sd_old st2 = sd_old st1"
    "sd_new st2 = sd_new st1 @ concat (map chars ts)" "sd_old_text_ix st1 \<le> sd_old_text_ix st2"
    "\<And>rest. apply_char_operations hs (concat (slice (sd_old_text_ix st1) (sd_old_text_ix st2) (sd_old st1)) @ rest) =
       Some (concat ts, rest)"
    using Cons.IH [OF h(2)] by blast
  have "apply_char_operations (h @ hs) (concat (slice (sd_old_text_ix st) (sd_old_text_ix st2) (sd_old st)) @ rest) =
      Some (t @ concat ts, rest)" for rest
    using apply_append [OF h(6) hs(6)] h(3) slice_split [OF h(5) hs(5), of "sd_old st"] by simp
  then show ?case using h hs by auto
qed simp

lemma finish_diff_ok:
  assumes "diff_ok st"
  shows "\<exists>hunks. finish_diff F st = Some hunks \<and>
    apply_char_operations hunks (concat (drop (sd_old_text_ix st) (sd_old st))) = Some ([], [])"
proof -
  obtain cols where cols: "0 < cols" "diff_dims cols st" "sd_new_text_ix st = length (sd_new st)"
    using assms by (auto simp: diff_ok_def)
  then have "in_window cols st (length (sd_old st)) (length (sd_new st))"
    by (auto simp: in_window_def diff_dims_def)
  from backtrack_correct [OF cols(2) this, of F "[]"] cols(3) show ?thesis
    by (auto simp: finish_diff_def slice_def)
qed

text \<open>
  C8. The operations of a streaming diff turn the old text into the new one. However the new text
  is cut into parts, and whatever the arithmetic of the scores does, no push and no finish panics
  or runs forever, and all operations in order, applied to the old text, consume it entirely and
  give the parts in order.
\<close>

theorem streaming_diff_correct:
  "\<exists>ops. stream_operations F old parts = Some ops \<and>
     apply_char_operations ops old = Some (concat parts, [])"
proof -
  obtain st where st: "streaming_diff_new F old = Some st" "diff_ok st" "sd_old st = chars old" "sd_old_text_ix st = 0"
    using streaming_diff_new_ok by blast
  obtain hunks st' where pushed: "push_all F parts st = Some (hunks, st')" "diff_ok st'" "sd_old st' = sd_old st"
    "\<And>rest. apply_char_operations hunks
       (concat (slice 0 (sd_old_text_ix st') (chars old)) @ rest) = Some (concat parts, rest)"
    using push_all_ok [OF st(2), of F parts] st(3,4) by auto
  obtain last_hunks where last: "finish_diff F st' = Some last_hunks"
    "apply_char_operations last_hunks (concat (drop (sd_old_text_ix st') (chars old))) = Some ([], [])"
    using finish_diff_ok [OF pushed(2), of F] pushed(3) st(3) by auto
  have "concat (take k gs) @ concat (drop k gs) = concat gs" for k and gs :: "string list"
    by (metis append_take_drop_id concat_append)
  then have "old = concat (slice 0 (sd_old_text_ix st') (chars old)) @ concat (drop (sd_old_text_ix st') (chars old))"
    by (simp add: slice_def)
  then have "apply_char_operations (hunks @ last_hunks) old = Some (concat parts, [])"
    using apply_append [OF pushed(4) last(2)] by simp
  then show ?thesis using st(1) pushed(1) last(1) by (simp add: stream_operations_def)
qed

text \<open>
  Each push is final at once. After the operations of the pushes so far, the text that they
  give is exactly what has been pushed, so that an editor can apply them while the rest is still
  arriving: the operations of a later push never touch it again.
\<close>

lemma pushed_text_is_applied:
  assumes "diff_ok st"
  shows "\<exists>hunks st'. push_new_text F t st = Some (hunks, st') \<and> diff_ok st' \<and>
    sd_new st' = sd_new st @ chars t \<and> sd_old_text_ix st \<le> sd_old_text_ix st' \<and>
    apply_char_operations hunks (concat (drop (sd_old_text_ix st) (sd_old st))) =
      Some (t, concat (drop (sd_old_text_ix st') (sd_old st')))"
proof -
  obtain hunks st' where *: "push_new_text F t st = Some (hunks, st')" "diff_ok st'" "sd_old st' = sd_old st"
    "sd_new st' = sd_new st @ chars t" "sd_old_text_ix st \<le> sd_old_text_ix st'"
    "\<And>rest. apply_char_operations hunks
       (concat (slice (sd_old_text_ix st) (sd_old_text_ix st') (sd_old st)) @ rest) = Some (t, rest)"
    using push_new_text_lemma [OF assms, of F t] by blast
  have "drop (sd_old_text_ix st) (sd_old st) =
      slice (sd_old_text_ix st) (sd_old_text_ix st') (sd_old st) @ drop (sd_old_text_ix st') (sd_old st)"
    using *(5) by (simp add: slice_def) (metis append_take_drop_id drop_drop le_add_diff_inverse2)
  then show ?thesis using * by auto
qed

definition unit_f64 :: "unit f64_ops" where
  "unit_f64 = \<lparr>f_lit = (\<lambda>_ _. ()), f_neg_infinity = (), f_of_nat = (\<lambda>_. ()), f_add = (\<lambda>_ _. ()),
     f_mul = (\<lambda>_ _. ()), f_powi = (\<lambda>_ _. ()), f_max = (\<lambda>_ _. ()), f_less = (\<lambda>_ _. False),
     f_ordered_le = (\<lambda>_ _. True)\<rparr>"

subsection \<open>Termination\<close>

definition hunk_count :: "(nat \<times> nat) option \<Rightarrow> CharOperation list \<Rightarrow> nat" where
  "hunk_count pending hunks = length hunks + (case pending of Some _ \<Rightarrow> 1 | None \<Rightarrow> 0)"

lemma push_lengths:
  "length (push_insert new pending hunks) = hunk_count pending hunks"
  "length (push_delete n hunks) \<le> Suc (length hunks)" "length (push_keep n hunks) \<le> Suc (length hunks)"
  by (auto simp: push_insert_def push_delete_def push_keep_def hunk_count_def split: option.split list.split CharOperation.split)

lemma backtrack_from_length:
  "backtrack_from F st pending hunks i j = Some ops \<Longrightarrow> sd_old_text_ix st \<le> i \<Longrightarrow> sd_new_text_ix st \<le> j \<Longrightarrow>
   length ops \<le> hunk_count pending hunks + (i - sd_old_text_ix st) + (j - sd_new_text_ix st)"
proof (induction "i + j" arbitrary: i j pending hunks rule: less_induct)
  case less
  let ?a = "sd_old_text_ix st" and ?b = "sd_new_text_ix st"
  show ?case
  proof (cases "(i, j) = (?a, ?b)")
    case True
    then show ?thesis using less.prems(1) by (auto simp: backtrack_from.simps push_lengths)
  next
    case False
    note step = less.prems(1) [unfolded backtrack_from.simps [of F st pending hunks i j] if_not_P [OF False]]
    obtain p q where p: "previous_cell F st i j = Some (p, q)"
      using step by (auto split: option.splits)
    note step = step [unfolded p option.case prod.case]
    have bounds: "?a \<le> p" "?b \<le> q" "p + q < i + j" "p \<le> i" "q \<le> j"
      using previous_cell_Some [OF p] less.prems(2,3) by auto
    show ?thesis
    proof (cases "p = i \<and> q = j - 1")
      case True
      then have eqs: "p = i" "q = j - 1" by auto
      have "backtrack_from F st (Some (extend_pending j pending)) hunks i (j - 1) = Some ops"
        using step unfolding eqs by (simp add: extend_pending_def)
      from less.hyps [OF _ this] show ?thesis
        using bounds True by (auto simp: hunk_count_def split: option.splits)
    next
      case False
      let ?hunks = "push_insert (sd_new st) pending hunks"
      note step = step [unfolded if_not_P [OF False]]
      obtain hs where hs: "backtrack_from F st None hs p q = Some ops" "length hs \<le> Suc (length ?hunks)"
        using step push_lengths(2,3) by (auto simp: Let_def split: option.splits if_splits)
      have "length ops \<le> hunk_count None hs + (p - ?a) + (q - ?b)"
        using less.hyps [OF bounds(3) hs(1) bounds(1,2)] .
      moreover have "p < i"
        using previous_cell_Some [OF p] False by auto
      ultimately show ?thesis
        using hs(2) bounds push_lengths(1) [of "sd_new st" pending hunks] by (simp add: hunk_count_def)
    qed
  qed
qed

text \<open>
  C11. Backtracking ends, and with few operations. From any cell of the window it returns, and what
  it returns has at most one operation for each character that it walks over in either text.
\<close>

theorem backtrack_returns:
  assumes "diff_dims cols st" "in_window cols st i j"
  shows "\<exists>ops. backtrack F i j st = Some ops \<and>
    length ops \<le> (i - sd_old_text_ix st) + (j - sd_new_text_ix st)"
proof -
  obtain ops where ops: "backtrack F i j st = Some ops"
    using backtrack_correct [OF assms, of F "[]"] by blast
  then show ?thesis
    using backtrack_from_length [of F st None "[]" i j ops] assms(2)
    by (simp add: backtrack_def hunk_count_def in_window_def)
qed

theorem backtrack_returns_witness:
  "\<exists>st ops. streaming_diff_new unit_f64 ''ab'' = Some st \<and> backtrack unit_f64 2 0 st = Some ops \<and> length ops \<le> 2"
proof -
  obtain st where st: "streaming_diff_new unit_f64 ''ab'' = Some st" "diff_ok st" "sd_old st = chars ''ab''"
    "sd_new st = []" "sd_old_text_ix st = 0"
    using streaming_diff_new_ok by blast
  then obtain cols where cols: "0 < cols" "diff_dims cols st" "sd_new_text_ix st = 0"
    by (auto simp: diff_ok_def)
  have "length (chars ''ab'') = 2" by simp
  then have "in_window cols st 2 0" using st cols by (simp add: in_window_def)
  from backtrack_returns [OF cols(2) this, of unit_f64] show ?thesis using st(1,5) cols(3) by auto
qed

end
