(* ===== verification/AppServerClient.thy ===== *)
theory AppServerClient
  imports Refresh
begin

text \<open>
  The client of the App Server (\<open>crates/codex_app_server_client\<close>): decoding of the lines of the
  child process, the messages that are sent, and the concurrent state of requests, queues and
  the two tasks. The child process, the text form of JSON and the clock are parameters.

  The reader and the writer are tasks of one executor thread and wait only for the child or for
  a message, so what they do with one line or one message is one step. A request runs on
  another thread: that it is registered and that its message is queued are two steps, and any
  step may come between them. The writer ends one step after it has failed.
\<close>

subsection \<open>Types\<close>

record ThreadListResponse =
  tl_data :: "CodexThread list"
  tl_next_cursor :: "string option"
  tl_backwards_cursor :: "string option"

datatype Incoming =
    InResponse json "json option" "RpcError option"
  | InServerRequest json string json
  | InNotification string json

text \<open>The foreign errors are carried as their printed form.\<close>

datatype ClientError =
    Spawn string | MissingStdio | TransportClosed | ResponseChannelClosed | JsonError string
  | InvalidMessage string | Rpc int string "json option"

definition client_error_message :: "ClientError \<Rightarrow> string" where
  "client_error_message e =
     (case e of
        Spawn m \<Rightarrow> ''failed to launch codex app-server: '' @ m
      | MissingStdio \<Rightarrow> ''app-server stdio was unavailable''
      | TransportClosed \<Rightarrow> ''app-server transport closed''
      | ResponseChannelClosed \<Rightarrow> ''app-server response channel closed''
      | JsonError m \<Rightarrow> ''app-server emitted invalid JSON: '' @ m
      | InvalidMessage m \<Rightarrow> ''invalid app-server message: '' @ m
      | Rpc code message data \<Rightarrow> ''app-server returned error '' @ dec_int code @ '': '' @ message)"

definition ok_or :: "'a option \<Rightarrow> 'e \<Rightarrow> 'e + 'a" where
  "ok_or x e = (case x of None \<Rightarrow> Inl e | Some v \<Rightarrow> Inr v)"

definition and_then :: "'e + 'a \<Rightarrow> ('a \<Rightarrow> 'e + 'b) \<Rightarrow> 'e + 'b" where
  "and_then x f = (case x of Inl e \<Rightarrow> Inl e | Inr v \<Rightarrow> f v)"

lemma and_then_simps [simp]: "and_then (Inl e) f = Inl e" "and_then (Inr v) f = f v"
  by (simp_all add: and_then_def)

lemma ok_or_simps [simp]: "ok_or None e = Inl e" "ok_or (Some v) e = Inr v"
  by (simp_all add: ok_or_def)

subsection \<open>Decoding\<close>

definition parse_rpc_error :: "json \<Rightarrow> ClientError + RpcError" where
  "parse_rpc_error v =
     and_then (ok_or (as_object v) (InvalidMessage ''error must be an object'')) (\<lambda>object.
     and_then (ok_or (Option.bind (map_of object ''code'') as_i64)
       (InvalidMessage ''error.code must be an integer'')) (\<lambda>code.
     and_then (ok_or (Option.bind (map_of object ''message'') as_str)
       (InvalidMessage ''error.message must be a string'')) (\<lambda>message.
     Inr \<lparr>rpc_code = code, rpc_message = message, rpc_data = map_of object ''data''\<rparr>)))"

definition decode_value :: "json \<Rightarrow> ClientError + Incoming" where
  "decode_value v =
     and_then (ok_or (as_object v) (InvalidMessage ''expected an object'')) (\<lambda>object.
       case (map_of object ''method'', map_of object ''id'') of
         (Some (JString method_name), Some request_id) \<Rightarrow>
           Inr (InServerRequest request_id method_name (unwrap_or (map_of object ''params'') JNull))
       | (Some (JString method_name), None) \<Rightarrow>
           Inr (InNotification method_name (unwrap_or (map_of object ''params'') JNull))
       | (None, Some request_id) \<Rightarrow>
           and_then (case map_of object ''error'' of
               None \<Rightarrow> Inr None | Some e \<Rightarrow> and_then (parse_rpc_error e) (\<lambda>r. Inr (Some r))) (\<lambda>error.
             let result = map_of object ''result''
             in if result = None \<and> error = None
                then Inl (InvalidMessage ''response had neither result nor error'')
                else Inr (InResponse request_id result error))
       | _ \<Rightarrow> Inl (InvalidMessage ''expected a request, response, or notification''))"

text \<open>\<open>parse\<close> is \<open>serde_json::from_str\<close>, with the printed form of its error.\<close>

definition decode_line :: "(string \<Rightarrow> string + json) \<Rightarrow> string \<Rightarrow> ClientError + Incoming" where
  "decode_line parse line =
     (case parse line of Inl e \<Rightarrow> Inl (JsonError e) | Inr v \<Rightarrow> decode_value v)"

subsection \<open>Messages\<close>

definition json_int :: "int \<Rightarrow> json" where
  "json_int i = JNumber (if 0 \<le> i then PosInt (nat i) else NegInt i)"

definition request_message :: "string \<Rightarrow> nat \<Rightarrow> json \<Rightarrow> json" where
  "request_message method_name request_id params =
     JObject [(''method'', JString method_name), (''id'', JNumber (PosInt request_id)), (''params'', params)]"

definition notify_message :: "string \<Rightarrow> json \<Rightarrow> json" where
  "notify_message method_name params = JObject [(''method'', JString method_name), (''params'', params)]"

definition respond_message :: "json \<Rightarrow> json \<Rightarrow> json" where
  "respond_message request_id result = JObject [(''id'', request_id), (''result'', result)]"

definition respond_error_message :: "json \<Rightarrow> int \<Rightarrow> string \<Rightarrow> json" where
  "respond_error_message request_id code message =
     JObject [(''id'', request_id), (''error'', JObject [(''code'', json_int code), (''message'', JString message)])]"

text \<open>The clock is before (\<open>Inl\<close>) or after the epoch by a number of seconds below \<open>2 ^ 64\<close>.\<close>

definition clamp_i64 :: "nat \<Rightarrow> int" where
  "clamp_i64 n = (if n < 2 ^ 63 then int n else 2 ^ 63 - 1)"

definition current_unix_seconds :: "nat + nat \<Rightarrow> int" where
  "current_unix_seconds clock = (case clock of Inr after \<Rightarrow> clamp_i64 after | Inl before \<Rightarrow> - clamp_i64 before)"

definition automatic_server_request_response :: "json \<Rightarrow> string \<Rightarrow> int \<Rightarrow> json option" where
  "automatic_server_request_response request_id method_name current_time_at =
     (if method_name = ''currentTime/read'' then
        Some (respond_message request_id (JObject [(''currentTimeAt'', json_int current_time_at)]))
      else if method_name = ''account/chatgptAuthTokens/refresh'' then
        Some (respond_error_message request_id (- 32000) ''external ChatGPT auth token refresh is not available'')
      else if method_name = ''attestation/generate'' then
        Some (respond_error_message request_id (- 32000) ''client attestation is not available'')
      else if method_name = ''item/tool/call'' then
        Some (respond_message request_id (JObject
          [(''contentItems'', JArray [JObject [(''type'', JString ''inputText''),
              (''text'', JString ''Dynamic tools are not registered by this client.'')]]),
           (''success'', JBool False)]))
      else None)"

definition initialize_params :: "string \<Rightarrow> string \<Rightarrow> string \<Rightarrow> json" where
  "initialize_params name title version =
     JObject
       [(''clientInfo'', JObject [(''name'', JString name), (''title'', JString title), (''version'', JString version)]),
        (''capabilities'', JObject
          [(''experimentalApi'', JBool True),
           (''extensions'', JObject [(''openai/form'', JObject [])]),
           (''mcpServerOpenaiFormElicitation'', JBool True),
           (''requestAttestation'', JBool False)])]"

definition list_threads_params :: "nat \<Rightarrow> string option \<Rightarrow> json" where
  "list_threads_params limit cursor =
     JObject [(''archived'', JBool False),
       (''cursor'', case cursor of None \<Rightarrow> JNull | Some c \<Rightarrow> JString c),
       (''limit'', JNumber (PosInt limit)), (''sortDirection'', JString ''desc''),
       (''sortKey'', JString ''recency_at'')]"

definition read_thread_params :: "string \<Rightarrow> json" where
  "read_thread_params thread_id = JObject [(''includeTurns'', JBool True), (''threadId'', JString thread_id)]"

definition start_thread_params :: "string \<Rightarrow> json" where
  "start_thread_params cwd =
     JObject [(''cwd'', JString cwd), (''experimentalRawEvents'', JBool True),
       (''sessionStartSource'', JString ''startup''), (''threadSource'', JString ''harness'')]"

definition resume_thread_params :: "string \<Rightarrow> json" where
  "resume_thread_params thread_id = JObject [(''excludeTurns'', JBool False), (''threadId'', JString thread_id)]"

definition start_turn_params :: "string \<Rightarrow> json \<Rightarrow> json" where
  "start_turn_params thread_id input = JObject [(''threadId'', JString thread_id), (''input'', input)]"

definition interrupt_turn_params :: "string \<Rightarrow> string \<Rightarrow> json" where
  "interrupt_turn_params thread_id turn_id = JObject [(''threadId'', JString thread_id), (''turnId'', JString turn_id)]"

subsection \<open>The state of the client\<close>

text \<open>
  A call of \<open>request\<close>: its number, which is a \<open>u64\<close> and wraps, the message that it has not queued yet, and what its one-shot channel
  holds or, once it has failed to queue, what it returns. \<open>returned\<close> is the result of the call.
\<close>

record call =
  ca_id :: nat
  ca_message :: "json option"
  ca_slot :: "(ClientError + json) option"

definition returned :: "call \<Rightarrow> (ClientError + json) option" where
  "returned c = (if ca_message c = None then ca_slot c else None)"

datatype writer_state = Writing | Failed | Dropped

text \<open>
  The map of pending requests holds the number of the call that its sender belongs to; the
  channel of events holds all events that were sent on it.
\<close>

record ClientState =
  cl_next_id :: nat
  cl_calls :: "call list"
  cl_pending :: "(nat \<times> nat) list"
  cl_outbound :: "json list"
  cl_events :: "Event list"
  cl_events_open :: bool
  cl_writer :: writer_state
  cl_reader :: bool
  cl_written :: "json list"

definition launched :: ClientState where
  "launched = \<lparr>cl_next_id = 0, cl_calls = [], cl_pending = [], cl_outbound = [], cl_events = [],
     cl_events_open = True, cl_writer = Writing, cl_reader = True, cl_written = []\<rparr>"

definition remove_key :: "'a \<Rightarrow> ('a \<times> 'b) list \<Rightarrow> ('a \<times> 'b) list" where
  "remove_key k xs = filter (\<lambda>(k', _). k' \<noteq> k) xs"

definition U64 :: nat where "U64 = 2 ^ 64"

text \<open>A sender is used up or dropped.\<close>

definition answer :: "nat \<Rightarrow> ClientError + json \<Rightarrow> ClientState \<Rightarrow> ClientState" where
  "answer k r c = c\<lparr>cl_calls := (cl_calls c)[k := (cl_calls c ! k)\<lparr>ca_slot := Some r\<rparr>]\<rparr>"

definition queue :: "json \<Rightarrow> ClientState \<Rightarrow> bool \<times> ClientState" where
  "queue v c =
     (if cl_writer c = Dropped then (False, c) else (True, c\<lparr>cl_outbound := cl_outbound c @ [v]\<rparr>))"

definition emit :: "Event \<Rightarrow> ClientState \<Rightarrow> bool \<times> ClientState" where
  "emit e c = (if cl_events_open c then (True, c\<lparr>cl_events := cl_events c @ [e]\<rparr>) else (False, c))"

subsection \<open>Operations\<close>

text \<open>The first half of \<open>request\<close>; the sender of a request with the same number is dropped.\<close>

definition begin_request :: "string \<Rightarrow> json \<Rightarrow> ClientState \<Rightarrow> ClientState" where
  "begin_request method_name params c =
     (let request_id = cl_next_id c; k = length (cl_calls c);
          c = c\<lparr>cl_next_id := (request_id + 1) mod U64,
                cl_calls := cl_calls c @
                  [\<lparr>ca_id = request_id, ca_message = Some (request_message method_name request_id params),
                    ca_slot = None\<rparr>]\<rparr>;
          c = (case map_of (cl_pending c) request_id of
                 None \<Rightarrow> c | Some old \<Rightarrow> answer old (Inl ResponseChannelClosed) c)
      in c\<lparr>cl_pending := (request_id, k) # remove_key request_id (cl_pending c)\<rparr>)"

text \<open>The second half, of the \<open>k\<close>-th call.\<close>

definition send_request :: "nat \<Rightarrow> ClientState \<Rightarrow> ClientState" where
  "send_request k c =
     (case Option.bind (get_at (cl_calls c) k) ca_message of
        None \<Rightarrow> c
      | Some message \<Rightarrow>
          let (sent, c) = queue message c;
              c = c\<lparr>cl_calls := (cl_calls c)[k := (cl_calls c ! k)\<lparr>ca_message := None\<rparr>]\<rparr>
          in if sent then c
             else answer k (Inl TransportClosed)
               (c\<lparr>cl_pending := remove_key (ca_id (cl_calls c ! k)) (cl_pending c)\<rparr>))"

definition send_message :: "json \<Rightarrow> ClientState \<Rightarrow> (ClientError + unit) \<times> ClientState" where
  "send_message v c = (let (sent, c) = queue v c in (if sent then Inr () else Inl TransportClosed, c))"

definition notify :: "string \<Rightarrow> json \<Rightarrow> ClientState \<Rightarrow> (ClientError + unit) \<times> ClientState" where
  "notify method_name params = send_message (notify_message method_name params)"

definition respond :: "json \<Rightarrow> json \<Rightarrow> ClientState \<Rightarrow> (ClientError + unit) \<times> ClientState" where
  "respond request_id result = send_message (respond_message request_id result)"

definition respond_error :: "json \<Rightarrow> int \<Rightarrow> string \<Rightarrow> ClientState \<Rightarrow> (ClientError + unit) \<times> ClientState" where
  "respond_error request_id code message = send_message (respond_error_message request_id code message)"

definition disconnect :: "string \<Rightarrow> ClientState \<Rightarrow> ClientState" where
  "disconnect reason c =
     (let responders = map snd (cl_pending c);
          c = fold (\<lambda>k. answer k (Inl TransportClosed)) responders (c\<lparr>cl_pending := []\<rparr>);
          (_, c) = emit (Disconnected reason) c
      in c\<lparr>cl_events_open := False\<rparr>)"

text \<open>The writer takes a message; \<open>failure\<close> is the error when the child did not.\<close>

definition writer_turn :: "string option \<Rightarrow> ClientState \<Rightarrow> ClientState" where
  "writer_turn failure c =
     (case cl_outbound c of
        [] \<Rightarrow> c
      | message # messages \<Rightarrow>
          let c = c\<lparr>cl_outbound := messages\<rparr>
          in case failure of
               None \<Rightarrow> c\<lparr>cl_written := cl_written c @ [message]\<rparr>
             | Some error \<Rightarrow>
                 (disconnect (''failed to write to app-server: '' @ error) c)\<lparr>cl_writer := Failed\<rparr>)"

text \<open>The reader: \<open>stop\<close> ends its task.\<close>

definition stop :: "ClientState \<Rightarrow> ClientState" where "stop c = c\<lparr>cl_reader := False\<rparr>"

definition emit_or_stop :: "Event \<Rightarrow> ClientState \<Rightarrow> ClientState" where
  "emit_or_stop e c = (let (sent, c) = emit e c in if sent then c else stop c)"

definition response_result :: "json option \<Rightarrow> RpcError option \<Rightarrow> ClientError + json" where
  "response_result result error =
     (case error of
        None \<Rightarrow> Inr (unwrap_or result JNull)
      | Some e \<Rightarrow> Inl (Rpc (rpc_code e) (rpc_message e) (rpc_data e)))"

definition on_response :: "json \<Rightarrow> json option \<Rightarrow> RpcError option \<Rightarrow> ClientState \<Rightarrow> ClientState" where
  "on_response request_id result error c =
     (case Option.bind (as_u64 request_id) (map_of (cl_pending c)) of
        Some k \<Rightarrow>
          answer k (response_result result error)
            (c\<lparr>cl_pending := remove_key (the (as_u64 request_id)) (cl_pending c)\<rparr>)
      | None \<Rightarrow> emit_or_stop (UnmatchedResponse request_id result error) c)"

definition on_request :: "json \<Rightarrow> string \<Rightarrow> json \<Rightarrow> nat + nat \<Rightarrow> ClientState \<Rightarrow> ClientState" where
  "on_request request_id method_name params clock c =
     (let current_time_at = (if method_name = ''currentTime/read'' then current_unix_seconds clock else 0)
      in case automatic_server_request_response request_id method_name current_time_at of
           Some response \<Rightarrow>
             (let (sent, c) = queue response c
              in if sent then c else stop (disconnect ''app-server writer queue closed'' c))
         | None \<Rightarrow> emit_or_stop (ServerRequest request_id method_name params) c)"

definition receive_line :: "(string \<Rightarrow> string + json) \<Rightarrow> string \<Rightarrow> nat + nat \<Rightarrow> ClientState \<Rightarrow> ClientState" where
  "receive_line parse line clock c =
     (case decode_line parse line of
        Inl e \<Rightarrow> stop (disconnect (client_error_message e) c)
      | Inr (InResponse request_id result error) \<Rightarrow> on_response request_id result error c
      | Inr (InServerRequest request_id method_name params) \<Rightarrow> on_request request_id method_name params clock c
      | Inr (InNotification method_name params) \<Rightarrow> emit_or_stop (Notification method_name params) c)"

definition read_failed :: "string \<Rightarrow> ClientState \<Rightarrow> ClientState" where
  "read_failed error c = stop (disconnect (''failed to read from app-server: '' @ error) c)"

definition stream_ended :: "ClientState \<Rightarrow> ClientState" where
  "stream_ended c = stop (disconnect ''app-server closed stdout'' c)"

subsection \<open>Messages decode to what they say\<close>

text \<open>
  What the client writes is what a peer with the same decoder reads: a request, a notification,
  a response and an error response decode to the message they were built from, with their
  identifier, and the \<open>i64\<close> code of an error survives the two kinds of JSON integers.
\<close>

lemma messages_understood:
  assumes "- (2 ^ 63) \<le> code" "code < 2 ^ 63"
  shows "decode_value (request_message method_name n params) =
      Inr (InServerRequest (JNumber (PosInt n)) method_name params) \<and>
    decode_value (notify_message method_name params) = Inr (InNotification method_name params) \<and>
    decode_value (respond_message request_id result) = Inr (InResponse request_id (Some result) None) \<and>
    decode_value (respond_error_message request_id code message) =
      Inr (InResponse request_id None (Some \<lparr>rpc_code = code, rpc_message = message, rpc_data = None\<rparr>))"
proof -
  have "as_i64 (json_int code) = Some code"
    using assms(2) by (auto simp: json_int_def nat_less_iff)
  then show ?thesis
    by (simp add: decode_value_def request_message_def notify_message_def respond_message_def
        respond_error_message_def parse_rpc_error_def Let_def)
qed

end
