(* ===== verification/AppServerRuns.thy ===== *)
theory AppServerRuns
  imports AppServerClient
begin

text \<open>
  Runs of the App Server client: every interleaving of requests, messages and the turns of the
  two tasks. The invariants of the state, and that a disconnection is final.
\<close>

subsection \<open>Runs\<close>

datatype client_action =
    BeginRequest string json | SendRequest nat | SendMessage json
  | WriterTurn "string option" | WriterStop
  | Line string "nat + nat" | ReadFailed string | StreamEnded

text \<open>A step is possible when its task is alive and has something to do.\<close>

fun act :: "(string \<Rightarrow> string + json) \<Rightarrow> client_action \<Rightarrow> ClientState \<Rightarrow> ClientState option" where
  "act parse (BeginRequest method_name params) c = Some (begin_request method_name params c)"
| "act parse (SendRequest k) c =
     (if Option.bind (get_at (cl_calls c) k) ca_message = None then None else Some (send_request k c))"
| "act parse (SendMessage v) c = Some (snd (send_message v c))"
| "act parse (WriterTurn failure) c =
     (if cl_writer c = Writing \<and> cl_outbound c \<noteq> [] then Some (writer_turn failure c) else None)"
| "act parse WriterStop c =
     (if cl_writer c = Failed then Some (c\<lparr>cl_writer := Dropped, cl_outbound := []\<rparr>) else None)"
| "act parse (Line line clock) c = (if cl_reader c then Some (receive_line parse line clock c) else None)"
| "act parse (ReadFailed e) c = (if cl_reader c then Some (read_failed e c) else None)"
| "act parse StreamEnded c = (if cl_reader c then Some (stream_ended c) else None)"

inductive client_run :: "(string \<Rightarrow> string + json) \<Rightarrow> ClientState \<Rightarrow> client_action list \<Rightarrow> ClientState \<Rightarrow> bool"
  for parse :: "string \<Rightarrow> string + json" and c\<^sub>0 :: ClientState where
  run_start: "client_run parse c\<^sub>0 [] c\<^sub>0"
| run_step: "client_run parse c\<^sub>0 as c \<Longrightarrow> act parse a c = Some c' \<Longrightarrow> client_run parse c\<^sub>0 (as @ [a]) c'"

text \<open>The same, computed.\<close>

fun run_actions :: "(string \<Rightarrow> string + json) \<Rightarrow> client_action list \<Rightarrow> ClientState \<Rightarrow> ClientState option" where
  "run_actions parse [] c = Some c"
| "run_actions parse (a # as) c = Option.bind (act parse a c) (run_actions parse as)"

lemma client_run_Cons:
  "client_run parse c\<^sub>1 as c \<Longrightarrow> act parse a c\<^sub>0 = Some c\<^sub>1 \<Longrightarrow> client_run parse c\<^sub>0 (a # as) c"
proof (induction rule: client_run.induct)
  case run_start
  then show ?case using client_run.run_step [OF client_run.run_start, of parse a c\<^sub>0 c\<^sub>1] by simp
next
  case (run_step as c b c')
  then show ?case using client_run.run_step [of parse c\<^sub>0 "a # as" c b c'] by simp
qed

lemma run_actions_run: "run_actions parse as c = Some c' \<Longrightarrow> client_run parse c as c'"
  by (induction parse as c rule: run_actions.induct)
    (auto simp: bind_eq_Some_conv intro: client_run.run_start client_run_Cons)

inductive_cases client_run_snocE: "client_run parse c\<^sub>0 (as @ [a]) c'"

subsection \<open>Answers\<close>

lemma answer_fields [simp]:
  "cl_next_id (answer k r c) = cl_next_id c" "cl_pending (answer k r c) = cl_pending c"
  "cl_outbound (answer k r c) = cl_outbound c" "cl_events (answer k r c) = cl_events c"
  "cl_events_open (answer k r c) = cl_events_open c" "cl_writer (answer k r c) = cl_writer c"
  "cl_reader (answer k r c) = cl_reader c" "cl_written (answer k r c) = cl_written c"
  "length (cl_calls (answer k r c)) = length (cl_calls c)"
  by (simp_all add: answer_def)

lemma answer_call:
  "j < length (cl_calls c) \<Longrightarrow> cl_calls (answer k r c) ! j =
     (if j = k then (cl_calls c ! j)\<lparr>ca_slot := Some r\<rparr> else cl_calls c ! j)"
  by (simp add: answer_def)

lemma fold_answer:
  fixes ks r c
  defines "d \<equiv> fold (\<lambda>k. answer k r) ks c"
  shows "cl_next_id d = cl_next_id c" "cl_pending d = cl_pending c" "cl_outbound d = cl_outbound c"
    "cl_events d = cl_events c" "cl_events_open d = cl_events_open c" "cl_writer d = cl_writer c"
    "cl_reader d = cl_reader c" "cl_written d = cl_written c" "length (cl_calls d) = length (cl_calls c)"
    "j < length (cl_calls c) \<Longrightarrow> cl_calls d ! j =
       (if j \<in> set ks then (cl_calls c ! j)\<lparr>ca_slot := Some r\<rparr> else cl_calls c ! j)"
proof -
  have "cl_next_id d = cl_next_id c \<and> cl_pending d = cl_pending c \<and> cl_outbound d = cl_outbound c \<and>
    cl_events d = cl_events c \<and> cl_events_open d = cl_events_open c \<and> cl_writer d = cl_writer c \<and>
    cl_reader d = cl_reader c \<and> cl_written d = cl_written c \<and> length (cl_calls d) = length (cl_calls c) \<and>
    (\<forall>j < length (cl_calls c). cl_calls d ! j =
       (if j \<in> set ks then (cl_calls c ! j)\<lparr>ca_slot := Some r\<rparr> else cl_calls c ! j))"
    unfolding d_def by (induction ks arbitrary: c) (auto simp: answer_call)
  then show "cl_next_id d = cl_next_id c" "cl_pending d = cl_pending c" "cl_outbound d = cl_outbound c"
    "cl_events d = cl_events c" "cl_events_open d = cl_events_open c" "cl_writer d = cl_writer c"
    "cl_reader d = cl_reader c" "cl_written d = cl_written c" "length (cl_calls d) = length (cl_calls c)"
    "j < length (cl_calls c) \<Longrightarrow> cl_calls d ! j =
       (if j \<in> set ks then (cl_calls c ! j)\<lparr>ca_slot := Some r\<rparr> else cl_calls c ! j)"
    by auto
qed

lemma queue_fields [simp]:
  "cl_next_id (snd (queue v c)) = cl_next_id c" "cl_pending (snd (queue v c)) = cl_pending c"
  "cl_calls (snd (queue v c)) = cl_calls c" "cl_events (snd (queue v c)) = cl_events c"
  "cl_events_open (snd (queue v c)) = cl_events_open c" "cl_writer (snd (queue v c)) = cl_writer c"
  "cl_reader (snd (queue v c)) = cl_reader c"
  "fst (queue v c) \<longleftrightarrow> cl_writer c \<noteq> Dropped"
  by (simp_all add: queue_def)

lemma emit_fields [simp]:
  "cl_next_id (snd (emit e c)) = cl_next_id c" "cl_pending (snd (emit e c)) = cl_pending c"
  "cl_calls (snd (emit e c)) = cl_calls c" "cl_outbound (snd (emit e c)) = cl_outbound c"
  "cl_events_open (snd (emit e c)) = cl_events_open c" "cl_writer (snd (emit e c)) = cl_writer c"
  "cl_reader (snd (emit e c)) = cl_reader c"
  "cl_events (snd (emit e c)) = (if cl_events_open c then cl_events c @ [e] else cl_events c)"
  by (simp_all add: emit_def)

lemma disconnect_fields [simp]:
  "cl_next_id (disconnect reason c) = cl_next_id c" "cl_pending (disconnect reason c) = []"
  "length (cl_calls (disconnect reason c)) = length (cl_calls c)" "\<not> cl_events_open (disconnect reason c)"
  "cl_writer (disconnect reason c) = cl_writer c" "cl_reader (disconnect reason c) = cl_reader c"
  "cl_outbound (disconnect reason c) = cl_outbound c"
  "cl_events (disconnect reason c) =
     (if cl_events_open c then cl_events c @ [Disconnected reason] else cl_events c)"
  by (simp_all add: disconnect_def fold_answer split_def Let_def)

lemma disconnect_call:
  "j < length (cl_calls c) \<Longrightarrow> cl_calls (disconnect reason c) ! j =
     (if j \<in> snd ` set (cl_pending c) then (cl_calls c ! j)\<lparr>ca_slot := Some (Inl TransportClosed)\<rparr>
      else cl_calls c ! j)"
  by (simp add: disconnect_def fold_answer split_def Let_def)

lemma stop_fields [simp]:
  "cl_next_id (stop c) = cl_next_id c" "cl_pending (stop c) = cl_pending c" "cl_calls (stop c) = cl_calls c"
  "cl_events (stop c) = cl_events c" "cl_events_open (stop c) = cl_events_open c"
  "cl_writer (stop c) = cl_writer c" "\<not> cl_reader (stop c)" "cl_outbound (stop c) = cl_outbound c"
  by (simp_all add: stop_def)

lemma emit_or_stop_fields [simp]:
  "cl_next_id (emit_or_stop e c) = cl_next_id c" "cl_pending (emit_or_stop e c) = cl_pending c"
  "cl_calls (emit_or_stop e c) = cl_calls c" "cl_events_open (emit_or_stop e c) = cl_events_open c"
  "cl_writer (emit_or_stop e c) = cl_writer c" "cl_outbound (emit_or_stop e c) = cl_outbound c"
  "cl_reader (emit_or_stop e c) \<longleftrightarrow> cl_reader c \<and> cl_events_open c"
  "cl_events (emit_or_stop e c) = (if cl_events_open c then cl_events c @ [e] else cl_events c)"
  by (simp_all add: emit_or_stop_def emit_def)

lemma set_remove_key [simp]: "set (remove_key k xs) = {x \<in> set xs. fst x \<noteq> k}"
  by (auto simp: remove_key_def)

lemma distinct_remove_key: "distinct (map fst xs) \<Longrightarrow> distinct (map fst (remove_key k xs))"
  by (induction xs) (auto simp: remove_key_def)

subsection \<open>Pending requests\<close>

text \<open>
  Up to \<open>2 ^ 64\<close> requests the number of a call is its place, and the entries of the map are
  the calls that have no answer.
\<close>

definition waiting :: "ClientState \<Rightarrow> nat set" where
  "waiting c = {k. k < length (cl_calls c) \<and> ca_slot (cl_calls c ! k) = None}"

definition calls_ok :: "ClientState \<Rightarrow> bool" where
  "calls_ok c \<longleftrightarrow> length (cl_calls c) \<le> U64 \<and> cl_next_id c = length (cl_calls c) mod U64 \<and>
     (\<forall>k < length (cl_calls c). ca_id (cl_calls c ! k) = k) \<and>
     distinct (map fst (cl_pending c)) \<and> set (cl_pending c) = (\<lambda>k. (k, k)) ` waiting c"

lemma waiting_answer: "waiting (answer k r c) = waiting c - {k}"
  by (auto simp: waiting_def answer_call split: if_splits)

lemma waiting_cong [simp]: "waiting (cl_pending_update f c) = waiting c" "waiting (cl_next_id_update g c) = waiting c"
  by (simp_all add: waiting_def)

lemma calls_ok_pending:
  "calls_ok c \<Longrightarrow> map_of (cl_pending c) i = Some k \<longleftrightarrow> k = i \<and> i \<in> waiting c"
  by (auto simp: calls_ok_def)

lemma calls_ok_cong:
  assumes "calls_ok c" "cl_calls d = cl_calls c" "cl_pending d = cl_pending c" "cl_next_id d = cl_next_id c"
  shows "calls_ok d"
  using assms by (simp add: calls_ok_def waiting_def)

text \<open>A sender is taken out of the map and used.\<close>

lemma diagonal_remove: "{x \<in> (\<lambda>k. (k, k)) ` W. fst x \<noteq> k} = (\<lambda>k. (k, k)) ` (W - {k})"
  by (safe; force)

lemma calls_ok_take:
  assumes "calls_ok c" "k < length (cl_calls c)"
  shows "calls_ok (answer k r (c\<lparr>cl_pending := remove_key k (cl_pending c)\<rparr>))"
proof -
  let ?d = "answer k r (c\<lparr>cl_pending := remove_key k (cl_pending c)\<rparr>)"
  have P: "set (cl_pending c) = (\<lambda>k. (k, k)) ` waiting c" "distinct (map fst (cl_pending c))"
    and ids: "\<And>j. j < length (cl_calls c) \<Longrightarrow> ca_id (cl_calls c ! j) = j"
    using assms(1) by (simp_all add: calls_ok_def)
  have "set (cl_pending ?d) = (\<lambda>k. (k, k)) ` waiting ?d"
    using diagonal_remove [of "waiting c" k] by (simp add: waiting_answer P)
  moreover have "ca_id (cl_calls ?d ! j) = j" if "j < length (cl_calls c)" for j
    using that ids by (simp add: answer_call)
  moreover have "distinct (map fst (cl_pending ?d))" by (simp add: distinct_remove_key P)
  ultimately show ?thesis
    using assms(1) unfolding calls_ok_def by simp
qed

lemma calls_ok_disconnect:
  assumes "calls_ok c"
  shows "calls_ok (disconnect reason c)" "waiting (disconnect reason c) = {}"
proof -
  have P: "snd ` set (cl_pending c) = waiting c" using assms by (simp add: calls_ok_def image_image)
  show none: "waiting (disconnect reason c) = {}"
  proof -
    have "ca_slot (cl_calls (disconnect reason c) ! k) \<noteq> None" if "k < length (cl_calls c)" for k
      using that unfolding disconnect_call [OF that] P by (simp add: waiting_def)
    then show ?thesis by (simp add: waiting_def)
  qed
  then show "calls_ok (disconnect reason c)"
    using assms by (simp add: calls_ok_def disconnect_call)
qed

lemma calls_ok_begin:
  assumes "calls_ok c" "length (cl_calls c) < U64"
  shows "calls_ok (begin_request method_name params c)"
    "waiting (begin_request method_name params c) = insert (length (cl_calls c)) (waiting c)"
    "cl_calls (begin_request method_name params c) = cl_calls c @
      [\<lparr>ca_id = length (cl_calls c),
        ca_message = Some (request_message method_name (length (cl_calls c)) params), ca_slot = None\<rparr>]"
proof -
  let ?n = "length (cl_calls c)"
  have n: "cl_next_id c = ?n" using assms by (simp add: calls_ok_def)
  have fresh: "?n \<notin> fst ` set (cl_pending c)" using assms(1) by (auto simp: calls_ok_def waiting_def)
  then have none: "map_of (cl_pending c) ?n = None" by (simp add: map_of_eq_None_iff)
  have same: "remove_key ?n (cl_pending c) = cl_pending c"
    unfolding remove_key_def by (rule filter_True) (use fresh in force)
  show calls: "cl_calls (begin_request method_name params c) = cl_calls c @
      [\<lparr>ca_id = ?n, ca_message = Some (request_message method_name ?n params), ca_slot = None\<rparr>]"
    by (simp add: begin_request_def n none Let_def)
  then show w: "waiting (begin_request method_name params c) = insert ?n (waiting c)"
    by (auto simp: waiting_def nth_append less_Suc_eq)
  have "cl_pending (begin_request method_name params c) = (?n, ?n) # cl_pending c"
    "cl_next_id (begin_request method_name params c) = (?n + 1) mod U64"
    by (simp_all add: begin_request_def n none same Let_def)
  then show "calls_ok (begin_request method_name params c)"
    using assms fresh calls w by (simp add: calls_ok_def nth_append less_Suc_eq)
qed

text \<open>A request that could not be queued takes its sender back.\<close>

definition sent_request :: "nat \<Rightarrow> ClientState \<Rightarrow> ClientState" where
  "sent_request k c = c\<lparr>cl_calls := (cl_calls c)[k := (cl_calls c ! k)\<lparr>ca_message := None\<rparr>]\<rparr>"

lemma sent_request_calls:
  "length (cl_calls (sent_request k c)) = length (cl_calls c)"
  "j < length (cl_calls c) \<Longrightarrow> ca_id (cl_calls (sent_request k c) ! j) = ca_id (cl_calls c ! j)"
  "j < length (cl_calls c) \<Longrightarrow> ca_slot (cl_calls (sent_request k c) ! j) = ca_slot (cl_calls c ! j)"
  by (simp add: sent_request_def, (cases "j = k", simp_all add: sent_request_def)+)

lemma calls_ok_sent: "calls_ok c \<Longrightarrow> calls_ok (sent_request k c)"
proof -
  have "waiting (sent_request k c) = waiting c" by (auto simp: waiting_def sent_request_calls)
  moreover have "cl_next_id (sent_request k c) = cl_next_id c" "cl_pending (sent_request k c) = cl_pending c"
    by (simp_all add: sent_request_def)
  ultimately show "calls_ok c \<Longrightarrow> calls_ok (sent_request k c)"
    by (simp add: calls_ok_def sent_request_calls)
qed

lemma send_request_cases:
  assumes "k < length (cl_calls c)" "calls_ok c" "ca_message (cl_calls c ! k) = Some message"
  defines "d \<equiv> sent_request k (snd (queue message c))"
  shows "send_request k c =
    (if cl_writer c \<noteq> Dropped then d
     else answer k (Inl TransportClosed) (d\<lparr>cl_pending := remove_key k (cl_pending d)\<rparr>))"
proof -
  have "ca_id (cl_calls d ! k) = k"
    using assms(1,2) by (simp add: d_def sent_request_calls calls_ok_def)
  then show ?thesis
    using assms(1,3) by (simp add: send_request_def get_at_def d_def sent_request_def split_def Let_def)
qed

lemma calls_ok_send_request:
  assumes "calls_ok c" "k < length (cl_calls c)"
  shows "calls_ok (send_request k c)"
proof (cases "ca_message (cl_calls c ! k)")
  case None
  then show ?thesis using assms by (simp add: send_request_def get_at_def)
next
  case (Some message)
  have "calls_ok (snd (queue message c))" by (rule calls_ok_cong [OF assms(1)]) simp_all
  then have d: "calls_ok (sent_request k (snd (queue message c)))" by (rule calls_ok_sent)
  show ?thesis
    using calls_ok_take [OF d, of k] d assms(2) unfolding send_request_cases [OF assms(2,1) Some]
    by (simp add: sent_request_calls)
qed

subsection \<open>Every step keeps the invariants\<close>

lemma calls_ok_stop: "calls_ok c \<Longrightarrow> calls_ok (stop c)"
  by (erule calls_ok_cong) simp_all

lemma calls_ok_queue: "calls_ok c \<Longrightarrow> calls_ok (snd (queue v c))"
  by (erule calls_ok_cong) simp_all

lemma calls_ok_emit_or_stop: "calls_ok c \<Longrightarrow> calls_ok (emit_or_stop e c)"
  by (erule calls_ok_cong) simp_all

lemma calls_ok_on_response: "calls_ok c \<Longrightarrow> calls_ok (on_response request_id result error c)"
proof (cases "Option.bind (as_u64 request_id) (map_of (cl_pending c))")
  case None
  show "calls_ok c \<Longrightarrow> ?thesis"
    unfolding on_response_def None option.case by (rule calls_ok_emit_or_stop)
next
  case (Some k)
  assume ok: "calls_ok c"
  obtain n where n: "as_u64 request_id = Some n" "map_of (cl_pending c) n = Some k"
    using Some by (auto simp: bind_eq_Some_conv)
  then have "k = n" "k < length (cl_calls c)" using calls_ok_pending [OF ok] by (auto simp: waiting_def)
  then show ?thesis using calls_ok_take [OF ok] n by (simp add: on_response_def)
qed

lemma calls_ok_receive: "calls_ok c \<Longrightarrow> calls_ok (receive_line parse line clock c)"
  by (auto simp: receive_line_def on_request_def split_def Let_def calls_ok_stop calls_ok_disconnect(1)
      calls_ok_queue calls_ok_emit_or_stop calls_ok_on_response split: sum.split Incoming.split option.split)

lemma calls_ok_writer: "calls_ok c \<Longrightarrow> calls_ok (writer_turn failure c)"
proof (cases "cl_outbound c")
  case (Cons message messages)
  assume ok: "calls_ok c"
  then have rest: "calls_ok (c\<lparr>cl_outbound := messages\<rparr>)" by (rule calls_ok_cong) simp_all
  show ?thesis
  proof (cases failure)
    case None
    show ?thesis by (rule calls_ok_cong [OF rest]) (simp_all add: writer_turn_def Cons None)
  next
    case (Some error)
    show ?thesis
      by (rule calls_ok_cong [OF calls_ok_disconnect(1) [OF rest]]) (simp_all add: writer_turn_def Cons Some Let_def)
  qed
qed (simp add: writer_turn_def)

lemma length_on_response [simp]: "length (cl_calls (on_response request_id result error c)) = length (cl_calls c)"
  by (simp add: on_response_def split: option.split)

lemma length_receive [simp]: "length (cl_calls (receive_line parse line clock c)) = length (cl_calls c)"
  by (auto simp: receive_line_def on_request_def split_def Let_def split: sum.split Incoming.split option.split)

lemma length_writer [simp]: "length (cl_calls (writer_turn failure c)) = length (cl_calls c)"
  by (simp add: writer_turn_def Let_def split: list.split option.split)

lemma length_begin [simp]: "length (cl_calls (begin_request m p c)) = Suc (length (cl_calls c))"
  by (simp add: begin_request_def Let_def split: option.split)

lemma length_send [simp]: "length (cl_calls (send_request k c)) = length (cl_calls c)"
  by (simp add: send_request_def split_def Let_def split: option.split)

lemma act_length: "act parse a c = Some c' \<Longrightarrow> length (cl_calls c) \<le> length (cl_calls c')"
  by (cases a) (auto simp: send_message_def split_def Let_def read_failed_def stream_ended_def split: if_splits)

lemma act_send_request:
  "act parse (SendRequest k) c = Some c' \<longleftrightarrow>
     k < length (cl_calls c) \<and> ca_message (cl_calls c ! k) \<noteq> None \<and> c' = send_request k c"
  by (auto simp: get_at_def)

lemma act_calls_ok:
  assumes "calls_ok c" "act parse a c = Some c'" "length (cl_calls c') \<le> U64"
  shows "calls_ok c'"
proof (cases a)
  case (SendRequest k)
  then show ?thesis using assms calls_ok_send_request act_send_request [of parse k c c'] by simp
next
  case (SendMessage v)
  then have "c' = snd (queue v c)" using assms(2) by (simp add: send_message_def split_def Let_def)
  then show ?thesis using calls_ok_queue [OF assms(1)] by simp
next
  case WriterStop
  then show ?thesis using assms by (auto intro: calls_ok_cong split: if_splits)
qed (use assms in \<open>auto simp: calls_ok_begin(1) calls_ok_writer calls_ok_receive read_failed_def
    stream_ended_def calls_ok_stop calls_ok_disconnect(1) split: if_splits\<close>)

lemma run_length: "client_run parse c\<^sub>0 as c \<Longrightarrow> length (cl_calls c\<^sub>0) \<le> length (cl_calls c)"
  by (induction rule: client_run.induct) (auto dest: act_length)

lemma calls_ok_launched: "calls_ok launched"
  by (simp add: calls_ok_def launched_def waiting_def U64_def)

lemma run_calls_ok:
  "client_run parse c\<^sub>0 as c \<Longrightarrow> calls_ok c\<^sub>0 \<Longrightarrow> length (cl_calls c) \<le> U64 \<Longrightarrow> calls_ok c"
proof (induction rule: client_run.induct)
  case (run_step as c a c')
  then have "length (cl_calls c) \<le> U64" using act_length [OF run_step.hyps(2)] by linarith
  then show ?case using run_step by (blast intro: act_calls_ok)
qed simp

subsection \<open>The stream of events\<close>

fun is_disconnected :: "Event \<Rightarrow> bool" where
  "is_disconnected (Disconnected reason) = True"
| "is_disconnected _ = False"

definition stream_ok :: "ClientState \<Rightarrow> bool" where
  "stream_ok c \<longleftrightarrow>
     (cl_events_open c \<longrightarrow> (\<forall>e \<in> set (cl_events c). \<not> is_disconnected e)) \<and>
     (\<not> cl_events_open c \<longrightarrow> cl_events c \<noteq> [] \<and> is_disconnected (last (cl_events c)) \<and>
        (\<forall>e \<in> set (butlast (cl_events c)). \<not> is_disconnected e)) \<and>
     (cl_writer c \<noteq> Writing \<longrightarrow> \<not> cl_events_open c) \<and> (\<not> cl_reader c \<longrightarrow> \<not> cl_events_open c)"

lemma stream_ok_disconnect: "stream_ok c \<Longrightarrow> stream_ok (disconnect reason c)"
  by (auto simp: stream_ok_def)

lemma stream_ok_emit_or_stop: "stream_ok c \<Longrightarrow> \<not> is_disconnected e \<Longrightarrow> stream_ok (emit_or_stop e c)"
  by (auto simp: stream_ok_def)

lemma stream_ok_stop: "stream_ok c \<Longrightarrow> \<not> cl_events_open c \<Longrightarrow> stream_ok (stop c)"
  by (auto simp: stream_ok_def)

lemma stream_ok_cong:
  "stream_ok c \<Longrightarrow> cl_events d = cl_events c \<Longrightarrow> cl_events_open d = cl_events_open c \<Longrightarrow>
     (cl_writer d \<noteq> Writing \<longrightarrow> \<not> cl_events_open c) \<Longrightarrow> cl_reader d = cl_reader c \<Longrightarrow> stream_ok d"
  by (simp add: stream_ok_def)

lemma stream_ok_answer: "stream_ok c \<Longrightarrow> stream_ok (answer k r c)"
  by (simp add: stream_ok_def)

lemma stream_ok_receive:
  assumes "stream_ok c" "cl_reader c"
  shows "stream_ok (receive_line parse line clock c)"
proof (cases "decode_line parse line")
  case (Inl e)
  then show ?thesis using assms by (simp add: receive_line_def stream_ok_stop stream_ok_disconnect)
next
  case (Inr incoming)
  show ?thesis
  proof (cases incoming)
    case (InResponse request_id result error)
    have "stream_ok (c\<lparr>cl_pending := P\<rparr>)" for P using assms(1) by (simp add: stream_ok_def)
    then show ?thesis
      using assms by (auto simp: receive_line_def Inr InResponse on_response_def stream_ok_answer
          stream_ok_emit_or_stop split: option.split)
  next
    case (InServerRequest request_id method_name params)
    have "stream_ok (snd (queue v c))" for v using assms(1) by (rule stream_ok_cong) (use assms in \<open>auto simp: stream_ok_def\<close>)
    then show ?thesis
      using assms by (auto simp: receive_line_def Inr InServerRequest on_request_def split_def Let_def
          stream_ok_stop stream_ok_disconnect stream_ok_emit_or_stop split: option.split)
  next
    case (InNotification method_name params)
    then show ?thesis using assms by (simp add: receive_line_def Inr stream_ok_emit_or_stop)
  qed
qed

lemma stream_ok_begin: "stream_ok c \<Longrightarrow> stream_ok (begin_request m p c)"
  by (auto simp: stream_ok_def begin_request_def Let_def split: option.split)

lemma stream_ok_send: "stream_ok c \<Longrightarrow> stream_ok (send_request k c)"
  by (auto simp: stream_ok_def send_request_def split_def Let_def split: option.split)

lemma stream_ok_writer:
  assumes "stream_ok c"
  shows "stream_ok (writer_turn failure c)"
  using assms by (auto simp: stream_ok_def writer_turn_def Let_def split: list.split option.split)

lemma act_stream_ok:
  assumes "stream_ok c" "act parse a c = Some c'"
  shows "stream_ok c'"
proof (cases a)
  case (SendRequest k)
  then show ?thesis using assms stream_ok_send act_send_request [of parse k c c'] by simp
next
  case (SendMessage v)
  then have "c' = snd (queue v c)" using assms(2) by (simp add: send_message_def split_def Let_def)
  moreover have "stream_ok (snd (queue v c))"
    using assms(1) by (rule stream_ok_cong) (use assms in \<open>auto simp: stream_ok_def\<close>)
  ultimately show ?thesis by simp
next
  case WriterStop
  then show ?thesis using assms by (auto simp: stream_ok_def split: if_splits)
qed (use assms in \<open>auto simp: stream_ok_begin stream_ok_writer stream_ok_receive read_failed_def
    stream_ended_def stream_ok_stop stream_ok_disconnect split: if_splits\<close>)

lemma run_stream_ok: "client_run parse c\<^sub>0 as c \<Longrightarrow> stream_ok c\<^sub>0 \<Longrightarrow> stream_ok c"
  by (induction rule: client_run.induct) (auto intro: act_stream_ok)

text \<open>
  Disconnection is final. However requests, writes and lines interleave, the client tells of
  a disconnection exactly when its event stream is closed, once, and as the last event; and when
  either of its tasks has ended the stream is closed, so that the host always learns of it.
\<close>

lemma disconnection_is_final:
  assumes "client_run parse launched as c"
  shows "(cl_events_open c \<longrightarrow> (\<forall>e \<in> set (cl_events c). \<not> is_disconnected e)) \<and>
    (\<not> cl_events_open c \<longrightarrow> (\<exists>before reason. cl_events c = before @ [Disconnected reason] \<and>
       (\<forall>e \<in> set before. \<not> is_disconnected e))) \<and>
    (cl_writer c \<noteq> Writing \<or> \<not> cl_reader c \<longrightarrow> \<not> cl_events_open c)"
proof -
  have ok: "stream_ok c" using run_stream_ok [OF assms] by (simp add: stream_ok_def launched_def)
  have "\<exists>before reason. cl_events c = before @ [Disconnected reason] \<and> (\<forall>e \<in> set before. \<not> is_disconnected e)"
    if "\<not> cl_events_open c"
  proof -
    have "cl_events c = butlast (cl_events c) @ [last (cl_events c)]" "is_disconnected (last (cl_events c))"
      "\<forall>e \<in> set (butlast (cl_events c)). \<not> is_disconnected e"
      using ok that by (simp_all add: stream_ok_def)
    then show ?thesis by (metis is_disconnected.elims(2))
  qed
  then show ?thesis using ok by (auto simp: stream_ok_def)
qed

text \<open>A parser for examples: it knows one response, one request and nothing else.\<close>

definition example_parse :: "string \<Rightarrow> string + json" where
  "example_parse line =
     (if line = ''response'' then Inr (JObject [(''id'', JNumber (PosInt 0)), (''result'', JBool True)])
      else if line = ''request'' then
        Inr (JObject [(''method'', JString ''item/tool/call''), (''id'', JString ''a'')])
      else Inl ''expected value'')"

end
