(* ===== verification/AppServerRequests.thy ===== *)
theory AppServerRequests
  imports AppServerRuns
begin

text \<open>
  What becomes of the requests of the App Server client and of the requests of the server: a
  request gets the response with its own number and no other, the end of the stream answers
  every request, requests begun later are never answered, and a server request is handled once.
\<close>

subsection \<open>What becomes of a request\<close>

definition slot :: "ClientState \<Rightarrow> nat \<Rightarrow> (ClientError + json) option" where
  "slot c k = ca_slot (cl_calls c ! k)"

text \<open>A response reaches the call with its number, and no other.\<close>

lemma on_response_slot:
  assumes "calls_ok c" "j < length (cl_calls c)"
  shows "slot (on_response request_id result error c) j =
      (if as_u64 request_id = Some j \<and> slot c j = None then Some (response_result result error) else slot c j)"
    and "ca_message (cl_calls (on_response request_id result error c) ! j) = ca_message (cl_calls c ! j)"
proof -
  have "slot (on_response request_id result error c) j =
      (if as_u64 request_id = Some j \<and> slot c j = None then Some (response_result result error) else slot c j) \<and>
    ca_message (cl_calls (on_response request_id result error c) ! j) = ca_message (cl_calls c ! j)"
  proof (cases "Option.bind (as_u64 request_id) (map_of (cl_pending c))")
    case None
    have "\<not> (as_u64 request_id = Some j \<and> slot c j = None)"
      using None assms calls_ok_pending [OF assms(1), of j j] by (auto simp: waiting_def slot_def)
    then show ?thesis using None by (simp add: on_response_def slot_def)
  next
    case (Some k)
    obtain n where n: "as_u64 request_id = Some n" "map_of (cl_pending c) n = Some k"
      using Some by (auto simp: bind_eq_Some_conv)
    then have k: "k = n" "n < length (cl_calls c)" "slot c n = None"
      using calls_ok_pending [OF assms(1)] by (auto simp: waiting_def slot_def)
    then show ?thesis using assms(2) n by (auto simp: on_response_def slot_def answer_call)
  qed
  then show "slot (on_response request_id result error c) j =
      (if as_u64 request_id = Some j \<and> slot c j = None then Some (response_result result error) else slot c j)"
    "ca_message (cl_calls (on_response request_id result error c) ! j) = ca_message (cl_calls c ! j)" by auto
qed

lemma disconnect_slot:
  assumes "calls_ok c" "j < length (cl_calls c)"
  shows "slot (disconnect reason c) j = (if slot c j = None then Some (Inl TransportClosed) else slot c j)"
    and "ca_message (cl_calls (disconnect reason c) ! j) = ca_message (cl_calls c ! j)"
proof -
  have "snd ` set (cl_pending c) = waiting c" using assms(1) by (simp add: calls_ok_def image_image)
  then have "j \<in> snd ` set (cl_pending c) \<longleftrightarrow> slot c j = None" using assms(2) by (simp add: waiting_def slot_def)
  then show "slot (disconnect reason c) j = (if slot c j = None then Some (Inl TransportClosed) else slot c j)"
    "ca_message (cl_calls (disconnect reason c) ! j) = ca_message (cl_calls c ! j)"
    using assms(2) by (simp_all add: slot_def disconnect_call)
qed

lemma send_request_slot:
  assumes "calls_ok c" "k < length (cl_calls c)" "ca_message (cl_calls c ! k) \<noteq> None" "j < length (cl_calls c)"
  shows "slot (send_request k c) j = (if j = k \<and> cl_writer c = Dropped then Some (Inl TransportClosed) else slot c j)"
    and "ca_message (cl_calls (send_request k c) ! j) = (if j = k then None else ca_message (cl_calls c ! j))"
proof -
  obtain message where m: "ca_message (cl_calls c ! k) = Some message" using assms(3) by blast
  have "slot (send_request k c) j = (if j = k \<and> cl_writer c = Dropped then Some (Inl TransportClosed) else slot c j) \<and>
    ca_message (cl_calls (send_request k c) ! j) = (if j = k then None else ca_message (cl_calls c ! j))"
    using assms(2,4) unfolding send_request_cases [OF assms(2,1) m]
    by (cases "j = k") (auto simp: slot_def answer_call sent_request_def)
  then show "slot (send_request k c) j = (if j = k \<and> cl_writer c = Dropped then Some (Inl TransportClosed) else slot c j)"
    "ca_message (cl_calls (send_request k c) ! j) = (if j = k then None else ca_message (cl_calls c ! j))" by auto
qed

text \<open>What one step can do to a call that is there before it.\<close>

definition answered_by :: "(string \<Rightarrow> string + json) \<Rightarrow> client_action \<Rightarrow> nat \<Rightarrow> ClientError + json \<Rightarrow> bool" where
  "answered_by parse a k r \<longleftrightarrow> (\<exists>line clock request_id result error. a = Line line clock \<and>
     decode_line parse line = Inr (InResponse request_id result error) \<and> as_u64 request_id = Some k \<and>
     r = response_result result error)"

definition call_step :: "(string \<Rightarrow> string + json) \<Rightarrow> client_action \<Rightarrow> nat \<Rightarrow> ClientState \<Rightarrow> ClientState \<Rightarrow> bool" where
  "call_step parse a j c c' \<longleftrightarrow>
     (ca_message (cl_calls c ! j) = None \<longrightarrow> ca_message (cl_calls c' ! j) = None) \<and>
     (slot c' j = slot c j \<or>
      slot c' j = Some (Inl TransportClosed) \<and> (slot c j = None \<or> ca_message (cl_calls c ! j) \<noteq> None) \<or>
      slot c j = None \<and> (\<exists>r. slot c' j = Some r \<and> answered_by parse a j r))"

lemma call_step_same:
  "cl_calls c' = cl_calls c \<Longrightarrow> call_step parse a j c c'"
  by (simp add: call_step_def slot_def)

lemma receive_call_step:
  assumes ok: "calls_ok c" and j: "j < length (cl_calls c)"
  shows "call_step parse (Line line clock) j c (receive_line parse line clock c)"
proof (cases "decode_line parse line")
  case (Inl e)
  have "cl_calls (stop (disconnect r c)) = cl_calls (disconnect r c)" for r by simp
  then show ?thesis
    using disconnect_slot [OF assms] by (simp add: call_step_def slot_def receive_line_def Inl)
next
  case (Inr incoming)
  show ?thesis
  proof (cases incoming)
    case (InResponse request_id result error)
    then show ?thesis
      using on_response_slot [OF assms, of request_id result error] Inr
      by (auto simp: call_step_def receive_line_def answered_by_def)
  next
    case (InServerRequest request_id method_name params)
    have q: "calls_ok (snd (queue v c))" "slot (snd (queue v c)) j = slot c j" for v
      using ok by (auto simp: slot_def calls_ok_queue)
    show ?thesis
      using disconnect_slot [OF q(1)] j q(2)
      by (auto simp: call_step_def slot_def receive_line_def Inr InServerRequest on_request_def split_def Let_def
          split: option.split)
  next
    case (InNotification method_name params)
    show ?thesis by (rule call_step_same) (simp add: receive_line_def Inr InNotification)
  qed
qed

lemma act_call_step:
  assumes ok: "calls_ok c" "length (cl_calls c') \<le> U64" and j: "j < length (cl_calls c)"
    and act: "act parse a c = Some c'"
  shows "call_step parse a j c c'"
proof (cases a)
  case (BeginRequest m p)
  then have "cl_calls c' ! j = cl_calls c ! j"
    using act ok j calls_ok_begin(3) [OF ok(1), of m p] by (auto simp: nth_append)
  then show ?thesis by (simp add: call_step_def slot_def)
next
  case (SendRequest k)
  then have k: "k < length (cl_calls c)" "ca_message (cl_calls c ! k) \<noteq> None" "c' = send_request k c"
    using act act_send_request [of parse k c c'] by auto
  show ?thesis
    using send_request_slot [OF ok(1) k(1,2) j] k(2) by (auto simp: call_step_def k(3))
next
  case (SendMessage v)
  then show ?thesis using act by (intro call_step_same) (auto simp: send_message_def split_def Let_def)
next
  case (WriterTurn failure)
  then obtain message messages where out: "cl_outbound c = message # messages" "c' = writer_turn failure c"
    using act by (cases "cl_outbound c") (auto split: if_splits)
  have rest: "calls_ok (c\<lparr>cl_outbound := messages\<rparr>)" using ok(1) by (rule calls_ok_cong) simp_all
  show ?thesis
  proof (cases failure)
    case None
    then show ?thesis using out by (intro call_step_same) (simp add: writer_turn_def)
  next
    case (Some e)
    then show ?thesis
      using out disconnect_slot [OF rest, of j "''failed to write to app-server: '' @ e"] j
      by (simp add: writer_turn_def call_step_def slot_def Let_def)
  qed
next
  case WriterStop
  then show ?thesis using act by (intro call_step_same) (auto split: if_splits)
next
  case (Line line clock)
  then show ?thesis using act receive_call_step [OF ok(1) j] by (auto split: if_splits)
next
  case (ReadFailed e)
  then show ?thesis
    using act disconnect_slot [OF ok(1) j] by (auto simp: read_failed_def call_step_def slot_def split: if_splits)
next
  case StreamEnded
  then show ?thesis
    using act disconnect_slot [OF ok(1) j] by (auto simp: stream_ended_def call_step_def slot_def split: if_splits)
qed

text \<open>A result that has been returned stays.\<close>

lemma call_step_returned:
  "call_step parse a j c c' \<Longrightarrow> returned (cl_calls c ! j) = Some r \<Longrightarrow> returned (cl_calls c' ! j) = Some r"
  by (auto simp: call_step_def returned_def slot_def split: if_splits)

lemma run_slot:
  "client_run parse launched as c \<Longrightarrow> length (cl_calls c) \<le> U64 \<Longrightarrow> j < length (cl_calls c) \<Longrightarrow> slot c j = Some r \<Longrightarrow>
     r = Inl TransportClosed \<or> (\<exists>a \<in> set as. answered_by parse a j r)"
proof (induction rule: client_run.induct)
  case run_start
  then show ?case by (simp add: launched_def)
next
  case (run_step as c a c')
  have "length (cl_calls c) \<le> U64" using act_length [OF run_step.hyps(2)] run_step.prems(1) by linarith
  then have ok: "calls_ok c" using run_calls_ok [OF run_step.hyps(1) calls_ok_launched] by simp
  show ?case
  proof (cases "j < length (cl_calls c)")
    case True
    have "call_step parse a j c c'" using act_call_step [OF ok run_step.prems(1) True run_step.hyps(2)] .
    then show ?thesis
      using run_step True \<open>length (cl_calls c) \<le> U64\<close> by (auto simp: call_step_def)
  next
    case False
    then have new: "length (cl_calls c) < length (cl_calls c')" using run_step.prems(2) by simp
    then obtain m p where a: "a = BeginRequest m p"
      using run_step.hyps(2)
      by (cases a) (auto simp: send_message_def split_def Let_def read_failed_def stream_ended_def split: if_splits)
    then have c': "c' = begin_request m p c" using run_step.hyps(2) by simp
    then have "j = length (cl_calls c)" "length (cl_calls c) < U64" using False run_step.prems(1,2) by simp_all
    then have "slot c' j = None" using calls_ok_begin(3) [OF ok, of m p] by (simp add: c' slot_def)
    then show ?thesis using run_step.prems(3) by simp
  qed
qed

text \<open>
  C27. Responses are matched to their requests. In every run of up to \<open>2 ^ 64\<close> requests, what the
  \<open>k\<close>-th request returns is that the transport is closed, or else the content of a line whose
  identifier is \<open>k\<close>: no request gets the response of another, and none is told that its channel
  is closed.
\<close>

theorem request_answered_by_own_response:
  assumes "client_run parse launched as c" "length (cl_calls c) \<le> 2 ^ 64" "k < length (cl_calls c)"
    and "returned (cl_calls c ! k) = Some r"
  shows "r = Inl TransportClosed \<or>
    (\<exists>line clock request_id result error. Line line clock \<in> set as \<and>
       decode_line parse line = Inr (InResponse request_id result error) \<and> as_u64 request_id = Some k \<and>
       r = response_result result error)"
proof -
  have "slot c k = Some r" using assms(4) by (auto simp: returned_def slot_def split: if_splits)
  then show ?thesis
    using run_slot [OF assms(1) _ assms(3)] assms(2) unfolding answered_by_def U64_def by metis
qed

text \<open>
  A response is delivered. When a line answers a request that waits, whatever else is in
  flight, the request gets exactly its content, and no other request changes.
\<close>

lemma response_delivered:
  assumes "client_run parse launched as c" "length (cl_calls c) \<le> 2 ^ 64" "cl_reader c"
    and "k < length (cl_calls c)" "ca_slot (cl_calls c ! k) = None"
    and "decode_line parse line = Inr (InResponse request_id result error)" "as_u64 request_id = Some k"
  shows "\<exists>c'. act parse (Line line clock) c = Some c' \<and> length (cl_calls c') = length (cl_calls c) \<and>
    (\<forall>j < length (cl_calls c). ca_slot (cl_calls c' ! j) =
       (if j = k then Some (response_result result error) else ca_slot (cl_calls c ! j)))"
proof -
  have ok: "calls_ok c" using run_calls_ok [OF assms(1) calls_ok_launched] assms(2) by (simp add: U64_def)
  show ?thesis
    using on_response_slot(1) [OF ok, of _ request_id result error] assms
    by (auto simp: receive_line_def slot_def)
qed

text \<open>The steps that end the stream: its end, an error of the pipe, and a line that is no message.\<close>

fun ends_stream :: "(string \<Rightarrow> string + json) \<Rightarrow> client_action \<Rightarrow> bool" where
  "ends_stream parse StreamEnded = True"
| "ends_stream parse (ReadFailed e) = True"
| "ends_stream parse (Line line clock) = (case decode_line parse line of Inl e \<Rightarrow> True | Inr i \<Rightarrow> False)"
| "ends_stream parse a = False"

text \<open>
  C28. No request outlives the stream. Whatever happened before, at the moment the stream of lines
  ends, every request that was begun has its answer: it has returned, or returns as soon as it
  has queued its message.
\<close>

theorem stream_end_answers_all:
  assumes "client_run parse launched (as @ [a]) c" "length (cl_calls c) \<le> 2 ^ 64" "ends_stream parse a"
    and "k < length (cl_calls c)"
  shows "ca_slot (cl_calls c ! k) \<noteq> None \<and>
    (ca_message (cl_calls c ! k) = None \<longrightarrow> returned (cl_calls c ! k) \<noteq> None) \<and>
    returned (cl_calls (send_request k c) ! k) \<noteq> None"
proof -
  obtain b where b: "client_run parse launched as b" "act parse a b = Some c"
    using assms(1) by (auto elim: client_run_snocE)
  have "length (cl_calls b) \<le> U64" using act_length [OF b(2)] assms(2) by (simp add: U64_def)
  then have okb: "calls_ok b" using run_calls_ok [OF b(1) calls_ok_launched] by simp
  have ok: "calls_ok c" using run_calls_ok [OF assms(1) calls_ok_launched] assms(2) by (simp add: U64_def)
  obtain reason where c: "c = stop (disconnect reason b)"
    using b(2) assms(3) by (cases a) (auto simp: read_failed_def stream_ended_def receive_line_def split: if_splits sum.splits)
  have "waiting c = {}" using calls_ok_disconnect(2) [OF okb, of reason] by (simp add: c waiting_def)
  then have answered: "ca_slot (cl_calls c ! k) \<noteq> None" using assms(4) by (auto simp: waiting_def)
  moreover have "returned (cl_calls (send_request k c) ! k) \<noteq> None"
  proof (cases "ca_message (cl_calls c ! k) = None")
    case True
    then show ?thesis using answered assms(4) by (simp add: send_request_def get_at_def returned_def)
  next
    case False
    then show ?thesis
      using send_request_slot [OF ok assms(4) False assms(4)] answered
      by (simp add: returned_def slot_def)
  qed
  ultimately show ?thesis by (simp add: returned_def)
qed

subsection \<open>Requests that are never answered\<close>

lemma run_late:
  assumes "client_run parse c\<^sub>0 bs c" "\<forall>e. WriterTurn (Some e) \<notin> set bs"
    and "calls_ok c\<^sub>0" "length (cl_calls c) \<le> U64" "\<not> cl_reader c\<^sub>0" "cl_writer c\<^sub>0 = Writing" "k \<in> waiting c\<^sub>0"
  shows "\<not> cl_reader c \<and> cl_writer c = Writing \<and> k \<in> waiting c"
  using assms
proof (induction rule: client_run.induct)
  case (run_step as c a c')
  have len: "length (cl_calls c) \<le> U64" using act_length [OF run_step.hyps(2)] run_step.prems by linarith
  have IH: "\<not> cl_reader c" "cl_writer c = Writing" "k \<in> waiting c"
    using run_step.IH run_step.prems len by auto
  have ok: "calls_ok c" using run_calls_ok [OF run_step.hyps(1) run_step.prems(2) len] .
  have k: "k < length (cl_calls c)" "slot c k = None" using IH(3) by (simp_all add: waiting_def slot_def)
  show ?case
  proof (cases a)
    case (BeginRequest m p)
    then have "c' = begin_request m p c" using run_step.hyps(2) by simp
    moreover have "length (cl_calls c) < U64" using run_step.prems(3) calculation by simp
    moreover have "cl_reader (begin_request m p c) = cl_reader c" "cl_writer (begin_request m p c) = cl_writer c"
      by (simp_all add: begin_request_def Let_def split: option.split)
    ultimately show ?thesis using IH calls_ok_begin(2) [OF ok, of m p] by simp
  next
    case (SendRequest i)
    then have i: "i < length (cl_calls c)" "ca_message (cl_calls c ! i) \<noteq> None" "c' = send_request i c"
      using run_step.hyps(2) act_send_request [of parse i c c'] by auto
    have "cl_reader c' = cl_reader c" "cl_writer c' = cl_writer c"
      using i by (auto simp: send_request_def split_def Let_def split: option.split)
    moreover have "slot c' k = None" using send_request_slot(1) [OF ok i(1,2) k(1)] k(2) IH(2) i(3) by simp
    ultimately show ?thesis using IH k(1) i(3) by (simp add: waiting_def slot_def)
  next
    case (SendMessage v)
    then show ?thesis using run_step.hyps(2) IH by (auto simp: send_message_def split_def Let_def waiting_def)
  next
    case (WriterTurn failure)
    then show ?thesis
      using run_step.hyps(2) run_step.prems(1) IH
      by (cases failure) (auto simp: writer_turn_def waiting_def split: if_splits list.splits)
  qed (use run_step.hyps(2) IH in \<open>auto split: if_splits\<close>)
qed simp

text \<open>
  A request that is begun after the reader has ended is never answered, as long as the child
  keeps taking what is written to it: the writer is still there to queue and write its message,
  and nobody is there to read the response or to close the transport. One line that is no
  message ends the reader while the child lives on.
\<close>

lemma late_request_hangs:
  assumes "client_run parse launched as c" "\<not> cl_reader c" "cl_writer c = Writing"
    and "client_run parse (begin_request m p c) bs c'" "\<forall>e. WriterTurn (Some e) \<notin> set bs"
    and "length (cl_calls c') \<le> 2 ^ 64"
  shows "ca_slot (cl_calls c' ! length (cl_calls c)) = None"
proof -
  have len: "length (cl_calls c') \<le> U64" "length (cl_calls c) < U64"
    using assms(6) run_length [OF assms(4)] by (simp_all add: U64_def)
  have ok: "calls_ok c" using run_calls_ok [OF assms(1) calls_ok_launched] len by simp
  have "cl_reader (begin_request m p c) = cl_reader c" "cl_writer (begin_request m p c) = cl_writer c"
    by (simp_all add: begin_request_def Let_def split: option.split)
  moreover have "length (cl_calls c) \<in> waiting (begin_request m p c)"
    using calls_ok_begin(2) [OF ok len(2), of m p] by simp
  ultimately have "length (cl_calls c) \<in> waiting c'"
    using run_late [OF assms(4,5) calls_ok_begin(1) [OF ok len(2)] len(1), of "length (cl_calls c)"] assms(2,3)
    by simp
  then show ?thesis by (simp add: waiting_def)
qed

subsection \<open>Requests of the server\<close>

lemma automatic_decodes:
  assumes "automatic_server_request_response request_id method_name now = Some response"
  shows "\<exists>result error. decode_value response = Inr (InResponse request_id result error)"
  using assms
  by (auto simp: automatic_server_request_response_def respond_message_def respond_error_message_def decode_value_def
      parse_rpc_error_def json_int_def split: if_splits)

text \<open>
  A request of the server is handled once. While both tasks live, a line with a request is
  either answered by the client itself, with one message that decodes to a response to this
  request, or handed to the host as one event, and nothing else changes. The approvals and
  questions for the user are never answered by the client.
\<close>

lemma server_request_handled_once:
  assumes "cl_reader c" "cl_events_open c" "cl_writer c \<noteq> Dropped"
    and "decode_line parse line = Inr (InServerRequest request_id method_name params)"
  shows "(\<exists>response result error. decode_value response = Inr (InResponse request_id result error) \<and>
       method_name \<in> {''currentTime/read'', ''account/chatgptAuthTokens/refresh'', ''attestation/generate'',
         ''item/tool/call''} \<and>
       act parse (Line line clock) c = Some (c\<lparr>cl_outbound := cl_outbound c @ [response]\<rparr>)) \<or>
    method_name \<notin> {''currentTime/read'', ''account/chatgptAuthTokens/refresh'', ''attestation/generate'',
         ''item/tool/call''} \<and>
       act parse (Line line clock) c =
         Some (c\<lparr>cl_events := cl_events c @ [ServerRequest request_id method_name params]\<rparr>)"
proof -
  define now where "now = (if method_name = ''currentTime/read'' then current_unix_seconds clock else 0)"
  have own: "automatic_server_request_response request_id method_name now = None \<longleftrightarrow>
    method_name \<notin> {''currentTime/read'', ''account/chatgptAuthTokens/refresh'', ''attestation/generate'', ''item/tool/call''}"
    by (simp add: automatic_server_request_response_def)
  show ?thesis
  proof (cases "automatic_server_request_response request_id method_name now")
    case None
    then show ?thesis
      using assms own by (simp add: receive_line_def on_request_def now_def emit_or_stop_def emit_def Let_def)
  next
    case (Some response)
    have acts: "act parse (Line line clock) c = Some (c\<lparr>cl_outbound := cl_outbound c @ [response]\<rparr>)"
      using assms Some by (simp add: receive_line_def on_request_def now_def queue_def Let_def)
    obtain result error where decodes: "decode_value response = Inr (InResponse request_id result error)"
      using automatic_decodes [OF Some] by blast
    have names: "method_name \<in> {''currentTime/read'', ''account/chatgptAuthTokens/refresh'', ''attestation/generate'',
         ''item/tool/call''}" using own Some by simp
    show ?thesis by (intro disjI1 exI conjI) (rule decodes, rule names, rule acts)
  qed
qed

subsection \<open>Examples\<close>

lemmas step_simps = launched_def begin_request_def send_request_def queue_def emit_def answer_def remove_key_def
  writer_turn_def receive_line_def decode_line_def decode_value_def on_response_def response_result_def
  stream_ended_def stop_def disconnect_def example_parse_def get_at_def returned_def U64_def Let_def split_def

theorem request_answered_by_own_response_witness:
  "\<exists>c. client_run example_parse launched
       [BeginRequest ''ping'' JNull, SendRequest 0, WriterTurn None, Line ''response'' (Inr 0)] c \<and>
     returned (cl_calls c ! 0) = Some (Inr (JBool True)) \<and>
     (\<exists>line clock request_id result error.
        Line line clock \<in> set [BeginRequest ''ping'' JNull, SendRequest 0, WriterTurn None, Line ''response'' (Inr 0)] \<and>
        decode_line example_parse line = Inr (InResponse request_id result error) \<and>
        Inr (JBool True) = response_result result error)"
proof -
  let ?as = "[BeginRequest ''ping'' JNull, SendRequest 0, WriterTurn None, Line ''response'' (Inr 0)]"
  have "map_option (\<lambda>c. (length (cl_calls c), returned (cl_calls c ! 0))) (run_actions example_parse ?as launched) =
      Some (1, Some (Inr (JBool True)))"
    by (simp add: step_simps)
  then obtain c where c: "run_actions example_parse ?as launched = Some c" "length (cl_calls c) = 1"
    "returned (cl_calls c ! 0) = Some (Inr (JBool True))" by auto
  have r: "client_run example_parse launched ?as c" using c(1) by (rule run_actions_run)
  have "length (cl_calls c) \<le> 2 ^ 64" "0 < length (cl_calls c)" using c(2) by simp_all
  from request_answered_by_own_response [OF r this c(3)] r c(3) show ?thesis by blast
qed

theorem stream_end_answers_all_witness:
  "\<exists>c. client_run example_parse launched ([BeginRequest ''ping'' JNull] @ [StreamEnded]) c \<and>
     returned (cl_calls (send_request 0 c) ! 0) \<noteq> None"
proof -
  let ?as = "[BeginRequest ''ping'' JNull] @ [StreamEnded]"
  have "map_option (\<lambda>c. length (cl_calls c)) (run_actions example_parse ?as launched) = Some 1" by (simp add: step_simps)
  then obtain c where c: "run_actions example_parse ?as launched = Some c" "length (cl_calls c) = 1" by auto
  have r: "client_run example_parse launched ?as c" using c(1) by (rule run_actions_run)
  have "length (cl_calls c) \<le> 2 ^ 64" "0 < length (cl_calls c)" using c(2) by simp_all
  with stream_end_answers_all [OF r] r show ?thesis by auto
qed

end
