(* ===== verification/AppServerTypes.thy ===== *)
theory AppServerTypes
  imports AppServerRuns
begin

text \<open>
  The types of the traffic: strings are UTF-8 and objects have no repeated key, in everything
  the client sends and in every event it hands to the host.
\<close>

subsection \<open>Typed values\<close>

definition typed :: "json \<Rightarrow> bool" where
  "typed v \<longleftrightarrow> json_ok v \<and> json_utf8 v"

fun event_typed :: "Event \<Rightarrow> bool" where
  "event_typed (ServerRequest request_id method_name params) = (typed request_id \<and> utf8 method_name \<and> typed params)"
| "event_typed (Notification method_name params) = (utf8 method_name \<and> typed params)"
| "event_typed (UnmatchedResponse request_id result error) =
     (typed request_id \<and> pred_option typed result \<and>
      pred_option (\<lambda>e. utf8 (rpc_message e) \<and> pred_option typed (rpc_data e)) error)"
| "event_typed (Disconnected reason) = utf8 reason"

fun incoming_typed :: "Incoming \<Rightarrow> bool" where
  "incoming_typed (InServerRequest request_id method_name params) = event_typed (ServerRequest request_id method_name params)"
| "incoming_typed (InNotification method_name params) = event_typed (Notification method_name params)"
| "incoming_typed (InResponse request_id result error) = event_typed (UnmatchedResponse request_id result error)"

lemma typed_simps [simp]:
  "typed JNull" "typed (JBool b)" "typed (JNumber n)" "typed (JString s) = utf8 s"
  "typed (JArray xs) = list_all typed xs"
  "typed (JObject kvs) = (distinct (map fst kvs) \<and> list_all (\<lambda>(k, v). utf8 k \<and> typed v) kvs)"
  by (auto simp: typed_def list_all_iff)

lemma typed_member: "typed (JObject kvs) \<Longrightarrow> map_of kvs k = Some v \<Longrightarrow> typed v"
  unfolding typed_simps list_all_iff by (drule map_of_SomeD) fast

lemma typed_member_string: "typed (JObject kvs) \<Longrightarrow> map_of kvs k = Some (JString s) \<Longrightarrow> utf8 s"
  using typed_member [of kvs k "JString s"] by simp

lemma typed_params: "typed (JObject kvs) \<Longrightarrow> typed (unwrap_or (map_of kvs k) JNull)"
  by (cases "map_of kvs k") (simp_all add: typed_member del: typed_simps(6))

lemma as_object_Some: "as_object v = Some kvs \<longleftrightarrow> v = JObject kvs"
  by (cases v) auto

lemma as_str_Some: "as_str v = Some s \<longleftrightarrow> v = JString s"
  by (cases v) auto

lemma and_then_Inr: "and_then x f = Inr v \<longleftrightarrow> (\<exists>a. x = Inr a \<and> f a = Inr v)"
  by (cases x) auto

lemma ok_or_Inr: "ok_or x e = Inr v \<longleftrightarrow> x = Some v"
  by (cases x) auto

lemma parse_rpc_error_typed:
  assumes "parse_rpc_error v = Inr e" "typed v"
  shows "utf8 (rpc_message e) \<and> pred_option typed (rpc_data e)"
proof -
  obtain kvs message where v: "v = JObject kvs" "map_of kvs ''message'' = Some (JString message)"
    "rpc_message e = message" "rpc_data e = map_of kvs ''data''"
    using assms(1) by (auto simp: parse_rpc_error_def and_then_Inr ok_or_Inr as_object_Some bind_eq_Some_conv as_str_Some)
  then show ?thesis
    using assms(2) typed_member [of kvs] typed_member_string [of kvs]
    by (auto simp del: typed_simps simp: pred_option_def)
qed

lemma decode_value_typed:
  assumes "decode_value v = Inr i" "typed v"
  shows "incoming_typed i"
proof -
  obtain kvs where v: "v = JObject kvs"
    using assms(1) by (auto simp: decode_value_def and_then_Inr ok_or_Inr as_object_Some)
  note member = typed_member [OF assms(2) [unfolded v]] typed_params [OF assms(2) [unfolded v]]
  show ?thesis
  proof (cases "map_of kvs ''method''")
    case None
    then obtain request_id error where d: "map_of kvs ''id'' = Some request_id"
      "i = InResponse request_id (map_of kvs ''result'') error"
      "(case map_of kvs ''error'' of None \<Rightarrow> Inr None | Some e \<Rightarrow> and_then (parse_rpc_error e) (\<lambda>r. Inr (Some r))) = Inr error"
      using assms(1) by (auto simp: decode_value_def v and_then_Inr Let_def split: option.splits if_splits)
    have "pred_option (\<lambda>e. utf8 (rpc_message e) \<and> pred_option typed (rpc_data e)) error"
    proof (cases "map_of kvs ''error''")
      case (Some e)
      then show ?thesis
        using d(3) parse_rpc_error_typed [OF _ member(1) [OF Some]] by (auto simp: and_then_Inr)
    qed (use d(3) in simp)
    moreover have "pred_option typed (map_of kvs ''result'')"
      by (cases "map_of kvs ''result''") (use member(1) in auto)
    ultimately show ?thesis using d(1,2) member(1) by simp
  next
    case (Some w)
    then obtain name where w: "map_of kvs ''method'' = Some (JString name)"
      using assms(1) by (cases w) (auto simp: decode_value_def v split: option.splits)
    have "utf8 name" using member(1) [OF w] by simp
    then show ?thesis
      using assms(1) w member by (auto simp: decode_value_def v split: option.splits)
  qed
qed

lemma literal_utf8 [simp]:
  "utf8 ''failed to write to app-server: ''" "utf8 ''failed to read from app-server: ''"
  "utf8 ''app-server writer queue closed''" "utf8 ''app-server closed stdout''"
  "utf8 ''app-server emitted invalid JSON: ''" "utf8 ''invalid app-server message: ''"
  by (rule ascii_utf8, code_simp)+

lemma decode_error_utf8:
  assumes "decode_line parse line = Inl e" "\<And>m. parse line = Inl m \<Longrightarrow> utf8 m"
  shows "utf8 (client_error_message e)"
proof (cases "parse line")
  case (Inl m)
  then have "utf8 (''app-server emitted invalid JSON: '' @ m)" using assms(2) by (intro utf8_append) simp_all
  then show ?thesis using assms(1) Inl by (auto simp: decode_line_def client_error_message_def)
next
  case (Inr v)
  have "e \<in> InvalidMessage ` {''expected an object'', ''error must be an object'', ''error.code must be an integer'',
    ''error.message must be a string'', ''response had neither result nor error'',
    ''expected a request, response, or notification''}"
    using assms(1) Inr
    by (auto simp: decode_line_def decode_value_def parse_rpc_error_def and_then_def ok_or_def Let_def
        split: option.splits sum.splits json.splits if_splits)
  moreover have "list_all utf8 [''expected an object'', ''error must be an object'', ''error.code must be an integer'',
    ''error.message must be a string'', ''response had neither result nor error'',
    ''expected a request, response, or notification'']"
    by (simp add: ascii_utf8 ascii_def in_bytes_def)
  ultimately obtain m where "e = InvalidMessage m" "utf8 m" by auto
  moreover from this have "utf8 (''invalid app-server message: '' @ m)" by (intro utf8_append) simp_all
  ultimately show ?thesis by (simp add: client_error_message_def)
qed

lemma automatic_typed:
  assumes "automatic_server_request_response request_id method_name now = Some response" "typed request_id"
  shows "typed response"
proof -
  have lits: "list_all utf8 [''id'', ''result'', ''error'', ''code'', ''message'', ''currentTimeAt'', ''contentItems'',
     ''type'', ''inputText'', ''text'', ''success'', ''external ChatGPT auth token refresh is not available'',
     ''client attestation is not available'', ''Dynamic tools are not registered by this client.'']"
    by (simp add: ascii_utf8 ascii_def in_bytes_def)
  show ?thesis
    using assms lits
    by (auto simp: automatic_server_request_response_def respond_message_def respond_error_message_def json_int_def
        split: if_splits)
qed

subsection \<open>Typed traffic\<close>

definition traffic_typed :: "ClientState \<Rightarrow> bool" where
  "traffic_typed c \<longleftrightarrow> (\<forall>e \<in> set (cl_events c). event_typed e) \<and>
     (\<forall>v \<in> set (cl_outbound c) \<union> set (cl_written c). typed v) \<and>
     (\<forall>a \<in> set (cl_calls c). pred_option typed (ca_message a))"

text \<open>What the host passes to the client, and the errors of the pipes, are typed.\<close>

fun action_typed :: "client_action \<Rightarrow> bool" where
  "action_typed (BeginRequest method_name params) = (utf8 method_name \<and> typed params)"
| "action_typed (SendMessage v) = typed v"
| "action_typed (WriterTurn failure) = pred_option utf8 failure"
| "action_typed (ReadFailed e) = utf8 e"
| "action_typed a = True"

lemma traffic_typed_cong:
  assumes "traffic_typed c" "cl_events d = cl_events c" "cl_outbound d = cl_outbound c" "cl_written d = cl_written c"
    and "map ca_message (cl_calls d) = map ca_message (cl_calls c)"
  shows "traffic_typed d"
proof -
  have "ca_message ` set (cl_calls d) = ca_message ` set (cl_calls c)" using assms(5) by (metis set_map)
  then show ?thesis using assms(1-4) unfolding traffic_typed_def by (metis (no_types, lifting) imageE imageI)
qed

lemma answer_messages: "map ca_message (cl_calls (answer k r c)) = map ca_message (cl_calls c)"
  by (cases "k < length (cl_calls c)") (simp_all add: answer_def map_update list_update_same_conv list_update_beyond)

lemma traffic_typed_answer: "traffic_typed c \<Longrightarrow> traffic_typed (answer k r c)"
  by (rule traffic_typed_cong) (simp_all add: answer_messages)

lemma traffic_typed_emit: "traffic_typed c \<Longrightarrow> event_typed e \<Longrightarrow> traffic_typed (snd (emit e c))"
  by (auto simp: traffic_typed_def emit_def)

lemma traffic_typed_queue: "traffic_typed c \<Longrightarrow> typed v \<Longrightarrow> traffic_typed (snd (queue v c))"
  by (auto simp: traffic_typed_def queue_def)

lemma traffic_typed_stop: "traffic_typed c \<Longrightarrow> traffic_typed (stop c)"
  by (simp add: traffic_typed_def stop_def)

lemma traffic_typed_emit_or_stop: "traffic_typed c \<Longrightarrow> event_typed e \<Longrightarrow> traffic_typed (emit_or_stop e c)"
  using traffic_typed_emit [of c e] by (auto simp: emit_or_stop_def split_def Let_def traffic_typed_stop)

lemma traffic_typed_pending: "traffic_typed c \<Longrightarrow> traffic_typed (c\<lparr>cl_pending := P\<rparr>)"
  by (simp add: traffic_typed_def)

lemma traffic_typed_disconnect:
  assumes "traffic_typed c" "utf8 reason"
  shows "traffic_typed (disconnect reason c)"
proof -
  have "traffic_typed (fold (\<lambda>k. answer k r) ks d)" if "traffic_typed d" for r ks d
    using that by (induction ks arbitrary: d) (simp_all add: traffic_typed_answer)
  from traffic_typed_emit [OF this [OF traffic_typed_pending [OF assms(1)]], of "Disconnected reason"]
  show ?thesis using assms(2) by (simp add: disconnect_def split_def Let_def traffic_typed_def)
qed

lemma traffic_typed_receive:
  assumes "traffic_typed c" "\<And>m. parse line = Inl m \<Longrightarrow> utf8 m" "\<And>v. parse line = Inr v \<Longrightarrow> typed v"
  shows "traffic_typed (receive_line parse line clock c)"
proof (cases "decode_line parse line")
  case (Inl e)
  then show ?thesis
    using assms decode_error_utf8 [OF Inl]
    by (simp add: receive_line_def traffic_typed_stop traffic_typed_disconnect)
next
  case (Inr i)
  then have i: "incoming_typed i"
    using assms(3) decode_value_typed by (auto simp: decode_line_def split: sum.splits)
  show ?thesis
  proof (cases i)
    case (InResponse request_id result error)
    then show ?thesis
      using assms(1) i
      by (auto simp: receive_line_def Inr on_response_def traffic_typed_answer traffic_typed_pending
          traffic_typed_emit_or_stop split: option.split)
  next
    case (InServerRequest request_id method_name params)
    have "traffic_typed (snd (queue response c))"
      if "automatic_server_request_response request_id method_name now = Some response" for now response
      using automatic_typed [OF that] traffic_typed_queue [OF assms(1)] i InServerRequest by simp
    then show ?thesis
      using assms(1) i
      by (auto simp: receive_line_def Inr InServerRequest on_request_def split_def Let_def traffic_typed_stop
          traffic_typed_disconnect traffic_typed_emit_or_stop split: option.split)
  next
    case (InNotification method_name params)
    then show ?thesis using assms(1) i by (simp add: receive_line_def Inr traffic_typed_emit_or_stop)
  qed
qed

lemma traffic_typed_begin:
  assumes "traffic_typed c" "utf8 method_name" "typed params"
  shows "traffic_typed (begin_request method_name params c)"
proof -
  let ?m = "request_message method_name (cl_next_id c) params"
  have "utf8 ''method''" "utf8 ''id''" "utf8 ''params''" by (simp_all add: ascii_utf8 ascii_def in_bytes_def)
  then have "typed ?m" using assms(2,3) by (simp add: request_message_def)
  then have "traffic_typed (c\<lparr>cl_next_id := i, cl_calls := cl_calls c @
      [\<lparr>ca_id = cl_next_id c, ca_message = Some ?m, ca_slot = None\<rparr>]\<rparr>)" for i
    using assms(1) by (auto simp: traffic_typed_def)
  then show ?thesis
    by (auto simp: begin_request_def Let_def traffic_typed_answer traffic_typed_pending split: option.split)
qed

lemma traffic_typed_send:
  assumes "traffic_typed c"
  shows "traffic_typed (send_request k c)"
proof (cases "Option.bind (get_at (cl_calls c) k) ca_message")
  case (Some message)
  then have k: "k < length (cl_calls c)" "ca_message (cl_calls c ! k) = Some message"
    by (auto simp: bind_eq_Some_conv get_at_Some)
  have "pred_option typed (ca_message (cl_calls c ! k))"
    using assms nth_mem [OF k(1)] unfolding traffic_typed_def by blast
  then have "typed message" by (simp add: k(2))
  then have "traffic_typed (snd (queue message c))" using assms by (rule traffic_typed_queue [rotated])
  then have "traffic_typed (snd (queue message c)\<lparr>cl_calls := (cl_calls c)[k := (cl_calls c ! k)\<lparr>ca_message := None\<rparr>]\<rparr>)"
    using assms by (auto simp: traffic_typed_def dest!: set_update_subset_insert [THEN subsetD])
  then show ?thesis
    by (simp add: send_request_def Some split_def Let_def traffic_typed_answer traffic_typed_pending)
qed (use assms in \<open>simp add: send_request_def\<close>)

lemma traffic_typed_writer:
  assumes "traffic_typed c" "pred_option utf8 failure"
  shows "traffic_typed (writer_turn failure c)"
proof (cases "cl_outbound c")
  case (Cons message messages)
  have rest: "traffic_typed (c\<lparr>cl_outbound := messages\<rparr>)" using assms(1) by (auto simp: traffic_typed_def Cons)
  show ?thesis
  proof (cases failure)
    case None
    then show ?thesis using assms(1) by (auto simp: writer_turn_def traffic_typed_def Cons)
  next
    case (Some e)
    have "utf8 (''failed to write to app-server: '' @ e)" using assms(2) Some by (intro utf8_append) simp_all
    from traffic_typed_disconnect [OF rest this] show ?thesis
      by (simp add: writer_turn_def Cons Some traffic_typed_def)
  qed
qed (use assms in \<open>simp add: writer_turn_def\<close>)

lemma act_traffic_typed:
  assumes "traffic_typed c" "act parse a c = Some c'" "action_typed a"
    and "\<And>line m. parse line = Inl m \<Longrightarrow> utf8 m" "\<And>line v. parse line = Inr v \<Longrightarrow> typed v"
  shows "traffic_typed c'"
proof (cases a)
  case (SendRequest k)
  then show ?thesis using assms(1,2) traffic_typed_send act_send_request [of parse k c c'] by simp
next
  case (SendMessage v)
  then have "c' = snd (queue v c)" using assms(2) by (simp add: send_message_def split_def Let_def)
  then show ?thesis using traffic_typed_queue [OF assms(1)] assms(3) SendMessage by simp
next
  case (WriterTurn failure)
  then show ?thesis using assms(1-3) traffic_typed_writer [of c failure] by (auto split: if_splits)
next
  case (ReadFailed e)
  have "utf8 (''failed to read from app-server: '' @ e)" using assms(3) ReadFailed by (intro utf8_append) simp_all
  then show ?thesis
    using traffic_typed_disconnect [OF assms(1)] assms(2) ReadFailed
    by (auto simp: read_failed_def traffic_typed_stop split: if_splits)
next
  case (Line line clock)
  then show ?thesis using traffic_typed_receive [OF assms(1)] assms(2,4,5) by (auto split: if_splits)
next
  case WriterStop
  then show ?thesis using assms(1,2) by (auto simp: traffic_typed_def split: if_splits)
qed (use assms in \<open>auto simp: traffic_typed_begin stream_ended_def traffic_typed_stop traffic_typed_disconnect
    split: if_splits\<close>)

text \<open>
  The traffic is well typed. When the host passes UTF-8 names and well-formed values, and the
  parser returns such, then in every run everything that is written or queued, and every event
  and reason that the host is handed, consists of UTF-8 strings and objects without repeated
  keys: what the transcript requires of the events it folds.
\<close>

lemma traffic_is_typed:
  assumes "client_run parse launched as c" "\<forall>a \<in> set as. action_typed a"
    and "\<And>line m. parse line = Inl m \<Longrightarrow> utf8 m" "\<And>line v. parse line = Inr v \<Longrightarrow> typed v"
  shows "(\<forall>e \<in> set (cl_events c). event_typed e) \<and> (\<forall>v \<in> set (cl_outbound c) \<union> set (cl_written c). typed v)"
proof -
  have "traffic_typed c"
    using assms(1,2)
  proof (induction rule: client_run.induct)
    case (run_step as c a c')
    then show ?case using act_traffic_typed [OF _ run_step.hyps(2) _ assms(3,4)] by simp
  qed (simp add: launched_def traffic_typed_def)
  then show ?thesis by (simp add: traffic_typed_def)
qed

end
