(* ===== verification/Clock.thy ===== *)
theory Clock
  imports Prelude "HOL-Library.Word"
begin

text \<open>
  The logical clocks of the collaborative buffers (\<open>clock/src/clock.rs\<close>): Lamport timestamps
  and version vectors. Sequence numbers are \<open>u32\<close> and replica identifiers \<open>u16\<close>; increments
  wrap, as in a release build. A version vector is the vector of the sequence numbers observed
  of each replica; the debug assertion of \<open>observe\<close> is not part of the model.
\<close>

unbundle bit_operations_syntax

subsection \<open>Replicas and timestamps\<close>

type_synonym ReplicaId = "16 word"
type_synonym Seq = "32 word"

definition REMOTE_SERVER :: ReplicaId where "REMOTE_SERVER = 1"
definition FIRST_COLLAB_ID :: ReplicaId where "FIRST_COLLAB_ID = 8"

definition is_remote :: "ReplicaId \<Rightarrow> bool" where
  "is_remote r = (r = REMOTE_SERVER \<or> r \<ge> FIRST_COLLAB_ID)"

datatype Lamport = Lamport (lamport_value: Seq) (replica_id: ReplicaId)

text \<open>\<open>Ord for Lamport\<close>: by value, then by replica.\<close>

instantiation Lamport :: linorder
begin

definition less_eq_Lamport :: "Lamport \<Rightarrow> Lamport \<Rightarrow> bool" where
  "less_eq_Lamport a b =
     (lamport_value a < lamport_value b \<or>
      lamport_value a = lamport_value b \<and> replica_id a \<le> replica_id b)"

definition less_Lamport :: "Lamport \<Rightarrow> Lamport \<Rightarrow> bool" where
  "less_Lamport a b =
     (lamport_value a < lamport_value b \<or>
      lamport_value a = lamport_value b \<and> replica_id a < replica_id b)"

instance
  by standard (auto simp: less_eq_Lamport_def less_Lamport_def intro: Lamport.expand)

end

definition lamport_new :: "ReplicaId \<Rightarrow> Lamport" where
  "lamport_new r = Lamport 1 r"

definition lamport_as_u64 :: "Lamport \<Rightarrow> 64 word" where
  "lamport_as_u64 t = push_bit 32 (ucast (lamport_value t)) OR ucast (replica_id t)"

text \<open>The timestamp returned and the clock after it.\<close>

definition tick :: "Lamport \<Rightarrow> Lamport \<times> Lamport" where
  "tick t = (t, Lamport (lamport_value t + 1) (replica_id t))"

definition lamport_observe :: "Lamport \<Rightarrow> Lamport \<Rightarrow> Lamport" where
  "lamport_observe t timestamp =
     Lamport (max (lamport_value t) (lamport_value timestamp) + 1) (replica_id t)"

subsection \<open>Version vectors\<close>

type_synonym Global = "Seq list"

text \<open>\<open>SmallVec::resize\<close> with zeros, to a length not below the present one.\<close>

definition grow :: "nat \<Rightarrow> Global \<Rightarrow> Global" where
  "grow n g = g @ replicate (n - length g) 0"

definition seq_of :: "Global \<Rightarrow> ReplicaId \<Rightarrow> Seq" where
  "seq_of g r = (if unat r < length g then g ! unat r else 0)"

definition observe :: "Global \<Rightarrow> Lamport \<Rightarrow> Global" where
  "observe g timestamp =
     (if lamport_value timestamp > 0 then
        let new_len = unat (replica_id timestamp) + 1;
            g = (if new_len > length g then grow new_len g else g);
            i = unat (replica_id timestamp)
        in g[i := max (g ! i) (lamport_value timestamp)]
      else g)"

text \<open>Updating the elements of \<open>self\<close> that have a counterpart in \<open>other\<close>.\<close>

fun zip_update :: "(Seq \<Rightarrow> Seq \<Rightarrow> Seq) \<Rightarrow> Global \<Rightarrow> Global \<Rightarrow> Global" where
  "zip_update f (l # ls) (r # rs) = f l r # zip_update f ls rs"
| "zip_update f ls rs = ls"

definition join_global :: "Global \<Rightarrow> Global \<Rightarrow> Global" where
  "join_global g other =
     (let g = (if length other > length g then grow (length other) g else g)
      in zip_update max g other)"

definition meet_seq :: "Seq \<Rightarrow> Seq \<Rightarrow> Seq" where
  "meet_seq l r = (if l = 0 then r else if r = 0 then l else min l r)"

text \<open>One past the last index of a nonzero element the loop met.\<close>

fun met_len :: "nat \<Rightarrow> nat \<Rightarrow> Global \<Rightarrow> Global \<Rightarrow> nat" where
  "met_len ix new_len (l # ls) (r # rs) =
     met_len (ix + 1) (if meet_seq l r \<noteq> 0 then ix + 1 else new_len) ls rs"
| "met_len ix new_len ls rs = new_len"

definition meet_global :: "Global \<Rightarrow> Global \<Rightarrow> Global" where
  "meet_global g other =
     (let g = (if length other > length g then grow (length other) g else g);
          new_len = met_len 0 0 g other;
          g' = zip_update meet_seq g other
      in if length other = length g' then take new_len g' else g')"

definition observed :: "Global \<Rightarrow> Lamport \<Rightarrow> bool" where
  "observed g timestamp = (seq_of g (replica_id timestamp) \<ge> lamport_value timestamp)"

definition observed_any :: "Global \<Rightarrow> Global \<Rightarrow> bool" where
  "observed_any g other = list_ex (\<lambda>(l, r). r > 0 \<and> l \<ge> r) (zip g other)"

definition observed_all :: "Global \<Rightarrow> Global \<Rightarrow> bool" where
  "observed_all g other =
     (if length g < length other then False else list_all (\<lambda>(l, r). l \<ge> r) (zip g other))"

definition changed_since :: "Global \<Rightarrow> Global \<Rightarrow> bool" where
  "changed_since g other =
     (length g > length other \<or> list_ex (\<lambda>(l, r). l > r) (zip g other))"

definition global_iter :: "Global \<Rightarrow> Lamport list" where
  "global_iter g = map (\<lambda>(i, s). Lamport s (word_of_nat i)) (enumerate 0 g)"

text \<open>\<open>max_by_key\<close>: the last of the elements with the greatest key.\<close>

fun most_recent_of :: "Lamport list \<Rightarrow> Lamport option" where
  "most_recent_of [] = None"
| "most_recent_of (t # ts) =
     (case most_recent_of ts of
        None \<Rightarrow> Some t
      | Some u \<Rightarrow> if lamport_value u \<ge> lamport_value t then Some u else Some t)"

definition most_recent :: "Global \<Rightarrow> Lamport option" where
  "most_recent g = most_recent_of (global_iter g)"

definition from_iter :: "Lamport list \<Rightarrow> Global" where
  "from_iter ts = foldl observe [] ts"

subsection \<open>Vectors as functions of the position\<close>

definition at :: "Global \<Rightarrow> nat \<Rightarrow> Seq" where
  "at g i = (if i < length g then g ! i else 0)"

lemma seq_of_at: "seq_of g r = at g (unat r)"
  by (simp add: seq_of_def at_def)

lemma at_simps [simp]: "at [] i = 0" "at (x # g) 0 = x" "at (x # g) (Suc i) = at g i"
  by (simp_all add: at_def)

lemma at_grow [simp]: "at (grow n g) i = at g i"
  by (auto simp: at_def grow_def nth_append)

lemma length_grow [simp]: "length (grow n g) = max (length g) n"
  by (simp add: grow_def)

lemma length_zip_update [simp]: "length (zip_update f ls rs) = length ls"
  by (induction f ls rs rule: zip_update.induct) auto

lemma at_zip_update:
  "(\<And>l. f l 0 = l) \<Longrightarrow> length rs \<le> length ls \<Longrightarrow> at (zip_update f ls rs) i = f (at ls i) (at rs i)
     \<or> length ls \<le> i"
proof (induction f ls rs arbitrary: i rule: zip_update.induct)
  case (1 f l ls r rs)
  then show ?case by (cases i) auto
qed auto

lemma at_beyond: "length g \<le> i \<Longrightarrow> at g i = 0"
  by (simp add: at_def)

lemma at_join: "at (join_global g other) i = max (at g i) (at other i)"
proof -
  let ?g = "if length other > length g then grow (length other) g else g"
  have l: "length other \<le> length ?g" by simp
  have "at (zip_update max ?g other) i = max (at ?g i) (at other i) \<or> length ?g \<le> i"
    by (rule at_zip_update [OF _ l]) simp
  then have "at (zip_update max ?g other) i = max (at ?g i) (at other i)"
    using l by (auto simp: at_beyond)
  then show ?thesis by (simp add: join_global_def Let_def split: if_splits)
qed

lemma at_list_update: "r < length g \<Longrightarrow> at (g[r := x]) i = (if i = r then x else at g i)"
  by (auto simp: at_def nth_list_update)

text \<open>Observing writes the maximum into a vector that is long enough.\<close>

lemma observe_cases:
  obtains "lamport_value t = 0" "observe g t = g"
  | g' where "lamport_value t > 0" "\<And>i. at g' i = at g i" "unat (replica_id t) < length g'"
      "length g' = max (length g) (Suc (unat (replica_id t)))"
      "observe g t = g'[unat (replica_id t) := max (at g (unat (replica_id t))) (lamport_value t)]"
proof (cases "lamport_value t > 0")
  case True
  define r where "r = unat (replica_id t)"
  define g' where "g' = (if r + 1 > length g then grow (r + 1) g else g)"
  have g': "at g' i = at g i" "r < length g'" "length g' = max (length g) (Suc r)" for i
    by (auto simp: g'_def)
  have "observe g t = g'[r := max (g' ! r) (lamport_value t)]"
    using True by (simp add: observe_def Let_def g'_def r_def)
  moreover have "g' ! r = at g r" using g'(1) [of r] g'(2) by (simp add: at_def [of g'])
  ultimately have "observe g t = g'[r := max (at g r) (lamport_value t)]" by simp
  then show thesis using that(2) [of g'] True g' unfolding r_def by blast
next
  case False
  then have "lamport_value t = 0" by (simp add: word_not_simps word_gt_0)
  with that(1) show thesis by (simp add: observe_def)
qed

lemma at_observe:
  "at (observe g t) i =
     (if i = unat (replica_id t) then max (at g i) (lamport_value t) else at g i)"
  by (cases rule: observe_cases [of t g]) (auto simp: at_list_update)

subsection \<open>Vectors without trailing zeros\<close>

text \<open>The invariant of every vector built by the operations; equal vectors have equal entries.\<close>

definition clean :: "Global \<Rightarrow> bool" where
  "clean g = (g = [] \<or> last g \<noteq> 0)"

lemma clean_at: "clean g \<longleftrightarrow> g = [] \<or> at g (length g - 1) \<noteq> 0"
  by (cases "g = []") (simp_all add: clean_def at_def last_conv_nth)

lemma clean_length:
  assumes "clean b" "\<And>i. at b i \<le> at a i"
  shows "length b \<le> length a"
proof (rule ccontr)
  assume "\<not> length b \<le> length a"
  then have "b \<noteq> []" "length a \<le> length b - 1" by auto
  then have "at b (length b - 1) \<noteq> 0" "at a (length b - 1) = 0"
    using assms(1) by (auto simp: clean_at at_beyond)
  with assms(2) [of "length b - 1"] show False by simp
qed

lemma clean_eqI:
  assumes "clean a" "clean b" "\<And>i. at a i = at b i"
  shows "a = b"
proof (rule nth_equalityI)
  show l: "length a = length b"
    using clean_length [of a b] clean_length [of b a] assms by (simp add: le_antisym)
  show "a ! i = b ! i" if "i < length a" for i
    using assms(3) [of i] that l by (simp add: at_def)
qed

lemma length_join: "length (join_global g other) = max (length g) (length other)"
  by (simp add: join_global_def Let_def)

lemma clean_join:
  assumes "clean a" "clean b"
  shows "clean (join_global a b)"
proof (cases "length a < length b")
  case True
  then have "at b (length b - 1) \<noteq> 0" using assms(2) by (auto simp: clean_at)
  then show ?thesis using True by (auto simp: clean_at at_join length_join max_def split: if_splits)
next
  case False
  show ?thesis
  proof (cases "a = []")
    case True
    with False show ?thesis using length_join [of a b] by (simp add: clean_def)
  next
    case nonempty: False
    then have "at a (length a - 1) \<noteq> 0" using assms(1) by (auto simp: clean_at)
    then show ?thesis
      using False by (auto simp: clean_at at_join length_join max_def split: if_splits)
  qed
qed

lemma clean_observe: "clean g \<Longrightarrow> clean (observe g t)"
proof (cases rule: observe_cases [of t g])
  case (2 g')
  let ?r = "unat (replica_id t)"
  have pos: "max x (lamport_value t) \<noteq> 0" for x
    using 2(1) by (auto simp: max_def)
  assume g: "clean g"
  show ?thesis
  proof (cases "length g \<le> ?r")
    case True
    then show ?thesis using 2 pos by (simp add: clean_at at_list_update)
  next
    case False
    then have "at g (length g - 1) \<noteq> 0" using g by (auto simp: clean_at)
    then show ?thesis using 2 pos False by (auto simp: clean_at at_list_update max_def)
  qed
qed simp

lemma observed_all_iff:
  assumes "clean other"
  shows "observed_all g other \<longleftrightarrow> (\<forall>i. at other i \<le> at g i)"
proof (cases "length g < length other")
  case True
  then show ?thesis using clean_length [OF assms, of g] by (auto simp: observed_all_def)
next
  case False
  then have "list_all (\<lambda>(l, r). l \<ge> r) (zip g other) \<longleftrightarrow> (\<forall>i < length other. other ! i \<le> g ! i)"
    by (auto simp: list_all_length)
  also have "\<dots> \<longleftrightarrow> (\<forall>i. at other i \<le> at g i)"
    using False by (auto simp: at_def)
  finally show ?thesis using False by (simp add: observed_all_def)
qed

lemma changed_since_iff:
  assumes "clean g"
  shows "changed_since g other \<longleftrightarrow> (\<exists>i. at other i < at g i)"
proof (cases "length g > length other")
  case True
  then have "at g (length g - 1) \<noteq> 0" "at other (length g - 1) = 0"
    using assms by (auto simp: clean_at at_beyond)
  then have "at other (length g - 1) < at g (length g - 1)" by (simp add: word_gt_0)
  with True show ?thesis by (auto simp: changed_since_def)
next
  case False
  then have "list_ex (\<lambda>(l, r). l > r) (zip g other) \<longleftrightarrow> (\<exists>i < length g. other ! i < g ! i)"
    by (auto simp: list_ex_length)
  also have "\<dots> \<longleftrightarrow> (\<exists>i. at other i < at g i)"
    using False by (auto simp: at_def split: if_splits)
  finally show ?thesis using False by (simp add: changed_since_def)
qed

subsection \<open>Meeting two vectors\<close>

lemma meet_seq_zero [simp]: "meet_seq l 0 = l" "meet_seq 0 r = r"
  by (simp_all add: meet_seq_def)

lemma meet_seq_eq_0 [simp]: "meet_seq l r = 0 \<longleftrightarrow> l = 0 \<and> r = 0"
  by (simp add: meet_seq_def min_def)

lemma at_zip_meet:
  assumes "length rs \<le> length ls"
  shows "at (zip_update meet_seq ls rs) i = meet_seq (at ls i) (at rs i)"
  using at_zip_update [of meet_seq rs ls i] assms by (auto simp: at_beyond)

text \<open>The loop's counter is one past the last index that is not zero.\<close>

lemma met_len_spec:
  assumes "length ls = length rs" "new_len \<le> ix"
  defines "n \<equiv> met_len ix new_len ls rs" and "z \<equiv> zip_update meet_seq ls rs"
  shows "n \<le> ix + length ls \<and> (\<forall>i. n \<le> ix + i \<longrightarrow> at z i = 0) \<and>
    (n = new_len \<or> ix < n \<and> at z (n - 1 - ix) \<noteq> 0)"
  unfolding n_def z_def using assms(1,2)
proof (induction ix new_len ls rs rule: met_len.induct)
  case (1 ix new_len l ls r rs)
  let ?k = "if meet_seq l r \<noteq> 0 then ix + 1 else new_len"
  let ?n = "met_len (ix + 1) ?k ls rs" and ?z = "zip_update meet_seq ls rs"
  have IH: "?n \<le> ix + 1 + length ls" "\<And>i. ?n \<le> ix + 1 + i \<Longrightarrow> at ?z i = 0"
    "?n = ?k \<or> ix + 1 < ?n \<and> at ?z (?n - 1 - (ix + 1)) \<noteq> 0"
    using 1 by auto
  have zero: "at (meet_seq l r # ?z) i = 0" if "?n \<le> ix + i" for i
  proof (cases i)
    case 0
    then show ?thesis using that IH(3) by (cases "meet_seq l r = 0") auto
  next
    case (Suc j)
    then show ?thesis using that IH(2) [of j] by simp
  qed
  have last: "?n = new_len \<or> ix < ?n \<and> at (meet_seq l r # ?z) (?n - 1 - ix) \<noteq> 0"
  proof (cases "?n = ?k")
    case True
    then show ?thesis by (cases "meet_seq l r = 0") auto
  next
    case False
    then have "?n - 1 - ix = Suc (?n - 1 - (ix + 1))" using IH(3) by auto
    then show ?thesis using False IH(3) by auto
  qed
  show ?case using IH(1) zero last by simp
qed auto

lemma at_take: "at (take n g) i = (if i < n then at g i else 0)"
  by (auto simp: at_def)

lemma meet_global_cases:
  obtains "length other < length g" "meet_global g other = zip_update meet_seq g other"
  | g' n where "length g \<le> length other" "length g' = length other" "\<And>i. at g' i = at g i"
      "n = met_len 0 0 g' other" "meet_global g other = take n (zip_update meet_seq g' other)"
proof (cases "length other < length g")
  case True
  then show thesis using that(1) by (simp add: meet_global_def Let_def)
next
  case False
  let ?g = "if length other > length g then grow (length other) g else g"
  have "length ?g = length other" "\<And>i. at ?g i = at g i" using False by auto
  then show thesis using False that(2) [of ?g] by (simp add: meet_global_def Let_def)
qed

lemma at_meet: "at (meet_global g other) i = meet_seq (at g i) (at other i)"
proof (cases rule: meet_global_cases [of other g])
  case 1
  then show ?thesis by (simp add: at_zip_meet)
next
  case (2 g' n)
  then have "n \<le> i \<Longrightarrow> at (zip_update meet_seq g' other) i = 0"
    using met_len_spec [of g' other 0 0] by simp
  then show ?thesis using 2 by (auto simp: at_take at_zip_meet)
qed

lemma clean_meet:
  assumes "clean g"
  shows "clean (meet_global g other)"
proof (cases rule: meet_global_cases [of other g])
  case 1
  then have "at g (length g - 1) \<noteq> 0" using assms by (auto simp: clean_at)
  then show ?thesis using 1 by (auto simp: clean_at at_zip_meet)
next
  case (2 g' n)
  let ?z = "zip_update meet_seq g' other"
  have n: "n \<le> length g'" "n = 0 \<or> 0 < n \<and> at ?z (n - 1) \<noteq> 0"
    using met_len_spec [of g' other 0 0] 2 by auto
  then show ?thesis using 2 by (auto simp: clean_at at_take)
qed

subsection \<open>Timestamps as numbers\<close>

lemma lamport_as_u64_add: "lamport_as_u64 t = push_bit 32 (ucast (lamport_value t)) + ucast (replica_id t)"
proof -
  have "push_bit 32 (ucast (lamport_value t)) AND ucast (replica_id t) = (0 :: 64 word)"
    by (rule bit_word_eqI) (auto simp: bit_simps dest: bit_imp_le_length)
  then show ?thesis by (simp add: lamport_as_u64_def disjunctive_add_eq_or)
qed

lemma unat_lamport_as_u64: "unat (lamport_as_u64 t) = unat (lamport_value t) * 2 ^ 32 + unat (replica_id t)"
proof -
  have v: "unat (lamport_value t) < 2 ^ 32" and r: "unat (replica_id t) < 2 ^ 16"
    using unsigned_less [of "lamport_value t", where ?'a = nat]
      unsigned_less [of "replica_id t", where ?'a = nat] by simp_all
  have u: "unat (ucast (lamport_value t) :: 64 word) = unat (lamport_value t)"
    "unat (ucast (replica_id t) :: 64 word) = unat (replica_id t)"
    using v r by (simp_all add: unsigned_ucast_eq take_bit_nat_eq_self)
  moreover have "unat (push_bit 32 (ucast (lamport_value t)) :: 64 word) = unat (lamport_value t) * 2 ^ 32"
    using v u(1) by (simp add: push_bit_eq_mult unat_word_ariths(2))
  ultimately show ?thesis
    using v r by (simp add: lamport_as_u64_add unat_word_ariths(1))
qed

lemma lamport_as_u64_less: "lamport_as_u64 a < lamport_as_u64 b \<longleftrightarrow> a < b"
proof -
  have a: "unat (replica_id a) < 2 ^ 32" and b: "unat (replica_id b) < 2 ^ 32"
    using unsigned_less [of "replica_id a", where ?'a = nat]
      unsigned_less [of "replica_id b", where ?'a = nat] by simp_all
  have "unat (lamport_value a) * 2 ^ 32 + unat (replica_id a)
      < unat (lamport_value b) * 2 ^ 32 + unat (replica_id b) \<longleftrightarrow>
    unat (lamport_value a) < unat (lamport_value b) \<or>
    unat (lamport_value a) = unat (lamport_value b) \<and> unat (replica_id a) < unat (replica_id b)"
    using a b by auto
  then show ?thesis
    by (simp add: word_less_nat_alt unat_lamport_as_u64 less_Lamport_def word_unat_eq_iff)
qed

lemma increment: "x \<noteq> - 1 \<Longrightarrow> x < x + (1 :: 32 word)"
  using unatSuc [of x] by (auto simp: eq_neg_iff_add_eq_0 word_less_nat_alt add.commute)

text \<open>A clock that does not overflow passes every timestamp it has seen.\<close>

lemma advance:
  assumes "lamport_value c \<noteq> - 1" "lamport_value t \<noteq> - 1"
  shows "c < snd (tick c) \<and> c < lamport_observe c t \<and> t < lamport_observe c t"
  using increment [OF assms(1)] increment [OF assms(2)]
  by (auto simp: tick_def lamport_observe_def less_Lamport_def max_def)

subsection \<open>Merging in any order\<close>

text \<open>The contract of a merge: the least upper bound of an order on the valid values.\<close>

locale merge_order =
  fixes valid :: "'a \<Rightarrow> bool" and le :: "'a \<Rightarrow> 'a \<Rightarrow> bool" and merge :: "'a \<Rightarrow> 'a \<Rightarrow> 'a"
  assumes refl: "valid a \<Longrightarrow> le a a"
    and antisym: "valid a \<Longrightarrow> valid b \<Longrightarrow> le a b \<Longrightarrow> le b a \<Longrightarrow> a = b"
    and trans: "valid a \<Longrightarrow> valid b \<Longrightarrow> valid c \<Longrightarrow> le a b \<Longrightarrow> le b c \<Longrightarrow> le a c"
    and merge_valid: "valid a \<Longrightarrow> valid b \<Longrightarrow> valid (merge a b)"
    and merge_least: "valid a \<Longrightarrow> valid b \<Longrightarrow> valid c \<Longrightarrow> le (merge a b) c \<longleftrightarrow> le a c \<and> le b c"
begin

lemma upper:
  assumes "valid a" "valid b"
  shows "le a (merge a b) \<and> le b (merge a b)"
proof -
  have m: "valid (merge a b)" using assms by (rule merge_valid)
  then show ?thesis using merge_least [OF assms m] refl [OF m] by simp
qed

lemma same_bounds:
  assumes "valid a" "valid b" "\<And>c. valid c \<Longrightarrow> le a c \<longleftrightarrow> le b c"
  shows "a = b"
  using assms antisym refl by metis

lemma commute: "valid a \<Longrightarrow> valid b \<Longrightarrow> merge a b = merge b a"
  by (rule same_bounds) (auto simp: merge_valid merge_least)

lemma assoc: "valid a \<Longrightarrow> valid b \<Longrightarrow> valid c \<Longrightarrow> merge (merge a b) c = merge a (merge b c)"
  by (rule same_bounds) (auto simp: merge_valid merge_least)

lemma idem: "valid a \<Longrightarrow> merge a a = a"
  by (rule same_bounds) (auto simp: merge_valid merge_least)

lemma fold_valid: "valid z \<Longrightarrow> \<forall>x \<in> set xs. valid x \<Longrightarrow> valid (foldl merge z xs)"
  by (induction xs arbitrary: z) (auto simp: merge_valid)

lemma fold_least:
  "valid z \<Longrightarrow> \<forall>x \<in> set xs. valid x \<Longrightarrow> valid c \<Longrightarrow>
     le (foldl merge z xs) c \<longleftrightarrow> le z c \<and> (\<forall>x \<in> set xs. le x c)"
  by (induction xs arbitrary: z) (auto simp: merge_valid merge_least)

lemma fold_order_free:
  assumes "valid z" "\<forall>x \<in> set xs. valid x" "set xs = set ys"
  shows "foldl merge z xs = foldl merge z ys"
proof (rule same_bounds)
  have ys: "\<forall>y \<in> set ys. valid y" using assms(2,3) by simp
  show "valid (foldl merge z xs)" "valid (foldl merge z ys)"
    using fold_valid assms(1,2) ys by blast+
  show "le (foldl merge z xs) c \<longleftrightarrow> le (foldl merge z ys) c" if "valid c" for c
    using fold_least [OF assms(1,2) that] fold_least [OF assms(1) ys that] assms(3) by simp
qed

end

interpretation vector: merge_order clean "\<lambda>a b. observed_all b a" join_global
proof
  fix a b c
  show "clean a \<Longrightarrow> observed_all a a" by (simp add: observed_all_iff)
  show "clean a \<Longrightarrow> clean b \<Longrightarrow> observed_all b a \<Longrightarrow> observed_all a b \<Longrightarrow> a = b"
    by (rule clean_eqI) (auto simp: observed_all_iff intro: order.antisym)
  show "clean a \<Longrightarrow> clean b \<Longrightarrow> clean c \<Longrightarrow> observed_all b a \<Longrightarrow> observed_all c b \<Longrightarrow> observed_all c a"
    by (auto simp: observed_all_iff intro: order.trans)
  show "clean a \<Longrightarrow> clean b \<Longrightarrow> clean (join_global a b)" by (rule clean_join)
  show "clean a \<Longrightarrow> clean b \<Longrightarrow> clean c \<Longrightarrow>
      observed_all c (join_global a b) \<longleftrightarrow> observed_all c a \<and> observed_all c b"
    by (auto simp: observed_all_iff clean_join at_join)
qed

subsection \<open>Vectors built from timestamps\<close>

lemma clean_fold_observe: "clean g \<Longrightarrow> clean (foldl observe g ts)"
  by (induction ts arbitrary: g) (auto simp: clean_observe)

lemma at_fold_observe:
  "v \<le> at (foldl observe g ts) i \<longleftrightarrow>
     v \<le> at g i \<or> (\<exists>u \<in> set ts. unat (replica_id u) = i \<and> v \<le> lamport_value u)"
  by (induction ts arbitrary: g) (auto simp: at_observe le_max_iff_disj)

lemma clean_from_iter: "clean (from_iter ts)"
  unfolding from_iter_def by (rule clean_fold_observe) (simp add: clean_def)

lemma at_from_iter:
  "v \<le> at (from_iter ts) i \<longleftrightarrow>
     v = 0 \<or> (\<exists>u \<in> set ts. unat (replica_id u) = i \<and> v \<le> lamport_value u)"
  by (simp add: from_iter_def at_fold_observe)

lemma observed_from_iter:
  "observed (from_iter ts) t \<longleftrightarrow> lamport_value t = 0 \<or>
     (\<exists>u \<in> set ts. replica_id u = replica_id t \<and> lamport_value t \<le> lamport_value u)"
  by (simp add: observed_def seq_of_at at_from_iter word_unat_eq_iff)

lemma observed_all_from_iter:
  "observed_all (from_iter us) (from_iter ts) \<longleftrightarrow> list_all (observed (from_iter us)) ts"
proof -
  have "(\<forall>i. at (from_iter ts) i \<le> at (from_iter us) i) \<longleftrightarrow>
      (\<forall>t \<in> set ts. lamport_value t \<le> at (from_iter us) (unat (replica_id t)))"
  proof (intro iffI ballI allI)
    fix i
    assume all: "\<forall>t \<in> set ts. lamport_value t \<le> at (from_iter us) (unat (replica_id t))"
    consider "at (from_iter ts) i = 0"
      | t where "t \<in> set ts" "unat (replica_id t) = i" "at (from_iter ts) i \<le> lamport_value t"
      using at_from_iter [of "at (from_iter ts) i" ts i] by auto
    then show "at (from_iter ts) i \<le> at (from_iter us) i"
      by cases (use all order.trans in auto)
  next
    fix t
    assume "\<forall>i. at (from_iter ts) i \<le> at (from_iter us) i" "t \<in> set ts"
    moreover from this(2) have "lamport_value t \<le> at (from_iter ts) (unat (replica_id t))"
      by (auto simp: at_from_iter)
    ultimately show "lamport_value t \<le> at (from_iter us) (unat (replica_id t))"
      using order.trans by blast
  qed
  then show ?thesis
    by (simp add: observed_all_iff clean_from_iter list_all_iff observed_def seq_of_at)
qed

lemma changed_since_from_iter:
  "changed_since (from_iter ts) (from_iter us) \<longleftrightarrow> \<not> list_all (observed (from_iter us)) ts"
  unfolding observed_all_from_iter [symmetric]
  by (auto simp: changed_since_iff observed_all_iff clean_from_iter not_le)

lemma from_iter_append: "join_global (from_iter ts) (from_iter us) = from_iter (ts @ us)"
proof (rule clean_eqI)
  show "clean (join_global (from_iter ts) (from_iter us))"
    by (simp add: clean_join clean_from_iter)
  show "clean (from_iter (ts @ us))" by (rule clean_from_iter)
  have same: "v \<le> at (join_global (from_iter ts) (from_iter us)) i \<longleftrightarrow> v \<le> at (from_iter (ts @ us)) i" for v i
    by (auto simp: at_join le_max_iff_disj at_from_iter)
  show "at (join_global (from_iter ts) (from_iter us)) i = at (from_iter (ts @ us)) i" for i
    using same [of "at (join_global (from_iter ts) (from_iter us)) i" i]
      same [of "at (from_iter (ts @ us)) i" i] by (simp add: order.antisym)
qed

text \<open>
  Lamport timestamps pack into 64 bits without losing their order, and a clock whose values
  are below the last \<open>u32\<close> moves past itself when it ticks, and past both itself and the
  timestamp it is shown when it observes one, so later local events order after everything seen.
\<close>

lemma lamport_clock_ok:
  assumes "lamport_value c \<noteq> - 1" "lamport_value t \<noteq> - 1"
  shows "(lamport_as_u64 a < lamport_as_u64 b) = (a < b) \<and> fst (tick c) = c \<and> c < snd (tick c) \<and>
    c < lamport_observe c t \<and> t < lamport_observe c t"
  using advance [OF assms] lamport_as_u64_less [of a b] by (simp add: tick_def)

subsection \<open>Properties\<close>

text \<open>
  The version vector built from a list of timestamps has observed exactly the timestamps
  with value zero or with a later timestamp of the same replica in the list; it has changed
  since another vector exactly when it holds a timestamp the other has not observed, which is
  exactly when the other has not observed all of it; and joining two vectors is building the
  vector of both lists.
\<close>

lemma from_iter_ok:
  "observed (from_iter ts) t = (lamport_value t = 0 \<or>
     (\<exists>u \<in> set ts. replica_id u = replica_id t \<and> lamport_value t \<le> lamport_value u)) \<and>
   changed_since (from_iter ts) (from_iter us) = (\<exists>u \<in> set ts. \<not> observed (from_iter us) u) \<and>
   observed_all (from_iter us) (from_iter ts) = (\<not> changed_since (from_iter ts) (from_iter us)) \<and>
   join_global (from_iter ts) (from_iter us) = from_iter (ts @ us)"
  by (auto simp: observed_from_iter changed_since_from_iter observed_all_from_iter
      from_iter_append list_all_iff)

text \<open>
  Replicas that join the same version vectors, in whatever order and however often each
  arrives, hold the same vector; it has observed all of every one of them, and nothing beyond
  what any vector that also has observed all of them has observed.
\<close>

lemma joins_converge:
  assumes "clean z" "list_all clean xs" "set xs = set ys" "clean c"
  shows "foldl join_global z xs = foldl join_global z ys \<and>
    list_all (observed_all (foldl join_global z xs)) (z # xs) \<and>
    observed_all c (foldl join_global z xs) = list_all (observed_all c) (z # xs)"
proof -
  have xs: "\<forall>x \<in> set xs. clean x" using assms(2) by (simp add: list_all_iff)
  have v: "clean (foldl join_global z xs)" using vector.fold_valid [OF assms(1) xs] .
  show ?thesis
    using vector.fold_order_free [OF assms(1) xs assms(3)] vector.fold_least [OF assms(1) xs assms(4)]
      vector.fold_least [OF assms(1) xs v] vector.refl [OF v]
    by (simp add: list_all_iff)
qed

end
