(* ===== verification/KeyedTree.thy ===== *)
theory KeyedTree
  imports Prelude
begin

text \<open>
  \<open>SumTree::edit\<close> of \<open>sum_tree/src/sum_tree.rs\<close> on the sequence of items a tree holds: a batch of
  insertions and removals by key, applied in one pass of a cursor. The balanced tree behind the
  sequence is not part of the model. An unstable sort is modelled by a stable one; on edits with
  different keys there is no difference.
\<close>

subsection \<open>Editing a sequence by key\<close>

datatype ('a, 'k) item_edit = Insert 'a | Remove 'k

fun edit_key :: "('a \<Rightarrow> 'k) \<Rightarrow> ('a, 'k) item_edit \<Rightarrow> 'k" where
  "edit_key key (Insert item) = key item"
| "edit_key key (Remove k) = k"

text \<open>
  The loop over the sorted edits: the new tree, the buffered insertions, the items from the
  cursor on, and the removed items.
\<close>

fun edit_loop ::
  "('a \<Rightarrow> 'k::linorder) \<Rightarrow> ('a, 'k) item_edit list \<Rightarrow> 'a list \<Rightarrow> 'a list \<Rightarrow> 'a list \<Rightarrow> 'a list \<Rightarrow>
   'a list \<times> 'a list" where
  "edit_loop key [] new_tree buffered rest removed = (new_tree @ buffered @ rest, removed)"
| "edit_loop key (e # es) new_tree buffered rest removed =
     (let new_key = edit_key key e;
          (new_tree, buffered, rest) =
            (if rest \<noteq> [] \<and> key (hd rest) < new_key then
               (new_tree @ buffered @ takeWhile (\<lambda>x. key x < new_key) rest, [],
                dropWhile (\<lambda>x. key x < new_key) rest)
             else (new_tree, buffered, rest));
          (removed, rest) =
            (if rest \<noteq> [] \<and> key (hd rest) = new_key then (removed @ [hd rest], tl rest)
             else (removed, rest));
          buffered = (case e of Insert item \<Rightarrow> buffered @ [item] | Remove _ \<Rightarrow> buffered)
      in edit_loop key es new_tree buffered rest removed)"

definition tree_edit ::
  "('a \<Rightarrow> 'k::linorder) \<Rightarrow> ('a, 'k) item_edit list \<Rightarrow> 'a list \<Rightarrow> 'a list \<times> 'a list" where
  "tree_edit key edits tree =
     (if edits = [] then (tree, [])
      else edit_loop key (sort_key (edit_key key) edits) [] [] tree [])"

subsection \<open>What an edit does\<close>

definition ordered :: "('a \<Rightarrow> 'k::linorder) \<Rightarrow> 'a list \<Rightarrow> bool" where
  "ordered key xs = sorted_wrt (\<lambda>x y. key x < key y) xs"

definition inserted :: "('a, 'k) item_edit list \<Rightarrow> 'a set" where
  "inserted es = {x. Insert x \<in> set es}"

text \<open>The items before the cursor, those after it, and the edits to come, in this order of keys.\<close>

definition in_step :: "('a \<Rightarrow> 'k::linorder) \<Rightarrow> ('a, 'k) item_edit list \<Rightarrow> 'a list \<Rightarrow> 'a list \<Rightarrow> bool" where
  "in_step key es before rest =
     (ordered key (before @ rest) \<and> ordered (edit_key key) es \<and>
      (\<forall>x \<in> set before. \<forall>e \<in> set es. key x < edit_key key e))"

lemma ordered_Nil [simp]: "ordered key []"
  by (simp add: ordered_def)

lemma ordered_Cons [simp]: "ordered key (x # xs) \<longleftrightarrow> (\<forall>y \<in> set xs. key x < key y) \<and> ordered key xs"
  by (simp add: ordered_def)

lemma ordered_append [simp]:
  "ordered key (xs @ ys) \<longleftrightarrow>
     ordered key xs \<and> ordered key ys \<and> (\<forall>x \<in> set xs. \<forall>y \<in> set ys. key x < key y)"
  by (auto simp: ordered_def sorted_wrt_append)

lemma ordered_keys: "ordered key xs \<longleftrightarrow> sorted (map key xs) \<and> distinct (map key xs)"
  using strict_sorted_iff [of "map key xs"] by (simp add: ordered_def sorted_wrt_map)

lemma ordered_inj: "ordered key xs \<Longrightarrow> inj_on key (set xs)"
  by (simp add: ordered_keys distinct_map)

text \<open>Equal contents in order are equal sequences.\<close>

lemma ordered_unique:
  fixes key :: "'a \<Rightarrow> 'k::linorder"
  assumes "ordered key xs" "ordered key ys" "set xs = set ys"
  shows "xs = ys"
proof -
  have inj: "inj_on key (set xs)" using assms(1) by (rule ordered_inj)
  have "map key xs = map key ys"
    using assms unfolding ordered_keys by (intro sorted_distinct_set_unique) simp_all
  then show ?thesis using inj assms(3) by (simp add: inj_on_map_eq_map)
qed

text \<open>Where the cursor stops for a key, and where it goes on after an item with the key.\<close>

abbreviation below :: "('a \<Rightarrow> 'k::linorder) \<Rightarrow> 'k \<Rightarrow> 'a list \<Rightarrow> 'a list" where
  "below key k rest \<equiv> takeWhile (\<lambda>x. key x < k) rest"

definition past :: "('a \<Rightarrow> 'k::linorder) \<Rightarrow> 'k \<Rightarrow> 'a list \<Rightarrow> 'a list" where
  "past key k rest =
     (let stop = dropWhile (\<lambda>x. key x < k) rest
      in if stop \<noteq> [] \<and> key (hd stop) = k then tl stop else stop)"

lemma set_below: "ordered key rest \<Longrightarrow> set (below key k rest) = {x \<in> set rest. key x < k}"
  by (induction rest) auto

lemma past_Cons: "past key k (x # rest) =
    (if key x < k then past key k rest else if key x = k then rest else x # rest)"
  by (simp add: past_def)

lemma ordered_below: "ordered key rest \<Longrightarrow> ordered key (below key k rest)"
  by (induction rest) (auto dest: set_takeWhileD)

lemma set_past: "ordered key rest \<Longrightarrow> set (past key k rest) = {x \<in> set rest. k < key x}"
proof (induction rest)
  case Nil
  show ?case by (simp add: past_def)
next
  case (Cons x rest)
  then show ?case by (auto simp: past_Cons)
qed

lemma ordered_past: "ordered key rest \<Longrightarrow> ordered key (past key k rest)"
proof (induction rest)
  case Nil
  show ?case by (simp add: past_def)
next
  case (Cons x rest)
  then show ?case by (simp add: past_Cons)
qed

lemma ordered_around:
  assumes "ordered key a" "ordered key b" "ordered key i" "ordered key p"
    "\<forall>x \<in> set a. \<forall>y \<in> set b. key x < key y" "\<forall>x \<in> set a. key x < k" "\<forall>x \<in> set b. key x < k"
    "\<forall>x \<in> set i. key x = k" "\<forall>x \<in> set p. k < key x"
  shows "ordered key (a @ b @ i @ p)"
  using assms by (auto intro: less_trans [of _ k])

lemma edit_loop_step:
  obtains new_tree' buffered' removed' where
    "edit_loop key (e # es) new_tree buffered rest removed =
       edit_loop key es new_tree' buffered' (past key (edit_key key e) rest) removed'"
    "new_tree' @ buffered' = new_tree @ buffered @ below key (edit_key key e) rest @
       (case e of Insert item \<Rightarrow> [item] | Remove _ \<Rightarrow> [])"
proof (cases "rest \<noteq> [] \<and> key (hd rest) < edit_key key e")
  case True
  show thesis
    by (rule that [of "new_tree @ buffered @ below key (edit_key key e) rest"
          "case e of Insert item \<Rightarrow> [item] | Remove _ \<Rightarrow> []"
          "if dropWhile (\<lambda>x. key x < edit_key key e) rest \<noteq> [] \<and>
             key (hd (dropWhile (\<lambda>x. key x < edit_key key e) rest)) = edit_key key e
           then removed @ [hd (dropWhile (\<lambda>x. key x < edit_key key e) rest)] else removed"])
      (use True in \<open>auto simp: past_def Let_def split: item_edit.splits\<close>)
next
  case False
  then have same: "below key (edit_key key e) rest = []"
    "dropWhile (\<lambda>x. key x < edit_key key e) rest = rest" by (cases rest; simp)+
  show thesis
    by (rule that [of new_tree "buffered @ (case e of Insert item \<Rightarrow> [item] | Remove _ \<Rightarrow> [])"
          "if rest \<noteq> [] \<and> key (hd rest) = edit_key key e then removed @ [hd rest] else removed"])
      (use False same in \<open>auto simp: past_def Let_def split: item_edit.splits\<close>)
qed

lemma edit_loop_spec:
  assumes "in_step key es (new_tree @ buffered) rest"
  shows "ordered key (fst (edit_loop key es new_tree buffered rest removed)) \<and>
    set (fst (edit_loop key es new_tree buffered rest removed)) =
      set new_tree \<union> set buffered \<union> {x \<in> set rest. key x \<notin> edit_key key ` set es} \<union> inserted es"
  using assms
proof (induction es arbitrary: new_tree buffered rest removed)
  case Nil
  then show ?case by (auto simp: in_step_def inserted_def)
next
  case (Cons e es)
  let ?k = "edit_key key e" and ?i = "case e of Insert item \<Rightarrow> [item] | Remove _ \<Rightarrow> []"
  obtain new_tree' buffered' removed' where step:
      "edit_loop key (e # es) new_tree buffered rest removed =
        edit_loop key es new_tree' buffered' (past key ?k rest) removed'"
    and before: "new_tree' @ buffered' = new_tree @ buffered @ below key ?k rest @ ?i"
    by (rule edit_loop_step)
  have rest: "ordered key rest" using Cons.prems by (simp add: in_step_def)
  note parts = set_below [OF rest] set_past [OF rest] ordered_below [OF rest] ordered_past [OF rest]
  have i: "key x = ?k" if "x \<in> set ?i" for x using that by (cases e) auto
  have "ordered key ?i" by (cases e) auto
  have es: "ordered (edit_key key) es" "\<And>d. d \<in> set es \<Longrightarrow> ?k < edit_key key d"
    and old: "ordered key (new_tree @ buffered)" "\<And>x. x \<in> set (new_tree @ buffered) \<Longrightarrow> key x < ?k"
      "\<And>x y. x \<in> set (new_tree @ buffered) \<Longrightarrow> y \<in> set rest \<Longrightarrow> key x < key y"
    using Cons.prems unfolding in_step_def by auto
  have lt: "key x < ?k" if "x \<in> set (new_tree @ buffered) \<union> set (below key ?k rest)" for x
    using that old(2) by (auto simp: parts)
  have "ordered key ((new_tree @ buffered) @ below key ?k rest @ ?i @ past key ?k rest)"
  proof (rule ordered_around [OF old(1) parts(3) \<open>ordered key ?i\<close> parts(4)])
    show "\<forall>x \<in> set (new_tree @ buffered). \<forall>y \<in> set (below key ?k rest). key x < key y"
      using old(3) unfolding parts(1) by blast
    show "\<forall>x \<in> set (new_tree @ buffered). key x < ?k" using old(2) by blast
    show "\<forall>x \<in> set (below key ?k rest). key x < ?k" unfolding parts(1) by blast
    show "\<forall>x \<in> set ?i. key x = ?k" using i by blast
    show "\<forall>x \<in> set (past key ?k rest). ?k < key x" unfolding parts(2) by blast
  qed
  moreover have "key x < edit_key key d"
    if "x \<in> set (new_tree @ buffered @ below key ?k rest @ ?i)" "d \<in> set es" for x d
  proof -
    have "x \<in> set (new_tree @ buffered) \<union> set (below key ?k rest) \<or> x \<in> set ?i"
      using that(1) unfolding set_append by blast
    then have "key x \<le> ?k" using lt [of x, THEN less_imp_le] i [of x, THEN eq_refl] by blast
    then show ?thesis using es(2) [OF that(2)] by (rule order.strict_trans1)
  qed
  ultimately have "in_step key es (new_tree @ buffered @ below key ?k rest @ ?i) (past key ?k rest)"
    using es(1) unfolding in_step_def by (simp only: append_assoc) blast
  then have IH: "ordered key (fst (edit_loop key es new_tree' buffered' (past key ?k rest) removed'))"
    "set (fst (edit_loop key es new_tree' buffered' (past key ?k rest) removed')) =
      set (new_tree' @ buffered') \<union> {x \<in> set (past key ?k rest). key x \<notin> edit_key key ` set es} \<union> inserted es"
    using Cons.IH [of new_tree' buffered' "past key ?k rest" removed'] unfolding before [symmetric]
    by simp_all
  have "inserted (e # es) = set ?i \<union> inserted es"
    by (cases e) (auto simp: inserted_def)
  moreover have "{x \<in> set rest. key x \<notin> edit_key key ` set (e # es)} =
      set (below key ?k rest) \<union> {x \<in> set (past key ?k rest). key x \<notin> edit_key key ` set es}"
    using Cons.prems by (auto simp: parts in_step_def)
  ultimately show ?case using IH unfolding step before by auto
qed

lemma tree_edit_spec:
  assumes "ordered key tree" "distinct (map (edit_key key) edits)"
  shows "ordered key (fst (tree_edit key edits tree)) \<and>
    set (fst (tree_edit key edits tree)) =
      {x \<in> set tree. key x \<notin> edit_key key ` set edits} \<union> inserted edits"
proof (cases "edits = []")
  case True
  then show ?thesis using assms(1) by (simp add: tree_edit_def inserted_def)
next
  case False
  have "ordered (edit_key key) (sort_key (edit_key key) edits)"
    unfolding ordered_def
    using assms(2) sorted_sort_key [of "edit_key key" edits]
    by (simp add: sorted_wrt_map [symmetric] strict_sorted_iff distinct_map)
  then have "in_step key (sort_key (edit_key key) edits) ([] @ []) tree"
    using assms(1) by (simp add: in_step_def)
  from edit_loop_spec [OF this] show ?thesis
    using False by (simp add: tree_edit_def inserted_def)
qed


lemma tree_inserts:
  assumes "ordered key tree" "distinct (map key xs)"
  shows "ordered key (fst (tree_edit key (map Insert xs) tree)) \<and>
    set (fst (tree_edit key (map Insert xs) tree)) = {x \<in> set tree. key x \<notin> key ` set xs} \<union> set xs"
proof -
  have sets: "inserted (map Insert xs) = set xs" "edit_key key ` set (map Insert xs) = key ` set xs"
    by (auto simp: inserted_def image_image)
  have "distinct (map (edit_key key) (map Insert xs))"
    using assms(2) by (simp add: o_def)
  from tree_edit_spec [OF assms(1) this] show ?thesis unfolding sets .
qed

subsection \<open>Stores of items by key\<close>

text \<open>
  The contract of a store that collects batches of items: what it holds is the union of the
  batches, as long as one key stands for one item, and its state is determined by what it holds.
\<close>

locale keyed_store =
  fixes ok :: "'s \<Rightarrow> bool" and items :: "'s \<Rightarrow> 'a set" and put :: "'s \<Rightarrow> 'b \<Rightarrow> 's"
    and wf :: "'b \<Rightarrow> bool" and adds :: "'b \<Rightarrow> 'a set" and coherent :: "'a set \<Rightarrow> bool"
  assumes put_ok: "ok s \<Longrightarrow> wf b \<Longrightarrow> ok (put s b)"
    and put_items: "ok s \<Longrightarrow> wf b \<Longrightarrow> coherent (items s \<union> adds b) \<Longrightarrow> items (put s b) = items s \<union> adds b"
    and coherent_mono: "coherent S \<Longrightarrow> T \<subseteq> S \<Longrightarrow> coherent T"
    and canonical: "ok s \<Longrightarrow> ok t \<Longrightarrow> items s = items t \<Longrightarrow> s = t"
begin

lemma fold_ok: "ok s \<Longrightarrow> \<forall>b \<in> set bs. wf b \<Longrightarrow> ok (foldl put s bs)"
  by (induction bs arbitrary: s) (auto simp: put_ok)

lemma fold_items:
  "ok s \<Longrightarrow> \<forall>b \<in> set bs. wf b \<Longrightarrow> coherent (items s \<union> \<Union> (adds ` set bs)) \<Longrightarrow>
     items (foldl put s bs) = items s \<union> \<Union> (adds ` set bs)"
proof (induction bs arbitrary: s)
  case (Cons b bs)
  have "coherent (items s \<union> adds b)" by (rule coherent_mono [OF Cons.prems(3)]) auto
  then have "items (put s b) = items s \<union> adds b" using Cons.prems by (simp add: put_items)
  then show ?case
    using Cons.IH [of "put s b"] Cons.prems by (simp add: put_ok Un_assoc)
qed simp

text \<open>The order in which the batches arrive, and how often, does not matter.\<close>

lemma order_free:
  assumes "ok s" "\<forall>b \<in> set bs. wf b" "coherent (items s \<union> \<Union> (adds ` set bs))" "set bs = set cs"
  shows "foldl put s bs = foldl put s cs"
proof (rule canonical)
  have cs: "\<forall>b \<in> set cs. wf b" using assms(2,4) by simp
  show "ok (foldl put s bs)" "ok (foldl put s cs)" using fold_ok assms(1,2) cs by blast+
  show "items (foldl put s bs) = items (foldl put s cs)"
    using fold_items [OF assms(1-3)] fold_items [OF assms(1) cs] assms(3,4) by simp
qed

end

end
