(* ===== verification/Operations.thy ===== *)
theory Operations
  imports Clock KeyedTree "HOL-Library.Product_Lexorder"
begin

text \<open>
  Two stores of the collaborative buffers: the undo counts of edits (\<open>text/src/undo_map.rs\<close>) and the
  queue of operations that wait for others (\<open>text/src/operation_queue.rs\<close>), over the sequence of
  items of their trees. The assertions of the queue's summaries, which an operation with the
  least timestamp would trip, are not part of the model; clocks start at 1.
\<close>

subsection \<open>The undo map\<close>

definition lamport_MIN :: Lamport where "lamport_MIN = Lamport 0 0"

lemma lamport_MIN_le [simp]: "lamport_MIN \<le> t" "\<not> t < lamport_MIN"
  by (auto simp: lamport_MIN_def less_eq_Lamport_def less_Lamport_def word_gt_0)

text \<open>The edit and the operation that undid it, in this order.\<close>

type_synonym UndoMapKey = "Lamport \<times> Lamport"

record UndoMapEntry =
  ue_key :: UndoMapKey
  ue_count :: Seq

text \<open>The counts of an operation are a hash map: a list of pairs with different keys, in any order.\<close>

record UndoOperation =
  uo_timestamp :: Lamport
  uo_version :: Global
  uo_counts :: "(Lamport \<times> Seq) list"

type_synonym UndoMap = "UndoMapEntry list"

definition undo_entries :: "UndoOperation \<Rightarrow> UndoMapEntry list" where
  "undo_entries undo =
     map (\<lambda>(edit_id, count). \<lparr>ue_key = (edit_id, uo_timestamp undo), ue_count = count\<rparr>) (uo_counts undo)"

definition undo_insert :: "UndoMap \<Rightarrow> UndoOperation \<Rightarrow> UndoMap" where
  "undo_insert m undo = fst (tree_edit ue_key (map Insert (undo_entries undo)) m)"

text \<open>The entries the cursor visits from the first key of an edit until the edit changes.\<close>

definition entries_of :: "Lamport \<Rightarrow> UndoMap \<Rightarrow> UndoMapEntry list" where
  "entries_of edit_id m =
     takeWhile (\<lambda>x. fst (ue_key x) = edit_id) (dropWhile (\<lambda>x. ue_key x < (edit_id, lamport_MIN)) m)"

definition undo_count :: "UndoMap \<Rightarrow> Lamport \<Rightarrow> Seq" where
  "undo_count m edit_id = foldl (\<lambda>n x. max n (ue_count x)) 0 (entries_of edit_id m)"

definition is_undone :: "UndoMap \<Rightarrow> Lamport \<Rightarrow> bool" where
  "is_undone m edit_id = (undo_count m edit_id mod 2 = 1)"

definition was_undone :: "UndoMap \<Rightarrow> Lamport \<Rightarrow> Global \<Rightarrow> bool" where
  "was_undone m edit_id version =
     (foldl (\<lambda>n x. if observed version (snd (ue_key x)) then max n (ue_count x) else n) 0
        (entries_of edit_id m) mod 2 = 1)"

subsection \<open>The operation queue\<close>

text \<open>\<open>Vec::dedup_by_key\<close>: of consecutive elements with one key, the first.\<close>

fun dedup_by_key :: "('a \<Rightarrow> 'k) \<Rightarrow> 'a list \<Rightarrow> 'a list" where
  "dedup_by_key key (x # y # ys) =
     (if key x = key y then dedup_by_key key (x # ys) else x # dedup_by_key key (y # ys))"
| "dedup_by_key key xs = xs"

text \<open>The queue over operations with the timestamp \<open>time\<close>; draining leaves an empty one.\<close>

definition queue_insert :: "('op \<Rightarrow> Lamport) \<Rightarrow> 'op list \<Rightarrow> 'op list \<Rightarrow> 'op list" where
  "queue_insert time queue ops =
     (let ops = dedup_by_key time (sort_key time ops)
      in fst (tree_edit time (map Insert ops) queue))"

definition queue_drain :: "'op list \<Rightarrow> 'op list \<times> 'op list" where
  "queue_drain queue = (queue, [])"

subsection \<open>Both are stores by key\<close>

lemma set_entries_of:
  assumes "ordered ue_key m"
  shows "set (entries_of e m) = {x \<in> set m. fst (ue_key x) = e}"
  using assms
proof (induction m)
  case Nil
  show ?case by (simp add: entries_of_def)
next
  case (Cons x m)
  show ?case
  proof (cases "ue_key x < (e, lamport_MIN)")
    case True
    then have "fst (ue_key x) < e" by (auto simp: less_prod_def)
    then show ?thesis using True Cons by (auto simp: entries_of_def)
  next
    case False
    then have x: "e \<le> fst (ue_key x)" by (auto simp: less_prod_def not_less less_le_not_le)
    have after: "fst (ue_key x) \<le> fst (ue_key y)" if "y \<in> set m" for y
      using Cons.prems that by (auto simp: less_prod_def dest!: bspec)
    have rest: "dropWhile (\<lambda>y. ue_key y < (e, lamport_MIN)) m = m"
      using x after by (cases m) (force simp: less_prod_def not_less less_le_not_le)+
    show ?thesis
    proof (cases "fst (ue_key x) = e")
      case True
      then show ?thesis using False Cons rest by (auto simp: entries_of_def)
    next
      case other: False
      then have "e < fst (ue_key x)" using x by simp
      then have "fst (ue_key y) \<noteq> e" if "y \<in> set m" for y using after [OF that] by auto
      then show ?thesis using False other by (auto simp: entries_of_def)
    qed
  qed
qed

lemma override_coherent:
  "inj_on key (A \<union> B) \<Longrightarrow> {x \<in> A. key x \<notin> key ` B} \<union> B = A \<union> B"
  by (auto dest: inj_onD)

lemma undo_entries_keys:
  "distinct (map fst (uo_counts u)) \<Longrightarrow> distinct (map ue_key (undo_entries u))"
proof -
  have "map ue_key (undo_entries u) = map (\<lambda>e. (e, uo_timestamp u)) (map fst (uo_counts u))"
    by (simp add: undo_entries_def case_prod_beta)
  moreover assume "distinct (map fst (uo_counts u))"
  ultimately show ?thesis by (simp only: distinct_map [of _ "map fst (uo_counts u)"]) (simp add: inj_on_def)
qed

interpretation undo: keyed_store "ordered ue_key" set undo_insert
  "\<lambda>u. distinct (map fst (uo_counts u))" "\<lambda>u. set (undo_entries u)" "inj_on ue_key"
proof
  fix m :: UndoMap and u :: UndoOperation and S T :: "UndoMapEntry set"
  assume ok: "ordered ue_key m" "distinct (map fst (uo_counts u))"
  note spec = tree_inserts [OF ok(1) undo_entries_keys [OF ok(2)]]
  show "ordered ue_key (undo_insert m u)" using spec by (simp add: undo_insert_def)
  show "set (undo_insert m u) = set m \<union> set (undo_entries u)"
    if "inj_on ue_key (set m \<union> set (undo_entries u))"
    using spec override_coherent [OF that] by (simp add: undo_insert_def)
qed (auto intro: inj_on_subset ordered_unique)

lemma dedup_keys: "key ` set (dedup_by_key key xs) = key ` set xs"
  by (induction key xs rule: dedup_by_key.induct) auto

lemma dedup_subset: "set (dedup_by_key key xs) \<subseteq> set xs"
  by (induction key xs rule: dedup_by_key.induct) auto

lemma dedup_coherent:
  assumes "inj_on key (set xs)"
  shows "set (dedup_by_key key xs) = set xs"
  using assms dedup_keys [of key xs] dedup_subset [of key xs] by (simp add: inj_on_image_eq_iff)

lemma dedup_ordered: "sorted (map key xs) \<Longrightarrow> ordered key (dedup_by_key key xs)"
proof (induction key xs rule: dedup_by_key.induct)
  case (1 key x y ys)
  have "key x < key z" if "key x \<noteq> key y" "z \<in> set (dedup_by_key key (y # ys))" for z
    using that 1(3) subsetD [OF dedup_subset that(2)] by auto
  with 1 show ?case by auto
qed auto

interpretation queue: keyed_store "ordered time" set "queue_insert time" "\<lambda>_. True" set "inj_on time"
  for time :: "'op \<Rightarrow> Lamport"
proof
  fix q ops :: "'op list"
  assume q: "ordered time q"
  let ?ops = "dedup_by_key time (sort_key time ops)"
  have "distinct (map time ?ops)" using dedup_ordered [of time "sort_key time ops"] by (simp add: ordered_keys)
  note spec = tree_inserts [OF q this]
  show "ordered time (queue_insert time q ops)" using spec by (simp add: queue_insert_def Let_def)
  show "set (queue_insert time q ops) = set q \<union> set ops" if i: "inj_on time (set q \<union> set ops)"
  proof -
    have "inj_on time (set (sort_key time ops))" using i by (auto intro: inj_on_subset)
    then have "set ?ops = set ops" using dedup_coherent by fastforce
    then show ?thesis using spec override_coherent [OF i] by (simp add: queue_insert_def Let_def)
  qed
qed (auto intro: inj_on_subset ordered_unique)

subsection \<open>Counts\<close>

lemma le_fold_count:
  "(n :: Seq) \<le> foldl (\<lambda>k x. if P x then max k (f x) else k) z xs \<longleftrightarrow>
     n \<le> z \<or> (\<exists>x \<in> set xs. P x \<and> n \<le> f x)"
  by (induction xs arbitrary: z) (auto simp: le_max_iff_disj)

lemma same_thresholds: "(\<And>n :: Seq. n \<le> a \<longleftrightarrow> n \<le> b) \<Longrightarrow> a = b"
  by (metis order.antisym order.refl)

lemma le_undo_count:
  assumes "ordered ue_key m"
  shows "n \<le> undo_count m e \<longleftrightarrow> n = 0 \<or> (\<exists>x \<in> set m. fst (ue_key x) = e \<and> n \<le> ue_count x)"
  using le_fold_count [of n "\<lambda>_. True" ue_count 0 "entries_of e m"]
  by (auto simp: undo_count_def set_entries_of [OF assms])

text \<open>The undo map of a list of operations, its entries and its counts.\<close>

abbreviation undo_map :: "UndoOperation list \<Rightarrow> UndoMap" where
  "undo_map us \<equiv> foldl undo_insert [] us"

definition wf_undos :: "UndoOperation list \<Rightarrow> bool" where
  "wf_undos us = (distinct (map uo_timestamp us) \<and> list_all (\<lambda>u. distinct (map fst (uo_counts u))) us)"

lemma undo_entry_iff:
  "x \<in> set (undo_entries u) \<longleftrightarrow>
     (fst (ue_key x), ue_count x) \<in> set (uo_counts u) \<and> snd (ue_key x) = uo_timestamp u"
  by (cases x) (force simp: undo_entries_def)

lemma undo_entries_coherent:
  assumes "wf_undos us"
  shows "inj_on ue_key (\<Union>u \<in> set us. set (undo_entries u))"
proof (rule inj_onI)
  fix x y :: UndoMapEntry
  assume xy: "x \<in> (\<Union>u \<in> set us. set (undo_entries u))" "y \<in> (\<Union>u \<in> set us. set (undo_entries u))"
    and key: "ue_key x = ue_key y"
  then obtain u v where uv: "u \<in> set us" "x \<in> set (undo_entries u)" "v \<in> set us" "y \<in> set (undo_entries v)"
    by blast
  then have "uo_timestamp u = uo_timestamp v" using key by (simp add: undo_entry_iff)
  then have "u = v" using assms uv by (auto simp: wf_undos_def distinct_map dest: inj_onD)
  moreover have "distinct (map ue_key (undo_entries u))"
    using assms uv(1) by (simp add: undo_entries_keys wf_undos_def list_all_iff)
  ultimately show "x = y" using uv key by (auto simp: distinct_map dest: inj_onD)
qed

lemma undo_map_ok:
  assumes "wf_undos us"
  shows "ordered ue_key (undo_map us)" "set (undo_map us) = (\<Union>u \<in> set us. set (undo_entries u))"
proof -
  have wf: "\<forall>u \<in> set us. distinct (map fst (uo_counts u))"
    using assms by (simp add: wf_undos_def list_all_iff)
  show "ordered ue_key (undo_map us)" by (rule undo.fold_ok [OF _ wf]) simp
  show "set (undo_map us) = (\<Union>u \<in> set us. set (undo_entries u))"
    using undo.fold_items [OF _ wf, of "[]"] undo_entries_coherent [OF assms] by simp
qed

lemma wf_undos_filter: "wf_undos us \<Longrightarrow> wf_undos (filter P us)"
  by (auto simp: wf_undos_def list_all_iff distinct_map_filter)

subsection \<open>Properties\<close>

text \<open>
  C39. The undo map does not depend on the order in which undo operations arrive, nor on how
  often each does; the count of an edit is the greatest any operation gives it; and an edit was
  undone as of a version exactly when it is undone by the operations that version has observed.
\<close>

theorem undo_map_converges:
  assumes "wf_undos us" "set us = set vs"
  shows "undo_map us = undo_map vs \<and>
    (n \<le> undo_count (undo_map us) e) =
      (n = 0 \<or> (\<exists>u \<in> set us. \<exists>c. (e, c) \<in> set (uo_counts u) \<and> n \<le> c)) \<and>
    was_undone (undo_map us) e version =
      is_undone (undo_map (filter (\<lambda>u. observed version (uo_timestamp u)) us)) e"
proof -
  let ?seen = "filter (\<lambda>u. observed version (uo_timestamp u)) us"
  have wf: "\<forall>u \<in> set us. distinct (map fst (uo_counts u))"
    using assms(1) by (simp add: wf_undos_def list_all_iff)
  note m = undo_map_ok [OF assms(1)] and seen = undo_map_ok [OF wf_undos_filter [OF assms(1)]]
  have same: "undo_map us = undo_map vs"
    by (rule undo.order_free [OF _ wf _ assms(2)]) (simp_all add: undo_entries_coherent [OF assms(1)])
  have entry: "\<exists>x. x \<in> set (undo_entries u) \<and> fst (ue_key x) = e \<and> ue_count x = c"
    if "(e, c) \<in> set (uo_counts u)" for u c
    using that by (intro exI [of _ "\<lparr>ue_key = (e, uo_timestamp u), ue_count = c\<rparr>"]) (simp add: undo_entry_iff)
  have count: "(n \<le> undo_count (undo_map us) e) =
      (n = 0 \<or> (\<exists>u \<in> set us. \<exists>c. (e, c) \<in> set (uo_counts u) \<and> n \<le> c))"
    unfolding le_undo_count [OF m(1)] m(2) using entry by (fastforce simp: undo_entry_iff)
  have part: "set (undo_map ?seen) = {x \<in> set (undo_map us). observed version (snd (ue_key x))}"
    unfolding m(2) seen(2) by (auto simp: undo_entry_iff)
  have "foldl (\<lambda>k x. if observed version (snd (ue_key x)) then max k (ue_count x) else k) 0
      (entries_of e (undo_map us)) = undo_count (undo_map ?seen) e"
    by (rule same_thresholds)
      (auto simp: le_fold_count le_undo_count [OF seen(1)] set_entries_of [OF m(1)] part)
  then show ?thesis using same count by (simp add: was_undone_def is_undone_def)
qed

theorem undo_map_converges_witness:
  "undo_map [\<lparr>uo_timestamp = Lamport 5 1, uo_version = [], uo_counts = [(Lamport 2 0, 1), (Lamport 3 0, 1)]\<rparr>,
     \<lparr>uo_timestamp = Lamport 6 2, uo_version = [], uo_counts = [(Lamport 2 0, 2)]\<rparr>] =
   undo_map [\<lparr>uo_timestamp = Lamport 6 2, uo_version = [], uo_counts = [(Lamport 2 0, 2)]\<rparr>,
     \<lparr>uo_timestamp = Lamport 5 1, uo_version = [], uo_counts = [(Lamport 2 0, 1), (Lamport 3 0, 1)]\<rparr>] \<and>
   (2 \<le> undo_count (undo_map [\<lparr>uo_timestamp = Lamport 5 1, uo_version = [], uo_counts = [(Lamport 2 0, 1), (Lamport 3 0, 1)]\<rparr>,
     \<lparr>uo_timestamp = Lamport 6 2, uo_version = [], uo_counts = [(Lamport 2 0, 2)]\<rparr>]) (Lamport 2 0)) = True"
proof -
  let ?u = "\<lparr>uo_timestamp = Lamport 5 1, uo_version = [], uo_counts = [(Lamport 2 0, 1), (Lamport 3 0, 1)]\<rparr>"
  let ?v = "\<lparr>uo_timestamp = Lamport 6 2, uo_version = [], uo_counts = [(Lamport 2 0, 2)]\<rparr>"
  have wf: "wf_undos [?u, ?v]" by (simp add: wf_undos_def)
  have "set [?u, ?v] = set [?v, ?u]" by (simp add: insert_commute)
  from undo_map_converges [OF wf this, of 2 "Lamport 2 0" "[]"] show ?thesis
    by (auto intro: exI [of _ 2])
qed

text \<open>
  The queue of waiting operations holds each operation once, in the order of timestamps,
  in whatever batches and order they were inserted.
\<close>

lemma operation_queue_sorted:
  assumes "inj_on time (set (concat batches))"
  shows "foldl (queue_insert time) [] batches = sort_key time (remdups (concat batches)) \<and>
    sorted_wrt (\<lambda>a b. time a < time b) (foldl (queue_insert time) [] batches)"
proof -
  let ?q = "foldl (queue_insert time) [] batches"
  have q: "ordered time ?q" by (rule queue.fold_ok) simp_all
  have s: "set ?q = set (concat batches)"
    using queue.fold_items [of time "[]" batches] assms by simp
  have "ordered time (sort_key time (remdups (concat batches)))"
    using assms by (simp add: ordered_keys distinct_map)
  then show ?thesis using ordered_unique [OF q] s q by (simp add: ordered_def)
qed

end
