(* ===== verification/Locator.thy ===== *)
theory Locator
  imports Prelude "HOL-Library.Word" "HOL-Library.List_Lexorder"
begin

text \<open>
  The identifiers of positions in the fragment list of a buffer (\<open>text/src/locator.rs\<close>): lists of
  64-bit digits in lexicographic order, and the construction of one between two others.
\<close>

subsection \<open>Locators\<close>

type_synonym limb = "64 word"

datatype Locator = Locator (digits: "limb list")

instantiation Locator :: linorder
begin

definition less_eq_Locator :: "Locator \<Rightarrow> Locator \<Rightarrow> bool" where
  "less_eq_Locator a b = (digits a \<le> digits b)"

definition less_Locator :: "Locator \<Rightarrow> Locator \<Rightarrow> bool" where
  "less_Locator a b = (digits a < digits b)"

instance
  by standard (auto simp: less_eq_Locator_def less_Locator_def intro: Locator.expand)

end

definition locator_min :: Locator where "locator_min = Locator [0]"
definition locator_max :: Locator where "locator_max = Locator [- 1]"

definition saturating_sub_u64 :: "limb \<Rightarrow> limb \<Rightarrow> limb" where
  "saturating_sub_u64 a b = (if b \<le> a then a - b else 0)"

definition mid_digit :: "limb \<Rightarrow> limb \<Rightarrow> limb" where
  "mid_digit lhs rhs = lhs + drop_bit 48 (saturating_sub_u64 rhs lhs)"

text \<open>The next element of an iterator chained with a repeated digit.\<close>

definition next_digit :: "limb \<Rightarrow> limb list \<Rightarrow> limb" where
  "next_digit fill xs = (case xs of [] \<Rightarrow> fill | x # _ \<Rightarrow> x)"

lemma next_digit_simps [simp]: "next_digit fill [] = fill" "next_digit fill (x # xs) = x"
  by (simp_all add: next_digit_def)

lemma mid_of_the_ends: "mid_digit 0 (- 1) = 65535"
  by (simp add: mid_digit_def saturating_sub_u64_def drop_bit_minus_one mask_eq_exp_minus_1)

text \<open>The loop of \<open>between\<close>; it ends at the latest where both locators have ended.\<close>

function between_digits :: "limb list \<Rightarrow> limb list \<Rightarrow> limb list" where
  "between_digits ls rs =
     (let lhs = next_digit 0 ls; rhs = next_digit (- 1) rs; mid = mid_digit lhs rhs
      in if mid > lhs then [mid] else mid # between_digits (tl ls) (tl rs))"
  by pat_completeness auto
termination
proof (relation "measure (\<lambda>(ls, rs). length ls + length rs)")
  fix ls rs lhs rhs mid
  assume "lhs = next_digit 0 ls" "rhs = next_digit (- 1) rs" "mid = mid_digit lhs rhs" "\<not> mid > lhs"
  then have "ls \<noteq> [] \<or> rs \<noteq> []" by (auto simp: mid_of_the_ends)
  then show "((tl ls, tl rs), ls, rs) \<in> measure (\<lambda>(ls, rs). length ls + length rs)"
    by (cases ls; cases rs) auto
qed simp

declare between_digits.simps [simp del]

definition between :: "Locator \<Rightarrow> Locator \<Rightarrow> Locator" where
  "between lhs rhs = Locator (between_digits (digits lhs) (digits rhs))"

subsection \<open>Digits\<close>

lemma unat_mid_digit:
  "unat (mid_digit l r) = unat l + (unat r - unat l) div 2 ^ 48"
proof (cases "l \<le> r")
  case True
  then have le: "unat l \<le> unat r" by (simp add: word_le_nat_alt)
  have "unat (drop_bit 48 (r - l)) = (unat r - unat l) div 2 ^ 48"
    using True by (simp add: drop_bit_eq_div unat_div unat_sub)
  moreover have "unat l + (unat r - unat l) div 2 ^ 48 \<le> unat r"
    using le div_le_dividend [of "unat r - unat l" "2 ^ 48"] by linarith
  then have "unat l + (unat r - unat l) div 2 ^ 48 < 2 ^ 64"
    using unsigned_less [of r, where ?'a = nat] by simp
  ultimately show ?thesis
    using True by (simp add: mid_digit_def saturating_sub_u64_def unat_word_ariths(1))
next
  case False
  then show ?thesis by (simp add: mid_digit_def saturating_sub_u64_def word_le_nat_alt)
qed

lemma mid_ge [simp]: "l \<le> mid_digit l r"
  by (simp add: word_le_nat_alt unat_mid_digit)

lemma mid_less: "l < r \<Longrightarrow> mid_digit l r < r"
proof -
  assume "l < r"
  then have "unat l < unat r" by (simp add: word_less_nat_alt)
  moreover from this have "(unat r - unat l) div 2 ^ 48 < unat r - unat l" by simp
  ultimately show ?thesis by (simp add: word_less_nat_alt unat_mid_digit)
qed

lemma mid_fixed: "r \<le> l \<Longrightarrow> mid_digit l r = l"
  by (simp add: word_unat_eq_iff unat_mid_digit word_le_nat_alt)

subsection \<open>Between two locators\<close>

text \<open>
  The locators the buffer makes: the least one, and those that do not end with a zero digit.
\<close>

definition proper :: "Locator \<Rightarrow> bool" where
  "proper a = (a = locator_min \<or> digits a \<noteq> [] \<and> last (digits a) \<noteq> 0)"

lemma between_digits_nonempty [simp]: "between_digits ls rs \<noteq> []"
  by (subst between_digits.simps) (simp add: Let_def)

lemma last_between: "last (between_digits ls rs) \<noteq> 0"
proof (induction ls rs rule: between_digits.induct)
  case (1 ls rs)
  then show ?case
    by (subst between_digits.simps) (auto simp: Let_def)
qed

lemma length_between: "length (between_digits ls rs) \<le> max (length ls) (length rs) + 1"
proof (induction ls rs rule: between_digits.induct)
  case (1 ls rs)
  show ?case
  proof (cases "mid_digit (next_digit 0 ls) (next_digit (- 1) rs) > next_digit 0 ls")
    case True
    then show ?thesis by (subst between_digits.simps) (simp add: Let_def)
  next
    case False
    then have "ls \<noteq> [] \<or> rs \<noteq> []" by (auto simp: mid_of_the_ends)
    then have "max (length (tl ls)) (length (tl rs)) + 1 \<le> max (length ls) (length rs)"
      by (cases ls; cases rs) auto
    with 1 [OF refl refl refl False]
    have "length (between_digits (tl ls) (tl rs)) + 1 \<le> max (length ls) (length rs) + 1"
      by linarith
    then show ?thesis
      using False by (subst between_digits.simps) (simp add: Let_def)
  qed
qed

lemma between_greater: "ls < between_digits ls rs"
proof (induction ls rs rule: between_digits.induct)
  case (1 ls rs)
  show ?case
  proof (cases ls)
    case Nil
    then show ?thesis by (cases "between_digits ls rs") simp_all
  next
    case (Cons l ls')
    have "mid_digit l (next_digit (- 1) rs) = l" if "\<not> mid_digit l (next_digit (- 1) rs) > l"
      using that mid_ge by (simp add: order.antisym not_less)
    then show ?thesis
      using 1 Cons by (subst between_digits.simps) (auto simp: Let_def)
  qed
qed

lemma between_less:
  assumes "ls < rs" "rs = [] \<or> last rs \<noteq> 0"
  shows "between_digits ls rs < rs"
  using assms
proof (induction ls rs rule: between_digits.induct)
  case (1 ls rs)
  obtain r rs' where rs: "rs = r # rs'" using "1.prems"(1) by (cases rs) auto
  let ?l = "next_digit 0 ls" and ?m = "mid_digit (next_digit 0 ls) r"
  have step: "between_digits ls rs = (if ?m > ?l then [?m] else ?m # between_digits (tl ls) rs')"
    by (subst between_digits.simps) (simp add: Let_def rs)
  show ?case
  proof (cases "?l < r")
    case True
    then show ?thesis using step mid_less [OF True] by (simp add: rs)
  next
    case False
    have eq: "?l = r" and tl: "tl ls < rs'"
    proof -
      show "?l = r" using "1.prems" False rs by (cases ls) (auto simp: word_gt_0)
      then show "tl ls < rs'" using "1.prems" rs by (cases ls; cases rs') auto
    qed
    then have "?m = r" by (simp add: mid_fixed)
    have ends: "rs' = [] \<or> last rs' \<noteq> 0" using "1.prems"(2) rs by auto
    have "between_digits (tl ls) rs' < rs'"
      using "1.IH" [OF refl refl refl] eq tl ends \<open>?m = r\<close> by (simp add: rs)
    then show ?thesis using step eq \<open>?m = r\<close> by (simp add: rs)
  qed
qed

lemma between_spec:
  assumes "proper lhs" "proper rhs" "lhs < rhs"
  shows "proper (between lhs rhs) \<and> lhs < between lhs rhs \<and> between lhs rhs < rhs"
proof -
  have "digits lhs < digits rhs" using assms(3) by (simp add: less_Locator_def)
  moreover from this have "rhs \<noteq> locator_min"
    using assms(1) by (cases "digits lhs") (auto simp: proper_def locator_min_def word_gt_0)
  then have "last (digits rhs) \<noteq> 0" using assms(2) by (simp add: proper_def)
  ultimately show ?thesis
    by (simp add: proper_def between_def less_Locator_def between_less between_greater last_between)
qed

subsection \<open>Chains of fragments\<close>

text \<open>
  The identifiers that the loops of \<open>Buffer::new_normalized\<close> and \<open>push_fragments_for_insertion\<close> give
  to the fragments a text is cut into: each between its predecessor and the next fragment.
\<close>

fun chain :: "('a \<Rightarrow> 'a \<Rightarrow> 'a) \<Rightarrow> nat \<Rightarrow> 'a \<Rightarrow> 'a \<Rightarrow> 'a list" where
  "chain mid 0 prev next = []"
| "chain mid (Suc n) prev next = (let id = mid prev next in id # chain mid n id next)"

text \<open>What a fragment list needs of its identifiers: an order in which there is always room.\<close>

locale dense =
  fixes valid :: "'a \<Rightarrow> bool" and less :: "'a \<Rightarrow> 'a \<Rightarrow> bool" and mid :: "'a \<Rightarrow> 'a \<Rightarrow> 'a"
  assumes trans: "less a b \<Longrightarrow> less b c \<Longrightarrow> less a c"
    and room: "valid a \<Longrightarrow> valid b \<Longrightarrow> less a b \<Longrightarrow> valid (mid a b) \<and> less a (mid a b) \<and> less (mid a b) b"
begin

lemma chain_sorted:
  "valid a \<Longrightarrow> valid b \<Longrightarrow> less a b \<Longrightarrow>
     sorted_wrt less (a # chain mid n a b @ [b]) \<and> list_all valid (chain mid n a b)"
proof (induction n arbitrary: a)
  case (Suc n)
  have m: "valid (mid a b)" "less a (mid a b)" "less (mid a b) b" using room Suc.prems by auto
  show ?case
    using Suc.IH [OF m(1) Suc.prems(2) m(3)] m Suc.prems(3) trans [OF m(2)]
    by (auto simp: Let_def)
qed simp

lemma chain_distinct:
  assumes "\<And>a. \<not> less a a" "valid a" "valid b" "less a b"
  shows "distinct (a # chain mid n a b @ [b])"
proof -
  have "sorted_wrt less xs \<Longrightarrow> distinct xs" for xs
    using assms(1) by (induction xs) auto
  then show ?thesis using chain_sorted [OF assms(2-4)] by blast
qed

end

interpretation fragment_ids: dense proper "(<)" between
  by unfold_locales (auto simp: between_spec intro: less_trans)

lemma between_max:
  assumes "2 ^ 48 \<le> unat (- 1 - v :: limb)"
  shows "between (Locator [v]) locator_max = Locator [mid_digit v (- 1)] \<and>
    v < mid_digit v (- 1) \<and> unat (- 1 - v) \<le> unat (- 1 - mid_digit v (- 1)) + 2 ^ 16"
proof -
  have ends: "unat (- 1 :: limb) = 2 ^ 64 - 1"
    by (simp add: unsigned_minus_1_eq_mask mask_eq_exp_minus_1)
  have g: "unat (- 1 - w) = 2 ^ 64 - 1 - unat w" for w :: limb
    by (simp add: ends unat_sub)
  have v: "unat v < 2 ^ 64" using unsigned_less [of v, where ?'a = nat] by simp
  let ?d = "(2 ^ 64 - 1 - unat v) div 2 ^ 48"
  have m: "unat (mid_digit v (- 1)) = unat v + ?d"
    by (simp add: unat_mid_digit ends)
  have "0 < ?d" using assms by (simp add: g div_greater_zero_iff)
  moreover have "?d \<le> 2 ^ 16" by simp
  ultimately have "v < mid_digit v (- 1)" using m by (simp add: word_less_nat_alt)
  moreover have "unat (- 1 - v) \<le> unat (- 1 - mid_digit v (- 1)) + 2 ^ 16"
    unfolding g m by simp
  ultimately show ?thesis
    by (simp add: between_def locator_max_def between_digits.simps [of "[v]"] Let_def)
qed

lemma append_from:
  "n * 2 ^ 16 + 2 ^ 48 \<le> unat (- 1 - v) \<Longrightarrow>
     list_all (\<lambda>a. length (digits a) = 1) (chain between n (Locator [v]) locator_max)"
proof (induction n arbitrary: v)
  case (Suc n)
  let ?m = "mid_digit v (- 1)"
  have step: "between (Locator [v]) locator_max = Locator [?m]" "v < ?m"
      "unat (- 1 - v) \<le> unat (- 1 - ?m) + 2 ^ 16"
    using between_max [of v] Suc.prems by auto
  then have "n * 2 ^ 16 + 2 ^ 48 \<le> unat (- 1 - ?m)" using Suc.prems by simp
  then show ?case
    using Suc.IH [of ?m] step(1) by (simp add: Let_def)
qed simp

text \<open>
  The bound on the last digit cannot be dropped: next to a locator that ends with a zero, what
  \<open>between\<close> builds is not below its upper bound.
\<close>

lemma between_misses_a_zero_ending:
  "Locator [3] < Locator [3, 0] \<and> Locator [3, 0] < between (Locator [3]) (Locator [3, 0])"
proof -
  have "between (Locator [3]) (Locator [3, 0]) = Locator [3, 0, 65535]"
    by code_simp
  then show ?thesis by (simp add: less_Locator_def)
qed

subsection \<open>Properties\<close>

text \<open>
  C40. Between two proper locators in order there is always room: the loop ends, and what it
  builds is proper, lies strictly between the two, and is at most one digit longer than the
  longer of them.
\<close>

theorem between_ok:
  assumes "proper lhs" "proper rhs" "lhs < rhs"
  shows "proper (between lhs rhs) \<and> lhs < between lhs rhs \<and> between lhs rhs < rhs \<and>
    length (digits (between lhs rhs)) \<le> max (length (digits lhs)) (length (digits rhs)) + 1"
  using between_spec [OF assms] by (simp add: between_def length_between [simplified])

theorem between_ok_witness:
  "between (Locator [3]) (Locator [3, 0, 5]) = Locator [3, 0, 0, 65535] \<and>
   Locator [3] < Locator [3, 0, 0, 65535] \<and> Locator [3, 0, 0, 65535] < Locator [3, 0, 5]"
proof -
  have "between (Locator [3]) (Locator [3, 0, 5]) = Locator [3, 0, 0, 65535]"
    by code_simp
  then show ?thesis
    using between_ok [of "Locator [3]" "Locator [3, 0, 5]"]
    by (simp add: proper_def less_Locator_def)
qed

text \<open>
  The fragments that are made one after the other before a next fragment have identifiers
  in strictly increasing order, all proper and between the two ends; up to \<open>2 ^ 47\<close> of them that
  are made at the end of an empty buffer have one digit each.
\<close>

lemma fragment_chain_ok:
  assumes "proper prev" "proper next" "prev < next" "n \<le> 2 ^ 47"
  shows "sorted_wrt (<) (prev # chain between k prev next @ [next]) \<and>
    list_all proper (chain between k prev next) \<and>
    list_all (\<lambda>a. length (digits a) = 1) (chain between n locator_min locator_max)"
proof -
  have "unat (- 1 - 0 :: limb) = 2 ^ 64 - 1"
    by (simp add: unsigned_minus_1_eq_mask mask_eq_exp_minus_1)
  then have "list_all (\<lambda>a. length (digits a) = 1) (chain between n locator_min locator_max)"
    using append_from [of n 0] assms(4) unfolding locator_min_def by simp
  then show ?thesis using fragment_ids.chain_sorted [OF assms(1-3)] by blast
qed

end
