(* ===== verification/Patch.thy ===== *)
theory Patch
  imports Prelude
begin

text \<open>
  Patches between two versions of a text (\<open>text/src/patch.rs\<close>, with the \<open>Edit\<close> of
  \<open>text/src/text.rs\<close>): building one edit by edit, composing two, inverting one, and mapping a
  position through one. Positions are natural numbers, as for the offsets the buffers use; a
  subtraction below zero is the value \<open>None\<close>, where a debug build of the program panics.
\<close>

subsection \<open>Edits\<close>

text \<open>The two ranges of an edit, \<open>old_start..old_end\<close> and \<open>new_start..new_end\<close>.\<close>

record edit =
  old_start :: nat
  old_end :: nat
  new_start :: nat
  new_end :: nat

abbreviation Edit :: "nat \<Rightarrow> nat \<Rightarrow> nat \<Rightarrow> nat \<Rightarrow> edit" where
  "Edit os oe ns ne \<equiv> \<lparr>old_start = os, old_end = oe, new_start = ns, new_end = ne\<rparr>"

type_synonym patch = "edit list"

definition sub_pos :: "nat \<Rightarrow> nat \<Rightarrow> nat option" where
  "sub_pos a b = (if b \<le> a then Some (a - b) else None)"

definition edit_is_empty :: "edit \<Rightarrow> bool" where
  "edit_is_empty e = (old_start e = old_end e \<and> new_start e = new_end e)"

definition old_len :: "edit \<Rightarrow> nat option" where
  "old_len e = sub_pos (old_end e) (old_start e)"

definition new_len :: "edit \<Rightarrow> nat option" where
  "new_len e = sub_pos (new_end e) (new_start e)"

subsection \<open>Building and inverting\<close>

definition invert :: "patch \<Rightarrow> patch" where
  "invert p = map (\<lambda>e. Edit (new_start e) (new_end e) (old_start e) (old_end e)) p"

definition push_maybe_empty :: "patch \<Rightarrow> edit \<Rightarrow> patch" where
  "push_maybe_empty p e =
     (if p = [] then [e]
      else if old_end (last p) \<ge> old_start e then
        butlast p @ [(last p)\<lparr>old_end := old_end e, new_end := new_end e\<rparr>]
      else p @ [e])"

definition push :: "patch \<Rightarrow> edit \<Rightarrow> patch" where
  "push p e = (if edit_is_empty e then p else push_maybe_empty p e)"

subsection \<open>Composition\<close>

text \<open>
  The loop keeps the two iterators with their peeked heads, the positions up to which the result
  is complete, and the result. An edit of either patch that ends before the other's next edit is
  pushed as it is, after the unchanged text before it.
\<close>

definition push_old :: "edit \<Rightarrow> nat \<Rightarrow> nat \<Rightarrow> patch \<Rightarrow> (nat \<times> nat \<times> patch) option" where
  "push_old e old_at new_at composed = do {
     catchup \<leftarrow> sub_pos (old_start e) old_at;
     ol \<leftarrow> old_len e;
     nl \<leftarrow> new_len e;
     let old_at = old_at + catchup; new_at = new_at + catchup;
       old_to = old_at + ol; new_to = new_at + nl
     in Some (old_to, new_to, push composed (Edit old_at old_to new_at new_to)) }"

definition push_new :: "edit \<Rightarrow> nat \<Rightarrow> nat \<Rightarrow> patch \<Rightarrow> (nat \<times> nat \<times> patch) option" where
  "push_new f old_at new_at composed = do {
     catchup \<leftarrow> sub_pos (new_start f) new_at;
     ol \<leftarrow> old_len f;
     nl \<leftarrow> new_len f;
     let old_at = old_at + catchup; new_at = new_at + catchup;
       old_to = old_at + ol; new_to = new_at + nl
     in Some (old_to, new_to, push composed (Edit old_at old_to new_at new_to)) }"

text \<open>Two edits that touch: first the part of the one that starts before the other.\<close>

definition align ::
  "edit \<Rightarrow> edit \<Rightarrow> nat \<Rightarrow> nat \<Rightarrow> patch \<Rightarrow> (edit \<times> edit \<times> nat \<times> nat \<times> patch) option" where
  "align e f old_at new_at composed =
     (if new_start e < old_start f then do {
        catchup \<leftarrow> sub_pos (old_start e) old_at;
        overshoot \<leftarrow> sub_pos (old_start f) (new_start e);
        let old_at = old_at + catchup; new_at = new_at + catchup;
          old_to = min (old_at + overshoot) (old_end e); new_to = new_at + overshoot
        in Some (e\<lparr>old_start := old_to, new_start := new_start e + overshoot\<rparr>, f,
             old_to, new_to, push composed (Edit old_at old_to new_at new_to)) }
      else do {
        catchup \<leftarrow> sub_pos (new_start f) new_at;
        overshoot \<leftarrow> sub_pos (new_start e) (old_start f);
        let old_at = old_at + catchup; new_at = new_at + catchup;
          old_to = old_at + overshoot; new_to = min (new_at + overshoot) (new_end f)
        in Some (e, f\<lparr>old_start := old_start f + overshoot, new_start := new_to\<rparr>,
             old_to, new_to, push composed (Edit old_at old_to new_at new_to)) })"

text \<open>Then their common part: the one that ends first is consumed, the other is shortened.\<close>

definition finish_new :: "edit \<Rightarrow> edit \<Rightarrow> nat \<Rightarrow> nat \<Rightarrow> patch \<Rightarrow> (edit \<times> nat \<times> nat \<times> patch) option" where
  "finish_new e f old_at new_at composed = do {
     ol \<leftarrow> old_len e;
     fol \<leftarrow> old_len f;
     fnl \<leftarrow> new_len f;
     let old_to = old_at + min ol fol; new_to = new_at + fnl
     in Some (e\<lparr>old_start := old_to, new_start := old_end f\<rparr>, old_to, new_to,
          push composed (Edit old_at old_to new_at new_to)) }"

definition finish_old :: "edit \<Rightarrow> edit \<Rightarrow> nat \<Rightarrow> nat \<Rightarrow> patch \<Rightarrow> (edit \<times> nat \<times> nat \<times> patch) option" where
  "finish_old e f old_at new_at composed = do {
     ol \<leftarrow> old_len e;
     nl \<leftarrow> new_len e;
     fnl \<leftarrow> new_len f;
     let old_to = old_at + ol; new_to = new_at + min nl fnl
     in Some (f\<lparr>old_start := new_end e, new_start := new_to\<rparr>, old_to, new_to,
          push composed (Edit old_at old_to new_at new_to)) }"

fun compose_loop :: "patch \<Rightarrow> patch \<Rightarrow> nat \<Rightarrow> nat \<Rightarrow> patch \<Rightarrow> patch option" where
  "compose_loop [] [] old_at new_at composed = Some composed"
| "compose_loop (e # es) [] old_at new_at composed = do {
     (old_at, new_at, composed) \<leftarrow> push_old e old_at new_at composed;
     compose_loop es [] old_at new_at composed }"
| "compose_loop [] (f # fs) old_at new_at composed = do {
     (old_at, new_at, composed) \<leftarrow> push_new f old_at new_at composed;
     compose_loop [] fs old_at new_at composed }"
| "compose_loop (e # es) (f # fs) old_at new_at composed =
     (if new_end e < old_start f then do {
        (old_at, new_at, composed) \<leftarrow> push_old e old_at new_at composed;
        compose_loop es (f # fs) old_at new_at composed }
      else if old_end f < new_start e then do {
        (old_at, new_at, composed) \<leftarrow> push_new f old_at new_at composed;
        compose_loop (e # es) fs old_at new_at composed }
      else do {
        (e, f, old_at, new_at, composed) \<leftarrow> align e f old_at new_at composed;
        if new_end e > old_end f then do {
          (e, old_at, new_at, composed) \<leftarrow> finish_new e f old_at new_at composed;
          compose_loop (e # es) fs old_at new_at composed }
        else do {
          (f, old_at, new_at, composed) \<leftarrow> finish_old e f old_at new_at composed;
          compose_loop es (f # fs) old_at new_at composed } })"

definition compose :: "patch \<Rightarrow> patch \<Rightarrow> patch option" where
  "compose p new_edits = compose_loop p new_edits 0 0 []"

subsection \<open>Mapping a position\<close>

text \<open>
  The binary search by start, on edits whose starts increase: the last edit that starts at or
  before the position, if there is one.
\<close>

definition edit_before :: "patch \<Rightarrow> nat \<Rightarrow> edit option" where
  "edit_before p old =
     (let before = takeWhile (\<lambda>e. old_start e \<le> old) p
      in if before = [] then None else Some (last before))"

definition old_to_new :: "patch \<Rightarrow> nat \<Rightarrow> nat" where
  "old_to_new p old =
     (case edit_before p old of
        None \<Rightarrow> old
      | Some e \<Rightarrow> if old \<ge> old_end e then new_end e + (old - old_end e) else new_start e)"

definition edit_for_old_position :: "patch \<Rightarrow> nat \<Rightarrow> edit" where
  "edit_for_old_position p old =
     (case edit_before p old of
        None \<Rightarrow> Edit old old old old
      | Some e \<Rightarrow>
          if old > old_end e then
            let translated = new_end e + (old - old_end e) in Edit old old translated translated
          else e)"

subsection \<open>What a patch says of two texts\<close>

text \<open>The texts agree from \<open>(o, n)\<close> to \<open>(a, c)\<close>.\<close>

definition kept :: "'a list \<Rightarrow> 'a list \<Rightarrow> nat \<Rightarrow> nat \<Rightarrow> nat \<Rightarrow> nat \<Rightarrow> bool" where
  "kept s t i j a c =
     (i \<le> a \<and> j \<le> c \<and> a - i = c - j \<and> a \<le> length s \<and> c \<le> length t \<and>
      take (a - i) (drop i s) = take (a - i) (drop j t))"

text \<open>The edits lead from \<open>(i, j)\<close> to \<open>(a, c)\<close>, and between them nothing changes.\<close>

fun tiles :: "'a list \<Rightarrow> 'a list \<Rightarrow> nat \<Rightarrow> nat \<Rightarrow> patch \<Rightarrow> nat \<Rightarrow> nat \<Rightarrow> bool" where
  "tiles s t i j [] a c = kept s t i j a c"
| "tiles s t i j (e # es) a c =
     (kept s t i j (old_start e) (new_start e) \<and> old_start e \<le> old_end e \<and>
      new_start e \<le> new_end e \<and> tiles s t (old_end e) (new_end e) es a c)"

definition relates :: "patch \<Rightarrow> 'a list \<Rightarrow> 'a list \<Rightarrow> bool" where
  "relates p s t = tiles s t 0 0 p (length s) (length t)"

text \<open>The assertions of \<open>Patch::new\<close>, and no empty edit.\<close>

definition separated :: "patch \<Rightarrow> bool" where
  "separated p = (successively (\<lambda>e f. old_end e < old_start f \<and> new_end e < new_start f) p \<and>
     list_all (\<lambda>e. \<not> edit_is_empty e) p)"

lemma kept_iff:
  "kept s t i j a c \<longleftrightarrow> i \<le> a \<and> j \<le> c \<and> a - i = c - j \<and> a \<le> length s \<and> c \<le> length t \<and>
     (\<forall>k < a - i. s ! (i + k) = t ! (j + k))"
  by (auto simp: kept_def list_eq_iff_nth_eq)

lemma keptD: "kept s t i j a c \<Longrightarrow> i \<le> a \<and> j \<le> c \<and> a - i = c - j \<and> a \<le> length s \<and> c \<le> length t"
  by (simp add: kept_def)

lemma kept_refl: "i \<le> length s \<Longrightarrow> j \<le> length t \<Longrightarrow> kept s t i j i j"
  by (simp add: kept_def)

lemma kept_split:
  assumes "kept s t i j a c" "k \<le> a - i"
  shows "kept s t i j (i + k) (j + k)" "kept s t (i + k) (j + k) a c"
  using assms by (auto simp: kept_iff add.assoc)

lemma kept_append:
  assumes "kept s t i j k l" "kept s t k l a c"
  shows "kept s t i j a c"
proof -
  have "s ! (i + x) = t ! (j + x)" if "x < a - i" for x
  proof (cases "x < k - i")
    case True
    then show ?thesis using assms by (simp add: kept_iff)
  next
    case False
    define y where "y = x - (k - i)"
    have "i + x = k + y" "j + x = l + y" "y < a - k"
      using keptD [OF assms(1)] keptD [OF assms(2)] False that by (auto simp: y_def)
    then show ?thesis using assms(2) by (simp only: kept_iff)
  qed
  then show ?thesis using assms by (auto simp: kept_iff)
qed

lemma kept_through:
  assumes "kept s t a b a' b'" "kept t u b c b' c'"
  shows "kept s u a c a' c'"
  using assms by (auto simp: kept_iff)

lemma kept_same: "kept s t i j i c \<Longrightarrow> c = j" "kept s t i j a j \<Longrightarrow> a = i"
  by (auto simp: kept_def)

lemma tiles_extend: "tiles s t i j p k l \<Longrightarrow> kept s t k l a c \<Longrightarrow> tiles s t i j p a c"
  by (induction p arbitrary: i j) (auto intro: kept_append)

lemma tiles_snoc:
  "tiles s t i j (p @ [e]) a c \<longleftrightarrow>
     tiles s t i j p (old_start e) (new_start e) \<and> old_start e \<le> old_end e \<and>
     new_start e \<le> new_end e \<and> kept s t (old_end e) (new_end e) a c"
  by (induction p arbitrary: i j) auto

lemma tiles_bounds: "tiles s t i j p a c \<Longrightarrow> i \<le> a \<and> j \<le> c \<and> a \<le> length s \<and> c \<le> length t"
  by (induction p arbitrary: i j) (fastforce simp: kept_def)+

text \<open>A patch followed up to a place before its next edit still leads to the end.\<close>

lemma tiles_advance:
  assumes "tiles s t i j p a c" "i \<le> i'" "if p = [] then i' \<le> a else i' \<le> old_start (hd p)"
  shows "kept s t i j i' (j + (i' - i)) \<and> tiles s t i' (j + (i' - i)) p a c"
  using assms kept_split [of s t i j _ _ "i' - i"] by (cases p) auto

lemma tiles_advance_new:
  assumes "tiles s t i j p a c" "j \<le> j'" "if p = [] then j' \<le> c else j' \<le> new_start (hd p)"
  shows "kept s t i j (i + (j' - j)) j' \<and> tiles s t (i + (j' - j)) j' p a c"
proof -
  have "j' - j \<le> (if p = [] then a else old_start (hd p)) - i"
    using assms by (cases p) (auto simp: kept_def)
  then show ?thesis using assms kept_split [of s t i j _ _ "j' - j"] by (cases p) auto
qed

subsection \<open>Pushing\<close>

definition good :: "'a list \<Rightarrow> 'a list \<Rightarrow> patch \<Rightarrow> nat \<Rightarrow> nat \<Rightarrow> bool" where
  "good s t p a c = (tiles s t 0 0 p a c \<and> separated p)"

lemma push_ok:
  assumes "good s t p os ns" "os \<le> oe" "ns \<le> ne" "oe \<le> length s" "ne \<le> length t"
  shows "good s t (push p (Edit os oe ns ne)) oe ne"
proof (cases "os = oe \<and> ns = ne")
  case True
  then show ?thesis using assms(1) by (simp add: push_def edit_is_empty_def)
next
  case False
  then have step: "push p (Edit os oe ns ne) = push_maybe_empty p (Edit os oe ns ne)"
    by (simp only: push_def edit_is_empty_def edit.select_convs if_False)
  have r: "kept s t oe ne oe ne" using assms by (simp add: kept_refl)
  show ?thesis
  proof (cases p rule: rev_cases)
    case Nil
    then show ?thesis
      unfolding step using assms False r by (simp add: push_maybe_empty_def good_def separated_def edit_is_empty_def)
  next
    case (snoc p' l)
    have t: "tiles s t 0 0 p' (old_start l) (new_start l)" "old_start l \<le> old_end l"
        "new_start l \<le> new_end l" "kept s t (old_end l) (new_end l) os ns" and sep: "separated p"
      using assms(1) snoc by (auto simp: good_def tiles_snoc)
    show ?thesis
    proof (cases "old_end l \<ge> os")
      case True
      then have "old_end l = os" "new_end l = ns" using keptD [OF t(4)] by auto
      then show ?thesis
        unfolding step using True t sep assms(2,3) r False snoc
        by (auto simp: push_maybe_empty_def good_def tiles_snoc separated_def
            successively_append_iff edit_is_empty_def)
    next
      case below: False
      then have "new_end l < ns" using keptD [OF t(4)] by auto
      then show ?thesis
        unfolding step using below t sep assms(2,3) r False snoc
          tiles_snoc [of s t 0 0 "p' @ [l]" "Edit os oe ns ne" oe ne]
        by (auto simp: push_maybe_empty_def good_def tiles_snoc separated_def
            successively_append_iff edit_is_empty_def)
    qed
  qed
qed

text \<open>The result leads to \<open>(a, c)\<close>; from there both patches go on, through one place of the middle text.\<close>

definition midway :: "'a list \<Rightarrow> 'a list \<Rightarrow> 'a list \<Rightarrow> patch \<Rightarrow> patch \<Rightarrow> nat \<Rightarrow> nat \<Rightarrow> patch \<Rightarrow> bool" where
  "midway s t u p q a c r =
     (good s u r a c \<and>
      (\<exists>b. tiles s t a b p (length s) (length t) \<and> tiles t u b c q (length t) (length u)))"

lemma midwayI:
  "good s u r a c \<Longrightarrow> tiles s t a b p (length s) (length t) \<Longrightarrow>
     tiles t u b c q (length t) (length u) \<Longrightarrow> midway s t u p q a c r"
  by (auto simp: midway_def)

lemma good_extend: "good s t p a c \<Longrightarrow> kept s t a c a' c' \<Longrightarrow> good s t p a' c'"
  by (auto simp: good_def intro: tiles_extend)

lemma push_old_ok:
  assumes "midway s t u (e # es) q a c r" "q \<noteq> [] \<Longrightarrow> new_end e \<le> old_start (hd q)"
  shows "\<exists>a' c' r'. push_old e a c r = Some (a', c', r') \<and> midway s t u es q a' c' r'"
proof -
  from assms(1) obtain b where g: "good s u r a c"
    and p: "tiles s t a b (e # es) (length s) (length t)"
    and q: "tiles t u b c q (length t) (length u)" by (auto simp: midway_def)
  from p have k: "kept s t a b (old_start e) (new_start e)" and le: "old_start e \<le> old_end e"
    "new_start e \<le> new_end e" and es: "tiles s t (old_end e) (new_end e) es (length s) (length t)"
    by auto
  have stop: "new_end e \<le> length t" "old_end e \<le> length s" using tiles_bounds [OF es] by auto
  have b: "b \<le> new_start e" and gap: "old_start e - a = new_start e - b" "a \<le> old_start e"
    using keptD [OF k] by auto
  let ?g = "old_start e - a"
  have q1: "kept t u b c (new_start e) (c + ?g) \<and> tiles t u (new_start e) (c + ?g) q (length t) (length u)"
    using tiles_advance [OF q b] assms(2) le stop gap by (cases q) auto
  have q2: "tiles t u (new_end e) (c + ?g + (new_end e - new_start e)) q (length t) (length u)"
    using tiles_advance [of t u "new_start e" "c + ?g" q _ _ "new_end e"] q1 assms(2) le stop by auto
  have g1: "good s u r (old_start e) (c + ?g)"
    using good_extend [OF g] kept_through [OF k] q1 by blast
  let ?c = "c + ?g + (new_end e - new_start e)" and ?r = "push r (Edit (old_start e) (old_end e) (c + ?g) (c + ?g + (new_end e - new_start e)))"
  have "good s u ?r (old_end e) ?c"
    using push_ok [OF g1] le stop tiles_bounds [OF q2] by auto
  moreover have "push_old e a c r = Some (old_end e, ?c, ?r)"
    using gap(2) le by (simp add: push_old_def sub_pos_def old_len_def new_len_def Let_def del: diff_add_assoc)
  ultimately show ?thesis using midwayI [OF _ es q2] by blast
qed

lemma push_new_ok:
  assumes "midway s t u p (f # fs) a c r" "p \<noteq> [] \<Longrightarrow> old_end f \<le> new_start (hd p)"
  shows "\<exists>a' c' r'. push_new f a c r = Some (a', c', r') \<and> midway s t u p fs a' c' r'"
proof -
  from assms(1) obtain b where g: "good s u r a c"
    and q: "tiles t u b c (f # fs) (length t) (length u)"
    and p: "tiles s t a b p (length s) (length t)" by (auto simp: midway_def)
  from q have k: "kept t u b c (old_start f) (new_start f)" and le: "old_start f \<le> old_end f"
    "new_start f \<le> new_end f" and fs: "tiles t u (old_end f) (new_end f) fs (length t) (length u)"
    by auto
  have stop: "new_end f \<le> length u" "old_end f \<le> length t" using tiles_bounds [OF fs] by auto
  have b: "b \<le> old_start f" and gap: "old_start f - b = new_start f - c" "c \<le> new_start f"
    using keptD [OF k] by auto
  let ?g = "new_start f - c"
  have p1: "kept s t a b (a + ?g) (old_start f) \<and> tiles s t (a + ?g) (old_start f) p (length s) (length t)"
    using tiles_advance_new [OF p b] assms(2) le stop gap by (cases p) auto
  have p2: "tiles s t (a + ?g + (old_end f - old_start f)) (old_end f) p (length s) (length t)"
    using tiles_advance_new [of s t "a + ?g" "old_start f" p _ _ "old_end f"] p1 assms(2) le stop by auto
  have g1: "good s u r (a + ?g) (new_start f)"
    using good_extend [OF g] kept_through [OF _ k] p1 by blast
  let ?a = "a + ?g + (old_end f - old_start f)" and ?r = "push r (Edit (a + ?g) (a + ?g + (old_end f - old_start f)) (new_start f) (new_end f))"
  have "good s u ?r ?a (new_end f)"
    using push_ok [OF g1] le stop tiles_bounds [OF p2] by auto
  moreover have "push_new f a c r = Some (?a, new_end f, ?r)"
    using gap(2) le by (simp add: push_new_def sub_pos_def old_len_def new_len_def Let_def del: diff_add_assoc)
  ultimately show ?thesis using midwayI [OF _ p2 fs] by blast
qed

text \<open>After aligning, both edits start where the result ends, at one place of the middle text.\<close>

lemma align_ok:
  assumes "midway s t u (e # es) (f # fs) a c r" "old_start f \<le> new_end e" "new_start e \<le> old_end f"
  shows "\<exists>e' f' a' c' r'. align e f a c r = Some (e', f', a', c', r') \<and>
    midway s t u (e' # es) (f' # fs) a' c' r' \<and> old_start e' = a' \<and> new_start f' = c' \<and>
    new_start e' = old_start f'"
proof -
  from assms(1) obtain b where g: "good s u r a c"
    and p: "tiles s t a b (e # es) (length s) (length t)"
    and q: "tiles t u b c (f # fs) (length t) (length u)" by (auto simp: midway_def)
  from p have kp: "kept s t a b (old_start e) (new_start e)" and lp: "old_start e \<le> old_end e"
    "new_start e \<le> new_end e" and es: "tiles s t (old_end e) (new_end e) es (length s) (length t)"
    by auto
  from q have kq: "kept t u b c (old_start f) (new_start f)" and lq: "old_start f \<le> old_end f"
    "new_start f \<le> new_end f" and fs: "tiles t u (old_end f) (new_end f) fs (length t) (length u)"
    by auto
  have bounds: "old_end e \<le> length s" "new_end e \<le> length t" "old_end f \<le> length t" "new_end f \<le> length u"
    using tiles_bounds [OF es] tiles_bounds [OF fs] by auto
  have ga: "old_start e - a = new_start e - b" "a \<le> old_start e" "b \<le> new_start e"
    "old_start f - b = new_start f - c" "c \<le> new_start f" "b \<le> old_start f"
    using keptD [OF kp] keptD [OF kq] by auto
  show ?thesis
  proof (cases "new_start e < old_start f")
    case True
    let ?c = "c + (old_start e - a)" and ?o = "old_start f - new_start e"
    let ?a = "min (old_start e + ?o) (old_end e)"
    let ?r = "push r (Edit (old_start e) ?a ?c (?c + ?o))"
    have c: "?c + ?o = new_start f" using True ga by linarith
    have "kept t u b c (new_start e) ?c"
      using kept_split(1) [OF kq, of "new_start e - b"] True ga by simp
    then have g1: "good s u r (old_start e) ?c"
      using good_extend [OF g] kept_through [OF kp] by blast
    have "good s u ?r ?a (?c + ?o)"
      by (rule push_ok [OF g1]) (use lp lq bounds c in auto)
    then have "midway s t u (e\<lparr>old_start := ?a, new_start := old_start f\<rparr> # es) (f # fs) ?a (?c + ?o) ?r"
      by (rule midwayI [where b = "old_start f"])
        (use c lp lq es fs assms(2) bounds in \<open>auto intro: kept_refl\<close>)
    moreover have "align e f a c r = Some (e\<lparr>old_start := ?a, new_start := old_start f\<rparr>, f, ?a, ?c + ?o, ?r)"
      using True ga(2) by (simp add: align_def sub_pos_def Let_def)
    ultimately show ?thesis using c by simp
  next
    case False
    let ?a = "a + (new_start f - c)" and ?o = "new_start e - old_start f"
    let ?c = "min (new_start f + ?o) (new_end f)"
    let ?r = "push r (Edit ?a (?a + ?o) (new_start f) ?c)"
    have a: "?a + ?o = old_start e" using False ga by linarith
    have "b + (new_start f - c) = old_start f" "new_start f - c \<le> old_start e - a"
      using False ga by linarith+
    then have "kept s t a b ?a (old_start f)"
      using kept_split(1) [OF kp, of "new_start f - c"] by simp
    then have g1: "good s u r ?a (new_start f)"
      using good_extend [OF g] kept_through [OF _ kq] by blast
    have "good s u ?r (?a + ?o) ?c"
      by (rule push_ok [OF g1]) (use lp lq bounds a in auto)
    then have "midway s t u (e # es) (f\<lparr>old_start := new_start e, new_start := ?c\<rparr> # fs) (?a + ?o) ?c ?r"
      by (rule midwayI [where b = "new_start e"])
        (use a lp lq es fs assms(3) bounds in \<open>auto intro: kept_refl\<close>)
    moreover have "align e f a c r = Some (e, f\<lparr>old_start := new_start e, new_start := ?c\<rparr>, ?a + ?o, ?c, ?r)"
      using False ga(5) by (simp add: align_def sub_pos_def Let_def)
    ultimately show ?thesis using a by simp
  qed
qed

lemma finish_new_ok:
  assumes "midway s t u (e # es) (f # fs) a c r" "old_start e = a" "new_start f = c"
    "new_start e = old_start f" "old_end f < new_end e"
  shows "\<exists>e' a' c' r'. finish_new e f a c r = Some (e', a', c', r') \<and> midway s t u (e' # es) fs a' c' r'"
proof -
  from assms obtain g: "good s u r a c" and lp: "old_start e \<le> old_end e" "new_start e \<le> new_end e"
    and es: "tiles s t (old_end e) (new_end e) es (length s) (length t)"
    and lq: "old_start f \<le> old_end f" "new_start f \<le> new_end f"
    and fs: "tiles t u (old_end f) (new_end f) fs (length t) (length u)"
    by (auto simp: midway_def)
  have bounds: "old_end e \<le> length s" "new_end e \<le> length t" "old_end f \<le> length t" "new_end f \<le> length u"
    using tiles_bounds [OF es] tiles_bounds [OF fs] by auto
  let ?a = "a + min (old_end e - old_start e) (old_end f - old_start f)"
  let ?r = "push r (Edit a ?a c (new_end f))"
  have a: "a \<le> ?a" "?a \<le> old_end e" using assms(2) lp by auto
  have "good s u ?r ?a (new_end f)"
    by (rule push_ok [OF g]) (use assms a lp lq bounds in auto)
  then have "midway s t u (e\<lparr>old_start := ?a, new_start := old_end f\<rparr> # es) fs ?a (new_end f) ?r"
    by (rule midwayI [where b = "old_end f"])
      (use assms a lp lq es fs bounds in \<open>auto intro: kept_refl\<close>)
  moreover have "finish_new e f a c r =
      Some (e\<lparr>old_start := ?a, new_start := old_end f\<rparr>, ?a, new_end f, ?r)"
    using assms(3) lp lq by (simp add: finish_new_def old_len_def new_len_def sub_pos_def Let_def)
  ultimately show ?thesis by blast
qed

lemma finish_old_ok:
  assumes "midway s t u (e # es) (f # fs) a c r" "old_start e = a" "new_start f = c"
    "new_start e = old_start f" "new_end e \<le> old_end f"
  shows "\<exists>f' a' c' r'. finish_old e f a c r = Some (f', a', c', r') \<and> midway s t u es (f' # fs) a' c' r'"
proof -
  from assms obtain g: "good s u r a c" and lp: "old_start e \<le> old_end e" "new_start e \<le> new_end e"
    and es: "tiles s t (old_end e) (new_end e) es (length s) (length t)"
    and lq: "old_start f \<le> old_end f" "new_start f \<le> new_end f"
    and fs: "tiles t u (old_end f) (new_end f) fs (length t) (length u)"
    by (auto simp: midway_def)
  have bounds: "old_end e \<le> length s" "new_end e \<le> length t" "old_end f \<le> length t" "new_end f \<le> length u"
    using tiles_bounds [OF es] tiles_bounds [OF fs] by auto
  let ?c = "c + min (new_end e - new_start e) (new_end f - new_start f)"
  let ?r = "push r (Edit a (old_end e) c ?c)"
  have c: "c \<le> ?c" "?c \<le> new_end f" using assms(3) lq by auto
  have "good s u ?r (old_end e) ?c"
    by (rule push_ok [OF g]) (use assms c lp lq bounds in auto)
  then have "midway s t u es (f\<lparr>old_start := new_end e, new_start := ?c\<rparr> # fs) (old_end e) ?c ?r"
    by (rule midwayI [where b = "new_end e"])
      (use assms c lp lq es fs bounds in \<open>auto intro: kept_refl\<close>)
  moreover have "finish_old e f a c r =
      Some (f\<lparr>old_start := new_end e, new_start := ?c\<rparr>, old_end e, ?c, ?r)"
    using assms(2) lp lq by (simp add: finish_old_def old_len_def new_len_def sub_pos_def Let_def)
  ultimately show ?thesis by blast
qed

lemma compose_loop_ok:
  "midway s t u p q a c r \<Longrightarrow>
     \<exists>r'. compose_loop p q a c r = Some r' \<and> good s u r' (length s) (length u)"
proof (induction p q a c r rule: compose_loop.induct)
  case (1 a c r)
  then have "good s u r (length s) (length u)"
    by (auto simp: midway_def intro: good_extend kept_through)
  then show ?case by simp
next
  case (2 e es a c r)
  from push_old_ok [OF "2.prems"] obtain x where
    "push_old e a c r = Some x" "midway s t u es [] (fst x) (fst (snd x)) (snd (snd x))" by auto
  then show ?case using "2.IH" [of x] by (cases x) auto
next
  case (3 f fs a c r)
  from push_new_ok [OF "3.prems"] obtain x where
    "push_new f a c r = Some x" "midway s t u [] fs (fst x) (fst (snd x)) (snd (snd x))" by auto
  then show ?case using "3.IH" [of x] by (cases x) auto
next
  case (4 e es f fs a c r)
  consider "new_end e < old_start f" | "\<not> new_end e < old_start f" "old_end f < new_start e"
    | "\<not> new_end e < old_start f" "\<not> old_end f < new_start e" by blast
  then show ?case
  proof cases
    case 1
    from push_old_ok [OF "4.prems"] 1 obtain a' c' r' where
      "push_old e a c r = Some (a', c', r')" "midway s t u es (f # fs) a' c' r'" by auto
    then show ?thesis using "4.IH"(1) [OF 1] 1 by auto
  next
    case 2
    from push_new_ok [OF "4.prems"] 2 obtain a' c' r' where
      "push_new f a c r = Some (a', c', r')" "midway s t u (e # es) fs a' c' r'" by auto
    then show ?thesis using "4.IH"(2) [OF 2] 2 by auto
  next
    case 3
    from align_ok [OF "4.prems"] 3 obtain e' f' a' c' r' where
      al: "align e f a c r = Some (e', f', a', c', r')" and m: "midway s t u (e' # es) (f' # fs) a' c' r'"
        "old_start e' = a'" "new_start f' = c'" "new_start e' = old_start f'" by auto
    show ?thesis
    proof (cases "old_end f' < new_end e'")
      case True
      from finish_new_ok [OF m True] obtain e2 a2 c2 r2 where
        fin: "finish_new e' f' a' c' r' = Some (e2, a2, c2, r2)" "midway s t u (e2 # es) fs a2 c2 r2"
        by auto
      from "4.IH"(3) [OF 3 al refl refl refl refl True fin(1) refl refl refl fin(2)]
      show ?thesis using 3 al True fin(1) by simp
    next
      case False
      then have "new_end e' \<le> old_end f'" by simp
      from finish_old_ok [OF m this] obtain f2 a2 c2 r2 where
        fin: "finish_old e' f' a' c' r' = Some (f2, a2, c2, r2)" "midway s t u es (f2 # fs) a2 c2 r2"
        by auto
      from "4.IH"(4) [OF 3 al refl refl refl refl False fin(1) refl refl refl fin(2)]
      show ?thesis using 3 al False fin(1) by simp
    qed
  qed
qed

lemma compose_spec:
  assumes "relates p s t" "relates q t u"
  shows "\<exists>r. compose p q = Some r \<and> relates r s u \<and> separated r"
proof -
  have "good s u [] 0 0" by (simp add: good_def kept_def separated_def)
  then have "midway s t u p q 0 0 []"
    using assms by (auto simp: relates_def intro: midwayI)
  then show ?thesis
    using compose_loop_ok [of s t u p q 0 0 "[]"] by (auto simp: compose_def relates_def good_def)
qed

subsection \<open>Inverting\<close>

lemma kept_sym: "kept s t i j a c = kept t s j i c a"
  by (auto simp: kept_def)

lemma tiles_invert: "tiles t s j i (invert p) c a = tiles s t i j p a c"
  by (induction p arbitrary: i j) (auto simp: invert_def kept_sym [of t])

lemma relates_invert: "relates (invert p) t s = relates p s t"
  by (simp add: relates_def tiles_invert)

subsection \<open>Positions through a patch\<close>

text \<open>
  A position goes to the start of the edit it is in, or keeps its character; the map is monotone
  along the starts of the edits.
\<close>

lemma edit_before_Nil [simp]: "edit_before [] old = None"
  by (simp add: edit_before_def)

lemma edit_before_Cons:
  "edit_before (e # es) old =
     (if old_start e \<le> old then (case edit_before es old of None \<Rightarrow> Some e | Some f \<Rightarrow> Some f) else None)"
  by (simp add: edit_before_def Let_def)

text \<open>Where a patch followed from \<open>(i, j)\<close> takes a position.\<close>

definition through :: "nat \<Rightarrow> nat \<Rightarrow> patch \<Rightarrow> nat \<Rightarrow> nat" where
  "through i j p old =
     (case edit_before p old of
        None \<Rightarrow> j + (old - i)
      | Some e \<Rightarrow> if old \<ge> old_end e then new_end e + (old - old_end e) else new_start e)"

lemma old_to_new_through: "old_to_new p old = through 0 0 p old"
  by (simp add: old_to_new_def through_def split: option.splits)

lemma edit_before_None:
  "tiles s t i j p a c \<Longrightarrow> old < i \<Longrightarrow> edit_before p old = None"
  by (cases p) (auto simp: edit_before_Cons kept_def)

lemma through_Cons:
  assumes "tiles s t i j (e # es) a c"
  shows "through i j (e # es) old =
    (if old < old_start e then j + (old - i)
     else if old < old_end e then new_start e
     else through (old_end e) (new_end e) es old)"
  using assms edit_before_None [of s t "old_end e" "new_end e" es a c old]
  by (auto simp: through_def edit_before_Cons split: option.splits)

lemma kept_nth: "kept s t i j a c \<Longrightarrow> i \<le> old \<Longrightarrow> old < a \<Longrightarrow> s ! old = t ! (j + (old - i))"
  by (auto simp: kept_iff dest!: spec [of _ "old - i"])

lemma through_ok:
  "tiles s t i j p a c \<Longrightarrow> i \<le> old \<Longrightarrow> old \<le> a \<Longrightarrow>
     j \<le> through i j p old \<and> through i j p old \<le> c \<and>
     (list_ex (\<lambda>e. old_start e \<le> old \<and> old < old_end e) p \<or> old = a \<or>
      s ! old = t ! through i j p old)"
proof (induction p arbitrary: i j)
  case Nil
  then show ?case
    using kept_nth [of s t i j a c old] by (cases "old = a") (auto simp: through_def kept_def)
next
  case (Cons e es)
  then have k: "kept s t i j (old_start e) (new_start e)" "old_start e \<le> old_end e"
    "new_start e \<le> new_end e" and es: "tiles s t (old_end e) (new_end e) es a c" by auto
  note bounds = keptD [OF k(1)] tiles_bounds [OF es]
  consider "old < old_start e" | "old_start e \<le> old" "old < old_end e" | "old_end e \<le> old" by linarith
  then show ?case
  proof cases
    case 1
    then show ?thesis
      using kept_nth [OF k(1) Cons.prems(2)] k bounds Cons.prems
      by (auto simp: through_Cons [OF Cons.prems(1)])
  next
    case 2
    then show ?thesis
      using k bounds by (auto simp: through_Cons [OF Cons.prems(1)])
  next
    case 3
    then show ?thesis
      using Cons.IH [OF es 3 Cons.prems(3)] k bounds
      by (auto simp: through_Cons [OF Cons.prems(1)])
  qed
qed

lemma through_mono:
  "tiles s t i j p a c \<Longrightarrow> i \<le> x \<Longrightarrow> x \<le> y \<Longrightarrow> y \<le> a \<Longrightarrow> through i j p x \<le> through i j p y"
proof (induction p arbitrary: i j)
  case Nil
  then show ?case by (simp add: through_def)
next
  case (Cons e es)
  then have k: "kept s t i j (old_start e) (new_start e)" "new_start e \<le> new_end e"
    and es: "tiles s t (old_end e) (new_end e) es a c" by auto
  show ?case
    using keptD [OF k(1)] k(2) Cons.prems through_ok [OF es, of y] Cons.IH [OF es]
    by (auto simp: through_Cons [OF Cons.prems(1)] not_less)
qed

subsection \<open>Properties\<close>

text \<open>
  C29. Composing two patches never subtracts below zero and ends: when the first leads from one
  text to a second and the second from there to a third, the result leads from the first text to
  the third, so outside its edits nothing changes, and its inverse leads back; its edits are not
  empty, in order, and a gap apart on both sides, as \<open>Patch::new\<close> demands.
\<close>

theorem compose_ok:
  assumes "relates p s t" "relates q t u"
  shows "\<exists>r. compose p q = Some r \<and> relates r s u \<and> separated r \<and> relates (invert r) u s"
  using compose_spec [OF assms] by (auto simp: relates_invert)

theorem compose_ok_witness:
  "compose [Edit 1 3 1 4] [Edit 0 0 0 4, Edit 2 5 6 7] = Some [Edit 0 0 0 4, Edit 1 4 5 7] \<and>
   relates [Edit 0 0 0 4, Edit 1 4 5 7] ''abcde'' ''WXYZapqe'' \<and>
   separated [Edit 0 0 0 4, Edit 1 4 5 7]"
proof -
  have r: "compose [Edit 1 3 1 4] [Edit 0 0 0 4, Edit 2 5 6 7] = Some [Edit 0 0 0 4, Edit 1 4 5 7]"
    "relates [Edit 1 3 1 4] ''abcde'' ''apxyde''" "relates [Edit 0 0 0 4, Edit 2 5 6 7] ''apxyde'' ''WXYZapqe''"
    by code_simp+
  then show ?thesis using compose_ok [OF r(2,3)] by simp
qed

text \<open>
  A patch maps the positions of the old text to positions of the new one, in order; a
  position that is in no edit keeps its character.
\<close>

lemma old_to_new_ok:
  assumes "relates p s t" "x \<le> y" "y \<le> length s"
  shows "old_to_new p x \<le> old_to_new p y \<and> old_to_new p y \<le> length t \<and>
    (list_ex (\<lambda>e. old_start e \<le> y \<and> y < old_end e) p \<or> y = length s \<or>
     s ! y = t ! old_to_new p y)"
  using assms through_mono [of s t 0 0 p "length s" "length t" x y]
    through_ok [of s t 0 0 p "length s" "length t" y]
  by (simp add: relates_def old_to_new_through)

end
