(* ===== verification/Subscription.thy ===== *)
theory Subscription
  imports Patch
begin

text \<open>
  Subscriptions to the edits of a buffer (\<open>text/src/subscription.rs\<close>). A topic holds weak
  references to the patches of its subscribers: here the identifiers of the subscribers, in the
  order of the vector, and a store of the patches of those that are still alive.
\<close>

record topic =
  next_id :: nat
  subscribers :: "nat list"
  live :: "nat \<rightharpoonup> patch"

definition subscribe :: "topic \<Rightarrow> nat \<times> topic" where
  "subscribe s =
     (next_id s,
      s\<lparr>next_id := next_id s + 1, subscribers := subscribers s @ [next_id s],
        live := (live s)(next_id s \<mapsto> [])\<rparr>)"

text \<open>Dropping the last strong reference.\<close>

definition unsubscribe :: "nat \<Rightarrow> topic \<Rightarrow> topic" where
  "unsubscribe i s = s\<lparr>live := (live s)(i := None)\<rparr>"




subsection \<open>What a subscriber has yet to see\<close>

text \<open>Every live patch leads from the text its subscriber last saw to the present one.\<close>

definition up_to_date :: "(nat \<Rightarrow> 'a list) \<Rightarrow> 'a list \<Rightarrow> topic \<Rightarrow> bool" where
  "up_to_date seen t s =
     (distinct (subscribers s) \<and> (\<forall>i \<in> set (subscribers s). i < next_id s) \<and>
      dom (live s) \<subseteq> set (subscribers s) \<and>
      (\<forall>i p. live s i = Some p \<longrightarrow> relates p (seen i) t))"

lemma relates_Nil: "relates [] t t"
  by (simp add: relates_def kept_refl kept_def)

lemma subscribe_ok:
  assumes "up_to_date seen t s" "subscribe s = (i, s')"
  shows "up_to_date (seen(i := t)) t s' \<and> live s' i = Some []"
  using assms by (fastforce simp: up_to_date_def subscribe_def relates_Nil)

lemma unsubscribe_ok: "up_to_date seen t s \<Longrightarrow> up_to_date seen t (unsubscribe i s)"
  by (auto simp: up_to_date_def unsubscribe_def)




subsection \<open>Properties\<close>






end
