(* ===== verification/Spec2Isabelle.thy ===== *)
theory Spec2Isabelle
  imports RopeEdit TextEdit Document EventBehaviour Refresh Session EditorTrust EditorRanges RequestRuns RequestSurface TranscriptNavigation StreamingDiff AppServerRequests AppServerTypes Operations Locator Subscription
begin

text \<open>
  A verification development for Codex Harness, a desktop client for the Codex App Server built
  on an editor platform. The client shows the work of an agent as a transcript: it receives
  JSON-RPC notifications and requests over a child process, folds them into a list of typed
  items, projects the items into an editable text document with highlighted spans, keeps a
  bounded journal of the raw events, and caches the items on disk so that a thread that is read
  back from the server does not lose the cards the server no longer reports. That fold and those
  projections are the crate \<open>crates/harness_protocol\<close>, which has no platform dependency and is
  the core of the program; it is modelled nearly in full. The messages come through a client with
  concurrent requests and two tasks over the pipes of the child
  (\<open>crates/codex_app_server_client\<close>). The view of the transcript is an editor
  buffer (\<open>crates/harness_editor\<close>), which is patched in place for the few items that a batch of
  events has changed and built again when that is refused; that update, the validation of what
  may be decorated, search, and the ranges near the viewport are modelled too, down to the calls
  of the editor widget. The application on top (\<open>crates/harness_app\<close>) decides what a server request may
  do and shows the rest as cards; its handling of requests with their surfaces and forms, its cards
  of outputs and diffs, and its search and movement through the transcript are modelled.
  Of the editor platform the development has the ropes that hold the texts of buffers
  (\<open>crates/rope\<close>), the diff against a text that is still arriving (\<open>crates/streaming_diff\<close>), and
  the pieces of the collaborative buffers that have a contract of their own: the logical clocks, the
  fragment locators, the edit patches and their subscriptions, the undo map and the operation queue.

  \<^bold>\<open>Parts and theories.\<close> Every operation is a definition with the name the source gives it.

  \<^item> \<open>Prelude\<close>, \<open>RustStr\<close>, \<open>StrOps\<close>: index searches and option operations; strings as byte lists
    with UTF-8 well-formedness, character boundaries and slices that are \<open>None\<close> where Rust
    panics; the standard methods on strings that the program calls.
  \<^item> \<open>TextEdit\<close>: \<open>minimal_text_edit\<close> and \<open>find_wrapped_match\<close>.
  \<^item> \<open>Json\<close>, \<open>Items\<close>: JSON values with the accessors of \<open>serde_json\<close>, the services from outside the
    repository (record \<open>host\<close>), and transcript items with \<open>command_transcript\<close>.
  \<^item> \<open>SemanticSpans\<close>, \<open>Projection\<close>, \<open>Document\<close>: the text of an item and its spans
    (\<open>selectable_markdown_text\<close>, \<open>selectable_transcript_body\<close>, \<open>project_transcript_item\<close>), and the
    document of a range of items (\<open>document_range\<close>, \<open>document_window\<close>).
  \<^item> \<open>TextUtil\<close>, \<open>Requests\<close>, \<open>ProtocolItems\<close>: identifiers, redaction, durations and sections of text;
    the presentation of server requests; \<open>item_from_protocol\<close> with every title and content.
  \<^item> \<open>Journal\<close>: bounding of payloads (\<open>bounded_raw_payload\<close>, \<open>truncate_middle\<close>), the stored form of
    an item and the path of the cache file.
  \<^item> \<open>Telemetry\<close>, \<open>Model\<close>, \<open>Events\<close>: the states \<open>SessionTelemetry\<close> and \<open>TranscriptModel\<close>, every operation
    on them, and \<open>apply_event\<close> with one definition per arm of its match, threaded by
    \<open>apply_batch\<close> over a batch of events with the outcome that tells the view what to redraw.
  \<^item> \<open>Snapshot\<close>, \<open>Refresh\<close>: the merge of cached and fresh items, \<open>load_thread\<close>, \<open>refresh_thread\<close> and
    \<open>merge_persisted_transcript\<close>. \<open>Session\<close>: all operations of the model as the steps of a session.
  \<^item> \<open>AppServerClient\<close>, \<open>AppServerRuns\<close>, \<open>AppServerRequests\<close>, \<open>AppServerTypes\<close>: \<open>decode_line\<close>, the messages, and
    the state and steps of the client (\<open>request\<close> in its two halves, the turns of the writer and
    the reader, \<open>disconnect\<close>); its runs are every interleaving of these steps.
  \<^item> \<open>Slices\<close>, \<open>EditorShape\<close>, \<open>EditorTrust\<close>: the binary searches on slices; the state
    \<open>TranscriptEditor\<close> with \<open>decorate\<close>, \<open>edit\<close> and \<open>apply_item_projections\<close>; and the validation of a
    document. \<open>EditorSync\<close>: \<open>sync_transcript_item_updates\<close>, \<open>sync_transcript_document\<close> and the end
    of \<open>apply_event_batch\<close> of \<open>crates/harness_app/src/main.rs\<close>, where model and editor meet.
  \<^item> \<open>EditorSearch\<close>, \<open>EditorRanges\<close>: search with its state, words, points and offsets; the segments and
    headers near the viewport, diff, Markdown and shell highlights, and tail following.
  \<^item> \<open>RequestPolicy\<close>, \<open>RequestState\<close>: of \<open>crates/harness_app/src/main.rs\<close>, the routing of server
    requests (\<open>route_server_request\<close>, \<open>safe_request_rejection\<close>, \<open>request_choices\<close>), and the state
    \<open>HarnessApp\<close> as far as it decides what happens to them: live requests, surfaces, answers, the
    switch of tasks and the connection, with the step relation \<open>app_step\<close> over all of these; its runs
    and what holds in them are \<open>RequestHandling\<close> and \<open>RequestRuns\<close>.
  \<^item> \<open>RequestForms\<close>, \<open>RequestSurface\<close>: the answers to questions and forms of \<open>main.rs\<close>
    (\<open>build_user_input_response\<close>, \<open>build_mcp_form_response\<close>), and \<open>RequestSurface\<close> of \<open>request_surface.rs\<close>
    with its cursors, fields, keyboard, mouse and submission as the step relation \<open>surface_step\<close>. A
    surface is made from the payload that the item keeps, which bounding may have replaced.
  \<^item> \<open>OutputPreview\<close>, \<open>DiffCards\<close>, \<open>OutputCards\<close>: of \<open>main.rs\<close>, the previews of long outputs with the steps of
    their button (\<open>structured_output_presentation\<close>), the files, tones and line numbers of diffs
    (\<open>diff_file_presentations\<close>, \<open>render_diff_lines\<close>), and the cards of the remaining kinds of items with
    the tokens of JSON text.
  \<^item> \<open>FoldedSearch\<close>, \<open>TranscriptSearch\<close>, \<open>TranscriptNavigation\<close>: of \<open>main.rs\<close>, the streaming matcher over
    folded characters, the list of matches with its snippets and its update after a batch, and the
    view with selection, visual mode, copying, refresh and switch of tasks, whose operations
    are \<open>view_op\<close> and whose runs are \<open>view_run\<close>.
  \<^item> \<open>StreamingDiff\<close>: the score matrix and the state \<open>StreamingDiff\<close> of \<open>streaming_diff.rs\<close>.
  \<^item> \<open>BitSelect\<close>, \<open>RopeText\<close>, \<open>RopeBits\<close>, \<open>RopeChunk\<close>, \<open>RopeMarks\<close>, \<open>RopeMeasure\<close>, \<open>RopeConvert\<close>: of
    \<open>crates/rope/src\<close>, \<open>nth_set_bit\<close>, the points and \<open>TextSummary\<close>, and \<open>Chunk\<close> with its four bitmaps as
    128-bit words. \<open>Rope\<close>, \<open>RopeFind\<close>, \<open>RopeEdit\<close>: the operations of \<open>rope.rs\<close> over the sequence of
    chunks that its sum tree holds: \<open>push\<close>, \<open>push_front\<close>, \<open>append\<close>, the conversions of
    positions, clipping, the cursor, \<open>slice\<close> and \<open>replace\<close>.
  \<^item> \<open>Clock\<close>, \<open>Locator\<close>, \<open>Patch\<close>, \<open>Subscription\<close>, \<open>KeyedTree\<close>, \<open>Operations\<close>: \<open>crates/clock/src/clock.rs\<close>,
    \<open>locator.rs\<close>, \<open>patch.rs\<close> and \<open>subscription.rs\<close> of \<open>crates/text/src\<close>, \<open>SumTree::edit\<close> of
    \<open>crates/sum_tree\<close> on sequences of items, and over it \<open>undo_map.rs\<close> and \<open>operation_queue.rs\<close>.

  \<^bold>\<open>Conventions.\<close> A struct is a record and an enum a datatype with the source's constructors. A
  method that changes \<open>self\<close> takes the state and returns it. A panic, which in this code is an
  index out of range, a slice off a character boundary or an underflow, is the value \<open>None\<close>; the
  theorems that an operation returns are stated as such. \<open>u32\<close>, \<open>u16\<close> and \<open>u64\<close> are words where
  wrapping or saturation shows (rows of a document, clocks, locators, the bitmaps of chunks);
  lengths and counters that memory bounds are natural numbers, and so are the \<open>u32\<close> rows and
  columns of ropes, for texts under 4 GiB. Shifts by the width of a word or more behave as in a
  release build, which takes the distance modulo the width (\<open>chunk_slice\<close>). A map that is only looked up is a function to an option,
  and one whose order is observed is an association list.

  \<^bold>\<open>What is proved.\<close>

  \<^item> \<open>EventProperties\<close>, over the locale \<open>stepping\<close> of \<open>Events\<close>: no batch of events panics; every batch
    keeps the invariant \<open>model_ok\<close> (the index points into the items, the journal is bounded and
    contiguously numbered, server counts agree); every item outside the dirty set of the outcome
    is unchanged, so redrawing the dirty ones is enough; the journal is the bounded end of the
    history of all events; events of another thread have no effect.
  \<^item> \<open>EventBehaviour\<close>: streaming concatenates the deltas, a request waits until it is resolved, a
    typed item that arrives twice is counted twice and otherwise the same, and the echo of a
    local message replaces it; with three cases in which an item loses its identity.
  \<^item> \<open>Projection\<close>, \<open>Document\<close>: every span of a projection lies on character boundaries inside the body,
    a document is the projections of its shown items in order with their segments moved along, its rows count its line breaks, and its windows have the
    size and place that was asked for.
  \<^item> \<open>Journal\<close>, \<open>Items\<close>, \<open>TextEdit\<close>: truncation and bounding keep their limits and UTF-8, paths stay in
    the cache directory, the text of a command separates again, and the edit between two texts
    is correct and minimal.
  \<^item> \<open>Snapshot\<close>, \<open>Refresh\<close>: the merge is the one-pass merge of the reference \<open>merged_lists\<close>, which loses
    nothing fresh and restores a cached card where a later one has a counterpart; a refresh marks
    exactly the changed items and is idempotent; a model's own snapshot adds nothing to it.
  \<^item> \<open>Session\<close>: no sequence of operations of the model, from the empty transcript, panics.
  \<^item> \<open>AppServerRuns\<close>: pending requests are exactly those without an answer, and a disconnection is told
    once, as the last event. \<open>AppServerRequests\<close>: a request gets its own response, the end of the
    stream answers all, a request begun after it may hang, and a server request is handled once.
    \<open>AppServerTypes\<close>: all traffic is well-formed.
  \<^item> \<open>EditorSync\<close>, on the main lemma of \<open>EditorShape\<close>: after a batch of events the buffer holds the text of
    the full document again, however it was updated, as long as no projection has a carriage return. \<open>EditorTrust\<close>: exactly which documents are
    decorated, with three inputs that lose their decoration.
  \<^item> \<open>EditorSearch\<close>, \<open>EditorRanges\<close>: search misses nothing, points and offsets agree, the searches over
    segments are exact, merged ranges cover exactly their spans, and highlights stay bounded.
  \<^item> \<open>RequestPolicy\<close>: what is offered and how it is shown is what is sent. \<open>RequestHandling\<close>: a request
    is answered at once or reaches the user, closing a task refuses those that wait, and an answer is
    taken once. \<open>RequestRuns\<close>: over all sequences of operations on requests and the connection nothing
    panics, only the user grants, and reconnection is bounded; a request that arrives while its
    task is loading is lost.
  \<^item> \<open>RequestForms\<close>, \<open>RequestSurface\<close>: what a surface sends answers what it shows, and a request can be
    answered from every state of its surface, unless it asks for input and its payload was left out.
  \<^item> \<open>OutputPreview\<close>, \<open>DiffCards\<close>, \<open>OutputCards\<close>: previews keep their limits and every output can be
    shown whole by at most three presses; diffs are cut at their headers with nothing lost, and
    their lines are numbered right unless a line looks like a header; the tokens of any JSON text
    lie on character boundaries in order. Where a card hides lines it calls shown is stated too.
  \<^item> \<open>FoldedSearch\<close>: the matcher finds exactly the leftmost disjoint occurrences. \<open>TranscriptSearch\<close>: the
    update after a batch is a search of everything. \<open>TranscriptNavigation\<close>: the only operation that
    can panic is copying, and only after a refresh of a read-only task or a switch of tasks.
  \<^item> \<open>StreamingDiff\<close>: however the new text is cut, the operations turn the old text into it; the way back
    through the matrix ends.
  \<^item> \<open>RopeMeasure\<close>, \<open>RopeConvert\<close>, over \<open>BitSelect\<close>, \<open>RopeBits\<close> and \<open>RopeMarks\<close>: the bitmaps of a chunk
    describe its text, so that its summary, and the conversions inside it, are those of the
    characters; with the slice at the end of a full chunk, which keeps bitmaps without text. \<open>Rope\<close>,
    \<open>RopeFind\<close>, \<open>RopeEdit\<close>: growing, slicing and replacing act on the text as on a list of bytes,
    keep the sizes of chunks and never panic, and positions convert there and back.
  \<^item> \<open>Clock\<close>, over the locale \<open>merge_order\<close>: version vectors converge in whatever order they are joined,
    and hold exactly the timestamps they were shown. \<open>Locator\<close>, over the locale \<open>dense\<close>: there is
    always room between two locators. \<open>Operations\<close>, over the locale \<open>keyed_store\<close> of \<open>KeyedTree\<close>:
    undo counts and waiting operations do not depend on the order of arrival. \<open>Patch\<close>: composing
    two patches gives a patch between the outer texts, and \<open>Subscription\<close>: a subscriber consumes one patch for all that it missed.

  \<^bold>\<open>Termination.\<close> There is no fuel: loops are structural recursions over lists, folds, or functions
  with a measure (the loop of \<open>between\<close> is bounded by the lengths of both locators, the loop of
  \<open>compose\<close> consumes an edit of either patch at each turn, the way back through the score matrix
  lowers a row or a column, and the loop that cuts a text into chunks moves forward by at least one
  character, because a chunk holds every character).

  \<^bold>\<open>Parameters.\<close> What is not in the repository is an argument: the parser of Markdown, the
  printers of JSON, Base64 and the Unicode case tables (record \<open>host\<close>), the derived
  deserialisers of telemetry (record \<open>services\<close>), the captures of the shell grammar, the
  environment and the file system, the lower case of a character, the test for valid JSON text, the
  binary floating point of the machine (record \<open>floats\<close>), and the segmentation into graphemes. Laws about
  them, where needed, are hypotheses of the statements, with concrete instances in the
  witnesses.

  \<^bold>\<open>Not modelled.\<close> Writing the cache file and the replay fixtures of \<open>harness_protocol\<close>; the
  launch of the child process, its pipes and the derived deserialisers of \<open>codex_app_server_client\<close>;
  the buffer that uses clocks, locators, patches, stores and ropes (\<open>text.rs\<close>, with its anchors); the
  balanced tree of \<open>sum_tree\<close>, whose nodes and cursors appear only as the sequence of items they
  hold; the iterators of ropes over chunks, bytes and lines; the diff of lines of \<open>streaming_diff.rs\<close>;
  the anchors, blocks, folds, fonts and painting of the editor widget, the supplements that are
  mounted in it, and the windows and views, which render and call the platform.
\<close>

end
